(* ===== verification/Prelude.thy ===== *)
theory Prelude
  imports Main "HOL-Library.Word" "HOL-Library.Multiset"
begin

text \<open>
  Shared vocabulary of the development: the exceptions of the library as values, the error
  monad the operations are written in with its weakest-precondition rules, loops over arrays,
  flag bytes, and the list lemmas (swap-removal, updates) that several components use.
\<close>

unbundle bit_operations_syntax

named_theorems wp_simps \<open>weakest-precondition rules of the error monad\<close>

subsection \<open>Errors as values\<close>

text \<open>
  The exception classes thrown by the modelled code (\<open>livingstone/L2_assert.h\<close>). A failed
  C \<open>assert\<close> is \<open>Assert_failed\<close>. The last two belong to the model only: \<open>Bad_pointer\<close> is the
  access through a null pointer or to a deleted object, \<open>Out_of_fuel\<close> the value of a
  loop whose fuel did not suffice; the theorems show that neither is ever reached.
\<close>

datatype l2_error =
    L2_fatal_error
  | L2_bounds_error
  | L2_not_found_error
  | L2_argument_error
  | L2_disabled_error
  | L2_reader_error
  | L2_empty_model_error
  | L2_optimizer_error
  | L2_writer_error
  | L2_initialization_error
  | Assert_failed
  | Bad_pointer
  | Out_of_fuel

type_synonym 'a res = "l2_error + 'a"

definition rbind :: "'a res \<Rightarrow> ('a \<Rightarrow> 'b res) \<Rightarrow> 'b res" where
  "rbind m f = (case m of Inl e \<Rightarrow> Inl e | Inr x \<Rightarrow> f x)"

text \<open>\<open>L2_assert(cond, xcp, args)\<close>, and C's \<open>assert\<close> with \<open>Assert_failed\<close>.\<close>

definition l2_assert :: "bool \<Rightarrow> l2_error \<Rightarrow> unit res" where
  "l2_assert b e = (if b then Inr () else Inl e)"

text \<open>A loop over the elements of an array, in order; the body may fail.\<close>

fun rfold :: "('x \<Rightarrow> 's \<Rightarrow> 's res) \<Rightarrow> 'x list \<Rightarrow> 's \<Rightarrow> 's res" where
  "rfold f [] s = Inr s"
| "rfold f (x # xs) s = rbind (f x s) (rfold f xs)"

definition returns :: "'a res \<Rightarrow> ('a \<Rightarrow> bool) \<Rightarrow> bool" where
  "returns m P = (case m of Inl e \<Rightarrow> False | Inr x \<Rightarrow> P x)"

lemma rbind_simps [simp]:
  "rbind (Inl e) f = Inl e"
  "rbind (Inr x) f = f x"
  by (simp_all add: rbind_def)

lemma returns_Inr [simp, wp_simps]: "returns (Inr x) P = P x"
  by (simp add: returns_def)

lemma returns_Inl [simp, wp_simps]: "returns (Inl e) P = False"
  by (simp add: returns_def)

lemma returns_rbind [simp, wp_simps]: "returns (rbind m f) P = returns m (\<lambda>x. returns (f x) P)"
  by (cases m) (simp_all add: rbind_def returns_def)

lemma returns_assert [simp, wp_simps]: "returns (l2_assert b e) P = (b \<and> P ())"
  by (simp add: l2_assert_def)

lemma returns_if [wp_simps]:
  "returns (if b then m else n) P = (if b then returns m P else returns n P)"
  by simp

lemma returnsE:
  assumes "returns m P"
  obtains x where "m = Inr x" "P x"
  using assms by (cases m) auto

lemma returns_iff: "returns m P \<longleftrightarrow> (\<exists>x. m = Inr x \<and> P x)"
  by (cases m) auto

lemma returns_mono: "returns m P \<Longrightarrow> (\<And>x. P x \<Longrightarrow> Q x) \<Longrightarrow> returns m Q"
  by (cases m) auto

lemma returns_conj: "returns m P \<Longrightarrow> returns m Q \<Longrightarrow> returns m (\<lambda>x. P x \<and> Q x)"
  by (cases m) auto

lemma rfold_append: "rfold f (xs @ ys) s = rbind (rfold f xs s) (rfold f ys)"
  by (induction xs arbitrary: s) (auto simp: rbind_def split: sum.splits)

lemma rbind_assoc: "rbind (rbind m f) g = rbind m (\<lambda>x. rbind (f x) g)"
  by (simp add: rbind_def split: sum.splits)

text \<open>The loop rule: an invariant over the elements already processed.\<close>

lemma rfold_rule:
  assumes "I [] s"
    and "\<And>xs x ys s. \<lbrakk>zs = xs @ x # ys; I xs s\<rbrakk> \<Longrightarrow> returns (f x s) (I (xs @ [x]))"
  shows "returns (rfold f zs s) (I zs)"
proof -
  have "returns (rfold f ys t) (I zs)" if "zs = xs @ ys" "I xs t" for xs ys t
    using that
  proof (induction ys arbitrary: xs t)
    case Nil
    then show ?case by simp
  next
    case (Cons y ys)
    have "returns (f y t) (I (xs @ [y]))"
      using assms(2) Cons.prems by blast
    then have "returns (f y t) (\<lambda>u. returns (rfold f ys u) (I zs))"
      by (rule returns_mono) (rule Cons.IH [of "xs @ [y]"], use Cons.prems in simp_all)
    then show ?case by simp
  qed
  from this [of "[]" zs s] assms(1) show ?thesis by simp
qed

subsection \<open>Flag bytes\<close>

text \<open>
  The boolean properties of a clause or a proposition are the bits of one \<open>unsigned char\<close>,
  read and written through a mask.
\<close>

type_synonym flags = "8 word"

definition get_flag :: "flags \<Rightarrow> flags \<Rightarrow> bool" where
  "get_flag fl mk = ((fl AND mk) \<noteq> 0)"

definition set_flag :: "bool \<Rightarrow> flags \<Rightarrow> flags \<Rightarrow> flags" where
  "set_flag b mk fl = (if b then fl OR mk else fl AND NOT mk)"

lemma get_set_flag_same [simp]: "mk \<noteq> 0 \<Longrightarrow> get_flag (set_flag b mk fl) mk = b"
  by (simp add: get_flag_def set_flag_def and.assoc or.commute bit.conj_disj_distrib2)

lemma get_set_flag_other: "mk AND mk' = 0 \<Longrightarrow> get_flag (set_flag b mk fl) mk' = get_flag fl mk'"
proof -
  assume dis: "mk AND mk' = 0"
  have "(fl OR mk) AND mk' = fl AND mk'"
    using dis by (simp add: bit.conj_disj_distrib2)
  moreover have "(fl AND NOT mk) AND mk' = fl AND mk'"
  proof (rule bit_word_eqI)
    fix n
    assume "n < LENGTH(8)"
    have "\<not> (bit mk n \<and> bit mk' n)"
      using dis by (metis bit_and_iff bit_0_eq bot_apply bot_bool_def)
    with \<open>n < LENGTH(8)\<close> show "bit ((fl AND NOT mk) AND mk') n = bit (fl AND mk') n"
      by (auto simp: bit_simps)
  qed
  ultimately show ?thesis
    by (simp add: get_flag_def set_flag_def)
qed

lemma get_flag_0 [simp]: "get_flag 0 mk = False"
  by (simp add: get_flag_def)

subsection \<open>Lists\<close>

text \<open>Constant-time removal: the last element takes the place of the one removed.\<close>

definition swap_remove :: "nat \<Rightarrow> 'a list \<Rightarrow> 'a list" where
  "swap_remove i xs = (if i = length xs - 1 then butlast xs else (butlast xs)[i := last xs])"

lemma length_swap_remove [simp]: "length (swap_remove i xs) = length xs - 1"
  by (simp add: swap_remove_def)

lemma nth_swap_remove:
  "i < length xs \<Longrightarrow> j < length xs - 1 \<Longrightarrow>
   swap_remove i xs ! j = (if j = i then last xs else xs ! j)"
  by (auto simp: swap_remove_def nth_butlast)

lemma swap_remove_snoc [simp]:
  "swap_remove i (xs @ [x]) = (if i = length xs then xs else xs[i := x])"
  by (simp add: swap_remove_def)

lemma mset_swap_remove:
  assumes "i < length xs"
  shows "mset (swap_remove i xs) = mset xs - {#xs ! i#}"
  using assms
  by (cases xs rule: rev_cases) (auto simp: nth_append mset_update less_Suc_eq)

lemma distinct_swap_remove: "distinct xs \<Longrightarrow> i < length xs \<Longrightarrow> distinct (swap_remove i xs)"
  by (cases xs rule: rev_cases) (auto simp: distinct_list_update)

lemma set_swap_remove:
  assumes "distinct xs" "i < length xs"
  shows "set (swap_remove i xs) = set xs - {xs ! i}"
proof -
  have "set_mset (mset xs - {#xs ! i#}) = set_mset (mset xs) - {xs ! i}"
    using assms by (simp flip: mset_remove1 add: set_remove1_eq)
  then show ?thesis
    using mset_swap_remove [OF assms(2)] by (metis set_mset_mset)
qed

text \<open>
  The loop that sweeps an array: the element at the index is either removed (the last element
  takes its place and is examined next) or passed over. The action sees every removed element.
\<close>

function array_sweep ::
  "('s \<Rightarrow> 'x \<Rightarrow> bool) \<Rightarrow> ('x \<Rightarrow> 's \<Rightarrow> 's) \<Rightarrow> nat \<Rightarrow> 'x list \<Rightarrow> 's \<Rightarrow> 'x list \<times> 's" where
  "array_sweep marked act i xs s =
     (if i < length xs then
        if marked s (xs ! i) then array_sweep marked act i (swap_remove i xs) (act (xs ! i) s)
        else array_sweep marked act (Suc i) xs s
      else (xs, s))"
  by pat_completeness auto
termination
  by (relation "measure (\<lambda>(marked, act, i, xs, s). length xs - i)") auto

declare array_sweep.simps [simp del]

text \<open>
  When the action does not touch the marks of the elements still in the array, the sweep keeps
  exactly the unmarked elements, and an invariant of the action holds for the elements it has seen.
\<close>

lemma array_sweep_rule:
  assumes "distinct xs" "i \<le> length xs" "\<forall>j < i. \<not> mk (xs ! j)" "I D s"
    and "\<forall>x \<in> set xs. \<forall>D s. I D s \<longrightarrow> x \<notin> D \<longrightarrow> marked s x = mk x"
    and "\<And>x D s. x \<in> set xs \<Longrightarrow> mk x \<Longrightarrow> x \<notin> D \<Longrightarrow> I D s \<Longrightarrow> I (insert x D) (act x s)"
    and "set xs \<inter> D = {}"
  shows "case array_sweep marked act i xs s of (ys, t) \<Rightarrow>
     distinct ys \<and> set ys = {x \<in> set xs. \<not> mk x} \<and> I (D \<union> {x \<in> set xs. mk x}) t"
  using assms
proof (induction marked act i xs s arbitrary: D rule: array_sweep.induct)
  case (1 marked act i xs s)
  note dist = "1.prems"(1) and ile = "1.prems"(2) and before = "1.prems"(3) and inv = "1.prems"(4)
    and marks = "1.prems"(5) and step = "1.prems"(6) and disj = "1.prems"(7)
  show ?case
  proof (cases "i < length xs")
    case False
    with ile have "i = length xs" by simp
    with before have none: "\<forall>x \<in> set xs. \<not> mk x" by (auto simp: in_set_conv_nth)
    then have "D \<union> {x \<in> set xs. mk x} = D" "{x \<in> set xs. \<not> mk x} = set xs" by auto
    moreover have "array_sweep marked act i xs s = (xs, s)"
      using False by (subst array_sweep.simps) simp
    ultimately show ?thesis
      using inv dist by (simp only: prod.case)
  next
    case True
    then have mem: "xs ! i \<in> set xs" by simp
    have mi: "marked s (xs ! i) = mk (xs ! i)" using marks mem inv disj by auto
    show ?thesis
    proof (cases "mk (xs ! i)")
      case unmarked: False
      have eq: "array_sweep marked act i xs s = array_sweep marked act (Suc i) xs s"
        using True unmarked mi by (subst array_sweep.simps) auto
      have "\<not> marked s (xs ! i)" using unmarked mi by auto
      then show ?thesis
        unfolding eq using "1.IH"(2) [OF True _ dist _ _ inv marks step disj] True before unmarked
        by (auto simp: less_Suc_eq)
    next
      case mk: True
      let ?xs = "swap_remove i xs" and ?s = "act (xs ! i) s" and ?D = "insert (xs ! i) D"
      have m: "marked s (xs ! i)" using mk mi by auto
      have eq: "array_sweep marked act i xs s = array_sweep marked act i ?xs ?s"
        using True m by (subst array_sweep.simps) auto
      have set': "set ?xs = set xs - {xs ! i}" using True dist by (simp add: set_swap_remove)
      have 1: "distinct ?xs" using True dist by (simp add: distinct_swap_remove)
      have 2: "i \<le> length ?xs" using True by simp
      have 3: "\<forall>j < i. \<not> mk (?xs ! j)" using True before by (simp add: nth_swap_remove)
      have 4: "I ?D ?s" using step [OF mem mk] disj mem inv by auto
      have 5: "\<forall>x \<in> set ?xs. \<forall>D s. I D s \<longrightarrow> x \<notin> D \<longrightarrow> marked s x = mk x" using marks set' by auto
      have 6: "\<And>x D s. x \<in> set ?xs \<Longrightarrow> mk x \<Longrightarrow> x \<notin> D \<Longrightarrow> I D s \<Longrightarrow> I (insert x D) (act x s)"
        using step set' by auto
      have 7: "set ?xs \<inter> ?D = {}" using set' disj by auto
      have "{x \<in> set xs. \<not> mk x} = {x \<in> set ?xs. \<not> mk x}"
        "D \<union> {x \<in> set xs. mk x} = ?D \<union> {x \<in> set ?xs. mk x}"
        using set' mk mem by auto
      then show ?thesis
        unfolding eq using "1.IH"(1) [OF True m 1 2 3 4 5 6 7] by simp
    qed
  qed
qed

end
