(* ===== verification/Slist_Spec.thy ===== *)
theory Slist_Spec
  imports Prelude
begin

text \<open>
  The abstract reading of the singly linked lists of \<open>mba_utils/slist.h\<close>: an \<open>Slist\<close> stands
  for the HOL list of its items from head to tail, and each operation for a function on lists.
  The clients of the lists are modelled over these functions.
\<close>

text \<open>\<open>Slist::remove_duplicates\<close>: the first occurrence of a value stays, later ones go.\<close>

fun slist_remove_duplicates :: "'a list \<Rightarrow> 'a list" where
  "slist_remove_duplicates [] = []"
| "slist_remove_duplicates (x # xs) = x # slist_remove_duplicates (filter (\<lambda>y. x \<noteq> y) xs)"

lemma set_slist_remove_duplicates [simp]: "set (slist_remove_duplicates xs) = set xs"
  by (induction xs rule: slist_remove_duplicates.induct) auto

lemma distinct_slist_remove_duplicates [simp]: "distinct (slist_remove_duplicates xs)"
  by (induction xs rule: slist_remove_duplicates.induct) auto

lemma slist_remove_duplicates_distinct [simp]:
  "distinct xs \<Longrightarrow> slist_remove_duplicates xs = xs"
proof (induction xs rule: slist_remove_duplicates.induct)
  case (2 x xs)
  then have "filter (\<lambda>y. x \<noteq> y) xs = xs"
    by (auto simp: filter_id_conv)
  with 2 show ?case by simp
qed simp

lemma length_slist_remove_duplicates: "length (slist_remove_duplicates xs) = card (set xs)"
  by (metis distinct_card distinct_slist_remove_duplicates set_slist_remove_duplicates)

text \<open>\<open>Slist::remove_first\<close>: the first item equal to the value is dropped.\<close>

abbreviation slist_remove_first :: "'a \<Rightarrow> 'a list \<Rightarrow> 'a list" where
  "slist_remove_first \<equiv> remove1"

text \<open>\<open>Slist::remove\<close>: every item equal to the value is dropped.\<close>

abbreviation slist_remove :: "'a \<Rightarrow> 'a list \<Rightarrow> 'a list" where
  "slist_remove \<equiv> removeAll"

text \<open>\<open>Slist::operator-=\<close>: every item that occurs in the other list is dropped.\<close>

fun slist_minus :: "'a list \<Rightarrow> 'a list \<Rightarrow> 'a list" where
  "slist_minus xs [] = xs"
| "slist_minus xs (y # ys) = slist_minus (slist_remove y xs) ys"

lemma slist_minus_filter: "slist_minus xs ys = filter (\<lambda>x. x \<notin> set ys) xs"
  by (induction xs ys rule: slist_minus.induct)
     (auto simp: removeAll_filter_not_eq intro: filter_cong)

lemma set_slist_minus [simp]: "set (slist_minus xs ys) = set xs - set ys"
  by (auto simp: slist_minus_filter)

end
