(* ===== verification/Tms_Clause.thy ===== *)
theory Tms_Clause
  imports Slist_Spec
begin

text \<open>
  Propositions and clauses of the truth maintenance system (\<open>tms/proposition.h\<close>,
  \<open>tms/proposition.cpp\<close>, \<open>tms/clause.h\<close>, \<open>tms/clause.cpp\<close>): the two object types, their flag
  bytes, and the queries and updates of a single object. Pointers are numbers; an \<open>Array\<close> of
  pointers is a list; a null pointer is \<open>None\<close>.
\<close>

type_synonym prop_id = nat
type_synonym clause_id = nat

subsection \<open>Propositions\<close>

datatype truth_value_t = PFALSE | PTRUE | UNKNOWN

record prop_obj =
  p_flags :: flags
  tv :: truth_value_t
  positive :: "clause_id list"
  negative :: "clause_id list"
  supported_by :: "clause_id option"

type_synonym prop_heap = "prop_id \<Rightarrow> prop_obj"

definition P_TRACE :: flags where "P_TRACE = 1"
definition P_BREAK :: flags where "P_BREAK = 2"
definition P_DESTROYING :: flags where "P_DESTROYING = 4"

definition new_proposition :: prop_obj where
  "new_proposition = \<lparr>p_flags = 0, tv = UNKNOWN, positive = [], negative = [], supported_by = None\<rparr>"

text \<open>\<open>Proposition::initialize\<close>: forget the value and its support; the flags stay.\<close>

definition prop_initialize :: "prop_obj \<Rightarrow> prop_obj" where
  "prop_initialize p = p\<lparr>tv := UNKNOWN, supported_by := None\<rparr>"

definition isTrue :: "prop_obj \<Rightarrow> bool" where "isTrue p \<longleftrightarrow> tv p = PTRUE"
definition isFalse :: "prop_obj \<Rightarrow> bool" where "isFalse p \<longleftrightarrow> tv p = PFALSE"
definition isUnknown :: "prop_obj \<Rightarrow> bool" where "isUnknown p \<longleftrightarrow> tv p = UNKNOWN"

definition prop_is_destroying :: "prop_obj \<Rightarrow> bool" where
  "prop_is_destroying p = get_flag (p_flags p) P_DESTROYING"

text \<open>
  \<open>remove_positive\<close> and \<open>remove_negative\<close>: the first occurrence of the clause is erased from the
  array, the last element taking its place.
\<close>

fun index_of :: "'a \<Rightarrow> 'a list \<Rightarrow> nat option" where
  "index_of x [] = None"
| "index_of x (y # ys) = (if x = y then Some 0 else map_option Suc (index_of x ys))"

definition array_erase_first :: "'a \<Rightarrow> 'a list \<Rightarrow> 'a list" where
  "array_erase_first x xs = (case index_of x xs of None \<Rightarrow> xs | Some i \<Rightarrow> swap_remove i xs)"

definition add_positive :: "clause_id \<Rightarrow> prop_obj \<Rightarrow> prop_obj" where
  "add_positive c p = p\<lparr>positive := positive p @ [c]\<rparr>"

definition add_negative :: "clause_id \<Rightarrow> prop_obj \<Rightarrow> prop_obj" where
  "add_negative c p = p\<lparr>negative := negative p @ [c]\<rparr>"

definition remove_positive :: "clause_id \<Rightarrow> prop_obj \<Rightarrow> prop_obj" where
  "remove_positive c p = p\<lparr>positive := array_erase_first c (positive p)\<rparr>"

definition remove_negative :: "clause_id \<Rightarrow> prop_obj \<Rightarrow> prop_obj" where
  "remove_negative c p = p\<lparr>negative := array_erase_first c (negative p)\<rparr>"

lemma index_of_None [simp]: "index_of x xs = None \<longleftrightarrow> x \<notin> set xs"
  by (induction xs) auto

lemma index_of_Some: "index_of x xs = Some i \<Longrightarrow> i < length xs \<and> xs ! i = x"
  by (induction xs arbitrary: i) (auto split: if_splits)

lemma mset_array_erase_first [simp]: "mset (array_erase_first x xs) = mset xs - {#x#}"
  by (auto simp: array_erase_first_def mset_swap_remove diff_single_trivial
      split: option.splits dest: index_of_Some)

lemma distinct_array_erase_first [simp]: "distinct xs \<Longrightarrow> distinct (array_erase_first x xs)"
  by (auto simp: array_erase_first_def distinct_swap_remove split: option.splits dest: index_of_Some)

lemma set_array_erase_first [simp]: "distinct xs \<Longrightarrow> set (array_erase_first x xs) = set xs - {x}"
  by (auto simp: array_erase_first_def set_swap_remove split: option.splits dest: index_of_Some)

subsection \<open>Clauses\<close>

text \<open>
  \<open>length_t\<close> is \<open>signed char\<close>: conversions to it wrap. \<open>supports\<close> is an index into the literals,
  \<open>NO_PROPOSITION\<close> being \<open>-1\<close>.
\<close>

definition to_length_t :: "int \<Rightarrow> int" where
  "to_length_t n = (n + 128) mod 256 - 128"

lemma to_length_t_small [simp]: "- 128 \<le> n \<Longrightarrow> n < 128 \<Longrightarrow> to_length_t n = n"
  by (simp add: to_length_t_def)

record clause =
  num_lits :: int
  num_pos_lits :: int
  num_unassigned :: int
  supports :: int
  c_flags :: flags
  fringe_index :: nat
  c_time_stamp :: "16 word"
  satisfying_prop :: "prop_id option"
  clause_datum :: "nat option"
  literals :: "prop_id list"

type_synonym clause_heap = "clause_id \<Rightarrow> clause"

definition NO_PROPOSITION :: int where "NO_PROPOSITION = - 1"

definition DELETED :: flags where "DELETED = 1"
definition IN_FRINGE :: flags where "IN_FRINGE = 2"
definition UNSATISFIED :: flags where "UNSATISFIED = 4"
definition TRACE :: flags where "TRACE = 8"
definition BREAK :: flags where "BREAK = 16"
definition VOLATILE :: flags where "VOLATILE = 32"
definition DESTROYING :: flags where "DESTROYING = 64"
definition TRANSITION :: flags where "TRANSITION = 128"

lemmas flag_defs = DELETED_def IN_FRINGE_def UNSATISFIED_def TRACE_def BREAK_def VOLATILE_def
  DESTROYING_def TRANSITION_def

definition is_deleted :: "clause \<Rightarrow> bool" where "is_deleted c = get_flag (c_flags c) DELETED"
definition is_in_fringe :: "clause \<Rightarrow> bool" where "is_in_fringe c = get_flag (c_flags c) IN_FRINGE"
definition is_unsatisfied :: "clause \<Rightarrow> bool" where "is_unsatisfied c = get_flag (c_flags c) UNSATISFIED"
definition is_volatile :: "clause \<Rightarrow> bool" where "is_volatile c = get_flag (c_flags c) VOLATILE"
definition is_destroying :: "clause \<Rightarrow> bool" where "is_destroying c = get_flag (c_flags c) DESTROYING"

definition set_deleted :: "bool \<Rightarrow> clause \<Rightarrow> clause" where
  "set_deleted b c = c\<lparr>c_flags := set_flag b DELETED (c_flags c)\<rparr>"
definition set_unsatisfied :: "bool \<Rightarrow> clause \<Rightarrow> clause" where
  "set_unsatisfied b c = c\<lparr>c_flags := set_flag b UNSATISFIED (c_flags c)\<rparr>"
definition set_destroying :: "clause \<Rightarrow> clause" where
  "set_destroying c = c\<lparr>c_flags := set_flag True DESTROYING (c_flags c)\<rparr>"
definition set_in_fringe :: "nat \<Rightarrow> clause \<Rightarrow> clause" where
  "set_in_fringe i c = c\<lparr>c_flags := set_flag True IN_FRINGE (c_flags c), fringe_index := i\<rparr>"
definition take_from_fringe :: "clause \<Rightarrow> clause" where
  "take_from_fringe c = c\<lparr>c_flags := set_flag False IN_FRINGE (c_flags c)\<rparr>"
definition clause_is_transition :: "clause \<Rightarrow> bool" where
  "clause_is_transition c = get_flag (c_flags c) TRANSITION"
definition set_transition :: "bool \<Rightarrow> clause \<Rightarrow> clause" where
  "set_transition b c = c\<lparr>c_flags := set_flag b TRANSITION (c_flags c)\<rparr>"

lemma flag_query_simps [simp]:
  "is_deleted (set_deleted b c) = b"
  "is_in_fringe (set_deleted b c) = is_in_fringe c"
  "is_unsatisfied (set_deleted b c) = is_unsatisfied c"
  "is_volatile (set_deleted b c) = is_volatile c"
  "is_destroying (set_deleted b c) = is_destroying c"
  "is_deleted (set_unsatisfied b c) = is_deleted c"
  "is_in_fringe (set_unsatisfied b c) = is_in_fringe c"
  "is_unsatisfied (set_unsatisfied b c) = b"
  "is_volatile (set_unsatisfied b c) = is_volatile c"
  "is_destroying (set_unsatisfied b c) = is_destroying c"
  "is_deleted (set_in_fringe i c) = is_deleted c"
  "is_in_fringe (set_in_fringe i c) = True"
  "is_unsatisfied (set_in_fringe i c) = is_unsatisfied c"
  "is_volatile (set_in_fringe i c) = is_volatile c"
  "is_destroying (set_in_fringe i c) = is_destroying c"
  "is_deleted (take_from_fringe c) = is_deleted c"
  "is_in_fringe (take_from_fringe c) = False"
  "is_unsatisfied (take_from_fringe c) = is_unsatisfied c"
  "is_volatile (take_from_fringe c) = is_volatile c"
  "is_destroying (take_from_fringe c) = is_destroying c"
  "is_deleted (set_destroying c) = is_deleted c"
  "is_in_fringe (set_destroying c) = is_in_fringe c"
  "is_unsatisfied (set_destroying c) = is_unsatisfied c"
  "is_volatile (set_destroying c) = is_volatile c"
  "is_destroying (set_destroying c) = True"
  by (simp_all add: is_deleted_def is_in_fringe_def is_unsatisfied_def is_volatile_def is_destroying_def
      set_deleted_def set_unsatisfied_def set_in_fringe_def take_from_fringe_def set_destroying_def
      flag_defs get_set_flag_other)

lemma flag_update_simps [simp]:
  "num_lits (set_deleted b c) = num_lits c" "num_pos_lits (set_deleted b c) = num_pos_lits c"
  "num_unassigned (set_deleted b c) = num_unassigned c" "supports (set_deleted b c) = supports c"
  "satisfying_prop (set_deleted b c) = satisfying_prop c" "literals (set_deleted b c) = literals c"
  "fringe_index (set_deleted b c) = fringe_index c" "clause_datum (set_deleted b c) = clause_datum c"
  "num_lits (set_unsatisfied b c) = num_lits c" "num_pos_lits (set_unsatisfied b c) = num_pos_lits c"
  "num_unassigned (set_unsatisfied b c) = num_unassigned c" "supports (set_unsatisfied b c) = supports c"
  "satisfying_prop (set_unsatisfied b c) = satisfying_prop c" "literals (set_unsatisfied b c) = literals c"
  "fringe_index (set_unsatisfied b c) = fringe_index c" "clause_datum (set_unsatisfied b c) = clause_datum c"
  "num_lits (set_in_fringe i c) = num_lits c" "num_pos_lits (set_in_fringe i c) = num_pos_lits c"
  "num_unassigned (set_in_fringe i c) = num_unassigned c" "supports (set_in_fringe i c) = supports c"
  "satisfying_prop (set_in_fringe i c) = satisfying_prop c" "literals (set_in_fringe i c) = literals c"
  "fringe_index (set_in_fringe i c) = i" "clause_datum (set_in_fringe i c) = clause_datum c"
  "num_lits (take_from_fringe c) = num_lits c" "num_pos_lits (take_from_fringe c) = num_pos_lits c"
  "num_unassigned (take_from_fringe c) = num_unassigned c" "supports (take_from_fringe c) = supports c"
  "satisfying_prop (take_from_fringe c) = satisfying_prop c" "literals (take_from_fringe c) = literals c"
  "fringe_index (take_from_fringe c) = fringe_index c" "clause_datum (take_from_fringe c) = clause_datum c"
  "c_time_stamp (set_deleted b c) = c_time_stamp c" "c_time_stamp (set_unsatisfied b c) = c_time_stamp c"
  "c_time_stamp (set_in_fringe i c) = c_time_stamp c" "c_time_stamp (take_from_fringe c) = c_time_stamp c"
  by (simp_all add: set_deleted_def set_unsatisfied_def set_in_fringe_def take_from_fringe_def)

lemma flag_of_record_update [simp]:
  "is_deleted (c\<lparr>num_unassigned := n\<rparr>) = is_deleted c"
  "is_deleted (c\<lparr>satisfying_prop := sp\<rparr>) = is_deleted c"
  "is_deleted (c\<lparr>supports := k\<rparr>) = is_deleted c"
  "is_deleted (c\<lparr>c_time_stamp := t\<rparr>) = is_deleted c"
  "is_in_fringe (c\<lparr>num_unassigned := n\<rparr>) = is_in_fringe c"
  "is_in_fringe (c\<lparr>satisfying_prop := sp\<rparr>) = is_in_fringe c"
  "is_in_fringe (c\<lparr>supports := k\<rparr>) = is_in_fringe c"
  "is_in_fringe (c\<lparr>c_time_stamp := t\<rparr>) = is_in_fringe c"
  "is_unsatisfied (c\<lparr>num_unassigned := n\<rparr>) = is_unsatisfied c"
  "is_unsatisfied (c\<lparr>satisfying_prop := sp\<rparr>) = is_unsatisfied c"
  "is_unsatisfied (c\<lparr>supports := k\<rparr>) = is_unsatisfied c"
  "is_unsatisfied (c\<lparr>c_time_stamp := t\<rparr>) = is_unsatisfied c"
  "is_volatile (c\<lparr>num_unassigned := n\<rparr>) = is_volatile c"
  "is_volatile (c\<lparr>satisfying_prop := sp\<rparr>) = is_volatile c"
  "is_volatile (c\<lparr>supports := k\<rparr>) = is_volatile c"
  "is_volatile (c\<lparr>c_time_stamp := t\<rparr>) = is_volatile c"
  "is_destroying (c\<lparr>num_unassigned := n\<rparr>) = is_destroying c"
  "is_destroying (c\<lparr>satisfying_prop := sp\<rparr>) = is_destroying c"
  "is_destroying (c\<lparr>supports := k\<rparr>) = is_destroying c"
  "is_destroying (c\<lparr>c_time_stamp := t\<rparr>) = is_destroying c"
  by (simp_all add: is_deleted_def is_in_fringe_def is_unsatisfied_def is_volatile_def is_destroying_def)

lemma set_transition_simps [simp]:
  "is_deleted (set_transition b c) = is_deleted c" "is_in_fringe (set_transition b c) = is_in_fringe c"
  "is_unsatisfied (set_transition b c) = is_unsatisfied c" "is_volatile (set_transition b c) = is_volatile c"
  "is_destroying (set_transition b c) = is_destroying c" "clause_is_transition (set_transition b c) = b"
  "num_lits (set_transition b c) = num_lits c" "num_pos_lits (set_transition b c) = num_pos_lits c"
  "num_unassigned (set_transition b c) = num_unassigned c" "supports (set_transition b c) = supports c"
  "fringe_index (set_transition b c) = fringe_index c" "c_time_stamp (set_transition b c) = c_time_stamp c"
  "satisfying_prop (set_transition b c) = satisfying_prop c" "clause_datum (set_transition b c) = clause_datum c"
  "literals (set_transition b c) = literals c"
  by (simp_all add: is_deleted_def is_in_fringe_def is_unsatisfied_def is_volatile_def is_destroying_def
      clause_is_transition_def set_transition_def flag_defs get_set_flag_other)

subsection \<open>Literals\<close>

text \<open>
  The literals of a clause, in array order: the first \<open>num_pos_lits\<close> are positive. This is how
  every loop over a clause reads the array.
\<close>

type_synonym lit = "prop_id \<times> bool"

definition clause_lits :: "clause \<Rightarrow> lit list" where
  "clause_lits c = map (\<lambda>i. (literals c ! i, int i < num_pos_lits c)) [0..<nat (num_lits c)]"

definition pos_literals :: "clause \<Rightarrow> prop_id list" where
  "pos_literals c = take (nat (num_pos_lits c)) (literals c)"

definition neg_literals :: "clause \<Rightarrow> prop_id list" where
  "neg_literals c = drop (nat (num_pos_lits c)) (take (nat (num_lits c)) (literals c))"

text \<open>The truth value of a literal under the values of the propositions.\<close>

fun negate_tv :: "truth_value_t \<Rightarrow> truth_value_t" where
  "negate_tv PTRUE = PFALSE"
| "negate_tv PFALSE = PTRUE"
| "negate_tv UNKNOWN = UNKNOWN"

definition lit_tv :: "prop_heap \<Rightarrow> lit \<Rightarrow> truth_value_t" where
  "lit_tv ph l = (if snd l then tv (ph (fst l)) else negate_tv (tv (ph (fst l))))"

text \<open>A clause object whose fields agree with its array of literals.\<close>

definition wf_clause :: "clause \<Rightarrow> bool" where
  "wf_clause c \<longleftrightarrow> 0 \<le> num_pos_lits c \<and> num_pos_lits c \<le> num_lits c \<and>
     num_lits c = int (length (literals c)) \<and> num_lits c < 128 \<and> distinct (clause_lits c)"

lemma negate_tv_iff [simp]:
  "negate_tv v = UNKNOWN \<longleftrightarrow> v = UNKNOWN"
  "negate_tv v = PTRUE \<longleftrightarrow> v = PFALSE"
  "negate_tv v = PFALSE \<longleftrightarrow> v = PTRUE"
  by (cases v; simp)+

lemma length_clause_lits [simp]: "length (clause_lits c) = nat (num_lits c)"
  by (simp add: clause_lits_def)

lemma clause_lits_append:
  assumes "wf_clause c"
  shows "clause_lits c = map (\<lambda>p. (p, True)) (pos_literals c) @ map (\<lambda>p. (p, False)) (neg_literals c)"
  using assms
  by (intro nth_equalityI)
     (auto simp: clause_lits_def pos_literals_def neg_literals_def wf_clause_def nth_append min_def)

subsection \<open>Queries on a clause\<close>

text \<open>\<open>Clause::find_satisfying_prop\<close>: the first literal that is true.\<close>

definition find_satisfying_prop :: "prop_heap \<Rightarrow> clause \<Rightarrow> prop_id option" where
  "find_satisfying_prop ph c =
     map_option (\<lambda>i. literals c ! i)
       (find (\<lambda>i. (int i < num_pos_lits c \<and> isTrue (ph (literals c ! i))) \<or>
                  (num_pos_lits c \<le> int i \<and> isFalse (ph (literals c ! i))))
             [0..<nat (num_lits c)])"

text \<open>\<open>Clause::get_unassigned_literal\<close>: the first unknown proposition, with its sign.\<close>

definition get_unassigned_literal :: "prop_heap \<Rightarrow> clause \<Rightarrow> lit res" where
  "get_unassigned_literal ph c =
     (case find (\<lambda>i. isUnknown (ph (literals c ! i))) [0..<nat (num_lits c)] of
        None \<Rightarrow> Inl L2_fatal_error
      | Some i \<Rightarrow> Inr (literals c ! i, int i < num_pos_lits c))"

definition count_unassigned :: "prop_heap \<Rightarrow> clause \<Rightarrow> int" where
  "count_unassigned ph c =
     fold (\<lambda>i n. if isUnknown (ph (literals c ! i)) then n + 1 else n) [0..<nat (num_lits c)] 0"

definition clause_contains :: "prop_id \<Rightarrow> clause \<Rightarrow> bool" where
  "clause_contains p c = list_ex (\<lambda>i. literals c ! i = p) [0..<nat (num_lits c)]"

text \<open>\<open>Clause::set_supports\<close>: the supported proposition is stored as an index.\<close>

definition set_supports :: "prop_id option \<Rightarrow> clause \<Rightarrow> clause res" where
  "set_supports target c =
     (case target of
        None \<Rightarrow> Inr (c\<lparr>supports := NO_PROPOSITION\<rparr>)
      | Some p \<Rightarrow>
         (case find (\<lambda>i. literals c ! i = p) [0..<nat (num_lits c)] of
            None \<Rightarrow> Inl L2_fatal_error
          | Some i \<Rightarrow> Inr (c\<lparr>supports := to_length_t (int i)\<rparr>)))"

definition get_supports :: "clause \<Rightarrow> prop_id option res" where
  "get_supports c =
     (if supports c = NO_PROPOSITION then Inr None
      else rbind (l2_assert (0 \<le> supports c \<and> supports c < num_lits c) Assert_failed)
             (\<lambda>_. Inr (Some (literals c ! nat (supports c)))))"

definition incr_num_unassigned :: "clause \<Rightarrow> clause res" where
  "incr_num_unassigned c =
     rbind (l2_assert (num_unassigned c < num_lits c) L2_fatal_error)
       (\<lambda>_. Inr (c\<lparr>num_unassigned := to_length_t (num_unassigned c + 1)\<rparr>))"

definition decr_num_unassigned :: "clause \<Rightarrow> clause res" where
  "decr_num_unassigned c =
     rbind (l2_assert (0 < num_unassigned c) L2_fatal_error)
       (\<lambda>_. Inr (c\<lparr>num_unassigned := to_length_t (num_unassigned c - 1)\<rparr>))"

text \<open>\<open>Clause::initialize\<close>: the state after construction, outside the fringe.\<close>

definition clause_initialize :: "clause \<Rightarrow> clause" where
  "clause_initialize c =
     set_unsatisfied False (take_from_fringe
       (c\<lparr>num_unassigned := num_lits c, satisfying_prop := None, c_time_stamp := 0,
          supports := NO_PROPOSITION\<rparr>))"

text \<open>
  The constructor: duplicates are removed from each list, the clause starts out deleted. The
  sizes pass through \<open>unsigned char\<close> into \<open>length_t\<close>. The array is filled positive literals first.
\<close>

definition new_clause :: "nat option \<Rightarrow> prop_id list \<Rightarrow> prop_id list \<Rightarrow> bool \<Rightarrow> clause" where
  "new_clause datum posP negP isVolatile =
     (let ps = slist_remove_duplicates posP; ns = slist_remove_duplicates negP;
          npos = to_length_t (int (length ps) mod 256)
      in \<lparr>num_lits = to_length_t (npos + int (length ns) mod 256), num_pos_lits = npos,
          num_unassigned = 0, supports = NO_PROPOSITION,
          c_flags = (if isVolatile then DELETED OR VOLATILE else DELETED),
          fringe_index = 0, c_time_stamp = 0, satisfying_prop = None, clause_datum = datum,
          literals = ps @ ns\<rparr>)"

subsection \<open>What the queries compute\<close>

lemma find_map: "find P (map f xs) = map_option f (find (P \<circ> f) xs)"
  by (induction xs) auto

lemma find_cong_set: "(\<And>x. x \<in> set xs \<Longrightarrow> P x = Q x) \<Longrightarrow> find P xs = find Q xs"
  by (induction xs) auto

lemma find_satisfying_prop_lits:
  "find_satisfying_prop ph c = map_option fst (find (\<lambda>l. lit_tv ph l = PTRUE) (clause_lits c))"
proof -
  have "find (\<lambda>i. (int i < num_pos_lits c \<and> isTrue (ph (literals c ! i))) \<or>
                  (num_pos_lits c \<le> int i \<and> isFalse (ph (literals c ! i)))) [0..<nat (num_lits c)]
      = find ((\<lambda>l. lit_tv ph l = PTRUE) \<circ> (\<lambda>i. (literals c ! i, int i < num_pos_lits c)))
          [0..<nat (num_lits c)]"
    by (rule find_cong_set) (auto simp: lit_tv_def isTrue_def isFalse_def)
  then show ?thesis
    by (simp add: find_satisfying_prop_def clause_lits_def find_map option.map_comp comp_def)
qed

lemma get_unassigned_literal_lits:
  "get_unassigned_literal ph c =
     (case find (\<lambda>l. lit_tv ph l = UNKNOWN) (clause_lits c) of
        None \<Rightarrow> Inl L2_fatal_error | Some l \<Rightarrow> Inr l)"
proof -
  have "(\<lambda>l. lit_tv ph l = UNKNOWN) \<circ> (\<lambda>i. (literals c ! i, int i < num_pos_lits c))
      = (\<lambda>i. isUnknown (ph (literals c ! i)))"
    by (auto simp: fun_eq_iff lit_tv_def isUnknown_def)
  then show ?thesis
    by (simp add: get_unassigned_literal_def clause_lits_def find_map split: option.splits)
qed

lemma fold_count: "fold (\<lambda>x n. if P x then n + 1 else n) xs (m :: int) = m + int (length (filter P xs))"
  by (induction xs arbitrary: m) auto

lemma count_unassigned_lits:
  "count_unassigned ph c = int (length (filter (\<lambda>l. lit_tv ph l = UNKNOWN) (clause_lits c)))"
proof -
  have "(\<lambda>l. lit_tv ph l = UNKNOWN) \<circ> (\<lambda>i. (literals c ! i, int i < num_pos_lits c))
      = (\<lambda>i. isUnknown (ph (literals c ! i)))"
    by (auto simp: fun_eq_iff lit_tv_def isUnknown_def)
  then show ?thesis
    by (simp add: count_unassigned_def clause_lits_def fold_count filter_map)
qed

end
