(* ===== verification/Ptheory.thy ===== *)
theory Ptheory
  imports Tms_Clause
begin

text \<open>
  The propositional theory (\<open>tms/ptheory.h\<close>, \<open>tms/ptheory.cpp\<close>, and \<open>tms/proposition.cpp\<close>): the
  objects it owns, creation, temporary removal, re-initialisation, and the permanent removal of
  marked clauses and propositions. The heaps map the addresses of objects to their fields; a fresh
  address is the next one. Listeners (\<open>ptheory_record\<close>) only observe and are left out.
\<close>

record ptheory =
  pheap :: prop_heap
  cheap :: clause_heap
  props :: "prop_id list"
  clauses :: "clause_id list"
  time_stamp :: "16 word"
  next_prop :: prop_id
  next_clause :: clause_id

text \<open>What \<open>~Clause\<close> leaves in memory.\<close>

definition clause_dtor :: "clause \<Rightarrow> clause" where
  "clause_dtor c = c\<lparr>num_lits := -1, num_pos_lits := -1, num_unassigned := -1, c_flags := 0,
     c_time_stamp := 0x0505, satisfying_prop := Some 0x50505, clause_datum := Some 0x50505,
     literals := [], supports := 0\<rparr>"

definition no_clause :: clause where
  "no_clause = clause_dtor \<lparr>num_lits = 0, num_pos_lits = 0, num_unassigned = 0, supports = 0,
     c_flags = 0, fringe_index = 0, c_time_stamp = 0, satisfying_prop = None, clause_datum = None,
     literals = []\<rparr>"

definition upd_prop :: "prop_id \<Rightarrow> (prop_obj \<Rightarrow> prop_obj) \<Rightarrow> 'a ptheory_scheme \<Rightarrow> 'a ptheory_scheme" where
  "upd_prop p f s = s\<lparr>pheap := (pheap s)(p := f (pheap s p))\<rparr>"

definition upd_clause :: "clause_id \<Rightarrow> (clause \<Rightarrow> clause) \<Rightarrow> 'a ptheory_scheme \<Rightarrow> 'a ptheory_scheme" where
  "upd_clause c f s = s\<lparr>cheap := (cheap s)(c := f (cheap s c))\<rparr>"

text \<open>An update of one clause object that may raise.\<close>

definition upd_clause_res ::
  "clause_id \<Rightarrow> (clause \<Rightarrow> clause res) \<Rightarrow> 'a ptheory_scheme \<Rightarrow> 'a ptheory_scheme res" where
  "upd_clause_res c f s = rbind (f (cheap s c)) (\<lambda>d. Inr (upd_clause c (\<lambda>_. d) s))"

lemma upd_prop_simps [simp]:
  "pheap (upd_prop p f s) = (pheap s)(p := f (pheap s p))"
  "cheap (upd_prop p f s) = cheap s" "props (upd_prop p f s) = props s"
  "clauses (upd_prop p f s) = clauses s" "time_stamp (upd_prop p f s) = time_stamp s"
  "next_prop (upd_prop p f s) = next_prop s" "next_clause (upd_prop p f s) = next_clause s"
  by (simp_all add: upd_prop_def)

lemma upd_clause_simps [simp]:
  "cheap (upd_clause c g s) = (cheap s)(c := g (cheap s c))"
  "pheap (upd_clause c g s) = pheap s" "props (upd_clause c g s) = props s"
  "clauses (upd_clause c g s) = clauses s" "time_stamp (upd_clause c g s) = time_stamp s"
  "next_prop (upd_clause c g s) = next_prop s" "next_clause (upd_clause c g s) = next_clause s"
  by (simp_all add: upd_clause_def)

subsection \<open>Creation\<close>

definition create_proposition :: "'a ptheory_scheme \<Rightarrow> prop_id \<times> 'a ptheory_scheme" where
  "create_proposition s =
     (let p = next_prop s in
      (p, (upd_prop p (\<lambda>_. new_proposition) s)\<lparr>props := props s @ [p], next_prop := Suc p\<rparr>))"

text \<open>
  \<open>new Clause(...)\<close>: the object, and a back pointer in each proposition of the list it occurs in.
\<close>

definition alloc_clause ::
  "nat option \<Rightarrow> prop_id list \<Rightarrow> prop_id list \<Rightarrow> bool \<Rightarrow> 'a ptheory_scheme \<Rightarrow> clause_id \<times> 'a ptheory_scheme"
where
  "alloc_clause datum posP negP isVolatile s =
     (let c = next_clause s;
          s1 = (upd_clause c (\<lambda>_. new_clause datum posP negP isVolatile) s)\<lparr>next_clause := Suc c\<rparr>;
          s2 = fold (\<lambda>p. upd_prop p (add_positive c)) (slist_remove_duplicates posP) s1
      in (c, fold (\<lambda>p. upd_prop p (add_negative c)) (slist_remove_duplicates negP) s2))"

text \<open>\<open>Ptheory::create_clause\<close>; \<open>add\<close> is virtual, the argument is the method of the object's class.\<close>

definition create_clause ::
  "(clause_id \<Rightarrow> 'a ptheory_scheme \<Rightarrow> 'a ptheory_scheme res) \<Rightarrow>
   nat option \<Rightarrow> prop_id list \<Rightarrow> prop_id list \<Rightarrow> bool \<Rightarrow> bool \<Rightarrow> 'a ptheory_scheme \<Rightarrow>
   (clause_id \<times> 'a ptheory_scheme) res" where
  "create_clause add datum posP negP isVolatile inTheory s =
     (case alloc_clause datum posP negP isVolatile s of (c, s1) \<Rightarrow>
        let s2 = s1\<lparr>clauses := clauses s1 @ [c]\<rparr> in
        if inTheory then rbind (add c s2) (\<lambda>s3. Inr (c, s3)) else Inr (c, s2))"

subsection \<open>Adding and temporarily removing a clause\<close>

definition ptheory_add :: "clause_id \<Rightarrow> 'a ptheory_scheme \<Rightarrow> 'a ptheory_scheme" where
  "ptheory_add c s =
     (if is_deleted (cheap s c) then
        upd_clause c (\<lambda>d. (set_deleted False d)
            \<lparr>satisfying_prop := find_satisfying_prop (pheap s) d,
             num_unassigned := count_unassigned (pheap s) d\<rparr>) s
      else s)"

definition ptheory_remove :: "clause_id \<Rightarrow> 'a ptheory_scheme \<Rightarrow> 'a ptheory_scheme" where
  "ptheory_remove c s = upd_clause c (set_deleted True) s"

subsection \<open>Initialisation\<close>

definition ptheory_initialize :: "'a ptheory_scheme \<Rightarrow> 'a ptheory_scheme" where
  "ptheory_initialize s =
     fold (\<lambda>c. upd_clause c clause_initialize) (clauses s)
       (fold (\<lambda>p. upd_prop p prop_initialize) (props s) (s\<lparr>time_stamp := 0\<rparr>))"

definition initialize_time_stamps :: "'a ptheory_scheme \<Rightarrow> 'a ptheory_scheme" where
  "initialize_time_stamps s =
     fold (\<lambda>c. upd_clause c (\<lambda>d. d\<lparr>c_time_stamp := 0\<rparr>)) (clauses s) (s\<lparr>time_stamp := 0\<rparr>)"

subsection \<open>Permanent removal\<close>

text \<open>\<open>Proposition::set_destroying\<close> marks the proposition and every clause it occurs in.\<close>

definition prop_set_destroying :: "prop_id \<Rightarrow> 'a ptheory_scheme \<Rightarrow> 'a ptheory_scheme" where
  "prop_set_destroying p s =
     fold (\<lambda>c. upd_clause c set_destroying) (negative (pheap s p))
       (fold (\<lambda>c. upd_clause c set_destroying) (positive (pheap s p))
         (upd_prop p (\<lambda>q. q\<lparr>p_flags := set_flag True P_DESTROYING (p_flags q)\<rparr>) s))"

definition clause_set_destroying :: "clause_id \<Rightarrow> 'a ptheory_scheme \<Rightarrow> 'a ptheory_scheme" where
  "clause_set_destroying c s = upd_clause c set_destroying s"

text \<open>Unlink a clause from the propositions that stay, and free it.\<close>

definition unlink_and_delete :: "clause_id \<Rightarrow> 'a ptheory_scheme \<Rightarrow> 'a ptheory_scheme" where
  "unlink_and_delete c s =
     upd_clause c clause_dtor
       (fold (\<lambda>p t. if prop_is_destroying (pheap t p) then t else upd_prop p (remove_negative c) t)
          (neg_literals (cheap s c))
         (fold (\<lambda>p t. if prop_is_destroying (pheap t p) then t else upd_prop p (remove_positive c) t)
            (pos_literals (cheap s c)) s))"

definition ptheory_finish_destroying :: "'a ptheory_scheme \<Rightarrow> 'a ptheory_scheme" where
  "ptheory_finish_destroying s =
     (case array_sweep (\<lambda>t c. is_destroying (cheap t c)) unlink_and_delete 0 (clauses s) s of
        (cs, s1) \<Rightarrow>
          let s2 = s1\<lparr>clauses := cs\<rparr> in
          case array_sweep (\<lambda>t p. prop_is_destroying (pheap t p)) (\<lambda>_ t. t) 0 (props s2) s2 of
            (ps, s3) \<Rightarrow> s3\<lparr>props := ps\<rparr>)"

subsection \<open>Loops over heap cells\<close>

text \<open>A loop that updates one cell per element touches only the cells of its elements.\<close>

lemma fold_upd_clause_same [simp]:
  "pheap (fold (\<lambda>c. upd_clause c f) cs s) = pheap s"
  "props (fold (\<lambda>c. upd_clause c f) cs s) = props s"
  "clauses (fold (\<lambda>c. upd_clause c f) cs s) = clauses s"
  "time_stamp (fold (\<lambda>c. upd_clause c f) cs s) = time_stamp s"
  "next_prop (fold (\<lambda>c. upd_clause c f) cs s) = next_prop s"
  "next_clause (fold (\<lambda>c. upd_clause c f) cs s) = next_clause s"
  by (induction cs arbitrary: s) auto

lemma fold_upd_prop_same [simp]:
  "cheap (fold (\<lambda>p. upd_prop p f) ps s) = cheap s"
  "props (fold (\<lambda>p. upd_prop p f) ps s) = props s"
  "clauses (fold (\<lambda>p. upd_prop p f) ps s) = clauses s"
  "time_stamp (fold (\<lambda>p. upd_prop p f) ps s) = time_stamp s"
  "next_prop (fold (\<lambda>p. upd_prop p f) ps s) = next_prop s"
  "next_clause (fold (\<lambda>p. upd_prop p f) ps s) = next_clause s"
  by (induction ps arbitrary: s) auto

lemma cheap_fold_upd_clause:
  "distinct cs \<Longrightarrow> cheap (fold (\<lambda>c. upd_clause c f) cs s) d =
     (if d \<in> set cs then f (cheap s d) else cheap s d)"
  by (induction cs arbitrary: s) auto

lemma cheap_fold_upd_clause_idem:
  "(\<And>x. f (f x) = f x) \<Longrightarrow> cheap (fold (\<lambda>c. upd_clause c f) cs s) d =
     (if d \<in> set cs then f (cheap s d) else cheap s d)"
  by (induction cs arbitrary: s) auto

lemma pheap_fold_upd_prop:
  "distinct ps \<Longrightarrow> pheap (fold (\<lambda>p. upd_prop p f) ps s) q =
     (if q \<in> set ps then f (pheap s q) else pheap s q)"
  by (induction ps arbitrary: s) auto

end
