(* ===== verification/Ltms.thy ===== *)
theory Ltms
  imports Ptheory
begin

text \<open>
  The operations of the logic-based truth maintenance system (\<open>tms/ltms.h\<close>, \<open>tms/ltms.cpp\<close>):
  the two fringes of unit clauses, the unsatisfied clauses, adding and removing clauses, assigning
  and unassigning propositions, propagation, undoing, conflict extraction, moving support, and the
  removal of marked objects. Every handler is a function on the whole state; the loops over the
  back pointers of a proposition are \<open>rfold\<close>s whose bodies are definitions of their own.
\<close>

record ltms = ptheory +
  fringe :: "clause_id list"
  volatile_fringe :: "clause_id list"
  unsatisfied :: "clause_id list"
  undo_list :: "prop_id list"

definition INITIAL_FRINGE_SIZE :: nat where "INITIAL_FRINGE_SIZE = 16"

text \<open>An LTMS just constructed.\<close>

definition new_ltms :: ltms where
  "new_ltms = \<lparr>pheap = (\<lambda>_. new_proposition), cheap = (\<lambda>_. no_clause), props = [], clauses = [],
     time_stamp = 0, next_prop = 0, next_clause = 0, fringe = [], volatile_fringe = [],
     unsatisfied = [], undo_list = []\<rparr>"

lemma upd_ltms_simps [simp]:
  "fringe (upd_prop p f s) = fringe s" "volatile_fringe (upd_prop p f s) = volatile_fringe s"
  "unsatisfied (upd_prop p f s) = unsatisfied s" "undo_list (upd_prop p f s) = undo_list s"
  "fringe (upd_clause c g s) = fringe s" "volatile_fringe (upd_clause c g s) = volatile_fringe s"
  "unsatisfied (upd_clause c g s) = unsatisfied s" "undo_list (upd_clause c g s) = undo_list s"
  by (simp_all add: upd_prop_def upd_clause_def)

subsection \<open>The class Fringe\<close>

text \<open>
  A fringe is an array of clauses; each clause holds its index in it. The operations take the heap
  and the array and return both. \<open>fringe_remove\<close> pops the last clause when the index is the last
  one, and else moves the last clause to the freed place and corrects its index.
\<close>

definition fringe_push :: "clause_id \<Rightarrow> clause_heap \<Rightarrow> clause_id list \<Rightarrow> clause_heap \<times> clause_id list" where
  "fringe_push c h xs = (h(c := set_in_fringe (length xs) (h c)), xs @ [c])"

definition fringe_pop :: "clause_heap \<Rightarrow> clause_id list \<Rightarrow> (clause_id \<times> clause_heap \<times> clause_id list) res" where
  "fringe_pop h xs =
     rbind (l2_assert (xs \<noteq> []) Assert_failed)
       (\<lambda>_. let c = last xs in Inr (c, h(c := take_from_fringe (h c)), butlast xs))"

definition fringe_remove :: "clause_id \<Rightarrow> clause_heap \<Rightarrow> clause_id list \<Rightarrow> (clause_heap \<times> clause_id list) res" where
  "fringe_remove c h xs =
     (let i = fringe_index (h c) in
      if xs \<noteq> [] \<and> i = length xs - 1 then rbind (fringe_pop h xs) (\<lambda>(_, h', xs'). Inr (h', xs'))
      else
        rbind (l2_assert (i < length xs) Assert_failed)
          (\<lambda>_. let xs' = swap_remove i xs; h1 = h(c := take_from_fringe (h c)) in
               rbind (l2_assert (i < length xs') Assert_failed)
                 (\<lambda>_. Inr (h1(xs' ! i := set_in_fringe i (h1 (xs' ! i))), xs'))))"

text \<open>\<open>remove_destroying\<close>: one step of the loop per clause; the fuel is the number of clauses.\<close>

fun fringe_remove_destroying_aux ::
  "nat \<Rightarrow> nat \<Rightarrow> clause_heap \<Rightarrow> clause_id list \<Rightarrow> (clause_heap \<times> clause_id list) res" where
  "fringe_remove_destroying_aux 0 i h xs = (if i < length xs then Inl Out_of_fuel else Inr (h, xs))"
| "fringe_remove_destroying_aux (Suc n) i h xs =
     (if i < length xs then
        if is_destroying (h (xs ! i))
        then rbind (fringe_remove (xs ! i) h xs) (\<lambda>(h', xs'). fringe_remove_destroying_aux n i h' xs')
        else fringe_remove_destroying_aux n (Suc i) h xs
      else Inr (h, xs))"

definition fringe_remove_destroying :: "clause_heap \<Rightarrow> clause_id list \<Rightarrow> (clause_heap \<times> clause_id list) res" where
  "fringe_remove_destroying h xs = fringe_remove_destroying_aux (length xs) 0 h xs"

subsection \<open>The two fringes\<close>

definition insert_into_fringe :: "clause_id \<Rightarrow> 'a ltms_scheme \<Rightarrow> 'a ltms_scheme" where
  "insert_into_fringe c s =
     (if is_in_fringe (cheap s c) then s
      else if is_volatile (cheap s c) then
        (case fringe_push c (cheap s) (volatile_fringe s) of (h, xs) \<Rightarrow> s\<lparr>cheap := h, volatile_fringe := xs\<rparr>)
      else (case fringe_push c (cheap s) (fringe s) of (h, xs) \<Rightarrow> s\<lparr>cheap := h, fringe := xs\<rparr>))"

definition remove_from_fringe :: "clause_id \<Rightarrow> 'a ltms_scheme \<Rightarrow> 'a ltms_scheme res" where
  "remove_from_fringe c s =
     (if \<not> is_in_fringe (cheap s c) then Inr s
      else if is_volatile (cheap s c) then
        rbind (fringe_remove c (cheap s) (volatile_fringe s))
          (\<lambda>(h, xs). Inr (s\<lparr>cheap := h, volatile_fringe := xs\<rparr>))
      else rbind (fringe_remove c (cheap s) (fringe s)) (\<lambda>(h, xs). Inr (s\<lparr>cheap := h, fringe := xs\<rparr>)))"

definition get_fringe_clause :: "'a ltms_scheme \<Rightarrow> (clause_id option \<times> 'a ltms_scheme) res" where
  "get_fringe_clause s =
     (if fringe s \<noteq> [] then
        rbind (fringe_pop (cheap s) (fringe s)) (\<lambda>(c, h, xs). Inr (Some c, s\<lparr>cheap := h, fringe := xs\<rparr>))
      else if volatile_fringe s \<noteq> [] then
        rbind (fringe_pop (cheap s) (volatile_fringe s))
          (\<lambda>(c, h, xs). Inr (Some c, s\<lparr>cheap := h, volatile_fringe := xs\<rparr>))
      else Inr (None, s))"

subsection \<open>The unsatisfied clauses\<close>

definition insert_into_unsat :: "clause_id \<Rightarrow> 'a ltms_scheme \<Rightarrow> 'a ltms_scheme" where
  "insert_into_unsat c s =
     (if is_unsatisfied (cheap s c) then s
      else upd_clause c (set_unsatisfied True) (s\<lparr>unsatisfied := unsatisfied s @ [c]\<rparr>))"

definition remove_from_unsat :: "clause_id \<Rightarrow> 'a ltms_scheme \<Rightarrow> 'a ltms_scheme res" where
  "remove_from_unsat c s =
     (if is_unsatisfied (cheap s c) then
        (case index_of c (unsatisfied s) of
           None \<Rightarrow> Inl L2_not_found_error
         | Some i \<Rightarrow> Inr (upd_clause c (set_unsatisfied False)
                          (s\<lparr>unsatisfied := swap_remove i (unsatisfied s)\<rparr>)))
      else Inr s)"

subsection \<open>Assigning a proposition\<close>

definition occ_same :: "prop_id \<Rightarrow> bool \<Rightarrow> 'a ptheory_scheme \<Rightarrow> clause_id list" where
  "occ_same p b s = (if b then positive (pheap s p) else negative (pheap s p))"

definition occ_opposite :: "prop_id \<Rightarrow> bool \<Rightarrow> 'a ptheory_scheme \<Rightarrow> clause_id list" where
  "occ_opposite p b s = (if b then negative (pheap s p) else positive (pheap s p))"

definition assign_same_step :: "prop_id \<Rightarrow> clause_id \<Rightarrow> 'a ltms_scheme \<Rightarrow> 'a ltms_scheme res" where
  "assign_same_step p c s =
     (if is_deleted (cheap s c) then Inr s
      else rbind (upd_clause_res c decr_num_unassigned s) (\<lambda>s1.
        if satisfying_prop (cheap s1 c) = None then
          let s2 = upd_clause c (\<lambda>d. d\<lparr>satisfying_prop := Some p\<rparr>) s1 in
          if is_in_fringe (cheap s2 c) then remove_from_fringe c s2 else Inr s2
        else Inr s1))"

definition assignUpdateSameSense :: "prop_id \<Rightarrow> bool \<Rightarrow> 'a ltms_scheme \<Rightarrow> 'a ltms_scheme res" where
  "assignUpdateSameSense p becomingTrue s = rfold (assign_same_step p) (occ_same p becomingTrue s) s"

definition assign_opposite_step :: "clause_id \<Rightarrow> 'a ltms_scheme \<Rightarrow> 'a ltms_scheme res" where
  "assign_opposite_step c s =
     (if is_deleted (cheap s c) then Inr s
      else rbind (upd_clause_res c decr_num_unassigned s) (\<lambda>s1.
        if satisfying_prop (cheap s1 c) = None then
          if is_in_fringe (cheap s1 c) then
            rbind (remove_from_fringe c s1) (\<lambda>s2. Inr (insert_into_unsat c s2))
          else if num_unassigned (cheap s1 c) = 1 then Inr (insert_into_fringe c s1)
          else Inr s1
        else Inr s1))"

definition assignUpdateOppositeSense :: "prop_id \<Rightarrow> bool \<Rightarrow> 'a ltms_scheme \<Rightarrow> 'a ltms_scheme res" where
  "assignUpdateOppositeSense p becomingTrue s =
     rfold assign_opposite_step (occ_opposite p becomingTrue s) s"

definition assign :: "prop_id \<Rightarrow> bool \<Rightarrow> clause_id \<Rightarrow> 'a ltms_scheme \<Rightarrow> 'a ltms_scheme res" where
  "assign p becomingTrue c s =
     (let s1 = upd_prop p (\<lambda>q. q\<lparr>tv := (if becomingTrue then PTRUE else PFALSE),
                               supported_by := Some c\<rparr>) s
      in rbind (assignUpdateSameSense p becomingTrue s1) (assignUpdateOppositeSense p becomingTrue))"

subsection \<open>Unassigning\<close>

definition enqueue_for_undo :: "prop_id \<Rightarrow> 'a ltms_scheme \<Rightarrow> 'a ltms_scheme" where
  "enqueue_for_undo p s = s\<lparr>undo_list := undo_list s @ [p]\<rparr>"

definition unassign_same_step :: "prop_id \<Rightarrow> clause_id \<Rightarrow> 'a ltms_scheme \<Rightarrow> 'a ltms_scheme res" where
  "unassign_same_step p c s =
     (if is_deleted (cheap s c) then Inr s
      else rbind (upd_clause_res c incr_num_unassigned s) (\<lambda>s1.
        if satisfying_prop (cheap s1 c) = Some p then
          let q = find_satisfying_prop (pheap s1) (cheap s1 c);
              s2 = upd_clause c (\<lambda>d. d\<lparr>satisfying_prop := q\<rparr>) s1 in
          if q = None \<and> num_unassigned (cheap s2 c) = 1 then Inr (insert_into_fringe c s2)
          else Inr s2
        else Inr s1))"

definition unassignUpdateSameSense :: "prop_id \<Rightarrow> bool \<Rightarrow> 'a ltms_scheme \<Rightarrow> 'a ltms_scheme res" where
  "unassignUpdateSameSense p wasTrue s = rfold (unassign_same_step p) (occ_same p wasTrue s) s"

definition unassign_opposite_step :: "clause_id \<Rightarrow> 'a ltms_scheme \<Rightarrow> 'a ltms_scheme res" where
  "unassign_opposite_step c s =
     (if is_deleted (cheap s c) then Inr s
      else rbind (upd_clause_res c incr_num_unassigned s) (\<lambda>s1.
        if is_unsatisfied (cheap s1 c) then
          rbind (remove_from_unsat c s1) (\<lambda>s2. Inr (insert_into_fringe c s2))
        else if is_in_fringe (cheap s1 c) then remove_from_fringe c s1
        else rbind (get_supports (cheap s1 c)) (\<lambda>q.
          case q of None \<Rightarrow> Inr s1
          | Some p \<Rightarrow> upd_clause_res c (set_supports None) (enqueue_for_undo p s1))))"

definition unassignUpdateOppositeSense :: "prop_id \<Rightarrow> bool \<Rightarrow> 'a ltms_scheme \<Rightarrow> 'a ltms_scheme res" where
  "unassignUpdateOppositeSense p wasTrue s =
     rfold unassign_opposite_step (occ_opposite p wasTrue s) s"

definition unassign :: "prop_id \<Rightarrow> 'a ltms_scheme \<Rightarrow> 'a ltms_scheme res" where
  "unassign p s =
     (if isUnknown (pheap s p) then
        rbind (l2_assert (supported_by (pheap s p) = None) L2_fatal_error) (\<lambda>_. Inr s)
      else
        let wasTrue = isTrue (pheap s p);
            s1 = upd_prop p prop_initialize s
        in rbind (unassignUpdateSameSense p wasTrue s1) (unassignUpdateOppositeSense p wasTrue))"

text \<open>
  The loop of \<open>undo_propagations\<close> pops propositions until the list is empty; every round of the
  loop unassigns one assigned proposition, so as many rounds as there are propositions are enough.
\<close>

fun undo_loop :: "nat \<Rightarrow> 'a ltms_scheme \<Rightarrow> 'a ltms_scheme res" where
  "undo_loop 0 s = (if undo_list s = [] then Inr s else Inl Out_of_fuel)"
| "undo_loop (Suc n) s =
     (if undo_list s = [] then Inr s
      else rbind (unassign (last (undo_list s)) (s\<lparr>undo_list := butlast (undo_list s)\<rparr>)) (undo_loop n))"

definition undo_propagations :: "'a ltms_scheme \<Rightarrow> 'a ltms_scheme res" where
  "undo_propagations s = undo_loop (length (props s)) s"

subsection \<open>Adding and removing a clause\<close>

definition ltms_add :: "clause_id \<Rightarrow> 'a ltms_scheme \<Rightarrow> 'a ltms_scheme res" where
  "ltms_add c s =
     (if is_deleted (cheap s c) then
        rbind (upd_clause_res c (set_supports None) (ptheory_add c s)) (\<lambda>s1.
        let s2 = upd_clause c (set_unsatisfied False) s1 in
        rbind (l2_assert (\<not> is_in_fringe (cheap s2 c)) L2_fatal_error) (\<lambda>_.
          if satisfying_prop (cheap s2 c) = None then
            if num_unassigned (cheap s2 c) = 1 then Inr (insert_into_fringe c s2)
            else if num_unassigned (cheap s2 c) = 0 then Inr (insert_into_unsat c s2)
            else Inr s2
          else Inr s2))
      else Inr s)"

definition ltms_remove :: "clause_id \<Rightarrow> 'a ltms_scheme \<Rightarrow> 'a ltms_scheme res" where
  "ltms_remove c s =
     (if \<not> is_deleted (cheap s c) then
        let s1 = ptheory_remove c s in
        if is_in_fringe (cheap s1 c) then remove_from_fringe c s1
        else if is_unsatisfied (cheap s1 c) then remove_from_unsat c s1
        else rbind (get_supports (cheap s1 c)) (\<lambda>q.
          case q of None \<Rightarrow> Inr s1
          | Some p \<Rightarrow>
              rbind (upd_clause_res c (set_supports None) (enqueue_for_undo p s1)) undo_propagations)
      else Inr s)"

definition ltms_create_clause ::
  "nat option \<Rightarrow> prop_id list \<Rightarrow> prop_id list \<Rightarrow> bool \<Rightarrow> bool \<Rightarrow> 'a ltms_scheme \<Rightarrow>
   (clause_id \<times> 'a ltms_scheme) res" where
  "ltms_create_clause = create_clause ltms_add"

subsection \<open>Propagation\<close>

text \<open>
  Every round of propagation assigns one proposition that was unknown: one round per proposition,
  and a last one that finds the fringe empty or a clause unsatisfied.
\<close>

fun propagate_loop :: "nat \<Rightarrow> 'a ltms_scheme \<Rightarrow> (bool \<times> 'a ltms_scheme) res" where
  "propagate_loop 0 s = Inl Out_of_fuel"
| "propagate_loop (Suc n) s =
     (if unsatisfied s = [] then
        rbind (get_fringe_clause s) (\<lambda>(cl, s1).
          case cl of
            None \<Rightarrow> Inr (True, s1)
          | Some c \<Rightarrow>
              rbind (get_unassigned_literal (pheap s1) (cheap s1 c)) (\<lambda>(p, is_positive).
              rbind (assign p is_positive c s1) (\<lambda>s2.
              rbind (upd_clause_res c (set_supports (Some p)) s2) (propagate_loop n))))
      else Inr (False, s))"

definition propagate :: "'a ltms_scheme \<Rightarrow> (bool \<times> 'a ltms_scheme) res" where
  "propagate s = propagate_loop (Suc (length (props s))) s"

text \<open>
  \<open>partial_propagate\<close>: the first component of the result says whether the propagation finished,
  and then the second one is the value stored through the reference \<open>consistent\<close>.
\<close>

fun partial_propagate :: "nat \<Rightarrow> 'a ltms_scheme \<Rightarrow> (bool \<times> bool option \<times> 'a ltms_scheme) res" where
  "partial_propagate 0 s =
     (if unsatisfied s \<noteq> [] then Inr (True, Some False, s) else Inr (False, None, s))"
| "partial_propagate (Suc n) s =
     (if unsatisfied s = [] then
        rbind (get_fringe_clause s) (\<lambda>(cl, s1).
          case cl of
            None \<Rightarrow> Inr (True, Some True, s1)
          | Some c \<Rightarrow>
              rbind (get_unassigned_literal (pheap s1) (cheap s1 c)) (\<lambda>(p, is_positive).
              rbind (assign p is_positive c s1) (partial_propagate n)))
      else Inr (True, Some False, s))"

subsection \<open>Extracting a conflict\<close>

definition MAX_TIME_STAMP :: "16 word" where "MAX_TIME_STAMP = -1"

text \<open>
  The body of the inner loop: the clause that supports the proposition is visited once, and goes
  to the result when the predicate holds, and else to the stack.
\<close>

type_synonym 'a support_state = "clause_id list \<times> clause_id list \<times> 'a"

definition support_step ::
  "(clause \<Rightarrow> bool) \<Rightarrow> clause_id \<Rightarrow> prop_id \<Rightarrow> 'a ltms_scheme support_state \<Rightarrow>
   'a ltms_scheme support_state res" where
  "support_step predicate current p st =
     (case st of (stack, result, s) \<Rightarrow>
        (case supported_by (pheap s p) of
           None \<Rightarrow> Inl L2_fatal_error
         | Some parent \<Rightarrow>
             if parent \<noteq> current \<and> c_time_stamp (cheap s parent) \<noteq> time_stamp s then
               let s1 = upd_clause parent (\<lambda>d. d\<lparr>c_time_stamp := time_stamp s\<rparr>) s in
               if predicate (cheap s1 parent) then Inr (stack, parent # result, s1)
               else Inr (stack @ [parent], result, s1)
             else Inr st))"

text \<open>The stack loop; a clause is pushed at most once, besides the first one.\<close>

fun support_loop ::
  "nat \<Rightarrow> (clause \<Rightarrow> bool) \<Rightarrow> 'a ltms_scheme support_state \<Rightarrow> (clause_id list \<times> 'a ltms_scheme) res" where
  "support_loop 0 predicate (stack, result, s) =
     (if stack = [] then Inr (result, s) else Inl Out_of_fuel)"
| "support_loop (Suc n) predicate (stack, result, s) =
     (if stack = [] then Inr (result, s)
      else let current = last stack in
           rbind (rfold (support_step predicate current) (map fst (clause_lits (cheap s current)))
                   (butlast stack, result, s))
             (support_loop n predicate))"

text \<open>A new cohort: when the counter is at its maximum, it and all stamps start again from zero.\<close>

definition new_cohort :: "'a ltms_scheme \<Rightarrow> 'a ltms_scheme" where
  "new_cohort s =
     (let s1 = (if time_stamp s = MAX_TIME_STAMP then initialize_time_stamps s else s)
      in s1\<lparr>time_stamp := time_stamp s1 + 1\<rparr>)"

definition get_clause_support ::
  "(clause \<Rightarrow> bool) \<Rightarrow> clause_id \<Rightarrow> clause_id list \<Rightarrow> 'a ltms_scheme \<Rightarrow>
   (clause_id list \<times> 'a ltms_scheme) res" where
  "get_clause_support predicate c result s =
     support_loop (Suc (length (clauses s))) predicate ([c], result, new_cohort s)"

definition get_proposition_support ::
  "(clause \<Rightarrow> bool) \<Rightarrow> prop_id \<Rightarrow> clause_id list \<Rightarrow> 'a ltms_scheme \<Rightarrow>
   (clause_id list \<times> 'a ltms_scheme) res" where
  "get_proposition_support predicate p result s =
     (case supported_by (pheap s p) of
        None \<Rightarrow> Inr (result, s)
      | Some c \<Rightarrow> get_clause_support predicate c result s)"

definition last_conflict ::
  "(clause \<Rightarrow> bool) \<Rightarrow> clause_id list \<Rightarrow> 'a ltms_scheme \<Rightarrow> (clause_id list \<times> 'a ltms_scheme) res" where
  "last_conflict predicate conflicts s =
     (case unsatisfied s of
        [] \<Rightarrow> Inr (conflicts, s)
      | c # _ \<Rightarrow>
          get_clause_support predicate c
            (if predicate (cheap s c) then c # conflicts else conflicts) s)"

subsection \<open>Moving support to another proposition\<close>

text \<open>
  One literal of a transferred clause: when it is the old proposition, the array entry, the back
  pointers of the two propositions and, when the assignment is lost, the count are updated. The
  index decides whether the literal is positive or negative.
\<close>

definition transfer_literal ::
  "prop_id \<Rightarrow> prop_id \<Rightarrow> bool \<Rightarrow> clause_id \<Rightarrow> nat \<Rightarrow> 'a ltms_scheme \<Rightarrow> 'a ltms_scheme res" where
  "transfer_literal old new losing c i s =
     (if literals (cheap s c) ! i = old then
        let s1 = upd_clause c (\<lambda>d. d\<lparr>literals := (literals d)[i := new]\<rparr>) s;
            s2 = (if int i < num_pos_lits (cheap s c)
                  then upd_prop old (remove_positive c) (upd_prop new (add_positive c) s1)
                  else upd_prop old (remove_negative c) (upd_prop new (add_negative c) s1))
        in if losing then upd_clause_res c incr_num_unassigned s2 else Inr s2
      else Inr s)"

definition transfer_clause ::
  "prop_id \<Rightarrow> prop_id \<Rightarrow> bool \<Rightarrow> clause_id \<Rightarrow> 'a ltms_scheme \<Rightarrow> 'a ltms_scheme res" where
  "transfer_clause old new losing c s =
     rbind (rfold (transfer_literal old new losing c) [0..<nat (num_pos_lits (cheap s c))] s) (\<lambda>s1.
     rbind (rfold (transfer_literal old new losing c)
              [nat (num_pos_lits (cheap s1 c))..<nat (num_lits (cheap s1 c))] s1) (\<lambda>s2.
       if satisfying_prop (cheap s2 c) = Some old
       then Inr (upd_clause c (\<lambda>d. d\<lparr>satisfying_prop := Some new\<rparr>) s2)
       else Inr s2))"

definition transfer_clauses ::
  "prop_id \<Rightarrow> prop_id \<Rightarrow> clause_id list \<Rightarrow> bool \<Rightarrow> 'a ltms_scheme \<Rightarrow> 'a ltms_scheme res" where
  "transfer_clauses old new cs losing s = rfold (transfer_clause old new losing) cs s"

definition move_support ::
  "prop_id \<Rightarrow> clause_id list \<Rightarrow> prop_id \<Rightarrow> 'a ltms_scheme \<Rightarrow> 'a ltms_scheme res" where
  "move_support old cs new s =
     (case supported_by (pheap s old) of
        None \<Rightarrow> transfer_clauses old new cs False s
      | Some c \<Rightarrow>
          if c \<notin> set cs then transfer_clauses old new cs True s
          else
            rbind (assign new (\<not> isFalse (pheap s old)) c s) (\<lambda>s1.
            rbind (transfer_clauses old new cs False s1) (\<lambda>s2.
            rbind (unassign old s2) undo_propagations)))"

subsection \<open>Removing marked objects\<close>

definition remove_marked_from_array :: "clause_heap \<Rightarrow> clause_id list \<Rightarrow> clause_id list" where
  "remove_marked_from_array h xs = fst (array_sweep (\<lambda>_ c. is_destroying (h c)) (\<lambda>_ t. t) 0 xs ())"

definition collect_step :: "clause_id \<Rightarrow> 'a ltms_scheme \<Rightarrow> 'a ltms_scheme res" where
  "collect_step c s =
     (if is_destroying (cheap s c) then
        rbind (get_supports (cheap s c)) (\<lambda>q.
          case q of None \<Rightarrow> Inr s
          | Some p \<Rightarrow> if prop_is_destroying (pheap s p) then Inr s else Inr (enqueue_for_undo p s))
      else Inr s)"

definition ltms_finish_destroying :: "'a ltms_scheme \<Rightarrow> 'a ltms_scheme res" where
  "ltms_finish_destroying s =
     rbind (fringe_remove_destroying (cheap s) (fringe s)) (\<lambda>(h1, xs).
     rbind (fringe_remove_destroying h1 (volatile_fringe s)) (\<lambda>(h2, ys).
     let s1 = s\<lparr>cheap := h2, fringe := xs, volatile_fringe := ys,
                unsatisfied := remove_marked_from_array h2 (unsatisfied s)\<rparr> in
     rbind (rfold collect_step (clauses s1) s1) (\<lambda>s2.
     rbind (undo_propagations (ptheory_finish_destroying s2)) (\<lambda>s3.
     rbind (propagate s3) (\<lambda>(_, s4). Inr s4)))))"

subsection \<open>Initialisation\<close>

definition ltms_initialize :: "'a ltms_scheme \<Rightarrow> 'a ltms_scheme" where
  "ltms_initialize s =
     (let s1 = (ptheory_initialize s)\<lparr>fringe := [], volatile_fringe := [], unsatisfied := [],
                                      undo_list := []\<rparr>
      in fold (\<lambda>c t. if num_unassigned (cheap t c) = 1 then insert_into_fringe c t else t)
           (clauses s1) s1)"

end
