(* ===== verification/Ltms_Book.thy ===== *)
theory Ltms_Book
  imports Ltms
begin

text \<open>
  Bookkeeping of the fringes and of the unsatisfied clauses: the invariant \<open>book_ok\<close> ties the flag
  and the index in each clause to the arrays, and every operation on a fringe changes exactly one
  clause, up to fringe indices (\<open>changes\<close>). The loops over the occurrences of a proposition then
  are one pure update applied to each clause of the list.
\<close>

subsection \<open>The invariant\<close>

definition fringe_ok :: "clause_heap \<Rightarrow> clause_id list \<Rightarrow> bool \<Rightarrow> bool" where
  "fringe_ok h xs v \<longleftrightarrow> set xs = {c. is_in_fringe (h c) \<and> is_volatile (h c) = v} \<and>
     (\<forall>i < length xs. fringe_index (h (xs ! i)) = i)"

definition book_ok :: "'a ltms_scheme \<Rightarrow> bool" where
  "book_ok s \<longleftrightarrow> fringe_ok (cheap s) (fringe s) False \<and> fringe_ok (cheap s) (volatile_fringe s) True \<and>
     distinct (unsatisfied s) \<and> set (unsatisfied s) = {c. is_unsatisfied (cheap s c)}"

lemma fringe_ok_distinct: "fringe_ok h xs v \<Longrightarrow> distinct xs"
  by (auto simp: fringe_ok_def distinct_conv_nth) metis

lemma fringe_ok_index:
  "fringe_ok h xs v \<Longrightarrow> is_in_fringe (h c) \<Longrightarrow> is_volatile (h c) = v \<Longrightarrow>
   fringe_index (h c) < length xs \<and> xs ! fringe_index (h c) = c"
  by (auto simp: fringe_ok_def set_eq_iff) (metis in_set_conv_nth)+

lemma fringe_ok_cong:
  "fringe_ok h xs v \<Longrightarrow>
   (\<And>c. is_in_fringe (h' c) = is_in_fringe (h c) \<and> is_volatile (h' c) = is_volatile (h c) \<and>
        (is_in_fringe (h c) \<and> is_volatile (h c) = v \<longrightarrow> fringe_index (h' c) = fringe_index (h c))) \<Longrightarrow>
   fringe_ok h' xs v"
  unfolding fringe_ok_def
proof (intro conjI allI impI)
  fix i
  assume *: "set xs = {c. is_in_fringe (h c) \<and> is_volatile (h c) = v} \<and>
      (\<forall>i<length xs. fringe_index (h (xs ! i)) = i)"
    and cong: "\<And>c. is_in_fringe (h' c) = is_in_fringe (h c) \<and> is_volatile (h' c) = is_volatile (h c) \<and>
        (is_in_fringe (h c) \<and> is_volatile (h c) = v \<longrightarrow> fringe_index (h' c) = fringe_index (h c))"
    and i: "i < length xs"
  then have "xs ! i \<in> {c. is_in_fringe (h c) \<and> is_volatile (h c) = v}" by (metis nth_mem)
  with * cong i show "fringe_index (h' (xs ! i)) = i" by auto
qed auto

lemma fringe_push_ok:
  assumes "fringe_ok h xs v" "\<not> is_in_fringe (h c)" "is_volatile (h c) = v"
  shows "fringe_push c h xs = (h(c := set_in_fringe (length xs) (h c)), xs @ [c])"
    "fringe_ok (h(c := set_in_fringe (length xs) (h c))) (xs @ [c]) v"
    "fringe_ok h ys (\<not> v) \<Longrightarrow> fringe_ok (h(c := set_in_fringe (length xs) (h c))) ys (\<not> v)"
proof -
  have notin: "c \<notin> set xs" using assms by (auto simp: fringe_ok_def)
  show "fringe_push c h xs = (h(c := set_in_fringe (length xs) (h c)), xs @ [c])"
    by (simp add: fringe_push_def)
  have "xs ! i \<noteq> c" if "i < length xs" for i using notin that by (auto simp: in_set_conv_nth)
  then show "fringe_ok (h(c := set_in_fringe (length xs) (h c))) (xs @ [c]) v"
    using assms by (auto simp: fringe_ok_def nth_append less_Suc_eq)
  assume ys: "fringe_ok h ys (\<not> v)"
  then have "c \<notin> set ys" using assms by (auto simp: fringe_ok_def)
  then have "ys ! i \<noteq> c" if "i < length ys" for i using that by (auto simp: in_set_conv_nth)
  then show "fringe_ok (h(c := set_in_fringe (length xs) (h c))) ys (\<not> v)"
    using ys assms by (auto simp: fringe_ok_def)
qed

text \<open>Heaps that agree up to the indices of clauses in a fringe.\<close>

definition norm_clause :: "clause \<Rightarrow> clause" where
  "norm_clause c = c\<lparr>fringe_index := 0\<rparr>"

lemma fringe_ok_remove_at:
  assumes ok: "fringe_ok h xs v" and i: "i < length xs"
    and h': "\<And>d. norm_clause (h' d) = norm_clause (if d = xs ! i then take_from_fringe (h d) else h d)"
    and idx: "\<And>j. j < length xs - 1 \<Longrightarrow> fringe_index (h' (swap_remove i xs ! j)) = j"
  shows "fringe_ok h' (swap_remove i xs) v"
proof -
  have fl: "c_flags (h' d) = c_flags (if d = xs ! i then take_from_fringe (h d) else h d)" for d
    using arg_cong [OF h' [of d], of c_flags] by (simp add: norm_clause_def)
  have "is_in_fringe (h' d) = (d \<noteq> xs ! i \<and> is_in_fringe (h d))" for d
    using fl [of d] flag_query_simps(17) [of "h d"] by (auto simp: is_in_fringe_def split: if_splits)
  moreover have "is_volatile (h' d) = is_volatile (h d)" for d
    using fl [of d] flag_query_simps(19) [of "h d"] by (auto simp: is_volatile_def split: if_splits)
  ultimately show ?thesis
    using ok i idx set_swap_remove [OF fringe_ok_distinct [OF ok] i]
    by (auto simp: fringe_ok_def)
qed

lemma norm_clause_flags:
  assumes "norm_clause c = norm_clause d"
  shows "is_in_fringe c = is_in_fringe d" "is_volatile c = is_volatile d"
    "is_unsatisfied c = is_unsatisfied d" "is_deleted c = is_deleted d"
    "is_destroying c = is_destroying d"
  using arg_cong [OF assms, of c_flags]
  by (simp_all add: norm_clause_def is_in_fringe_def is_volatile_def is_unsatisfied_def
      is_deleted_def is_destroying_def)

lemma norm_clause_fields:
  assumes "norm_clause c = norm_clause d"
  shows "num_lits c = num_lits d" "num_pos_lits c = num_pos_lits d"
    "num_unassigned c = num_unassigned d" "supports c = supports d"
    "c_time_stamp c = c_time_stamp d" "satisfying_prop c = satisfying_prop d"
    "clause_datum c = clause_datum d" "literals c = literals d"
  using arg_cong [OF assms, of num_lits] arg_cong [OF assms, of num_pos_lits]
    arg_cong [OF assms, of num_unassigned] arg_cong [OF assms, of supports]
    arg_cong [OF assms, of c_time_stamp] arg_cong [OF assms, of satisfying_prop]
    arg_cong [OF assms, of clause_datum] arg_cong [OF assms, of literals]
  by (simp_all add: norm_clause_def)

lemma norm_clause_eqI:
  assumes "num_lits c = num_lits d" "num_pos_lits c = num_pos_lits d"
    "num_unassigned c = num_unassigned d" "supports c = supports d" "c_flags c = c_flags d"
    "c_time_stamp c = c_time_stamp d" "satisfying_prop c = satisfying_prop d"
    "clause_datum c = clause_datum d" "literals c = literals d"
  shows "norm_clause c = norm_clause d"
  using assms by (cases c; cases d) (simp add: norm_clause_def)

text \<open>Another fringe keeps its invariant when one clause of this fringe leaves.\<close>

lemma fringe_ok_other:
  assumes "fringe_ok h ys w" "is_volatile (h c) \<noteq> w"
    and "\<And>d. norm_clause (h' d) = norm_clause (if d = c then take_from_fringe (h d) else h d)"
    and "\<And>d. d \<in> set ys \<Longrightarrow> fringe_index (h' d) = fringe_index (h d)"
  shows "fringe_ok h' ys w"
proof -
  have "is_in_fringe (h' d) = (d \<noteq> c \<and> is_in_fringe (h d))" for d
    using norm_clause_flags(1) [OF assms(3) [of d]] by auto
  moreover have "is_volatile (h' d) = is_volatile (h d)" for d
    using norm_clause_flags(2) [OF assms(3) [of d]] by auto
  moreover have "fringe_index (h' (ys ! i)) = i" if "i < length ys" for i
    using assms(1) assms(4) [OF nth_mem [OF that]] that by (simp add: fringe_ok_def)
  ultimately show ?thesis
    using assms(1,2) by (auto simp: fringe_ok_def)
qed

lemma fringe_pop_ok:
  assumes ok: "fringe_ok h xs v" and ne: "xs \<noteq> []"
  shows "fringe_pop h xs = Inr (last xs, h(last xs := take_from_fringe (h (last xs))), butlast xs)"
    "fringe_ok (h(last xs := take_from_fringe (h (last xs)))) (butlast xs) v"
    "fringe_ok h ys (\<not> v) \<Longrightarrow> fringe_ok (h(last xs := take_from_fringe (h (last xs)))) ys (\<not> v)"
    "is_in_fringe (h (last xs))" "is_volatile (h (last xs)) = v"
proof -
  let ?i = "length xs - 1"
  have last: "last xs = xs ! ?i" and i: "?i < length xs" using ne by (simp_all add: last_conv_nth)
  have mem: "last xs \<in> set xs" using ne by simp
  then show fr: "is_in_fringe (h (last xs))" "is_volatile (h (last xs)) = v"
    using ok by (auto simp: fringe_ok_def)
  show "fringe_pop h xs = Inr (last xs, h(last xs := take_from_fringe (h (last xs))), butlast xs)"
    using ne by (simp add: fringe_pop_def l2_assert_def Let_def)
  have "fringe_ok (h(last xs := take_from_fringe (h (last xs)))) (swap_remove ?i xs) v"
  proof (rule fringe_ok_remove_at [OF ok i])
    fix j assume j: "j < length xs - 1"
    have "swap_remove ?i xs ! j = xs ! j" using j i by (simp add: nth_swap_remove)
    moreover have "fringe_index (h (xs ! j)) = j" using ok j by (auto simp: fringe_ok_def)
    ultimately show "fringe_index ((h(last xs := take_from_fringe (h (last xs)))) (swap_remove ?i xs ! j)) = j"
      by (cases "xs ! j = last xs") simp_all
  qed (simp add: last)
  then show "fringe_ok (h(last xs := take_from_fringe (h (last xs)))) (butlast xs) v"
    by (simp add: swap_remove_def)
  assume "fringe_ok h ys (\<not> v)"
  then show "fringe_ok (h(last xs := take_from_fringe (h (last xs)))) ys (\<not> v)"
    by (rule fringe_ok_other) (use fr in auto)
qed

lemma set_in_fringe_norm:
  assumes "is_in_fringe d"
  shows "norm_clause (set_in_fringe i d) = norm_clause d"
proof -
  have "c_flags d AND 2 = 0" if "\<not> bit (c_flags d) 1"
    using that by (intro bit_word_eqI) (auto simp: bit_simps bit_2_iff)
  with assms have "bit (c_flags d) 1"
    by (auto simp: is_in_fringe_def get_flag_def IN_FRINGE_def)
  then have "c_flags d OR IN_FRINGE = c_flags d"
    by (intro bit_word_eqI) (auto simp: IN_FRINGE_def bit_simps bit_2_iff)
  then show ?thesis by (simp add: norm_clause_def set_in_fringe_def set_flag_def)
qed

lemma fringe_remove_ok:
  assumes ok: "fringe_ok h xs v" and fr: "is_in_fringe (h c)" "is_volatile (h c) = v"
  shows "returns (fringe_remove c h xs) (\<lambda>(h', xs'). fringe_ok h' xs' v \<and>
     (\<forall>ys. fringe_ok h ys (\<not> v) \<longrightarrow> fringe_ok h' ys (\<not> v)) \<and>
     xs' = swap_remove (fringe_index (h c)) xs \<and>
     (\<forall>d. norm_clause (h' d) = norm_clause (if d = c then take_from_fringe (h d) else h d)))"
proof -
  let ?i = "fringe_index (h c)" and ?h1 = "h(c := take_from_fringe (h c))"
  have i: "?i < length xs" and at: "xs ! ?i = c" using fringe_ok_index [OF ok fr] by auto
  show ?thesis
  proof (cases "?i = length xs - 1")
    case True
    from i have "xs \<noteq> []" by auto
    then have "last xs = c" using True at by (simp add: last_conv_nth)
    with fringe_pop_ok [OF ok \<open>xs \<noteq> []\<close>] True \<open>xs \<noteq> []\<close> show ?thesis
      by (simp add: fringe_remove_def swap_remove_def)
  next
    case False
    let ?xs = "swap_remove ?i xs"
    let ?m = "?xs ! ?i"
    let ?h = "?h1(?m := set_in_fringe ?i (?h1 ?m))"
    have m: "?m = last xs" using i False by (simp add: nth_swap_remove)
    have "last xs \<noteq> c"
      using i at False fringe_ok_distinct [OF ok] by (metis One_nat_def diff_less last_conv_nth
          length_greater_0_conv less_nat_zero_code list.size(3) nth_eq_iff_index_eq zero_less_one)
    with m have mc: "?m \<noteq> c" by simp
    have "last xs \<in> set xs" using i by (intro last_in_set) auto
    then have mf: "is_in_fringe (h ?m)" "is_volatile (h ?m) = v"
      using ok m by (auto simp: fringe_ok_def)
    have nrm: "norm_clause (?h d) = norm_clause (if d = c then take_from_fringe (h d) else h d)" for d
      using mc mf set_in_fringe_norm by auto
    have "fringe_ok ?h ?xs v"
    proof (rule fringe_ok_remove_at [OF ok i])
      fix j assume j: "j < length xs - 1"
      show "fringe_index (?h (?xs ! j)) = j"
      proof (cases "j = ?i")
        case True
        then show ?thesis by simp
      next
        case jn: False
        have "?xs ! j \<noteq> ?m"
          using j jn i False distinct_swap_remove [OF fringe_ok_distinct [OF ok] i]
          by (subst nth_eq_iff_index_eq) auto
        moreover have "?xs ! j = xs ! j" using i j jn by (simp add: nth_swap_remove)
        moreover have "fringe_index (h (xs ! j)) = j" using ok j by (auto simp: fringe_ok_def)
        ultimately show ?thesis using mc by auto
      qed
    qed (use nrm at in auto)
    moreover have "fringe_ok ?h ys (\<not> v)" if ys: "fringe_ok h ys (\<not> v)" for ys
    proof (rule fringe_ok_other [OF ys _ nrm])
      fix d assume "d \<in> set ys"
      then have "is_volatile (h d) = (\<not> v)" using ys by (auto simp: fringe_ok_def)
      then show "fringe_index (?h d) = fringe_index (h d)" using mf fr by auto
    qed (use fr in auto)
    moreover have "fringe_remove c h xs = Inr (?h, ?xs)"
      using i False by (simp add: fringe_remove_def Let_def l2_assert_def)
    ultimately show ?thesis using nrm by simp
  qed
qed

subsection \<open>Operations that change one clause\<close>

text \<open>
  \<open>changes C F us s t\<close>: from \<open>s\<close> to \<open>t\<close> each clause of \<open>C\<close> is updated by \<open>F\<close>, up to fringe indices;
  the propositions \<open>us\<close> are pushed on the undo list; all else but the fringe and unsatisfied arrays
  is unchanged; and the bookkeeping is right again.
\<close>

definition changes ::
  "clause_id set \<Rightarrow> (clause \<Rightarrow> clause) \<Rightarrow> prop_id list \<Rightarrow> 'a ltms_scheme \<Rightarrow> 'a ltms_scheme \<Rightarrow> bool" where
  "changes C F us s t \<longleftrightarrow>
     book_ok t \<and> pheap t = pheap s \<and> props t = props s \<and> clauses t = clauses s \<and>
     time_stamp t = time_stamp s \<and> next_prop t = next_prop s \<and> next_clause t = next_clause s \<and>
     ltms.more t = ltms.more s \<and> undo_list t = undo_list s @ us \<and>
     (\<forall>d. norm_clause (cheap t d) = norm_clause (if d \<in> C then F (cheap s d) else cheap s d))"

definition norm_fun :: "(clause \<Rightarrow> clause) \<Rightarrow> bool" where
  "norm_fun F \<longleftrightarrow> (\<forall>x y. norm_clause x = norm_clause y \<longrightarrow> norm_clause (F x) = norm_clause (F y))"

lemma changes_refl: "book_ok s \<Longrightarrow> changes {} F [] s s"
  by (simp add: changes_def)

lemma changes_id: "book_ok s \<Longrightarrow> F (cheap s c) = cheap s c \<Longrightarrow> changes {c} F [] s s"
  by (simp add: changes_def)

lemma changes_book: "changes C F us s t \<Longrightarrow> book_ok t"
  by (simp add: changes_def)

lemma norm_funD: "norm_fun F \<Longrightarrow> norm_clause x = norm_clause y \<Longrightarrow> norm_clause (F x) = norm_clause (F y)"
  unfolding norm_fun_def by blast

lemma changes_clause:
  "changes C F us s t \<Longrightarrow> d \<in> C \<Longrightarrow> norm_clause (cheap t d) = norm_clause (F (cheap s d))"
  "changes C F us s t \<Longrightarrow> d \<notin> C \<Longrightarrow> norm_clause (cheap t d) = norm_clause (cheap s d)"
  by (simp_all add: changes_def)

lemma changes_trans_same:
  assumes "changes {c} F us s t" "changes {c} G vs t u" "norm_fun G"
  shows "changes {c} (\<lambda>x. G (F x)) (us @ vs) s u"
proof -
  have "norm_clause (G (cheap t c)) = norm_clause (G (F (cheap s c)))"
    by (rule norm_funD [OF assms(3) changes_clause(1) [OF assms(1)]]) simp
  then have "norm_clause (cheap u d) = norm_clause (if d \<in> {c} then G (F (cheap s d)) else cheap s d)" for d
    using changes_clause [OF assms(1), of d] changes_clause [OF assms(2), of d]
    by (cases "d = c") simp_all
  then show ?thesis using assms(1,2) by (simp add: changes_def)
qed

lemma changes_insert:
  assumes "changes C F us s t" "changes {c} F vs t u" "c \<notin> C" "norm_fun F"
  shows "changes (insert c C) F (us @ vs) s u"
proof -
  have "norm_clause (F (cheap t c)) = norm_clause (F (cheap s c))"
    using changes_clause(2) [OF assms(1,3)] by (rule norm_funD [OF assms(4)])
  then have "norm_clause (cheap u d) = norm_clause (if d \<in> insert c C then F (cheap s d) else cheap s d)" for d
    using changes_clause [OF assms(1), of d] changes_clause [OF assms(2), of d]
    by (cases "d = c"; cases "d \<in> C") simp_all
  then show ?thesis using assms(1,2) by (simp add: changes_def)
qed

lemma changes_cong:
  "changes {c} F us s t \<Longrightarrow> norm_clause (F (cheap s c)) = norm_clause (G (cheap s c)) \<Longrightarrow>
   changes {c} G us s t"
  by (simp add: changes_def)

lemma rfold_changes:
  assumes "distinct xs" "book_ok s" "norm_fun F"
    and step: "\<And>c t. \<lbrakk>c \<in> set xs; book_ok t; pheap t = pheap s;
      norm_clause (cheap t c) = norm_clause (cheap s c)\<rbrakk> \<Longrightarrow> returns (f c t) (changes {c} F (out c) t)"
  shows "returns (rfold f xs s) (changes (set xs) F (concat (map out xs)) s)"
proof -
  have "returns (rfold f xs s) (\<lambda>t. changes (set xs) F (concat (map out xs)) s t)"
  proof (rule rfold_rule [where I = "\<lambda>ys. changes (set ys) F (concat (map out ys)) s"])
    show "changes (set []) F (concat (map out [])) s s" using assms(2) by (simp add: changes_refl)
  next
    fix ys x zs t
    assume xs: "xs = ys @ x # zs" and ch: "changes (set ys) F (concat (map out ys)) s t"
    have notin: "x \<notin> set ys" using xs assms(1) by auto
    have "returns (f x t) (changes {x} F (out x) t)"
      using ch notin by (intro step) (auto simp: xs changes_def)
    then show "returns (f x t) (changes (set (ys @ [x])) F (concat (map out (ys @ [x]))) s)"
      by (rule returns_mono) (use changes_insert [OF ch _ notin assms(3)] in auto)
  qed
  then show ?thesis .
qed

definition cl_leave_fringe :: "clause \<Rightarrow> clause" where
  "cl_leave_fringe c = (if is_in_fringe c then take_from_fringe c else c)"

definition cl_enter_fringe :: "clause \<Rightarrow> clause" where
  "cl_enter_fringe c = (if is_in_fringe c then c else set_in_fringe 0 c)"

definition cl_leave_unsat :: "clause \<Rightarrow> clause" where
  "cl_leave_unsat c = (if is_unsatisfied c then set_unsatisfied False c else c)"

definition cl_enter_unsat :: "clause \<Rightarrow> clause" where
  "cl_enter_unsat c = (if is_unsatisfied c then c else set_unsatisfied True c)"

lemma flag_of_index_update [simp]:
  "is_deleted (c\<lparr>fringe_index := i\<rparr>) = is_deleted c"
  "is_in_fringe (c\<lparr>fringe_index := i\<rparr>) = is_in_fringe c"
  "is_unsatisfied (c\<lparr>fringe_index := i\<rparr>) = is_unsatisfied c"
  "is_volatile (c\<lparr>fringe_index := i\<rparr>) = is_volatile c"
  "is_destroying (c\<lparr>fringe_index := i\<rparr>) = is_destroying c"
  by (simp_all add: is_deleted_def is_in_fringe_def is_unsatisfied_def is_volatile_def is_destroying_def)

lemma norm_funI:
  assumes "\<And>x i. norm_clause (F (x\<lparr>fringe_index := i\<rparr>)) = norm_clause (F x)"
  shows "norm_fun F"
  unfolding norm_fun_def
proof (intro allI impI)
  fix x y assume "norm_clause x = norm_clause y"
  then have "x = y\<lparr>fringe_index := fringe_index x\<rparr>"
    by (cases x; cases y) (simp add: norm_clause_def)
  then show "norm_clause (F x) = norm_clause (F y)" using assms [of "fringe_index x" y] by simp
qed

lemma norm_fun_basic [simp, intro]:
  "norm_fun cl_leave_fringe" "norm_fun cl_enter_fringe" "norm_fun cl_leave_unsat"
  "norm_fun cl_enter_unsat"
  by (rule norm_funI; simp add: cl_leave_fringe_def cl_enter_fringe_def cl_leave_unsat_def
      cl_enter_unsat_def take_from_fringe_def set_in_fringe_def set_unsatisfied_def norm_clause_def)+

text \<open>The state after a fringe has been replaced together with the heap.\<close>

lemma book_replace_fringe:
  assumes ok: "book_ok s" and fr: "is_in_fringe (cheap s c)"
    and v: "is_volatile (cheap s c) = v"
    and R: "returns (fringe_remove c (cheap s) (if v then volatile_fringe s else fringe s)) Q"
    and Q: "\<And>h xs. \<lbrakk>Q (h, xs); fringe_ok h xs v; fringe_ok h (if v then fringe s else volatile_fringe s) (\<not> v);
       \<forall>d. norm_clause (h d) = norm_clause (if d = c then take_from_fringe (cheap s d) else cheap s d);
       \<forall>d. is_unsatisfied (h d) = is_unsatisfied (cheap s d)\<rbrakk> \<Longrightarrow> P (h, xs)"
  shows "returns (fringe_remove c (cheap s) (if v then volatile_fringe s else fringe s)) P"
proof -
  have fo: "fringe_ok (cheap s) (if v then volatile_fringe s else fringe s) v"
    "fringe_ok (cheap s) (if v then fringe s else volatile_fringe s) (\<not> v)"
    using ok by (simp_all add: book_ok_def)
  from returns_conj [OF R fringe_remove_ok [OF fo(1) fr v]] show ?thesis
  proof (rule returns_mono)
    fix y
    assume *: "Q y \<and> (case y of (h', xs') \<Rightarrow>
        fringe_ok h' xs' v \<and> (\<forall>ys. fringe_ok (cheap s) ys (\<not> v) \<longrightarrow> fringe_ok h' ys (\<not> v)) \<and>
        xs' = swap_remove (fringe_index (cheap s c)) (if v then volatile_fringe s else fringe s) \<and>
        (\<forall>d. norm_clause (h' d) = norm_clause (if d = c then take_from_fringe (cheap s d) else cheap s d)))"
    obtain h xs where y: "y = (h, xs)" by (cases y)
    have nrm: "\<forall>d. norm_clause (h d) = norm_clause (if d = c then take_from_fringe (cheap s d) else cheap s d)"
      using * y by simp
    have "is_unsatisfied (h d) = is_unsatisfied (cheap s d)" for d
      using norm_clause_flags(3) [OF nrm [rule_format, of d]] by (cases "d = c") simp_all
    with * y fo(2) nrm show "P y" by (auto intro!: Q)
  qed
qed

lemma remove_from_fringe_ok:
  assumes ok: "book_ok s"
  shows "returns (remove_from_fringe c s) (changes {c} cl_leave_fringe [] s)"
proof (cases "is_in_fringe (cheap s c)")
  case False
  then show ?thesis using ok by (simp add: remove_from_fringe_def cl_leave_fringe_def changes_id)
next
  case fr: True
  define v where "v = is_volatile (cheap s c)"
  have fo: "fringe_ok (cheap s) (if v then volatile_fringe s else fringe s) v"
    using ok by (simp add: book_ok_def)
  have "returns (fringe_remove c (cheap s) (if v then volatile_fringe s else fringe s))
     (\<lambda>(h, xs). changes {c} cl_leave_fringe [] s
        (if v then s\<lparr>cheap := h, volatile_fringe := xs\<rparr> else s\<lparr>cheap := h, fringe := xs\<rparr>))"
  proof (rule book_replace_fringe [OF ok fr v_def [symmetric], where Q = "\<lambda>_. True"])
    show "returns (fringe_remove c (cheap s) (if v then volatile_fringe s else fringe s)) (\<lambda>_. True)"
      using fringe_remove_ok [OF fo fr] v_def by (auto elim!: returns_mono)
  next
    fix h xs
    assume *: "fringe_ok h xs v" "fringe_ok h (if v then fringe s else volatile_fringe s) (\<not> v)"
      "\<forall>d. norm_clause (h d) = norm_clause (if d = c then take_from_fringe (cheap s d) else cheap s d)"
      "\<forall>d. is_unsatisfied (h d) = is_unsatisfied (cheap s d)"
    then show "case (h, xs) of (h, xs) \<Rightarrow> changes {c} cl_leave_fringe [] s
        (if v then s\<lparr>cheap := h, volatile_fringe := xs\<rparr> else s\<lparr>cheap := h, fringe := xs\<rparr>)"
      using ok fr by (cases v) (simp_all add: changes_def book_ok_def cl_leave_fringe_def)
  qed
  then show ?thesis
    using fr by (cases v) (simp_all add: remove_from_fringe_def v_def case_prod_unfold)
qed

lemma insert_into_fringe_ok:
  assumes ok: "book_ok s"
  shows "changes {c} cl_enter_fringe [] s (insert_into_fringe c s)"
proof (cases "is_in_fringe (cheap s c)")
  case True
  then show ?thesis using ok by (simp add: insert_into_fringe_def cl_enter_fringe_def changes_id)
next
  case fr: False
  have nrm: "norm_clause (set_in_fringe i (cheap s c)) = norm_clause (cl_enter_fringe (cheap s c))" for i
    using fr by (simp add: cl_enter_fringe_def set_in_fringe_def norm_clause_def)
  have un: "{d. is_unsatisfied (((cheap s)(c := set_in_fringe i (cheap s c))) d)} = {d. is_unsatisfied (cheap s d)}" for i
    by auto
  show ?thesis
  proof (cases "is_volatile (cheap s c)")
    case True
    with ok have "fringe_ok (cheap s) (volatile_fringe s) True" "fringe_ok (cheap s) (fringe s) (\<not> True)"
      by (simp_all add: book_ok_def)
    note fo = fringe_push_ok [OF this(1) fr] this(2)
    show ?thesis
      using fo True fr ok nrm un
      by (simp add: insert_into_fringe_def changes_def book_ok_def split del: if_split)
        (simp add: book_ok_def)
  next
    case False
    with ok have "fringe_ok (cheap s) (fringe s) False" "fringe_ok (cheap s) (volatile_fringe s) (\<not> False)"
      by (simp_all add: book_ok_def)
    note fo = fringe_push_ok [OF this(1) fr] this(2)
    show ?thesis
      using fo False fr ok nrm un
      by (simp add: insert_into_fringe_def changes_def book_ok_def split del: if_split)
        (simp add: book_ok_def)
  qed
qed

lemma fringe_ok_upd:
  assumes "fringe_ok h xs v" "is_in_fringe d = is_in_fringe (h c)" "is_volatile d = is_volatile (h c)"
    "fringe_index d = fringe_index (h c)"
  shows "fringe_ok (h(c := d)) xs v"
  by (rule fringe_ok_cong [OF assms(1)]) (use assms in auto)

lemma upd_clause_ok:
  assumes ok: "book_ok s" and f: "\<And>x. c_flags (f x) = c_flags x \<and> fringe_index (f x) = fringe_index x"
  shows "changes {c} f [] s (upd_clause c f s)"
proof -
  have fl: "is_in_fringe (f x) = is_in_fringe x" "is_volatile (f x) = is_volatile x"
    "is_unsatisfied (f x) = is_unsatisfied x" for x
    using f by (simp_all add: is_in_fringe_def is_volatile_def is_unsatisfied_def)
  have un: "{d. is_unsatisfied (((cheap s)(c := f (cheap s c))) d)} = {d. is_unsatisfied (cheap s d)}"
    using fl by auto
  have "book_ok (upd_clause c f s)"
    using ok fl f un by (simp add: book_ok_def fringe_ok_upd)
  then show ?thesis by (simp add: changes_def upd_clause_def)
qed

lemma insert_into_unsat_ok:
  assumes ok: "book_ok s"
  shows "changes {c} cl_enter_unsat [] s (insert_into_unsat c s)"
proof (cases "is_unsatisfied (cheap s c)")
  case True
  then show ?thesis using ok by (simp add: insert_into_unsat_def cl_enter_unsat_def changes_id)
next
  case False
  have "{d. is_unsatisfied (((cheap s)(c := set_unsatisfied True (cheap s c))) d)} = insert c {d. is_unsatisfied (cheap s d)}"
    by auto
  moreover have "c \<notin> set (unsatisfied s)" using ok False by (simp add: book_ok_def)
  ultimately have "book_ok (insert_into_unsat c s)"
    using ok False by (simp add: insert_into_unsat_def book_ok_def fringe_ok_upd)
  then show ?thesis using False by (simp add: insert_into_unsat_def changes_def cl_enter_unsat_def upd_clause_def)
qed

lemma remove_from_unsat_ok:
  assumes ok: "book_ok s"
  shows "returns (remove_from_unsat c s) (changes {c} cl_leave_unsat [] s)"
proof (cases "is_unsatisfied (cheap s c)")
  case False
  then show ?thesis using ok by (simp add: remove_from_unsat_def cl_leave_unsat_def changes_id)
next
  case True
  then have "c \<in> set (unsatisfied s)" using ok by (simp add: book_ok_def)
  then obtain i where i: "index_of c (unsatisfied s) = Some i" by (metis index_of_None not_None_eq)
  note il = index_of_Some [OF i]
  have "{d. is_unsatisfied (((cheap s)(c := set_unsatisfied False (cheap s c))) d)} = {d. is_unsatisfied (cheap s d)} - {c}"
    by auto
  then have "book_ok (upd_clause c (set_unsatisfied False) (s\<lparr>unsatisfied := swap_remove i (unsatisfied s)\<rparr>))"
    using ok il by (simp add: book_ok_def fringe_ok_upd distinct_swap_remove set_swap_remove)
  then show ?thesis
    using True i by (simp add: remove_from_unsat_def changes_def cl_leave_unsat_def upd_clause_def)
qed

lemma book_ok_undo [simp]: "book_ok (s\<lparr>undo_list := us\<rparr>) = book_ok s"
  by (simp add: book_ok_def)

lemma book_ok_upd_prop [simp]: "book_ok (upd_prop p f s) = book_ok s"
  by (simp add: book_ok_def)

lemma book_ok_time [simp]: "book_ok (s\<lparr>time_stamp := t\<rparr>) = book_ok s"
  by (simp add: book_ok_def)

end
