(* ===== verification/Ltms_Steps.thy ===== *)
theory Ltms_Steps
  imports Ltms_Book
begin

text \<open>
  What assigning and unassigning a proposition does to one clause, as pure functions on clause
  objects, and the loops over the occurrences as their pointwise application.
\<close>

subsection \<open>The pure clause updates\<close>

definition cl_assign_same :: "prop_id \<Rightarrow> clause \<Rightarrow> clause" where
  "cl_assign_same p c =
     (if is_deleted c then c
      else let c1 = c\<lparr>num_unassigned := to_length_t (num_unassigned c - 1)\<rparr> in
        if satisfying_prop c = None then cl_leave_fringe (c1\<lparr>satisfying_prop := Some p\<rparr>) else c1)"

definition cl_assign_opposite :: "clause \<Rightarrow> clause" where
  "cl_assign_opposite c =
     (if is_deleted c then c
      else let c1 = c\<lparr>num_unassigned := to_length_t (num_unassigned c - 1)\<rparr> in
        if satisfying_prop c \<noteq> None then c1
        else if is_in_fringe c then cl_enter_unsat (cl_leave_fringe c1)
        else if num_unassigned c1 = 1 then cl_enter_fringe c1 else c1)"

definition cl_unassign_same :: "prop_heap \<Rightarrow> prop_id \<Rightarrow> clause \<Rightarrow> clause" where
  "cl_unassign_same ph p c =
     (if is_deleted c then c
      else let c1 = c\<lparr>num_unassigned := to_length_t (num_unassigned c + 1)\<rparr> in
        if satisfying_prop c \<noteq> Some p then c1
        else let q = find_satisfying_prop ph c; c2 = c1\<lparr>satisfying_prop := q\<rparr> in
          if q = None \<and> num_unassigned c1 = 1 then cl_enter_fringe c2 else c2)"

definition sup_of :: "clause \<Rightarrow> prop_id option" where
  "sup_of c = (if supports c = NO_PROPOSITION then None else Some (literals c ! nat (supports c)))"

definition sup_in_range :: "clause \<Rightarrow> bool" where
  "sup_in_range c \<longleftrightarrow> supports c = NO_PROPOSITION \<or> 0 \<le> supports c \<and> supports c < num_lits c"

definition cl_unassign_opposite :: "clause \<Rightarrow> clause" where
  "cl_unassign_opposite c =
     (if is_deleted c then c
      else let c1 = c\<lparr>num_unassigned := to_length_t (num_unassigned c + 1)\<rparr> in
        if is_unsatisfied c then cl_enter_fringe (cl_leave_unsat c1)
        else if is_in_fringe c then cl_leave_fringe c1
        else c1\<lparr>supports := NO_PROPOSITION\<rparr>)"

definition undone_by :: "clause \<Rightarrow> prop_id list" where
  "undone_by c =
     (if is_deleted c \<or> is_unsatisfied c \<or> is_in_fringe c then []
      else case sup_of c of None \<Rightarrow> [] | Some p \<Rightarrow> [p])"

lemma find_satisfying_prop_index [simp]:
  "find_satisfying_prop ph (c\<lparr>fringe_index := i\<rparr>) = find_satisfying_prop ph c"
  "find_satisfying_prop ph (c\<lparr>num_unassigned := n\<rparr>) = find_satisfying_prop ph c"
  by (simp_all add: find_satisfying_prop_def)

lemma norm_fun_steps [simp, intro]:
  "norm_fun (cl_assign_same p)" "norm_fun cl_assign_opposite" "norm_fun (cl_unassign_same ph p)"
  "norm_fun cl_unassign_opposite"
  by (rule norm_funI; simp add: cl_assign_same_def cl_assign_opposite_def cl_unassign_same_def
      cl_unassign_opposite_def cl_leave_fringe_def cl_enter_fringe_def cl_leave_unsat_def
      cl_enter_unsat_def take_from_fringe_def set_in_fringe_def set_unsatisfied_def norm_clause_def
      is_deleted_def is_in_fringe_def is_unsatisfied_def Let_def)+

lemma undone_by_norm: "norm_clause c = norm_clause d \<Longrightarrow> undone_by c = undone_by d"
  by (simp add: undone_by_def sup_of_def norm_clause_flags [of c d] norm_clause_fields [of c d])

subsection \<open>One step of each loop\<close>

lemma get_supports_sup_of: "sup_in_range c \<Longrightarrow> get_supports c = Inr (sup_of c)"
  by (auto simp: get_supports_def sup_of_def sup_in_range_def l2_assert_def)

lemma upd_clause_res_ok:
  assumes "book_ok s" "f (cheap s c) = Inr (g (cheap s c))"
    and "\<And>x. c_flags (g x) = c_flags x \<and> fringe_index (g x) = fringe_index x"
  shows "returns (upd_clause_res c f s) (\<lambda>t. t = upd_clause c g s \<and> changes {c} g [] s t)"
  using upd_clause_ok [OF assms(1,3)] assms(2) by (simp add: upd_clause_res_def upd_clause_def)

lemma upd_clause_res_eq:
  "f (cheap s c) = Inr d \<Longrightarrow> upd_clause_res c f s = Inr (upd_clause c (\<lambda>_. d) s)"
  by (simp add: upd_clause_res_def)

lemma decr_ok: "0 < num_unassigned c \<Longrightarrow>
   decr_num_unassigned c = Inr (c\<lparr>num_unassigned := to_length_t (num_unassigned c - 1)\<rparr>)"
  by (simp add: decr_num_unassigned_def l2_assert_def)

lemma incr_ok: "num_unassigned c < num_lits c \<Longrightarrow>
   incr_num_unassigned c = Inr (c\<lparr>num_unassigned := to_length_t (num_unassigned c + 1)\<rparr>)"
  by (simp add: incr_num_unassigned_def l2_assert_def)

text \<open>A constant update of one clause that keeps flags and index.\<close>

lemma upd_clause_const_ok:
  assumes "book_ok s" "c_flags d = c_flags (cheap s c)" "fringe_index d = fringe_index (cheap s c)"
    "norm_clause d = norm_clause (F (cheap s c))"
  shows "changes {c} F [] s (upd_clause c (\<lambda>_. d) s)"
proof -
  have "changes {c} (\<lambda>x. d\<lparr>c_flags := c_flags x, fringe_index := fringe_index x\<rparr>) [] s
      (upd_clause c (\<lambda>x. d\<lparr>c_flags := c_flags x, fringe_index := fringe_index x\<rparr>) s)"
    by (rule upd_clause_ok [OF assms(1)]) simp
  moreover have "d\<lparr>c_flags := c_flags (cheap s c), fringe_index := fringe_index (cheap s c)\<rparr> = d"
    using assms(2,3) by simp
  ultimately have "changes {c} (\<lambda>x. d\<lparr>c_flags := c_flags x, fringe_index := fringe_index x\<rparr>) [] s
      (upd_clause c (\<lambda>_. d) s)"
    by (simp add: upd_clause_def)
  then show ?thesis
    by (rule changes_cong) (simp flip: assms(2,3) add: assms(4))
qed

lemma assign_same_step_ok:
  assumes ok: "book_ok s" and n: "\<not> is_deleted (cheap s c) \<Longrightarrow> 0 < num_unassigned (cheap s c)"
  shows "returns (assign_same_step p c s) (changes {c} (cl_assign_same p) [] s)"
proof (cases "is_deleted (cheap s c)")
  case True
  then show ?thesis using ok by (simp add: assign_same_step_def cl_assign_same_def changes_id)
next
  case nd: False
  let ?d = "(cheap s c)\<lparr>num_unassigned := to_length_t (num_unassigned (cheap s c) - 1)\<rparr>"
  let ?s1 = "upd_clause c (\<lambda>_. ?d) s"
  have eq: "upd_clause_res c decr_num_unassigned s = Inr ?s1"
    by (rule upd_clause_res_eq) (use n [OF nd] in \<open>rule decr_ok\<close>)
  show ?thesis
  proof (cases "satisfying_prop (cheap s c) = None")
    case False
    have "changes {c} (cl_assign_same p) [] s ?s1"
      by (rule upd_clause_const_ok [OF ok]) (use nd False in \<open>auto simp: cl_assign_same_def\<close>)
    then show ?thesis using nd eq False by (auto simp: assign_same_step_def)
  next
    case True
    let ?s2 = "upd_clause c (\<lambda>d. d\<lparr>satisfying_prop := Some p\<rparr>) ?s1"
    have s2: "?s2 = upd_clause c (\<lambda>_. ?d\<lparr>satisfying_prop := Some p\<rparr>) s" by (simp add: upd_clause_def)
    have ch: "changes {c} (\<lambda>x. x\<lparr>num_unassigned := to_length_t (num_unassigned x - 1), satisfying_prop := Some p\<rparr>) [] s ?s2"
      unfolding s2 by (rule upd_clause_const_ok [OF ok]) simp_all
    have "returns (remove_from_fringe c ?s2) (changes {c} cl_leave_fringe [] ?s2)"
      by (rule remove_from_fringe_ok) (use ch in \<open>rule changes_book\<close>)
    then have "returns (remove_from_fringe c ?s2) (changes {c} (cl_assign_same p) [] s)"
    proof (rule returns_mono)
      fix t assume "changes {c} cl_leave_fringe [] ?s2 t"
      from changes_trans_same [OF ch this] show "changes {c} (cl_assign_same p) [] s t"
        using nd True by (auto elim!: changes_cong simp: cl_assign_same_def Let_def)
    qed
    moreover have "(if is_in_fringe (cheap ?s2 c) then remove_from_fringe c ?s2 else Inr ?s2) = remove_from_fringe c ?s2"
      by (simp add: remove_from_fringe_def)
    ultimately show ?thesis
      using nd True by (simp add: assign_same_step_def eq Let_def)
  qed
qed

lemma assign_opposite_step_ok:
  assumes ok: "book_ok s" and n: "\<not> is_deleted (cheap s c) \<Longrightarrow> 0 < num_unassigned (cheap s c)"
  shows "returns (assign_opposite_step c s) (changes {c} cl_assign_opposite [] s)"
proof (cases "is_deleted (cheap s c)")
  case True
  then show ?thesis using ok by (simp add: assign_opposite_step_def cl_assign_opposite_def changes_id)
next
  case nd: False
  let ?d = "(cheap s c)\<lparr>num_unassigned := to_length_t (num_unassigned (cheap s c) - 1)\<rparr>"
  let ?s1 = "upd_clause c (\<lambda>_. ?d) s"
  have eq: "upd_clause_res c decr_num_unassigned s = Inr ?s1"
    by (rule upd_clause_res_eq) (use n [OF nd] in \<open>rule decr_ok\<close>)
  have ch: "changes {c} (\<lambda>x. x\<lparr>num_unassigned := to_length_t (num_unassigned x - 1)\<rparr>) [] s ?s1"
    by (rule upd_clause_const_ok [OF ok]) simp_all
  note ok1 = changes_book [OF ch]
  show ?thesis
  proof (cases "satisfying_prop (cheap s c) = None")
    case False
    then have "changes {c} cl_assign_opposite [] s ?s1"
      using ch nd by (auto elim!: changes_cong simp: cl_assign_opposite_def)
    then show ?thesis using nd eq False by (auto simp: assign_opposite_step_def)
  next
    case sat: True
    show ?thesis
    proof (cases "is_in_fringe (cheap s c)")
      case True
      have "returns (remove_from_fringe c ?s1)
          (\<lambda>t. changes {c} cl_assign_opposite [] s (insert_into_unsat c t))"
        using remove_from_fringe_ok [OF ok1, of c]
      proof (rule returns_mono)
        fix t assume t: "changes {c} cl_leave_fringe [] ?s1 t"
        from changes_trans_same [OF changes_trans_same [OF ch t] insert_into_unsat_ok [OF changes_book [OF t]]]
        show "changes {c} cl_assign_opposite [] s (insert_into_unsat c t)"
          using nd sat True by (auto elim!: changes_cong simp: cl_assign_opposite_def)
      qed
      then show ?thesis using nd eq sat True by (simp add: assign_opposite_step_def)
    next
      case False
      have "changes {c} cl_assign_opposite [] s (insert_into_fringe c ?s1)"
        if "num_unassigned ?d = 1"
        using changes_trans_same [OF ch insert_into_fringe_ok [OF ok1]] that nd sat False
        by (auto elim!: changes_cong simp: cl_assign_opposite_def)
      moreover have "changes {c} cl_assign_opposite [] s ?s1" if "num_unassigned ?d \<noteq> 1"
        using ch that nd sat False by (auto elim!: changes_cong simp: cl_assign_opposite_def)
      ultimately show ?thesis using nd eq sat False by (simp add: assign_opposite_step_def)
    qed
  qed
qed

lemma unassign_same_step_ok:
  assumes ok: "book_ok s"
    and n: "\<not> is_deleted (cheap s c) \<Longrightarrow> num_unassigned (cheap s c) < num_lits (cheap s c)"
  shows "returns (unassign_same_step p c s) (changes {c} (cl_unassign_same (pheap s) p) [] s)"
proof (cases "is_deleted (cheap s c)")
  case True
  then show ?thesis using ok by (simp add: unassign_same_step_def cl_unassign_same_def changes_id)
next
  case nd: False
  let ?d = "(cheap s c)\<lparr>num_unassigned := to_length_t (num_unassigned (cheap s c) + 1)\<rparr>"
  let ?s1 = "upd_clause c (\<lambda>_. ?d) s"
  have eq: "upd_clause_res c incr_num_unassigned s = Inr ?s1"
    by (rule upd_clause_res_eq) (use n [OF nd] in \<open>rule incr_ok\<close>)
  show ?thesis
  proof (cases "satisfying_prop (cheap s c) = Some p")
    case False
    have "changes {c} (cl_unassign_same (pheap s) p) [] s ?s1"
      by (rule upd_clause_const_ok [OF ok]) (use nd False in \<open>simp_all add: cl_unassign_same_def\<close>)
    then show ?thesis using nd eq False by (simp add: unassign_same_step_def)
  next
    case sat: True
    let ?q = "find_satisfying_prop (pheap s) (cheap s c)"
    let ?e = "?d\<lparr>satisfying_prop := ?q\<rparr>"
    let ?s2 = "upd_clause c (\<lambda>d. d\<lparr>satisfying_prop := ?q\<rparr>) ?s1"
    have s2: "?s2 = upd_clause c (\<lambda>_. ?e) s" by (simp add: upd_clause_def)
    have ch: "changes {c} (\<lambda>x. x\<lparr>num_unassigned := to_length_t (num_unassigned x + 1),
        satisfying_prop := find_satisfying_prop (pheap s) x\<rparr>) [] s ?s2"
      unfolding s2 by (rule upd_clause_const_ok [OF ok]) simp_all
    have "changes {c} (cl_unassign_same (pheap s) p) [] s (insert_into_fringe c ?s2)"
      if "?q = None" "num_unassigned ?d = 1"
      using changes_trans_same [OF ch insert_into_fringe_ok [OF changes_book [OF ch]]] that nd sat
      by (auto elim!: changes_cong simp: cl_unassign_same_def)
    moreover have "changes {c} (cl_unassign_same (pheap s) p) [] s ?s2"
      if "\<not> (?q = None \<and> num_unassigned ?d = 1)"
      using ch that nd sat by (auto elim!: changes_cong simp: cl_unassign_same_def)
    ultimately show ?thesis using nd sat by (auto simp: unassign_same_step_def eq Let_def)
  qed
qed

lemma unassign_opposite_step_ok:
  assumes ok: "book_ok s"
    and n: "\<not> is_deleted (cheap s c) \<Longrightarrow> num_unassigned (cheap s c) < num_lits (cheap s c)"
    and sup: "\<not> is_deleted (cheap s c) \<Longrightarrow> sup_in_range (cheap s c)"
  shows "returns (unassign_opposite_step c s) (changes {c} cl_unassign_opposite (undone_by (cheap s c)) s)"
proof (cases "is_deleted (cheap s c)")
  case True
  then show ?thesis using ok
    by (simp add: unassign_opposite_step_def cl_unassign_opposite_def undone_by_def changes_id)
next
  case nd: False
  let ?d = "(cheap s c)\<lparr>num_unassigned := to_length_t (num_unassigned (cheap s c) + 1)\<rparr>"
  let ?s1 = "upd_clause c (\<lambda>_. ?d) s"
  have eq: "upd_clause_res c incr_num_unassigned s = Inr ?s1"
    by (rule upd_clause_res_eq) (use n [OF nd] in \<open>rule incr_ok\<close>)
  have ch: "changes {c} (\<lambda>x. x\<lparr>num_unassigned := to_length_t (num_unassigned x + 1)\<rparr>) [] s ?s1"
    by (rule upd_clause_const_ok [OF ok]) simp_all
  note ok1 = changes_book [OF ch]
  show ?thesis
  proof (cases "is_unsatisfied (cheap s c)")
    case un: True
    have "returns (remove_from_unsat c ?s1)
        (\<lambda>t. changes {c} cl_unassign_opposite (undone_by (cheap s c)) s (insert_into_fringe c t))"
      using remove_from_unsat_ok [OF ok1, of c]
    proof (rule returns_mono)
      fix t assume t: "changes {c} cl_leave_unsat [] ?s1 t"
      from changes_trans_same [OF changes_trans_same [OF ch t] insert_into_fringe_ok [OF changes_book [OF t]]]
      show "changes {c} cl_unassign_opposite (undone_by (cheap s c)) s (insert_into_fringe c t)"
        using nd un by (auto elim!: changes_cong simp: cl_unassign_opposite_def undone_by_def)
    qed
    then show ?thesis using nd eq un by (simp add: unassign_opposite_step_def)
  next
    case un: False
    show ?thesis
    proof (cases "is_in_fringe (cheap s c)")
      case fr: True
      have "returns (remove_from_fringe c ?s1) (changes {c} cl_unassign_opposite (undone_by (cheap s c)) s)"
        using remove_from_fringe_ok [OF ok1, of c]
      proof (rule returns_mono)
        fix t assume "changes {c} cl_leave_fringe [] ?s1 t"
        from changes_trans_same [OF ch this]
        show "changes {c} cl_unassign_opposite (undone_by (cheap s c)) s t"
          using nd un fr by (auto elim!: changes_cong simp: cl_unassign_opposite_def undone_by_def)
      qed
      then show ?thesis using nd eq un fr by (simp add: unassign_opposite_step_def)
    next
      case fr: False
      have gs: "get_supports ?d = Inr (sup_of (cheap s c))"
        using get_supports_sup_of [of ?d] sup [OF nd] by (simp add: sup_of_def sup_in_range_def)
      have un0: "undone_by (cheap s c) = (case sup_of (cheap s c) of None \<Rightarrow> [] | Some q \<Rightarrow> [q])"
        using nd un fr by (simp add: undone_by_def)
      show ?thesis
      proof (cases "sup_of (cheap s c)")
        case None
        then have "(cheap s c)\<lparr>supports := NO_PROPOSITION\<rparr> = cheap s c"
          by (simp add: sup_of_def split: if_splits)
        then have "?d\<lparr>supports := NO_PROPOSITION\<rparr> = ?d" by (metis clause.ext_inject
              clause.surjective clause.update_convs(3,4))
        then have "changes {c} cl_unassign_opposite [] s ?s1"
          using ch nd un fr by (auto elim!: changes_cong simp: cl_unassign_opposite_def)
        then show ?thesis using nd eq un fr gs None un0 by (simp add: unassign_opposite_step_def)
      next
        case (Some q)
        let ?s2 = "upd_clause c (\<lambda>_. ?d\<lparr>supports := NO_PROPOSITION\<rparr>) (enqueue_for_undo q ?s1)"
        have e: "upd_clause_res c (set_supports None) (enqueue_for_undo q ?s1) = Inr ?s2"
          by (simp add: upd_clause_res_def set_supports_def enqueue_for_undo_def)
        have "changes {c} cl_unassign_opposite [] s (upd_clause c (\<lambda>_. ?d\<lparr>supports := NO_PROPOSITION\<rparr>) s)"
          by (rule upd_clause_const_ok [OF ok]) (use nd un fr in \<open>simp_all add: cl_unassign_opposite_def\<close>)
        then have "changes {c} cl_unassign_opposite [q] s ?s2"
          by (auto simp: changes_def upd_clause_def enqueue_for_undo_def book_ok_def)
        then show ?thesis using nd eq un fr gs Some un0 e by (simp add: unassign_opposite_step_def)
      qed
    qed
  qed
qed

subsection \<open>The loops\<close>

lemma concat_nothing: "concat (map (\<lambda>_. []) xs) = []"
  by (induction xs) auto

lemma assignUpdateSameSense_ok:
  assumes "book_ok s" "distinct (occ_same p b s)"
    and "\<And>c. c \<in> set (occ_same p b s) \<Longrightarrow> \<not> is_deleted (cheap s c) \<Longrightarrow> 0 < num_unassigned (cheap s c)"
  shows "returns (assignUpdateSameSense p b s) (changes (set (occ_same p b s)) (cl_assign_same p) [] s)"
proof -
  have "returns (rfold (assign_same_step p) (occ_same p b s) s)
     (changes (set (occ_same p b s)) (cl_assign_same p) (concat (map (\<lambda>_. []) (occ_same p b s))) s)"
  proof (rule rfold_changes [OF assms(2,1)])
    fix c t
    assume "c \<in> set (occ_same p b s)" "book_ok t"
      and nrm: "norm_clause (cheap t c) = norm_clause (cheap s c)"
    then show "returns (assign_same_step p c t) (changes {c} (cl_assign_same p) [] t)"
      using assms(3) assign_same_step_ok [of t c p] norm_clause_flags [OF nrm] norm_clause_fields [OF nrm]
      by simp
  qed simp
  then show ?thesis by (simp add: assignUpdateSameSense_def concat_nothing)
qed

lemma assignUpdateOppositeSense_ok:
  assumes "book_ok s" "distinct (occ_opposite p b s)"
    and "\<And>c. c \<in> set (occ_opposite p b s) \<Longrightarrow> \<not> is_deleted (cheap s c) \<Longrightarrow> 0 < num_unassigned (cheap s c)"
  shows "returns (assignUpdateOppositeSense p b s) (changes (set (occ_opposite p b s)) cl_assign_opposite [] s)"
proof -
  have "returns (rfold assign_opposite_step (occ_opposite p b s) s)
     (changes (set (occ_opposite p b s)) cl_assign_opposite (concat (map (\<lambda>_. []) (occ_opposite p b s))) s)"
  proof (rule rfold_changes [OF assms(2,1)])
    fix c t
    assume "c \<in> set (occ_opposite p b s)" "book_ok t"
      and nrm: "norm_clause (cheap t c) = norm_clause (cheap s c)"
    then show "returns (assign_opposite_step c t) (changes {c} cl_assign_opposite [] t)"
      using assms(3) assign_opposite_step_ok [of t c] norm_clause_flags [OF nrm] norm_clause_fields [OF nrm]
      by simp
  qed simp
  then show ?thesis by (simp add: assignUpdateOppositeSense_def concat_nothing)
qed

lemma unassignUpdateSameSense_ok:
  assumes "book_ok s" "distinct (occ_same p b s)"
    and "\<And>c. c \<in> set (occ_same p b s) \<Longrightarrow> \<not> is_deleted (cheap s c) \<Longrightarrow>
       num_unassigned (cheap s c) < num_lits (cheap s c)"
  shows "returns (unassignUpdateSameSense p b s)
     (changes (set (occ_same p b s)) (cl_unassign_same (pheap s) p) [] s)"
proof -
  have "returns (rfold (unassign_same_step p) (occ_same p b s) s)
     (changes (set (occ_same p b s)) (cl_unassign_same (pheap s) p)
        (concat (map (\<lambda>_. []) (occ_same p b s))) s)"
  proof (rule rfold_changes [OF assms(2,1)])
    fix c t
    assume "c \<in> set (occ_same p b s)" "book_ok t" and ph: "pheap t = pheap s"
      and nrm: "norm_clause (cheap t c) = norm_clause (cheap s c)"
    then show "returns (unassign_same_step p c t) (changes {c} (cl_unassign_same (pheap s) p) [] t)"
      using assms(3) unassign_same_step_ok [of t c p] norm_clause_flags [OF nrm] norm_clause_fields [OF nrm]
      by simp
  qed simp
  then show ?thesis by (simp add: unassignUpdateSameSense_def concat_nothing)
qed

lemma unassignUpdateOppositeSense_ok:
  assumes "book_ok s" "distinct (occ_opposite p b s)"
    and "\<And>c. c \<in> set (occ_opposite p b s) \<Longrightarrow> \<not> is_deleted (cheap s c) \<Longrightarrow>
       num_unassigned (cheap s c) < num_lits (cheap s c) \<and> sup_in_range (cheap s c)"
  shows "returns (unassignUpdateOppositeSense p b s)
     (changes (set (occ_opposite p b s)) cl_unassign_opposite
       (concat (map (\<lambda>c. undone_by (cheap s c)) (occ_opposite p b s))) s)"
  unfolding unassignUpdateOppositeSense_def
proof (rule rfold_changes [OF assms(2,1)])
  fix c t
  assume "c \<in> set (occ_opposite p b s)" "book_ok t" and ph: "pheap t = pheap s"
    and nrm: "norm_clause (cheap t c) = norm_clause (cheap s c)"
  then show "returns (unassign_opposite_step c t)
      (changes {c} cl_unassign_opposite (undone_by (cheap s c)) t)"
    using assms(3) unassign_opposite_step_ok [of t c] norm_clause_flags [OF nrm] norm_clause_fields [OF nrm]
      undone_by_norm [OF nrm] by (simp add: sup_in_range_def)
qed simp

end
