(* ===== verification/Ltms_Clause_Inv.thy ===== *)
theory Ltms_Clause_Inv
  imports Ltms_Steps
begin

text \<open>
  The invariant of one clause under a valuation of its literals, and how the pure clause updates
  keep it. Valuations are functions on literals, so that the two loops of an assignment, which
  treat the two literals of a proposition one after the other, are two updates of the valuation.
\<close>

type_synonym lit_val = "lit \<Rightarrow> truth_value_t"

definition unknown_lits :: "lit_val \<Rightarrow> clause \<Rightarrow> nat" where
  "unknown_lits v c = length (filter (\<lambda>l. v l = UNKNOWN) (clause_lits c))"

definition satisfier_ok :: "lit_val \<Rightarrow> clause \<Rightarrow> bool" where
  "satisfier_ok v c \<longleftrightarrow>
     (case satisfying_prop c of
        None \<Rightarrow> \<forall>l \<in> set (clause_lits c). v l \<noteq> PTRUE
      | Some q \<Rightarrow> \<exists>b. (q, b) \<in> set (clause_lits c) \<and> v (q, b) = PTRUE)"

text \<open>
  \<open>popped\<close> is true of a clause that has been taken from the fringe in order to be propagated.
\<close>

definition clause_ok :: "lit_val \<Rightarrow> bool \<Rightarrow> clause \<Rightarrow> bool" where
  "clause_ok v popped c \<longleftrightarrow>
     (if is_deleted c then \<not> is_in_fringe c \<and> \<not> is_unsatisfied c
      else num_unassigned c = int (unknown_lits v c) \<and> satisfier_ok v c \<and>
        (is_in_fringe c \<longleftrightarrow> \<not> popped \<and> satisfying_prop c = None \<and> num_unassigned c = 1) \<and>
        (is_unsatisfied c \<longleftrightarrow> satisfying_prop c = None \<and> num_unassigned c = 0))"

text \<open>The fields no update of an assignment touches.\<close>

definition static_eq :: "clause \<Rightarrow> clause \<Rightarrow> bool" where
  "static_eq c d \<longleftrightarrow> num_lits c = num_lits d \<and> num_pos_lits c = num_pos_lits d \<and>
     literals c = literals d \<and> is_deleted c = is_deleted d \<and> is_volatile c = is_volatile d \<and>
     is_destroying c = is_destroying d \<and> c_time_stamp c = c_time_stamp d \<and>
     clause_datum c = clause_datum d"

lemma clause_lits_cong:
  "num_lits c = num_lits d \<Longrightarrow> num_pos_lits c = num_pos_lits d \<Longrightarrow> literals c = literals d \<Longrightarrow>
   clause_lits c = clause_lits d"
  by (simp add: clause_lits_def)

lemma static_eq_refl [simp]: "static_eq c c"
  by (simp add: static_eq_def)

lemma static_eq_sym: "static_eq c d \<Longrightarrow> static_eq d c"
  by (simp add: static_eq_def)

lemma static_eq_trans: "static_eq c d \<Longrightarrow> static_eq d e \<Longrightarrow> static_eq c e"
  by (simp add: static_eq_def)

lemma static_eq_norm: "norm_clause c = norm_clause d \<Longrightarrow> static_eq c d"
  by (simp add: static_eq_def norm_clause_flags [of c d] norm_clause_fields [of c d])

lemma static_eqD:
  assumes "static_eq c d"
  shows "clause_lits c = clause_lits d" "wf_clause c = wf_clause d" "is_deleted c = is_deleted d"
    "is_destroying c = is_destroying d" "is_volatile c = is_volatile d" "num_lits c = num_lits d"
    "c_time_stamp c = c_time_stamp d" "literals c = literals d" "num_pos_lits c = num_pos_lits d"
    "clause_datum c = clause_datum d"
proof -
  show lits: "clause_lits c = clause_lits d" using assms by (intro clause_lits_cong) (simp_all add: static_eq_def)
  show "wf_clause c = wf_clause d" using assms lits by (simp add: static_eq_def wf_clause_def)
qed (use assms in \<open>simp_all add: static_eq_def\<close>)

lemma static_eq_steps [simp]:
  "static_eq (cl_assign_same p c) c" "static_eq (cl_assign_opposite c) c"
  "static_eq (cl_unassign_same ph p c) c" "static_eq (cl_unassign_opposite c) c"
  by (simp_all add: static_eq_def cl_assign_same_def cl_assign_opposite_def cl_unassign_same_def
      cl_unassign_opposite_def cl_leave_fringe_def cl_enter_fringe_def cl_leave_unsat_def
      cl_enter_unsat_def Let_def)

lemmas clause_lits_steps [simp] = static_eq_steps [THEN static_eqD(1)]
lemmas deleted_steps [simp] = static_eq_steps [THEN static_eqD(3)]

text \<open>Only \<open>cl_unassign_opposite\<close> touches what the clause supports.\<close>

lemma sup_of_steps [simp]:
  "sup_of (cl_assign_same p c) = sup_of c" "sup_of (cl_assign_opposite c) = sup_of c"
  "sup_of (cl_unassign_same ph p c) = sup_of c"
  by (simp_all add: sup_of_def cl_assign_same_def cl_assign_opposite_def cl_unassign_same_def
      cl_leave_fringe_def cl_enter_fringe_def cl_enter_unsat_def Let_def)

lemma sup_in_range_steps [simp]:
  "sup_in_range (cl_assign_same p c) = sup_in_range c"
  "sup_in_range (cl_assign_opposite c) = sup_in_range c"
  "sup_in_range (cl_unassign_same ph p c) = sup_in_range c"
  by (simp_all add: sup_in_range_def cl_assign_same_def cl_assign_opposite_def cl_unassign_same_def
      cl_leave_fringe_def cl_enter_fringe_def cl_enter_unsat_def Let_def)

lemma sup_of_unassign_opposite:
  "sup_of (cl_unassign_opposite c) =
     (if is_deleted c \<or> is_unsatisfied c \<or> is_in_fringe c then sup_of c else None)"
  by (simp add: sup_of_def cl_unassign_opposite_def cl_leave_fringe_def cl_enter_fringe_def
      cl_leave_unsat_def Let_def)

lemma sup_in_range_unassign_opposite:
  "sup_in_range c \<Longrightarrow> sup_in_range (cl_unassign_opposite c)"
  by (simp add: sup_in_range_def cl_unassign_opposite_def cl_leave_fringe_def cl_enter_fringe_def
      cl_leave_unsat_def Let_def)

lemma sup_of_norm:
  "norm_clause c = norm_clause d \<Longrightarrow> sup_of c = sup_of d"
  "norm_clause c = norm_clause d \<Longrightarrow> sup_in_range c = sup_in_range d"
  by (simp_all add: sup_of_def sup_in_range_def norm_clause_fields [of c d])

lemma clause_ok_norm: "norm_clause c = norm_clause d \<Longrightarrow> clause_ok v e c = clause_ok v e d"
  using static_eqD(1) [OF static_eq_norm, of c d]
  by (simp add: clause_ok_def unknown_lits_def satisfier_ok_def norm_clause_flags [of c d]
      norm_clause_fields [of c d] split: option.splits)

subsection \<open>Counting unknown literals\<close>

lemma unknown_lits_card:
  "wf_clause c \<Longrightarrow> unknown_lits v c = card {l \<in> set (clause_lits c). v l = UNKNOWN}"
  by (simp add: unknown_lits_def wf_clause_def distinct_length_filter Int_def conj_commute)

lemma unknown_lits_known:
  assumes "wf_clause c" "l \<in> set (clause_lits c)" "v l = UNKNOWN" "t \<noteq> UNKNOWN"
  shows "unknown_lits v c = Suc (unknown_lits (v(l := t)) c)"
proof -
  have "{k \<in> set (clause_lits c). v k = UNKNOWN} =
      insert l {k \<in> set (clause_lits c). (v(l := t)) k = UNKNOWN}"
    using assms by auto
  then show ?thesis using assms(1,4) by (simp add: unknown_lits_card)
qed

lemma unknown_lits_forget:
  assumes "wf_clause c" "l \<in> set (clause_lits c)" "v l \<noteq> UNKNOWN"
  shows "unknown_lits (v(l := UNKNOWN)) c = Suc (unknown_lits v c)"
proof -
  have "(v(l := UNKNOWN))(l := v l) = v" by simp
  then show ?thesis
    using unknown_lits_known [of c l "v(l := UNKNOWN)" "v l"] assms by simp
qed

lemma unknown_lits_le: "unknown_lits v c \<le> nat (num_lits c)"
  unfolding unknown_lits_def using length_filter_le [of _ "clause_lits c"] by simp

lemma clause_ok_cong:
  assumes "clause_ok v e c" "\<And>l. l \<in> set (clause_lits c) \<Longrightarrow> v' l = v l"
  shows "clause_ok v' e c"
proof -
  have "filter (\<lambda>l. v' l = UNKNOWN) (clause_lits c) = filter (\<lambda>l. v l = UNKNOWN) (clause_lits c)"
    using assms(2) by (intro filter_cong) auto
  moreover have "satisfier_ok v' c = satisfier_ok v c"
    using assms(2) by (auto simp: satisfier_ok_def split: option.splits)
  ultimately show ?thesis using assms(1) by (simp add: clause_ok_def unknown_lits_def)
qed

lemma clause_ok_popped: "clause_ok v e c \<Longrightarrow> is_deleted c \<or> satisfying_prop c \<noteq> None \<Longrightarrow> clause_ok v e' c"
  by (auto simp: clause_ok_def)

subsection \<open>The updates keep the invariant\<close>

lemma unknown_lits_small: "wf_clause c \<Longrightarrow> unknown_lits v c < 128"
  using unknown_lits_le [of v c] by (auto simp: wf_clause_def)

lemma count_range:
  assumes "clause_ok v e c" "\<not> is_deleted c" "wf_clause c"
  shows "0 \<le> num_unassigned c" "num_unassigned c < 128" "num_unassigned c = int (unknown_lits v c)"
  using assms unknown_lits_small [of c v] by (simp_all add: clause_ok_def)

lemma keep_true:
  "\<exists>b. (q, b) \<in> L \<and> v (q, b) = PTRUE \<Longrightarrow> v l \<noteq> PTRUE \<Longrightarrow> \<exists>b. (q, b) \<in> L \<and> (v(l := t)) (q, b) = PTRUE"
  by force

lemma clause_ok_assign_same:
  assumes ok: "clause_ok v e c" and wf: "wf_clause c"
    and l: "(p, b) \<in> set (clause_lits c)" "v (p, b) = UNKNOWN"
  shows "clause_ok (v((p, b) := PTRUE)) e' (cl_assign_same p c)"
    and "\<not> is_deleted c \<Longrightarrow> 0 < num_unassigned c"
proof -
  let ?v = "v((p, b) := PTRUE)"
  have cnt: "unknown_lits v c = Suc (unknown_lits ?v c)"
    by (rule unknown_lits_known) (use wf l in simp_all)
  show pos: "0 < num_unassigned c" if "\<not> is_deleted c"
    using ok cnt that by (simp add: clause_ok_def)
  show "clause_ok ?v e' (cl_assign_same p c)"
  proof (cases "is_deleted c")
    case True
    then show ?thesis using ok by (simp add: clause_ok_def cl_assign_same_def)
  next
    case nd: False
    note r = count_range [OF ok nd wf]
    have n: "to_length_t (num_unassigned c - 1) = int (unknown_lits ?v c)"
      using r cnt pos [OF nd] by simp
    have same: "unknown_lits ?v (cl_assign_same p c) = unknown_lits ?v c"
      by (simp add: unknown_lits_def)
    show ?thesis
    proof (cases "satisfying_prop c")
      case None
      have "is_unsatisfied c = False" using ok nd pos [OF nd] by (simp add: clause_ok_def)
      then have "num_unassigned (cl_assign_same p c) = int (unknown_lits ?v c)"
        "satisfying_prop (cl_assign_same p c) = Some p" "\<not> is_in_fringe (cl_assign_same p c)"
        "\<not> is_unsatisfied (cl_assign_same p c)"
        using None nd n by (simp_all add: cl_assign_same_def cl_leave_fringe_def Let_def)
      with nd same l show ?thesis by (auto simp: clause_ok_def satisfier_ok_def)
    next
      case (Some q)
      then have eq: "cl_assign_same p c = c\<lparr>num_unassigned := int (unknown_lits ?v c)\<rparr>"
        using nd n by (simp add: cl_assign_same_def)
      have "\<exists>b'. (q, b') \<in> set (clause_lits c) \<and> v (q, b') = PTRUE"
        using ok nd Some by (simp add: clause_ok_def satisfier_ok_def)
      then have "\<exists>b'. (q, b') \<in> set (clause_lits c) \<and> ?v (q, b') = PTRUE" by auto
      moreover have "\<not> is_in_fringe c" "\<not> is_unsatisfied c" using ok nd Some by (simp_all add: clause_ok_def)
      ultimately show ?thesis
        using nd Some same clause_lits_steps(1) [of p c]
        by (simp add: clause_ok_def satisfier_ok_def eq)
    qed
  qed
qed

lemma clause_ok_assign_opposite:
  assumes ok: "clause_ok v False c" and wf: "wf_clause c"
    and l: "l \<in> set (clause_lits c)" "v l = UNKNOWN"
  shows "clause_ok (v(l := PFALSE)) False (cl_assign_opposite c)"
    and "\<not> is_deleted c \<Longrightarrow> 0 < num_unassigned c"
proof -
  let ?v = "v(l := PFALSE)"
  have cnt: "unknown_lits v c = Suc (unknown_lits ?v c)"
    by (rule unknown_lits_known) (use wf l in simp_all)
  show pos: "0 < num_unassigned c" if "\<not> is_deleted c"
    using ok cnt that by (simp add: clause_ok_def)
  show "clause_ok ?v False (cl_assign_opposite c)"
  proof (cases "is_deleted c")
    case True
    then show ?thesis using ok by (simp add: clause_ok_def cl_assign_opposite_def)
  next
    case nd: False
    note r = count_range [OF ok nd wf]
    have n: "to_length_t (num_unassigned c - 1) = int (unknown_lits ?v c)"
      using r cnt pos [OF nd] by simp
    have same: "unknown_lits ?v (cl_assign_opposite c) = unknown_lits ?v c"
      by (simp add: unknown_lits_def)
    have uns: "\<not> is_unsatisfied c" using ok nd pos [OF nd] by (simp add: clause_ok_def)
    have num: "num_unassigned (cl_assign_opposite c) = int (unknown_lits ?v c)"
      and sat: "satisfying_prop (cl_assign_opposite c) = satisfying_prop c"
      and fr: "is_in_fringe (cl_assign_opposite c) =
         (if satisfying_prop c \<noteq> None then is_in_fringe c
          else \<not> is_in_fringe c \<and> int (unknown_lits ?v c) = 1)"
      and un: "is_unsatisfied (cl_assign_opposite c) = (satisfying_prop c = None \<and> is_in_fringe c)"
      using nd n uns by (auto simp: cl_assign_opposite_def cl_leave_fringe_def cl_enter_fringe_def
          cl_enter_unsat_def Let_def)
    have "satisfier_ok ?v (cl_assign_opposite c)"
    proof (cases "satisfying_prop c")
      case None
      then show ?thesis using ok nd sat l by (auto simp: clause_ok_def satisfier_ok_def)
    next
      case (Some q)
      then have "\<exists>b'. (q, b') \<in> set (clause_lits c) \<and> v (q, b') = PTRUE"
        using ok nd by (simp add: clause_ok_def satisfier_ok_def)
      then have "\<exists>b'. (q, b') \<in> set (clause_lits c) \<and> ?v (q, b') = PTRUE"
        by (rule keep_true) (use l in simp)
      then show ?thesis using sat Some by (simp add: satisfier_ok_def)
    qed
    moreover have "is_in_fringe c = (satisfying_prop c = None \<and> unknown_lits v c = 1)"
      using ok nd by (auto simp: clause_ok_def)
    ultimately show ?thesis
      using nd num sat fr un same cnt by (auto simp: clause_ok_def)
  qed
qed

lemma clause_ok_unassign_same:
  assumes ok: "clause_ok v False c" and wf: "wf_clause c"
    and l: "(p, b) \<in> set (clause_lits c)" "v (p, b) = PTRUE" "v (p, \<not> b) \<noteq> PTRUE"
    and ph: "\<And>k. k \<in> set (clause_lits c) \<Longrightarrow> lit_tv ph k = PTRUE \<longleftrightarrow> (v((p, b) := UNKNOWN)) k = PTRUE"
  shows "clause_ok (v((p, b) := UNKNOWN)) False (cl_unassign_same ph p c)"
    and "\<not> is_deleted c \<Longrightarrow> num_unassigned c < num_lits c"
proof -
  let ?v = "v((p, b) := UNKNOWN)"
  have cnt: "unknown_lits ?v c = Suc (unknown_lits v c)"
    by (rule unknown_lits_forget [OF wf l(1)]) (use l in simp)
  show lt: "num_unassigned c < num_lits c" if "\<not> is_deleted c"
    using ok cnt that unknown_lits_le [of ?v c] wf by (auto simp: clause_ok_def wf_clause_def)
  show "clause_ok ?v False (cl_unassign_same ph p c)"
  proof (cases "is_deleted c")
    case True
    then show ?thesis using ok by (simp add: clause_ok_def cl_unassign_same_def)
  next
    case nd: False
    note r = count_range [OF ok nd wf]
    have n: "to_length_t (num_unassigned c + 1) = int (unknown_lits ?v c)"
      using r cnt lt [OF nd] wf by (simp add: wf_clause_def)
    have same: "unknown_lits ?v (cl_unassign_same ph p c) = unknown_lits ?v c"
      by (simp add: unknown_lits_def)
    have someq: "satisfying_prop c \<noteq> None" using ok nd l by (auto simp: clause_ok_def satisfier_ok_def)
    have quiet: "\<not> is_in_fringe c" "\<not> is_unsatisfied c" using ok nd someq by (auto simp: clause_ok_def)
    have fsp: "find_satisfying_prop ph c = map_option fst (find (\<lambda>k. lit_tv ph k = PTRUE) (clause_lits c))"
      by (rule find_satisfying_prop_lits)
    show ?thesis
    proof (cases "satisfying_prop c = Some p")
      case False
      then obtain q where q: "satisfying_prop c = Some q" "q \<noteq> p" using someq by auto
      then have "\<exists>b'. (q, b') \<in> set (clause_lits c) \<and> ?v (q, b') = PTRUE"
        using ok nd by (auto simp: clause_ok_def satisfier_ok_def)
      moreover have "cl_unassign_same ph p c = c\<lparr>num_unassigned := int (unknown_lits ?v c)\<rparr>"
        using q nd n by (simp add: cl_unassign_same_def)
      ultimately show ?thesis
        using q quiet nd same clause_lits_steps(3) [of ph p c]
        by (simp add: clause_ok_def satisfier_ok_def)
    next
      case True
      have none: "find_satisfying_prop ph c = None \<Longrightarrow> k \<in> set (clause_lits c) \<Longrightarrow> ?v k \<noteq> PTRUE" for k
        using ph [of k] by (cases k) (auto simp: fsp find_None_iff)
      have some: "\<exists>b'. (q, b') \<in> set (clause_lits c) \<and> ?v (q, b') = PTRUE"
        if "find_satisfying_prop ph c = Some q" for q
      proof -
        from that obtain k where "find (\<lambda>k. lit_tv ph k = PTRUE) (clause_lits c) = Some k" "fst k = q"
          by (auto simp: fsp)
        then have "k \<in> set (clause_lits c)" "lit_tv ph k = PTRUE" "fst k = q"
          by (auto simp: find_Some_iff)
        moreover from this have "?v k = PTRUE" using ph [of k] by blast
        moreover have "k = (q, snd k)" using \<open>fst k = q\<close> by auto
        ultimately have "(q, snd k) \<in> set (clause_lits c)" "?v (q, snd k) = PTRUE" by metis+
        then show ?thesis by blast
      qed
      have num: "num_unassigned (cl_unassign_same ph p c) = int (unknown_lits ?v c)"
        and sat: "satisfying_prop (cl_unassign_same ph p c) = find_satisfying_prop ph c"
        and fr: "is_in_fringe (cl_unassign_same ph p c) =
           (find_satisfying_prop ph c = None \<and> int (unknown_lits ?v c) = 1)"
        and un: "\<not> is_unsatisfied (cl_unassign_same ph p c)"
        using nd n True quiet by (auto simp: cl_unassign_same_def cl_enter_fringe_def Let_def)
      have "satisfier_ok ?v (cl_unassign_same ph p c)"
        using none some sat by (auto simp: satisfier_ok_def split: option.splits)
      then show ?thesis using nd num sat fr un same cnt by (simp add: clause_ok_def)
    qed
  qed
qed

lemma clause_ok_unassign_opposite:
  assumes ok: "clause_ok v False c" and wf: "wf_clause c"
    and l: "l \<in> set (clause_lits c)" "v l = PFALSE"
  shows "clause_ok (v(l := UNKNOWN)) False (cl_unassign_opposite c)"
    and "\<not> is_deleted c \<Longrightarrow> num_unassigned c < num_lits c"
proof -
  let ?v = "v(l := UNKNOWN)"
  have cnt: "unknown_lits ?v c = Suc (unknown_lits v c)"
    by (rule unknown_lits_forget [OF wf l(1)]) (use l in simp)
  show lt: "num_unassigned c < num_lits c" if "\<not> is_deleted c"
    using ok cnt that unknown_lits_le [of ?v c] wf by (auto simp: clause_ok_def wf_clause_def)
  show "clause_ok ?v False (cl_unassign_opposite c)"
  proof (cases "is_deleted c")
    case True
    then show ?thesis using ok by (simp add: clause_ok_def cl_unassign_opposite_def)
  next
    case nd: False
    note r = count_range [OF ok nd wf]
    have n: "to_length_t (num_unassigned c + 1) = int (unknown_lits ?v c)"
      using r cnt lt [OF nd] wf by (simp add: wf_clause_def)
    have same: "unknown_lits ?v (cl_unassign_opposite c) = unknown_lits ?v c"
      by (simp add: unknown_lits_def)
    have old: "is_unsatisfied c = (satisfying_prop c = None \<and> unknown_lits v c = 0)"
      "is_in_fringe c = (satisfying_prop c = None \<and> unknown_lits v c = 1)"
      using ok nd by (auto simp: clause_ok_def)
    have num: "num_unassigned (cl_unassign_opposite c) = int (unknown_lits ?v c)"
      and sat: "satisfying_prop (cl_unassign_opposite c) = satisfying_prop c"
      and fr: "is_in_fringe (cl_unassign_opposite c) = is_unsatisfied c"
      and un: "\<not> is_unsatisfied (cl_unassign_opposite c)"
      using nd n old by (auto simp: cl_unassign_opposite_def cl_leave_fringe_def cl_enter_fringe_def
          cl_leave_unsat_def is_unsatisfied_def [symmetric] Let_def)
    have "satisfier_ok ?v (cl_unassign_opposite c)"
    proof (cases "satisfying_prop c")
      case None
      then show ?thesis using ok nd sat l by (auto simp: clause_ok_def satisfier_ok_def)
    next
      case (Some q)
      then have "\<exists>b'. (q, b') \<in> set (clause_lits c) \<and> v (q, b') = PTRUE"
        using ok nd by (simp add: clause_ok_def satisfier_ok_def)
      then have "\<exists>b'. (q, b') \<in> set (clause_lits c) \<and> ?v (q, b') = PTRUE"
        by (rule keep_true) (use l in simp)
      then show ?thesis using sat Some by (simp add: satisfier_ok_def)
    qed
    then show ?thesis using nd num sat fr un same cnt old by (auto simp: clause_ok_def)
  qed
qed

end
