(* ===== verification/Ltms_Inv.thy ===== *)
theory Ltms_Inv
  imports Ltms_Clause_Inv
begin

text \<open>
  The invariant of the LTMS, in four parts: the theory is well formed and the back pointers of the
  propositions are right (\<open>theory_ok\<close>); every clause agrees with the values of its literals
  (\<open>clauses_ok\<close>); the fringe and unsatisfied arrays agree with the flags (\<open>book_ok\<close>); and the support
  structure is sound and acyclic (\<open>support_ok\<close>). Assigning and unassigning keep it.
\<close>

subsection \<open>The parts of the invariant\<close>

definition theory_ok :: "'a ptheory_scheme \<Rightarrow> bool" where
  "theory_ok s \<longleftrightarrow>
     distinct (props s) \<and> distinct (clauses s) \<and>
     (\<forall>p \<in> set (props s). p < next_prop s) \<and> (\<forall>c \<in> set (clauses s). c < next_clause s) \<and>
     (\<forall>c \<in> set (clauses s). wf_clause (cheap s c) \<and> fst ` set (clause_lits (cheap s c)) \<subseteq> set (props s)) \<and>
     (\<forall>p \<in> set (props s). distinct (positive (pheap s p)) \<and> distinct (negative (pheap s p)) \<and>
        (\<forall>c. c \<in> set (positive (pheap s p)) \<longleftrightarrow> c \<in> set (clauses s) \<and> (p, True) \<in> set (clause_lits (cheap s c))) \<and>
        (\<forall>c. c \<in> set (negative (pheap s p)) \<longleftrightarrow> c \<in> set (clauses s) \<and> (p, False) \<in> set (clause_lits (cheap s c))))"

definition clauses_ok :: "clause_id set \<Rightarrow> 'a ltms_scheme \<Rightarrow> bool" where
  "clauses_ok E s \<longleftrightarrow>
     (\<forall>c \<in> set (clauses s). clause_ok (lit_tv (pheap s)) (c \<in> E) (cheap s c)) \<and>
     (\<forall>c. c \<notin> set (clauses s) \<longrightarrow> \<not> is_in_fringe (cheap s c) \<and> \<not> is_unsatisfied (cheap s c))"

text \<open>
  The literal \<open>(p, b)\<close> of a clause is the one it propagated: it is true, all others are false and
  were assigned before, by the rank \<open>r\<close>.
\<close>

definition propagated_lit :: "(prop_id \<Rightarrow> nat) \<Rightarrow> prop_heap \<Rightarrow> clause \<Rightarrow> prop_id \<Rightarrow> bool \<Rightarrow> bool" where
  "propagated_lit r ph c p b \<longleftrightarrow>
     (p, b) \<in> set (clause_lits c) \<and> lit_tv ph (p, b) = PTRUE \<and>
     (\<forall>l \<in> set (clause_lits c). l \<noteq> (p, b) \<longrightarrow> lit_tv ph l = PFALSE \<and> r (fst l) < r p)"

text \<open>
  \<open>P\<close> holds the propositions that have lost their support and wait to be unassigned.
\<close>

definition support_ok :: "(prop_id \<Rightarrow> nat) \<Rightarrow> prop_id set \<Rightarrow> 'a ptheory_scheme \<Rightarrow> bool" where
  "support_ok r P s \<longleftrightarrow>
     (\<forall>p \<in> set (props s). tv (pheap s p) = UNKNOWN \<longleftrightarrow> supported_by (pheap s p) = None) \<and>
     P \<subseteq> {p \<in> set (props s). tv (pheap s p) \<noteq> UNKNOWN} \<and>
     (\<forall>p \<in> set (props s) - P. \<forall>c. supported_by (pheap s p) = Some c \<longrightarrow>
        c \<in> set (clauses s) \<and> sup_of (cheap s c) = Some p) \<and>
     (\<forall>c \<in> set (clauses s). sup_in_range (cheap s c)) \<and>
     (\<forall>c \<in> set (clauses s). \<forall>p. sup_of (cheap s c) = Some p \<longrightarrow>
        \<not> is_deleted (cheap s c) \<and> p \<notin> P \<and> supported_by (pheap s p) = Some c \<and>
        (\<exists>b. propagated_lit r (pheap s) (cheap s c) p b))"

definition stamps_ok :: "'a ptheory_scheme \<Rightarrow> bool" where
  "stamps_ok s \<longleftrightarrow> (\<forall>c \<in> set (clauses s). c_time_stamp (cheap s c) \<le> time_stamp s)"

text \<open>The invariant between two calls of the public interface.\<close>

definition ltms_ok :: "'a ltms_scheme \<Rightarrow> bool" where
  "ltms_ok s \<longleftrightarrow> theory_ok s \<and> clauses_ok {} s \<and> book_ok s \<and> stamps_ok s \<and> undo_list s = [] \<and>
     (\<exists>r. support_ok r {} s)"

text \<open>What assigning and unassigning leave alone.\<close>

definition kept :: "'a ltms_scheme \<Rightarrow> 'a ltms_scheme \<Rightarrow> bool" where
  "kept s t \<longleftrightarrow> props t = props s \<and> clauses t = clauses s \<and> time_stamp t = time_stamp s \<and>
     next_prop t = next_prop s \<and> next_clause t = next_clause s \<and> ltms.more t = ltms.more s \<and>
     (\<forall>p. positive (pheap t p) = positive (pheap s p) \<and> negative (pheap t p) = negative (pheap s p) \<and>
          p_flags (pheap t p) = p_flags (pheap s p)) \<and>
     (\<forall>c. static_eq (cheap t c) (cheap s c))"

lemma kept_refl [simp]: "kept s s"
  by (simp add: kept_def)

lemma kept_trans: "kept s t \<Longrightarrow> kept t u \<Longrightarrow> kept s u"
  by (auto simp: kept_def intro: static_eq_trans)

lemma keptD:
  assumes "kept s t"
  shows "props t = props s" "clauses t = clauses s" "time_stamp t = time_stamp s"
    "next_prop t = next_prop s" "next_clause t = next_clause s" "ltms.more t = ltms.more s"
    "positive (pheap t p) = positive (pheap s p)" "negative (pheap t p) = negative (pheap s p)"
    "p_flags (pheap t p) = p_flags (pheap s p)" "clause_lits (cheap t c) = clause_lits (cheap s c)"
    "wf_clause (cheap t c) = wf_clause (cheap s c)" "is_deleted (cheap t c) = is_deleted (cheap s c)"
    "c_time_stamp (cheap t c) = c_time_stamp (cheap s c)"
    "is_destroying (cheap t c) = is_destroying (cheap s c)"
    "occ_same p b t = occ_same p b s" "occ_opposite p b t = occ_opposite p b s"
    "clause_datum (cheap t c) = clause_datum (cheap s c)"
  using assms static_eqD [of "cheap t c" "cheap s c"]
  by (simp_all add: kept_def occ_same_def occ_opposite_def)

lemma kept_theory: "kept s t \<Longrightarrow> theory_ok t = theory_ok s"
  unfolding theory_ok_def by (simp only: keptD)

lemma kept_stamps: "kept s t \<Longrightarrow> stamps_ok t = stamps_ok s"
  unfolding stamps_ok_def by (simp only: keptD)

lemma changes_kept:
  assumes "changes C F us s t" "\<And>c. static_eq (F c) c"
  shows "kept s t"
proof -
  have "static_eq (cheap t c) (cheap s c)" for c
    using static_eq_norm [OF changes_clause(1) [OF assms(1)]] static_eq_norm [OF changes_clause(2) [OF assms(1)]]
      assms(2) by (cases "c \<in> C") (auto intro: static_eq_trans)
  then show ?thesis using assms(1) by (simp add: changes_def kept_def)
qed

lemma theory_occ:
  assumes "theory_ok s" "p \<in> set (props s)"
  shows "distinct (occ_same p b s)" "distinct (occ_opposite p b s)"
    "c \<in> set (occ_same p b s) \<longleftrightarrow> c \<in> set (clauses s) \<and> (p, b) \<in> set (clause_lits (cheap s c))"
    "c \<in> set (occ_opposite p b s) \<longleftrightarrow> c \<in> set (clauses s) \<and> (p, \<not> b) \<in> set (clause_lits (cheap s c))"
proof -
  from assms have "distinct (positive (pheap s p))" "distinct (negative (pheap s p))"
    "c \<in> set (positive (pheap s p)) \<longleftrightarrow> c \<in> set (clauses s) \<and> (p, True) \<in> set (clause_lits (cheap s c))"
    "c \<in> set (negative (pheap s p)) \<longleftrightarrow> c \<in> set (clauses s) \<and> (p, False) \<in> set (clause_lits (cheap s c))"
    unfolding theory_ok_def by blast+
  then show "distinct (occ_same p b s)" "distinct (occ_opposite p b s)"
    "c \<in> set (occ_same p b s) \<longleftrightarrow> c \<in> set (clauses s) \<and> (p, b) \<in> set (clause_lits (cheap s c))"
    "c \<in> set (occ_opposite p b s) \<longleftrightarrow> c \<in> set (clauses s) \<and> (p, \<not> b) \<in> set (clause_lits (cheap s c))"
    by (cases b; simp add: occ_same_def occ_opposite_def)+
qed

lemma theory_wf: "theory_ok s \<Longrightarrow> c \<in> set (clauses s) \<Longrightarrow> wf_clause (cheap s c)"
  by (simp add: theory_ok_def)

lemma theory_lits:
  "theory_ok s \<Longrightarrow> c \<in> set (clauses s) \<Longrightarrow> l \<in> set (clause_lits (cheap s c)) \<Longrightarrow> fst l \<in> set (props s)"
  unfolding theory_ok_def by (meson imageI subsetD)

subsection \<open>Assigning\<close>

lemma lit_tv_simps:
  "lit_tv (ph(p := q)) (p, b) = (if b then tv q else negate_tv (tv q))"
  "r \<noteq> p \<Longrightarrow> lit_tv (ph(p := q)) (r, b) = lit_tv ph (r, b)"
  by (auto simp: lit_tv_def)

lemma lit_tv_assign:
  "tv q = (if b then PTRUE else PFALSE) \<Longrightarrow>
   lit_tv (ph(p := q)) = (lit_tv ph)((p, b) := PTRUE, (p, \<not> b) := PFALSE)"
  by (auto simp: fun_eq_iff lit_tv_def)

lemma lit_tv_unassign:
  "tv q = UNKNOWN \<Longrightarrow> lit_tv (ph(p := q)) = (lit_tv ph)((p, b) := UNKNOWN, (p, \<not> b) := UNKNOWN)"
  by (cases b) (auto simp: fun_eq_iff lit_tv_def)

lemma lit_tv_opposite:
  "lit_tv ph (p, \<not> b) = negate_tv (lit_tv ph (p, b))"
  by (cases b; cases "tv (ph p)"; simp add: lit_tv_def)

text \<open>A loop over the clauses of one literal, and the valuation it realises.\<close>

lemma changes_clauses_ok:
  assumes ch: "changes C F us s t"
    and pre: "\<And>c. c \<in> set (clauses s) \<Longrightarrow> clause_ok v (c \<in> E) (cheap s c)"
    and inC: "\<And>c. c \<in> C \<Longrightarrow> c \<in> set (clauses s) \<Longrightarrow> clause_ok v' (c \<in> E') (F (cheap s c))"
    and notC: "\<And>c. c \<notin> C \<Longrightarrow> c \<in> set (clauses s) \<Longrightarrow>
       (\<forall>l \<in> set (clause_lits (cheap s c)). v' l = v l) \<and>
       (is_deleted (cheap s c) \<or> satisfying_prop (cheap s c) \<noteq> None \<or> (c \<in> E' \<longleftrightarrow> c \<in> E))"
    and c: "c \<in> set (clauses s)"
  shows "clause_ok v' (c \<in> E') (cheap t c)"
proof (cases "c \<in> C")
  case True
  then show ?thesis using inC [OF True c] clause_ok_norm [OF changes_clause(1) [OF ch True]] by simp
next
  case False
  have "clause_ok v' (c \<in> E) (cheap s c)"
    using pre [OF c] by (rule clause_ok_cong) (use notC [OF False c] in simp)
  then have "clause_ok v' (c \<in> E') (cheap s c)"
    using notC [OF False c] clause_ok_popped [of v' "c \<in> E" "cheap s c" "c \<in> E'"] by auto
  then show ?thesis using clause_ok_norm [OF changes_clause(2) [OF ch False]] by simp
qed

lemma changes_garbage:
  assumes "changes C F us s t" "C \<subseteq> set (clauses s)" "c \<notin> set (clauses s)"
    and "\<not> is_in_fringe (cheap s c) \<and> \<not> is_unsatisfied (cheap s c)"
  shows "\<not> is_in_fringe (cheap t c) \<and> \<not> is_unsatisfied (cheap t c)"
  using assms norm_clause_flags [OF changes_clause(2) [OF assms(1)], of c] by auto

lemma assign_ok:
  assumes book: "book_ok s" and th: "theory_ok s" and cl: "clauses_ok E s"
    and p: "p \<in> set (props s)" and unk: "tv (pheap s p) = UNKNOWN"
    and E: "\<And>c. c \<in> E \<Longrightarrow> c \<in> set (clauses s) \<Longrightarrow> (p, b) \<in> set (clause_lits (cheap s c))"
  shows "returns (assign p b k s) (\<lambda>t. book_ok t \<and> clauses_ok {} t \<and> kept s t \<and>
     pheap t = (pheap s)(p := (pheap s p)\<lparr>tv := (if b then PTRUE else PFALSE), supported_by := Some k\<rparr>) \<and>
     undo_list t = undo_list s \<and> (\<forall>c. supports (cheap t c) = supports (cheap s c)))"
proof -
  let ?q = "(pheap s p)\<lparr>tv := (if b then PTRUE else PFALSE), supported_by := Some k\<rparr>"
  let ?s1 = "upd_prop p (\<lambda>q. q\<lparr>tv := (if b then PTRUE else PFALSE), supported_by := Some k\<rparr>) s"
  let ?v0 = "lit_tv (pheap s)"
  let ?v1 = "?v0((p, b) := PTRUE)"
  let ?v2 = "?v1((p, \<not> b) := PFALSE)"
  have k1: "kept s ?s1" by (simp add: kept_def upd_prop_def)
  have th1: "theory_ok ?s1" using kept_theory [OF k1] th by simp
  note occ = theory_occ [OF th1, of p, simplified, OF p]
  have v0: "?v0 (p, b) = UNKNOWN" "?v0 (p, \<not> b) = UNKNOWN" for b using unk by (simp_all add: lit_tv_def)
  have cok: "clause_ok ?v0 (c \<in> E) (cheap s c)" if "c \<in> set (clauses s)" for c
    using cl that by (simp add: clauses_ok_def)
  have same: "clause_ok ?v1 False (cl_assign_same p (cheap s c))"
    "\<not> is_deleted (cheap s c) \<Longrightarrow> 0 < num_unassigned (cheap s c)"
    if "c \<in> set (occ_same p b ?s1)" for c
    using clause_ok_assign_same [OF cok theory_wf [OF th], of c p b] that occ(3) v0 by auto
  have "returns (assignUpdateSameSense p b ?s1)
      (changes (set (occ_same p b ?s1)) (cl_assign_same p) [] ?s1)"
    by (rule assignUpdateSameSense_ok) (use book occ same in auto)
  then obtain t1 where t1: "assignUpdateSameSense p b ?s1 = Inr t1"
    and ch1: "changes (set (occ_same p b ?s1)) (cl_assign_same p) [] ?s1 t1"
    by (rule returnsE)
  have k2: "kept ?s1 t1" using changes_kept [OF ch1] by simp
  have th2: "theory_ok t1" using kept_theory [OF k2] th1 by simp
  have ok1: "clause_ok ?v1 (c \<in> {}) (cheap t1 c)" if "c \<in> set (clauses s)" for c
  proof (rule changes_clauses_ok [OF ch1, where v = ?v0 and E = E])
    fix c assume "c \<notin> set (occ_same p b ?s1)" "c \<in> set (clauses ?s1)"
    then have "(p, b) \<notin> set (clause_lits (cheap s c))" "c \<notin> E" using occ(3) E by auto
    then show "(\<forall>l\<in>set (clause_lits (cheap ?s1 c)). ?v1 l = ?v0 l) \<and>
       (is_deleted (cheap ?s1 c) \<or> satisfying_prop (cheap ?s1 c) \<noteq> None \<or> (c \<in> {} \<longleftrightarrow> c \<in> E))"
      by auto
  qed (use same cok that in auto)
  have occ2: "occ_opposite p b t1 = occ_opposite p b ?s1" using keptD(16) [OF k2] .
  have opp: "clause_ok ?v2 False (cl_assign_opposite (cheap t1 c))"
    "\<not> is_deleted (cheap t1 c) \<Longrightarrow> 0 < num_unassigned (cheap t1 c)"
    if "c \<in> set (occ_opposite p b t1)" for c
  proof -
    have c: "c \<in> set (clauses s)" "(p, \<not> b) \<in> set (clause_lits (cheap t1 c))"
      using that theory_occ(4) [OF th2, of p c b] keptD(1,2) [OF k2] p by auto
    have unk1: "?v1 (p, \<not> b) = UNKNOWN" using v0 by simp
    have "wf_clause (cheap t1 c)" using theory_wf [OF th2] c(1) keptD(2) [OF k2] by simp
    from clause_ok_assign_opposite [where v = ?v1, OF _ this c(2) unk1] ok1 [OF c(1)]
    show "clause_ok ?v2 False (cl_assign_opposite (cheap t1 c))"
      "\<not> is_deleted (cheap t1 c) \<Longrightarrow> 0 < num_unassigned (cheap t1 c)" by auto
  qed
  have "returns (assignUpdateOppositeSense p b t1)
      (changes (set (occ_opposite p b t1)) cl_assign_opposite [] t1)"
    by (rule assignUpdateOppositeSense_ok) (use changes_book [OF ch1] occ(2) occ2 opp in auto)
  then obtain t where t: "assignUpdateOppositeSense p b t1 = Inr t"
    and ch2: "changes (set (occ_opposite p b t1)) cl_assign_opposite [] t1 t"
    by (rule returnsE)
  have k3: "kept t1 t" using changes_kept [OF ch2] by simp
  have pt: "pheap t = (pheap s)(p := ?q)"
    using ch1 ch2 by (simp add: changes_def)
  have v2: "lit_tv (pheap t) = ?v2" unfolding pt by (rule lit_tv_assign) simp
  have ok2: "clause_ok ?v2 (c \<in> {}) (cheap t c)" if "c \<in> set (clauses s)" for c
  proof (rule changes_clauses_ok [OF ch2, where v = ?v1 and E = "{}"])
    fix c assume "c \<notin> set (occ_opposite p b t1)" "c \<in> set (clauses t1)"
    then have "(p, \<not> b) \<notin> set (clause_lits (cheap t1 c))"
      using theory_occ(4) [OF th2, of p c b] keptD(1,2) [OF k2] p by auto
    then show "(\<forall>l\<in>set (clause_lits (cheap t1 c)). ?v2 l = ?v1 l) \<and>
       (is_deleted (cheap t1 c) \<or> satisfying_prop (cheap t1 c) \<noteq> None \<or> (c \<in> {} \<longleftrightarrow> c \<in> {}))"
      by auto
  qed (use opp ok1 that keptD(2) [OF k2] in auto)
  have "\<not> is_in_fringe (cheap t c) \<and> \<not> is_unsatisfied (cheap t c)" if "c \<notin> set (clauses s)" for c
  proof (rule changes_garbage [OF ch2])
    show "\<not> is_in_fringe (cheap t1 c) \<and> \<not> is_unsatisfied (cheap t1 c)"
      by (rule changes_garbage [OF ch1]) (use occ that cl in \<open>auto simp: clauses_ok_def\<close>)
  qed (use occ occ2 that keptD(2) [OF k2] in auto)
  then have "clauses_ok {} t"
    using ok2 v2 keptD(2) [OF k3] keptD(2) [OF k2] by (simp add: clauses_ok_def)
  moreover have "supports (cheap t c) = supports (cheap s c)" for c
  proof -
    have "supports (cl_assign_same p d) = supports d" "supports (cl_assign_opposite d) = supports d" for d
      by (simp_all add: cl_assign_same_def cl_assign_opposite_def cl_leave_fringe_def
          cl_enter_fringe_def cl_enter_unsat_def Let_def)
    moreover have "norm_clause (cheap t c) = norm_clause (if c \<in> set (occ_opposite p b t1) then cl_assign_opposite (cheap t1 c) else cheap t1 c)"
      "norm_clause (cheap t1 c) = norm_clause (if c \<in> set (occ_same p b ?s1) then cl_assign_same p (cheap s c) else cheap s c)"
      using ch1 ch2 by (simp_all add: changes_def)
    ultimately show ?thesis
      by (auto dest!: norm_clause_fields(4) split: if_splits)
  qed
  moreover have "undo_list t = undo_list s" using ch1 ch2 by (simp add: changes_def)
  ultimately have "book_ok t \<and> clauses_ok {} t \<and> kept s t \<and> pheap t = (pheap s)(p := ?q) \<and>
      undo_list t = undo_list s \<and> (\<forall>c. supports (cheap t c) = supports (cheap s c))"
    using changes_book [OF ch2] kept_trans [OF kept_trans [OF k1 k2] k3] pt by blast
  then show ?thesis by (simp add: assign_def Let_def t1 t)
qed

subsection \<open>Unassigning\<close>

lemma support_okD:
  assumes "support_ok r P s"
  shows "p \<in> set (props s) \<Longrightarrow> tv (pheap s p) = UNKNOWN \<longleftrightarrow> supported_by (pheap s p) = None"
    "p \<in> P \<Longrightarrow> p \<in> set (props s) \<and> tv (pheap s p) \<noteq> UNKNOWN"
    "p \<in> set (props s) \<Longrightarrow> p \<notin> P \<Longrightarrow> supported_by (pheap s p) = Some c \<Longrightarrow>
       c \<in> set (clauses s) \<and> sup_of (cheap s c) = Some p"
    "c \<in> set (clauses s) \<Longrightarrow> sup_in_range (cheap s c)"
    "c \<in> set (clauses s) \<Longrightarrow> sup_of (cheap s c) = Some p \<Longrightarrow>
       \<not> is_deleted (cheap s c) \<and> p \<notin> P \<and> supported_by (pheap s p) = Some c \<and>
       (\<exists>b. propagated_lit r (pheap s) (cheap s c) p b)"
  using assms unfolding support_ok_def by blast+

lemma supporting_quiet:
  assumes "clauses_ok {} s" "support_ok r P s" "c \<in> set (clauses s)" "sup_of (cheap s c) = Some p"
  shows "\<not> is_in_fringe (cheap s c)" "\<not> is_unsatisfied (cheap s c)" "\<not> is_deleted (cheap s c)"
proof -
  obtain b where "propagated_lit r (pheap s) (cheap s c) p b" "\<not> is_deleted (cheap s c)"
    using support_okD(5) [OF assms(2-4)] by blast
  moreover have "clause_ok (lit_tv (pheap s)) False (cheap s c)"
    using assms(1,3) by (simp add: clauses_ok_def)
  ultimately show "\<not> is_in_fringe (cheap s c)" "\<not> is_unsatisfied (cheap s c)" "\<not> is_deleted (cheap s c)"
    by (auto simp: clause_ok_def satisfier_ok_def propagated_lit_def)
qed

lemma distinct_concat_options:
  "distinct cs \<Longrightarrow> (\<And>c d p. c \<in> set cs \<Longrightarrow> d \<in> set cs \<Longrightarrow> f c = Some p \<Longrightarrow> f d = Some p \<Longrightarrow> c = d) \<Longrightarrow>
   distinct (concat (map (\<lambda>c. case f c of None \<Rightarrow> [] | Some p \<Rightarrow> [p]) cs))"
proof (induction cs)
  case (Cons c cs)
  have "distinct (concat (map (\<lambda>c. case f c of None \<Rightarrow> [] | Some p \<Rightarrow> [p]) cs))"
  proof (rule Cons.IH)
    show "distinct cs" using Cons.prems(1) by simp
    show "x = y" if "x \<in> set cs" "y \<in> set cs" "f x = Some q" "f y = Some q" for x y q
      using Cons.prems(2) [of x y q] that by simp
  qed
  moreover have "p \<notin> set (concat (map (\<lambda>c. case f c of None \<Rightarrow> [] | Some p \<Rightarrow> [p]) cs))"
    if "f c = Some p" for p
  proof
    assume "p \<in> set (concat (map (\<lambda>c. case f c of None \<Rightarrow> [] | Some p \<Rightarrow> [p]) cs))"
    then obtain d where "d \<in> set cs" "f d = Some p" by (auto split: option.splits)
    with Cons.prems(2) [of c d p] that Cons.prems(1) show False by auto
  qed
  ultimately show ?case by (auto split: option.splits)
qed simp

text \<open>The invariant parts that concern clauses only; the support structure follows.\<close>

lemma unassign_clauses:
  fixes s :: "'a ltms_scheme"
  assumes book: "book_ok s" and th: "theory_ok s" and cl: "clauses_ok {} s"
    and p: "p \<in> set (props s)" and known: "tv (pheap s p) \<noteq> UNKNOWN"
    and rng: "\<And>c. c \<in> set (clauses s) \<Longrightarrow> sup_in_range (cheap s c)"
    and b: "b = isTrue (pheap s p)"
  shows "returns (unassign p s) (\<lambda>t. \<exists>t1 :: 'a ltms_scheme. book_ok t \<and> clauses_ok {} t \<and> kept s t \<and>
     pheap t = (pheap s)(p := prop_initialize (pheap s p)) \<and>
     undo_list t = undo_list s @ concat (map (\<lambda>c. undone_by (cheap t1 c)) (occ_opposite p b s)) \<and>
     (\<forall>c. norm_clause (cheap t1 c) = norm_clause (if c \<in> set (occ_same p b s)
        then cl_unassign_same ((pheap s)(p := prop_initialize (pheap s p))) p (cheap s c) else cheap s c)) \<and>
     (\<forall>c. norm_clause (cheap t c) = norm_clause (if c \<in> set (occ_opposite p b s)
        then cl_unassign_opposite (cheap t1 c) else cheap t1 c)))"
proof -
  let ?ph = "(pheap s)(p := prop_initialize (pheap s p))"
  let ?s1 = "upd_prop p prop_initialize s"
  let ?v0 = "lit_tv (pheap s)"
  let ?v1 = "?v0((p, b) := UNKNOWN)"
  let ?v2 = "?v1((p, \<not> b) := UNKNOWN)"
  have k1: "kept s ?s1" by (simp add: kept_def prop_initialize_def upd_prop_def)
  have th1: "theory_ok ?s1" using kept_theory [OF k1] th by simp
  note occ = theory_occ [OF th1, of p, simplified, OF p]
  note occe = keptD(15,16) [OF k1, of p b]
  have v0: "?v0 (p, b) = PTRUE" "?v0 (p, \<not> b) = PFALSE"
    using known b by (cases "tv (pheap s p)"; simp add: lit_tv_def isTrue_def)+
  have cok: "clause_ok ?v0 False (cheap s c)" if "c \<in> set (clauses s)" for c
    using cl that by (simp add: clauses_ok_def)
  have v2: "lit_tv ?ph = ?v2" by (rule lit_tv_unassign) (simp add: prop_initialize_def)
  have truth: "lit_tv ?ph l = PTRUE \<longleftrightarrow> ?v1 l = PTRUE" for l
    using v0 by (auto simp: v2)
  have same: "clause_ok ?v1 False (cl_unassign_same ?ph p (cheap s c))"
    "\<not> is_deleted (cheap s c) \<Longrightarrow> num_unassigned (cheap s c) < num_lits (cheap s c)"
    if "c \<in> set (occ_same p b ?s1)" for c
    using clause_ok_unassign_same [OF cok theory_wf [OF th], of c p b ?ph] that occ(3) v0 truth by auto
  have "returns (unassignUpdateSameSense p b ?s1)
      (changes (set (occ_same p b ?s1)) (cl_unassign_same (pheap ?s1) p) [] ?s1)"
    by (rule unassignUpdateSameSense_ok) (use book occ same in auto)
  then obtain t1 where t1: "unassignUpdateSameSense p b ?s1 = Inr t1"
    and ch1: "changes (set (occ_same p b ?s1)) (cl_unassign_same (pheap ?s1) p) [] ?s1 t1"
    by (rule returnsE)
  have k2: "kept ?s1 t1" using changes_kept [OF ch1] by simp
  have th2: "theory_ok t1" using kept_theory [OF k2] th1 by simp
  have ok1: "clause_ok ?v1 (c \<in> {}) (cheap t1 c)" if "c \<in> set (clauses s)" for c
  proof (rule changes_clauses_ok [OF ch1, where v = ?v0 and E = "{}"])
    fix c assume "c \<notin> set (occ_same p b ?s1)" "c \<in> set (clauses ?s1)"
    then have "(p, b) \<notin> set (clause_lits (cheap s c))" using occ(3) by auto
    then show "(\<forall>l\<in>set (clause_lits (cheap ?s1 c)). ?v1 l = ?v0 l) \<and>
       (is_deleted (cheap ?s1 c) \<or> satisfying_prop (cheap ?s1 c) \<noteq> None \<or> (c \<in> {} \<longleftrightarrow> c \<in> {}))"
      by auto
  qed (use same cok that in auto)
  have occ2: "occ_opposite p b t1 = occ_opposite p b ?s1" using keptD(16) [OF k2] .
  have opp: "clause_ok ?v2 False (cl_unassign_opposite (cheap t1 c))"
    "\<not> is_deleted (cheap t1 c) \<Longrightarrow> num_unassigned (cheap t1 c) < num_lits (cheap t1 c)"
    "sup_in_range (cheap t1 c)"
    if "c \<in> set (occ_opposite p b t1)" for c
  proof -
    have c: "c \<in> set (clauses s)" "(p, \<not> b) \<in> set (clause_lits (cheap t1 c))"
      using that theory_occ(4) [OF th2, of p c b] keptD(1,2) [OF k2] p by auto
    have unk1: "?v1 (p, \<not> b) = PFALSE" using v0 by simp
    have "wf_clause (cheap t1 c)" using theory_wf [OF th2] c(1) keptD(2) [OF k2] by simp
    from clause_ok_unassign_opposite [where v = ?v1, OF _ this c(2) unk1] ok1 [OF c(1)]
    show "clause_ok ?v2 False (cl_unassign_opposite (cheap t1 c))"
      "\<not> is_deleted (cheap t1 c) \<Longrightarrow> num_unassigned (cheap t1 c) < num_lits (cheap t1 c)" by auto
    have "norm_clause (cheap t1 c) =
        norm_clause (if c \<in> set (occ_same p b ?s1) then cl_unassign_same ?ph p (cheap s c) else cheap s c)"
      using ch1 by (simp add: changes_def)
    from sup_of_norm(2) [OF this] show "sup_in_range (cheap t1 c)" using rng [OF c(1)] by simp
  qed
  have "returns (unassignUpdateOppositeSense p b t1)
      (changes (set (occ_opposite p b t1)) cl_unassign_opposite
        (concat (map (\<lambda>c. undone_by (cheap t1 c)) (occ_opposite p b t1))) t1)"
    by (rule unassignUpdateOppositeSense_ok) (use changes_book [OF ch1] occ(2) occ2 opp in auto)
  then obtain t where t: "unassignUpdateOppositeSense p b t1 = Inr t"
    and ch2: "changes (set (occ_opposite p b t1)) cl_unassign_opposite
        (concat (map (\<lambda>c. undone_by (cheap t1 c)) (occ_opposite p b t1))) t1 t"
    by (rule returnsE)
  have k3: "kept t1 t" using changes_kept [OF ch2] by simp
  have pt: "pheap t = ?ph" using ch1 ch2 by (simp add: changes_def)
  have ok2: "clause_ok ?v2 (c \<in> {}) (cheap t c)" if "c \<in> set (clauses s)" for c
  proof (rule changes_clauses_ok [OF ch2, where v = ?v1 and E = "{}"])
    fix c assume "c \<notin> set (occ_opposite p b t1)" "c \<in> set (clauses t1)"
    then have "(p, \<not> b) \<notin> set (clause_lits (cheap t1 c))"
      using theory_occ(4) [OF th2, of p c b] keptD(1,2) [OF k2] p by auto
    then show "(\<forall>l\<in>set (clause_lits (cheap t1 c)). ?v2 l = ?v1 l) \<and>
       (is_deleted (cheap t1 c) \<or> satisfying_prop (cheap t1 c) \<noteq> None \<or> (c \<in> {} \<longleftrightarrow> c \<in> {}))"
      by auto
  qed (use opp ok1 that keptD(2) [OF k2] in auto)
  have "\<not> is_in_fringe (cheap t c) \<and> \<not> is_unsatisfied (cheap t c)" if "c \<notin> set (clauses s)" for c
  proof (rule changes_garbage [OF ch2])
    show "\<not> is_in_fringe (cheap t1 c) \<and> \<not> is_unsatisfied (cheap t1 c)"
      by (rule changes_garbage [OF ch1]) (use occ that cl in \<open>auto simp: clauses_ok_def\<close>)
  qed (use occ occ2 that keptD(2) [OF k2] in auto)
  then have cok2: "clauses_ok {} t"
    using ok2 v2 pt keptD(2) [OF k3] keptD(2) [OF k2] by (simp add: clauses_ok_def)
  have occs: "occ_opposite p b t1 = occ_opposite p b s" "occ_same p b ?s1 = occ_same p b s"
    using occ2 occe by simp_all
  have nrm: "\<forall>c. norm_clause (cheap t1 c) = norm_clause (if c \<in> set (occ_same p b s)
        then cl_unassign_same ?ph p (cheap s c) else cheap s c)"
    "\<forall>c. norm_clause (cheap t c) = norm_clause (if c \<in> set (occ_opposite p b s)
        then cl_unassign_opposite (cheap t1 c) else cheap t1 c)"
    using ch1 ch2 by (simp_all add: changes_def occs)
  have ul: "undo_list t = undo_list s @ concat (map (\<lambda>c. undone_by (cheap t1 c)) (occ_opposite p b s))"
    using ch1 ch2 by (simp add: changes_def occs)
  have "unassign p s = Inr t"
    using known b t1 t by (simp add: unassign_def isUnknown_def Let_def)
  moreover note changes_book [OF ch2] cok2 kept_trans [OF kept_trans [OF k1 k2] k3] pt ul nrm
  ultimately show ?thesis
    unfolding returns_iff by - (rule exI [of _ t], rule conjI, assumption, rule exI [of _ t1], intro conjI)
qed

lemma unassign_ok:
  fixes s :: "'a ltms_scheme"
  assumes book: "book_ok s" and th: "theory_ok s" and cl: "clauses_ok {} s"
    and sup: "support_ok r P s" and p: "p \<in> P"
  shows "returns (unassign p s) (\<lambda>t. book_ok t \<and> clauses_ok {} t \<and> kept s t \<and>
     pheap t = (pheap s)(p := prop_initialize (pheap s p)) \<and>
     (\<exists>us. undo_list t = undo_list s @ us \<and> distinct us \<and> set us \<inter> P = {} \<and>
        support_ok r ((P - {p}) \<union> set us) t))"
proof -
  define b where "b = isTrue (pheap s p)"
  let ?C1 = "set (occ_same p b s)" and ?C2 = "set (occ_opposite p b s)"
  have pp: "p \<in> set (props s)" "tv (pheap s p) \<noteq> UNKNOWN" using support_okD(2) [OF sup p] by auto
  note occ = theory_occ [OF th pp(1)]
  have v0: "lit_tv (pheap s) (p, b) = PTRUE" "lit_tv (pheap s) (p, \<not> b) = PFALSE"
    using pp b_def by (cases "tv (pheap s p)"; simp add: lit_tv_def isTrue_def)+
  from unassign_clauses [OF book th cl pp support_okD(4) [OF sup] b_def] obtain t and t1 :: "'a ltms_scheme" where
    eq: "unassign p s = Inr t" and bk: "book_ok t" and cok: "clauses_ok {} t" and k: "kept s t"
    and pt: "pheap t = (pheap s)(p := prop_initialize (pheap s p))"
    and ul: "undo_list t = undo_list s @ concat (map (\<lambda>c. undone_by (cheap t1 c)) (occ_opposite p b s))"
    and n1: "\<And>c. norm_clause (cheap t1 c) = norm_clause (if c \<in> ?C1
        then cl_unassign_same ((pheap s)(p := prop_initialize (pheap s p))) p (cheap s c) else cheap s c)"
    and n2: "\<And>c. norm_clause (cheap t c) = norm_clause (if c \<in> ?C2
        then cl_unassign_opposite (cheap t1 c) else cheap t1 c)"
    unfolding returns_iff by auto
  have not_both: "c \<notin> ?C1" if c2: "c \<in> ?C2" and sc: "sup_of (cheap s c) = Some q" for c q
  proof
    assume "c \<in> ?C1"
    have lits: "(p, b) \<in> set (clause_lits (cheap s c))" "(p, \<not> b) \<in> set (clause_lits (cheap s c))"
      and c: "c \<in> set (clauses s)" using \<open>c \<in> ?C1\<close> c2 occ by auto
    obtain b' where pl: "propagated_lit r (pheap s) (cheap s c) q b'" and q: "q \<notin> P"
      using support_okD(5) [OF sup c sc] by blast
    have "(p, b) \<noteq> (q, b')" using p q by auto
    with pl lits v0 show False by (auto simp: propagated_lit_def)
  qed
  have sup1: "sup_of (cheap t1 c) = sup_of (cheap s c)" "sup_in_range (cheap t1 c) = sup_in_range (cheap s c)" for c
    using sup_of_norm [OF n1 [of c]] by simp_all
  have undone: "undone_by (cheap t1 c) = (case sup_of (cheap s c) of None \<Rightarrow> [] | Some q \<Rightarrow> [q])"
    and quiet: "sup_of (cheap s c) \<noteq> None \<Longrightarrow>
      \<not> (is_deleted (cheap t1 c) \<or> is_unsatisfied (cheap t1 c) \<or> is_in_fringe (cheap t1 c))"
    if "c \<in> ?C2" for c
  proof -
    have c: "c \<in> set (clauses s)" using that occ by auto
    show "\<not> (is_deleted (cheap t1 c) \<or> is_unsatisfied (cheap t1 c) \<or> is_in_fringe (cheap t1 c))"
      if "sup_of (cheap s c) \<noteq> None"
      using that not_both [OF \<open>c \<in> ?C2\<close>] supporting_quiet [OF cl sup c] norm_clause_flags [OF n1 [of c]]
      by auto
    then show "undone_by (cheap t1 c) = (case sup_of (cheap s c) of None \<Rightarrow> [] | Some q \<Rightarrow> [q])"
      by (cases "sup_of (cheap s c)") (auto simp: undone_by_def sup1 split: option.splits)
  qed
  have supt: "sup_of (cheap t c) = (if c \<in> ?C2 then None else sup_of (cheap s c))" for c
  proof (cases "c \<in> ?C2")
    case True
    then show ?thesis
      using sup_of_norm(1) [OF n2 [of c]] quiet [OF True] sup1(1) [of c]
      by (cases "sup_of (cheap s c)") (simp_all add: sup_of_unassign_opposite)
  next
    case False
    then show ?thesis using sup_of_norm(1) [OF n2 [of c]] sup1(1) [of c] by simp
  qed
  have rngt: "sup_in_range (cheap t c)" if "c \<in> set (clauses s)" for c
    using sup_of_norm(2) [OF n2 [of c]] sup1 [of c] support_okD(4) [OF sup that]
      sup_in_range_unassign_opposite by (auto split: if_splits)
  define us where "us = concat (map (\<lambda>c. undone_by (cheap t1 c)) (occ_opposite p b s))"
  have us: "us = concat (map (\<lambda>c. case sup_of (cheap s c) of None \<Rightarrow> [] | Some q \<Rightarrow> [q]) (occ_opposite p b s))"
    unfolding us_def using undone by (intro arg_cong [of _ _ concat]) auto
  have inus: "q \<in> set us \<longleftrightarrow> (\<exists>c \<in> ?C2. sup_of (cheap s c) = Some q)" for q
    unfolding us by (auto split: option.splits) metis
  have c2: "c \<in> set (clauses s)" if "c \<in> ?C2" for c using occ that by auto
  have distinct: "distinct us"
    unfolding us
  proof (rule distinct_concat_options [OF occ(2)])
    fix c d q assume "c \<in> ?C2" "d \<in> ?C2" "sup_of (cheap s c) = Some q" "sup_of (cheap s d) = Some q"
    then have "supported_by (pheap s q) = Some c" "supported_by (pheap s q) = Some d"
      using support_okD(5) [OF sup c2] by blast+
    then show "c = d" by simp
  qed
  have disj: "set us \<inter> P = {}" using inus c2 support_okD(5) [OF sup] by blast
  have tvp: "tv (pheap t q) = (if q = p then UNKNOWN else tv (pheap s q))"
    "supported_by (pheap t q) = (if q = p then None else supported_by (pheap s q))" for q
    by (simp_all add: pt prop_initialize_def)
  have "support_ok r ((P - {p}) \<union> set us) t"
    unfolding support_ok_def
  proof (intro conjI ballI allI impI)
    fix q assume "q \<in> set (props t)"
    then show "(tv (pheap t q) = UNKNOWN) = (supported_by (pheap t q) = None)"
      using support_okD(1) [OF sup, of q] keptD(1) [OF k] tvp by simp
  next
    show "P - {p} \<union> set us \<subseteq> {q \<in> set (props t). tv (pheap t q) \<noteq> UNKNOWN}"
    proof
      fix q assume q: "q \<in> P - {p} \<union> set us"
      show "q \<in> {q \<in> set (props t). tv (pheap t q) \<noteq> UNKNOWN}"
      proof (cases "q \<in> P")
        case True
        with q disj support_okD(2) [OF sup True] show ?thesis using tvp keptD(1) [OF k] by auto
      next
        case False
        with q obtain c where c: "c \<in> ?C2" "sup_of (cheap s c) = Some q" using inus by auto
        note sc = support_okD(5) [OF sup c2 [OF c(1)] c(2)]
        then have qp: "q \<in> set (props s)"
          using theory_lits [OF th c2 [OF c(1)]] by (auto simp: propagated_lit_def)
        then have "tv (pheap s q) \<noteq> UNKNOWN" using support_okD(1) [OF sup qp] sc by auto
        moreover have "q \<noteq> p" using False p by auto
        ultimately show ?thesis using qp tvp keptD(1) [OF k] by simp
      qed
    qed
  next
    fix q c assume q: "q \<in> set (props t) - (P - {p} \<union> set us)" and sb: "supported_by (pheap t q) = Some c"
    then have "q \<noteq> p" "supported_by (pheap s q) = Some c" using tvp by (auto split: if_splits)
    with q have cc: "c \<in> set (clauses s)" "sup_of (cheap s c) = Some q"
      using support_okD(3) [OF sup, of q c] keptD(1) [OF k] by auto
    then have "c \<notin> ?C2" using q inus by auto
    then show "c \<in> set (clauses t)" "sup_of (cheap t c) = Some q" using cc supt keptD(2) [OF k] by simp_all
  next
    fix c assume "c \<in> set (clauses t)"
    then show "sup_in_range (cheap t c)" using rngt keptD(2) [OF k] by simp
  next
    fix c q assume "c \<in> set (clauses t)" "sup_of (cheap t c) = Some q"
    then have c: "c \<in> set (clauses s)" "c \<notin> ?C2" "sup_of (cheap s c) = Some q"
      using supt [of c] keptD(2) [OF k] by (auto split: if_splits)
    from support_okD(5) [OF sup c(1,3)] obtain b' where
      sc: "\<not> is_deleted (cheap s c)" "q \<notin> P" "supported_by (pheap s q) = Some c"
      and pl: "propagated_lit r (pheap s) (cheap s c) q b'" by blast
    have qp: "q \<noteq> p" using sc p by auto
    have "fst l \<noteq> p" if l: "l \<in> set (clause_lits (cheap s c))" for l
    proof
      assume "fst l = p"
      then have "l \<noteq> (q, b')" using qp by auto
      then have "lit_tv (pheap s) l = PFALSE" using pl l by (simp add: propagated_lit_def)
      then have "l = (p, \<not> b)" using \<open>fst l = p\<close> v0 by (cases l; cases "snd l = b") auto
      then show False using c l occ(4) [of c b] by simp
    qed
    then have "lit_tv (pheap t) l = lit_tv (pheap s) l" if "l \<in> set (clause_lits (cheap s c))" for l
      using that by (simp add: lit_tv_def pt)
    then have "propagated_lit r (pheap t) (cheap t c) q b'"
      using pl by (simp add: propagated_lit_def keptD(10) [OF k])
    moreover have "q \<notin> set us"
    proof
      assume "q \<in> set us"
      then obtain d where "d \<in> ?C2" "sup_of (cheap s d) = Some q" using inus by auto
      then have "supported_by (pheap s q) = Some d" using support_okD(5) [OF sup c2] by blast
      with sc have "d = c" by simp
      with c \<open>d \<in> ?C2\<close> show False by simp
    qed
    ultimately show "\<not> is_deleted (cheap t c)" "q \<notin> P - {p} \<union> set us"
      "supported_by (pheap t q) = Some c" "\<exists>b. propagated_lit r (pheap t) (cheap t c) q b"
      using sc qp tvp keptD(12) [OF k] by auto
  qed
  then show ?thesis using eq bk cok k pt ul us_def distinct disj by (auto simp: returns_iff)
qed

subsection \<open>Undoing propagations\<close>

lemma undo_list_irrelevant [simp]:
  "theory_ok (s\<lparr>undo_list := us\<rparr>) = theory_ok s"
  "clauses_ok E (s\<lparr>undo_list := us\<rparr>) = clauses_ok E s"
  "support_ok r P (s\<lparr>undo_list := us\<rparr>) = support_ok r P s"
  "stamps_ok (s\<lparr>undo_list := us\<rparr>) = stamps_ok s"
  "kept (s\<lparr>undo_list := us\<rparr>) t = kept s t"
  "kept t (s\<lparr>undo_list := us\<rparr>) = kept t s"
  by (simp_all add: theory_ok_def clauses_ok_def support_ok_def stamps_ok_def kept_def)

definition assigned :: "'a ptheory_scheme \<Rightarrow> prop_id set" where
  "assigned s = {p \<in> set (props s). tv (pheap s p) \<noteq> UNKNOWN}"

lemma finite_assigned [simp]: "finite (assigned s)"
  by (simp add: assigned_def)

lemma card_assigned_le: "card (assigned s) \<le> length (props s)"
  unfolding assigned_def using card_mono [of "set (props s)"] card_length [of "props s"]
  by (metis (mono_tags, lifting) List.finite_set le_trans mem_Collect_eq subsetI)

text \<open>Every proposition keeps its value or is forgotten.\<close>

definition forgets :: "'a ptheory_scheme \<Rightarrow> 'a ptheory_scheme \<Rightarrow> bool" where
  "forgets s t \<longleftrightarrow> (\<forall>p. pheap t p = pheap s p \<or> pheap t p = prop_initialize (pheap s p))"

lemma prop_initialize_idem [simp]: "prop_initialize (prop_initialize p) = prop_initialize p"
  by (simp add: prop_initialize_def)

lemma forgets_trans: "forgets s t \<Longrightarrow> forgets t u \<Longrightarrow> forgets s u"
  unfolding forgets_def by (metis prop_initialize_idem)

lemma undo_loop_ok:
  assumes "book_ok s" "theory_ok s" "clauses_ok {} s" "support_ok r (set (undo_list s)) s"
    and "distinct (undo_list s)" "card (assigned s) \<le> n"
  shows "returns (undo_loop n s) (\<lambda>t. book_ok t \<and> clauses_ok {} t \<and> kept s t \<and> undo_list t = [] \<and>
     support_ok r {} t \<and> forgets s t)"
  using assms
proof (induction n arbitrary: s)
  case 0
  have "undo_list s = []"
  proof (rule ccontr)
    assume "undo_list s \<noteq> []"
    then have "last (undo_list s) \<in> assigned s"
      using support_okD(2) [OF "0.prems"(4), of "last (undo_list s)"] by (auto simp: assigned_def)
    then show False using "0.prems"(6) by auto
  qed
  with "0.prems" show ?case by (simp add: forgets_def)
next
  case (Suc n)
  show ?case
  proof (cases "undo_list s = []")
    case True
    with Suc.prems show ?thesis by (simp add: forgets_def)
  next
    case ne: False
    let ?p = "last (undo_list s)"
    let ?s1 = "s\<lparr>undo_list := butlast (undo_list s)\<rparr>"
    obtain xs x where xs: "undo_list s = xs @ [x]" using ne by (metis append_butlast_last_id)
    have P: "set (undo_list s) - {?p} = set (butlast (undo_list s))"
      and db: "distinct (butlast (undo_list s))" and pin: "?p \<in> set (undo_list s)"
      using Suc.prems(5) by (auto simp: xs)
    have 1: "book_ok ?s1" "theory_ok ?s1" "clauses_ok {} ?s1" "support_ok r (set (undo_list s)) ?s1"
      using Suc.prems(1-4) by simp_all
    from unassign_ok [OF 1 pin] obtain t us where
      t: "unassign ?p ?s1 = Inr t" and bk: "book_ok t" and cok: "clauses_ok {} t" and k: "kept ?s1 t"
      and pt: "pheap t = (pheap s)(?p := prop_initialize (pheap s ?p))"
      and ul: "undo_list t = butlast (undo_list s) @ us" and du: "distinct us"
      and dis: "set us \<inter> set (undo_list s) = {}" and sup: "support_ok r (set (undo_list s) - {?p} \<union> set us) t"
      unfolding returns_iff by auto
    have k': "kept s t" using k by (simp add: kept_def)
    have "set (undo_list t) = set (undo_list s) - {?p} \<union> set us" using ul P by auto
    then have sup': "support_ok r (set (undo_list t)) t" using sup by simp
    have du': "distinct (undo_list t)" using ul db du dis by (auto dest: in_set_butlastD)
    have pa: "?p \<in> assigned s"
      using support_okD(2) [OF Suc.prems(4) pin] by (simp add: assigned_def)
    have "assigned t = assigned s - {?p}"
      using keptD(1) [OF k'] by (auto simp: assigned_def pt prop_initialize_def)
    then have "card (assigned t) \<le> n" using Suc.prems(6) pa by (simp add: card_Diff_singleton)
    from Suc.IH [OF bk _ cok sup' du' this] have
      "returns (undo_loop n t) (\<lambda>u. book_ok u \<and> clauses_ok {} u \<and> kept t u \<and> undo_list u = [] \<and>
         support_ok r {} u \<and> forgets t u)"
      using kept_theory [OF k'] Suc.prems(2) by simp
    moreover have "forgets s t" by (simp add: forgets_def pt)
    ultimately show ?thesis
      using ne t k' by (auto elim!: returns_mono intro: kept_trans forgets_trans)
  qed
qed

text \<open>
  \<open>undo_propagations\<close> ends within the fuel, empties the list, and leaves every remaining value
  supported.
\<close>

lemma undo_propagations_ok:
  assumes "book_ok s" "theory_ok s" "clauses_ok {} s" "support_ok r (set (undo_list s)) s"
    and "distinct (undo_list s)"
  shows "returns (undo_propagations s) (\<lambda>t. book_ok t \<and> clauses_ok {} t \<and> kept s t \<and> undo_list t = [] \<and>
     support_ok r {} t \<and> forgets s t)"
  unfolding undo_propagations_def by (rule undo_loop_ok) (use assms card_assigned_le in auto)

end
