(* ===== verification/Ltms_Add_Remove.thy ===== *)
theory Ltms_Add_Remove
  imports Ltms_Inv
begin

text \<open>
  Creating propositions and clauses, adding and removing clauses: each keeps the invariant
  \<open>ltms_ok\<close>, never raises, and changes the set of active clauses as it should.
\<close>

definition active :: "'a ptheory_scheme \<Rightarrow> clause_id set" where
  "active s = {c \<in> set (clauses s). \<not> is_deleted (cheap s c)}"

subsection \<open>Updates of one clause object\<close>

lemma book_ok_upd_clause:
  assumes "book_ok s" "is_in_fringe (g (cheap s c)) = is_in_fringe (cheap s c)"
    "is_volatile (g (cheap s c)) = is_volatile (cheap s c)"
    "is_unsatisfied (g (cheap s c)) = is_unsatisfied (cheap s c)"
    "fringe_index (g (cheap s c)) = fringe_index (cheap s c)"
  shows "book_ok (upd_clause c g s)"
proof -
  have "{d. is_unsatisfied (((cheap s)(c := g (cheap s c))) d)} = {d. is_unsatisfied (cheap s d)}"
    using assms(4) by auto
  then show ?thesis using assms by (simp add: book_ok_def fringe_ok_upd)
qed

lemma theory_ok_cong:
  assumes "props t = props s" "clauses t = clauses s" "next_prop t = next_prop s"
    "next_clause t = next_clause s"
    "\<And>p. positive (pheap t p) = positive (pheap s p)" "\<And>p. negative (pheap t p) = negative (pheap s p)"
    "\<And>c. clause_lits (cheap t c) = clause_lits (cheap s c)" "\<And>c. wf_clause (cheap t c) = wf_clause (cheap s c)"
  shows "theory_ok t = theory_ok s"
  unfolding theory_ok_def by (simp only: assms)

text \<open>A clause that stops supporting: what it supported joins the pending propositions.\<close>

lemma support_ok_drop:
  assumes sup: "support_ok r P s" and th: "theory_ok s" and c: "c \<in> set (clauses s)"
    and same: "pheap t = pheap s" "props t = props s" "clauses t = clauses s"
    and others: "\<And>d. d \<noteq> c \<Longrightarrow> norm_clause (cheap t d) = norm_clause (cheap s d)"
    and none: "sup_of (cheap t c) = None" "sup_in_range (cheap t c)"
  shows "support_ok r (P \<union> set_option (sup_of (cheap s c))) t"
  unfolding support_ok_def
proof (intro conjI ballI allI impI)
  fix p assume "p \<in> set (props t)"
  then show "(tv (pheap t p) = UNKNOWN) = (supported_by (pheap t p) = None)"
    using support_okD(1) [OF sup, of p] same by simp
next
  have "p \<in> set (props s) \<and> tv (pheap s p) \<noteq> UNKNOWN" if p: "sup_of (cheap s c) = Some p" for p
  proof -
    note sc = support_okD(5) [OF sup c p]
    then have "p \<in> set (props s)" using theory_lits [OF th c] by (auto simp: propagated_lit_def)
    then show ?thesis using sc support_okD(1) [OF sup] by auto
  qed
  then show "P \<union> set_option (sup_of (cheap s c)) \<subseteq> {p \<in> set (props t). tv (pheap t p) \<noteq> UNKNOWN}"
    using support_okD(2) [OF sup] same by auto
next
  fix p d
  assume p: "p \<in> set (props t) - (P \<union> set_option (sup_of (cheap s c)))" and "supported_by (pheap t p) = Some d"
  then have d: "d \<in> set (clauses s) \<and> sup_of (cheap s d) = Some p"
    using support_okD(3) [OF sup, of p d] same by auto
  with p have "d \<noteq> c" by auto
  with d show "d \<in> set (clauses t)" "sup_of (cheap t d) = Some p"
    using same sup_of_norm(1) [OF others, of d] by simp_all
next
  fix d assume "d \<in> set (clauses t)"
  then show "sup_in_range (cheap t d)"
    using none same support_okD(4) [OF sup, of d] sup_of_norm(2) [OF others, of d] by (cases "d = c") auto
next
  fix d p assume d: "d \<in> set (clauses t)" and "sup_of (cheap t d) = Some p"
  then have dc: "d \<noteq> c" and "sup_of (cheap t d) = Some p" using none by auto
  then have p: "sup_of (cheap s d) = Some p" using sup_of_norm(1) [OF others [OF dc]] by simp
  have ds: "d \<in> set (clauses s)" using d same by simp
  note sd = support_okD(5) [OF sup ds p]
  have "p \<notin> set_option (sup_of (cheap s c))"
    using sd support_okD(5) [OF sup c, of p] dc by auto
  moreover have "clause_lits (cheap t d) = clause_lits (cheap s d)"
    using static_eqD(1) [OF static_eq_norm [OF others [OF dc]]] .
  ultimately show "\<not> is_deleted (cheap t d)" "p \<notin> P \<union> set_option (sup_of (cheap s c))"
    "supported_by (pheap t p) = Some d" "\<exists>b. propagated_lit r (pheap t) (cheap t d) p b"
    using sd same norm_clause_flags(4) [OF others [OF dc]] by (auto simp: propagated_lit_def)
qed

lemma clauses_ok_at:
  assumes cl: "clauses_ok {} s" and c: "c \<in> set (clauses s)"
    and same: "pheap t = pheap s" "clauses t = clauses s"
    and others: "\<And>d. d \<noteq> c \<Longrightarrow> norm_clause (cheap t d) = norm_clause (cheap s d)"
    and at: "clause_ok (lit_tv (pheap s)) False (cheap t c)"
  shows "clauses_ok {} t"
  unfolding clauses_ok_def
proof (intro conjI ballI allI impI)
  fix d assume "d \<in> set (clauses t)"
  then show "clause_ok (lit_tv (pheap t)) (d \<in> {}) (cheap t d)"
    using cl at same clause_ok_norm [OF others, of d] by (cases "d = c") (simp_all add: clauses_ok_def)
next
  fix d assume "d \<notin> set (clauses t)"
  then have "d \<noteq> c" "d \<notin> set (clauses s)" using c same by auto
  then show "\<not> is_in_fringe (cheap t d)" "\<not> is_unsatisfied (cheap t d)"
    using cl norm_clause_flags(1,3) [OF others, of d] by (simp_all add: clauses_ok_def)
qed

lemma clause_lits_record [simp]:
  "clause_lits (c\<lparr>num_unassigned := n\<rparr>) = clause_lits c"
  "clause_lits (c\<lparr>satisfying_prop := q\<rparr>) = clause_lits c"
  "clause_lits (c\<lparr>supports := k\<rparr>) = clause_lits c"
  "clause_lits (c\<lparr>c_time_stamp := t\<rparr>) = clause_lits c"
  "clause_lits (set_deleted b c) = clause_lits c"
  "clause_lits (set_unsatisfied b c) = clause_lits c"
  "clause_lits (set_in_fringe i c) = clause_lits c"
  "clause_lits (take_from_fringe c) = clause_lits c"
  "clause_lits (set_destroying c) = clause_lits c"
  "clause_lits (c\<lparr>fringe_index := i\<rparr>) = clause_lits c"
  "clause_lits (c\<lparr>c_flags := fl\<rparr>) = clause_lits c"
  by (simp_all add: clause_lits_def set_destroying_def)

lemma wf_clause_record [simp]:
  "wf_clause (c\<lparr>num_unassigned := n\<rparr>) = wf_clause c"
  "wf_clause (c\<lparr>satisfying_prop := q\<rparr>) = wf_clause c"
  "wf_clause (c\<lparr>supports := k\<rparr>) = wf_clause c"
  "wf_clause (c\<lparr>c_time_stamp := t\<rparr>) = wf_clause c"
  "wf_clause (set_deleted b c) = wf_clause c"
  "wf_clause (set_unsatisfied b c) = wf_clause c"
  "wf_clause (set_in_fringe i c) = wf_clause c"
  "wf_clause (take_from_fringe c) = wf_clause c"
  "wf_clause (c\<lparr>c_flags := fl\<rparr>) = wf_clause c"
  "wf_clause (set_destroying c) = wf_clause c"
  by (simp_all add: wf_clause_def set_destroying_def)

subsection \<open>Removing a clause\<close>

text \<open>The states of the theory that differ in one clause, whose literals stay.\<close>

definition differs_at :: "clause_id \<Rightarrow> 'a ltms_scheme \<Rightarrow> 'a ltms_scheme \<Rightarrow> bool" where
  "differs_at c s t \<longleftrightarrow> pheap t = pheap s \<and> props t = props s \<and> clauses t = clauses s \<and>
     time_stamp t = time_stamp s \<and> next_prop t = next_prop s \<and> next_clause t = next_clause s \<and>
     (\<forall>d. d \<noteq> c \<longrightarrow> norm_clause (cheap t d) = norm_clause (cheap s d)) \<and>
     clause_lits (cheap t c) = clause_lits (cheap s c) \<and> wf_clause (cheap t c) = wf_clause (cheap s c) \<and>
     c_time_stamp (cheap t c) = c_time_stamp (cheap s c) \<and> clause_datum (cheap t c) = clause_datum (cheap s c)"

lemma differs_lits:
  assumes "differs_at c s t"
  shows "clause_lits (cheap t d) = clause_lits (cheap s d)"
    and "clause_datum (cheap t d) = clause_datum (cheap s d)"
  using assms static_eqD(1,10) [OF static_eq_norm, of "cheap t d" "cheap s d"]
  by (cases "d = c"; simp add: differs_at_def)+

text \<open>The literals and the datum of every clause stay.\<close>

definition same_contents :: "'a ptheory_scheme \<Rightarrow> 'a ptheory_scheme \<Rightarrow> bool" where
  "same_contents s t \<longleftrightarrow> (\<forall>d. clause_lits (cheap t d) = clause_lits (cheap s d) \<and>
     clause_datum (cheap t d) = clause_datum (cheap s d))"

lemma same_contents_refl [simp]: "same_contents s s"
  by (simp add: same_contents_def)

lemma same_contentsD:
  assumes "same_contents s t"
  shows "clause_lits (cheap t d) = clause_lits (cheap s d)"
    and "clause_datum (cheap t d) = clause_datum (cheap s d)"
  using assms by (simp_all add: same_contents_def)

lemma differs_contents: "differs_at c s t \<Longrightarrow> same_contents s t"
  by (simp add: same_contents_def differs_lits)

lemma differs_theory:
  assumes "differs_at c s t"
  shows "theory_ok t = theory_ok s"
proof (rule theory_ok_cong)
  show "clause_lits (cheap t d) = clause_lits (cheap s d)" "wf_clause (cheap t d) = wf_clause (cheap s d)" for d
    using assms static_eqD(1,2) [OF static_eq_norm, of "cheap t d" "cheap s d"]
    by (cases "d = c"; simp add: differs_at_def)+
qed (use assms in \<open>simp_all add: differs_at_def\<close>)

lemma differs_stamps:
  assumes "differs_at c s t"
  shows "stamps_ok t = stamps_ok s"
proof -
  have "c_time_stamp (cheap t d) = c_time_stamp (cheap s d)" for d
    using assms norm_clause_fields(5) [of "cheap t d" "cheap s d"]
    by (cases "d = c") (simp_all add: differs_at_def)
  then show ?thesis using assms by (simp add: stamps_ok_def differs_at_def)
qed

lemma differs_active:
  assumes "differs_at c s t" "c \<in> set (clauses s)"
  shows "active t = (if is_deleted (cheap t c) then active s - {c} else insert c (active s))"
proof -
  have "is_deleted (cheap t d) = is_deleted (cheap s d)" if "d \<noteq> c" for d
    using assms(1) that norm_clause_flags(4) [of "cheap t d" "cheap s d"] by (simp add: differs_at_def)
  moreover have "clauses t = clauses s" using assms(1) by (simp add: differs_at_def)
  ultimately have "x \<in> active t \<longleftrightarrow> x \<in> (if is_deleted (cheap t c) then active s - {c} else insert c (active s))" for x
    using assms(2) by (cases "x = c") (simp_all add: active_def)
  then show ?thesis by blast
qed

text \<open>Everything of the invariant but the support structure, from the changed clause alone.\<close>

lemma differs_ok:
  assumes "ltms_ok s" "differs_at c s t" "c \<in> set (clauses s)" "book_ok t" "undo_list t = []"
    and "clause_ok (lit_tv (pheap s)) False (cheap t c)" "sup_of (cheap t c) = None"
    and "sup_in_range (cheap t c)" "sup_of (cheap s c) = None"
  shows "ltms_ok t"
proof -
  from assms(1) obtain r where sup: "support_ok r {} s" and th: "theory_ok s" and cl: "clauses_ok {} s"
    by (auto simp: ltms_ok_def)
  have "clauses_ok {} t"
    using clauses_ok_at [OF cl assms(3), of t] assms(2,6) by (simp add: differs_at_def)
  moreover have "support_ok r {} t"
    using support_ok_drop [OF sup th assms(3), of t] assms(2,7,8,9) by (simp add: differs_at_def)
  ultimately show ?thesis
    using assms differs_theory [OF assms(2)] differs_stamps [OF assms(2)] by (auto simp: ltms_ok_def)
qed

lemma ptheory_remove_flags:
  "is_deleted (cheap (ptheory_remove c s) c)"
  "norm_clause (cheap (ptheory_remove c s) d) = norm_clause (if d = c then set_deleted True (cheap s c) else cheap s d)"
  by (simp_all add: ptheory_remove_def)

lemma sup_of_flags [simp]:
  "sup_of (set_deleted b c) = sup_of c" "sup_in_range (set_deleted b c) = sup_in_range c"
  "sup_of (c\<lparr>c_flags := fl\<rparr>) = sup_of c" "sup_in_range (c\<lparr>c_flags := fl\<rparr>) = sup_in_range c"
  "sup_of (set_unsatisfied b c) = sup_of c" "sup_in_range (set_unsatisfied b c) = sup_in_range c"
  "sup_of (take_from_fringe c) = sup_of c" "sup_in_range (take_from_fringe c) = sup_in_range c"
  "sup_of (set_in_fringe i c) = sup_of c" "sup_in_range (set_in_fringe i c) = sup_in_range c"
  "sup_of (c\<lparr>supports := NO_PROPOSITION\<rparr>) = None" "sup_in_range (c\<lparr>supports := NO_PROPOSITION\<rparr>)"
  by (simp_all add: sup_of_def sup_in_range_def)

lemma ltms_remove_unsupporting:
  assumes ok: "ltms_ok s" and c: "c \<in> set (clauses s)" and nd: "\<not> is_deleted (cheap s c)"
    and ch: "changes {c} F [] (ptheory_remove c s) t"
    and F: "is_deleted (F (set_deleted True (cheap s c)))" "\<not> is_in_fringe (F (set_deleted True (cheap s c)))"
      "\<not> is_unsatisfied (F (set_deleted True (cheap s c)))" "sup_of (F (set_deleted True (cheap s c))) = None"
      "static_eq (F (set_deleted True (cheap s c))) (set_deleted True (cheap s c))"
      "sup_in_range (F (set_deleted True (cheap s c)))"
    and none: "sup_of (cheap s c) = None"
  shows "ltms_ok t \<and> differs_at c s t \<and> is_deleted (cheap t c)"
proof -
  have nc: "norm_clause (cheap t c) = norm_clause (F (set_deleted True (cheap s c)))"
    using changes_clause(1) [OF ch] by (simp add: ptheory_remove_def)
  have nd: "norm_clause (cheap t d) = norm_clause (cheap s d)" if "d \<noteq> c" for d
    using changes_clause(2) [OF ch, of d] that by (simp add: ptheory_remove_def)
  note st = static_eqD [OF static_eq_trans [OF static_eq_norm [OF nc] F(5)]]
  have diff: "differs_at c s t"
    using ch nd st by (simp add: differs_at_def changes_def ptheory_remove_def)
  moreover have "ltms_ok t"
  proof (rule differs_ok [OF ok diff c changes_book [OF ch]])
    show "undo_list t = []" using ch ok by (simp add: changes_def ptheory_remove_def ltms_ok_def)
    show "clause_ok (lit_tv (pheap s)) False (cheap t c)"
      using F norm_clause_flags [OF nc] by (simp add: clause_ok_def)
    show "sup_of (cheap t c) = None" "sup_in_range (cheap t c)" using sup_of_norm [OF nc] F by simp_all
  qed (rule none)
  ultimately show ?thesis using norm_clause_flags(4) [OF nc] F(1) by simp
qed

lemma ltms_remove_ok:
  assumes ok: "ltms_ok s" and c: "c \<in> set (clauses s)"
  shows "returns (ltms_remove c s) (\<lambda>t. ltms_ok t \<and> active t = active s - {c} \<and> forgets s t \<and>
     props t = props s \<and> clauses t = clauses s \<and> same_contents s t)"
proof (cases "is_deleted (cheap s c)")
  case True
  then show ?thesis using ok by (auto simp: ltms_remove_def active_def forgets_def)
next
  case nd: False
  let ?s1 = "ptheory_remove c s"
  from ok obtain r where sup: "support_ok r {} s" and th: "theory_ok s" and cl: "clauses_ok {} s"
    and bk: "book_ok s" by (auto simp: ltms_ok_def)
  have bk1: "book_ok ?s1" unfolding ptheory_remove_def by (rule book_ok_upd_clause [OF bk]) simp_all
  have fin: "ltms_ok t \<and> active t = active s - {c} \<and> forgets s t \<and> props t = props s \<and>
      clauses t = clauses s \<and> same_contents s t"
    if "ltms_ok t \<and> differs_at c s t \<and> is_deleted (cheap t c)" for t
    using that differs_active [of c s t] c differs_contents [of c s t] by (auto simp: differs_at_def forgets_def)
  have cok: "clause_ok (lit_tv (pheap s)) False (cheap s c)" using cl c by (simp add: clauses_ok_def)
  have none: "sup_of (cheap s c) = None" if "is_in_fringe (cheap s c) \<or> is_unsatisfied (cheap s c)"
    using supporting_quiet [OF cl sup c] that by (cases "sup_of (cheap s c)") auto
  have rng: "sup_in_range (cheap s c)" using support_okD(4) [OF sup c] .
  show ?thesis
  proof (cases "is_in_fringe (cheap s c)")
    case fr: True
    then have un: "\<not> is_unsatisfied (cheap s c)" using cok nd by (auto simp: clause_ok_def)
    have "returns (remove_from_fringe c ?s1) (\<lambda>t. ltms_ok t \<and> differs_at c s t \<and> is_deleted (cheap t c))"
    proof (rule returns_mono [OF remove_from_fringe_ok [OF bk1]])
      fix t assume "changes {c} cl_leave_fringe [] ?s1 t"
      then show "ltms_ok t \<and> differs_at c s t \<and> is_deleted (cheap t c)"
        by (rule ltms_remove_unsupporting [OF ok c nd])
          (use fr un none rng in \<open>simp_all add: cl_leave_fringe_def static_eq_def\<close>)
    qed
    moreover have "ltms_remove c s = remove_from_fringe c ?s1"
      using nd fr by (simp add: ltms_remove_def ptheory_remove_def)
    ultimately show ?thesis using fin by (auto elim!: returns_mono)
  next
    case fr: False
    show ?thesis
    proof (cases "is_unsatisfied (cheap s c)")
      case un: True
      have "returns (remove_from_unsat c ?s1) (\<lambda>t. ltms_ok t \<and> differs_at c s t \<and> is_deleted (cheap t c))"
      proof (rule returns_mono [OF remove_from_unsat_ok [OF bk1]])
        fix t assume "changes {c} cl_leave_unsat [] ?s1 t"
        then show "ltms_ok t \<and> differs_at c s t \<and> is_deleted (cheap t c)"
          by (rule ltms_remove_unsupporting [OF ok c nd])
            (use fr un none rng in \<open>simp_all add: cl_leave_unsat_def static_eq_def\<close>)
      qed
      moreover have "ltms_remove c s = remove_from_unsat c ?s1"
        using nd fr un by (simp add: ltms_remove_def ptheory_remove_def)
      ultimately show ?thesis using fin by (auto elim!: returns_mono)
    next
      case un: False
      have gs: "get_supports (cheap ?s1 c) = Inr (sup_of (cheap s c))"
        using rng by (simp add: ptheory_remove_def get_supports_sup_of)
      show ?thesis
      proof (cases "sup_of (cheap s c)")
        case None
        have "changes {c} (\<lambda>x. x) [] ?s1 ?s1" using bk1 by (rule changes_id) simp
        from ltms_remove_unsupporting [OF ok c nd this] None fr un rng
        have "ltms_ok ?s1 \<and> differs_at c s ?s1 \<and> is_deleted (cheap ?s1 c)" by simp
        moreover have "ltms_remove c s = Inr ?s1"
          using nd fr un gs None by (simp add: ltms_remove_def ptheory_remove_def)
        ultimately show ?thesis using fin by simp
      next
        case (Some p)
        let ?s2 = "upd_clause c (\<lambda>_. (set_deleted True (cheap s c))\<lparr>supports := NO_PROPOSITION\<rparr>)
            (enqueue_for_undo p ?s1)"
        have ul: "undo_list ?s2 = [p]" using ok by (simp add: enqueue_for_undo_def ptheory_remove_def ltms_ok_def)
        have eq: "ltms_remove c s = undo_propagations ?s2"
          using nd fr un gs Some
          by (simp add: ltms_remove_def ptheory_remove_def upd_clause_res_def set_supports_def enqueue_for_undo_def)
        have diff: "differs_at c s ?s2"
          by (simp add: differs_at_def enqueue_for_undo_def ptheory_remove_def)
        have bk2: "book_ok ?s2"
          by (rule book_ok_upd_clause) (use bk1 in \<open>simp_all add: enqueue_for_undo_def ptheory_remove_def\<close>)
        have cl2: "clauses_ok {} ?s2"
          by (rule clauses_ok_at [OF cl c]) (use fr un in \<open>simp_all add: enqueue_for_undo_def
              ptheory_remove_def clause_ok_def\<close>)
        have "support_ok r ({} \<union> set_option (sup_of (cheap s c))) ?s2"
          by (rule support_ok_drop [OF sup th c]) (simp_all add: enqueue_for_undo_def ptheory_remove_def)
        then have sup2: "support_ok r (set (undo_list ?s2)) ?s2" using Some ul by simp
        have "returns (undo_propagations ?s2) (\<lambda>t. book_ok t \<and> clauses_ok {} t \<and> kept ?s2 t \<and>
            undo_list t = [] \<and> support_ok r {} t \<and> forgets ?s2 t)"
          by (rule undo_propagations_ok [OF bk2 _ cl2 sup2]) (use differs_theory [OF diff] th ul in simp_all)
        then have "returns (undo_propagations ?s2) (\<lambda>t. ltms_ok t \<and> active t = active s - {c} \<and>
            forgets s t \<and> props t = props s \<and> clauses t = clauses s \<and> same_contents s t)"
        proof (rule returns_mono)
          fix t
          assume t: "book_ok t \<and> clauses_ok {} t \<and> kept ?s2 t \<and> undo_list t = [] \<and> support_ok r {} t \<and> forgets ?s2 t"
          then have k: "kept ?s2 t" by simp
          have "ltms_ok t"
            using t kept_theory [OF k] kept_stamps [OF k] differs_theory [OF diff] differs_stamps [OF diff] ok
            by (auto simp: ltms_ok_def)
          moreover have "active t = active ?s2" using keptD(2,12) [OF k] by (simp add: active_def)
          moreover have "active ?s2 = active s - {c}" using differs_active [OF diff c] by simp
          moreover have "forgets s t" using t by (simp add: forgets_def enqueue_for_undo_def ptheory_remove_def)
          moreover have "same_contents s t"
            using keptD(10,17) [OF k] differs_lits [OF diff] by (simp add: same_contents_def)
          ultimately show "ltms_ok t \<and> active t = active s - {c} \<and> forgets s t \<and> props t = props s \<and>
              clauses t = clauses s \<and> same_contents s t"
            using keptD(1,2) [OF k] by (simp add: enqueue_for_undo_def ptheory_remove_def)
        qed
        then show ?thesis using eq by simp
      qed
    qed
  qed
qed

subsection \<open>Adding a clause\<close>

lemma find_satisfying_satisfier:
  assumes "satisfying_prop d = find_satisfying_prop ph d"
  shows "satisfier_ok (lit_tv ph) d"
proof (cases "find (\<lambda>l. lit_tv ph l = PTRUE) (clause_lits d)")
  case None
  then have "\<forall>l \<in> set (clause_lits d). lit_tv ph l \<noteq> PTRUE" by (auto simp: find_None_iff)
  then show ?thesis using assms None by (simp add: satisfier_ok_def find_satisfying_prop_lits)
next
  case (Some l)
  then have "(fst l, snd l) \<in> set (clause_lits d)" "lit_tv ph (fst l, snd l) = PTRUE"
    by (auto simp: find_Some_iff)
  moreover have sp: "satisfying_prop d = Some (fst l)" using assms Some by (simp add: find_satisfying_prop_lits)
  ultimately show ?thesis unfolding satisfier_ok_def sp option.case by blast
qed

lemma find_satisfying_prop_cong:
  "num_lits c = num_lits d \<Longrightarrow> num_pos_lits c = num_pos_lits d \<Longrightarrow> literals c = literals d \<Longrightarrow>
   find_satisfying_prop ph c = find_satisfying_prop ph d"
  by (simp add: find_satisfying_prop_def)

lemma queries_set_deleted [simp]:
  "find_satisfying_prop ph (set_deleted b c) = find_satisfying_prop ph c"
  "count_unassigned ph (set_deleted b c) = count_unassigned ph c"
  by (simp_all add: find_satisfying_prop_def count_unassigned_def)

text \<open>The clause after \<open>Ptheory::add\<close> and the resets, before it is put in a list.\<close>

definition cl_revive :: "prop_heap \<Rightarrow> clause \<Rightarrow> clause" where
  "cl_revive ph c = set_unsatisfied False ((set_deleted False c)
     \<lparr>satisfying_prop := find_satisfying_prop ph c, num_unassigned := count_unassigned ph c,
      supports := NO_PROPOSITION\<rparr>)"

lemma cl_revive_simps [simp]:
  "is_deleted (cl_revive ph c) = False" "is_in_fringe (cl_revive ph c) = is_in_fringe c"
  "is_unsatisfied (cl_revive ph c) = False" "is_volatile (cl_revive ph c) = is_volatile c"
  "satisfying_prop (cl_revive ph c) = find_satisfying_prop ph c"
  "num_unassigned (cl_revive ph c) = count_unassigned ph c"
  "clause_lits (cl_revive ph c) = clause_lits c" "wf_clause (cl_revive ph c) = wf_clause c"
  "fringe_index (cl_revive ph c) = fringe_index c" "c_time_stamp (cl_revive ph c) = c_time_stamp c"
  "sup_of (cl_revive ph c) = None" "sup_in_range (cl_revive ph c)"
  "num_lits (cl_revive ph c) = num_lits c" "num_pos_lits (cl_revive ph c) = num_pos_lits c"
  "literals (cl_revive ph c) = literals c" "clause_datum (cl_revive ph c) = clause_datum c"
  by (simp_all add: cl_revive_def set_unsatisfied_def wf_clause_def)
    (simp_all add: is_in_fringe_def is_volatile_def is_deleted_def is_unsatisfied_def set_deleted_def flag_defs get_set_flag_other)

lemma ltms_add_ok:
  assumes ok: "ltms_ok s" and c: "c \<in> set (clauses s)"
  shows "returns (ltms_add c s) (\<lambda>t. ltms_ok t \<and> active t = insert c (active s) \<and> pheap t = pheap s \<and>
     props t = props s \<and> clauses t = clauses s \<and> same_contents s t)"
proof (cases "is_deleted (cheap s c)")
  case False
  then show ?thesis using ok c by (auto simp: ltms_add_def active_def)
next
  case del: True
  let ?d = "cl_revive (pheap s) (cheap s c)"
  let ?s2 = "upd_clause c (\<lambda>_. ?d) s"
  from ok obtain r where sup: "support_ok r {} s" and th: "theory_ok s" and cl: "clauses_ok {} s"
    and bk: "book_ok s" by (auto simp: ltms_ok_def)
  have cok: "\<not> is_in_fringe (cheap s c)" "\<not> is_unsatisfied (cheap s c)"
    using cl c del by (auto simp: clauses_ok_def clause_ok_def)
  have none: "sup_of (cheap s c) = None"
    using support_okD(5) [OF sup c] del by (cases "sup_of (cheap s c)") auto
  have cell: "upd_clause c (set_unsatisfied False) (upd_clause c (\<lambda>_. ((set_deleted False (cheap s c))
     \<lparr>satisfying_prop := find_satisfying_prop (pheap s) (set_deleted False (cheap s c)),
      num_unassigned := count_unassigned (pheap s) (set_deleted False (cheap s c))\<rparr>)
      \<lparr>supports := NO_PROPOSITION\<rparr>) (ptheory_add c s)) = ?s2"
    using del by (simp add: ptheory_add_def upd_clause_def cl_revive_def)
  have eq: "ltms_add c s =
     (if satisfying_prop ?d = None then
        if num_unassigned ?d = 1 then Inr (insert_into_fringe c ?s2)
        else if num_unassigned ?d = 0 then Inr (insert_into_unsat c ?s2) else Inr ?s2
      else Inr ?s2)"
  proof -
    let ?d1 = "((set_deleted False (cheap s c))
     \<lparr>satisfying_prop := find_satisfying_prop (pheap s) (set_deleted False (cheap s c)),
      num_unassigned := count_unassigned (pheap s) (set_deleted False (cheap s c))\<rparr>)
      \<lparr>supports := NO_PROPOSITION\<rparr>"
    have step: "upd_clause_res c (set_supports None) (ptheory_add c s) =
        Inr (upd_clause c (\<lambda>_. ?d1) (ptheory_add c s))"
      using del by (simp add: upd_clause_res_def set_supports_def ptheory_add_def)
    have at: "cheap ?s2 c = ?d" by simp
    have guard: "l2_assert (\<not> is_in_fringe ?d) L2_fatal_error = Inr ()"
      using cok by (simp add: l2_assert_def)
    show ?thesis
      unfolding ltms_add_def if_P [OF del] step rbind_simps Let_def cell at guard ..
  qed
  have bk2: "book_ok ?s2" by (rule book_ok_upd_clause [OF bk]) (use cok in simp_all)
  have count: "count_unassigned (pheap s) (cheap s c) = int (unknown_lits (lit_tv (pheap s)) ?d)"
    by (simp add: count_unassigned_lits unknown_lits_def)
  have sat: "satisfier_ok (lit_tv (pheap s)) ?d"
    by (rule find_satisfying_satisfier, simp, rule find_satisfying_prop_cong) simp_all
  have fin: "ltms_ok t \<and> active t = insert c (active s) \<and> pheap t = pheap s \<and>
     props t = props s \<and> clauses t = clauses s \<and> same_contents s t"
    if ch: "changes {c} F [] ?s2 t" and F: "static_eq (F ?d) ?d" "sup_of (F ?d) = None" "sup_in_range (F ?d)"
      "clause_ok (lit_tv (pheap s)) False (F ?d)" for F t
  proof -
    have nc: "norm_clause (cheap t c) = norm_clause (F ?d)" using changes_clause(1) [OF ch] by simp
    have nd: "norm_clause (cheap t d) = norm_clause (cheap s d)" if "d \<noteq> c" for d
      using changes_clause(2) [OF ch, of d] that by simp
    note st = static_eqD [OF static_eq_trans [OF static_eq_norm [OF nc] F(1)]]
    have diff: "differs_at c s t" using ch nd st by (simp add: differs_at_def changes_def)
    have "ltms_ok t"
    proof (rule differs_ok [OF ok diff c changes_book [OF ch]])
      show "undo_list t = []" using ch ok by (simp add: changes_def ltms_ok_def)
      show "clause_ok (lit_tv (pheap s)) False (cheap t c)" using F(4) clause_ok_norm [OF nc] by simp
      show "sup_of (cheap t c) = None" "sup_in_range (cheap t c)" using sup_of_norm [OF nc] F by simp_all
    qed (rule none)
    then show ?thesis using differs_active [OF diff c] differs_contents [OF diff] st diff
      by (simp add: differs_at_def)
  qed
  consider "satisfying_prop ?d = None" "num_unassigned ?d = 1" | "satisfying_prop ?d = None" "num_unassigned ?d = 0"
    | "satisfying_prop ?d = None \<longrightarrow> num_unassigned ?d \<noteq> 1 \<and> num_unassigned ?d \<noteq> 0" by argo
  then show ?thesis
  proof cases
    case 1
    have "clause_ok (lit_tv (pheap s)) False (cl_enter_fringe ?d)" "static_eq (cl_enter_fringe ?d) ?d"
      "sup_of (cl_enter_fringe ?d) = None" "sup_in_range (cl_enter_fringe ?d)"
      using 1 cok count sat
      by (simp_all add: cl_enter_fringe_def static_eq_def clause_ok_def unknown_lits_def satisfier_ok_def)
    from fin [OF insert_into_fringe_ok [OF bk2] this(2,3,4,1)] 1 show ?thesis by (simp add: eq)
  next
    case 2
    have "clause_ok (lit_tv (pheap s)) False (cl_enter_unsat ?d)" "static_eq (cl_enter_unsat ?d) ?d"
      "sup_of (cl_enter_unsat ?d) = None" "sup_in_range (cl_enter_unsat ?d)"
      using 2 cok count sat
      by (simp_all add: cl_enter_unsat_def static_eq_def clause_ok_def unknown_lits_def satisfier_ok_def)
    from fin [OF insert_into_unsat_ok [OF bk2] this(2,3,4,1)] 2 show ?thesis by (simp add: eq)
  next
    case 3
    have "changes {c} (\<lambda>x. x) [] ?s2 ?s2" using bk2 by (rule changes_id) simp
    moreover have "clause_ok (lit_tv (pheap s)) False ?d"
      using 3 cok count sat by (auto simp: clause_ok_def)
    ultimately show ?thesis using fin [of "\<lambda>x. x" ?s2] 3 by (auto simp: eq)
  qed
qed

subsection \<open>Creating objects\<close>

lemma new_ltms_ok: "ltms_ok (new_ltms :: ltms)"
proof -
  have "is_in_fringe no_clause = False" "is_unsatisfied no_clause = False"
    by (simp_all add: no_clause_def clause_dtor_def is_in_fringe_def is_unsatisfied_def)
  then show ?thesis
    by (simp add: ltms_ok_def new_ltms_def theory_ok_def clauses_ok_def book_ok_def fringe_ok_def
        stamps_ok_def support_ok_def)
qed

lemma pheap_fold_upd_prop_distinct:
  "distinct ps \<Longrightarrow> pheap (fold (\<lambda>p. upd_prop p f) ps s) q = (if q \<in> set ps then f (pheap s q) else pheap s q)"
  by (rule pheap_fold_upd_prop)

lemma fold_upd_prop_ltms [simp]:
  "fringe (fold (\<lambda>p. upd_prop p f) ps s) = fringe s"
  "volatile_fringe (fold (\<lambda>p. upd_prop p f) ps s) = volatile_fringe s"
  "unsatisfied (fold (\<lambda>p. upd_prop p f) ps s) = unsatisfied s"
  "undo_list (fold (\<lambda>p. upd_prop p f) ps s) = undo_list s"
  by (induction ps arbitrary: s) auto

lemma ltms_update_simps [simp]:
  "pheap (s\<lparr>next_clause := k\<rparr>) = pheap s" "cheap (s\<lparr>next_clause := k\<rparr>) = cheap s"
  by simp_all

text \<open>What \<open>create_proposition\<close> does.\<close>

lemma create_proposition_ok:
  assumes ok: "ltms_ok s"
  shows "case create_proposition s of (p, t) \<Rightarrow> ltms_ok t \<and> p \<notin> set (props s) \<and>
     props t = props s @ [p] \<and> isUnknown (pheap t p) \<and> clauses t = clauses s \<and> cheap t = cheap s"
proof -
  let ?p = "next_prop s"
  let ?t = "snd (create_proposition s)"
  from ok obtain r where sup: "support_ok r {} s" and th: "theory_ok s" and cl: "clauses_ok {} s"
    and bk: "book_ok s" and ts: "stamps_ok s" and ul: "undo_list s = []" by (auto simp: ltms_ok_def)
  have fresh: "?p \<notin> set (props s)" using th by (auto simp: theory_ok_def)
  have t: "pheap ?t = (pheap s)(?p := new_proposition)" "cheap ?t = cheap s" "props ?t = props s @ [?p]"
    "clauses ?t = clauses s" "next_prop ?t = Suc ?p" "next_clause ?t = next_clause s"
    "time_stamp ?t = time_stamp s" "fringe ?t = fringe s" "volatile_fringe ?t = volatile_fringe s"
    "unsatisfied ?t = unsatisfied s" "undo_list ?t = undo_list s"
    by (simp_all add: create_proposition_def Let_def upd_prop_def)
  have notin: "?p \<notin> fst ` set (clause_lits (cheap s c))" if "c \<in> set (clauses s)" for c
    using th that fresh unfolding theory_ok_def by blast
  have lit: "lit_tv (pheap ?t) l = lit_tv (pheap s) l" if "c \<in> set (clauses s)" "l \<in> set (clause_lits (cheap s c))" for c l
  proof -
    have "fst l \<noteq> ?p" using notin [OF that(1)] that(2) by force
    then show ?thesis by (simp add: lit_tv_def t)
  qed
  have "theory_ok ?t"
    unfolding theory_ok_def
  proof (intro conjI ballI allI)
    fix c assume c: "c \<in> set (clauses ?t)"
    then have "fst ` set (clause_lits (cheap s c)) \<subseteq> set (props s)" using th unfolding theory_ok_def t by blast
    then show "fst ` set (clause_lits (cheap ?t c)) \<subseteq> set (props ?t)" by (auto simp: t)
    show "wf_clause (cheap ?t c)" using theory_wf [OF th] c by (simp add: t)
  next
    fix q assume q: "q \<in> set (props ?t)"
    show "q < next_prop ?t" using q th by (auto simp: t theory_ok_def less_Suc_eq)
    show "distinct (positive (pheap ?t q))" "distinct (negative (pheap ?t q))"
      using q th fresh by (auto simp: t theory_ok_def new_proposition_def)
    fix c
    have th': "q \<noteq> ?p \<Longrightarrow> c \<in> set (positive (pheap s q)) \<longleftrightarrow> c \<in> set (clauses s) \<and> (q, True) \<in> set (clause_lits (cheap s c))"
      "q \<noteq> ?p \<Longrightarrow> c \<in> set (negative (pheap s q)) \<longleftrightarrow> c \<in> set (clauses s) \<and> (q, False) \<in> set (clause_lits (cheap s c))"
      using q th fresh by (auto simp: t theory_ok_def)
    show "(c \<in> set (positive (pheap ?t q))) = (c \<in> set (clauses ?t) \<and> (q, True) \<in> set (clause_lits (cheap ?t c)))"
      "(c \<in> set (negative (pheap ?t q))) = (c \<in> set (clauses ?t) \<and> (q, False) \<in> set (clause_lits (cheap ?t c)))"
      using th' notin [of c] by (cases "q = ?p"; force simp: t new_proposition_def)+
  qed (use th fresh in \<open>auto simp: t theory_ok_def\<close>)
  moreover have "clauses_ok {} ?t"
    using cl clause_ok_cong [of "lit_tv (pheap s)" False _ "lit_tv (pheap ?t)"] lit
    by (auto simp: clauses_ok_def t)
  moreover have "support_ok r {} ?t"
  proof -
    have pl: "propagated_lit r (pheap ?t) (cheap s c) p b"
      if "c \<in> set (clauses s)" "propagated_lit r (pheap s) (cheap s c) p b" for c p b
      using lit [OF that(1)] that(2) unfolding propagated_lit_def by metis
    have np: "p \<noteq> ?p" if "c \<in> set (clauses s)" "sup_of (cheap s c) = Some p" for c p
      using support_okD(5) [OF sup that] notin [OF that(1)] by (force simp: propagated_lit_def)
    show ?thesis
      unfolding support_ok_def
    proof (intro conjI ballI allI impI)
      fix q assume "q \<in> set (props ?t)"
      then show "(tv (pheap ?t q) = UNKNOWN) = (supported_by (pheap ?t q) = None)"
        using support_okD(1) [OF sup, of q] by (auto simp: t new_proposition_def)
    next
      fix q c assume q: "q \<in> set (props ?t) - {}" and sb: "supported_by (pheap ?t q) = Some c"
      then have "q \<noteq> ?p" by (auto simp: t new_proposition_def)
      then show "c \<in> set (clauses ?t)" "sup_of (cheap ?t c) = Some q"
        using q sb support_okD(3) [OF sup, of q c] by (auto simp: t)
    next
      fix c assume "c \<in> set (clauses ?t)"
      then show "sup_in_range (cheap ?t c)" using support_okD(4) [OF sup] by (simp add: t)
    next
      fix c q assume c: "c \<in> set (clauses ?t)" "sup_of (cheap ?t c) = Some q"
      then have c': "c \<in> set (clauses s)" "sup_of (cheap s c) = Some q" by (simp_all add: t)
      from support_okD(5) [OF sup this] obtain b where "\<not> is_deleted (cheap s c)"
        "supported_by (pheap s q) = Some c" "propagated_lit r (pheap s) (cheap s c) q b" by blast
      then show "\<not> is_deleted (cheap ?t c)" "q \<notin> {}" "supported_by (pheap ?t q) = Some c"
        "\<exists>b. propagated_lit r (pheap ?t) (cheap ?t c) q b"
        using pl [OF c'(1)] np [OF c'] by (auto simp: t)
    qed simp
  qed
  ultimately have "ltms_ok ?t" using bk ts ul by (auto simp: ltms_ok_def book_ok_def stamps_ok_def t)
  moreover have "fst (create_proposition s) = ?p" by (simp add: create_proposition_def Let_def)
  ultimately show ?thesis
    using fresh by (simp add: case_prod_unfold t isUnknown_def new_proposition_def)
qed

text \<open>A new clause: its literals, and the back pointers to it.\<close>

definition new_lits :: "prop_id list \<Rightarrow> prop_id list \<Rightarrow> lit list" where
  "new_lits posP negP = map (\<lambda>p. (p, True)) (slist_remove_duplicates posP) @
     map (\<lambda>p. (p, False)) (slist_remove_duplicates negP)"

lemma new_clause_fields:
  assumes "length (slist_remove_duplicates posP) + length (slist_remove_duplicates negP) < 128"
  shows "num_pos_lits (new_clause dm posP negP vol) = int (length (slist_remove_duplicates posP))"
    "num_lits (new_clause dm posP negP vol) = int (length (new_lits posP negP))"
    "literals (new_clause dm posP negP vol) = map fst (new_lits posP negP)"
  using assms by (simp_all add: new_clause_def new_lits_def Let_def comp_def)

lemma clause_lits_new:
  assumes "length (slist_remove_duplicates posP) + length (slist_remove_duplicates negP) < 128"
  shows "clause_lits (new_clause dm posP negP vol) = new_lits posP negP"
proof (rule nth_equalityI)
  fix i assume "i < length (clause_lits (new_clause dm posP negP vol))"
  then have "i < length (new_lits posP negP)" by (simp add: new_clause_fields [OF assms])
  then show "clause_lits (new_clause dm posP negP vol) ! i = new_lits posP negP ! i"
    by (auto simp: clause_lits_def new_clause_fields [OF assms] new_lits_def nth_append)
qed (simp add: new_clause_fields [OF assms])

lemma distinct_new_lits: "distinct (new_lits posP negP)"
  by (auto simp: new_lits_def distinct_map inj_on_def)

lemma wf_new_clause:
  assumes "length (slist_remove_duplicates posP) + length (slist_remove_duplicates negP) < 128"
  shows "wf_clause (new_clause dm posP negP vol)"
  using assms distinct_new_lits
  by (simp add: wf_clause_def clause_lits_new [OF assms] new_clause_fields [OF assms])
    (simp add: new_lits_def)

lemma new_clause_flags:
  "is_deleted (new_clause dm posP negP vol)" "\<not> is_in_fringe (new_clause dm posP negP vol)"
  "\<not> is_unsatisfied (new_clause dm posP negP vol)" "\<not> is_destroying (new_clause dm posP negP vol)"
  "is_volatile (new_clause dm posP negP vol) = vol"
  "sup_of (new_clause dm posP negP vol) = None" "sup_in_range (new_clause dm posP negP vol)"
  "c_time_stamp (new_clause dm posP negP vol) = 0" "clause_datum (new_clause dm posP negP vol) = dm"
  by (simp_all add: new_clause_def is_deleted_def is_in_fringe_def is_unsatisfied_def is_volatile_def
      is_destroying_def get_flag_def flag_defs sup_of_def sup_in_range_def Let_def)

text \<open>The state after the constructor and the push on \<open>clauses\<close>, before \<open>add\<close>.\<close>

definition with_new_clause ::
  "nat option \<Rightarrow> prop_id list \<Rightarrow> prop_id list \<Rightarrow> bool \<Rightarrow> 'a ptheory_scheme \<Rightarrow> 'a ptheory_scheme" where
  "with_new_clause dm posP negP vol s =
     (let t = snd (alloc_clause dm posP negP vol s) in t\<lparr>clauses := clauses t @ [next_clause s]\<rparr>)"

lemma create_clause_alt:
  "create_clause add dm posP negP vol inT s =
     (let t = with_new_clause dm posP negP vol s in
      if inT then rbind (add (next_clause s) t) (\<lambda>u. Inr (next_clause s, u)) else Inr (next_clause s, t))"
  by (simp add: create_clause_def with_new_clause_def alloc_clause_def Let_def)

lemma with_new_clause_fields:
  "cheap (with_new_clause dm posP negP vol s) = (cheap s)(next_clause s := new_clause dm posP negP vol)"
  "props (with_new_clause dm posP negP vol s) = props s"
  "clauses (with_new_clause dm posP negP vol s) = clauses s @ [next_clause s]"
  "next_prop (with_new_clause dm posP negP vol s) = next_prop s"
  "next_clause (with_new_clause dm posP negP vol s) = Suc (next_clause s)"
  "time_stamp (with_new_clause dm posP negP vol s) = time_stamp s"
  by (simp_all add: with_new_clause_def alloc_clause_def Let_def)

lemma with_new_clause_ltms:
  "fringe (with_new_clause dm posP negP vol s) = fringe s"
  "volatile_fringe (with_new_clause dm posP negP vol s) = volatile_fringe s"
  "unsatisfied (with_new_clause dm posP negP vol s) = unsatisfied s"
  "undo_list (with_new_clause dm posP negP vol s) = undo_list s"
  by (simp_all add: with_new_clause_def alloc_clause_def Let_def)

lemma with_new_clause_pheap:
  "pheap (with_new_clause dm posP negP vol s) q = (pheap s q)
     \<lparr>positive := positive (pheap s q) @ (if q \<in> set posP then [next_clause s] else []),
      negative := negative (pheap s q) @ (if q \<in> set negP then [next_clause s] else [])\<rparr>"
  by (simp add: with_new_clause_def alloc_clause_def Let_def pheap_fold_upd_prop add_positive_def
      add_negative_def)

lemma lit_tv_with_new_clause [simp]:
  "lit_tv (pheap (with_new_clause dm posP negP vol s)) = lit_tv (pheap s)"
  by (simp add: lit_tv_def fun_eq_iff with_new_clause_pheap)

lemma fringe_ok_quiet_cell:
  assumes "fringe_ok h xs v" "\<not> is_in_fringe (h c)" "\<not> is_in_fringe d"
  shows "fringe_ok (h(c := d)) xs v"
proof -
  have "c \<notin> set xs" using assms by (auto simp: fringe_ok_def)
  then have "xs ! i \<noteq> c" if "i < length xs" for i using that by auto
  then show ?thesis using assms by (auto simp: fringe_ok_def)
qed

lemma with_new_clause_ok:
  assumes ok: "ltms_ok s" and lits: "set posP \<subseteq> set (props s)" "set negP \<subseteq> set (props s)"
    and small: "length (slist_remove_duplicates posP) + length (slist_remove_duplicates negP) < 128"
  shows "ltms_ok (with_new_clause dm posP negP vol s)"
proof -
  let ?t = "with_new_clause dm posP negP vol s" and ?c = "next_clause s"
  let ?d = "new_clause dm posP negP vol"
  note f = with_new_clause_fields [of dm posP negP vol s] with_new_clause_ltms [of dm posP negP vol s]
  note ph = with_new_clause_pheap [of dm posP negP vol s]
  note fl = new_clause_flags [of dm posP negP vol]
  from ok obtain r where sup: "support_ok r {} s" and th: "theory_ok s" and cl: "clauses_ok {} s"
    and bk: "book_ok s" and ts: "stamps_ok s" and ul: "undo_list s = []" by (auto simp: ltms_ok_def)
  have fresh: "?c \<notin> set (clauses s)" using th by (auto simp: theory_ok_def)
  have ne: "c \<noteq> ?c" if "c \<in> set (clauses s)" for c using that fresh by auto
  have quiet: "\<not> is_in_fringe (cheap s ?c)" "\<not> is_unsatisfied (cheap s ?c)"
    using cl fresh by (auto simp: clauses_ok_def)
  have cls: "clause_lits (cheap ?t ?c) = new_lits posP negP" using clause_lits_new [OF small] by (simp add: f)
  have mem: "l \<in> set (new_lits posP negP) \<longleftrightarrow> (if snd l then fst l \<in> set posP else fst l \<in> set negP)" for l
    by (cases l) (auto simp: new_lits_def)
  have "theory_ok ?t"
    unfolding theory_ok_def
  proof (intro conjI ballI allI)
    fix c assume c: "c \<in> set (clauses ?t)"
    then show "c < next_clause ?t" using th by (auto simp: f theory_ok_def less_Suc_eq)
    show "wf_clause (cheap ?t c)"
      using c ne theory_wf [OF th] wf_new_clause [OF small] by (auto simp: f)
    show "fst ` set (clause_lits (cheap ?t c)) \<subseteq> set (props ?t)"
    proof (cases "c = ?c")
      case True
      then show ?thesis using lits mem unfolding True cls f(2) by (auto split: if_splits)
    next
      case False
      then show ?thesis using c theory_lits [OF th] by (auto simp: f)
    qed
  next
    fix q assume q: "q \<in> set (props ?t)"
    then have qs: "q \<in> set (props s)" by (simp add: f)
    then show "q < next_prop ?t" using th by (simp add: f theory_ok_def)
    have old: "distinct (positive (pheap s q))" "distinct (negative (pheap s q))"
      "c \<in> set (positive (pheap s q)) \<longleftrightarrow> c \<in> set (clauses s) \<and> (q, True) \<in> set (clause_lits (cheap s c))"
      "c \<in> set (negative (pheap s q)) \<longleftrightarrow> c \<in> set (clauses s) \<and> (q, False) \<in> set (clause_lits (cheap s c))" for c
      using th qs unfolding theory_ok_def by blast+
    then show "distinct (positive (pheap ?t q))" "distinct (negative (pheap ?t q))"
      using fresh by (auto simp: ph)
    fix c
    show "(c \<in> set (positive (pheap ?t q))) = (c \<in> set (clauses ?t) \<and> (q, True) \<in> set (clause_lits (cheap ?t c)))"
      "(c \<in> set (negative (pheap ?t q))) = (c \<in> set (clauses ?t) \<and> (q, False) \<in> set (clause_lits (cheap ?t c)))"
      using old(3,4) [of c] fresh cls mem by (cases "c = ?c"; simp add: ph f)+
  qed (use th fresh in \<open>auto simp: f theory_ok_def\<close>)
  moreover have "clauses_ok {} ?t"
    using cl ne fl by (auto simp: clauses_ok_def f clause_ok_def)
  moreover have "book_ok ?t"
  proof -
    have "{c. is_unsatisfied (cheap ?t c)} = {c. is_unsatisfied (cheap s c)}" using quiet fl by (auto simp: f)
    then show ?thesis using bk quiet fl by (simp add: book_ok_def f fringe_ok_quiet_cell)
  qed
  moreover have "stamps_ok ?t" using ts fl by (auto simp: stamps_ok_def f)
  moreover have "support_ok r {} ?t"
    unfolding support_ok_def
  proof (intro conjI ballI allI impI)
    fix q assume "q \<in> set (props ?t)"
    then show "(tv (pheap ?t q) = UNKNOWN) = (supported_by (pheap ?t q) = None)"
      using support_okD(1) [OF sup, of q] by (simp add: f ph)
  next
    fix q c assume q: "q \<in> set (props ?t) - {}" and sb: "supported_by (pheap ?t q) = Some c"
    then have "c \<in> set (clauses s)" "sup_of (cheap s c) = Some q"
      using support_okD(3) [OF sup, of q c] by (auto simp: f ph)
    then show "c \<in> set (clauses ?t)" "sup_of (cheap ?t c) = Some q" using ne by (auto simp: f)
  next
    fix c assume "c \<in> set (clauses ?t)"
    then show "sup_in_range (cheap ?t c)" using support_okD(4) [OF sup, of c] fl ne by (auto simp: f)
  next
    fix c q assume "c \<in> set (clauses ?t)" "sup_of (cheap ?t c) = Some q"
    then have c': "c \<in> set (clauses s)" "sup_of (cheap s c) = Some q" and cc: "cheap ?t c = cheap s c"
      using fl(6) by (auto simp: f split: if_splits)
    from support_okD(5) [OF sup c'] obtain b where "\<not> is_deleted (cheap s c)"
      "supported_by (pheap s q) = Some c" "propagated_lit r (pheap s) (cheap s c) q b" by blast
    then show "\<not> is_deleted (cheap ?t c)" "q \<notin> {}" "supported_by (pheap ?t q) = Some c"
      "\<exists>b. propagated_lit r (pheap ?t) (cheap ?t c) q b"
      unfolding cc by (auto simp: ph propagated_lit_def)
  qed simp
  ultimately show ?thesis using ul by (auto simp: ltms_ok_def f)
qed

text \<open>Creating a clause; in the theory at once, or deleted until it is added.\<close>

lemma create_clause_ok:
  assumes ok: "ltms_ok s" and lits: "set posP \<subseteq> set (props s)" "set negP \<subseteq> set (props s)"
    and small: "length (slist_remove_duplicates posP) + length (slist_remove_duplicates negP) < 128"
  shows "returns (ltms_create_clause dm posP negP vol inT s) (\<lambda>(c, t). ltms_ok t \<and> c \<notin> set (clauses s) \<and>
     clauses t = clauses s @ [c] \<and> props t = props s \<and>
     active t = (if inT then insert c (active s) else active s) \<and>
     clause_lits (cheap t c) = new_lits posP negP \<and>
     clause_datum (cheap t c) = dm \<and>
     (\<forall>d \<in> set (clauses s). clause_lits (cheap t d) = clause_lits (cheap s d) \<and>
        clause_datum (cheap t d) = clause_datum (cheap s d)) \<and>
     (\<forall>p. tv (pheap t p) = tv (pheap s p)))"
proof -
  let ?t = "with_new_clause dm posP negP vol s" and ?c = "next_clause s"
  note f = with_new_clause_fields [of dm posP negP vol s]
  have fresh: "?c \<notin> set (clauses s)" using ok by (auto simp: ltms_ok_def theory_ok_def)
  have okt: "ltms_ok ?t" by (rule with_new_clause_ok [OF assms])
  have tvs: "tv (pheap ?t p) = tv (pheap s p)" for p by (simp add: with_new_clause_pheap)
  have act: "active ?t = active s"
    using fresh new_clause_flags(1) by (auto simp: active_def f)
  have lit: "clause_lits (cheap ?t ?c) = new_lits posP negP" using clause_lits_new [OF small] by (simp add: f)
  have old: "clause_lits (cheap ?t d) = clause_lits (cheap s d)"
    "clause_datum (cheap ?t d) = clause_datum (cheap s d)" if "d \<in> set (clauses s)" for d
    using that fresh by (auto simp: f)
  have datum: "clause_datum (cheap ?t ?c) = dm" using new_clause_flags(9) by (simp add: f)
  show ?thesis
  proof (cases inT)
    case False
    then show ?thesis
      using okt fresh act lit old tvs datum by (simp add: ltms_create_clause_def create_clause_alt f)
  next
    case True
    have "returns (ltms_add ?c ?t) (\<lambda>u. ltms_ok u \<and> active u = insert ?c (active ?t) \<and> pheap u = pheap ?t \<and>
       props u = props ?t \<and> clauses u = clauses ?t \<and> same_contents ?t u)"
      by (rule ltms_add_ok [OF okt]) (simp add: f)
    then obtain u where u: "ltms_add ?c ?t = Inr u" "ltms_ok u" "active u = insert ?c (active ?t)"
      "pheap u = pheap ?t" "props u = props ?t" "clauses u = clauses ?t"
      "same_contents ?t u"
      by (auto simp: returns_iff)
    have "ltms_create_clause dm posP negP vol inT s = Inr (?c, u)"
      using True u(1) by (simp add: ltms_create_clause_def create_clause_alt)
    then show ?thesis using True u(2-6) fresh act lit old tvs datum same_contentsD [OF u(7)] by (simp add: f(2,3))
  qed
qed

end
