(* ===== verification/Ltms_Propagate.thy ===== *)
theory Ltms_Propagate
  imports Ltms_Add_Remove
begin

text \<open>
  Propagation: popping a fringe clause, assigning its last unknown literal, and the loop. The loop
  ends within its fuel, raises nothing, keeps the invariant, and stops either with an unsatisfied
  clause or with both fringes empty.
\<close>

subsection \<open>Popping a clause from the fringe\<close>

definition quiet_fringe :: "'a ltms_scheme \<Rightarrow> bool" where
  "quiet_fringe s \<longleftrightarrow> fringe s = [] \<and> volatile_fringe s = []"

lemma get_fringe_clause_ok:
  assumes bk: "book_ok s"
  shows "returns (get_fringe_clause s) (\<lambda>(cl, t). case cl of
     None \<Rightarrow> t = s \<and> quiet_fringe s
   | Some c \<Rightarrow> is_in_fringe (cheap s c) \<and> changes {c} cl_leave_fringe [] s t)"
proof -
  have fo: "fringe_ok (cheap s) (fringe s) False" "fringe_ok (cheap s) (volatile_fringe s) True"
    using bk by (simp_all add: book_ok_def)
  have un: "{d. is_unsatisfied (((cheap s)(c := take_from_fringe (cheap s c))) d)} = {d. is_unsatisfied (cheap s d)}" for c
    by auto
  show ?thesis
  proof (cases "fringe s = []")
    case ne: False
    note pop = fringe_pop_ok [OF fo(1) ne]
    show ?thesis
      using ne pop fo bk un
      by (simp add: get_fringe_clause_def changes_def book_ok_def cl_leave_fringe_def)
  next
    case e: True
    show ?thesis
    proof (cases "volatile_fringe s = []")
      case ne: False
      note pop = fringe_pop_ok [OF fo(2) ne]
      show ?thesis
        using e ne pop fo bk un
        by (simp add: get_fringe_clause_def changes_def book_ok_def cl_leave_fringe_def)
    next
      case True
      with e show ?thesis by (simp add: get_fringe_clause_def quiet_fringe_def)
    qed
  qed
qed

lemma quiet_fringe_iff: "book_ok s \<Longrightarrow> quiet_fringe s \<longleftrightarrow> (\<forall>c. \<not> is_in_fringe (cheap s c))"
  by (auto simp: quiet_fringe_def book_ok_def fringe_ok_def)

lemma unsat_empty_iff: "book_ok s \<Longrightarrow> unsatisfied s = [] \<longleftrightarrow> (\<forall>c. \<not> is_unsatisfied (cheap s c))"
  by (auto simp: book_ok_def)

text \<open>A unit clause: one literal is unknown and all others are false.\<close>

lemma unit_clause:
  assumes ok: "clause_ok (lit_tv ph) False c" and wf: "wf_clause c" and fr: "is_in_fringe c"
  obtains p b where "get_unassigned_literal ph c = Inr (p, b)" "(p, b) \<in> set (clause_lits c)"
    "lit_tv ph (p, b) = UNKNOWN" "\<And>l. l \<in> set (clause_lits c) \<Longrightarrow> l \<noteq> (p, b) \<Longrightarrow> lit_tv ph l = PFALSE"
    "\<not> is_deleted c" "satisfying_prop c = None"
proof -
  have nd: "\<not> is_deleted c" using ok fr by (auto simp: clause_ok_def)
  have one: "unknown_lits (lit_tv ph) c = 1" and none: "satisfying_prop c = None"
    using ok fr nd by (auto simp: clause_ok_def)
  have "card {l \<in> set (clause_lits c). lit_tv ph l = UNKNOWN} = 1"
    using one by (simp add: unknown_lits_card [OF wf])
  then obtain l where l: "{l \<in> set (clause_lits c). lit_tv ph l = UNKNOWN} = {l}" by (auto simp: card_1_singleton_iff)
  have "find (\<lambda>l. lit_tv ph l = UNKNOWN) (clause_lits c) \<noteq> None" unfolding find_None_iff using l by blast
  then obtain k where k: "find (\<lambda>l. lit_tv ph l = UNKNOWN) (clause_lits c) = Some k" by blast
  then have "k \<in> set (clause_lits c)" "lit_tv ph k = UNKNOWN" by (auto simp: find_Some_iff)
  with l have "k = l" by blast
  obtain p b where pb: "k = (p, b)" by (cases k)
  have "lit_tv ph m = PFALSE" if "m \<in> set (clause_lits c)" "m \<noteq> (p, b)" for m
  proof -
    have "lit_tv ph m \<noteq> UNKNOWN" using that l \<open>k = l\<close> pb by auto
    moreover have "lit_tv ph m \<noteq> PTRUE" using ok nd none that by (auto simp: clause_ok_def satisfier_ok_def)
    ultimately show ?thesis by (cases "lit_tv ph m") auto
  qed
  with that [of p b] k pb \<open>k \<in> _\<close> \<open>lit_tv ph k = UNKNOWN\<close> nd none show ?thesis
    by (simp add: get_unassigned_literal_lits)
qed

lemma set_supports_ok:
  assumes wf: "wf_clause c" and p: "(p, b) \<in> set (clause_lits c)"
  obtains i where "set_supports (Some p) c = Inr (c\<lparr>supports := int i\<rparr>)" "int i < num_lits c" "literals c ! i = p"
proof -
  have "\<exists>i \<in> set [0..<nat (num_lits c)]. literals c ! i = p" using p by (auto simp: clause_lits_def)
  then have "find (\<lambda>i. literals c ! i = p) [0..<nat (num_lits c)] \<noteq> None" unfolding find_None_iff by blast
  then obtain i where i: "find (\<lambda>i. literals c ! i = p) [0..<nat (num_lits c)] = Some i" by blast
  then have "i < nat (num_lits c)" "literals c ! i = p" by (auto simp: find_Some_iff)
  moreover from this have "to_length_t (int i) = int i" using wf by (simp add: wf_clause_def)
  ultimately show ?thesis using that [of i] i by (simp add: set_supports_def)
qed

subsection \<open>One round\<close>

definition prop_inv :: "'a ltms_scheme \<Rightarrow> bool" where
  "prop_inv s \<longleftrightarrow> book_ok s \<and> theory_ok s \<and> clauses_ok {} s \<and> (\<exists>r. support_ok r {} s)"

definition base_inv :: "'a ltms_scheme \<Rightarrow> bool" where
  "base_inv s \<longleftrightarrow> book_ok s \<and> theory_ok s \<and> clauses_ok {} s"

lemma prop_inv_base: "prop_inv s \<Longrightarrow> base_inv s"
  by (auto simp: prop_inv_def base_inv_def)

lemma support_ok_assign:
  assumes sup: "support_ok r {} s" and th: "theory_ok s" and c: "c \<in> set (clauses s)" "\<not> is_deleted (cheap s c)"
    and l: "(p, b) \<in> set (clause_lits (cheap s c))" "lit_tv (pheap s) (p, b) = UNKNOWN"
    and others: "\<And>l. l \<in> set (clause_lits (cheap s c)) \<Longrightarrow> l \<noteq> (p, b) \<Longrightarrow> lit_tv (pheap s) l = PFALSE"
    and none: "sup_of (cheap s c) = None"
    and k: "kept s t"
    and pt: "pheap t = (pheap s)(p := q)" "tv q = (if b then PTRUE else PFALSE)" "supported_by q = Some c"
    and st: "sup_of (cheap t c) = Some p" "sup_in_range (cheap t c)"
      "\<And>d. d \<noteq> c \<Longrightarrow> sup_of (cheap t d) = sup_of (cheap s d) \<and> sup_in_range (cheap t d) = sup_in_range (cheap s d)"
  shows "support_ok (r(p := Suc (Max (insert 0 (r ` set (props s)))))) {} t"
proof -
  let ?r = "r(p := Suc (Max (insert 0 (r ` set (props s)))))"
  have unk: "tv (pheap s p) = UNKNOWN" using l(2) by (cases b) (simp_all add: lit_tv_def)
  have pp: "p \<in> set (props s)" using theory_lits [OF th c(1) l(1)] by simp
  have big: "r x < ?r p" if "x \<in> set (props s)" for x
    using that by (simp add: less_Suc_eq_le)
  have npc: "fst l \<noteq> p" if "l \<in> set (clause_lits (cheap s c))" "l \<noteq> (p, b)" for l
    using others [OF that] unk by (auto simp: lit_tv_def split: if_splits)
  have tvt: "lit_tv (pheap t) l = (if fst l = p then (if snd l = b then PTRUE else PFALSE) else lit_tv (pheap s) l)" for l
    using pt by (auto simp: lit_tv_def)
  have plc: "propagated_lit ?r (pheap t) (cheap t c) p b"
    unfolding propagated_lit_def keptD(10) [OF k]
  proof (intro conjI ballI impI)
    fix x assume x: "x \<in> set (clause_lits (cheap s c))" "x \<noteq> (p, b)"
    show "lit_tv (pheap t) x = PFALSE" using npc [OF x] others [OF x] by (simp add: tvt)
    show "?r (fst x) < ?r p" using npc [OF x] big theory_lits [OF th c(1) x(1)] by simp
  qed (use l tvt in auto)
  show ?thesis
    unfolding support_ok_def
  proof (intro conjI ballI allI impI)
    fix x assume "x \<in> set (props t)"
    then show "(tv (pheap t x) = UNKNOWN) = (supported_by (pheap t x) = None)"
      using support_okD(1) [OF sup, of x] keptD(1) [OF k] pt by simp
  next
    fix x d assume x: "x \<in> set (props t) - {}" and sb: "supported_by (pheap t x) = Some d"
    have "d \<in> set (clauses s) \<and> sup_of (cheap t d) = Some x"
    proof (cases "x = p")
      case True
      then show ?thesis using sb pt st c by simp
    next
      case False
      then have "d \<in> set (clauses s) \<and> sup_of (cheap s d) = Some x"
        using support_okD(3) [OF sup, of x d] x sb pt keptD(1) [OF k] by simp
      moreover from this none have "d \<noteq> c" by auto
      ultimately show ?thesis using st by simp
    qed
    then show "d \<in> set (clauses t)" "sup_of (cheap t d) = Some x" using keptD(2) [OF k] by simp_all
  next
    fix d assume "d \<in> set (clauses t)"
    then show "sup_in_range (cheap t d)"
      using st support_okD(4) [OF sup, of d] keptD(2) [OF k] by (cases "d = c") auto
  next
    fix d x assume d: "d \<in> set (clauses t)" "sup_of (cheap t d) = Some x"
    have "\<not> is_deleted (cheap t d) \<and> supported_by (pheap t x) = Some d \<and>
        (\<exists>b. propagated_lit ?r (pheap t) (cheap t d) x b)"
    proof (cases "d = c")
      case True
      then have "x = p" using d st by simp
      then show ?thesis using True plc pt c keptD(12) [OF k] by auto
    next
      case False
      then have d': "d \<in> set (clauses s)" "sup_of (cheap s d) = Some x"
        using d st(3) [OF False] keptD(2) [OF k] by simp_all
      from support_okD(5) [OF sup d'] obtain b' where sd: "\<not> is_deleted (cheap s d)"
        "supported_by (pheap s x) = Some d" and pl: "propagated_lit r (pheap s) (cheap s d) x b'" by blast
      have np: "fst y \<noteq> p" if "y \<in> set (clause_lits (cheap s d))" for y
      proof -
        have "lit_tv (pheap s) y \<noteq> UNKNOWN" using pl that by (cases "y = (x, b')") (auto simp: propagated_lit_def)
        then show ?thesis using unk by (auto simp: lit_tv_def split: if_splits)
      qed
      have "x \<noteq> p" using np pl by (force simp: propagated_lit_def)
      then have "propagated_lit ?r (pheap t) (cheap t d) x b'"
        using pl np unfolding propagated_lit_def keptD(10) [OF k] by (auto simp: tvt)
      then show ?thesis using sd \<open>x \<noteq> p\<close> pt keptD(12) [OF k] by auto
    qed
    then show "\<not> is_deleted (cheap t d)" "x \<notin> {}" "supported_by (pheap t x) = Some d"
      "\<exists>b. propagated_lit ?r (pheap t) (cheap t d) x b" by simp_all
  qed simp
qed

lemma kept_static: "kept s t \<Longrightarrow> static_eq (cheap t c) (cheap s c)"
  by (simp add: kept_def)

lemma get_unassigned_literal_cong:
  "clause_lits c = clause_lits d \<Longrightarrow> get_unassigned_literal ph c = get_unassigned_literal ph d"
  by (simp add: get_unassigned_literal_lits)

lemma pop_unit:
  assumes bk: "book_ok s" and th: "theory_ok s" and cl: "clauses_ok {} s"
    and fr: "is_in_fringe (cheap s c)" and ch: "changes {c} cl_leave_fringe [] s s1"
  obtains p b where "c \<in> set (clauses s)" "get_unassigned_literal (pheap s1) (cheap s1 c) = Inr (p, b)"
    "(p, b) \<in> set (clause_lits (cheap s c))" "lit_tv (pheap s) (p, b) = UNKNOWN"
    "\<And>l. l \<in> set (clause_lits (cheap s c)) \<Longrightarrow> l \<noteq> (p, b) \<Longrightarrow> lit_tv (pheap s) l = PFALSE"
    "\<not> is_deleted (cheap s c)" "p \<in> set (props s)" "tv (pheap s p) = UNKNOWN"
    "book_ok s1" "theory_ok s1" "clauses_ok {c} s1" "kept s s1" "pheap s1 = pheap s"
    "\<And>d. supports (cheap s1 d) = supports (cheap s d)" "undo_list s1 = undo_list s"
proof -
  have c: "c \<in> set (clauses s)" using cl fr by (auto simp: clauses_ok_def)
  have cok: "clause_ok (lit_tv (pheap s)) False (cheap s c)" using cl c by (simp add: clauses_ok_def)
  have k: "kept s s1"
    by (rule changes_kept [OF ch]) (simp add: cl_leave_fringe_def static_eq_def)
  from unit_clause [OF cok theory_wf [OF th c] fr] obtain p b where
    pb: "get_unassigned_literal (pheap s) (cheap s c) = Inr (p, b)" "(p, b) \<in> set (clause_lits (cheap s c))"
    "lit_tv (pheap s) (p, b) = UNKNOWN"
    "\<And>l. l \<in> set (clause_lits (cheap s c)) \<Longrightarrow> l \<noteq> (p, b) \<Longrightarrow> lit_tv (pheap s) l = PFALSE"
    "\<not> is_deleted (cheap s c)" and none: "satisfying_prop (cheap s c) = None" by metis
  have ph: "pheap s1 = pheap s" using ch by (simp add: changes_def)
  have nc: "norm_clause (cheap s1 d) = norm_clause (if d = c then cl_leave_fringe (cheap s d) else cheap s d)" for d
    using ch by (simp add: changes_def)
  have supp: "supports (cheap s1 d) = supports (cheap s d)" for d
    using norm_clause_fields(4) [OF nc [of d]] by (simp add: cl_leave_fringe_def split: if_splits)
  have "clause_ok (lit_tv (pheap s)) True (cl_leave_fringe (cheap s c))"
    using cok fr pb(5) none by (simp add: clause_ok_def cl_leave_fringe_def unknown_lits_def satisfier_ok_def)
  then have "clause_ok (lit_tv (pheap s1)) (d \<in> {c}) (cheap s1 d)" if "d \<in> set (clauses s)" for d
    using cl that clause_ok_norm [OF nc [of d]] by (cases "d = c") (simp_all add: ph clauses_ok_def)
  moreover have "\<not> is_in_fringe (cheap s1 d) \<and> \<not> is_unsatisfied (cheap s1 d)" if "d \<notin> set (clauses s)" for d
    using cl that c norm_clause_flags(1,3) [OF nc [of d]] by (cases "d = c") (simp_all add: clauses_ok_def)
  ultimately have cl1: "clauses_ok {c} s1" using keptD(2) [OF k] by (simp add: clauses_ok_def)
  have "get_unassigned_literal (pheap s1) (cheap s1 c) = Inr (p, b)"
    using pb(1) get_unassigned_literal_cong [OF keptD(10) [OF k]] ph by simp
  moreover have "tv (pheap s p) = UNKNOWN" using pb(3) by (cases b) (simp_all add: lit_tv_def)
  moreover have "p \<in> set (props s)" using theory_lits [OF th c pb(2)] by simp
  moreover have "undo_list s1 = undo_list s" using ch by (simp add: changes_def)
  ultimately show ?thesis
    using that [of p b] c pb changes_book [OF ch] kept_theory [OF k] th cl1 k ph supp by blast
qed

lemma propagate_round:
  assumes inv: "prop_inv s" and fr: "is_in_fringe (cheap s c)"
    and ch: "changes {c} cl_leave_fringe [] s s1"
  shows "\<exists>p b s2 t. get_unassigned_literal (pheap s1) (cheap s1 c) = Inr (p, b) \<and> assign p b c s1 = Inr s2 \<and>
     upd_clause_res c (set_supports (Some p)) s2 = Inr t \<and> prop_inv t \<and> kept s t \<and>
     undo_list t = undo_list s \<and> p \<notin> assigned s \<and> p \<in> set (props s) \<and>
     assigned t = insert p (assigned s) \<and> (\<forall>q \<in> assigned s. pheap t q = pheap s q)"
proof -
  from inv obtain r where bk: "book_ok s" and th: "theory_ok s" and cl: "clauses_ok {} s"
    and sup: "support_ok r {} s" by (auto simp: prop_inv_def)
  obtain p b where c: "c \<in> set (clauses s)"
    and gl: "get_unassigned_literal (pheap s1) (cheap s1 c) = Inr (p, b)"
    and l: "(p, b) \<in> set (clause_lits (cheap s c))" "lit_tv (pheap s) (p, b) = UNKNOWN"
    and others: "\<And>l. l \<in> set (clause_lits (cheap s c)) \<Longrightarrow> l \<noteq> (p, b) \<Longrightarrow> lit_tv (pheap s) l = PFALSE"
    and nd: "\<not> is_deleted (cheap s c)" and pp: "p \<in> set (props s)" "tv (pheap s p) = UNKNOWN"
    and s1: "book_ok s1" "theory_ok s1" "clauses_ok {c} s1" and k1: "kept s s1" and ph1: "pheap s1 = pheap s"
    and supp1: "\<And>d. supports (cheap s1 d) = supports (cheap s d)" and ul1: "undo_list s1 = undo_list s"
    by (rule pop_unit [OF bk th cl fr ch], rule that, assumption+)
  let ?q = "(pheap s p)\<lparr>tv := (if b then PTRUE else PFALSE), supported_by := Some c\<rparr>"
  have "returns (assign p b c s1) (\<lambda>t. book_ok t \<and> clauses_ok {} t \<and> kept s1 t \<and>
     pheap t = (pheap s1)(p := (pheap s1 p)\<lparr>tv := (if b then PTRUE else PFALSE), supported_by := Some c\<rparr>) \<and>
     undo_list t = undo_list s1 \<and> (\<forall>d. supports (cheap t d) = supports (cheap s1 d)))"
    by (rule assign_ok [OF s1]) (use pp l keptD(1,10) [OF k1] ph1 in auto)
  then obtain s2 where s2: "assign p b c s1 = Inr s2" "book_ok s2" "clauses_ok {} s2" "kept s1 s2"
    "pheap s2 = (pheap s)(p := ?q)" "undo_list s2 = undo_list s1"
    "\<And>d. supports (cheap s2 d) = supports (cheap s1 d)"
    by (auto simp: returns_iff ph1)
  have k2: "kept s s2" using k1 s2(4) by (rule kept_trans)
  have wf2: "wf_clause (cheap s2 c)" using theory_wf [OF th c] keptD(11) [OF k2] by simp
  have "(p, b) \<in> set (clause_lits (cheap s2 c))" using l keptD(10) [OF k2] by simp
  from set_supports_ok [OF wf2 this] obtain i where
    i: "set_supports (Some p) (cheap s2 c) = Inr ((cheap s2 c)\<lparr>supports := int i\<rparr>)"
    "int i < num_lits (cheap s2 c)" "literals (cheap s2 c) ! i = p" by blast
  let ?t = "upd_clause c (\<lambda>_. (cheap s2 c)\<lparr>supports := int i\<rparr>) s2"
  have t: "upd_clause_res c (set_supports (Some p)) s2 = Inr ?t" using i by (simp add: upd_clause_res_def)
  have kt: "kept s2 ?t" by (auto simp: kept_def static_eq_def upd_clause_def)
  have k: "kept s ?t" using k2 kt by (rule kept_trans)
  have bkt: "book_ok ?t" by (rule book_ok_upd_clause [OF s2(2)]) simp_all
  have "clause_ok v False ((cheap s2 c)\<lparr>supports := int i\<rparr>) = clause_ok v False (cheap s2 c)" for v
    by (simp add: clause_ok_def unknown_lits_def satisfier_ok_def split: option.split)
  then have clt: "clauses_ok {} ?t" using s2(3) by (auto simp: clauses_ok_def)
  have none: "sup_of (cheap s c) = None"
    using supporting_quiet(1) [OF cl sup c] fr by (cases "sup_of (cheap s c)") auto
  have "support_ok (r(p := Suc (Max (insert 0 (r ` set (props s)))))) {} ?t"
  proof (rule support_ok_assign [OF sup th c nd l others none k])
    show "pheap ?t = (pheap s)(p := ?q)" using s2(5) by simp
    show "sup_of (cheap ?t c) = Some p" "sup_in_range (cheap ?t c)"
      using i by (simp_all add: sup_of_def sup_in_range_def NO_PROPOSITION_def)
    fix d assume "d \<noteq> c"
    have "static_eq (cheap s2 d) (cheap s d)" using k2 by (rule kept_static)
    then show "sup_of (cheap ?t d) = sup_of (cheap s d) \<and> sup_in_range (cheap ?t d) = sup_in_range (cheap s d)"
      using \<open>d \<noteq> c\<close> s2(7) supp1 by (simp add: sup_of_def sup_in_range_def static_eq_def)
  qed simp_all
  then have "prop_inv ?t" using bkt clt kept_theory [OF k] th by (auto simp: prop_inv_def)
  moreover have "assigned ?t = insert p (assigned s)"
    using keptD(1) [OF k] pp s2(5) by (auto simp: assigned_def)
  moreover have "p \<notin> assigned s" "\<forall>q \<in> assigned s. pheap ?t q = pheap s q"
    using pp s2(5) by (auto simp: assigned_def)
  moreover have "undo_list ?t = undo_list s" using s2(6) ul1 by simp
  ultimately show ?thesis using gl s2(1) t k pp by blast
qed

subsection \<open>The loop\<close>

lemma card_unassigned:
  "p \<notin> assigned s \<Longrightarrow> p \<in> set (props s) \<Longrightarrow> assigned t = insert p (assigned s) \<Longrightarrow> props t = props s \<Longrightarrow>
   card (set (props t) - assigned t) < card (set (props s) - assigned s)"
  by (rule psubset_card_mono) auto

lemma propagate_loop_ok:
  assumes "prop_inv s" "card (set (props s) - assigned s) < n"
  shows "returns (propagate_loop n s) (\<lambda>(b, t). prop_inv t \<and> kept s t \<and> undo_list t = undo_list s \<and>
     (b \<longleftrightarrow> unsatisfied t = []) \<and> (b \<longrightarrow> quiet_fringe t) \<and> (\<forall>q \<in> assigned s. pheap t q = pheap s q))"
  using assms
proof (induction n arbitrary: s)
  case 0
  then show ?case by simp
next
  case (Suc n)
  show ?case
  proof (cases "unsatisfied s = []")
    case False
    then show ?thesis using Suc.prems by simp
  next
    case True
    have bk: "book_ok s" using Suc.prems(1) by (simp add: prop_inv_def)
    from get_fringe_clause_ok [OF bk] obtain cl s1 where gf: "get_fringe_clause s = Inr (cl, s1)"
      and post: "case cl of None \<Rightarrow> s1 = s \<and> quiet_fringe s
        | Some c \<Rightarrow> is_in_fringe (cheap s c) \<and> changes {c} cl_leave_fringe [] s s1"
      by (auto simp: returns_iff)
    show ?thesis
    proof (cases cl)
      case None
      then show ?thesis using True gf post Suc.prems by simp
    next
      case (Some c)
      with post propagate_round [OF Suc.prems(1), of c s1] obtain p b s2 t where
        r: "get_unassigned_literal (pheap s1) (cheap s1 c) = Inr (p, b)" "assign p b c s1 = Inr s2"
        "upd_clause_res c (set_supports (Some p)) s2 = Inr t" "prop_inv t" and k: "kept s t"
        and ul: "undo_list t = undo_list s" and p: "p \<notin> assigned s" "p \<in> set (props s)"
        and as: "assigned t = insert p (assigned s)" and same: "\<forall>q \<in> assigned s. pheap t q = pheap s q"
        by auto
      have "card (set (props t) - assigned t) < n"
        using card_unassigned [OF p as keptD(1) [OF k]] Suc.prems(2) by simp
      from Suc.IH [OF r(4) this] have
        "returns (propagate_loop n t) (\<lambda>(b, u). prop_inv u \<and> kept t u \<and> undo_list u = undo_list t \<and>
          (b \<longleftrightarrow> unsatisfied u = []) \<and> (b \<longrightarrow> quiet_fringe u) \<and> (\<forall>q \<in> assigned t. pheap u q = pheap t q))" .
      then have "returns (propagate_loop n t) (\<lambda>(b, u). prop_inv u \<and> kept s u \<and> undo_list u = undo_list s \<and>
          (b \<longleftrightarrow> unsatisfied u = []) \<and> (b \<longrightarrow> quiet_fringe u) \<and> (\<forall>q \<in> assigned s. pheap u q = pheap s q))"
        by (rule returns_mono) (use k ul as same kept_trans in auto)
      then show ?thesis using True gf Some r by simp
    qed
  qed
qed

text \<open>\<open>propagate\<close> in a state of the public interface.\<close>

lemma propagate_ok:
  assumes "ltms_ok s"
  shows "returns (propagate s) (\<lambda>(b, t). ltms_ok t \<and> kept s t \<and> (b \<longleftrightarrow> unsatisfied t = []) \<and>
     (b \<longrightarrow> quiet_fringe t) \<and> (\<forall>q \<in> assigned s. pheap t q = pheap s q))"
proof -
  have inv: "prop_inv s" and ul: "undo_list s = []" and ts: "stamps_ok s"
    using assms by (auto simp: ltms_ok_def prop_inv_def)
  have "card (set (props s) - assigned s) \<le> card (set (props s))" by (rule card_mono) auto
  also have "\<dots> \<le> length (props s)" by (rule card_length)
  finally have "card (set (props s) - assigned s) < Suc (length (props s))" by simp
  from propagate_loop_ok [OF inv this] show ?thesis
    unfolding propagate_def
    by (rule returns_mono) (use ul ts in \<open>auto simp: prop_inv_def ltms_ok_def kept_stamps\<close>)
qed

end
