(* ===== verification/Unit_Propagation.thy ===== *)
theory Unit_Propagation
  imports Ltms_Propagate
begin

text \<open>
  The abstract specification of propagation: unit propagation on a set of clauses, without order,
  counters, fringe or support. The truth values the LTMS holds are derivable from the clauses that
  are in the theory, and \<open>propagate\<close> computes exactly the derivable literals, whatever sequence of
  additions, removals and earlier propagations led to the state.
\<close>

type_synonym cnf = "lit set set"

definition neg_lit :: "lit \<Rightarrow> lit" where
  "neg_lit l = (fst l, \<not> snd l)"

definition holds :: "(prop_id \<Rightarrow> bool) \<Rightarrow> lit \<Rightarrow> bool" where
  "holds m l \<longleftrightarrow> m (fst l) = snd l"

definition models :: "(prop_id \<Rightarrow> bool) \<Rightarrow> cnf \<Rightarrow> bool" where
  "models m F \<longleftrightarrow> (\<forall>C \<in> F. \<exists>l \<in> C. holds m l)"

inductive up :: "cnf \<Rightarrow> lit \<Rightarrow> bool" for F where
  unit: "C \<in> F \<Longrightarrow> l \<in> C \<Longrightarrow> \<forall>k \<in> C. k \<noteq> l \<longrightarrow> up F (neg_lit k) \<Longrightarrow> up F l"

definition up_conflict :: "cnf \<Rightarrow> bool" where
  "up_conflict F \<longleftrightarrow> (\<exists>C \<in> F. \<forall>k \<in> C. up F (neg_lit k))"

definition formula :: "'a ptheory_scheme \<Rightarrow> cnf" where
  "formula s = (\<lambda>c. set (clause_lits (cheap s c))) ` active s"

lemma neg_lit_simps [simp]:
  "fst (neg_lit l) = fst l" "snd (neg_lit l) = (\<not> snd l)" "neg_lit (neg_lit l) = l"
  by (simp_all add: neg_lit_def)

lemma lit_tv_neg [simp]: "lit_tv ph (neg_lit l) = negate_tv (lit_tv ph l)"
  by (cases l; cases "snd l"; cases "tv (ph (fst l))") (simp_all add: lit_tv_def)

lemma holds_neg [simp]: "holds m (neg_lit l) \<longleftrightarrow> \<not> holds m l"
  by (auto simp: holds_def)

text \<open>Unit propagation is sound for every model.\<close>

lemma up_holds: "up F l \<Longrightarrow> models m F \<Longrightarrow> holds m l"
proof (induction rule: up.induct)
  case (unit C l)
  then obtain k where "k \<in> C" "holds m k" by (auto simp: models_def)
  with unit show ?case by (cases "k = l") auto
qed

lemma up_conflict_unsat: "up_conflict F \<Longrightarrow> \<not> models m F"
  unfolding up_conflict_def
proof
  assume "\<exists>C\<in>F. \<forall>k\<in>C. up F (neg_lit k)" and m: "models m F"
  then obtain C where C: "C \<in> F" "\<forall>k\<in>C. up F (neg_lit k)" by blast
  obtain k where "k \<in> C" "holds m k" using C(1) m by (auto simp: models_def)
  with up_holds [OF C(2) [rule_format, of k] m] show False by simp
qed

lemma up_mono:
  assumes "F \<subseteq> G"
  shows "up F l \<Longrightarrow> up G l"
proof (induction rule: up.induct)
  case (unit C l)
  with assms show ?case by (intro up.unit [of C]) auto
qed

lemma up_conflict_mono: "F \<subseteq> G \<Longrightarrow> up_conflict F \<Longrightarrow> up_conflict G"
  unfolding up_conflict_def using up_mono by (meson subsetD)

lemma formula_kept: "kept s t \<Longrightarrow> formula t = formula s"
  unfolding formula_def active_def by (simp only: keptD)

text \<open>Every value the LTMS holds is derivable: along the support structure, by its rank.\<close>

lemma value_derivable:
  assumes sup: "support_ok r {} s" and th: "theory_ok s"
  shows "fst l \<in> set (props s) \<Longrightarrow> lit_tv (pheap s) l = PTRUE \<Longrightarrow> up (formula s) l"
proof (induction "r (fst l)" arbitrary: l rule: less_induct)
  case less
  obtain p b where l: "l = (p, b)" by (cases l)
  have p: "p \<in> set (props s)" and tvp: "tv (pheap s p) \<noteq> UNKNOWN"
    using less.prems by (auto simp: l lit_tv_def split: if_splits)
  then obtain c where "supported_by (pheap s p) = Some c"
    using support_okD(1) [OF sup p] by auto
  then have c: "c \<in> set (clauses s)" "sup_of (cheap s c) = Some p"
    using support_okD(3) [OF sup p] by auto
  from support_okD(5) [OF sup c] obtain b' where nd: "\<not> is_deleted (cheap s c)"
    and pl: "propagated_lit r (pheap s) (cheap s c) p b'" by blast
  have "b' = b"
    using pl less.prems(2) by (auto simp: propagated_lit_def lit_tv_def l split: if_splits)
  have "up (formula s) (neg_lit k)" if k: "k \<in> set (clause_lits (cheap s c))" "k \<noteq> (p, b)" for k
  proof (rule less.hyps)
    show "r (fst (neg_lit k)) < r (fst l)" using pl k \<open>b' = b\<close> by (simp add: propagated_lit_def l)
    show "fst (neg_lit k) \<in> set (props s)" using theory_lits [OF th c(1) k(1)] by simp
    show "lit_tv (pheap s) (neg_lit k) = PTRUE" using pl k \<open>b' = b\<close> by (simp add: propagated_lit_def)
  qed
  moreover have "(p, b) \<in> set (clause_lits (cheap s c))" using pl \<open>b' = b\<close> by (simp add: propagated_lit_def)
  moreover have "set (clause_lits (cheap s c)) \<in> formula s" using c nd by (auto simp: formula_def active_def)
  ultimately show ?case unfolding l by (intro up.unit) auto
qed

text \<open>At a fixpoint every derivable literal has been assigned.\<close>

lemma quiet_clause:
  assumes "clauses_ok {} s" "book_ok s" "unsatisfied s = []" "quiet_fringe s" "c \<in> active s"
  shows "(\<exists>l \<in> set (clause_lits (cheap s c)). lit_tv (pheap s) l = PTRUE) \<or>
     unknown_lits (lit_tv (pheap s)) (cheap s c) \<ge> 2"
proof -
  have ok: "clause_ok (lit_tv (pheap s)) False (cheap s c)" and nd: "\<not> is_deleted (cheap s c)"
    using assms(1,5) by (auto simp: clauses_ok_def active_def)
  have "\<not> is_in_fringe (cheap s c)" "\<not> is_unsatisfied (cheap s c)"
    using assms(2-4) by (simp_all add: quiet_fringe_iff unsat_empty_iff)
  then have n: "satisfying_prop (cheap s c) = None \<Longrightarrow>
      unknown_lits (lit_tv (pheap s)) (cheap s c) \<noteq> 0 \<and> unknown_lits (lit_tv (pheap s)) (cheap s c) \<noteq> 1"
    using ok nd by (auto simp: clause_ok_def)
  show ?thesis
  proof (cases "satisfying_prop (cheap s c)")
    case None
    with n show ?thesis by linarith
  next
    case (Some q)
    then show ?thesis using ok nd by (auto simp: clause_ok_def satisfier_ok_def)
  qed
qed

lemma fixpoint_complete:
  assumes inv: "base_inv s" "unsatisfied s = []" "quiet_fringe s"
  shows "up (formula s) l \<Longrightarrow> lit_tv (pheap s) l = PTRUE"
proof (induction rule: up.induct)
  case (unit C l)
  then obtain c where c: "c \<in> active s" "C = set (clause_lits (cheap s c))" by (auto simp: formula_def)
  have wf: "wf_clause (cheap s c)"
    using inv(1) c(1) theory_wf [of s c] by (auto simp: base_inv_def active_def)
  have others: "lit_tv (pheap s) k = PFALSE" if "k \<in> C" "k \<noteq> l" for k
    using unit.IH that by auto
  have "{k \<in> set (clause_lits (cheap s c)). lit_tv (pheap s) k = UNKNOWN} \<subseteq> {l}"
    using others c(2) by fastforce
  then have "unknown_lits (lit_tv (pheap s)) (cheap s c) \<le> 1"
    unfolding unknown_lits_card [OF wf] using card_mono [of "{l}"] by fastforce
  with quiet_clause [OF _ _ inv(2,3) c(1)] inv(1) obtain k where "k \<in> C" "lit_tv (pheap s) k = PTRUE"
    by (auto simp: base_inv_def c(2))
  with others [of k] show ?case by (cases "k = l") auto
qed

lemma fixpoint_no_conflict:
  assumes inv: "base_inv s" "unsatisfied s = []" "quiet_fringe s"
  shows "\<not> up_conflict (formula s)"
proof
  assume "up_conflict (formula s)"
  then obtain C where C: "C \<in> formula s" "\<forall>k \<in> C. up (formula s) (neg_lit k)"
    by (auto simp: up_conflict_def)
  then obtain c where c: "c \<in> active s" "C = set (clause_lits (cheap s c))" by (auto simp: formula_def)
  have wf: "wf_clause (cheap s c)"
    using inv(1) c(1) theory_wf [of s c] by (auto simp: base_inv_def active_def)
  have false: "lit_tv (pheap s) k = PFALSE" if "k \<in> C" for k
    using fixpoint_complete [OF inv, of "neg_lit k"] C(2) that by simp
  then have "{k \<in> set (clause_lits (cheap s c)). lit_tv (pheap s) k = UNKNOWN} = {}"
    using c(2) by fastforce
  then have "unknown_lits (lit_tv (pheap s)) (cheap s c) = 0"
    unfolding unknown_lits_card [OF wf] by simp
  with quiet_clause [OF _ _ inv(2,3) c(1)] inv(1) false c(2) show False
    by (force simp: base_inv_def)
qed

definition values_derivable :: "'a ptheory_scheme \<Rightarrow> bool" where
  "values_derivable s \<longleftrightarrow>
     (\<forall>l. fst l \<in> set (props s) \<longrightarrow> lit_tv (pheap s) l = PTRUE \<longrightarrow> up (formula s) l)"

lemma unsat_conflict:
  assumes inv: "base_inv s" "values_derivable s" and un: "unsatisfied s \<noteq> []"
  shows "up_conflict (formula s)"
proof -
  from inv have bk: "book_ok s" and th: "theory_ok s" and cl: "clauses_ok {} s"
    by (auto simp: base_inv_def)
  obtain c where u: "is_unsatisfied (cheap s c)" using un unsat_empty_iff [OF bk] by auto
  then have c: "c \<in> set (clauses s)" using cl by (auto simp: clauses_ok_def)
  then have ok: "clause_ok (lit_tv (pheap s)) False (cheap s c)" using cl by (simp add: clauses_ok_def)
  then have nd: "\<not> is_deleted (cheap s c)" using u by (auto simp: clause_ok_def)
  have wf: "wf_clause (cheap s c)" using theory_wf [OF th c] .
  have "unknown_lits (lit_tv (pheap s)) (cheap s c) = 0" and none: "satisfying_prop (cheap s c) = None"
    using ok u nd by (auto simp: clause_ok_def)
  then have "{k \<in> set (clause_lits (cheap s c)). lit_tv (pheap s) k = UNKNOWN} = {}"
    by (simp add: unknown_lits_card [OF wf])
  moreover have "lit_tv (pheap s) k \<noteq> PTRUE" if "k \<in> set (clause_lits (cheap s c))" for k
    using ok nd none that by (auto simp: clause_ok_def satisfier_ok_def)
  ultimately have "lit_tv (pheap s) k = PFALSE" if "k \<in> set (clause_lits (cheap s c))" for k
    using that by (cases "lit_tv (pheap s) k") blast+
  then have "up (formula s) (neg_lit k)" if "k \<in> set (clause_lits (cheap s c))" for k
    using inv(2) [unfolded values_derivable_def, rule_format, of "neg_lit k"] theory_lits [OF th c that] that
    by simp
  moreover have "set (clause_lits (cheap s c)) \<in> formula s" using c nd by (auto simp: formula_def active_def)
  ultimately show ?thesis unfolding up_conflict_def by blast
qed

text \<open>The specification of \<open>propagate\<close>.\<close>

lemma propagate_computes_up:
  assumes "ltms_ok s"
  shows "returns (propagate s) (\<lambda>(b, t). ltms_ok t \<and> formula t = formula s \<and>
     (b \<longleftrightarrow> \<not> up_conflict (formula s)) \<and>
     (\<forall>l. fst l \<in> set (props s) \<longrightarrow> lit_tv (pheap t) l = PTRUE \<longrightarrow> up (formula s) l) \<and>
     (b \<longrightarrow> (\<forall>l. up (formula s) l \<longrightarrow> lit_tv (pheap t) l = PTRUE)))"
  using propagate_ok [OF assms]
proof (rule returns_mono)
  fix x
  assume x: "case x of (b, t) \<Rightarrow> ltms_ok t \<and> kept s t \<and> (b \<longleftrightarrow> unsatisfied t = []) \<and>
     (b \<longrightarrow> quiet_fringe t) \<and> (\<forall>q \<in> assigned s. pheap t q = pheap s q)"
  obtain b t where bt: "x = (b, t)" by (cases x)
  from x bt have t: "ltms_ok t" "kept s t" "b \<longleftrightarrow> unsatisfied t = []" "b \<longrightarrow> quiet_fringe t" by auto
  then obtain r where inv: "base_inv t" and sup: "support_ok r {} t" "theory_ok t"
    by (auto simp: ltms_ok_def base_inv_def)
  have vd: "values_derivable t" using value_derivable [OF sup] by (simp add: values_derivable_def)
  have "b \<longleftrightarrow> \<not> up_conflict (formula s)"
    using fixpoint_no_conflict [OF inv] unsat_conflict [OF inv vd] t formula_kept [OF t(2)] by auto
  moreover have "lit_tv (pheap t) l = PTRUE" if "b" "up (formula s) l" for l
    using fixpoint_complete [OF inv] that t formula_kept [OF t(2)] by auto
  moreover have "up (formula s) l" if "fst l \<in> set (props s)" "lit_tv (pheap t) l = PTRUE" for l
    using value_derivable [OF sup] that formula_kept [OF t(2)] keptD(1) [OF t(2)] by auto
  ultimately show "case x of (b, t) \<Rightarrow> ltms_ok t \<and> formula t = formula s \<and>
     (b \<longleftrightarrow> \<not> up_conflict (formula s)) \<and>
     (\<forall>l. fst l \<in> set (props s) \<longrightarrow> lit_tv (pheap t) l = PTRUE \<longrightarrow> up (formula s) l) \<and>
     (b \<longrightarrow> (\<forall>l. up (formula s) l \<longrightarrow> lit_tv (pheap t) l = PTRUE))"
    using t bt formula_kept [OF t(2)] by simp
qed

end
