(* ===== verification/Ltms_Conflict.thy ===== *)
theory Ltms_Conflict
  imports Unit_Propagation
begin

text \<open>
  Conflict extraction: \<open>get_clause_support\<close> visits every clause at most once, by its time stamps, so
  it ends within its fuel; the clauses that \<open>last_conflict\<close> returns, with the clauses of the theory
  that do not satisfy the predicate, have no model.
\<close>

subsection \<open>Time stamps\<close>

definition stamps_only :: "'a ltms_scheme \<Rightarrow> 'a ltms_scheme \<Rightarrow> bool" where
  "stamps_only s t \<longleftrightarrow> pheap t = pheap s \<and> props t = props s \<and> clauses t = clauses s \<and>
     next_prop t = next_prop s \<and> next_clause t = next_clause s \<and> fringe t = fringe s \<and>
     volatile_fringe t = volatile_fringe s \<and> unsatisfied t = unsatisfied s \<and> undo_list t = undo_list s \<and>
     ltms.more t = ltms.more s \<and>
     (\<forall>c. cheap t c = (cheap s c)\<lparr>c_time_stamp := c_time_stamp (cheap t c)\<rparr>)"

lemma stamps_only_refl [simp]: "stamps_only s s"
  by (simp add: stamps_only_def)

lemma stamps_onlyD:
  assumes "stamps_only s t"
  shows "pheap t = pheap s" "props t = props s" "clauses t = clauses s" "unsatisfied t = unsatisfied s"
    "is_deleted (cheap t c) = is_deleted (cheap s c)" "clause_lits (cheap t c) = clause_lits (cheap s c)"
    "sup_of (cheap t c) = sup_of (cheap s c)" "sup_in_range (cheap t c) = sup_in_range (cheap s c)"
    "wf_clause (cheap t c) = wf_clause (cheap s c)"
    "is_in_fringe (cheap t c) = is_in_fringe (cheap s c)"
    "is_unsatisfied (cheap t c) = is_unsatisfied (cheap s c)" "is_volatile (cheap t c) = is_volatile (cheap s c)"
    "num_unassigned (cheap t c) = num_unassigned (cheap s c)"
    "satisfying_prop (cheap t c) = satisfying_prop (cheap s c)"
    "fringe_index (cheap t c) = fringe_index (cheap s c)"
proof -
  have c: "cheap t c = (cheap s c)\<lparr>c_time_stamp := c_time_stamp (cheap t c)\<rparr>"
    using assms by (simp add: stamps_only_def)
  show "pheap t = pheap s" "props t = props s" "clauses t = clauses s" "unsatisfied t = unsatisfied s"
    using assms by (simp_all add: stamps_only_def)
  show "is_deleted (cheap t c) = is_deleted (cheap s c)" "clause_lits (cheap t c) = clause_lits (cheap s c)"
    "sup_of (cheap t c) = sup_of (cheap s c)" "sup_in_range (cheap t c) = sup_in_range (cheap s c)"
    "wf_clause (cheap t c) = wf_clause (cheap s c)"
    "is_in_fringe (cheap t c) = is_in_fringe (cheap s c)"
    "is_unsatisfied (cheap t c) = is_unsatisfied (cheap s c)" "is_volatile (cheap t c) = is_volatile (cheap s c)"
    "num_unassigned (cheap t c) = num_unassigned (cheap s c)"
    "satisfying_prop (cheap t c) = satisfying_prop (cheap s c)"
    "fringe_index (cheap t c) = fringe_index (cheap s c)"
    by (subst c, simp add: sup_of_def sup_in_range_def)+
qed

lemma stamps_only_trans: "stamps_only s t \<Longrightarrow> stamps_only t u \<Longrightarrow> stamps_only s u"
  unfolding stamps_only_def by (metis clause.update_convs(7) clause.surjective clause.ext_inject)

lemma stamps_only_ok:
  assumes so: "stamps_only s t" and ok: "ltms_ok s" and ts: "stamps_ok t"
  shows "ltms_ok t"
proof -
  note d = stamps_onlyD [OF so]
  have 1: "theory_ok t = theory_ok s"
    by (rule theory_ok_cong) (use so d in \<open>simp_all add: stamps_only_def\<close>)
  have 2: "clause_ok v e (cheap t c) = clause_ok v e (cheap s c)" for v e c
    by (simp add: clause_ok_def unknown_lits_def satisfier_ok_def d split: option.split)
  have "fringe_ok (cheap t) xs v = fringe_ok (cheap s) xs v" for xs v by (simp add: fringe_ok_def d)
  then have 3: "book_ok t = book_ok s" using so d by (simp add: book_ok_def stamps_only_def)
  have 4: "support_ok r P t = support_ok r P s" for r P
    by (simp add: support_ok_def propagated_lit_def d)
  show ?thesis using ok ts 1 2 3 4 so d by (simp add: ltms_ok_def clauses_ok_def stamps_only_def)
qed

lemma initialize_time_stamps_only:
  "stamps_only s (initialize_time_stamps s)" "time_stamp (initialize_time_stamps s) = 0"
  "c \<in> set (clauses s) \<Longrightarrow> c_time_stamp (cheap (initialize_time_stamps s) c) = 0"
proof -
  have "cheap (initialize_time_stamps s) d = (if d \<in> set (clauses s) then (cheap s d)\<lparr>c_time_stamp := 0\<rparr> else cheap s d)" for d
    by (simp add: initialize_time_stamps_def cheap_fold_upd_clause_idem)
  moreover have "ltms.more (fold (\<lambda>c. upd_clause c f) cs s) = ltms.more s"
    "fringe (fold (\<lambda>c. upd_clause c f) cs s) = fringe s"
    "volatile_fringe (fold (\<lambda>c. upd_clause c f) cs s) = volatile_fringe s"
    "unsatisfied (fold (\<lambda>c. upd_clause c f) cs s) = unsatisfied s"
    "undo_list (fold (\<lambda>c. upd_clause c f) cs s) = undo_list s" for f cs and s :: "'a ltms_scheme"
    by (induction cs arbitrary: s) (auto simp: upd_clause_def)
  ultimately show "stamps_only s (initialize_time_stamps s)"
    "c \<in> set (clauses s) \<Longrightarrow> c_time_stamp (cheap (initialize_time_stamps s) c) = 0"
    by (auto simp: stamps_only_def initialize_time_stamps_def)
qed (simp add: initialize_time_stamps_def)

lemma word_less_succ: "(x :: 'a::len word) \<noteq> - 1 \<Longrightarrow> x < x + 1"
proof -
  assume "x \<noteq> - 1"
  then have "x + 1 \<noteq> 0" by (metis add.commute add_eq_0_iff)
  then have "unat (x + 1) = Suc (unat x)" using unatSuc [of x] by (simp add: add.commute)
  then show ?thesis by (simp add: word_less_nat_alt)
qed

text \<open>No clause carries the time stamp of a new cohort, even when the counter wraps.\<close>

lemma new_cohort_ok:
  assumes ts: "stamps_ok s"
  shows "stamps_only s (new_cohort s)"
    "\<And>c. c \<in> set (clauses s) \<Longrightarrow> c_time_stamp (cheap (new_cohort s) c) < time_stamp (new_cohort s)"
proof -
  have "stamps_only s s1 \<Longrightarrow> stamps_only s (s1\<lparr>time_stamp := k\<rparr>)" for s1 k
    by (simp add: stamps_only_def)
  then show "stamps_only s (new_cohort s)"
    using initialize_time_stamps_only(1) [of s] by (simp add: new_cohort_def Let_def)
  fix c assume c: "c \<in> set (clauses s)"
  show "c_time_stamp (cheap (new_cohort s) c) < time_stamp (new_cohort s)"
  proof (cases "time_stamp s = MAX_TIME_STAMP")
    case True
    then show ?thesis using initialize_time_stamps_only(2) [of s] initialize_time_stamps_only(3) [OF c]
      by (simp add: new_cohort_def)
  next
    case False
    have "c_time_stamp (cheap s c) \<le> time_stamp s" using ts c by (simp add: stamps_ok_def)
    moreover have "time_stamp s < time_stamp s + 1"
      by (rule word_less_succ) (use False in \<open>simp add: MAX_TIME_STAMP_def\<close>)
    ultimately show ?thesis using False by (simp add: new_cohort_def)
  qed
qed

subsection \<open>The search\<close>

text \<open>
  The clauses visited so far, relative to the state \<open>s0\<close> at the start of the cohort: \<open>D\<close> holds
  the clauses popped from the stack, \<open>X\<close> those whose literals have all been examined.
\<close>

definition visited :: "'a ltms_scheme \<Rightarrow> clause_id set" where
  "visited s = {c \<in> set (clauses s). c_time_stamp (cheap s c) = time_stamp s}"

definition supporter :: "'a ltms_scheme \<Rightarrow> clause_id \<Rightarrow> bool" where
  "supporter s c \<longleftrightarrow> c \<in> active s \<and> (\<exists>p. sup_of (cheap s c) = Some p)"

definition traced :: "'a ltms_scheme \<Rightarrow> clause_id set \<Rightarrow> clause_id \<Rightarrow> prop_id \<Rightarrow> bool" where
  "traced s V c p \<longleftrightarrow> (\<exists>q. supported_by (pheap s p) = Some q \<and> (q = c \<or> q \<in> V))"

definition search_inv ::
  "(clause \<Rightarrow> bool) \<Rightarrow> 'a ltms_scheme \<Rightarrow> clause_id list \<Rightarrow> clause_id \<Rightarrow> clause_id set \<Rightarrow>
   clause_id set \<Rightarrow> nat \<Rightarrow> 'a ltms_scheme support_state \<Rightarrow> bool" where
  "search_inv pr s0 res0 start D X n st \<longleftrightarrow> (case st of (stack, res, s) \<Rightarrow>
     stamps_only s0 s \<and> stamps_ok s \<and> time_stamp s = time_stamp s0 \<and>
     (\<forall>c \<in> visited s. supporter s0 c) \<and>
     D \<union> set stack = insert start {c \<in> visited s. \<not> pr (cheap s0 c)} \<and>
     (\<exists>found. res = found @ res0 \<and> distinct found \<and> set found = {c \<in> visited s. pr (cheap s0 c)}) \<and>
     (\<forall>c \<in> X. \<forall>l \<in> set (clause_lits (cheap s0 c)). traced s0 (visited s) c (fst l)) \<and>
     card (set (clauses s0) - visited s) + length stack \<le> n)"

definition stamp_blind :: "(clause \<Rightarrow> bool) \<Rightarrow> bool" where
  "stamp_blind pr \<longleftrightarrow> (\<forall>c k. pr (c\<lparr>c_time_stamp := k\<rparr>) = pr c)"

lemma stamp_blind_stamps_only:
  "stamp_blind pr \<Longrightarrow> stamps_only s t \<Longrightarrow> pr (cheap t c) = pr (cheap s c)"
  unfolding stamp_blind_def stamps_only_def by metis

lemma supporter_assigned:
  assumes "supporter s c" "support_ok r {} s" "l \<in> set (clause_lits (cheap s c))" "theory_ok s"
  shows "supported_by (pheap s (fst l)) \<noteq> None"
proof -
  obtain p where c: "c \<in> set (clauses s)" "sup_of (cheap s c) = Some p"
    using assms(1) by (auto simp: supporter_def active_def)
  from support_okD(5) [OF assms(2) c] obtain b where "propagated_lit r (pheap s) (cheap s c) p b" by blast
  then have "lit_tv (pheap s) l \<noteq> UNKNOWN" using assms(3) by (cases "l = (p, b)") (auto simp: propagated_lit_def)
  then have "tv (pheap s (fst l)) \<noteq> UNKNOWN" by (auto simp: lit_tv_def split: if_splits)
  then show ?thesis using support_okD(1) [OF assms(2) theory_lits [OF assms(4) c(1) assms(3)]] by simp
qed

lemma traced_mono: "traced s V c p \<Longrightarrow> V \<subseteq> W \<Longrightarrow> traced s W c p"
  by (auto simp: traced_def)

lemma support_step_ok:
  assumes inv: "search_inv pr s0 res0 start D X n st" and blind: "stamp_blind pr"
    and sup: "support_ok r {} s0" and th: "theory_ok s0"
    and p: "p \<in> set (props s0)" "supported_by (pheap s0 p) \<noteq> None"
  shows "returns (support_step pr cur p st) (\<lambda>st'. search_inv pr s0 res0 start D X n st' \<and>
     visited (snd (snd st)) \<subseteq> visited (snd (snd st')) \<and> traced s0 (visited (snd (snd st'))) cur p)"
proof -
  obtain stack res s where st: "st = (stack, res, s)" by (cases st)
  obtain q where q: "supported_by (pheap s0 p) = Some q" using p(2) by auto
  note I = inv [unfolded st search_inv_def prod.case]
  have so: "stamps_only s0 s" and T: "time_stamp s = time_stamp s0" using I by auto
  note d = stamps_onlyD [OF so]
  have qc: "q \<in> set (clauses s0)" "sup_of (cheap s0 q) = Some p"
    using support_okD(3) [OF sup p(1)] q by auto
  have supq: "supporter s0 q"
    using qc support_okD(5) [OF sup qc] by (auto simp: supporter_def active_def)
  show ?thesis
  proof (cases "q \<noteq> cur \<and> c_time_stamp (cheap s q) \<noteq> time_stamp s")
    case False
    then have "traced s0 (visited s) cur p" using q qc by (auto simp: traced_def visited_def d)
    moreover have "support_step pr cur p st = Inr st"
      using False by (auto simp: support_step_def st d q)
    ultimately show ?thesis using inv by (auto simp: st)
  next
    case True
    let ?s1 = "upd_clause q (\<lambda>d. d\<lparr>c_time_stamp := time_stamp s\<rparr>) s"
    have so1: "stamps_only s0 ?s1"
      by (rule stamps_only_trans [OF so]) (auto simp: stamps_only_def upd_clause_def)
    have so1': "stamps_ok ?s1" using conjunct1 [OF conjunct2 [OF I]] by (simp add: stamps_ok_def)
    have vis: "visited ?s1 = insert q (visited s)" and nv: "q \<notin> visited s"
      using qc True by (auto simp: visited_def d)
    have prq: "pr (cheap ?s1 q) = pr (cheap s0 q)" using stamp_blind_stamps_only [OF blind so1] .
    have fewer: "card (set (clauses s0) - visited s) = Suc (card (set (clauses s0) - visited ?s1))"
      unfolding vis using qc(1) nv
      by (metis Diff_insert card_Suc_Diff1 DiffI List.finite_set finite_Diff)
    have tr: "traced s0 (visited ?s1) cur p" using q vis by (simp add: traced_def)
    have old: "\<forall>c \<in> X. \<forall>l \<in> set (clause_lits (cheap s0 c)). traced s0 (visited ?s1) c (fst l)"
      using I vis traced_mono by (metis subset_insertI)
    show ?thesis
    proof (cases "pr (cheap s0 q)")
      case pq: True
      have "search_inv pr s0 res0 start D X n (stack, q # res, ?s1)"
        unfolding search_inv_def prod.case
      proof (intro conjI)
        from I obtain found where f: "res = found @ res0" "distinct found"
          "set found = {c \<in> visited s. pr (cheap s0 c)}" by blast
        show "\<exists>found. q # res = found @ res0 \<and> distinct found \<and> set found = {c \<in> visited ?s1. pr (cheap s0 c)}"
          by (rule exI [of _ "q # found"]) (use f nv pq vis in auto)
        show "D \<union> set stack = insert start {c \<in> visited ?s1. \<not> pr (cheap s0 c)}"
          using I pq unfolding vis by auto
      qed (use I so1 so1' T old vis supq fewer in auto)
      then show ?thesis using True vis tr prq pq by (simp add: support_step_def st d q subset_insertI)
    next
      case pq: False
      have "search_inv pr s0 res0 start D X n (stack @ [q], res, ?s1)"
        unfolding search_inv_def prod.case
      proof (intro conjI)
        have "{c \<in> visited ?s1. pr (cheap s0 c)} = {c \<in> visited s. pr (cheap s0 c)}"
          using pq unfolding vis by auto
        then show "\<exists>found. res = found @ res0 \<and> distinct found \<and> set found = {c \<in> visited ?s1. pr (cheap s0 c)}"
          using I by simp
        have "D \<union> set (stack @ [q]) = insert q (D \<union> set stack)" by simp
        also have "\<dots> = insert q (insert start {c \<in> visited s. \<not> pr (cheap s0 c)})" using I by simp
        finally show "D \<union> set (stack @ [q]) = insert start {c \<in> visited ?s1. \<not> pr (cheap s0 c)}"
          using pq unfolding vis by auto
      qed (use I so1 so1' T old vis supq fewer in auto)
      then show ?thesis using True vis tr prq pq by (simp add: support_step_def st d q subset_insertI)
    qed
  qed
qed

lemma support_clause_ok:
  assumes inv: "search_inv pr s0 res0 start D X n st" and blind: "stamp_blind pr"
    and sup: "support_ok r {} s0" and th: "theory_ok s0"
    and ps: "\<And>p. p \<in> set ps \<Longrightarrow> p \<in> set (props s0) \<and> supported_by (pheap s0 p) \<noteq> None"
  shows "returns (rfold (support_step pr cur) ps st) (\<lambda>st'. search_inv pr s0 res0 start D X n st' \<and>
     (\<forall>p \<in> set ps. traced s0 (visited (snd (snd st'))) cur p))"
proof (rule rfold_rule [where I = "\<lambda>ps st'. search_inv pr s0 res0 start D X n st' \<and>
     (\<forall>p \<in> set ps. traced s0 (visited (snd (snd st'))) cur p)"])
  show "search_inv pr s0 res0 start D X n st \<and> (\<forall>p \<in> set []. traced s0 (visited (snd (snd st))) cur p)"
    using inv by simp
next
  fix xs p ys st'
  assume z: "ps = xs @ p # ys" and I: "search_inv pr s0 res0 start D X n st' \<and>
     (\<forall>p \<in> set xs. traced s0 (visited (snd (snd st'))) cur p)"
  have "p \<in> set (props s0)" "supported_by (pheap s0 p) \<noteq> None" using ps [of p] z by auto
  from support_step_ok [OF conjunct1 [OF I] blind sup th this]
  show "returns (support_step pr cur p st') (\<lambda>st'. search_inv pr s0 res0 start D X n st' \<and>
     (\<forall>p \<in> set (xs @ [p]). traced s0 (visited (snd (snd st'))) cur p))"
    by (rule returns_mono) (use I in \<open>auto elim: traced_mono\<close>)
qed

lemma support_loop_ok:
  assumes "search_inv pr s0 res0 start D D n (stack, res, s)" and blind: "stamp_blind pr"
    and sup: "support_ok r {} s0" and th: "theory_ok s0"
    and start: "\<And>l. l \<in> set (clause_lits (cheap s0 start)) \<Longrightarrow>
      fst l \<in> set (props s0) \<and> supported_by (pheap s0 (fst l)) \<noteq> None"
  shows "returns (support_loop n pr (stack, res, s)) (\<lambda>(res', t). \<exists>D' m. search_inv pr s0 res0 start D' D' m ([], res', t))"
  using assms(1)
proof (induction n arbitrary: stack res s D)
  case 0
  then have "stack = []" by (auto simp: search_inv_def)
  with 0 show ?case by auto
next
  case (Suc n)
  show ?case
  proof (cases "stack = []")
    case True
    then show ?thesis using Suc.prems by auto
  next
    case False
    let ?cur = "last stack"
    obtain rest where rest: "stack = rest @ [?cur]" using False by (metis append_butlast_last_id)
    have bl: "butlast stack = rest" using rest by (metis butlast_snoc)
    note I = Suc.prems [unfolded search_inv_def prod.case]
    have so: "stamps_only s0 s" using I by simp
    have inv0: "search_inv pr s0 res0 start (insert ?cur D) D n (rest, res, s)"
      unfolding search_inv_def prod.case
    proof (intro conjI)
      show "insert ?cur D \<union> set rest = insert start {c \<in> visited s. \<not> pr (cheap s0 c)}"
        using I rest by (metis Un_insert_left Un_insert_right list.set(2) rotate1.simps(2) set_rotate1)
      show "card (set (clauses s0) - visited s) + length rest \<le> n"
        using I rest by (metis One_nat_def Suc_le_mono add_Suc_right length_append_singleton)
    qed (use I in blast)+
    have "?cur \<in> insert start {c \<in> visited s. \<not> pr (cheap s0 c)}"
      using I False by (metis UnI2 last_in_set)
    then have lits: "fst l \<in> set (props s0) \<and> supported_by (pheap s0 (fst l)) \<noteq> None"
      if "l \<in> set (clause_lits (cheap s0 ?cur))" for l
    proof
      assume "?cur = start"
      then show ?thesis using start that by simp
    next
      assume "?cur \<in> {c \<in> visited s. \<not> pr (cheap s0 c)}"
      then have "supporter s0 ?cur" using I by simp
      then show ?thesis
        using supporter_assigned [OF _ sup that th] theory_lits [OF th _ that]
        by (auto simp: supporter_def active_def)
    qed
    have cl: "clause_lits (cheap s ?cur) = clause_lits (cheap s0 ?cur)" using stamps_onlyD(6) [OF so] .
    have "returns (rfold (support_step pr ?cur) (map fst (clause_lits (cheap s ?cur))) (rest, res, s))
        (\<lambda>st'. search_inv pr s0 res0 start (insert ?cur D) D n st' \<and>
          (\<forall>p \<in> set (map fst (clause_lits (cheap s ?cur))). traced s0 (visited (snd (snd st'))) ?cur p))"
      by (rule support_clause_ok [OF inv0 blind sup th]) (use lits cl in auto)
    then obtain st1 where st1: "rfold (support_step pr ?cur) (map fst (clause_lits (cheap s ?cur))) (rest, res, s) = Inr st1"
      "search_inv pr s0 res0 start (insert ?cur D) D n st1"
      "\<forall>p \<in> set (map fst (clause_lits (cheap s ?cur))). traced s0 (visited (snd (snd st1))) ?cur p"
      by (auto simp: returns_iff)
    obtain stack1 res1 s1 where e: "st1 = (stack1, res1, s1)" by (cases st1)
    have "search_inv pr s0 res0 start (insert ?cur D) (insert ?cur D) n (stack1, res1, s1)"
      using st1(2,3) cl unfolding e search_inv_def prod.case by auto
    from Suc.IH [OF this] show ?thesis
      using False st1(1) e bl by simp
  qed
qed

subsection \<open>Conflicts\<close>

definition conflict_formula :: "(clause \<Rightarrow> bool) \<Rightarrow> clause_id list \<Rightarrow> 'a ptheory_scheme \<Rightarrow> cnf" where
  "conflict_formula pr cs s =
     (\<lambda>c. set (clause_lits (cheap s c))) ` {c \<in> active s. c \<in> set cs \<or> \<not> pr (cheap s c)}"

text \<open>The values of the propositions met by the search hold in every model.\<close>

lemma search_values:
  assumes sup: "support_ok r {} s" and m: "models m (conflict_formula pr cs s)"
    and unit: "\<And>c. c \<in> active s \<Longrightarrow> pr (cheap s c) \<Longrightarrow> length (clause_lits (cheap s c)) = 1"
    and D: "D = insert start {c \<in> V. \<not> pr (cheap s c)}"
    and V: "\<And>c. c \<in> V \<Longrightarrow> supporter s c" and cs: "\<And>c. c \<in> V \<Longrightarrow> pr (cheap s c) \<Longrightarrow> c \<in> set cs"
    and notsup: "\<not> supporter s start"
    and tr: "\<And>c l. c \<in> D \<Longrightarrow> l \<in> set (clause_lits (cheap s c)) \<Longrightarrow> traced s V c (fst l)"
    and th: "theory_ok s"
  shows "c \<in> D \<Longrightarrow> k \<in> set (clause_lits (cheap s c)) \<Longrightarrow> fst k = fst l \<Longrightarrow>
    fst l \<in> set (props s) \<Longrightarrow> lit_tv (pheap s) l = PTRUE \<Longrightarrow> holds m l"
proof (induction "r (fst l)" arbitrary: l k c rule: less_induct)
  case less
  obtain p b where l: "l = (p, b)" by (cases l)
  have p: "p \<in> set (props s)" using less.prems by (simp add: l)
  obtain q where q: "supported_by (pheap s p) = Some q" "q = c \<or> q \<in> V"
    using tr [OF less.prems(1,2)] less.prems(3) by (auto simp: traced_def l)
  have qc: "q \<in> set (clauses s)" "sup_of (cheap s q) = Some p"
    using support_okD(3) [OF sup p] q by auto
  from support_okD(5) [OF sup qc] obtain b' where nd: "\<not> is_deleted (cheap s q)"
    and pl: "propagated_lit r (pheap s) (cheap s q) p b'" by blast
  have qs: "supporter s q" using qc nd by (auto simp: supporter_def active_def)
  have "b' = b" using pl less.prems(5) by (auto simp: propagated_lit_def lit_tv_def l split: if_splits)
  have qV: "q \<in> V"
  proof (rule disjE [OF q(2)])
    assume "q = c"
    then have "q \<noteq> start" using qs notsup by auto
    with less.prems(1) D \<open>q = c\<close> show ?thesis by auto
  qed
  have act: "q \<in> active s" using qc nd by (simp add: active_def)
  then have "set (clause_lits (cheap s q)) \<in> conflict_formula pr cs s"
    using cs [OF qV] by (auto simp: conflict_formula_def)
  then obtain x where x: "x \<in> set (clause_lits (cheap s q))" "holds m x"
    using m by (auto simp: models_def)
  have "x = (p, b)"
  proof (cases "pr (cheap s q)")
    case True
    obtain y where "clause_lits (cheap s q) = [y]"
      using unit [OF act True] by (metis One_nat_def length_0_conv length_Suc_conv)
    then show ?thesis using x(1) pl \<open>b' = b\<close> by (simp add: propagated_lit_def)
  next
    case False
    then have qD: "q \<in> D" using qV D by simp
    show ?thesis
    proof (rule ccontr)
      assume ne: "x \<noteq> (p, b)"
      have "holds m (neg_lit x)"
      proof (rule less.hyps [OF _ qD x(1)])
        show "r (fst (neg_lit x)) < r (fst l)" "lit_tv (pheap s) (neg_lit x) = PTRUE"
          using pl x(1) ne \<open>b' = b\<close> by (auto simp: propagated_lit_def l)
        show "fst (neg_lit x) \<in> set (props s)" using theory_lits [OF th qc(1) x(1)] by simp
      qed simp
      with x(2) show False by simp
    qed
  qed
  with x(2) show ?case by (simp add: l)
qed

lemma unsat_clause:
  assumes "ltms_ok s" "unsatisfied s = c # cs"
  shows "c \<in> active s" "\<And>l. l \<in> set (clause_lits (cheap s c)) \<Longrightarrow> lit_tv (pheap s) l = PFALSE"
    "is_unsatisfied (cheap s c)"
proof -
  have bk: "book_ok s" and th: "theory_ok s" and cl: "clauses_ok {} s" using assms(1) by (auto simp: ltms_ok_def)
  show u: "is_unsatisfied (cheap s c)" using bk assms(2) by (auto simp: book_ok_def)
  then have c: "c \<in> set (clauses s)" using cl by (auto simp: clauses_ok_def)
  then have ok: "clause_ok (lit_tv (pheap s)) False (cheap s c)" using cl by (simp add: clauses_ok_def)
  then have nd: "\<not> is_deleted (cheap s c)" using u by (auto simp: clause_ok_def)
  then show "c \<in> active s" using c by (simp add: active_def)
  fix l assume l: "l \<in> set (clause_lits (cheap s c))"
  have "unknown_lits (lit_tv (pheap s)) (cheap s c) = 0" and none: "satisfying_prop (cheap s c) = None"
    using ok u nd by (auto simp: clause_ok_def)
  then have "{k \<in> set (clause_lits (cheap s c)). lit_tv (pheap s) k = UNKNOWN} = {}"
    by (simp add: unknown_lits_card [OF theory_wf [OF th c]])
  then have "lit_tv (pheap s) l \<noteq> UNKNOWN" using l by blast
  moreover have "lit_tv (pheap s) l \<noteq> PTRUE" using ok nd none l by (auto simp: clause_ok_def satisfier_ok_def)
  ultimately show "lit_tv (pheap s) l = PFALSE" by (cases "lit_tv (pheap s) l") auto
qed

lemma last_conflict_ok:
  assumes ok: "ltms_ok s" and blind: "stamp_blind pr" and un: "unsatisfied s \<noteq> []"
  shows "returns (last_conflict pr [] s) (\<lambda>(cs, t). ltms_ok t \<and> stamps_only s t \<and> distinct cs \<and>
     (\<forall>c \<in> set cs. c \<in> active s \<and> pr (cheap s c)) \<and>
     ((\<forall>c \<in> active s. pr (cheap s c) \<longrightarrow> length (clause_lits (cheap s c)) = 1) \<longrightarrow>
       (\<forall>m. \<not> models m (conflict_formula pr cs s))))"
proof -
  obtain c0 rest where u: "unsatisfied s = c0 # rest" using un by (cases "unsatisfied s") auto
  note uc = unsat_clause [OF ok u]
  from ok obtain r where sup: "support_ok r {} s" and th: "theory_ok s" and cl: "clauses_ok {} s"
    and ts: "stamps_ok s" by (auto simp: ltms_ok_def)
  let ?res0 = "if pr (cheap s c0) then [c0] else []"
  let ?s1 = "new_cohort s"
  note so = new_cohort_ok(1) [OF ts]
  note d = stamps_onlyD [OF so]
  have less: "c_time_stamp (cheap ?s1 c) < time_stamp ?s1" if "c \<in> set (clauses s)" for c
    using new_cohort_ok(2) [OF ts that] .
  have v0: "visited ?s1 = {}" using less by (force simp: visited_def d)
  have ts1: "stamps_ok ?s1" using less by (auto simp: stamps_ok_def d intro: less_imp_le)
  have ok1: "ltms_ok ?s1"
    by (rule stamps_only_ok [OF so ok ts1])
  then obtain r1 where sup1: "support_ok r1 {} ?s1" and th1: "theory_ok ?s1" by (auto simp: ltms_ok_def)
  have c0: "c0 \<in> set (clauses s)" using uc(1) by (simp add: active_def)
  have start: "fst l \<in> set (props ?s1) \<and> supported_by (pheap ?s1 (fst l)) \<noteq> None"
    if "l \<in> set (clause_lits (cheap ?s1 c0))" for l
  proof -
    have l: "l \<in> set (clause_lits (cheap s c0))" using that by (simp add: d)
    have p: "fst l \<in> set (props s)" using theory_lits [OF th c0 l] .
    have "tv (pheap s (fst l)) \<noteq> UNKNOWN" using uc(2) [OF l] by (auto simp: lit_tv_def split: if_splits)
    then show ?thesis using support_okD(1) [OF sup p] p by (simp add: d)
  qed
  have init: "search_inv pr ?s1 ?res0 c0 {} {} (Suc (length (clauses s))) ([c0], ?res0, ?s1)"
    unfolding search_inv_def prod.case v0 using card_length [of "clauses s"] ts1 by (simp add: d)
  from support_loop_ok [OF init blind sup1 th1 start] obtain cs t D m where
    eq: "support_loop (Suc (length (clauses s))) pr ([c0], ?res0, ?s1) = Inr (cs, t)"
    and fin: "search_inv pr ?s1 ?res0 c0 D D m ([], cs, t)" by (auto simp: returns_iff)
  note I = fin [unfolded search_inv_def prod.case]
  have so2: "stamps_only ?s1 t" using I by simp
  have so3: "stamps_only s t" using so so2 by (rule stamps_only_trans)
  have lt: "last_conflict pr [] s = Inr (cs, t)"
    using eq by (simp add: last_conflict_def u get_clause_support_def)
  have prs: "pr (cheap ?s1 c) = pr (cheap s c)" for c using stamp_blind_stamps_only [OF blind so] .
  have sup_eq: "supporter ?s1 c = supporter s c" for c by (simp add: supporter_def active_def d)
  have tr_eq: "traced ?s1 V c p = traced s V c p" for V c p by (simp add: traced_def d)
  have vs: "supporter s c" if "c \<in> visited t" for c using I that sup_eq by blast
  have notsup: "\<not> supporter s c0"
    using supporting_quiet(2) [OF cl sup c0] uc(3) by (force simp: supporter_def)
  from I obtain found where f: "cs = found @ ?res0" "distinct found"
    "set found = {c \<in> visited t. pr (cheap s c)}" unfolding prs by blast
  have "c0 \<notin> set found" using f(3) vs notsup by auto
  then have dist: "distinct cs" using f by auto
  have mem: "c \<in> active s \<and> pr (cheap s c)" if "c \<in> set cs" for c
    using that f uc(1) vs by (auto simp: supporter_def split: if_splits)
  have D: "D = insert c0 {c \<in> visited t. \<not> pr (cheap s c)}" using I unfolding prs by simp
  have tr: "traced s (visited t) c (fst l)" if "c \<in> D" "l \<in> set (clause_lits (cheap s c))" for c l
    using I that unfolding tr_eq by (simp add: d)
  have nomodel: "\<not> models m (conflict_formula pr cs s)"
    if unit: "\<forall>c \<in> active s. pr (cheap s c) \<longrightarrow> length (clause_lits (cheap s c)) = 1" for m
  proof
    assume m: "models m (conflict_formula pr cs s)"
    have "set (clause_lits (cheap s c0)) \<in> conflict_formula pr cs s"
      using uc(1) f(1) by (auto simp: conflict_formula_def)
    then obtain k where k: "k \<in> set (clause_lits (cheap s c0))" "holds m k" using m by (auto simp: models_def)
    have "holds m (neg_lit k)"
    proof (rule search_values [OF sup m _ D vs _ notsup tr th, of c0 k])
      show "c0 \<in> D" using D by simp
      show "c \<in> set cs" if "c \<in> visited t" "pr (cheap s c)" for c using that f by simp
      show "fst (neg_lit k) \<in> set (props s)" using theory_lits [OF th c0 k(1)] by simp
    qed (use unit k uc(2) in auto)
    with k show False by simp
  qed
  have "stamps_ok t" using I by simp
  then have "ltms_ok t" by (rule stamps_only_ok [OF so3 ok])
  then show ?thesis using lt so3 dist mem nomodel by (auto simp: returns_iff)
qed

end
