(* ===== verification/Ltms_Destroy.thy ===== *)
theory Ltms_Destroy
  imports Ltms_Conflict
begin

text \<open>
  The mark-and-sweep destruction of clauses and propositions. The marks are flags the invariant does
  not look at; \<open>ltms_finish_destroying\<close> returns when every clause over a marked proposition is marked
  too, keeps the invariant, and leaves exactly the unmarked objects with the values unit propagation
  gives them.
\<close>

subsection \<open>Marks\<close>

definition marked_clauses :: "'a ptheory_scheme \<Rightarrow> clause_id set" where
  "marked_clauses s = {c \<in> set (clauses s). is_destroying (cheap s c)}"

definition marked_props :: "'a ptheory_scheme \<Rightarrow> prop_id set" where
  "marked_props s = {p \<in> set (props s). prop_is_destroying (pheap s p)}"

text \<open>Every clause of the theory over a marked proposition is marked.\<close>

definition marks_closed :: "'a ptheory_scheme \<Rightarrow> bool" where
  "marks_closed s \<longleftrightarrow> (\<forall>c \<in> set (clauses s). \<forall>l \<in> set (clause_lits (cheap s c)).
     prop_is_destroying (pheap s (fst l)) \<longrightarrow> is_destroying (cheap s c))"

subsection \<open>The fringes without their marked clauses\<close>

definition cl_sweep :: "bool \<Rightarrow> clause \<Rightarrow> clause" where
  "cl_sweep v c = (if is_destroying c \<and> is_in_fringe c \<and> is_volatile c = v then take_from_fringe c else c)"

lemma norm_fun_sweep: "norm_fun (cl_sweep v)"
  by (rule norm_funI) (simp add: cl_sweep_def take_from_fringe_def norm_clause_def)

lemma cl_sweep_idle:
  assumes "fringe_ok h xs v" "\<forall>c \<in> set xs. \<not> is_destroying (h c)"
  shows "cl_sweep v (h d) = h d"
  using assms by (auto simp: cl_sweep_def fringe_ok_def)

lemma fringe_sweep_ok:
  assumes "fringe_ok h xs v" "i \<le> length xs" "\<forall>j < i. \<not> is_destroying (h (xs ! j))" "length xs - i \<le> n"
  shows "returns (fringe_remove_destroying_aux n i h xs) (\<lambda>(h', xs'). fringe_ok h' xs' v \<and>
     (\<forall>ys. fringe_ok h ys (\<not> v) \<longrightarrow> fringe_ok h' ys (\<not> v)) \<and>
     (\<forall>d. norm_clause (h' d) = norm_clause (cl_sweep v (h d))))"
  using assms
proof (induction n arbitrary: i h xs)
  case 0
  then have "\<forall>c \<in> set xs. \<not> is_destroying (h c)" by (auto simp: in_set_conv_nth)
  with 0 show ?case using cl_sweep_idle [OF 0(1)] by simp
next
  case (Suc n)
  show ?case
  proof (cases "i < length xs")
    case False
    with Suc.prems have "\<forall>c \<in> set xs. \<not> is_destroying (h c)" by (auto simp: in_set_conv_nth)
    with False Suc.prems show ?thesis using cl_sweep_idle [OF Suc.prems(1)] by simp
  next
    case il: True
    let ?c = "xs ! i"
    show ?thesis
    proof (cases "is_destroying (h ?c)")
      case False
      have "\<forall>j < Suc i. \<not> is_destroying (h (xs ! j))" using False Suc.prems(3) by (simp add: less_Suc_eq)
      then show ?thesis using il False Suc.IH [OF Suc.prems(1), of "Suc i"] Suc.prems(4) by simp
    next
      case de: True
      have fr: "is_in_fringe (h ?c)" "is_volatile (h ?c) = v" "fringe_index (h ?c) = i"
        using Suc.prems(1) il nth_mem [OF il] by (auto simp: fringe_ok_def)
      obtain h1 where h1: "fringe_remove ?c h xs = Inr (h1, swap_remove i xs)"
        "fringe_ok h1 (swap_remove i xs) v" "\<forall>ys. fringe_ok h ys (\<not> v) \<longrightarrow> fringe_ok h1 ys (\<not> v)"
        "\<forall>d. norm_clause (h1 d) = norm_clause (if d = ?c then take_from_fringe (h d) else h d)"
        using fringe_remove_ok [OF Suc.prems(1) fr(1,2)] fr(3) by (auto simp: returns_iff)
      have "is_destroying (h1 d) = is_destroying (h d)" for d
        using norm_clause_flags(5) [OF h1(4) [rule_format, of d]] by (simp split: if_splits)
      then have before: "\<forall>j < i. \<not> is_destroying (h1 (swap_remove i xs ! j))"
        using Suc.prems(3) il by (simp add: nth_swap_remove)
      have sw: "norm_clause (cl_sweep v (h1 d)) = norm_clause (cl_sweep v (h d))" for d
        using norm_funD [OF norm_fun_sweep h1(4) [rule_format, of d], of v] de fr
        by (cases "d = ?c") (simp_all add: cl_sweep_def)
      have "returns (fringe_remove_destroying_aux n i h1 (swap_remove i xs)) (\<lambda>(h', xs'). fringe_ok h' xs' v \<and>
         (\<forall>ys. fringe_ok h1 ys (\<not> v) \<longrightarrow> fringe_ok h' ys (\<not> v)) \<and>
         (\<forall>d. norm_clause (h' d) = norm_clause (cl_sweep v (h1 d))))"
        by (rule Suc.IH [OF h1(2) _ before]) (use il Suc.prems(4) in simp_all)
      then show ?thesis using il de h1(1,3) sw by (auto elim!: returns_mono)
    qed
  qed
qed

lemma fringe_remove_destroying_ok:
  assumes "fringe_ok h xs v"
  shows "returns (fringe_remove_destroying h xs) (\<lambda>(h', xs'). fringe_ok h' xs' v \<and>
     (\<forall>ys. fringe_ok h ys (\<not> v) \<longrightarrow> fringe_ok h' ys (\<not> v)) \<and>
     (\<forall>d. norm_clause (h' d) = norm_clause (cl_sweep v (h d))))"
  unfolding fringe_remove_destroying_def by (rule fringe_sweep_ok) (use assms in simp_all)

text \<open>Both fringes.\<close>

definition cl_forsake :: "clause \<Rightarrow> clause" where
  "cl_forsake c = (if is_destroying c \<and> is_in_fringe c then take_from_fringe c else c)"

lemma cl_forsake_sweep: "cl_sweep True (cl_sweep False c) = cl_forsake c"
  by (simp add: cl_sweep_def cl_forsake_def)

lemma both_fringes_ok:
  assumes "fringe_ok h xs False" "fringe_ok h ys True"
  obtains h1 h2 xs' ys' where "fringe_remove_destroying h xs = Inr (h1, xs')"
    "fringe_remove_destroying h1 ys = Inr (h2, ys')" "fringe_ok h2 xs' False" "fringe_ok h2 ys' True"
    "\<And>d. norm_clause (h2 d) = norm_clause (cl_forsake (h d))"
proof -
  from fringe_remove_destroying_ok [OF assms(1)] assms(2) obtain h1 xs' where
    1: "fringe_remove_destroying h xs = Inr (h1, xs')" "fringe_ok h1 xs' False" "fringe_ok h1 ys True"
      "\<forall>d. norm_clause (h1 d) = norm_clause (cl_sweep False (h d))"
    by (auto simp: returns_iff)
  from fringe_remove_destroying_ok [OF 1(3)] 1(2) obtain h2 ys' where
    2: "fringe_remove_destroying h1 ys = Inr (h2, ys')" "fringe_ok h2 ys' True" "fringe_ok h2 xs' False"
      "\<forall>d. norm_clause (h2 d) = norm_clause (cl_sweep True (h1 d))"
    by (auto simp: returns_iff)
  have "norm_clause (h2 d) = norm_clause (cl_forsake (h d))" for d
    using 2(4) norm_funD [OF norm_fun_sweep 1(4) [rule_format, of d], of True] by (simp add: cl_forsake_sweep)
  with 1(1) 2(1-3) show ?thesis by (intro that)
qed

lemma cl_forsake_simps [simp]:
  "is_destroying (cl_forsake c) = is_destroying c" "is_deleted (cl_forsake c) = is_deleted c"
  "is_in_fringe (cl_forsake c) = (is_in_fringe c \<and> \<not> is_destroying c)"
  "is_unsatisfied (cl_forsake c) = is_unsatisfied c" "is_volatile (cl_forsake c) = is_volatile c"
  "clause_lits (cl_forsake c) = clause_lits c" "wf_clause (cl_forsake c) = wf_clause c"
  "sup_of (cl_forsake c) = sup_of c" "sup_in_range (cl_forsake c) = sup_in_range c"
  "c_time_stamp (cl_forsake c) = c_time_stamp c" "clause_datum (cl_forsake c) = clause_datum c"
  by (auto simp: cl_forsake_def clause_lits_def wf_clause_def)

lemma cl_forsake_unmarked: "\<not> is_destroying c \<Longrightarrow> cl_forsake c = c"
  by (simp add: cl_forsake_def)

subsection \<open>The other lists\<close>

lemma remove_marked_from_array_ok:
  assumes "distinct xs"
  shows "distinct (remove_marked_from_array h xs) \<and>
    set (remove_marked_from_array h xs) = {c \<in> set xs. \<not> is_destroying (h c)}"
  using array_sweep_rule [OF assms, of 0 "\<lambda>c. is_destroying (h c)" "\<lambda>_ _. True" "{}" "()"
      "\<lambda>_ c. is_destroying (h c)" "\<lambda>_ t. t"]
  by (simp add: remove_marked_from_array_def case_prod_unfold)

text \<open>What a marked clause supports, if that stays.\<close>

definition retracted :: "'a ptheory_scheme \<Rightarrow> clause_id \<Rightarrow> prop_id list" where
  "retracted s c = (if is_destroying (cheap s c) then
     (case sup_of (cheap s c) of None \<Rightarrow> [] | Some p \<Rightarrow> if prop_is_destroying (pheap s p) then [] else [p]) else [])"

lemma collect_ok:
  assumes "\<forall>c \<in> set cs. sup_in_range (cheap s c)"
  shows "rfold collect_step cs s = Inr (s\<lparr>undo_list := undo_list s @ concat (map (retracted s) cs)\<rparr>)"
  using assms
proof (induction cs arbitrary: s)
  case (Cons c cs)
  have "collect_step c s = Inr (s\<lparr>undo_list := undo_list s @ retracted s c\<rparr>)"
    using Cons.prems by (auto simp: collect_step_def get_supports_sup_of retracted_def enqueue_for_undo_def
        split: option.splits)
  moreover have "retracted (s\<lparr>undo_list := us\<rparr>) = retracted s" for us
    by (simp add: fun_eq_iff retracted_def cong: option.case_cong)
  ultimately show ?case using Cons.IH [of "s\<lparr>undo_list := undo_list s @ retracted s c\<rparr>"] Cons.prems by simp
qed simp

subsection \<open>Unlinking the marked clauses\<close>

lemma fold_unlink:
  assumes "distinct ps" "\<And>q. p_flags (f q) = p_flags q"
  shows "fold (\<lambda>p t. if prop_is_destroying (pheap t p) then t else upd_prop p f t) ps s =
    s\<lparr>pheap := (\<lambda>p. if p \<in> set ps \<and> \<not> prop_is_destroying (pheap s p) then f (pheap s p) else pheap s p)\<rparr>"
  using assms(1)
proof (induction ps arbitrary: s)
  case (Cons p ps)
  have fl: "prop_is_destroying (f q) = prop_is_destroying q" for q by (simp add: prop_is_destroying_def assms(2))
  show ?case using Cons by (auto simp: upd_prop_def fl fun_eq_iff intro!: ptheory.equality)
qed simp

text \<open>What is left of a proposition when the clause with these literals is destroyed.\<close>

definition detached :: "clause_id \<Rightarrow> lit set \<Rightarrow> prop_id \<Rightarrow> prop_obj \<Rightarrow> prop_obj" where
  "detached c L p q =
     (let q1 = (if (p, True) \<in> L then remove_positive c q else q)
      in if (p, False) \<in> L then remove_negative c q1 else q1)"

lemma unlink_and_delete_eq:
  assumes "wf_clause (cheap s c)"
  shows "unlink_and_delete c s = s\<lparr>cheap := (cheap s)(c := clause_dtor (cheap s c)),
    pheap := (\<lambda>p. if prop_is_destroying (pheap s p) then pheap s p
       else detached c (set (clause_lits (cheap s c))) p (pheap s p))\<rparr>"
proof -
  let ?d = "cheap s c"
  have lits: "clause_lits ?d = map (\<lambda>p. (p, True)) (pos_literals ?d) @ map (\<lambda>p. (p, False)) (neg_literals ?d)"
    by (rule clause_lits_append [OF assms])
  have "distinct (clause_lits ?d)" using assms by (simp add: wf_clause_def)
  then have d: "distinct (pos_literals ?d)" "distinct (neg_literals ?d)" by (simp_all add: lits distinct_map)
  have fl: "p_flags (remove_positive c q) = p_flags q" "p_flags (remove_negative c q) = p_flags q"
    "prop_is_destroying (remove_positive c q) = prop_is_destroying q" for q
    by (simp_all add: remove_positive_def remove_negative_def prop_is_destroying_def)
  show ?thesis
    by (auto simp: unlink_and_delete_def fold_unlink [OF d(1) fl(1)] fold_unlink [OF d(2) fl(2)] upd_clause_def
        detached_def Let_def lits fl fun_eq_iff intro!: ptheory.equality)
qed

text \<open>The state while the clauses \<open>D\<close> have been destroyed.\<close>

definition sweep_inv :: "'a ptheory_scheme \<Rightarrow> clause_id set \<Rightarrow> 'a ptheory_scheme \<Rightarrow> bool" where
  "sweep_inv s D t \<longleftrightarrow>
     t = s\<lparr>pheap := pheap t, cheap := cheap t\<rparr> \<and>
     (\<forall>c. cheap t c = (if c \<in> D then clause_dtor (cheap s c) else cheap s c)) \<and>
     (\<forall>p. p_flags (pheap t p) = p_flags (pheap s p) \<and> tv (pheap t p) = tv (pheap s p) \<and>
        supported_by (pheap t p) = supported_by (pheap s p)) \<and>
     (\<forall>p \<in> set (props s). \<not> prop_is_destroying (pheap s p) \<longrightarrow>
        distinct (positive (pheap t p)) \<and> set (positive (pheap t p)) = set (positive (pheap s p)) - D \<and>
        distinct (negative (pheap t p)) \<and> set (negative (pheap t p)) = set (negative (pheap s p)) - D)"

lemma detached_simps [simp]:
  "p_flags (detached c L p q) = p_flags q" "tv (detached c L p q) = tv q"
  "supported_by (detached c L p q) = supported_by q"
  "positive (detached c L p q) = (if (p, True) \<in> L then array_erase_first c (positive q) else positive q)"
  "negative (detached c L p q) = (if (p, False) \<in> L then array_erase_first c (negative q) else negative q)"
  by (simp_all add: detached_def remove_positive_def remove_negative_def)

lemma sweep_inv_step:
  assumes th: "theory_ok s" and c: "c \<in> set (clauses s)" "c \<notin> D" and inv: "sweep_inv s D t"
  shows "sweep_inv s (insert c D) (unlink_and_delete c t)"
proof -
  have tc: "cheap t d = (if d \<in> D then clause_dtor (cheap s d) else cheap s d)" for d
    using inv by (simp add: sweep_inv_def)
  have ts: "t = s\<lparr>pheap := pheap t, cheap := cheap t\<rparr>" using inv by (simp add: sweep_inv_def)
  have cc: "cheap t c = cheap s c" using tc c(2) by simp
  then have eq: "unlink_and_delete c t = t\<lparr>cheap := (cheap t)(c := clause_dtor (cheap s c)),
    pheap := (\<lambda>p. if prop_is_destroying (pheap t p) then pheap t p
       else detached c (set (clause_lits (cheap s c))) p (pheap t p))\<rparr>" (is "?u = _")
    using unlink_and_delete_eq [of t c] theory_wf [OF th c(1)] unfolding cc by blast
  have fl: "prop_is_destroying (pheap t p) = prop_is_destroying (pheap s p)" for p
    using inv by (simp add: sweep_inv_def prop_is_destroying_def)
  have occ: "c \<in> set (positive (pheap s p)) \<longleftrightarrow> (p, True) \<in> set (clause_lits (cheap s c))"
    "c \<in> set (negative (pheap s p)) \<longleftrightarrow> (p, False) \<in> set (clause_lits (cheap s c))"
    if "p \<in> set (props s)" for p using th c(1) that unfolding theory_ok_def by blast+
  have lists: "distinct (positive (pheap ?u p)) \<and> set (positive (pheap ?u p)) = set (positive (pheap s p)) - insert c D \<and>
      distinct (negative (pheap ?u p)) \<and> set (negative (pheap ?u p)) = set (negative (pheap s p)) - insert c D"
    if p: "p \<in> set (props s)" "\<not> prop_is_destroying (pheap s p)" for p
  proof -
    have "distinct (positive (pheap t p)) \<and> set (positive (pheap t p)) = set (positive (pheap s p)) - D \<and>
        distinct (negative (pheap t p)) \<and> set (negative (pheap t p)) = set (negative (pheap s p)) - D"
      using inv p by (simp add: sweep_inv_def)
    with p occ [OF p(1)] show ?thesis by (auto simp: eq fl)
  qed
  have "?u = s\<lparr>pheap := pheap ?u, cheap := cheap ?u\<rparr>" unfolding eq by (subst (1) ts) simp
  moreover have "cheap ?u d = (if d \<in> insert c D then clause_dtor (cheap s d) else cheap s d)" for d
    by (simp add: eq tc)
  moreover have "p_flags (pheap ?u p) = p_flags (pheap s p) \<and> tv (pheap ?u p) = tv (pheap s p) \<and>
      supported_by (pheap ?u p) = supported_by (pheap s p)" for p
    using inv by (simp add: eq sweep_inv_def)
  ultimately show ?thesis unfolding sweep_inv_def using lists by blast
qed

lemma sweep_inv_refl: "theory_ok s \<Longrightarrow> sweep_inv s {} s"
  by (simp add: sweep_inv_def theory_ok_def)

text \<open>The destruction of the marked objects of a theory.\<close>

lemma ptheory_finish_destroying_ok:
  assumes th: "theory_ok s"
  obtains t cs ps where "ptheory_finish_destroying s = t\<lparr>clauses := cs, props := ps\<rparr>"
    "sweep_inv s (marked_clauses s) t" "distinct cs" "set cs = set (clauses s) - marked_clauses s"
    "distinct ps" "set ps = set (props s) - marked_props s"
proof -
  obtain cs t where t: "array_sweep (\<lambda>t c. is_destroying (cheap t c)) unlink_and_delete 0 (clauses s) s = (cs, t)"
    by fastforce
  have d: "distinct (clauses s)" "distinct (props s)" using th by (simp_all add: theory_ok_def)
  have m: "{} \<union> {c \<in> set (clauses s). is_destroying (cheap s c)} = marked_clauses s"
    by (simp add: marked_clauses_def)
  have "case array_sweep (\<lambda>t c. is_destroying (cheap t c)) unlink_and_delete 0 (clauses s) s of (ys, u) \<Rightarrow>
     distinct ys \<and> set ys = {c \<in> set (clauses s). \<not> is_destroying (cheap s c)} \<and>
     sweep_inv s ({} \<union> {c \<in> set (clauses s). is_destroying (cheap s c)}) u"
    by (rule array_sweep_rule [OF d(1)])
      (use sweep_inv_refl [OF th] sweep_inv_step [OF th] in \<open>auto simp: sweep_inv_def\<close>)
  then have cs: "distinct cs" "set cs = set (clauses s) - marked_clauses s" "sweep_inv s (marked_clauses s) t"
    unfolding t m by (auto simp: marked_clauses_def)
  let ?t = "t\<lparr>clauses := cs\<rparr>"
  have fl: "prop_is_destroying (pheap t p) = prop_is_destroying (pheap s p)" for p
    using cs(3) by (simp add: sweep_inv_def prop_is_destroying_def)
  have tp: "props t = props s" using cs(3) unfolding sweep_inv_def by (metis ptheory.select_convs(3) ptheory.update_convs(1,2) ptheory.surjective)
  obtain ps u where u: "array_sweep (\<lambda>t p. prop_is_destroying (pheap t p)) (\<lambda>_ t. t) 0 (props s) ?t = (ps, u)"
    by fastforce
  have "case array_sweep (\<lambda>t p. prop_is_destroying (pheap t p)) (\<lambda>_ t. t) 0 (props s) ?t of (ys, u) \<Rightarrow>
     distinct ys \<and> set ys = {p \<in> set (props s). \<not> prop_is_destroying (pheap s p)} \<and> u = ?t"
    by (rule array_sweep_rule [OF d(2), where I = "\<lambda>_ u. u = ?t"]) (auto simp: fl)
  then have ps: "distinct ps" "set ps = set (props s) - marked_props s" "u = ?t"
    unfolding u by (auto simp: marked_props_def)
  have "ptheory_finish_destroying s = ?t\<lparr>props := ps\<rparr>"
    by (simp add: ptheory_finish_destroying_def t u tp ps(3))
  then show ?thesis by (rule that [OF _ cs(3,1,2) ps(1,2)])
qed

subsection \<open>The invariant without the marked objects\<close>

text \<open>
  The state after the sweep: the values are those of before, the back pointers to destroyed clauses
  are gone.
\<close>

definition swept :: "'a ltms_scheme \<Rightarrow> 'a ltms_scheme \<Rightarrow> bool" where
  "swept s v \<longleftrightarrow>
     distinct (clauses v) \<and> set (clauses v) = set (clauses s) - marked_clauses s \<and>
     distinct (props v) \<and> set (props v) = set (props s) - marked_props s \<and>
     time_stamp v = time_stamp s \<and> next_prop v = next_prop s \<and> next_clause v = next_clause s \<and>
     (\<forall>c \<in> marked_clauses s. c_flags (cheap v c) = 0) \<and>
     (\<forall>c. c \<notin> marked_clauses s \<longrightarrow> norm_clause (cheap v c) = norm_clause (cheap s c)) \<and>
     (\<forall>p. tv (pheap v p) = tv (pheap s p) \<and> supported_by (pheap v p) = supported_by (pheap s p)) \<and>
     (\<forall>p \<in> set (props v).
        distinct (positive (pheap v p)) \<and> set (positive (pheap v p)) = set (positive (pheap s p)) - marked_clauses s \<and>
        distinct (negative (pheap v p)) \<and> set (negative (pheap v p)) = set (negative (pheap s p)) - marked_clauses s)"

lemma sweptD:
  assumes "swept s v"
  shows "set (clauses v) = set (clauses s) - marked_clauses s" "set (props v) = set (props s) - marked_props s"
    "c \<notin> marked_clauses s \<Longrightarrow> norm_clause (cheap v c) = norm_clause (cheap s c)"
    "tv (pheap v p) = tv (pheap s p)" "supported_by (pheap v p) = supported_by (pheap s p)"
    "lit_tv (pheap v) l = lit_tv (pheap s) l" "time_stamp v = time_stamp s"
  using assms by (simp_all add: swept_def lit_tv_def)

lemma swept_kept_clause:
  assumes "swept s v" "c \<in> set (clauses v)"
  shows "c \<in> set (clauses s)" "clause_lits (cheap v c) = clause_lits (cheap s c)"
    "wf_clause (cheap v c) = wf_clause (cheap s c)" "is_deleted (cheap v c) = is_deleted (cheap s c)"
    "c_time_stamp (cheap v c) = c_time_stamp (cheap s c)" "clause_datum (cheap v c) = clause_datum (cheap s c)"
    "sup_of (cheap v c) = sup_of (cheap s c)" "sup_in_range (cheap v c) = sup_in_range (cheap s c)"
    "\<not> is_destroying (cheap s c)"
proof -
  from assms sweptD(1) [OF assms(1)] have c: "c \<in> set (clauses s)" "c \<notin> marked_clauses s" by auto
  note n = sweptD(3) [OF assms(1) c(2)]
  note st = static_eqD [OF static_eq_norm [OF n]]
  show "c \<in> set (clauses s)" "clause_lits (cheap v c) = clause_lits (cheap s c)"
    "wf_clause (cheap v c) = wf_clause (cheap s c)" "is_deleted (cheap v c) = is_deleted (cheap s c)"
    "c_time_stamp (cheap v c) = c_time_stamp (cheap s c)" "clause_datum (cheap v c) = clause_datum (cheap s c)"
    "sup_of (cheap v c) = sup_of (cheap s c)" "sup_in_range (cheap v c) = sup_in_range (cheap s c)"
    "\<not> is_destroying (cheap s c)"
    using c st sup_of_norm [OF n] by (simp_all add: marked_clauses_def)
qed

lemma swept_theory:
  assumes th: "theory_ok s" and mc: "marks_closed s" and sw: "swept s v"
  shows "theory_ok v"
  unfolding theory_ok_def
proof (intro conjI ballI allI)
  note kc = swept_kept_clause [OF sw] and D = sweptD(1,2) [OF sw]
  show "distinct (props v)" "distinct (clauses v)" using sw by (simp_all add: swept_def)
  show "p < next_prop v" if "p \<in> set (props v)" for p using that sw th by (simp add: swept_def theory_ok_def)
  show "c < next_clause v" if "c \<in> set (clauses v)" for c using that sw th by (simp add: swept_def theory_ok_def)
  show "wf_clause (cheap v c)" if "c \<in> set (clauses v)" for c
    using kc(1,3) [OF that] theory_wf [OF th] by simp
  show "fst ` set (clause_lits (cheap v c)) \<subseteq> set (props v)" if c: "c \<in> set (clauses v)" for c
  proof
    fix p assume "p \<in> fst ` set (clause_lits (cheap v c))"
    then obtain l where l: "l \<in> set (clause_lits (cheap s c))" "p = fst l" using kc(2) [OF c] by auto
    have "\<not> prop_is_destroying (pheap s p)" using mc l kc(1,9) [OF c] by (auto simp: marks_closed_def)
    then show "p \<in> set (props v)" using theory_lits [OF th kc(1) [OF c] l(1)] l(2) D(2) by (simp add: marked_props_def)
  qed
  fix p assume p: "p \<in> set (props v)"
  then have ps: "p \<in> set (props s)" using D(2) by simp
  have pos: "distinct (positive (pheap v p))" "set (positive (pheap v p)) = set (positive (pheap s p)) - marked_clauses s"
    "distinct (negative (pheap v p))" "set (negative (pheap v p)) = set (negative (pheap s p)) - marked_clauses s"
    using sw p by (simp_all add: swept_def)
  then show "distinct (positive (pheap v p))" "distinct (negative (pheap v p))" by blast+
  fix c
  have occ: "c \<in> set (positive (pheap s p)) \<longleftrightarrow> c \<in> set (clauses s) \<and> (p, True) \<in> set (clause_lits (cheap s c))"
    "c \<in> set (negative (pheap s p)) \<longleftrightarrow> c \<in> set (clauses s) \<and> (p, False) \<in> set (clause_lits (cheap s c))"
    using th ps unfolding theory_ok_def by blast+
  show "c \<in> set (positive (pheap v p)) \<longleftrightarrow> c \<in> set (clauses v) \<and> (p, True) \<in> set (clause_lits (cheap v c))"
    "c \<in> set (negative (pheap v p)) \<longleftrightarrow> c \<in> set (clauses v) \<and> (p, False) \<in> set (clause_lits (cheap v c))"
    using pos(2,4) occ kc(2) D(1) by auto
qed

lemma swept_clauses:
  assumes cl: "clauses_ok {} s" and sw: "swept s v"
  shows "clauses_ok {} v"
  unfolding clauses_ok_def
proof (intro conjI ballI allI impI)
  have v: "lit_tv (pheap v) = lit_tv (pheap s)" using sweptD(6) [OF sw] by (simp add: fun_eq_iff)
  show "clause_ok (lit_tv (pheap v)) (c \<in> {}) (cheap v c)" if "c \<in> set (clauses v)" for c
    using that cl sweptD(1) [OF sw] clause_ok_norm [OF sweptD(3) [OF sw, of c]]
    by (simp add: clauses_ok_def v)
  fix c assume c: "c \<notin> set (clauses v)"
  have "\<not> is_in_fringe (cheap v c) \<and> \<not> is_unsatisfied (cheap v c)"
  proof (cases "c \<in> marked_clauses s")
    case True
    then have "c_flags (cheap v c) = 0" using sw by (simp add: swept_def)
    then show ?thesis by (simp add: is_in_fringe_def is_unsatisfied_def)
  next
    case False
    with c have "c \<notin> set (clauses s)" using sweptD(1) [OF sw] by simp
    then show ?thesis using cl norm_clause_flags [OF sweptD(3) [OF sw False]] by (simp add: clauses_ok_def)
  qed
  then show "\<not> is_in_fringe (cheap v c)" "\<not> is_unsatisfied (cheap v c)" by simp_all
qed

lemma swept_stamps: "stamps_ok s \<Longrightarrow> swept s v \<Longrightarrow> stamps_ok v"
  unfolding stamps_ok_def using swept_kept_clause(1,5) sweptD(7) by metis

text \<open>The propositions whose clause is destroyed have lost their support.\<close>

definition retracted_props :: "'a ptheory_scheme \<Rightarrow> prop_id set" where
  "retracted_props s = {p. \<not> prop_is_destroying (pheap s p) \<and>
     (\<exists>c \<in> marked_clauses s. sup_of (cheap s c) = Some p)}"

lemma swept_support:
  assumes th: "theory_ok s" and mc: "marks_closed s" and sup: "support_ok r {} s" and sw: "swept s v"
  shows "support_ok r (retracted_props s) v"
  unfolding support_ok_def
proof (intro conjI ballI allI impI)
  note kc = swept_kept_clause [OF sw] and D = sweptD(1,2) [OF sw] and S = sweptD(4,5) [OF sw]
  have supp: "supported_by (pheap s p) = Some c \<and> p \<in> set (props s) \<and> tv (pheap s p) \<noteq> UNKNOWN \<and>
      (\<exists>b. (p, b) \<in> set (clause_lits (cheap s c)) \<and> propagated_lit r (pheap s) (cheap s c) p b) \<and> \<not> is_deleted (cheap s c)"
    if c: "c \<in> set (clauses s)" "sup_of (cheap s c) = Some p" for c p
  proof -
    obtain b where b: "propagated_lit r (pheap s) (cheap s c) p b" "supported_by (pheap s p) = Some c" "\<not> is_deleted (cheap s c)"
      using sup c unfolding support_ok_def by blast
    then have "(p, b) \<in> set (clause_lits (cheap s c))" "lit_tv (pheap s) (p, b) = PTRUE" by (auto simp: propagated_lit_def)
    then show ?thesis using b theory_lits [OF th c(1)] by (auto simp: lit_tv_def split: if_splits)
  qed
  show "tv (pheap v p) = UNKNOWN \<longleftrightarrow> supported_by (pheap v p) = None" if "p \<in> set (props v)" for p
    using that D(2) sup S by (simp add: support_ok_def)
  show "retracted_props s \<subseteq> {p \<in> set (props v). tv (pheap v p) \<noteq> UNKNOWN}"
  proof
    fix p assume "p \<in> retracted_props s"
    then obtain c where c: "c \<in> set (clauses s)" "sup_of (cheap s c) = Some p" "\<not> prop_is_destroying (pheap s p)"
      by (auto simp: retracted_props_def marked_clauses_def)
    from supp [OF c(1,2)] c(3) show "p \<in> {p \<in> set (props v). tv (pheap v p) \<noteq> UNKNOWN}"
      by (simp add: D(2) S(1) marked_props_def)
  qed
  show "c \<in> set (clauses v)" "sup_of (cheap v c) = Some p"
    if p: "p \<in> set (props v) - retracted_props s" "supported_by (pheap v p) = Some c" for p c
  proof -
    have "p \<in> set (props s) - {}" "supported_by (pheap s p) = Some c" using p D(2) S(2) by simp_all
    then have c: "c \<in> set (clauses s)" "sup_of (cheap s c) = Some p" using sup unfolding support_ok_def by blast+
    have "\<not> prop_is_destroying (pheap s p)" using p(1) D(2) by (auto simp: marked_props_def)
    with c p(1) have "c \<notin> marked_clauses s" by (auto simp: retracted_props_def)
    then show "c \<in> set (clauses v)" using c(1) D(1) by simp
    then show "sup_of (cheap v c) = Some p" using kc(7) c(2) by simp
  qed
  show "sup_in_range (cheap v c)" if "c \<in> set (clauses v)" for c
    using sup kc(1,8) [OF that] by (simp add: support_ok_def)
  fix c p assume c: "c \<in> set (clauses v)" "sup_of (cheap v c) = Some p"
  note k = kc [OF c(1)]
  have cs: "sup_of (cheap s c) = Some p" using c(2) k(7) by simp
  note sp = supp [OF k(1) cs]
  show "\<not> is_deleted (cheap v c)" "supported_by (pheap v p) = Some c" using sp k(4) S by simp_all
  show "p \<notin> retracted_props s"
  proof
    assume "p \<in> retracted_props s"
    then obtain d where "d \<in> marked_clauses s" "sup_of (cheap s d) = Some p" by (auto simp: retracted_props_def)
    then have "supported_by (pheap s p) = Some d" "is_destroying (cheap s d)" using supp [of d p] by (simp_all add: marked_clauses_def)
    then show False using sp k(9) by simp
  qed
  show "\<exists>b. propagated_lit r (pheap v) (cheap v c) p b"
  proof -
    from sp obtain b where "propagated_lit r (pheap s) (cheap s c) p b" by blast
    then have "propagated_lit r (pheap v) (cheap v c) p b"
      unfolding propagated_lit_def k(2) sweptD(6) [OF sw] .
    then show ?thesis ..
  qed
qed

subsection \<open>The whole call\<close>

lemma retracted_iff:
  "p \<in> set (retracted s c) \<longleftrightarrow>
     is_destroying (cheap s c) \<and> sup_of (cheap s c) = Some p \<and> \<not> prop_is_destroying (pheap s p)"
proof (cases "sup_of (cheap s c)")
  case None
  then have "retracted s c = []" by (simp add: retracted_def)
  with None show ?thesis by simp
next
  case (Some q)
  have "retracted s c = (if is_destroying (cheap s c) \<and> \<not> prop_is_destroying (pheap s q) then [q] else [])"
    by (simp add: retracted_def Some)
  then show ?thesis using Some by (cases "is_destroying (cheap s c) \<and> \<not> prop_is_destroying (pheap s q)") auto
qed

lemma set_retracted: "set (concat (map (retracted s) (clauses s))) = retracted_props s"
proof (rule set_eqI)
  fix p
  have "p \<in> set (concat (map (retracted s) (clauses s))) \<longleftrightarrow> (\<exists>c \<in> set (clauses s). p \<in> set (retracted s c))"
    by simp
  also have "\<dots> \<longleftrightarrow> p \<in> retracted_props s"
    unfolding retracted_iff retracted_props_def marked_clauses_def by blast
  finally show "p \<in> set (concat (map (retracted s) (clauses s))) \<longleftrightarrow> p \<in> retracted_props s" .
qed

lemma distinct_retracted:
  assumes sup: "support_ok r {} s" and "distinct cs" "set cs \<subseteq> set (clauses s)"
  shows "distinct (concat (map (retracted s) cs))"
  using assms(2,3)
proof (induction cs)
  case (Cons c cs)
  have sd: "supported_by (pheap s p) = Some d" if "d \<in> set (c # cs)" "p \<in> set (retracted s d)" for p d
  proof -
    have "d \<in> set (clauses s)" "sup_of (cheap s d) = Some p" using that Cons.prems(2) by (auto simp: retracted_iff)
    then show ?thesis using sup unfolding support_ok_def by blast
  qed
  have "p \<notin> set (retracted s d)" if "p \<in> set (retracted s c)" "d \<in> set cs" for p d
    using sd [of c p] sd [of d p] that Cons.prems(1) by auto
  then have "set (retracted s c) \<inter> (\<Union>d \<in> set cs. set (retracted s d)) = {}" by blast
  moreover have "distinct (retracted s c)" by (simp add: retracted_def split: option.split)
  ultimately show ?case using Cons by simp
qed simp

lemma retracted_norm:
  "norm_clause (cheap t c) = norm_clause (cl_forsake (cheap s c)) \<Longrightarrow> pheap t = pheap s \<Longrightarrow>
   retracted t c = retracted s c"
  using norm_clause_flags(5) [of "cheap t c"] sup_of_norm(1) [of "cheap t c"] 
  by (simp add: retracted_def cong: option.case_cong)

lemma fringe_ok_shrink:
  assumes "fringe_ok h xs v" "\<And>c. is_in_fringe (h c) \<Longrightarrow> h' c = h c"
    and "\<And>c. \<not> is_in_fringe (h c) \<Longrightarrow> \<not> is_in_fringe (h' c)"
  shows "fringe_ok h' xs v"
proof -
  have "is_in_fringe (h (xs ! i))" if "i < length xs" for i using assms(1) nth_mem [OF that] by (auto simp: fringe_ok_def)
  then have "\<forall>i < length xs. fringe_index (h' (xs ! i)) = i" using assms(1,2) by (simp add: fringe_ok_def)
  moreover have "set xs = {c. is_in_fringe (h' c) \<and> is_volatile (h' c) = v}"
  proof -
    have "is_in_fringe (h' c) \<and> is_volatile (h' c) = v \<longleftrightarrow> is_in_fringe (h c) \<and> is_volatile (h c) = v" for c
      using assms(2,3) [of c] by (cases "is_in_fringe (h c)") simp_all
    then show ?thesis using assms(1) by (simp add: fringe_ok_def)
  qed
  ultimately show ?thesis by (simp add: fringe_ok_def)
qed

text \<open>
  The state in which the marked objects are about to be destroyed: the lists are rid of them, the
  propositions to retract are collected.
\<close>

definition prepared :: "'a ltms_scheme \<Rightarrow> 'a ltms_scheme \<Rightarrow> bool" where
  "prepared s u \<longleftrightarrow> kept s u \<and> pheap u = pheap s \<and>
     (\<forall>c. norm_clause (cheap u c) = norm_clause (cl_forsake (cheap s c))) \<and>
     fringe_ok (cheap u) (fringe u) False \<and> fringe_ok (cheap u) (volatile_fringe u) True \<and>
     distinct (unsatisfied u) \<and> set (unsatisfied u) = {c. is_unsatisfied (cheap s c) \<and> \<not> is_destroying (cheap s c)} \<and>
     set (undo_list u) = retracted_props s \<and> distinct (undo_list u)"

lemma finish_destroying_prepared:
  assumes ok: "ltms_ok s"
  obtains u where "prepared s u" "ltms_finish_destroying s =
    rbind (undo_propagations (ptheory_finish_destroying u)) (\<lambda>v. rbind (propagate v) (\<lambda>(_, t). Inr t))"
proof -
  from ok obtain r where th: "theory_ok s" and bk: "book_ok s" and ul: "undo_list s = []"
    and sup: "support_ok r {} s" by (auto simp: ltms_ok_def)
  have fo: "fringe_ok (cheap s) (fringe s) False" "fringe_ok (cheap s) (volatile_fringe s) True"
    using bk by (simp_all add: book_ok_def)
  obtain h1 h xs ys where f: "fringe_remove_destroying (cheap s) (fringe s) = Inr (h1, xs)"
    "fringe_remove_destroying h1 (volatile_fringe s) = Inr (h, ys)" "fringe_ok h xs False" "fringe_ok h ys True"
    and n: "\<And>d. norm_clause (h d) = norm_clause (cl_forsake (cheap s d))"
    by (rule both_fringes_ok [OF fo]) blast
  note fl = norm_clause_flags [OF n] and st = static_eqD [OF static_eq_norm [OF n]]
  let ?us = "concat (map (retracted s) (clauses s))"
  define un where "un = remove_marked_from_array h (unsatisfied s)"
  let ?s1 = "s\<lparr>cheap := h, fringe := xs, volatile_fringe := ys, unsatisfied := un\<rparr>"
  let ?u = "?s1\<lparr>undo_list := ?us\<rparr>"
  have un: "distinct un" "set un = {c. is_unsatisfied (cheap s c) \<and> \<not> is_destroying (cheap s c)}"
    using remove_marked_from_array_ok [of "unsatisfied s" h] bk fl(5) by (auto simp: un_def book_ok_def)
  have "rfold collect_step (clauses ?s1) ?s1 =
      Inr (?s1\<lparr>undo_list := undo_list ?s1 @ concat (map (retracted ?s1) (clauses ?s1))\<rparr>)"
    by (rule collect_ok) (use sup sup_of_norm(2) [OF n] in \<open>simp add: support_ok_def\<close>)
  moreover have "retracted ?s1 = retracted s"
    using retracted_norm [of ?s1 _ s] n by (simp add: fun_eq_iff)
  ultimately have col: "rfold collect_step (clauses s) ?s1 = Inr ?u" using ul by simp
  have "static_eq (h c) (cheap s c)" for c
    by (rule static_eq_trans [OF static_eq_norm [OF n]]) (simp add: static_eq_def cl_forsake_def)
  then have "kept s ?u" by (simp add: kept_def)
  moreover have "distinct ?us" using distinct_retracted [OF sup] th by (simp add: theory_ok_def)
  ultimately have "prepared s ?u"
    using f(3,4) n un set_retracted [of s] by (simp add: prepared_def)
  moreover have "ltms_finish_destroying s =
    rbind (undo_propagations (ptheory_finish_destroying ?u)) (\<lambda>v. rbind (propagate v) (\<lambda>(_, t). Inr t))"
    by (simp add: ltms_finish_destroying_def f(1,2) Let_def col flip: un_def)
  ultimately show ?thesis by (rule that)
qed

lemma prepared_marks:
  assumes "prepared s u"
  shows "marked_clauses u = marked_clauses s" "marked_props u = marked_props s"
proof -
  have k: "kept s u" using assms by (simp add: prepared_def)
  show "marked_clauses u = marked_clauses s" "marked_props u = marked_props s"
    by (simp_all add: marked_clauses_def marked_props_def prop_is_destroying_def keptD [OF k])
qed

lemma prepared_clause:
  assumes ok: "ltms_ok s" and pr: "prepared s u"
  shows "c \<notin> marked_clauses s \<Longrightarrow> norm_clause (cheap u c) = norm_clause (cheap s c)"
    and "c \<in> marked_clauses s \<Longrightarrow> \<not> is_in_fringe (cheap u c)"
proof -
  have cl: "clauses_ok {} s" using ok by (simp add: ltms_ok_def)
  have n: "norm_clause (cheap u c) = norm_clause (cl_forsake (cheap s c))" using pr by (simp add: prepared_def)
  show "norm_clause (cheap u c) = norm_clause (cheap s c)" if "c \<notin> marked_clauses s"
  proof (cases "c \<in> set (clauses s)")
    case True
    with that show ?thesis using n by (simp add: marked_clauses_def cl_forsake_unmarked)
  next
    case False
    then have "cl_forsake (cheap s c) = cheap s c" using cl by (simp add: clauses_ok_def cl_forsake_def)
    then show ?thesis using n by simp
  qed
  show "\<not> is_in_fringe (cheap u c)" if "c \<in> marked_clauses s"
    using that norm_clause_flags(1) [OF n] by (simp add: marked_clauses_def)
qed

text \<open>What the destruction of the clauses \<open>M\<close> leaves of the fringes and of the unsatisfied clauses.\<close>

lemma destroyed_book:
  assumes ok: "ltms_ok s" and pr: "prepared s u"
    and ct: "\<And>c. cheap t c = (if c \<in> marked_clauses s then clause_dtor (cheap u c) else cheap u c)"
    and tf: "fringe t = fringe u" "volatile_fringe t = volatile_fringe u" "unsatisfied t = unsatisfied u"
  shows "book_ok t"
proof -
  note pc = prepared_clause [OF ok pr]
  have cl: "clauses_ok {} s" using ok by (simp add: ltms_ok_def)
  have dt: "c_flags (clause_dtor d) = 0" for d by (simp add: clause_dtor_def)
  have fr: "fringe_ok (cheap t) fs v" if "fringe_ok (cheap u) fs v" for fs v
    by (rule fringe_ok_shrink [OF that]) (use pc(2) dt in \<open>auto simp: ct is_in_fringe_def\<close>)
  have "is_unsatisfied (cheap t c) \<longleftrightarrow> is_unsatisfied (cheap s c) \<and> \<not> is_destroying (cheap s c)" for c
  proof (cases "c \<in> marked_clauses s")
    case True
    then show ?thesis by (simp add: ct is_unsatisfied_def dt) (simp add: marked_clauses_def)
  next
    case False
    then show ?thesis using norm_clause_flags(3) [OF pc(1) [OF False]] cl
      by (auto simp: ct marked_clauses_def clauses_ok_def)
  qed
  then show ?thesis using pr fr by (simp add: book_ok_def prepared_def tf)
qed

lemma destroyed_swept:
  assumes ok: "ltms_ok s" and pr: "prepared s u"
  obtains v where "ptheory_finish_destroying u = v" "swept s v" "book_ok v" "undo_list v = undo_list u"
proof -
  from ok have th: "theory_ok s" by (simp add: ltms_ok_def)
  have k: "kept s u" and pu: "pheap u = pheap s" using pr by (simp_all add: prepared_def)
  have th2: "theory_ok u" using kept_theory [OF k] th by simp
  obtain t cs ps where fin: "ptheory_finish_destroying u = t\<lparr>clauses := cs, props := ps\<rparr>"
    and inv: "sweep_inv u (marked_clauses s) t"
    and cs: "distinct cs" "set cs = set (clauses s) - marked_clauses s"
    and ps: "distinct ps" "set ps = set (props s) - marked_props s"
    by (rule ptheory_finish_destroying_ok [OF th2]) (auto simp: prepared_marks [OF pr] keptD [OF k])
  let ?v = "t\<lparr>clauses := cs, props := ps\<rparr>"
  have t: "t = u\<lparr>pheap := pheap t, cheap := cheap t\<rparr>" using inv by (simp add: sweep_inv_def)
  have tf: "fringe t = fringe u" "volatile_fringe t = volatile_fringe u" "unsatisfied t = unsatisfied u"
    "undo_list t = undo_list u" "time_stamp t = time_stamp s" "next_prop t = next_prop s" "next_clause t = next_clause s"
    by (subst t, simp add: keptD [OF k])+
  have ct: "cheap t c = (if c \<in> marked_clauses s then clause_dtor (cheap u c) else cheap u c)" for c
    using inv by (simp add: sweep_inv_def)
  show ?thesis
  proof (rule that [OF fin])
    show "undo_list ?v = undo_list u" by (simp add: tf)
    show "book_ok ?v" by (rule destroyed_book [OF ok pr]) (simp_all add: ct tf)
    show "swept s ?v"
      unfolding swept_def using cs ps inv prepared_clause(1) [OF ok pr] pu
      by (auto simp: tf ct sweep_inv_def marked_props_def clause_dtor_def keptD [OF k])
  qed
qed

lemma undone_swept:
  assumes ok: "ltms_ok s" and mc: "marks_closed s" and sw: "swept s v" and bk: "book_ok v"
    and us: "set (undo_list v) = retracted_props s" "distinct (undo_list v)"
  shows "returns (undo_propagations v) (\<lambda>u. ltms_ok u \<and> kept v u)"
proof -
  from ok obtain r where "theory_ok s" "clauses_ok {} s" "stamps_ok s" "support_ok r {} s" by (auto simp: ltms_ok_def)
  then have v: "theory_ok v" "clauses_ok {} v" "stamps_ok v" "support_ok r (set (undo_list v)) v"
    using swept_theory [OF _ mc sw] swept_clauses [OF _ sw] swept_stamps [OF _ sw] swept_support [OF _ mc _ sw]
    by (simp_all add: us(1))
  show ?thesis
    by (rule returns_mono [OF undo_propagations_ok [OF bk v(1,2,4) us(2)]])
      (use v in \<open>auto simp: ltms_ok_def kept_theory kept_stamps\<close>)
qed

lemma swept_active:
  assumes sw: "swept s v" and k: "kept v t"
  shows "active t = active s - marked_clauses s"
    and "formula t = (\<lambda>c. set (clause_lits (cheap s c))) ` (active s - marked_clauses s)"
proof -
  have ct: "clauses t = clauses v" by (rule keptD(2) [OF k])
  have same: "clause_lits (cheap t c) = clause_lits (cheap s c)" "is_deleted (cheap t c) = is_deleted (cheap s c)"
    if "c \<in> set (clauses v)" for c
    using keptD(10,12) [OF k, of c] swept_kept_clause(2,4) [OF sw that] by simp_all
  show a: "active t = active s - marked_clauses s"
    using same(2) sweptD(1) [OF sw] by (auto simp: active_def ct)
  have "set (clause_lits (cheap t c)) = set (clause_lits (cheap s c))" if "c \<in> active t" for c
    using that same(1) by (simp add: active_def ct)
  then show "formula t = (\<lambda>c. set (clause_lits (cheap s c))) ` (active s - marked_clauses s)"
    unfolding formula_def a [symmetric] by simp
qed

lemma finish_destroying_ok:
  assumes ok: "ltms_ok s" and mc: "marks_closed s"
  shows "returns (ltms_finish_destroying s) (\<lambda>t. ltms_ok t \<and>
     set (clauses t) = set (clauses s) - marked_clauses s \<and> set (props t) = set (props s) - marked_props s \<and>
     active t = active s - marked_clauses s \<and>
     (\<forall>c \<in> set (clauses t). clause_lits (cheap t c) = clause_lits (cheap s c) \<and>
        clause_datum (cheap t c) = clause_datum (cheap s c)) \<and>
     formula t = (\<lambda>c. set (clause_lits (cheap s c))) ` (active s - marked_clauses s) \<and>
     (\<forall>l. fst l \<in> set (props t) \<longrightarrow> lit_tv (pheap t) l = PTRUE \<longrightarrow> up (formula t) l) \<and>
     (\<not> up_conflict (formula t) \<longrightarrow> (\<forall>l. up (formula t) l \<longrightarrow> lit_tv (pheap t) l = PTRUE)))"
proof -
  obtain u where u: "prepared s u" "ltms_finish_destroying s =
      rbind (undo_propagations (ptheory_finish_destroying u)) (\<lambda>v. rbind (propagate v) (\<lambda>(_, t). Inr t))"
    by (rule finish_destroying_prepared [OF ok])
  obtain v where v: "ptheory_finish_destroying u = v" "swept s v" "book_ok v" "undo_list v = undo_list u"
    by (rule destroyed_swept [OF ok u(1)])
  have us: "set (undo_list v) = retracted_props s" "distinct (undo_list v)" using u(1) v(4) by (simp_all add: prepared_def)
  from undone_swept [OF ok mc v(2,3) us] obtain w where w: "undo_propagations v = Inr w" "ltms_ok w" "kept v w"
    by (auto simp: returns_iff)
  from propagate_ok [OF w(2)] obtain b t where t: "propagate w = Inr (b, t)" "ltms_ok t" "kept w t"
    by (auto elim!: returnsE)
  from propagate_computes_up [OF w(2)] have post: "formula t = formula w" "b \<longleftrightarrow> \<not> up_conflict (formula w)"
     "\<forall>l. fst l \<in> set (props w) \<longrightarrow> lit_tv (pheap t) l = PTRUE \<longrightarrow> up (formula w) l"
     "b \<longrightarrow> (\<forall>l. up (formula w) l \<longrightarrow> lit_tv (pheap t) l = PTRUE)"
    unfolding t(1) returns_Inr prod.case by blast+
  have k: "kept v t" by (rule kept_trans [OF w(3) t(3)])
  have "clause_lits (cheap t c) = clause_lits (cheap s c) \<and> clause_datum (cheap t c) = clause_datum (cheap s c)"
    if "c \<in> set (clauses t)" for c
    using that keptD(2,10,17) [OF k] swept_kept_clause(2,6) [OF v(2), of c] by simp
  moreover have "props t = props w" by (rule keptD(1) [OF t(3)])
  moreover have "ltms_finish_destroying s = Inr t" by (simp add: u(2) v(1) w(1) t(1))
  ultimately show ?thesis
    using t(2) post swept_active [OF v(2) k] sweptD(1,2) [OF v(2)] keptD(1,2) [OF k] by simp
qed

subsection \<open>Marking\<close>

lemma set_destroying_fields [simp]:
  "num_lits (set_destroying c) = num_lits c" "num_pos_lits (set_destroying c) = num_pos_lits c"
  "num_unassigned (set_destroying c) = num_unassigned c" "supports (set_destroying c) = supports c"
  "fringe_index (set_destroying c) = fringe_index c" "c_time_stamp (set_destroying c) = c_time_stamp c"
  "satisfying_prop (set_destroying c) = satisfying_prop c" "clause_datum (set_destroying c) = clause_datum c"
  "literals (set_destroying c) = literals c"
  by (simp_all add: set_destroying_def)

lemma set_destroying_lits [simp]:
  "clause_lits (set_destroying c) = clause_lits c" "wf_clause (set_destroying c) = wf_clause c"
  "sup_of (set_destroying c) = sup_of c" "sup_in_range (set_destroying c) = sup_in_range c"
  "clause_ok v e (set_destroying c) = clause_ok v e c" "set_destroying (set_destroying c) = set_destroying c"
  by (simp_all add: clause_lits_def wf_clause_def sup_of_def sup_in_range_def clause_ok_def unknown_lits_def
      satisfier_ok_def cong: if_cong option.case_cong)
    (simp add: set_destroying_def set_flag_def or.assoc)

text \<open>From \<open>s\<close> to \<open>t\<close> only marks have been set.\<close>

definition marks_only :: "'a ltms_scheme \<Rightarrow> 'a ltms_scheme \<Rightarrow> bool" where
  "marks_only s t \<longleftrightarrow> t = s\<lparr>pheap := pheap t, cheap := cheap t\<rparr> \<and>
     (\<forall>c. cheap t c = cheap s c \<or> cheap t c = set_destroying (cheap s c)) \<and>
     (\<forall>p. pheap t p = (pheap s p)\<lparr>p_flags := p_flags (pheap t p)\<rparr>)"

lemma marks_onlyD:
  assumes "marks_only s t"
  shows "props t = props s" "clauses t = clauses s" "time_stamp t = time_stamp s" "next_prop t = next_prop s"
    "next_clause t = next_clause s" "fringe t = fringe s" "volatile_fringe t = volatile_fringe s"
    "unsatisfied t = unsatisfied s" "undo_list t = undo_list s"
proof -
  have t: "t = s\<lparr>pheap := pheap t, cheap := cheap t\<rparr>" using assms by (simp add: marks_only_def)
  show "props t = props s" "clauses t = clauses s" "time_stamp t = time_stamp s" "next_prop t = next_prop s"
    "next_clause t = next_clause s" "fringe t = fringe s" "volatile_fringe t = volatile_fringe s"
    "unsatisfied t = unsatisfied s" "undo_list t = undo_list s"
    using arg_cong [OF t, of props] arg_cong [OF t, of clauses] arg_cong [OF t, of time_stamp]
      arg_cong [OF t, of next_prop] arg_cong [OF t, of next_clause] arg_cong [OF t, of fringe]
      arg_cong [OF t, of volatile_fringe] arg_cong [OF t, of unsatisfied] arg_cong [OF t, of undo_list]
    by simp_all
qed

lemma marks_only_clause:
  assumes "marks_only s t"
  shows "is_deleted (cheap t c) = is_deleted (cheap s c)" "is_in_fringe (cheap t c) = is_in_fringe (cheap s c)"
    "is_unsatisfied (cheap t c) = is_unsatisfied (cheap s c)" "is_volatile (cheap t c) = is_volatile (cheap s c)"
    "fringe_index (cheap t c) = fringe_index (cheap s c)" "c_time_stamp (cheap t c) = c_time_stamp (cheap s c)"
    "clause_lits (cheap t c) = clause_lits (cheap s c)" "wf_clause (cheap t c) = wf_clause (cheap s c)"
    "sup_of (cheap t c) = sup_of (cheap s c)" "sup_in_range (cheap t c) = sup_in_range (cheap s c)"
    "clause_ok v e (cheap t c) = clause_ok v e (cheap s c)" "clause_datum (cheap t c) = clause_datum (cheap s c)"
proof -
  have "cheap t c = cheap s c \<or> cheap t c = set_destroying (cheap s c)" using assms by (simp add: marks_only_def)
  then show "is_deleted (cheap t c) = is_deleted (cheap s c)" "is_in_fringe (cheap t c) = is_in_fringe (cheap s c)"
    "is_unsatisfied (cheap t c) = is_unsatisfied (cheap s c)" "is_volatile (cheap t c) = is_volatile (cheap s c)"
    "fringe_index (cheap t c) = fringe_index (cheap s c)" "c_time_stamp (cheap t c) = c_time_stamp (cheap s c)"
    "clause_lits (cheap t c) = clause_lits (cheap s c)" "wf_clause (cheap t c) = wf_clause (cheap s c)"
    "sup_of (cheap t c) = sup_of (cheap s c)" "sup_in_range (cheap t c) = sup_in_range (cheap s c)"
    "clause_ok v e (cheap t c) = clause_ok v e (cheap s c)" "clause_datum (cheap t c) = clause_datum (cheap s c)"
    by auto
qed

lemma marks_only_prop:
  assumes "marks_only s t"
  shows "tv (pheap t p) = tv (pheap s p)" "supported_by (pheap t p) = supported_by (pheap s p)"
    "positive (pheap t p) = positive (pheap s p)" "negative (pheap t p) = negative (pheap s p)"
    "lit_tv (pheap t) = lit_tv (pheap s)"
proof -
  have p: "pheap t p = (pheap s p)\<lparr>p_flags := p_flags (pheap t p)\<rparr>" for p using assms by (simp add: marks_only_def)
  have tv: "tv (pheap t p) = tv (pheap s p)" for p by (subst p) simp
  then show "tv (pheap t p) = tv (pheap s p)" "lit_tv (pheap t) = lit_tv (pheap s)"
    by (simp_all add: fun_eq_iff lit_tv_def)
  show "supported_by (pheap t p) = supported_by (pheap s p)"
    "positive (pheap t p) = positive (pheap s p)" "negative (pheap t p) = negative (pheap s p)"
    by (subst p, simp)+
qed

lemma marks_only_ok:
  assumes "ltms_ok s" "marks_only s t"
  shows "ltms_ok t"
proof -
  note F = marks_onlyD [OF assms(2)] and C = marks_only_clause [OF assms(2)] and P = marks_only_prop [OF assms(2)]
  have "theory_ok t = theory_ok s" by (simp only: theory_ok_def F C P)
  moreover have "clauses_ok {} t = clauses_ok {} s" by (simp only: clauses_ok_def F C P)
  moreover have "book_ok t = book_ok s" by (simp only: book_ok_def fringe_ok_def F C)
  moreover have "stamps_ok t = stamps_ok s" by (simp only: stamps_ok_def F C)
  moreover have "support_ok r {} t = support_ok r {} s" for r by (simp only: support_ok_def propagated_lit_def F C P)
  ultimately show ?thesis using assms(1) by (simp add: ltms_ok_def F)
qed

lemma cheap_fold_mark:
  "cheap (fold (\<lambda>c. upd_clause c set_destroying) cs s) d =
     (if d \<in> set cs then set_destroying (cheap s d) else cheap s d)"
  by (rule cheap_fold_upd_clause_idem) simp

lemma fold_mark_frame:
  "fold (\<lambda>c. upd_clause c set_destroying) cs s = s\<lparr>cheap := cheap (fold (\<lambda>c. upd_clause c set_destroying) cs s)\<rparr>"
proof (induction cs arbitrary: s)
  case (Cons c cs)
  let ?t = "fold (\<lambda>c. upd_clause c set_destroying) cs (upd_clause c set_destroying s)"
  have "?t = (upd_clause c set_destroying s)\<lparr>cheap := cheap ?t\<rparr>" by (rule Cons.IH)
  also have "\<dots> = s\<lparr>cheap := cheap ?t\<rparr>" unfolding upd_clause_def [of c set_destroying s] by simp
  finally show ?case by simp
qed simp

lemma prop_set_destroying_heaps:
  "pheap (prop_set_destroying p s) = (pheap s)(p := (pheap s p)\<lparr>p_flags := set_flag True P_DESTROYING (p_flags (pheap s p))\<rparr>)"
  "cheap (prop_set_destroying p s) c = (if c \<in> set (positive (pheap s p)) \<union> set (negative (pheap s p))
     then set_destroying (cheap s c) else cheap s c)"
  by (simp_all add: prop_set_destroying_def cheap_fold_mark)

lemma marks_only_prop_set_destroying: "marks_only s (prop_set_destroying p s)"
proof -
  let ?f = "fold (\<lambda>c. upd_clause c set_destroying)"
  let ?s1 = "upd_prop p (\<lambda>q. q\<lparr>p_flags := set_flag True P_DESTROYING (p_flags q)\<rparr>) s"
  have "prop_set_destroying p s = ?s1\<lparr>cheap := cheap (prop_set_destroying p s)\<rparr>"
    unfolding prop_set_destroying_def
    by (subst fold_mark_frame, subst (2) fold_mark_frame) simp
  then have "prop_set_destroying p s = s\<lparr>pheap := pheap (prop_set_destroying p s), cheap := cheap (prop_set_destroying p s)\<rparr>"
    by (simp add: upd_prop_def prop_set_destroying_heaps(1))
  then show ?thesis by (auto simp: marks_only_def prop_set_destroying_heaps)
qed

lemma marks_only_clause_set_destroying: "marks_only s (clause_set_destroying c s)"
  by (simp add: marks_only_def clause_set_destroying_def upd_clause_def)

text \<open>Marking through a proposition marks all the clauses it occurs in, and no mark is taken back.\<close>

lemma prop_set_destroying_closed:
  fixes s :: "'a ltms_scheme"
  assumes th: "theory_ok s" and p: "p \<in> set (props s)" and mc: "marks_closed s"
  shows "marks_closed (prop_set_destroying p s)"
  unfolding marks_closed_def
proof (intro ballI impI)
  let ?t = "prop_set_destroying p s"
  note F = marks_onlyD [OF marks_only_prop_set_destroying [of s p]]
    and C = marks_only_clause [OF marks_only_prop_set_destroying [of s p]]
  fix c l
  assume c: "c \<in> set (clauses ?t)" "l \<in> set (clause_lits (cheap ?t c))" "prop_is_destroying (pheap ?t (fst l))"
  then have cs: "c \<in> set (clauses s)" "l \<in> set (clause_lits (cheap s c))" by (simp_all add: F C)
  show "is_destroying (cheap ?t c)"
  proof (cases "fst l = p")
    case True
    have "c \<in> set (positive (pheap s p)) \<union> set (negative (pheap s p))"
      using theory_occ(3) [OF th p, of c True] theory_occ(3) [OF th p, of c False] cs True
      by (cases l; cases "snd l") (auto simp: occ_same_def)
    then show ?thesis by (simp add: prop_set_destroying_heaps(2))
  next
    case False
    then have "prop_is_destroying (pheap s (fst l))" using c(3) by (simp add: prop_set_destroying_heaps(1))
    then have "is_destroying (cheap s c)" using mc cs by (auto simp: marks_closed_def)
    then show ?thesis by (simp add: prop_set_destroying_heaps(2))
  qed
qed

lemma clause_set_destroying_closed: "marks_closed s \<Longrightarrow> marks_closed (clause_set_destroying c s)"
  by (auto simp: marks_closed_def clause_set_destroying_def)

subsection \<open>Marking propositions and destroying them\<close>

text \<open>No mark is set.\<close>

definition unmarked :: "'a ptheory_scheme \<Rightarrow> bool" where
  "unmarked s \<longleftrightarrow> (\<forall>p \<in> set (props s). \<not> prop_is_destroying (pheap s p)) \<and>
     (\<forall>c \<in> set (clauses s). \<not> is_destroying (cheap s c))"

lemma marks_only_refl [simp]: "marks_only s s"
  by (simp add: marks_only_def)

lemma marks_only_trans:
  assumes "marks_only s t" "marks_only t u"
  shows "marks_only s u"
proof -
  have "u = t\<lparr>pheap := pheap u, cheap := cheap u\<rparr>" "t = s\<lparr>pheap := pheap t, cheap := cheap t\<rparr>"
    using assms by (simp_all add: marks_only_def)
  then have "u = s\<lparr>pheap := pheap t, cheap := cheap t\<rparr>\<lparr>pheap := pheap u, cheap := cheap u\<rparr>" by simp
  moreover have "cheap u c = cheap s c \<or> cheap u c = set_destroying (cheap s c)" for c
  proof -
    have "cheap t c = cheap s c \<or> cheap t c = set_destroying (cheap s c)"
      "cheap u c = cheap t c \<or> cheap u c = set_destroying (cheap t c)"
      using assms by (simp_all add: marks_only_def)
    then show ?thesis by auto
  qed
  moreover have "pheap u p = (pheap s p)\<lparr>p_flags := p_flags (pheap u p)\<rparr>" for p
  proof -
    have t: "pheap t p = (pheap s p)\<lparr>p_flags := p_flags (pheap t p)\<rparr>"
      and u: "pheap u p = (pheap t p)\<lparr>p_flags := p_flags (pheap u p)\<rparr>"
      using assms by (simp_all add: marks_only_def)
    have "(pheap t p)\<lparr>p_flags := f\<rparr> = (pheap s p)\<lparr>p_flags := f\<rparr>" for f by (subst t) simp
    with u show ?thesis by simp
  qed
  ultimately show ?thesis unfolding marks_only_def by simp
qed

lemma fold_prop_set_destroying:
  fixes s :: "'a ltms_scheme"
  assumes "theory_ok s" "set ps \<subseteq> set (props s)"
  shows "marks_only s (fold prop_set_destroying ps s)"
    "prop_is_destroying (pheap (fold prop_set_destroying ps s) p) \<longleftrightarrow> prop_is_destroying (pheap s p) \<or> p \<in> set ps"
    "c \<in> set (clauses s) \<Longrightarrow> is_destroying (cheap (fold prop_set_destroying ps s) c) \<longleftrightarrow>
       is_destroying (cheap s c) \<or> (\<exists>l \<in> set (clause_lits (cheap s c)). fst l \<in> set ps)"
proof -
  have "marks_only s (fold prop_set_destroying ps s) \<and>
    (\<forall>p. prop_is_destroying (pheap (fold prop_set_destroying ps s) p) \<longleftrightarrow> prop_is_destroying (pheap s p) \<or> p \<in> set ps) \<and>
    (\<forall>c \<in> set (clauses s). is_destroying (cheap (fold prop_set_destroying ps s) c) \<longleftrightarrow>
       is_destroying (cheap s c) \<or> (\<exists>l \<in> set (clause_lits (cheap s c)). fst l \<in> set ps))"
    using assms(2)
  proof (induction ps rule: rev_induct)
    case (snoc q ps)
    let ?t = "fold prop_set_destroying ps s"
    have m: "marks_only s ?t" and fl: "\<And>p. prop_is_destroying (pheap ?t p) \<longleftrightarrow> prop_is_destroying (pheap s p) \<or> p \<in> set ps"
      and cl: "\<And>c. c \<in> set (clauses s) \<Longrightarrow> is_destroying (cheap ?t c) \<longleftrightarrow>
        is_destroying (cheap s c) \<or> (\<exists>l \<in> set (clause_lits (cheap s c)). fst l \<in> set ps)"
      using snoc by auto
    have "marks_only s (prop_set_destroying q ?t)" by (rule marks_only_trans [OF m marks_only_prop_set_destroying])
    moreover have "prop_is_destroying (pheap (prop_set_destroying q ?t) p) \<longleftrightarrow>
        prop_is_destroying (pheap s p) \<or> p \<in> set (ps @ [q])" for p
      by (auto simp: prop_set_destroying_heaps(1) fl) (simp add: prop_is_destroying_def P_DESTROYING_def)
    moreover have "is_destroying (cheap (prop_set_destroying q ?t) c) \<longleftrightarrow>
        is_destroying (cheap s c) \<or> (\<exists>l \<in> set (clause_lits (cheap s c)). fst l \<in> set (ps @ [q]))"
      if c: "c \<in> set (clauses s)" for c
    proof -
      have "q \<in> set (props s)" using snoc.prems by simp
      then have "c \<in> set (positive (pheap ?t q)) \<union> set (negative (pheap ?t q)) \<longleftrightarrow>
          (\<exists>b. (q, b) \<in> set (clause_lits (cheap s c)))"
        using theory_occ(3) [OF assms(1), of q c True] theory_occ(3) [OF assms(1), of q c False] c
        by (simp add: marks_only_prop(3,4) [OF m] occ_same_def) (metis (full_types))
      then have "c \<in> set (positive (pheap ?t q)) \<union> set (negative (pheap ?t q)) \<longleftrightarrow>
          (\<exists>l \<in> set (clause_lits (cheap s c)). fst l = q)" by force
      then show ?thesis using cl [OF c] by (auto simp: prop_set_destroying_heaps(2))
    qed
    ultimately show ?case by simp
  qed simp
  then show "marks_only s (fold prop_set_destroying ps s)"
    "prop_is_destroying (pheap (fold prop_set_destroying ps s) p) \<longleftrightarrow> prop_is_destroying (pheap s p) \<or> p \<in> set ps"
    "c \<in> set (clauses s) \<Longrightarrow> is_destroying (cheap (fold prop_set_destroying ps s) c) \<longleftrightarrow>
       is_destroying (cheap s c) \<or> (\<exists>l \<in> set (clause_lits (cheap s c)). fst l \<in> set ps)"
    by blast+
qed

text \<open>Exactly the clauses over the marked propositions go with them.\<close>

lemma finish_marked_ok:
  fixes s :: "'a ltms_scheme"
  assumes ok: "ltms_ok s" and un: "unmarked s" and ps: "set ps \<subseteq> set (props s)"
  shows "marks_closed (fold prop_set_destroying ps s)"
    "returns (ltms_finish_destroying (fold prop_set_destroying ps s)) (\<lambda>t.
       set (clauses t) = {c \<in> set (clauses s). \<forall>l \<in> set (clause_lits (cheap s c)). fst l \<notin> set ps} \<and>
       set (props t) = set (props s) - set ps \<and> active t = active s \<inter> set (clauses t) \<and>
       (\<forall>c \<in> set (clauses t). clause_lits (cheap t c) = clause_lits (cheap s c) \<and>
          clause_datum (cheap t c) = clause_datum (cheap s c)))"
proof -
  let ?u = "fold prop_set_destroying ps s"
  have th: "theory_ok s" using ok by (simp add: ltms_ok_def)
  note F = fold_prop_set_destroying [OF th ps]
  note D = marks_onlyD [OF F(1)] and C = marks_only_clause [OF F(1)]
  have un': "p \<in> set (props s) \<Longrightarrow> \<not> prop_is_destroying (pheap s p)"
    "c \<in> set (clauses s) \<Longrightarrow> \<not> is_destroying (cheap s c)" for p c using un by (simp_all add: unmarked_def)
  show mc: "marks_closed ?u"
    unfolding marks_closed_def D C
  proof (intro ballI impI)
    fix c l assume c: "c \<in> set (clauses s)" "l \<in> set (clause_lits (cheap s c))" "prop_is_destroying (pheap ?u (fst l))"
    then have "fst l \<in> set ps" using F(2) un'(1) theory_lits [OF th c(1,2)] by blast
    then show "is_destroying (cheap ?u c)" using F(3) [OF c(1)] c(2) by blast
  qed
  have m: "marked_clauses ?u = {c \<in> set (clauses s). \<exists>l \<in> set (clause_lits (cheap s c)). fst l \<in> set ps}"
    "marked_props ?u = set ps"
    using F(2,3) un' ps by (auto simp: marked_clauses_def marked_props_def D)
  have a: "active ?u = active s" by (simp add: active_def D C)
  have sub: "active s \<subseteq> set (clauses s)" by (auto simp: active_def)
  show "returns (ltms_finish_destroying ?u) (\<lambda>t.
       set (clauses t) = {c \<in> set (clauses s). \<forall>l \<in> set (clause_lits (cheap s c)). fst l \<notin> set ps} \<and>
       set (props t) = set (props s) - set ps \<and> active t = active s \<inter> set (clauses t) \<and>
       (\<forall>c \<in> set (clauses t). clause_lits (cheap t c) = clause_lits (cheap s c) \<and>
          clause_datum (cheap t c) = clause_datum (cheap s c)))"
  proof (rule returns_mono [OF finish_destroying_ok [OF marks_only_ok [OF ok F(1)] mc]], elim conjE, intro conjI)
    fix t :: "'a ltms_scheme"
    assume t: "set (clauses t) = set (clauses ?u) - marked_clauses ?u"
      "set (props t) = set (props ?u) - marked_props ?u" "active t = active ?u - marked_clauses ?u"
      "\<forall>c \<in> set (clauses t). clause_lits (cheap t c) = clause_lits (cheap ?u c) \<and>
        clause_datum (cheap t c) = clause_datum (cheap ?u c)"
    show "set (clauses t) = {c \<in> set (clauses s). \<forall>l \<in> set (clause_lits (cheap s c)). fst l \<notin> set ps}"
      using t(1) by (auto simp: m D)
    show "set (props t) = set (props s) - set ps" using t(2) by (simp add: m D)
    show "active t = active s \<inter> set (clauses t)" unfolding t(1,3) a D using sub by blast
    show "\<forall>c \<in> set (clauses t). clause_lits (cheap t c) = clause_lits (cheap s c) \<and>
          clause_datum (cheap t c) = clause_datum (cheap s c)" using t(4) by (simp add: C)
  qed
qed

end
