(* ===== verification/Ltms_Reach.thy ===== *)
theory Ltms_Reach
  imports Ltms_Destroy
begin

text \<open>
  The LTMS as a state machine. The steps of \<open>ltms_step\<close> are \<open>create_proposition\<close>, \<open>create_clause\<close>,
  \<open>add\<close>, \<open>remove\<close>, \<open>propagate\<close>, \<open>last_conflict\<close>, the setting of a clause's transition flag, the
  marking of a proposition or a clause for destruction and, when every clause over a marked
  proposition is marked too, \<open>finish_destroying\<close>. A state is reachable when such calls, in any
  order, lead to it from the new LTMS; every reachable state satisfies the invariant, and in it
  these calls return. Three public members are not steps, because they do not keep the invariant:
  \<open>partial_propagate\<close> and \<open>move_support\<close>, and \<open>initialize\<close>, public in \<open>Ptheory\<close> and protected in
  \<open>LTMS\<close>, which nothing calls. \<open>Ltms_Findings\<close> shows a run of each that breaks it; what
  \<open>partial_propagate\<close> answers in a reachable state is proved in \<open>Ltms_Partial\<close>.
\<close>

definition valid_clause :: "prop_id list \<Rightarrow> prop_id list \<Rightarrow> 'a ptheory_scheme \<Rightarrow> bool" where
  "valid_clause posP negP s \<longleftrightarrow> set posP \<subseteq> set (props s) \<and> set negP \<subseteq> set (props s) \<and>
     length (slist_remove_duplicates posP) + length (slist_remove_duplicates negP) < 128"

inductive ltms_step :: "ltms \<Rightarrow> ltms \<Rightarrow> bool" where
  step_proposition: "ltms_step s (snd (create_proposition s))"
| step_clause: "valid_clause posP negP s \<Longrightarrow>
    ltms_create_clause dm posP negP vol inT s = Inr (c, t) \<Longrightarrow> ltms_step s t"
| step_add: "c \<in> set (clauses s) \<Longrightarrow> ltms_add c s = Inr t \<Longrightarrow> ltms_step s t"
| step_remove: "c \<in> set (clauses s) \<Longrightarrow> ltms_remove c s = Inr t \<Longrightarrow> ltms_step s t"
| step_propagate: "propagate s = Inr (b, t) \<Longrightarrow> ltms_step s t"
| step_conflict: "stamp_blind pr \<Longrightarrow> last_conflict pr [] s = Inr (cs, t) \<Longrightarrow> ltms_step s t"
| step_transition: "ltms_step s (upd_clause c (set_transition b) s)"
| step_mark_prop: "p \<in> set (props s) \<Longrightarrow> ltms_step s (prop_set_destroying p s)"
| step_mark_clause: "c \<in> set (clauses s) \<Longrightarrow> ltms_step s (clause_set_destroying c s)"
| step_finish: "marks_closed s \<Longrightarrow> ltms_finish_destroying s = Inr t \<Longrightarrow> ltms_step s t"

inductive reachable :: "ltms \<Rightarrow> bool" where
  reachable_init: "reachable new_ltms"
| reachable_step: "reachable s \<Longrightarrow> ltms_step s t \<Longrightarrow> reachable t"

lemma last_conflict_consistent: "unsatisfied s = [] \<Longrightarrow> last_conflict pr cs s = Inr (cs, s)"
  by (simp add: last_conflict_def)

text \<open>The flag of a transition clause is not looked at.\<close>

lemma set_transition_lits [simp]:
  "clause_lits (set_transition b c) = clause_lits c" "wf_clause (set_transition b c) = wf_clause c"
  "sup_of (set_transition b c) = sup_of c" "sup_in_range (set_transition b c) = sup_in_range c"
  "clause_ok v e (set_transition b c) = clause_ok v e c"
  by (simp_all add: clause_lits_def wf_clause_def sup_of_def sup_in_range_def clause_ok_def unknown_lits_def
      satisfier_ok_def cong: if_cong option.case_cong)

lemma set_transition_cheap:
  "cheap (upd_clause c (set_transition b) s) d = (if d = c then set_transition b (cheap s c) else cheap s d)"
  by (simp add: upd_clause_def)

lemma set_transition_heap [simp]:
  fixes s :: "'a ltms_scheme"
  shows
  "is_deleted (cheap (upd_clause c (set_transition b) s) d) = is_deleted (cheap s d)"
  "is_in_fringe (cheap (upd_clause c (set_transition b) s) d) = is_in_fringe (cheap s d)"
  "is_unsatisfied (cheap (upd_clause c (set_transition b) s) d) = is_unsatisfied (cheap s d)"
  "is_volatile (cheap (upd_clause c (set_transition b) s) d) = is_volatile (cheap s d)"
  "fringe_index (cheap (upd_clause c (set_transition b) s) d) = fringe_index (cheap s d)"
  "c_time_stamp (cheap (upd_clause c (set_transition b) s) d) = c_time_stamp (cheap s d)"
  "clause_lits (cheap (upd_clause c (set_transition b) s) d) = clause_lits (cheap s d)"
  "wf_clause (cheap (upd_clause c (set_transition b) s) d) = wf_clause (cheap s d)"
  "sup_of (cheap (upd_clause c (set_transition b) s) d) = sup_of (cheap s d)"
  "sup_in_range (cheap (upd_clause c (set_transition b) s) d) = sup_in_range (cheap s d)"
  "clause_ok v e (cheap (upd_clause c (set_transition b) s) d) = clause_ok v e (cheap s d)"
  "clause_datum (cheap (upd_clause c (set_transition b) s) d) = clause_datum (cheap s d)"
  by (simp_all add: set_transition_cheap)

lemma set_transition_state [simp]:
  fixes s :: "'a ltms_scheme"
  shows "props (upd_clause c (set_transition b) s) = props s" "clauses (upd_clause c (set_transition b) s) = clauses s"
    "pheap (upd_clause c (set_transition b) s) = pheap s"
  by (simp_all add: upd_clause_def)

lemma set_transition_ok:
  assumes "ltms_ok s"
  shows "ltms_ok (upd_clause c (set_transition b) s)"
proof -
  let ?t = "upd_clause c (set_transition b) s"
  have f: "next_prop ?t = next_prop s" "next_clause ?t = next_clause s" "time_stamp ?t = time_stamp s"
    "fringe ?t = fringe s" "volatile_fringe ?t = volatile_fringe s" "unsatisfied ?t = unsatisfied s"
    "undo_list ?t = undo_list s" by (simp_all add: upd_clause_def)
  have "theory_ok ?t = theory_ok s" by (simp only: theory_ok_def set_transition_heap set_transition_state f)
  moreover have "clauses_ok {} ?t = clauses_ok {} s" by (simp only: clauses_ok_def set_transition_heap set_transition_state f)
  moreover have "book_ok ?t = book_ok s"
    by (simp only: book_ok_def fringe_ok_def set_transition_heap set_transition_state f)
  moreover have "stamps_ok ?t = stamps_ok s" by (simp only: stamps_ok_def set_transition_heap set_transition_state f)
  moreover have "support_ok r {} ?t = support_ok r {} s" for r
    by (simp only: support_ok_def propagated_lit_def set_transition_heap set_transition_state f)
  ultimately show ?thesis using assms by (simp add: ltms_ok_def f)
qed

lemma ltms_step_ok: "ltms_step s t \<Longrightarrow> ltms_ok s \<Longrightarrow> ltms_ok t"
proof (induction rule: ltms_step.induct)
  case (step_proposition s)
  then show ?case using create_proposition_ok [of s] by (simp add: case_prod_unfold)
next
  case (step_clause posP negP s dm vol inT c t)
  then show ?case using create_clause_ok [of s posP negP dm vol inT]
    by (simp add: valid_clause_def)
next
  case (step_add c s t)
  then show ?case using ltms_add_ok [of s c] by simp
next
  case (step_remove c s t)
  then show ?case using ltms_remove_ok [of s c] by simp
next
  case (step_propagate s b t)
  then show ?case using propagate_ok [of s] by simp
next
  case (step_conflict pr s cs t)
  then show ?case
    using last_conflict_ok [of s pr] last_conflict_consistent [of s pr "[]"]
    by (cases "unsatisfied s = []") auto
next
  case (step_transition s c b)
  then show ?case by (rule set_transition_ok)
next
  case (step_mark_prop p s)
  then show ?case using marks_only_ok marks_only_prop_set_destroying by blast
next
  case (step_mark_clause c s)
  then show ?case using marks_only_ok marks_only_clause_set_destroying by blast
next
  case (step_finish s t)
  then show ?case using finish_destroying_ok [of s] by simp
qed

lemma reachable_inv: "reachable s \<Longrightarrow> ltms_ok s"
  by (induction rule: reachable.induct) (auto intro: new_ltms_ok ltms_step_ok)

lemma create_clause_formula:
  assumes "ltms_ok s" "valid_clause posP negP s"
  shows "returns (ltms_create_clause dm posP negP vol inT s) (\<lambda>(c, t). clauses t = clauses s @ [c] \<and>
     props t = props s \<and> clause_lits (cheap t c) = new_lits posP negP \<and>
     formula t = (if inT then insert ((\<lambda>p. (p, True)) ` set posP \<union> (\<lambda>p. (p, False)) ` set negP) (formula s)
                  else formula s) \<and>
     (\<forall>p. tv (pheap t p) = tv (pheap s p)))"
proof -
  from create_clause_ok [OF assms(1), of posP negP dm vol inT] assms(2) obtain c t where
    t: "ltms_create_clause dm posP negP vol inT s = Inr (c, t)" "clauses t = clauses s @ [c]"
      "active t = (if inT then insert c (active s) else active s)" "clause_lits (cheap t c) = new_lits posP negP"
      "\<forall>d \<in> set (clauses s). clause_lits (cheap t d) = clause_lits (cheap s d)"
      "\<forall>p. tv (pheap t p) = tv (pheap s p)" "props t = props s"
    by (auto simp: returns_iff valid_clause_def)
  have "set (new_lits posP negP) = (\<lambda>p. (p, True)) ` set posP \<union> (\<lambda>p. (p, False)) ` set negP"
    by (auto simp: new_lits_def)
  moreover have "(\<lambda>d. set (clause_lits (cheap t d))) ` active s = formula s"
    using t(5) by (auto simp: formula_def active_def)
  ultimately have "formula t = (if inT then insert ((\<lambda>p. (p, True)) ` set posP \<union> (\<lambda>p. (p, False)) ` set negP) (formula s)
                  else formula s)"
    using t(3,4) by (auto simp: formula_def)
  then show ?thesis using t by simp
qed

subsection \<open>A concrete theory\<close>

text \<open>
  Two propositions \<open>0\<close> and \<open>1\<close>, the clauses \<open>0 \<or> 1\<close> and \<open>\<not> 0\<close>, and the clause \<open>\<not> 1\<close>, which is
  created but in the theory only in \<open>demo_all\<close>.
\<close>

definition demo_props :: ltms where
  "demo_props = snd (create_proposition (snd (create_proposition new_ltms)))"

definition demo_clause :: "prop_id list \<Rightarrow> prop_id list \<Rightarrow> bool \<Rightarrow> ltms \<Rightarrow> ltms" where
  "demo_clause ps ns inT s =
     (case ltms_create_clause None ps ns False inT s of Inl e \<Rightarrow> s | Inr (c, t) \<Rightarrow> t)"

definition demo_with :: "bool \<Rightarrow> ltms" where
  "demo_with b = demo_clause [] [1] b (demo_clause [] [0] True (demo_clause [0, 1] [] True demo_props))"

abbreviation demo :: ltms where "demo \<equiv> demo_with False"
abbreviation demo_all :: ltms where "demo_all \<equiv> demo_with True"

lemma demo_clause_reach:
  assumes "reachable s" "valid_clause ps ns s"
  shows "reachable (demo_clause ps ns inT s) \<and> props (demo_clause ps ns inT s) = props s \<and>
     (\<exists>c. clauses (demo_clause ps ns inT s) = clauses s @ [c]) \<and>
     formula (demo_clause ps ns inT s) =
       (if inT then insert ((\<lambda>p. (p, True)) ` set ps \<union> (\<lambda>p. (p, False)) ` set ns) (formula s) else formula s)"
proof -
  from create_clause_formula [OF reachable_inv [OF assms(1)] assms(2), of None False inT]
  obtain c t where t: "ltms_create_clause None ps ns False inT s = Inr (c, t)" "props t = props s"
    "clauses t = clauses s @ [c]" "formula t =
       (if inT then insert ((\<lambda>p. (p, True)) ` set ps \<union> (\<lambda>p. (p, False)) ` set ns) (formula s) else formula s)"
    by (auto simp: returns_iff)
  then have "reachable t" using assms by (auto intro: reachable_step step_clause)
  with t show ?thesis by (simp add: demo_clause_def)
qed

lemma demo_props_fields: "props demo_props = [0, 1]" "clauses demo_props = []" "formula demo_props = {}"
  by (simp_all add: demo_props_def create_proposition_def new_ltms_def formula_def active_def Let_def)

lemma reachable_demo_props: "reachable demo_props"
  unfolding demo_props_def by (intro reachable_step [OF _ step_proposition] reachable_init)

lemma demo_reach:
  "reachable (demo_with b)" "props (demo_with b) = [0, 1]" "length (clauses (demo_with b)) = 3"
  "formula (demo_with b) = {{(0, True), (1, True)}, {(0, False)}} \<union> (if b then {{(1, False)}} else {})"
proof -
  let ?s1 = "demo_clause [0, 1] [] True demo_props" and ?s2 = "demo_clause [] [0] True (demo_clause [0, 1] [] True demo_props)"
  have v: "props s = [0, 1] \<Longrightarrow> valid_clause [0, 1] [] s" "props s = [0, 1] \<Longrightarrow> valid_clause [] [0] s"
    "props s = [0, 1] \<Longrightarrow> valid_clause [] [1] s" for s :: ltms
    by (simp_all add: valid_clause_def)
  note 1 = demo_clause_reach [OF reachable_demo_props v(1) [OF demo_props_fields(1)], of True]
  have s1: "reachable ?s1" "props ?s1 = [0, 1]" using 1 demo_props_fields by simp_all
  note 2 = demo_clause_reach [OF s1(1) v(2) [OF s1(2)], of True]
  have s2: "reachable ?s2" "props ?s2 = [0, 1]" using 2 s1 by simp_all
  note 3 = demo_clause_reach [OF s2(1) v(3) [OF s2(2)], of b]
  show "reachable (demo_with b)" "props (demo_with b) = [0, 1]" unfolding demo_with_def using 3 s2 by simp_all
  obtain c1 c2 c3 where "clauses ?s1 = [c1]" "clauses ?s2 = clauses ?s1 @ [c2]"
    "clauses (demo_with b) = clauses ?s2 @ [c3]"
    unfolding demo_with_def using 1 2 3 demo_props_fields(2) by auto
  then show "length (clauses (demo_with b)) = 3" by simp
  have f1: "formula ?s1 = {{(0, True), (1, True)}}" using 1 demo_props_fields(3) by simp
  have f2: "formula ?s2 = {{(0, False)}, {(0, True), (1, True)}}" using 2 f1 by simp
  have "formula (demo_with b) = (if b then insert {(1, False)} (formula ?s2) else formula ?s2)"
    unfolding demo_with_def using 3 by simp
  then show "formula (demo_with b) = {{(0, True), (1, True)}, {(0, False)}} \<union> (if b then {{(1, False)}} else {})"
    unfolding f2 by (cases b) (simp_all add: insert_commute)
qed

lemma demo_up: "up (formula demo) (0, False)" "up (formula demo) (1, True)" "\<not> up_conflict (formula demo)"
proof -
  show p: "up (formula demo) (0, False)" by (rule up.unit [of "{(0, False)}"]) (simp_all add: demo_reach)
  then show "up (formula demo) (1, True)"
    by (intro up.unit [of "{(0, True), (1, True)}"]) (auto simp: demo_reach neg_lit_def)
  have "models (\<lambda>p. p = 1) (formula demo)" by (simp add: demo_reach models_def holds_def)
  then show "\<not> up_conflict (formula demo)" using up_conflict_unsat by blast
qed

lemma demo_all_conflict: "up_conflict (formula demo_all)"
proof -
  have p: "up (formula demo_all) (0, False)" by (rule up.unit [of "{(0, False)}"]) (simp_all add: demo_reach)
  then have "up (formula demo_all) (1, True)"
    by (intro up.unit [of "{(0, True), (1, True)}"]) (auto simp: demo_reach neg_lit_def)
  then have "\<forall>k \<in> {(1, False)}. up (formula demo_all) (neg_lit k)" by (simp add: neg_lit_def)
  then show ?thesis unfolding up_conflict_def by (rule bexI) (simp add: demo_reach)
qed

text \<open>The state in which the three clauses have been found inconsistent.\<close>

definition demo_failed :: ltms where
  "demo_failed = (case propagate demo_all of Inl e \<Rightarrow> demo_all | Inr (b, t) \<Rightarrow> t)"

lemma demo_failed: "propagate demo_all = Inr (False, demo_failed)" "reachable demo_failed" "unsatisfied demo_failed \<noteq> []"
proof -
  note ok = reachable_inv [OF demo_reach(1), of True]
  from propagate_ok [OF ok] propagate_computes_up [OF ok] demo_all_conflict obtain t where
    t: "propagate demo_all = Inr (False, t)" "unsatisfied t \<noteq> []"
    by (auto simp: returns_iff)
  then have "demo_failed = t" by (simp add: demo_failed_def)
  then show "propagate demo_all = Inr (False, demo_failed)" "unsatisfied demo_failed \<noteq> []" using t by simp_all
  then show "reachable demo_failed" using demo_reach(1) by (auto intro: reachable_step step_propagate)
qed

text \<open>A predicate that picks the unit clauses.\<close>

definition is_unit :: "clause \<Rightarrow> bool" where "is_unit c \<longleftrightarrow> num_lits c = 1"

lemma is_unit: "stamp_blind is_unit" "is_unit c \<Longrightarrow> length (clause_lits c) = 1"
  by (simp_all add: stamp_blind_def is_unit_def)

lemma demo_clause_exists: "hd (clauses (demo_with b)) \<in> set (clauses (demo_with b))"
  using demo_reach(3) [of b] by (cases "clauses (demo_with b)") auto

subsection \<open>Evaluating small theories\<close>

lemmas flag_eval = flag_defs get_flag_def set_flag_def is_deleted_def is_in_fringe_def
  is_unsatisfied_def is_volatile_def is_destroying_def set_deleted_def set_unsatisfied_def
  set_in_fringe_def take_from_fringe_def set_destroying_def

lemmas create_eval = new_ltms_def create_proposition_def ltms_create_clause_def create_clause_def
  alloc_clause_def ltms_add_def ptheory_add_def upd_clause_def upd_prop_def new_clause_def
  new_proposition_def add_positive_def add_negative_def find_satisfying_prop_def
  count_unassigned_def isTrue_def isFalse_def isUnknown_def upd_clause_res_def set_supports_def
  l2_assert_def insert_into_fringe_def insert_into_unsat_def fringe_push_def Let_def
  to_length_t_def NO_PROPOSITION_def no_clause_def clause_dtor_def upt_rec

lemmas prop_eval = get_fringe_clause_def fringe_pop_def get_unassigned_literal_def assign_def
  assignUpdateSameSense_def assignUpdateOppositeSense_def occ_same_def occ_opposite_def
  assign_same_step_def assign_opposite_step_def remove_from_fringe_def fringe_remove_def
  decr_num_unassigned_def ltms_remove_def ptheory_remove_def get_supports_def

text \<open>
  Three propositions, the unit clause \<open>0\<close> and the clause \<open>0 \<or> 2\<close>; after propagation the second one
  is satisfied by proposition 0. Its support is then moved from proposition 0 to proposition 1.
\<close>

definition move_demo :: ltms where
  "move_demo =
     (case propagate (demo_clause [0, 2] [] True (demo_clause [0] [] True
             (snd (create_proposition (snd (create_proposition (snd (create_proposition new_ltms)))))))) of
        Inl e \<Rightarrow> new_ltms | Inr (b, t) \<Rightarrow> t)"

lemma move_demo_eq:
  "move_demo = \<lparr>pheap = (\<lambda>_. new_proposition)(
       0 := new_proposition\<lparr>positive := [0, 1], tv := PTRUE, supported_by := Some 0\<rparr>,
       2 := new_proposition\<lparr>positive := [1]\<rparr>),
     cheap = (\<lambda>_. no_clause)(
       0 := \<lparr>num_lits = 1, num_pos_lits = 1, num_unassigned = 0, supports = 0, c_flags = 0,
             fringe_index = 0, c_time_stamp = 0, satisfying_prop = Some 0, clause_datum = None, literals = [0]\<rparr>,
       1 := \<lparr>num_lits = 2, num_pos_lits = 2, num_unassigned = 1, supports = -1, c_flags = 0,
             fringe_index = 0, c_time_stamp = 0, satisfying_prop = Some 0, clause_datum = None, literals = [0, 2]\<rparr>),
     props = [0, 1, 2], clauses = [0, 1], time_stamp = 0, next_prop = 3, next_clause = 2, fringe = [],
     volatile_fringe = [], unsatisfied = [], undo_list = []\<rparr>"
  by (simp add: move_demo_def demo_clause_def propagate_def prop_eval create_eval flag_eval fun_eq_iff)

lemma move_demo_reach: "reachable move_demo"
proof -
  let ?s0 = "snd (create_proposition (snd (create_proposition (snd (create_proposition new_ltms)))))"
  let ?s1 = "demo_clause [0] [] True ?s0"
  let ?s2 = "demo_clause [0, 2] [] True ?s1"
  have p: "props ?s0 = [0, 1, 2]" by (simp add: create_proposition_def new_ltms_def Let_def)
  have s0: "reachable ?s0" by (intro reachable_step [OF _ step_proposition] reachable_init)
  have v: "props s = [0, 1, 2] \<Longrightarrow> valid_clause [0] [] s \<and> valid_clause [0, 2] [] s" for s :: ltms
    by (simp add: valid_clause_def)
  have s1: "reachable ?s1" "props ?s1 = [0, 1, 2]"
    using demo_clause_reach [OF s0 conjunct1 [OF v [OF p]], of True] p by simp_all
  have s2: "reachable ?s2"
    using demo_clause_reach [OF s1(1) conjunct2 [OF v [OF s1(2)]], of True] by simp
  from propagate_ok [OF reachable_inv [OF s2]] obtain b t where t: "propagate ?s2 = Inr (b, t)"
    by (auto elim!: returnsE)
  then have "move_demo = t" by (simp add: move_demo_def)
  with s2 t show ?thesis by (auto intro: reachable_step step_propagate)
qed

end
