(* ===== verification/Ltms_Partial.thy ===== *)
theory Ltms_Partial
  imports Ltms_Reach
begin

text \<open>
  \<open>partial_propagate\<close>: the same propagation in slices. Its answers are right, but the clause that
  propagated a value is not told what it supports (\<open>set_supports\<close> is called by \<open>propagate\<close> only),
  so that removing the clause later does not undo the value.
\<close>

lemma partial_round:
  assumes inv: "base_inv s" and vd: "values_derivable s" and fr: "is_in_fringe (cheap s c)"
    and ch: "changes {c} cl_leave_fringe [] s s1"
  shows "\<exists>p b t. get_unassigned_literal (pheap s1) (cheap s1 c) = Inr (p, b) \<and> assign p b c s1 = Inr t \<and>
     base_inv t \<and> kept s t \<and> values_derivable t \<and> (\<forall>q \<in> assigned s. pheap t q = pheap s q)"
proof -
  from inv have bk: "book_ok s" and th: "theory_ok s" and cl: "clauses_ok {} s" by (auto simp: base_inv_def)
  obtain p b where c: "c \<in> set (clauses s)"
    and gl: "get_unassigned_literal (pheap s1) (cheap s1 c) = Inr (p, b)"
    and l: "(p, b) \<in> set (clause_lits (cheap s c))" "lit_tv (pheap s) (p, b) = UNKNOWN"
    and others: "\<And>l. l \<in> set (clause_lits (cheap s c)) \<Longrightarrow> l \<noteq> (p, b) \<Longrightarrow> lit_tv (pheap s) l = PFALSE"
    and nd: "\<not> is_deleted (cheap s c)" and pp: "p \<in> set (props s)" "tv (pheap s p) = UNKNOWN"
    and s1: "book_ok s1" "theory_ok s1" "clauses_ok {c} s1" and k1: "kept s s1" and ph1: "pheap s1 = pheap s"
    by (rule pop_unit [OF bk th cl fr ch], rule that, assumption+)
  have "returns (assign p b c s1) (\<lambda>t. book_ok t \<and> clauses_ok {} t \<and> kept s1 t \<and>
     pheap t = (pheap s1)(p := (pheap s1 p)\<lparr>tv := (if b then PTRUE else PFALSE), supported_by := Some c\<rparr>) \<and>
     undo_list t = undo_list s1 \<and> (\<forall>d. supports (cheap t d) = supports (cheap s1 d)))"
    by (rule assign_ok [OF s1]) (use pp l keptD(1,10) [OF k1] ph1 in auto)
  then obtain t where t: "assign p b c s1 = Inr t" "book_ok t" "clauses_ok {} t" "kept s1 t"
    and pt: "pheap t = (pheap s)(p := (pheap s p)\<lparr>tv := (if b then PTRUE else PFALSE), supported_by := Some c\<rparr>)"
    by (auto simp: returns_iff ph1)
  have k: "kept s t" using k1 t(4) by (rule kept_trans)
  have act: "set (clause_lits (cheap s c)) \<in> formula s" using c nd by (auto simp: formula_def active_def)
  have new: "up (formula s) (p, b)"
  proof (rule up.unit [OF act l(1)], intro ballI impI)
    fix x assume x: "x \<in> set (clause_lits (cheap s c))" "x \<noteq> (p, b)"
    from vd [unfolded values_derivable_def, rule_format, of "neg_lit x"] others [OF x] theory_lits [OF th c x(1)]
    show "up (formula s) (neg_lit x)" by simp
  qed
  have "up (formula s) x" if x: "fst x \<in> set (props s)" "lit_tv (pheap t) x = PTRUE" for x
  proof (cases "fst x = p")
    case True
    then have "x = (p, b)" using x(2) by (cases x; cases b) (auto simp: lit_tv_def pt split: if_splits)
    then show ?thesis using new by simp
  next
    case False
    then have "lit_tv (pheap s) x = PTRUE" using x(2) by (cases x) (simp add: pt lit_tv_simps)
    then show ?thesis using vd x(1) unfolding values_derivable_def by blast
  qed
  then have "values_derivable t"
    using keptD(1) [OF k] formula_kept [OF k] by (simp add: values_derivable_def)
  moreover have "base_inv t" using t kept_theory [OF k] th by (simp add: base_inv_def)
  moreover have "\<forall>q \<in> assigned s. pheap t q = pheap s q" using pp by (auto simp: assigned_def pt)
  ultimately show ?thesis using gl t(1) k by blast
qed

lemma partial_propagate_inv:
  assumes "base_inv s" "values_derivable s"
  shows "returns (partial_propagate n s) (\<lambda>(fin, consistent, t). base_inv t \<and> kept s t \<and> values_derivable t \<and>
     (fin \<longrightarrow> consistent = Some (unsatisfied t = [])) \<and> (fin \<and> unsatisfied t = [] \<longrightarrow> quiet_fringe t))"
  using assms
proof (induction n arbitrary: s)
  case 0
  then show ?case by simp
next
  case (Suc n)
  show ?case
  proof (cases "unsatisfied s = []")
    case False
    then show ?thesis using Suc.prems by simp
  next
    case True
    have bk: "book_ok s" using Suc.prems(1) by (simp add: base_inv_def)
    from get_fringe_clause_ok [OF bk] obtain cl s1 where gf: "get_fringe_clause s = Inr (cl, s1)"
      and post: "case cl of None \<Rightarrow> s1 = s \<and> quiet_fringe s
        | Some c \<Rightarrow> is_in_fringe (cheap s c) \<and> changes {c} cl_leave_fringe [] s s1"
      by (auto simp: returns_iff)
    show ?thesis
    proof (cases cl)
      case None
      then show ?thesis using True gf post Suc.prems by simp
    next
      case (Some c)
      with post partial_round [OF Suc.prems, of c s1] obtain p b t where
        r: "get_unassigned_literal (pheap s1) (cheap s1 c) = Inr (p, b)" "assign p b c s1 = Inr t"
        and t: "base_inv t" "values_derivable t" and k: "kept s t" by auto
      have "returns (partial_propagate n t) (\<lambda>(fin, consistent, u). base_inv u \<and> kept s u \<and> values_derivable u \<and>
         (fin \<longrightarrow> consistent = Some (unsatisfied u = [])) \<and> (fin \<and> unsatisfied u = [] \<longrightarrow> quiet_fringe u))"
        by (rule returns_mono [OF Suc.IH [OF t]]) (use k kept_trans in auto)
      then show ?thesis using True gf Some r by simp
    qed
  qed
qed

text \<open>What \<open>partial_propagate\<close> promises, whatever the number of iterations.\<close>

lemma partial_propagate_ok:
  assumes "ltms_ok s"
  shows "returns (partial_propagate n s) (\<lambda>(fin, consistent, t). formula t = formula s \<and>
     (fin \<longrightarrow> consistent = Some (\<not> up_conflict (formula s))) \<and>
     (\<forall>l. fst l \<in> set (props s) \<longrightarrow> lit_tv (pheap t) l = PTRUE \<longrightarrow> up (formula s) l) \<and>
     (fin \<and> \<not> up_conflict (formula s) \<longrightarrow> (\<forall>l. up (formula s) l \<longrightarrow> lit_tv (pheap t) l = PTRUE)))"
proof -
  from assms obtain r where b: "base_inv s" and sup: "support_ok r {} s" "theory_ok s"
    by (auto simp: ltms_ok_def base_inv_def)
  have vd: "values_derivable s" using value_derivable [OF sup] by (simp add: values_derivable_def)
  from partial_propagate_inv [OF b vd, of n] obtain fin consistent t where
    eq: "partial_propagate n s = Inr (fin, consistent, t)" and t: "base_inv t" "values_derivable t"
    and k: "kept s t" and f: "fin \<longrightarrow> consistent = Some (unsatisfied t = [])"
      "fin \<and> unsatisfied t = [] \<longrightarrow> quiet_fringe t"
    by (auto simp: returns_iff)
  have iff: "unsatisfied t = [] \<longleftrightarrow> \<not> up_conflict (formula s)" if fin
    using that f fixpoint_no_conflict [OF t(1)] unsat_conflict [OF t] formula_kept [OF k] by auto
  have "up (formula s) l" if "fst l \<in> set (props s)" "lit_tv (pheap t) l = PTRUE" for l
    using t(2) that unfolding values_derivable_def formula_kept [OF k] keptD(1) [OF k] by blast
  moreover have "lit_tv (pheap t) l = PTRUE" if "fin" "\<not> up_conflict (formula s)" "up (formula s) l" for l
    using fixpoint_complete [OF t(1)] iff f that formula_kept [OF k] by auto
  ultimately show ?thesis unfolding eq using f iff formula_kept [OF k] by auto
qed

end
