(* ===== verification/Ltms_Properties.thy ===== *)
theory Ltms_Properties
  imports Ltms_Partial
begin

text \<open>
  The properties of the LTMS, stated over the states that the steps of \<open>ltms_step\<close> reach, each with a
  concrete instance: the theory \<open>demo\<close>, in which propagation derives \<open>\<not> p\<close> and \<open>q\<close>.
\<close>

subsection \<open>The formula of a state\<close>

lemma formula_eq:
  assumes "active t = A" "\<forall>d. clause_lits (cheap t d) = clause_lits (cheap s d)"
  shows "formula t = (\<lambda>c. set (clause_lits (cheap s c))) ` A"
  using assms by (simp add: formula_def)

lemma reachable_steps:
  "reachable s \<Longrightarrow> c \<in> set (clauses s) \<Longrightarrow> ltms_add c s = Inr t \<Longrightarrow> reachable t"
  "reachable s \<Longrightarrow> c \<in> set (clauses s) \<Longrightarrow> ltms_remove c s = Inr t \<Longrightarrow> reachable t"
  "reachable s \<Longrightarrow> propagate s = Inr (b, t) \<Longrightarrow> reachable t"
  "reachable s \<Longrightarrow> stamp_blind pr \<Longrightarrow> last_conflict pr [] s = Inr (cs, t) \<Longrightarrow> reachable t"
  "reachable s \<Longrightarrow> valid_clause posP negP s \<Longrightarrow>
     ltms_create_clause dm posP negP vol inT s = Inr (c, t) \<Longrightarrow> reachable t"
  "reachable s \<Longrightarrow> reachable (upd_clause c (set_transition b) s)"
  by (auto intro: reachable_step ltms_step.intros)

lemma reachable_values:
  assumes "reachable s" "fst l \<in> set (props s)" "lit_tv (pheap s) l = PTRUE"
  shows "up (formula s) l"
proof -
  from reachable_inv [OF assms(1)] obtain r where "support_ok r {} s" "theory_ok s" by (auto simp: ltms_ok_def)
  from value_derivable [OF this assms(2,3)] show ?thesis .
qed

subsection \<open>Properties\<close>

text \<open>
  C1. In every reachable state \<open>propagate\<close> returns; it keeps the clauses of the theory, returns true
  exactly when unit propagation on them meets no conflict, assigns only derivable literals, and,
  when it returns true, has assigned every derivable literal. The answer depends on the clauses
  alone, not on the additions, removals and propagations that led to the state.
\<close>

theorem propagate_is_unit_propagation:
  assumes "reachable s"
  shows "returns (propagate s) (\<lambda>(b, t). reachable t \<and> formula t = formula s \<and>
     (b \<longleftrightarrow> \<not> up_conflict (formula s)) \<and>
     (\<forall>l. fst l \<in> set (props s) \<longrightarrow> lit_tv (pheap t) l = PTRUE \<longrightarrow> up (formula s) l) \<and>
     (b \<longrightarrow> (\<forall>l. up (formula s) l \<longrightarrow> lit_tv (pheap t) l = PTRUE)))"
proof -
  from propagate_computes_up [OF reachable_inv [OF assms]] obtain b t where t: "propagate s = Inr (b, t)"
    and post: "ltms_ok t \<and> formula t = formula s \<and> (b \<longleftrightarrow> \<not> up_conflict (formula s)) \<and>
     (\<forall>l. fst l \<in> set (props s) \<longrightarrow> lit_tv (pheap t) l = PTRUE \<longrightarrow> up (formula s) l) \<and>
     (b \<longrightarrow> (\<forall>l. up (formula s) l \<longrightarrow> lit_tv (pheap t) l = PTRUE))"
    by (auto simp: returns_iff)
  from reachable_steps(3) [OF assms t] post show ?thesis by (simp add: t)
qed

theorem propagate_is_unit_propagation_witness:
  "returns (propagate demo) (\<lambda>(b, t). b \<and> tv (pheap t 0) = PFALSE \<and> tv (pheap t 1) = PTRUE)"
  using propagate_is_unit_propagation [OF demo_reach(1), of False]
proof (rule returns_mono)
  fix x
  assume x: "case x of (b, t) \<Rightarrow> reachable t \<and> formula t = formula demo \<and>
     (b \<longleftrightarrow> \<not> up_conflict (formula demo)) \<and>
     (\<forall>l. fst l \<in> set (props demo) \<longrightarrow> lit_tv (pheap t) l = PTRUE \<longrightarrow> up (formula demo) l) \<and>
     (b \<longrightarrow> (\<forall>l. up (formula demo) l \<longrightarrow> lit_tv (pheap t) l = PTRUE))"
  obtain b t where [simp]: "x = (b, t)" by (cases x)
  have "b" "lit_tv (pheap t) (0, False) = PTRUE" "lit_tv (pheap t) (1, True) = PTRUE"
    using x demo_up by simp_all
  then show "case x of (b, t) \<Rightarrow> b \<and> tv (pheap t 0) = PFALSE \<and> tv (pheap t 1) = PTRUE"
    by (simp add: lit_tv_def)
qed

text \<open>
  C2. The clauses that \<open>last_conflict\<close> returns are distinct, in the theory and satisfy the predicate;
  and, when the clauses that satisfy the predicate are unit clauses, they have no model together
  with the clauses of the theory that do not satisfy it.
\<close>

theorem last_conflict_unsatisfiable:
  assumes "reachable s" "stamp_blind pr" "unsatisfied s \<noteq> []"
    and "\<forall>c \<in> active s. pr (cheap s c) \<longrightarrow> length (clause_lits (cheap s c)) = 1"
  shows "returns (last_conflict pr [] s) (\<lambda>(cs, t). reachable t \<and> distinct cs \<and>
     (\<forall>c \<in> set cs. c \<in> active s \<and> pr (cheap s c)) \<and> (\<forall>m. \<not> models m (conflict_formula pr cs s)))"
proof -
  from last_conflict_ok [OF reachable_inv [OF assms(1)] assms(2,3)] obtain cs t where
    t: "last_conflict pr [] s = Inr (cs, t)"
    and post: "distinct cs \<and> (\<forall>c \<in> set cs. c \<in> active s \<and> pr (cheap s c)) \<and>
     ((\<forall>c \<in> active s. pr (cheap s c) \<longrightarrow> length (clause_lits (cheap s c)) = 1) \<longrightarrow>
       (\<forall>m. \<not> models m (conflict_formula pr cs s)))"
    by (auto simp: returns_iff)
  from reachable_steps(4) [OF assms(1,2) t] post assms(4) show ?thesis by (simp add: t)
qed

theorem last_conflict_unsatisfiable_witness:
  "returns (last_conflict is_unit [] demo_failed) (\<lambda>(cs, t). distinct cs \<and>
     (\<forall>c \<in> set cs. is_unit (cheap demo_failed c)) \<and> (\<forall>m. \<not> models m (conflict_formula is_unit cs demo_failed)))"
  using last_conflict_unsatisfiable [OF demo_failed(2) is_unit(1) demo_failed(3)] is_unit(2)
  by (auto elim!: returns_mono)

text \<open>
  C3. Every state that the steps of \<open>ltms_step\<close> reach satisfies the invariant of the LTMS: back
  pointers, counters, satisfying propositions, the two fringes, the unsatisfied clauses, time stamps,
  and a sound and acyclic support structure; and the undo list is empty. The steps are creating
  propositions and clauses, adding, removing, propagating, extracting conflicts, setting the
  transition flag, marking for destruction, and \<open>finish_destroying\<close> when every clause over a marked
  proposition is marked. The public \<open>partial_propagate\<close>, \<open>move_support\<close> and \<open>initialize\<close> are not
  steps: each can break the invariant, as the runs of \<open>Ltms_Findings\<close> show.
\<close>

theorem reachable_states_ok:
  assumes "reachable s"
  shows "ltms_ok s"
  using assms by (rule reachable_inv)

theorem reachable_states_ok_witness: "ltms_ok demo_failed \<and> unsatisfied demo_failed \<noteq> []"
  using reachable_states_ok [OF demo_failed(2)] demo_failed(3) by blast

text \<open>
  C4. In every reachable state no call raises an exception, fails an assertion or runs out of fuel.
\<close>

theorem calls_return:
  assumes "reachable s" "c \<in> set (clauses s)" "valid_clause posP negP s" "stamp_blind pr"
  shows "(\<exists>t. ltms_add c s = Inr t) \<and> (\<exists>t. ltms_remove c s = Inr t) \<and>
     (\<exists>t. ltms_create_clause dm posP negP vol inT s = Inr t) \<and> (\<exists>t. propagate s = Inr t) \<and>
     (\<exists>t. last_conflict pr [] s = Inr t)"
proof -
  note ok = reachable_inv [OF assms(1)]
  show ?thesis
    using ltms_add_ok [OF ok assms(2)] ltms_remove_ok [OF ok assms(2)] propagate_ok [OF ok]
      create_clause_ok [OF ok, of posP negP dm vol inT] assms(3) last_conflict_ok [OF ok assms(4)]
      last_conflict_consistent [of s pr "[]"]
    by (cases "unsatisfied s = []") (auto simp: returns_iff valid_clause_def)
qed

theorem calls_return_witness:
  "\<exists>t. ltms_remove (hd (clauses demo)) demo = Inr t"
  using calls_return [OF demo_reach(1) demo_clause_exists _ is_unit(1), of "[]" "[]" False]
  by (simp add: valid_clause_def)

text \<open>
  C5. Removing a clause takes it out of the theory, forgets values and assigns none, and every value
  that stays is derivable from the clauses that stay.
\<close>

theorem remove_retracts:
  assumes "reachable s" "c \<in> set (clauses s)"
  shows "returns (ltms_remove c s) (\<lambda>t. reachable t \<and>
     formula t = (\<lambda>d. set (clause_lits (cheap s d))) ` (active s - {c}) \<and> forgets s t \<and>
     (\<forall>l. fst l \<in> set (props s) \<longrightarrow> lit_tv (pheap t) l = PTRUE \<longrightarrow> up (formula t) l))"
proof -
  from ltms_remove_ok [OF reachable_inv [OF assms(1)] assms(2)] obtain t where
    t: "ltms_remove c s = Inr t" "active t = active s - {c}" "forgets s t" "props t = props s"
      "\<forall>d. clause_lits (cheap t d) = clause_lits (cheap s d)"
    by (auto simp: returns_iff same_contents_def)
  note r = reachable_steps(2) [OF assms t(1)]
  show ?thesis using r reachable_values [OF r] t(3,4) formula_eq [OF t(2,5)] by (simp add: t(1))
qed

theorem remove_retracts_witness:
  "returns (ltms_remove (hd (clauses demo_all)) demo_all) (\<lambda>t. reachable t \<and> forgets demo_all t)"
  using remove_retracts [OF demo_reach(1) demo_clause_exists, of True] by (auto elim!: returns_mono)

text \<open>Adding a clause puts it into the theory and changes no value.\<close>

theorem add_extends:
  assumes "reachable s" "c \<in> set (clauses s)"
  shows "returns (ltms_add c s) (\<lambda>t. reachable t \<and>
     formula t = insert (set (clause_lits (cheap s c))) (formula s) \<and> pheap t = pheap s)"
proof -
  from ltms_add_ok [OF reachable_inv [OF assms(1)] assms(2)] obtain t where
    t: "ltms_add c s = Inr t" "active t = insert c (active s)" "pheap t = pheap s"
      "\<forall>d. clause_lits (cheap t d) = clause_lits (cheap s d)"
    by (auto simp: returns_iff same_contents_def)
  have "formula t = insert (set (clause_lits (cheap s c))) (formula s)"
    using formula_eq [OF t(2,4)] by (simp add: formula_def)
  then show ?thesis using reachable_steps(1) [OF assms t(1)] t(3) by (simp add: t(1))
qed

theorem add_extends_witness:
  "returns (ltms_add (last (clauses demo)) demo) (\<lambda>t. reachable t \<and> pheap t = pheap demo)"
proof -
  have "last (clauses demo) \<in> set (clauses demo)"
    using demo_reach(3) [of False] by (intro last_in_set) auto
  from add_extends [OF demo_reach(1) this] show ?thesis by (auto elim!: returns_mono)
qed



text \<open>
  C7. Soundness for models: if the clauses of the theory have a model, \<open>propagate\<close> returns true and
  every value it leaves agrees with that model.
\<close>

theorem propagate_agrees_with_models:
  assumes "reachable s" "propagate s = Inr (b, t)" "models m (formula s)"
  shows "b \<and> (\<forall>p \<in> set (props s). (tv (pheap t p) = PTRUE \<longrightarrow> m p) \<and> (tv (pheap t p) = PFALSE \<longrightarrow> \<not> m p))"
proof -
  have post: "b \<longleftrightarrow> \<not> up_conflict (formula s)"
    "\<And>l. fst l \<in> set (props s) \<Longrightarrow> lit_tv (pheap t) l = PTRUE \<Longrightarrow> up (formula s) l"
    using propagate_computes_up [OF reachable_inv [OF assms(1)]]
    unfolding assms(2) returns_Inr prod.case by blast+
  have "holds m l" if "fst l \<in> set (props s)" "lit_tv (pheap t) l = PTRUE" for l
    using up_holds [OF post(2) [OF that] assms(3)] .
  from this [of "(_, True)"] this [of "(_, False)"] show ?thesis
    using post(1) up_conflict_unsat assms(3) by (auto simp: lit_tv_def holds_def)
qed

theorem propagate_agrees_with_models_witness:
  "\<exists>t. propagate demo = Inr (True, t) \<and> tv (pheap t 0) \<noteq> PTRUE \<and> tv (pheap t 1) \<noteq> PFALSE"
proof -
  obtain b t where t: "propagate demo = Inr (b, t)"
    using propagate_ok [OF reachable_inv [OF demo_reach(1)], of False] by (auto simp: returns_iff)
  have "models (\<lambda>p. p = 1) (formula demo)" by (simp add: demo_reach models_def holds_def)
  from propagate_agrees_with_models [OF demo_reach(1) t this] t show ?thesis by (simp add: demo_reach)
qed

text \<open>
  C10. Creating a clause: its literals are those of the two lists without duplicates; it is in the
  theory at once when asked for, and no value changes.
\<close>

theorem create_clause_spec:
  assumes "reachable s" "valid_clause posP negP s"
  shows "returns (ltms_create_clause dm posP negP vol inT s) (\<lambda>(c, t). reachable t \<and>
     clauses t = clauses s @ [c] \<and> clause_lits (cheap t c) = new_lits posP negP \<and>
     formula t = (if inT then insert ((\<lambda>p. (p, True)) ` set posP \<union> (\<lambda>p. (p, False)) ` set negP) (formula s)
                  else formula s) \<and>
     (\<forall>p. tv (pheap t p) = tv (pheap s p)))"
proof -
  from create_clause_formula [OF reachable_inv [OF assms(1)] assms(2), of dm vol inT] obtain c t where
    t: "ltms_create_clause dm posP negP vol inT s = Inr (c, t)" and post: "clauses t = clauses s @ [c] \<and>
     props t = props s \<and> clause_lits (cheap t c) = new_lits posP negP \<and>
     formula t = (if inT then insert ((\<lambda>p. (p, True)) ` set posP \<union> (\<lambda>p. (p, False)) ` set negP) (formula s)
                  else formula s) \<and> (\<forall>p. tv (pheap t p) = tv (pheap s p))"
    by (auto simp: returns_iff)
  from reachable_steps(5) [OF assms t] post show ?thesis by (simp add: t)
qed

theorem create_clause_spec_witness:
  "returns (ltms_create_clause None [0, 1, 0] [] False True demo) (\<lambda>(c, t).
     clause_lits (cheap t c) = [(0, True), (1, True)])"
proof -
  have "valid_clause [0, 1, 0] [] demo" by (simp add: valid_clause_def demo_reach)
  from create_clause_spec [OF demo_reach(1) this, of None False True] show ?thesis
    by (auto elim!: returns_mono simp: new_lits_def)
qed



text \<open>
  C11. A new cohort of the conflict search, also when the 16-bit counter is at its maximum: no clause
  of the theory carries the new time stamp, and nothing but time stamps has changed.
\<close>

theorem new_cohort_is_fresh:
  assumes "reachable s" "c \<in> set (clauses s)"
  shows "c_time_stamp (cheap (new_cohort s) c) < time_stamp (new_cohort s) \<and> stamps_only s (new_cohort s)"
  using new_cohort_ok [of s] reachable_inv [OF assms(1)] assms(2) by (simp add: ltms_ok_def)

theorem new_cohort_is_fresh_witness:
  "c_time_stamp (cheap (new_cohort demo) (hd (clauses demo))) < time_stamp (new_cohort demo)"
  using new_cohort_is_fresh [OF demo_reach(1) demo_clause_exists, of False] by blast

text \<open>
  C9. \<open>finish_destroying\<close>, when every clause over a marked proposition is marked (marking a
  proposition marks its clauses), raises nothing: exactly the marked clauses and propositions are
  gone, the other clauses keep their literals and stay in or out of the theory, and the values are
  those of unit propagation on the clauses left: none rests on a destroyed clause, and, when they
  meet no conflict, none is missing.
\<close>

theorem finish_destroying_retracts:
  assumes "reachable s" "marks_closed s"
  shows "returns (ltms_finish_destroying s) (\<lambda>t. reachable t \<and>
     set (clauses t) = {c \<in> set (clauses s). \<not> is_destroying (cheap s c)} \<and>
     set (props t) = {p \<in> set (props s). \<not> prop_is_destroying (pheap s p)} \<and>
     active t = {c \<in> active s. \<not> is_destroying (cheap s c)} \<and>
     (\<forall>c \<in> set (clauses t). clause_lits (cheap t c) = clause_lits (cheap s c)) \<and>
     (\<forall>l. fst l \<in> set (props t) \<longrightarrow> lit_tv (pheap t) l = PTRUE \<longrightarrow> up (formula t) l) \<and>
     (\<not> up_conflict (formula t) \<longrightarrow> (\<forall>l. up (formula t) l \<longrightarrow> lit_tv (pheap t) l = PTRUE)))"
proof -
  have "active s \<subseteq> set (clauses s)" by (auto simp: active_def)
  then have m: "set (clauses s) - marked_clauses s = {c \<in> set (clauses s). \<not> is_destroying (cheap s c)}"
    "set (props s) - marked_props s = {p \<in> set (props s). \<not> prop_is_destroying (pheap s p)}"
    "active s - marked_clauses s = {c \<in> active s. \<not> is_destroying (cheap s c)}"
    by (auto simp: marked_clauses_def marked_props_def)
  show ?thesis
    using finish_destroying_ok [OF reachable_inv [OF assms(1)] assms(2)] reachable_step [OF assms(1) step_finish [OF assms(2)]]
    by (auto simp: m returns_iff)
qed

theorem finish_destroying_retracts_witness:
  "tv (pheap move_demo 0) = PTRUE \<and> returns (ltms_finish_destroying (clause_set_destroying 0 move_demo))
     (\<lambda>t. set (clauses t) = {1} \<and> set (props t) = {0, 1, 2} \<and> tv (pheap t 0) \<noteq> PTRUE)"
proof -
  let ?s = "clause_set_destroying 0 move_demo"
  have e: "clauses ?s = [0, 1]" "props ?s = [0, 1, 2]" "\<And>p. \<not> prop_is_destroying (pheap ?s p)"
    "is_destroying (cheap ?s 0)" "\<not> is_destroying (cheap ?s 1)" "clause_lits (cheap ?s 1) = [(0, True), (2, True)]"
    "tv (pheap move_demo 0) = PTRUE"
    by (simp_all add: move_demo_eq clause_set_destroying_def upd_clause_def prop_is_destroying_def
        new_proposition_def is_destroying_def get_flag_def flag_defs set_destroying_def set_flag_def clause_lits_def upt_rec)
  have r: "reachable ?s" by (rule reachable_step [OF move_demo_reach step_mark_clause]) (simp add: move_demo_eq)
  have mc: "marks_closed ?s" using e(3) by (simp add: marks_closed_def)
  have unset: "tv (pheap t 0) \<noteq> PTRUE" if t: "set (clauses t) = {c \<in> set (clauses ?s). \<not> is_destroying (cheap ?s c)}"
    "\<forall>c \<in> set (clauses t). clause_lits (cheap t c) = clause_lits (cheap ?s c)" "0 \<in> set (props t)"
    "\<forall>l. fst l \<in> set (props t) \<longrightarrow> lit_tv (pheap t) l = PTRUE \<longrightarrow> up (formula t) l" for t :: ltms
  proof
    assume "tv (pheap t 0) = PTRUE"
    then have u: "up (formula t) (0, True)" using t(3,4) by (simp add: lit_tv_def)
    have "models (\<lambda>p. p = 2) (formula t)" using t(1,2) e(1,4,5,6) by (auto simp: formula_def active_def models_def holds_def)
    from up_holds [OF u this] show False by (simp add: holds_def)
  qed
  have "returns (ltms_finish_destroying ?s)
      (\<lambda>t. set (clauses t) = {1} \<and> set (props t) = {0, 1, 2} \<and> tv (pheap t 0) \<noteq> PTRUE)"
  proof (rule returns_mono [OF finish_destroying_retracts [OF r mc]], elim conjE, intro conjI)
    fix t :: ltms
    assume c: "set (clauses t) = {c \<in> set (clauses ?s). \<not> is_destroying (cheap ?s c)}"
      and p: "set (props t) = {p \<in> set (props ?s). \<not> prop_is_destroying (pheap ?s p)}"
      and l: "\<forall>c \<in> set (clauses t). clause_lits (cheap t c) = clause_lits (cheap ?s c)"
      and u: "\<forall>l. fst l \<in> set (props t) \<longrightarrow> lit_tv (pheap t) l = PTRUE \<longrightarrow> up (formula t) l"
    show "set (clauses t) = {1}" unfolding c e(1) using e(4,5) by auto
    show "set (props t) = {0, 1, 2}" unfolding p e(2) using e(3) by auto
    then show "tv (pheap t 0) \<noteq> PTRUE" by (intro unset [OF c l _ u]) simp
  qed
  with e(7) show ?thesis by blast
qed

end
