(* ===== verification/Ltms_Findings.thy ===== *)
theory Ltms_Findings
  imports Ltms_Partial
begin

text \<open>
  Concrete runs of the LTMS, evaluated by the simplifier, in which the code does not do what its
  comments say: removing a clause after \<open>partial_propagate\<close>, \<open>initialize\<close> with a deleted unit
  clause, \<open>move_support\<close> when the assignment is lost, and clauses of 128 literals and more.
\<close>

text \<open>One proposition and the unit clause that asserts it.\<close>

definition unit_demo :: "bool \<Rightarrow> ltms" where
  "unit_demo inT = demo_clause [0] [] inT (snd (create_proposition new_ltms))"

lemma unit_demo_eq:
  "unit_demo True = \<lparr>pheap = (\<lambda>_. new_proposition)(0 := new_proposition\<lparr>positive := [0]\<rparr>),
     cheap = (\<lambda>_. no_clause)(0 := \<lparr>num_lits = 1, num_pos_lits = 1, num_unassigned = 1, supports = -1,
       c_flags = 2, fringe_index = 0, c_time_stamp = 0, satisfying_prop = None, clause_datum = None,
       literals = [0]\<rparr>),
     props = [0], clauses = [0], time_stamp = 0, next_prop = 1, next_clause = 1, fringe = [0],
     volatile_fringe = [], unsatisfied = [], undo_list = []\<rparr>"
  "unit_demo False = \<lparr>pheap = (\<lambda>_. new_proposition)(0 := new_proposition\<lparr>positive := [0]\<rparr>),
     cheap = (\<lambda>_. no_clause)(0 := \<lparr>num_lits = 1, num_pos_lits = 1, num_unassigned = 0, supports = -1,
       c_flags = 1, fringe_index = 0, c_time_stamp = 0, satisfying_prop = None, clause_datum = None,
       literals = [0]\<rparr>),
     props = [0], clauses = [0], time_stamp = 0, next_prop = 1, next_clause = 1, fringe = [],
     volatile_fringe = [], unsatisfied = [], undo_list = []\<rparr>"
  by (simp_all add: unit_demo_def demo_clause_def create_eval flag_eval fun_eq_iff)

text \<open>
  After \<open>partial_propagate\<close>, removing the only clause of the theory leaves the value it had
  propagated: the theory is empty and the proposition is still true.
\<close>

theorem partial_propagate_breaks_remove:
  "case partial_propagate 2 (unit_demo True) of
     Inl e \<Rightarrow> False
   | Inr (fin, consistent, t) \<Rightarrow> fin \<and> consistent = Some True \<and>
       (case ltms_remove 0 t of
          Inl e \<Rightarrow> False
        | Inr u \<Rightarrow> active u = {} \<and> undo_list u = [] \<and> tv (pheap u 0) = PTRUE)"
  by (simp add: unit_demo_eq numeral_2_eq_2 prop_eval create_eval flag_eval active_def)

text \<open>
  \<open>LTMS::initialize\<close> puts a deleted unit clause into the fringe, so that the next propagation
  asserts a clause that is not in the theory.
\<close>

theorem initialize_propagates_deleted_clause:
  "active (ltms_initialize (unit_demo False)) = {} \<and>
   (case propagate (ltms_initialize (unit_demo False)) of
      Inl e \<Rightarrow> False
    | Inr (consistent, t) \<Rightarrow> active t = {} \<and> tv (pheap t 0) = PTRUE)"
  by (simp add: unit_demo_eq ltms_initialize_def ptheory_initialize_def clause_initialize_def
      prop_initialize_def propagate_def prop_eval create_eval flag_eval active_def)

text \<open>
  When \<open>move_support\<close> loses the assignment, a transferred clause is marked as satisfied by the
  new proposition, although that proposition has no value.
\<close>

theorem move_support_stale_satisfier:
  "case move_support 0 [1] 1 move_demo of
     Inl e \<Rightarrow> False
   | Inr t \<Rightarrow> clause_lits (cheap t 1) = [(1, True), (2, True)] \<and> num_unassigned (cheap t 1) = 2 \<and>
       satisfying_prop (cheap t 1) = Some 1 \<and> tv (pheap t 1) = UNKNOWN \<and>
       \<not> satisfier_ok (lit_tv (pheap t)) (cheap t 1)"
  by (simp add: move_demo_eq move_support_def transfer_clauses_def transfer_clause_def
      transfer_literal_def remove_positive_def array_erase_first_def swap_remove_def
      incr_num_unassigned_def clause_lits_def satisfier_ok_def lit_tv_def create_eval)

text \<open>
  The number of literals is kept in a signed byte: a clause of \<open>n\<close> distinct positive literals,
  \<open>128 \<le> n < 256\<close>, gets the length \<open>n - 256\<close>, and no loop over it sees a literal.
\<close>

theorem large_clause_length_wraps:
  assumes "distinct ps" "128 \<le> length ps" "length ps < 256"
  shows "num_lits (new_clause dm ps [] vol) = int (length ps) - 256 \<and>
     length (literals (new_clause dm ps [] vol)) = length ps \<and> clause_lits (new_clause dm ps [] vol) = []"
proof -
  have "(int (length ps) + 128) mod 256 = (int (length ps) - 128) mod 256"
    using mod_add_self2 [of "int (length ps) - 128" 256] by (simp add: add.commute)
  also have "\<dots> = int (length ps) - 128"
    using assms(2,3) by (intro mod_pos_pos_trivial) auto
  finally have "(int (length ps) + 128) mod 256 = int (length ps) - 128" .
  then have "num_lits (new_clause dm ps [] vol) = int (length ps) - 256"
    using assms by (simp add: new_clause_def to_length_t_def Let_def)
  moreover have "literals (new_clause dm ps [] vol) = ps"
    using assms by (simp add: new_clause_def Let_def)
  ultimately show ?thesis using assms by (simp add: clause_lits_def)
qed

theorem large_clause_length_wraps_witness:
  "num_lits (new_clause None [0..<128] [] False) = -128 \<and> clause_lits (new_clause None [0..<128] [] False) = []"
  using large_clause_length_wraps [of "[0..<128]" None False] by simp

end
