(* ===== verification/Slist.thy ===== *)
theory Slist
  imports Slist_Spec
begin

text \<open>
  The singly linked lists of \<open>mba_utils/slist.h\<close>, \<open>slist_item.h\<close> and \<open>slist_iterator.h\<close> at the
  level of their pointers. A store holds the allocated list cells and the list objects; a null
  pointer is \<open>None\<close>, a deleted cell is no longer in the store, and an access to it is the error
  \<open>Bad_pointer\<close>. Element copies are values. A loop over a list gets the number of addresses
  handed out so far as fuel, which bounds the length of every list without a cycle.
\<close>

subsection \<open>The store\<close>

type_synonym ptr = "nat option"

record 'a slist_item =
  item :: 'a
  nxt :: ptr

record slist =
  head :: ptr
  slength :: "32 word"

record 'a store =
  cells :: "nat \<rightharpoonup> 'a slist_item"
  brk :: nat
  objs :: "nat \<Rightarrow> slist"

definition new_slist :: slist where
  "new_slist = \<lparr>head = None, slength = 0\<rparr>"

definition empty_store :: "'a store" where
  "empty_store = \<lparr>cells = (\<lambda>_. None), brk = 0, objs = (\<lambda>_. new_slist)\<rparr>"

definition add_item :: "'a \<Rightarrow> ptr \<Rightarrow> 'a store \<Rightarrow> 'a store" where
  "add_item v p s = s\<lparr>cells := (cells s)(brk s \<mapsto> \<lparr>item = v, nxt = p\<rparr>), brk := Suc (brk s)\<rparr>"

definition new_item :: "'a \<Rightarrow> ptr \<Rightarrow> 'a store \<Rightarrow> ptr \<times> 'a store" where
  "new_item v p s = (Some (brk s), add_item v p s)"

definition deref :: "'a store \<Rightarrow> ptr \<Rightarrow> 'a slist_item res" where
  "deref s p = (case p of None \<Rightarrow> Inl Bad_pointer
     | Some a \<Rightarrow> (case cells s a of None \<Rightarrow> Inl Bad_pointer | Some c \<Rightarrow> Inr c))"

definition delete_item :: "ptr \<Rightarrow> 'a store \<Rightarrow> 'a store res" where
  "delete_item p s = (case p of None \<Rightarrow> Inr s
     | Some a \<Rightarrow> (case cells s a of None \<Rightarrow> Inl Bad_pointer
         | Some c \<Rightarrow> Inr (s\<lparr>cells := (cells s)(a := None)\<rparr>)))"

definition set_next :: "ptr \<Rightarrow> ptr \<Rightarrow> 'a store \<Rightarrow> 'a store res" where
  "set_next p q s = (case p of None \<Rightarrow> Inl Bad_pointer
     | Some a \<Rightarrow> (case cells s a of None \<Rightarrow> Inl Bad_pointer
         | Some c \<Rightarrow> Inr (s\<lparr>cells := (cells s)(a \<mapsto> c\<lparr>nxt := q\<rparr>)\<rparr>)))"

definition set_head :: "nat \<Rightarrow> ptr \<Rightarrow> 'a store \<Rightarrow> 'a store" where
  "set_head l p s = s\<lparr>objs := (objs s)(l := (objs s l)\<lparr>head := p\<rparr>)\<rparr>"

definition set_length :: "nat \<Rightarrow> 32 word \<Rightarrow> 'a store \<Rightarrow> 'a store" where
  "set_length l n s = s\<lparr>objs := (objs s)(l := (objs s l)\<lparr>slength := n\<rparr>)\<rparr>"

definition add_length :: "nat \<Rightarrow> 32 word \<Rightarrow> 'a store \<Rightarrow> 'a store" where
  "add_length l k s = set_length l (slength (objs s l) + k) s"

abbreviation head_of :: "'a store \<Rightarrow> nat \<Rightarrow> ptr" where
  "head_of s l \<equiv> head (objs s l)"

definition fuel :: "'a store \<Rightarrow> nat" where
  "fuel s = Suc (brk s)"

subsection \<open>Iterators\<close>

record iter =
  current :: ptr
  previous :: ptr

definition begin_iter :: "nat \<Rightarrow> 'a store \<Rightarrow> iter" where
  "begin_iter l s = \<lparr>current = head_of s l, previous = None\<rparr>"

definition end_iter :: iter where
  "end_iter = \<lparr>current = None, previous = None\<rparr>"

definition iter_eq :: "iter \<Rightarrow> iter \<Rightarrow> bool" where
  "iter_eq i j = (current i = current j)"

definition iter_inc :: "'a store \<Rightarrow> iter \<Rightarrow> iter res" where
  "iter_inc s it = (case current it of None \<Rightarrow> Inr it
     | Some a \<Rightarrow> rbind (deref s (current it)) (\<lambda>c. Inr \<lparr>current = nxt c, previous = current it\<rparr>))"

definition iter_get :: "'a store \<Rightarrow> iter \<Rightarrow> 'a res" where
  "iter_get s it = rbind (l2_assert (current it \<noteq> None) Assert_failed)
     (\<lambda>_. rbind (deref s (current it)) (\<lambda>c. Inr (item c)))"

subsection \<open>Operations at the ends\<close>

definition slist_empty :: "nat \<Rightarrow> 'a store \<Rightarrow> bool" where
  "slist_empty l s = (head_of s l = None)"

definition slist_size :: "nat \<Rightarrow> 'a store \<Rightarrow> 32 word" where
  "slist_size l s = slength (objs s l)"

definition push_front :: "nat \<Rightarrow> 'a \<Rightarrow> 'a store \<Rightarrow> 'a store" where
  "push_front l v s = (let (p, s1) = new_item v (head_of s l) s
     in add_length l 1 (set_head l p s1))"

definition pop_front :: "nat \<Rightarrow> 'a store \<Rightarrow> 'a store res" where
  "pop_front l s = (case head_of s l of None \<Rightarrow> Inr s
     | Some a \<Rightarrow> rbind (deref s (Some a)) (\<lambda>c.
         rbind (delete_item (Some a) (set_head l (nxt c) s)) (\<lambda>s1. Inr (add_length l (-1) s1))))"

fun last_loop :: "nat \<Rightarrow> 'a store \<Rightarrow> ptr \<Rightarrow> ptr res" where
  "last_loop 0 s p = Inl Out_of_fuel"
| "last_loop (Suc n) s p = rbind (deref s p)
     (\<lambda>c. if nxt c \<noteq> None then last_loop n s (nxt c) else Inr p)"

definition last_item :: "nat \<Rightarrow> 'a store \<Rightarrow> ptr res" where
  "last_item l s = (if head_of s l \<noteq> None then last_loop (fuel s) s (head_of s l) else Inr None)"

definition push_back :: "nat \<Rightarrow> 'a \<Rightarrow> 'a store \<Rightarrow> 'a store res" where
  "push_back l v s = rbind (last_item l s) (\<lambda>e.
     let (p, s1) = new_item v None s
     in rbind (if e \<noteq> None then set_next e p s1 else Inr (set_head l p s1))
          (\<lambda>s2. Inr (add_length l 1 s2)))"

fun pop_back_loop :: "nat \<Rightarrow> 'a store \<Rightarrow> ptr \<Rightarrow> ptr res" where
  "pop_back_loop 0 s p = Inl Out_of_fuel"
| "pop_back_loop (Suc n) s p = rbind (deref s p) (\<lambda>c. rbind (deref s (nxt c))
     (\<lambda>d. if nxt d \<noteq> None then pop_back_loop n s (nxt c) else Inr p))"

definition pop_back :: "nat \<Rightarrow> 'a store \<Rightarrow> 'a store res" where
  "pop_back l s = (case head_of s l of None \<Rightarrow> Inr s
     | Some a \<Rightarrow> rbind (deref s (Some a)) (\<lambda>c.
         rbind (if nxt c \<noteq> None then
                  rbind (pop_back_loop (fuel s) s (Some a)) (\<lambda>p. rbind (deref s p)
                    (\<lambda>d. rbind (delete_item (nxt d) s) (set_next p None)))
                else rbind (delete_item (Some a) s) (\<lambda>s1. Inr (set_head l None s1)))
           (\<lambda>s1. Inr (add_length l (-1) s1))))"

definition slist_front :: "nat \<Rightarrow> 'a store \<Rightarrow> 'a res" where
  "slist_front l s = rbind (l2_assert (head_of s l \<noteq> None) Assert_failed)
     (\<lambda>_. rbind (deref s (head_of s l)) (\<lambda>c. Inr (item c)))"

definition slist_back :: "nat \<Rightarrow> 'a store \<Rightarrow> 'a res" where
  "slist_back l s = rbind (last_item l s) (\<lambda>e. rbind (l2_assert (e \<noteq> None) Assert_failed)
     (\<lambda>_. rbind (deref s e) (\<lambda>c. Inr (item c))))"

subsection \<open>Operations at an iterator\<close>

definition insert_at :: "nat \<Rightarrow> iter \<Rightarrow> 'a \<Rightarrow> 'a store \<Rightarrow> 'a store res" where
  "insert_at l pos v s =
     (if iter_eq pos end_iter then push_back l v s
      else rbind (l2_assert (current pos \<noteq> None) L2_argument_error) (\<lambda>_.
        rbind (deref s (current pos)) (\<lambda>c.
          let (p, s1) = new_item v (nxt c) s
          in rbind (set_next (current pos) p s1) (\<lambda>s2. Inr (add_length l 1 s2)))))"

text \<open>The result is the iterator returned, the updated \<open>pos\<close> and the store.\<close>

definition insert_before :: "nat \<Rightarrow> iter \<Rightarrow> 'a \<Rightarrow> 'a store \<Rightarrow> (iter \<times> iter \<times> 'a store) res" where
  "insert_before l pos v s =
     (if iter_eq pos (begin_iter l s) then
        let s1 = push_front l v s in Inr (begin_iter l s1, pos, s1)
      else rbind (l2_assert (\<not> iter_eq pos end_iter) Assert_failed) (\<lambda>_.
        rbind (l2_assert (current pos \<noteq> None \<and> previous pos \<noteq> None) Assert_failed) (\<lambda>_.
          let (p, s1) = new_item v (current pos) s
          in rbind (set_next (previous pos) p s1) (\<lambda>s2.
               Inr (\<lparr>current = p, previous = previous pos\<rparr>, pos\<lparr>previous := p\<rparr>, add_length l 1 s2)))))"

definition erase_at :: "nat \<Rightarrow> iter \<Rightarrow> 'a store \<Rightarrow> (iter \<times> 'a store) res" where
  "erase_at l pos s = (case current pos of None \<Rightarrow> Inr (pos, s)
     | Some a \<Rightarrow> rbind (deref s (Some a)) (\<lambda>c. rbind (delete_item (Some a) s) (\<lambda>s1.
         rbind (if previous pos \<noteq> None then set_next (previous pos) (nxt c) s1
                else Inr (set_head l (nxt c) s1))
           (\<lambda>s2. Inr (pos\<lparr>current := nxt c\<rparr>, add_length l (-1) s2)))))"

subsection \<open>Loops over the whole list\<close>

fun delete_list :: "nat \<Rightarrow> ptr \<Rightarrow> 'a store \<Rightarrow> 'a store res" where
  "delete_list 0 p s = Inl Out_of_fuel"
| "delete_list (Suc n) p s = (case p of None \<Rightarrow> Inr s
     | Some a \<Rightarrow> rbind (deref s p) (\<lambda>c. rbind (delete_item p s) (delete_list n (nxt c))))"

definition erase_all :: "nat \<Rightarrow> 'a store \<Rightarrow> 'a store res" where
  "erase_all l s = (if head_of s l \<noteq> None then
     rbind (delete_list (fuel s) (head_of s l) s) (\<lambda>s1. Inr (set_length l 0 (set_head l None s1)))
   else Inr s)"

text \<open>
  The copying loop of the constructors and of the assignment, and with \<open>k = 1\<close> of \<open>operator+=\<close>,
  which counts the items as it copies them.
\<close>

fun copy_loop :: "nat \<Rightarrow> 32 word \<Rightarrow> nat \<Rightarrow> ptr \<Rightarrow> ptr \<Rightarrow> 'a store \<Rightarrow> (ptr \<times> 'a store) res" where
  "copy_loop 0 k l item_p copy_p s = Inl Out_of_fuel"
| "copy_loop (Suc n) k l item_p copy_p s = (case item_p of None \<Rightarrow> Inr (copy_p, s)
     | Some a \<Rightarrow> rbind (deref s item_p) (\<lambda>c.
         let (p, s1) = new_item (item c) None s
         in rbind (if copy_p \<noteq> None then set_next copy_p p s1 else Inr (set_head l p s1)) (\<lambda>s2.
              rbind (deref s2 item_p) (\<lambda>c'. copy_loop n k l (nxt c') p (add_length l k s2)))))"

definition copy_slist :: "nat \<Rightarrow> nat \<Rightarrow> 'a store \<Rightarrow> 'a store res" where
  "copy_slist l src s =
     (let s0 = set_head l None s in
      rbind (copy_loop (fuel s0) 0 l (head_of s0 src) None s0)
        (\<lambda>(p, s1). Inr (set_length l (slength (objs s1 src)) s1)))"

definition concat_slists :: "nat \<Rightarrow> nat \<Rightarrow> nat \<Rightarrow> 'a store \<Rightarrow> 'a store res" where
  "concat_slists l src1 src2 s =
     (let s0 = set_head l None (set_length l 0 s) in
      rbind (copy_loop (fuel s0) 0 l (head_of s0 src1) None s0) (\<lambda>(p, s1).
        let s2 = add_length l (slength (objs s1 src1)) s1 in
        rbind (copy_loop (fuel s2) 0 l (head_of s2 src2) p s2) (\<lambda>(p, s3).
          Inr (add_length l (slength (objs s3 src2)) s3))))"

definition assign_slist :: "nat \<Rightarrow> nat \<Rightarrow> 'a store \<Rightarrow> 'a store res" where
  "assign_slist l src s = (if l = src then Inr s
     else rbind (delete_list (fuel s) (head_of s l) s) (\<lambda>s1. copy_slist l src s1))"

definition swap_slists :: "nat \<Rightarrow> nat \<Rightarrow> 'a store \<Rightarrow> 'a store" where
  "swap_slists l m s =
     (let temp = head_of s l;
          s1 = set_head l (head_of s m) s;
          s2 = set_head m temp s1;
          tempLength = slength (objs s2 l);
          s3 = set_length l (slength (objs s2 m)) s2
      in set_length m tempLength s3)"

fun eq_loop :: "nat \<Rightarrow> 'a store \<Rightarrow> ptr \<Rightarrow> ptr \<Rightarrow> bool res" where
  "eq_loop 0 s p q = Inl Out_of_fuel"
| "eq_loop (Suc n) s p q =
     (if p \<noteq> None \<and> q \<noteq> None then
        rbind (deref s p) (\<lambda>c. rbind (deref s q) (\<lambda>d.
          if item c \<noteq> item d then Inr False else eq_loop n s (nxt c) (nxt d)))
      else Inr (p = None \<and> q = None))"

definition slist_eq :: "nat \<Rightarrow> nat \<Rightarrow> 'a store \<Rightarrow> bool res" where
  "slist_eq l m s = (if l = m then Inr True else eq_loop (fuel s) s (head_of s m) (head_of s l))"

text \<open>The loop of \<open>remove\<close>, and with \<open>once\<close> of \<open>remove_first\<close>, which returns after a removal.\<close>

fun remove_loop :: "nat \<Rightarrow> bool \<Rightarrow> nat \<Rightarrow> 'a \<Rightarrow> ptr \<Rightarrow> ptr \<Rightarrow> 'a store \<Rightarrow> 'a store res" where
  "remove_loop 0 once l v cur prev s = Inl Out_of_fuel"
| "remove_loop (Suc n) once l v cur prev s = (case cur of None \<Rightarrow> Inr s
     | Some a \<Rightarrow> rbind (deref s cur) (\<lambda>c.
         if item c = v then
           rbind (if prev \<noteq> None then
                    rbind (set_next prev (nxt c) s) (\<lambda>s1. rbind (delete_item cur s1) (\<lambda>s2.
                      rbind (deref s2 prev) (\<lambda>d. Inr (nxt d, s2))))
                  else
                    let s1 = set_head l (nxt c) s
                    in rbind (delete_item cur s1) (\<lambda>s2. Inr (head_of s2 l, s2)))
             (\<lambda>(cur', s3). let s4 = add_length l (-1) s3
                in if once then Inr s4 else remove_loop n once l v cur' prev s4)
         else remove_loop n once l v (nxt c) cur s))"

definition remove_value :: "nat \<Rightarrow> 'a \<Rightarrow> 'a store \<Rightarrow> 'a store res" where
  "remove_value l v s = remove_loop (fuel s) False l v (head_of s l) None s"

definition remove_first_value :: "nat \<Rightarrow> 'a \<Rightarrow> 'a store \<Rightarrow> 'a store res" where
  "remove_first_value l v s = remove_loop (fuel s) True l v (head_of s l) None s"

fun contains_loop :: "nat \<Rightarrow> 'a store \<Rightarrow> 'a \<Rightarrow> ptr \<Rightarrow> bool res" where
  "contains_loop 0 s v p = Inl Out_of_fuel"
| "contains_loop (Suc n) s v p = (case p of None \<Rightarrow> Inr False
     | Some a \<Rightarrow> rbind (deref s p)
         (\<lambda>c. if item c = v then Inr True else contains_loop n s v (nxt c)))"

definition slist_contains :: "nat \<Rightarrow> 'a \<Rightarrow> 'a store \<Rightarrow> bool res" where
  "slist_contains l v s = contains_loop (fuel s) s v (head_of s l)"

fun dup_inner :: "nat \<Rightarrow> nat \<Rightarrow> iter \<Rightarrow> iter \<Rightarrow> 32 word \<Rightarrow> 'a store \<Rightarrow> (32 word \<times> 'a store) res" where
  "dup_inner 0 l it1 it2 k s = Inl Out_of_fuel"
| "dup_inner (Suc n) l it1 it2 k s =
     (if iter_eq it2 end_iter then Inr (k, s)
      else rbind (iter_get s it1) (\<lambda>x. rbind (iter_get s it2) (\<lambda>y.
        if x = y then rbind (erase_at l it2 s) (\<lambda>(it2', s1). dup_inner n l it1 it2' (k + 1) s1)
        else rbind (iter_inc s it2) (\<lambda>it2'. dup_inner n l it1 it2' k s))))"

fun dup_outer :: "nat \<Rightarrow> nat \<Rightarrow> iter \<Rightarrow> 32 word \<Rightarrow> 'a store \<Rightarrow> (32 word \<times> 'a store) res" where
  "dup_outer 0 l it1 k s = Inl Out_of_fuel"
| "dup_outer (Suc n) l it1 k s =
     (if iter_eq it1 end_iter then Inr (k, s)
      else rbind (iter_inc s it1) (\<lambda>it2. rbind (dup_inner (fuel s) l it1 it2 k s) (\<lambda>(k', s1).
        rbind (iter_inc s1 it1) (\<lambda>it1'. dup_outer n l it1' k' s1))))"

definition remove_duplicates :: "nat \<Rightarrow> 'a store \<Rightarrow> (32 word \<times> 'a store) res" where
  "remove_duplicates l s = dup_outer (fuel s) l (begin_iter l s) 0 s"

fun reverse_loop :: "nat \<Rightarrow> nat \<Rightarrow> ptr \<Rightarrow> ptr \<Rightarrow> 'a store \<Rightarrow> 'a store res" where
  "reverse_loop 0 l cur next_p s = Inl Out_of_fuel"
| "reverse_loop (Suc n) l cur next_p s = (case next_p of None \<Rightarrow> Inr s
     | Some a \<Rightarrow>
         let s1 = set_head l next_p s
         in rbind (deref s1 (head_of s1 l)) (\<lambda>c. rbind (set_next (head_of s1 l) cur s1)
              (\<lambda>s2. reverse_loop n l (head_of s2 l) (nxt c) s2)))"

definition reverse_slist :: "nat \<Rightarrow> 'a store \<Rightarrow> 'a store res" where
  "reverse_slist l s = (if head_of s l \<noteq> None then reverse_loop (fuel s) l None (head_of s l) s
     else Inr s)"

text \<open>
  \<open>operator+=\<close> copies the argument into a local list first (object \<open>tmp\<close>) and destroys it at the
  end; \<open>operator-=\<close> reads the argument while it removes from this list.
\<close>

definition append_slist :: "nat \<Rightarrow> nat \<Rightarrow> nat \<Rightarrow> 'a store \<Rightarrow> 'a store res" where
  "append_slist tmp l src s =
     rbind (copy_slist tmp src s) (\<lambda>s1. rbind (last_item l s1) (\<lambda>copy_p.
       rbind (copy_loop (fuel s1) 1 l (head_of s1 tmp) copy_p s1) (\<lambda>(p, s2). erase_all tmp s2)))"

fun minus_loop :: "nat \<Rightarrow> nat \<Rightarrow> ptr \<Rightarrow> 'a store \<Rightarrow> 'a store res" where
  "minus_loop 0 l cur s = Inl Out_of_fuel"
| "minus_loop (Suc n) l cur s = (case cur of None \<Rightarrow> Inr s
     | Some a \<Rightarrow> rbind (deref s cur) (\<lambda>c. rbind (remove_value l (item c) s) (\<lambda>s1.
         rbind (deref s1 cur) (\<lambda>c'. minus_loop n l (nxt c') s1))))"

definition minus_slist :: "nat \<Rightarrow> nat \<Rightarrow> 'a store \<Rightarrow> 'a store res" where
  "minus_slist l src s = (if l = src then erase_all l s else minus_loop (fuel s) l (head_of s src) s)"

fun print_loop :: "nat \<Rightarrow> ('a \<Rightarrow> string) \<Rightarrow> bool \<Rightarrow> iter \<Rightarrow> 'a store \<Rightarrow> string \<Rightarrow> string res" where
  "print_loop 0 pr not_begin it s os = Inl Out_of_fuel"
| "print_loop (Suc n) pr not_begin it s os =
     (if iter_eq it end_iter then Inr os
      else rbind (iter_get s it) (\<lambda>x. rbind (iter_inc s it) (\<lambda>it'.
        print_loop n pr True it' s ((if not_begin then os @ '' '' else os) @ pr x))))"

definition print_slist :: "('a \<Rightarrow> string) \<Rightarrow> nat \<Rightarrow> 'a store \<Rightarrow> string res" where
  "print_slist pr l s = rbind (print_loop (fuel s) pr False (begin_iter l s) s ''('')
     (\<lambda>os. Inr (os @ '')''))"

end
