(* ===== verification/Slist_Shape.thy ===== *)
theory Slist_Shape
  imports Slist
begin

text \<open>
  The shape of a store of linked lists: every list object is a null-terminated chain of cells, the
  chains of different objects are disjoint, and every allocated cell belongs to some list. A ghost
  map gives the cells of each list with their items. The lemmas say what allocating, relinking and
  deleting one cell does to the ghost map.
\<close>

subsection \<open>Chains\<close>

fun start :: "(nat \<times> 'a) list \<Rightarrow> ptr" where
  "start [] = None"
| "start ((a, x) # cs) = Some a"

fun linked :: "(nat \<rightharpoonup> 'a slist_item) \<Rightarrow> (nat \<times> 'a) list \<Rightarrow> bool" where
  "linked h [] = True"
| "linked h ((a, x) # cs) = (h a = Some \<lparr>item = x, nxt = start cs\<rparr> \<and> linked h cs)"

definition addrs :: "(nat \<times> 'a) list \<Rightarrow> nat set" where
  "addrs cs = fst ` set cs"

lemma addrs_simps [simp]:
  "addrs [] = {}" "addrs (p # cs) = insert (fst p) (addrs cs)" "addrs (cs @ ds) = addrs cs \<union> addrs ds"
  "fst ` set cs = addrs cs"
  by (auto simp: addrs_def)

definition prev_of :: "(nat \<times> 'a) list \<Rightarrow> ptr" where
  "prev_of cs = (if cs = [] then None else Some (fst (last cs)))"

lemma prev_of_simps [simp]: "prev_of [] = None" "prev_of (cs @ [(a, x)]) = Some a"
  by (simp_all add: prev_of_def)

lemma start_eq_None [simp]: "start cs = None \<longleftrightarrow> cs = []" "None = start cs \<longleftrightarrow> cs = []"
  by (cases cs rule: start.cases; simp)+

lemma start_append: "start (xs @ ys) = (if xs = [] then start ys else start xs)"
  by (cases xs rule: start.cases) auto

lemma linked_append_right: "linked h (xs @ ys) \<Longrightarrow> linked h ys"
  by (induction xs) auto

lemma linked_cell: "linked h (xs @ (a, x) # ys) \<Longrightarrow> h a = Some \<lparr>item = x, nxt = start ys\<rparr>"
  using linked_append_right by fastforce

lemma linked_cong: "(\<And>a. a \<in> addrs cs \<Longrightarrow> h a = h' a) \<Longrightarrow> linked h cs \<Longrightarrow> linked h' cs"
  by (induction h cs rule: linked.induct) auto

lemma linked_unique: "linked h cs \<Longrightarrow> linked h ds \<Longrightarrow> start cs = start ds \<Longrightarrow> cs = ds"
proof (induction h cs arbitrary: ds rule: linked.induct)
  case (2 h a x cs)
  then show ?case by (cases ds rule: start.cases) auto
qed (simp)

lemma linked_distinct: "linked h cs \<Longrightarrow> distinct (map fst cs)"
proof (induction h cs rule: linked.induct)
  case (2 h a x cs)
  have "a \<notin> addrs cs"
  proof
    assume "a \<in> addrs cs"
    then obtain y xs ys where cs: "cs = xs @ (a, y) # ys"
      unfolding addrs_def by (metis (no_types, opaque_lifting) imageE prod.collapse split_list)
    have "linked h ((a, y) # ys)"
      using 2 cs linked_append_right by fastforce
    then have "(a, x) # cs = (a, y) # ys"
      using "2.prems" linked_unique by fastforce
    then show False using cs by (metis impossible_Cons length_append length_Cons list.inject
      add_leD2 le_add2)
  qed
  then show ?case using 2 by simp
qed simp

lemma linked_relink:
  assumes "linked h (pre @ (a, x) # post)" "linked h post'" "addrs post' \<inter> addrs (pre @ [(a, x)]) = {}"
  shows "linked (h(a \<mapsto> \<lparr>item = x, nxt = start post'\<rparr>)) (pre @ (a, x) # post')"
  using assms
proof (induction pre)
  case Nil
  have "linked (h(a \<mapsto> \<lparr>item = x, nxt = start post'\<rparr>)) post'"
    by (rule linked_cong [of _ h]) (use Nil in auto)
  then show ?case by (simp del: fun_upd_apply add: fun_upd_same)
next
  case (Cons p pre)
  obtain b y where p: "p = (b, y)" by force
  have "b \<noteq> a"
    using linked_distinct [OF Cons.prems(1)] p by auto
  moreover have "start (pre @ (a, x) # post') = start (pre @ (a, x) # post)"
    by (simp add: start_append)
  ultimately show ?case
    using Cons p by auto
qed

lemma linked_dom: "linked h cs \<Longrightarrow> addrs cs \<subseteq> dom h"
  by (induction h cs rule: linked.induct) auto

subsection \<open>The shape of a store\<close>

definition shape :: "'a store \<Rightarrow> (nat \<Rightarrow> (nat \<times> 'a) list) \<Rightarrow> bool" where
  "shape s G \<longleftrightarrow>
     (\<forall>l. linked (cells s) (G l) \<and> head_of s l = start (G l)) \<and>
     (\<forall>l m. l \<noteq> m \<longrightarrow> addrs (G l) \<inter> addrs (G m) = {}) \<and>
     dom (cells s) = (\<Union>l. addrs (G l)) \<and>
     dom (cells s) \<subseteq> {..<brk s}"

definition lengths_ok :: "'a store \<Rightarrow> (nat \<Rightarrow> (nat \<times> 'a) list) \<Rightarrow> bool" where
  "lengths_ok s G = (\<forall>l. slength (objs s l) = of_nat (length (G l)))"

lemma shape_linked: "shape s G \<Longrightarrow> linked (cells s) (G l)"
  by (simp add: shape_def)

lemma shape_head: "shape s G \<Longrightarrow> head_of s l = start (G l)"
  by (simp add: shape_def)

lemma shape_cell:
  "shape s G \<Longrightarrow> G l = pre @ (a, x) # post \<Longrightarrow> cells s a = Some \<lparr>item = x, nxt = start post\<rparr>"
  by (metis linked_cell shape_linked)

lemma shape_distinct: "shape s G \<Longrightarrow> distinct (map fst (G l))"
  by (rule linked_distinct [OF shape_linked])

lemma shape_dom: "shape s G \<Longrightarrow> dom (cells s) = (\<Union>l. addrs (G l))"
  by (simp add: shape_def)

lemma shape_dom_bound: "shape s G \<Longrightarrow> dom (cells s) \<subseteq> {..<brk s}"
  unfolding shape_def by blast

lemma shape_addrs_dom: "shape s G \<Longrightarrow> addrs (G l) \<subseteq> dom (cells s)"
  by (rule linked_dom [OF shape_linked])

lemma shape_disjoint: "shape s G \<Longrightarrow> l \<noteq> m \<Longrightarrow> addrs (G l) \<inter> addrs (G m) = {}"
  by (simp add: shape_def)

lemma shape_bound: "shape s G \<Longrightarrow> addrs (G l) \<subseteq> {..<brk s}"
  using shape_addrs_dom shape_dom_bound by (rule subset_trans)

lemma shape_fuel:
  assumes "shape s G"
  shows "length (G l) < fuel s"
proof -
  have "length (G l) = card (addrs (G l))"
    using distinct_card [OF shape_distinct [OF assms, of l]] by simp
  also have "\<dots> \<le> card {..<brk s}"
    by (rule card_mono [OF _ shape_bound [OF assms]]) simp
  finally show ?thesis by (simp add: fuel_def)
qed

lemma shape_update:
  assumes "shape s G" "linked (cells s') cs"
    and "\<And>a m. m \<noteq> l \<Longrightarrow> a \<in> addrs (G m) \<Longrightarrow> cells s' a = cells s a"
    and "\<And>m. m \<noteq> l \<Longrightarrow> head_of s' m = head_of s m" "head_of s' l = start cs"
    and "dom (cells s') = (dom (cells s) - addrs (G l)) \<union> addrs cs"
    and "addrs cs \<inter> (dom (cells s) - addrs (G l)) = {}"
    and "dom (cells s') \<subseteq> {..<brk s'}"
  shows "shape s' (G(l := cs))"
proof -
  note sh = assms(1)
  have rest: "dom (cells s) - addrs (G l) = (\<Union>m \<in> {m. m \<noteq> l}. addrs (G m))"
    unfolding shape_dom [OF sh] using shape_disjoint [OF sh] by blast
  have 1: "linked (cells s') ((G(l := cs)) m) \<and> head_of s' m = start ((G(l := cs)) m)" for m
  proof (cases "m = l")
    case False
    have "linked (cells s') (G m)"
      by (rule linked_cong [OF _ shape_linked [OF sh]]) (use assms(3) [OF False] in simp)
    with False assms(4) shape_head [OF sh] show ?thesis by simp
  qed (use assms in simp)
  have dis: "addrs cs \<inter> addrs (G m) = {}" if "m \<noteq> l" for m
    using that assms(7) unfolding rest by blast
  have 2: "addrs ((G(l := cs)) m) \<inter> addrs ((G(l := cs)) n) = {}" if "m \<noteq> n" for m n
  proof -
    consider "m = l" "n \<noteq> l" | "n = l" "m \<noteq> l" | "m \<noteq> l" "n \<noteq> l" using \<open>m \<noteq> n\<close> by blast
    then show ?thesis
      by cases (simp_all add: dis Int_commute [of "addrs (G _)" "addrs cs"] shape_disjoint [OF sh \<open>m \<noteq> n\<close>])
  qed
  have 3: "dom (cells s') = (\<Union>m. addrs ((G(l := cs)) m))"
  proof -
    have "(\<Union>m. addrs ((G(l := cs)) m)) = (\<Union>m \<in> {m. m \<noteq> l}. addrs (G m)) \<union> addrs cs"
      by (force split: if_splits)
    then show ?thesis unfolding assms(6) rest by simp
  qed
  from 1 2 3 assms(8) show ?thesis unfolding shape_def by blast
qed

subsection \<open>Reading and writing cells\<close>

declare new_item_def [simp]

lemma add_item_simps [simp]:
  "cells (add_item v p s) = (cells s)(brk s \<mapsto> \<lparr>item = v, nxt = p\<rparr>)"
  "brk (add_item v p s) = Suc (brk s)" "objs (add_item v p s) = objs s"
  by (simp_all add: add_item_def)

lemma set_head_simps [simp]:
  "cells (set_head l p s) = cells s" "brk (set_head l p s) = brk s"
  "head_of (set_head l p s) m = (if m = l then p else head_of s m)"
  "slength (objs (set_head l p s) m) = slength (objs s m)"
  by (simp_all add: set_head_def)

lemma set_length_simps [simp]:
  "cells (set_length l n s) = cells s" "brk (set_length l n s) = brk s"
  "head_of (set_length l n s) m = head_of s m"
  "slength (objs (set_length l n s) m) = (if m = l then n else slength (objs s m))"
  by (simp_all add: set_length_def)

lemma add_length_simps [simp]:
  "cells (add_length l k s) = cells s" "brk (add_length l k s) = brk s"
  "head_of (add_length l k s) m = head_of s m"
  "slength (objs (add_length l k s) m) = (if m = l then slength (objs s m) + k else slength (objs s m))"
  by (simp_all add: add_length_def)

lemma shape_cong:
  "cells s' = cells s \<Longrightarrow> brk s' = brk s \<Longrightarrow> (\<And>m. head_of s' m = head_of s m) \<Longrightarrow>
   shape s' G = shape s G"
  by (simp add: shape_def)

lemma shape_set_length [simp]: "shape (set_length l n s) G = shape s G"
  by (rule shape_cong) simp_all

lemma shape_add_length [simp]: "shape (add_length l n s) G = shape s G"
  by (rule shape_cong) simp_all

lemma deref_cell:
  "shape s G \<Longrightarrow> G l = pre @ (a, x) # post \<Longrightarrow> deref s (Some a) = Inr \<lparr>item = x, nxt = start post\<rparr>"
  by (simp add: deref_def shape_cell)

lemma deref_start:
  "shape s G \<Longrightarrow> G l = pre @ (a, x) # post \<Longrightarrow> p = Some a \<Longrightarrow>
   deref s p = Inr \<lparr>item = x, nxt = start post\<rparr>"
  by (simp add: deref_cell)

subsection \<open>Linking a new cell\<close>

definition link :: "nat \<Rightarrow> (nat \<times> 'a) list \<Rightarrow> 'a \<Rightarrow> ptr \<Rightarrow> 'a store \<Rightarrow> 'a store res" where
  "link l pre v p s =
     (if prev_of pre \<noteq> None then set_next (prev_of pre) (Some (brk s)) (add_item v p s)
      else Inr (set_head l (Some (brk s)) (add_item v p s)))"

lemma link_ok:
  assumes sh: "shape s G" and l: "G l = pre @ post"
  shows "returns (link l pre v (start post) s) (\<lambda>s'.
    shape s' (G(l := pre @ (brk s, v) # post)) \<and> brk s' = Suc (brk s) \<and>
    (\<forall>m. slength (objs s' m) = slength (objs s m)))"
proof -
  let ?b = "brk s" and ?h = "(cells s)(brk s \<mapsto> \<lparr>item = v, nxt = start post\<rparr>)"
  have bnd: "dom (cells s) \<subseteq> {..<?b}"
    by (rule shape_dom_bound [OF sh])
  then have fresh: "?b \<notin> dom (cells s)" by blast
  have fresh_l: "?b \<notin> addrs (G m)" for m
    using shape_bound [OF sh] by blast
  have lk: "linked ?h (G l)"
    by (rule linked_cong [OF _ shape_linked [OF sh]]) (use fresh_l in auto)
  have sub: "addrs (G l) \<subseteq> dom (cells s)"
    by (rule shape_addrs_dom [OF sh])
  have post: "linked ?h ((?b, v) # post)"
    using lk l linked_append_right by fastforce
  have dis: "distinct (map fst (pre @ post))"
    using shape_distinct [OF sh, of l] l by simp
  show ?thesis
  proof (cases pre rule: rev_cases)
    case Nil
    have "shape (set_head l (Some ?b) (add_item v (start post) s)) (G(l := (?b, v) # post))"
      by (rule shape_update [OF sh]) (use post fresh fresh_l bnd sub l Nil in \<open>auto simp: less_Suc_eq\<close>)
    then show ?thesis
      using Nil by (simp add: link_def)
  next
    case (snoc pre' p)
    obtain a x where p: "p = (a, x)" by force
    have cell: "cells s a = Some \<lparr>item = x, nxt = start post\<rparr>"
      using shape_cell [OF sh, of l pre' a x post] l snoc p by simp
    have ne: "a \<noteq> ?b" using cell fresh by auto
    let ?s = "(add_item v (start post) s)\<lparr>cells := ?h(a \<mapsto> \<lparr>item = x, nxt = Some ?b\<rparr>)\<rparr>"
    have "linked (?h(a \<mapsto> \<lparr>item = x, nxt = start ((?b, v) # post)\<rparr>)) (pre' @ (a, x) # (?b, v) # post)"
      by (rule linked_relink [of _ _ _ _ post])
         (use lk l snoc p post ne fresh_l [of l] dis in auto)
    moreover have "a \<notin> addrs (G m)" if "m \<noteq> l" for m
    proof -
      have "a \<in> addrs (G l)" using l snoc p by simp
      then show ?thesis using shape_disjoint [OF sh that] by blast
    qed
    ultimately have "shape ?s (G(l := pre @ (?b, v) # post))"
      by (intro shape_update [OF sh])
         (use fresh_l bnd sub l snoc p fresh shape_head [OF sh, of l] in
            \<open>auto simp: less_Suc_eq start_append\<close>)
    then show ?thesis
      using snoc p cell ne by (simp add: link_def set_next_def)
  qed
qed

subsection \<open>Unlinking and deleting a cell\<close>

definition unlinked :: "nat \<Rightarrow> (nat \<times> 'a) list \<Rightarrow> nat \<Rightarrow> ptr \<Rightarrow> 'a store \<Rightarrow> 'a store" where
  "unlinked l pre a p s =
     (if pre = [] then (set_head l p s)\<lparr>cells := (cells s)(a := None)\<rparr>
      else s\<lparr>cells := (cells s)(a := None, fst (last pre) \<mapsto> \<lparr>item = snd (last pre), nxt = p\<rparr>)\<rparr>)"

lemma unlinked_simps [simp]:
  "brk (unlinked l pre a p s) = brk s"
  "slength (objs (unlinked l pre a p s) m) = slength (objs s m)"
  by (simp_all add: unlinked_def set_head_def)

lemma unlinked_ok:
  assumes sh: "shape s G" and l: "G l = pre @ (a, x) # post"
  shows "shape (unlinked l pre a (start post) s) (G(l := pre @ post))"
proof -
  have dis: "distinct (map fst (pre @ (a, x) # post))"
    using shape_distinct [OF sh, of l] l by simp
  have lk: "linked (cells s) (pre @ (a, x) # post)"
    using shape_linked [OF sh, of l] l by simp
  then have "linked (cells s) post"
    using linked_append_right [of _ "pre @ [(a, x)]" post] by simp
  then have post: "linked ((cells s)(a := None)) post"
    by (rule linked_cong [rotated]) (use dis in auto)
  have other: "addrs (G m) \<inter> addrs (G l) = {}" if "m \<noteq> l" for m
    by (rule shape_disjoint [OF sh that])
  have sub: "addrs (G l) \<subseteq> dom (cells s)" and bnd: "dom (cells s) \<subseteq> {..<brk s}"
    using shape_addrs_dom [OF sh] shape_dom_bound [OF sh] .
  show ?thesis
  proof (cases pre rule: rev_cases)
    case Nil
    show ?thesis
      by (rule shape_update [OF sh])
         (use post other sub bnd l Nil dis in \<open>auto simp: unlinked_def set_head_def\<close>)
  next
    case (snoc pre' p)
    obtain b y where p: "p = (b, y)" by force
    have ne: "a \<noteq> b" using dis snoc p by auto
    have "linked ((cells s)(b \<mapsto> \<lparr>item = y, nxt = start post\<rparr>)) (pre' @ (b, y) # post)"
      by (rule linked_relink [of _ _ _ _ "(a, x) # post"])
         (use lk snoc p dis linked_append_right [of "cells s" "pre @ [(a, x)]" post] in auto)
    then have "linked ((cells s)(b \<mapsto> \<lparr>item = y, nxt = start post\<rparr>, a := None)) (pre' @ (b, y) # post)"
      by (rule linked_cong [rotated]) (use dis snoc p in auto)
    then have new: "linked (cells (unlinked l pre a (start post) s)) (pre @ post)"
      using snoc p ne by (simp add: unlinked_def fun_upd_twist)
    have "shape (unlinked l pre a (start post) s) (G(l := pre @ post))"
    proof (rule shape_update [OF sh new])
      show "head_of (unlinked l pre a (start post) s) l = start (pre @ post)"
        using shape_head [OF sh, of l] l snoc p by (simp add: unlinked_def start_append)
      show "cells (unlinked l pre a (start post) s) c = cells s c" if "m \<noteq> l" "c \<in> addrs (G m)" for c m
        using other [OF that(1)] that(2) l snoc p by (auto simp: unlinked_def)
      show "dom (cells (unlinked l pre a (start post) s)) =
          dom (cells s) - addrs (G l) \<union> addrs (pre @ post)"
        using sub l snoc p ne dis by (auto simp: unlinked_def)
      show "addrs (pre @ post) \<inter> (dom (cells s) - addrs (G l)) = {}"
        using l by auto
      show "dom (cells (unlinked l pre a (start post) s)) \<subseteq> {..<brk (unlinked l pre a (start post) s)}"
        using bnd sub l snoc p by (auto simp: unlinked_def)
    qed (simp add: unlinked_def snoc)
    then show ?thesis .
  qed
qed

lemma unlink_relink_first:
  assumes sh: "shape s G" and l: "G l = pre @ (a, x) # post"
  shows "pre \<noteq> [] \<Longrightarrow> rbind (set_next (prev_of pre) (start post) s) (delete_item (Some a)) =
      Inr (unlinked l pre a (start post) s)"
    and "pre = [] \<Longrightarrow> delete_item (Some a) (set_head l (start post) s) =
      Inr (unlinked l pre a (start post) s)"
proof -
  have cell: "cells s a = Some \<lparr>item = x, nxt = start post\<rparr>"
    using shape_cell [OF sh l] .
  show "pre = [] \<Longrightarrow> delete_item (Some a) (set_head l (start post) s) =
      Inr (unlinked l pre a (start post) s)"
    using cell by (simp add: delete_item_def unlinked_def)
  assume "pre \<noteq> []"
  then obtain pre' b y where pre: "pre = pre' @ [(b, y)]"
    by (metis rev_exhaust prod.collapse)
  have "cells s b = Some \<lparr>item = y, nxt = Some a\<rparr>" "a \<noteq> b"
    using shape_cell [OF sh, of l pre' b y] shape_distinct [OF sh, of l] l pre by auto
  with cell pre show "rbind (set_next (prev_of pre) (start post) s) (delete_item (Some a)) =
      Inr (unlinked l pre a (start post) s)"
    by (simp add: delete_item_def unlinked_def set_next_def fun_upd_twist)
qed

lemma unlink_delete_first:
  assumes sh: "shape s G" and l: "G l = pre @ (a, x) # post"
  shows "pre \<noteq> [] \<Longrightarrow> rbind (delete_item (Some a) s) (set_next (prev_of pre) (start post)) =
      Inr (unlinked l pre a (start post) s)"
    and "pre = [] \<Longrightarrow> rbind (delete_item (Some a) s) (\<lambda>s1. Inr (set_head l (start post) s1)) =
      Inr (unlinked l pre a (start post) s)"
proof -
  have cell: "cells s a = Some \<lparr>item = x, nxt = start post\<rparr>"
    using shape_cell [OF sh l] .
  show "pre = [] \<Longrightarrow> rbind (delete_item (Some a) s) (\<lambda>s1. Inr (set_head l (start post) s1)) =
      Inr (unlinked l pre a (start post) s)"
    using cell by (simp add: delete_item_def unlinked_def set_head_def)
  assume "pre \<noteq> []"
  then obtain pre' b y where pre: "pre = pre' @ [(b, y)]"
    by (metis rev_exhaust prod.collapse)
  have "cells s b = Some \<lparr>item = y, nxt = Some a\<rparr>" "a \<noteq> b"
    using shape_cell [OF sh, of l pre' b y] shape_distinct [OF sh, of l] l pre by auto
  with cell pre show "rbind (delete_item (Some a) s) (set_next (prev_of pre) (start post)) =
      Inr (unlinked l pre a (start post) s)"
    by (simp add: delete_item_def unlinked_def set_next_def)
qed

end
