(* ===== verification/Slist_Correct.thy ===== *)
theory Slist_Correct
  imports Slist_Shape
begin

text \<open>
  The operations on the linked lists do what the list functions of \<open>Slist_Spec\<close> say, change no
  other list, keep the shape of the store (no sharing, no dangling pointer, no leak) and return.
\<close>

definition store_ok :: "'a store \<Rightarrow> (nat \<Rightarrow> (nat \<times> 'a) list) \<Rightarrow> bool" where
  "store_ok s G \<longleftrightarrow> shape s G \<and> lengths_ok s G"

lemma store_okD: "store_ok s G \<Longrightarrow> shape s G" "store_ok s G \<Longrightarrow> lengths_ok s G"
  by (simp_all add: store_ok_def)

lemma linkE:
  assumes "shape s G" "G l = pre @ post"
  obtains s' where "link l pre v (start post) s = Inr s'"
    "shape s' (G(l := pre @ (brk s, v) # post))" "brk s' = Suc (brk s)"
    "\<And>m. slength (objs s' m) = slength (objs s m)"
  using link_ok [OF assms, of v] by (auto simp: returns_iff)

lemma link_ok_store:
  assumes "store_ok s G" "G l = pre @ post"
  shows "returns (link l pre v (start post) s) (\<lambda>s'.
    store_ok (add_length l 1 s') (G(l := pre @ (brk s, v) # post)) \<and> brk s' = Suc (brk s))"
  using link_ok [OF store_okD(1) [OF assms(1)] assms(2), of v] assms
  by (auto simp: returns_iff store_ok_def lengths_ok_def)

lemma unlinked_store_ok:
  assumes "store_ok s G" "G l = pre @ (a, x) # post"
  shows "store_ok (add_length l (-1) (unlinked l pre a (start post) s)) (G(l := pre @ post))"
  using unlinked_ok [OF store_okD(1) [OF assms(1)] assms(2)] assms
  by (auto simp: store_ok_def lengths_ok_def)

subsection \<open>The ends\<close>

lemma last_loop_eq:
  assumes "shape s G"
  shows "G l = pre @ post \<Longrightarrow> post \<noteq> [] \<Longrightarrow> length post \<le> n \<Longrightarrow>
     last_loop n s (start post) = Inr (prev_of post)"
proof (induction n arbitrary: pre post)
  case (Suc n)
  then obtain a x post' where post: "post = (a, x) # post'"
    by (metis list.exhaust prod.collapse)
  have d: "deref s (Some a) = Inr \<lparr>item = x, nxt = start post'\<rparr>"
    using deref_cell [OF assms, of l pre a x post'] Suc.prems post by simp
  show ?case
  proof (cases post')
    case Nil
    then show ?thesis using d post by (simp add: prev_of_def)
  next
    case (Cons p ps)
    then have "last_loop n s (start post') = Inr (prev_of post')"
      using Suc.prems post by (intro Suc.IH [of "pre @ [(a, x)]"]) auto
    then show ?thesis using d post Cons by (simp add: prev_of_def)
  qed
qed simp

lemma last_item_eq:
  assumes "shape s G"
  shows "last_item l s = Inr (prev_of (G l))"
proof (cases "G l")
  case Nil
  then show ?thesis using shape_head [OF assms] by (simp add: last_item_def)
next
  case (Cons p ps)
  then have "last_loop (fuel s) s (start (G l)) = Inr (prev_of (G l))"
    using shape_fuel [OF assms, of l] by (intro last_loop_eq [OF assms, of l "[]"]) auto
  then show ?thesis using shape_head [OF assms, of l] Cons by (simp add: last_item_def)
qed

lemma push_front_ok:
  assumes "store_ok s G"
  shows "store_ok (push_front l v s) (G(l := (brk s, v) # G l))"
  using link_ok_store [OF assms, of l "[]" "G l" v] shape_head [OF store_okD(1) [OF assms], of l]
  by (simp add: link_def push_front_def Let_def)

lemma push_back_ok:
  assumes "store_ok s G"
  shows "returns (push_back l v s) (\<lambda>s'. store_ok s' (G(l := G l @ [(brk s, v)])))"
proof -
  have "push_back l v s = rbind (link l (G l) v None s) (\<lambda>s2. Inr (add_length l 1 s2))"
    by (simp add: push_back_def link_def last_item_eq [OF store_okD(1) [OF assms]] Let_def)
  then show ?thesis
    using link_ok_store [OF assms, of l "G l" "[]" v] by (auto simp: returns_iff)
qed

lemma pop_front_ok:
  assumes "store_ok s G"
  shows "returns (pop_front l s) (\<lambda>s'. store_ok s' (G(l := tl (G l))))"
proof (cases "G l" rule: start.cases)
  case 1
  then show ?thesis
    using assms shape_head [OF store_okD(1) [OF assms], of l] by (simp add: pop_front_def fun_upd_idem)
next
  case (2 a x post)
  note sh = store_okD(1) [OF assms]
  have l: "G l = [] @ (a, x) # post" using 2 by simp
  have "pop_front l s = Inr (add_length l (-1) (unlinked l [] a (start post) s))"
    using shape_head [OF sh, of l] 2 deref_cell [OF sh l] unlink_relink_first(2) [OF sh l]
    by (simp add: pop_front_def)
  then show ?thesis
    using unlinked_store_ok [OF assms l] 2 by simp
qed

lemma pop_back_loop_eq:
  assumes "shape s G"
  shows "G l = pre @ (a, x) # (b, y) # post \<Longrightarrow> length post < n \<Longrightarrow>
     pop_back_loop n s (Some a) = Inr (prev_of (butlast (G l)))"
proof (induction n arbitrary: pre a x b y post)
  case (Suc n)
  have d: "deref s (Some a) = Inr \<lparr>item = x, nxt = Some b\<rparr>"
    using deref_cell [OF assms, of l pre a x] Suc.prems(1) by fastforce
  have e: "deref s (Some b) = Inr \<lparr>item = y, nxt = start post\<rparr>"
    using deref_cell [OF assms, of l "pre @ [(a, x)]" b y] Suc.prems(1) by fastforce
  show ?case
  proof (cases post rule: start.cases)
    case 1
    then show ?thesis using d e Suc.prems by (simp add: prev_of_def butlast_append)
  next
    case (2 c z post')
    then have "pop_back_loop n s (Some b) = Inr (prev_of (butlast (G l)))"
      using Suc.prems by (intro Suc.IH [of "pre @ [(a, x)]"]) auto
    then show ?thesis using d e 2 by simp
  qed
qed simp

lemma pop_back_ok:
  assumes "store_ok s G"
  shows "returns (pop_back l s) (\<lambda>s'. store_ok s' (G(l := butlast (G l))))"
proof (cases "G l" rule: rev_cases)
  case Nil
  then show ?thesis
    using assms shape_head [OF store_okD(1) [OF assms], of l] by (simp add: pop_back_def fun_upd_idem)
next
  case (snoc pre p)
  note sh = store_okD(1) [OF assms]
  obtain b y where p: "p = (b, y)" by force
  have l: "G l = pre @ (b, y) # []" using snoc p by simp
  have res: "store_ok (add_length l (-1) (unlinked l pre b None s)) (G(l := pre))"
    using unlinked_store_ok [OF assms l] by simp
  show ?thesis
  proof (cases pre rule: start.cases)
    case 1
    have "deref s (Some b) = Inr \<lparr>item = y, nxt = None\<rparr>"
      using deref_cell [OF sh l] by simp
    then show ?thesis
      using unlink_delete_first(2) [OF sh l] shape_head [OF sh, of l] res 1 l
      by (auto simp: pop_back_def)
  next
    case (2 a x pre')
    have d: "deref s (Some a) = Inr \<lparr>item = x, nxt = start (pre' @ [(b, y)])\<rparr>"
      using deref_cell [OF sh, of l "[]" a x] l 2 by simp
    obtain pre'' c z where pre: "pre = pre'' @ [(c, z)]"
      using 2 by (metis list.distinct(1) rev_exhaust prod.collapse)
    have e: "deref s (Some c) = Inr \<lparr>item = z, nxt = Some b\<rparr>"
      using deref_cell [OF sh, of l pre'' c z] l pre by simp
    obtain d1 w post' where nx: "pre' @ [(b, y)] = (d1, w) # post'"
      by (metis Nil_is_append_conv list.distinct(1) list.exhaust prod.collapse)
    have "pop_back_loop (fuel s) s (Some a) = Inr (prev_of (butlast (G l)))"
      by (rule pop_back_loop_eq [OF sh, of l "[]" a x d1 w post'])
         (use l 2 nx shape_fuel [OF sh, of l] in auto)
    then have "pop_back_loop (fuel s) s (Some a) = Inr (Some c)"
      using l pre by (simp add: butlast_append)
    moreover have "rbind (delete_item (Some b) s) (set_next (Some c) None) = Inr (unlinked l pre b None s)"
      using unlink_delete_first(1) [OF sh l] pre by simp
    ultimately have "pop_back l s = Inr (add_length l (-1) (unlinked l pre b None s))"
      using d e l 2 nx shape_head [OF sh, of l] by (simp add: pop_back_def start_append)
    moreover have "butlast (G l) = pre"
      using l by (simp add: butlast_append)
    ultimately show ?thesis
      using res by simp
  qed
qed

lemma slist_size_eq: "store_ok s G \<Longrightarrow> slist_size l s = of_nat (length (G l))"
  by (simp add: slist_size_def store_ok_def lengths_ok_def)

lemma slist_empty_eq: "shape s G \<Longrightarrow> slist_empty l s = (G l = [])"
  by (simp add: slist_empty_def shape_head)

lemma slist_front_eq:
  assumes "shape s G"
  shows "slist_front l s = (if G l = [] then Inl Assert_failed else Inr (snd (hd (G l))))"
proof (cases "G l" rule: start.cases)
  case 1
  then show ?thesis by (simp add: slist_front_def shape_head [OF assms] l2_assert_def)
next
  case (2 a x post)
  then have "deref s (Some a) = Inr \<lparr>item = x, nxt = start post\<rparr>"
    using deref_cell [OF assms, of l "[]"] by simp
  with 2 show ?thesis by (simp add: slist_front_def shape_head [OF assms] l2_assert_def)
qed

lemma slist_back_eq:
  assumes "shape s G"
  shows "slist_back l s = (if G l = [] then Inl Assert_failed else Inr (snd (last (G l))))"
proof (cases "G l" rule: rev_cases)
  case Nil
  then show ?thesis by (simp add: slist_back_def last_item_eq [OF assms] l2_assert_def)
next
  case (snoc pre p)
  obtain a x where p: "p = (a, x)" by force
  then have "deref s (Some a) = Inr \<lparr>item = x, nxt = None\<rparr>"
    using deref_cell [OF assms, of l pre a x "[]"] snoc by simp
  with snoc p show ?thesis by (simp add: slist_back_def last_item_eq [OF assms] l2_assert_def)
qed


subsection \<open>Copying\<close>

definition copied :: "32 word \<Rightarrow> nat \<Rightarrow> 'a list \<Rightarrow> 'a store \<Rightarrow> (nat \<Rightarrow> (nat \<times> 'a) list) \<Rightarrow>
    ptr \<times> 'a store \<Rightarrow> bool" where
  "copied k l xs s G r \<longleftrightarrow> (\<exists>cs. map snd cs = xs \<and> shape (snd r) (G(l := G l @ cs)) \<and>
     fst r = prev_of (G l @ cs) \<and> (\<forall>m. slength (objs (snd r) m) =
       slength (objs s m) + (if m = l then k * of_nat (length xs) else 0)))"

lemma copied_Nil: "shape s G \<Longrightarrow> copied k l [] s G (prev_of (G l), s)"
  by (simp add: copied_def fun_upd_idem)

lemma copied_Cons:
  assumes "copied k l xs (add_length l k s1) (G(l := G l @ [(a, x)])) r"
    and "\<And>m. slength (objs s1 m) = slength (objs s m)"
  shows "copied k l (x # xs) s G r"
proof -
  obtain cs where "map snd cs = xs" "shape (snd r) (G(l := G l @ (a, x) # cs))"
    "fst r = prev_of (G l @ (a, x) # cs)"
    "\<forall>m. slength (objs (snd r) m) =
       slength (objs (add_length l k s1) m) + (if m = l then k * of_nat (length xs) else 0)"
    using assms(1) by (auto simp: copied_def)
  then show ?thesis
    unfolding copied_def using assms(2)
    by (intro exI [of _ "(a, x) # cs"]) (auto simp: algebra_simps simp del: fun_upd_apply)
qed

lemma copy_loop_ok:
  assumes "l \<noteq> src"
  shows "shape s G \<Longrightarrow> G src = pre @ post \<Longrightarrow> length post < n \<Longrightarrow>
    returns (copy_loop n k l (start post) (prev_of (G l)) s) (copied k l (map snd post) s G)"
proof (induction n arbitrary: s G pre post)
  case (Suc n)
  show ?case
  proof (cases post rule: start.cases)
    case 1
    then show ?thesis using copied_Nil Suc.prems by simp
  next
    case (2 a x post')
    let ?G = "G(l := G l @ [(brk s, x)])"
    have d: "deref s (Some a) = Inr \<lparr>item = x, nxt = start post'\<rparr>"
      using deref_cell [OF Suc.prems(1), of src pre a x post'] Suc.prems 2 by simp
    obtain s1 where s1: "link l (G l) x None s = Inr s1" "shape s1 ?G"
      "\<And>m. slength (objs s1 m) = slength (objs s m)"
      using linkE [OF Suc.prems(1), of l "G l" "[]" x] by auto
    have d1: "deref s1 (Some a) = Inr \<lparr>item = x, nxt = start post'\<rparr>"
      using deref_cell [OF s1(2), of src pre a x post'] Suc.prems 2 assms by simp
    have "returns (copy_loop n k l (start post') (prev_of (?G l)) (add_length l k s1))
        (copied k l (map snd post') (add_length l k s1) ?G)"
      by (rule Suc.IH [of "add_length l k s1" ?G "pre @ [(a, x)]" post'])
         (use s1 Suc.prems 2 assms in \<open>simp_all del: fun_upd_apply add: fun_upd_other\<close>)
    then have "returns (copy_loop n k l (start post') (Some (brk s)) (add_length l k s1))
        (copied k l (map snd post) s G)"
      unfolding 2 list.map snd_conv fun_upd_same prev_of_simps
      by (rule returns_mono) (rule copied_Cons [OF _ s1(3)])
    then show ?thesis
      using d d1 s1(1) 2 by (cases "prev_of (G l)") (simp_all add: link_def Let_def)
  qed
qed simp

lemma copy_slist_ok:
  assumes "shape (set_head l None s) G" "G l = []" "l \<noteq> src"
    and "\<And>m. m \<noteq> l \<Longrightarrow> slength (objs s m) = of_nat (length (G m))"
  shows "returns (copy_slist l src s) (\<lambda>s'. \<exists>cs. store_ok s' (G(l := cs)) \<and>
    map snd cs = map snd (G src))"
proof -
  let ?s = "set_head l None s"
  have "returns (copy_loop (fuel ?s) 0 l (start (G src)) (prev_of (G l)) ?s)
      (copied 0 l (map snd (G src)) ?s G)"
    by (rule copy_loop_ok [OF assms(3,1), of "[]"]) (use shape_fuel [OF assms(1)] in auto)
  then obtain p s1 where run: "copy_loop (fuel ?s) 0 l (start (G src)) None ?s = Inr (p, s1)"
    and cop: "copied 0 l (map snd (G src)) ?s G (p, s1)"
    using assms(2) by (auto simp: returns_iff)
  from cop obtain cs where cs: "map snd cs = map snd (G src)" "shape s1 (G(l := cs))"
      "\<forall>m. slength (objs s1 m) = slength (objs s m)"
    using assms(2) by (auto simp: copied_def)
  have "store_ok (set_length l (slength (objs s1 src)) s1) (G(l := cs))"
    using cs assms(3,4) map_eq_imp_length_eq [OF cs(1)] by (auto simp: store_ok_def lengths_ok_def)
  with run cs(1) show ?thesis
    using shape_head [OF assms(1), of src] by (auto simp: copy_slist_def Let_def)
qed

lemma delete_list_eq:
  assumes "linked (cells s) cs" "length cs < n"
  shows "delete_list n (start cs) s = Inr (s\<lparr>cells := (cells s) |` (- addrs cs)\<rparr>)"
  using assms
proof (induction cs arbitrary: s n)
  case Nil
  then show ?case by (cases n) simp_all
next
  case (Cons p cs)
  obtain a x where p: "p = (a, x)" by force
  obtain m where n: "n = Suc m" using Cons.prems by (cases n) auto
  let ?s = "s\<lparr>cells := (cells s)(a := None)\<rparr>"
  have "linked (cells ?s) cs"
    by (rule linked_cong [of _ "cells s"]) (use Cons.prems p linked_distinct [OF Cons.prems(1)] in auto)
  then have "delete_list m (start cs) ?s = Inr (?s\<lparr>cells := (cells ?s) |` (- addrs cs)\<rparr>)"
    by (rule Cons.IH) (use Cons.prems p n in simp)
  then have "delete_list m (start cs) ?s = Inr (?s\<lparr>cells := (cells ?s) |` (- addrs cs)\<rparr>)" .
  moreover have "(cells ?s) |` (- addrs cs) = (cells s) |` (- addrs ((a, x) # cs))"
    by (auto simp: restrict_map_def)
  ultimately have "delete_list m (start cs) ?s = Inr (s\<lparr>cells := (cells s) |` (- addrs ((a, x) # cs))\<rparr>)"
    by simp
  then show ?case
    using Cons.prems p n by (simp add: deref_def delete_item_def)
qed

lemma erased_shape:
  assumes "shape s G"
  shows "shape (set_head l None (s\<lparr>cells := (cells s) |` (- addrs (G l))\<rparr>)) (G(l := []))"
proof (rule shape_update [OF assms])
  let ?s = "set_head l None (s\<lparr>cells := (cells s) |` (- addrs (G l))\<rparr>)"
  show "cells ?s a = cells s a" if "m \<noteq> l" "a \<in> addrs (G m)" for a m
    using shape_disjoint [OF assms that(1)] that(2) by (auto simp: restrict_map_def)
  show "dom (cells ?s) = dom (cells s) - addrs (G l) \<union> addrs []"
    by auto
  show "dom (cells ?s) \<subseteq> {..<brk ?s}"
    using shape_dom_bound [OF assms] by auto
qed (simp_all add: set_head_def)

lemma erase_all_ok:
  assumes "shape s G" "\<And>m. m \<noteq> l \<Longrightarrow> slength (objs s m) = of_nat (length (G m))"
    "G l = [] \<Longrightarrow> slength (objs s l) = 0"
  shows "returns (erase_all l s) (\<lambda>s'. store_ok s' (G(l := [])))"
proof (cases "G l = []")
  case True
  then have "G(l := []) = G" by (simp add: fun_upd_idem)
  moreover have "slength (objs s m) = of_nat (length (G m))" for m
    by (cases "m = l") (use True assms(2,3) in simp_all)
  ultimately have "store_ok s (G(l := []))"
    using assms(1) by (simp add: store_ok_def lengths_ok_def)
  with True show ?thesis
    using shape_head [OF assms(1), of l] by (simp add: erase_all_def)
next
  case False
  have "delete_list (fuel s) (start (G l)) s = Inr (s\<lparr>cells := (cells s) |` (- addrs (G l))\<rparr>)"
    by (rule delete_list_eq [OF shape_linked [OF assms(1)] shape_fuel [OF assms(1)]])
  then show ?thesis
    using shape_head [OF assms(1), of l] False erased_shape [OF assms(1), of l] assms(2)
    by (simp add: erase_all_def store_ok_def lengths_ok_def)
qed

lemma assign_slist_ok:
  assumes "store_ok s G"
  shows "returns (assign_slist l src s) (\<lambda>s'. \<exists>cs. store_ok s' (G(l := cs)) \<and>
    map snd cs = map snd (G src))"
proof (cases "l = src")
  case True
  then show ?thesis using assms by (auto simp: assign_slist_def intro!: exI [of _ "G src"])
next
  case False
  note sh = store_okD(1) [OF assms]
  let ?s = "s\<lparr>cells := (cells s) |` (- addrs (G l))\<rparr>"
  have "delete_list (fuel s) (start (G l)) s = Inr ?s"
    by (rule delete_list_eq [OF shape_linked [OF sh] shape_fuel [OF sh]])
  moreover have "returns (copy_slist l src ?s) (\<lambda>s'. \<exists>cs. store_ok s' (G(l := [], l := cs)) \<and>
    map snd cs = map snd ((G(l := [])) src))"
    by (rule copy_slist_ok [OF erased_shape [OF sh]])
       (use False store_okD(2) [OF assms] in \<open>auto simp: lengths_ok_def\<close>)
  ultimately show ?thesis
    using False shape_head [OF sh, of l] by (simp add: assign_slist_def)
qed


lemma append_slist_ok:
  assumes ok: "store_ok s G" and tmp: "G tmp = []" "tmp \<noteq> l" "tmp \<noteq> src"
  shows "returns (append_slist tmp l src s) (\<lambda>s'. \<exists>cs. store_ok s' (G(l := G l @ cs)) \<and>
    map snd cs = map snd (G src))"
proof -
  note sh = store_okD(1) [OF ok]
  have "shape (set_head tmp None s) G"
    using sh shape_head [OF sh] tmp(1) by (subst shape_cong [of _ s]) simp_all
  from copy_slist_ok [OF this tmp(1,3)] ok obtain s1 ds where
    s1: "copy_slist tmp src s = Inr s1" "store_ok s1 (G(tmp := ds))" "map snd ds = map snd (G src)"
    by (auto simp: returns_iff store_ok_def lengths_ok_def)
  let ?G = "G(tmp := ds)"
  note sh1 = store_okD(1) [OF s1(2)]
  have "returns (copy_loop (fuel s1) 1 l (start (?G tmp)) (prev_of (?G l)) s1)
      (copied 1 l (map snd (?G tmp)) s1 ?G)"
    by (rule copy_loop_ok [OF tmp(2)[symmetric] sh1, of "[]"]) (simp, rule shape_fuel [OF sh1])
  then obtain p s2 where s2: "copy_loop (fuel s1) 1 l (start ds) (prev_of (G l)) s1 = Inr (p, s2)"
    and "copied 1 l (map snd ds) s1 ?G (p, s2)"
    using tmp(2) by (auto simp: returns_iff)
  then obtain cs where cs: "map snd cs = map snd ds" "shape s2 (?G(l := G l @ cs))"
    "\<forall>m. slength (objs s2 m) = slength (objs s1 m) + (if m = l then of_nat (length ds) else 0)"
    using tmp(2) by (auto simp: copied_def)
  have len: "slength (objs s2 m) = of_nat (length ((?G(l := G l @ cs)) m))" for m
    using cs(3) store_okD(2) [OF s1(2)] map_eq_imp_length_eq [OF cs(1)] tmp(2)
    by (cases "m = l") (auto simp: lengths_ok_def)
  have "returns (erase_all tmp s2) (\<lambda>s'. store_ok s' (?G(l := G l @ cs, tmp := [])))"
    by (rule erase_all_ok [OF cs(2)]) (use len [of tmp] len in auto)
  moreover have "?G(l := G l @ cs, tmp := []) = G(l := G l @ cs)"
    using tmp by (auto simp: fun_eq_iff)
  ultimately have "returns (erase_all tmp s2) (\<lambda>s'. store_ok s' (G(l := G l @ cs)))"
    by simp
  then show ?thesis
    using s1 s2 cs(1) last_item_eq [OF sh1, of l] shape_head [OF sh1, of tmp] tmp
    by (auto simp: append_slist_def elim!: returns_mono)
qed

lemma concat_slists_ok:
  assumes ok: "store_ok s G" and l: "G l = []" "l \<noteq> src1" "l \<noteq> src2"
  shows "returns (concat_slists l src1 src2 s) (\<lambda>s'. \<exists>cs. store_ok s' (G(l := cs)) \<and>
    map snd cs = map snd (G src1) @ map snd (G src2))"
proof -
  note sh = store_okD(1) [OF ok]
  let ?s = "set_head l None (set_length l 0 s)"
  have sh0: "shape ?s G"
    using sh shape_head [OF sh] l(1) by (subst shape_cong [of _ s]) simp_all
  have "returns (copy_loop (fuel ?s) 0 l (start (G src1)) (prev_of (G l)) ?s)
      (copied 0 l (map snd (G src1)) ?s G)"
    by (rule copy_loop_ok [OF l(2) sh0, of "[]"]) (use shape_fuel [OF sh0] in auto)
  then obtain p s1 where s1: "copy_loop (fuel ?s) 0 l (start (G src1)) None ?s = Inr (p, s1)"
    and "copied 0 l (map snd (G src1)) ?s G (p, s1)"
    using l(1) by (auto simp: returns_iff)
  then obtain cs where cs: "map snd cs = map snd (G src1)" "shape s1 (G(l := cs))" "p = prev_of cs"
    "\<forall>m. slength (objs s1 m) = slength (objs ?s m)"
    using l(1) by (auto simp: copied_def)
  let ?s2 = "add_length l (slength (objs s1 src1)) s1" and ?G = "G(l := cs)"
  have sh2: "shape ?s2 ?G" using cs(2) by simp
  have "returns (copy_loop (fuel ?s2) 0 l (start (?G src2)) (prev_of (?G l)) ?s2)
      (copied 0 l (map snd (?G src2)) ?s2 ?G)"
    by (rule copy_loop_ok [OF l(3) sh2, of "[]"]) (use shape_fuel [OF sh2] in auto)
  then obtain q s3 where s3: "copy_loop (fuel ?s2) 0 l (start (G src2)) (prev_of cs) ?s2 = Inr (q, s3)"
    and "copied 0 l (map snd (G src2)) ?s2 ?G (q, s3)"
    using l(3) by (auto simp: returns_iff)
  then obtain ds where ds: "map snd ds = map snd (G src2)" "shape s3 (G(l := cs @ ds))"
    "\<forall>m. slength (objs s3 m) = slength (objs ?s2 m)"
    by (auto simp: copied_def)
  have "store_ok (add_length l (slength (objs s3 src2)) s3) (G(l := cs @ ds))"
    using ds cs store_okD(2) [OF ok] l map_eq_imp_length_eq [OF cs(1)] map_eq_imp_length_eq [OF ds(1)]
    by (auto simp: store_ok_def lengths_ok_def)
  then show ?thesis
    using s1 s3 cs(1,3) ds(1) shape_head [OF sh, of src1] shape_head [OF sh2, of src2] l
    by (auto simp: concat_slists_def Let_def intro!: exI [of _ "cs @ ds"])
qed

lemma swap_slists_ok:
  assumes "store_ok s G"
  shows "store_ok (swap_slists l m s) (G(l := G m, m := G l))"
proof -
  note sh = store_okD(1) [OF assms]
  let ?G = "G(l := G m, m := G l)"
  let ?f = "\<lambda>n. if n = l then m else if n = m then l else n"
  have f: "?G n = G (?f n)" for n
    by auto
  have "(\<Union>n. addrs (?G n)) = (\<Union>n. addrs (G n))"
  proof (rule set_eqI)
    fix a
    have "(\<exists>n. a \<in> addrs (?G n)) = (\<exists>n. a \<in> addrs (G n))"
    proof
      assume "\<exists>n. a \<in> addrs (G n)"
      then obtain n where "a \<in> addrs (G n)" ..
      then have "a \<in> addrs (?G (?f n))" by (cases "n = l"; cases "n = m") simp_all
      then show "\<exists>n. a \<in> addrs (?G n)" ..
    next
      assume "\<exists>n. a \<in> addrs (?G n)"
      then show "\<exists>n. a \<in> addrs (G n)" unfolding f by (elim exE) (rule exI)
    qed
    then show "a \<in> (\<Union>n. addrs (?G n)) \<longleftrightarrow> a \<in> (\<Union>n. addrs (G n))" by simp
  qed
  moreover have "addrs (?G n) \<inter> addrs (?G k) = {}" if "n \<noteq> k" for n k
    unfolding f using that by (intro shape_disjoint [OF sh]) auto
  moreover have "linked (cells s) (?G n) \<and> head_of (swap_slists l m s) n = start (?G n)" for n
    using shape_linked [OF sh] shape_head [OF sh] by (simp add: swap_slists_def Let_def)
  moreover have "cells (swap_slists l m s) = cells s" "brk (swap_slists l m s) = brk s"
    by (simp_all add: swap_slists_def Let_def)
  ultimately have "shape (swap_slists l m s) ?G"
    using shape_dom [OF sh] shape_dom_bound [OF sh] unfolding shape_def by metis
  then show ?thesis
    using store_okD(2) [OF assms] by (auto simp: store_ok_def lengths_ok_def swap_slists_def Let_def)
qed

end
