(* ===== verification/Slist_Loops.thy ===== *)
theory Slist_Loops
  imports Slist_Correct
begin

text \<open>
  The loops that walk a list while they remove from it or relink it: removal by value, removal of
  duplicates, reversal, subtraction; and the queries that only read.
\<close>

text \<open>List \<open>l\<close> has become the cells \<open>pre\<close> followed by cells with the items \<open>xs\<close>; the others are as in \<open>G\<close>.\<close>

definition becomes ::
  "nat \<Rightarrow> (nat \<times> 'a) list \<Rightarrow> 'a list \<Rightarrow> (nat \<Rightarrow> (nat \<times> 'a) list) \<Rightarrow> 'a store \<Rightarrow> bool" where
  "becomes l pre xs G s \<longleftrightarrow> (\<exists>cs. store_ok s (G(l := pre @ cs)) \<and> map snd cs = xs)"

lemma becomesI: "store_ok s (G(l := pre @ cs)) \<Longrightarrow> map snd cs = xs \<Longrightarrow> becomes l pre xs G s"
  by (auto simp: becomes_def)

lemma becomes_same: "store_ok s G \<Longrightarrow> G l = pre @ cs \<Longrightarrow> becomes l pre (map snd cs) G s"
  by (rule becomesI [of _ _ _ _ cs]) (simp_all add: fun_upd_idem)

lemma becomes_Cons: "becomes l (pre @ [(a, x)]) xs G s \<Longrightarrow> becomes l pre (x # xs) G s"
  unfolding becomes_def by (elim exE, rule_tac x = "(a, x) # cs" in exI) simp

lemma becomes_upd [simp]: "becomes l pre xs (G(l := cs)) = becomes l pre xs G"
  by (simp add: becomes_def fun_eq_iff)

subsection \<open>Removal by value\<close>

lemma remove_loop_ok:
  shows "store_ok s G \<Longrightarrow> G l = pre @ post \<Longrightarrow> length post < n \<Longrightarrow>
    returns (remove_loop n once l v (start post) (prev_of pre) s) 
      (becomes l pre (if once then slist_remove_first v (map snd post) else slist_remove v (map snd post)) G)"
proof (induction n arbitrary: s G pre post)
  case (Suc n)
  note ok = Suc.prems(1) and l = Suc.prems(2)
  note sh = store_okD(1) [OF ok]
  show ?case
  proof (cases post rule: start.cases)
    case 1
    then show ?thesis using becomes_same [OF ok l] by simp
  next
    case (2 a x post')
    have l2: "G l = pre @ (a, x) # post'" using l 2 by simp
    have d: "deref s (Some a) = Inr \<lparr>item = x, nxt = start post'\<rparr>"
      by (rule deref_cell [OF sh l2])
    show ?thesis
    proof (cases "x = v")
      case False
      have "returns (remove_loop n once l v (start post') (prev_of (pre @ [(a, x)])) s)
          (becomes l (pre @ [(a, x)]) (if once then slist_remove_first v (map snd post')
             else slist_remove v (map snd post')) G)"
        by (rule Suc.IH [OF ok]) (use l2 Suc.prems(3) 2 in auto)
      then have "returns (remove_loop n once l v (start post') (Some a) s)
          (becomes l pre (x # (if once then slist_remove_first v (map snd post')
             else slist_remove v (map snd post'))) G)"
        unfolding prev_of_simps by (rule returns_mono) (rule becomes_Cons)
      then show ?thesis
        using False d 2 by (cases once) simp_all
    next
      case True
      let ?u = "unlinked l pre a (start post') s"
      let ?s = "add_length l (-1) ?u" and ?G = "G(l := pre @ post')"
      have ok': "store_ok ?s ?G" by (rule unlinked_store_ok [OF ok l2])
      have shu: "shape ?u ?G" by (rule unlinked_ok [OF sh l2])
      have step: "rbind (if prev_of pre \<noteq> None then
            rbind (set_next (prev_of pre) (start post') s) (\<lambda>s1. rbind (delete_item (Some a) s1) (\<lambda>s2.
              rbind (deref s2 (prev_of pre)) (\<lambda>d. Inr (nxt d, s2))))
          else let s1 = set_head l (start post') s
            in rbind (delete_item (Some a) s1) (\<lambda>s2. Inr (head_of s2 l, s2))) k =
          k (start post', ?u)" for k :: "ptr \<times> 'a store \<Rightarrow> 'a store res"
      proof (cases pre rule: rev_cases)
        case Nil
        then show ?thesis
          using unlink_relink_first(2) [OF sh l2] shape_head [OF shu, of l] by (simp add: Let_def)
      next
        case (snoc pre' p)
        obtain b y where p: "p = (b, y)" by force
        have "deref ?u (Some b) = Inr \<lparr>item = y, nxt = start post'\<rparr>"
          using deref_cell [OF shu, of l pre' b y post'] snoc p by simp
        then show ?thesis
          using unlink_relink_first(1) [OF sh l2] snoc p by (simp add: rbind_assoc [symmetric])
      qed
      have run: "remove_loop (Suc n) once l v (start post) (prev_of pre) s =
          (if once then Inr ?s else remove_loop n once l v (start post') (prev_of pre) ?s)"
        unfolding 2 start.simps remove_loop.simps option.case d rbind_simps slist_item.simps if_P [OF True] step
        by (simp add: Let_def)
      show ?thesis
      proof (cases once)
        case once: True
        then show ?thesis unfolding run using becomes_same [OF ok', of l pre post'] True 2 by simp
      next
        case once: False
        have "returns (remove_loop n once l v (start post') (prev_of pre) ?s)
            (becomes l pre (if once then slist_remove_first v (map snd post')
               else slist_remove v (map snd post')) ?G)"
          by (rule Suc.IH [OF ok']) (use Suc.prems(3) 2 in auto)
        then show ?thesis unfolding run using once True 2 by simp
      qed
    qed
  qed
qed simp

lemma remove_value_ok:
  assumes "store_ok s G"
  shows "returns (remove_value l v s) (becomes l [] (slist_remove v (map snd (G l))) G)"
  using remove_loop_ok [OF assms, of l "[]" "G l" "fuel s" False v]
    shape_fuel [OF store_okD(1) [OF assms]] shape_head [OF store_okD(1) [OF assms]]
  by (simp add: remove_value_def)

lemma remove_first_value_ok:
  assumes "store_ok s G"
  shows "returns (remove_first_value l v s) (becomes l [] (slist_remove_first v (map snd (G l))) G)"
  using remove_loop_ok [OF assms, of l "[]" "G l" "fuel s" True v]
    shape_fuel [OF store_okD(1) [OF assms]] shape_head [OF store_okD(1) [OF assms]]
  by (simp add: remove_first_value_def)

subsection \<open>Subtraction\<close>

lemma minus_loop_ok:
  assumes "l \<noteq> src"
  shows "store_ok s G \<Longrightarrow> G src = pre @ post \<Longrightarrow> length post < n \<Longrightarrow>
    returns (minus_loop n l (start post) s) (becomes l [] (slist_minus (map snd (G l)) (map snd post)) G)"
proof (induction n arbitrary: s G pre post)
  case (Suc n)
  show ?case
  proof (cases post rule: start.cases)
    case 1
    then show ?thesis using becomes_same [OF Suc.prems(1), of l "[]" "G l"] by simp
  next
    case (2 a x post')
    have d: "deref s (Some a) = Inr \<lparr>item = x, nxt = start post'\<rparr>"
      using deref_cell [OF store_okD(1) [OF Suc.prems(1)], of src pre a x post'] Suc.prems 2 by simp
    obtain s1 cs where s1: "remove_value l x s = Inr s1" "store_ok s1 (G(l := cs))"
      "map snd cs = slist_remove x (map snd (G l))"
      using remove_value_ok [OF Suc.prems(1), of l x] by (auto simp: returns_iff becomes_def)
    have d1: "deref s1 (Some a) = Inr \<lparr>item = x, nxt = start post'\<rparr>"
      using deref_cell [OF store_okD(1) [OF s1(2)], of src pre a x post'] Suc.prems 2 assms by simp
    have "returns (minus_loop n l (start post') s1)
        (becomes l [] (slist_minus (map snd ((G(l := cs)) l)) (map snd post')) (G(l := cs)))"
      by (rule Suc.IH [OF s1(2), of "pre @ [(a, x)]"]) (use Suc.prems 2 assms in auto)
    then show ?thesis using d d1 s1 2 by simp
  qed
qed simp

lemma minus_slist_ok:
  assumes "store_ok s G"
  shows "returns (minus_slist l src s) (becomes l [] (slist_minus (map snd (G l)) (map snd (G src))) G)"
proof (cases "l = src")
  case True
  have "returns (erase_all l s) (\<lambda>s'. store_ok s' (G(l := [])))"
    by (rule erase_all_ok [OF store_okD(1) [OF assms]])
       (use store_okD(2) [OF assms] in \<open>simp_all add: lengths_ok_def\<close>)
  then show ?thesis
    using True by (auto simp: minus_slist_def slist_minus_filter elim!: returns_mono intro: becomesI [of _ _ _ "[]" "[]"])
next
  case False
  note sh = store_okD(1) [OF assms]
  show ?thesis
    using minus_loop_ok [OF False assms, of "[]" "G src" "fuel s"] shape_fuel [OF sh]
      shape_head [OF sh] False
    by (simp add: minus_slist_def)
qed

subsection \<open>Reversal\<close>

lemma reverse_loop_ok:
  assumes "linked (cells s) rest" "linked (cells s) don" "addrs rest \<inter> addrs don = {}"
    and "length rest < n" "rest = [] \<Longrightarrow> head_of s l = start don"
  shows "returns (reverse_loop n l (start don) (start rest) s) (\<lambda>s'.
    linked (cells s') (rev rest @ don) \<and> head_of s' l = start (rev rest @ don) \<and>
    (\<forall>a. a \<notin> addrs rest \<longrightarrow> cells s' a = cells s a) \<and> dom (cells s') = dom (cells s) \<and>
    brk s' = brk s \<and> (\<forall>m. m \<noteq> l \<longrightarrow> objs s' m = objs s m) \<and>
    slength (objs s' l) = slength (objs s l))"
  using assms
proof (induction n arbitrary: s rest don)
  case (Suc n)
  show ?case
  proof (cases rest rule: start.cases)
    case 1
    then show ?thesis using Suc.prems by simp
  next
    case (2 a x rest')
    let ?s = "(set_head l (Some a) s)\<lparr>cells := (cells s)(a \<mapsto> \<lparr>item = x, nxt = start don\<rparr>)\<rparr>"
    have cell: "cells s a = Some \<lparr>item = x, nxt = start rest'\<rparr>"
      using Suc.prems(1) 2 by simp
    have dis: "a \<notin> addrs rest'" "a \<notin> addrs don"
      using linked_distinct [OF Suc.prems(1)] Suc.prems(3) 2 by auto
    have rest': "linked (cells ?s) rest'"
      by (rule linked_cong [of _ "cells s"]) (use Suc.prems(1) dis 2 in auto)
    have "linked (cells ?s) don"
      by (rule linked_cong [OF _ Suc.prems(2)]) (use dis in auto)
    then have don': "linked (cells ?s) ((a, x) # don)" by simp
    have "returns (reverse_loop n l (start ((a, x) # don)) (start rest') ?s) (\<lambda>s'.
      linked (cells s') (rev rest' @ (a, x) # don) \<and> head_of s' l = start (rev rest' @ (a, x) # don) \<and>
      (\<forall>b. b \<notin> addrs rest' \<longrightarrow> cells s' b = cells ?s b) \<and> dom (cells s') = dom (cells ?s) \<and>
      brk s' = brk ?s \<and> (\<forall>m. m \<noteq> l \<longrightarrow> objs s' m = objs ?s m) \<and>
      slength (objs s' l) = slength (objs ?s l))"
      by (rule Suc.IH [OF rest' don']) (use Suc.prems 2 dis in \<open>auto simp: set_head_def\<close>)
    then have "returns (reverse_loop n l (Some a) (start rest') ?s) (\<lambda>s'.
      linked (cells s') (rev rest @ don) \<and> head_of s' l = start (rev rest @ don) \<and>
      (\<forall>a. a \<notin> addrs rest \<longrightarrow> cells s' a = cells s a) \<and> dom (cells s') = dom (cells s) \<and>
      brk s' = brk s \<and> (\<forall>m. m \<noteq> l \<longrightarrow> objs s' m = objs s m) \<and>
      slength (objs s' l) = slength (objs s l))"
      using cell by (auto elim!: returns_mono simp: 2 set_head_def)
    moreover have "reverse_loop (Suc n) l (start don) (start rest) s =
        reverse_loop n l (Some a) (start rest') ?s"
      using cell 2 by (simp add: Let_def deref_def set_next_def)
    ultimately show ?thesis by simp
  qed
qed simp

lemma reverse_slist_ok:
  fixes s :: "'a store"
  assumes "store_ok s G"
  shows "returns (reverse_slist l s) (\<lambda>s'. store_ok s' (G(l := rev (G l))))"
proof (cases "G l = []")
  case True
  then show ?thesis
    using assms shape_head [OF store_okD(1) [OF assms], of l] by (simp add: reverse_slist_def fun_upd_idem)
next
  case False
  note sh = store_okD(1) [OF assms]
  have sub: "addrs (G l) \<subseteq> dom (cells s)" by (rule shape_addrs_dom [OF sh])
  have same: "addrs (rev (G l)) = addrs (G l)" unfolding addrs_def by simp
  have "returns (reverse_loop (fuel s) l (start ([] :: (nat \<times> 'a) list)) (start (G l)) s) (\<lambda>s'.
    linked (cells s') (rev (G l) @ []) \<and> head_of s' l = start (rev (G l) @ []) \<and>
    (\<forall>a. a \<notin> addrs (G l) \<longrightarrow> cells s' a = cells s a) \<and> dom (cells s') = dom (cells s) \<and>
    brk s' = brk s \<and> (\<forall>m. m \<noteq> l \<longrightarrow> objs s' m = objs s m) \<and>
    slength (objs s' l) = slength (objs s l))"
    by (rule reverse_loop_ok [where rest = "G l" and don = "[]"])
       (simp_all add: False shape_fuel [OF sh] shape_linked [OF sh])
  then obtain s' where s': "reverse_loop (fuel s) l None (start (G l)) s = Inr s'"
    "linked (cells s') (rev (G l))" "head_of s' l = start (rev (G l))"
    "\<And>a. a \<notin> addrs (G l) \<Longrightarrow> cells s' a = cells s a" "dom (cells s') = dom (cells s)"
    "brk s' = brk s" "\<And>m. m \<noteq> l \<Longrightarrow> objs s' m = objs s m" "slength (objs s' l) = slength (objs s l)"
    by (auto simp: returns_iff)
  have "shape s' (G(l := rev (G l)))"
  proof (rule shape_update [OF sh s'(2)])
    show "cells s' a = cells s a" if "m \<noteq> l" "a \<in> addrs (G m)" for a m
      using shape_disjoint [OF sh that(1)] that(2) s'(4) by blast
    show "dom (cells s') = dom (cells s) - addrs (G l) \<union> addrs (rev (G l))"
      using sub unfolding same s'(5) by blast
    show "addrs (rev (G l)) \<inter> (dom (cells s) - addrs (G l)) = {}"
      unfolding same by blast
    show "dom (cells s') \<subseteq> {..<brk s'}"
      unfolding s'(5,6) by (rule shape_dom_bound [OF sh])
  qed (use s' in simp_all)
  moreover have "slength (objs s' m) = slength (objs s m)" for m
    using s'(7,8) by (cases "m = l") simp_all
  ultimately have "store_ok s' (G(l := rev (G l)))"
    using store_okD(2) [OF assms] by (simp add: store_ok_def lengths_ok_def)
  then show ?thesis
    using s'(1) False shape_head [OF sh, of l] by (simp add: reverse_slist_def)
qed

end
