(* ===== verification/Slist_Iter.thy ===== *)
theory Slist_Iter
  imports Slist_Loops
begin

text \<open>
  Iterators over the linked lists: stepping, reading, erasing and inserting at a position, the
  loops written with iterators, and the queries that walk a list.
\<close>

text \<open>The iterator that stands at the cell after \<open>pre\<close>.\<close>

definition iter_at :: "(nat \<times> 'a) list \<Rightarrow> (nat \<times> 'a) list \<Rightarrow> iter" where
  "iter_at pre post = \<lparr>current = start post, previous = prev_of pre\<rparr>"

lemma iter_at_simps [simp]:
  "current (iter_at pre post) = start post" "previous (iter_at pre post) = prev_of pre"
  "iter_eq (iter_at pre post) end_iter = (post = [])"
  by (simp_all add: iter_at_def iter_eq_def end_iter_def)

lemma begin_iter_eq: "shape s G \<Longrightarrow> begin_iter l s = iter_at [] (G l)"
  by (simp add: begin_iter_def iter_at_def shape_head)

lemma iter_inc_eq:
  assumes "shape s G" "G l = pre @ (a, x) # post"
  shows "iter_inc s (iter_at pre ((a, x) # post)) = Inr (iter_at (pre @ [(a, x)]) post)"
  using deref_cell [OF assms] by (simp add: iter_inc_def iter_at_def)

lemma iter_inc_end: "iter_inc s (iter_at pre []) = Inr (iter_at pre [])"
  by (simp add: iter_inc_def)

lemma iter_get_eq:
  assumes "shape s G" "G l = pre @ (a, x) # post"
  shows "current it = Some a \<Longrightarrow> iter_get s it = Inr x"
  using deref_cell [OF assms] by (simp add: iter_get_def l2_assert_def)

subsection \<open>Erasing and inserting\<close>

lemma erase_at_eq:
  assumes ok: "store_ok s G" and l: "G l = pre @ (a, x) # post"
  shows "\<exists>s'. erase_at l (iter_at pre ((a, x) # post)) s = Inr (iter_at pre post, s') \<and>
    store_ok s' (G(l := pre @ post)) \<and> brk s' = brk s"
proof -
  let ?u = "unlinked l pre a (start post) s"
  note sh = store_okD(1) [OF ok]
  have d: "deref s (Some a) = Inr \<lparr>item = x, nxt = start post\<rparr>"
    by (rule deref_cell [OF sh l])
  have step: "rbind (delete_item (Some a) s) (\<lambda>s1. rbind (if prev_of pre \<noteq> None
        then set_next (prev_of pre) (start post) s1 else Inr (set_head l (start post) s1)) k) = k ?u"
    for k :: "'a store \<Rightarrow> (iter \<times> 'a store) res"
  proof (cases pre rule: rev_cases)
    case Nil
    then have "rbind (rbind (delete_item (Some a) s) (\<lambda>s1. Inr (set_head l (start post) s1))) k = k ?u"
      using unlink_delete_first(2) [OF sh l] by simp
    then show ?thesis
      using Nil by (simp add: rbind_assoc)
  next
    case (snoc pre' p)
    then show ?thesis
      using unlink_delete_first(1) [OF sh l] by (cases p) (simp add: rbind_assoc [symmetric])
  qed
  have "erase_at l (iter_at pre ((a, x) # post)) s = Inr (iter_at pre post, add_length l (-1) ?u)"
    using step d by (simp add: erase_at_def iter_at_def cong: if_cong)
  then show ?thesis
    using unlinked_store_ok [OF ok l] by simp
qed

lemma erase_at_end: "erase_at l (iter_at pre []) s = Inr (iter_at pre [], s)"
  by (simp add: erase_at_def)

lemma insert_at_eq:
  assumes ok: "store_ok s G" and l: "G l = pre @ (a, x) # post"
  shows "returns (insert_at l (iter_at pre ((a, x) # post)) v s)
    (\<lambda>s'. store_ok s' (G(l := pre @ (a, x) # (brk s, v) # post)))"
proof -
  have l': "G l = (pre @ [(a, x)]) @ post" using l by simp
  have d: "deref s (Some a) = Inr \<lparr>item = x, nxt = start post\<rparr>"
    by (rule deref_cell [OF store_okD(1) [OF ok] l])
  have "insert_at l (iter_at pre ((a, x) # post)) v s =
      rbind (link l (pre @ [(a, x)]) v (start post) s) (\<lambda>s2. Inr (add_length l 1 s2))"
    using d by (simp add: insert_at_def l2_assert_def link_def Let_def)
  then show ?thesis
    using link_ok_store [OF ok l', of v] by (auto simp: returns_iff)
qed

lemma insert_at_end:
  assumes "store_ok s G"
  shows "returns (insert_at l (iter_at pre []) v s) (\<lambda>s'. store_ok s' (G(l := G l @ [(brk s, v)])))"
  using push_back_ok [OF assms] by (simp add: insert_at_def)

text \<open>
  \<open>insert_before\<close> returns the iterator of the new item. In front of the first item the iterator
  passed in is left as it was, with no previous item.
\<close>

lemma insert_before_front:
  assumes "store_ok s G"
  shows "insert_before l (iter_at [] (G l)) v s =
      Inr (iter_at [] ((brk s, v) # G l), iter_at [] (G l), push_front l v s)"
    and "store_ok (push_front l v s) (G(l := (brk s, v) # G l))"
proof -
  show ok: "store_ok (push_front l v s) (G(l := (brk s, v) # G l))"
    by (rule push_front_ok [OF assms])
  have "begin_iter l s = iter_at [] (G l)"
    "begin_iter l (push_front l v s) = iter_at [] ((brk s, v) # G l)"
    using begin_iter_eq [OF store_okD(1) [OF assms], of l] begin_iter_eq [OF store_okD(1) [OF ok], of l]
    by simp_all
  then show "insert_before l (iter_at [] (G l)) v s =
      Inr (iter_at [] ((brk s, v) # G l), iter_at [] (G l), push_front l v s)"
    by (simp add: insert_before_def iter_eq_def)
qed

lemma insert_before_inner:
  assumes ok: "store_ok s G" and l: "G l = pre @ post" and ne: "pre \<noteq> []" "post \<noteq> []"
  shows "\<exists>s'. insert_before l (iter_at pre post) v s =
      Inr (iter_at pre ((brk s, v) # post), iter_at (pre @ [(brk s, v)]) post, s') \<and>
    store_ok s' (G(l := pre @ (brk s, v) # post))"
proof -
  note sh = store_okD(1) [OF ok]
  have "start post \<noteq> start (G l)"
  proof
    assume "start post = start (G l)"
    then have "post = G l"
      by (rule linked_unique [rotated 2]) (use shape_linked [OF sh, of l] l linked_append_right in auto)
    then show False using l ne by simp
  qed
  then have "\<not> iter_eq (iter_at pre post) (begin_iter l s)"
    by (simp add: iter_eq_def begin_iter_def shape_head [OF sh])
  moreover obtain b where "prev_of pre = Some b"
    using ne by (simp add: prev_of_def)
  ultimately have "insert_before l (iter_at pre post) v s =
      rbind (link l pre v (start post) s) (\<lambda>s2. Inr (iter_at pre ((brk s, v) # post),
         iter_at (pre @ [(brk s, v)]) post, add_length l 1 s2))"
    using ne by (simp add: insert_before_def l2_assert_def link_def Let_def) (simp add: iter_at_def)
  then show ?thesis
    using link_ok_store [OF ok l, of v] by (auto simp: returns_iff)
qed

lemma insert_before_end:
  assumes "store_ok s G" "G l = pre" "pre \<noteq> []"
  shows "insert_before l (iter_at pre []) v s = Inl Assert_failed"
  using assms shape_head [OF store_okD(1) [OF assms(1)], of l]
  by (auto simp: insert_before_def iter_eq_def begin_iter_def end_iter_def l2_assert_def)

subsection \<open>Removing duplicates\<close>

lemma dup_inner_ok:
  assumes "current it1 = Some a"
  shows "store_ok s G \<Longrightarrow> G l = (pre @ (a, x) # mid) @ post \<Longrightarrow> length post < n \<Longrightarrow>
    returns (dup_inner n l it1 (iter_at (pre @ (a, x) # mid) post) k s) (\<lambda>(k', s').
      becomes l (pre @ (a, x) # mid) (filter (\<lambda>y. x \<noteq> y) (map snd post)) G s' \<and>
      k' = k + of_nat (length (filter (\<lambda>y. x = y) (map snd post))))"
proof (induction n arbitrary: s G mid post k)
  case (Suc n)
  note ok = Suc.prems(1)
  note sh = store_okD(1) [OF ok]
  show ?case
  proof (cases post rule: start.cases)
    case 1
    then show ?thesis using becomes_same [OF ok Suc.prems(2)] by simp
  next
    case (2 b y post')
    have g1: "iter_get s it1 = Inr x"
      using iter_get_eq [OF sh, of l pre a x "mid @ post"] Suc.prems(2) assms by simp
    have l2: "G l = (pre @ (a, x) # mid) @ (b, y) # post'" using Suc.prems(2) 2 by simp
    have g2: "iter_get s (iter_at (pre @ (a, x) # mid) post) = Inr y"
      by (rule iter_get_eq [OF sh l2]) (simp add: 2)
    show ?thesis
    proof (cases "x = y")
      case True
      obtain s' where s': "erase_at l (iter_at (pre @ (a, x) # mid) post) s =
          Inr (iter_at (pre @ (a, x) # mid) post', s')"
        "store_ok s' (G(l := (pre @ (a, x) # mid) @ post'))"
        using erase_at_eq [OF ok l2] 2 by auto
      have "returns (dup_inner n l it1 (iter_at (pre @ (a, x) # mid) post') (k + 1) s') (\<lambda>(k', s'').
          becomes l (pre @ (a, x) # mid) (filter (\<lambda>y. x \<noteq> y) (map snd post'))
            (G(l := (pre @ (a, x) # mid) @ post')) s'' \<and>
          k' = (k + 1) + of_nat (length (filter (\<lambda>y. x = y) (map snd post'))))"
        by (rule Suc.IH [OF s'(2)]) (use Suc.prems(3) 2 in auto)
      then show ?thesis
        using g1 g2 s'(1) 2 True by (simp add: ac_simps del: fun_upd_apply)
    next
      case False
      have inc: "iter_inc s (iter_at (pre @ (a, x) # mid) post) =
          Inr (iter_at (pre @ (a, x) # mid @ [(b, y)]) post')"
        using iter_inc_eq [OF sh l2] 2 by simp
      have "returns (dup_inner n l it1 (iter_at (pre @ (a, x) # mid @ [(b, y)]) post') k s) (\<lambda>(k', s').
          becomes l (pre @ (a, x) # mid @ [(b, y)]) (filter (\<lambda>y. x \<noteq> y) (map snd post')) G s' \<and>
          k' = k + of_nat (length (filter (\<lambda>y. x = y) (map snd post'))))"
        by (rule Suc.IH [OF ok]) (use l2 Suc.prems(3) 2 in auto)
      then have "returns (dup_inner n l it1 (iter_at (pre @ (a, x) # mid @ [(b, y)]) post') k s) (\<lambda>(k', s').
          becomes l (pre @ (a, x) # mid) (y # filter (\<lambda>y. x \<noteq> y) (map snd post')) G s' \<and>
          k' = k + of_nat (length (filter (\<lambda>y. x = y) (map snd post'))))"
        by (rule returns_mono) (use becomes_Cons [of l "pre @ (a, x) # mid"] in auto)
      then show ?thesis
        using g1 g2 inc 2 False by simp
    qed
  qed
qed simp

lemma slist_remove_duplicates_count:
  "length (slist_remove_duplicates xs) \<le> length xs"
  by (induction xs rule: slist_remove_duplicates.induct) (auto intro: le_trans [OF _ length_filter_le])

lemma dup_outer_ok:
  shows "store_ok s G \<Longrightarrow> G l = pre @ post \<Longrightarrow> length post < n \<Longrightarrow>
    returns (dup_outer n l (iter_at pre post) k s) (\<lambda>(k', s').
      becomes l pre (slist_remove_duplicates (map snd post)) G s' \<and>
      k' = k + of_nat (length post - length (slist_remove_duplicates (map snd post))))"
proof (induction n arbitrary: s G pre post k)
  case (Suc n)
  note ok = Suc.prems(1)
  note sh = store_okD(1) [OF ok]
  show ?case
  proof (cases post rule: start.cases)
    case 1
    then show ?thesis using becomes_same [OF ok Suc.prems(2)] by simp
  next
    case (2 a x post')
    have l2: "G l = pre @ (a, x) # post'" using Suc.prems(2) 2 by simp
    let ?rest = "filter (\<lambda>y. x \<noteq> y) (map snd post')"
    let ?same = "length (filter (\<lambda>y. x = y) (map snd post'))"
    have "length post' < fuel s" using shape_fuel [OF sh, of l] l2 by simp
    then obtain s1 k1 where inner: "dup_inner (fuel s) l (iter_at pre post)
          (iter_at (pre @ [(a, x)]) post') k s = Inr (k1, s1)"
      "becomes l (pre @ [(a, x)]) ?rest G s1" "k1 = k + of_nat ?same"
      using dup_inner_ok [of "iter_at pre post" a s G l pre x "[]" post' "fuel s" k] ok l2 2
      by (auto simp: returns_iff)
    then obtain cs where cs: "store_ok s1 (G(l := (pre @ [(a, x)]) @ cs))" "map snd cs = ?rest"
      by (auto simp: becomes_def)
    let ?G = "G(l := (pre @ [(a, x)]) @ cs)"
    have inc: "iter_inc s1 (iter_at pre post) = Inr (iter_at (pre @ [(a, x)]) cs)"
      using iter_inc_eq [OF store_okD(1) [OF cs(1)], of l pre a x cs] 2
      by (simp add: iter_inc_def iter_at_def)
    have split: "length post' = length ?rest + ?same"
      using sum_length_filter_compl [of "\<lambda>y. x = y" "map snd post'"] by simp
    have len: "length cs = length ?rest"
      using cs(2) by (metis length_map)
    have "returns (dup_outer n l (iter_at (pre @ [(a, x)]) cs) k1 s1) (\<lambda>(k', s').
        becomes l (pre @ [(a, x)]) (slist_remove_duplicates (map snd cs)) ?G s' \<and>
        k' = k1 + of_nat (length cs - length (slist_remove_duplicates (map snd cs))))"
      by (rule Suc.IH [OF cs(1)]) (use Suc.prems(3) 2 len split in auto)
    then have "returns (dup_outer n l (iter_at (pre @ [(a, x)]) cs) k1 s1) (\<lambda>(k', s').
        becomes l pre (x # slist_remove_duplicates ?rest) G s' \<and>
        k' = k + of_nat (length post - length (x # slist_remove_duplicates ?rest)))"
    proof (rule returns_mono, clarify)
      fix k' s'
      assume "becomes l (pre @ [(a, x)]) (slist_remove_duplicates (map snd cs)) ?G s'"
      then show "becomes l pre (x # slist_remove_duplicates ?rest) G s' \<and>
        k1 + of_nat (length cs - length (slist_remove_duplicates (map snd cs))) =
        k + of_nat (length post - length (x # slist_remove_duplicates ?rest))"
        unfolding cs(2) becomes_upd
        using inner(3) len split 2 slist_remove_duplicates_count [of ?rest]
        by (auto intro: becomes_Cons simp: of_nat_add [symmetric] add.commute simp del: of_nat_add)
    qed
    then show ?thesis
      using inner(1) inc iter_inc_eq [OF sh l2] 2 by simp
  qed
qed simp

lemma remove_duplicates_ok:
  assumes "store_ok s G"
  shows "returns (remove_duplicates l s) (\<lambda>(k, s').
    becomes l [] (slist_remove_duplicates (map snd (G l))) G s' \<and>
    k = of_nat (length (G l) - length (slist_remove_duplicates (map snd (G l)))))"
  using dup_outer_ok [OF assms, of l "[]" "G l" "fuel s" 0] shape_fuel [OF store_okD(1) [OF assms]]
  by (simp add: remove_duplicates_def begin_iter_eq [OF store_okD(1) [OF assms]])

subsection \<open>Queries\<close>

lemma contains_loop_eq:
  assumes "shape s G"
  shows "G l = pre @ post \<Longrightarrow> length post < n \<Longrightarrow>
    contains_loop n s v (start post) = Inr (v \<in> set (map snd post))"
proof (induction n arbitrary: pre post)
  case (Suc n)
  show ?case
  proof (cases post rule: start.cases)
    case (2 a x post')
    then have "contains_loop n s v (start post') = Inr (v \<in> set (map snd post'))"
      using Suc.prems by (intro Suc.IH [of "pre @ [(a, x)]"]) auto
    then show ?thesis
      using deref_cell [OF assms, of l pre a x post'] Suc.prems 2 by auto
  qed simp
qed simp

lemma slist_contains_eq:
  assumes "shape s G"
  shows "slist_contains l v s = Inr (v \<in> set (map snd (G l)))"
  using contains_loop_eq [OF assms, of l "[]" "G l" "fuel s"] shape_fuel [OF assms, of l]
  by (simp add: slist_contains_def shape_head [OF assms])

lemma eq_loop_eq:
  assumes "shape s G"
  shows "G l = pre @ post \<Longrightarrow> G m = pre' @ post' \<Longrightarrow> length post < n \<Longrightarrow>
    eq_loop n s (start post) (start post') = Inr (map snd post = map snd post')"
proof (induction n arbitrary: pre pre' post post')
  case (Suc n)
  show ?case
  proof (cases post rule: start.cases)
    case 1
    then show ?thesis by auto
  next
    case p: (2 a x ps)
    show ?thesis
    proof (cases post' rule: start.cases)
      case 1
      then show ?thesis using p by simp
    next
      case q: (2 b y qs)
      have "eq_loop n s (start ps) (start qs) = Inr (map snd ps = map snd qs)"
        using Suc.prems p q by (intro Suc.IH [of "pre @ [(a, x)]" _ "pre' @ [(b, y)]"]) auto
      then show ?thesis
        using deref_cell [OF assms, of l pre a x ps] deref_cell [OF assms, of m pre' b y qs]
          Suc.prems p q by simp
    qed
  qed
qed simp

lemma slist_eq_eq:
  assumes "shape s G"
  shows "slist_eq l m s = Inr (map snd (G l) = map snd (G m))"
  using eq_loop_eq [OF assms, of m "[]" "G m" l "[]" "G l" "fuel s"] shape_fuel [OF assms, of m]
  by (auto simp: slist_eq_def shape_head [OF assms])

fun print_items :: "('a \<Rightarrow> string) \<Rightarrow> bool \<Rightarrow> 'a list \<Rightarrow> string" where
  "print_items pr not_begin [] = ''''"
| "print_items pr not_begin (x # xs) = (if not_begin then '' '' else '''') @ pr x @ print_items pr True xs"

lemma print_loop_eq:
  assumes "shape s G"
  shows "G l = pre @ post \<Longrightarrow> length post < n \<Longrightarrow>
    print_loop n pr b (iter_at pre post) s os = Inr (os @ print_items pr b (map snd post))"
proof (induction n arbitrary: pre post b os)
  case (Suc n)
  show ?case
  proof (cases post rule: start.cases)
    case (2 a x post')
    have l2: "G l = pre @ (a, x) # post'" using Suc.prems 2 by simp
    have "print_loop n pr True (iter_at (pre @ [(a, x)]) post') s
        ((if b then os @ '' '' else os) @ pr x) =
      Inr (((if b then os @ '' '' else os) @ pr x) @ print_items pr True (map snd post'))"
      by (rule Suc.IH) (use l2 Suc.prems 2 in auto)
    then show ?thesis
      using iter_inc_eq [OF assms l2] iter_get_eq [OF assms l2, of "iter_at pre post"] 2 by simp
  qed simp
qed simp

lemma print_slist_eq:
  assumes "shape s G"
  shows "print_slist pr l s = Inr (''('' @ print_items pr False (map snd (G l)) @ '')'')"
  using print_loop_eq [OF assms, of l "[]" "G l" "fuel s" pr False "''(''"] shape_fuel [OF assms, of l]
  by (simp add: print_slist_def begin_iter_eq [OF assms])

end
