(* ===== verification/Slist_Refine.thy ===== *)
theory Slist_Refine
  imports Slist_Iter
begin

text \<open>
  The linked lists refine lists: any sequence of list operations, run on the store of cells, gives
  the lists that the abstract operations give, or fails exactly where they fail; the store
  keeps its shape, so nothing dangles and nothing leaks. One operation does not keep the promise
  of its comment: \<open>insert_before\<close> in front of the first item.
\<close>

subsection \<open>What a store stands for\<close>

definition reps :: "'a store \<Rightarrow> (nat \<Rightarrow> 'a list) \<Rightarrow> bool" where
  "reps s R \<longleftrightarrow> (\<exists>G. store_ok s G \<and> R = (\<lambda>l. map snd (G l)))"

lemma repsE:
  assumes "reps s R"
  obtains G where "store_ok s G" "\<And>l. R l = map snd (G l)"
  using assms by (auto simp: reps_def)

lemma repsI: "store_ok s (G(l := cs)) \<Longrightarrow> (\<And>l. R l = map snd (G l)) \<Longrightarrow> map snd cs = xs \<Longrightarrow>
   reps s (R(l := xs))"
  unfolding reps_def by (intro exI [of _ "G(l := cs)"]) (auto simp: fun_eq_iff)

lemma reps_becomes: "becomes l [] xs G s \<Longrightarrow> (\<And>l. R l = map snd (G l)) \<Longrightarrow> reps s (R(l := xs))"
  by (auto simp: becomes_def intro: repsI)

lemma reps_empty: "reps empty_store (\<lambda>_. [])"
  unfolding reps_def
  by (intro exI [of _ "\<lambda>_. []"])
     (simp add: store_ok_def shape_def lengths_ok_def empty_store_def new_slist_def)

text \<open>No cell is allocated that no list uses, so a store whose lists are all empty has no cell.\<close>

lemma reps_no_leak:
  assumes "reps s R" "\<And>l. R l = []"
  shows "cells s = (\<lambda>_. None)"
proof -
  from assms(1) obtain G where G: "store_ok s G" "\<And>l. R l = map snd (G l)" by (rule repsE) (rule that, simp_all)
  then have "dom (cells s) = {}"
    using assms(2) shape_dom [OF store_okD(1) [OF G(1)]] by auto
  then show ?thesis by simp
qed

lemma reps_size: "reps s R \<Longrightarrow> slist_size l s = of_nat (length (R l))"
  by (auto elim!: repsE simp: slist_size_eq)

lemma reps_empty_list: "reps s R \<Longrightarrow> slist_empty l s = (R l = [])"
  by (auto elim!: repsE simp: slist_empty_eq [OF store_okD(1)])

lemma reps_front: "reps s R \<Longrightarrow> slist_front l s = (if R l = [] then Inl Assert_failed else Inr (hd (R l)))"
  by (auto elim!: repsE simp: slist_front_eq [OF store_okD(1)] hd_map)

lemma reps_back: "reps s R \<Longrightarrow> slist_back l s = (if R l = [] then Inl Assert_failed else Inr (last (R l)))"
  by (auto elim!: repsE simp: slist_back_eq [OF store_okD(1)] last_map)

lemma reps_contains: "reps s R \<Longrightarrow> slist_contains l v s = Inr (v \<in> set (R l))"
  by (auto elim!: repsE simp: slist_contains_eq [OF store_okD(1)])

lemma reps_eq: "reps s R \<Longrightarrow> slist_eq l m s = Inr (R l = R m)"
  by (auto elim!: repsE simp: slist_eq_eq [OF store_okD(1)])

lemma reps_print: "reps s R \<Longrightarrow> print_slist pr l s = Inr (''('' @ print_items pr False (R l) @ '')'')"
  by (auto elim!: repsE simp: print_slist_eq [OF store_okD(1)])

subsection \<open>Operations\<close>

lemma reps_push_front:
  assumes "reps s R"
  shows "reps (push_front l v s) (R(l := v # R l))"
  using assms by (rule repsE) (auto intro: repsI dest: push_front_ok)

lemma reps_push_back:
  assumes "reps s R"
  shows "returns (push_back l v s) (\<lambda>s'. reps s' (R(l := R l @ [v])))"
  using assms by (rule repsE) (auto elim!: returns_mono [OF push_back_ok] intro: repsI)

lemma reps_pop_front:
  assumes "reps s R"
  shows "returns (pop_front l s) (\<lambda>s'. reps s' (R(l := tl (R l))))"
  using assms by (rule repsE) (auto elim!: returns_mono [OF pop_front_ok] intro: repsI simp: map_tl)

lemma reps_pop_back:
  assumes "reps s R"
  shows "returns (pop_back l s) (\<lambda>s'. reps s' (R(l := butlast (R l))))"
  using assms by (rule repsE) (auto elim!: returns_mono [OF pop_back_ok] intro: repsI simp: map_butlast)

lemma reps_erase_all:
  assumes "reps s R"
  shows "returns (erase_all l s) (\<lambda>s'. reps s' (R(l := [])))"
proof -
  from assms obtain G where G: "store_ok s G" "\<And>l. R l = map snd (G l)" by (rule repsE) (rule that, simp_all)
  have "returns (erase_all l s) (\<lambda>s'. store_ok s' (G(l := [])))"
    by (rule erase_all_ok [OF store_okD(1) [OF G(1)]])
       (use store_okD(2) [OF G(1)] in \<open>simp_all add: lengths_ok_def\<close>)
  then show ?thesis by (rule returns_mono) (auto intro: repsI simp: G)
qed

lemma reps_remove:
  assumes "reps s R"
  shows "returns (remove_value l v s) (\<lambda>s'. reps s' (R(l := slist_remove v (R l))))"
  using assms by (rule repsE)
    (auto elim!: returns_mono [OF remove_value_ok] intro: reps_becomes)

lemma reps_remove_first:
  assumes "reps s R"
  shows "returns (remove_first_value l v s) (\<lambda>s'. reps s' (R(l := slist_remove_first v (R l))))"
  using assms by (rule repsE)
    (auto elim!: returns_mono [OF remove_first_value_ok] intro: reps_becomes)

lemma reps_minus:
  assumes "reps s R"
  shows "returns (minus_slist l src s) (\<lambda>s'. reps s' (R(l := slist_minus (R l) (R src))))"
  using assms by (rule repsE)
    (auto elim!: returns_mono [OF minus_slist_ok] intro: reps_becomes)

lemma reps_remove_duplicates:
  assumes "reps s R"
  shows "returns (remove_duplicates l s) (\<lambda>(k, s'). reps s' (R(l := slist_remove_duplicates (R l))) \<and>
    k = of_nat (length (R l) - length (slist_remove_duplicates (R l))))"
  using assms by (rule repsE)
    (auto elim!: returns_mono [OF remove_duplicates_ok] intro: reps_becomes)

lemma reps_reverse:
  assumes "reps s R"
  shows "returns (reverse_slist l s) (\<lambda>s'. reps s' (R(l := rev (R l))))"
  using assms by (rule repsE) (auto elim!: returns_mono [OF reverse_slist_ok] intro: repsI simp: rev_map)

lemma reps_assign:
  assumes "reps s R"
  shows "returns (assign_slist l src s) (\<lambda>s'. reps s' (R(l := R src)))"
  using assms by (rule repsE) (auto elim!: returns_mono [OF assign_slist_ok] intro: repsI)

lemma reps_append:
  assumes "reps s R" "R tmp = []" "tmp \<noteq> l" "tmp \<noteq> src"
  shows "returns (append_slist tmp l src s) (\<lambda>s'. reps s' (R(l := R l @ R src)))"
proof -
  from assms(1) obtain G where G: "store_ok s G" "\<And>l. R l = map snd (G l)" by (rule repsE) (rule that, simp_all)
  have "G tmp = []" using assms(2) G by simp
  from append_slist_ok [OF G(1) this assms(3,4)] show ?thesis
    by (rule returns_mono) (auto intro: repsI simp: G)
qed

lemma reps_concat:
  assumes "reps s R" "R l = []" "l \<noteq> src1" "l \<noteq> src2"
  shows "returns (concat_slists l src1 src2 s) (\<lambda>s'. reps s' (R(l := R src1 @ R src2)))"
proof -
  from assms(1) obtain G where G: "store_ok s G" "\<And>l. R l = map snd (G l)" by (rule repsE) (rule that, simp_all)
  have "G l = []" using assms(2) G by simp
  from concat_slists_ok [OF G(1) this assms(3,4)] show ?thesis
    by (rule returns_mono) (auto intro: repsI simp: G)
qed

lemma reps_swap:
  assumes "reps s R"
  shows "reps (swap_slists l m s) (R(l := R m, m := R l))"
proof -
  from assms obtain G where G: "store_ok s G" "\<And>l. R l = map snd (G l)" by (rule repsE) (rule that, simp_all)
  show ?thesis
    using swap_slists_ok [OF G(1), of l m] unfolding reps_def
    by (intro exI [of _ "G(l := G m, m := G l)"]) (auto simp: G fun_eq_iff)
qed

subsection \<open>Walking to a position\<close>

text \<open>The iterator that a client gets by incrementing \<open>begin()\<close> \<open>i\<close> times.\<close>

fun advance :: "nat \<Rightarrow> 'a store \<Rightarrow> iter \<Rightarrow> iter res" where
  "advance 0 s it = Inr it"
| "advance (Suc i) s it = rbind (iter_inc s it) (advance i s)"

lemma advance_eq:
  assumes "shape s G"
  shows "G l = pre @ post \<Longrightarrow>
    advance i s (iter_at pre post) = Inr (iter_at (pre @ take i post) (drop i post))"
proof (induction i arbitrary: pre post)
  case (Suc i)
  show ?case
  proof (cases post rule: start.cases)
    case 1
    then show ?thesis using Suc.IH [of pre "[]"] Suc.prems by (simp add: iter_inc_end)
  next
    case (2 a x post')
    then have l: "G l = pre @ (a, x) # post'" using Suc.prems by simp
    show ?thesis
      using Suc.IH [of "pre @ [(a, x)]" post'] l iter_inc_eq [OF assms l] 2 by simp
  qed
qed simp

definition iter_nth :: "nat \<Rightarrow> nat \<Rightarrow> 'a store \<Rightarrow> iter res" where
  "iter_nth l i s = advance i s (begin_iter l s)"

lemma iter_nth_eq:
  "shape s G \<Longrightarrow> iter_nth l i s = Inr (iter_at (take i (G l)) (drop i (G l)))"
  using advance_eq [of s G l "[]" "G l" i] by (simp add: iter_nth_def begin_iter_eq)

definition list_insert_after :: "nat \<Rightarrow> 'a \<Rightarrow> 'a list \<Rightarrow> 'a list" where
  "list_insert_after i v xs = take (Suc i) xs @ v # drop (Suc i) xs"

definition list_insert_before :: "nat \<Rightarrow> 'a \<Rightarrow> 'a list \<Rightarrow> 'a list" where
  "list_insert_before i v xs = take i xs @ v # drop i xs"

definition list_erase :: "nat \<Rightarrow> 'a list \<Rightarrow> 'a list" where
  "list_erase i xs = take i xs @ drop (Suc i) xs"

lemma split_at:
  assumes "i < length cs"
  obtains a x post where "drop i cs = (a, x) # post" "cs = take i cs @ (a, x) # post"
    "take (Suc i) cs = take i cs @ [(a, x)]" "drop (Suc i) cs = post"
  using id_take_nth_drop [OF assms] Cons_nth_drop_Suc [OF assms] take_Suc_conv_app_nth [OF assms]
  by (metis prod.collapse)

lemma reps_erase_at:
  assumes "reps s R"
  shows "returns (rbind (iter_nth l i s) (\<lambda>it. erase_at l it s)) (\<lambda>(it, s').
    reps s' (R(l := list_erase i (R l))) \<and> iter_nth l i s' = Inr it)"
proof -
  from assms obtain G where G: "store_ok s G" "\<And>l. R l = map snd (G l)" by (rule repsE) (rule that, simp_all)
  note nth = iter_nth_eq [OF store_okD(1) [OF G(1)], of l i]
  show ?thesis
  proof (cases "i < length (G l)")
    case True
    then obtain a x post where dr: "drop i (G l) = (a, x) # post" "G l = take i (G l) @ (a, x) # post"
      "drop (Suc i) (G l) = post" by (rule split_at)
    from erase_at_eq [OF G(1) dr(2)] obtain s' where
      s': "erase_at l (iter_at (take i (G l)) ((a, x) # post)) s = Inr (iter_at (take i (G l)) post, s')"
      "store_ok s' (G(l := take i (G l) @ post))" by auto
    have "list_erase i (R l) = map snd (take i (G l) @ post)"
      using dr(3) by (simp add: list_erase_def G take_map drop_map)
    moreover have "iter_nth l i s' = Inr (iter_at (take i (G l)) post)"
      using iter_nth_eq [OF store_okD(1) [OF s'(2)], of l i] True by simp
    ultimately show ?thesis
      using nth dr(1) s' by (auto intro: repsI simp: G)
  next
    case False
    then show ?thesis
      using nth assms by (simp add: erase_at_end list_erase_def G fun_upd_idem)
  qed
qed

lemma reps_insert_after:
  assumes "reps s R"
  shows "returns (rbind (iter_nth l i s) (\<lambda>it. insert_at l it v s)) (\<lambda>s'.
    reps s' (R(l := list_insert_after i v (R l))))"
proof -
  from assms obtain G where G: "store_ok s G" "\<And>l. R l = map snd (G l)" by (rule repsE) (rule that, simp_all)
  note nth = iter_nth_eq [OF store_okD(1) [OF G(1)], of l i]
  show ?thesis
  proof (cases "i < length (G l)")
    case True
    then obtain a x post where dr: "drop i (G l) = (a, x) # post" "G l = take i (G l) @ (a, x) # post"
      "take (Suc i) (G l) = take i (G l) @ [(a, x)]" "drop (Suc i) (G l) = post" by (rule split_at)
    have "list_insert_after i v (R l) = map snd (take i (G l) @ (a, x) # (brk s, v) # post)"
      using dr(3,4) by (simp add: list_insert_after_def G take_map drop_map)
    then show ?thesis
      using nth dr(1) insert_at_eq [OF G(1) dr(2), of v]
      by (auto elim!: returns_mono intro: repsI simp: G)
  next
    case False
    then have "list_insert_after i v (R l) = map snd (G l @ [(brk s, v)])"
      by (simp add: list_insert_after_def G)
    moreover have "returns (insert_at l (iter_at (G l) []) v s)
        (\<lambda>s'. reps s' (R(l := map snd (G l @ [(brk s, v)]))))"
      by (rule returns_mono [OF insert_at_end [OF G(1), of l "G l" v]]) (rule repsI, simp_all only: G)
    ultimately show ?thesis
      using nth False by simp
  qed
qed

text \<open>In front of the end of a list that is not empty, \<open>insert_before\<close> fails an assertion.\<close>

lemma reps_insert_before:
  assumes "reps s R"
  shows "i < length (R l) \<or> R l = [] \<Longrightarrow>
      returns (rbind (iter_nth l i s) (\<lambda>it. insert_before l it v s)) (\<lambda>(new, pos, s').
        reps s' (R(l := list_insert_before i v (R l))) \<and> iter_get s' new = Inr v)"
    and "\<not> (i < length (R l) \<or> R l = []) \<Longrightarrow>
      rbind (iter_nth l i s) (\<lambda>it. insert_before l it v s) = Inl Assert_failed"
proof -
  from assms obtain G where G: "store_ok s G" "\<And>l. R l = map snd (G l)" by (rule repsE) (rule that, simp_all)
  note nth = iter_nth_eq [OF store_okD(1) [OF G(1)], of l i]
  show "rbind (iter_nth l i s) (\<lambda>it. insert_before l it v s) = Inl Assert_failed"
    if "\<not> (i < length (R l) \<or> R l = [])"
    using that nth insert_before_end [OF G(1), of l "G l" v] by (simp add: G)
  assume i: "i < length (R l) \<or> R l = []"
  show "returns (rbind (iter_nth l i s) (\<lambda>it. insert_before l it v s)) (\<lambda>(new, pos, s').
        reps s' (R(l := list_insert_before i v (R l))) \<and> iter_get s' new = Inr v)"
  proof (cases "take i (G l) = []")
    case True
    then have "iter_nth l i s = Inr (iter_at [] (G l))" using nth i by (auto simp: G)
    moreover have "list_insert_before i v (R l) = map snd ((brk s, v) # G l)"
      using True by (auto simp: list_insert_before_def G take_map drop_map)
    moreover have "iter_get (push_front l v s) (iter_at [] ((brk s, v) # G l)) = Inr v"
      by (rule iter_get_eq [OF store_okD(1) [OF insert_before_front(2) [OF G(1)]], where l = l and pre = "[]"]) simp_all
    ultimately show ?thesis
      using insert_before_front [OF G(1), of l v] by (auto intro: repsI simp: G)
  next
    case False
    then have "drop i (G l) \<noteq> []" using i by (auto simp: G)
    from insert_before_inner [OF G(1) _ False this, where v = v and l = l] obtain s' where
      s': "insert_before l (iter_at (take i (G l)) (drop i (G l))) v s =
        Inr (iter_at (take i (G l)) ((brk s, v) # drop i (G l)),
             iter_at (take i (G l) @ [(brk s, v)]) (drop i (G l)), s')"
      "store_ok s' (G(l := take i (G l) @ (brk s, v) # drop i (G l)))" by auto
    have "list_insert_before i v (R l) = map snd (take i (G l) @ (brk s, v) # drop i (G l))"
      by (simp add: list_insert_before_def G take_map drop_map)
    moreover have "iter_get s' (iter_at (take i (G l)) ((brk s, v) # drop i (G l))) = Inr v"
      by (rule iter_get_eq [OF store_okD(1) [OF s'(2)], where l = l and pre = "take i (G l)"]) simp_all
    ultimately show ?thesis
      using nth s' by (auto intro: repsI simp: G)
  qed
qed


subsection \<open>Sequences of operations\<close>

text \<open>
  Client operations on numbered lists. List 0 serves as the local copy of \<open>operator+=\<close> and is
  empty between operations; the client's list \<open>l\<close> is object \<open>Suc l\<close>.
\<close>

datatype 'a slist_cmd =
    Push_front nat 'a
  | Push_back nat 'a
  | Pop_front nat
  | Pop_back nat
  | Erase_all nat
  | Remove nat 'a
  | Remove_first nat 'a
  | Remove_duplicates nat
  | Reverse nat
  | Assign nat nat
  | Swap nat nat
  | Append nat nat
  | Minus nat nat
  | Erase_at nat nat
  | Insert_after nat nat 'a
  | Insert_before nat nat 'a

fun run_cmd :: "'a slist_cmd \<Rightarrow> 'a store \<Rightarrow> 'a store res" where
  "run_cmd (Push_front l v) s = Inr (push_front (Suc l) v s)"
| "run_cmd (Push_back l v) s = push_back (Suc l) v s"
| "run_cmd (Pop_front l) s = pop_front (Suc l) s"
| "run_cmd (Pop_back l) s = pop_back (Suc l) s"
| "run_cmd (Erase_all l) s = erase_all (Suc l) s"
| "run_cmd (Remove l v) s = remove_value (Suc l) v s"
| "run_cmd (Remove_first l v) s = remove_first_value (Suc l) v s"
| "run_cmd (Remove_duplicates l) s = rbind (remove_duplicates (Suc l) s) (\<lambda>(k, s'). Inr s')"
| "run_cmd (Reverse l) s = reverse_slist (Suc l) s"
| "run_cmd (Assign l m) s = assign_slist (Suc l) (Suc m) s"
| "run_cmd (Swap l m) s = Inr (swap_slists (Suc l) (Suc m) s)"
| "run_cmd (Append l m) s = append_slist 0 (Suc l) (Suc m) s"
| "run_cmd (Minus l m) s = minus_slist (Suc l) (Suc m) s"
| "run_cmd (Erase_at l i) s = rbind (rbind (iter_nth (Suc l) i s) (\<lambda>it. erase_at (Suc l) it s))
     (\<lambda>(it, s'). Inr s')"
| "run_cmd (Insert_after l i v) s = rbind (iter_nth (Suc l) i s) (\<lambda>it. insert_at (Suc l) it v s)"
| "run_cmd (Insert_before l i v) s =
     rbind (rbind (iter_nth (Suc l) i s) (\<lambda>it. insert_before (Suc l) it v s))
       (\<lambda>(new, pos, s'). Inr s')"

fun abs_cmd :: "'a slist_cmd \<Rightarrow> (nat \<Rightarrow> 'a list) \<Rightarrow> (nat \<Rightarrow> 'a list) res" where
  "abs_cmd (Push_front l v) R = Inr (R(l := v # R l))"
| "abs_cmd (Push_back l v) R = Inr (R(l := R l @ [v]))"
| "abs_cmd (Pop_front l) R = Inr (R(l := tl (R l)))"
| "abs_cmd (Pop_back l) R = Inr (R(l := butlast (R l)))"
| "abs_cmd (Erase_all l) R = Inr (R(l := []))"
| "abs_cmd (Remove l v) R = Inr (R(l := removeAll v (R l)))"
| "abs_cmd (Remove_first l v) R = Inr (R(l := remove1 v (R l)))"
| "abs_cmd (Remove_duplicates l) R = Inr (R(l := slist_remove_duplicates (R l)))"
| "abs_cmd (Reverse l) R = Inr (R(l := rev (R l)))"
| "abs_cmd (Assign l m) R = Inr (R(l := R m))"
| "abs_cmd (Swap l m) R = Inr (R(l := R m, m := R l))"
| "abs_cmd (Append l m) R = Inr (R(l := R l @ R m))"
| "abs_cmd (Minus l m) R = Inr (R(l := slist_minus (R l) (R m)))"
| "abs_cmd (Erase_at l i) R = Inr (R(l := list_erase i (R l)))"
| "abs_cmd (Insert_after l i v) R = Inr (R(l := list_insert_after i v (R l)))"
| "abs_cmd (Insert_before l i v) R = (if i < length (R l) \<or> R l = []
     then Inr (R(l := list_insert_before i v (R l))) else Inl Assert_failed)"

definition client :: "(nat \<Rightarrow> 'a list) \<Rightarrow> nat \<Rightarrow> 'a list" where
  "client R n = (case n of 0 \<Rightarrow> [] | Suc l \<Rightarrow> R l)"

definition simulates :: "'a store res \<Rightarrow> (nat \<Rightarrow> 'a list) res \<Rightarrow> bool" where
  "simulates m a = (case a of Inl e \<Rightarrow> m = Inl e | Inr R \<Rightarrow> returns m (\<lambda>s. reps s (client R)))"

lemma client_simps [simp]: "client R 0 = []" "client R (Suc l) = R l"
  by (simp_all add: client_def)

lemma client_upd [simp]: "(client R)(Suc l := xs) = client (R(l := xs))"
  by (auto simp: client_def fun_eq_iff split: nat.split)

lemma client_Nil [simp]: "client (\<lambda>_. []) = (\<lambda>_. [])"
  by (auto simp: client_def split: nat.split)

lemma cmd_simulates:
  assumes "reps s (client R)"
  shows "simulates (run_cmd c s) (abs_cmd c R)"
proof (cases c)
  case (Push_front l v)
  then show ?thesis using reps_push_front [OF assms, of "Suc l" v] by (simp add: simulates_def)
next
  case (Push_back l v)
  then show ?thesis using reps_push_back [OF assms, of "Suc l" v] by (simp add: simulates_def)
next
  case (Pop_front l)
  then show ?thesis using reps_pop_front [OF assms, of "Suc l"] by (simp add: simulates_def)
next
  case (Pop_back l)
  then show ?thesis using reps_pop_back [OF assms, of "Suc l"] by (simp add: simulates_def)
next
  case (Erase_all l)
  then show ?thesis using reps_erase_all [OF assms, of "Suc l"] by (simp add: simulates_def)
next
  case (Remove l v)
  then show ?thesis using reps_remove [OF assms, of "Suc l" v] by (simp add: simulates_def)
next
  case (Remove_first l v)
  then show ?thesis using reps_remove_first [OF assms, of "Suc l" v] by (simp add: simulates_def)
next
  case (Remove_duplicates l)
  then show ?thesis using reps_remove_duplicates [OF assms, of "Suc l"]
    by (auto simp: simulates_def elim: returns_mono)
next
  case (Reverse l)
  then show ?thesis using reps_reverse [OF assms, of "Suc l"] by (simp add: simulates_def)
next
  case (Assign l m)
  then show ?thesis using reps_assign [OF assms, of "Suc l" "Suc m"] by (simp add: simulates_def)
next
  case (Swap l m)
  then show ?thesis using reps_swap [OF assms, of "Suc l" "Suc m"] by (simp add: simulates_def)
next
  case (Append l m)
  then show ?thesis using reps_append [OF assms, of 0 "Suc l" "Suc m"] by (simp add: simulates_def)
next
  case (Minus l m)
  then show ?thesis using reps_minus [OF assms, of "Suc l" "Suc m"] by (simp add: simulates_def)
next
  case (Erase_at l i)
  then show ?thesis using reps_erase_at [OF assms, of "Suc l" i]
    by (auto simp: simulates_def elim!: returns_mono)
next
  case (Insert_after l i v)
  then show ?thesis using reps_insert_after [OF assms, of "Suc l" i v] by (simp add: simulates_def)
next
  case (Insert_before l i v)
  then show ?thesis using reps_insert_before [OF assms, where l = "Suc l" and i = i and v = v]
    by (auto simp: simulates_def returns_iff)
qed

lemma cmds_simulate:
  assumes "reps s (client R)"
  shows "simulates (rfold run_cmd cs s) (rfold abs_cmd cs R)"
  using assms
proof (induction cs arbitrary: s R)
  case (Cons c cs)
  show ?case
  proof (cases "abs_cmd c R")
    case (Inl e)
    then show ?thesis using cmd_simulates [OF Cons.prems, of c] by (simp add: simulates_def)
  next
    case (Inr R')
    then obtain s' where "run_cmd c s = Inr s'" "reps s' (client R')"
      using cmd_simulates [OF Cons.prems, of c] by (auto simp: simulates_def returns_iff)
    then show ?thesis using Cons.IH [of s' R'] Inr by simp
  qed
qed (simp add: simulates_def)

end
