(* ===== verification/Slist_Properties.thy ===== *)
theory Slist_Properties
  imports Slist_Refine
begin

text \<open>
  The properties of the linked lists: refinement of lists by any sequence of operations, the
  queries, the release of all memory, and the run that shows what \<open>insert_before\<close> at the front does
  to the iterator it is given.
\<close>

text \<open>
  C35. Every sequence of list operations, run on the store of linked cells, behaves as the same
  sequence of functions on lists: it ends in a store whose lists have the abstract contents, with
  right lengths, no sharing between lists, no dangling pointer and no unused cell; or it fails
  the assertion of \<open>insert_before\<close> exactly where the abstract sequence does. No loop runs out of
  fuel and no null or deleted pointer is followed.
\<close>

theorem slist_refines_lists:
  "simulates (rfold run_cmd cs empty_store) (rfold abs_cmd cs (\<lambda>_. []))"
  by (rule cmds_simulate) (simp add: reps_empty)

text \<open>
  In every store that list operations can build, the queries \<open>size\<close>, \<open>empty\<close>, \<open>contains\<close>,
  \<open>operator==\<close>, \<open>front\<close>, \<open>back\<close> and the printed form are those of the lists it stands for;
  \<open>front\<close> and \<open>back\<close> of an empty list fail their assertion, and \<open>remove_duplicates\<close> returns the
  number of items it removed.
\<close>

theorem slist_queries:
  assumes "rfold abs_cmd cs (\<lambda>_. []) = Inr R"
  shows "returns (rfold run_cmd cs empty_store) (\<lambda>s.
    slist_size (Suc l) s = of_nat (length (R l)) \<and>
    slist_empty (Suc l) s = (R l = []) \<and>
    slist_contains (Suc l) v s = Inr (v \<in> set (R l)) \<and>
    slist_eq (Suc l) (Suc m) s = Inr (R l = R m) \<and>
    slist_front (Suc l) s = (if R l = [] then Inl Assert_failed else Inr (hd (R l))) \<and>
    slist_back (Suc l) s = (if R l = [] then Inl Assert_failed else Inr (last (R l))) \<and>
    print_slist pr (Suc l) s = Inr (''('' @ print_items pr False (R l) @ '')'') \<and>
    returns (remove_duplicates (Suc l) s) (\<lambda>(k, s'). k = of_nat (length (R l) - card (set (R l)))))"
proof -
  have "returns (rfold run_cmd cs empty_store) (\<lambda>s. reps s (client R))"
    using cmds_simulate [of empty_store "\<lambda>_. []" cs] assms by (simp add: reps_empty simulates_def)
  then show ?thesis
  proof (rule returns_mono, intro conjI)
    fix s
    assume r: "reps s (client R)"
    show "returns (remove_duplicates (Suc l) s) (\<lambda>(k, s'). k = of_nat (length (R l) - card (set (R l))))"
      by (rule returns_mono [OF reps_remove_duplicates [OF r, of "Suc l"]])
         (simp add: length_slist_remove_duplicates split: prod.splits)
  qed (simp_all add: reps_size reps_empty_list reps_contains reps_eq reps_front reps_back reps_print)
qed

theorem slist_queries_witness:
  "returns (rfold run_cmd [Push_back 0 (3::nat), Push_front 0 5, Push_back 0 3, Insert_after 0 0 7]
     empty_store) (\<lambda>s.
    slist_size (Suc 0) s = 4 \<and> slist_contains (Suc 0) 7 s = Inr True \<and>
    slist_front (Suc 0) s = Inr 5 \<and> slist_back (Suc 1) s = Inl Assert_failed)"
proof -
  have abs: "rfold abs_cmd [Push_back 0 (3::nat), Push_front 0 5, Push_back 0 3, Insert_after 0 0 7]
      (\<lambda>_. []) = Inr ((\<lambda>_. [])(0 := [5, 7, 3, 3]))"
    by (simp add: list_insert_after_def fun_eq_iff)
  show ?thesis
    using returns_conj [OF slist_queries [OF abs, of 0 7 0 "\<lambda>_. ''''"]
        slist_queries [OF abs, of 1 7 0 "\<lambda>_. ''''"]]
    by (rule returns_mono) simp
qed

text \<open>
  C36. Nothing leaks: after any successful sequence of operations, destroying every list that still
  has items leaves no allocated cell.
\<close>

theorem slist_destruction_frees_all:
  assumes "rfold abs_cmd cs (\<lambda>_. []) = Inr R" and "\<And>l. R l \<noteq> [] \<Longrightarrow> l \<in> set ls"
  shows "returns (rfold run_cmd (cs @ map Erase_all ls) empty_store) (\<lambda>s. cells s = (\<lambda>_. None))"
proof -
  have "rfold abs_cmd (map Erase_all ls) R' = Inr (\<lambda>l. if l \<in> set ls then [] else R' l)"
    for R' :: "nat \<Rightarrow> 'a list"
    by (induction ls arbitrary: R') (auto simp: fun_eq_iff)
  then have "rfold abs_cmd (cs @ map Erase_all ls) (\<lambda>_. []) = Inr (\<lambda>_. [])"
    using assms by (auto simp: rfold_append fun_eq_iff)
  then have "returns (rfold run_cmd (cs @ map Erase_all ls) empty_store) (\<lambda>s. reps s (client (\<lambda>_. [])))"
    using cmds_simulate [of empty_store "\<lambda>_. []" "cs @ map Erase_all ls"]
    by (simp add: reps_empty simulates_def)
  then show ?thesis by (rule returns_mono) (auto intro: reps_no_leak)
qed

theorem slist_destruction_frees_all_witness:
  "returns (rfold run_cmd [Push_back 0 (3::nat), Push_back 1 4, Append 0 1, Remove 0 3, Erase_all 0, Erase_all 1]
     empty_store) (\<lambda>s. cells s = (\<lambda>_. None))"
proof -
  have "rfold abs_cmd [Push_back 0 (3::nat), Push_back 1 4, Append 0 1, Remove 0 3] (\<lambda>_. []) =
      Inr ((\<lambda>_. [])(0 := [4], 1 := [4]))"
    by (simp add: fun_eq_iff)
  moreover have "l \<in> set [0, 1]" if "((\<lambda>_. [])(0 := [4::nat], 1 := [4])) l \<noteq> []" for l
    using that by (simp split: if_splits)
  ultimately show ?thesis
    using slist_destruction_frees_all [where ls = "[0, 1]"] by fastforce
qed

text \<open>
  A concrete run: \<open>insert_before\<close> in front of the only item does not set the previous item of
  the iterator it is given, although its comment says that the iterator remains valid. A second
  \<open>insert_before\<close> with that iterator fails its assertion, and \<open>erase\<close> with it drops the new item
  too: the list is empty, its length is 1, and the cell of the new item is lost.
\<close>

theorem insert_before_front_breaks_iterator:
  "let s0 = push_front 0 (1::nat) empty_store;
       pos = begin_iter 0 s0
   in returns (insert_before 0 pos 2 s0) (\<lambda>(new, pos', s1).
        insert_before 0 pos' 3 s1 = Inl Assert_failed \<and>
        returns (erase_at 0 pos' s1) (\<lambda>(it, s2).
          slist_empty 0 s2 \<and> slist_size 0 s2 = 1 \<and> cells s2 \<noteq> (\<lambda>_. None)))"
  by (simp add: Let_def empty_store_def new_slist_def push_front_def begin_iter_def insert_before_def
      iter_eq_def end_iter_def add_item_def set_head_def set_length_def add_length_def l2_assert_def
      erase_at_def deref_def delete_item_def slist_empty_def slist_size_def fun_eq_iff)

end
