(* ===== verification/Arrays.thy ===== *)
theory Arrays
  imports Prelude
begin

text \<open>
  The growing arrays of \<open>mba_utils/array.h\<close>. The storage is a block of \<open>arr_allocated\<close> places, of
  which the first \<open>arr_used\<close> are elements; a place that was never assigned holds no value, and reading
  it, or writing past the block, is \<open>Bad_pointer\<close>. Sizes and indices are 32-bit and wrap.
\<close>

record 'a array =
  arr_block :: "'a option list"
  arr_used :: "32 word"
  arr_allocated :: "32 word"

definition do_allocate :: "32 word \<Rightarrow> 'a option list" where
  "do_allocate n = replicate (unat n) None"

definition new_array :: "32 word \<Rightarrow> 'a array" where
  "new_array n = \<lparr>arr_block = do_allocate n, arr_used = 0, arr_allocated = n\<rparr>"

definition array_erase :: "'a array \<Rightarrow> 'a array" where
  "array_erase a = a\<lparr>arr_block := [], arr_used := 0, arr_allocated := 0\<rparr>"

definition array_size :: "'a array \<Rightarrow> 32 word" where
  "array_size a = arr_used a"

definition array_empty :: "'a array \<Rightarrow> bool" where
  "array_empty a = (array_size a = 0)"

text \<open>One place of the block.\<close>

definition read_cell :: "'a array \<Rightarrow> 32 word \<Rightarrow> 'a res" where
  "read_cell a i = (if unat i < length (arr_block a)
     then (case arr_block a ! unat i of None \<Rightarrow> Inl Bad_pointer | Some x \<Rightarrow> Inr x)
     else Inl Bad_pointer)"

definition write_cell :: "'a array \<Rightarrow> 32 word \<Rightarrow> 'a \<Rightarrow> 'a array res" where
  "write_cell a i x = (if unat i < length (arr_block a)
     then Inr (a\<lparr>arr_block := (arr_block a)[unat i := Some x]\<rparr>) else Inl Bad_pointer)"

text \<open>\<open>operator[]\<close>, read and as the target of an assignment.\<close>

definition array_get :: "'a array \<Rightarrow> 32 word \<Rightarrow> 'a res" where
  "array_get a i = rbind (l2_assert (i < array_size a) Assert_failed) (\<lambda>_. read_cell a i)"

definition array_set :: "'a array \<Rightarrow> 32 word \<Rightarrow> 'a \<Rightarrow> 'a array res" where
  "array_set a i x = rbind (l2_assert (i < array_size a) Assert_failed) (\<lambda>_. write_cell a i x)"

definition ensure :: "32 word \<Rightarrow> 'a array \<Rightarrow> 'a array" where
  "ensure newsize a =
     (if newsize > arr_allocated a then
        let doubled = arr_allocated a * 2;
            alloc = (if newsize > doubled then newsize else doubled);
            old = arr_block a;
            block = do_allocate alloc
        in a\<lparr>arr_block := map (\<lambda>i. if i < unat (arr_used a) then old ! i else block ! i) [0..<length block],
             arr_allocated := alloc\<rparr>
      else a)"

definition grow_and_set :: "32 word \<Rightarrow> 'a \<Rightarrow> 'a array \<Rightarrow> 'a array res" where
  "grow_and_set i t a =
     (let a1 = (if i \<ge> array_size a then (ensure (i + 1) a)\<lparr>arr_used := i + 1\<rparr> else a)
      in write_cell a1 i t)"

definition array_push :: "'a \<Rightarrow> 'a array \<Rightarrow> 'a array res" where
  "array_push x a =
     (let a1 = ensure (array_size a + 1) a
      in rbind (write_cell a1 (array_size a1) x) (\<lambda>a2. Inr (a2\<lparr>arr_used := arr_used a2 + 1\<rparr>)))"

definition array_pop :: "'a array \<Rightarrow> ('a \<times> 'a array) res" where
  "array_pop a = rbind (l2_assert (array_size a \<noteq> 0) Assert_failed) (\<lambda>_.
     let a1 = a\<lparr>arr_used := arr_used a - 1\<rparr>
     in rbind (read_cell a1 (array_size a1)) (\<lambda>x. Inr (x, a1)))"

definition array_remove :: "32 word \<Rightarrow> 'a array \<Rightarrow> 'a array res" where
  "array_remove i a = rbind (l2_assert (i < array_size a) Assert_failed) (\<lambda>_.
     let a1 = a\<lparr>arr_used := arr_used a - 1\<rparr>
     in if i \<noteq> array_size a1 then rbind (read_cell a1 (array_size a1)) (write_cell a1 i)
        else Inr a1)"

text \<open>\<open>erase\<close> through an iterator, which is an offset from \<open>arr_block\<close> here.\<close>

definition array_erase_at :: "int \<Rightarrow> 'a array \<Rightarrow> 'a array res" where
  "array_erase_at it a = rbind (l2_assert (it \<ge> 0 \<and> it < uint (array_size a)) Assert_failed)
     (\<lambda>_. array_remove (word_of_int it) a)"

subsection \<open>The list an array stands for\<close>

definition array_ok :: "'a array \<Rightarrow> bool" where
  "array_ok a \<longleftrightarrow> length (arr_block a) = unat (arr_allocated a) \<and> arr_used a \<le> arr_allocated a"

definition array_rep :: "'a array \<Rightarrow> 'a list \<Rightarrow> bool" where
  "array_rep a xs \<longleftrightarrow> array_ok a \<and> take (unat (arr_used a)) (arr_block a) = map Some xs"

lemma array_rep_length: "array_rep a xs \<Longrightarrow> length xs = unat (arr_used a)"
  by (auto simp: array_rep_def array_ok_def word_le_nat_alt dest: arg_cong [of _ _ length])

lemma array_rep_used: "array_rep a xs \<Longrightarrow> arr_used a = of_nat (length xs)"
  by (simp add: array_rep_length)

lemma array_rep_bound: "array_rep a xs \<Longrightarrow> length xs \<le> length (arr_block a)"
  using array_rep_length by (fastforce simp: array_rep_def array_ok_def word_le_nat_alt)

lemma array_rep_less: "array_rep a xs \<Longrightarrow> length xs < 2 ^ 32"
  using array_rep_length [of a xs] unsigned_less [of "arr_used a"] by simp

lemma array_rep_cell: "array_rep a xs \<Longrightarrow> i < length xs \<Longrightarrow> arr_block a ! i = Some (xs ! i)"
  using array_rep_length [of a xs]
  by (metis array_rep_def length_map nth_map nth_take)

lemma array_rep_size [simp]: "array_rep a xs \<Longrightarrow> unat (array_size a) = length xs"
  by (simp add: array_size_def array_rep_length)

lemma array_rep_empty: "array_rep a xs \<Longrightarrow> array_empty a = (xs = [])"
  by (metis array_empty_def array_rep_size length_0_conv unat_eq_zero)

lemma array_repI:
  assumes "length (arr_block a) = unat (arr_allocated a)" "unat (arr_used a) = length xs"
    "length xs \<le> length (arr_block a)" "\<And>i. i < length xs \<Longrightarrow> arr_block a ! i = Some (xs ! i)"
  shows "array_rep a xs"
  using assms by (auto simp: array_rep_def array_ok_def word_le_nat_alt intro!: nth_equalityI)

lemma array_rep_alloc: "array_rep a xs \<Longrightarrow> length (arr_block a) = unat (arr_allocated a)"
  by (simp add: array_rep_def array_ok_def)

lemma new_array_rep: "array_rep (new_array n) []"
  by (simp add: array_rep_def array_ok_def new_array_def do_allocate_def)

lemma array_erase_rep: "array_rep (array_erase a) []"
  by (simp add: array_rep_def array_ok_def array_erase_def)

lemma array_get_rep:
  assumes "array_rep a xs"
  shows "array_get a i = (if unat i < length xs then Inr (xs ! unat i) else Inl Assert_failed)"
  using array_rep_cell [OF assms, of "unat i"] array_rep_bound [OF assms] assms
  by (auto simp: array_get_def read_cell_def l2_assert_def word_less_nat_alt)

lemma array_set_rep:
  assumes "array_rep a xs"
  shows "unat i < length xs \<Longrightarrow> returns (array_set a i x) (\<lambda>a'. array_rep a' (xs[unat i := x]))"
    and "\<not> unat i < length xs \<Longrightarrow> array_set a i x = Inl Assert_failed"
proof -
  show "\<not> unat i < length xs \<Longrightarrow> array_set a i x = Inl Assert_failed"
    using assms by (simp add: array_set_def l2_assert_def word_less_nat_alt)
  assume i: "unat i < length xs"
  then have "unat i < length (arr_block a)" using array_rep_bound [OF assms] by simp
  moreover have "array_rep (a\<lparr>arr_block := (arr_block a)[unat i := Some x]\<rparr>) (xs[unat i := x])"
    by (rule array_repI)
       (use i assms array_rep_cell [OF assms] array_rep_bound [OF assms] array_rep_alloc [OF assms]
          array_rep_length [OF assms] in \<open>auto simp: nth_list_update\<close>)
  ultimately show "returns (array_set a i x) (\<lambda>a'. array_rep a' (xs[unat i := x]))"
    using i assms by (simp add: array_set_def write_cell_def l2_assert_def word_less_nat_alt)
qed

lemma ensure_rep:
  assumes "array_rep a xs"
  shows "array_rep (ensure n a) xs" "unat n \<le> length (arr_block (ensure n a))"
proof -
  have len: "length (arr_block (ensure n a)) = unat (arr_allocated (ensure n a))" and
    big: "unat n \<le> unat (arr_allocated (ensure n a))"
    using array_rep_alloc [OF assms]
    by (auto simp: ensure_def Let_def do_allocate_def word_le_nat_alt word_less_nat_alt not_less)
  then show "unat n \<le> length (arr_block (ensure n a))" by simp
  show "array_rep (ensure n a) xs"
  proof (cases "n > arr_allocated a")
    case True
    have "length xs \<le> unat n"
      using True array_rep_bound [OF assms] array_rep_alloc [OF assms] by (simp add: word_less_nat_alt)
    moreover have "arr_used (ensure n a) = arr_used a"
      by (simp add: ensure_def Let_def)
    moreover have "arr_block (ensure n a) ! i = Some (xs ! i)" if "i < length xs" for i
    proof -
      have "i < length (arr_block (ensure n a))" using that big len \<open>length xs \<le> unat n\<close> by simp
      then show ?thesis
        using True that array_rep_cell [OF assms] array_rep_length [OF assms]
        by (auto simp: ensure_def Let_def)
    qed
    ultimately show ?thesis
      using len big array_rep_length [OF assms] by (intro array_repI) auto
  next
    case False
    then show ?thesis using assms by (simp add: ensure_def)
  qed
qed

lemma array_push_rep:
  assumes "array_rep a xs" "Suc (length xs) < 2 ^ 32"
  shows "returns (array_push x a) (\<lambda>a'. array_rep a' (xs @ [x]))"
proof -
  let ?a = "ensure (array_size a + 1) a"
  have rep: "array_rep ?a xs" by (rule ensure_rep [OF assms(1)])
  have size: "unat (array_size a + 1) = Suc (length xs)"
    using assms by (simp add: unat_word_ariths)
  have room: "length xs < length (arr_block ?a)"
    using ensure_rep(2) [OF assms(1), of "array_size a + 1"] size by simp
  have used: "unat (arr_used ?a + 1) = Suc (length xs)"
    using size array_rep_used [OF rep] array_rep_used [OF assms(1)] by (simp add: array_size_def)
  have "array_rep (?a\<lparr>arr_block := (arr_block ?a)[length xs := Some x], arr_used := arr_used ?a + 1\<rparr>) (xs @ [x])"
    by (rule array_repI)
       (use room used array_rep_alloc [OF rep] array_rep_cell [OF rep] in \<open>auto simp: nth_list_update nth_append\<close>)
  then show ?thesis
    using rep room by (simp add: array_push_def Let_def write_cell_def)
qed

lemma array_pop_rep:
  assumes "array_rep a xs"
  shows "xs \<noteq> [] \<Longrightarrow> returns (array_pop a) (\<lambda>(x, a'). x = last xs \<and> array_rep a' (butlast xs))"
    and "xs = [] \<Longrightarrow> array_pop a = Inl Assert_failed"
proof -
  show "xs = [] \<Longrightarrow> array_pop a = Inl Assert_failed"
    using array_rep_empty [OF assms] by (simp add: array_pop_def array_empty_def l2_assert_def)
  assume ne: "xs \<noteq> []"
  let ?a = "a\<lparr>arr_used := arr_used a - 1\<rparr>"
  have nz: "array_size a \<noteq> 0" using array_rep_empty [OF assms] ne by (simp add: array_empty_def)
  have used: "unat (arr_used a - 1) = length xs - 1"
    using nz array_rep_length [OF assms] by (simp add: array_size_def unat_minus_one)
  have lt: "length xs - 1 < length xs" using ne by simp
  have room: "length xs - 1 < length (arr_block a)" using lt array_rep_bound [OF assms] by simp
  have "array_rep ?a (butlast xs)"
    by (rule array_repI)
       (use used lt array_rep_alloc [OF assms] array_rep_bound [OF assms] array_rep_cell [OF assms]
         in \<open>auto simp: nth_butlast\<close>)
  moreover have "read_cell ?a (array_size ?a) = Inr (last xs)"
    using used room array_rep_cell [OF assms lt] ne
    by (simp add: read_cell_def array_size_def last_conv_nth)
  ultimately show "returns (array_pop a) (\<lambda>(x, a'). x = last xs \<and> array_rep a' (butlast xs))"
    using nz by (simp add: array_pop_def Let_def)
qed

lemma array_remove_rep:
  assumes "array_rep a xs"
  shows "unat i < length xs \<Longrightarrow> returns (array_remove i a) (\<lambda>a'. array_rep a' (swap_remove (unat i) xs))"
    and "\<not> unat i < length xs \<Longrightarrow> array_remove i a = Inl Assert_failed"
proof -
  show "\<not> unat i < length xs \<Longrightarrow> array_remove i a = Inl Assert_failed"
    using assms by (simp add: array_remove_def l2_assert_def word_less_nat_alt)
  assume i: "unat i < length xs"
  then have ne: "xs \<noteq> []" by auto
  have nz: "array_size a \<noteq> 0" using array_rep_empty [OF assms] ne by (simp add: array_empty_def)
  have used: "unat (arr_used a - 1) = length xs - 1"
    using nz array_rep_length [OF assms] by (simp add: array_size_def unat_minus_one)
  let ?a = "a\<lparr>arr_used := arr_used a - 1\<rparr>"
  have last: "length xs - 1 < length xs" using ne by simp
  have room: "length xs - 1 < length (arr_block a)" using last array_rep_bound [OF assms] by simp
  have rd: "read_cell ?a (array_size ?a) = Inr (last xs)"
    using used room array_rep_cell [OF assms last] ne
    by (simp add: read_cell_def array_size_def last_conv_nth)
  have eq: "(i = array_size ?a) = (unat i = length xs - 1)"
    using used by (simp add: array_size_def word_unat_eq_iff)
  show "returns (array_remove i a) (\<lambda>a'. array_rep a' (swap_remove (unat i) xs))"
  proof (cases "unat i = length xs - 1")
    case True
    have "array_rep ?a (swap_remove (unat i) xs)"
      by (rule array_repI)
         (use used last True array_rep_alloc [OF assms] array_rep_bound [OF assms] array_rep_cell [OF assms]
           in \<open>auto simp: swap_remove_def nth_butlast\<close>)
    then show ?thesis
      using True eq i assms by (simp add: array_remove_def Let_def word_less_nat_alt)
  next
    case False
    have "array_rep (?a\<lparr>arr_block := (arr_block ?a)[unat i := Some (last xs)]\<rparr>) (swap_remove (unat i) xs)"
      by (rule array_repI)
         (use i False used last array_rep_alloc [OF assms] array_rep_bound [OF assms] array_rep_cell [OF assms]
           in \<open>auto simp: nth_swap_remove nth_list_update\<close>)
    moreover have "unat i < length (arr_block ?a)"
      using i array_rep_bound [OF assms] by simp
    ultimately show ?thesis
      using False eq i assms rd by (simp add: array_remove_def Let_def word_less_nat_alt write_cell_def)
  qed
qed

text \<open>Inside the array \<open>grow_and_set\<close> is an assignment; at the end it appends.\<close>

lemma grow_and_set_rep:
  assumes "array_rep a xs"
  shows "unat i < length xs \<Longrightarrow> returns (grow_and_set i x a) (\<lambda>a'. array_rep a' (xs[unat i := x]))"
    and "unat i = length xs \<Longrightarrow> Suc (length xs) < 2 ^ 32 \<Longrightarrow>
      returns (grow_and_set i x a) (\<lambda>a'. array_rep a' (xs @ [x]))"
proof -
  show "unat i < length xs \<Longrightarrow> returns (grow_and_set i x a) (\<lambda>a'. array_rep a' (xs[unat i := x]))"
    using array_set_rep(1) [OF assms, of i x] assms
    by (auto simp: grow_and_set_def array_set_def word_less_nat_alt word_le_nat_alt Let_def l2_assert_def)
  assume i: "unat i = length xs" and bnd: "Suc (length xs) < 2 ^ 32"
  let ?a = "ensure (i + 1) a"
  have i': "unat (i + 1) = Suc (length xs)" using i bnd by (simp add: unat_word_ariths)
  have rep: "array_rep ?a xs" and room: "length xs < length (arr_block ?a)"
    using ensure_rep [OF assms, of "i + 1"] i' by auto
  have "array_rep (?a\<lparr>arr_used := i + 1, arr_block := (arr_block ?a)[length xs := Some x]\<rparr>) (xs @ [x])"
    by (rule array_repI)
       (use room i' array_rep_alloc [OF rep] array_rep_cell [OF rep] in \<open>auto simp: nth_list_update nth_append\<close>)
  then show "returns (grow_and_set i x a) (\<lambda>a'. array_rep a' (xs @ [x]))"
    using i room assms by (simp add: grow_and_set_def Let_def write_cell_def word_le_nat_alt)
qed

lemma array_erase_at_rep:
  assumes "array_rep a xs" "0 \<le> it" "nat it < length xs"
  shows "returns (array_erase_at it a) (\<lambda>a'. array_rep a' (swap_remove (nat it) xs))"
proof -
  have "nat it < 2 ^ 32" using assms(3) array_rep_less [OF assms(1)] by (rule less_trans)
  then have "it < 2 ^ 32" by (simp add: nat_less_iff)
  then have u: "unat (word_of_int it :: 32 word) = nat it"
    using assms(2) by (simp add: unat_eq_nat_uint uint_word_of_int_eq take_bit_int_eq_self)
  have "it < uint (array_size a)"
    using assms(2,3) array_rep_size [OF assms(1)] by (simp add: uint_nat)
  then show ?thesis
    using array_remove_rep(1) [OF assms(1), of "word_of_int it"] assms(2,3) u
    by (simp add: array_erase_at_def)
qed

end
