(* ===== verification/Array_Properties.thy ===== *)
theory Array_Properties
  imports Arrays
begin

text \<open>
  The refinement of lists by any sequence of operations on a growing array, errors included.
\<close>

datatype 'a array_cmd =
    Arr_push 'a
  | Arr_pop
  | Arr_set "32 word" 'a
  | Arr_grow "32 word" 'a
  | Arr_remove "32 word"
  | Arr_clear

fun run_array :: "'a array_cmd \<Rightarrow> 'a array \<Rightarrow> 'a array res" where
  "run_array (Arr_push x) a = array_push x a"
| "run_array Arr_pop a = rbind (array_pop a) (\<lambda>(x, a'). Inr a')"
| "run_array (Arr_set i x) a = array_set a i x"
| "run_array (Arr_grow i x) a = grow_and_set i x a"
| "run_array (Arr_remove i) a = array_remove i a"
| "run_array Arr_clear a = Inr (array_erase a)"

fun abs_array :: "'a array_cmd \<Rightarrow> 'a list \<Rightarrow> 'a list res" where
  "abs_array (Arr_push x) xs = Inr (xs @ [x])"
| "abs_array Arr_pop xs = (if xs = [] then Inl Assert_failed else Inr (butlast xs))"
| "abs_array (Arr_set i x) xs = (if unat i < length xs then Inr (xs[unat i := x]) else Inl Assert_failed)"
| "abs_array (Arr_grow i x) xs = Inr (if unat i < length xs then xs[unat i := x] else xs @ [x])"
| "abs_array (Arr_remove i) xs = (if unat i < length xs then Inr (swap_remove (unat i) xs) else Inl Assert_failed)"
| "abs_array Arr_clear xs = Inr []"

text \<open>The command leaves no place unassigned and does not exceed the 32-bit size.\<close>

fun within :: "'a array_cmd \<Rightarrow> 'a list \<Rightarrow> bool" where
  "within (Arr_push x) xs = (Suc (length xs) < 2 ^ 32)"
| "within (Arr_grow i x) xs = (unat i \<le> length xs \<and> Suc (length xs) < 2 ^ 32)"
| "within _ xs = True"

fun all_within :: "'a array_cmd list \<Rightarrow> 'a list \<Rightarrow> bool" where
  "all_within [] xs = True"
| "all_within (c # cs) xs = (within c xs \<and> (case abs_array c xs of Inl e \<Rightarrow> True | Inr ys \<Rightarrow> all_within cs ys))"

definition same_result :: "'a array res \<Rightarrow> 'a list res \<Rightarrow> bool" where
  "same_result m n = (case n of Inl e \<Rightarrow> m = Inl e | Inr xs \<Rightarrow> returns m (\<lambda>a. array_rep a xs))"

lemma run_array_step: "array_rep a xs \<Longrightarrow> within c xs \<Longrightarrow> same_result (run_array c a) (abs_array c xs)"
proof (induction c)
  case Arr_pop
  then show ?case
    using array_pop_rep [of a xs] by (auto simp: same_result_def elim!: returns_mono)
next
  case (Arr_grow i x)
  then show ?case
    using grow_and_set_rep [of a xs i x] by (auto simp: same_result_def le_less)
qed (use array_push_rep array_set_rep array_remove_rep array_erase_rep in
      \<open>auto simp: same_result_def\<close>)

lemma run_array_all:
  "array_rep a xs \<Longrightarrow> all_within cs xs \<Longrightarrow> same_result (rfold run_array cs a) (rfold abs_array cs xs)"
proof (induction cs arbitrary: a xs)
  case (Cons c cs)
  have step: "same_result (run_array c a) (abs_array c xs)"
    using Cons.prems by (intro run_array_step) simp_all
  show ?case
  proof (cases "abs_array c xs")
    case (Inl e)
    then show ?thesis using step by (simp add: same_result_def)
  next
    case (Inr ys)
    then obtain b where "run_array c a = Inr b" "array_rep b ys"
      using step by (auto simp: same_result_def returns_iff)
    then show ?thesis using Inr Cons.IH [of b ys] Cons.prems by simp
  qed
qed (simp add: same_result_def)

text \<open>
  C38. Every sequence of array operations behaves as the same sequence of functions on lists,
  whatever the initial allocation: it fails the same assertion or ends in an array that stands for
  the same list. Removal moves the last element into the gap. No place is read before it was
  assigned and nothing is written past the block, as long as no place is skipped and fewer
  than \<open>2 ^ 32\<close> elements are stored.
\<close>

theorem array_refines_list:
  assumes "all_within cs []"
  shows "same_result (rfold run_array cs (new_array n)) (rfold abs_array cs [])"
  by (rule run_array_all [OF new_array_rep assms])

theorem array_refines_list_witness:
  "returns (rfold run_array [Arr_push (1::nat), Arr_push 2, Arr_grow 2 5, Arr_remove 0, Arr_set 1 7]
     (new_array 0)) (\<lambda>a. array_rep a [5, 7]) \<and>
   rfold run_array [Arr_push (1::nat), Arr_pop, Arr_pop] (new_array 0) = Inl Assert_failed"
  using array_refines_list [of "[Arr_push (1::nat), Arr_push 2, Arr_grow 2 5, Arr_remove 0, Arr_set 1 7]" 0]
    array_refines_list [of "[Arr_push (1::nat), Arr_pop, Arr_pop]" 0]
  by (simp add: same_result_def swap_remove_def)

text \<open>
  A concrete run: \<open>grow_and_set\<close> beyond the end of an array leaves the places it skipped without
  a value although they count as elements.
\<close>

theorem grow_and_set_leaves_gap:
  "returns (grow_and_set 1 (7::nat) (new_array 0)) (\<lambda>a.
     array_size a = 2 \<and> array_get a 1 = Inr 7 \<and> array_get a 0 = Inl Bad_pointer)"
  by (simp add: grow_and_set_def new_array_def array_size_def ensure_def do_allocate_def Let_def
      write_cell_def array_get_def read_cell_def l2_assert_def)

end
