(* ===== verification/Binary_Heap.thy ===== *)
theory Binary_Heap
  imports Arrays
begin

text \<open>
  The binary heap of \<open>opsat/binaryheap.h\<close> on a growing array of pointers. The parent of place
  \<open>i\<close> is \<open>i div 2\<close> and its children are \<open>2 * i\<close> and \<open>2 * i + 1\<close>, although places count from 0: place 0 has
  place 1 as its only child, and the heap proper starts there. An element is compared by
  \<open>operator>\<close> or \<open>operator<\<close> on its weight, here a key into a linear order.
\<close>

record 'a bheap =
  heap_arr :: "'a array"
  heap_order :: "32 word"

text \<open>The array \<open>compare\<close> of member pointers: \<open>operator>\<close> at 0 and \<open>operator<\<close> at 1.\<close>

definition compare :: "('a \<Rightarrow> 'k::linorder) \<Rightarrow> 32 word \<Rightarrow> 'a \<Rightarrow> 'a \<Rightarrow> bool" where
  "compare key k x y = (if k = 0 then key x > key y else key x < key y)"

definition new_heap :: "32 word \<Rightarrow> 'a bheap" where
  "new_heap inorder = \<lparr>heap_arr = new_array 0, heap_order = inorder\<rparr>"

definition heap_parent :: "32 word \<Rightarrow> 32 word" where
  "heap_parent i = signed_drop_bit 1 i"

definition heap_left :: "32 word \<Rightarrow> 32 word" where
  "heap_left i = push_bit 1 i"

definition heap_right :: "32 word \<Rightarrow> 32 word" where
  "heap_right i = push_bit 1 i + 1"

definition heap_size :: "'a bheap \<Rightarrow> 32 word" where
  "heap_size h = array_size (heap_arr h)"

definition heap_empty :: "'a bheap \<Rightarrow> bool" where
  "heap_empty h = array_empty (heap_arr h)"

definition heap_get_order :: "'a bheap \<Rightarrow> bool" where
  "heap_get_order h = (heap_order h \<noteq> 0)"

definition last_index :: "'a array \<Rightarrow> 32 word" where
  "last_index a = array_size a - 1"

fun sift_up :: "nat \<Rightarrow> ('a \<Rightarrow> 'a \<Rightarrow> bool) \<Rightarrow> 'a \<Rightarrow> 32 word \<Rightarrow> 'a array \<Rightarrow> (32 word \<times> 'a array) res" where
  "sift_up 0 cmp pin i a = Inl Out_of_fuel"
| "sift_up (Suc n) cmp pin i a =
     (if i > 0 then
        rbind (array_get a (heap_parent i)) (\<lambda>p.
          if cmp p pin then
            rbind (array_get a (heap_parent i)) (\<lambda>q. rbind (array_set a i q) (\<lambda>a'.
              sift_up n cmp pin (heap_parent i) a'))
          else Inr (i, a))
      else Inr (i, a))"

definition heap_insert :: "('a \<Rightarrow> 'k::linorder) \<Rightarrow> 'a \<Rightarrow> 'a bheap \<Rightarrow> 'a bheap res" where
  "heap_insert key pin h =
     (let i = array_size (heap_arr h) in
      rbind (array_push pin (heap_arr h)) (\<lambda>a.
      rbind (sift_up (Suc (unat i)) (compare key (1 - heap_order h)) pin i a) (\<lambda>(i', a').
      rbind (array_set a' i' pin) (\<lambda>a''. Inr (h\<lparr>heap_arr := a''\<rparr>)))))"

definition heap_top :: "'a bheap \<Rightarrow> 'a res" where
  "heap_top h = array_get (heap_arr h) 0"

definition exchange :: "32 word \<Rightarrow> 32 word \<Rightarrow> 'a array \<Rightarrow> 'a array res" where
  "exchange i1 i2 a = rbind (array_get a i1) (\<lambda>tmp1. rbind (array_get a i2) (\<lambda>tmp2.
     rbind (array_set a i1 tmp2) (\<lambda>a'. array_set a' i2 tmp1)))"

text \<open>
  One of the two tests of the loop of \<open>heapify\<close>: is child \<open>c\<close> in the heap and before the element
  at \<open>largest\<close>?
\<close>

definition child_first :: "('a \<Rightarrow> 'a \<Rightarrow> bool) \<Rightarrow> 32 word \<Rightarrow> 32 word \<Rightarrow> 'a array \<Rightarrow> bool res" where
  "child_first cmp c largest a =
     (if c \<le> last_index a then
        rbind (array_get a c) (\<lambda>x. rbind (array_get a largest) (\<lambda>y. Inr (cmp x y)))
      else Inr False)"

fun heapify :: "nat \<Rightarrow> ('a \<Rightarrow> 'a \<Rightarrow> bool) \<Rightarrow> 32 word \<Rightarrow> 'a array \<Rightarrow> 'a array res" where
  "heapify 0 cmp i a = Inl Out_of_fuel"
| "heapify (Suc n) cmp i a =
     (let l = heap_left i; r = heap_right i in
      rbind (child_first cmp l i a) (\<lambda>b. let largest = (if b then l else i) in
      rbind (child_first cmp r largest a) (\<lambda>b. let largest = (if b then r else largest) in
        if largest \<noteq> i then rbind (exchange i largest a) (heapify n cmp largest) else Inr a)))"

definition heap_pop :: "('a \<Rightarrow> 'k::linorder) \<Rightarrow> 'a bheap \<Rightarrow> ('a \<times> 'a bheap) res" where
  "heap_pop key h =
     rbind (l2_assert (heap_size h > 0) L2_bounds_error) (\<lambda>_.
     rbind (heap_top h) (\<lambda>max.
     rbind (array_remove 0 (heap_arr h)) (\<lambda>a.
     rbind (if array_size a > 0 then heapify (Suc (unat (array_size a))) (compare key (heap_order h)) 0 a
            else Inr a)
       (\<lambda>a'. Inr (max, h\<lparr>heap_arr := a'\<rparr>)))))"

subsection \<open>Indices\<close>

lemma unat_heap_left: "unat i < 2 ^ 31 \<Longrightarrow> unat (heap_left i) = 2 * unat i"
  by (simp add: heap_left_def push_bit_eq_mult unat_word_ariths)

lemma unat_heap_right: "unat i < 2 ^ 31 - 1 \<Longrightarrow> unat (heap_right i) = 2 * unat i + 1"
  using unat_heap_left [of i] by (simp add: heap_right_def heap_left_def unat_word_ariths)

lemma unat_heap_parent:
  assumes "unat i < 2 ^ 31"
  shows "unat (heap_parent i) = unat i div 2"
proof -
  have "take_bit 31 (unat i) = unat i"
    using assms by (simp add: take_bit_nat_eq_self)
  then have "\<not> bit (unat i) 31"
    by (metis bit_take_bit_iff less_irrefl)
  then have "\<not> bit i 31"
    by (simp add: bit_unsigned_iff)
  then have "signed_drop_bit 1 i = drop_bit 1 i"
    by (intro bit_word_eqI) (auto simp: bit_signed_drop_bit_iff bit_drop_bit_eq not_le less_Suc_eq
      dest: bit_imp_le_length)
  moreover have "unat (drop_bit 1 i) = unat i div 2"
    by (simp add: drop_bit_eq_div unat_div)
  ultimately show ?thesis
    by (simp only: heap_parent_def)
qed

subsection \<open>Heap order\<close>

text \<open>
  Heap order for a comparison: no element comes before its parent; everywhere, everywhere except
  between place \<open>i\<close> and its parent, or everywhere except between place \<open>i\<close> and its children.
\<close>

definition heap_ordered :: "('a \<Rightarrow> 'a \<Rightarrow> bool) \<Rightarrow> 'a list \<Rightarrow> bool" where
  "heap_ordered before xs \<longleftrightarrow>
     (\<forall>j. 0 < j \<and> j < length xs \<longrightarrow> \<not> before (xs ! j) (xs ! (j div 2)))"

definition heap_up :: "('a \<Rightarrow> 'a \<Rightarrow> bool) \<Rightarrow> nat \<Rightarrow> 'a list \<Rightarrow> bool" where
  "heap_up before i xs \<longleftrightarrow>
     (\<forall>j. 0 < j \<and> j < length xs \<and> j \<noteq> i \<longrightarrow> \<not> before (xs ! j) (xs ! (j div 2))) \<and>
     (\<forall>j. 0 < j \<and> j < length xs \<and> j div 2 = i \<and> 0 < i \<longrightarrow> \<not> before (xs ! j) (xs ! (i div 2)))"

definition heap_down :: "('a \<Rightarrow> 'a \<Rightarrow> bool) \<Rightarrow> nat \<Rightarrow> 'a list \<Rightarrow> bool" where
  "heap_down before i xs \<longleftrightarrow>
     (\<forall>j. 0 < j \<and> j < length xs \<and> j div 2 \<noteq> i \<longrightarrow> \<not> before (xs ! j) (xs ! (j div 2))) \<and>
     (\<forall>j. 0 < j \<and> j < length xs \<and> j div 2 = i \<and> 0 < i \<longrightarrow> \<not> before (xs ! j) (xs ! (i div 2)))"

text \<open>The comparison the heap is kept in is a strict weak order.\<close>

locale heap_ordering =
  fixes before :: "'a \<Rightarrow> 'a \<Rightarrow> bool"
  assumes asym: "before x y \<Longrightarrow> \<not> before y x"
    and neg_trans: "\<not> before x y \<Longrightarrow> \<not> before y z \<Longrightarrow> \<not> before x z"
begin

lemma irrefl: "\<not> before x x"
  using asym by blast

lemma before_trans: "before x y \<Longrightarrow> \<not> before z y \<Longrightarrow> before x z"
  using neg_trans by blast

lemma heap_top_first:
  assumes "heap_ordered before xs" "i < length xs"
  shows "\<not> before (xs ! i) (xs ! 0)"
  using assms(2)
proof (induction i rule: less_induct)
  case (less i)
  show ?case
  proof (cases "i = 0")
    case False
    then have "\<not> before (xs ! i) (xs ! (i div 2))" "\<not> before (xs ! (i div 2)) (xs ! 0)"
      using less assms(1) by (auto simp: heap_ordered_def)
    then show ?thesis by (rule neg_trans)
  qed (simp add: irrefl)
qed

lemma heap_append: "heap_ordered before xs \<Longrightarrow> heap_up before (length xs) (xs @ [x])"
  by (auto simp: heap_ordered_def heap_up_def nth_append)

lemma heap_up_stop: "heap_up before i xs \<Longrightarrow> i = 0 \<or> \<not> before (xs ! i) (xs ! (i div 2)) \<Longrightarrow> heap_ordered before xs"
  by (auto simp: heap_ordered_def heap_up_def)

lemma heap_up_step:
  assumes "heap_up before i xs" "0 < i" "i < length xs" "before (xs ! i) (xs ! (i div 2))"
  shows "heap_up before (i div 2) (xs[i := xs ! (i div 2), i div 2 := xs ! i])"
proof -
  let ?p = "i div 2" and ?ys = "xs[i := xs ! (i div 2), i div 2 := xs ! i]"
  have ne: "?p < i" using assms(2) by simp
  have up: "\<not> before (xs ! j) (xs ! (j div 2))" if "0 < j" "j < length xs" "j \<noteq> i" for j
    using assms(1) that by (simp add: heap_up_def)
  have kids: "\<not> before (xs ! j) (xs ! ?p)" if "0 < j" "j < length xs" "j div 2 = i" for j
    using assms(1,2) that by (simp add: heap_up_def)
  have 1: "\<not> before (?ys ! j) (?ys ! (j div 2))" if j: "0 < j" "j < length ?ys" "j \<noteq> ?p" for j
  proof (cases "j = i")
    case True
    then show ?thesis using ne assms asym by simp
  next
    case False
    then have yj: "?ys ! j = xs ! j" using j by simp
    consider "j div 2 = i" | "j div 2 = ?p" | "j div 2 \<noteq> i" "j div 2 \<noteq> ?p" by blast
    then show ?thesis
    proof cases
      case 1
      then show ?thesis using kids j yj ne assms(3) by simp
    next
      case 2
      have "\<not> before (xs ! j) (xs ! ?p)" using up [of j] j False 2 by simp
      moreover have "?ys ! (j div 2) = xs ! i" using 2 ne assms(3) by simp
      ultimately show ?thesis using assms(4) yj neg_trans asym by metis
    next
      case 3
      then show ?thesis using up [of j] j False yj by simp
    qed
  qed
  have 2: "\<not> before (?ys ! j) (?ys ! (?p div 2))" if j: "0 < j" "j < length ?ys" "j div 2 = ?p" "0 < ?p" for j
  proof -
    have pp: "?p div 2 < ?p" using j(4) by simp
    then have top: "?ys ! (?p div 2) = xs ! (?p div 2)" using ne by simp
    have p: "\<not> before (xs ! ?p) (xs ! (?p div 2))" using up [of ?p] j(4) ne assms(3) by simp
    show ?thesis
    proof (cases "j = i")
      case True
      then show ?thesis using p top ne assms(3) by simp
    next
      case False
      then have "\<not> before (xs ! j) (xs ! ?p)" using up [of j] j by simp
      moreover have "?ys ! j = xs ! j" using False j by (metis nat_neq_iff nth_list_update_neq pp)
      ultimately show ?thesis using neg_trans p top by metis
    qed
  qed
  show ?thesis unfolding heap_up_def using 1 2 by blast
qed

lemma heap_down_0: "(\<And>j. 1 < j \<Longrightarrow> j < length xs \<Longrightarrow> \<not> before (xs ! j) (xs ! (j div 2))) \<Longrightarrow> heap_down before 0 xs"
  by (auto simp: heap_down_def div_eq_0_iff less_Suc_eq)

lemma heap_remove_first:
  assumes "heap_ordered before xs" "xs \<noteq> []"
  shows "heap_down before 0 (swap_remove 0 xs)"
proof (rule heap_down_0)
  fix j
  assume "1 < j" "j < length (swap_remove 0 xs)"
  moreover then have "0 < j div 2" "j div 2 < length xs - 1" by auto
  ultimately show "\<not> before (swap_remove 0 xs ! j) (swap_remove 0 xs ! (j div 2))"
    using assms by (auto simp: nth_swap_remove heap_ordered_def)
qed

lemma heap_down_stop:
  assumes "heap_down before i xs" "\<And>j. 0 < j \<Longrightarrow> j < length xs \<Longrightarrow> j div 2 = i \<Longrightarrow> \<not> before (xs ! j) (xs ! i)"
  shows "heap_ordered before xs"
  using assms by (auto simp: heap_ordered_def heap_down_def)

lemma heap_down_step:
  assumes "heap_down before i xs" "c < length xs" "0 < c" "c div 2 = i" "c \<noteq> i" "before (xs ! c) (xs ! i)"
    and "\<And>j. 0 < j \<Longrightarrow> j < length xs \<Longrightarrow> j div 2 = i \<Longrightarrow> \<not> before (xs ! j) (xs ! c)"
  shows "heap_down before c (xs[i := xs ! c, c := xs ! i])"
proof -
  let ?ys = "xs[i := xs ! c, c := xs ! i]"
  have ic: "i < c" using assms(3,4,5) by auto
  have up: "\<not> before (xs ! j) (xs ! (j div 2))" if "0 < j" "j < length xs" "j div 2 \<noteq> i" for j
    using assms(1) that by (simp add: heap_down_def)
  have kids: "\<not> before (xs ! j) (xs ! (i div 2))" if "0 < j" "j < length xs" "j div 2 = i" "0 < i" for j
    using assms(1) that by (simp add: heap_down_def)
  have yi: "?ys ! i = xs ! c" and yc: "?ys ! c = xs ! i"
    using ic assms(2) by auto
  have 1: "\<not> before (?ys ! j) (?ys ! (j div 2))" if j: "0 < j" "j < length ?ys" "j div 2 \<noteq> c" for j
  proof (cases "j div 2 = i")
    case True
    show ?thesis
    proof (cases "j = c")
      case True
      then show ?thesis using \<open>j div 2 = i\<close> yi yc assms(6) asym by simp
    next
      case False
      moreover have "j \<noteq> i" using True j(1) by auto
      ultimately have "?ys ! j = xs ! j" by simp
      then show ?thesis using True yi assms(7) [of j] j by simp
    qed
  next
    case False
    have "j \<noteq> c" using False assms(4) by auto
    show ?thesis
    proof (cases "j = i")
      case True
      moreover have "j div 2 \<noteq> i" "j div 2 \<noteq> c" using False j by auto
      ultimately show ?thesis using yi kids [of c] assms(2,3,4) j(1) ic by simp
    next
      case ne: False
      then show ?thesis using up [of j] j False \<open>j \<noteq> c\<close> by simp
    qed
  qed
  have 2: "\<not> before (?ys ! j) (?ys ! (c div 2))" if j: "0 < j" "j < length ?ys" "j div 2 = c" for j
  proof -
    have "c < j" using j assms(3) by auto
    then have "?ys ! j = xs ! j" using ic by simp
    moreover have "\<not> before (xs ! j) (xs ! c)"
      using up [of j] j assms(5) by simp
    ultimately show ?thesis using yi assms(4) by simp
  qed
  show ?thesis unfolding heap_down_def using 1 2 by blast
qed

end

interpretation hk: heap_ordering "compare key k" for key :: "'a \<Rightarrow> 'k::linorder" and k
  by unfold_locales (auto simp: compare_def split: if_splits)


subsection \<open>The operations on lists\<close>

text \<open>
  A heap stands for the list in its array when that list is in heap order; below \<open>2^30\<close> elements no
  index computation leaves the range of \<open>int\<close>.
\<close>

definition max_heap :: nat where
  "max_heap = 2 ^ 30"

definition heap_rep :: "('a \<Rightarrow> 'k::linorder) \<Rightarrow> 'a bheap \<Rightarrow> 'a multiset \<Rightarrow> bool" where
  "heap_rep key h A \<longleftrightarrow> (\<exists>xs. array_rep (heap_arr h) xs \<and> mset xs = A \<and>
     (\<forall>j. 0 < j \<and> j < length xs \<longrightarrow> \<not> compare key (heap_order h) (xs ! j) (xs ! (j div 2))))"

lemma array_getE:
  assumes "array_rep a xs" "unat i < length xs"
  shows "array_get a i = Inr (xs ! unat i)"
  using array_get_rep [OF assms(1)] assms(2) by simp

lemma array_setE:
  assumes "array_rep a xs" "unat i < length xs"
  obtains a' where "array_set a i x = Inr a'" "array_rep a' (xs[unat i := x])"
  using array_set_rep(1) [OF assms] by (auto simp: returns_iff)

lemma swap_mset:
  assumes "i < length xs" "j < length xs"
  shows "mset (xs[i := xs ! j, j := xs ! i]) = mset xs"
  using assms by (simp add: mset_swap)

context heap_ordering
begin

text \<open>The hole at \<open>i\<close> stands for the new element in every round of the loop of \<open>insert\<close>.\<close>

lemma sift_up_ok:
  assumes "array_rep a xs" "unat i < length xs" "length xs \<le> max_heap" "unat i < n"
    and "heap_up before (unat i) (xs[unat i := pin])"
  shows "returns (sift_up n (\<lambda>x y. before y x) pin i a) (\<lambda>(i', a'). \<exists>xs'. array_rep a' xs' \<and>
      unat i' < length xs' \<and> heap_ordered before (xs'[unat i' := pin]) \<and>
      mset (xs'[unat i' := pin]) = mset (xs[unat i := pin]))"
  using assms
proof (induction n arbitrary: a xs i)
  case (Suc n)
  let ?i = "unat i" and ?ys = "xs[unat i := pin]"
  show ?case
  proof (cases "i = 0")
    case True
    then have "heap_ordered before ?ys" using heap_up_stop [OF Suc.prems(5)] by simp
    then show ?thesis using True Suc.prems(1,2) by (auto intro!: exI [of _ xs])
  next
    case False
    then have pos: "0 < ?i" by (simp add: unat_gt_0)
    have par: "unat (heap_parent i) = ?i div 2"
      using Suc.prems(2,3) by (intro unat_heap_parent) (simp add: max_heap_def)
    have lt: "?i div 2 < ?i" "?i div 2 < length xs" using pos Suc.prems(2) by auto
    have get: "array_get a (heap_parent i) = Inr (xs ! (?i div 2))"
      using array_getE [OF Suc.prems(1), of "heap_parent i"] par lt by simp
    have old: "?ys ! (?i div 2) = xs ! (?i div 2)" "?ys ! ?i = pin"
      using lt Suc.prems(2) by simp_all
    show ?thesis
    proof (cases "before pin (xs ! (?i div 2))")
      case stop: False
      then have "heap_ordered before ?ys" using heap_up_stop [OF Suc.prems(5)] old by simp
      then show ?thesis
        using get stop False Suc.prems(1,2) by (auto intro!: exI [of _ xs] simp: word_greater_zero_iff)
    next
      case True
      obtain a' where a': "array_set a i (xs ! (?i div 2)) = Inr a'"
        "array_rep a' (xs[?i := xs ! (?i div 2)])"
        using array_setE [OF Suc.prems(1,2)] .
      let ?xs = "xs[?i := xs ! (?i div 2)]"
      have ys: "?xs[?i div 2 := pin] = ?ys[?i := ?ys ! (?i div 2), ?i div 2 := ?ys ! ?i]"
        using old by simp
      have up: "heap_up before (unat (heap_parent i)) (?xs[unat (heap_parent i) := pin])"
        unfolding par ys
        by (rule heap_up_step [OF Suc.prems(5) pos]) (use Suc.prems(2) old True in auto)
      have "mset (?xs[?i div 2 := pin]) = mset ?ys"
        unfolding ys by (rule swap_mset) (use Suc.prems(2) lt in auto)
      then show ?thesis
        using Suc.IH [OF a'(2), of "heap_parent i"] up par lt Suc.prems(3,4) get a'(1) True False
        by (simp add: word_greater_zero_iff)
    qed
  qed
qed simp

lemma exchange_ok:
  assumes "array_rep a xs" "unat i < length xs" "unat j < length xs"
  shows "returns (exchange i j a) (\<lambda>a'. array_rep a' (xs[unat i := xs ! unat j, unat j := xs ! unat i]))"
proof -
  obtain a1 where a1: "array_set a i (xs ! unat j) = Inr a1" "array_rep a1 (xs[unat i := xs ! unat j])"
    using array_setE [OF assms(1,2)] .
  obtain a2 where "array_set a1 j (xs ! unat i) = Inr a2"
    "array_rep a2 (xs[unat i := xs ! unat j, unat j := xs ! unat i])"
    using array_setE [OF a1(2), of j] assms(3) by auto
  then show ?thesis
    using a1 array_getE [OF assms(1,2)] array_getE [OF assms(1,3)] by (simp add: exchange_def)
qed

lemma child_first_eq:
  assumes "array_rep a xs" "unat l < length xs"
  shows "child_first before c l a = Inr (unat c < length xs \<and> before (xs ! unat c) (xs ! unat l))"
proof -
  have pos: "array_size a \<noteq> 0" using array_rep_size [OF assms(1)] assms(2) by (metis not_less0 unat_0)
  then have "unat (last_index a) = length xs - 1"
    using array_rep_size [OF assms(1)] by (simp add: last_index_def unat_minus_one)
  then have "(c \<le> last_index a) = (unat c < length xs)"
    using assms(2) by (auto simp: word_le_nat_alt)
  then show ?thesis
    using array_getE [OF assms(1)] assms(2) by (simp add: child_first_def)
qed

lemma children:
  fixes i j :: nat
  assumes "0 < j" "j div 2 = i"
  shows "j = 2 * i \<or> j = 2 * i + 1"
  using assms by auto

lemma heapify_ok:
  assumes "array_rep a xs" "unat i < length xs" "length xs \<le> max_heap" "length xs - unat i < n"
    and "heap_down before (unat i) xs"
  shows "returns (heapify n before i a) (\<lambda>a'. \<exists>xs'. array_rep a' xs' \<and> heap_ordered before xs' \<and> mset xs' = mset xs)"
  using assms
proof (induction n arbitrary: a xs i)
  case (Suc n)
  let ?i = "unat i" and ?l = "heap_left i" and ?r = "heap_right i"
  have small: "?i < 2 ^ 30" using Suc.prems(2,3) by (simp add: max_heap_def)
  have ul: "unat ?l = 2 * ?i" using small by (intro unat_heap_left) simp
  have ur: "unat ?r = 2 * ?i + 1" using small by (intro unat_heap_right) simp
  let ?n = "length xs"
  define b where "b \<longleftrightarrow> 2 * ?i < ?n \<and> before (xs ! (2 * ?i)) (xs ! ?i)"
  define m where "m = (if b then ?l else i)"
  define c where "c \<longleftrightarrow> 2 * ?i + 1 < ?n \<and> before (xs ! (2 * ?i + 1)) (xs ! unat m)"
  define k where "k = (if c then ?r else m)"
  have first: "child_first before ?l i a = Inr b"
    using child_first_eq [OF Suc.prems(1,2), of ?l] by (simp add: ul b_def)
  have m: "unat m = (if b then 2 * ?i else ?i)" "unat m < ?n"
    using ul Suc.prems(2) by (auto simp: m_def b_def)
  have second: "child_first before ?r m a = Inr c"
    using child_first_eq [OF Suc.prems(1) m(2), of ?r] by (simp add: ur c_def)
  have k: "unat k = (if c then 2 * ?i + 1 else unat m)" "unat k < ?n"
    using ur m by (auto simp: k_def c_def)
  have run: "heapify (Suc n) before i a =
      (if k \<noteq> i then rbind (exchange i k a) (heapify n before k) else Inr a)"
    using first second by (simp add: Let_def m_def k_def)
  have best: "\<not> before (xs ! j) (xs ! unat k)" if "0 < j" "j < ?n" "j div 2 = ?i \<or> j = ?i" for j
  proof -
    have cases: "j = 2 * ?i \<or> j = ?i \<or> j = 2 * ?i + 1" using that children [of j ?i] by blast
    have m_best: "\<not> before (xs ! j) (xs ! unat m)" if "j = 2 * ?i \<or> j = ?i"
    proof (cases b)
      case True
      then show ?thesis using that m(1) asym [of "xs ! (2 * ?i)" "xs ! ?i"] irrefl by (auto simp: b_def)
    next
      case False
      then show ?thesis using that m(1) irrefl \<open>j < ?n\<close> by (auto simp: b_def)
    qed
    show ?thesis
    proof (cases c)
      case True
      then have "\<not> before (xs ! unat m) (xs ! unat k)" using k(1) asym by (simp add: c_def)
      then show ?thesis using cases m_best neg_trans k(1) True irrefl by auto
    next
      case False
      then show ?thesis using cases m_best k(1) \<open>j < ?n\<close> by (auto simp: c_def)
    qed
  qed
  show ?case
  proof (cases "k = i")
    case True
    have "heap_ordered before xs"
      by (rule heap_down_stop [OF Suc.prems(5)]) (use best True in auto)
    then show ?thesis unfolding run using True Suc.prems(1) by auto
  next
    case False
    then have ne: "unat k \<noteq> ?i" by (simp add: word_unat_eq_iff)
    have kid: "0 < unat k" "unat k div 2 = ?i" "before (xs ! unat k) (xs ! ?i)"
    proof -
      have b: "0 < 2 * ?i \<and> before (xs ! (2 * ?i)) (xs ! ?i)" if b
        using that irrefl [of "xs ! ?i"] by (cases "?i = 0") (auto simp: b_def)
      have "0 < unat k \<and> unat k div 2 = ?i \<and> before (xs ! unat k) (xs ! ?i)"
      proof (cases c)
        case True
        then have "before (xs ! (2 * ?i + 1)) (xs ! unat m)" by (simp add: c_def)
        then have "before (xs ! (2 * ?i + 1)) (xs ! ?i)"
        proof (cases b)
          case True
          then have "before (xs ! (2 * ?i + 1)) (xs ! (2 * ?i))"
            using m(1) \<open>before (xs ! (2 * ?i + 1)) (xs ! unat m)\<close> by simp
          moreover have "\<not> before (xs ! ?i) (xs ! (2 * ?i))"
            using b [OF True] by (intro asym) (rule conjunct2)
          ultimately show ?thesis by (rule before_trans)
        qed (use m(1) in simp)
        then show ?thesis using True k(1) by simp
      next
        case False
        then have b using k(1) m(1) ne by presburger
        then show ?thesis using False b k(1) m(1) by simp
      qed
      then show "0 < unat k" "unat k div 2 = ?i" "before (xs ! unat k) (xs ! ?i)" by simp_all
    qed
    obtain a' where a': "exchange i k a = Inr a'"
      "array_rep a' (xs[?i := xs ! unat k, unat k := xs ! ?i])"
      using exchange_ok [OF Suc.prems(1,2) k(2)] by (auto simp: returns_iff)
    have down: "heap_down before (unat k) (xs[?i := xs ! unat k, unat k := xs ! ?i])"
      by (rule heap_down_step [OF Suc.prems(5) k(2) kid(1,2) ne kid(3)]) (use best in auto)
    have "?i < unat k" using kid(1,2) ne by auto
    then have "returns (heapify n before k a') (\<lambda>a'. \<exists>xs'. array_rep a' xs' \<and> heap_ordered before xs' \<and>
        mset xs' = mset (xs[?i := xs ! unat k, unat k := xs ! ?i]))"
      by (intro Suc.IH [OF a'(2)]) (use down k(2) Suc.prems(3,4) in auto)
    then show ?thesis
      unfolding run using False a'(1) swap_mset [OF Suc.prems(2) k(2)] by simp
  qed
qed simp

end

subsection \<open>The heap as a priority queue\<close>

lemma heap_rep_iff:
  "heap_rep key h A \<longleftrightarrow> (\<exists>xs. array_rep (heap_arr h) xs \<and> mset xs = A \<and> heap_ordered (compare key (heap_order h)) xs)"
  by (simp add: heap_rep_def heap_ordered_def)

lemma compare_flip: "k = 0 \<or> k = 1 \<Longrightarrow> compare key (1 - k) = (\<lambda>x y. compare key k y x)"
  by (auto simp: compare_def fun_eq_iff)

lemma new_heap_rep: "heap_rep key (new_heap k) {#}"
  unfolding heap_rep_def by (auto simp: new_heap_def new_array_rep intro!: exI [of _ "[]"])

lemma heap_rep_size: "heap_rep key h A \<Longrightarrow> unat (heap_size h) = size A"
  by (auto simp: heap_rep_def heap_size_def)

lemma heap_rep_empty: "heap_rep key h A \<Longrightarrow> heap_empty h = (A = {#})"
  by (auto simp: heap_rep_def heap_empty_def array_rep_empty)

lemma heap_insert_ok:
  assumes "heap_rep key h A" "heap_order h = 0 \<or> heap_order h = 1" "size A < max_heap"
  shows "returns (heap_insert key x h) (\<lambda>h'. heap_rep key h' (add_mset x A) \<and> heap_order h' = heap_order h)"
proof -
  let ?k = "heap_order h" and ?i = "array_size (heap_arr h)"
  from assms(1) obtain xs where xs: "array_rep (heap_arr h) xs" "mset xs = A" "heap_ordered (compare key ?k) xs"
    by (auto simp: heap_rep_iff)
  have len: "length xs < max_heap" using assms(3) xs(2) by auto
  have i: "unat ?i = length xs" by (rule array_rep_size [OF xs(1)])
  obtain a where a: "array_push x (heap_arr h) = Inr a" "array_rep a (xs @ [x])"
    using array_push_rep [OF xs(1), of x] len by (auto simp: returns_iff max_heap_def)
  have "returns (sift_up (Suc (unat ?i)) (\<lambda>x y. compare key ?k y x) x ?i a) (\<lambda>(i', a'). \<exists>xs'.
      array_rep a' xs' \<and> unat i' < length xs' \<and> heap_ordered (compare key ?k) (xs'[unat i' := x]) \<and>
      mset (xs'[unat i' := x]) = mset ((xs @ [x])[unat ?i := x]))"
    by (rule hk.sift_up_ok [OF a(2)]) (use i len hk.heap_append [OF xs(3)] in auto)
  then obtain i' a' xs' where s: "sift_up (Suc (unat ?i)) (compare key (1 - ?k)) x ?i a = Inr (i', a')"
    "array_rep a' xs'" "unat i' < length xs'" "heap_ordered (compare key ?k) (xs'[unat i' := x])"
    "mset (xs'[unat i' := x]) = mset (xs @ [x])"
    using i by (auto simp: returns_iff compare_flip [OF assms(2)])
  obtain a'' where "array_set a' i' x = Inr a''" "array_rep a'' (xs'[unat i' := x])"
    using array_setE [OF s(2,3)] .
  then show ?thesis
    using a(1) s xs(2) by (auto simp: heap_insert_def heap_rep_iff Let_def)
qed

lemma heap_top_ok:
  assumes "heap_rep key h A" "A \<noteq> {#}"
  shows "returns (heap_top h) (\<lambda>x. x \<in># A \<and> (\<forall>y \<in># A. \<not> compare key (heap_order h) y x))"
proof -
  from assms(1) obtain xs where xs: "array_rep (heap_arr h) xs" "mset xs = A"
    "heap_ordered (compare key (heap_order h)) xs"
    by (auto simp: heap_rep_iff)
  have ne: "xs \<noteq> []" using assms(2) xs(2) by auto
  have "heap_top h = Inr (xs ! 0)"
    using array_getE [OF xs(1), of 0] ne by (simp add: heap_top_def)
  moreover have "\<not> compare key (heap_order h) y (xs ! 0)" if "y \<in># A" for y
    using that hk.heap_top_first [OF xs(3)] xs(2) by (auto simp: in_set_conv_nth)
  moreover have "xs ! 0 \<in># A"
    using xs(2) ne by (metis length_greater_0_conv nth_mem set_mset_mset)
  ultimately show ?thesis by simp
qed

lemma heap_pop_ok:
  assumes "heap_rep key h A" "size A \<le> max_heap"
  shows "A \<noteq> {#} \<Longrightarrow> returns (heap_pop key h) (\<lambda>(x, h'). x \<in># A \<and>
      (\<forall>y \<in># A. \<not> compare key (heap_order h) y x) \<and> heap_rep key h' (A - {#x#}) \<and>
      heap_order h' = heap_order h)"
    and "A = {#} \<Longrightarrow> heap_pop key h = Inl L2_bounds_error"
proof -
  let ?k = "heap_order h"
  show "A = {#} \<Longrightarrow> heap_pop key h = Inl L2_bounds_error"
    using heap_rep_empty [OF assms(1)]
    by (simp add: heap_pop_def heap_size_def heap_empty_def array_empty_def l2_assert_def)
  assume "A \<noteq> {#}"
  from assms(1) obtain xs where xs: "array_rep (heap_arr h) xs" "mset xs = A" "heap_ordered (compare key ?k) xs"
    by (auto simp: heap_rep_iff)
  have ne: "xs \<noteq> []" using \<open>A \<noteq> {#}\<close> xs(2) by auto
  obtain x where x: "heap_top h = Inr x" "x \<in># A" "\<forall>y \<in># A. \<not> compare key ?k y x"
    using heap_top_ok [OF assms(1) \<open>A \<noteq> {#}\<close>] by (auto simp: returns_iff)
  have "x = xs ! 0"
    using x(1) array_getE [OF xs(1), of 0] ne by (simp add: heap_top_def)
  obtain a where a: "array_remove 0 (heap_arr h) = Inr a" "array_rep a (swap_remove 0 xs)"
    using array_remove_rep(1) [OF xs(1), of 0] ne by (auto simp: returns_iff)
  have ms: "mset (swap_remove 0 xs) = A - {#x#}"
    using mset_swap_remove [of 0 xs] ne xs(2) \<open>x = xs ! 0\<close> by simp
  have pos: "0 < heap_size h"
    using heap_rep_empty [OF assms(1)] \<open>A \<noteq> {#}\<close>
    by (simp add: heap_size_def heap_empty_def array_empty_def word_neq_0_conv)
  have "returns (if array_size a > 0 then heapify (Suc (unat (array_size a))) (compare key ?k) 0 a
      else Inr a) (\<lambda>a'. \<exists>xs'. array_rep a' xs' \<and> heap_ordered (compare key ?k) xs' \<and> mset xs' = A - {#x#})"
  proof (cases "array_size a > 0")
    case True
    then have "0 < length (swap_remove 0 xs)"
      using array_rep_size [OF a(2)] by (metis unat_gt_0 word_neq_0_conv)
    moreover have "length xs \<le> max_heap" using assms(2) xs(2) by auto
    ultimately have "returns (heapify (Suc (unat (array_size a))) (compare key ?k) 0 a) (\<lambda>a'. \<exists>xs'.
        array_rep a' xs' \<and> heap_ordered (compare key ?k) xs' \<and> mset xs' = mset (swap_remove 0 xs))"
      by (intro hk.heapify_ok [OF a(2)])
         (use array_rep_size [OF a(2)] hk.heap_remove_first [OF xs(3) ne] in auto)
    then show ?thesis using True ms by simp
  next
    case False
    then have "swap_remove 0 xs = []"
      using array_rep_empty [OF a(2)] by (metis array_empty_def word_neq_0_conv)
    then show ?thesis using False a(2) ms by (auto simp: heap_ordered_def intro!: exI [of _ "[]"])
  qed
  then show "returns (heap_pop key h) (\<lambda>(x, h'). x \<in># A \<and>
      (\<forall>y \<in># A. \<not> compare key (heap_order h) y x) \<and> heap_rep key h' (A - {#x#}) \<and>
      heap_order h' = heap_order h)"
    using x a(1) pos by (auto simp: heap_pop_def heap_rep_iff returns_iff l2_assert_def)
qed

end
