(* ===== verification/Priority_Queue.thy ===== *)
theory Priority_Queue
  imports Binary_Heap
begin

text \<open>
  The contract of a queue that gives its elements in increasing order of a key, the sorting by
  insertion into a queue and removal of everything that the search uses, and the binary heap in
  increasing order as an implementation of the contract.
\<close>

text \<open>The loop \<open>while (!q.empty()) ... q.pop()\<close>: the elements in the order in which they leave.\<close>

fun drain :: "nat \<Rightarrow> ('q \<Rightarrow> bool) \<Rightarrow> ('q \<Rightarrow> ('a \<times> 'q) res) \<Rightarrow> 'q \<Rightarrow> ('a list \<times> 'q) res" where
  "drain 0 is_empty pop q = Inl Out_of_fuel"
| "drain (Suc n) is_empty pop q = (if is_empty q then Inr ([], q)
     else rbind (pop q) (\<lambda>(x, q'). rbind (drain n is_empty pop q') (\<lambda>(xs, q''). Inr (x # xs, q''))))"

locale priority_queue =
  fixes rep :: "'q \<Rightarrow> 'a multiset \<Rightarrow> bool"
    and insert :: "'a \<Rightarrow> 'q \<Rightarrow> 'q res"
    and pop :: "'q \<Rightarrow> ('a \<times> 'q) res"
    and is_empty :: "'q \<Rightarrow> bool"
    and key :: "'a \<Rightarrow> 'k::linorder"
    and capacity :: nat
  assumes empty_law: "rep q A \<Longrightarrow> is_empty q = (A = {#})"
    and insert_law: "rep q A \<Longrightarrow> size A < capacity \<Longrightarrow> returns (insert x q) (\<lambda>q'. rep q' (add_mset x A))"
    and pop_law: "rep q A \<Longrightarrow> size A \<le> capacity \<Longrightarrow> A \<noteq> {#} \<Longrightarrow>
      returns (pop q) (\<lambda>(x, q'). x \<in># A \<and> (\<forall>y \<in># A. key x \<le> key y) \<and> rep q' (A - {#x#}))"
begin

lemma insert_all:
  "rep q A \<Longrightarrow> size A + length xs \<le> capacity \<Longrightarrow>
   returns (rfold insert xs q) (\<lambda>q'. rep q' (A + mset xs))"
proof (induction xs arbitrary: q A)
  case (Cons x xs)
  have "returns (insert x q) (\<lambda>q'. rep q' (add_mset x A))"
    using Cons.prems by (intro insert_law) auto
  then have "returns (insert x q) (\<lambda>q'. returns (rfold insert xs q') (\<lambda>q''. rep q'' (A + mset (x # xs))))"
  proof (rule returns_mono)
    fix q'
    assume "rep q' (add_mset x A)"
    from Cons.IH [OF this] show "returns (rfold insert xs q') (\<lambda>q''. rep q'' (A + mset (x # xs)))"
      using Cons.prems by simp
  qed
  then show ?case by simp
qed simp

lemma drain_sorted:
  "rep q A \<Longrightarrow> size A \<le> capacity \<Longrightarrow> size A < n \<Longrightarrow>
   returns (drain n is_empty pop q) (\<lambda>(xs, q'). mset xs = A \<and> sorted (map key xs) \<and> rep q' {#})"
proof (induction n arbitrary: q A)
  case (Suc n)
  show ?case
  proof (cases "A = {#}")
    case True
    then show ?thesis using Suc.prems empty_law by auto
  next
    case False
    then obtain x q' where pop: "pop q = Inr (x, q')" "x \<in># A" "\<forall>y \<in># A. key x \<le> key y"
        "rep q' (A - {#x#})"
      using pop_law [OF Suc.prems(1,2)] by (auto simp: returns_iff)
    have "size (A - {#x#}) < size A" using pop(2) by (rule size_Diff1_less)
    then obtain xs q'' where rest: "drain n is_empty pop q' = Inr (xs, q'')" "mset xs = A - {#x#}"
        "sorted (map key xs)" "rep q'' {#}"
      using Suc.IH [OF pop(4)] Suc.prems(2,3) by (auto simp: returns_iff)
    have "\<forall>y \<in> set xs. key x \<le> key y"
      using pop(3) rest(2) by (metis in_diffD set_mset_mset)
    then show ?thesis
      using False empty_law [OF Suc.prems(1)] pop(1,2) rest by simp
  qed
qed simp

lemma queue_sort:
  assumes "rep q {#}" "length xs \<le> capacity" "length xs < n"
  shows "returns (rbind (rfold insert xs q) (drain n is_empty pop)) (\<lambda>(ys, q').
    mset ys = mset xs \<and> sorted (map key ys))"
proof -
  have "returns (rfold insert xs q) (\<lambda>q'. rep q' (mset xs))"
    using insert_all [OF assms(1), of xs] assms(2) by simp
  then have "returns (rfold insert xs q) (\<lambda>q'. returns (drain n is_empty pop q') (\<lambda>(ys, q').
      mset ys = mset xs \<and> sorted (map key ys)))"
  proof (rule returns_mono)
    fix q'
    assume "rep q' (mset xs)"
    from drain_sorted [OF this, of n] show "returns (drain n is_empty pop q') (\<lambda>(ys, q').
        mset ys = mset xs \<and> sorted (map key ys))"
      using assms(2,3) by (auto elim!: returns_mono)
  qed
  then show ?thesis by simp
qed

end

text \<open>The heap with \<open>inorder = 1\<close>.\<close>

definition least_heap :: "('a \<Rightarrow> 'k::linorder) \<Rightarrow> 'a bheap \<Rightarrow> 'a multiset \<Rightarrow> bool" where
  "least_heap key h A \<longleftrightarrow> heap_rep key h A \<and> heap_order h = 1"

lemma new_least_heap: "least_heap key (new_heap 1) {#}"
  using new_heap_rep [of key 1] by (simp add: least_heap_def new_heap_def)

interpretation least: priority_queue "least_heap key" "heap_insert key" "heap_pop key" heap_empty key max_heap
  for key :: "'a \<Rightarrow> 'k::linorder"
proof (unfold_locales, goal_cases)
  case (1 q A)
  then show ?case using heap_rep_empty [of key q A] by (simp add: least_heap_def)
next
  case (2 q A x)
  then show ?case using heap_insert_ok [of key q A x] by (auto simp: least_heap_def elim!: returns_mono)
next
  case (3 q A)
  then show ?case
    using heap_pop_ok(1) [of key q A]
    by (auto simp: least_heap_def compare_def not_less elim!: returns_mono)
qed

subsection \<open>Properties\<close>

text \<open>
  C37. The binary heap is a priority queue in either order: below its capacity \<open>insert\<close> adds the
  element; \<open>pop\<close> removes an element that no other one comes before, or raises
  \<open>L2_bounds_error\<close> when the heap is empty; every index stays in range and no loop runs out of fuel.
\<close>

theorem heap_is_priority_queue:
  assumes "heap_rep key h A" "heap_order h = 0 \<or> heap_order h = 1" "size A < max_heap"
  shows "returns (heap_insert key x h) (\<lambda>h'. heap_rep key h' (add_mset x A) \<and> heap_order h' = heap_order h) \<and>
    (if A = {#} then heap_pop key h = Inl L2_bounds_error
     else returns (heap_pop key h) (\<lambda>(y, h'). y \<in># A \<and> (\<forall>z \<in># A. \<not> compare key (heap_order h) z y) \<and>
       heap_rep key h' (A - {#y#}) \<and> heap_order h' = heap_order h))"
  using heap_insert_ok [OF assms] heap_pop_ok [OF assms(1)] assms(3) by auto

theorem heap_is_priority_queue_witness:
  "returns (heap_insert id (7::nat) (new_heap 0)) (\<lambda>h'. heap_rep id h' {#7#}) \<and>
   heap_pop (id :: nat \<Rightarrow> nat) (new_heap 0) = Inl L2_bounds_error"
  using heap_is_priority_queue [OF new_heap_rep [of "id :: nat \<Rightarrow> nat" 0], of 7]
  by (auto simp: new_heap_def max_heap_def elim!: returns_mono)

text \<open>
  Inserting a list of elements into an empty heap in increasing order and popping until it is
  empty sorts the list.
\<close>

theorem heap_sorts:
  assumes "length xs \<le> max_heap" "length xs < n"
  shows "returns (rbind (rfold (heap_insert key) xs (new_heap 1)) (drain n heap_empty (heap_pop key)))
    (\<lambda>(ys, h). mset ys = mset xs \<and> sorted (map key ys))"
  by (rule least.queue_sort [OF new_least_heap assms])

theorem heap_sorts_witness:
  "returns (rbind (rfold (heap_insert id) [5, 2, 9, 2::nat] (new_heap 1)) (drain 5 heap_empty (heap_pop id)))
    (\<lambda>(ys, h). ys = [2, 2, 5, 9])"
proof -
  have "ys = [2, 2, 5, 9]" if "mset ys = mset [5, 2, 9, 2::nat]" "sorted ys" for ys
    using that properties_for_sort [of ys "[5, 2, 9, 2]"] by simp
  then show ?thesis
    using heap_sorts [of "[5, 2, 9, 2::nat]" 5 id] by (auto simp: max_heap_def elim!: returns_mono)
qed

end
