(* ===== verification/Cdb_Objects.thy ===== *)
theory Cdb_Objects
  imports Ltms_Properties Array_Properties
begin

text \<open>
  The objects of the conflict database (\<open>conflict_db/variable.h\<close>, \<open>assignable.h\<close>, \<open>assumption.h\<close>,
  \<open>command.h\<close>, \<open>observable.h\<close>, \<open>dependent.h\<close>, \<open>transition.h\<close>, \<open>state_variable.h\<close>,
  \<open>past_command.h\<close>, \<open>assignment.h\<close>, \<open>conflict.h\<close>, \<open>candidate.h\<close>, \<open>conflict_db.h\<close>): variables,
  assignments, conflicts and candidates live in one heap per class and point to each other by
  address. The class of a variable fixes the answers of its virtual predicates. Linked lists and
  growing arrays are the HOL lists they stand for (\<open>Slist_Refine\<close>, \<open>Arrays\<close>).
\<close>

type_synonym var_id = nat
type_synonym assignment_id = nat
type_synonym conflict_id = nat
type_synonym candidate_id = nat
type_synonym weight_t = "32 word"
type_synonym time_step_t = "32 word"

subsection \<open>The classes of variables\<close>

record virtuals =
  is_assignable :: bool
  is_assumption :: bool
  is_command :: bool
  is_dependent :: bool
  is_observable :: bool
  is_state_variable :: bool
  is_transition :: bool
  is_transitioned :: bool

definition Assignable_class :: virtuals where
  "Assignable_class = \<lparr>is_assignable = True, is_assumption = False, is_command = False,
     is_dependent = False, is_observable = False, is_state_variable = False, is_transition = False,
     is_transitioned = False\<rparr>"

definition Assumption_class :: virtuals where
  "Assumption_class = Assignable_class\<lparr>is_assumption := True, is_command := False, is_observable := False\<rparr>"

definition Command_class :: virtuals where
  "Command_class = Assignable_class\<lparr>is_command := True, is_observable := False\<rparr>"

definition Observable_class :: virtuals where
  "Observable_class = Assignable_class\<lparr>is_command := False, is_observable := True\<rparr>"

definition Dependent_class :: virtuals where
  "Dependent_class = \<lparr>is_assignable = False, is_assumption = False, is_command = False,
     is_dependent = True, is_observable = False, is_state_variable = False, is_transition = False,
     is_transitioned = False\<rparr>"

definition Transitioned_class :: virtuals where
  "Transitioned_class = Dependent_class\<lparr>is_transitioned := True\<rparr>"

definition Transition_class :: virtuals where
  "Transition_class = Assumption_class\<lparr>is_transition := True\<rparr>"

definition State_variable_class :: virtuals where
  "State_variable_class = Assumption_class\<lparr>is_state_variable := True\<rparr>"

definition Past_command_class :: virtuals where
  "Past_command_class = Assumption_class"

lemmas class_defs = Assignable_class_def Assumption_class_def Command_class_def Observable_class_def
  Dependent_class_def Transitioned_class_def Transition_class_def State_variable_class_def Past_command_class_def

datatype kind =
    Plain_assignable
  | Plain_assumption
  | Command
  | Observable
  | Dependent
  | Transitioned
  | Transition
  | State_variable
  | Past_command

fun class_of :: "kind \<Rightarrow> virtuals" where
  "class_of Plain_assignable = Assignable_class"
| "class_of Plain_assumption = Assumption_class"
| "class_of Command = Command_class"
| "class_of Observable = Observable_class"
| "class_of Dependent = Dependent_class"
| "class_of Transitioned = Transitioned_class"
| "class_of Transition = Transition_class"
| "class_of State_variable = State_variable_class"
| "class_of Past_command = Past_command_class"

subsection \<open>Objects\<close>

text \<open>
  A variable, with the fields that only assignable ones have. \<open>v_saved\<close> is \<open>None\<close> until \<open>save\<close> is
  called: the constructor does not set it. A null pointer is \<open>None\<close>.
\<close>

record variable_obj =
  v_kind :: kind
  v_id :: "32 word"
  v_time_step :: time_step_t
  propositions :: "prop_id list"
  v_previous :: "var_id option"
  v_next :: "var_id option"
  v_current :: "assignment_id option"
  v_saved :: "assignment_id option option"
  v_assignments :: "assignment_id list"
  exogenouslyAssigned :: bool
  default_assignment :: "assignment_id option"

record assignment_obj =
  weight :: weight_t
  a_variable :: var_id
  a_index :: "32 word"
  a_clause :: "clause_id option"
  resolved_conflicts :: "conflict_id list"
  a_conflicts :: "conflict_id list"

record conflict_obj =
  conflict_assignments :: "assignment_id list"
  conflict_tag :: "32 word"

record candidate_obj =
  cand_assignments :: "assignment_id list"
  cand_id :: "32 word"

text \<open>
  An iterator over the list of variables: the variable it points to and the one before it. Every
  variable is in the list at most once, so it stands for its list item.
\<close>

record var_iter =
  it_current :: "var_id option"
  it_previous :: "var_id option"

record conflict_db =
  vheap :: "var_id \<Rightarrow> variable_obj"
  aheap :: "assignment_id \<Rightarrow> assignment_obj"
  kheap :: "conflict_id \<Rightarrow> conflict_obj"
  candheap :: "candidate_id \<Rightarrow> candidate_obj"
  next_var :: var_id
  next_assignment :: assignment_id
  next_conflict :: conflict_id
  next_candidate :: candidate_id
  global_id :: "32 word"
  variables :: "var_id list"
  insert_pos :: var_iter
  solver :: ltms
  candidates :: "candidate_id list"
  conflicts :: "conflict_id list"
  assumptions :: "var_id list"
  assignables :: "var_id list"

definition no_variable :: variable_obj where
  "no_variable = \<lparr>v_kind = Dependent, v_id = 0, v_time_step = 0, propositions = [], v_previous = None,
     v_next = None, v_current = None, v_saved = None, v_assignments = [], exogenouslyAssigned = False,
     default_assignment = None\<rparr>"

definition no_assignment :: assignment_obj where
  "no_assignment = \<lparr>weight = 0, a_variable = 0, a_index = 0, a_clause = None, resolved_conflicts = [],
     a_conflicts = []\<rparr>"

text \<open>\<open>Conflict_db::Conflict_db\<close>.\<close>

definition new_conflict_db :: conflict_db where
  "new_conflict_db = \<lparr>vheap = (\<lambda>_. no_variable), aheap = (\<lambda>_. no_assignment),
     kheap = (\<lambda>_. \<lparr>conflict_assignments = [], conflict_tag = 0\<rparr>),
     candheap = (\<lambda>_. \<lparr>cand_assignments = [], cand_id = 0\<rparr>), next_var = 0, next_assignment = 0,
     next_conflict = 0, next_candidate = 0, global_id = 0, variables = [],
     insert_pos = \<lparr>it_current = None, it_previous = None\<rparr>, solver = new_ltms, candidates = [],
     conflicts = [], assumptions = [], assignables = []\<rparr>"

definition upd_var :: "var_id \<Rightarrow> (variable_obj \<Rightarrow> variable_obj) \<Rightarrow> conflict_db \<Rightarrow> conflict_db" where
  "upd_var v f db = db\<lparr>vheap := (vheap db)(v := f (vheap db v))\<rparr>"

definition upd_assignment :: "assignment_id \<Rightarrow> (assignment_obj \<Rightarrow> assignment_obj) \<Rightarrow> conflict_db \<Rightarrow> conflict_db" where
  "upd_assignment a f db = db\<lparr>aheap := (aheap db)(a := f (aheap db a))\<rparr>"

definition upd_candidate :: "candidate_id \<Rightarrow> (candidate_obj \<Rightarrow> candidate_obj) \<Rightarrow> conflict_db \<Rightarrow> conflict_db" where
  "upd_candidate c f db = db\<lparr>candheap := (candheap db)(c := f (candheap db c))\<rparr>"

lemma upd_var_simps [simp]:
  "vheap (upd_var v f db) = (vheap db)(v := f (vheap db v))" "aheap (upd_var v f db) = aheap db"
  "kheap (upd_var v f db) = kheap db" "candheap (upd_var v f db) = candheap db"
  "next_var (upd_var v f db) = next_var db" "next_assignment (upd_var v f db) = next_assignment db"
  "next_conflict (upd_var v f db) = next_conflict db" "next_candidate (upd_var v f db) = next_candidate db"
  "global_id (upd_var v f db) = global_id db" "variables (upd_var v f db) = variables db"
  "insert_pos (upd_var v f db) = insert_pos db" "solver (upd_var v f db) = solver db"
  "candidates (upd_var v f db) = candidates db" "conflicts (upd_var v f db) = conflicts db"
  "assumptions (upd_var v f db) = assumptions db" "assignables (upd_var v f db) = assignables db"
  by (simp_all add: upd_var_def)

lemma upd_assignment_simps [simp]:
  "aheap (upd_assignment a g db) = (aheap db)(a := g (aheap db a))" "vheap (upd_assignment a g db) = vheap db"
  "kheap (upd_assignment a g db) = kheap db" "candheap (upd_assignment a g db) = candheap db"
  "next_var (upd_assignment a g db) = next_var db"
  "next_assignment (upd_assignment a g db) = next_assignment db"
  "next_conflict (upd_assignment a g db) = next_conflict db"
  "next_candidate (upd_assignment a g db) = next_candidate db"
  "global_id (upd_assignment a g db) = global_id db" "variables (upd_assignment a g db) = variables db"
  "insert_pos (upd_assignment a g db) = insert_pos db" "solver (upd_assignment a g db) = solver db"
  "candidates (upd_assignment a g db) = candidates db" "conflicts (upd_assignment a g db) = conflicts db"
  "assumptions (upd_assignment a g db) = assumptions db" "assignables (upd_assignment a g db) = assignables db"
  by (simp_all add: upd_assignment_def)

lemma upd_candidate_simps [simp]:
  "candheap (upd_candidate c h db) = (candheap db)(c := h (candheap db c))"
  "vheap (upd_candidate c h db) = vheap db" "aheap (upd_candidate c h db) = aheap db"
  "kheap (upd_candidate c h db) = kheap db" "next_candidate (upd_candidate c h db) = next_candidate db"
  "candidates (upd_candidate c h db) = candidates db" "solver (upd_candidate c h db) = solver db"
  "conflicts (upd_candidate c h db) = conflicts db" "assumptions (upd_candidate c h db) = assumptions db"
  "global_id (upd_candidate c h db) = global_id db"
  by (simp_all add: upd_candidate_def)

end
