(* ===== verification/Conflict_Db.thy ===== *)
theory Conflict_Db
  imports Cdb_Objects
begin

text \<open>
  The operations of the conflict database on variables and conflicts (\<open>conflict_db/variable.cpp\<close>,
  \<open>assignable.cpp\<close>, \<open>assumption.cpp\<close>, \<open>assignment.cpp\<close>, \<open>conflict.cpp\<close>, \<open>conflict_db.cpp\<close>),
  over the truth maintenance system of \<open>Ltms\<close>. Listeners only observe and are left out.
\<close>

subsection \<open>The list of variables\<close>

definition follower :: "var_id \<Rightarrow> var_id list \<Rightarrow> var_id option" where
  "follower v xs = (case tl (dropWhile (\<lambda>x. x \<noteq> v) xs) of [] \<Rightarrow> None | w # _ \<Rightarrow> Some w)"

definition begin_variables :: "conflict_db \<Rightarrow> var_iter" where
  "begin_variables db = \<lparr>it_current = (case variables db of [] \<Rightarrow> None | v # _ \<Rightarrow> Some v), it_previous = None\<rparr>"

definition end_variables :: var_iter where
  "end_variables = \<lparr>it_current = None, it_previous = None\<rparr>"

definition vit_eq :: "var_iter \<Rightarrow> var_iter \<Rightarrow> bool" where
  "vit_eq it jt = (it_current it = it_current jt)"

definition vit_inc :: "var_iter \<Rightarrow> conflict_db \<Rightarrow> var_iter res" where
  "vit_inc it db = (case it_current it of None \<Rightarrow> Inr it
     | Some v \<Rightarrow> if v \<in> set (variables db) then Inr \<lparr>it_current = follower v (variables db), it_previous = Some v\<rparr>
                 else Inl Bad_pointer)"

text \<open>
  \<open>Slist::insert_before\<close> and \<open>Slist::erase\<close> on this list. Following a pointer to an item that is
  no longer in the list is \<open>Bad_pointer\<close>.
\<close>

definition variables_insert_before :: "var_iter \<Rightarrow> var_id \<Rightarrow> conflict_db \<Rightarrow> (var_iter \<times> conflict_db) res" where
  "variables_insert_before pos v db =
     (if vit_eq pos (begin_variables db) then
        Inr (\<lparr>it_current = Some v, it_previous = None\<rparr>, db\<lparr>variables := v # variables db\<rparr>)
      else case it_current pos of None \<Rightarrow> Inl Assert_failed
        | Some c \<Rightarrow> (case it_previous pos of None \<Rightarrow> Inl Assert_failed
        | Some p \<Rightarrow> if p \<in> set (variables db) \<and> c \<in> set (variables db) then
            Inr (\<lparr>it_current = Some v, it_previous = Some p\<rparr>,
              db\<lparr>variables := takeWhile (\<lambda>x. x \<noteq> p) (variables db) @ [p, v] @
                               dropWhile (\<lambda>x. x \<noteq> c) (variables db)\<rparr>)
          else Inl Bad_pointer))"

definition variables_erase :: "var_iter \<Rightarrow> conflict_db \<Rightarrow> (var_iter \<times> conflict_db) res" where
  "variables_erase pos db = (case it_current pos of None \<Rightarrow> Inr (pos, db)
     | Some c \<Rightarrow>
         if c \<notin> set (variables db) then Inl Bad_pointer
         else let rest = tl (dropWhile (\<lambda>x. x \<noteq> c) (variables db));
                  pos' = pos\<lparr>it_current := follower c (variables db)\<rparr>
              in case it_previous pos of None \<Rightarrow> Inr (pos', db\<lparr>variables := rest\<rparr>)
                 | Some p \<Rightarrow> if p \<in> set (variables db) then
                     Inr (pos', db\<lparr>variables := takeWhile (\<lambda>x. x \<noteq> p) (variables db) @ [p] @ rest\<rparr>)
                   else Inl Bad_pointer)"

definition insert_variable :: "var_id \<Rightarrow> conflict_db \<Rightarrow> conflict_db res" where
  "insert_variable v db = rbind (variables_insert_before (insert_pos db) v db)
     (\<lambda>(it, db1). Inr (db1\<lparr>insert_pos := it\<rparr>))"

definition set_new_variable_iterator :: "var_iter \<Rightarrow> conflict_db \<Rightarrow> conflict_db res" where
  "set_new_variable_iterator it db = rbind (l2_assert (\<not> vit_eq it end_variables) Assert_failed)
     (\<lambda>_. Inr (db\<lparr>insert_pos := it\<rparr>))"

subsection \<open>Creating a variable\<close>

definition array_contents :: "'a array \<Rightarrow> 'a list" where
  "array_contents a = map the (take (unat (arr_used a)) (arr_block a))"

text \<open>
  One proposition per value. They are created in the order of the domain, pushed to the front of
  \<open>all_props\<close> and stored from the last place of the array to the first.
\<close>

definition create_props :: "32 word \<Rightarrow> ltms \<Rightarrow> (prop_id list \<times> prop_id array \<times> ltms) res" where
  "create_props n s = rfold (\<lambda>i (all_props, a, s).
     case create_proposition s of (p, s1) \<Rightarrow>
       rbind (grow_and_set (n - of_nat i - 1) p a) (\<lambda>a1. Inr (p # all_props, a1, s1)))
     [0..<unat n] ([], new_array 0, s)"

text \<open>The clauses \<open>\<not> v=i \<or> \<not> v=j\<close> for every pair \<open>i < j\<close> of values.\<close>

definition mutex_clauses :: "prop_id list \<Rightarrow> ltms \<Rightarrow> ltms res" where
  "mutex_clauses ps s = rfold (\<lambda>i. rfold (\<lambda>j s.
       rbind (ltms_create_clause None [] [ps ! j, ps ! i] False True s) (\<lambda>(_, s1). Inr s1))
     [Suc i..<length ps]) [0..<length ps] s"

text \<open>\<open>Variable::Variable\<close>; the fields of the subclasses are set by their constructors.\<close>

definition new_variable ::
  "kind \<Rightarrow> 32 word \<Rightarrow> time_step_t \<Rightarrow> 32 word \<Rightarrow> conflict_db \<Rightarrow> (var_id \<times> conflict_db) res" where
  "new_variable k domainCardinality time variableID db =
     rbind (create_props domainCardinality (solver db)) (\<lambda>(all_props, a, s1).
     rbind (ltms_create_clause None all_props [] False True s1) (\<lambda>(_, s2).
     rbind (mutex_clauses (array_contents a) s2) (\<lambda>s3.
       let v = next_var db;
           db1 = upd_var v (\<lambda>_. no_variable\<lparr>v_kind := k, v_id := variableID, v_time_step := time,
                                  propositions := array_contents a\<rparr>)
                   (db\<lparr>solver := s3, next_var := Suc v\<rparr>)
       in rbind (insert_variable v db1) (\<lambda>db2. Inr (v, db2)))))"

definition get_nvalues :: "conflict_db \<Rightarrow> var_id \<Rightarrow> 32 word" where
  "get_nvalues db v = of_nat (length (propositions (vheap db v)))"

definition get_prop :: "conflict_db \<Rightarrow> var_id \<Rightarrow> 32 word \<Rightarrow> prop_id res" where
  "get_prop db v i = rbind (l2_assert (i < get_nvalues db v) L2_bounds_error)
     (\<lambda>_. Inr (propositions (vheap db v) ! unat i))"

text \<open>\<open>Variable::insert_previous\<close>: link \<open>var\<close> in before \<open>this\<close>.\<close>

definition insert_previous :: "var_id \<Rightarrow> var_id option \<Rightarrow> conflict_db \<Rightarrow> conflict_db res" where
  "insert_previous this var db = (case var of None \<Rightarrow> Inl L2_fatal_error
     | Some w \<Rightarrow>
         let prev = v_previous (vheap db this);
             prev = (if v_previous (vheap db w) \<noteq> None then v_previous (vheap db w) else prev);
             db1 = (case prev of None \<Rightarrow> db | Some p \<Rightarrow> upd_var p (\<lambda>x. x\<lparr>v_next := Some w\<rparr>) db);
             db2 = upd_var w (\<lambda>x. x\<lparr>v_previous := prev\<rparr>) db1;
             db3 = upd_var w (\<lambda>x. x\<lparr>v_next := Some this\<rparr>) db2
         in Inr (upd_var this (\<lambda>x. x\<lparr>v_previous := Some w\<rparr>) db3))"

subsection \<open>The value of a variable\<close>

fun first_index :: "('a \<Rightarrow> bool) \<Rightarrow> 'a list \<Rightarrow> nat option" where
  "first_index P [] = None"
| "first_index P (x # xs) = (if P x then Some 0 else map_option Suc (first_index P xs))"

definition NOT_FOUND :: int where "NOT_FOUND = - 1"

definition get_value :: "conflict_db \<Rightarrow> var_id \<Rightarrow> prop_id option" where
  "get_value db v = find (\<lambda>p. isTrue (pheap (solver db) p)) (propositions (vheap db v))"

definition get_value_index :: "conflict_db \<Rightarrow> var_id \<Rightarrow> int" where
  "get_value_index db v =
     (case first_index (\<lambda>p. isTrue (pheap (solver db) p)) (propositions (vheap db v)) of
        None \<Rightarrow> NOT_FOUND | Some i \<Rightarrow> int i)"

subsection \<open>Assignable variables\<close>

text \<open>The new assignment \<open>v=i\<close>, its unit clause, which is volatile and not in the theory yet.\<close>

definition create_assignment :: "var_id \<Rightarrow> nat \<Rightarrow> conflict_db \<Rightarrow> conflict_db res" where
  "create_assignment v i db =
     (let a = next_assignment db;
          db1 = upd_assignment a (\<lambda>_. no_assignment\<lparr>a_variable := v, a_index := of_nat i\<rparr>)
                  (db\<lparr>next_assignment := Suc a\<rparr>);
          db2 = upd_var v (\<lambda>x. x\<lparr>v_assignments := v_assignments x @ [a]\<rparr>) db1
      in rbind (get_prop db2 v (of_nat i)) (\<lambda>p.
         rbind (ltms_create_clause (Some a) [p] [] True False (solver db2)) (\<lambda>(c, s).
           Inr (upd_assignment a (\<lambda>x. x\<lparr>a_clause := Some c\<rparr>) (db2\<lparr>solver := s\<rparr>)))))"

definition new_assignable ::
  "kind \<Rightarrow> 32 word \<Rightarrow> time_step_t \<Rightarrow> 32 word \<Rightarrow> conflict_db \<Rightarrow> (var_id \<times> conflict_db) res" where
  "new_assignable k nvalues time_step ident db =
     rbind (new_variable k nvalues time_step ident db) (\<lambda>(v, db1).
     rbind (rfold (create_assignment v) [0..<unat (get_nvalues db1 v)] db1) (\<lambda>db2. Inr (v, db2)))"

definition registerAssignable :: "var_id \<Rightarrow> conflict_db \<Rightarrow> conflict_db" where
  "registerAssignable v db = db\<lparr>assignables := v # assignables db\<rparr>"

definition registerAssumption :: "var_id \<Rightarrow> conflict_db \<Rightarrow> conflict_db" where
  "registerAssumption v db = registerAssignable v (db\<lparr>assumptions := v # assumptions db\<rparr>)"

text \<open>\<open>Assumption::Assumption\<close>: the weights of the assignments, which must not decrease.\<close>

fun set_weights :: "(weight_t \<times> assignment_id) list \<Rightarrow> weight_t \<Rightarrow> conflict_db \<Rightarrow> conflict_db res" where
  "set_weights [] last_weight db = Inr db"
| "set_weights ((w, a) # xs) last_weight db =
     rbind (l2_assert (w \<ge> last_weight) L2_argument_error)
       (\<lambda>_. set_weights xs w (upd_assignment a (\<lambda>x. x\<lparr>weight := w\<rparr>) db))"

definition new_assumption ::
  "kind \<Rightarrow> 32 word \<Rightarrow> weight_t list \<Rightarrow> time_step_t \<Rightarrow> 32 word \<Rightarrow> conflict_db \<Rightarrow> (var_id \<times> conflict_db) res" where
  "new_assumption k nvalues weights time_step ident db =
     rbind (new_assignable k nvalues time_step ident db) (\<lambda>(v, db1).
     case v_assignments (vheap db1 v) of [] \<Rightarrow> Inl Assert_failed
     | a # as \<Rightarrow>
         let db2 = upd_var v (\<lambda>x. x\<lparr>default_assignment := Some a\<rparr>) db1 in
         rbind (l2_assert (of_nat (length weights) = nvalues) L2_argument_error) (\<lambda>_.
         rbind (set_weights (zip weights (a # as)) 0 db2) (\<lambda>db3. Inr (v, db3))))"

definition create_assignable ::
  "32 word \<Rightarrow> time_step_t \<Rightarrow> 32 word \<Rightarrow> conflict_db \<Rightarrow> (var_id \<times> conflict_db) res" where
  "create_assignable n t i db = rbind (new_assignable Plain_assignable n t i db)
     (\<lambda>(v, db1). Inr (v, registerAssignable v db1))"

definition create_dependent ::
  "32 word \<Rightarrow> time_step_t \<Rightarrow> 32 word \<Rightarrow> conflict_db \<Rightarrow> (var_id \<times> conflict_db) res" where
  "create_dependent n t i db = new_variable Dependent n t i db"

definition create_command ::
  "32 word \<Rightarrow> time_step_t \<Rightarrow> 32 word \<Rightarrow> conflict_db \<Rightarrow> (var_id \<times> conflict_db) res" where
  "create_command n t i db = rbind (new_assignable Command n t i db)
     (\<lambda>(v, db1). Inr (v, registerAssignable v db1))"

definition create_observable ::
  "32 word \<Rightarrow> time_step_t \<Rightarrow> 32 word \<Rightarrow> conflict_db \<Rightarrow> (var_id \<times> conflict_db) res" where
  "create_observable n t i db = rbind (new_assignable Observable n t i db)
     (\<lambda>(v, db1). Inr (v, registerAssignable v db1))"

definition cdb_create_clause ::
  "prop_id list \<Rightarrow> prop_id list \<Rightarrow> bool \<Rightarrow> bool \<Rightarrow> conflict_db \<Rightarrow> (clause_id \<times> conflict_db) res" where
  "cdb_create_clause posP negP isVolatile inTheory db =
     rbind (ltms_create_clause None posP negP isVolatile inTheory (solver db))
       (\<lambda>(c, s). Inr (c, db\<lparr>solver := s\<rparr>))"

subsection \<open>Assigning\<close>

text \<open>The unit clause of an assignment goes into the theory, or out of it.\<close>

definition clause_op :: "(clause_id \<Rightarrow> ltms \<Rightarrow> ltms res) \<Rightarrow> assignment_id option \<Rightarrow> conflict_db \<Rightarrow> conflict_db res" where
  "clause_op f a db = (case a of None \<Rightarrow> Inr db
     | Some a \<Rightarrow> (case a_clause (aheap db a) of None \<Rightarrow> Inl Bad_pointer
       | Some c \<Rightarrow> rbind (f c (solver db)) (\<lambda>s. Inr (db\<lparr>solver := s\<rparr>))))"

text \<open>\<open>Assignable::assign(const Assignment*)\<close>.\<close>

definition assign_var :: "var_id \<Rightarrow> assignment_id option \<Rightarrow> conflict_db \<Rightarrow> conflict_db res" where
  "assign_var v a db =
     (if v_current (vheap db v) \<noteq> a then
        rbind (clause_op ltms_remove (v_current (vheap db v)) db) (\<lambda>db1.
          clause_op ltms_add a (upd_var v (\<lambda>x. x\<lparr>v_current := a\<rparr>) db1))
      else Inr db)"

definition unassign_var :: "var_id \<Rightarrow> conflict_db \<Rightarrow> conflict_db res" where
  "unassign_var v db =
     (if v_current (vheap db v) \<noteq> None then
        rbind (clause_op ltms_remove (v_current (vheap db v)) db)
          (\<lambda>db1. Inr (upd_var v (\<lambda>x. x\<lparr>v_current := None\<rparr>) db1))
      else Inr db)"

definition get_assignment :: "conflict_db \<Rightarrow> var_id \<Rightarrow> 32 word \<Rightarrow> assignment_id option" where
  "get_assignment db v i =
     (let as = v_assignments (vheap db v) in if unat i < length as then Some (as ! unat i) else None)"

text \<open>\<open>Assignable::assign(unsigned)\<close> and \<open>Assignable::assign(const Assignable&)\<close>.\<close>

definition assign_index :: "var_id \<Rightarrow> 32 word \<Rightarrow> conflict_db \<Rightarrow> conflict_db res" where
  "assign_index v i db = rbind (l2_assert (get_assignment db v i \<noteq> None) L2_bounds_error)
     (\<lambda>_. assign_var v (get_assignment db v i) db)"

definition assign_like :: "var_id \<Rightarrow> var_id \<Rightarrow> conflict_db \<Rightarrow> conflict_db res" where
  "assign_like v w db = (case v_current (vheap db w) of None \<Rightarrow> unassign_var v db
     | Some a \<Rightarrow> assign_index v (a_index (aheap db a)) db)"

text \<open>\<open>Assignment::assign\<close>.\<close>

definition assignment_assign :: "assignment_id \<Rightarrow> conflict_db \<Rightarrow> conflict_db res" where
  "assignment_assign a db = assign_var (a_variable (aheap db a)) (Some a) db"

definition observe :: "var_id \<Rightarrow> int \<Rightarrow> conflict_db \<Rightarrow> conflict_db res" where
  "observe v i db = rbind (if i < 0 then unassign_var v db else assign_index v (word_of_int i) db)
     (\<lambda>db1. Inr (upd_var v (\<lambda>x. x\<lparr>exogenouslyAssigned := (i \<ge> 0)\<rparr>) db1))"

definition restore_initial_default :: "var_id \<Rightarrow> conflict_db \<Rightarrow> conflict_db res" where
  "restore_initial_default v db = (case v_assignments (vheap db v) of [] \<Rightarrow> Inl Assert_failed
     | a # _ \<Rightarrow> if Some a \<noteq> v_current (vheap db v) then assign_var v (Some a) db else Inr db)"

definition restore_default :: "var_id \<Rightarrow> conflict_db \<Rightarrow> conflict_db res" where
  "restore_default v db = assign_var v (default_assignment (vheap db v)) db"

definition restore_assumption_defaults :: "conflict_db \<Rightarrow> conflict_db res" where
  "restore_assumption_defaults db = rfold restore_default (assumptions db) db"

text \<open>
  \<open>save\<close> and \<open>restore\<close> do nothing on a variable that is not assignable. Restoring what was never
  saved follows a pointer the constructor has not set.
\<close>

definition save_var :: "var_id \<Rightarrow> conflict_db \<Rightarrow> conflict_db" where
  "save_var v db = (if is_assignable (class_of (v_kind (vheap db v)))
     then upd_var v (\<lambda>x. x\<lparr>v_saved := Some (v_current x)\<rparr>) db else db)"

definition restore_var :: "var_id \<Rightarrow> conflict_db \<Rightarrow> conflict_db res" where
  "restore_var v db = (if is_assignable (class_of (v_kind (vheap db v)))
     then (case v_saved (vheap db v) of None \<Rightarrow> Inl Bad_pointer | Some a \<Rightarrow> assign_var v a db) else Inr db)"

definition save_all :: "conflict_db \<Rightarrow> conflict_db" where
  "save_all db = fold save_var (variables db) db"

definition restore_all :: "conflict_db \<Rightarrow> conflict_db res" where
  "restore_all db = rfold restore_var (variables db) db"

definition cdb_propagate :: "conflict_db \<Rightarrow> (bool \<times> conflict_db) res" where
  "cdb_propagate db = rbind (propagate (solver db)) (\<lambda>(b, s). Inr (b, db\<lparr>solver := s\<rparr>))"

subsection \<open>Conflicts\<close>

text \<open>The other assignments of the variable of an assignment.\<close>

definition siblings :: "conflict_db \<Rightarrow> assignment_id \<Rightarrow> assignment_id list" where
  "siblings db a = filter (\<lambda>b. a \<noteq> b) (v_assignments (vheap db (a_variable (aheap db a))))"

definition assignment_add_conflict :: "conflict_id \<Rightarrow> assignment_id \<Rightarrow> conflict_db \<Rightarrow> conflict_db" where
  "assignment_add_conflict k a db =
     (let db1 = (if k \<in> set (a_conflicts (aheap db a)) then db
                 else upd_assignment a (\<lambda>x. x\<lparr>a_conflicts := k # a_conflicts x\<rparr>) db)
      in fold (\<lambda>b. upd_assignment b (\<lambda>x. x\<lparr>resolved_conflicts := k # resolved_conflicts x\<rparr>))
           (siblings db1 a) db1)"

definition assignment_remove_conflict :: "conflict_id \<Rightarrow> assignment_id \<Rightarrow> conflict_db \<Rightarrow> conflict_db" where
  "assignment_remove_conflict k a db =
     (let db1 = upd_assignment a (\<lambda>x. x\<lparr>a_conflicts := slist_remove k (a_conflicts x)\<rparr>) db
      in fold (\<lambda>b. upd_assignment b (\<lambda>x. x\<lparr>resolved_conflicts := slist_remove k (resolved_conflicts x)\<rparr>))
           (siblings db1 a) db1)"

definition append_other_values :: "conflict_db \<Rightarrow> assignment_id \<Rightarrow> assignment_id list \<Rightarrow> assignment_id list" where
  "append_other_values db a as = as @ fold (#) (siblings db a) []"

definition resolving_assignments :: "conflict_db \<Rightarrow> conflict_id \<Rightarrow> assignment_id list \<Rightarrow> assignment_id list" where
  "resolving_assignments db k new_items =
     fold (append_other_values db) (conflict_assignments (kheap db k)) new_items"

definition subsumes :: "conflict_obj \<Rightarrow> assignment_id list \<Rightarrow> bool" where
  "subsumes k as = list_all (\<lambda>a. a \<in> set as) (conflict_assignments k)"

definition subsumedBy :: "conflict_obj \<Rightarrow> assignment_id list \<Rightarrow> bool" where
  "subsumedBy k as = list_all (\<lambda>a. a \<in> set (conflict_assignments k)) as"

definition conflict_size :: "conflict_db \<Rightarrow> conflict_id \<Rightarrow> 32 word" where
  "conflict_size db k = of_nat (length (conflict_assignments (kheap db k)))"

definition conflict_is_smaller :: "conflict_db \<Rightarrow> conflict_id \<Rightarrow> conflict_id \<Rightarrow> bool" where
  "conflict_is_smaller db k1 k2 = (conflict_size db k1 < conflict_size db k2)"

text \<open>\<open>insert_sorted\<close> of \<open>mba_utils/algos.h\<close>.\<close>

fun insert_sorted :: "('a \<Rightarrow> 'a \<Rightarrow> bool) \<Rightarrow> 'a \<Rightarrow> 'a list \<Rightarrow> 'a list" where
  "insert_sorted smaller x [] = [x]"
| "insert_sorted smaller x (y # ys) =
     (if smaller x y then x # y # ys else y # insert_sorted smaller x ys)"

text \<open>\<open>Conflict::Conflict\<close>.\<close>

definition new_conflict :: "assignment_id list \<Rightarrow> 32 word \<Rightarrow> conflict_db \<Rightarrow> conflict_id \<times> conflict_db" where
  "new_conflict as tag db =
     (let k = next_conflict db;
          db1 = db\<lparr>kheap := (kheap db)(k := \<lparr>conflict_assignments = as, conflict_tag = tag\<rparr>),
                   next_conflict := Suc k\<rparr>
      in (k, fold (assignment_add_conflict k) as db1))"

definition find_subsuming_conflict :: "conflict_db \<Rightarrow> assignment_id list \<Rightarrow> conflict_id option" where
  "find_subsuming_conflict db as = find (\<lambda>k. subsumes (kheap db k) as) (conflicts db)"

definition add_conflict :: "assignment_id list \<Rightarrow> 32 word \<Rightarrow> conflict_db \<Rightarrow> conflict_id \<times> conflict_db" where
  "add_conflict as tag db = (case find_subsuming_conflict db as of
     Some k \<Rightarrow> (k, db)
   | None \<Rightarrow> (case new_conflict as tag db of (k, db1) \<Rightarrow>
       (k, db1\<lparr>conflicts := insert_sorted (conflict_is_smaller db1) k (conflicts db1)\<rparr>)))"

text \<open>\<open>Conflict_db::is_assumption\<close> and its kin: what the datum of a clause says.\<close>

definition datum_class :: "conflict_db \<Rightarrow> (virtuals \<Rightarrow> bool) \<Rightarrow> clause \<Rightarrow> bool" where
  "datum_class db test c = (case clause_datum c of None \<Rightarrow> False
     | Some a \<Rightarrow> test (class_of (v_kind (vheap db (a_variable (aheap db a))))))"

definition clause_is_assumption :: "conflict_db \<Rightarrow> clause \<Rightarrow> bool" where
  "clause_is_assumption db = datum_class db is_assumption"

definition clause_is_command :: "conflict_db \<Rightarrow> clause \<Rightarrow> bool" where
  "clause_is_command db = datum_class db is_command"

definition clause_is_observable :: "conflict_db \<Rightarrow> clause \<Rightarrow> bool" where
  "clause_is_observable db = datum_class db is_observable"

text \<open>The loop that maps the conflicting clauses onto their assignments.\<close>

fun map_clauses :: "ltms \<Rightarrow> clause_id list \<Rightarrow> assignment_id list \<Rightarrow> assignment_id list res" where
  "map_clauses s [] as = Inr as"
| "map_clauses s (c # cs) as = (case clause_datum (cheap s c) of None \<Rightarrow> Inl Assert_failed
     | Some a \<Rightarrow> map_clauses s cs (a # as))"

definition conflict :: "32 word \<Rightarrow> conflict_db \<Rightarrow> (conflict_id option \<times> conflict_db) res" where
  "conflict tag db =
     rbind (propagate (solver db)) (\<lambda>(b, s1).
       if b then Inr (None, db\<lparr>solver := s1\<rparr>)
       else rbind (last_conflict (clause_is_assumption db) [] s1) (\<lambda>(cs, s2).
            rbind (map_clauses s2 cs []) (\<lambda>as.
            case add_conflict as tag (db\<lparr>solver := s2\<rparr>) of (k, db1) \<Rightarrow> Inr (Some k, db1))))"

text \<open>\<open>destroy_conflict\<close>; the iterator is the conflict it points to.\<close>

definition destroy_conflict :: "conflict_id \<Rightarrow> conflict_db \<Rightarrow> conflict_db" where
  "destroy_conflict k db =
     (let db1 = fold (assignment_remove_conflict k) (conflict_assignments (kheap db k)) db
      in db1\<lparr>conflicts := slist_remove_first k (conflicts db1)\<rparr>)"

definition erase_conflicts :: "var_id \<Rightarrow> conflict_db \<Rightarrow> conflict_db" where
  "erase_conflicts v db = fold (\<lambda>a. upd_assignment a (\<lambda>x. x\<lparr>a_conflicts := [], resolved_conflicts := []\<rparr>))
     (v_assignments (vheap db v)) db"

subsection \<open>Destroying variables\<close>

text \<open>
  \<open>~Assignable\<close> and \<open>~Variable\<close>: the assignments go, the propositions are marked, and the neighbours
  over time are linked to each other.
\<close>

definition delete_variable :: "var_id \<Rightarrow> conflict_db \<Rightarrow> conflict_db" where
  "delete_variable v db =
     (let o' = vheap db v;
          db1 = upd_var v (\<lambda>x. x\<lparr>v_assignments := []\<rparr>) db;
          db2 = db1\<lparr>solver := fold prop_set_destroying (propositions o') (solver db1)\<rparr>;
          db3 = (case v_previous o' of None \<Rightarrow> db2 | Some p \<Rightarrow> upd_var p (\<lambda>x. x\<lparr>v_next := v_next o'\<rparr>) db2);
          db4 = (case v_next o' of None \<Rightarrow> db3
                 | Some n \<Rightarrow> upd_var n (\<lambda>x. x\<lparr>v_previous := v_previous (vheap db3 v)\<rparr>) db3)
      in upd_var v (\<lambda>x. x\<lparr>v_previous := None, v_next := None\<rparr>) db4)"

fun destroy_loop :: "nat \<Rightarrow> (variable_obj \<Rightarrow> bool) \<Rightarrow> var_iter \<Rightarrow> var_iter \<Rightarrow> conflict_db \<Rightarrow> conflict_db res" where
  "destroy_loop 0 accept it end db = (if vit_eq it end then Inr db else Inl Out_of_fuel)"
| "destroy_loop (Suc n) accept it end db =
     (if vit_eq it end then Inr db
      else case it_current it of None \<Rightarrow> Inl Assert_failed
        | Some v \<Rightarrow>
            if accept (vheap db v) then
              rbind (variables_erase it db) (\<lambda>(it', db1).
                let db2 = (if vit_eq (insert_pos db) it then db1\<lparr>insert_pos := it'\<rparr> else db1)
                in destroy_loop n accept it' end (delete_variable v db2))
            else rbind (vit_inc it db) (\<lambda>it'. destroy_loop n accept it' end db))"

definition destroy_variables ::
  "(variable_obj \<Rightarrow> bool) \<Rightarrow> var_iter \<Rightarrow> var_iter \<Rightarrow> bool \<Rightarrow> conflict_db \<Rightarrow> conflict_db res" where
  "destroy_variables accept start end cleanup db =
     (let db1 = db\<lparr>assignables := filter (\<lambda>v. \<not> accept (vheap db v)) (assignables db),
                   assumptions := filter (\<lambda>v. \<not> accept (vheap db v)) (assumptions db)\<rparr>
      in rbind (destroy_loop (length (variables db1)) accept start end db1) (\<lambda>db2.
         if cleanup then rbind (ltms_finish_destroying (solver db2)) (\<lambda>s. Inr (db2\<lparr>solver := s\<rparr>))
         else Inr db2))"

subsection \<open>Small setters and queries\<close>

definition set_time_step :: "var_id \<Rightarrow> time_step_t \<Rightarrow> conflict_db \<Rightarrow> conflict_db" where
  "set_time_step v t = upd_var v (\<lambda>x. x\<lparr>v_time_step := t\<rparr>)"

definition set_exogenously_assigned :: "var_id \<Rightarrow> bool \<Rightarrow> conflict_db \<Rightarrow> conflict_db" where
  "set_exogenously_assigned v b = upd_var v (\<lambda>x. x\<lparr>exogenouslyAssigned := b\<rparr>)"

definition set_weight :: "assignment_id \<Rightarrow> weight_t \<Rightarrow> conflict_db \<Rightarrow> conflict_db" where
  "set_weight a w = upd_assignment a (\<lambda>x. x\<lparr>weight := w\<rparr>)"

definition is_current_assignment :: "conflict_db \<Rightarrow> var_id \<Rightarrow> assignment_id \<Rightarrow> bool" where
  "is_current_assignment db v a = (v_current (vheap db v) = Some a)"

definition is_default :: "conflict_db \<Rightarrow> var_id \<Rightarrow> assignment_id \<Rightarrow> bool" where
  "is_default db v a = (is_assumption (class_of (v_kind (vheap db v))) \<and>
     default_assignment (vheap db v) = Some a)"

definition is_in_conflict :: "conflict_db \<Rightarrow> assignment_id \<Rightarrow> conflict_id \<Rightarrow> bool" where
  "is_in_conflict db a k = (k \<in> set (a_conflicts (aheap db a)))"

definition resolves_conflict :: "conflict_db \<Rightarrow> assignment_id \<Rightarrow> conflict_id \<Rightarrow> bool" where
  "resolves_conflict db a k = (k \<in> set (resolved_conflicts (aheap db a)))"

text \<open>\<open>~Conflict_db\<close>: the candidates, the variables and the conflicts go.\<close>

definition delete_conflict_db :: "conflict_db \<Rightarrow> conflict_db res" where
  "delete_conflict_db db =
     (let db1 = db\<lparr>candidates := []\<rparr> in
      rbind (destroy_variables (\<lambda>_. True) (begin_variables db1) end_variables True db1)
        (\<lambda>db2. Inr (db2\<lparr>conflicts := []\<rparr>)))"

end
