(* ===== verification/Cdb_Inv.thy ===== *)
theory Cdb_Inv
  imports Conflict_Db
begin

text \<open>
  The invariant of the conflict database: every variable has its propositions and clauses in the
  truth maintenance system, every assignment its unit clause, and the unit clauses in the theory
  are those of the current assignments. Assigning and unassigning keep it.
\<close>

subsection \<open>The solver\<close>

text \<open>The clauses in the theory that assert no assignment.\<close>

definition hard_formula :: "ltms \<Rightarrow> cnf" where
  "hard_formula s = (\<lambda>c. set (clause_lits (cheap s c))) ` {c \<in> active s. clause_datum (cheap s c) = None}"

lemma active_clauses: "c \<in> active s \<Longrightarrow> c \<in> set (clauses s)"
  by (simp add: active_def)

lemma hard_formula_same:
  assumes "same_contents s t" "\<And>c. clause_datum (cheap s c) = None \<Longrightarrow> c \<in> active t \<longleftrightarrow> c \<in> active s"
  shows "hard_formula t = hard_formula s"
  unfolding hard_formula_def same_contentsD [OF assms(1)]
  by (rule image_cong) (use assms(2) in auto)

lemma solver_add:
  assumes "reachable s" "c \<in> set (clauses s)"
  shows "returns (ltms_add c s) (\<lambda>t. reachable t \<and> active t = insert c (active s) \<and> same_contents s t \<and>
    props t = props s \<and> clauses t = clauses s)"
proof -
  from ltms_add_ok [OF reachable_inv [OF assms(1)] assms(2)] obtain t where t: "ltms_add c s = Inr t"
    "active t = insert c (active s)" "props t = props s" "clauses t = clauses s" "same_contents s t"
    by (auto simp: returns_iff)
  then show ?thesis using reachable_steps(1) [OF assms t(1)] by simp
qed

lemma solver_remove:
  assumes "reachable s" "c \<in> set (clauses s)"
  shows "returns (ltms_remove c s) (\<lambda>t. reachable t \<and> active t = active s - {c} \<and> same_contents s t \<and>
    props t = props s \<and> clauses t = clauses s)"
proof -
  from ltms_remove_ok [OF reachable_inv [OF assms(1)] assms(2)] obtain t where t: "ltms_remove c s = Inr t"
    "active t = active s - {c}" "props t = props s" "clauses t = clauses s" "same_contents s t"
    by (auto simp: returns_iff)
  then show ?thesis using reachable_steps(2) [OF assms t(1)] by simp
qed

lemma solver_propagate:
  assumes "reachable s"
  shows "returns (propagate s) (\<lambda>(b, t). reachable t \<and> active t = active s \<and> same_contents s t \<and>
    props t = props s \<and> clauses t = clauses s \<and> formula t = formula s \<and> (b \<longleftrightarrow> unsatisfied t = []) \<and>
    (b \<longleftrightarrow> \<not> up_conflict (formula s)) \<and>
    (\<forall>l. fst l \<in> set (props s) \<longrightarrow> lit_tv (pheap t) l = PTRUE \<longrightarrow> up (formula s) l) \<and>
    (b \<longrightarrow> (\<forall>l. up (formula s) l \<longrightarrow> lit_tv (pheap t) l = PTRUE)))"
proof -
  from propagate_ok [OF reachable_inv [OF assms]] obtain b t where
    t: "propagate s = Inr (b, t)" "kept s t" "b \<longleftrightarrow> unsatisfied t = []" by (auto simp: returns_iff)
  from propagate_computes_up [OF reachable_inv [OF assms]] t(1)
  have up: "formula t = formula s" "b \<longleftrightarrow> \<not> up_conflict (formula s)"
    "\<forall>l. fst l \<in> set (props s) \<longrightarrow> lit_tv (pheap t) l = PTRUE \<longrightarrow> up (formula s) l"
    "b \<longrightarrow> (\<forall>l. up (formula s) l \<longrightarrow> lit_tv (pheap t) l = PTRUE)" by simp_all
  have "active t = active s" using keptD(2,12) [OF t(2)] by (simp add: active_def)
  then show ?thesis
    using t up keptD(1,2,10,17) [OF t(2)] reachable_steps(3) [OF assms t(1)] by (simp add: same_contents_def)
qed

lemma solver_create_clause:
  assumes "reachable s" "valid_clause posP negP s"
  shows "returns (ltms_create_clause dm posP negP vol inT s) (\<lambda>(c, t). reachable t \<and> c \<notin> set (clauses s) \<and>
     clauses t = clauses s @ [c] \<and> props t = props s \<and>
     active t = (if inT then insert c (active s) else active s) \<and>
     clause_lits (cheap t c) = new_lits posP negP \<and> clause_datum (cheap t c) = dm \<and>
     (\<forall>d \<in> set (clauses s). clause_lits (cheap t d) = clause_lits (cheap s d) \<and>
        clause_datum (cheap t d) = clause_datum (cheap s d)))"
proof -
  have v: "set posP \<subseteq> set (props s)" "set negP \<subseteq> set (props s)"
    "length (slist_remove_duplicates posP) + length (slist_remove_duplicates negP) < 128"
    using assms(2) by (auto simp: valid_clause_def)
  from create_clause_ok [OF reachable_inv [OF assms(1)] v, of dm vol inT] obtain c t where
    t: "ltms_create_clause dm posP negP vol inT s = Inr (c, t)" "c \<notin> set (clauses s)"
     "clauses t = clauses s @ [c]" "props t = props s" "active t = (if inT then insert c (active s) else active s)"
     "clause_lits (cheap t c) = new_lits posP negP" "clause_datum (cheap t c) = dm"
     "\<forall>d \<in> set (clauses s). clause_lits (cheap t d) = clause_lits (cheap s d) \<and>
        clause_datum (cheap t d) = clause_datum (cheap s d)"
    by (auto simp: returns_iff)
  then show ?thesis using reachable_steps(5) [OF assms t(1)] by simp
qed

text \<open>The clauses stay, and more may be added; no clause of the theory that is hard leaves it.\<close>

definition grows :: "ltms \<Rightarrow> ltms \<Rightarrow> bool" where
  "grows s t \<longleftrightarrow> set (props s) \<subseteq> set (props t) \<and> set (clauses s) \<subseteq> set (clauses t) \<and>
     (\<forall>d \<in> set (clauses s). clause_lits (cheap t d) = clause_lits (cheap s d) \<and>
        clause_datum (cheap t d) = clause_datum (cheap s d)) \<and>
     hard_formula s \<subseteq> hard_formula t"

lemma grows_refl [simp]: "grows s s"
  by (simp add: grows_def)

lemma grows_trans: "grows s t \<Longrightarrow> grows t u \<Longrightarrow> grows s u"
  unfolding grows_def by (auto simp: subset_iff)

lemma grows_same:
  assumes "same_contents s t" "props t = props s" "clauses t = clauses s"
    "\<And>c. clause_datum (cheap s c) = None \<Longrightarrow> c \<in> active t \<longleftrightarrow> c \<in> active s"
  shows "grows s t"
  using assms hard_formula_same [OF assms(1,4)] by (simp add: grows_def same_contentsD [OF assms(1)])

lemma grows_clause:
  assumes "c \<notin> set (clauses s)" "clauses t = clauses s @ [c]" "props t = props s"
    "active t = (if inT then insert c (active s) else active s)"
    "\<forall>d \<in> set (clauses s). clause_lits (cheap t d) = clause_lits (cheap s d) \<and>
        clause_datum (cheap t d) = clause_datum (cheap s d)"
  shows "grows s t"
proof -
  have "hard_formula s \<subseteq> hard_formula t"
  proof
    fix C
    assume "C \<in> hard_formula s"
    then obtain d where d: "d \<in> active s" "clause_datum (cheap s d) = None" "C = set (clause_lits (cheap s d))"
      by (auto simp: hard_formula_def)
    then show "C \<in> hard_formula t"
      unfolding hard_formula_def using assms active_clauses [OF d(1)] by (intro image_eqI [of _ _ d]) auto
  qed
  then show ?thesis using assms by (auto simp: grows_def)
qed

subsection \<open>Variables and assignments\<close>

definition assignment_ok :: "conflict_db \<Rightarrow> var_id \<Rightarrow> nat \<Rightarrow> bool" where
  "assignment_ok db v i \<longleftrightarrow> (let a = v_assignments (vheap db v) ! i in
     a < next_assignment db \<and> a_variable (aheap db a) = v \<and> a_index (aheap db a) = of_nat i \<and>
     (\<exists>c \<in> set (clauses (solver db)). a_clause (aheap db a) = Some c \<and>
        clause_lits (cheap (solver db) c) = [(propositions (vheap db v) ! i, True)] \<and>
        clause_datum (cheap (solver db) c) = Some a))"

text \<open>At least one value, and no two.\<close>

definition domain_clauses :: "prop_id list \<Rightarrow> cnf" where
  "domain_clauses ps = insert ((\<lambda>p. (p, True)) ` set ps)
     {{(ps ! i, False), (ps ! j, False)} | i j. i < j \<and> j < length ps}"

definition var_static :: "conflict_db \<Rightarrow> var_id \<Rightarrow> bool" where
  "var_static db v \<longleftrightarrow> v < next_var db \<and> distinct (propositions (vheap db v)) \<and>
     length (propositions (vheap db v)) < 128 \<and> set (propositions (vheap db v)) \<subseteq> set (props (solver db)) \<and>
     domain_clauses (propositions (vheap db v)) \<subseteq> hard_formula (solver db) \<and>
     length (v_assignments (vheap db v)) \<le> length (propositions (vheap db v)) \<and>
     (\<forall>i < length (v_assignments (vheap db v)). assignment_ok db v i)"

definition var_dynamic :: "conflict_db \<Rightarrow> var_id \<Rightarrow> bool" where
  "var_dynamic db v \<longleftrightarrow>
     set_option (v_current (vheap db v)) \<subseteq> set (v_assignments (vheap db v)) \<and>
     (\<forall>a. v_saved (vheap db v) = Some (Some a) \<longrightarrow> a \<in> set (v_assignments (vheap db v)))"

definition var_complete :: "conflict_db \<Rightarrow> var_id \<Rightarrow> bool" where
  "var_complete db v \<longleftrightarrow>
     v_assignments (vheap db v) \<noteq> [] \<longrightarrow> is_assignable (class_of (v_kind (vheap db v))) \<and>
       length (v_assignments (vheap db v)) = length (propositions (vheap db v)) \<and>
       (is_assumption (class_of (v_kind (vheap db v))) \<longrightarrow>
          default_assignment (vheap db v) = Some (hd (v_assignments (vheap db v))))"

definition valid_assignment :: "conflict_db \<Rightarrow> assignment_id \<Rightarrow> bool" where
  "valid_assignment db a \<longleftrightarrow> a_variable (aheap db a) \<in> set (variables db) \<and>
     a \<in> set (v_assignments (vheap db (a_variable (aheap db a))))"

text \<open>The clauses that assert an assignment; those in the theory assert the current one.\<close>

definition datums_ok :: "conflict_db \<Rightarrow> bool" where
  "datums_ok db \<longleftrightarrow> (\<forall>c \<in> set (clauses (solver db)). \<forall>a. clause_datum (cheap (solver db) c) = Some a \<longrightarrow>
     valid_assignment db a \<and> a_clause (aheap db a) = Some c \<and>
     (c \<in> active (solver db) \<longleftrightarrow> v_current (vheap db (a_variable (aheap db a))) = Some a))"

definition insert_pos_ok :: "conflict_db \<Rightarrow> bool" where
  "insert_pos_ok db \<longleftrightarrow> vit_eq (insert_pos db) (begin_variables db) \<or>
     (\<exists>xs p c ys. variables db = xs @ p # c # ys \<and> insert_pos db = \<lparr>it_current = Some c, it_previous = Some p\<rparr>)"

definition conflicts_ok :: "conflict_db \<Rightarrow> bool" where
  "conflicts_ok db \<longleftrightarrow> distinct (conflicts db) \<and> sorted (map (\<lambda>k. of_nat (length (conflict_assignments (kheap db k))) :: 32 word) (conflicts db)) \<and>
     (\<forall>k \<in> set (conflicts db). k < next_conflict db \<and>
        (\<forall>a \<in> set (conflict_assignments (kheap db k)). valid_assignment db a)) \<and>
     (\<forall>a. valid_assignment db a \<longrightarrow>
        set (a_conflicts (aheap db a)) = {k \<in> set (conflicts db). a \<in> set (conflict_assignments (kheap db k))} \<and>
        set (resolved_conflicts (aheap db a)) = {k \<in> set (conflicts db).
          \<exists>b \<in> set (conflict_assignments (kheap db k)). b \<noteq> a \<and> a_variable (aheap db b) = a_variable (aheap db a)})"

text \<open>The invariant; the variables in \<open>X\<close> are still being constructed.\<close>

definition cdb_inv :: "var_id set \<Rightarrow> conflict_db \<Rightarrow> bool" where
  "cdb_inv X db \<longleftrightarrow> reachable (solver db) \<and> distinct (variables db) \<and>
     (\<forall>v \<in> set (variables db). var_static db v \<and> var_dynamic db v \<and> (v \<notin> X \<longrightarrow> var_complete db v)) \<and>
     datums_ok db \<and> insert_pos_ok db \<and> conflicts_ok db \<and>
     (\<forall>v \<in> set (assumptions db). v \<in> set (variables db) \<and> is_assumption (class_of (v_kind (vheap db v))) \<and>
        v_assignments (vheap db v) \<noteq> []) \<and>
     set (assignables db) \<subseteq> set (variables db)"

abbreviation cdb_ok :: "conflict_db \<Rightarrow> bool" where
  "cdb_ok \<equiv> cdb_inv {}"

lemma cdb_invD:
  assumes "cdb_inv X db"
  shows "reachable (solver db)" "distinct (variables db)" "datums_ok db" "insert_pos_ok db" "conflicts_ok db"
    "v \<in> set (variables db) \<Longrightarrow> var_static db v" "v \<in> set (variables db) \<Longrightarrow> var_dynamic db v"
    "v \<in> set (variables db) \<Longrightarrow> v \<notin> X \<Longrightarrow> var_complete db v"
  using assms by (simp_all add: cdb_inv_def)


text \<open>What the invariant of one variable depends on.\<close>

lemma var_static_mono:
  assumes "var_static db v" "grows (solver db) (solver db')" "next_var db \<le> next_var db'"
    "next_assignment db \<le> next_assignment db'"
    "propositions (vheap db' v) = propositions (vheap db v)"
    "v_assignments (vheap db' v) = v_assignments (vheap db v)"
    "\<And>a. a \<in> set (v_assignments (vheap db v)) \<Longrightarrow> a_variable (aheap db' a) = a_variable (aheap db a) \<and>
       a_index (aheap db' a) = a_index (aheap db a) \<and> a_clause (aheap db' a) = a_clause (aheap db a)"
  shows "var_static db' v"
proof -
  have "assignment_ok db' v i" if i: "i < length (v_assignments (vheap db v))" for i
  proof -
    let ?a = "v_assignments (vheap db v) ! i"
    have mem: "?a \<in> set (v_assignments (vheap db v))" using i by simp
    have "assignment_ok db v i" using assms(1) i by (simp add: var_static_def)
    then obtain c where c: "c \<in> set (clauses (solver db))" "a_clause (aheap db ?a) = Some c"
        "clause_lits (cheap (solver db) c) = [(propositions (vheap db v) ! i, True)]"
        "clause_datum (cheap (solver db) c) = Some ?a"
      and a: "?a < next_assignment db" "a_variable (aheap db ?a) = v" "a_index (aheap db ?a) = of_nat i"
      by (auto simp: assignment_ok_def Let_def)
    have "c \<in> set (clauses (solver db'))" "clause_lits (cheap (solver db') c) = clause_lits (cheap (solver db) c)"
      "clause_datum (cheap (solver db') c) = clause_datum (cheap (solver db) c)"
      using c(1) assms(2) by (auto simp: grows_def)
    then show ?thesis
      using c a assms(4-6) assms(7) [OF mem] by (auto simp: assignment_ok_def Let_def)
  qed
  then show ?thesis using assms(1-6) by (auto simp: var_static_def grows_def)
qed

lemma var_dynamic_cong:
  "var_dynamic db v \<Longrightarrow> v_current (vheap db' v) = v_current (vheap db v) \<Longrightarrow>
   v_saved (vheap db' v) = v_saved (vheap db v) \<Longrightarrow>
   v_assignments (vheap db' v) = v_assignments (vheap db v) \<Longrightarrow> var_dynamic db' v"
  by (simp add: var_dynamic_def)

lemma var_complete_cong:
  "var_complete db v \<Longrightarrow> v_kind (vheap db' v) = v_kind (vheap db v) \<Longrightarrow>
   propositions (vheap db' v) = propositions (vheap db v) \<Longrightarrow>
   default_assignment (vheap db' v) = default_assignment (vheap db v) \<Longrightarrow>
   v_assignments (vheap db' v) = v_assignments (vheap db v) \<Longrightarrow> var_complete db' v"
  by (simp add: var_complete_def)

lemma assignment_of:
  assumes "var_static db v" "a \<in> set (v_assignments (vheap db v))"
  obtains c i where "i < length (v_assignments (vheap db v))" "a = v_assignments (vheap db v) ! i"
    "i < length (propositions (vheap db v))" "i < 128" "a < next_assignment db"
    "a_variable (aheap db a) = v" "a_index (aheap db a) = of_nat i" "c \<in> set (clauses (solver db))"
    "a_clause (aheap db a) = Some c"
    "clause_lits (cheap (solver db) c) = [(propositions (vheap db v) ! i, True)]"
    "clause_datum (cheap (solver db) c) = Some a"
proof -
  from assms(2) obtain i where i: "i < length (v_assignments (vheap db v))" "a = v_assignments (vheap db v) ! i"
    by (auto simp: in_set_conv_nth)
  then have "assignment_ok db v i" "i < length (propositions (vheap db v))" "i < 128"
    using assms(1) by (auto simp: var_static_def)
  then show ?thesis using that i by (auto simp: assignment_ok_def Let_def)
qed

lemma valid_assignmentI:
  "var_static db v \<Longrightarrow> v \<in> set (variables db) \<Longrightarrow> a \<in> set (v_assignments (vheap db v)) \<Longrightarrow> valid_assignment db a"
  by (erule assignment_of) (auto simp: valid_assignment_def)

lemma valid_assignment_less:
  "cdb_inv X db \<Longrightarrow> valid_assignment db a \<Longrightarrow> a < next_assignment db"
  using assignment_of [of db "a_variable (aheap db a)" a] cdb_invD(6) [of X db "a_variable (aheap db a)"]
  by (auto simp: valid_assignment_def)

text \<open>An operation that only changes which assignments are current.\<close>

definition wipe :: "variable_obj \<Rightarrow> variable_obj" where
  "wipe x = x\<lparr>v_current := None, v_saved := None, exogenouslyAssigned := False\<rparr>"

definition same_but_current :: "conflict_db \<Rightarrow> conflict_db \<Rightarrow> bool" where
  "same_but_current db db' \<longleftrightarrow> aheap db' = aheap db \<and> kheap db' = kheap db \<and> candheap db' = candheap db \<and>
     next_var db' = next_var db \<and> next_assignment db' = next_assignment db \<and>
     next_conflict db' = next_conflict db \<and> next_candidate db' = next_candidate db \<and>
     global_id db' = global_id db \<and> variables db' = variables db \<and> insert_pos db' = insert_pos db \<and>
     candidates db' = candidates db \<and> conflicts db' = conflicts db \<and> assumptions db' = assumptions db \<and>
     assignables db' = assignables db \<and> same_contents (solver db) (solver db') \<and>
     props (solver db') = props (solver db) \<and> clauses (solver db') = clauses (solver db) \<and>
     (\<forall>c. clause_datum (cheap (solver db) c) = None \<longrightarrow>
        (c \<in> active (solver db') \<longleftrightarrow> c \<in> active (solver db))) \<and>
     (\<forall>v. wipe (vheap db' v) = wipe (vheap db v))"

lemma same_but_current_refl [simp]: "same_but_current db db"
  by (simp add: same_but_current_def)

lemma same_but_current_trans:
  "same_but_current db db' \<Longrightarrow> same_but_current db' db'' \<Longrightarrow> same_but_current db db''"
  by (simp add: same_but_current_def same_contents_def)

lemma same_but_current_var:
  assumes "same_but_current db db'"
  shows "v_kind (vheap db' v) = v_kind (vheap db v)" "propositions (vheap db' v) = propositions (vheap db v)"
    "v_assignments (vheap db' v) = v_assignments (vheap db v)"
    "default_assignment (vheap db' v) = default_assignment (vheap db v)"
    "v_time_step (vheap db' v) = v_time_step (vheap db v)" "v_id (vheap db' v) = v_id (vheap db v)"
    "v_previous (vheap db' v) = v_previous (vheap db v)" "v_next (vheap db' v) = v_next (vheap db v)"
proof -
  have w: "wipe (vheap db' v) = wipe (vheap db v)" using assms by (simp add: same_but_current_def)
  show "v_kind (vheap db' v) = v_kind (vheap db v)" "propositions (vheap db' v) = propositions (vheap db v)"
    "v_assignments (vheap db' v) = v_assignments (vheap db v)"
    "default_assignment (vheap db' v) = default_assignment (vheap db v)"
    "v_time_step (vheap db' v) = v_time_step (vheap db v)" "v_id (vheap db' v) = v_id (vheap db v)"
    "v_previous (vheap db' v) = v_previous (vheap db v)" "v_next (vheap db' v) = v_next (vheap db v)"
    using arg_cong [OF w, of v_kind] arg_cong [OF w, of propositions] arg_cong [OF w, of v_assignments]
      arg_cong [OF w, of default_assignment] arg_cong [OF w, of v_time_step] arg_cong [OF w, of v_id]
      arg_cong [OF w, of v_previous] arg_cong [OF w, of v_next]
    by (simp_all add: wipe_def)
qed

lemma same_but_current_conflicts:
  assumes "same_but_current db db'"
  shows "conflicts_ok db' = conflicts_ok db" "valid_assignment db' a = valid_assignment db a"
proof -
  show "valid_assignment db' a = valid_assignment db a" for a
    using assms same_but_current_var(3) [OF assms] by (simp add: valid_assignment_def same_but_current_def)
  then show "conflicts_ok db' = conflicts_ok db"
    using assms by (simp add: conflicts_ok_def same_but_current_def)
qed

text \<open>The invariant after such an operation.\<close>

lemma same_but_current_inv:
  assumes inv: "cdb_inv X db" and same: "same_but_current db db'" and "reachable (solver db')"
    and dyn: "\<And>v. v \<in> set (variables db) \<Longrightarrow> var_dynamic db' v"
    and cur: "\<And>c a. c \<in> set (clauses (solver db)) \<Longrightarrow> clause_datum (cheap (solver db) c) = Some a \<Longrightarrow>
      (c \<in> active (solver db') \<longleftrightarrow> v_current (vheap db' (a_variable (aheap db a))) = Some a)"
  shows "cdb_inv X db'"
proof -
  note v = same_but_current_var [OF same]
  have f: "aheap db' = aheap db" "variables db' = variables db" "insert_pos db' = insert_pos db"
    "assumptions db' = assumptions db" "assignables db' = assignables db" "next_var db' = next_var db"
    "next_assignment db' = next_assignment db" "same_contents (solver db) (solver db')"
    "props (solver db') = props (solver db)" "clauses (solver db') = clauses (solver db)"
    and "hard_formula (solver db') = hard_formula (solver db)"
    using same hard_formula_same [of "solver db" "solver db'"] by (simp_all add: same_but_current_def)
  then have "grows (solver db) (solver db')"
    by (simp add: grows_def same_contentsD [OF f(8)])
  then have "var_static db' u" if "u \<in> set (variables db)" for u
    using cdb_invD(6) [OF inv that] f v by (intro var_static_mono [of db u db']) auto
  moreover have "var_complete db' u" if "u \<in> set (variables db)" "u \<notin> X" for u
    by (rule var_complete_cong [OF cdb_invD(8) [OF inv that] v(1,2,4,3)])
  moreover have "datums_ok db'"
    using cdb_invD(3) [OF inv] cur
    unfolding datums_ok_def f same_contentsD [OF f(8)] same_but_current_conflicts(2) [OF same] by blast
  moreover have "insert_pos_ok db'"
    using cdb_invD(4) [OF inv] by (simp add: insert_pos_ok_def begin_variables_def f)
  ultimately show ?thesis
    using inv assms(3) dyn same_but_current_conflicts(1) [OF same] f v by (auto simp: cdb_inv_def)
qed

end
