(* ===== verification/Cdb_Assign.thy ===== *)
theory Cdb_Assign
  imports Cdb_Inv
begin

text \<open>
  Assigning and unassigning keep the invariant and change nothing but what is current: each
  operation of \<open>Assignable\<close>, \<open>Observable\<close>, \<open>Assumption\<close> and \<open>Assignment\<close> that changes a value, and the
  loops \<open>restore_assumption_defaults\<close>, \<open>save\<close> and \<open>restore\<close> over all variables.
\<close>

definition clause_of :: "conflict_db \<Rightarrow> assignment_id option \<Rightarrow> clause_id set" where
  "clause_of db a = {c. \<exists>b. a = Some b \<and> a_clause (aheap db b) = Some c}"

text \<open>Only the solver changed, and in it only which clauses are in the theory.\<close>

definition solver_now :: "conflict_db \<Rightarrow> clause_id set \<Rightarrow> conflict_db \<Rightarrow> bool" where
  "solver_now db A db' \<longleftrightarrow> (\<exists>s. db' = db\<lparr>solver := s\<rparr> \<and> reachable s \<and> active s = A \<and>
     same_contents (solver db) s \<and> props s = props (solver db) \<and> clauses s = clauses (solver db))"

lemma clause_op_ok:
  assumes "reachable (solver db)"
    and "\<And>b. a = Some b \<Longrightarrow> \<exists>c \<in> set (clauses (solver db)). a_clause (aheap db b) = Some c"
  shows "returns (clause_op ltms_remove a db) (solver_now db (active (solver db) - clause_of db a))"
    and "returns (clause_op ltms_add a db) (solver_now db (active (solver db) \<union> clause_of db a))"
proof -
  have "returns (clause_op ltms_remove a db) (solver_now db (active (solver db) - clause_of db a)) \<and>
        returns (clause_op ltms_add a db) (solver_now db (active (solver db) \<union> clause_of db a))"
  proof (cases a)
    case None
    then show ?thesis using assms(1)
      by (auto simp: clause_op_def solver_now_def clause_of_def intro!: exI [of _ "solver db"])
  next
    case (Some b)
    then obtain c where c: "c \<in> set (clauses (solver db))" "a_clause (aheap db b) = Some c"
      using assms(2) by blast
    then have "clause_of db a = {c}" using Some by (auto simp: clause_of_def)
    then show ?thesis
      using Some c solver_remove [OF assms(1) c(1)] solver_add [OF assms(1) c(1)]
      by (auto simp: clause_op_def solver_now_def elim!: returns_mono)
  qed
  then show "returns (clause_op ltms_remove a db) (solver_now db (active (solver db) - clause_of db a))"
    and "returns (clause_op ltms_add a db) (solver_now db (active (solver db) \<union> clause_of db a))" by blast+
qed

text \<open>The clause of an assignment asserts that assignment and no other.\<close>

lemma datums_okD:
  assumes "datums_ok db" "c \<in> set (clauses (solver db))" "clause_datum (cheap (solver db) c) = Some a"
  shows "valid_assignment db a" "a_clause (aheap db a) = Some c"
    "c \<in> active (solver db) \<longleftrightarrow> v_current (vheap db (a_variable (aheap db a))) = Some a"
  using assms unfolding datums_ok_def by blast+

lemma clause_of_datum:
  assumes "cdb_inv X db" "v \<in> set (variables db)" "set_option a \<subseteq> set (v_assignments (vheap db v))"
  shows "c \<in> clause_of db a \<longleftrightarrow> c \<in> set (clauses (solver db)) \<and> a \<noteq> None \<and> clause_datum (cheap (solver db) c) = a"
    and "\<And>b. a = Some b \<Longrightarrow> \<exists>c \<in> set (clauses (solver db)). a_clause (aheap db b) = Some c"
    and "\<And>b. a = Some b \<Longrightarrow> a_variable (aheap db b) = v"
proof -
  have *: "(\<exists>c \<in> set (clauses (solver db)). a_clause (aheap db b) = Some c \<and> clause_datum (cheap (solver db) c) = Some b) \<and>
      a_variable (aheap db b) = v" if "a = Some b" for b
    using assignment_of [OF cdb_invD(6) [OF assms(1,2)], of b] assms(3) that by auto
  then show "\<And>b. a = Some b \<Longrightarrow> \<exists>c \<in> set (clauses (solver db)). a_clause (aheap db b) = Some c"
    and "\<And>b. a = Some b \<Longrightarrow> a_variable (aheap db b) = v" by blast+
  show "c \<in> clause_of db a \<longleftrightarrow> c \<in> set (clauses (solver db)) \<and> a \<noteq> None \<and> clause_datum (cheap (solver db) c) = a"
  proof (cases a)
    case (Some b)
    from * [OF Some] obtain d where d: "d \<in> set (clauses (solver db))" "a_clause (aheap db b) = Some d"
      "clause_datum (cheap (solver db) d) = Some b" by blast
    then have "c \<in> clause_of db a \<longleftrightarrow> c = d" using Some by (auto simp: clause_of_def)
    moreover have "c = d" if "c \<in> set (clauses (solver db))" "clause_datum (cheap (solver db) c) = Some b"
      using datums_okD(2) [OF cdb_invD(3) [OF assms(1)] that] d(2) by simp
    ultimately show ?thesis using d Some by blast
  qed (simp add: clause_of_def)
qed

definition assigned_to :: "var_id \<Rightarrow> assignment_id option \<Rightarrow> conflict_db \<Rightarrow> conflict_db \<Rightarrow> bool" where
  "assigned_to v a db db' \<longleftrightarrow> same_but_current db db' \<and>
     vheap db' = (vheap db)(v := (vheap db v)\<lparr>v_current := a\<rparr>)"

lemma assigned_toI:
  assumes inv: "cdb_inv X db" and v: "v \<in> set (variables db)"
    and a: "set_option a \<subseteq> set (v_assignments (vheap db v))"
    and db': "db' = db\<lparr>vheap := (vheap db)(v := (vheap db v)\<lparr>v_current := a\<rparr>), solver := s\<rparr>"
    and s: "reachable s" "same_contents (solver db) s" "props s = props (solver db)" "clauses s = clauses (solver db)"
      "active s = (active (solver db) - clause_of db (v_current (vheap db v))) \<union> clause_of db a"
  shows "cdb_inv X db' \<and> assigned_to v a db db'"
proof -
  note cur = clause_of_datum [OF inv v] cdb_invD(7) [OF inv v]
  have c: "set_option (v_current (vheap db v)) \<subseteq> set (v_assignments (vheap db v))"
    using cur(4) by (simp add: var_dynamic_def)
  have new: "c \<in> active s \<longleftrightarrow> c \<in> active (solver db) \<and> clause_datum (cheap (solver db) c) \<noteq> v_current (vheap db v) \<or>
      c \<in> set (clauses (solver db)) \<and> clause_datum (cheap (solver db) c) = a"
    if "clause_datum (cheap (solver db) c) \<noteq> None" for c
    unfolding s(5) Un_iff Diff_iff cur(1) [OF a] cur(1) [OF c] using that active_clauses by metis
  have hard: "c \<in> active s \<longleftrightarrow> c \<in> active (solver db)" if "clause_datum (cheap (solver db) c) = None" for c
    unfolding s(5) Un_iff Diff_iff cur(1) [OF a] cur(1) [OF c] using that by metis
  have same: "same_but_current db db'"
    using hard s(2-4) by (simp add: same_but_current_def db' wipe_def)
  moreover have "cdb_inv X db'"
  proof (rule same_but_current_inv [OF inv same])
    show "reachable (solver db')" using s(1) by (simp add: db')
    show "var_dynamic db' u" if "u \<in> set (variables db)" for u
      using cdb_invD(7) [OF inv that] a by (auto simp: var_dynamic_def db')
    show "c \<in> active (solver db') \<longleftrightarrow> v_current (vheap db' (a_variable (aheap db b))) = Some b"
      if b: "c \<in> set (clauses (solver db))" "clause_datum (cheap (solver db) c) = Some b" for c b
    proof (cases "a_variable (aheap db b) = v")
      case True
      then show ?thesis
        using datums_okD(3) [OF cdb_invD(3) [OF inv] b] new [of c] b by (simp add: db') metis
    next
      case False
      then have "a \<noteq> Some b" "v_current (vheap db v) \<noteq> Some b" using cur(3) [OF a, of b] cur(3) [OF c, of b] by auto
      then show ?thesis
        using False datums_okD(3) [OF cdb_invD(3) [OF inv] b] new [of c] b by (simp add: db')
    qed
  qed
  ultimately show ?thesis by (simp add: assigned_to_def db')
qed

lemma assign_var_ok:
  assumes inv: "cdb_inv X db" and v: "v \<in> set (variables db)"
    and a: "set_option a \<subseteq> set (v_assignments (vheap db v))"
  shows "returns (assign_var v a db) (\<lambda>db'. cdb_inv X db' \<and> assigned_to v a db db')"
proof (cases "v_current (vheap db v) = a")
  case True
  then have "vheap db = (vheap db)(v := (vheap db v)\<lparr>v_current := a\<rparr>)" by (auto simp: fun_eq_iff)
  then show ?thesis using True inv by (simp add: assign_var_def assigned_to_def)
next
  case False
  let ?cur = "v_current (vheap db v)"
  have c: "set_option ?cur \<subseteq> set (v_assignments (vheap db v))"
    using cdb_invD(7) [OF inv v] by (simp add: var_dynamic_def)
  obtain s1 where db1: "clause_op ltms_remove ?cur db = Inr (db\<lparr>solver := s1\<rparr>)"
      and s1: "reachable s1" "active s1 = active (solver db) - clause_of db ?cur" "same_contents (solver db) s1"
        "props s1 = props (solver db)" "clauses s1 = clauses (solver db)"
    using clause_op_ok(1) [OF cdb_invD(1) [OF inv] clause_of_datum(2) [OF inv v c]]
    by (auto simp: returns_iff solver_now_def)
  let ?db1 = "upd_var v (\<lambda>x. x\<lparr>v_current := a\<rparr>) (db\<lparr>solver := s1\<rparr>)"
  have "returns (clause_op ltms_add a ?db1) (solver_now ?db1 (active (solver ?db1) \<union> clause_of ?db1 a))"
  proof (rule clause_op_ok(2))
    show "reachable (solver ?db1)" using s1 by simp
    fix b
    assume "a = Some b"
    then show "\<exists>c\<in>set (clauses (solver ?db1)). a_clause (aheap ?db1 b) = Some c"
      using clause_of_datum(2) [OF inv v a] s1 by simp
  qed
  then obtain s2 where db2: "clause_op ltms_add a ?db1 = Inr (?db1\<lparr>solver := s2\<rparr>)"
      and s2: "reachable s2" "active s2 = active s1 \<union> clause_of ?db1 a" "same_contents s1 s2"
        "props s2 = props s1" "clauses s2 = clauses s1"
    by (auto simp: returns_iff solver_now_def)
  have "clause_of ?db1 a = clause_of db a" by (simp add: clause_of_def)
  then have "cdb_inv X (?db1\<lparr>solver := s2\<rparr>) \<and> assigned_to v a db (?db1\<lparr>solver := s2\<rparr>)"
    using s1 s2 by (intro assigned_toI [OF inv v a, of _ s2]) (simp_all add: upd_var_def same_contents_def)
  then show ?thesis using False db1 db2 by (simp add: assign_var_def)
qed

lemma unassign_var_ok:
  assumes inv: "cdb_inv X db" and v: "v \<in> set (variables db)"
  shows "returns (unassign_var v db) (\<lambda>db'. cdb_inv X db' \<and> assigned_to v None db db')"
proof -
  have "unassign_var v db = assign_var v None db"
  proof -
    have "clause_op f None = Inr" for f by (simp add: clause_op_def fun_eq_iff)
    then show ?thesis by (simp add: unassign_var_def assign_var_def)
  qed
  then show ?thesis using assign_var_ok [OF inv v, of None] by simp
qed


lemma assigned_toD:
  assumes "assigned_to v a db db'"
  shows "same_but_current db db'" "v_current (vheap db' u) = (if u = v then a else v_current (vheap db u))"
    "v_saved (vheap db' u) = v_saved (vheap db u)" "v_assignments (vheap db' u) = v_assignments (vheap db u)"
    "exogenouslyAssigned (vheap db' u) = exogenouslyAssigned (vheap db u)" "variables db' = variables db"
    "aheap db' = aheap db" "assumptions db' = assumptions db"
proof -
  show same: "same_but_current db db'" using assms by (simp add: assigned_to_def)
  show "v_current (vheap db' u) = (if u = v then a else v_current (vheap db u))"
    "v_saved (vheap db' u) = v_saved (vheap db u)" "v_assignments (vheap db' u) = v_assignments (vheap db u)"
    "exogenouslyAssigned (vheap db' u) = exogenouslyAssigned (vheap db u)"
    using assms by (simp_all add: assigned_to_def)
  show "variables db' = variables db" "aheap db' = aheap db" "assumptions db' = assumptions db"
    using same by (simp_all add: same_but_current_def)
qed

lemma get_assignment_None: "get_assignment db v i = None \<longleftrightarrow> \<not> unat i < length (v_assignments (vheap db v))"
  by (simp add: get_assignment_def Let_def)

lemma assign_index_ok:
  assumes "cdb_inv X db" "v \<in> set (variables db)"
  shows "unat i < length (v_assignments (vheap db v)) \<Longrightarrow>
      returns (assign_index v i db) (\<lambda>db'. cdb_inv X db' \<and>
        assigned_to v (Some (v_assignments (vheap db v) ! unat i)) db db')"
    and "\<not> unat i < length (v_assignments (vheap db v)) \<Longrightarrow> assign_index v i db = Inl L2_bounds_error"
proof -
  show "\<not> unat i < length (v_assignments (vheap db v)) \<Longrightarrow> assign_index v i db = Inl L2_bounds_error"
    by (simp add: assign_index_def get_assignment_None l2_assert_def)
  assume i: "unat i < length (v_assignments (vheap db v))"
  then have "get_assignment db v i = Some (v_assignments (vheap db v) ! unat i)"
    by (simp add: get_assignment_def)
  then show "returns (assign_index v i db) (\<lambda>db'. cdb_inv X db' \<and>
      assigned_to v (Some (v_assignments (vheap db v) ! unat i)) db db')"
    using i assign_var_ok [OF assms, of "Some (v_assignments (vheap db v) ! unat i)"]
    by (simp add: assign_index_def)
qed

text \<open>Fields outside the invariant.\<close>

lemma exogenous_inv:
  assumes "cdb_inv X db"
  shows "cdb_inv X (upd_var v (\<lambda>x. x\<lparr>exogenouslyAssigned := b\<rparr>) db)"
    and "same_but_current db (upd_var v (\<lambda>x. x\<lparr>exogenouslyAssigned := b\<rparr>) db)"
proof -
  let ?db = "upd_var v (\<lambda>x. x\<lparr>exogenouslyAssigned := b\<rparr>) db"
  show same: "same_but_current db ?db" by (simp add: same_but_current_def wipe_def)
  show "cdb_inv X ?db"
  proof (rule same_but_current_inv [OF assms same])
    show "reachable (solver ?db)" using cdb_invD(1) [OF assms] by simp
    show "var_dynamic ?db u" if "u \<in> set (variables db)" for u
      by (rule var_dynamic_cong [OF cdb_invD(7) [OF assms that]]) simp_all
    show "c \<in> active (solver ?db) \<longleftrightarrow> v_current (vheap ?db (a_variable (aheap db a))) = Some a"
      if "c \<in> set (clauses (solver db))" "clause_datum (cheap (solver db) c) = Some a" for c a
      using datums_okD(3) [OF cdb_invD(3) [OF assms] that] by simp
  qed
qed

lemma observe_aux:
  assumes "returns m (\<lambda>db'. cdb_inv X db' \<and> assigned_to v a db db')"
  shows "returns (rbind m (\<lambda>db1. Inr (upd_var v (\<lambda>x. x\<lparr>exogenouslyAssigned := b\<rparr>) db1)))
    (\<lambda>db'. cdb_inv X db' \<and> same_but_current db db' \<and> v_current (vheap db' v) = a \<and>
      exogenouslyAssigned (vheap db' v) = b)"
proof -
  obtain db1 where m: "m = Inr db1" and db1: "cdb_inv X db1" "assigned_to v a db db1"
    using assms by (auto simp: returns_iff)
  note d = assigned_toD [OF db1(2)]
  show ?thesis
    using exogenous_inv [OF db1(1), of v b] d(2) [of v] same_but_current_trans [OF d(1)] by (simp add: m)
qed

lemma observe_ok:
  assumes "cdb_inv X db" "v \<in> set (variables db)"
  shows "i < 0 \<Longrightarrow> returns (observe v i db) (\<lambda>db'. cdb_inv X db' \<and> same_but_current db db' \<and>
      v_current (vheap db' v) = None \<and> \<not> exogenouslyAssigned (vheap db' v))"
    and "0 \<le> i \<Longrightarrow> nat i < length (v_assignments (vheap db v)) \<Longrightarrow>
      returns (observe v i db) (\<lambda>db'. cdb_inv X db' \<and> same_but_current db db' \<and>
        v_current (vheap db' v) = Some (v_assignments (vheap db v) ! nat i) \<and> exogenouslyAssigned (vheap db' v))"
proof -
  assume "i < 0"
  then show "returns (observe v i db) (\<lambda>db'. cdb_inv X db' \<and> same_but_current db db' \<and>
      v_current (vheap db' v) = None \<and> \<not> exogenouslyAssigned (vheap db' v))"
    using observe_aux [OF unassign_var_ok [OF assms], of False] by (simp add: observe_def)
next
  assume i: "0 \<le> i" "nat i < length (v_assignments (vheap db v))"
  have "length (v_assignments (vheap db v)) < 128"
    using cdb_invD(6) [OF assms] by (simp add: var_static_def)
  then have u: "unat (word_of_int i :: 32 word) = nat i"
    using i by (simp add: unat_eq_nat_uint uint_word_of_int_eq take_bit_int_eq_self)
  have "returns (assign_index v (word_of_int i) db) (\<lambda>db'. cdb_inv X db' \<and>
      assigned_to v (Some (v_assignments (vheap db v) ! nat i)) db db')"
    using assign_index_ok(1) [OF assms, of "word_of_int i"] i u by simp
  from observe_aux [OF this, of True] i
  show "returns (observe v i db) (\<lambda>db'. cdb_inv X db' \<and> same_but_current db db' \<and>
        v_current (vheap db' v) = Some (v_assignments (vheap db v) ! nat i) \<and> exogenouslyAssigned (vheap db' v))"
    by (simp add: observe_def)
qed

lemma assignment_assign_ok:
  assumes "cdb_inv X db" "valid_assignment db a"
  shows "returns (assignment_assign a db) (\<lambda>db'. cdb_inv X db' \<and>
    assigned_to (a_variable (aheap db a)) (Some a) db db')"
  unfolding assignment_assign_def
  by (rule assign_var_ok [OF assms(1)]) (use assms(2) in \<open>simp_all add: valid_assignment_def\<close>)

subsection \<open>Loops\<close>

lemma loop_ok:
  assumes "cdb_inv X db"
    and "\<And>x db'. x \<in> set xs \<Longrightarrow> cdb_inv X db' \<Longrightarrow> same_but_current db db' \<Longrightarrow>
      returns (f x db') (\<lambda>db''. cdb_inv X db'' \<and> same_but_current db' db'')"
  shows "returns (rfold f xs db) (\<lambda>db'. cdb_inv X db' \<and> same_but_current db db')"
proof (rule rfold_rule)
  show "cdb_inv X db \<and> same_but_current db db" using assms(1) by simp
  fix as x bs db'
  assume "xs = as @ x # bs" "cdb_inv X db' \<and> same_but_current db db'"
  then show "returns (f x db') (\<lambda>db''. cdb_inv X db'' \<and> same_but_current db db'')"
    using assms(2) [of x db'] by (auto elim!: returns_mono intro: same_but_current_trans)
qed


text \<open>
  A loop that assigns: afterwards a variable has the last value it was given, or the one it had.
\<close>

definition assign_all :: "('x \<Rightarrow> var_id) \<Rightarrow> ('x \<Rightarrow> assignment_id option) \<Rightarrow> 'x list \<Rightarrow>
    (var_id \<Rightarrow> assignment_id option) \<Rightarrow> var_id \<Rightarrow> assignment_id option" where
  "assign_all tgt val xs g = fold (\<lambda>x g. g(tgt x := val x)) xs g"

lemma assign_all_snoc: "assign_all tgt val (xs @ [x]) g = (assign_all tgt val xs g)(tgt x := val x)"
  by (simp add: assign_all_def)

lemma assign_all_last:
  "assign_all tgt val xs g u =
     (case find (\<lambda>x. tgt x = u) (rev xs) of None \<Rightarrow> g u | Some x \<Rightarrow> val x)"
  by (induction xs rule: rev_induct) (auto simp: assign_all_snoc, simp add: assign_all_def)

lemma assign_loop_ok:
  assumes inv: "cdb_inv X db"
    and step: "\<And>x db'. x \<in> set xs \<Longrightarrow> P x \<Longrightarrow> cdb_inv X db' \<Longrightarrow> same_but_current db db' \<Longrightarrow>
      (\<And>u. v_saved (vheap db' u) = v_saved (vheap db u)) \<Longrightarrow>
      returns (f x db') (\<lambda>db''. cdb_inv X db'' \<and> assigned_to (tgt x) (val x) db' db'')"
    and skip: "\<And>x db'. x \<in> set xs \<Longrightarrow> \<not> P x \<Longrightarrow> same_but_current db db' \<Longrightarrow> f x db' = Inr db'"
  shows "returns (rfold f xs db) (\<lambda>db'. cdb_inv X db' \<and> same_but_current db db' \<and>
    (\<forall>u. v_saved (vheap db' u) = v_saved (vheap db u)) \<and>
    (\<forall>u. v_current (vheap db' u) = assign_all tgt val (filter P xs) (\<lambda>u. v_current (vheap db u)) u))"
    (is "returns _ (?I xs)")
proof (rule rfold_rule [where I = ?I])
  show "?I [] db" using inv by (simp add: assign_all_def)
  fix as x bs db'
  assume xs: "xs = as @ x # bs" and I: "?I as db'"
  then have x: "x \<in> set xs" by simp
  show "returns (f x db') (?I (as @ [x]))"
  proof (cases "P x")
    case True
    have "returns (f x db') (\<lambda>db''. cdb_inv X db'' \<and> assigned_to (tgt x) (val x) db' db'')"
      by (rule step [OF x True]) (use I in simp_all)
    then show ?thesis
    proof (rule returns_mono)
      fix db''
      assume a: "cdb_inv X db'' \<and> assigned_to (tgt x) (val x) db' db''"
      then have d: "assigned_to (tgt x) (val x) db' db''" by simp
      have "same_but_current db db''" using I same_but_current_trans [OF _ assigned_toD(1) [OF d]] by simp
      then show "?I (as @ [x]) db''"
        using a I True assigned_toD(2,3) [OF d] by (simp add: assign_all_snoc)
    qed
  next
    case False
    then show ?thesis using skip [OF x False] I by simp
  qed
qed

lemma restore_assumption_defaults_ok:
  assumes "cdb_inv X db" "set (assumptions db) \<inter> X = {}"
  shows "returns (restore_assumption_defaults db) (\<lambda>db'. cdb_inv X db' \<and> same_but_current db db' \<and>
    (\<forall>u. v_saved (vheap db' u) = v_saved (vheap db u)) \<and>
    (\<forall>u. v_current (vheap db' u) = (if u \<in> set (assumptions db) then default_assignment (vheap db u)
       else v_current (vheap db u))))"
proof -
  have "returns (restore_assumption_defaults db) (\<lambda>db'. cdb_inv X db' \<and> same_but_current db db' \<and>
    (\<forall>u. v_saved (vheap db' u) = v_saved (vheap db u)) \<and>
    (\<forall>u. v_current (vheap db' u) = assign_all (\<lambda>v. v) (\<lambda>v. default_assignment (vheap db v))
       (filter (\<lambda>_. True) (assumptions db)) (\<lambda>u. v_current (vheap db u)) u))"
    unfolding restore_assumption_defaults_def
  proof (rule assign_loop_ok [OF assms(1)])
    fix v db'
    assume v: "v \<in> set (assumptions db)" and inv: "cdb_inv X db'" and same: "same_but_current db db'"
    have 1: "v \<in> set (variables db)" "is_assumption (class_of (v_kind (vheap db v)))"
      "v_assignments (vheap db v) \<noteq> []" using assms(1) v by (auto simp: cdb_inv_def)
    then have "default_assignment (vheap db v) = Some (hd (v_assignments (vheap db v)))"
      using cdb_invD(8) [OF assms(1), of v] assms(2) v by (auto simp: var_complete_def)
    then show "returns (restore_default v db') (\<lambda>db''. cdb_inv X db'' \<and>
        assigned_to v (default_assignment (vheap db v)) db' db'')"
      using assign_var_ok [OF inv, of v "default_assignment (vheap db v)"] 1 same same_but_current_var [OF same]
      by (simp add: restore_default_def same_but_current_def)
  qed simp
  then show ?thesis
  proof (rule returns_mono)
    fix db'
    have "assign_all (\<lambda>v. v) val vs g u = (if u \<in> set vs then val u else g u)" for val vs g u
      by (induction vs rule: rev_induct) (auto simp: assign_all_snoc, simp_all add: assign_all_def)
    then show "cdb_inv X db' \<and> same_but_current db db' \<and> (\<forall>u. v_saved (vheap db' u) = v_saved (vheap db u)) \<and>
      (\<forall>u. v_current (vheap db' u) = assign_all (\<lambda>v. v) (\<lambda>v. default_assignment (vheap db v))
         (filter (\<lambda>_. True) (assumptions db)) (\<lambda>u. v_current (vheap db u)) u) \<Longrightarrow>
      cdb_inv X db' \<and> same_but_current db db' \<and> (\<forall>u. v_saved (vheap db' u) = v_saved (vheap db u)) \<and>
      (\<forall>u. v_current (vheap db' u) =
        (if u \<in> set (assumptions db) then default_assignment (vheap db u) else v_current (vheap db u)))"
      by simp
  qed
qed


lemma assignments_loop_ok:
  assumes "cdb_inv X db" "\<And>a. a \<in> set as \<Longrightarrow> valid_assignment db a"
  shows "returns (rfold assignment_assign as db) (\<lambda>db'. cdb_inv X db' \<and> same_but_current db db' \<and>
    (\<forall>u. v_saved (vheap db' u) = v_saved (vheap db u)) \<and>
    (\<forall>u. v_current (vheap db' u) = assign_all (\<lambda>a. a_variable (aheap db a)) Some as
       (\<lambda>u. v_current (vheap db u)) u))"
proof -
  have "returns (rfold assignment_assign as db) (\<lambda>db'. cdb_inv X db' \<and> same_but_current db db' \<and>
    (\<forall>u. v_saved (vheap db' u) = v_saved (vheap db u)) \<and>
    (\<forall>u. v_current (vheap db' u) = assign_all (\<lambda>a. a_variable (aheap db a)) Some (filter (\<lambda>_. True) as)
       (\<lambda>u. v_current (vheap db u)) u))"
  proof (rule assign_loop_ok [OF assms(1)])
    fix a db'
    assume a: "a \<in> set as" and inv: "cdb_inv X db'" and same: "same_but_current db db'"
    have "valid_assignment db' a" "aheap db' = aheap db"
      using assms(2) [OF a] same_but_current_conflicts(2) [OF same] same by (simp_all add: same_but_current_def)
    then show "returns (assignment_assign a db') (\<lambda>db''. cdb_inv X db'' \<and>
        assigned_to (a_variable (aheap db a)) (Some a) db' db'')"
      using assignment_assign_ok [OF inv, of a] by simp
  qed simp
  then show ?thesis by simp
qed

subsection \<open>Saving and restoring\<close>

lemma save_var_ok:
  assumes "cdb_inv X db"
  shows "cdb_inv X (save_var v db)" "same_but_current db (save_var v db)"
proof -
  show same: "same_but_current db (save_var v db)"
    by (simp add: save_var_def same_but_current_def wipe_def)
  show "cdb_inv X (save_var v db)"
  proof (rule same_but_current_inv [OF assms same])
    show "reachable (solver (save_var v db))" using cdb_invD(1) [OF assms] by (simp add: save_var_def)
    show "var_dynamic (save_var v db) u" if "u \<in> set (variables db)" for u
      using cdb_invD(7) [OF assms that] by (auto simp: save_var_def var_dynamic_def)
    show "c \<in> active (solver (save_var v db)) \<longleftrightarrow>
        v_current (vheap (save_var v db) (a_variable (aheap db a))) = Some a"
      if "c \<in> set (clauses (solver db))" "clause_datum (cheap (solver db) c) = Some a" for c a
      using datums_okD(3) [OF cdb_invD(3) [OF assms] that] by (simp add: save_var_def)
  qed
qed

lemma save_loop_ok:
  "cdb_inv X db \<Longrightarrow> cdb_inv X (fold save_var vs db) \<and> same_but_current db (fold save_var vs db) \<and>
   (\<forall>u. v_current (vheap (fold save_var vs db) u) = v_current (vheap db u)) \<and>
   (\<forall>u. v_saved (vheap (fold save_var vs db) u) =
      (if u \<in> set vs \<and> is_assignable (class_of (v_kind (vheap db u))) then Some (v_current (vheap db u))
       else v_saved (vheap db u)))"
proof (induction vs rule: rev_induct)
  case (snoc v vs)
  let ?db = "fold save_var vs db"
  have ih: "cdb_inv X ?db" "same_but_current db ?db"
    "\<And>u. v_current (vheap ?db u) = v_current (vheap db u)"
    "\<And>u. v_saved (vheap ?db u) = (if u \<in> set vs \<and> is_assignable (class_of (v_kind (vheap db u)))
       then Some (v_current (vheap db u)) else v_saved (vheap db u))"
    using snoc by blast+
  note k = same_but_current_var(1) [OF ih(2)]
  have "same_but_current db (save_var v ?db)"
    using same_but_current_trans [OF ih(2) save_var_ok(2) [OF ih(1)]] .
  moreover have "v_current (vheap (save_var v ?db) u) = v_current (vheap db u)" for u
    by (simp add: save_var_def ih(3))
  moreover have "v_saved (vheap (save_var v ?db) u) =
      (if u \<in> set (vs @ [v]) \<and> is_assignable (class_of (v_kind (vheap db u))) then Some (v_current (vheap db u))
       else v_saved (vheap db u))" for u
    by (simp add: save_var_def ih(3,4) k)
  ultimately show ?case using save_var_ok(1) [OF ih(1)] by simp
qed simp

text \<open>A variable that is not assignable has no assignment.\<close>

lemma not_assignable:
  assumes "cdb_ok db" "v \<in> set (variables db)" "\<not> is_assignable (class_of (v_kind (vheap db v)))"
  shows "v_assignments (vheap db v) = []" "v_current (vheap db v) = None"
proof -
  show "v_assignments (vheap db v) = []"
    using cdb_invD(8) [OF assms(1,2)] assms(3) by (auto simp: var_complete_def)
  then show "v_current (vheap db v) = None"
    using cdb_invD(7) [OF assms(1,2)] by (simp add: var_dynamic_def)
qed

lemma restore_all_ok:
  assumes ok: "cdb_ok db" and saved: "\<And>v. v \<in> set (variables db) \<Longrightarrow>
      is_assignable (class_of (v_kind (vheap db v))) \<Longrightarrow> v_saved (vheap db v) = Some (val v)"
  shows "returns (restore_all db) (\<lambda>db'. cdb_ok db' \<and> same_but_current db db' \<and>
    (\<forall>u \<in> set (variables db). v_current (vheap db' u) =
      (if is_assignable (class_of (v_kind (vheap db u))) then val u else None)))"
proof -
  let ?P = "\<lambda>v. is_assignable (class_of (v_kind (vheap db v)))"
  have "returns (restore_all db) (\<lambda>db'. cdb_ok db' \<and> same_but_current db db' \<and>
    (\<forall>u. v_saved (vheap db' u) = v_saved (vheap db u)) \<and>
    (\<forall>u. v_current (vheap db' u) = assign_all (\<lambda>v. v) val (filter ?P (variables db))
       (\<lambda>u. v_current (vheap db u)) u))"
    unfolding restore_all_def
  proof (rule assign_loop_ok [OF ok])
    fix v db'
    assume v: "v \<in> set (variables db)" "?P v" and inv: "cdb_ok db'" and same: "same_but_current db db'"
      and sv: "\<And>u. v_saved (vheap db' u) = v_saved (vheap db u)"
    have "set_option (val v) \<subseteq> set (v_assignments (vheap db v))"
      using cdb_invD(7) [OF ok v(1)] saved [OF v] by (cases "val v") (simp_all add: var_dynamic_def)
    then show "returns (restore_var v db') (\<lambda>db''. cdb_ok db'' \<and> assigned_to v (val v) db' db'')"
      using assign_var_ok [OF inv, of v "val v"] v same same_but_current_var [OF same] sv saved [OF v]
      by (simp add: restore_var_def same_but_current_def)
  next
    fix v db'
    assume "\<not> ?P v" "same_but_current db db'"
    then show "restore_var v db' = Inr db'" using same_but_current_var(1) by (simp add: restore_var_def)
  qed
  then show ?thesis
  proof (rule returns_mono)
    fix db'
    have last: "assign_all (\<lambda>v. v) val vs g u = (if u \<in> set vs then val u else g u)" for vs g u
      by (induction vs rule: rev_induct) (auto simp: assign_all_snoc, simp_all add: assign_all_def)
    assume "cdb_ok db' \<and> same_but_current db db' \<and> (\<forall>u. v_saved (vheap db' u) = v_saved (vheap db u)) \<and>
      (\<forall>u. v_current (vheap db' u) = assign_all (\<lambda>v. v) val (filter ?P (variables db))
         (\<lambda>u. v_current (vheap db u)) u)"
    then show "cdb_ok db' \<and> same_but_current db db' \<and> (\<forall>u \<in> set (variables db). v_current (vheap db' u) =
      (if is_assignable (class_of (v_kind (vheap db u))) then val u else None))"
      using not_assignable(2) [OF ok] by (simp add: last)
  qed
qed

text \<open>The theory depends on the current assignments only.\<close>

lemma active_by_current:
  assumes "cdb_inv X db" "cdb_inv Y db'" "same_but_current db db'"
    and "\<And>v. v \<in> set (variables db) \<Longrightarrow> v_current (vheap db' v) = v_current (vheap db v)"
  shows "active (solver db') = active (solver db)"
proof -
  have f: "same_contents (solver db) (solver db')" "clauses (solver db') = clauses (solver db)"
    "aheap db' = aheap db" using assms(3) by (simp_all add: same_but_current_def)
  have "c \<in> active (solver db') \<longleftrightarrow> c \<in> active (solver db)" if c: "c \<in> set (clauses (solver db))" for c
  proof (cases "clause_datum (cheap (solver db) c)")
    case None
    then show ?thesis using assms(3) by (simp add: same_but_current_def)
  next
    case (Some a)
    have v: "a_variable (aheap db a) \<in> set (variables db)"
      using datums_okD(1) [OF cdb_invD(3) [OF assms(1)] c Some] by (simp add: valid_assignment_def)
    show ?thesis
      using datums_okD(3) [OF cdb_invD(3) [OF assms(1)] c Some]
        datums_okD(3) [OF cdb_invD(3) [OF assms(2)], of c a] c Some f v assms(4)
      by (simp add: same_contentsD [OF f(1)])
  qed
  then show ?thesis
    using active_clauses [of _ "solver db"] active_clauses [of _ "solver db'"] f(2) by (intro set_eqI) auto
qed

end
