(* ===== verification/Cdb_Create.thy ===== *)
theory Cdb_Create
  imports Cdb_Assign
begin

text \<open>
  Creating variables keeps the invariant: the propositions, the clauses that make the values of a
  variable exclusive and exhaustive, the assignments and their unit clauses.
\<close>

subsection \<open>The array of propositions\<close>

definition filled :: "32 word \<Rightarrow> nat \<Rightarrow> 'a list \<Rightarrow> 'a array \<Rightarrow> bool" where
  "filled n i ps a \<longleftrightarrow> length ps = i \<and>
     (if i = 0 then a = new_array 0
      else arr_block a = replicate (unat n - i) None @ map Some ps \<and> arr_used a = n)"

lemma fill_step:
  assumes "filled n i ps a" "i < unat n"
  shows "returns (grow_and_set (n - of_nat i - 1) p a) (filled n (Suc i) (p # ps))"
proof -
  have "unat n < 2 ^ 32" using unsigned_less [of n] by simp
  then have "i < 2 ^ 32" using assms(2) by simp
  then have i: "unat (of_nat i :: 32 word) = i" by (simp add: unsigned_of_nat take_bit_nat_eq_self)
  have idx: "unat (n - of_nat i - 1) = unat n - Suc i"
  proof -
    have 1: "unat (n - of_nat i) = unat n - i"
      using assms(2) i by (subst unat_sub) (simp_all add: word_le_nat_alt)
    then have "n - of_nat i \<noteq> 0" using assms(2) by (metis unat_0 zero_less_diff less_irrefl)
    then show ?thesis using 1 by (simp add: unat_minus_one)
  qed
  have rep: "replicate (unat n - i) None = replicate (unat n - Suc i) None @ [None :: 'a option]"
    using assms(2) by (metis Suc_diff_Suc replicate_Suc replicate_append_same)
  show ?thesis
  proof (cases "i = 0")
    case True
    have pos: "n > 0" using assms(2) by (simp add: word_less_nat_alt)
    have ens: "ensure n (new_array 0 :: 'a array) =
        \<lparr>arr_block = replicate (unat n) None, arr_used = 0, arr_allocated = n\<rparr>"
    proof -
      have "map (\<lambda>j. replicate (unat n) None ! j) [0..<unat n] = replicate (unat n) (None :: 'a option)"
        by (metis length_replicate map_nth)
      then show ?thesis using pos by (simp add: ensure_def new_array_def do_allocate_def Let_def)
    qed
    have a: "a = new_array 0" "ps = []" using assms(1) True by (simp_all add: filled_def)
    have "n - of_nat i - 1 \<ge> array_size a" by (simp add: a array_size_def new_array_def)
    then have "grow_and_set (n - of_nat i - 1) p a =
        write_cell \<lparr>arr_block = replicate (unat n) None, arr_used = n, arr_allocated = n\<rparr> (n - of_nat i - 1) p"
      using True by (simp add: grow_and_set_def Let_def a ens)
    also have "\<dots> = Inr \<lparr>arr_block = (replicate (unat n) None)[unat n - Suc i := Some p], arr_used = n, arr_allocated = n\<rparr>"
      unfolding write_cell_def idx using assms(2) by simp
    also have "(replicate (unat n) None)[unat n - Suc i := Some p] = replicate (unat n - Suc i) None @ [Some p]"
      using rep True by (simp add: list_update_append)
    finally show ?thesis using True by (simp add: filled_def a)
  next
    case False
    then have a: "arr_block a = replicate (unat n - i) None @ map Some ps" "arr_used a = n" "length ps = i"
      using assms(1) by (simp_all add: filled_def)
    have "\<not> n - of_nat i - 1 \<ge> n" using idx assms(2) by (simp add: word_le_nat_alt)
    then show ?thesis
      using a idx rep assms(2)
      by (simp add: filled_def grow_and_set_def array_size_def Let_def write_cell_def list_update_append)
  qed
qed

lemma filled_contents: "filled n (unat n) ps a \<Longrightarrow> array_contents a = ps"
  by (auto simp: filled_def array_contents_def new_array_def do_allocate_def comp_def split: if_splits)

text \<open>New propositions do not touch the clauses.\<close>

lemma create_props_ok:
  assumes "reachable s"
  shows "returns (create_props n s) (\<lambda>(ps, a, t). reachable t \<and> array_contents a = ps \<and> length ps = unat n \<and>
    distinct ps \<and> set ps \<inter> set (props s) = {} \<and> props t = props s @ rev ps \<and> clauses t = clauses s \<and>
    cheap t = cheap s)"
proof -
  let ?I = "\<lambda>is (ps, a, t). reachable t \<and> filled n (length (is :: nat list)) ps a \<and>
    distinct ps \<and> set ps \<inter> set (props s) = {} \<and> props t = props s @ rev ps \<and> clauses t = clauses s \<and>
    cheap t = cheap s"
  have "returns (create_props n s) (?I [0..<unat n])"
    unfolding create_props_def
  proof (rule rfold_rule [where I = ?I])
    show "?I [] ([], new_array 0, s)" using assms by (simp add: filled_def)
    fix "is" i js and st :: "prop_id list \<times> prop_id array \<times> ltms"
    assume split: "[0..<unat n] = is @ i # js" and I: "?I is st"
    obtain ps a t where st: "st = (ps, a, t)" by (cases st) auto
    have i: "i = length is" "i < unat n"
    proof -
      have "[0..<unat n] ! length is = i" "length is < unat n"
        using split by (simp_all add: nth_append arg_cong [OF split, of length, simplified])
      then show "i = length is" "i < unat n" by simp_all
    qed
    obtain p t1 where p: "create_proposition t = (p, t1)" by (cases "create_proposition t") auto
    have t1: "ltms_ok t1" "p \<notin> set (props t)" "props t1 = props t @ [p]" "clauses t1 = clauses t"
      "cheap t1 = cheap t"
      using create_proposition_ok [OF reachable_inv, of t] I p by (simp_all add: st)
    have "reachable t1"
      using reachable_step [OF _ step_proposition, of t] I p by (simp add: st)
    moreover have "returns (grow_and_set (n - of_nat i - 1) p a) (filled n (Suc i) (p # ps))"
      using I i by (intro fill_step) (simp_all add: st)
    ultimately show "returns (case st of (all_props, a, s) \<Rightarrow> case create_proposition s of (p, s1) \<Rightarrow>
        rbind (grow_and_set (n - of_nat i - 1) p a) (\<lambda>a1. Inr (p # all_props, a1, s1))) (?I (is @ [i]))"
      using I t1 i by (auto simp: st p elim!: returns_mono)
  qed
  then show ?thesis
    by (rule returns_mono) (auto simp: filled_contents, simp add: filled_def)
qed

subsection \<open>The clauses of a variable\<close>

text \<open>New clauses that assert no assignment; the old ones stay as they are.\<close>

definition extends_hard :: "ltms \<Rightarrow> ltms \<Rightarrow> bool" where
  "extends_hard s t \<longleftrightarrow> grows s t \<and>
     (\<forall>c \<in> set (clauses t). c \<notin> set (clauses s) \<longrightarrow> clause_datum (cheap t c) = None) \<and>
     (\<forall>c \<in> set (clauses s). c \<in> active t \<longleftrightarrow> c \<in> active s)"

lemma extends_hard_refl [simp]: "extends_hard s s"
  by (simp add: extends_hard_def)

lemma extends_hard_trans:
  assumes "extends_hard s t" "extends_hard t u"
  shows "extends_hard s u"
proof -
  have "grows s u" using assms grows_trans by (auto simp: extends_hard_def)
  moreover have "clause_datum (cheap u c) = None" if "c \<in> set (clauses u)" "c \<notin> set (clauses s)" for c
  proof (cases "c \<in> set (clauses t)")
    case True
    then show ?thesis using assms that by (simp add: extends_hard_def grows_def)
  next
    case False
    then show ?thesis using assms(2) that by (simp add: extends_hard_def)
  qed
  moreover have "c \<in> active u \<longleftrightarrow> c \<in> active s" if "c \<in> set (clauses s)" for c
  proof -
    have "c \<in> set (clauses t)" using assms(1) that by (auto simp: extends_hard_def grows_def)
    then show ?thesis using assms that by (simp add: extends_hard_def)
  qed
  ultimately show ?thesis by (simp add: extends_hard_def)
qed

lemma extends_hard_formula: "extends_hard s t \<Longrightarrow> C \<in> hard_formula s \<Longrightarrow> C \<in> hard_formula t"
  by (auto simp: extends_hard_def grows_def)

lemma props_extend:
  assumes "cheap t = cheap s" "clauses t = clauses s" "set (props s) \<subseteq> set (props t)"
  shows "extends_hard s t"
proof -
  have "active t = active s" using assms by (simp add: active_def)
  then have "hard_formula t = hard_formula s" using assms by (simp add: hard_formula_def)
  then show ?thesis using assms \<open>active t = active s\<close> by (simp add: extends_hard_def grows_def)
qed

lemma hard_clause_ok:
  assumes "reachable s" "valid_clause posP negP s"
  shows "returns (ltms_create_clause None posP negP vol inT s) (\<lambda>(c, t). reachable t \<and> extends_hard s t \<and>
    props t = props s \<and>
    (inT \<longrightarrow> (\<lambda>p. (p, True)) ` set posP \<union> (\<lambda>p. (p, False)) ` set negP \<in> hard_formula t))"
proof -
  from solver_create_clause [OF assms, of None vol inT] obtain c t where
    eq: "ltms_create_clause None posP negP vol inT s = Inr (c, t)" and
    t: "reachable t" "c \<notin> set (clauses s)" "clauses t = clauses s @ [c]" "props t = props s"
    "active t = (if inT then insert c (active s) else active s)"
    "clause_lits (cheap t c) = new_lits posP negP" "clause_datum (cheap t c) = None"
    "\<forall>d \<in> set (clauses s). clause_lits (cheap t d) = clause_lits (cheap s d) \<and>
        clause_datum (cheap t d) = clause_datum (cheap s d)"
    by (auto simp: returns_iff)
  have "grows s t" by (rule grows_clause [OF t(2-5,8)])
  then have "extends_hard s t" using t by (auto simp: extends_hard_def)
  moreover have "set (new_lits posP negP) \<in> hard_formula t" if inT
    unfolding hard_formula_def by (rule image_eqI [of _ _ c]) (use t that in simp_all)
  moreover have "set (new_lits posP negP) = (\<lambda>p. (p, True)) ` set posP \<union> (\<lambda>p. (p, False)) ` set negP"
    by (auto simp: new_lits_def)
  ultimately show ?thesis using t by (simp add: eq)
qed

definition hard_step :: "cnf \<Rightarrow> ltms \<Rightarrow> ltms \<Rightarrow> bool" where
  "hard_step F s t \<longleftrightarrow> reachable t \<and> extends_hard s t \<and> props t = props s \<and> F \<subseteq> hard_formula t"

lemma hard_loop:
  assumes "reachable s"
    and "\<And>x t. x \<in> set xs \<Longrightarrow> reachable t \<Longrightarrow> props t = props s \<Longrightarrow> returns (f x t) (hard_step (F x) t)"
  shows "returns (rfold f xs s) (hard_step (\<Union>x \<in> set xs. F x) s)"
proof (rule rfold_rule [where I = "\<lambda>as. hard_step (\<Union>x \<in> set as. F x) s"])
  show "hard_step (\<Union>x \<in> set []. F x) s s" using assms(1) by (simp add: hard_step_def)
  fix as x bs t
  assume xs: "xs = as @ x # bs" and t: "hard_step (\<Union>x \<in> set as. F x) s t"
  have "returns (f x t) (hard_step (F x) t)"
    using t by (intro assms(2)) (simp_all add: xs hard_step_def)
  then show "returns (f x t) (hard_step (\<Union>x \<in> set (as @ [x]). F x) s)"
  proof (rule returns_mono)
    fix u
    assume u: "hard_step (F x) t u"
    have "extends_hard s u" using t u extends_hard_trans by (auto simp: hard_step_def)
    moreover have "hard_formula t \<subseteq> hard_formula u" using u by (simp add: hard_step_def extends_hard_def grows_def)
    ultimately show "hard_step (\<Union>x \<in> set (as @ [x]). F x) s u"
      using t u by (auto simp: hard_step_def)
  qed
qed

lemma UN_pairs:
  "(\<Union>i \<in> set [0..<n]. \<Union>j \<in> set [Suc i..<n]. {P i j}) = {P i j | i j. i < j \<and> j < n}"
  by (fastforce simp: Suc_le_eq)

lemma mutex_clauses_ok:
  assumes "reachable s" "distinct ps" "set ps \<subseteq> set (props s)"
  shows "returns (mutex_clauses ps s) (hard_step {{(ps ! i, False), (ps ! j, False)} | i j. i < j \<and> j < length ps} s)"
proof -
  have "returns (mutex_clauses ps s) (hard_step (\<Union>i \<in> set [0..<length ps].
      \<Union>j \<in> set [Suc i..<length ps]. {{(ps ! i, False), (ps ! j, False)}}) s)"
    unfolding mutex_clauses_def
  proof (rule hard_loop [OF assms(1)], rule hard_loop)
    fix i j t u
    assume i: "i \<in> set [0..<length ps]" and j: "j \<in> set [Suc i..<length ps]"
      and u: "reachable u" "props u = props t" and t: "props t = props s"
    have "set [ps ! j, ps ! i] \<subseteq> set (props u)" using i j u t assms(3) nth_mem by auto
    then have "valid_clause [] [ps ! j, ps ! i] u" by (simp add: valid_clause_def)
    then show "returns (rbind (ltms_create_clause None [] [ps ! j, ps ! i] False True u) (\<lambda>(_, s1). Inr s1))
        (hard_step {{(ps ! i, False), (ps ! j, False)}} u)"
      using hard_clause_ok [OF u(1), of "[]" "[ps ! j, ps ! i]" False True]
      by (auto simp: hard_step_def insert_commute elim!: returns_mono)
  qed
  then show ?thesis by (simp only: UN_pairs)
qed

lemma domain_clauses_ok:
  assumes "reachable s" "distinct ps" "set ps \<subseteq> set (props s)" "length ps < 128"
  shows "returns (rbind (ltms_create_clause None ps [] False True s) (\<lambda>(_, s2). mutex_clauses ps s2))
    (hard_step (domain_clauses ps) s)"
proof -
  have v: "valid_clause ps [] s" using assms by (simp add: valid_clause_def)
  obtain c t where eq: "ltms_create_clause None ps [] False True s = Inr (c, t)"
    and t: "reachable t" "extends_hard s t" "props t = props s" "(\<lambda>p. (p, True)) ` set ps \<in> hard_formula t"
    using hard_clause_ok [OF assms(1) v, of False True] by (auto simp: returns_iff)
  have "returns (mutex_clauses ps t) (hard_step (domain_clauses ps) s)"
  proof (rule returns_mono [OF mutex_clauses_ok [OF t(1) assms(2)]])
    show "set ps \<subseteq> set (props t)" using assms(3) t(3) by simp
    fix u
    assume u: "hard_step {{(ps ! i, False), (ps ! j, False)} | i j. i < j \<and> j < length ps} t u"
    then have "(\<lambda>p. (p, True)) ` set ps \<in> hard_formula u"
      using t(4) extends_hard_formula by (auto simp: hard_step_def)
    then show "hard_step (domain_clauses ps) s u"
      using u t extends_hard_trans [OF t(2)] by (simp add: hard_step_def domain_clauses_def)
  qed
  then show ?thesis by (simp add: eq)
qed


subsection \<open>A new variable\<close>

lemma insert_pos_cases:
  assumes "insert_pos_ok db" "distinct (variables db)" "v \<notin> set (variables db)"
  shows "returns (insert_variable v db) (\<lambda>db'. \<exists>xs it. db' = db\<lparr>variables := xs, insert_pos := it\<rparr> \<and>
    set xs = insert v (set (variables db)) \<and> distinct xs \<and> insert_pos_ok db')"
proof -
  consider (first) "vit_eq (insert_pos db) (begin_variables db)"
    | (later) xs p c ys where "variables db = xs @ p # c # ys"
        "insert_pos db = \<lparr>it_current = Some c, it_previous = Some p\<rparr>"
    using assms(1) unfolding insert_pos_ok_def by blast
  then show ?thesis
  proof cases
  case first
  note b = first
  show ?thesis
    using b assms(2,3)
    by (auto simp: insert_variable_def variables_insert_before_def insert_pos_ok_def vit_eq_def begin_variables_def
        intro!: exI)
next
  case later
  note vs = later(1) and it = later(2)
  have d: "p \<notin> set xs" "c \<notin> set xs" "c \<noteq> p" "c \<notin> set ys" "p \<notin> set ys" using assms(2) vs by auto
  have nb: "\<not> vit_eq (insert_pos db) (begin_variables db)"
    using d by (cases xs) (auto simp: vit_eq_def begin_variables_def it vs)
  have tw: "takeWhile (\<lambda>x. x \<noteq> p) (variables db) = xs" "dropWhile (\<lambda>x. x \<noteq> c) (variables db) = c # ys"
    using d by (auto simp: vs takeWhile_append dropWhile_append)
  let ?it = "\<lparr>it_current = Some v, it_previous = Some p\<rparr>"
  have "insert_variable v db = Inr (db\<lparr>variables := xs @ [p, v] @ c # ys, insert_pos := ?it\<rparr>)"
    using nb by (simp add: insert_variable_def variables_insert_before_def it tw) (simp add: vs)
  moreover have "insert_pos_ok (db\<lparr>variables := xs @ [p, v] @ c # ys, insert_pos := ?it\<rparr>)"
    by (simp add: insert_pos_ok_def) blast
  ultimately show ?thesis using assms(2,3) by (auto simp: vs intro!: exI)
  qed
qed

text \<open>What creating an object leaves as it was.\<close>

definition old_kept :: "conflict_db \<Rightarrow> conflict_db \<Rightarrow> bool" where
  "old_kept db db' \<longleftrightarrow> (\<forall>v \<in> set (variables db). vheap db' v = vheap db v) \<and>
     (\<forall>a < next_assignment db. aheap db' a = aheap db a) \<and> next_assignment db \<le> next_assignment db' \<and>
     kheap db' = kheap db \<and> candheap db' = candheap db \<and> next_conflict db' = next_conflict db \<and>
     next_candidate db' = next_candidate db \<and> global_id db' = global_id db \<and> candidates db' = candidates db \<and>
     conflicts db' = conflicts db \<and> assumptions db' = assumptions db \<and> assignables db' = assignables db \<and>
     grows (solver db) (solver db')"

lemma new_variable_ok:
  assumes inv: "cdb_inv X db" and n: "unat n < 128"
  shows "returns (new_variable k n time ident db) (\<lambda>(v, db'). cdb_inv X db' \<and> old_kept db db' \<and>
    v \<notin> set (variables db) \<and> set (variables db') = insert v (set (variables db)) \<and>
    length (propositions (vheap db' v)) = unat n \<and> v_kind (vheap db' v) = k \<and> v_current (vheap db' v) = None \<and>
    v_saved (vheap db' v) = None \<and> v_assignments (vheap db' v) = [] \<and> aheap db' = aheap db \<and>
    next_assignment db' = next_assignment db)"
proof -
  obtain ps a s1 where s1: "create_props n (solver db) = Inr (ps, a, s1)" "reachable s1" "array_contents a = ps"
    "length ps = unat n" "distinct ps" "set ps \<inter> set (props (solver db)) = {}"
    "props s1 = props (solver db) @ rev ps" "clauses s1 = clauses (solver db)" "cheap s1 = cheap (solver db)"
    using create_props_ok [OF cdb_invD(1) [OF inv], of n] by (auto simp: returns_iff)
  have "returns (rbind (ltms_create_clause None ps [] False True s1) (\<lambda>(_, s2). mutex_clauses ps s2))
      (hard_step (domain_clauses ps) s1)"
    by (rule domain_clauses_ok) (use s1 n in simp_all)
  then obtain c s2 s3 where s3: "ltms_create_clause None ps [] False True s1 = Inr (c, s2)"
    "mutex_clauses ps s2 = Inr s3" "hard_step (domain_clauses ps) s1 s3"
    by (cases "ltms_create_clause None ps [] False True s1") (auto simp: returns_iff)
  have ext: "extends_hard (solver db) s3"
    using extends_hard_trans [OF props_extend] s1 s3(3) by (simp add: hard_step_def)
  let ?v = "next_var db"
  let ?o = "no_variable\<lparr>v_kind := k, v_id := ident, v_time_step := time, propositions := ps\<rparr>"
  let ?db1 = "upd_var ?v (\<lambda>_. ?o) (db\<lparr>solver := s3, next_var := Suc ?v\<rparr>)"
  have fresh: "?v \<notin> set (variables db)" using cdb_invD(6) [OF inv, of ?v] by (auto simp: var_static_def)
  have "insert_pos_ok ?db1" using cdb_invD(4) [OF inv] by (simp add: insert_pos_ok_def begin_variables_def)
  then have "returns (insert_variable ?v ?db1) (\<lambda>db'. \<exists>xs it. db' = ?db1\<lparr>variables := xs, insert_pos := it\<rparr> \<and>
    set xs = insert ?v (set (variables ?db1)) \<and> distinct xs \<and> insert_pos_ok db')"
    using cdb_invD(2) [OF inv] fresh by (intro insert_pos_cases) simp_all
  then obtain xs it where ins: "insert_variable ?v ?db1 = Inr (?db1\<lparr>variables := xs, insert_pos := it\<rparr>)"
    "set xs = insert ?v (set (variables db))" "distinct xs" "insert_pos_ok (?db1\<lparr>variables := xs, insert_pos := it\<rparr>)"
    by (auto simp: returns_iff)
  let ?db2 = "?db1\<lparr>variables := xs, insert_pos := it\<rparr>"
  have run: "new_variable k n time ident db = Inr (?v, ?db2)"
    using s1(1,3) s3(1,2) ins(1) by (simp add: new_variable_def Let_def)
  have old: "var_static ?db2 u" if "u \<in> set (variables db)" for u
    using cdb_invD(6) [OF inv that] ext fresh that
    by (intro var_static_mono [of db u ?db2]) (auto simp: extends_hard_def)
  have new: "var_static ?db2 ?v"
    using s1 s3(3) n by (auto simp: var_static_def hard_step_def no_variable_def)
  have valid: "valid_assignment ?db2 b" if "valid_assignment db b" for b
    using that fresh ins(2) by (auto simp: valid_assignment_def)
  have valid': "valid_assignment db b" if "valid_assignment ?db2 b" for b
    using that fresh ins(2) by (auto simp: valid_assignment_def no_variable_def split: if_splits)
  have datums: "datums_ok ?db2"
    unfolding datums_ok_def
  proof (intro ballI allI impI)
    fix c b
    assume c: "c \<in> set (clauses (solver ?db2))" and b: "clause_datum (cheap (solver ?db2) c) = Some b"
    have c': "c \<in> set (clauses (solver db))" using ext c b by (auto simp: extends_hard_def)
    then have b': "clause_datum (cheap (solver db) c) = Some b" "c \<in> active s3 \<longleftrightarrow> c \<in> active (solver db)"
      using ext b by (auto simp: extends_hard_def grows_def)
    note d = datums_okD [OF cdb_invD(3) [OF inv] c' b'(1)]
    then have "a_variable (aheap db b) \<noteq> ?v" using fresh by (auto simp: valid_assignment_def)
    then show "valid_assignment ?db2 b \<and> a_clause (aheap ?db2 b) = Some c \<and>
        (c \<in> active (solver ?db2)) = (v_current (vheap ?db2 (a_variable (aheap ?db2 b))) = Some b)"
      using valid [OF d(1)] d b'(2) by simp
  qed
  have confl: "conflicts_ok ?db2"
    using cdb_invD(5) [OF inv] valid valid' by (auto simp: conflicts_ok_def)
  have "cdb_inv X ?db2"
    unfolding cdb_inv_def
  proof (intro conjI ballI impI)
    show "reachable (solver ?db2)" using s3(3) by (simp add: hard_step_def)
    show "distinct (variables ?db2)" using ins(3) by simp
    show "set (assignables ?db2) \<subseteq> set (variables ?db2)" using inv ins(2) by (auto simp: cdb_inv_def)
    fix u
    show "var_static ?db2 u" "var_dynamic ?db2 u" "u \<notin> X \<Longrightarrow> var_complete ?db2 u" if "u \<in> set (variables ?db2)"
      using that old [of u] new cdb_invD(7,8) [OF inv, of u] ins(2) fresh
      by (cases "u = ?v"; simp add: var_dynamic_def var_complete_def no_variable_def)+
    assume "u \<in> set (assumptions ?db2)"
    then have "u \<in> set (variables db) \<and> is_assumption (class_of (v_kind (vheap db u))) \<and> v_assignments (vheap db u) \<noteq> []"
      using inv by (simp add: cdb_inv_def)
    then show "u \<in> set (variables ?db2)" "is_assumption (class_of (v_kind (vheap ?db2 u)))"
      "v_assignments (vheap ?db2 u) \<noteq> []" using fresh ins(2) by auto
  qed (use datums confl ins(4) in simp_all)
  moreover have "old_kept db ?db2" using fresh ext by (auto simp: old_kept_def extends_hard_def)
  ultimately show ?thesis using fresh ins(2) s1(4) by (simp add: run no_variable_def)
qed

end
