(* ===== verification/Cdb_Assignables.thy ===== *)
theory Cdb_Assignables
  imports Cdb_Create
begin

text \<open>
  The constructors of the assignable variables: the assignments with their unit clauses, and the
  weights and the default assignment of an assumption.
\<close>

subsection \<open>The assignments of a new variable\<close>

text \<open>The state while the first \<open>i\<close> assignments of the new variable \<open>v\<close> exist.\<close>

definition building :: "var_id set \<Rightarrow> var_id \<Rightarrow> nat \<Rightarrow> conflict_db \<Rightarrow> conflict_db \<Rightarrow> bool" where
  "building X v i db0 db \<longleftrightarrow> cdb_inv X db \<and> v \<in> set (variables db) \<and> v \<in> X \<and>
     length (v_assignments (vheap db v)) = i \<and> v_current (vheap db v) = None \<and> v_saved (vheap db v) = None \<and>
     variables db = variables db0 \<and> propositions (vheap db v) = propositions (vheap db0 v) \<and>
     v_kind (vheap db v) = v_kind (vheap db0 v) \<and>
     (\<forall>u. u \<noteq> v \<longrightarrow> vheap db u = vheap db0 u) \<and>
     (\<forall>a < next_assignment db0. aheap db a = aheap db0 a) \<and> next_assignment db0 \<le> next_assignment db \<and>
     kheap db = kheap db0 \<and> candheap db = candheap db0 \<and> next_conflict db = next_conflict db0 \<and>
     next_candidate db = next_candidate db0 \<and> global_id db = global_id db0 \<and> candidates db = candidates db0 \<and>
     conflicts db = conflicts db0 \<and> assumptions db = assumptions db0 \<and> assignables db = assignables db0 \<and>
     grows (solver db0) (solver db) \<and> v \<notin> set (assumptions db) \<and>
     (\<forall>a \<in> set (v_assignments (vheap db v)). next_assignment db0 \<le> a) \<and>
     (\<forall>k \<in> set (conflicts db). \<forall>a \<in> set (conflict_assignments (kheap db k)). a_variable (aheap db a) \<noteq> v)"

lemma create_assignment_ok:
  assumes b: "building X v i db0 db" and i: "i < length (propositions (vheap db v))"
  shows "returns (create_assignment v i db) (building X v (Suc i) db0)"
proof -
  have inv: "cdb_inv X db" and v: "v \<in> set (variables db)" and vX: "v \<in> X"
    and len: "length (v_assignments (vheap db v)) = i" and nocur: "v_current (vheap db v) = None"
    "v_saved (vheap db v) = None"
    and noconf: "\<And>k a. k \<in> set (conflicts db) \<Longrightarrow> a \<in> set (conflict_assignments (kheap db k)) \<Longrightarrow>
      a_variable (aheap db a) \<noteq> v" and vas: "v \<notin> set (assumptions db)"
    using b by (auto simp: building_def)
  note st = cdb_invD(6) [OF inv v]
  have small: "length (propositions (vheap db v)) < 128" and pin: "propositions (vheap db v) ! i \<in> set (props (solver db))"
    using st i by (auto simp: var_static_def)
  let ?a = "next_assignment db" and ?p = "propositions (vheap db v) ! i"
  let ?db2 = "upd_var v (\<lambda>x. x\<lparr>v_assignments := v_assignments x @ [?a]\<rparr>)
    (upd_assignment ?a (\<lambda>_. no_assignment\<lparr>a_variable := v, a_index := of_nat i\<rparr>) (db\<lparr>next_assignment := Suc ?a\<rparr>))"
  have gp: "get_prop ?db2 v (of_nat i) = Inr ?p"
    using i small by (simp add: get_prop_def get_nvalues_def word_less_nat_alt unsigned_of_nat take_bit_nat_eq_self l2_assert_def)
  have "valid_clause [?p] [] (solver db)" using pin by (simp add: valid_clause_def)
  then obtain c t where t: "ltms_create_clause (Some ?a) [?p] [] True False (solver db) = Inr (c, t)"
     "reachable t" "c \<notin> set (clauses (solver db))" "clauses t = clauses (solver db) @ [c]"
     "props t = props (solver db)" "active t = active (solver db)" "clause_lits (cheap t c) = [(?p, True)]"
     "clause_datum (cheap t c) = Some ?a"
     "\<forall>d \<in> set (clauses (solver db)). clause_lits (cheap t d) = clause_lits (cheap (solver db) d) \<and>
        clause_datum (cheap t d) = clause_datum (cheap (solver db) d)"
    using solver_create_clause [OF cdb_invD(1) [OF inv], of "[?p]" "[]" "Some ?a" True False]
    by (auto simp: returns_iff new_lits_def)
  let ?db = "upd_assignment ?a (\<lambda>x. x\<lparr>a_clause := Some c\<rparr>) (?db2\<lparr>solver := t\<rparr>)"
  have run: "create_assignment v i db = Inr ?db" using gp t(1) by (simp add: create_assignment_def Let_def)
  have heap: "vheap ?db = (vheap db)(v := (vheap db v)\<lparr>v_assignments := v_assignments (vheap db v) @ [?a]\<rparr>)"
    "aheap ?db = (aheap db)(?a := no_assignment\<lparr>a_variable := v, a_index := of_nat i, a_clause := Some c\<rparr>)"
    "solver ?db = t" "variables ?db = variables db" "next_assignment ?db = Suc ?a" "next_var ?db = next_var db"
    "conflicts ?db = conflicts db" "kheap ?db = kheap db" "next_conflict ?db = next_conflict db"
    "insert_pos ?db = insert_pos db" "assumptions ?db = assumptions db" "assignables ?db = assignables db"
    by (simp_all add: fun_eq_iff)
  have gr: "grows (solver db) t" by (rule grows_clause [where inT = False, OF t(3,4,5) _ t(9)]) (simp add: t(6))
  have old: "a \<noteq> ?a" if "u \<in> set (variables db)" "a \<in> set (v_assignments (vheap db u))" for u a
    using assignment_of [OF cdb_invD(6) [OF inv that(1)] that(2)] by (metis less_irrefl)
  have static: "var_static ?db u" if u: "u \<in> set (variables db)" for u
  proof (cases "u = v")
    case False
    then show ?thesis
      using old [OF u] by (intro var_static_mono [OF cdb_invD(6) [OF inv u]]) (auto simp: heap gr)
  next
    case True
    have "assignment_ok ?db v j" if j: "j < Suc i" for j
    proof (cases "j = i")
      case True
      then show ?thesis
        using t len by (simp add: assignment_ok_def heap nth_append no_assignment_def)
    next
      case False
      then have j': "j < length (v_assignments (vheap db v))" using j len by simp
      let ?b = "v_assignments (vheap db v) ! j"
      have "assignment_ok db v j" using st j' by (simp add: var_static_def)
      moreover have "?b \<noteq> ?a" using old [OF v] j' by simp
      ultimately show ?thesis
        using j' t(4,9) by (auto simp: assignment_ok_def heap nth_append Let_def)
    qed
    then show ?thesis using True st i len gr by (auto simp: var_static_def heap grows_def)
  qed
  have valid: "valid_assignment ?db x \<longleftrightarrow> valid_assignment db x \<or> x = ?a" for x
  proof (cases "x = ?a")
    case True
    then show ?thesis using v by (simp add: valid_assignment_def heap no_assignment_def)
  next
    case False
    then show ?thesis by (auto simp: valid_assignment_def heap)
  qed
  have less: "x < ?a" if "valid_assignment db x" for x using valid_assignment_less [OF inv that] .
  have datums: "datums_ok ?db"
    unfolding datums_ok_def
  proof (intro ballI allI impI)
    fix d x
    assume d: "d \<in> set (clauses (solver ?db))" and x: "clause_datum (cheap (solver ?db) d) = Some x"
    show "valid_assignment ?db x \<and> a_clause (aheap ?db x) = Some d \<and>
        (d \<in> active (solver ?db)) = (v_current (vheap ?db (a_variable (aheap ?db x))) = Some x)"
    proof (cases "d = c")
      case True
      then have "x = ?a" using x t(8) by (simp add: heap)
      moreover have "c \<notin> active t" using t(3,6) active_clauses by blast
      ultimately show ?thesis using True valid nocur by (simp add: heap no_assignment_def)
    next
      case False
      then have d': "d \<in> set (clauses (solver db))" using d t(4) by (simp add: heap)
      then have x': "clause_datum (cheap (solver db) d) = Some x" using x t(9) by (simp add: heap)
      note dd = datums_okD [OF cdb_invD(3) [OF inv] d' x']
      have "x \<noteq> ?a" using less [OF dd(1)] by simp
      then show ?thesis using dd valid t(6) by (simp add: heap)
    qed
  qed
  have ca: "a \<noteq> ?a" if "k \<in> set (conflicts db)" "a \<in> set (conflict_assignments (kheap db k))" for k a
    using cdb_invD(5) [OF inv] that less by (fastforce simp: conflicts_ok_def)
  have confl: "conflicts_ok ?db"
  proof -
    have c0: "distinct (conflicts db)"
      "sorted (map (\<lambda>k. of_nat (length (conflict_assignments (kheap db k))) :: 32 word) (conflicts db))" "\<And>k. k \<in> set (conflicts db) \<Longrightarrow> k < next_conflict db"
      "\<And>k a. k \<in> set (conflicts db) \<Longrightarrow> a \<in> set (conflict_assignments (kheap db k)) \<Longrightarrow> valid_assignment db a"
      using cdb_invD(5) [OF inv] by (auto simp: conflicts_ok_def)
    have "set (a_conflicts (aheap ?db x)) = {k \<in> set (conflicts db). x \<in> set (conflict_assignments (kheap db k))} \<and>
        set (resolved_conflicts (aheap ?db x)) = {k \<in> set (conflicts db).
          \<exists>b \<in> set (conflict_assignments (kheap db k)). b \<noteq> x \<and> a_variable (aheap ?db b) = a_variable (aheap ?db x)}"
      if x: "valid_assignment ?db x" for x
    proof (cases "x = ?a")
      case True
      then show ?thesis using ca noconf by (auto simp: heap no_assignment_def)
    next
      case False
      then have "valid_assignment db x" using x valid by simp
      then have "set (a_conflicts (aheap db x)) = {k \<in> set (conflicts db). x \<in> set (conflict_assignments (kheap db k))}"
        "set (resolved_conflicts (aheap db x)) = {k \<in> set (conflicts db).
          \<exists>b \<in> set (conflict_assignments (kheap db k)). b \<noteq> x \<and> a_variable (aheap db b) = a_variable (aheap db x)}"
        using cdb_invD(5) [OF inv] by (simp_all add: conflicts_ok_def)
      moreover have "(\<exists>b \<in> set (conflict_assignments (kheap db k)). b \<noteq> x \<and>
            a_variable (aheap ?db b) = a_variable (aheap ?db x)) \<longleftrightarrow>
          (\<exists>b \<in> set (conflict_assignments (kheap db k)). b \<noteq> x \<and> a_variable (aheap db b) = a_variable (aheap db x))"
        if "k \<in> set (conflicts db)" for k
        using ca [OF that] False by (intro bex_cong) (auto simp: heap)
      moreover have "aheap ?db x = aheap db x" using False by (simp add: heap)
      ultimately show ?thesis by (simp cong: conj_cong)
    qed
    then show ?thesis using c0 valid by (auto simp: conflicts_ok_def heap(7-9))
  qed
  have "cdb_inv X ?db"
    unfolding cdb_inv_def
  proof (intro conjI ballI impI)
    show "reachable (solver ?db)" using t(2) by (simp add: heap)
    show "insert_pos_ok ?db" using cdb_invD(4) [OF inv] by (simp add: insert_pos_ok_def begin_variables_def)
    show "set (assignables ?db) \<subseteq> set (variables ?db)" using inv by (simp add: cdb_inv_def)
    fix u
    show "var_static ?db u" if "u \<in> set (variables ?db)" using static that by simp
    show "var_dynamic ?db u" if "u \<in> set (variables ?db)"
      using that cdb_invD(7) [OF inv, of u] by (auto simp: var_dynamic_def)
    show "var_complete ?db u" if "u \<in> set (variables ?db)" "u \<notin> X"
      using that vX cdb_invD(8) [OF inv, of u] by (auto simp: var_complete_def)
    assume "u \<in> set (assumptions ?db)"
    then have "u \<in> set (variables db) \<and> is_assumption (class_of (v_kind (vheap db u))) \<and> v_assignments (vheap db u) \<noteq> []"
      using inv by (simp add: cdb_inv_def)
    then show "u \<in> set (variables ?db)" "is_assumption (class_of (v_kind (vheap ?db u)))"
      "v_assignments (vheap ?db u) \<noteq> []" by auto
  qed (use datums confl cdb_invD(2) [OF inv] in simp_all)
  then show ?thesis
    using b v vX len nocur noconf ca gr grows_trans by (auto simp: run building_def no_assignment_def)
qed


lemma cdb_inv_mono: "cdb_inv X db \<Longrightarrow> X \<subseteq> Y \<Longrightarrow> cdb_inv Y db"
  by (auto simp: cdb_inv_def)

text \<open>A variable that has just been constructed.\<close>

definition new_var_ok :: "var_id set \<Rightarrow> var_id \<Rightarrow> kind \<Rightarrow> nat \<Rightarrow> conflict_db \<Rightarrow> conflict_db \<Rightarrow> bool" where
  "new_var_ok X v k n db db' \<longleftrightarrow> cdb_inv X db' \<and> old_kept db db' \<and> v \<notin> set (variables db) \<and>
     set (variables db') = insert v (set (variables db)) \<and> length (propositions (vheap db' v)) = n \<and>
     v_kind (vheap db' v) = k \<and> v_current (vheap db' v) = None \<and> v_saved (vheap db' v) = None \<and>
     length (v_assignments (vheap db' v)) = (if is_assignable (class_of k) then n else 0) \<and>
     (\<forall>a \<in> set (v_assignments (vheap db' v)). next_assignment db \<le> a)"

lemma new_assignable_ok:
  assumes inv: "cdb_inv X db" and n: "unat n < 128" and k: "is_assignable (class_of k)"
  shows "returns (new_assignable k n time ident db) (\<lambda>(v, db'). new_var_ok (insert v X) v k (unat n) db db')"
proof -
  from new_variable_ok [OF inv n, of k time ident] obtain v db1 where
    run: "new_variable k n time ident db = Inr (v, db1)" and
    db1: "cdb_inv X db1" "old_kept db db1" "v \<notin> set (variables db)" "set (variables db1) = insert v (set (variables db))"
      "length (propositions (vheap db1 v)) = unat n" "v_kind (vheap db1 v) = k" "v_current (vheap db1 v) = None"
      "v_saved (vheap db1 v) = None" "v_assignments (vheap db1 v) = []" "aheap db1 = aheap db"
      "next_assignment db1 = next_assignment db"
    by (auto simp: returns_iff)
  have kept1: "conflicts db1 = conflicts db" "kheap db1 = kheap db" "assumptions db1 = assumptions db"
    using db1(2) by (simp_all add: old_kept_def)
  have "a_variable (aheap db1 a) \<noteq> v"
    if "k \<in> set (conflicts db1)" "a \<in> set (conflict_assignments (kheap db1 k))" for k a
    using cdb_invD(5) [OF inv] that db1(3,10) kept1 by (auto simp: conflicts_ok_def valid_assignment_def)
  moreover have "v \<notin> set (assumptions db1)" using inv db1(3) kept1 by (auto simp: cdb_inv_def)
  ultimately have start: "building (insert v X) v 0 db1 db1"
    using cdb_inv_mono [OF db1(1), of "insert v X"] db1 by (auto simp: building_def)
  have len: "unat (get_nvalues db1 v) = unat n"
    using db1(5) n by (simp add: get_nvalues_def)
  have "returns (rfold (create_assignment v) [0..<unat n] db1) (building (insert v X) v (length [0..<unat n]) db1)"
  proof (rule rfold_rule [where I = "\<lambda>is. building (insert v X) v (length is) db1"])
    fix "is" i js db'
    assume split: "[0..<unat n] = is @ i # js" and b: "building (insert v X) v (length is) db1 db'"
    have "[0..<unat n] ! length is = i" "length is < unat n"
      using split by (simp_all add: nth_append arg_cong [OF split, of length, simplified])
    then have i: "i = length is" "i < unat n" by simp_all
    then have "i < length (propositions (vheap db' v))" using b db1(5) by (simp add: building_def)
    then show "returns (create_assignment v i db') (building (insert v X) v (length (is @ [i])) db1)"
      using create_assignment_ok [of "insert v X" v i db1 db'] b i by simp
  qed (use start in simp)
  then have "returns (rfold (create_assignment v) [0..<unat n] db1)
      (\<lambda>db'. new_var_ok (insert v X) v k (unat n) db db')"
  proof (rule returns_mono)
    fix db'
    assume "building (insert v X) v (length [0..<unat n]) db1 db'"
    then have b: "building (insert v X) v (unat n) db1 db'" by simp
    have "\<forall>u \<in> set (variables db). u \<noteq> v" using db1(3) by blast
    then have "\<forall>u \<in> set (variables db). vheap db' u = vheap db u"
      using b db1(2) by (simp add: building_def old_kept_def)
    moreover have "grows (solver db) (solver db')"
      using b db1(2) grows_trans by (auto simp: building_def old_kept_def)
    ultimately have "old_kept db db'"
      using b db1(2,11) by (simp add: old_kept_def building_def)
    then show "new_var_ok (insert v X) v k (unat n) db db'"
      using b db1 k by (simp add: building_def new_var_ok_def)
  qed
  then show ?thesis by (auto simp: new_assignable_def run len elim!: returns_mono)
qed

lemma new_var_complete:
  assumes "new_var_ok (insert v X) v k n db db'" "is_assignable (class_of k)" "\<not> is_assumption (class_of k)"
  shows "new_var_ok X v k n db db'"
proof -
  have "var_complete db' v" using assms by (simp add: new_var_ok_def var_complete_def)
  then show ?thesis using assms(1) by (auto simp: new_var_ok_def cdb_inv_def)
qed

subsection \<open>Weights\<close>

abbreviation reweigh :: "assignment_id \<Rightarrow> weight_t \<Rightarrow> conflict_db \<Rightarrow> conflict_db" where
  "reweigh a w \<equiv> upd_assignment a (\<lambda>x. x\<lparr>weight := w\<rparr>)"

lemma reweigh_fields:
  "a_variable (aheap (reweigh a w db) b) = a_variable (aheap db b)"
  "a_index (aheap (reweigh a w db) b) = a_index (aheap db b)"
  "a_clause (aheap (reweigh a w db) b) = a_clause (aheap db b)"
  "a_conflicts (aheap (reweigh a w db) b) = a_conflicts (aheap db b)"
  "resolved_conflicts (aheap (reweigh a w db) b) = resolved_conflicts (aheap db b)"
  by simp_all

lemma reweigh_inv: "cdb_inv X (reweigh a w db) = cdb_inv X db"
proof -
  have "var_static (reweigh a w db) v = var_static db v" for v
    unfolding var_static_def assignment_ok_def by (simp only: reweigh_fields upd_assignment_simps(2-))
  moreover have "var_dynamic (reweigh a w db) v = var_dynamic db v"
    "var_complete (reweigh a w db) v = var_complete db v" for v
    by (simp_all add: var_dynamic_def var_complete_def)
  moreover have v: "valid_assignment (reweigh a w db) b = valid_assignment db b" for b
    unfolding valid_assignment_def by (simp only: reweigh_fields upd_assignment_simps(2-))
  moreover have "datums_ok (reweigh a w db) = datums_ok db"
    unfolding datums_ok_def v by (simp only: reweigh_fields upd_assignment_simps(2-))
  moreover have "conflicts_ok (reweigh a w db) = conflicts_ok db"
    unfolding conflicts_ok_def v by (simp only: reweigh_fields upd_assignment_simps(2-))
  moreover have "insert_pos_ok (reweigh a w db) = insert_pos_ok db"
    by (simp add: insert_pos_ok_def begin_variables_def)
  ultimately show ?thesis by (simp add: cdb_inv_def)
qed

lemma set_weights_ok:
  "returns (set_weights xs w0 db) (\<lambda>db'. cdb_inv X db' = cdb_inv X db \<and> vheap db' = vheap db \<and>
     solver db' = solver db \<and> variables db' = variables db \<and> kheap db' = kheap db \<and> candheap db' = candheap db \<and>
     next_conflict db' = next_conflict db \<and> next_candidate db' = next_candidate db \<and> global_id db' = global_id db \<and>
     candidates db' = candidates db \<and> conflicts db' = conflicts db \<and> assumptions db' = assumptions db \<and>
     assignables db' = assignables db \<and> next_assignment db' = next_assignment db \<and>
     (\<forall>a. a \<notin> set (map snd xs) \<longrightarrow> aheap db' a = aheap db a) \<and>
     (distinct (map snd xs) \<longrightarrow> (\<forall>(w, a) \<in> set xs. weight (aheap db' a) = w)))"
  if "sorted (w0 # map fst xs)"
  using that
proof (induction xs arbitrary: w0 db)
  case (Cons x xs)
  obtain w a where x: "x = (w, a)" by (cases x)
  have "w0 \<le> w" "sorted (w # map fst xs)" using Cons.prems by (simp_all add: x)
  then show ?case
    using Cons.IH [of w "reweigh a w db"]
    by (fastforce simp: x reweigh_inv elim!: returns_mono)
qed simp

lemma set_weights_unsorted: "\<not> sorted (w0 # map fst xs) \<Longrightarrow> set_weights xs w0 db = Inl L2_argument_error"
proof (induction xs arbitrary: w0 db)
  case (Cons x xs)
  obtain w a where x: "x = (w, a)" by (cases x)
  show ?case
  proof (cases "w0 \<le> w")
    case True
    then have "\<not> sorted (w # map fst xs)"
      using Cons.prems by (simp only: x list.map fst_conv sorted2) simp
    then show ?thesis using True Cons.IH by (simp add: x l2_assert_def)
  qed (simp add: x l2_assert_def)
qed simp


text \<open>
  The constructor of an assumption. The domain must have a value, the weights must be as many as
  the values, and they must not decrease.
\<close>

lemma distinct_assignments:
  assumes "var_static db v"
  shows "distinct (v_assignments (vheap db v))"
proof -
  let ?as = "v_assignments (vheap db v)"
  have len: "length ?as < 128" using assms by (simp add: var_static_def)
  have idx: "a_index (aheap db (?as ! i)) = of_nat i" if "i < length ?as" for i
    using assms that by (simp add: var_static_def assignment_ok_def Let_def)
  have "i = j" if "i < length ?as" "j < length ?as" "?as ! i = ?as ! j" for i j
  proof -
    have "(of_nat i :: 32 word) = of_nat j" using idx that by metis
    then have "unat (of_nat i :: 32 word) = unat (of_nat j :: 32 word)" by simp
    then show ?thesis using that len by (simp add: unsigned_of_nat take_bit_nat_eq_self)
  qed
  then show ?thesis by (auto simp: distinct_conv_nth)
qed

lemma default_inv:
  assumes "cdb_inv (insert v X) db" "v \<in> set (variables db)" "v_assignments (vheap db v) = a # as"
    "length (propositions (vheap db v)) = Suc (length as)" "is_assignable (class_of (v_kind (vheap db v)))"
  shows "cdb_inv X (upd_var v (\<lambda>x. x\<lparr>default_assignment := Some a\<rparr>) db)"
proof -
  let ?db = "upd_var v (\<lambda>x. x\<lparr>default_assignment := Some a\<rparr>) db"
  note inv = assms(1)
  have st: "var_static ?db u" if "u \<in> set (variables db)" for u
    by (rule var_static_mono [OF cdb_invD(6) [OF inv that]]) simp_all
  have valid: "valid_assignment ?db b = valid_assignment db b" for b by (simp add: valid_assignment_def)
  have cur: "v_current (vheap ?db u) = v_current (vheap db u)" for u by simp
  have "datums_ok ?db"
    unfolding datums_ok_def valid cur upd_var_simps(2,12) using cdb_invD(3) [OF inv] by (simp add: datums_ok_def)
  moreover have "conflicts_ok ?db"
    using cdb_invD(5) [OF inv] by (simp add: conflicts_ok_def valid)
  moreover have "insert_pos_ok ?db"
    using cdb_invD(4) [OF inv] by (simp add: insert_pos_ok_def begin_variables_def)
  moreover have "var_dynamic ?db u" if "u \<in> set (variables db)" for u
    by (rule var_dynamic_cong [OF cdb_invD(7) [OF inv that]]) simp_all
  moreover have "var_complete ?db u" if "u \<in> set (variables db)" "u \<notin> X" for u
    using cdb_invD(8) [OF inv, of u] that assms(3-5) by (cases "u = v") (simp_all add: var_complete_def)
  ultimately show ?thesis using inv st by (auto simp: cdb_inv_def)
qed

lemma new_assumption_ok:
  assumes inv: "cdb_inv X db" and n: "unat n < 128" and k: "is_assumption (class_of k)"
    and w: "length ws < 2 ^ 32"
  shows "0 < n \<Longrightarrow> length ws = unat n \<Longrightarrow> sorted ws \<Longrightarrow>
      returns (new_assumption k n ws time ident db) (\<lambda>(v, db'). new_var_ok X v k (unat n) db db' \<and>
        map (\<lambda>a. weight (aheap db' a)) (v_assignments (vheap db' v)) = ws)"
    and "0 < n \<Longrightarrow> \<not> (length ws = unat n \<and> sorted ws) \<Longrightarrow>
      new_assumption k n ws time ident db = Inl L2_argument_error"
    and "n = 0 \<Longrightarrow> new_assumption k n ws time ident db = Inl Assert_failed"
proof -
  have ka: "is_assignable (class_of k)" using k by (cases k) (simp_all add: class_defs)
  from new_assignable_ok [OF inv n ka, of time ident] obtain v db1 where
    run: "new_assignable k n time ident db = Inr (v, db1)" and
    db1: "new_var_ok (insert v X) v k (unat n) db db1" by (auto simp: returns_iff)
  let ?as = "v_assignments (vheap db1 v)"
  have len: "length ?as = unat n" using db1 ka by (simp add: new_var_ok_def)
  have wlen: "(of_nat (length ws) = n) = (length ws = unat n)"
    using w by (simp add: word_unat_eq_iff unsigned_of_nat take_bit_nat_eq_self)
  show "n = 0 \<Longrightarrow> new_assumption k n ws time ident db = Inl Assert_failed"
    using len run by simp (simp add: new_assumption_def)
  assume pos: "0 < n"
  then obtain a as where as: "?as = a # as"
    using len by (cases ?as) (auto simp: word_less_nat_alt)
  let ?db2 = "upd_var v (\<lambda>x. x\<lparr>default_assignment := Some a\<rparr>) db1"
  have v: "v \<in> set (variables db1)" using db1 by (simp add: new_var_ok_def)
  have inv2: "cdb_inv X ?db2"
    by (rule default_inv [OF _ v as]) (use db1 len as ka in \<open>auto simp: new_var_ok_def\<close>)
  have fst: "map fst (zip ws (a # as)) = ws" "map snd (zip ws (a # as)) = a # as" if "length ws = unat n"
    using that len as by (simp_all add: map_fst_zip map_snd_zip)
  show "\<not> (length ws = unat n \<and> sorted ws) \<Longrightarrow> new_assumption k n ws time ident db = Inl L2_argument_error"
    using set_weights_unsorted [of 0 "zip ws (a # as)" ?db2] fst(1)
    by (cases "length ws = unat n") (simp_all add: new_assumption_def run as wlen l2_assert_def)
  assume ws: "length ws = unat n" "sorted ws"
  then have "sorted (0 # map fst (zip ws (a # as)))" using fst(1) by simp
  from set_weights_ok [where X = X and db = ?db2, OF this] obtain db3 where
    db3: "set_weights (zip ws (a # as)) 0 ?db2 = Inr db3" "cdb_inv X db3 = cdb_inv X ?db2" "vheap db3 = vheap ?db2"
     "solver db3 = solver db1" "variables db3 = variables db1" "kheap db3 = kheap db1" "candheap db3 = candheap db1"
     "next_conflict db3 = next_conflict db1" "next_candidate db3 = next_candidate db1" "global_id db3 = global_id db1"
     "candidates db3 = candidates db1" "conflicts db3 = conflicts db1" "assumptions db3 = assumptions db1"
     "assignables db3 = assignables db1" "next_assignment db3 = next_assignment db1"
     "\<forall>x. x \<notin> set (map snd (zip ws (a # as))) \<longrightarrow> aheap db3 x = aheap db1 x"
     "distinct (map snd (zip ws (a # as))) \<longrightarrow> (\<forall>(w, x) \<in> set (zip ws (a # as)). weight (aheap db3 x) = w)"
    by (auto simp: returns_iff)
  have "distinct (a # as)" using distinct_assignments [OF cdb_invD(6) [OF inv2, of v]] v as by simp
  then have wt: "weight (aheap db3 x) = w" if "(w, x) \<in> set (zip ws (a # as))" for w x
    using db3(17) fst(2) [OF ws(1)] that by auto
  have "map (\<lambda>x. weight (aheap db3 x)) (a # as) = ws"
  proof (rule nth_equalityI)
    show "length (map (\<lambda>x. weight (aheap db3 x)) (a # as)) = length ws" using ws(1) len as by simp
    fix i assume "i < length (map (\<lambda>x. weight (aheap db3 x)) (a # as))"
    then have i: "i < length ws" "i < length (a # as)" using ws(1) len as by simp_all
    then have "(ws ! i, (a # as) ! i) \<in> set (zip ws (a # as))"
      by (auto simp: in_set_zip)
    from wt [OF this] show "map (\<lambda>x. weight (aheap db3 x)) (a # as) ! i = ws ! i" using i by (cases i) simp_all
  qed
  moreover have "new_var_ok X v k (unat n) db db3"
  proof -
    have "aheap db3 x = aheap db x" if "x < next_assignment db" for x
    proof -
      have "x \<notin> set ?as" using db1 that by (auto simp: new_var_ok_def)
      then have "x \<notin> set (map snd (zip ws (a # as)))" by (simp only: as fst(2) [OF ws(1)] simp_thms)
      then show ?thesis using db3(16) db1 that by (simp add: new_var_ok_def old_kept_def)
    qed
    moreover have "vheap db3 u = vheap db u" if "u \<in> set (variables db)" for u
      using db1 db3(3) that by (auto simp: new_var_ok_def old_kept_def)
    ultimately have "old_kept db db3" using db1 db3(4-15) by (simp add: new_var_ok_def old_kept_def)
    then show ?thesis using db1 db3(2-5) inv2 by (simp add: new_var_ok_def)
  qed
  moreover have "new_assumption k n ws time ident db = Inr (v, db3)"
    using ws(1) wlen db3(1) by (simp add: new_assumption_def run as l2_assert_def)
  moreover have "v_assignments (vheap db3 v) = a # as" using as db3(3) by simp
  ultimately show "returns (new_assumption k n ws time ident db) (\<lambda>(v, db'). new_var_ok X v k (unat n) db db' \<and>
        map (\<lambda>a. weight (aheap db' a)) (v_assignments (vheap db' v)) = ws)"
    by simp
qed

end
