(* ===== verification/Cdb_Conflict.thy ===== *)
theory Cdb_Conflict
  imports Cdb_Assignables
begin

text \<open>
  Recording and destroying conflicts keeps the links between conflicts and assignments, and
  \<open>conflict\<close> answers from unit propagation and the support of a violated clause.
\<close>

subsection \<open>Links between conflicts and assignments\<close>

text \<open>Only the lists of conflicts of the assignments differ.\<close>

definition unlinked_obj :: "assignment_obj \<Rightarrow> assignment_obj" where
  "unlinked_obj x = x\<lparr>a_conflicts := [], resolved_conflicts := []\<rparr>"

definition links_only :: "conflict_db \<Rightarrow> conflict_db \<Rightarrow> bool" where
  "links_only db db' \<longleftrightarrow> db' = db\<lparr>aheap := aheap db'\<rparr> \<and>
     (\<forall>a. unlinked_obj (aheap db' a) = unlinked_obj (aheap db a))"

lemma links_only_refl [simp]: "links_only db db"
  by (simp add: links_only_def)

lemma links_only_trans:
  assumes "links_only db db'" "links_only db' db''"
  shows "links_only db db''"
proof -
  have "db'' = db\<lparr>aheap := aheap db''\<rparr>"
    using assms unfolding links_only_def by (metis conflict_db.surjective conflict_db.update_convs(2))
  then show ?thesis using assms by (simp add: links_only_def)
qed

lemma links_only_upd:
  assumes "\<And>x. unlinked_obj (f x) = unlinked_obj x"
  shows "links_only db (upd_assignment a f db)"
  using assms by (simp add: links_only_def upd_assignment_def)

lemma links_onlyD:
  assumes "links_only db db'"
  shows "vheap db' = vheap db" "kheap db' = kheap db" "solver db' = solver db" "variables db' = variables db"
    "conflicts db' = conflicts db" "next_conflict db' = next_conflict db" "candheap db' = candheap db"
    "a_variable (aheap db' a) = a_variable (aheap db a)" "weight (aheap db' a) = weight (aheap db a)"
    "a_clause (aheap db' a) = a_clause (aheap db a)" "a_index (aheap db' a) = a_index (aheap db a)"
    "siblings db' a = siblings db a" "assumptions db' = assumptions db" "next_assignment db' = next_assignment db"
    "candidates db' = candidates db" "next_candidate db' = next_candidate db"
proof -
  have eq: "db' = db\<lparr>aheap := aheap db'\<rparr>" using assms by (simp add: links_only_def)
  show f: "vheap db' = vheap db" "kheap db' = kheap db" "solver db' = solver db" "variables db' = variables db"
    "conflicts db' = conflicts db" "next_conflict db' = next_conflict db" "candheap db' = candheap db"
    "assumptions db' = assumptions db" "next_assignment db' = next_assignment db"
    "candidates db' = candidates db" "next_candidate db' = next_candidate db"
    by (subst eq, simp)+
  have w: "unlinked_obj (aheap db' b) = unlinked_obj (aheap db b)" for b using assms by (simp add: links_only_def)
  show v: "a_variable (aheap db' a) = a_variable (aheap db a)" "weight (aheap db' a) = weight (aheap db a)"
    "a_clause (aheap db' a) = a_clause (aheap db a)" "a_index (aheap db' a) = a_index (aheap db a)"
    using arg_cong [OF w, of a_variable a] arg_cong [OF w, of weight a] arg_cong [OF w, of a_clause a]
      arg_cong [OF w, of a_index a] by (simp_all add: unlinked_obj_def)
  show "siblings db' a = siblings db a" by (simp add: siblings_def f v)
qed

lemma fold_links:
  assumes "\<And>x. unlinked_obj (f x) = unlinked_obj x" "distinct bs"
  shows "links_only db (fold (\<lambda>b. upd_assignment b f) bs db) \<and>
    (\<forall>x. aheap (fold (\<lambda>b. upd_assignment b f) bs db) x = (if x \<in> set bs then f (aheap db x) else aheap db x))"
  using assms(2)
proof (induction bs arbitrary: db)
  case (Cons b bs)
  have "links_only db (upd_assignment b f db)" using assms(1) by (rule links_only_upd)
  then show ?case using Cons by (auto intro: links_only_trans)
qed simp

text \<open>The effect of linking one assignment, as sets.\<close>

lemma add_link:
  assumes "distinct (v_assignments (vheap db (a_variable (aheap db a))))"
  shows "links_only db (assignment_add_conflict k a db) \<and>
    (\<forall>x. set (a_conflicts (aheap (assignment_add_conflict k a db) x)) =
       set (a_conflicts (aheap db x)) \<union> (if x = a then {k} else {})) \<and>
    (\<forall>x. set (resolved_conflicts (aheap (assignment_add_conflict k a db) x)) =
       set (resolved_conflicts (aheap db x)) \<union> (if x \<in> set (siblings db a) then {k} else {}))"
proof -
  let ?db1 = "if k \<in> set (a_conflicts (aheap db a)) then db
    else upd_assignment a (\<lambda>x. x\<lparr>a_conflicts := k # a_conflicts x\<rparr>) db"
  have l1: "links_only db ?db1" by (auto intro!: links_only_upd simp: unlinked_obj_def)
  have d: "distinct (siblings ?db1 a)"
    using assms unfolding links_onlyD(12) [OF l1] by (simp add: siblings_def)
  have "links_only ?db1 (assignment_add_conflict k a db) \<and>
    (\<forall>x. aheap (assignment_add_conflict k a db) x = (if x \<in> set (siblings ?db1 a)
      then (aheap ?db1 x)\<lparr>resolved_conflicts := k # resolved_conflicts (aheap ?db1 x)\<rparr> else aheap ?db1 x))"
    using fold_links [OF _ d, of "\<lambda>x. x\<lparr>resolved_conflicts := k # resolved_conflicts x\<rparr>" ?db1]
    by (simp add: assignment_add_conflict_def Let_def unlinked_obj_def)
  then show ?thesis
    using links_only_trans [OF l1] unfolding links_onlyD(12) [OF l1] by auto
qed

lemma remove_link:
  assumes "distinct (v_assignments (vheap db (a_variable (aheap db a))))"
  shows "links_only db (assignment_remove_conflict k a db) \<and>
    (\<forall>x. set (a_conflicts (aheap (assignment_remove_conflict k a db) x)) =
       set (a_conflicts (aheap db x)) - (if x = a then {k} else {})) \<and>
    (\<forall>x. set (resolved_conflicts (aheap (assignment_remove_conflict k a db) x)) =
       set (resolved_conflicts (aheap db x)) - (if x \<in> set (siblings db a) then {k} else {}))"
proof -
  let ?db1 = "upd_assignment a (\<lambda>x. x\<lparr>a_conflicts := slist_remove k (a_conflicts x)\<rparr>) db"
  have l1: "links_only db ?db1" by (auto intro!: links_only_upd simp: unlinked_obj_def)
  have d: "distinct (siblings ?db1 a)"
    using assms unfolding links_onlyD(12) [OF l1] by (simp add: siblings_def)
  have "links_only ?db1 (assignment_remove_conflict k a db) \<and>
    (\<forall>x. aheap (assignment_remove_conflict k a db) x = (if x \<in> set (siblings ?db1 a)
      then (aheap ?db1 x)\<lparr>resolved_conflicts := slist_remove k (resolved_conflicts (aheap ?db1 x))\<rparr> else aheap ?db1 x))"
    using fold_links [OF _ d, of "\<lambda>x. x\<lparr>resolved_conflicts := slist_remove k (resolved_conflicts x)\<rparr>" ?db1]
    by (simp add: assignment_remove_conflict_def Let_def unlinked_obj_def)
  then show ?thesis
    using links_only_trans [OF l1] unfolding links_onlyD(12) [OF l1] by auto
qed

text \<open>And of linking, or unlinking, all assignments of a conflict.\<close>

lemma add_links:
  assumes "\<And>a. a \<in> set as \<Longrightarrow> distinct (v_assignments (vheap db (a_variable (aheap db a))))"
  shows "links_only db (fold (assignment_add_conflict k) as db) \<and>
    (\<forall>x. set (a_conflicts (aheap (fold (assignment_add_conflict k) as db) x)) =
       set (a_conflicts (aheap db x)) \<union> (if x \<in> set as then {k} else {})) \<and>
    (\<forall>x. set (resolved_conflicts (aheap (fold (assignment_add_conflict k) as db) x)) =
       set (resolved_conflicts (aheap db x)) \<union> (if \<exists>a \<in> set as. x \<in> set (siblings db a) then {k} else {}))"
  using assms
proof (induction as arbitrary: db)
  case (Cons a as)
  let ?db1 = "assignment_add_conflict k a db"
  note l = add_link [of db a k]
  have l1: "links_only db ?db1" using l Cons.prems by simp
  have "links_only ?db1 (fold (assignment_add_conflict k) as ?db1) \<and>
    (\<forall>x. set (a_conflicts (aheap (fold (assignment_add_conflict k) as ?db1) x)) =
       set (a_conflicts (aheap ?db1 x)) \<union> (if x \<in> set as then {k} else {})) \<and>
    (\<forall>x. set (resolved_conflicts (aheap (fold (assignment_add_conflict k) as ?db1) x)) =
       set (resolved_conflicts (aheap ?db1 x)) \<union> (if \<exists>a \<in> set as. x \<in> set (siblings ?db1 a) then {k} else {}))"
    by (rule Cons.IH) (use Cons.prems links_onlyD [OF l1] in simp)
  then show ?case
    using l Cons.prems links_only_trans [OF l1] unfolding links_onlyD(12) [OF l1] by auto
qed simp

lemma remove_links:
  assumes "\<And>a. a \<in> set as \<Longrightarrow> distinct (v_assignments (vheap db (a_variable (aheap db a))))"
  shows "links_only db (fold (assignment_remove_conflict k) as db) \<and>
    (\<forall>x. set (a_conflicts (aheap (fold (assignment_remove_conflict k) as db) x)) =
       set (a_conflicts (aheap db x)) - (if x \<in> set as then {k} else {})) \<and>
    (\<forall>x. set (resolved_conflicts (aheap (fold (assignment_remove_conflict k) as db) x)) =
       set (resolved_conflicts (aheap db x)) - (if \<exists>a \<in> set as. x \<in> set (siblings db a) then {k} else {}))"
  using assms
proof (induction as arbitrary: db)
  case (Cons a as)
  let ?db1 = "assignment_remove_conflict k a db"
  note l = remove_link [of db a k]
  have l1: "links_only db ?db1" using l Cons.prems by simp
  have "links_only ?db1 (fold (assignment_remove_conflict k) as ?db1) \<and>
    (\<forall>x. set (a_conflicts (aheap (fold (assignment_remove_conflict k) as ?db1) x)) =
       set (a_conflicts (aheap ?db1 x)) - (if x \<in> set as then {k} else {})) \<and>
    (\<forall>x. set (resolved_conflicts (aheap (fold (assignment_remove_conflict k) as ?db1) x)) =
       set (resolved_conflicts (aheap ?db1 x)) - (if \<exists>a \<in> set as. x \<in> set (siblings ?db1 a) then {k} else {}))"
    by (rule Cons.IH) (use Cons.prems links_onlyD [OF l1] in simp)
  then show ?case
    using l Cons.prems links_only_trans [OF l1] unfolding links_onlyD(12) [OF l1] by auto
qed simp


lemma siblings_iff:
  assumes "cdb_inv X db" "valid_assignment db a" "valid_assignment db x"
  shows "x \<in> set (siblings db a) \<longleftrightarrow> x \<noteq> a \<and> a_variable (aheap db a) = a_variable (aheap db x)"
proof -
  have "a_variable (aheap db x) = a_variable (aheap db a)"
    if "x \<in> set (v_assignments (vheap db (a_variable (aheap db a))))"
    using assignment_of [OF cdb_invD(6) [OF assms(1), of "a_variable (aheap db a)"] that] assms(2)
    by (auto simp: valid_assignment_def)
  then show ?thesis using assms(3) by (auto simp: siblings_def valid_assignment_def)
qed

lemma valid_distinct:
  "cdb_inv X db \<Longrightarrow> valid_assignment db a \<Longrightarrow> distinct (v_assignments (vheap db (a_variable (aheap db a))))"
  by (rule distinct_assignments, erule cdb_invD(6)) (simp add: valid_assignment_def)

lemma links_only_valid: "links_only db db' \<Longrightarrow> valid_assignment db' a = valid_assignment db a"
  by (simp add: valid_assignment_def links_onlyD)

lemma links_only_inv:
  assumes "cdb_inv X db" "links_only db db'" "conflicts_ok db''"
    "db'' = db'\<lparr>kheap := K, next_conflict := n, conflicts := ks\<rparr>"
  shows "cdb_inv X db''"
proof -
  note d = links_onlyD [OF assms(2)]
  have eq: "db' = db\<lparr>aheap := aheap db'\<rparr>" using assms(2) by (simp add: links_only_def)
  have f: "insert_pos db' = insert_pos db" "assumptions db' = assumptions db" "assignables db' = assignables db"
    "next_var db' = next_var db" "next_assignment db' = next_assignment db"
    by (subst eq, simp)+
  have static: "var_static db'' v" if "v \<in> set (variables db)" for v
    by (rule var_static_mono [OF cdb_invD(6) [OF assms(1) that]]) (simp_all add: assms(4) d f)
  have "var_dynamic db'' v = var_dynamic db v" "var_complete db'' v = var_complete db v" for v
    by (simp_all add: var_dynamic_def var_complete_def assms(4) d)
  moreover have v: "valid_assignment db'' a = valid_assignment db a" for a
    by (simp add: valid_assignment_def assms(4) d)
  moreover have "datums_ok db''"
    using cdb_invD(3) [OF assms(1)] unfolding datums_ok_def v by (simp add: assms(4) d)
  moreover have "insert_pos_ok db''"
    using cdb_invD(4) [OF assms(1)] by (simp add: insert_pos_ok_def begin_variables_def assms(4) d f)
  ultimately show ?thesis
    using assms(1,3) static by (simp add: cdb_inv_def assms(4) d f)
qed

lemma set_insert_sorted [simp]: "set (insert_sorted r x xs) = insert x (set xs)"
  by (induction xs) auto

lemma distinct_insert_sorted [simp]: "distinct (insert_sorted r x xs) = (x \<notin> set xs \<and> distinct xs)"
  by (induction xs) auto

lemma sorted_insert_sorted:
  fixes f :: "'a \<Rightarrow> 'k::linorder"
  shows "sorted (map f xs) \<Longrightarrow> sorted (map f (insert_sorted (\<lambda>x y. f x < f y) x xs))"
  by (induction xs) (auto simp: not_less intro: order.trans)

lemma new_conflict_ok:
  assumes inv: "cdb_inv X db" and valid: "\<And>a. a \<in> set as \<Longrightarrow> valid_assignment db a"
    and nc: "new_conflict as tag db = (k, db1)"
    and db2: "db2 = db1\<lparr>conflicts := insert_sorted (conflict_is_smaller db1) k (conflicts db1)\<rparr>"
  shows "cdb_inv X db2 \<and> k = next_conflict db \<and> k \<notin> set (conflicts db) \<and>
    set (conflicts db2) = insert k (set (conflicts db)) \<and>
    kheap db2 = (kheap db)(k := \<lparr>conflict_assignments = as, conflict_tag = tag\<rparr>) \<and>
    links_only (db\<lparr>kheap := kheap db2, next_conflict := next_conflict db2, conflicts := conflicts db2\<rparr>) db2"
proof -
  let ?k = "next_conflict db" and ?o = "\<lparr>conflict_assignments = as, conflict_tag = tag\<rparr>"
  let ?db0 = "db\<lparr>kheap := (kheap db)(?k := ?o), next_conflict := Suc ?k\<rparr>"
  have k: "k = ?k" and db1: "db1 = fold (assignment_add_conflict ?k) as ?db0"
    using nc by (auto simp: new_conflict_def Let_def)
  let ?db1 = "fold (assignment_add_conflict ?k) as db"
  have sib: "siblings ?db0 a = siblings db a" for a by (simp add: siblings_def)
  have ad: "links_only ?db0 db1 \<and>
    (\<forall>x. set (a_conflicts (aheap db1 x)) = set (a_conflicts (aheap db x)) \<union> (if x \<in> set as then {?k} else {})) \<and>
    (\<forall>x. set (resolved_conflicts (aheap db1 x)) =
       set (resolved_conflicts (aheap db x)) \<union> (if \<exists>a \<in> set as. x \<in> set (siblings db a) then {?k} else {}))"
    using add_links [of as ?db0 ?k] valid_distinct [OF inv valid] by (simp add: db1 sib)
  then have l0: "links_only ?db0 db1" and ac: "\<And>x. set (a_conflicts (aheap db1 x)) =
       set (a_conflicts (aheap db x)) \<union> (if x \<in> set as then {?k} else {})"
    and rc: "\<And>x. set (resolved_conflicts (aheap db1 x)) =
       set (resolved_conflicts (aheap db x)) \<union> (if \<exists>a \<in> set as. x \<in> set (siblings db a) then {?k} else {})"
    by blast+
  note d0 = links_onlyD [OF l0]
  note co = cdb_invD(5) [OF inv]
  have fresh: "?k \<notin> set (conflicts db)" using co by (auto simp: conflicts_ok_def)
  have l: "links_only db (db\<lparr>aheap := aheap db1\<rparr>)" using l0 by (simp add: links_only_def)
  have eq: "db2 = (db\<lparr>aheap := aheap db1\<rparr>)\<lparr>kheap := (kheap db)(?k := ?o), next_conflict := Suc ?k,
      conflicts := conflicts db2\<rparr>"
  proof -
    obtain H where H: "db1 = ?db0\<lparr>aheap := H\<rparr>" using l0 unfolding links_only_def by blast
    show ?thesis by (simp add: db2 H)
  qed
  have set2: "set (conflicts db2) = insert ?k (set (conflicts db))" by (simp add: db2 k d0)
  have v2: "valid_assignment db2 a = valid_assignment db a" for a
    by (simp add: valid_assignment_def db2 d0)
  have "conflicts_ok db2"
    unfolding conflicts_ok_def v2
  proof (intro conjI ballI allI impI)
    show "distinct (conflicts db2)" using co fresh by (simp add: db2 k d0 conflicts_ok_def)
    let ?f = "\<lambda>j. of_nat (length (conflict_assignments (kheap db1 j))) :: 32 word"
    have eqm: "map ?f (conflicts db) = map (\<lambda>k. of_nat (length (conflict_assignments (kheap db k)))) (conflicts db)"
      using fresh by (auto simp: d0)
    have "sorted (map ?f (conflicts db))" unfolding eqm using co by (simp add: conflicts_ok_def)
    then show "sorted (map (\<lambda>k. of_nat (length (conflict_assignments (kheap db2 k))) :: 32 word) (conflicts db2))"
      using sorted_insert_sorted [of ?f "conflicts db" k]
      by (simp add: db2 d0 conflict_is_smaller_def [abs_def] conflict_size_def [abs_def])
  next
    fix j assume j: "j \<in> set (conflicts db2)"
    show "j < next_conflict db2" using j set2 co by (auto simp: db2 d0 conflicts_ok_def)
    fix a assume "a \<in> set (conflict_assignments (kheap db2 j))"
    then show "valid_assignment db a"
      using j set2 co valid by (cases "j = ?k") (auto simp: db2 d0 conflicts_ok_def)
  next
    fix x assume x: "valid_assignment db x"
    have old: "set (a_conflicts (aheap db x)) = {k \<in> set (conflicts db). x \<in> set (conflict_assignments (kheap db k))}"
      "set (resolved_conflicts (aheap db x)) = {k \<in> set (conflicts db).
        \<exists>b \<in> set (conflict_assignments (kheap db k)). b \<noteq> x \<and> a_variable (aheap db b) = a_variable (aheap db x)}"
      using co x by (simp_all add: conflicts_ok_def)
    have h: "aheap db2 = aheap db1" "kheap db2 = (kheap db)(?k := ?o)" by (simp_all add: db2 d0)
    show "set (a_conflicts (aheap db2 x)) = {j \<in> set (conflicts db2). x \<in> set (conflict_assignments (kheap db2 j))}"
      unfolding h ac old set2 using fresh by auto
    have av: "a_variable (aheap db1 b) = a_variable (aheap db b)" for b using d0(8) by simp
    have "(\<exists>a \<in> set as. x \<in> set (siblings db a)) \<longleftrightarrow>
        (\<exists>b \<in> set as. b \<noteq> x \<and> a_variable (aheap db b) = a_variable (aheap db x))"
      by (intro bex_cong) (auto simp: siblings_iff [OF inv valid x])
    then show "set (resolved_conflicts (aheap db2 x)) = {j \<in> set (conflicts db2).
        \<exists>b \<in> set (conflict_assignments (kheap db2 j)). b \<noteq> x \<and> a_variable (aheap db2 b) = a_variable (aheap db2 x)}"
      unfolding h rc old set2 av using fresh by auto
  qed
  from links_only_inv [OF inv l this eq] have "cdb_inv X db2" .
  moreover have "links_only (db\<lparr>kheap := kheap db2, next_conflict := next_conflict db2, conflicts := conflicts db2\<rparr>) db2"
  proof -
    obtain H where "db1 = ?db0\<lparr>aheap := H\<rparr>" "\<forall>a. unlinked_obj (H a) = unlinked_obj (aheap db a)"
      using l0 unfolding links_only_def by (metis conflict_db.select_convs(2) conflict_db.surjective conflict_db.update_convs(2) conflict_db.update_convs(3) conflict_db.update_convs(7))
    then show ?thesis by (simp add: links_only_def db2)
  qed
  ultimately show ?thesis using fresh set2 by (simp add: k db2 d0)
qed


text \<open>
  Recording a conflict: a conflict that subsumes it is found, or a new one is linked and inserted.
\<close>

lemma add_conflict_ok:
  assumes inv: "cdb_inv X db" and valid: "\<And>a. a \<in> set as \<Longrightarrow> valid_assignment db a"
    and ac: "add_conflict as tag db = (k, db')"
  shows "cdb_inv X db' \<and> k \<in> set (conflicts db') \<and> set (conflict_assignments (kheap db' k)) \<subseteq> set as \<and>
    solver db' = solver db \<and> vheap db' = vheap db \<and> variables db' = variables db \<and>
    (\<forall>a. a_variable (aheap db' a) = a_variable (aheap db a) \<and> a_index (aheap db' a) = a_index (aheap db a)) \<and>
    candheap db' = candheap db \<and> assumptions db' = assumptions db \<and> next_assignment db' = next_assignment db \<and>
    candidates db' = candidates db \<and> next_candidate db' = next_candidate db \<and>
    (\<forall>a. weight (aheap db' a) = weight (aheap db a)) \<and>
    (\<forall>j \<in> set (conflicts db). kheap db' j = kheap db j) \<and>
    (if \<exists>j \<in> set (conflicts db). subsumes (kheap db j) as then db' = db
     else k \<notin> set (conflicts db) \<and> set (conflicts db') = insert k (set (conflicts db)) \<and>
       conflict_assignments (kheap db' k) = as \<and> conflict_tag (kheap db' k) = tag)"
proof (cases "find_subsuming_conflict db as")
  case None
  then have none: "\<not> (\<exists>j \<in> set (conflicts db). subsumes (kheap db j) as)"
    by (auto simp: find_subsuming_conflict_def find_None_iff)
  obtain l db1 where nc: "new_conflict as tag db = (l, db1)" by (cases "new_conflict as tag db") auto
  then have db': "k = l" "db' = db1\<lparr>conflicts := insert_sorted (conflict_is_smaller db1) l (conflicts db1)\<rparr>"
    using ac None by (auto simp: add_conflict_def)
  note n = new_conflict_ok [OF inv valid nc db'(2)]
  have "links_only (db\<lparr>kheap := kheap db', next_conflict := next_conflict db', conflicts := conflicts db'\<rparr>) db'"
    using n by blast
  note d = links_onlyD [OF this]
  have "cdb_inv X db'" "l \<notin> set (conflicts db)" "set (conflicts db') = insert l (set (conflicts db))"
    "kheap db' = (kheap db)(l := \<lparr>conflict_assignments = as, conflict_tag = tag\<rparr>)"
    using n by blast+
  then show ?thesis using d(1,3,4,7,8,9,11,13-16) none by (auto simp: db'(1))
next
  case (Some j)
  then have j: "j \<in> set (conflicts db)" "subsumes (kheap db j) as"
    by (auto simp: find_subsuming_conflict_def find_Some_iff)
  moreover have "k = j" "db' = db" using ac Some by (simp_all add: add_conflict_def)
  ultimately show ?thesis using inv by (auto simp: subsumes_def list_all_iff)
qed

lemma destroy_conflict_ok:
  assumes inv: "cdb_inv X db" and k: "k \<in> set (conflicts db)"
  shows "cdb_inv X (destroy_conflict k db) \<and> set (conflicts (destroy_conflict k db)) = set (conflicts db) - {k} \<and>
    (\<forall>a. valid_assignment db a \<longrightarrow> k \<notin> set (a_conflicts (aheap (destroy_conflict k db) a)) \<and>
       k \<notin> set (resolved_conflicts (aheap (destroy_conflict k db) a))) \<and>
    kheap (destroy_conflict k db) = kheap db"
proof -
  let ?as = "conflict_assignments (kheap db k)"
  let ?db1 = "fold (assignment_remove_conflict k) ?as db" and ?db2 = "destroy_conflict k db"
  note co = cdb_invD(5) [OF inv]
  have valid: "valid_assignment db a" if "a \<in> set ?as" for a using co k that by (auto simp: conflicts_ok_def)
  have rm: "links_only db ?db1" and ac: "\<And>x. set (a_conflicts (aheap ?db1 x)) =
       set (a_conflicts (aheap db x)) - (if x \<in> set ?as then {k} else {})"
    and rc: "\<And>x. set (resolved_conflicts (aheap ?db1 x)) =
       set (resolved_conflicts (aheap db x)) - (if \<exists>a \<in> set ?as. x \<in> set (siblings db a) then {k} else {})"
    using remove_links [of ?as db k] valid_distinct [OF inv valid] by blast+
  note d = links_onlyD [OF rm]
  have db2: "?db2 = ?db1\<lparr>kheap := kheap db, next_conflict := next_conflict db, conflicts := remove1 k (conflicts db)\<rparr>"
  proof -
    have "?db1 = ?db1\<lparr>kheap := kheap db, next_conflict := next_conflict db\<rparr>" using d(2,6) by simp
    then show ?thesis unfolding destroy_conflict_def Let_def d(5) by metis
  qed
  have v2: "valid_assignment ?db2 a = valid_assignment db a" for a
    unfolding db2 by (simp add: valid_assignment_def d)
  have set2: "set (remove1 k (conflicts db)) = set (conflicts db) - {k}"
    using co by (simp add: conflicts_ok_def)
  have sets: "set (a_conflicts (aheap ?db1 x)) =
        {j \<in> set (conflicts db) - {k}. x \<in> set (conflict_assignments (kheap db j))}"
      "set (resolved_conflicts (aheap ?db1 x)) = {j \<in> set (conflicts db) - {k}.
        \<exists>b \<in> set (conflict_assignments (kheap db j)). b \<noteq> x \<and> a_variable (aheap db b) = a_variable (aheap db x)}"
    if x: "valid_assignment db x" for x
  proof -
    have old: "set (a_conflicts (aheap db x)) = {k \<in> set (conflicts db). x \<in> set (conflict_assignments (kheap db k))}"
      "set (resolved_conflicts (aheap db x)) = {k \<in> set (conflicts db).
        \<exists>b \<in> set (conflict_assignments (kheap db k)). b \<noteq> x \<and> a_variable (aheap db b) = a_variable (aheap db x)}"
      using co x by (simp_all add: conflicts_ok_def)
    show "set (a_conflicts (aheap ?db1 x)) =
        {j \<in> set (conflicts db) - {k}. x \<in> set (conflict_assignments (kheap db j))}"
      unfolding ac old by auto
    have "(\<exists>a \<in> set ?as. x \<in> set (siblings db a)) \<longleftrightarrow>
        (\<exists>b \<in> set ?as. b \<noteq> x \<and> a_variable (aheap db b) = a_variable (aheap db x))"
      by (intro bex_cong) (auto simp: siblings_iff [OF inv valid x])
    then show "set (resolved_conflicts (aheap ?db1 x)) = {j \<in> set (conflicts db) - {k}.
        \<exists>b \<in> set (conflict_assignments (kheap db j)). b \<noteq> x \<and> a_variable (aheap db b) = a_variable (aheap db x)}"
      unfolding rc old by auto
  qed
  have h: "aheap ?db2 = aheap ?db1" "kheap ?db2 = kheap db" "conflicts ?db2 = remove1 k (conflicts db)"
    "next_conflict ?db2 = next_conflict db"
    unfolding db2 by simp_all
  have "conflicts_ok ?db2"
    unfolding conflicts_ok_def v2 h d(8) set2
  proof (intro conjI ballI allI impI)
    show "distinct (remove1 k (conflicts db))" using co by (simp add: conflicts_ok_def)
    show "sorted (map (\<lambda>k. of_nat (length (conflict_assignments (kheap db k))) :: 32 word) (remove1 k (conflicts db)))"
      using co by (simp add: conflicts_ok_def sorted_map_remove1)
  qed (use co sets in \<open>auto simp: conflicts_ok_def\<close>)
  from links_only_inv [OF inv rm this db2] have "cdb_inv X ?db2" .
  then show ?thesis using sets set2 by (simp add: h)
qed

end
