(* ===== verification/Cdb_Diagnosis.thy ===== *)
theory Cdb_Diagnosis
  imports Cdb_Conflict
begin

text \<open>
  Propagation and conflicts at the level of assignments: \<open>conflict\<close> finds nothing exactly when unit
  propagation does, and otherwise names current assignments of assumptions; a conflict it records
  has no model together with everything that does not assert an assumption.
\<close>

lemma datum_class_blind: "stamp_blind (datum_class db test)"
  by (simp add: stamp_blind_def datum_class_def)

lemma stamps_only_contents:
  assumes "stamps_only s t"
  shows "same_contents s t" "active t = active s"
proof -
  show "same_contents s t"
    using assms unfolding same_contents_def stamps_only_def
    by (metis (no_types, lifting) clause.select_convs(9) clause.surjective clause.update_convs(7)
        clause_lits_record(4))
  show "active t = active s" using stamps_onlyD(3,5) [OF assms] by (simp add: active_def)
qed

text \<open>A change of the solver that leaves the clauses alone.\<close>

lemma solver_quiet:
  assumes inv: "cdb_inv X db" and "reachable s" "active s = active (solver db)" "same_contents (solver db) s"
    "props s = props (solver db)" "clauses s = clauses (solver db)"
  shows "cdb_inv X (db\<lparr>solver := s\<rparr>)" "same_but_current db (db\<lparr>solver := s\<rparr>)"
proof -
  show same: "same_but_current db (db\<lparr>solver := s\<rparr>)"
    using assms by (simp add: same_but_current_def)
  show "cdb_inv X (db\<lparr>solver := s\<rparr>)"
  proof (rule same_but_current_inv [OF inv same])
    show "reachable (solver (db\<lparr>solver := s\<rparr>))" using assms(2) by simp
    show "var_dynamic (db\<lparr>solver := s\<rparr>) v" if "v \<in> set (variables db)" for v
      using cdb_invD(7) [OF inv that] by (simp add: var_dynamic_def)
    show "c \<in> active (solver (db\<lparr>solver := s\<rparr>)) \<longleftrightarrow>
        v_current (vheap (db\<lparr>solver := s\<rparr>) (a_variable (aheap db a))) = Some a"
      if "c \<in> set (clauses (solver db))" "clause_datum (cheap (solver db) c) = Some a" for c a
      using datums_okD(3) [OF cdb_invD(3) [OF inv] that] assms(3) by simp
  qed
qed

lemma cdb_propagate_ok:
  assumes "cdb_inv X db"
  shows "returns (cdb_propagate db) (\<lambda>(b, db'). cdb_inv X db' \<and> same_but_current db db' \<and>
    vheap db' = vheap db \<and> formula (solver db') = formula (solver db) \<and>
    (b \<longleftrightarrow> \<not> up_conflict (formula (solver db))) \<and>
    (\<forall>l. fst l \<in> set (props (solver db)) \<longrightarrow> lit_tv (pheap (solver db')) l = PTRUE \<longrightarrow> up (formula (solver db)) l) \<and>
    (b \<longrightarrow> (\<forall>l. up (formula (solver db)) l \<longrightarrow> lit_tv (pheap (solver db')) l = PTRUE)))"
  using solver_propagate [OF cdb_invD(1) [OF assms]] solver_quiet [OF assms]
  by (auto simp: cdb_propagate_def elim!: returns_mono)

text \<open>The clause that asserts an assignment has the proposition of its value as only literal.\<close>

definition prop_of :: "conflict_db \<Rightarrow> assignment_id \<Rightarrow> prop_id" where
  "prop_of db a = propositions (vheap db (a_variable (aheap db a))) ! unat (a_index (aheap db a))"

lemma datum_unit:
  assumes inv: "cdb_inv X db" and c: "c \<in> set (clauses (solver db))"
    "clause_datum (cheap (solver db) c) = Some a"
  shows "clause_lits (cheap (solver db) c) = [(prop_of db a, True)]"
proof -
  note d = datums_okD [OF cdb_invD(3) [OF inv] c]
  then have "a_variable (aheap db a) \<in> set (variables db)"
    and "a \<in> set (v_assignments (vheap db (a_variable (aheap db a))))" by (auto simp: valid_assignment_def)
  from assignment_of [OF cdb_invD(6) [OF inv this(1)] this(2)] obtain i c' where
    "i < 128" "a_index (aheap db a) = of_nat i" "a_clause (aheap db a) = Some c'"
    "clause_lits (cheap (solver db) c') = [(propositions (vheap db (a_variable (aheap db a))) ! i, True)]"
    by metis
  then show ?thesis using d(2) by (simp add: prop_of_def unsigned_of_nat take_bit_nat_eq_self)
qed

lemma map_clauses_ok:
  "(\<And>c. c \<in> set cs \<Longrightarrow> clause_datum (cheap s c) \<noteq> None) \<Longrightarrow>
   map_clauses s cs as = Inr (rev (map (\<lambda>c. the (clause_datum (cheap s c))) cs) @ as)"
  by (induction cs arbitrary: as) (auto split: option.splits)

text \<open>The clauses of the theory that assert no assumption.\<close>

definition observed_formula :: "conflict_db \<Rightarrow> cnf" where
  "observed_formula db = (\<lambda>c. set (clause_lits (cheap (solver db) c))) `
     {c \<in> active (solver db). \<not> clause_is_assumption db (cheap (solver db) c)}"

definition is_current :: "conflict_db \<Rightarrow> assignment_id \<Rightarrow> bool" where
  "is_current db a \<longleftrightarrow> valid_assignment db a \<and> v_current (vheap db (a_variable (aheap db a))) = Some a"

definition asserts :: "conflict_db \<Rightarrow> assignment_id set \<Rightarrow> cnf" where
  "asserts db A = (\<lambda>a. {(prop_of db a, True)}) ` A"

lemma conflict_ok:
  assumes inv: "cdb_inv X db"
  shows "returns (conflict tag db) (\<lambda>(r, db'). cdb_inv X db' \<and> formula (solver db') = formula (solver db) \<and>
    vheap db' = vheap db \<and> variables db' = variables db \<and>
    (\<forall>a. a_variable (aheap db' a) = a_variable (aheap db a) \<and> a_index (aheap db' a) = a_index (aheap db a)) \<and>
    hard_formula (solver db') = hard_formula (solver db) \<and> candheap db' = candheap db \<and>
    assumptions db' = assumptions db \<and> next_assignment db' = next_assignment db \<and>
    candidates db' = candidates db \<and> next_candidate db' = next_candidate db \<and>
    (\<forall>a. weight (aheap db' a) = weight (aheap db a)) \<and>
    (\<forall>j \<in> set (conflicts db). kheap db' j = kheap db j) \<and>
    (\<forall>k. r = Some k \<longrightarrow> k \<notin> set (conflicts db) \<longrightarrow> distinct (conflict_assignments (kheap db' k))) \<and>
    (r = None \<longleftrightarrow> \<not> up_conflict (formula (solver db))) \<and>
    (case r of None \<Rightarrow> conflicts db' = conflicts db
     | Some k \<Rightarrow> k \<in> set (conflicts db') \<and> set (conflicts db') = insert k (set (conflicts db)) \<and>
        (\<forall>a \<in> set (conflict_assignments (kheap db' k)). is_current db a \<and>
          is_assumption (class_of (v_kind (vheap db (a_variable (aheap db a)))))) \<and>
        (k \<notin> set (conflicts db) \<longrightarrow> (\<forall>m. \<not> models m (observed_formula db \<union>
          asserts db (set (conflict_assignments (kheap db' k))))))))"
proof -
  let ?s = "solver db" and ?pr = "clause_is_assumption db"
  from solver_propagate [OF cdb_invD(1) [OF inv]] obtain b s1 where
    s1: "propagate ?s = Inr (b, s1)" "reachable s1" "active s1 = active ?s" "same_contents ?s s1"
      "props s1 = props ?s" "clauses s1 = clauses ?s" "formula s1 = formula ?s" "b \<longleftrightarrow> unsatisfied s1 = []"
      "b \<longleftrightarrow> \<not> up_conflict (formula ?s)"
    by (auto simp: returns_iff)
  show ?thesis
  proof (cases b)
    case True
    then show ?thesis using s1 solver_quiet(1) [OF inv s1(2-6)] hard_formula_same [OF s1(4)]
      by (simp add: conflict_def)
  next
    case False
    have blind: "stamp_blind ?pr" by (simp add: clause_is_assumption_def datum_class_blind)
    have pr1: "?pr (cheap s1 c) = ?pr (cheap ?s c)" for c
      by (simp add: clause_is_assumption_def datum_class_def same_contentsD [OF s1(4)])
    have datum: "\<exists>a. clause_datum (cheap ?s c) = Some a" if "?pr (cheap ?s c)" for c
      using that by (auto simp: clause_is_assumption_def datum_class_def split: option.splits)
    have unit: "\<forall>c \<in> active s1. ?pr (cheap s1 c) \<longrightarrow> length (clause_lits (cheap s1 c)) = 1"
    proof (intro ballI impI)
      fix c
      assume c: "c \<in> active s1" "?pr (cheap s1 c)"
      then obtain a where "clause_datum (cheap ?s c) = Some a" using datum pr1 by blast
      then show "length (clause_lits (cheap s1 c)) = 1"
        using datum_unit [OF inv active_clauses [OF c(1) [unfolded s1(3)]]] by (simp add: same_contentsD [OF s1(4)])
    qed
    have un: "unsatisfied s1 \<noteq> []" using False s1(8) by simp
    from last_conflict_ok [OF reachable_inv [OF s1(2)] blind un] unit obtain cs s2 where
      s2: "last_conflict ?pr [] s1 = Inr (cs, s2)" "stamps_only s1 s2" "distinct cs"
        "\<And>c. c \<in> set cs \<Longrightarrow> c \<in> active s1 \<and> ?pr (cheap s1 c)"
        "\<And>m. \<not> models m (conflict_formula ?pr cs s1)"
      by (auto simp: returns_iff)
    note so = stamps_only_contents [OF s2(2)] stamps_onlyD [OF s2(2)]
    have r2: "reachable s2" by (rule reachable_steps(4) [OF s1(2) blind s2(1)])
    have sc2: "same_contents ?s s2" using s1(4) so(1) by (simp add: same_contents_def)
    let ?db2 = "db\<lparr>solver := s2\<rparr>"
    let ?as = "rev (map (\<lambda>c. the (clause_datum (cheap s2 c))) cs)"
    have inv2: "cdb_inv X ?db2"
      by (rule solver_quiet(1) [OF inv r2 _ sc2]) (use s1 so(2,4,5) in simp_all)
    have owner: "clause_datum (cheap s2 c) = Some a \<Longrightarrow> c \<in> set cs \<Longrightarrow> is_current db a \<and>
        is_assumption (class_of (v_kind (vheap db (a_variable (aheap db a))))) \<and>
        set (clause_lits (cheap ?s c)) = {(prop_of db a, True)}" for c a
    proof -
      assume a: "clause_datum (cheap s2 c) = Some a" and c: "c \<in> set cs"
      have a': "clause_datum (cheap ?s c) = Some a" using a by (simp add: same_contentsD [OF sc2])
      have act: "c \<in> active ?s" "?pr (cheap ?s c)" using s2(4) [OF c] s1(3) pr1 by simp_all
      note cl = active_clauses [OF act(1)]
      show ?thesis
        using datums_okD [OF cdb_invD(3) [OF inv] cl a'] act datum_unit [OF inv cl a'] a'
        by (simp add: is_current_def clause_is_assumption_def datum_class_def)
    qed
    have some: "\<exists>a. clause_datum (cheap s2 c) = Some a" if "c \<in> set cs" for c
      using datum [of c] s2(4) [OF that] pr1 by (simp add: same_contentsD [OF sc2])
    then have mc: "map_clauses s2 cs [] = Inr ?as" using map_clauses_ok [of cs s2 "[]"] by simp
    have elem: "is_current db a \<and> is_assumption (class_of (v_kind (vheap db (a_variable (aheap db a)))))"
      if a: "a \<in> set ?as" for a
    proof -
      obtain c where c: "c \<in> set cs" "a = the (clause_datum (cheap s2 c))" using a by auto
      then have "clause_datum (cheap s2 c) = Some a" using some by auto
      then show ?thesis using owner c(1) by blast
    qed
    obtain k db' where ac: "add_conflict ?as tag ?db2 = (k, db')" by (cases "add_conflict ?as tag ?db2") auto
    have "valid_assignment ?db2 a" if "a \<in> set ?as" for a
      using elem [OF that] by (simp add: is_current_def valid_assignment_def)
    note add = add_conflict_ok [OF inv2 this ac]
    have run: "conflict tag db = Inr (Some k, db')"
      using False s1(1) s2(1) mc ac by (simp add: conflict_def)
    have models: "\<not> models m (observed_formula db \<union> asserts db (set ?as))" for m
    proof -
      have "conflict_formula ?pr cs s1 \<subseteq> observed_formula db \<union> asserts db (set ?as)"
      proof
        fix C
        assume "C \<in> conflict_formula ?pr cs s1"
        then obtain c where c: "c \<in> active ?s" "c \<in> set cs \<or> \<not> ?pr (cheap ?s c)" "C = set (clause_lits (cheap ?s c))"
          by (auto simp: conflict_formula_def s1(3) pr1 same_contentsD [OF s1(4)])
        show "C \<in> observed_formula db \<union> asserts db (set ?as)"
        proof (cases "c \<in> set cs")
          case True
          then obtain a where a: "clause_datum (cheap s2 c) = Some a" using some by blast
          then have "a \<in> set ?as" using True by (auto intro!: image_eqI [of _ _ c])
          then show ?thesis using owner [OF a True] c(3) by (auto simp: asserts_def)
        next
          case False
          then show ?thesis using c by (auto simp: observed_formula_def)
        qed
      qed
      then show ?thesis using s2(5) [of m] by (auto simp: models_def)
    qed
    have fs: "formula s2 = formula s1" using so(1,2) by (simp add: formula_def same_contentsD)
    have cur: "\<forall>a \<in> set (conflict_assignments (kheap db' k)). is_current db a \<and>
          is_assumption (class_of (v_kind (vheap db (a_variable (aheap db a)))))"
      using add elem by blast
    have dist: "distinct ?as"
    proof -
      have "inj_on (\<lambda>c. the (clause_datum (cheap s2 c))) (set cs)"
      proof (rule inj_onI)
        fix c d
        assume cd: "c \<in> set cs" "d \<in> set cs" "the (clause_datum (cheap s2 c)) = the (clause_datum (cheap s2 d))"
        obtain a where a: "clause_datum (cheap ?s c) = Some a" "clause_datum (cheap ?s d) = Some a"
          using some [OF cd(1)] some [OF cd(2)] cd(3) by (auto simp: same_contentsD [OF sc2])
        have "c \<in> set (clauses ?s)" "d \<in> set (clauses ?s)"
          using s2(4) [OF cd(1)] s2(4) [OF cd(2)] s1(3) active_clauses by auto
        then show "c = d"
          using datums_okD(2) [OF cdb_invD(3) [OF inv], of c a] datums_okD(2) [OF cdb_invD(3) [OF inv], of d a] a by simp
      qed
      then show ?thesis using s2(3) by (simp add: distinct_map)
    qed
    have "set (conflicts db') = insert k (set (conflicts db)) \<and> (k \<notin> set (conflicts db) \<longrightarrow>
        distinct (conflict_assignments (kheap db' k)) \<and> (\<forall>m. \<not> models m (observed_formula db \<union> asserts db (set (conflict_assignments (kheap db' k))))))"
    proof (cases "\<exists>j \<in> set (conflicts ?db2). subsumes (kheap ?db2 j) ?as")
      case True
      then have "db' = ?db2" using add by simp
      moreover have "k \<in> set (conflicts db')" using add by blast
      ultimately show ?thesis by auto
    next
      case False
      then have "set (conflicts db') = insert k (set (conflicts db))" "conflict_assignments (kheap db' k) = ?as"
        using add by simp_all
      then show ?thesis using models dist by simp
    qed
    moreover have "solver db' = s2" "vheap db' = vheap db" "variables db' = variables db" "cdb_inv X db'"
      "\<forall>a. a_variable (aheap db' a) = a_variable (aheap db a) \<and> a_index (aheap db' a) = a_index (aheap db a)"
      "k \<in> set (conflicts db')" "candheap db' = candheap db" "assumptions db' = assumptions db"
      "next_assignment db' = next_assignment db" "candidates db' = candidates db"
      "next_candidate db' = next_candidate db" "\<forall>a. weight (aheap db' a) = weight (aheap db a)"
      "\<forall>j \<in> set (conflicts db). kheap db' j = kheap db j" using add by simp_all
    moreover have "hard_formula s2 = hard_formula ?s"
      by (rule hard_formula_same [OF sc2]) (use so(2) s1(3) in simp)
    ultimately show ?thesis using cur fs s1(7,9) False by (simp add: run)
  qed
qed

end
