(* ===== verification/Cdb_Destroy.thy ===== *)
theory Cdb_Destroy
  imports Cdb_Diagnosis
begin

text \<open>
  Changes to a variable that the invariant of the database does not look at, and the destruction of
  variables together with their propositions and clauses.
\<close>

subsection \<open>Links over time\<close>

definition link_only :: "(variable_obj \<Rightarrow> variable_obj) \<Rightarrow> bool" where
  "link_only f \<longleftrightarrow> (\<forall>x. v_kind (f x) = v_kind x \<and> propositions (f x) = propositions x \<and> v_current (f x) = v_current x \<and>
     v_saved (f x) = v_saved x \<and> v_assignments (f x) = v_assignments x \<and> default_assignment (f x) = default_assignment x)"

lemma link_fields:
  assumes "link_only f"
  shows "v_kind (vheap (upd_var v f db) u) = v_kind (vheap db u)"
    "propositions (vheap (upd_var v f db) u) = propositions (vheap db u)"
    "v_current (vheap (upd_var v f db) u) = v_current (vheap db u)"
    "v_saved (vheap (upd_var v f db) u) = v_saved (vheap db u)"
    "v_assignments (vheap (upd_var v f db) u) = v_assignments (vheap db u)"
    "default_assignment (vheap (upd_var v f db) u) = default_assignment (vheap db u)"
  using assms by (simp_all add: link_only_def)

lemma link_inv:
  assumes "link_only f" "cdb_inv X db"
  shows "cdb_inv X (upd_var v f db)"
proof -
  note f = link_fields [OF assms(1)] upd_var_simps(2-)
  have v: "var_static (upd_var v f db) u = var_static db u" "var_dynamic (upd_var v f db) u = var_dynamic db u"
    "var_complete (upd_var v f db) u = var_complete db u" "valid_assignment (upd_var v f db) a = valid_assignment db a"
    for u a
    by (simp_all only: var_static_def assignment_ok_def var_dynamic_def var_complete_def valid_assignment_def f)
  have "datums_ok (upd_var v f db) = datums_ok db" "conflicts_ok (upd_var v f db) = conflicts_ok db"
    "insert_pos_ok (upd_var v f db) = insert_pos_ok db"
    by (simp_all only: datums_ok_def conflicts_ok_def insert_pos_ok_def begin_variables_def f v)
  then have "cdb_inv X (upd_var v f db) = cdb_inv X db" by (simp only: cdb_inv_def f v)
  then show ?thesis using assms(2) by simp
qed

lemma insert_previous_inv:
  assumes "cdb_inv X db" "insert_previous v (Some w) db = Inr db'"
  shows "cdb_inv X db'"
proof -
  have l: "link_only (\<lambda>x. x\<lparr>v_next := a\<rparr>)" "link_only (\<lambda>x. x\<lparr>v_previous := a\<rparr>)" for a
    by (simp_all add: link_only_def)
  show ?thesis
    using assms by (auto simp: insert_previous_def Let_def intro!: link_inv l simp del: upd_var_simps split: option.splits if_splits)
qed

subsection \<open>Taking variables out of the list\<close>

text \<open>The iterator after \<open>xs\<close> and before \<open>ys\<close>.\<close>

definition vit_at :: "var_id list \<Rightarrow> var_id list \<Rightarrow> var_iter" where
  "vit_at xs ys = \<lparr>it_current = (case ys of [] \<Rightarrow> None | v # _ \<Rightarrow> Some v),
     it_previous = (if xs = [] then None else Some (last xs))\<rparr>"

lemma begin_at: "begin_variables db = vit_at [] (variables db)"
  by (simp add: vit_at_def begin_variables_def)

lemma vit_at_simps [simp]:
  "vit_eq (vit_at xs ys) end_variables \<longleftrightarrow> ys = []"
  "it_current (vit_at xs (v # ys)) = Some v"
  by (simp_all add: vit_at_def vit_eq_def end_variables_def split: list.split)

lemma at_variable:
  assumes "distinct (xs @ v # ys)"
  shows "tl (dropWhile (\<lambda>x. x \<noteq> v) (xs @ v # ys)) = ys"
    and "xs \<noteq> [] \<Longrightarrow> takeWhile (\<lambda>x. x \<noteq> last xs) (xs @ v # ys) @ [last xs] = xs"
proof -
  have "\<forall>x \<in> set xs. x \<noteq> v" using assms by auto
  then show "tl (dropWhile (\<lambda>x. x \<noteq> v) (xs @ v # ys)) = ys" by simp
  assume "xs \<noteq> []"
  then obtain zs z where z: "xs = zs @ [z]" by (metis append_butlast_last_id)
  then have "\<forall>x \<in> set zs. x \<noteq> z" using assms by auto
  then show "takeWhile (\<lambda>x. x \<noteq> last xs) (xs @ v # ys) @ [last xs] = xs" using z by simp
qed

lemma erase_at:
  assumes "variables db = xs @ v # ys" "distinct (xs @ v # ys)"
  shows "variables_erase (vit_at xs (v # ys)) db = Inr (vit_at xs ys, db\<lparr>variables := xs @ ys\<rparr>)"
proof (cases "xs = []")
  case True
  then show ?thesis using assms by (simp add: variables_erase_def vit_at_def follower_def)
next
  case False
  have "takeWhile (\<lambda>x. x \<noteq> last xs) (xs @ v # ys) @ [last xs] @ ys = xs @ ys"
    using at_variable(2) [OF assms(2) False] by simp
  then show ?thesis
    using False at_variable(1) [OF assms(2)] assms(1) by (simp add: variables_erase_def vit_at_def follower_def)
qed

lemma inc_at:
  assumes "variables db = xs @ v # ys" "distinct (xs @ v # ys)"
  shows "vit_inc (vit_at xs (v # ys)) db = Inr (vit_at (xs @ [v]) ys)"
  using assms at_variable(1) [OF assms(2)] by (simp add: vit_inc_def vit_at_def follower_def)

subsection \<open>The destructor\<close>

definition links_eq :: "variable_obj \<Rightarrow> variable_obj \<Rightarrow> bool" where
  "links_eq x y \<longleftrightarrow> y = x\<lparr>v_previous := v_previous y, v_next := v_next y\<rparr>"

lemma links_eqI: "y = x\<lparr>v_previous := p, v_next := n\<rparr> \<Longrightarrow> links_eq x y"
  by (simp add: links_eq_def)

lemma links_eqE:
  assumes "links_eq x y"
  obtains p n where "y = x\<lparr>v_previous := p, v_next := n\<rparr>"
  using assms unfolding links_eq_def by (rule that)

lemma links_eq_refl [simp]: "links_eq x x"
  by (simp add: links_eq_def)

lemma links_eq_trans: "links_eq x y \<Longrightarrow> links_eq y z \<Longrightarrow> links_eq x z"
  by (elim links_eqE, rule links_eqI) simp

lemma links_eqD:
  assumes "links_eq x y"
  shows "v_kind y = v_kind x" "propositions y = propositions x" "v_current y = v_current x"
    "v_saved y = v_saved x" "v_assignments y = v_assignments x" "default_assignment y = default_assignment x"
    "v_time_step y = v_time_step x" "v_id y = v_id x" "exogenouslyAssigned y = exogenouslyAssigned x"
  using assms by (auto elim!: links_eqE)

lemma delete_variable_ok:
  "delete_variable v db = db\<lparr>solver := fold prop_set_destroying (propositions (vheap db v)) (solver db),
     vheap := vheap (delete_variable v db)\<rparr>"
  "u \<noteq> v \<Longrightarrow> links_eq (vheap db u) (vheap (delete_variable v db) u)"
proof -
  show "delete_variable v db = db\<lparr>solver := fold prop_set_destroying (propositions (vheap db v)) (solver db),
     vheap := vheap (delete_variable v db)\<rparr>"
    by (simp add: delete_variable_def Let_def upd_var_def split: option.split)
  assume "u \<noteq> v"
  then show "links_eq (vheap db u) (vheap (delete_variable v db) u)"
    by (auto simp: delete_variable_def Let_def links_eq_def split: option.split)
qed

text \<open>The acceptor does not look at the links over time.\<close>

definition link_blind :: "(variable_obj \<Rightarrow> bool) \<Rightarrow> bool" where
  "link_blind accept \<longleftrightarrow> (\<forall>x p n. accept (x\<lparr>v_previous := p, v_next := n\<rparr>) = accept x)"

lemma link_blindD: "link_blind accept \<Longrightarrow> links_eq x y \<Longrightarrow> accept y = accept x"
  by (auto simp: link_blind_def elim!: links_eqE)

subsection \<open>The loop\<close>

text \<open>The other variables are accepted or not, and have the same propositions, after a destructor.\<close>

lemma delete_variable_others:
  assumes "link_blind accept" "v \<notin> set ys"
  shows "u \<in> set ys \<Longrightarrow> accept (vheap (delete_variable v db) u) = accept (vheap db u)"
    "filter (\<lambda>u. \<not> accept (vheap (delete_variable v db) u)) ys = filter (\<lambda>u. \<not> accept (vheap db u)) ys"
    "filter (\<lambda>u. accept (vheap (delete_variable v db) u)) ys = filter (\<lambda>u. accept (vheap db u)) ys"
    "map (\<lambda>u. propositions (vheap (delete_variable v db) u)) (filter (\<lambda>u. accept (vheap db u)) ys) =
       map (\<lambda>u. propositions (vheap db u)) (filter (\<lambda>u. accept (vheap db u)) ys)"
proof -
  have l: "links_eq (vheap db u) (vheap (delete_variable v db) u)" if "u \<in> set ys" for u
    using that assms(2) delete_variable_ok(2) [of u v db] by blast
  then show a: "u \<in> set ys \<Longrightarrow> accept (vheap (delete_variable v db) u) = accept (vheap db u)" for u
    using link_blindD [OF assms(1)] by blast
  show "filter (\<lambda>u. \<not> accept (vheap (delete_variable v db) u)) ys = filter (\<lambda>u. \<not> accept (vheap db u)) ys"
    "filter (\<lambda>u. accept (vheap (delete_variable v db) u)) ys = filter (\<lambda>u. accept (vheap db u)) ys"
    using a by (auto intro: filter_cong)
  show "map (\<lambda>u. propositions (vheap (delete_variable v db) u)) (filter (\<lambda>u. accept (vheap db u)) ys) =
       map (\<lambda>u. propositions (vheap db u)) (filter (\<lambda>u. accept (vheap db u)) ys)"
    using links_eqD(2) [OF l] by simp
qed

lemma destroy_loop_ok:
  assumes "link_blind accept" "variables db = xs @ ys" "distinct (xs @ ys)" "length ys \<le> n"
    and "\<forall>v \<in> set ys. accept (vheap db v) \<longrightarrow> it_current (insert_pos db) \<noteq> Some v"
  shows "\<exists>h. destroy_loop n accept (vit_at xs ys) end_variables db = Inr (db\<lparr>
      variables := xs @ filter (\<lambda>v. \<not> accept (vheap db v)) ys,
      solver := fold prop_set_destroying
        (concat (map (\<lambda>v. propositions (vheap db v)) (filter (\<lambda>v. accept (vheap db v)) ys))) (solver db),
      vheap := h\<rparr>) \<and> (\<forall>u. u \<in> set ys \<and> accept (vheap db u) \<or> links_eq (vheap db u) (h u))"
  using assms(2-5)
proof (induction ys arbitrary: n xs db)
  case Nil
  have "destroy_loop n accept (vit_at xs []) end_variables db = Inr db" by (cases n) simp_all
  with Nil show ?case by (auto intro!: exI [of _ "vheap db"])
next
  case (Cons v ys)
  obtain m where n: "n = Suc m" "length ys \<le> m" using Cons.prems(3) by (cases n) simp_all
  show ?case
  proof (cases "accept (vheap db v)")
    case False
    have d: "variables db = (xs @ [v]) @ ys" "distinct ((xs @ [v]) @ ys)" using Cons.prems(1,2) by simp_all
    have "destroy_loop n accept (vit_at xs (v # ys)) end_variables db =
        destroy_loop m accept (vit_at (xs @ [v]) ys) end_variables db"
      using False inc_at [OF Cons.prems(1,2)] by (simp add: n)
    then show ?thesis using Cons.IH [OF d n(2)] Cons.prems(4) False by auto
  next
    case True
    let ?db1 = "db\<lparr>variables := xs @ ys\<rparr>"
    let ?db2 = "delete_variable v ?db1"
    note dv = delete_variable_ok [where v = v and db = ?db1]
    have neq: "\<not> vit_eq (insert_pos db) (vit_at xs (v # ys))" using Cons.prems(4) True by (simp add: vit_eq_def)
    have step: "destroy_loop n accept (vit_at xs (v # ys)) end_variables db =
        destroy_loop m accept (vit_at xs ys) end_variables ?db2"
      using True erase_at [OF Cons.prems(1,2)] neq by (simp add: n Let_def)
    have vs: "variables ?db2 = xs @ ys" "insert_pos ?db2 = insert_pos db" by (subst dv(1), simp)+
    have vh: "links_eq (vheap db u) (vheap ?db2 u)" if "u \<noteq> v" for u using dv(2) [OF that] by simp
    have v1: "vheap ?db1 = vheap db" and nv: "v \<notin> set ys" using Cons.prems(2) by simp_all
    note others = delete_variable_others [where db = ?db1, OF assms(1) nv, unfolded v1]
    have "distinct (xs @ ys)" "\<forall>u \<in> set ys. accept (vheap ?db2 u) \<longrightarrow> it_current (insert_pos ?db2) \<noteq> Some u"
      using Cons.prems(2,4) others(1) vs(2) by auto
    from Cons.IH [OF vs(1) this(1) n(2) this(2)] obtain h where h:
      "destroy_loop m accept (vit_at xs ys) end_variables ?db2 = Inr (?db2\<lparr>
        variables := xs @ filter (\<lambda>v. \<not> accept (vheap db v)) ys,
        solver := fold prop_set_destroying (concat (map (\<lambda>v. propositions (vheap db v))
          (filter (\<lambda>v. accept (vheap db v)) ys))) (solver ?db2), vheap := h\<rparr>)"
      "\<forall>u. u \<in> set ys \<and> accept (vheap ?db2 u) \<or> links_eq (vheap ?db2 u) (h u)"
      unfolding others(2-4) by blast
    have "solver ?db2 = fold prop_set_destroying (propositions (vheap db v)) (solver db)" by (subst dv(1)) simp
    then have "?db2\<lparr>variables := ws, solver := fold prop_set_destroying qs (solver ?db2), vheap := h\<rparr> =
        db\<lparr>variables := ws, solver := fold prop_set_destroying (propositions (vheap db v) @ qs) (solver db), vheap := h\<rparr>"
      for ws qs by (subst dv(1)) simp
    moreover have "u \<in> set (v # ys) \<and> accept (vheap db u) \<or> links_eq (vheap db u) (h u)" for u
      using h(2) [rule_format, of u] vh [of u] others(1) [of u] True links_eq_trans by (cases "u = v") auto
    ultimately show ?thesis using step h(1) True by auto
  qed
qed

subsection \<open>The whole call\<close>

text \<open>
  What the call relies on: no mark is left from before, the insertion point is not next to a
  variable that goes, no recorded conflict assigns one, and no proposition is shared.
\<close>

definition destroyable :: "(variable_obj \<Rightarrow> bool) \<Rightarrow> conflict_db \<Rightarrow> bool" where
  "destroyable accept db \<longleftrightarrow> link_blind accept \<and> unmarked (solver db) \<and>
     (\<forall>v \<in> set_option (it_current (insert_pos db)) \<union> set_option (it_previous (insert_pos db)).
        \<not> accept (vheap db v)) \<and>
     (\<forall>k \<in> set (conflicts db). \<forall>a \<in> set (conflict_assignments (kheap db k)).
        \<not> accept (vheap db (a_variable (aheap db a)))) \<and>
     (\<forall>u \<in> set (variables db). \<forall>v \<in> set (variables db). accept (vheap db v) \<longrightarrow> \<not> accept (vheap db u) \<longrightarrow>
        set (propositions (vheap db u)) \<inter> set (propositions (vheap db v)) = {})"

text \<open>The propositions of the variables that go.\<close>

definition doomed_props :: "(variable_obj \<Rightarrow> bool) \<Rightarrow> conflict_db \<Rightarrow> prop_id set" where
  "doomed_props accept db = (\<Union>v \<in> {v \<in> set (variables db). accept (vheap db v)}. set (propositions (vheap db v)))"

text \<open>The database without them.\<close>

definition bereft :: "(variable_obj \<Rightarrow> bool) \<Rightarrow> conflict_db \<Rightarrow> conflict_db \<Rightarrow> bool" where
  "bereft accept db db' \<longleftrightarrow> variables db' = filter (\<lambda>v. \<not> accept (vheap db v)) (variables db) \<and>
     assignables db' = filter (\<lambda>v. \<not> accept (vheap db v)) (assignables db) \<and>
     assumptions db' = filter (\<lambda>v. \<not> accept (vheap db v)) (assumptions db) \<and>
     insert_pos db' = insert_pos db \<and> aheap db' = aheap db \<and> kheap db' = kheap db \<and> conflicts db' = conflicts db \<and>
     next_var db' = next_var db \<and> next_assignment db' = next_assignment db \<and> next_conflict db' = next_conflict db \<and>
     (\<forall>v \<in> set (variables db'). links_eq (vheap db v) (vheap db' v)) \<and> reachable (solver db') \<and>
     set (clauses (solver db')) = {c \<in> set (clauses (solver db)).
        \<forall>l \<in> set (clause_lits (cheap (solver db) c)). fst l \<notin> doomed_props accept db} \<and>
     set (props (solver db')) = set (props (solver db)) - doomed_props accept db \<and>
     active (solver db') = active (solver db) \<inter> set (clauses (solver db')) \<and>
     (\<forall>c \<in> set (clauses (solver db')). clause_lits (cheap (solver db') c) = clause_lits (cheap (solver db) c) \<and>
        clause_datum (cheap (solver db') c) = clause_datum (cheap (solver db) c))"

lemma reachable_fold_marks:
  "reachable s \<Longrightarrow> set ps \<subseteq> set (props s) \<Longrightarrow> reachable (fold prop_set_destroying ps s)"
proof (induction ps arbitrary: s)
  case (Cons p ps)
  have "reachable (prop_set_destroying p s)" using Cons.prems by (intro reachable_step [OF _ step_mark_prop]) simp_all
  then show ?case using Cons marks_onlyD(1) [OF marks_only_prop_set_destroying [of s p]] by simp
qed simp

lemma destroy_variables_bereft:
  assumes inv: "cdb_ok db" and de: "destroyable accept db"
  shows "returns (destroy_variables accept (begin_variables db) end_variables True db) (bereft accept db)"
proof -
  let ?db1 = "db\<lparr>assignables := filter (\<lambda>v. \<not> accept (vheap db v)) (assignables db),
                   assumptions := filter (\<lambda>v. \<not> accept (vheap db v)) (assumptions db)\<rparr>"
  define ps where "ps = concat (map (\<lambda>v. propositions (vheap db v)) (filter (\<lambda>v. accept (vheap db v)) (variables db)))"
  define ws where "ws = filter (\<lambda>v. \<not> accept (vheap db v)) (variables db)"
  have P: "set ps = doomed_props accept db" by (simp add: ps_def doomed_props_def)
  have "\<exists>h. destroy_loop (length (variables db)) accept (vit_at [] (variables db)) end_variables ?db1 =
      Inr (?db1\<lparr>variables := [] @ filter (\<lambda>v. \<not> accept (vheap ?db1 v)) (variables db),
        solver := fold prop_set_destroying (concat (map (\<lambda>v. propositions (vheap ?db1 v))
          (filter (\<lambda>v. accept (vheap ?db1 v)) (variables db)))) (solver ?db1), vheap := h\<rparr>) \<and>
      (\<forall>u. u \<in> set (variables db) \<and> accept (vheap ?db1 u) \<or> links_eq (vheap ?db1 u) (h u))"
    by (rule destroy_loop_ok) (use inv de in \<open>auto simp: destroyable_def cdb_inv_def\<close>)
  then obtain h where h: "destroy_loop (length (variables db)) accept (vit_at [] (variables db)) end_variables ?db1 =
      Inr (?db1\<lparr>variables := ws, solver := fold prop_set_destroying ps (solver db), vheap := h\<rparr>)"
    "\<forall>u. u \<in> set (variables db) \<and> accept (vheap db u) \<or> links_eq (vheap db u) (h u)"
    by (auto simp: ps_def ws_def)
  have rs: "reachable (solver db)" by (rule cdb_invD(1) [OF inv])
  have sub: "set ps \<subseteq> set (props (solver db))"
    using cdb_invD(6) [OF inv] by (auto simp: ps_def var_static_def)
  have un: "unmarked (solver db)" using de by (simp add: destroyable_def)
  note fm = finish_marked_ok [OF reachable_inv [OF rs] un sub]
  from fm(2) obtain t where t: "ltms_finish_destroying (fold prop_set_destroying ps (solver db)) = Inr t"
    "set (clauses t) = {c \<in> set (clauses (solver db)). \<forall>l \<in> set (clause_lits (cheap (solver db) c)). fst l \<notin> set ps}"
    "set (props t) = set (props (solver db)) - set ps" "active t = active (solver db) \<inter> set (clauses t)"
    "\<forall>c \<in> set (clauses t). clause_lits (cheap t c) = clause_lits (cheap (solver db) c) \<and>
          clause_datum (cheap t c) = clause_datum (cheap (solver db) c)"
    by (elim returnsE) blast
  have "reachable t" by (rule reachable_step [OF reachable_fold_marks [OF rs sub] step_finish [OF fm(1) t(1)]])
  moreover have "links_eq (vheap db v) (h v)" if "v \<in> set ws" for v
    using h(2) that by (auto simp: ws_def)
  ultimately have "bereft accept db (?db1\<lparr>variables := ws, solver := t, vheap := h\<rparr>)"
    unfolding bereft_def using t(2-5) by (simp add: P ws_def)
  moreover have "destroy_variables accept (begin_variables db) end_variables True db =
      Inr (?db1\<lparr>variables := ws, solver := t, vheap := h\<rparr>)"
    by (simp add: destroy_variables_def begin_at Let_def h(1) t(1))
  ultimately show ?thesis by simp
qed

lemma bereftD:
  assumes "bereft accept db db'"
  shows "v \<in> set (variables db') \<longleftrightarrow> v \<in> set (variables db) \<and> \<not> accept (vheap db v)"
    "aheap db' = aheap db" "kheap db' = kheap db" "conflicts db' = conflicts db" "next_var db' = next_var db"
    "next_assignment db' = next_assignment db" "next_conflict db' = next_conflict db"
    "v \<in> set (variables db') \<Longrightarrow> links_eq (vheap db v) (vheap db' v)"
    "c \<in> set (clauses (solver db')) \<longleftrightarrow> c \<in> set (clauses (solver db)) \<and>
       (\<forall>l \<in> set (clause_lits (cheap (solver db) c)). fst l \<notin> doomed_props accept db)"
    "c \<in> set (clauses (solver db')) \<Longrightarrow> clause_lits (cheap (solver db') c) = clause_lits (cheap (solver db) c)"
    "c \<in> set (clauses (solver db')) \<Longrightarrow> clause_datum (cheap (solver db') c) = clause_datum (cheap (solver db) c)"
    "c \<in> active (solver db') \<longleftrightarrow> c \<in> active (solver db) \<and> c \<in> set (clauses (solver db'))"
    "p \<in> set (props (solver db')) \<longleftrightarrow> p \<in> set (props (solver db)) \<and> p \<notin> doomed_props accept db"
  using assms by (auto simp: bereft_def)

lemma kept_props_live:
  assumes "destroyable accept db" "bereft accept db db'" "v \<in> set (variables db')" "p \<in> set (propositions (vheap db v))"
  shows "p \<notin> doomed_props accept db"
proof
  assume "p \<in> doomed_props accept db"
  then obtain u where u: "u \<in> set (variables db)" "accept (vheap db u)" "p \<in> set (propositions (vheap db u))"
    by (auto simp: doomed_props_def)
  have "v \<in> set (variables db)" "\<not> accept (vheap db v)" using bereftD(1) [OF assms(2)] assms(3) by simp_all
  then have "set (propositions (vheap db v)) \<inter> set (propositions (vheap db u)) = {}"
    using assms(1) u(1,2) unfolding destroyable_def by blast
  with u(3) assms(4) show False by blast
qed

lemma bereft_static:
  assumes de: "destroyable accept db" and be: "bereft accept db db'" and v: "v \<in> set (variables db')"
    and st: "var_static db v"
  shows "var_static db' v"
proof -
  note D = bereftD [OF be] and live = kept_props_live [OF de be v]
  note l = links_eqD [OF D(8) [OF v]]
  have dom: "domain_clauses (propositions (vheap db v)) \<subseteq> hard_formula (solver db')"
  proof
    fix C assume C: "C \<in> domain_clauses (propositions (vheap db v))"
    then obtain d where d: "d \<in> active (solver db)" "clause_datum (cheap (solver db) d) = None"
      "C = set (clause_lits (cheap (solver db) d))"
      using st by (auto simp: var_static_def hard_formula_def)
    have "fst k \<in> set (propositions (vheap db v))" if "k \<in> C" for k using C that by (auto simp: domain_clauses_def)
    then have "d \<in> set (clauses (solver db'))"
      using D(9) [of d] active_clauses [OF d(1)] live d(3) by blast
    then show "C \<in> hard_formula (solver db')"
      unfolding hard_formula_def using d D(10-12) by (intro image_eqI [of _ _ d]) simp_all
  qed
  have as: "assignment_ok db' v i" if i: "i < length (v_assignments (vheap db v))" for i
  proof -
    let ?a = "v_assignments (vheap db v) ! i"
    obtain c where c: "c \<in> set (clauses (solver db))" "a_clause (aheap db ?a) = Some c"
        "clause_lits (cheap (solver db) c) = [(propositions (vheap db v) ! i, True)]"
        "clause_datum (cheap (solver db) c) = Some ?a"
      and a: "?a < next_assignment db" "a_variable (aheap db ?a) = v" "a_index (aheap db ?a) = of_nat i"
      using st i by (auto simp: var_static_def assignment_ok_def Let_def)
    have "propositions (vheap db v) ! i \<in> set (propositions (vheap db v))" using st i by (simp add: var_static_def)
    then have "c \<in> set (clauses (solver db'))" using D(9) [of c] c(1,3) live by simp
    then show ?thesis using c a D(2,6,10,11) l(2,5) by (auto simp: assignment_ok_def Let_def)
  qed
  have "set (propositions (vheap db v)) \<subseteq> set (props (solver db'))"
    using st D(13) live by (auto simp: var_static_def)
  then show ?thesis using st dom as l(2,5) D(5) by (simp add: var_static_def)
qed

lemma bereft_valid:
  assumes "bereft accept db db'"
  shows "valid_assignment db' a \<longleftrightarrow> valid_assignment db a \<and> \<not> accept (vheap db (a_variable (aheap db a)))"
  using bereftD(1,2) [OF assms] links_eqD(5) [OF bereftD(8) [OF assms]] by (auto simp: valid_assignment_def)

lemma bereft_datums:
  assumes inv: "cdb_ok db" and be: "bereft accept db db'"
  shows "datums_ok db'"
  unfolding datums_ok_def
proof (intro ballI allI impI)
  note D = bereftD [OF be]
  fix c a
  assume c: "c \<in> set (clauses (solver db'))" "clause_datum (cheap (solver db') c) = Some a"
  then have cs: "c \<in> set (clauses (solver db))" "clause_datum (cheap (solver db) c) = Some a"
    "\<forall>l \<in> set (clause_lits (cheap (solver db) c)). fst l \<notin> doomed_props accept db"
    using D(9,11) by simp_all
  let ?v = "a_variable (aheap db a)"
  from cdb_invD(3) [OF inv] cs(1,2) have a: "valid_assignment db a" "a_clause (aheap db a) = Some c"
    "c \<in> active (solver db) \<longleftrightarrow> v_current (vheap db ?v) = Some a" unfolding datums_ok_def by blast+
  have v: "?v \<in> set (variables db)" "a \<in> set (v_assignments (vheap db ?v))" using a(1) by (simp_all add: valid_assignment_def)
  obtain i where i: "i < length (propositions (vheap db ?v))"
    "clause_lits (cheap (solver db) c) = [(propositions (vheap db ?v) ! i, True)]"
    by (rule assignment_of [OF cdb_invD(6) [OF inv v(1)] v(2)]) (use a(2) in auto)
  have na: "\<not> accept (vheap db ?v)"
  proof
    assume "accept (vheap db ?v)"
    then have "propositions (vheap db ?v) ! i \<in> doomed_props accept db" using v(1) i(1) by (auto simp: doomed_props_def)
    with cs(3) i(2) show False by simp
  qed
  then have "?v \<in> set (variables db')" using v(1) D(1) by simp
  then have "v_current (vheap db' ?v) = v_current (vheap db ?v)" by (rule links_eqD(3) [OF D(8)])
  then show "valid_assignment db' a \<and> a_clause (aheap db' a) = Some c \<and>
      (c \<in> active (solver db') \<longleftrightarrow> v_current (vheap db' (a_variable (aheap db' a))) = Some a)"
    using a na c(1) bereft_valid [OF be, of a] D(2,12) by simp
qed

lemma bereft_insert_pos:
  assumes pos: "insert_pos_ok db" and de: "destroyable accept db" and be: "bereft accept db db'"
  shows "insert_pos_ok db'"
proof -
  have v: "variables db' = filter (\<lambda>v. \<not> accept (vheap db v)) (variables db)" "insert_pos db' = insert_pos db"
    using be by (simp_all add: bereft_def)
  have na: "v \<in> set_option (it_current (insert_pos db)) \<union> set_option (it_previous (insert_pos db)) \<Longrightarrow>
      \<not> accept (vheap db v)" for v using de by (simp add: destroyable_def)
  from pos consider "vit_eq (insert_pos db) (vit_at [] (variables db))"
    | xs p c ys where "variables db = xs @ p # c # ys" "insert_pos db = \<lparr>it_current = Some c, it_previous = Some p\<rparr>"
    unfolding insert_pos_ok_def begin_at by blast
  then show ?thesis
  proof cases
    case 1
    then have "vit_eq (insert_pos db) (vit_at [] (variables db'))"
      using na by (cases "variables db") (auto simp: vit_eq_def vit_at_def v(1))
    then show ?thesis by (simp add: insert_pos_ok_def begin_at v(2))
  next
    case 2
    then have "variables db' = filter (\<lambda>v. \<not> accept (vheap db v)) xs @ p # c # filter (\<lambda>v. \<not> accept (vheap db v)) ys"
      using na v(1) by simp
    then show ?thesis unfolding insert_pos_ok_def v(2) 2(2) by blast
  qed
qed

lemma bereft_conflicts:
  assumes ok: "conflicts_ok db" and de: "destroyable accept db" and be: "bereft accept db db'"
  shows "conflicts_ok db'"
proof -
  note D = bereftD [OF be]
  have "\<forall>k \<in> set (conflicts db). \<forall>a \<in> set (conflict_assignments (kheap db k)). valid_assignment db' a"
    using ok de bereft_valid [OF be] by (simp add: conflicts_ok_def destroyable_def)
  then show ?thesis using ok bereft_valid [OF be] by (simp add: conflicts_ok_def D(2-7))
qed

lemma destroy_variables_ok:
  assumes inv: "cdb_ok db" and de: "destroyable accept db"
  shows "returns (destroy_variables accept (begin_variables db) end_variables True db) (\<lambda>db'.
    cdb_ok db' \<and> variables db' = filter (\<lambda>v. \<not> accept (vheap db v)) (variables db))"
proof (rule returns_mono [OF destroy_variables_bereft [OF assms]])
  fix db' assume be: "bereft accept db db'"
  note D = bereftD [OF be]
  have l: "links_eq (vheap db v) (vheap db' v)" "v \<in> set (variables db)" if "v \<in> set (variables db')" for v
    using D(1,8) that by blast+
  have "var_static db' v \<and> var_dynamic db' v \<and> var_complete db' v" if v: "v \<in> set (variables db')" for v
  proof (intro conjI)
    note k = links_eqD [OF l(1) [OF v]]
    show "var_static db' v" by (rule bereft_static [OF de be v cdb_invD(6) [OF inv l(2) [OF v]]])
    show "var_dynamic db' v" by (rule var_dynamic_cong [OF cdb_invD(7) [OF inv l(2) [OF v]]]) (simp_all add: k)
    show "var_complete db' v" by (rule var_complete_cong [OF cdb_invD(8) [OF inv l(2) [OF v]]]) (simp_all add: k)
  qed
  moreover have "v \<in> set (variables db') \<and> is_assumption (class_of (v_kind (vheap db' v))) \<and> v_assignments (vheap db' v) \<noteq> []"
    if v: "v \<in> set (assumptions db')" for v
  proof -
    have "v \<in> set (assumptions db)" "\<not> accept (vheap db v)" using v be by (simp_all add: bereft_def)
    then have "v \<in> set (variables db')" "is_assumption (class_of (v_kind (vheap db v)))" "v_assignments (vheap db v) \<noteq> []"
      using inv D(1) by (simp_all add: cdb_inv_def)
    then show ?thesis using links_eqD(1,5) [OF D(8)] by simp
  qed
  moreover have "set (assignables db') \<subseteq> set (variables db')" using be inv by (auto simp: bereft_def cdb_inv_def)
  moreover have "reachable (solver db')" "distinct (variables db')"
    "variables db' = filter (\<lambda>v. \<not> accept (vheap db v)) (variables db)"
    using be cdb_invD(2) [OF inv] by (simp_all add: bereft_def)
  ultimately show "cdb_ok db' \<and> variables db' = filter (\<lambda>v. \<not> accept (vheap db v)) (variables db)"
    using bereft_datums [OF inv be] bereft_insert_pos [OF cdb_invD(4) [OF inv] de be]
      bereft_conflicts [OF cdb_invD(5) [OF inv] de be] by (simp add: cdb_inv_def)
qed

end
