(* ===== verification/Candidates.thy ===== *)
theory Candidates
  imports Conflict_Db Slist_Refine
begin

text \<open>
  Candidates (\<open>conflict_db/candidate.h\<close>, \<open>candidate.cpp\<close>) and the list of candidates of the conflict
  database (\<open>conflict_db/conflict_db.cpp\<close>).
\<close>

subsection \<open>A candidate\<close>

text \<open>The constructors give each candidate the next serial number.\<close>

definition new_candidate :: "conflict_db \<Rightarrow> candidate_id \<times> conflict_db" where
  "new_candidate db =
     (let c = next_candidate db; n = global_id db + 1
      in (c, upd_candidate c (\<lambda>_. \<lparr>cand_assignments = [], cand_id = n\<rparr>)
               (db\<lparr>next_candidate := Suc c, global_id := n\<rparr>)))"

definition copy_candidate :: "candidate_id \<Rightarrow> conflict_db \<Rightarrow> candidate_id \<times> conflict_db" where
  "copy_candidate init db = (case new_candidate db of (c, db1) \<Rightarrow>
     (c, upd_candidate c (\<lambda>x. x\<lparr>cand_assignments := cand_assignments (candheap db init)\<rparr>) db1))"

text \<open>
  \<open>operator=\<close> empties the array of the left-hand side before it copies, also when both sides are the
  same object.
\<close>

definition set_candidate :: "candidate_id \<Rightarrow> candidate_id \<Rightarrow> conflict_db \<Rightarrow> conflict_db" where
  "set_candidate c rhs db =
     (let n = global_id db + 1;
          db1 = upd_candidate c (\<lambda>x. x\<lparr>cand_assignments := []\<rparr>) db
      in (upd_candidate c (\<lambda>x. x\<lparr>cand_assignments := cand_assignments (candheap db1 rhs), cand_id := n\<rparr>) db1)
           \<lparr>global_id := n\<rparr>)"

definition candidate_add :: "assignment_id \<Rightarrow> candidate_id \<Rightarrow> conflict_db \<Rightarrow> conflict_db" where
  "candidate_add a c = upd_candidate c (\<lambda>x. x\<lparr>cand_assignments := cand_assignments x @ [a]\<rparr>)"

definition candidate_remove :: "assignment_id \<Rightarrow> candidate_id \<Rightarrow> conflict_db \<Rightarrow> bool \<times> conflict_db" where
  "candidate_remove a c db = (case index_of a (cand_assignments (candheap db c)) of None \<Rightarrow> (False, db)
     | Some i \<Rightarrow> (True, upd_candidate c (\<lambda>x. x\<lparr>cand_assignments := swap_remove i (cand_assignments x)\<rparr>) db))"

definition candidate_assign :: "candidate_id \<Rightarrow> conflict_db \<Rightarrow> conflict_db res" where
  "candidate_assign c db = rfold assignment_assign (cand_assignments (candheap db c)) db"

definition object_contains :: "candidate_obj \<Rightarrow> assignment_id \<Rightarrow> bool" where
  "object_contains x a = list_ex (\<lambda>b. b = a) (cand_assignments x)"

definition candidate_contains :: "conflict_db \<Rightarrow> candidate_id \<Rightarrow> assignment_id \<Rightarrow> bool" where
  "candidate_contains db c = object_contains (candheap db c)"

definition candidate_size :: "conflict_db \<Rightarrow> candidate_id \<Rightarrow> 32 word" where
  "candidate_size db c = of_nat (length (cand_assignments (candheap db c)))"

definition candidate_get_assignment :: "conflict_db \<Rightarrow> candidate_id \<Rightarrow> 32 word \<Rightarrow> assignment_id option" where
  "candidate_get_assignment db c i = (if i \<ge> candidate_size db c then None
     else Some (cand_assignments (candheap db c) ! unat i))"

text \<open>The sum of the weights wraps at 32 bits.\<close>

definition sum_assignment_weights :: "conflict_db \<Rightarrow> assignment_id list \<Rightarrow> weight_t" where
  "sum_assignment_weights db as = fold (\<lambda>a result. result + weight (aheap db a)) as 0"

definition get_weight :: "conflict_db \<Rightarrow> candidate_id \<Rightarrow> weight_t" where
  "get_weight db c = sum_assignment_weights db (cand_assignments (candheap db c))"

definition get_time_step :: "conflict_db \<Rightarrow> assignment_id \<Rightarrow> time_step_t" where
  "get_time_step db a = v_time_step (vheap db (a_variable (aheap db a)))"

definition BEFORE_HORIZON :: time_step_t where "BEFORE_HORIZON = - 1"

definition truncate_candidate :: "time_step_t \<Rightarrow> assignment_id \<Rightarrow> candidate_id \<Rightarrow> conflict_db \<Rightarrow> conflict_db" where
  "truncate_candidate horizon state_eq_si c db =
     (case array_sweep (\<lambda>_ a. get_time_step db a < horizon \<or> get_time_step db a = BEFORE_HORIZON)
             (\<lambda>a old. old @ [a]) 0 (cand_assignments (candheap db c)) [] of
        (recent, old) \<Rightarrow>
          let db1 = candidate_add state_eq_si c (upd_candidate c (\<lambda>x. x\<lparr>cand_assignments := recent\<rparr>) db)
          in upd_assignment state_eq_si (\<lambda>x. x\<lparr>weight := sum_assignment_weights db1 old\<rparr>) db1)"

definition is_inconsistent :: "conflict_db \<Rightarrow> assignment_id \<Rightarrow> assignment_id \<Rightarrow> bool" where
  "is_inconsistent db a b = (b \<noteq> a \<and> a_variable (aheap db b) = a_variable (aheap db a))"

fun replace_inconsistent :: "conflict_db \<Rightarrow> assignment_id \<Rightarrow> assignment_id list \<Rightarrow> assignment_id list" where
  "replace_inconsistent db new [] = [new]"
| "replace_inconsistent db new (a # as) =
     (if is_inconsistent db a new then new # as else a # replace_inconsistent db new as)"

definition add_consistently :: "assignment_id \<Rightarrow> candidate_id \<Rightarrow> conflict_db \<Rightarrow> conflict_db" where
  "add_consistently new c db =
     upd_candidate c (\<lambda>x. x\<lparr>cand_assignments := replace_inconsistent db new (cand_assignments x)\<rparr>) db"

definition object_consistent :: "conflict_db \<Rightarrow> candidate_obj \<Rightarrow> assignment_id \<Rightarrow> bool" where
  "object_consistent db x test =
     list_all (\<lambda>a. a_variable (aheap db a) \<noteq> a_variable (aheap db test)) (cand_assignments x)"

definition consistent_assignment :: "conflict_db \<Rightarrow> candidate_id \<Rightarrow> assignment_id \<Rightarrow> bool" where
  "consistent_assignment db c = object_consistent db (candheap db c)"

definition superset_of :: "conflict_db \<Rightarrow> candidate_id \<Rightarrow> candidate_id \<Rightarrow> bool" where
  "superset_of db c sub = list_all (candidate_contains db c) (cand_assignments (candheap db sub))"

definition equivalent :: "conflict_db \<Rightarrow> candidate_id \<Rightarrow> candidate_id \<Rightarrow> bool" where
  "equivalent db c other = (candidate_size db c = candidate_size db other \<and>
     list_all (candidate_contains db other) (cand_assignments (candheap db c)))"

subsection \<open>Candidates and conflicts\<close>

text \<open>The first assignment of a variable without values does not exist.\<close>

definition best_weight_assignment :: "conflict_db \<Rightarrow> assignment_id \<Rightarrow> assignment_id res" where
  "best_weight_assignment db a = (case v_assignments (vheap db (a_variable (aheap db a))) of
     [] \<Rightarrow> Inl Assert_failed | b # _ \<Rightarrow> Inr b)"

fun not_resolved_loop :: "conflict_db \<Rightarrow> candidate_id \<Rightarrow> assignment_id list \<Rightarrow> bool res" where
  "not_resolved_loop db c [] = Inr True"
| "not_resolved_loop db c (a # as) = rbind (best_weight_assignment db a) (\<lambda>best.
     if candidate_contains db c a = (a = best) then Inr False else not_resolved_loop db c as)"

definition conflict_not_resolved :: "conflict_db \<Rightarrow> candidate_id \<Rightarrow> conflict_id \<Rightarrow> bool res" where
  "conflict_not_resolved db c k = not_resolved_loop db c (conflict_assignments (kheap db k))"

definition smallest_step :: "conflict_db \<Rightarrow> candidate_id \<Rightarrow> assignment_id \<Rightarrow> conflict_id option \<Rightarrow> conflict_id option res" where
  "smallest_step db c a cur = (case a_conflicts (aheap db a) of [] \<Rightarrow> Inr cur
     | k # _ \<Rightarrow> (case cur of None \<Rightarrow> Inr (Some k)
       | Some l \<Rightarrow> rbind (conflict_not_resolved db c k) (\<lambda>b.
           Inr (if b \<and> conflict_is_smaller db k l then Some k else cur))))"

definition smallest_unresolved_conflict :: "conflict_db \<Rightarrow> candidate_id \<Rightarrow> conflict_id option res" where
  "smallest_unresolved_conflict db c = rfold (smallest_step db c) (cand_assignments (candheap db c)) None"

text \<open>
  The assignments of the candidate that are in the conflict. The loop stops at the first item that
  is not lighter, and \<open>Slist::insert\<close> inserts after that item.
\<close>

definition insert_by_weight :: "conflict_db \<Rightarrow> assignment_id \<Rightarrow> assignment_id list \<Rightarrow> assignment_id list" where
  "insert_by_weight db a as =
     list_insert_after (length (takeWhile (\<lambda>b. weight (aheap db a) > weight (aheap db b)) as)) a as"

definition get_conflict_assignments ::
  "conflict_db \<Rightarrow> candidate_id \<Rightarrow> conflict_id option \<Rightarrow> assignment_id list \<Rightarrow> assignment_id list" where
  "get_conflict_assignments db c k conflictList = (case k of None \<Rightarrow> conflictList
     | Some k \<Rightarrow> fold (\<lambda>a as. if k \<in> set (a_conflicts (aheap db a)) then insert_by_weight db a as else as)
                   (cand_assignments (candheap db c)) conflictList)"

subsection \<open>The candidates of the database\<close>

definition getCandidate :: "conflict_db \<Rightarrow> 32 word \<Rightarrow> candidate_id res" where
  "getCandidate db i =
     rbind (l2_assert (i < of_nat (length (candidates db))) L2_bounds_error) (\<lambda>_. Inr (candidates db ! unat i))"

text \<open>The const version tests the index against the number of variables.\<close>

definition getCandidate_const :: "conflict_db \<Rightarrow> 32 word \<Rightarrow> candidate_id res" where
  "getCandidate_const db i =
     rbind (l2_assert (i < of_nat (length (variables db))) L2_bounds_error) (\<lambda>_.
       if unat i < length (candidates db) then Inr (candidates db ! unat i) else Inl Assert_failed)"

definition getIndex :: "conflict_db \<Rightarrow> candidate_id \<Rightarrow> 32 word" where
  "getIndex db c = (case index_of c (candidates db) of None \<Rightarrow> - 1 | Some i \<Rightarrow> of_nat i)"

definition eraseCandidates :: "conflict_db \<Rightarrow> conflict_db" where
  "eraseCandidates db = db\<lparr>candidates := []\<rparr>"

definition install :: "candidate_id \<Rightarrow> bool \<Rightarrow> conflict_db \<Rightarrow> conflict_db res" where
  "install c prop db = rbind (restore_assumption_defaults db) (\<lambda>db1. rbind (candidate_assign c db1) (\<lambda>db2.
     if prop then rbind (cdb_propagate db2) (\<lambda>(_, db3). Inr db3) else Inr db2))"

definition install_index :: "32 word \<Rightarrow> bool \<Rightarrow> conflict_db \<Rightarrow> conflict_db res" where
  "install_index i prop db = rbind (getCandidate db i) (\<lambda>c. install c prop db)"

fun insert_candidate :: "(candidate_id \<Rightarrow> weight_t) \<Rightarrow> candidate_id \<Rightarrow> candidate_id list \<Rightarrow> candidate_id list" where
  "insert_candidate w c [] = [c]"
| "insert_candidate w c (d # ds) = (if w d > w c then c # d # ds else d # insert_candidate w c ds)"

definition addCandidate :: "candidate_id \<Rightarrow> conflict_db \<Rightarrow> conflict_db" where
  "addCandidate c db = db\<lparr>candidates := insert_candidate (get_weight db) c (candidates db)\<rparr>"

definition addAssumption :: "assignment_id \<Rightarrow> conflict_db \<Rightarrow> conflict_db" where
  "addAssumption a db = fold (add_consistently a) (candidates db) db"

end
