(* ===== verification/Cdb_Reach.thy ===== *)
theory Cdb_Reach
  imports Cdb_Destroy Candidates
begin

text \<open>
  The conflict database as a state machine. The steps of \<open>cdb_step\<close> create variables and clauses,
  move the insertion point, assign, unassign and observe, restore the defaults, save and restore,
  propagate, search for and record and destroy conflicts, make, change and install candidates, set
  weights, time steps and the mark of exogenous assignments, link a variable in before another over
  time, and destroy the variables an acceptor picks, when they are \<open>destroyable\<close>. Every database
  that such calls reach from the new one satisfies the invariant. Outside are calls on the solver
  itself (\<open>get_solver\<close>), such as \<open>move_support\<close>, which does not keep the invariant of the solver,
  \<open>Assignable::erase_conflicts\<close>, and \<open>destroy_variables\<close> on a part of the list, without the clean-up,
  or when the variables are not \<open>destroyable\<close>: next to the insertion point, for one, it leaves a
  dangling iterator (\<open>Cdb_Properties.insertion_point_dangles\<close>). The truncation of histories calls
  \<open>move_support\<close> and destroys without the clean-up, so its states are not claimed to be reachable.
\<close>

text \<open>The iterator that points to the \<open>i\<close>th variable.\<close>

definition nth_variable :: "conflict_db \<Rightarrow> nat \<Rightarrow> var_iter" where
  "nth_variable db i = \<lparr>it_current = Some (variables db ! i),
     it_previous = (if i = 0 then None else Some (variables db ! (i - 1)))\<rparr>"

text \<open>The assignments of a candidate exist.\<close>

definition candidate_ok :: "conflict_db \<Rightarrow> candidate_id \<Rightarrow> bool" where
  "candidate_ok db c \<longleftrightarrow> (\<forall>a \<in> set (cand_assignments (candheap db c)). valid_assignment db a)"

text \<open>Only the candidates differ.\<close>

definition no_candidates :: "conflict_db \<Rightarrow> conflict_db" where
  "no_candidates db = db\<lparr>candheap := (\<lambda>_. \<lparr>cand_assignments = [], cand_id = 0\<rparr>), next_candidate := 0,
     global_id := 0, candidates := []\<rparr>"

definition candidates_only :: "conflict_db \<Rightarrow> conflict_db \<Rightarrow> bool" where
  "candidates_only db db' \<longleftrightarrow> no_candidates db' = no_candidates db"

inductive cdb_step :: "conflict_db \<Rightarrow> conflict_db \<Rightarrow> bool" where
  cdb_dependent: "unat n < 128 \<Longrightarrow> create_dependent n t i db = Inr (v, db') \<Longrightarrow> cdb_step db db'"
| cdb_assignable: "unat n < 128 \<Longrightarrow> create_assignable n t i db = Inr (v, db') \<Longrightarrow> cdb_step db db'"
| cdb_command: "unat n < 128 \<Longrightarrow> create_command n t i db = Inr (v, db') \<Longrightarrow> cdb_step db db'"
| cdb_observable: "unat n < 128 \<Longrightarrow> create_observable n t i db = Inr (v, db') \<Longrightarrow> cdb_step db db'"
| cdb_assumption: "unat n < 128 \<Longrightarrow> is_assumption (class_of k) \<Longrightarrow> length ws < 2 ^ 32 \<Longrightarrow>
    new_assumption k n ws t i db = Inr (v, db1) \<Longrightarrow> db' = registerAssumption v db1 \<Longrightarrow> cdb_step db db'"
| cdb_clause: "valid_clause posP negP (solver db) \<Longrightarrow>
    cdb_create_clause posP negP vol inT db = Inr (c, db') \<Longrightarrow> cdb_step db db'"
| cdb_insert_at: "i < length (variables db) \<Longrightarrow>
    set_new_variable_iterator (nth_variable db i) db = Inr db' \<Longrightarrow> cdb_step db db'"
| cdb_assign: "v \<in> set (variables db) \<Longrightarrow> assign_index v i db = Inr db' \<Longrightarrow> cdb_step db db'"
| cdb_unassign: "v \<in> set (variables db) \<Longrightarrow> unassign_var v db = Inr db' \<Longrightarrow> cdb_step db db'"
| cdb_assign_like: "v \<in> set (variables db) \<Longrightarrow> assign_like v w db = Inr db' \<Longrightarrow> cdb_step db db'"
| cdb_observe: "v \<in> set (variables db) \<Longrightarrow> i < int (length (v_assignments (vheap db v))) \<Longrightarrow>
    observe v i db = Inr db' \<Longrightarrow> cdb_step db db'"
| cdb_defaults: "restore_assumption_defaults db = Inr db' \<Longrightarrow> cdb_step db db'"
| cdb_save: "cdb_step db (save_all db)"
| cdb_restore: "\<forall>v \<in> set (variables db). is_assignable (class_of (v_kind (vheap db v))) \<longrightarrow>
    v_saved (vheap db v) \<noteq> None \<Longrightarrow> restore_all db = Inr db' \<Longrightarrow> cdb_step db db'"
| cdb_propagation: "cdb_propagate db = Inr (b, db') \<Longrightarrow> cdb_step db db'"
| cdb_conflict: "conflict tag db = Inr (r, db') \<Longrightarrow> cdb_step db db'"
| cdb_add_conflict: "(\<And>a. a \<in> set as \<Longrightarrow> valid_assignment db a) \<Longrightarrow>
    add_conflict as tag db = (k, db') \<Longrightarrow> cdb_step db db'"
| cdb_destroy_conflict: "k \<in> set (conflicts db) \<Longrightarrow> cdb_step db (destroy_conflict k db)"
| cdb_new_candidate: "new_candidate db = (c, db') \<Longrightarrow> cdb_step db db'"
| cdb_copy_candidate: "copy_candidate c0 db = (c, db') \<Longrightarrow> cdb_step db db'"
| cdb_set_candidate: "cdb_step db (set_candidate c c0 db)"
| cdb_candidate_add: "cdb_step db (candidate_add a c db)"
| cdb_candidate_remove: "candidate_remove a c db = (b, db') \<Longrightarrow> cdb_step db db'"
| cdb_add_consistently: "cdb_step db (add_consistently a c db)"
| cdb_truncate: "cdb_step db (truncate_candidate horizon a c db)"
| cdb_add_candidate: "cdb_step db (addCandidate c db)"
| cdb_add_assumption: "cdb_step db (addAssumption a db)"
| cdb_erase_candidates: "cdb_step db (eraseCandidates db)"
| cdb_install: "candidate_ok db c \<Longrightarrow> install c p db = Inr db' \<Longrightarrow> cdb_step db db'"
| cdb_set_weight: "cdb_step db (set_weight a w db)"
| cdb_link: "insert_previous v w db = Inr db' \<Longrightarrow> cdb_step db db'"
| cdb_time: "cdb_step db (set_time_step v t db)"
| cdb_exogenous: "cdb_step db (set_exogenously_assigned v b db)"
| cdb_destroy: "destroyable accept db \<Longrightarrow>
    destroy_variables accept (begin_variables db) end_variables True db = Inr db' \<Longrightarrow> cdb_step db db'"

inductive reachable_db :: "conflict_db \<Rightarrow> bool" where
  reachable_db_init: "reachable_db new_conflict_db"
| reachable_db_step: "reachable_db db \<Longrightarrow> cdb_step db db' \<Longrightarrow> reachable_db db'"

lemma new_conflict_db_ok: "cdb_ok new_conflict_db"
  by (simp add: cdb_inv_def new_conflict_db_def datums_ok_def insert_pos_ok_def vit_eq_def begin_variables_def
      conflicts_ok_def valid_assignment_def reachable_init) (simp add: new_ltms_def)

lemma returns_InrD: "returns m P \<Longrightarrow> m = Inr x \<Longrightarrow> P x"
  by simp

lemma new_var_inv: "new_var_ok X v k n db db' \<Longrightarrow> cdb_inv X db' \<and> v \<in> set (variables db')"
  by (simp add: new_var_ok_def)

lemma registerAssignable_inv:
  "cdb_inv X db \<Longrightarrow> v \<in> set (variables db) \<Longrightarrow> cdb_inv X (registerAssignable v db)"
  by (simp add: cdb_inv_def registerAssignable_def var_static_def assignment_ok_def var_dynamic_def
      var_complete_def datums_ok_def valid_assignment_def insert_pos_ok_def begin_variables_def conflicts_ok_def)

lemma registerAssumption_inv:
  "cdb_inv X db \<Longrightarrow> v \<in> set (variables db) \<Longrightarrow> is_assumption (class_of (v_kind (vheap db v))) \<Longrightarrow>
   v_assignments (vheap db v) \<noteq> [] \<Longrightarrow> cdb_inv X (registerAssumption v db)"
  unfolding registerAssumption_def
  by (rule registerAssignable_inv)
    (simp_all add: cdb_inv_def var_static_def assignment_ok_def var_dynamic_def
      var_complete_def datums_ok_def valid_assignment_def insert_pos_ok_def begin_variables_def conflicts_ok_def)

lemma insert_pos_inv:
  assumes "cdb_inv X db" "i < length (variables db)"
  shows "set_new_variable_iterator (nth_variable db i) db = Inr (db\<lparr>insert_pos := nth_variable db i\<rparr>)"
    and "cdb_inv X (db\<lparr>insert_pos := nth_variable db i\<rparr>)"
proof -
  show "set_new_variable_iterator (nth_variable db i) db = Inr (db\<lparr>insert_pos := nth_variable db i\<rparr>)"
    by (simp add: set_new_variable_iterator_def nth_variable_def vit_eq_def end_variables_def l2_assert_def)
  have "insert_pos_ok (db\<lparr>insert_pos := nth_variable db i\<rparr>)"
  proof (cases i)
    case 0
    then show ?thesis using assms(2)
      by (cases "variables db") (auto simp: insert_pos_ok_def vit_eq_def begin_variables_def nth_variable_def)
  next
    case (Suc j)
    then have "variables db = take j (variables db) @ variables db ! j # variables db ! i # drop (Suc i) (variables db)"
      using assms(2) by (metis Cons_nth_drop_Suc Suc_lessD id_take_nth_drop)
    then show ?thesis using Suc unfolding insert_pos_ok_def nth_variable_def by auto
  qed
  then show "cdb_inv X (db\<lparr>insert_pos := nth_variable db i\<rparr>)"
    using assms(1) by (simp add: cdb_inv_def var_static_def assignment_ok_def var_dynamic_def
      var_complete_def datums_ok_def valid_assignment_def conflicts_ok_def)
qed

lemma cdb_create_clause_ok:
  assumes inv: "cdb_inv X db" and v: "valid_clause posP negP (solver db)"
  shows "returns (cdb_create_clause posP negP vol inT db) (\<lambda>(c, db'). cdb_inv X db' \<and>
    db' = db\<lparr>solver := solver db'\<rparr> \<and> extends_hard (solver db) (solver db') \<and>
    (inT \<longrightarrow> (\<lambda>p. (p, True)) ` set posP \<union> (\<lambda>p. (p, False)) ` set negP \<in> hard_formula (solver db')))"
proof -
  obtain c s where s: "ltms_create_clause None posP negP vol inT (solver db) = Inr (c, s)" "reachable s"
    "extends_hard (solver db) s" "props s = props (solver db)"
    "inT \<longrightarrow> (\<lambda>p. (p, True)) ` set posP \<union> (\<lambda>p. (p, False)) ` set negP \<in> hard_formula s"
    using hard_clause_ok [OF cdb_invD(1) [OF inv] v, of vol inT] by (auto simp: returns_iff)
  let ?db = "db\<lparr>solver := s\<rparr>"
  have "var_static ?db v" if "v \<in> set (variables db)" for v
    by (rule var_static_mono [OF cdb_invD(6) [OF inv that]]) (use s(3) in \<open>simp_all add: extends_hard_def\<close>)
  moreover have "datums_ok ?db"
    unfolding datums_ok_def
  proof (intro ballI allI impI)
    fix d a
    assume d: "d \<in> set (clauses (solver ?db))" "clause_datum (cheap (solver ?db) d) = Some a"
    then have d': "d \<in> set (clauses (solver db))" using s(3) by (auto simp: extends_hard_def)
    then have "clause_datum (cheap (solver db) d) = Some a" "d \<in> active s \<longleftrightarrow> d \<in> active (solver db)"
      using s(3) d by (auto simp: extends_hard_def grows_def)
    then show "valid_assignment ?db a \<and> a_clause (aheap ?db a) = Some d \<and>
      (d \<in> active (solver ?db)) = (v_current (vheap ?db (a_variable (aheap ?db a))) = Some a)"
      using datums_okD [OF cdb_invD(3) [OF inv] d'] by (simp add: valid_assignment_def)
  qed
  ultimately have "cdb_inv X ?db"
    using inv s(2) by (simp add: cdb_inv_def var_dynamic_def var_complete_def insert_pos_ok_def
        begin_variables_def conflicts_ok_def valid_assignment_def)
  then show ?thesis using s by (simp add: cdb_create_clause_def)
qed

lemma create_dependent_ok:
  assumes "cdb_inv X db" "unat n < 128"
  shows "returns (create_dependent n t i db) (\<lambda>(v, db'). new_var_ok X v Dependent (unat n) db db')"
  using new_variable_ok [OF assms, of Dependent t i]
  by (auto simp: create_dependent_def new_var_ok_def class_defs elim!: returns_mono)

lemma create_assignable_ok:
  assumes "cdb_inv X db" "unat n < 128"
  shows "returns (create_assignable n t i db) (\<lambda>(v, db'). cdb_inv X db' \<and> v \<in> set (variables db'))"
    and "returns (create_command n t i db) (\<lambda>(v, db'). cdb_inv X db' \<and> v \<in> set (variables db'))"
    and "returns (create_observable n t i db) (\<lambda>(v, db'). cdb_inv X db' \<and> v \<in> set (variables db'))"
proof -
  have step: "returns (rbind (new_assignable k n t i db) (\<lambda>(v, db1). Inr (v, registerAssignable v db1)))
      (\<lambda>(v, db'). cdb_inv X db' \<and> v \<in> set (variables db'))"
    if k: "is_assignable (class_of k)" "\<not> is_assumption (class_of k)" for k
  proof -
    obtain v db1 where r: "new_assignable k n t i db = Inr (v, db1)"
      "new_var_ok (insert v X) v k (unat n) db db1"
      using new_assignable_ok [OF assms k(1), of t i] by (auto simp: returns_iff)
    then have "cdb_inv X db1 \<and> v \<in> set (variables db1)" using new_var_inv [OF new_var_complete] k by blast
    then show ?thesis using registerAssignable_inv [of X db1 v] by (simp add: r registerAssignable_def)
  qed
  show "returns (create_assignable n t i db) (\<lambda>(v, db'). cdb_inv X db' \<and> v \<in> set (variables db'))"
    and "returns (create_command n t i db) (\<lambda>(v, db'). cdb_inv X db' \<and> v \<in> set (variables db'))"
    and "returns (create_observable n t i db) (\<lambda>(v, db'). cdb_inv X db' \<and> v \<in> set (variables db'))"
    unfolding create_assignable_def create_command_def create_observable_def
    by (rule step; simp add: class_defs)+
qed

subsection \<open>Candidates\<close>

lemma candidates_only_refl [simp]: "candidates_only db db"
  by (simp add: candidates_only_def)

lemma candidates_only_trans: "candidates_only db db' \<Longrightarrow> candidates_only db' db'' \<Longrightarrow> candidates_only db db''"
  by (simp add: candidates_only_def)

lemma candidates_only_upd_candidate: "candidates_only db (upd_candidate c f db)"
  by (simp add: candidates_only_def no_candidates_def upd_candidate_def)

lemma candidates_only_list: "candidates_only db (db\<lparr>candidates := cs\<rparr>)"
  by (simp add: candidates_only_def no_candidates_def)

lemma no_candidates_inv: "cdb_inv X (no_candidates db) = cdb_inv X db"
  by (simp add: no_candidates_def cdb_inv_def var_static_def assignment_ok_def var_dynamic_def
      var_complete_def datums_ok_def valid_assignment_def insert_pos_ok_def begin_variables_def conflicts_ok_def)

lemma candidates_only_inv: "candidates_only db db' \<Longrightarrow> cdb_inv X db \<Longrightarrow> cdb_inv X db'"
  unfolding candidates_only_def by (metis no_candidates_inv)

lemma candidate_operations:
  "new_candidate db = (c, db') \<Longrightarrow> candidates_only db db'"
  "copy_candidate c0 db = (c, db') \<Longrightarrow> candidates_only db db'"
  "candidates_only db (set_candidate c c0 db)"
  "candidates_only db (candidate_add a c db)"
  "candidate_remove a c db = (b, db') \<Longrightarrow> candidates_only db db'"
  "candidates_only db (add_consistently a c db)"
  "candidates_only db (addCandidate c db)"
  "candidates_only db (addAssumption a db)"
  "candidates_only db (eraseCandidates db)"
proof -
  have new: "candidates_only db db'" if "new_candidate db = (c, db')" for c db'
    using that by (auto simp: new_candidate_def Let_def candidates_only_def no_candidates_def upd_candidate_def)
  then show "new_candidate db = (c, db') \<Longrightarrow> candidates_only db db'" .
  show "copy_candidate c0 db = (c, db') \<Longrightarrow> candidates_only db db'"
    by (auto simp: copy_candidate_def split: prod.splits
        intro: candidates_only_trans [OF new] candidates_only_upd_candidate)
  show "candidates_only db (set_candidate c c0 db)"
    by (simp add: set_candidate_def Let_def candidates_only_def no_candidates_def upd_candidate_def)
  have add: "candidates_only db (add_consistently a c db)" for a c db
    by (simp add: add_consistently_def candidates_only_upd_candidate)
  then show "candidates_only db (add_consistently a c db)" .
  have "candidates_only db (fold (add_consistently a) cs db)" for cs
    by (induction cs rule: rev_induct) (auto intro: candidates_only_trans [OF _ add])
  then show "candidates_only db (addAssumption a db)" by (simp add: addAssumption_def)
qed (auto simp: candidate_add_def candidate_remove_def addCandidate_def eraseCandidates_def
    candidates_only_upd_candidate candidates_only_list split: option.splits)

lemma set_weight_inv: "cdb_inv X (set_weight a w db) = cdb_inv X db"
  using reweigh_inv [of X a w db] by (simp add: set_weight_def)

lemma truncate_inv:
  assumes "cdb_inv X db"
  shows "cdb_inv X (truncate_candidate horizon a c db)"
proof -
  have "\<exists>db1 w. candidates_only db db1 \<and> truncate_candidate horizon a c db = set_weight a w db1"
    unfolding truncate_candidate_def set_weight_def candidate_add_def
    by (auto simp: Let_def split: prod.splits
        intro!: exI conjI candidates_only_trans [OF candidates_only_upd_candidate candidates_only_upd_candidate])
  then show ?thesis using candidates_only_inv assms set_weight_inv by metis
qed

text \<open>Installing a candidate: the defaults, and then its assignments in order.\<close>

definition installed :: "conflict_db \<Rightarrow> candidate_id \<Rightarrow> var_id \<Rightarrow> assignment_id option" where
  "installed db c u = (case find (\<lambda>a. a_variable (aheap db a) = u) (rev (cand_assignments (candheap db c))) of
     Some a \<Rightarrow> Some a
   | None \<Rightarrow> if u \<in> set (assumptions db) then default_assignment (vheap db u) else v_current (vheap db u))"

lemma install_ok:
  assumes inv: "cdb_ok db" and c: "candidate_ok db c"
  shows "returns (install c p db) (\<lambda>db'. cdb_ok db' \<and> same_but_current db db' \<and>
    (\<forall>u. v_saved (vheap db' u) = v_saved (vheap db u)) \<and>
    (\<forall>u. v_current (vheap db' u) = installed db c u))"
proof -
  obtain db1 where d1: "restore_assumption_defaults db = Inr db1" "cdb_ok db1" "same_but_current db db1"
    "\<And>u. v_saved (vheap db1 u) = v_saved (vheap db u)"
    "\<And>u. v_current (vheap db1 u) = (if u \<in> set (assumptions db) then default_assignment (vheap db u)
       else v_current (vheap db u))"
    using restore_assumption_defaults_ok [OF inv] by (auto simp: returns_iff)
  let ?as = "cand_assignments (candheap db c)"
  have h: "aheap db1 = aheap db" "candheap db1 = candheap db" using d1(3) by (simp_all add: same_but_current_def)
  have "valid_assignment db1 a" if "a \<in> set ?as" for a
    using c that same_but_current_conflicts(2) [OF d1(3)] by (simp add: candidate_ok_def)
  then obtain db2 where d2: "candidate_assign c db1 = Inr db2" "cdb_ok db2" "same_but_current db1 db2"
    "\<And>u. v_saved (vheap db2 u) = v_saved (vheap db1 u)"
    "\<And>u. v_current (vheap db2 u) = assign_all (\<lambda>a. a_variable (aheap db a)) Some ?as (\<lambda>u. v_current (vheap db1 u)) u"
    using assignments_loop_ok [OF d1(2), of ?as] by (auto simp: candidate_assign_def returns_iff h)
  have cur: "v_current (vheap db2 u) = installed db c u" for u
    by (simp add: d2(5) d1(5) assign_all_last installed_def)
  note same = same_but_current_trans [OF d1(3) d2(3)]
  show ?thesis
  proof (cases p)
    case False
    then show ?thesis using d1(1,4) d2 cur same by (simp add: install_def)
  next
    case True
    obtain b db3 where d3: "cdb_propagate db2 = Inr (b, db3)" "cdb_ok db3" "same_but_current db2 db3"
      "vheap db3 = vheap db2" using cdb_propagate_ok [OF d2(2)] by (auto simp: returns_iff)
    then show ?thesis
      using True d1(1,4) d2(1,4) cur same_but_current_trans [OF same d3(3)] by (simp add: install_def)
  qed
qed

lemma cdb_step_ok: "cdb_step db db' \<Longrightarrow> cdb_ok db \<Longrightarrow> cdb_ok db'"
proof (induction rule: cdb_step.induct)
  case (cdb_dependent n t i db v db')
  then show ?case using create_dependent_ok [of "{}" db n t i] by (simp add: new_var_ok_def)
next
  case (cdb_assignable n t i db v db')
  then show ?case using create_assignable_ok(1) [of "{}" db n t i] by simp
next
  case (cdb_command n t i db v db')
  then show ?case using create_assignable_ok(2) [of "{}" db n t i] by simp
next
  case (cdb_observable n t i db v db')
  then show ?case using create_assignable_ok(3) [of "{}" db n t i] by simp
next
  case (cdb_assumption n k ws t i db v db1 db')
  note a = new_assumption_ok [OF cdb_assumption.prems cdb_assumption.hyps(1-3), of t i]
  have "n \<noteq> 0" using a(3) cdb_assumption.hyps(4) by auto
  then have "0 < n" by (simp add: word_gt_0)
  then have "length ws = unat n \<and> sorted ws" using a(2) cdb_assumption.hyps(4) by auto
  with \<open>0 < n\<close> have pos: "0 < n" "length ws = unat n" "sorted ws" by simp_all
  from a(1) [OF pos] cdb_assumption.hyps(4) have nv: "new_var_ok {} v k (unat n) db db1" by simp
  have "is_assignable (class_of k)" using cdb_assumption.hyps(2) by (cases k) (simp_all add: class_defs)
  then have "v_assignments (vheap db1 v) \<noteq> []" using nv pos(1) by (auto simp: new_var_ok_def word_less_nat_alt)
  then show ?case
    using nv cdb_assumption.hyps(2,5) registerAssumption_inv [of "{}" db1 v] by (simp add: new_var_ok_def)
next
  case (cdb_clause posP negP db vol inT c db')
  then show ?case using returns_InrD [OF cdb_create_clause_ok, of "{}" db posP negP vol inT "(c, db')"] by simp
next
  case (cdb_insert_at i db db')
  then show ?case using insert_pos_inv [of "{}" db i] by simp
next
  case (cdb_assign v db i db')
  then show ?case using assign_index_ok [of "{}" db v i]
    by (cases "unat i < length (v_assignments (vheap db v))") simp_all
next
  case (cdb_unassign v db db')
  then show ?case using unassign_var_ok [of "{}" db v] by simp
next
  case (cdb_assign_like v db w db')
  show ?case
  proof (cases "v_current (vheap db w)")
    case None
    then show ?thesis using cdb_assign_like unassign_var_ok [of "{}" db v] by (simp add: assign_like_def)
  next
    case (Some a)
    then show ?thesis using cdb_assign_like assign_index_ok [of "{}" db v "a_index (aheap db a)"]
      by (cases "unat (a_index (aheap db a)) < length (v_assignments (vheap db v))") (simp_all add: assign_like_def)
  qed
next
  case (cdb_observe v db i db')
  then show ?case using observe_ok [of "{}" db v i] by (cases "i < 0") (auto simp: not_less)
next
  case (cdb_defaults db db')
  then show ?case using restore_assumption_defaults_ok [of "{}" db] by simp
next
  case (cdb_save db)
  then show ?case using save_loop_ok [of "{}" db "variables db"] by (simp add: save_all_def)
next
  case (cdb_restore db db')
  have "returns (restore_all db) (\<lambda>db'. cdb_ok db' \<and> same_but_current db db' \<and>
    (\<forall>u \<in> set (variables db). v_current (vheap db' u) =
      (if is_assignable (class_of (v_kind (vheap db u))) then the (v_saved (vheap db u)) else None)))"
    by (rule restore_all_ok [OF cdb_restore.prems]) (use cdb_restore.hyps(1) in auto)
  then show ?case using cdb_restore.hyps(2) by simp
next
  case (cdb_propagation db b db')
  then show ?case using cdb_propagate_ok [of "{}" db] by simp
next
  case (cdb_conflict tag db r db')
  then show ?case using conflict_ok [of "{}" db tag] by simp
next
  case (cdb_add_conflict as db tag k db')
  then show ?case using add_conflict_ok [of "{}" db as tag k db'] by blast
next
  case (cdb_destroy_conflict k db)
  then show ?case using destroy_conflict_ok [of "{}" db k] by blast
next
  case (cdb_truncate horizon a c db)
  then show ?case by (rule truncate_inv)
next
  case (cdb_install db c p db')
  then show ?case using install_ok [OF cdb_install.prems cdb_install.hyps(1), of p] by simp
next
  case (cdb_set_weight a w db)
  then show ?case by (simp add: set_weight_inv)
next
  case (cdb_link v w db db')
  then show ?case using insert_previous_inv [of "{}" db v _ db'] by (cases w) (auto simp: insert_previous_def)
next
  case (cdb_time db v t)
  then show ?case unfolding set_time_step_def by (intro link_inv) (simp_all add: link_only_def)
next
  case (cdb_exogenous db v b)
  then show ?case unfolding set_exogenously_assigned_def by (intro link_inv) (simp_all add: link_only_def)
next
  case (cdb_destroy accept db db')
  then show ?case using destroy_variables_ok [of db accept] by simp
qed (blast intro: candidates_only_inv candidate_operations)+

lemma reachable_db_ok: "reachable_db db \<Longrightarrow> cdb_ok db"
  by (induction rule: reachable_db.induct) (auto intro: new_conflict_db_ok cdb_step_ok)

end
