(* ===== verification/Cdb_Search.thy ===== *)
theory Cdb_Search
  imports Cdb_Reach
begin

text \<open>
  What a search does with the database between \<open>save\<close> and \<open>restore\<close>, and the values of the
  variables after propagation.
\<close>

subsection \<open>The theory is the hard clauses and the current assignments\<close>

lemma formula_by_current:
  assumes inv: "cdb_inv X db"
  shows "formula (solver db) = hard_formula (solver db) \<union> asserts db {a. is_current db a}"
proof (intro equalityI subsetI)
  fix C
  assume "C \<in> formula (solver db)"
  then obtain c where c: "c \<in> active (solver db)" "C = set (clause_lits (cheap (solver db) c))"
    by (auto simp: formula_def)
  note cl = active_clauses [OF c(1)]
  show "C \<in> hard_formula (solver db) \<union> asserts db {a. is_current db a}"
  proof (cases "clause_datum (cheap (solver db) c)")
    case None
    then show ?thesis using c by (auto simp: hard_formula_def)
  next
    case (Some a)
    note d = datums_okD [OF cdb_invD(3) [OF inv] cl Some]
    then have "is_current db a" using c(1) by (simp add: is_current_def)
    then show ?thesis using datum_unit [OF inv cl Some] c(2) by (auto simp: asserts_def)
  qed
next
  fix C
  assume "C \<in> hard_formula (solver db) \<union> asserts db {a. is_current db a}"
  then consider "C \<in> hard_formula (solver db)" | a where "is_current db a" "C = {(prop_of db a, True)}"
    by (auto simp: asserts_def)
  then show "C \<in> formula (solver db)"
  proof cases
    case 1
    then show ?thesis by (auto simp: hard_formula_def formula_def)
  next
    case 2
    then have v: "a_variable (aheap db a) \<in> set (variables db)"
      "a \<in> set (v_assignments (vheap db (a_variable (aheap db a))))" by (auto simp: is_current_def valid_assignment_def)
    from assignment_of [OF cdb_invD(6) [OF inv v(1)] v(2)] obtain c where
      c: "c \<in> set (clauses (solver db))" "clause_datum (cheap (solver db) c) = Some a" by metis
    have "c \<in> active (solver db)"
      using datums_okD(3) [OF cdb_invD(3) [OF inv] c] 2(1) by (simp add: is_current_def)
    then show ?thesis using datum_unit [OF inv c] 2(2) by (auto simp: formula_def intro!: image_eqI [of _ _ c])
  qed
qed

subsection \<open>Exploring\<close>

text \<open>What exploring hypotheses leaves alone.\<close>

definition same_problem :: "conflict_db \<Rightarrow> conflict_db \<Rightarrow> bool" where
  "same_problem db db' \<longleftrightarrow> variables db' = variables db \<and> hard_formula (solver db') = hard_formula (solver db) \<and>
     (\<forall>a. a_variable (aheap db' a) = a_variable (aheap db a) \<and> a_index (aheap db' a) = a_index (aheap db a)) \<and>
     (\<forall>v. v_kind (vheap db' v) = v_kind (vheap db v) \<and> propositions (vheap db' v) = propositions (vheap db v) \<and>
        v_assignments (vheap db' v) = v_assignments (vheap db v) \<and> v_saved (vheap db' v) = v_saved (vheap db v))"

lemma same_problem_refl [simp]: "same_problem db db"
  by (simp add: same_problem_def)

lemma same_problem_trans: "same_problem db db' \<Longrightarrow> same_problem db' db'' \<Longrightarrow> same_problem db db''"
  by (simp add: same_problem_def)

lemma same_but_current_problem:
  assumes "same_but_current db db'" "\<And>v. v_saved (vheap db' v) = v_saved (vheap db v)"
  shows "same_problem db db'"
  using assms(1) same_but_current_var [OF assms(1)] hard_formula_same [of "solver db" "solver db'"] assms(2)
  by (simp add: same_problem_def same_but_current_def)

text \<open>The calls of a search: it assigns, unassigns, installs candidates, propagates and asks for conflicts.\<close>

inductive explores :: "conflict_db \<Rightarrow> conflict_db \<Rightarrow> bool" where
  explores_refl: "explores db db"
| explores_assign: "explores db db1 \<Longrightarrow> v \<in> set (variables db1) \<Longrightarrow> assign_index v i db1 = Inr db2 \<Longrightarrow> explores db db2"
| explores_unassign: "explores db db1 \<Longrightarrow> v \<in> set (variables db1) \<Longrightarrow> unassign_var v db1 = Inr db2 \<Longrightarrow> explores db db2"
| explores_defaults: "explores db db1 \<Longrightarrow> restore_assumption_defaults db1 = Inr db2 \<Longrightarrow> explores db db2"
| explores_install: "explores db db1 \<Longrightarrow> candidate_ok db1 c \<Longrightarrow> install c p db1 = Inr db2 \<Longrightarrow> explores db db2"
| explores_propagate: "explores db db1 \<Longrightarrow> cdb_propagate db1 = Inr (b, db2) \<Longrightarrow> explores db db2"
| explores_conflict: "explores db db1 \<Longrightarrow> conflict tag db1 = Inr (r, db2) \<Longrightarrow> explores db db2"

lemma assigned_to_problem: "assigned_to v a db db' \<Longrightarrow> same_problem db db'"
  by (rule same_but_current_problem) (simp_all add: assigned_toD)

lemma explores_ok: "explores db db' \<Longrightarrow> cdb_ok db \<Longrightarrow> cdb_ok db' \<and> same_problem db db'"
proof (induction rule: explores.induct)
  case (explores_assign db db1 v i db2)
  then show ?case using assign_index_ok [of "{}" db1 v i] assigned_to_problem same_problem_trans
    by (cases "unat i < length (v_assignments (vheap db1 v))") (auto simp: returns_iff)
next
  case (explores_unassign db db1 v db2)
  then show ?case using unassign_var_ok [of "{}" db1 v] assigned_to_problem same_problem_trans
    by (auto simp: returns_iff)
next
  case (explores_defaults db db1 db2)
  then have "cdb_ok db2 \<and> same_problem db1 db2"
    using restore_assumption_defaults_ok [of "{}" db1] same_but_current_problem by (simp add: returns_iff)
  then show ?case using explores_defaults same_problem_trans by blast
next
  case (explores_install db db1 c p db2)
  then have "cdb_ok db2 \<and> same_problem db1 db2"
    using install_ok [of db1 c p] same_but_current_problem by (simp add: returns_iff)
  then show ?case using explores_install same_problem_trans by blast
next
  case (explores_propagate db db1 b db2)
  then have "cdb_ok db2 \<and> same_problem db1 db2"
    using cdb_propagate_ok [of "{}" db1] same_but_current_problem by (simp add: returns_iff)
  then show ?case using explores_propagate same_problem_trans by blast
next
  case (explores_conflict db db1 tag r db2)
  then have "cdb_ok db2 \<and> same_problem db1 db2"
    using conflict_ok [of "{}" db1 tag] by (simp add: returns_iff same_problem_def)
  then show ?case using explores_conflict same_problem_trans by blast
qed simp

lemma asserts_same:
  assumes "same_problem db db'" "\<And>v. v \<in> set (variables db) \<Longrightarrow> v_current (vheap db' v) = v_current (vheap db v)"
  shows "asserts db' {a. is_current db' a} = asserts db {a. is_current db a}"
proof -
  have "is_current db' a = is_current db a" for a
    using assms by (auto simp: is_current_def valid_assignment_def same_problem_def)
  moreover have "prop_of db' a = prop_of db a" for a using assms(1) by (simp add: prop_of_def same_problem_def)
  ultimately show ?thesis by (simp add: asserts_def)
qed

lemma save_explore_restore:
  assumes ok: "cdb_ok db" and ex: "explores (save_all db) db'"
  shows "returns (restore_all db') (\<lambda>db''. cdb_ok db'' \<and> formula (solver db'') = formula (solver db) \<and>
    (\<forall>v \<in> set (variables db). v_current (vheap db'' v) = v_current (vheap db v)))"
proof -
  let ?s = "save_all db"
  note sv = save_loop_ok [OF ok, of "variables db", folded save_all_def]
  have s: "cdb_ok ?s" "same_but_current db ?s" "\<And>u. v_current (vheap ?s u) = v_current (vheap db u)"
    using sv by blast+
  have "variables ?s = variables db" "hard_formula (solver ?s) = hard_formula (solver db)"
    "aheap ?s = aheap db"
    using s(2) hard_formula_same [of "solver db" "solver ?s"] by (simp_all add: same_but_current_def)
  note f = this and v = same_but_current_var [OF s(2)]
  have e: "cdb_ok db'" "same_problem ?s db'" using explores_ok [OF ex s(1)] by blast+
  have saved: "v_saved (vheap db' u) = Some (v_current (vheap db u))"
    if "u \<in> set (variables db')" "is_assignable (class_of (v_kind (vheap db' u)))" for u
    using that e(2) sv f v by (simp add: same_problem_def)
  obtain db'' where r: "restore_all db' = Inr db''" "cdb_ok db''" "same_but_current db' db''"
    "\<And>u. u \<in> set (variables db') \<Longrightarrow> v_current (vheap db'' u) =
       (if is_assignable (class_of (v_kind (vheap db' u))) then v_current (vheap db u) else None)"
    using restore_all_ok [OF e(1), of "\<lambda>u. v_current (vheap db u)"] saved by (auto simp: returns_iff)
  have cur: "v_current (vheap db'' u) = v_current (vheap db u)" if "u \<in> set (variables db)" for u
    using r(4) [of u] that e(2) f(1) v(1) not_assignable(2) [OF ok that] by (auto simp: same_problem_def)
  have "v_assignments (vheap db'' u) = v_assignments (vheap db u)" "propositions (vheap db'' u) = propositions (vheap db u)" for u
    using same_but_current_var(2,3) [OF r(3)] e(2) v(2,3) by (simp_all add: same_problem_def)
  moreover have "variables db'' = variables db" "\<And>a. a_variable (aheap db'' a) = a_variable (aheap db a)"
    "\<And>a. a_index (aheap db'' a) = a_index (aheap db a)"
    using r(3) e(2) f by (simp_all add: same_but_current_def same_problem_def)
  ultimately have "asserts db'' {a. is_current db'' a} = asserts db {a. is_current db a}"
    using cur unfolding asserts_def prop_of_def is_current_def valid_assignment_def
    by (intro image_cong) auto
  moreover have "hard_formula (solver db'') = hard_formula (solver db)"
    using r(3) hard_formula_same [of "solver db'" "solver db''"] e(2) f by (simp add: same_but_current_def same_problem_def)
  ultimately have "formula (solver db'') = formula (solver db)"
    unfolding formula_by_current [OF r(2)] formula_by_current [OF ok] by simp
  then show ?thesis using r(1,2) cur by simp
qed

subsection \<open>Values after propagation\<close>

lemma lit_tv_isTrue: "lit_tv ph (p, True) = PTRUE \<longleftrightarrow> isTrue (ph p)" "lit_tv ph (p, False) = PTRUE \<longleftrightarrow> isFalse (ph p)"
  by (cases "tv (ph p)"; simp add: lit_tv_def isTrue_def isFalse_def)+

lemma hard_in_formula: "hard_formula s \<subseteq> formula s"
  by (auto simp: hard_formula_def formula_def)

lemma domain_in_formula:
  assumes "cdb_inv X db" "v \<in> set (variables db)"
  shows "(\<lambda>p. (p, True)) ` set (propositions (vheap db v)) \<in> formula (solver db)"
    and "i < j \<Longrightarrow> j < length (propositions (vheap db v)) \<Longrightarrow>
      {(propositions (vheap db v) ! i, False), (propositions (vheap db v) ! j, False)} \<in> formula (solver db)"
  using cdb_invD(6) [OF assms] hard_in_formula [of "solver db"]
  unfolding var_static_def domain_clauses_def by blast+

text \<open>At most one value of a variable is derivable, and they are not all excluded.\<close>

lemma one_value_excludes:
  assumes inv: "cdb_inv X db" and v: "v \<in> set (variables db)"
    and ij: "i < length (propositions (vheap db v))" "j < length (propositions (vheap db v))" "i \<noteq> j"
    and up: "up (formula (solver db)) (propositions (vheap db v) ! i, True)"
  shows "up (formula (solver db)) (propositions (vheap db v) ! j, False)"
proof -
  let ?ps = "propositions (vheap db v)"
  have "{(?ps ! i, False), (?ps ! j, False)} \<in> formula (solver db)"
    using domain_in_formula(2) [OF inv v, of i j] domain_in_formula(2) [OF inv v, of j i] ij
    by (cases i j rule: linorder_cases) (auto simp: insert_commute)
  moreover have "neg_lit (?ps ! i, False) = (?ps ! i, True)" by (simp add: neg_lit_def)
  ultimately show ?thesis using up by (auto intro: up.unit)
qed

definition values_after :: "conflict_db \<Rightarrow> conflict_db \<Rightarrow> var_id \<Rightarrow> bool" where
  "values_after db db' v \<longleftrightarrow> (let ps = propositions (vheap db v); n = length ps in
     (\<forall>i < n. \<forall>j < n. isTrue (pheap (solver db') (ps ! i)) \<and> isTrue (pheap (solver db') (ps ! j)) \<longrightarrow> i = j) \<and>
     (n > 0 \<longrightarrow> (\<exists>i < n. \<not> isFalse (pheap (solver db') (ps ! i)))) \<and>
     (\<forall>a. v_current (vheap db v) = Some a \<longrightarrow> get_value_index db' v = uint (a_index (aheap db a))))"

lemma first_index_unique:
  "i < length xs \<Longrightarrow> P (xs ! i) \<Longrightarrow> (\<And>j. j < length xs \<Longrightarrow> P (xs ! j) \<Longrightarrow> j = i) \<Longrightarrow> first_index P xs = Some i"
proof (induction xs arbitrary: i)
  case (Cons x xs)
  show ?case
  proof (cases i)
    case (Suc k)
    have "\<not> P x" using Cons.prems(3) [of 0] Suc by auto
    moreover have "first_index P xs = Some k"
      by (rule Cons.IH) (use Cons.prems Suc in \<open>auto dest: Cons.prems(3) [of "Suc _", simplified]\<close>)
    ultimately show ?thesis using Suc by simp
  qed (use Cons.prems in simp)
qed simp

lemma propagate_values:
  assumes inv: "cdb_ok db" and pr: "cdb_propagate db = Inr (True, db')" and v: "v \<in> set (variables db)"
  shows "values_after db db' v"
proof -
  let ?F = "formula (solver db)" and ?ps = "propositions (vheap db v)"
  have p: "vheap db' = vheap db" "\<not> up_conflict ?F"
    "\<And>l. fst l \<in> set (props (solver db)) \<Longrightarrow> lit_tv (pheap (solver db')) l = PTRUE \<Longrightarrow> up ?F l"
    "\<And>l. up ?F l \<Longrightarrow> lit_tv (pheap (solver db')) l = PTRUE"
    using cdb_propagate_ok [OF inv] pr by (simp_all del: split_paired_All)
  note st = cdb_invD(6) [OF inv v]
  have pin: "?ps ! i \<in> set (props (solver db))" if "i < length ?ps" for i
    using st nth_mem [OF that] by (auto simp: var_static_def)
  have tr: "isTrue (pheap (solver db') (?ps ! i)) \<longleftrightarrow> up ?F (?ps ! i, True)"
    and fl: "isFalse (pheap (solver db') (?ps ! i)) \<longleftrightarrow> up ?F (?ps ! i, False)" if "i < length ?ps" for i
    using p(3) [of "(?ps ! i, True)"] p(4) [of "(?ps ! i, True)"] p(3) [of "(?ps ! i, False)"]
      p(4) [of "(?ps ! i, False)"] pin [OF that]
    by (auto simp: lit_tv_isTrue)
  have one: "i = j" if ij: "i < length ?ps" "j < length ?ps" "isTrue (pheap (solver db') (?ps ! i))"
    "isTrue (pheap (solver db') (?ps ! j))" for i j
  proof (rule ccontr)
    assume "i \<noteq> j"
    then have "isFalse (pheap (solver db') (?ps ! j))"
      using one_value_excludes [OF inv v ij(1,2)] ij tr [OF ij(1)] fl [OF ij(2)] by blast
    then show False using ij(4) by (simp add: isTrue_def isFalse_def)
  qed
  have some: "\<exists>i < length ?ps. \<not> isFalse (pheap (solver db') (?ps ! i))" if "length ?ps > 0"
  proof (rule ccontr)
    assume "\<not> ?thesis"
    then have "up ?F (neg_lit (p, True))" if "p \<in> set ?ps" for p
      using that fl by (auto simp: in_set_conv_nth neg_lit_def)
    then have "up_conflict ?F"
      unfolding up_conflict_def by (intro bexI [OF _ domain_in_formula(1) [OF inv v]]) auto
    then show False using p(2) by simp
  qed
  have cur: "get_value_index db' v = uint (a_index (aheap db a))" if a: "v_current (vheap db v) = Some a" for a
  proof -
    have mem: "a \<in> set (v_assignments (vheap db v))" using cdb_invD(7) [OF inv v] a by (simp add: var_dynamic_def)
    from assignment_of [OF st mem] obtain i where i: "i < length ?ps" "i < 128" "a_variable (aheap db a) = v"
      "a_index (aheap db a) = of_nat i" by metis
    have "is_current db a" using v mem a i(3) by (simp add: is_current_def valid_assignment_def)
    then have "{(prop_of db a, True)} \<in> ?F" unfolding formula_by_current [OF inv] by (auto simp: asserts_def)
    moreover have idx: "unat (a_index (aheap db a)) = i" using i by (simp add: unsigned_of_nat take_bit_nat_eq_self)
    ultimately have "{(?ps ! i, True)} \<in> ?F" using i(3) by (simp add: prop_of_def)
    then have "up ?F (?ps ! i, True)" by (rule up.unit) auto
    then have "isTrue (pheap (solver db') (?ps ! i))" using tr [OF i(1)] by simp
    then have "first_index (\<lambda>p. isTrue (pheap (solver db') p)) ?ps = Some i"
      using first_index_unique [OF i(1), of "\<lambda>p. isTrue (pheap (solver db') p)"] one i(1) by blast
    then show ?thesis using idx by (auto simp: get_value_index_def p(1))
  qed
  show ?thesis unfolding values_after_def Let_def using one some cur by blast
qed

end
