(* ===== verification/Cdb_Properties.thy ===== *)
theory Cdb_Properties
  imports Cdb_Search Ltms_Findings
begin

text \<open>
  The properties of the conflict database, stated over the databases that the steps of \<open>cdb_step\<close>
  reach, each with a concrete instance: a database with one assumption of two values.
\<close>

subsection \<open>Concrete databases\<close>

lemmas cdb_eval = new_variable_def create_props_def mutex_clauses_def insert_variable_def
  variables_insert_before_def vit_eq_def begin_variables_def new_conflict_db_def array_contents_def
  new_array_def grow_and_set_def new_assignable_def create_assignment_def get_prop_def
  get_nvalues_def new_assumption_def upd_var_def upd_assignment_def no_variable_def
  no_assignment_def registerAssumption_def registerAssignable_def ensure_def do_allocate_def
  array_size_def write_cell_def restore_assumption_defaults_def restore_default_def assign_var_def
  clause_op_def

text \<open>
  An assumption with two values of weight 0 and 1; the same at its default value; and the same with
  a clause that excludes the default value.
\<close>

definition demo_variable :: conflict_db where
  "demo_variable = (case new_assumption Plain_assumption 2 [0, 1] 0 1 new_conflict_db of
     Inl e \<Rightarrow> new_conflict_db | Inr (v, db) \<Rightarrow> registerAssumption v db)"

definition demo_db :: conflict_db where
  "demo_db = (case restore_assumption_defaults demo_variable of Inl e \<Rightarrow> new_conflict_db | Inr db \<Rightarrow> db)"

definition demo_stuck :: conflict_db where
  "demo_stuck = (case cdb_create_clause [] [1] False True demo_db of Inl e \<Rightarrow> new_conflict_db | Inr (c, db) \<Rightarrow> db)"

lemma demo_db_eq: "demo_db = \<lparr>
     vheap = (\<lambda>_. no_variable)(0 := no_variable\<lparr>v_kind := Plain_assumption, v_id := 1, propositions := [1, 0],
       v_current := Some 0, v_assignments := [0, 1], default_assignment := Some 0\<rparr>),
     aheap = (\<lambda>_. no_assignment)(0 := no_assignment\<lparr>a_clause := Some 2\<rparr>,
       1 := no_assignment\<lparr>weight := 1, a_index := 1, a_clause := Some 3\<rparr>),
     kheap = (\<lambda>_. \<lparr>conflict_assignments = [], conflict_tag = 0\<rparr>),
     candheap = (\<lambda>_. \<lparr>cand_assignments = [], cand_id = 0\<rparr>), next_var = 1, next_assignment = 2,
     next_conflict = 0, next_candidate = 0, global_id = 0, variables = [0],
     insert_pos = \<lparr>it_current = Some 0, it_previous = None\<rparr>,
     solver = \<lparr>pheap = (\<lambda>_. new_proposition)(
         0 := new_proposition\<lparr>positive := [0, 3], negative := [1]\<rparr>,
         1 := new_proposition\<lparr>positive := [0, 2], negative := [1]\<rparr>),
       cheap = (\<lambda>_. no_clause)(
         0 := \<lparr>num_lits = 2, num_pos_lits = 2, num_unassigned = 2, supports = -1, c_flags = 0, fringe_index = 0,
           c_time_stamp = 0, satisfying_prop = None, clause_datum = None, literals = [1, 0]\<rparr>,
         1 := \<lparr>num_lits = 2, num_pos_lits = 0, num_unassigned = 2, supports = -1, c_flags = 0, fringe_index = 0,
           c_time_stamp = 0, satisfying_prop = None, clause_datum = None, literals = [0, 1]\<rparr>,
         2 := \<lparr>num_lits = 1, num_pos_lits = 1, num_unassigned = 1, supports = -1, c_flags = 34, fringe_index = 0,
           c_time_stamp = 0, satisfying_prop = None, clause_datum = Some 0, literals = [1]\<rparr>,
         3 := \<lparr>num_lits = 1, num_pos_lits = 1, num_unassigned = 0, supports = -1, c_flags = 33, fringe_index = 0,
           c_time_stamp = 0, satisfying_prop = None, clause_datum = Some 1, literals = [0]\<rparr>),
       props = [0, 1], clauses = [0, 1, 2, 3], time_stamp = 0, next_prop = 2, next_clause = 4, fringe = [],
       volatile_fringe = [2], unsatisfied = [], undo_list = []\<rparr>,
     candidates = [], conflicts = [], assumptions = [0], assignables = [0]\<rparr>"
  by (simp add: demo_db_def demo_variable_def cdb_eval create_eval flag_eval fun_eq_iff)

lemma demo_fields:
  "variables demo_db = [0] \<and> v_assignments (vheap demo_db 0) = [0, 1] \<and> v_current (vheap demo_db 0) = Some 0 \<and>
   propositions (vheap demo_db 0) = [1, 0] \<and> v_kind (vheap demo_db 0) = Plain_assumption \<and>
   props (solver demo_db) = [0, 1] \<and> a_variable (aheap demo_db 0) = 0 \<and> a_index (aheap demo_db 0) = 0 \<and>
   a_variable (aheap demo_db 1) = 0 \<and> v_saved (vheap demo_db 0) = None \<and> assumptions demo_db = [0] \<and>
   weight (aheap demo_db 1) = 1 \<and> conflicts demo_db = []"
  by (simp add: demo_db_eq no_variable_def no_assignment_def)

lemma reachable_db_steps:
  "reachable_db db \<Longrightarrow> conflict tag db = Inr (r, db') \<Longrightarrow> reachable_db db'"
  "reachable_db db \<Longrightarrow> cdb_propagate db = Inr (b, db') \<Longrightarrow> reachable_db db'"
  "reachable_db db \<Longrightarrow> valid_clause posP negP (solver db) \<Longrightarrow>
     cdb_create_clause posP negP vol inT db = Inr (c, db') \<Longrightarrow> reachable_db db'"
  "reachable_db db \<Longrightarrow> restore_assumption_defaults db = Inr db' \<Longrightarrow> reachable_db db'"
  "reachable_db db \<Longrightarrow> new_candidate db = (c, db') \<Longrightarrow> reachable_db db'"
  "reachable_db db \<Longrightarrow> reachable_db (candidate_add a c db)"
  by (auto intro: reachable_db_step cdb_step.intros)

lemma demo_db_reach: "reachable_db demo_db"
proof -
  obtain v db1 where r: "new_assumption Plain_assumption 2 [0, 1] 0 1 new_conflict_db = Inr (v, db1)"
    using new_assumption_ok(1) [OF new_conflict_db_ok, of 2 Plain_assumption "[0, 1]" 0 1]
    by (auto simp: returns_iff class_defs)
  have "reachable_db (registerAssumption v db1)"
    using reachable_db_step [OF reachable_db_init cdb_assumption [OF _ _ _ r refl]] by (simp add: class_defs)
  then have d: "reachable_db demo_variable" using r by (simp add: demo_variable_def)
  obtain db2 where "restore_assumption_defaults demo_variable = Inr db2"
    using restore_assumption_defaults_ok [OF reachable_db_ok [OF d]] by (auto simp: returns_iff)
  then show ?thesis using reachable_db_steps(4) [OF d] by (simp add: demo_db_def)
qed

lemma demo_stuck:
  "reachable_db demo_stuck" "demo_stuck = demo_db\<lparr>solver := solver demo_stuck\<rparr>"
  "{(1, False)} \<in> formula (solver demo_stuck)" "up_conflict (formula (solver demo_stuck))"
proof -
  have v: "valid_clause [] [1] (solver demo_db)" using demo_fields by (simp add: valid_clause_def)
  obtain c db' where r: "cdb_create_clause [] [1] False True demo_db = Inr (c, db')"
    "db' = demo_db\<lparr>solver := solver db'\<rparr>" "{(1, False)} \<in> hard_formula (solver db')"
    using cdb_create_clause_ok [OF reachable_db_ok [OF demo_db_reach] v, of False True] by (auto simp: returns_iff)
  have eq: "demo_stuck = db'" using r(1) by (simp add: demo_stuck_def)
  show re: "reachable_db demo_stuck" unfolding eq by (rule reachable_db_steps(3) [OF demo_db_reach v r(1)])
  show s: "demo_stuck = demo_db\<lparr>solver := solver demo_stuck\<rparr>" using r(2) eq by simp
  show no: "{(1, False)} \<in> formula (solver demo_stuck)" using r(3) hard_in_formula eq by blast
  have f: "vheap demo_stuck = vheap demo_db" "aheap demo_stuck = aheap demo_db" "variables demo_stuck = variables demo_db"
    by (subst s, simp)+
  have "is_current demo_stuck 0 \<and> prop_of demo_stuck 0 = 1"
    using demo_fields by (simp add: is_current_def valid_assignment_def prop_of_def f)
  then have "{(1, True)} \<in> formula (solver demo_stuck)"
    unfolding formula_by_current [OF reachable_db_ok [OF re]] by (force simp: asserts_def)
  then have "up (formula (solver demo_stuck)) (1, True)" by (rule up.unit) auto
  then show "up_conflict (formula (solver demo_stuck))"
    unfolding up_conflict_def using no by (intro bexI [of _ "{(1, False)}"]) (auto simp: neg_lit_def)
qed

subsection \<open>Properties\<close>

text \<open>
  C13. Every database that the steps of \<open>cdb_step\<close> reach is well-formed: every variable has distinct
  propositions of the solver, the clauses of its domain are in the theory, every assignment has its
  unit clause and points back to its variable, the clauses in the theory that assert assignments are
  those of the current ones, the conflicts are sorted by size and linked to their assignments in both
  directions, and the registered assumptions and assignables are variables of the database. The
  steps are the calls listed at the head of \<open>Cdb_Reach\<close>, among them \<open>insert_previous\<close> and
  \<open>destroy_variables\<close> over the whole list with its clean-up, when no recorded conflict assigns a
  variable that goes, the insertion point is not next to one, no proposition is shared and no mark
  is left from before; calls on the solver itself and \<open>erase_conflicts\<close> are not steps.
\<close>

theorem databases_well_formed:
  assumes "reachable_db db"
  shows "cdb_ok db"
  using assms by (rule reachable_db_ok)

text \<open>
  C12. In every reachable database \<open>conflict\<close> returns; it changes no assignment, answers null exactly
  when unit propagation on the theory meets no conflict, and otherwise gives a recorded conflict all
  of whose assignments are current assignments of assumptions; and when that conflict is new, its
  assignments have no model together with the clauses that assert no assumption.
\<close>

theorem conflict_diagnoses:
  assumes "reachable_db db"
  shows "returns (conflict tag db) (\<lambda>(r, db'). reachable_db db' \<and> vheap db' = vheap db \<and>
    (r = None \<longleftrightarrow> \<not> up_conflict (formula (solver db))) \<and>
    (case r of None \<Rightarrow> conflicts db' = conflicts db
     | Some k \<Rightarrow> k \<in> set (conflicts db') \<and> set (conflicts db') = insert k (set (conflicts db)) \<and>
        (\<forall>a \<in> set (conflict_assignments (kheap db' k)). is_current db a \<and>
          is_assumption (class_of (v_kind (vheap db (a_variable (aheap db a)))))) \<and>
        (k \<notin> set (conflicts db) \<longrightarrow> (\<forall>m. \<not> models m (observed_formula db \<union>
          asserts db (set (conflict_assignments (kheap db' k))))))))"
proof -
  obtain r db' where c: "conflict tag db = Inr (r, db')"
    using conflict_ok [OF reachable_db_ok [OF assms], of tag] by (auto simp: returns_iff)
  then show ?thesis
    using conflict_ok [OF reachable_db_ok [OF assms], of tag] reachable_db_steps(1) [OF assms c] by simp
qed

theorem conflict_diagnoses_witness:
  "\<exists>k db'. conflict 7 demo_stuck = Inr (Some k, db') \<and> set (conflict_assignments (kheap db' k)) \<subseteq> {0} \<and>
     (\<forall>m. \<not> models m (observed_formula demo_stuck \<union> asserts demo_stuck {0}))"
proof -
  obtain r db' where c: "conflict 7 demo_stuck = Inr (r, db')" and
    post: "r \<noteq> None" "case r of None \<Rightarrow> True | Some k \<Rightarrow>
        (\<forall>a \<in> set (conflict_assignments (kheap db' k)). is_current demo_stuck a) \<and>
        (k \<notin> set (conflicts demo_stuck) \<longrightarrow> (\<forall>m. \<not> models m (observed_formula demo_stuck \<union>
          asserts demo_stuck (set (conflict_assignments (kheap db' k))))))"
    using conflict_diagnoses [OF demo_stuck(1), of 7] demo_stuck(4) by (auto simp: returns_iff split: option.splits)
  obtain k where r: "r = Some k" using post(1) by blast
  have f: "vheap demo_stuck = vheap demo_db" "aheap demo_stuck = aheap demo_db"
    "variables demo_stuck = variables demo_db" "conflicts demo_stuck = conflicts demo_db"
    by (subst demo_stuck(2), simp)+
  have sub: "set (conflict_assignments (kheap db' k)) \<subseteq> {0}"
  proof
    fix a
    assume "a \<in> set (conflict_assignments (kheap db' k))"
    then have "is_current demo_stuck a" using post(2) r by simp
    then show "a \<in> {0}" using demo_fields by (auto simp: is_current_def valid_assignment_def f)
  qed
  have no: "\<not> models m (observed_formula demo_stuck \<union> asserts demo_stuck (set (conflict_assignments (kheap db' k))))" for m
    using post(2) r demo_fields by (simp add: f)
  have "asserts demo_stuck (set (conflict_assignments (kheap db' k))) \<subseteq> asserts demo_stuck {0}"
    using sub unfolding asserts_def by (rule image_mono)
  then have "\<not> models m (observed_formula demo_stuck \<union> asserts demo_stuck {0})" for m
    using no [of m] unfolding models_def by blast
  then show ?thesis using c r sub by blast
qed

text \<open>
  C14. After a propagation that finds no inconsistency, every variable of a reachable database has at
  most one true value, not all its values are false, and a variable with a current assignment has
  the value of that assignment.
\<close>

theorem consistent_values:
  assumes "reachable_db db" "cdb_propagate db = Inr (True, db')" "v \<in> set (variables db)"
  shows "(\<forall>i < unat (get_nvalues db v). \<forall>j < unat (get_nvalues db v).
       isTrue (pheap (solver db') (propositions (vheap db v) ! i)) \<and>
       isTrue (pheap (solver db') (propositions (vheap db v) ! j)) \<longrightarrow> i = j) \<and>
     (get_nvalues db v > 0 \<longrightarrow> (\<exists>i < unat (get_nvalues db v).
       \<not> isFalse (pheap (solver db') (propositions (vheap db v) ! i)))) \<and>
     (\<forall>a. v_current (vheap db v) = Some a \<longrightarrow> get_value_index db' v = uint (a_index (aheap db a)))"
proof -
  have "length (propositions (vheap db v)) < 128"
    using cdb_invD(6) [OF reachable_db_ok [OF assms(1)] assms(3)] by (simp add: var_static_def)
  then have n: "unat (get_nvalues db v) = length (propositions (vheap db v))"
    by (simp add: get_nvalues_def unsigned_of_nat take_bit_nat_eq_self)
  show ?thesis
    using propagate_values [OF reachable_db_ok [OF assms(1)] assms(2,3)] n
    by (simp add: values_after_def Let_def word_less_nat_alt)
qed

theorem consistent_values_witness:
  "\<exists>db'. cdb_propagate demo_db = Inr (True, db') \<and> get_value_index db' 0 = 0"
proof -
  have "\<exists>db'. cdb_propagate demo_db = Inr (True, db')"
    by (simp add: demo_db_eq cdb_propagate_def propagate_def prop_eval create_eval flag_eval)
  then obtain db' where p: "cdb_propagate demo_db = Inr (True, db')" by blast
  then have "get_value_index db' 0 = 0"
    using consistent_values [OF demo_db_reach p, of 0] demo_fields by simp
  then show ?thesis using p by blast
qed

text \<open>
  C15. Whatever a search assigns, unassigns, installs and diagnoses between \<open>save\<close> and \<open>restore\<close>, the
  restored database has the current assignments it was saved with, and the same theory.
\<close>

theorem save_restore_roundtrip:
  assumes "reachable_db db" "explores (save_all db) db'"
  shows "returns (restore_all db') (\<lambda>db''. cdb_ok db'' \<and> formula (solver db'') = formula (solver db) \<and>
    (\<forall>v \<in> set (variables db). v_current (vheap db'' v) = v_current (vheap db v)))"
  by (rule save_explore_restore [OF reachable_db_ok [OF assms(1)] assms(2)])

lemma demo_assign: "\<exists>db'. assign_index 0 1 (save_all demo_db) = Inr db' \<and> v_current (vheap db' 0) = Some 1"
proof -
  note sv = save_loop_ok [OF reachable_db_ok [OF demo_db_reach], of "variables demo_db", folded save_all_def]
  have "cdb_ok (save_all demo_db)" "variables (save_all demo_db) = [0]"
    "v_assignments (vheap (save_all demo_db) 0) = [0, 1]"
    using sv same_but_current_var(3) [of demo_db "save_all demo_db" 0] demo_fields
    by (simp_all add: same_but_current_def)
  then show ?thesis
    using assign_index_ok(1) [of "{}" "save_all demo_db" 0 1] assigned_toD(2) by (auto simp: returns_iff)
qed

theorem save_restore_roundtrip_witness:
  "\<exists>db' db''. assign_index 0 1 (save_all demo_db) = Inr db' \<and> v_current (vheap db' 0) = Some 1 \<and>
     restore_all db' = Inr db'' \<and> v_current (vheap db'' 0) = Some 0"
proof -
  obtain db' where a: "assign_index 0 1 (save_all demo_db) = Inr db'" "v_current (vheap db' 0) = Some 1"
    using demo_assign by blast
  have "0 \<in> set (variables (save_all demo_db))"
    using save_loop_ok [OF reachable_db_ok [OF demo_db_reach], of "variables demo_db", folded save_all_def] demo_fields
    by (simp add: same_but_current_def)
  then have "explores (save_all demo_db) db'" using a(1) by (intro explores_assign [OF explores_refl])
  then show ?thesis
    using save_restore_roundtrip [OF demo_db_reach] a demo_fields by (fastforce simp: returns_iff)
qed

text \<open>
  C16. Installing a candidate whose assignments exist returns; afterwards each variable has the last
  assignment the candidate makes to it, an assumption the candidate does not mention has its
  default, every other variable keeps its assignment, and nothing else changes.
\<close>

theorem install_assigns_candidate:
  assumes "reachable_db db" "candidate_ok db c"
  shows "returns (install c p db) (\<lambda>db'. cdb_ok db' \<and> same_but_current db db' \<and>
    (\<forall>u. v_current (vheap db' u) =
      (case find (\<lambda>a. a_variable (aheap db a) = u) (rev (cand_assignments (candheap db c))) of
         Some a \<Rightarrow> Some a
       | None \<Rightarrow> if u \<in> set (assumptions db) then default_assignment (vheap db u) else v_current (vheap db u))))"
  using install_ok [OF reachable_db_ok [OF assms(1)] assms(2), of p]
  by (auto simp: installed_def elim!: returns_mono)

theorem install_assigns_candidate_witness:
  "returns (install 0 True (candidate_add 1 0 (snd (new_candidate demo_db))))
     (\<lambda>db'. v_current (vheap db' 0) = Some 1)"
proof -
  let ?db = "candidate_add 1 0 (snd (new_candidate demo_db))"
  have "reachable_db (snd (new_candidate demo_db))"
    using reachable_db_steps(5) [OF demo_db_reach, of "fst (new_candidate demo_db)"] by simp
  then have r: "reachable_db ?db" by (rule reachable_db_steps(6))
  have c: "cand_assignments (candheap ?db 0) = [1]" "aheap ?db = aheap demo_db"
    by (simp_all add: candidate_add_def new_candidate_def demo_db_eq)
  have f: "variables ?db = [0]" "v_assignments (vheap ?db 0) = [0, 1]"
    by (simp_all add: candidate_add_def new_candidate_def demo_db_eq upd_candidate_def)
  have "candidate_ok ?db 0" using c f demo_fields by (simp add: candidate_ok_def valid_assignment_def)
  from install_assigns_candidate [OF r this, of True] show ?thesis
    using c demo_fields by (auto elim!: returns_mono)
qed

text \<open>
  C17. Creating an assumption in a reachable database: without values it fails the assertion on the
  first assignment; when the number of weights differs from the number of values, or the weights
  decrease, it raises an argument error; otherwise it returns a new variable whose assignments have
  the weights in their order.
\<close>

theorem assumption_weights_checked:
  assumes "reachable_db db" "unat n < 128" "is_assumption (class_of k)" "length ws < 2 ^ 32"
  shows "if n = 0 then new_assumption k n ws t i db = Inl Assert_failed
     else if length ws \<noteq> unat n \<or> \<not> sorted ws then new_assumption k n ws t i db = Inl L2_argument_error
     else returns (new_assumption k n ws t i db) (\<lambda>(v, db'). v \<notin> set (variables db) \<and>
       set (variables db') = insert v (set (variables db)) \<and>
       map (\<lambda>a. weight (aheap db' a)) (v_assignments (vheap db' v)) = ws)"
proof -
  note a = new_assumption_ok [OF reachable_db_ok [OF assms(1)] assms(2-4), of t i]
  show ?thesis
    using a(1,2) a(3) by (auto simp: word_gt_0 new_var_ok_def elim!: returns_mono)
qed

theorem assumption_weights_checked_witness:
  "new_assumption Transition 3 [0, 2, 1] 0 5 demo_db = Inl L2_argument_error"
  using assumption_weights_checked [OF demo_db_reach, of 3 Transition "[0, 2, 1]" 0 5]
  by (simp add: class_defs word_le_nat_alt)

lemma restore_loop:
  assumes "cdb_ok db" "set vs \<subseteq> set (variables db)"
  shows "rfold restore_var vs db = Inl Bad_pointer \<or> returns (rfold restore_var vs db) (\<lambda>db'.
    cdb_ok db' \<and> same_but_current db db' \<and> (\<forall>u. v_saved (vheap db' u) = v_saved (vheap db u)))"
  using assms
proof (induction vs arbitrary: db)
  case (Cons v vs)
  have v: "v \<in> set (variables db)" using Cons.prems(2) by simp
  consider "restore_var v db = Inl Bad_pointer" | "restore_var v db = Inr db"
    | a where "restore_var v db = assign_var v a db" "v_saved (vheap db v) = Some a"
    unfolding restore_var_def
    by (cases "is_assignable (class_of (v_kind (vheap db v)))"; cases "v_saved (vheap db v)"; simp)
  then show ?case
  proof cases
    case 3
    have "set_option a \<subseteq> set (v_assignments (vheap db v))"
      using 3(2) cdb_invD(7) [OF Cons.prems(1) v] by (cases a) (auto simp: var_dynamic_def)
    then obtain db1 where db1: "restore_var v db = Inr db1" "cdb_ok db1" "assigned_to v a db db1"
      using assign_var_ok [OF Cons.prems(1) v] 3(1) by (auto simp: returns_iff)
    note d = assigned_toD [OF db1(3)]
    have "set vs \<subseteq> set (variables db1)" using Cons.prems(2) d(6) by simp
    from Cons.IH [OF db1(2) this] show ?thesis
      using db1(1) d(1,3) same_but_current_trans [OF d(1)] by (auto simp: returns_iff)
  qed (use Cons in auto)
qed simp

text \<open>
  Restoring a database that holds an assignable variable that was never saved follows the pointer
  that the constructor of the variable leaves without a value.
\<close>

theorem restore_needs_save:
  assumes "reachable_db db" "unat n < 128" "create_assignable n t i db = Inr (v, db')"
  shows "restore_all db' = Inl Bad_pointer"
proof -
  note ok = reachable_db_ok [OF assms(1)]
  have k: "is_assignable (class_of Plain_assignable)" "\<not> is_assumption (class_of Plain_assignable)"
    by (simp_all add: class_defs)
  obtain db1 where r: "new_assignable Plain_assignable n t i db = Inr (v, db1)" "db' = registerAssignable v db1"
    "new_var_ok {} v Plain_assignable (unat n) db db1"
    using new_assignable_ok [OF ok assms(2) k(1), of t i] assms(3) new_var_complete [OF _ k]
    by (auto simp: returns_iff create_assignable_def)
  have f: "vheap db' = vheap db1" "variables db' = variables db1" by (simp_all add: r(2) registerAssignable_def)
  have ok': "cdb_ok db'" using create_assignable_ok(1) [OF ok assms(2), of t i] assms(3) by simp
  have v: "v \<in> set (variables db')" "is_assignable (class_of (v_kind (vheap db' v)))" "v_saved (vheap db' v) = None"
    using r(3) k by (simp_all add: new_var_ok_def f)
  then obtain xs ys where xs: "variables db' = xs @ v # ys" by (auto simp: in_set_conv_decomp)
  show ?thesis
  proof (cases "rfold restore_var xs db'")
    case (Inl e)
    then show ?thesis using restore_loop [OF ok', of xs] xs by (auto simp: restore_all_def rfold_append)
  next
    case (Inr db2)
    have "set xs \<subseteq> set (variables db')" using xs by auto
    then have "same_but_current db' db2" "v_saved (vheap db2 v) = None"
      using restore_loop [OF ok', of xs] v(3) Inr by simp_all
    then have "restore_var v db2 = Inl Bad_pointer"
      using v(2) same_but_current_var(1) [of db' db2 v] by (simp add: restore_var_def)
    then show ?thesis using Inr xs by (simp add: restore_all_def rfold_append)
  qed
qed

theorem restore_needs_save_witness:
  "\<exists>v db'. create_assignable 2 0 1 new_conflict_db = Inr (v, db') \<and> restore_all db' = Inl Bad_pointer"
proof -
  obtain v db' where "create_assignable 2 0 1 new_conflict_db = Inr (v, db')"
    using create_assignable_ok(1) [OF new_conflict_db_ok, of 2 0 1] by (auto simp: returns_iff)
  then show ?thesis using restore_needs_save [OF reachable_db_init, of 2 0 1 v db'] by auto
qed

lemma remove1_insert_sorted: "k \<notin> set ks \<Longrightarrow> remove1 k (insert_sorted f k ks) = ks"
  by (induction ks) auto

text \<open>
  C18. Recording a conflict that no recorded conflict subsumes and destroying it again leaves the list of
  conflicts, and the conflicts linked to every assignment, as they were.
\<close>

theorem conflict_links_roundtrip:
  assumes "reachable_db db" "\<forall>a \<in> set as. valid_assignment db a" "find_subsuming_conflict db as = None"
    and "add_conflict as tag db = (k, db1)"
  shows "conflicts (destroy_conflict k db1) = conflicts db \<and>
    (\<forall>a. valid_assignment db a \<longrightarrow>
       set (a_conflicts (aheap (destroy_conflict k db1) a)) = set (a_conflicts (aheap db a)) \<and>
       set (resolved_conflicts (aheap (destroy_conflict k db1) a)) = set (resolved_conflicts (aheap db a)))"
proof -
  note ok = reachable_db_ok [OF assms(1)]
  obtain l db0 where nc: "new_conflict as tag db = (l, db0)" by (cases "new_conflict as tag db") auto
  then have db1: "k = l" "db1 = db0\<lparr>conflicts := insert_sorted (conflict_is_smaller db0) l (conflicts db0)\<rparr>"
    using assms(3,4) by (auto simp: add_conflict_def)
  note n = new_conflict_ok [OF ok bspec [OF assms(2)] nc db1(2)]
  have ok1: "cdb_ok db1" and new: "k \<notin> set (conflicts db)" and k1: "k \<in> set (conflicts db1)"
    and kh: "kheap db1 = (kheap db)(k := \<lparr>conflict_assignments = as, conflict_tag = tag\<rparr>)"
    and lo: "links_only (db\<lparr>kheap := kheap db1, next_conflict := next_conflict db1, conflicts := conflicts db1\<rparr>) db1"
    using n db1(1) by blast+
  note d = links_onlyD [OF lo]
  let ?db2 = "destroy_conflict k db1"
  note de = destroy_conflict_ok [OF ok1 k1]
  have ok2: "cdb_ok ?db2" and kh2: "kheap ?db2 = kheap db1" using de by blast+
  have valid1: "valid_assignment db1 a = valid_assignment db a" for a
    using d(1,4,8) by (simp add: valid_assignment_def)
  have valid: "valid_assignment db1 a" if "a \<in> set (conflict_assignments (kheap db1 k))" for a
    using that assms(2) valid1 by (simp add: kh)
  have rm: "links_only db1 (fold (assignment_remove_conflict k) (conflict_assignments (kheap db1 k)) db1)"
    using remove_links [of "conflict_assignments (kheap db1 k)" db1 k] valid_distinct [OF ok1 valid] by blast
  have cs0: "conflicts db0 = conflicts db"
    using add_links [of as "db\<lparr>kheap := (kheap db)(l := \<lparr>conflict_assignments = as, conflict_tag = tag\<rparr>), next_conflict := Suc l\<rparr>" l]
      valid_distinct [OF ok bspec [OF assms(2)]] nc links_onlyD(5)
    by (fastforce simp: new_conflict_def Let_def)
  have cs: "conflicts ?db2 = conflicts db"
    using links_onlyD(5) [OF rm] new db1 cs0
    by (simp add: destroy_conflict_def Let_def remove1_insert_sorted)
  have f: "variables ?db2 = variables db" "vheap ?db2 = vheap db" "a_variable (aheap ?db2 a) = a_variable (aheap db a)" for a
    using links_onlyD(1,4,8) [OF rm] d(1,4,8) by (simp_all add: destroy_conflict_def Let_def)
  have v2: "valid_assignment ?db2 a = valid_assignment db a" for a by (simp add: valid_assignment_def f)
  have kh': "kheap ?db2 j = kheap db j" if "j \<in> set (conflicts db)" for j using that new by (auto simp: kh2 kh)
  have "set (a_conflicts (aheap ?db2 a)) = set (a_conflicts (aheap db a)) \<and>
      set (resolved_conflicts (aheap ?db2 a)) = set (resolved_conflicts (aheap db a))"
    if a: "valid_assignment db a" for a
    using cdb_invD(5) [OF ok] cdb_invD(5) [OF ok2] a v2 [of a] kh'
    by (simp add: conflicts_ok_def cs f cong: conj_cong) 
  then show ?thesis using cs by blast
qed

theorem conflict_links_roundtrip_witness:
  "let (k, db1) = add_conflict [0] 3 demo_db in conflicts db1 \<noteq> [] \<and> conflicts (destroy_conflict k db1) = []"
proof -
  obtain k db1 where a: "add_conflict [0] 3 demo_db = (k, db1)" by (cases "add_conflict [0] 3 demo_db") auto
  have v: "\<forall>a \<in> set [0]. valid_assignment demo_db a" using demo_fields by (simp add: valid_assignment_def)
  have "k \<in> set (conflicts db1)" using add_conflict_ok [OF reachable_db_ok [OF demo_db_reach] _ a] v by auto
  moreover have "conflicts (destroy_conflict k db1) = []"
    using conflict_links_roundtrip [OF demo_db_reach v _ a] demo_fields by (simp add: find_subsuming_conflict_def)
  ultimately show ?thesis using a by auto
qed

lemma insert_candidate_props:
  "mset (insert_candidate w c cs) = add_mset c (mset cs)"
  "sorted (map w cs) \<Longrightarrow> sorted (map w (insert_candidate w c cs))"
proof -
  show mset: "mset (insert_candidate w c cs) = add_mset c (mset cs)" for cs by (induction cs) auto
  have set: "set (insert_candidate w c cs) = insert c (set cs)" for cs
    using arg_cong [OF mset, of set_mset cs] by simp
  show "sorted (map w cs) \<Longrightarrow> sorted (map w (insert_candidate w c cs))"
    by (induction cs) (auto simp: set not_less)
qed

text \<open>
  C19. Adding a candidate keeps the list of candidates in increasing order of weight, the new one after
  those of equal weight, and drops none.
\<close>

theorem candidates_stay_sorted:
  assumes "sorted (map (get_weight db) (candidates db))"
  shows "sorted (map (get_weight (addCandidate c db)) (candidates (addCandidate c db))) \<and>
    mset (candidates (addCandidate c db)) = add_mset c (mset (candidates db))"
proof -
  have "get_weight (addCandidate c db) = get_weight db"
    by (simp add: fun_eq_iff get_weight_def sum_assignment_weights_def addCandidate_def)
  then show ?thesis using assms insert_candidate_props [of "get_weight db"] by (simp add: addCandidate_def)
qed

theorem candidates_stay_sorted_witness:
  "candidates (addCandidate 0 (addCandidate 1 (candidate_add 1 1 (candidate_add 0 0 demo_db)))) = [0, 1]"
proof -
  let ?db = "candidate_add 1 1 (candidate_add 0 0 demo_db)"
  let ?db1 = "addCandidate 1 ?db" and ?db2 = "addCandidate 0 (addCandidate 1 ?db)"
  have c: "candidates ?db = []" by (simp add: candidate_add_def demo_db_eq)
  then have c1: "candidates ?db1 = [1]" by (simp add: addCandidate_def)
  have s1: "sorted (map (get_weight ?db1) (candidates ?db1))" unfolding c1 by simp
  have s2: "sorted (map (get_weight ?db2) (candidates ?db2)) \<and> mset (candidates ?db2) = {#0, 1#}"
    using candidates_stay_sorted [OF s1, of 0] unfolding c1 by simp
  have w: "get_weight ?db2 0 = 0" "get_weight ?db2 1 = 1"
    by (simp_all add: get_weight_def sum_assignment_weights_def addCandidate_def candidate_add_def demo_db_eq no_assignment_def)
  have "length (candidates ?db2) = 2" using s2 by (metis size_mset size_add_mset size_single numeral_2_eq_2 One_nat_def)
  then obtain x y where xy: "candidates ?db2 = [x, y]" by (auto simp: numeral_2_eq_2 length_Suc_conv)
  then show ?thesis using s2 w by (auto simp: add_eq_conv_ex)
qed

definition demo_weights :: conflict_db where
  "demo_weights = fold (\<lambda>(a, w). upd_assignment a (\<lambda>x. x\<lparr>weight := w, a_conflicts := [0]\<rparr>)) [(0, 1), (1, 3), (2, 2)]
     (candidate_add 2 0 (candidate_add 1 0 (candidate_add 0 0 new_conflict_db)))"

text \<open>
  The assignments of a candidate that are in a conflict are not returned in order of weight, as
  the comment says: with three of weights 1, 3 and 2 the list is not sorted.
\<close>

theorem conflict_assignments_unsorted:
  "map (\<lambda>a. weight (aheap demo_weights a)) (get_conflict_assignments demo_weights 0 (Some 0) []) = [1, 3, 2]"
  by (simp add: demo_weights_def get_conflict_assignments_def insert_by_weight_def list_insert_after_def
      candidate_add_def new_conflict_db_def)

text \<open>Three variables of one value each.\<close>

definition unit_clause :: "nat \<Rightarrow> clause" where
  "unit_clause i = \<lparr>num_lits = 1, num_pos_lits = 1, num_unassigned = 1, supports = -1, c_flags = 2,
     fringe_index = i, c_time_stamp = 0, satisfying_prop = None, clause_datum = None, literals = [i]\<rparr>"

definition demo_two :: "conflict_db res" where
  "demo_two = rbind (create_dependent 1 0 1 new_conflict_db) (\<lambda>(_, db). rbind (create_dependent 1 0 2 db) (\<lambda>(_, db). Inr db))"

definition demo_three :: "conflict_db res" where
  "demo_three = rbind demo_two (\<lambda>db. rbind (create_dependent 1 0 3 db) (\<lambda>(_, db). Inr db))"

lemma demo_two_eq: "demo_two = Inr \<lparr>vheap = (\<lambda>_. no_variable)(0 := no_variable\<lparr>v_id := 1, propositions := [0]\<rparr>,
       1 := no_variable\<lparr>v_id := 2, propositions := [1]\<rparr>),
     aheap = (\<lambda>_. no_assignment), kheap = (\<lambda>_. \<lparr>conflict_assignments = [], conflict_tag = 0\<rparr>),
     candheap = (\<lambda>_. \<lparr>cand_assignments = [], cand_id = 0\<rparr>), next_var = 2, next_assignment = 0,
     next_conflict = 0, next_candidate = 0, global_id = 0, variables = [1, 0],
     insert_pos = \<lparr>it_current = Some 1, it_previous = None\<rparr>,
     solver = \<lparr>pheap = (\<lambda>_. new_proposition)(0 := new_proposition\<lparr>positive := [0]\<rparr>,
         1 := new_proposition\<lparr>positive := [1]\<rparr>),
       cheap = (\<lambda>_. no_clause)(0 := unit_clause 0,
         1 := unit_clause 1),
       props = [0, 1], clauses = [0, 1], time_stamp = 0, next_prop = 2, next_clause = 2, fringe = [0, 1],
       volatile_fringe = [], unsatisfied = [], undo_list = []\<rparr>,
     candidates = [], conflicts = [], assumptions = [], assignables = []\<rparr>"
  by (simp add: demo_two_def create_dependent_def cdb_eval create_eval flag_eval unit_clause_def fun_eq_iff)

lemma demo_three_eq: "demo_three = Inr \<lparr>vheap = (\<lambda>_. no_variable)(0 := no_variable\<lparr>v_id := 1, propositions := [0]\<rparr>,
       1 := no_variable\<lparr>v_id := 2, propositions := [1]\<rparr>,
       2 := no_variable\<lparr>v_id := 3, propositions := [2]\<rparr>),
     aheap = (\<lambda>_. no_assignment), kheap = (\<lambda>_. \<lparr>conflict_assignments = [], conflict_tag = 0\<rparr>),
     candheap = (\<lambda>_. \<lparr>cand_assignments = [], cand_id = 0\<rparr>), next_var = 3, next_assignment = 0,
     next_conflict = 0, next_candidate = 0, global_id = 0, variables = [2, 1, 0],
     insert_pos = \<lparr>it_current = Some 2, it_previous = None\<rparr>,
     solver = \<lparr>pheap = (\<lambda>_. new_proposition)(0 := new_proposition\<lparr>positive := [0]\<rparr>,
         1 := new_proposition\<lparr>positive := [1]\<rparr>,
         2 := new_proposition\<lparr>positive := [2]\<rparr>),
       cheap = (\<lambda>_. no_clause)(0 := unit_clause 0,
         1 := unit_clause 1,
         2 := unit_clause 2),
       props = [0, 1, 2], clauses = [0, 1, 2], time_stamp = 0, next_prop = 3, next_clause = 3, fringe = [0, 1, 2],
       volatile_fringe = [], unsatisfied = [], undo_list = []\<rparr>,
     candidates = [], conflicts = [], assumptions = [], assignables = []\<rparr>"
  by (simp add: demo_three_def demo_two_eq create_dependent_def cdb_eval create_eval flag_eval unit_clause_def fun_eq_iff)

definition demo_gap :: "conflict_db res" where
  "demo_gap = rbind demo_three (\<lambda>db. rbind (set_new_variable_iterator (nth_variable db 2) db)
     (\<lambda>db1. destroy_variables (\<lambda>v. v_id v = 2) (begin_variables db1) end_variables False db1))"

lemma demo_gap_eq: "demo_gap = Inr \<lparr>vheap = (\<lambda>_. no_variable)(0 := no_variable\<lparr>v_id := 1, propositions := [0]\<rparr>,
       1 := no_variable\<lparr>v_id := 2, propositions := [1]\<rparr>,
       2 := no_variable\<lparr>v_id := 3, propositions := [2]\<rparr>),
     aheap = (\<lambda>_. no_assignment), kheap = (\<lambda>_. \<lparr>conflict_assignments = [], conflict_tag = 0\<rparr>),
     candheap = (\<lambda>_. \<lparr>cand_assignments = [], cand_id = 0\<rparr>), next_var = 3, next_assignment = 0,
     next_conflict = 0, next_candidate = 0, global_id = 0, variables = [2, 0],
     insert_pos = \<lparr>it_current = Some 0, it_previous = Some 1\<rparr>,
     solver = \<lparr>pheap = (\<lambda>_. new_proposition)(0 := new_proposition\<lparr>positive := [0]\<rparr>,
         1 := new_proposition\<lparr>p_flags := P_DESTROYING, positive := [1]\<rparr>,
         2 := new_proposition\<lparr>positive := [2]\<rparr>),
       cheap = (\<lambda>_. no_clause)(0 := unit_clause 0,
         1 := (unit_clause 1)\<lparr>c_flags := 66\<rparr>,
         2 := unit_clause 2),
       props = [0, 1, 2], clauses = [0, 1, 2], time_stamp = 0, next_prop = 3, next_clause = 3, fringe = [0, 1, 2],
       volatile_fringe = [], unsatisfied = [], undo_list = []\<rparr>,
     candidates = [], conflicts = [], assumptions = [], assignables = []\<rparr>"
  by (simp add: demo_gap_def demo_three_eq set_new_variable_iterator_def nth_variable_def
      destroy_variables_def numeral_3_eq_3 variables_erase_def vit_inc_def follower_def delete_variable_def
      end_variables_def prop_set_destroying_def upd_prop_def cdb_eval create_eval flag_eval unit_clause_def fun_eq_iff)

text \<open>
  Destroying the variable in front of the insertion point leaves the iterator of the insertion
  point with a pointer to it, and the next variable that is created follows that pointer.
\<close>

theorem insertion_point_dangles:
  "rbind demo_gap (create_dependent 1 0 4) = Inl Bad_pointer \<and> (\<exists>db. demo_gap = Inr db \<and> variables db = [2, 0])"
  by (simp add: demo_gap_eq create_dependent_def cdb_eval create_eval flag_eval unit_clause_def)

text \<open>
  The invariant of a database with a conflict, and of the three variables after the second has been
  destroyed, with its proposition and its clause.
\<close>

lemma demo_three_reach:
  assumes "demo_three = Inr db"
  shows "reachable_db db"
proof -
  have step: "reachable_db db'" if "create_dependent 1 t i db = Inr (v, db')" "reachable_db db" for t i v db db'
    by (rule reachable_db_step [OF that(2) cdb_dependent [OF _ that(1)]]) simp
  show ?thesis
    using assms by (auto simp: demo_three_def demo_two_def rbind_def split: sum.splits
        dest!: step reachable_db_init [THEN step [rotated]])
qed

lemma demo_three_destroyable:
  assumes "demo_three = Inr db"
  shows "destroyable (\<lambda>x. v_id x = 2) db"
  using assms unfolding demo_three_eq
  by (auto simp: destroyable_def link_blind_def unmarked_def prop_is_destroying_def new_proposition_def
      unit_clause_def is_destroying_def get_flag_def flag_defs no_variable_def)

theorem databases_well_formed_witness:
  "cdb_ok demo_stuck \<and> (\<exists>db db'. demo_three = Inr db \<and>
     destroy_variables (\<lambda>x. v_id x = 2) (begin_variables db) end_variables True db = Inr db' \<and>
     variables db' = [2, 0] \<and> cdb_ok db')"
proof -
  obtain db where db: "demo_three = Inr db" by (simp add: demo_three_eq)
  note re = demo_three_reach [OF db] and de = demo_three_destroyable [OF db]
  from destroy_variables_bereft [OF reachable_db_ok [OF re] de] obtain db' where
    d: "destroy_variables (\<lambda>x. v_id x = 2) (begin_variables db) end_variables True db = Inr db'"
    "bereft (\<lambda>x. v_id x = 2) db db'" by (rule returnsE)
  have "cdb_ok db'" by (rule databases_well_formed [OF reachable_db_step [OF re cdb_destroy [OF de d(1)]]])
  moreover have "variables db' = [2, 0]" using d(2) db by (auto simp: bereft_def demo_three_eq no_variable_def)
  ultimately show ?thesis using databases_well_formed [OF demo_stuck(1)] db d(1) by blast
qed

end
