(* ===== verification/Agenda.thy ===== *)
theory Agenda
  imports Candidates Priority_Queue
begin

text \<open>
  The agenda of the conflict-directed best-first search (\<open>opsat/agenda_types.h\<close>,
  \<open>cbfs_agenda.h\<close>, \<open>cbfs_agenda.cpp\<close>): a binary heap of elements, each a candidate with the list of
  assignments that can still extend it. A candidate that is a member of an element or a local
  variable is the candidate object itself, not an address.
\<close>

subsection \<open>Elements\<close>

record cbfs_element =
  candidate_prefix :: candidate_obj
  pCurrentAssignment :: "assignment_id option"
  remainingAssignments :: "assignment_id list"
  element_weight :: weight_t

text \<open>
  The constructors of \<open>Candidate\<close> and its \<open>operator=\<close>, on objects: each draws the next serial number.
\<close>

definition empty_object :: "conflict_db \<Rightarrow> candidate_obj \<times> conflict_db" where
  "empty_object db = (\<lparr>cand_assignments = [], cand_id = global_id db + 1\<rparr>, db\<lparr>global_id := global_id db + 1\<rparr>)"

definition copy_object :: "candidate_obj \<Rightarrow> conflict_db \<Rightarrow> candidate_obj \<times> conflict_db" where
  "copy_object x db = (\<lparr>cand_assignments = cand_assignments x, cand_id = global_id db + 1\<rparr>,
     db\<lparr>global_id := global_id db + 1\<rparr>)"

text \<open>The three constructors; \<open>insert\<close> sets the weight before anything reads it.\<close>

definition new_element :: "conflict_db \<Rightarrow> cbfs_element \<times> conflict_db" where
  "new_element db = (case empty_object db of (x, db1) \<Rightarrow>
     (\<lparr>candidate_prefix = x, pCurrentAssignment = None, remainingAssignments = [], element_weight = 0\<rparr>, db1))"

definition seed_element :: "candidate_obj \<Rightarrow> conflict_db \<Rightarrow> cbfs_element \<times> conflict_db" where
  "seed_element candidate db = (case copy_object candidate db of (x, db1) \<Rightarrow>
     (\<lparr>candidate_prefix = x, pCurrentAssignment = None, remainingAssignments = [], element_weight = 0\<rparr>, db1))"

definition child_element ::
  "candidate_obj \<Rightarrow> assignment_id \<Rightarrow> assignment_id list \<Rightarrow> conflict_db \<Rightarrow> cbfs_element \<times> conflict_db" where
  "child_element candidate a remainder db = (case copy_object candidate db of (x, db1) \<Rightarrow>
     (\<lparr>candidate_prefix = x, pCurrentAssignment = Some a, remainingAssignments = remainder,
       element_weight = 0\<rparr>, db1))"

definition shift_assignment :: "cbfs_element \<Rightarrow> cbfs_element res" where
  "shift_assignment e = (case remainingAssignments e of [] \<Rightarrow> Inl Assert_failed
     | a # as \<Rightarrow> Inr (e\<lparr>pCurrentAssignment := Some a, remainingAssignments := as\<rparr>))"

definition remaining_assignments_empty :: "cbfs_element \<Rightarrow> bool" where
  "remaining_assignments_empty e = (remainingAssignments e = [])"

definition generate_candidate :: "cbfs_element \<Rightarrow> conflict_db \<Rightarrow> candidate_obj \<times> conflict_db" where
  "generate_candidate e db = (case copy_object (candidate_prefix e) db of (x, db1) \<Rightarrow>
     (case pCurrentAssignment e of None \<Rightarrow> (x, db1)
      | Some a \<Rightarrow> (x\<lparr>cand_assignments := cand_assignments x @ [a]\<rparr>, db1)))"

definition is_assignment_useful :: "conflict_db \<Rightarrow> assignment_id \<Rightarrow> candidate_obj \<Rightarrow> bool" where
  "is_assignment_useful db a x =
     (\<not> is_default db (a_variable (aheap db a)) a \<and> object_consistent db x a \<and> \<not> object_contains x a)"

subsection \<open>The agenda\<close>

text \<open>
  \<open>last_popped_element\<close> is \<open>None\<close> before the first pop and after \<open>expand_element\<close>, which deletes the
  element or gives it back to the heap. The weight of the empty element is a static member.
\<close>

record agenda =
  agenda_heap :: "cbfs_element bheap"
  last_popped_element :: "cbfs_element option"
  empty_element_weight :: weight_t

datatype ordering = GREATESTFIRST | LEASTFIRST

fun order_number :: "ordering \<Rightarrow> 32 word" where
  "order_number GREATESTFIRST = 0"
| "order_number LEASTFIRST = 1"

definition compute_element_weight :: "conflict_db \<Rightarrow> weight_t \<Rightarrow> cbfs_element \<Rightarrow> weight_t" where
  "compute_element_weight db empty_weight e =
     empty_weight + sum_assignment_weights db (cand_assignments (candidate_prefix e)) +
     (case pCurrentAssignment e of None \<Rightarrow> 0 | Some a \<Rightarrow> weight (aheap db a))"

definition agenda_insert :: "conflict_db \<Rightarrow> cbfs_element \<Rightarrow> agenda \<Rightarrow> agenda res" where
  "agenda_insert db e ag = rbind
     (heap_insert element_weight (e\<lparr>element_weight := compute_element_weight db (empty_element_weight ag) e\<rparr>)
        (agenda_heap ag))
     (\<lambda>h. Inr (ag\<lparr>agenda_heap := h\<rparr>))"

definition new_agenda :: "weight_t \<Rightarrow> ordering \<Rightarrow> conflict_db \<Rightarrow> (agenda \<times> conflict_db) res" where
  "new_agenda empty_weight order db = (case new_element db of (e, db1) \<Rightarrow>
     rbind (agenda_insert db1 e \<lparr>agenda_heap = new_heap (order_number order), last_popped_element = None,
         empty_element_weight = empty_weight\<rparr>)
       (\<lambda>ag. Inr (ag, db1)))"

definition empty_agenda :: "agenda \<Rightarrow> bool" where
  "empty_agenda ag = heap_empty (agenda_heap ag)"

definition top_weight :: "agenda \<Rightarrow> weight_t res" where
  "top_weight ag = rbind (heap_top (agenda_heap ag)) (\<lambda>e. Inr (element_weight e))"

definition clean :: "agenda \<Rightarrow> agenda res" where
  "clean ag = rbind (drain (Suc (unat (heap_size (agenda_heap ag)))) heap_empty (heap_pop element_weight) (agenda_heap ag))
     (\<lambda>(_, h). Inr (ag\<lparr>agenda_heap := h\<rparr>))"

text \<open>The seeds are inserted from the last to the first.\<close>

definition initialize_agenda :: "candidate_id list \<Rightarrow> agenda \<Rightarrow> conflict_db \<Rightarrow> (agenda \<times> conflict_db) res" where
  "initialize_agenda seeds ag db = rbind (clean ag) (\<lambda>ag1.
     if seeds \<noteq> [] then
       rfold (\<lambda>c (ag, db). case seed_element (candheap db c) db of (e, db1) \<Rightarrow>
           rbind (agenda_insert db1 e ag) (\<lambda>ag'. Inr (ag', db1)))
         (rev seeds) (ag1, db)
     else case new_element db of (e, db1) \<Rightarrow> rbind (agenda_insert db1 e ag1) (\<lambda>ag'. Inr (ag', db1)))"

fun pop_useless_assignments :: "conflict_db \<Rightarrow> candidate_obj \<Rightarrow> assignment_id list \<Rightarrow> assignment_id list" where
  "pop_useless_assignments db x [] = []"
| "pop_useless_assignments db x (a # as) =
     (if is_assignment_useful db a x then a # as else pop_useless_assignments db x as)"

text \<open>The sorting by a work heap in the order of the agenda.\<close>

definition sort_by_heap :: "conflict_db \<Rightarrow> bool \<Rightarrow> assignment_id list \<Rightarrow> assignment_id list res" where
  "sort_by_heap db order as = rbind
     (rfold (heap_insert (\<lambda>a. weight (aheap db a))) as (new_heap (if order then 1 else 0)))
     (\<lambda>h. rbind (drain (Suc (length as)) heap_empty (heap_pop (\<lambda>a. weight (aheap db a))) h) (\<lambda>(bs, _). Inr bs))"

definition get_new_assignments ::
  "conflict_db \<Rightarrow> agenda \<Rightarrow> assignment_id list \<Rightarrow> candidate_obj \<Rightarrow> conflict_id option \<Rightarrow> assignment_id list res" where
  "get_new_assignments db ag as x k = rbind (l2_assert (as = []) Assert_failed) (\<lambda>_. case k of None \<Rightarrow> Inr as
     | Some k \<Rightarrow> let as1 = resolving_assignments db k as in
         if as1 = [] then Inr as1
         else rbind (sort_by_heap db (heap_get_order (agenda_heap ag)) as1)
           (\<lambda>as2. Inr (pop_useless_assignments db x as2)))"

text \<open>
  \<open>expand_element\<close>: the element for the candidate itself, extended by what resolves its conflict;
  and the element popped last, with its next assignment.
\<close>

definition expand_conflict :: "conflict_id option \<Rightarrow> cbfs_element \<Rightarrow> agenda \<Rightarrow> conflict_db \<Rightarrow> (agenda \<times> conflict_db) res" where
  "expand_conflict k e ag db = (case k of None \<Rightarrow> Inr (ag, db)
     | Some _ \<Rightarrow> (case generate_candidate e (snd (empty_object db)) of (x, db1) \<Rightarrow>
         rbind (get_new_assignments db1 ag [] x k) (\<lambda>as. case as of [] \<Rightarrow> Inr (ag, db1)
           | a # rest \<Rightarrow> (case child_element x a rest db1 of (e', db2) \<Rightarrow>
               rbind (agenda_insert db2 e' ag) (\<lambda>ag'. Inr (ag', db2))))))"

definition expand_element :: "conflict_id option \<Rightarrow> agenda \<Rightarrow> conflict_db \<Rightarrow> (agenda \<times> conflict_db) res" where
  "expand_element k ag db = (case last_popped_element ag of None \<Rightarrow> Inl Bad_pointer
     | Some e \<Rightarrow> rbind (expand_conflict k e ag db) (\<lambda>(ag1, db1).
         let e1 = e\<lparr>remainingAssignments :=
               pop_useless_assignments db1 (candidate_prefix e) (remainingAssignments e)\<rparr>;
             ag2 = ag1\<lparr>last_popped_element := None\<rparr>
         in if \<not> remaining_assignments_empty e1 then
              rbind (shift_assignment e1) (\<lambda>e2. rbind (agenda_insert db1 e2 ag2) (\<lambda>ag3. Inr (ag3, db1)))
            else Inr (ag2, db1)))"

definition pop_candidate :: "candidate_id \<Rightarrow> agenda \<Rightarrow> conflict_db \<Rightarrow> (agenda \<times> conflict_db) res" where
  "pop_candidate c ag db = rbind (heap_pop element_weight (agenda_heap ag)) (\<lambda>(e, h).
     case generate_candidate e db of (x, db1) \<Rightarrow>
       Inr (ag\<lparr>agenda_heap := h, last_popped_element := Some e\<rparr>, upd_candidate c (\<lambda>_. x) db1))"

end
