(* ===== verification/Opsat.thy ===== *)
theory Opsat
  imports Agenda
begin

text \<open>
  The search for consistent candidates (\<open>opsat/opsat.h\<close>, \<open>opsat.cpp\<close>) over the conflict database. The
  tag of the conflicts it records is the time step of the transition system.
\<close>

datatype search_termination = SEARCH_CONTINUE | EMPTY_AGENDA | WEIGHT_CUTOFF | MAX_OVERRUN

record opsat =
  candidates_considered :: "32 word"
  cutoff_weight :: weight_t
  max_candidates :: "32 word"
  search_agenda :: agenda

definition new_opsat ::
  "weight_t \<Rightarrow> weight_t \<Rightarrow> 32 word \<Rightarrow> conflict_db \<Rightarrow> (opsat \<times> conflict_db) res" where
  "new_opsat best_weight cutoff maximum_candidates db =
     rbind (new_agenda best_weight LEASTFIRST db) (\<lambda>(ag, db1).
       Inr (\<lparr>candidates_considered = 0, cutoff_weight = cutoff, max_candidates = maximum_candidates,
             search_agenda = ag\<rparr>, db1))"

definition initialize_search :: "candidate_id list \<Rightarrow> opsat \<Rightarrow> conflict_db \<Rightarrow> (opsat \<times> conflict_db) res" where
  "initialize_search seeds op db = rbind (initialize_agenda seeds (search_agenda op) db)
     (\<lambda>(ag, db1). Inr (op\<lparr>search_agenda := ag\<rparr>, db1))"

definition set_cutoff_weight :: "weight_t \<Rightarrow> opsat \<Rightarrow> opsat" where
  "set_cutoff_weight w op = op\<lparr>cutoff_weight := w\<rparr>"

definition set_max_candidates :: "32 word \<Rightarrow> opsat \<Rightarrow> opsat" where
  "set_max_candidates n op = op\<lparr>max_candidates := n\<rparr>"

text \<open>The weight of the top element is read only when there is one and there is a cutoff.\<close>

definition terminate_search :: "opsat \<Rightarrow> search_termination res" where
  "terminate_search op =
     (if empty_agenda (search_agenda op) then Inr EMPTY_AGENDA
      else if max_candidates op \<noteq> 0 \<and> candidates_considered op > max_candidates op then Inr MAX_OVERRUN
      else if cutoff_weight op \<noteq> 0 then
        rbind (top_weight (search_agenda op)) (\<lambda>w.
          Inr (if w > cutoff_weight op then WEIGHT_CUTOFF else SEARCH_CONTINUE))
      else Inr SEARCH_CONTINUE)"

text \<open>One round of the loop: the candidate of the best element is tried, and the element expanded.\<close>

definition try_candidate ::
  "32 word \<Rightarrow> candidate_id \<Rightarrow> opsat \<Rightarrow> conflict_db \<Rightarrow> (conflict_id option \<times> opsat \<times> conflict_db) res" where
  "try_candidate tag c op db =
     rbind (pop_candidate c (search_agenda op) db) (\<lambda>(ag, db1).
     let op1 = op\<lparr>search_agenda := ag, candidates_considered := candidates_considered op + 1\<rparr> in
     rbind (restore_assumption_defaults db1) (\<lambda>db2.
     rbind (candidate_assign c db2) (\<lambda>db3.
     rbind (conflict tag db3) (\<lambda>(k, db4).
     rbind (expand_element k ag db4) (\<lambda>(ag', db5).
       Inr (k, op1\<lparr>search_agenda := ag'\<rparr>, db5))))))"

fun search_loop ::
  "nat \<Rightarrow> 32 word \<Rightarrow> candidate_id \<Rightarrow> opsat \<Rightarrow> conflict_db \<Rightarrow> (candidate_id option \<times> opsat \<times> conflict_db) res" where
  "search_loop 0 tag c op db = Inl Out_of_fuel"
| "search_loop (Suc n) tag c op db = rbind (terminate_search op) (\<lambda>st.
     if st = SEARCH_CONTINUE then
       rbind (try_candidate tag c op db) (\<lambda>(k, op1, db1).
         case k of None \<Rightarrow> Inr (Some c, op1, db1) | Some _ \<Rightarrow> search_loop n tag c op1 db1)
     else Inr (None, op, db))"

definition next_consistent_candidate ::
  "nat \<Rightarrow> 32 word \<Rightarrow> opsat \<Rightarrow> conflict_db \<Rightarrow> (candidate_id option \<times> opsat \<times> conflict_db) res" where
  "next_consistent_candidate n tag op db = (case new_candidate db of (c, db1) \<Rightarrow> search_loop n tag c op db1)"

end
