(* ===== verification/Best_First.thy ===== *)
theory Best_First
  imports Prelude
begin

text \<open>
  Conflict-directed best-first search in the abstract: what the search promises of the candidates
  it finds, whatever the assignments, their costs and the diagnoses are. An element is a candidate,
  the assignment that extends it, and the assignments that may take the place of that one later.
\<close>

type_synonym 'a element = "'a list \<times> 'a option \<times> 'a list"

definition opt_list :: "'a option \<Rightarrow> 'a list" where
  "opt_list c = (case c of None \<Rightarrow> [] | Some a \<Rightarrow> [a])"

lemma opt_list_simps [simp]: "opt_list None = []" "opt_list (Some a) = [a]"
  by (simp_all add: opt_list_def)

fun candidate_of :: "'a element \<Rightarrow> 'a list" where
  "candidate_of (P, c, R) = P @ opt_list c"

text \<open>
  The space: assignments have a variable, a cost and may be a default; a diagnosis is a finite set
  of assignments, at most one for each variable.
\<close>

locale diagnosis_space =
  fixes var :: "'a \<Rightarrow> 'v"
    and cost :: "'a \<Rightarrow> nat"
    and is_dflt :: "'a \<Rightarrow> bool"
    and diagnosis :: "'a set \<Rightarrow> bool"
  assumes diagnosis_finite: "diagnosis S \<Longrightarrow> finite S"
    and diagnosis_inj: "diagnosis S \<Longrightarrow> inj_on var S"
begin

definition useful :: "'a list \<Rightarrow> 'a \<Rightarrow> bool" where
  "useful P a \<longleftrightarrow> \<not> is_dflt a \<and> var a \<notin> var ` set P"

definition total :: "'a list \<Rightarrow> nat" where
  "total C = sum_list (map cost C)"

text \<open>The element that starts with the first useful assignment of a list, if there is one.\<close>

definition first_element :: "'a list \<Rightarrow> 'a list \<Rightarrow> 'a element multiset" where
  "first_element P as = (case dropWhile (\<lambda>a. \<not> useful P a) as of [] \<Rightarrow> {#} | a # R \<Rightarrow> {#(P, Some a, R)#})"

fun sibling_of :: "'a element \<Rightarrow> 'a element multiset" where
  "sibling_of (P, c, R) = first_element P R"

fun element_ok :: "'a element \<Rightarrow> bool" where
  "element_ok (P, c, R) \<longleftrightarrow> distinct (map var P) \<and> sorted (map cost (opt_list c @ R)) \<and>
     (case c of None \<Rightarrow> R = [] | Some a \<Rightarrow> useful P a)"

text \<open>The diagnoses that can be reached from an element.\<close>

fun reaches :: "'a element \<Rightarrow> 'a set \<Rightarrow> bool" where
  "reaches (P, c, R) S \<longleftrightarrow> set P \<subseteq> S \<and> (c \<noteq> None \<longrightarrow> (\<exists>a \<in> set (opt_list c @ R). a \<in> S \<and> useful P a))"

text \<open>A list of assignments one of which every diagnosis that extends the candidate has.\<close>

definition resolving :: "'a list \<Rightarrow> 'a list \<Rightarrow> bool" where
  "resolving C as \<longleftrightarrow> (\<forall>S. diagnosis S \<longrightarrow> set C \<subseteq> S \<longrightarrow> (\<exists>a \<in> set as. a \<in> S \<and> useful C a))"

text \<open>One round: a cheapest element is found consistent, or its conflict is resolved.\<close>

definition cheapest :: "'a element \<Rightarrow> 'a element multiset \<Rightarrow> bool" where
  "cheapest e Q \<longleftrightarrow> e \<in># Q \<and> (\<forall>e' \<in># Q. total (candidate_of e) \<le> total (candidate_of e'))"

inductive round :: "'a element multiset \<times> 'a list list \<Rightarrow> 'a element multiset \<times> 'a list list \<Rightarrow> bool" where
  round_found: "cheapest e Q \<Longrightarrow> round (Q, F) (Q - {#e#} + sibling_of e, F @ [candidate_of e])"
| round_conflict: "cheapest e Q \<Longrightarrow> sorted (map cost as) \<Longrightarrow> resolving (candidate_of e) as \<Longrightarrow>
    round (Q, F) (Q - {#e#} + sibling_of e + first_element (candidate_of e) as, F)"

text \<open>
  What holds throughout: the found candidates came in the order of their cost and none is more
  expensive than an element of the agenda, and every diagnosis of the searched part \<open>W\<close> of the space
  has a candidate that was found or can be reached from the agenda.
\<close>

definition search_ok :: "('a set \<Rightarrow> bool) \<Rightarrow> 'a element multiset \<Rightarrow> 'a list list \<Rightarrow> bool" where
  "search_ok W Q F \<longleftrightarrow> (\<forall>e \<in># Q. element_ok e) \<and> sorted (map total F) \<and>
     (\<forall>C \<in> set F. \<forall>e \<in># Q. total C \<le> total (candidate_of e)) \<and>
     (\<forall>S. diagnosis S \<longrightarrow> W S \<longrightarrow> (\<exists>C \<in> set F. set C \<subseteq> S) \<or> (\<exists>e \<in># Q. reaches e S))"

subsection \<open>Elements\<close>

lemma first_element_cases:
  assumes "e \<in># first_element P as"
  obtains xs a R where "as = xs @ a # R" "e = (P, Some a, R)" "useful P a"
proof -
  obtain a R where d: "dropWhile (\<lambda>a. \<not> useful P a) as = a # R" "e = (P, Some a, R)"
    using assms by (auto simp: first_element_def split: list.splits)
  moreover have "as = takeWhile (\<lambda>a. \<not> useful P a) as @ a # R"
    using d(1) by (metis takeWhile_dropWhile_id)
  moreover have "useful P a" using hd_dropWhile [of "\<lambda>a. \<not> useful P a" as] d(1) by simp
  ultimately show ?thesis using that by blast
qed

lemma first_element_ok:
  assumes "e \<in># first_element P as" "distinct (map var P)" "sorted (map cost as)"
  shows "element_ok e" "total P \<le> total (candidate_of e)"
    "(\<And>b. b \<in> set as \<Longrightarrow> x \<le> cost b) \<Longrightarrow> total P + x \<le> total (candidate_of e)"
  using assms by (auto elim!: first_element_cases simp: total_def sorted_append)

lemma sibling_ok:
  assumes "e' \<in># sibling_of e" "element_ok e"
  shows "element_ok e' \<and> total (candidate_of e) \<le> total (candidate_of e')"
proof -
  obtain P c R where e: "e = (P, c, R)" by (cases e)
  obtain a where c: "c = Some a" using assms by (cases c) (auto simp: e first_element_def)
  show ?thesis
    using first_element_ok(1) [of e' P R] first_element_ok(3) [of e' P R "cost a"] assms
    by (auto simp: e c total_def)
qed

lemma child_ok:
  assumes "e' \<in># first_element (candidate_of e) as" "element_ok e" "sorted (map cost as)"
  shows "element_ok e' \<and> total (candidate_of e) \<le> total (candidate_of e')"
proof -
  have "distinct (map var (candidate_of e))"
    using assms(2) by (cases e; cases "fst (snd e)") (auto simp: useful_def)
  then show ?thesis using first_element_ok [OF assms(1) _ assms(3)] by blast
qed

lemma first_element_reaches:
  assumes "a \<in> set as" "a \<in> S" "useful P a" "set P \<subseteq> S"
  shows "\<exists>e \<in># first_element P as. reaches e S"
proof -
  have "a \<in> set (dropWhile (\<lambda>a. \<not> useful P a) as)" using assms(1,3) by (induction as) auto
  then obtain b R where "dropWhile (\<lambda>a. \<not> useful P a) as = b # R" "a \<in> set (b # R)"
    by (cases "dropWhile (\<lambda>a. \<not> useful P a) as") auto
  then show ?thesis using assms(2-4) by (auto simp: first_element_def)
qed

lemma reaches_split:
  assumes "reaches e S"
  shows "set (candidate_of e) \<subseteq> S \<or> (\<exists>e' \<in># sibling_of e. reaches e' S)"
proof -
  obtain P c R where e: "e = (P, c, R)" by (cases e)
  show ?thesis
  proof (cases "set (opt_list c) \<subseteq> S")
    case True
    then show ?thesis using assms by (simp add: e)
  next
    case False
    then obtain b where b: "c = Some b" "b \<notin> S" by (cases c) auto
    then obtain a where "a \<in> set R" "a \<in> S" "useful P a" using assms by (auto simp: e)
    then show ?thesis using first_element_reaches [of a R S P] assms by (simp add: e)
  qed
qed

lemma reaches_cost:
  assumes "reaches e S" "element_ok e" "diagnosis S"
  shows "total (candidate_of e) \<le> sum cost S"
proof -
  obtain P c R where e: "e = (P, c, R)" by (cases e)
  note fin = diagnosis_finite [OF assms(3)]
  have dist: "distinct P" using assms(2) by (simp add: e distinct_map)
  have tot: "total P = sum cost (set P)" using dist by (simp add: total_def sum_list_distinct_conv_sum_set)
  show ?thesis
  proof (cases c)
    case None
    then show ?thesis using assms(1) tot sum_mono2 [OF fin, of "set P" cost] by (simp add: e)
  next
    case (Some b)
    then obtain a where a: "a \<in> set (b # R)" "a \<in> S" "useful P a" using assms(1) by (auto simp: e)
    have "cost b \<le> cost a" using assms(2) a(1) Some by (auto simp: e)
    moreover have "a \<notin> set P" using a(3) by (auto simp: useful_def)
    then have "sum cost (insert a (set P)) = cost a + total P" by (simp add: tot)
    moreover have "sum cost (insert a (set P)) \<le> sum cost S"
      using assms(1) a(2) by (intro sum_mono2 fin) (auto simp: e)
    ultimately show ?thesis by (simp add: e Some total_def)
  qed
qed

subsection \<open>The promise of the search\<close>

text \<open>Elements that are popped keep what they cover in the agenda, or it is found.\<close>

lemma sibling_search_ok:
  assumes ok: "search_ok W Q F" and e: "cheapest e Q"
  shows "(\<forall>e' \<in># Q - {#e#} + sibling_of e. element_ok e' \<and> total (candidate_of e) \<le> total (candidate_of e')) \<and>
    (\<forall>S. diagnosis S \<longrightarrow> W S \<longrightarrow> (\<exists>C \<in> set F. set C \<subseteq> S) \<or> set (candidate_of e) \<subseteq> S \<or>
       (\<exists>e' \<in># Q - {#e#} + sibling_of e. reaches e' S))"
proof (intro conjI ballI allI impI)
  have eok: "element_ok e" using ok e by (simp add: search_ok_def cheapest_def)
  fix e'
  assume e': "e' \<in># Q - {#e#} + sibling_of e"
  then consider "e' \<in># Q" | "e' \<in># sibling_of e" by (auto dest: in_diffD)
  then have "element_ok e' \<and> total (candidate_of e) \<le> total (candidate_of e')"
  proof cases
    case 1
    then show ?thesis using ok e by (simp add: search_ok_def cheapest_def)
  qed (rule sibling_ok [OF _ eok])
  then show "element_ok e'" "total (candidate_of e) \<le> total (candidate_of e')" by blast+
next
  fix S
  assume "diagnosis S" "W S"
  then consider C where "C \<in> set F" "set C \<subseteq> S" | e' where "e' \<in># Q" "reaches e' S"
    using ok by (auto simp: search_ok_def)
  then show "(\<exists>C \<in> set F. set C \<subseteq> S) \<or> set (candidate_of e) \<subseteq> S \<or>
      (\<exists>e' \<in># Q - {#e#} + sibling_of e. reaches e' S)"
  proof cases
    case 2
    show ?thesis
    proof (cases "e' = e")
      case True
      then show ?thesis using reaches_split [OF 2(2)] by auto
    next
      case False
      then have "e' \<in># Q - {#e#}" using 2(1) by (simp add: in_diff_count)
      then show ?thesis using 2(2) by auto
    qed
  qed blast
qed

lemma round_ok: "round (Q, F) (Q', F') \<Longrightarrow> search_ok W Q F \<Longrightarrow> search_ok W Q' F'"
proof (induction "(Q, F)" "(Q', F')" arbitrary: Q F Q' F' rule: round.induct)
  case (round_found e Q F)
  note s = sibling_search_ok [OF round_found(2,1)]
  have "\<forall>C \<in> set F. total C \<le> total (candidate_of e)"
    using round_found by (simp add: search_ok_def cheapest_def)
  moreover from this have "\<forall>C \<in> set F. \<forall>e' \<in># Q - {#e#} + sibling_of e. total C \<le> total (candidate_of e')"
    using s by (meson order.trans)
  ultimately show ?case using s round_found(2) by (auto simp: search_ok_def sorted_append)
next
  case (round_conflict e Q as F)
  note s = sibling_search_ok [OF round_conflict(4,1)]
  have eok: "element_ok e" using round_conflict(1,4) by (simp add: search_ok_def cheapest_def)
  let ?Q = "Q - {#e#} + sibling_of e + first_element (candidate_of e) as"
  have more: "\<forall>e' \<in># ?Q. element_ok e' \<and> total (candidate_of e) \<le> total (candidate_of e')"
    using s child_ok [OF _ eok round_conflict(2)] by auto
  have "\<forall>C \<in> set F. total C \<le> total (candidate_of e)"
    using round_conflict(1,4) by (simp add: search_ok_def cheapest_def)
  then have "\<forall>C \<in> set F. \<forall>e' \<in># ?Q. total C \<le> total (candidate_of e')"
    using more by (meson order.trans)
  moreover have "(\<exists>C \<in> set F. set C \<subseteq> S) \<or> (\<exists>e' \<in># ?Q. reaches e' S)" if S: "diagnosis S" "W S" for S
  proof -
    have "\<exists>e' \<in># first_element (candidate_of e) as. reaches e' S" if "set (candidate_of e) \<subseteq> S"
      using round_conflict(3) S that first_element_reaches unfolding resolving_def by blast
    then show ?thesis using s S by auto
  qed
  ultimately show ?case using more round_conflict(4) by (simp add: search_ok_def)
qed

lemma rounds_ok: "round\<^sup>*\<^sup>* (Q, F) (Q', F') \<Longrightarrow> search_ok W Q F \<Longrightarrow> search_ok W Q' F'"
  by (induction "(Q', F')" arbitrary: Q' F' rule: rtranclp_induct) (auto intro: round_ok)

text \<open>
  A diagnosis has a candidate that was found, or the agenda still has an element no more expensive
  than the diagnosis.
\<close>

lemma search_optimal:
  assumes "search_ok W Q F" "diagnosis S" "W S"
  shows "(\<exists>C \<in> set F. set C \<subseteq> S) \<or> (\<exists>e \<in># Q. total (candidate_of e) \<le> sum cost S)"
  using assms reaches_cost unfolding search_ok_def by blast

text \<open>An agenda of candidates to start from: the searched part is what extends them.\<close>

definition extends :: "'a list list \<Rightarrow> 'a set \<Rightarrow> bool" where
  "extends Cs S \<longleftrightarrow> (\<exists>C \<in> set Cs. set C \<subseteq> S)"

lemma search_ok_start:
  assumes "\<forall>C \<in> set Cs. distinct (map var C)"
  shows "search_ok (extends Cs) (mset (map (\<lambda>C. (C, None, [])) Cs)) []"
  using assms by (auto simp: search_ok_def extends_def)

end

end
