(* ===== verification/Opsat_Space.thy ===== *)
theory Opsat_Space
  imports Opsat Best_First Cdb_Search
begin

text \<open>
  The conflict database as a space of diagnoses for the search: which assignments the search may
  use, what they cost, and which sets of them are diagnoses. Nothing a search does changes it.
\<close>

subsection \<open>Diagnoses\<close>

text \<open>The assignments of the registered assumptions.\<close>

definition legal :: "conflict_db \<Rightarrow> assignment_id \<Rightarrow> bool" where
  "legal db a \<longleftrightarrow> valid_assignment db a \<and> a_variable (aheap db a) \<in> set (assumptions db)"

text \<open>The assignments, and the defaults of the assumptions they leave alone.\<close>

definition completed :: "conflict_db \<Rightarrow> assignment_id set \<Rightarrow> assignment_id set" where
  "completed db S = S \<union> {a. \<exists>v \<in> set (assumptions db). default_assignment (vheap db v) = Some a \<and>
     v \<notin> (\<lambda>a. a_variable (aheap db a)) ` S}"

text \<open>
  A diagnosis: at most one value for each assumption that, over the defaults of the others, has a
  model together with the clauses that assert no assumption.
\<close>

definition is_diagnosis :: "conflict_db \<Rightarrow> assignment_id set \<Rightarrow> bool" where
  "is_diagnosis db S \<longleftrightarrow> finite S \<and> (\<forall>a \<in> S. legal db a) \<and> inj_on (\<lambda>a. a_variable (aheap db a)) S \<and>
     (\<exists>m. models m (observed_formula db \<union> asserts db (completed db S)))"

interpretation space: diagnosis_space "\<lambda>a. a_variable (aheap db a)" "\<lambda>a. unat (weight (aheap db a))"
    "\<lambda>a. is_default db (a_variable (aheap db a)) a" "is_diagnosis db" for db
  by unfold_locales (simp_all add: is_diagnosis_def)

text \<open>The weights of a candidate never add up to more than a word holds.\<close>

definition max_cost :: "conflict_db \<Rightarrow> var_id \<Rightarrow> nat" where
  "max_cost db v = foldr max (map (\<lambda>a. unat (weight (aheap db a))) (v_assignments (vheap db v))) 0"

definition search_ready :: "conflict_db \<Rightarrow> weight_t \<Rightarrow> bool" where
  "search_ready db empty_weight \<longleftrightarrow>
     unat empty_weight + (\<Sum>v \<in> set (assumptions db). max_cost db v) < 2 ^ 32 \<and>
     next_assignment db \<le> max_heap \<and>
     (\<forall>v \<in> set (variables db). is_assumption (class_of (v_kind (vheap db v))) \<longrightarrow> v \<in> set (assumptions db))"

text \<open>The conflicts on record hold no assignment twice and really are conflicts.\<close>

definition genuine_conflicts :: "conflict_db \<Rightarrow> bool" where
  "genuine_conflicts db \<longleftrightarrow> (\<forall>k \<in> set (conflicts db). distinct (conflict_assignments (kheap db k)) \<and>
     (\<forall>m. \<not> models m (observed_formula db \<union> asserts db (set (conflict_assignments (kheap db k))))))"

subsection \<open>What a search leaves alone\<close>

definition same_space :: "conflict_db \<Rightarrow> conflict_db \<Rightarrow> bool" where
  "same_space db db' \<longleftrightarrow> variables db' = variables db \<and> assumptions db' = assumptions db \<and>
     next_assignment db' = next_assignment db \<and> observed_formula db' = observed_formula db \<and>
     (\<forall>a. a_variable (aheap db' a) = a_variable (aheap db a) \<and> a_index (aheap db' a) = a_index (aheap db a) \<and>
        weight (aheap db' a) = weight (aheap db a)) \<and>
     (\<forall>v. v_kind (vheap db' v) = v_kind (vheap db v) \<and> propositions (vheap db' v) = propositions (vheap db v) \<and>
        v_assignments (vheap db' v) = v_assignments (vheap db v) \<and>
        default_assignment (vheap db' v) = default_assignment (vheap db v))"

lemma same_space_refl [simp]: "same_space db db"
  by (simp add: same_space_def)

lemma same_space_trans: "same_space db db' \<Longrightarrow> same_space db' db'' \<Longrightarrow> same_space db db''"
  by (simp add: same_space_def)

lemma same_spaceD:
  assumes "same_space db db'"
  shows "valid_assignment db' a = valid_assignment db a" "legal db' a = legal db a" "prop_of db' a = prop_of db a"
    "asserts db' A = asserts db A" "is_default db' v a = is_default db v a" "completed db' S = completed db S"
    "is_diagnosis db' S = is_diagnosis db S" "siblings db' a = siblings db a"
    "sum_assignment_weights db' as = sum_assignment_weights db as"
    "is_assignment_useful db' a x = is_assignment_useful db a x" "search_ready db' w = search_ready db w"
proof -
  show v: "valid_assignment db' a = valid_assignment db a" for a
    using assms by (simp add: valid_assignment_def same_space_def)
  then show l: "legal db' a = legal db a" for a using assms by (simp add: legal_def same_space_def)
  show "prop_of db' a = prop_of db a" for a using assms by (simp add: prop_of_def same_space_def)
  then show as: "asserts db' A = asserts db A" for A by (simp add: asserts_def)
  show "is_default db' v a = is_default db v a" for a v using assms by (simp add: is_default_def same_space_def)
  then show "is_assignment_useful db' a x = is_assignment_useful db a x"
    using assms by (simp add: is_assignment_useful_def object_consistent_def same_space_def)
  show c: "completed db' S = completed db S" using assms by (simp add: completed_def same_space_def)
  show "is_diagnosis db' S = is_diagnosis db S"
    using assms by (simp add: is_diagnosis_def c as l same_space_def)
  show "siblings db' a = siblings db a" using assms by (simp add: siblings_def same_space_def)
  show "sum_assignment_weights db' as = sum_assignment_weights db as"
    using assms by (simp add: sum_assignment_weights_def same_space_def)
  show "search_ready db' w = search_ready db w"
    using assms by (simp add: search_ready_def max_cost_def same_space_def)
qed

text \<open>The clauses that assert no assumption: the hard ones, and the other current assignments.\<close>

definition asserts_assumption :: "conflict_db \<Rightarrow> assignment_id \<Rightarrow> bool" where
  "asserts_assumption db a \<longleftrightarrow> is_assumption (class_of (v_kind (vheap db (a_variable (aheap db a)))))"

lemma observed_by_current:
  assumes inv: "cdb_inv X db"
  shows "observed_formula db =
    hard_formula (solver db) \<union> asserts db {a. is_current db a \<and> \<not> asserts_assumption db a}"
proof (intro equalityI subsetI)
  fix C
  assume "C \<in> observed_formula db"
  then obtain c where c: "c \<in> active (solver db)" "C = set (clause_lits (cheap (solver db) c))"
    "\<not> clause_is_assumption db (cheap (solver db) c)"
    by (auto simp: observed_formula_def)
  note cl = active_clauses [OF c(1)]
  show "C \<in> hard_formula (solver db) \<union> asserts db {a. is_current db a \<and> \<not> asserts_assumption db a}"
  proof (cases "clause_datum (cheap (solver db) c)")
    case None
    then show ?thesis using c by (auto simp: hard_formula_def)
  next
    case (Some a)
    note d = datums_okD [OF cdb_invD(3) [OF inv] cl Some]
    then have "is_current db a" using c(1) by (simp add: is_current_def)
    moreover have "\<not> asserts_assumption db a"
      using c(3) Some by (simp add: clause_is_assumption_def datum_class_def asserts_assumption_def)
    ultimately show ?thesis using datum_unit [OF inv cl Some] c(2) by (auto simp: asserts_def)
  qed
next
  fix C
  assume "C \<in> hard_formula (solver db) \<union> asserts db {a. is_current db a \<and> \<not> asserts_assumption db a}"
  then consider "C \<in> hard_formula (solver db)"
    | a where "is_current db a" "\<not> asserts_assumption db a" "C = {(prop_of db a, True)}"
    by (auto simp: asserts_def)
  then show "C \<in> observed_formula db"
  proof cases
    case 1
    then obtain c where c: "c \<in> active (solver db)" "clause_datum (cheap (solver db) c) = None"
      "C = set (clause_lits (cheap (solver db) c))" by (auto simp: hard_formula_def)
    then show ?thesis unfolding observed_formula_def clause_is_assumption_def datum_class_def
      by (intro image_eqI [of _ _ c]) auto
  next
    case 2
    then have v: "a_variable (aheap db a) \<in> set (variables db)"
      "a \<in> set (v_assignments (vheap db (a_variable (aheap db a))))" by (auto simp: is_current_def valid_assignment_def)
    from assignment_of [OF cdb_invD(6) [OF inv v(1)] v(2)] obtain c where
      c: "c \<in> set (clauses (solver db))" "clause_datum (cheap (solver db) c) = Some a" by metis
    have "c \<in> active (solver db)"
      using datums_okD(3) [OF cdb_invD(3) [OF inv] c] 2(1) by (simp add: is_current_def)
    moreover have "\<not> clause_is_assumption db (cheap (solver db) c)"
      using 2(2) c(2) by (simp add: clause_is_assumption_def datum_class_def asserts_assumption_def)
    ultimately show ?thesis using datum_unit [OF inv c] 2(3)
      by (auto simp: observed_formula_def intro!: image_eqI [of _ _ c])
  qed
qed

lemma candidates_only_space:
  assumes "candidates_only db db'"
  shows "same_space db db'" "kheap db' = kheap db" "conflicts db' = conflicts db" "vheap db' = vheap db"
    "solver db' = solver db" "aheap db' = aheap db"
proof -
  have eq: "no_candidates db' = no_candidates db" using assms by (simp add: candidates_only_def)
  have f: "f (no_candidates db') = f (no_candidates db)" for f :: "conflict_db \<Rightarrow> 'b" by (simp add: eq)
  show k: "kheap db' = kheap db" and "conflicts db' = conflicts db" and v: "vheap db' = vheap db"
    and s: "solver db' = solver db" and a: "aheap db' = aheap db"
    using f [of kheap] f [of conflicts] f [of vheap] f [of solver] f [of aheap] by (simp_all add: no_candidates_def)
  have "variables db' = variables db" "assumptions db' = assumptions db" "next_assignment db' = next_assignment db"
    using f [of variables] f [of assumptions] f [of next_assignment] by (simp_all add: no_candidates_def)
  then show "same_space db db'"
    using v s a
    by (simp add: same_space_def observed_formula_def clause_is_assumption_def datum_class_def cong: option.case_cong)
qed

lemma genuine_same:
  assumes "genuine_conflicts db" "same_space db db'" "kheap db' = kheap db" "conflicts db' = conflicts db"
  shows "genuine_conflicts db'"
  using assms same_spaceD(4) [OF assms(2)] by (simp add: genuine_conflicts_def same_space_def)

end
