(* ===== verification/Opsat_Sim.thy ===== *)
theory Opsat_Sim
  imports Opsat_Space
begin

text \<open>
  The search of the code refines best-first search: one round of its loop is one round on the
  abstract agenda, the multiset of the elements of the heap.
\<close>

subsection \<open>Weights do not wrap\<close>

lemma foldr_max_ge: "x \<in> set xs \<Longrightarrow> x \<le> foldr max xs (0::nat)"
  by (induction xs) auto

lemma fold_weights:
  "unat s + sum_list (map (\<lambda>a. unat (w a)) as) < 2 ^ 32 \<Longrightarrow>
   unat (fold (\<lambda>a r. r + w a) as (s :: 32 word)) = unat s + sum_list (map (\<lambda>a. unat (w a)) as)"
proof (induction as arbitrary: s)
  case (Cons a as)
  then have "unat (s + w a) = unat s + unat (w a)"
    by (simp add: unat_word_ariths)
  then show ?case using Cons by simp
qed simp

lemma total_small:
  assumes r: "search_ready db ew" and C: "\<forall>a \<in> set C. legal db a" "distinct (map (\<lambda>a. a_variable (aheap db a)) C)"
  shows "unat ew + space.total db C < 2 ^ 32"
proof -
  have "unat (weight (aheap db a)) \<le> max_cost db (a_variable (aheap db a))" if "a \<in> set C" for a
    using C(1) that unfolding max_cost_def
    by (intro foldr_max_ge) (auto simp: legal_def valid_assignment_def)
  then have "space.total db C \<le> sum_list (map (max_cost db) (map (\<lambda>a. a_variable (aheap db a)) C))"
    unfolding space.total_def map_map by (intro sum_list_mono) simp
  also have "\<dots> = sum (max_cost db) (set (map (\<lambda>a. a_variable (aheap db a)) C))"
    by (rule sum_list_distinct_conv_sum_set [OF C(2)])
  also have "\<dots> \<le> sum (max_cost db) (set (assumptions db))"
    using C(1) by (intro sum_mono2) (auto simp: legal_def)
  finally show ?thesis using r by (simp add: search_ready_def)
qed

lemma candidate_weight:
  assumes "search_ready db ew" "\<forall>a \<in> set C. legal db a" "distinct (map (\<lambda>a. a_variable (aheap db a)) C)"
  shows "unat (ew + sum_assignment_weights db C) = unat ew + space.total db C"
proof -
  note small = total_small [OF assms]
  have "unat (sum_assignment_weights db C) = space.total db C"
    using fold_weights [of 0 "\<lambda>a. weight (aheap db a)" C] small
    by (simp add: sum_assignment_weights_def space.total_def)
  then show ?thesis using small by (simp add: unat_word_ariths)
qed

subsection \<open>Elements\<close>

definition abs_element :: "cbfs_element \<Rightarrow> assignment_id element" where
  "abs_element e = (cand_assignments (candidate_prefix e), pCurrentAssignment e, remainingAssignments e)"

definition element_sim :: "conflict_db \<Rightarrow> weight_t \<Rightarrow> cbfs_element \<Rightarrow> bool" where
  "element_sim db ew e \<longleftrightarrow> space.element_ok db (abs_element e) \<and>
     (\<forall>a \<in> set (candidate_of (abs_element e)) \<union> set (remainingAssignments e). legal db a) \<and>
     element_weight e = compute_element_weight db ew e"

lemma candidate_distinct:
  assumes "space.element_ok db e"
  shows "distinct (map (\<lambda>a. a_variable (aheap db a)) (candidate_of e))"
  using assms by (cases e; cases "fst (snd e)") (auto simp: space.useful_def)

lemma compute_weight:
  "compute_element_weight db ew e = ew + sum_assignment_weights db (candidate_of (abs_element e))"
  by (simp add: compute_element_weight_def abs_element_def sum_assignment_weights_def add.assoc split: option.splits)

lemma element_cost:
  assumes "search_ready db ew" "element_sim db ew e"
  shows "unat (element_weight e) = unat ew + space.total db (candidate_of (abs_element e))"
  using candidate_weight [OF assms(1), of "candidate_of (abs_element e)"] candidate_distinct assms(2)
  by (simp add: element_sim_def compute_weight)

lemma useful_iff:
  "is_assignment_useful db a x = space.useful db (cand_assignments x) a"
  by (auto simp: is_assignment_useful_def space.useful_def object_consistent_def object_contains_def
      list_all_iff list_ex_iff image_iff)

lemma pop_useless_dropWhile:
  "pop_useless_assignments db x as = dropWhile (\<lambda>a. \<not> space.useful db (cand_assignments x) a) as"
  by (induction as) (auto simp: useful_iff)

text \<open>Making objects only draws serial numbers.\<close>

definition serial_only :: "conflict_db \<Rightarrow> conflict_db \<Rightarrow> bool" where
  "serial_only db db' \<longleftrightarrow> (\<exists>n. db' = db\<lparr>global_id := n\<rparr>)"

lemma serial_only_refl [simp]: "serial_only db db"
  unfolding serial_only_def by (intro exI [of _ "global_id db"]) simp

lemma serial_only_upd [simp]: "serial_only db (db\<lparr>global_id := n\<rparr>)"
  by (auto simp: serial_only_def)

lemma serial_only_trans: "serial_only db db' \<Longrightarrow> serial_only db' db'' \<Longrightarrow> serial_only db db''"
  by (auto simp: serial_only_def)

lemma serial_onlyD:
  assumes "serial_only db db'"
  shows "candidates_only db db'" "candheap db' = candheap db" "next_candidate db' = next_candidate db"
    "candidates db' = candidates db"
  using assms by (auto simp: serial_only_def candidates_only_def no_candidates_def)

text \<open>The objects the search makes: the candidate of an element.\<close>

lemma generate_candidate_spec:
  assumes "generate_candidate e db = (x, db')"
  shows "cand_assignments x = candidate_of (abs_element e)" "serial_only db db'"
  using assms
  by (auto simp: generate_candidate_def copy_object_def abs_element_def split: option.splits)

lemma child_element_spec:
  assumes "child_element x a as db = (e, db')"
  shows "abs_element e = (cand_assignments x, Some a, as)" "serial_only db db'"
  using assms by (auto simp: child_element_def copy_object_def abs_element_def)

lemma shift_assignment_spec:
  "shift_assignment (e\<lparr>remainingAssignments := a # as\<rparr>) =
     Inr (e\<lparr>pCurrentAssignment := Some a, remainingAssignments := as\<rparr>)"
  by (simp add: shift_assignment_def)

lemma agenda_insert_sim:
  assumes heap: "least_heap element_weight (agenda_heap ag) E" "size E < max_heap"
    and sp: "same_space db0 db" and ok: "space.element_ok db0 (abs_element e)"
    and leg: "\<forall>a \<in> set (candidate_of (abs_element e)) \<union> set (remainingAssignments e). legal db0 a"
  shows "returns (agenda_insert db e ag) (\<lambda>ag'. \<exists>h e'. ag' = ag\<lparr>agenda_heap := h\<rparr> \<and>
    least_heap element_weight h (add_mset e' E) \<and> element_sim db0 (empty_element_weight ag) e' \<and>
    abs_element e' = abs_element e)"
proof -
  let ?e = "e\<lparr>element_weight := compute_element_weight db (empty_element_weight ag) e\<rparr>"
  have a: "abs_element (e\<lparr>element_weight := w\<rparr>) = abs_element e" for w by (simp add: abs_element_def)
  have "element_sim db0 (empty_element_weight ag) ?e"
    using ok leg by (simp add: element_sim_def a compute_weight same_spaceD(9) [OF sp])
  then show ?thesis
    using least.insert_law [OF heap, of ?e] a by (auto simp: agenda_insert_def elim!: returns_mono)
qed

subsection \<open>Expanding an element\<close>

lemma sorted_unat: "sorted (map f xs) \<Longrightarrow> sorted (map (\<lambda>a. unat (f a :: 32 word)) xs)"
  by (simp add: sorted_wrt_map word_le_nat_alt)

lemma get_new_assignments_spec:
  assumes "heap_order (agenda_heap ag) = 1" "length (resolving_assignments db k []) \<le> max_heap"
  shows "returns (get_new_assignments db ag [] x (Some k)) (\<lambda>as. \<exists>bs. mset bs = mset (resolving_assignments db k []) \<and>
    sorted (map (\<lambda>a. unat (weight (aheap db a))) bs) \<and>
    as = dropWhile (\<lambda>a. \<not> space.useful db (cand_assignments x) a) bs)"
proof (cases "resolving_assignments db k [] = []")
  case False
  have order: "heap_get_order (agenda_heap ag)" using assms(1) by (simp add: heap_get_order_def)
  let ?as = "resolving_assignments db k []"
  note q = least.queue_sort [OF new_least_heap assms(2) lessI, of "\<lambda>a. weight (aheap db a)"]
  have "returns (sort_by_heap db True ?as) (\<lambda>bs. mset bs = mset ?as \<and> sorted (map (\<lambda>a. weight (aheap db a)) bs))"
    unfolding sort_by_heap_def using q by (auto elim!: returns_mono)
  then show ?thesis
    using False sorted_unat
    by (auto simp: get_new_assignments_def Let_def order pop_useless_dropWhile l2_assert_def elim!: returns_mono)
qed (simp add: get_new_assignments_def l2_assert_def)

text \<open>The heap holds the elements of an abstract agenda.\<close>

definition heap_sim :: "conflict_db \<Rightarrow> agenda \<Rightarrow> assignment_id element multiset \<Rightarrow> bool" where
  "heap_sim db ag Q \<longleftrightarrow> (\<exists>E. least_heap element_weight (agenda_heap ag) E \<and>
     (\<forall>e \<in># E. element_sim db (empty_element_weight ag) e) \<and> Q = image_mset abs_element E)"

lemma heap_sim_insert:
  assumes "heap_sim db0 ag Q" "size Q < max_heap" "same_space db0 db" "space.element_ok db0 (abs_element e)"
    and "\<forall>a \<in> set (candidate_of (abs_element e)) \<union> set (remainingAssignments e). legal db0 a"
  shows "returns (agenda_insert db e ag) (\<lambda>ag'. heap_sim db0 ag' (add_mset (abs_element e) Q) \<and>
    empty_element_weight ag' = empty_element_weight ag \<and> last_popped_element ag' = last_popped_element ag)"
proof -
  obtain E where E: "least_heap element_weight (agenda_heap ag) E" "Q = image_mset abs_element E"
    "\<forall>e \<in># E. element_sim db0 (empty_element_weight ag) e" using assms(1) by (auto simp: heap_sim_def)
  have "size E < max_heap" using assms(2) E(2) by simp
  from agenda_insert_sim [OF E(1) this assms(3-5)] show ?thesis
  proof (rule returns_mono, elim exE conjE)
    fix ag' h e'
    assume "ag' = ag\<lparr>agenda_heap := h\<rparr>" "least_heap element_weight h (add_mset e' E)"
      "element_sim db0 (empty_element_weight ag) e'" "abs_element e' = abs_element e"
    then show "heap_sim db0 ag' (add_mset (abs_element e) Q) \<and>
        empty_element_weight ag' = empty_element_weight ag \<and> last_popped_element ag' = last_popped_element ag"
      using E by (auto simp: heap_sim_def intro!: exI [of _ "add_mset e' E"])
  qed
qed

lemma space_eq:
  assumes "same_space db db'"
  shows "(\<lambda>a. a_variable (aheap db' a)) = (\<lambda>a. a_variable (aheap db a))"
    "(\<lambda>a. unat (weight (aheap db' a))) = (\<lambda>a. unat (weight (aheap db a)))"
    "space.useful db' = space.useful db" "space.total db' = space.total db"
  using assms same_spaceD(5) [OF assms]
  by (simp_all add: same_space_def fun_eq_iff space.useful_def space.total_def)

lemma expand_conflict_sim:
  assumes heap: "heap_sim db0 ag Q" "size Q < max_heap" and sp: "same_space db0 db"
    and ok: "space.element_ok db0 (abs_element e)" and leg: "\<forall>a \<in> set (candidate_of (abs_element e)). legal db0 a"
    and new: "length (resolving_assignments db k []) \<le> max_heap" "\<forall>a \<in> set (resolving_assignments db k []). legal db0 a"
  shows "returns (expand_conflict (Some k) e ag db) (\<lambda>(ag', db'). \<exists>bs.
    set bs = set (resolving_assignments db k []) \<and> sorted (map (\<lambda>a. unat (weight (aheap db0 a))) bs) \<and>
    heap_sim db0 ag' (Q + space.first_element db0 (candidate_of (abs_element e)) bs) \<and>
    empty_element_weight ag' = empty_element_weight ag \<and> last_popped_element ag' = last_popped_element ag \<and>
    serial_only db db')"
proof -
  let ?C = "candidate_of (abs_element e)"
  obtain x db1 where g: "generate_candidate e (snd (empty_object db)) = (x, db1)"
    by (cases "generate_candidate e (snd (empty_object db))") auto
  have e0: "snd (empty_object db) = db\<lparr>global_id := global_id db + 1\<rparr>" by (simp add: empty_object_def)
  note g' = generate_candidate_spec [OF g]
  have d1: "serial_only db db1" using serial_only_trans [OF serial_only_upd g'(2) [unfolded e0]] .
  note sp1 = same_space_trans [OF sp candidates_only_space(1) [OF serial_onlyD(1) [OF d1]]]
  have res: "resolving_assignments db1 k [] = resolving_assignments db k []"
    using candidates_only_space(2,4,6) [OF serial_onlyD(1) [OF d1]]
    by (simp add: resolving_assignments_def append_other_values_def [abs_def] siblings_def)
  have "heap_order (agenda_heap ag) = 1" using heap(1) by (auto simp: heap_sim_def least_heap_def)
  from get_new_assignments_spec [OF this, of db1 k x] new(1) res obtain as bs where
    n: "get_new_assignments db1 ag [] x (Some k) = Inr as" "mset bs = mset (resolving_assignments db k [])"
      "sorted (map (\<lambda>a. unat (weight (aheap db0 a))) bs)" "as = dropWhile (\<lambda>a. \<not> space.useful db0 ?C a) bs"
    by (auto simp: returns_iff space_eq(2,3) [OF sp1] g'(1))
  have sb: "set bs = set (resolving_assignments db k [])" using mset_eq_setD [OF n(2)] .
  show ?thesis
  proof (cases as)
    case Nil
    then have "space.first_element db0 ?C bs = {#}" by (simp add: space.first_element_def flip: n(4))
    then show ?thesis using heap(1) g n(1,3) Nil d1 sb by (auto simp: expand_conflict_def)
  next
    case (Cons a rest)
    obtain e' db2 where c: "child_element x a rest db1 = (e', db2)" by (cases "child_element x a rest db1") auto
    note c' = child_element_spec [OF c]
    have fe: "space.first_element db0 ?C bs = {#abs_element e'#}"
      using Cons c'(1) g'(1) by (simp add: space.first_element_def flip: n(4))
    have ok': "space.element_ok db0 (abs_element e')"
      using space.first_element_ok(1) [of "abs_element e'" db0 ?C bs] candidate_distinct [OF ok] n(3) fe by simp
    have "set (a # rest) \<subseteq> set bs" using n(4) Cons set_dropWhileD by (metis subsetI)
    then have leg': "\<forall>b \<in> set (candidate_of (abs_element e')) \<union> set (remainingAssignments e'). legal db0 b"
      using leg new(2) sb c'(1) g'(1) by (auto simp: abs_element_def)
    note sp2 = same_space_trans [OF sp1 candidates_only_space(1) [OF serial_onlyD(1) [OF c'(2)]]]
    have "serial_only db db2" using serial_only_trans [OF d1 c'(2)] .
    then show ?thesis
      using heap_sim_insert [OF heap sp2 ok' leg'] g n(1,3) Cons c sb fe
      by (auto simp: expand_conflict_def elim!: returns_mono)
  qed
qed

text \<open>
  \<open>expand_element\<close> puts the sibling of the popped element back, and its child when there is a conflict.
\<close>

definition children :: "conflict_db \<Rightarrow> assignment_id element \<Rightarrow> conflict_id option \<Rightarrow> assignment_id list \<Rightarrow>
    assignment_id element multiset" where
  "children db e k bs = space.sibling_of db e +
     (if k = None then {#} else space.first_element db (candidate_of e) bs)"

lemma sibling_sim:
  assumes heap: "heap_sim db0 ag Q" "size Q < max_heap" and sp: "same_space db0 db" and e: "element_sim db0 ew e"
  shows "returns (let e1 = e\<lparr>remainingAssignments :=
               pop_useless_assignments db (candidate_prefix e) (remainingAssignments e)\<rparr>;
             ag2 = ag\<lparr>last_popped_element := None\<rparr>
         in if \<not> remaining_assignments_empty e1 then
              rbind (shift_assignment e1) (\<lambda>e2. rbind (agenda_insert db e2 ag2) (\<lambda>ag3. Inr (ag3, db)))
            else Inr (ag2, db))
    (\<lambda>(ag', db'). heap_sim db0 ag' (Q + space.sibling_of db0 (abs_element e)) \<and>
       empty_element_weight ag' = empty_element_weight ag \<and> db' = db)"
proof -
  let ?P = "cand_assignments (candidate_prefix e)"
  define R where "R = dropWhile (\<lambda>a. \<not> space.useful db0 ?P a) (remainingAssignments e)"
  have R: "pop_useless_assignments db (candidate_prefix e) (remainingAssignments e) = R"
    by (simp add: R_def pop_useless_dropWhile space_eq(3) [OF sp])
  have sib: "space.sibling_of db0 (abs_element e) = (case R of [] \<Rightarrow> {#} | a # R \<Rightarrow> {#(?P, Some a, R)#})"
    by (simp add: R_def abs_element_def space.sibling_of.simps space.first_element_def)
  have heap2: "heap_sim db0 (ag\<lparr>last_popped_element := None\<rparr>) Q" using heap(1) by (simp add: heap_sim_def)
  show ?thesis
  proof (cases R)
    case Nil
    then show ?thesis using heap2 by (simp add: R sib remaining_assignments_empty_def)
  next
    case (Cons a R')
    let ?e2 = "e\<lparr>pCurrentAssignment := Some a, remainingAssignments := R'\<rparr>"
    have ab: "abs_element ?e2 = (?P, Some a, R')" by (simp add: abs_element_def)
    have "abs_element ?e2 \<in># space.sibling_of db0 (abs_element e)" using Cons by (simp add: sib ab)
    then have ok: "space.element_ok db0 (abs_element ?e2)" using space.sibling_ok e by (auto simp: element_sim_def)
    have "set (a # R') \<subseteq> set (remainingAssignments e)" using Cons set_dropWhileD unfolding R_def by (metis subsetI)
    moreover have "set ?P \<subseteq> set (candidate_of (abs_element e))" by (auto simp: abs_element_def)
    ultimately have leg: "\<forall>b \<in> set (candidate_of (abs_element ?e2)) \<union> set (remainingAssignments ?e2). legal db0 b"
      using e by (auto simp: element_sim_def abs_element_def)
    show ?thesis
      using heap_sim_insert [OF heap2 heap(2) sp ok leg] Cons
      by (auto simp: R sib ab shift_assignment_spec remaining_assignments_empty_def elim!: returns_mono)
  qed
qed

lemma expand_element_sim:
  assumes heap: "heap_sim db0 ag Q" "size Q + 1 < max_heap" and sp: "same_space db0 db"
    and e: "last_popped_element ag = Some e" "element_sim db0 ew e"
    and new: "\<And>l. k = Some l \<Longrightarrow> length (resolving_assignments db l []) \<le> max_heap \<and>
      (\<forall>a \<in> set (resolving_assignments db l []). legal db0 a)"
  shows "returns (expand_element k ag db) (\<lambda>(ag', db'). \<exists>bs.
    (\<forall>l. k = Some l \<longrightarrow> set bs = set (resolving_assignments db l [])) \<and>
    sorted (map (\<lambda>a. unat (weight (aheap db0 a))) bs) \<and>
    heap_sim db0 ag' (Q + children db0 (abs_element e) k bs) \<and>
    empty_element_weight ag' = empty_element_weight ag \<and> serial_only db db')"
proof (cases k)
  case None
  show ?thesis
    using sibling_sim [OF heap(1) _ sp e(2)] heap(2) e(1) None
    by (auto simp: expand_element_def expand_conflict_def children_def intro!: exI [of _ "[]"] elim!: returns_mono)
next
  case (Some l)
  have ok: "space.element_ok db0 (abs_element e)" "\<forall>a \<in> set (candidate_of (abs_element e)). legal db0 a"
    using e(2) by (simp_all add: element_sim_def)
  from expand_conflict_sim [OF heap(1) _ sp ok, of l] new [OF Some] heap(2) obtain ag1 db1 bs where
    x: "expand_conflict (Some l) e ag db = Inr (ag1, db1)" "set bs = set (resolving_assignments db l [])"
    "sorted (map (\<lambda>a. unat (weight (aheap db0 a))) bs)"
    "heap_sim db0 ag1 (Q + space.first_element db0 (candidate_of (abs_element e)) bs)"
    "empty_element_weight ag1 = empty_element_weight ag" "serial_only db db1"
    by (auto simp: returns_iff)
  have "size (space.first_element db0 (candidate_of (abs_element e)) bs) \<le> 1"
    by (auto simp: space.first_element_def split: list.splits)
  then have "size (Q + space.first_element db0 (candidate_of (abs_element e)) bs) < max_heap" using heap(2) by simp
  from sibling_sim [OF x(4) this same_space_trans [OF sp candidates_only_space(1) [OF serial_onlyD(1) [OF x(6)]]] e(2)]
  show ?thesis
    using x e(1) Some
    by (auto simp: expand_element_def children_def ac_simps intro!: exI [of _ bs] elim!: returns_mono)
qed

end
