(* ===== verification/Opsat_Round.thy ===== *)
theory Opsat_Round
  imports Opsat_Sim
begin

text \<open>
  One round of the search: the candidate of a cheapest element is installed over the defaults, its
  consistency decided by unit propagation, and the element expanded by what resolves the conflict.
\<close>

subsection \<open>Installing and diagnosing keep the space\<close>

lemma same_but_current_space:
  assumes inv: "cdb_ok db" "cdb_ok db'" and same: "same_but_current db db'"
    and cur: "\<And>v. v \<in> set (variables db) \<Longrightarrow> \<not> is_assumption (class_of (v_kind (vheap db v))) \<Longrightarrow>
      v_current (vheap db' v) = v_current (vheap db v)"
  shows "same_space db db'"
proof -
  note v = same_but_current_var [OF same]
  have f: "aheap db' = aheap db" "variables db' = variables db" "assumptions db' = assumptions db"
    "next_assignment db' = next_assignment db" and "hard_formula (solver db') = hard_formula (solver db)"
    using same hard_formula_same [of "solver db" "solver db'"] by (simp_all add: same_but_current_def)
  moreover have "asserts db' {a. is_current db' a \<and> \<not> asserts_assumption db' a} =
      asserts db {a. is_current db a \<and> \<not> asserts_assumption db a}"
  proof -
    have "prop_of db' a = prop_of db a" for a by (simp add: prop_of_def f v)
    moreover have "is_current db' a \<and> \<not> asserts_assumption db' a \<longleftrightarrow> is_current db a \<and> \<not> asserts_assumption db a" for a
      using cur [of "a_variable (aheap db a)"]
      by (auto simp: is_current_def asserts_assumption_def valid_assignment_def f v)
    ultimately show ?thesis by (simp add: asserts_def)
  qed
  ultimately have "observed_formula db' = observed_formula db"
    by (simp add: observed_by_current [OF inv(1)] observed_by_current [OF inv(2)])
  then show ?thesis by (simp add: same_space_def f v)
qed

lemma conflict_space:
  assumes inv: "cdb_ok db" and gen: "genuine_conflicts db"
  shows "returns (conflict tag db) (\<lambda>(r, db'). cdb_ok db' \<and> same_space db db' \<and> genuine_conflicts db' \<and>
    candheap db' = candheap db \<and> next_candidate db' = next_candidate db \<and> candidates db' = candidates db \<and>
    vheap db' = vheap db \<and> formula (solver db') = formula (solver db) \<and>
    (r = None \<longleftrightarrow> \<not> up_conflict (formula (solver db))) \<and>
    (\<forall>k. r = Some k \<longrightarrow> k \<in> set (conflicts db') \<and>
       (\<forall>a \<in> set (conflict_assignments (kheap db' k)). is_current db a \<and> asserts_assumption db a)))"
proof -
  obtain r db' where c: "conflict tag db = Inr (r, db')" and inv': "cdb_ok db'"
    and f: "formula (solver db') = formula (solver db)" "vheap db' = vheap db" "variables db' = variables db"
      "candheap db' = candheap db" "assumptions db' = assumptions db" "next_assignment db' = next_assignment db"
      "hard_formula (solver db') = hard_formula (solver db)" "next_candidate db' = next_candidate db"
      "candidates db' = candidates db"
    and a: "\<And>a. a_variable (aheap db' a) = a_variable (aheap db a)" "\<And>a. a_index (aheap db' a) = a_index (aheap db a)"
      "\<And>a. weight (aheap db' a) = weight (aheap db a)"
    and old: "\<And>j. j \<in> set (conflicts db) \<Longrightarrow> kheap db' j = kheap db j"
    and r: "r = None \<longleftrightarrow> \<not> up_conflict (formula (solver db))"
    and none: "r = None \<Longrightarrow> conflicts db' = conflicts db"
    and some: "\<And>k. r = Some k \<Longrightarrow> k \<in> set (conflicts db') \<and> set (conflicts db') = insert k (set (conflicts db)) \<and>
        (\<forall>a \<in> set (conflict_assignments (kheap db' k)). is_current db a \<and> asserts_assumption db a)"
    and new: "\<And>k. r = Some k \<Longrightarrow> k \<notin> set (conflicts db) \<Longrightarrow> distinct (conflict_assignments (kheap db' k)) \<and>
      (\<forall>m. \<not> models m (observed_formula db \<union> asserts db (set (conflict_assignments (kheap db' k)))))"
    using conflict_ok [OF inv, of tag] unfolding asserts_assumption_def
    by (auto simp: returns_iff)
  have "asserts db' {a. is_current db' a \<and> \<not> asserts_assumption db' a} =
      asserts db {a. is_current db a \<and> \<not> asserts_assumption db a}"
    by (simp add: asserts_def prop_of_def is_current_def valid_assignment_def asserts_assumption_def f a)
  then have "observed_formula db' = observed_formula db"
    by (simp add: observed_by_current [OF inv] observed_by_current [OF inv'] f)
  then have sp: "same_space db db'" by (simp add: same_space_def f a)
  have "genuine_conflicts db'"
    unfolding genuine_conflicts_def
  proof
    fix k
    assume k: "k \<in> set (conflicts db')"
    show "distinct (conflict_assignments (kheap db' k)) \<and>
        (\<forall>m. \<not> models m (observed_formula db' \<union> asserts db' (set (conflict_assignments (kheap db' k)))))"
    proof (cases "k \<in> set (conflicts db)")
      case True
      then show ?thesis using gen old sp by (simp add: genuine_conflicts_def same_spaceD(4) [OF sp] same_space_def)
    next
      case False
      then have "r = Some k" using k none some by (cases r) auto
      then show ?thesis using new False sp by (simp add: same_spaceD(4) [OF sp] same_space_def)
    qed
  qed
  then show ?thesis using c inv' f sp r some by simp
qed

subsection \<open>What resolves a conflict\<close>

lemma set_resolving:
  "set (resolving_assignments db k as) = set as \<union> (\<Union>a \<in> set (conflict_assignments (kheap db k)). set (siblings db a))"
proof -
  have "set (fold (append_other_values db) ks as) = set as \<union> (\<Union>a \<in> set ks. set (siblings db a))" for ks as
    by (induction ks arbitrary: as) (auto simp: append_other_values_def fold_Cons_rev)
  then show ?thesis by (simp add: resolving_assignments_def)
qed

text \<open>A diagnosis that extends an installed candidate gives some other value to a variable of its conflict.\<close>

lemma conflict_resolving:
  assumes cur: "\<And>u x. u \<in> set (assumptions db) \<Longrightarrow> v_current (vheap db u) = Some x \<Longrightarrow>
      x \<in> set C \<or> default_assignment (vheap db u) = Some x \<and> u \<notin> (\<lambda>a. a_variable (aheap db a)) ` set C"
    and reg: "\<And>v. v \<in> set (variables db) \<Longrightarrow> is_assumption (class_of (v_kind (vheap db v))) \<Longrightarrow> v \<in> set (assumptions db)"
    and k: "\<And>a. a \<in> set (conflict_assignments (kheap db' k)) \<Longrightarrow> is_current db a \<and> asserts_assumption db a"
    and gen: "\<And>m. \<not> models m (observed_formula db \<union> asserts db (set (conflict_assignments (kheap db' k))))"
    and bs: "set bs = (\<Union>a \<in> set (conflict_assignments (kheap db' k)). set (siblings db a))"
  shows "space.resolving db C bs"
  unfolding space.resolving_def
proof (intro allI impI)
  fix S
  assume S: "is_diagnosis db S" and C: "set C \<subseteq> S"
  let ?K = "set (conflict_assignments (kheap db' k))"
  obtain m where "models m (observed_formula db \<union> asserts db (completed db S))"
    using S by (auto simp: is_diagnosis_def)
  then have "\<not> asserts db ?K \<subseteq> asserts db (completed db S)"
    using gen [of m] unfolding models_def by blast
  then obtain x where x: "x \<in> ?K" "x \<notin> completed db S" by (auto simp: asserts_def)
  let ?v = "a_variable (aheap db x)"
  have xc: "is_current db x" "?v \<in> set (assumptions db)"
    using k [OF x(1)] reg [of ?v] by (auto simp: asserts_assumption_def is_current_def valid_assignment_def)
  have d: "default_assignment (vheap db ?v) = Some x" "?v \<notin> (\<lambda>a. a_variable (aheap db a)) ` set C"
    using cur [OF xc(2), of x] xc(1) x(2) C by (auto simp: is_current_def completed_def)
  then obtain b where b: "b \<in> S" "a_variable (aheap db b) = ?v"
    using x(2) xc(2) by (auto simp: completed_def)
  have "b \<noteq> x" using b(1) x(2) by (auto simp: completed_def)
  moreover have "b \<in> set (v_assignments (vheap db ?v))"
    using S b by (auto simp: is_diagnosis_def legal_def valid_assignment_def)
  ultimately have "b \<in> set bs" using x(1) bs by (auto simp: siblings_def)
  moreover have "\<not> is_default db ?v b" using d(1) \<open>b \<noteq> x\<close> by (simp add: is_default_def)
  then have "space.useful db C b" unfolding space.useful_def b(2) using d(2) by blast
  ultimately show "\<exists>a \<in> set bs. a \<in> S \<and> space.useful db C a" using b(1) by blast
qed

text \<open>The list of the resolving assignments has no assignment twice, so the work heap can hold it.\<close>

lemma distinct_resolving:
  assumes inv: "cdb_ok db" and d: "distinct ks" "\<And>a. a \<in> set ks \<Longrightarrow> is_current db a"
  shows "distinct (fold (append_other_values db) ks as) \<longleftrightarrow> distinct as \<and> set as \<inter> (\<Union>a \<in> set ks. set (siblings db a)) = {}"
  using d
proof (induction ks arbitrary: as)
  case (Cons a ks)
  have va: "valid_assignment db a" using Cons.prems(2) [of a] by (simp add: is_current_def)
  have ds: "distinct (siblings db a)" using valid_distinct [OF inv va] by (simp add: siblings_def)
  have dis: "set (siblings db a) \<inter> (\<Union>b \<in> set ks. set (siblings db b)) = {}"
  proof (rule ccontr)
    assume "\<not> ?thesis"
    then obtain x b where b: "b \<in> set ks" "x \<in> set (siblings db a)" "x \<in> set (siblings db b)" by auto
    have vb: "valid_assignment db b" using Cons.prems(2) [of b] b(1) by (simp add: is_current_def)
    have "a_variable (aheap db x) = a_variable (aheap db c)"
      if "valid_assignment db c" "x \<in> set (siblings db c)" for c
    proof -
      have "x \<in> set (v_assignments (vheap db (a_variable (aheap db c))))" using that(2) by (simp add: siblings_def)
      then show ?thesis
        using assignment_of [OF cdb_invD(6) [OF inv, of "a_variable (aheap db c)"]] that(1)
        unfolding valid_assignment_def by metis
    qed
    then have "a_variable (aheap db a) = a_variable (aheap db b)" using va vb b by metis
    then have "a = b" using Cons.prems(2) [of a] Cons.prems(2) [of b] b(1) by (simp add: is_current_def)
    then show False using Cons.prems(1) b(1) by simp
  qed
  have "distinct (fold (append_other_values db) ks (as @ rev (siblings db a))) \<longleftrightarrow>
      distinct (as @ rev (siblings db a)) \<and> set (as @ rev (siblings db a)) \<inter> (\<Union>b \<in> set ks. set (siblings db b)) = {}"
    using Cons by simp
  moreover have "fold (append_other_values db) (a # ks) as = fold (append_other_values db) ks (as @ rev (siblings db a))"
    by (simp add: append_other_values_def fold_Cons_rev)
  ultimately show ?case using ds dis by auto
qed simp

lemma resolving_legal:
  assumes inv: "cdb_ok db" and k: "\<And>a. a \<in> set (conflict_assignments (kheap db k)) \<Longrightarrow> legal db a"
    and a: "a \<in> set (resolving_assignments db k [])"
  shows "legal db a"
proof -
  obtain b where b: "b \<in> set (conflict_assignments (kheap db k))" "a \<in> set (siblings db b)"
    using a by (auto simp: set_resolving)
  let ?v = "a_variable (aheap db b)"
  have v: "?v \<in> set (variables db)" "?v \<in> set (assumptions db)"
    using k [OF b(1)] by (auto simp: legal_def valid_assignment_def)
  have m: "a \<in> set (v_assignments (vheap db ?v))" using b(2) by (simp add: siblings_def)
  have "a_variable (aheap db a) = ?v" using assignment_of [OF cdb_invD(6) [OF inv v(1)] m] by metis
  then show ?thesis using v m by (simp add: legal_def valid_assignment_def)
qed

lemma resolving_length:
  assumes inv: "cdb_ok db" and d: "distinct (conflict_assignments (kheap db k))"
    and cur: "\<And>a. a \<in> set (conflict_assignments (kheap db k)) \<Longrightarrow> is_current db a"
    and leg: "\<And>a. a \<in> set (resolving_assignments db k []) \<Longrightarrow> legal db a"
  shows "length (resolving_assignments db k []) \<le> next_assignment db"
proof -
  have "distinct (resolving_assignments db k [])"
    using distinct_resolving [OF inv d cur, of "[]"] by (simp add: resolving_assignments_def)
  then have "length (resolving_assignments db k []) = card (set (resolving_assignments db k []))"
    by (simp add: distinct_card)
  also have "\<dots> \<le> card {..<next_assignment db}"
    using leg valid_assignment_less [OF inv] by (intro card_mono) (auto simp: legal_def)
  finally show ?thesis by simp
qed

subsection \<open>The theory of an installed candidate\<close>

definition holds_candidate :: "conflict_db \<Rightarrow> assignment_id list \<Rightarrow> bool" where
  "holds_candidate db C \<longleftrightarrow> (\<forall>u \<in> set (assumptions db). v_current (vheap db u) =
     (case find (\<lambda>a. a_variable (aheap db a) = u) (rev C) of Some a \<Rightarrow> Some a
      | None \<Rightarrow> default_assignment (vheap db u)))"

lemma find_Some_mem: "find P xs = Some x \<Longrightarrow> x \<in> set xs \<and> P x"
  by (induction xs) (auto split: if_splits)

lemma holds_candidateD:
  assumes "holds_candidate db C" "u \<in> set (assumptions db)" "v_current (vheap db u) = Some x"
  shows "x \<in> set C \<or> default_assignment (vheap db u) = Some x \<and> u \<notin> (\<lambda>a. a_variable (aheap db a)) ` set C"
proof (cases "find (\<lambda>a. a_variable (aheap db a) = u) (rev C)")
  case None
  then have "v_current (vheap db u) = default_assignment (vheap db u)" using assms by (simp add: holds_candidate_def)
  moreover have "u \<notin> (\<lambda>a. a_variable (aheap db a)) ` set C" using None by (auto simp: find_None_iff)
  ultimately show ?thesis using assms(3) by simp
next
  case (Some y)
  then show ?thesis using assms find_Some_mem [OF Some] by (auto simp: holds_candidate_def)
qed

lemma holds_candidate_formula:
  assumes inv: "cdb_ok db" and h: "holds_candidate db C"
    and reg: "\<And>v. v \<in> set (variables db) \<Longrightarrow> is_assumption (class_of (v_kind (vheap db v))) \<Longrightarrow> v \<in> set (assumptions db)"
    and C: "\<forall>a \<in> set C. legal db a" "distinct (map (\<lambda>a. a_variable (aheap db a)) C)"
  shows "formula (solver db) = observed_formula db \<union> asserts db (completed db (set C))"
proof -
  have as: "v \<in> set (variables db)" "is_assumption (class_of (v_kind (vheap db v)))"
    if "v \<in> set (assumptions db)" for v using inv that by (auto simp: cdb_inv_def)
  have "a \<in> completed db (set C)" if a: "is_current db a" "asserts_assumption db a" for a
  proof -
    have "a_variable (aheap db a) \<in> set (assumptions db)"
      using reg a by (auto simp: is_current_def valid_assignment_def asserts_assumption_def)
    then show ?thesis using holds_candidateD [OF h, of "a_variable (aheap db a)" a] a(1)
      unfolding completed_def is_current_def by blast
  qed
  moreover have "is_current db a \<and> asserts_assumption db a" if a: "a \<in> completed db (set C)" for a
  proof -
    consider "a \<in> set C" | v where "v \<in> set (assumptions db)" "default_assignment (vheap db v) = Some a"
        "v \<notin> (\<lambda>a. a_variable (aheap db a)) ` set C"
      using a by (auto simp: completed_def)
    then show ?thesis
    proof cases
      case 1
      let ?v = "a_variable (aheap db a)"
      have v: "valid_assignment db a" "?v \<in> set (assumptions db)" using C(1) 1 by (auto simp: legal_def)
      obtain x where x: "find (\<lambda>b. a_variable (aheap db b) = ?v) (rev C) = Some x"
        using 1 by (cases "find (\<lambda>b. a_variable (aheap db b) = ?v) (rev C)") (auto simp: find_None_iff)
      then have "x \<in> set C" "a_variable (aheap db x) = ?v" using find_Some_mem by fastforce+
      then have "x = a" using C(2) 1 by (auto simp: distinct_map dest: inj_onD)
      then show ?thesis using h x v as(2) [OF v(2)]
        by (simp add: holds_candidate_def is_current_def asserts_assumption_def)
    next
      case 2
      have "find (\<lambda>b. a_variable (aheap db b) = v) (rev C) = None" using 2(3) by (auto simp: find_None_iff)
      then have cur: "v_current (vheap db v) = Some a" using h 2 by (simp add: holds_candidate_def)
      have m: "a \<in> set (v_assignments (vheap db v))"
        using cdb_invD(7) [OF inv as(1) [OF 2(1)]] cur by (simp add: var_dynamic_def)
      have "a_variable (aheap db a) = v" using assignment_of [OF cdb_invD(6) [OF inv as(1) [OF 2(1)]] m] by metis
      then show ?thesis using cur m as [OF 2(1)]
        by (simp add: is_current_def valid_assignment_def asserts_assumption_def)
    qed
  qed
  ultimately have "{a. is_current db a \<and> asserts_assumption db a} = completed db (set C)" by blast
  then show ?thesis
    unfolding formula_by_current [OF inv] observed_by_current [OF inv] by (auto simp: asserts_def)
qed

subsection \<open>A round\<close>

definition search_sim :: "conflict_db \<Rightarrow> opsat \<Rightarrow> conflict_db \<Rightarrow> assignment_id element multiset \<Rightarrow> bool" where
  "search_sim db0 op db Q \<longleftrightarrow> cdb_ok db \<and> same_space db0 db \<and> genuine_conflicts db \<and>
     search_ready db0 (empty_element_weight (search_agenda op)) \<and> heap_sim db0 (search_agenda op) Q"

text \<open>Popping: a cheapest element leaves the heap and its candidate is written to the heap object.\<close>

lemma pop_candidate_sim:
  assumes heap: "heap_sim db0 ag Q" "Q \<noteq> {#}" "size Q \<le> max_heap" and r: "search_ready db0 (empty_element_weight ag)"
  shows "returns (pop_candidate c ag db) (\<lambda>(ag', db'). \<exists>e. space.cheapest db0 (abs_element e) Q \<and>
    heap_sim db0 ag' (Q - {#abs_element e#}) \<and> last_popped_element ag' = Some e \<and>
    element_sim db0 (empty_element_weight ag) e \<and> empty_element_weight ag' = empty_element_weight ag \<and>
    candidates_only db db' \<and> cand_assignments (candheap db' c) = candidate_of (abs_element e) \<and>
    (\<forall>d. d \<noteq> c \<longrightarrow> candheap db' d = candheap db d) \<and>
    next_candidate db' = next_candidate db \<and> candidates db' = candidates db)"
proof -
  obtain E where E: "least_heap element_weight (agenda_heap ag) E" "Q = image_mset abs_element E"
    "\<forall>e \<in># E. element_sim db0 (empty_element_weight ag) e" using heap(1) by (auto simp: heap_sim_def)
  have "E \<noteq> {#}" "size E \<le> max_heap" using heap E(2) by auto
  then obtain e h where p: "heap_pop element_weight (agenda_heap ag) = Inr (e, h)" "e \<in># E"
    "\<forall>y \<in># E. element_weight e \<le> element_weight y" "least_heap element_weight h (E - {#e#})"
    using least.pop_law [OF E(1)] by (auto simp: returns_iff)
  obtain x db1 where g: "generate_candidate e db = (x, db1)" by (cases "generate_candidate e db") auto
  note g' = generate_candidate_spec [OF g]
  have "unat (element_weight e) \<le> unat (element_weight y)" if "y \<in># E" for y
    using p(3) that by (simp add: word_le_nat_alt)
  then have "space.cheapest db0 (abs_element e) Q"
    unfolding space.cheapest_def using p(2) E(2,3) element_cost [OF r] by auto
  moreover have "Q - {#abs_element e#} = image_mset abs_element (E - {#e#})"
    using p(2) E(2) by (simp add: image_mset_Diff)
  moreover have "candidates_only db (upd_candidate c (\<lambda>_. x) db1)"
    by (rule candidates_only_trans [OF serial_onlyD(1) [OF g'(2)] candidates_only_upd_candidate])
  moreover have "next_candidate (upd_candidate c (\<lambda>_. x) db1) = next_candidate db"
    "candidates (upd_candidate c (\<lambda>_. x) db1) = candidates db"
    using serial_onlyD [OF g'(2)] by simp_all
  ultimately show ?thesis
    using p E(3) g g'(1) serial_onlyD(2) [OF g'(2)]
    by (auto simp: pop_candidate_def heap_sim_def intro!: exI [of _ e] exI [of _ "E - {#e#}"] dest: in_diffD)
qed

text \<open>Installing: the loop over the defaults and the loop over the candidate.\<close>

lemma install_space:
  assumes inv: "cdb_ok db" and sp: "same_space db0 db" and gen: "genuine_conflicts db"
    and leg: "\<forall>a \<in> set (cand_assignments (candheap db c)). legal db0 a"
  shows "returns (install c p db) (\<lambda>db'. cdb_ok db' \<and>
    same_space db0 db' \<and> genuine_conflicts db' \<and> candheap db' = candheap db \<and>
    next_candidate db' = next_candidate db \<and> candidates db' = candidates db \<and> holds_candidate db' (cand_assignments (candheap db c)))"
proof -
  have ok: "candidate_ok db c" using leg same_spaceD(1,2) [OF sp] by (simp add: candidate_ok_def legal_def)
  obtain db' where i: "install c p db = Inr db'" "cdb_ok db'" "same_but_current db db'"
    "\<And>u. v_current (vheap db' u) = installed db c u"
    using install_ok [OF inv ok, of p] by (auto simp: returns_iff)
  have f: "kheap db' = kheap db" "conflicts db' = conflicts db" "candheap db' = candheap db"
    "assumptions db' = assumptions db" "aheap db' = aheap db" "next_candidate db' = next_candidate db"
    "candidates db' = candidates db" using i(3) by (simp_all add: same_but_current_def)
  have "v_current (vheap db' v) = v_current (vheap db v)"
    if "\<not> is_assumption (class_of (v_kind (vheap db v)))" for v
  proof -
    have no: "v \<notin> set (assumptions db)" using inv that by (auto simp: cdb_inv_def)
    have "a_variable (aheap db a) \<in> set (assumptions db)" if "a \<in> set (cand_assignments (candheap db c))" for a
    proof -
      have "legal db a" using leg that same_spaceD(2) [OF sp] by blast
      then show ?thesis by (simp add: legal_def)
    qed
    then have "find (\<lambda>a. a_variable (aheap db a) = v) (rev (cand_assignments (candheap db c))) = None"
      using no by (auto simp: find_None_iff)
    then show ?thesis using no by (simp add: i(4) installed_def)
  qed
  then have sp': "same_space db db'" using same_but_current_space [OF inv i(2,3)] by blast
  have "holds_candidate db' (cand_assignments (candheap db c))"
    using same_but_current_var(4) [OF i(3)] by (auto simp: holds_candidate_def i(4) installed_def f split: option.splits)
  then show ?thesis
    using i(1,2) same_space_trans [OF sp sp'] genuine_same [OF gen sp' f(1,2)] f(3,6,7) by simp
qed

lemma install_sim:
  assumes "cdb_ok db" "same_space db0 db" "genuine_conflicts db"
    and "\<forall>a \<in> set (cand_assignments (candheap db c)). legal db0 a"
  shows "returns (rbind (restore_assumption_defaults db) (candidate_assign c)) (\<lambda>db'. cdb_ok db' \<and>
    same_space db0 db' \<and> genuine_conflicts db' \<and> candheap db' = candheap db \<and>
    next_candidate db' = next_candidate db \<and> candidates db' = candidates db \<and> holds_candidate db' (cand_assignments (candheap db c)))"
proof -
  have "install c False db = rbind (restore_assumption_defaults db) (candidate_assign c)"
    by (auto simp: install_def rbind_def split: sum.splits)
  then show ?thesis using install_space [OF assms, of False] by simp
qed

text \<open>What a round, and a search, leaves alone: the limits and every candidate but the one it fills.\<close>

definition search_frame :: "candidate_id \<Rightarrow> opsat \<Rightarrow> conflict_db \<Rightarrow> opsat \<Rightarrow> conflict_db \<Rightarrow> bool" where
  "search_frame c op db op' db' \<longleftrightarrow> max_candidates op' = max_candidates op \<and> cutoff_weight op' = cutoff_weight op \<and>
     empty_element_weight (search_agenda op') = empty_element_weight (search_agenda op) \<and>
     (\<forall>d. d \<noteq> c \<longrightarrow> candheap db' d = candheap db d) \<and> next_candidate db' = next_candidate db \<and>
     candidates db' = candidates db"

lemma search_frame_refl [simp]: "search_frame c op db op db"
  by (simp add: search_frame_def)

lemma search_frame_trans:
  "search_frame c op db op1 db1 \<Longrightarrow> search_frame c op1 db1 op2 db2 \<Longrightarrow> search_frame c op db op2 db2"
  by (simp add: search_frame_def)

text \<open>The assignments, with the defaults of the assumptions they leave alone, pass unit propagation.\<close>

definition passes :: "conflict_db \<Rightarrow> assignment_id list \<Rightarrow> bool" where
  "passes db C \<longleftrightarrow> \<not> up_conflict (observed_formula db \<union> asserts db (completed db (set C)))"

text \<open>A candidate of the search: at most one value for each registered assumption.\<close>

definition proper_candidate :: "conflict_db \<Rightarrow> assignment_id list \<Rightarrow> bool" where
  "proper_candidate db C \<longleftrightarrow> (\<forall>a \<in> set C. legal db a) \<and> distinct (map (\<lambda>a. a_variable (aheap db a)) C)"

definition round_post :: "conflict_db \<Rightarrow> candidate_id \<Rightarrow> opsat \<Rightarrow> conflict_db \<Rightarrow> assignment_id element multiset \<Rightarrow>
    conflict_id option \<times> opsat \<times> conflict_db \<Rightarrow> bool" where
  "round_post db0 c op db Q = (\<lambda>(k, op', db'). \<exists>e bs. space.cheapest db0 e Q \<and>
    sorted (map (\<lambda>a. unat (weight (aheap db0 a))) bs) \<and>
    (k \<noteq> None \<longrightarrow> space.resolving db0 (candidate_of e) bs) \<and> (k = None \<longleftrightarrow> passes db0 (candidate_of e)) \<and>
    proper_candidate db0 (candidate_of e) \<and> search_sim db0 op' db' (Q - {#e#} + children db0 e k bs) \<and>
    cand_assignments (candheap db' c) = candidate_of e \<and> search_frame c op db op' db' \<and>
    candidates_considered op' = candidates_considered op + 1)"

lemma try_candidate_sim:
  assumes sim: "search_sim db0 op db Q" and Q: "Q \<noteq> {#}" "size Q < max_heap"
  shows "returns (try_candidate tag c op db) (round_post db0 c op db Q)"
proof -
  let ?ag = "search_agenda op" and ?ew = "empty_element_weight (search_agenda op)"
  have s: "cdb_ok db" "same_space db0 db" "genuine_conflicts db" "search_ready db0 ?ew" "heap_sim db0 ?ag Q"
    using sim by (simp_all add: search_sim_def)
  obtain ag1 db1 e where p: "pop_candidate c ?ag db = Inr (ag1, db1)" "space.cheapest db0 (abs_element e) Q"
    "heap_sim db0 ag1 (Q - {#abs_element e#})" "last_popped_element ag1 = Some e" "element_sim db0 ?ew e"
    "empty_element_weight ag1 = ?ew" "candidates_only db db1"
    "cand_assignments (candheap db1 c) = candidate_of (abs_element e)" "\<forall>d. d \<noteq> c \<longrightarrow> candheap db1 d = candheap db d"
    "next_candidate db1 = next_candidate db" "candidates db1 = candidates db"
    using pop_candidate_sim [OF s(5) Q(1) _ s(4), of c db] Q(2) by (auto simp: returns_iff)
  let ?C = "candidate_of (abs_element e)"
  have e: "\<forall>a \<in> set ?C. legal db0 a" "distinct (map (\<lambda>a. a_variable (aheap db0 a)) ?C)"
    using p(5) candidate_distinct by (simp_all add: element_sim_def)
  note c1 = candidates_only_space [OF p(7)]
  note sp1 = same_space_trans [OF s(2) c1(1)]
  have inv1: "cdb_ok db1" using candidates_only_inv [OF p(7) s(1)] .
  obtain db3 where i: "rbind (restore_assumption_defaults db1) (candidate_assign c) = Inr db3" "cdb_ok db3"
    "same_space db0 db3" "genuine_conflicts db3" "candheap db3 = candheap db1" "holds_candidate db3 ?C"
    "next_candidate db3 = next_candidate db1" "candidates db3 = candidates db1"
    using install_sim [OF inv1 sp1 genuine_same [OF s(3) c1(1-3)], of c] e(1) p(8) by (auto simp: returns_iff)
  obtain k db4 where co: "conflict tag db3 = Inr (k, db4)" "cdb_ok db4" "same_space db3 db4" "genuine_conflicts db4"
    "candheap db4 = candheap db3" "k = None \<longleftrightarrow> \<not> up_conflict (formula (solver db3))"
    "\<And>l. k = Some l \<Longrightarrow> l \<in> set (conflicts db4) \<and>
       (\<forall>a \<in> set (conflict_assignments (kheap db4 l)). is_current db3 a \<and> asserts_assumption db3 a)"
    "vheap db4 = vheap db3" "next_candidate db4 = next_candidate db3" "candidates db4 = candidates db3"
    using conflict_space [OF i(2,4), of tag] by (auto simp: returns_iff)
  note sp4 = same_space_trans [OF i(3) co(3)]
  note d3 = same_spaceD [OF i(3)] and d34 = same_spaceD [OF co(3)]
  have reg: "v \<in> set (assumptions db3)" if "v \<in> set (variables db3)" "is_assumption (class_of (v_kind (vheap db3 v)))" for v
    using s(4) that i(3) by (simp add: search_ready_def same_space_def)
  have av: "a_variable (aheap db3 a) = a_variable (aheap db0 a)" for a using i(3) by (simp add: same_space_def)
  have "formula (solver db3) = observed_formula db0 \<union> asserts db0 (completed db0 (set ?C))"
    using holds_candidate_formula [OF i(2,6) reg] e d3(2,4,6) i(3) by (simp add: same_space_def)
  note cons = co(6) [unfolded this]
  have new: "length (resolving_assignments db4 l []) \<le> max_heap \<and>
      (\<forall>a \<in> set (resolving_assignments db4 l []). legal db0 a) \<and>
      (\<forall>bs. set bs = set (resolving_assignments db4 l []) \<longrightarrow> space.resolving db0 ?C bs)" if l: "k = Some l" for l
  proof -
    let ?K = "conflict_assignments (kheap db4 l)"
    have K: "is_current db3 a \<and> asserts_assumption db3 a" if "a \<in> set ?K" for a using co(7) [OF l] that by blast
    have K4: "is_current db4 a" if "a \<in> set ?K" for a
      using K [OF that] d34(1) co(3,8) by (simp add: is_current_def same_space_def)
    have g: "distinct ?K" "\<And>m. \<not> models m (observed_formula db3 \<union> asserts db3 (set ?K))"
      using co(4) co(7) [OF l] co(3) d34(4) by (auto simp: genuine_conflicts_def same_space_def)
    have Kleg: "legal db4 a" if "a \<in> set ?K" for a
      using K [OF that] reg d34(2) by (auto simp: legal_def is_current_def asserts_assumption_def valid_assignment_def)
    have rl: "legal db4 a" if "a \<in> set (resolving_assignments db4 l [])" for a
      by (rule resolving_legal [OF co(2) Kleg that])
    have "next_assignment db4 \<le> max_heap" using s(4) sp4 by (simp add: search_ready_def same_space_def)
    then have len: "length (resolving_assignments db4 l []) \<le> max_heap"
      using resolving_length [OF co(2) g(1) K4 rl] by simp
    have "space.resolving db3 ?C bs" if "set bs = set (resolving_assignments db4 l [])" for bs
      using conflict_resolving [OF holds_candidateD [OF i(6)] reg K g(2), of bs] that
      by (simp add: set_resolving d34(8))
    moreover have "space.resolving db3 ?C bs = space.resolving db0 ?C bs" for bs
      by (simp add: space.resolving_def space_eq(3) [OF i(3)] d3(7))
    ultimately show ?thesis using len rl same_spaceD(2) [OF sp4] by blast
  qed
  have "size (Q - {#abs_element e#}) + 1 < max_heap"
    using p(2) Q by (simp add: space.cheapest_def size_Diff_singleton flip: nonempty_has_size)
  from expand_element_sim [OF p(3) this sp4 p(4,5), of k] new obtain ag5 db5 bs where
    x: "expand_element k ag1 db4 = Inr (ag5, db5)" "\<And>l. k = Some l \<Longrightarrow> set bs = set (resolving_assignments db4 l [])"
    "sorted (map (\<lambda>a. unat (weight (aheap db0 a))) bs)"
    "heap_sim db0 ag5 (Q - {#abs_element e#} + children db0 (abs_element e) k bs)"
    "empty_element_weight ag5 = empty_element_weight ag1" "serial_only db4 db5"
    by (auto simp: returns_iff)
  note s5 = serial_onlyD [OF x(6)] and c5 = candidates_only_space [OF serial_onlyD(1) [OF x(6)]]
  have run: "try_candidate tag c op db =
      Inr (k, op\<lparr>search_agenda := ag5, candidates_considered := candidates_considered op + 1\<rparr>, db5)"
    using p(1) co(1) x(1) i(1) by (simp add: try_candidate_def Let_def flip: rbind_assoc)
  have "search_sim db0 (op\<lparr>search_agenda := ag5, candidates_considered := candidates_considered op + 1\<rparr>) db5
      (Q - {#abs_element e#} + children db0 (abs_element e) k bs)"
    using candidates_only_inv [OF s5(1) co(2)] same_space_trans [OF sp4 c5(1)] genuine_same [OF co(4) c5(1-3)]
      s(4) x(4,5) p(6) by (simp add: search_sim_def)
  moreover have "k \<noteq> None \<longrightarrow> space.resolving db0 ?C bs" using x(2) new by auto
  moreover have "search_frame c op db (op\<lparr>search_agenda := ag5, candidates_considered := candidates_considered op + 1\<rparr>) db5"
    using p(6,9-11) x(5) s5(2-4) i(5,7,8) co(5,9,10) by (simp add: search_frame_def)
  ultimately show ?thesis
    unfolding run returns_Inr round_post_def prod.case
    using p(2,8) x(3) s5(2) cons i(5) co(5) e
    by (intro exI [of _ "abs_element e"] exI [of _ bs]) (simp add: passes_def proper_candidate_def)
qed

end
