(* ===== verification/Opsat_Search.thy ===== *)
theory Opsat_Search
  imports Opsat_Round
begin

text \<open>
  The loop of the search: it returns within its bound, and what it has found so far is what
  best-first search promises.
\<close>

subsection \<open>Termination tests\<close>

lemma terminate_search_spec:
  assumes heap: "heap_sim db0 (search_agenda op) Q"
    and r: "search_ready db0 (empty_element_weight (search_agenda op))"
  shows "returns (terminate_search op) (\<lambda>st. (st = EMPTY_AGENDA \<longleftrightarrow> Q = {#}) \<and>
    (st = MAX_OVERRUN \<longrightarrow> max_candidates op \<noteq> 0 \<and> candidates_considered op > max_candidates op) \<and>
    (st = WEIGHT_CUTOFF \<longrightarrow> (\<forall>e \<in># Q. unat (cutoff_weight op) <
       unat (empty_element_weight (search_agenda op)) + space.total db0 (candidate_of e))) \<and>
    (st = SEARCH_CONTINUE \<longrightarrow> max_candidates op = 0 \<or> candidates_considered op \<le> max_candidates op))"
proof -
  let ?ag = "search_agenda op"
  obtain E where E: "least_heap element_weight (agenda_heap ?ag) E" "Q = image_mset abs_element E"
    "\<forall>e \<in># E. element_sim db0 (empty_element_weight ?ag) e" using heap by (auto simp: heap_sim_def)
  have em: "empty_agenda ?ag = (Q = {#})" using least.empty_law [OF E(1)] E(2) by (simp add: empty_agenda_def)
  show ?thesis
  proof (cases "Q = {#}")
    case True
    then show ?thesis by (simp add: terminate_search_def em)
  next
    case False
    then obtain e where e: "heap_top (agenda_heap ?ag) = Inr e" "e \<in># E" "\<forall>y \<in># E. element_weight e \<le> element_weight y"
      using heap_top_ok [of element_weight "agenda_heap ?ag" E] E(1,2)
      by (auto simp: least_heap_def returns_iff compare_def not_less)
    have "unat (element_weight e) \<le> unat (empty_element_weight ?ag) + space.total db0 (candidate_of y)" if "y \<in># Q" for y
      using that e(3) E(2,3) element_cost [OF r] by (auto simp: word_le_nat_alt)
    note w = this
    have "terminate_search op = Inr (if max_candidates op \<noteq> 0 \<and> candidates_considered op > max_candidates op then MAX_OVERRUN
        else if cutoff_weight op \<noteq> 0 \<and> element_weight e > cutoff_weight op then WEIGHT_CUTOFF else SEARCH_CONTINUE)"
      using False e(1) by (simp add: terminate_search_def em top_weight_def)
    moreover have "unat (cutoff_weight op) < unat (empty_element_weight ?ag) + space.total db0 (candidate_of y)"
      if "element_weight e > cutoff_weight op" "y \<in># Q" for y
      using w [OF that(2)] that(1) by (simp add: word_less_nat_alt)
    ultimately show ?thesis using False by (auto simp: not_less)
  qed
qed

subsection \<open>The loop\<close>

text \<open>How many more candidates may be considered, when there is a limit.\<close>

definition rounds_left :: "opsat \<Rightarrow> nat" where
  "rounds_left op = unat (max_candidates op) + 1 - unat (candidates_considered op)"

definition limited :: "opsat \<Rightarrow> assignment_id element multiset \<Rightarrow> bool" where
  "limited op Q \<longleftrightarrow> max_candidates op \<noteq> 0 \<and> unat (max_candidates op) < 2 ^ 32 - 1 \<and>
     unat (candidates_considered op) \<le> unat (max_candidates op) + 1 \<and> size Q + rounds_left op \<le> max_heap"

lemma children_round:
  assumes "space.cheapest db0 e Q" "sorted (map (\<lambda>a. unat (weight (aheap db0 a))) bs)"
    and "k \<noteq> None \<longrightarrow> space.resolving db0 (candidate_of e) bs"
  shows "space.round db0 (Q, F) (Q - {#e#} + children db0 e k bs, if k = None then F @ [candidate_of e] else F)"
  using space.round_found [OF assms(1), of F] space.round_conflict [OF assms(1,2), of F] assms(3)
  by (cases k) (simp_all add: children_def add.assoc)

lemma size_children: "e \<in># Q \<Longrightarrow> size (Q - {#e#} + children db0 e k bs) \<le> size Q + 1"
proof -
  assume e: "e \<in># Q"
  have one: "size (space.first_element db0 P as) \<le> 1" for P as
    by (auto simp: space.first_element_def split: list.splits)
  obtain P c R where "e = (P, c, R)" by (cases e)
  then have "size (children db0 e k bs) \<le> 2"
    using one [of P R] one [of "candidate_of e" bs] by (simp add: children_def space.sibling_of.simps)
  moreover have "size (Q - {#e#}) + 1 = size Q" using e by (metis One_nat_def insert_DiffM size_add_mset Suc_eq_plus1)
  ultimately show ?thesis by simp
qed

text \<open>The loop makes rounds until it finds a candidate or the search is to be terminated.\<close>

definition loop_post :: "conflict_db \<Rightarrow> candidate_id \<Rightarrow> opsat \<Rightarrow> conflict_db \<Rightarrow> assignment_id element multiset \<Rightarrow>
    assignment_id list list \<Rightarrow> candidate_id option \<times> opsat \<times> conflict_db \<Rightarrow> bool" where
  "loop_post db0 c op db Q F = (\<lambda>(r, op', db'). \<exists>k Q' F'. ((space.round db0) ^^ k) (Q, F) (Q', F') \<and>
    unat (candidates_considered op') = unat (candidates_considered op) + k \<and> search_sim db0 op' db' Q' \<and> limited op' Q' \<and> search_frame c op db op' db' \<and>
    rounds_left op' \<le> rounds_left op \<and> (r \<noteq> None \<longrightarrow> rounds_left op' < rounds_left op) \<and>
    (case r of None \<Rightarrow> F' = F \<and> terminate_search op' \<noteq> Inr SEARCH_CONTINUE
     | Some c' \<Rightarrow> c' = c \<and> F' = F @ [cand_assignments (candheap db' c)] \<and> passes db0 (cand_assignments (candheap db' c)) \<and>
       proper_candidate db0 (cand_assignments (candheap db' c))))"

lemma loop_post_later:
  assumes "loop_post db0 c op1 db1 Q1 F x" "search_frame c op db op1 db1" "space.round db0 (Q, F) (Q1, F)"
    "rounds_left op1 < rounds_left op" "unat (candidates_considered op1) = unat (candidates_considered op) + 1"
  shows "loop_post db0 c op db Q F x"
proof -
  obtain r op' db' where x: "x = (r, op', db')" by (cases x)
  obtain k Q' F' where l: "((space.round db0) ^^ k) (Q1, F) (Q', F')" "search_sim db0 op' db' Q'" "limited op' Q'"
    "search_frame c op1 db1 op' db'" "rounds_left op' \<le> rounds_left op1"
    "unat (candidates_considered op') = unat (candidates_considered op1) + k"
    "case r of None \<Rightarrow> F' = F \<and> terminate_search op' \<noteq> Inr SEARCH_CONTINUE
     | Some c' \<Rightarrow> c' = c \<and> F' = F @ [cand_assignments (candheap db' c)] \<and> passes db0 (cand_assignments (candheap db' c)) \<and>
       proper_candidate db0 (cand_assignments (candheap db' c))"
    using assms(1) unfolding loop_post_def x prod.case by blast
  have "((space.round db0) ^^ Suc k) (Q, F) (Q', F')" using relpowp_Suc_I2 [OF assms(3) l(1)] .
  then show ?thesis
    unfolding loop_post_def x prod.case using l(2,3,6,7) search_frame_trans [OF assms(2) l(4)] l(5) assms(4,5)
    by (intro exI [of _ "Suc k"] exI [of _ Q'] exI [of _ F']) simp
qed

lemma search_loop_sim:
  assumes "search_sim db0 op db Q" "limited op Q" "rounds_left op < n"
  shows "returns (search_loop n tag c op db) (loop_post db0 c op db Q F)"
  using assms
proof (induction n arbitrary: op db Q)
  case (Suc n)
  have s: "heap_sim db0 (search_agenda op) Q" "search_ready db0 (empty_element_weight (search_agenda op))"
    using Suc.prems(1) by (simp_all add: search_sim_def)
  obtain st where st: "terminate_search op = Inr st" "st = EMPTY_AGENDA \<longleftrightarrow> Q = {#}"
    "st = SEARCH_CONTINUE \<longrightarrow> max_candidates op = 0 \<or> candidates_considered op \<le> max_candidates op"
    using terminate_search_spec [OF s] by (auto simp: returns_iff)
  show ?case
  proof (cases "st = SEARCH_CONTINUE")
    case False
    then show ?thesis using Suc.prems st(1) by (auto simp: loop_post_def intro!: exI [of _ 0] exI [of _ Q] exI [of _ F])
  next
    case True
    then have Q: "Q \<noteq> {#}" and le: "unat (candidates_considered op) \<le> unat (max_candidates op)"
      using st(2,3) Suc.prems(2) by (auto simp: limited_def word_le_nat_alt)
    then have left: "rounds_left op > 0" by (simp add: rounds_left_def)
    then have "size Q < max_heap" using Suc.prems(2) by (simp add: limited_def)
    from try_candidate_sim [OF Suc.prems(1) Q this, of tag c] obtain x where
      x: "try_candidate tag c op db = Inr x" "round_post db0 c op db Q x" by (rule returnsE)
    obtain k op1 db1 where x': "x = (k, op1, db1)" by (cases x)
    obtain e bs where t: "space.cheapest db0 e Q" "sorted (map (\<lambda>a. unat (weight (aheap db0 a))) bs)"
      "k \<noteq> None \<longrightarrow> space.resolving db0 (candidate_of e) bs" "k = None \<longleftrightarrow> passes db0 (candidate_of e)"
      "search_sim db0 op1 db1 (Q - {#e#} + children db0 e k bs)" "cand_assignments (candheap db1 c) = candidate_of e"
      "search_frame c op db op1 db1" "candidates_considered op1 = candidates_considered op + 1"
      "proper_candidate db0 (candidate_of e)"
      using x(2) unfolding round_post_def x' prod.case by blast
    let ?Q = "Q - {#e#} + children db0 e k bs"
    have mx: "max_candidates op1 = max_candidates op" using t(7) by (simp add: search_frame_def)
    have "unat (candidates_considered op + 1) = unat (candidates_considered op) + 1"
      using le Suc.prems(2) by (simp add: limited_def unat_word_ariths)
    then have cons: "unat (candidates_considered op1) = unat (candidates_considered op) + 1" by (simp add: t(8))
    then have l1: "rounds_left op1 + 1 = rounds_left op" using le by (simp add: rounds_left_def mx)
    have "size ?Q \<le> size Q + 1" using size_children t(1) by (simp add: space.cheapest_def)
    then have lim: "limited op1 ?Q" using Suc.prems(2) l1 le cons by (simp add: limited_def mx)
    note rd = children_round [OF t(1-3), of F]
    show ?thesis
    proof (cases k)
      case None
      then have run: "search_loop (Suc n) tag c op db = Inr (Some c, op1, db1)" using st(1) True x(1) x' by simp
      have "((space.round db0) ^^ 1) (Q, F) (?Q, F @ [candidate_of e])" using rd None unfolding relpowp_1 by simp
      then show ?thesis
        unfolding run returns_Inr loop_post_def prod.case option.case
        using t(4-7,9) None lim l1 cons by (intro exI [of _ 1] exI [of _ ?Q] exI [of _ "F @ [candidate_of e]"]) simp
    next
      case (Some l)
      then have run: "search_loop (Suc n) tag c op db = search_loop n tag c op1 db1" using st(1) True x(1) x' by simp
      have "rounds_left op1 < n" using Suc.prems(3) l1 by simp
      from Suc.IH [OF t(5) lim this] show ?thesis
        unfolding run by (rule returns_mono) (rule loop_post_later [OF _ t(7)], use rd Some l1 cons in simp_all)
    qed
  qed
qed simp

end
