(* ===== verification/T_System.thy ===== *)
theory T_System
  imports Candidates
begin

text \<open>
  The transition system (\<open>transition/T_system.h\<close>, \<open>T_system.cpp\<close>) as far as it does not concern the
  transitions of single components: its variables and time steps, the trajectories that the values
  of the state variable stand for (\<open>debuggers/trajectory.h\<close>, \<open>trajectory.cpp\<close>), observations over
  time, copying the assignments of a time step, the summaries of old conflicts, and pruning.
\<close>

subsection \<open>Trajectories\<close>

record parts =
  part_time :: "32 word"
  part_rank :: weight_t
  part_id :: "32 word"
  part_index :: "32 word"

type_synonym trajectory = "parts list"

text \<open>The index is the value the variable has now, whatever the assignment says.\<close>

definition new_parts :: "conflict_db \<Rightarrow> assignment_id \<Rightarrow> parts" where
  "new_parts db a = (let v = a_variable (aheap db a) in
     \<lparr>part_time = v_time_step (vheap db v), part_rank = weight (aheap db a), part_id = v_id (vheap db v),
      part_index = word_of_int (get_value_index db v)\<rparr>)"

definition parts_eq :: "parts \<Rightarrow> parts \<Rightarrow> bool" where
  "parts_eq p q = (part_id p = part_id q \<and> part_time p = part_time q \<and> part_index p = part_index q)"

definition trajectory_insert :: "parts \<Rightarrow> trajectory \<Rightarrow> trajectory" where
  "trajectory_insert p t = p # t"

definition trajectory_prepend :: "trajectory \<Rightarrow> trajectory \<Rightarrow> trajectory" where
  "trajectory_prepend other t = fold trajectory_insert other t"

definition trajectory_contains :: "trajectory \<Rightarrow> parts \<Rightarrow> bool" where
  "trajectory_contains t target = list_ex (\<lambda>p. parts_eq p target) t"

definition trajectory_subsumes :: "trajectory \<Rightarrow> trajectory \<Rightarrow> bool" where
  "trajectory_subsumes t target = list_all (trajectory_contains t) target"

subsection \<open>The transition system\<close>

definition NOW :: time_step_t where "NOW = - 1"
definition STATE_VAR_ID :: "32 word" where "STATE_VAR_ID = - 1"
definition MIN_HISTORY_LENGTH :: "32 word" where "MIN_HISTORY_LENGTH = 1"

text \<open>
  \<open>present_variables\<close> is an array of pointers, which may be null. The arrays of trajectories are
  lists, their counts the lengths. \<open>state_var\<close> is not set before \<open>create_state_var\<close>.
\<close>

record t_system =
  ts_db :: conflict_db
  state_constraint_prototypes :: "((var_id \<times> 32 word) list \<times> (var_id \<times> 32 word) list) list"
  present_variables :: "var_id option array"
  timestep :: "32 word"
  oldest_timestep :: "32 word"
  max_history_length :: "32 word"
  state_var :: "var_id option"
  new_clauses :: "clause_id list"
  new_conflicts :: "assignment_id list list"
  state_var_trajectories :: "trajectory list"
  old_trajectories :: "trajectory list"
  planning :: bool
  max_truncated_candidates :: "32 word"
  progress_uses_full :: bool

definition new_t_system :: "32 word \<Rightarrow> 32 word \<Rightarrow> bool \<Rightarrow> t_system" where
  "new_t_system historyLength maxcand uses_full = \<lparr>ts_db = new_conflict_db, state_constraint_prototypes = [], present_variables = new_array 0,
     timestep = 0, oldest_timestep = 0, max_history_length = historyLength, state_var = None,
     new_clauses = [], new_conflicts = [], state_var_trajectories = [], old_trajectories = [],
     planning = False, max_truncated_candidates = maxcand, progress_uses_full = uses_full\<rparr>"

text \<open>An operation of the conflict database, run on the database of the system.\<close>

definition in_db :: "(conflict_db \<Rightarrow> conflict_db res) \<Rightarrow> t_system \<Rightarrow> t_system res" where
  "in_db f ts = rbind (f (ts_db ts)) (\<lambda>db. Inr (ts\<lparr>ts_db := db\<rparr>))"

definition in_db_val :: "(conflict_db \<Rightarrow> ('a \<times> conflict_db) res) \<Rightarrow> t_system \<Rightarrow> ('a \<times> t_system) res" where
  "in_db_val f ts = rbind (f (ts_db ts)) (\<lambda>(x, db). Inr (x, ts\<lparr>ts_db := db\<rparr>))"

definition get_horizon :: "t_system \<Rightarrow> 32 word" where
  "get_horizon ts = (if max_history_length ts > timestep ts then 0 else timestep ts - max_history_length ts + 1)"

definition set_oldest_timestep :: "32 word \<Rightarrow> t_system \<Rightarrow> t_system" where
  "set_oldest_timestep newoldest ts =
     (let curlen = timestep ts - oldest_timestep ts
      in ts\<lparr>oldest_timestep := newoldest, timestep := newoldest + curlen\<rparr>)"

definition history_full :: "t_system \<Rightarrow> bool" where
  "history_full ts = (max_history_length ts \<noteq> 0 \<and> oldest_timestep ts + max_history_length ts \<le> timestep ts)"

definition next_timestep :: "t_system \<Rightarrow> 32 word \<times> t_system" where
  "next_timestep ts = (timestep ts + 1, ts\<lparr>timestep := timestep ts + 1\<rparr>)"

definition npresent_variables :: "t_system \<Rightarrow> 32 word" where
  "npresent_variables ts = array_size (present_variables ts)"

definition get_present_variable :: "t_system \<Rightarrow> 32 word \<Rightarrow> var_id option res" where
  "get_present_variable ts i = (if i < array_size (present_variables ts) then array_get (present_variables ts) i
     else Inr None)"

text \<open>Lookup of a command or an observable by its number.\<close>

definition get_by_class :: "(virtuals \<Rightarrow> bool) \<Rightarrow> t_system \<Rightarrow> 32 word \<Rightarrow> var_id res" where
  "get_by_class test ts i = rbind (get_present_variable ts i) (\<lambda>p. case p of None \<Rightarrow> Inl L2_not_found_error
     | Some v \<Rightarrow> rbind (l2_assert (test (class_of (v_kind (vheap (ts_db ts) v)))) L2_not_found_error) (\<lambda>_. Inr v))"

definition get_command :: "t_system \<Rightarrow> 32 word \<Rightarrow> var_id res" where
  "get_command = get_by_class is_command"

definition get_observable :: "t_system \<Rightarrow> 32 word \<Rightarrow> var_id res" where
  "get_observable = get_by_class is_observable"

definition ts_observe :: "32 word \<Rightarrow> int \<Rightarrow> t_system \<Rightarrow> t_system res" where
  "ts_observe observableIndex valueIndex ts = rbind (get_observable ts observableIndex)
     (\<lambda>v. in_db (observe v valueIndex) ts)"

subsection \<open>Creating variables\<close>

definition register_new_variable :: "var_id \<Rightarrow> t_system \<Rightarrow> t_system res" where
  "register_new_variable v ts =
     (let x = vheap (ts_db ts) v in
      rbind (l2_assert (v_time_step x = NOW) L2_fatal_error) (\<lambda>_.
      rbind (l2_assert (\<not> is_transition (class_of (v_kind x))) L2_fatal_error) (\<lambda>_.
      rbind (if array_size (present_variables ts) \<le> v_id x then Inr None
             else array_get (present_variables ts) (v_id x)) (\<lambda>p.
      rbind (l2_assert (p = None) L2_fatal_error) (\<lambda>_.
      rbind (grow_and_set (v_id x) (Some v) (present_variables ts)) (\<lambda>a.
        Inr (ts\<lparr>present_variables := a\<rparr>)))))))"

text \<open>The constructor of an assumption, and its registration.\<close>

definition create_registered ::
  "kind \<Rightarrow> 32 word \<Rightarrow> weight_t list \<Rightarrow> time_step_t \<Rightarrow> 32 word \<Rightarrow> t_system \<Rightarrow> (var_id \<times> t_system) res" where
  "create_registered k n costs t ident = in_db_val (\<lambda>db.
     rbind (new_assumption k n costs t ident db) (\<lambda>(v, db1). Inr (v, registerAssumption v db1)))"

definition create_past_command :: "32 word \<Rightarrow> weight_t list \<Rightarrow> time_step_t \<Rightarrow> 32 word \<Rightarrow> t_system \<Rightarrow> (var_id \<times> t_system) res" where
  "create_past_command = create_registered Past_command"

definition create_state_variable :: "32 word \<Rightarrow> weight_t list \<Rightarrow> time_step_t \<Rightarrow> 32 word \<Rightarrow> t_system \<Rightarrow> (var_id \<times> t_system) res" where
  "create_state_variable = create_registered State_variable"

definition create_transition :: "32 word \<Rightarrow> weight_t list \<Rightarrow> time_step_t \<Rightarrow> 32 word \<Rightarrow> t_system \<Rightarrow> (var_id \<times> t_system) res" where
  "create_transition = create_registered Transition"

definition create_mode_transition ::
  "var_id \<Rightarrow> 32 word \<Rightarrow> weight_t list \<Rightarrow> time_step_t \<Rightarrow> t_system \<Rightarrow> (var_id \<times> t_system) res" where
  "create_mode_transition modevar domain costs t ts =
     rbind (create_transition domain costs t (v_id (vheap (ts_db ts) modevar)) ts) (\<lambda>(v, ts1).
     rbind (in_db (restore_default v) ts1) (\<lambda>ts2. Inr (v, ts2)))"

text \<open>
  The copy of a variable for the time step that has just passed, linked in before it; the four
  overloads differ in the class of the copy.
\<close>

definition copy_with ::
  "(32 word \<Rightarrow> time_step_t \<Rightarrow> 32 word \<Rightarrow> conflict_db \<Rightarrow> (var_id \<times> conflict_db) res) \<Rightarrow>
   var_id \<Rightarrow> t_system \<Rightarrow> (var_id \<times> t_system) res" where
  "copy_with create now_var ts =
     rbind (in_db_val (create (get_nvalues (ts_db ts) now_var) (timestep ts) (v_id (vheap (ts_db ts) now_var))) ts)
       (\<lambda>(past_var, ts1). rbind (in_db (insert_previous now_var (Some past_var)) ts1)
         (\<lambda>ts2. Inr (past_var, ts2)))"

definition copy_dependent :: "var_id \<Rightarrow> t_system \<Rightarrow> (var_id \<times> t_system) res" where
  "copy_dependent = copy_with create_dependent"

definition copy_assignable :: "var_id \<Rightarrow> t_system \<Rightarrow> (var_id \<times> t_system) res" where
  "copy_assignable = copy_with create_assignable"

definition copy_command :: "var_id \<Rightarrow> t_system \<Rightarrow> (var_id \<times> t_system) res" where
  "copy_command = copy_with create_command"

definition copy_observable :: "var_id \<Rightarrow> t_system \<Rightarrow> (var_id \<times> t_system) res" where
  "copy_observable = copy_with create_observable"

text \<open>
  A constraint by variables and values; the volatility and the place in the theory that are asked
  for are ignored.
\<close>

definition proto_prop :: "bool \<Rightarrow> conflict_db \<Rightarrow> var_id \<times> 32 word \<Rightarrow> prop_id res" where
  "proto_prop past db = (\<lambda>(v, i). if past then
       (case v_previous (vheap db v) of None \<Rightarrow> Inl Bad_pointer | Some p \<Rightarrow> get_prop db p i)
     else get_prop db v i)"

definition proto_props :: "bool \<Rightarrow> conflict_db \<Rightarrow> (var_id \<times> 32 word) list \<Rightarrow> prop_id list res" where
  "proto_props past db pas = rfold (\<lambda>pa ps. rbind (proto_prop past db pa) (\<lambda>p. Inr (p # ps))) pas []"

definition do_create_constraint ::
  "(var_id \<times> 32 word) list \<Rightarrow> (var_id \<times> 32 word) list \<Rightarrow> bool \<Rightarrow> bool \<Rightarrow> bool \<Rightarrow> t_system \<Rightarrow> (clause_id \<times> t_system) res" where
  "do_create_constraint pos neg vol inT past ts =
     rbind (proto_props past (ts_db ts) pos) (\<lambda>posP. rbind (proto_props past (ts_db ts) neg) (\<lambda>negP.
       in_db_val (cdb_create_clause posP negP False True) ts))"

definition create_constraint ::
  "(var_id \<times> 32 word) list \<Rightarrow> (var_id \<times> 32 word) list \<Rightarrow> bool \<Rightarrow> bool \<Rightarrow> bool \<Rightarrow> t_system \<Rightarrow> (clause_id \<times> t_system) res" where
  "create_constraint pos neg vol inT state_constraint ts =
     do_create_constraint pos neg vol inT False
       (if state_constraint then ts\<lparr>state_constraint_prototypes := (pos, neg) # state_constraint_prototypes ts\<rparr> else ts)"

definition full_progress_create_constraints :: "t_system \<Rightarrow> t_system res" where
  "full_progress_create_constraints ts = rfold (\<lambda>(pos, neg) ts.
     rbind (do_create_constraint pos neg False False True ts) (\<lambda>(_, ts1). Inr ts1)) (state_constraint_prototypes ts) ts"

subsection \<open>The state variable and its trajectories\<close>

definition start_new_trajectories_map :: "32 word \<Rightarrow> t_system \<Rightarrow> t_system" where
  "start_new_trajectories_map n ts =
     ts\<lparr>old_trajectories := state_var_trajectories ts, state_var_trajectories := replicate (unat n) []\<rparr>"

definition get_trajectory :: "t_system \<Rightarrow> 32 word \<Rightarrow> trajectory res" where
  "get_trajectory ts i = rbind (l2_assert (unat i < length (state_var_trajectories ts)) L2_bounds_error)
     (\<lambda>_. Inr (state_var_trajectories ts ! unat i))"

definition set_trajectory :: "32 word \<Rightarrow> 32 word \<Rightarrow> assignment_id list \<Rightarrow> t_system \<Rightarrow> t_system res" where
  "set_trajectory newi oldi old ts =
     rbind (l2_assert (unat newi < length (state_var_trajectories ts)) L2_bounds_error) (\<lambda>_.
     rbind (l2_assert (unat oldi < length (old_trajectories ts)) L2_bounds_error) (\<lambda>_.
       let t1 = fold (\<lambda>a. trajectory_insert (new_parts (ts_db ts) a)) old (state_var_trajectories ts ! unat newi);
           t2 = trajectory_prepend (old_trajectories ts ! unat oldi) t1
       in Inr (ts\<lparr>state_var_trajectories := (state_var_trajectories ts)[unat newi := t2]\<rparr>)))"

fun old_assignments ::
  "conflict_db \<Rightarrow> time_step_t \<Rightarrow> assignment_id list \<Rightarrow> 32 word \<Rightarrow> assignment_id list \<Rightarrow> (32 word \<times> assignment_id list) res" where
  "old_assignments db horizon [] previousValue existing = Inr (previousValue, existing)"
| "old_assignments db horizon (a # as) previousValue existing =
     (if get_time_step db a < horizon \<or> get_time_step db a = BEFORE_HORIZON then
        if is_state_variable (class_of (v_kind (vheap db (a_variable (aheap db a))))) then
          rbind (l2_assert (previousValue = 0) Assert_failed)
            (\<lambda>_. old_assignments db horizon as (a_index (aheap db a)) existing)
        else old_assignments db horizon as previousValue (a # existing)
      else old_assignments db horizon as previousValue existing)"

definition put_candidate_in_trajectory :: "time_step_t \<Rightarrow> 32 word \<Rightarrow> candidate_id \<Rightarrow> t_system \<Rightarrow> t_system res" where
  "put_candidate_in_trajectory horizon value c ts =
     rbind (old_assignments (ts_db ts) horizon (cand_assignments (candheap (ts_db ts) c)) 0 [])
       (\<lambda>(previousValue, existing). set_trajectory value previousValue existing ts)"

text \<open>The first variable at the horizon, or at \<open>NOW\<close>: where the state variable is inserted.\<close>

fun horizon_place :: "conflict_db \<Rightarrow> time_step_t \<Rightarrow> var_id option \<Rightarrow> var_id list \<Rightarrow> var_iter option" where
  "horizon_place db horizon prev [] = None"
| "horizon_place db horizon prev (v # vs) =
     (if v_time_step (vheap db v) \<le> horizon \<or> v_time_step (vheap db v) = NOW
      then Some \<lparr>it_current = Some v, it_previous = prev\<rparr> else horizon_place db horizon (Some v) vs)"

definition create_state_var :: "time_step_t \<Rightarrow> 32 word \<Rightarrow> t_system \<Rightarrow> (var_id \<times> t_system) res" where
  "create_state_var horizon nstates ts =
     rbind (l2_assert (nstates > 0) Assert_failed) (\<lambda>_.
     rbind (case horizon_place (ts_db ts) horizon None (variables (ts_db ts)) of None \<Rightarrow> Inr ts
            | Some it \<Rightarrow> in_db (set_new_variable_iterator it) ts) (\<lambda>ts1.
     rbind (create_state_variable nstates (replicate (unat nstates) 0) horizon STATE_VAR_ID ts1) (\<lambda>(v, ts2).
     let ts3 = ts2\<lparr>state_var := Some v\<rparr> in
     rbind (if v_time_step (vheap (ts_db ts3) v) = NOW then register_new_variable v ts3 else Inr ts3) (\<lambda>ts4.
     rbind (in_db (\<lambda>db. set_new_variable_iterator (begin_variables db) db) ts4) (\<lambda>ts5.
       Inr (v, start_new_trajectories_map (get_nvalues (ts_db ts5) v) ts5))))))"

end
