(* ===== verification/Truncation.thy ===== *)
theory Truncation
  imports T_System
begin

text \<open>
  More of the transition system (\<open>transition/T_system.cpp\<close>): observations over time, the
  assignments of a new time step, conflicts that grow old, the new state, and pruning.
\<close>

subsection \<open>Variables over time\<close>

datatype map_command = Save | Unassign | Restore

text \<open>The three virtual functions do nothing on a variable that is not assignable.\<close>

definition unassign_any :: "var_id \<Rightarrow> conflict_db \<Rightarrow> conflict_db res" where
  "unassign_any v db = (if is_assignable (class_of (v_kind (vheap db v))) then unassign_var v db else Inr db)"

fun map_one :: "map_command \<Rightarrow> var_id \<Rightarrow> conflict_db \<Rightarrow> conflict_db res" where
  "map_one Save v db = Inr (save_var v db)"
| "map_one Unassign v db = unassign_any v db"
| "map_one Restore v db = restore_var v db"

text \<open>The variable and its predecessors; the fuel is the number of variables ever created.\<close>

fun map_back :: "nat \<Rightarrow> map_command \<Rightarrow> var_id \<Rightarrow> conflict_db \<Rightarrow> conflict_db res" where
  "map_back 0 cmd v db = Inl Out_of_fuel"
| "map_back (Suc n) cmd v db = rbind (map_one cmd v db) (\<lambda>db1.
     case v_previous (vheap db1 v) of None \<Rightarrow> Inr db1 | Some p \<Rightarrow> map_back n cmd p db1)"

text \<open>Every present variable, in order; following a null pointer is an error.\<close>

definition for_present :: "(var_id \<Rightarrow> t_system \<Rightarrow> t_system res) \<Rightarrow> t_system \<Rightarrow> t_system res" where
  "for_present f ts = rfold (\<lambda>i ts. rbind (array_get (present_variables ts) (of_nat i)) (\<lambda>p.
     case p of None \<Rightarrow> Inl Bad_pointer | Some v \<Rightarrow> f v ts)) [0..<unat (npresent_variables ts)] ts"

definition map_over_observations :: "map_command \<Rightarrow> t_system \<Rightarrow> t_system res" where
  "map_over_observations cmd = for_present (\<lambda>v ts.
     if is_observable (class_of (v_kind (vheap (ts_db ts) v)))
     then in_db (map_back (next_var (ts_db ts)) cmd v) ts else Inr ts)"

text \<open>
  The assignments of the new past variables: those of the present ones, and the command that is
  progressed on.
\<close>

definition past_assignment :: "assignment_id option \<Rightarrow> var_id \<Rightarrow> conflict_db \<Rightarrow> conflict_db res" where
  "past_assignment cmd v db = (case v_previous (vheap db v) of None \<Rightarrow> Inl L2_fatal_error
     | Some p \<Rightarrow> (case cmd of
          Some a \<Rightarrow> if v = a_variable (aheap db a) then
              rbind (assign_index p (a_index (aheap db a)) db) (\<lambda>db1. Inr (set_exogenously_assigned p True db1))
            else rbind (assign_like p v db) (\<lambda>db1. Inr (set_exogenously_assigned p False db1))
        | None \<Rightarrow> rbind (assign_like p v db) (\<lambda>db1. Inr (set_exogenously_assigned p False db1))))"

definition full_progress_make_assignments :: "assignment_id option \<Rightarrow> t_system \<Rightarrow> t_system res" where
  "full_progress_make_assignments cmd = for_present (\<lambda>v ts.
     if is_assignable (class_of (v_kind (vheap (ts_db ts) v))) then in_db (past_assignment cmd v) ts else Inr ts)"

subsection \<open>Old conflicts\<close>

definition conflict_is_old :: "conflict_db \<Rightarrow> time_step_t \<Rightarrow> conflict_id \<Rightarrow> bool" where
  "conflict_is_old db horizon k = list_ex (\<lambda>a. get_time_step db a < horizon) (conflict_assignments (kheap db k))"

text \<open>The loop at the start of \<open>remove_old_variables\<close>.\<close>

definition remove_old_conflicts :: "time_step_t \<Rightarrow> conflict_db \<Rightarrow> conflict_db" where
  "remove_old_conflicts horizon db =
     fold (\<lambda>k db. if conflict_is_old db horizon k then destroy_conflict k db else db) (conflicts db) db"

definition conflict_has_old_active_assignments :: "conflict_db \<Rightarrow> time_step_t \<Rightarrow> conflict_id \<Rightarrow> bool" where
  "conflict_has_old_active_assignments db horizon k =
     list_ex (\<lambda>a. get_time_step db a < horizon \<and> is_current_assignment db (a_variable (aheap db a)) a)
       (conflict_assignments (kheap db k))"

definition represents :: "conflict_db \<Rightarrow> parts \<Rightarrow> assignment_id \<Rightarrow> bool" where
  "represents db p a = (part_id p = v_id (vheap db (a_variable (aheap db a))) \<and>
     part_time p = v_time_step (vheap db (a_variable (aheap db a))))"

definition covers :: "conflict_db \<Rightarrow> trajectory \<Rightarrow> assignment_id \<Rightarrow> bool" where
  "covers db t a = list_ex (\<lambda>p. represents db p a \<and> part_index p = a_index (aheap db a)) t"

definition consistentWith :: "conflict_db \<Rightarrow> trajectory \<Rightarrow> assignment_id \<Rightarrow> bool" where
  "consistentWith db t a = list_all (\<lambda>p. \<not> (represents db p a \<and> part_index p \<noteq> a_index (aheap db a))) t"

definition summarizes :: "t_system \<Rightarrow> trajectory \<Rightarrow> assignment_id list \<Rightarrow> 32 word \<Rightarrow> bool res" where
  "summarizes ts t beforeHorizon valueIndex =
     rbind (if valueIndex = - 1 then Inr True
            else rbind (l2_assert (unat valueIndex < length (old_trajectories ts)) Assert_failed)
              (\<lambda>_. Inr (trajectory_subsumes t (old_trajectories ts ! unat valueIndex))))
       (\<lambda>b. Inr (b \<and> list_all (\<lambda>a. if a_index (aheap (ts_db ts) a) = 0 then consistentWith (ts_db ts) t a
                                 else covers (ts_db ts) t a) beforeHorizon))"

fun splitConflict :: "conflict_db \<Rightarrow> time_step_t \<Rightarrow> assignment_id list \<Rightarrow>
    32 word \<times> assignment_id list \<times> assignment_id list \<Rightarrow> (32 word \<times> assignment_id list \<times> assignment_id list) res" where
  "splitConflict db horizon [] (i, before, after) = Inr (i, before, after)"
| "splitConflict db horizon (a # as) (i, before, after) =
     (if is_state_variable (class_of (v_kind (vheap db (a_variable (aheap db a))))) then
        rbind (l2_assert (i = - 1) Assert_failed)
          (\<lambda>_. splitConflict db horizon as (a_index (aheap db a), before, after))
      else if get_time_step db a \<ge> horizon then splitConflict db horizon as (i, before, a # after)
      else splitConflict db horizon as (i, a # before, after))"

text \<open>The values of the state variable whose trajectories summarize the old part.\<close>

definition summaries :: "t_system \<Rightarrow> assignment_id list \<Rightarrow> 32 word \<Rightarrow> nat list res" where
  "summaries ts beforeHorizon valueIndex = rfold (\<lambda>i is.
     rbind (summarizes ts (state_var_trajectories ts ! i) beforeHorizon valueIndex)
       (\<lambda>b. Inr (if b then is @ [i] else is))) [0..<length (state_var_trajectories ts)] []"

definition summarize_conflict :: "assignment_id list \<Rightarrow> assignment_id list \<Rightarrow> 32 word \<Rightarrow> t_system \<Rightarrow> t_system res" where
  "summarize_conflict beforeHorizon onOrAfterHorizon valueIndex ts =
     rbind (summaries ts beforeHorizon valueIndex) (\<lambda>is.
     if length is = length (state_var_trajectories ts) then
       Inr (if onOrAfterHorizon \<noteq> [] then ts\<lparr>new_conflicts := new_conflicts ts @ [onOrAfterHorizon]\<rparr> else ts)
     else case state_var ts of None \<Rightarrow> Inl Bad_pointer
       | Some v \<Rightarrow> rfold (\<lambda>i ts. case get_assignment (ts_db ts) v (of_nat i) of None \<Rightarrow> Inl Bad_pointer
           | Some a \<Rightarrow> Inr (ts\<lparr>new_conflicts := new_conflicts ts @ [a # onOrAfterHorizon]\<rparr>)) is ts)"

definition summarize_conflicts :: "time_step_t \<Rightarrow> t_system \<Rightarrow> t_system res" where
  "summarize_conflicts horizon ts = rfold (\<lambda>k ts.
     if conflict_has_old_active_assignments (ts_db ts) horizon k then
       rbind (splitConflict (ts_db ts) horizon (conflict_assignments (kheap (ts_db ts) k)) (- 1, [], []))
         (\<lambda>(i, before, after). summarize_conflict before after i ts)
     else Inr ts) (conflicts (ts_db ts)) ts"

definition deleteNewestConflicts :: "t_system \<Rightarrow> t_system" where
  "deleteNewestConflicts ts = (let db = ts_db ts in
     ts\<lparr>ts_db := db\<lparr>conflicts := filter (\<lambda>k. conflict_tag (kheap db k) \<noteq> timestep ts) (conflicts db)\<rparr>\<rparr>)"

subsection \<open>The new state\<close>

text \<open>
  The inner loop of the sort: the place of the value to move. The weight it compares with is the one
  it starts with.
\<close>

fun scan_values :: "(assignment_id \<Rightarrow> weight_t) \<Rightarrow> weight_t \<Rightarrow> nat \<Rightarrow> nat \<Rightarrow> nat \<Rightarrow> assignment_id list \<Rightarrow> nat res" where
  "scan_values w max_weight 0 j max_ait as = rbind (l2_assert (j = length as) Assert_failed) (\<lambda>_. Inr max_ait)"
| "scan_values w max_weight (Suc n) j max_ait as = (if j < length as then
     scan_values w max_weight n (Suc j) (if w (as ! j) \<ge> max_weight then j else max_ait) as else Inl Bad_pointer)"

fun sort_values :: "(assignment_id \<Rightarrow> weight_t) \<Rightarrow> nat \<Rightarrow> assignment_id list \<Rightarrow> assignment_id list \<Rightarrow> assignment_id list res" where
  "sort_values w 0 as vals = Inr vals"
| "sort_values w (Suc i) as vals = rbind (scan_values w 0 (Suc i) 0 0 as) (\<lambda>m.
     if m < length as then sort_values w i (take m as @ drop (Suc m) as) (as ! m # vals) else Inl Bad_pointer)"

definition install_new_state :: "t_system \<Rightarrow> t_system res" where
  "install_new_state ts =
     rbind (rfold (\<lambda>c ts. in_db (\<lambda>db. rbind (ltms_add c (solver db)) (\<lambda>s. Inr (db\<lparr>solver := s\<rparr>))) ts)
              (new_clauses ts) ts) (\<lambda>ts1.
     let ts2 = ts1\<lparr>new_clauses := []\<rparr>;
         ts3 = ts2\<lparr>ts_db := fold (\<lambda>as db. snd (add_conflict as 0 db)) (new_conflicts ts2) (ts_db ts2)\<rparr>;
         ts4 = ts3\<lparr>new_conflicts := []\<rparr>
     in case state_var ts4 of None \<Rightarrow> Inl Bad_pointer
        | Some v \<Rightarrow> rbind (sort_values (\<lambda>a. weight (aheap (ts_db ts4) a)) (unat (get_nvalues (ts_db ts4) v))
                     (v_assignments (vheap (ts_db ts4) v)) [])
            (\<lambda>vals. Inr (ts4\<lparr>ts_db := upd_var v (\<lambda>x. x\<lparr>v_assignments := vals\<rparr>) (ts_db ts4)\<rparr>)))"

subsection \<open>Pruning\<close>

fun prune_candidates :: "32 word \<Rightarrow> candidate_id list \<Rightarrow> conflict_db \<Rightarrow> (candidate_id list \<times> conflict_db) res" where
  "prune_candidates tag [] db = Inr ([], db)"
| "prune_candidates tag (c # cs) db =
     rbind (install c True db) (\<lambda>db1. rbind (conflict tag db1) (\<lambda>(k, db2).
     rbind (prune_candidates tag cs db2) (\<lambda>(cs', db3). Inr (if k = None then c # cs' else cs', db3))))"

definition prune_inconsistent_candidates :: "t_system \<Rightarrow> t_system res" where
  "prune_inconsistent_candidates ts = rbind (prune_candidates (timestep ts) (candidates (ts_db ts)) (ts_db ts))
     (\<lambda>(cs, db). Inr (ts\<lparr>ts_db := db\<lparr>candidates := cs\<rparr>\<rparr>))"

end
