(* ===== verification/Candidate_Classes.thy ===== *)
theory Candidate_Classes
  imports T_System
begin

text \<open>
  The classes of candidates that differ only in when their assignments happen
  (\<open>transition/CandidateEqClass.h\<close>, \<open>CandidateEqClass.cpp\<close>). A class is the array of its candidates.
\<close>

type_synonym candidate_class = "candidate_id list"

record triple =
  variableID :: "32 word"
  timeStep :: "32 word"
  valueIndex :: "32 word"

definition isTimePermutation :: "conflict_db \<Rightarrow> assignment_id \<Rightarrow> assignment_id \<Rightarrow> bool" where
  "isTimePermutation db a b = (let v = vheap db (a_variable (aheap db a)); w = vheap db (a_variable (aheap db b)) in
     v_id v = v_id w \<and> v_time_step v \<noteq> v_time_step w \<and> a_index (aheap db a) = a_index (aheap db b))"

text \<open>The two overloads of \<open>isEquivalent\<close>: on candidates, and on lists of triples.\<close>

definition isEquivalent_candidates :: "conflict_db \<Rightarrow> candidate_id \<Rightarrow> candidate_id \<Rightarrow> bool" where
  "isEquivalent_candidates db c d = (candidate_size db c = candidate_size db d \<and>
     list_all (\<lambda>a. list_ex (\<lambda>b. a = b \<or> isTimePermutation db a b) (cand_assignments (candheap db d)))
       (cand_assignments (candheap db c)))"

definition same_event :: "triple \<Rightarrow> triple \<Rightarrow> bool" where
  "same_event s t = (variableID s = variableID t \<and> valueIndex s = valueIndex t)"

definition isEquivalent :: "triple list \<Rightarrow> triple list \<Rightarrow> bool" where
  "isEquivalent ct1 ct2 = ((of_nat (length ct1) :: 32 word) = of_nat (length ct2) \<and>
     list_all (\<lambda>s. list_ex (same_event s) ct2) ct1)"

text \<open>The trajectory of the state variable's value stands for its parts.\<close>

definition assignment_triples :: "t_system \<Rightarrow> assignment_id \<Rightarrow> triple list res" where
  "assignment_triples ts a = (let x = aheap (ts_db ts) a; v = vheap (ts_db ts) (a_variable x) in
     if is_state_variable (class_of (v_kind v)) then
       rbind (get_trajectory ts (a_index x)) (\<lambda>t. Inr (map (\<lambda>p.
         \<lparr>variableID = part_id p, timeStep = part_time p, valueIndex = part_index p\<rparr>) t))
     else Inr [\<lparr>variableID = v_id v, timeStep = v_time_step v, valueIndex = a_index x\<rparr>])"

definition createTriples :: "t_system \<Rightarrow> candidate_id \<Rightarrow> triple list res" where
  "createTriples ts c = rfold (\<lambda>a triples. rbind (assignment_triples ts a) (\<lambda>new. Inr (triples @ new)))
     (cand_assignments (candheap (ts_db ts) c)) []"

fun belongs_loop :: "t_system \<Rightarrow> triple list \<Rightarrow> candidate_class \<Rightarrow> bool res" where
  "belongs_loop ts ct1 [] = Inr True"
| "belongs_loop ts ct1 (d # ds) = rbind (createTriples ts d) (\<lambda>ct2.
     if isEquivalent ct1 ct2 then belongs_loop ts ct1 ds else Inr False)"

definition belongs :: "t_system \<Rightarrow> candidate_class \<Rightarrow> candidate_id \<Rightarrow> bool res" where
  "belongs ts cls c = rbind (createTriples ts c) (\<lambda>ct1. belongs_loop ts ct1 cls)"

definition class_contains :: "candidate_class \<Rightarrow> candidate_id \<Rightarrow> bool" where
  "class_contains cls c = list_ex (\<lambda>d. d = c) cls"

definition class_add :: "candidate_id \<Rightarrow> candidate_class \<Rightarrow> bool \<times> candidate_class" where
  "class_add c cls = (if \<not> class_contains cls c then (True, cls @ [c]) else (False, cls))"

definition new_class :: "candidate_id \<Rightarrow> candidate_class" where
  "new_class c = snd (class_add c [])"

definition class_get :: "candidate_class \<Rightarrow> 32 word \<Rightarrow> candidate_id option" where
  "class_get cls i = (if i < of_nat (length cls) then Some (cls ! unat i) else None)"

end
