(* ===== verification/Tracker.thy ===== *)
theory Tracker
  imports Truncation Candidate_Classes Opsat
begin

text \<open>
  The tracker of candidates with the best-first search (\<open>transition/tracker.h\<close>, \<open>tracker.cpp\<close>,
  \<open>opsat/cbfs_tracker.h\<close>, \<open>cbfs_tracker.cpp\<close>), and the part of \<open>opsat/opsat.cpp\<close> that works on the
  transition system and the tracker.
\<close>

subsection \<open>Comparing candidates by their trajectories\<close>

definition getStateVariableAssignment :: "conflict_db \<Rightarrow> candidate_id \<Rightarrow> assignment_id option" where
  "getStateVariableAssignment db c =
     find (\<lambda>a. is_state_variable (class_of (v_kind (vheap db (a_variable (aheap db a))))))
       (cand_assignments (candheap db c))"

definition subsumes_state :: "t_system \<Rightarrow> assignment_id option \<Rightarrow> assignment_id option \<Rightarrow> bool res" where
  "subsumes_state ts super sub = (case super of None \<Rightarrow> Inr False
     | Some a \<Rightarrow> (case sub of None \<Rightarrow> Inr False
       | Some b \<Rightarrow> if a = b then Inr True
           else rbind (get_trajectory ts (a_index (aheap (ts_db ts) a))) (\<lambda>superTrajectory.
                rbind (get_trajectory ts (a_index (aheap (ts_db ts) b))) (\<lambda>subTrajectory.
                  Inr (trajectory_subsumes superTrajectory subTrajectory)))))"

fun superset_loop :: "t_system \<Rightarrow> candidate_id \<Rightarrow> assignment_id list \<Rightarrow> bool res" where
  "superset_loop ts super [] = Inr True"
| "superset_loop ts super (a # as) =
     rbind (if \<not> is_state_variable (class_of (v_kind (vheap (ts_db ts) (a_variable (aheap (ts_db ts) a)))))
            then Inr (candidate_contains (ts_db ts) super a)
            else subsumes_state ts (getStateVariableAssignment (ts_db ts) super) (Some a))
       (\<lambda>b. if b then superset_loop ts super as else Inr False)"

definition supersetWithState :: "t_system \<Rightarrow> candidate_id \<Rightarrow> candidate_id \<Rightarrow> bool res" where
  "supersetWithState ts super sub = superset_loop ts super (cand_assignments (candheap (ts_db ts) sub))"

fun superset_candidate :: "t_system \<Rightarrow> candidate_id \<Rightarrow> candidate_id list \<Rightarrow> bool res" where
  "superset_candidate ts c [] = Inr False"
| "superset_candidate ts c (d # ds) = rbind (supersetWithState ts c d)
     (\<lambda>b. if b then Inr True else superset_candidate ts c ds)"

subsection \<open>The tracker\<close>

datatype fc_style = Invalid_fc | Tracker_default_fc | Extend_fc | Find_fresh_fc | Prune_and_search_fc

text \<open>
  The tracker and the system it works on. \<open>tracker_set\<close> says whether \<open>getTracker()\<close> of the system
  gives this tracker; during its constructor it gives a null pointer.
\<close>

record cbfs =
  cbfs_system :: t_system
  tracker_set :: bool
  find_style :: fc_style
  candidatePartition :: "candidate_class list"
  number_tracked :: "32 word"
  maxClassCount :: "32 word"
  cbfs_opsat :: opsat

abbreviation cbfs_db :: "cbfs \<Rightarrow> conflict_db" where
  "cbfs_db t \<equiv> ts_db (cbfs_system t)"

definition put_db :: "conflict_db \<Rightarrow> cbfs \<Rightarrow> cbfs" where
  "put_db db t = t\<lparr>cbfs_system := (cbfs_system t)\<lparr>ts_db := db\<rparr>\<rparr>"

definition eraseCandidatePartition :: "cbfs \<Rightarrow> cbfs" where
  "eraseCandidatePartition t = t\<lparr>candidatePartition := []\<rparr>"

text \<open>The index of the first class the candidate belongs to, or their number.\<close>

fun equivalenceClassIndex :: "t_system \<Rightarrow> candidate_class list \<Rightarrow> candidate_id \<Rightarrow> nat res" where
  "equivalenceClassIndex ts [] c = Inr 0"
| "equivalenceClassIndex ts (cls # classes) c = rbind (belongs ts cls c) (\<lambda>b.
     if b then Inr 0 else rbind (equivalenceClassIndex ts classes c) (\<lambda>i. Inr (Suc i)))"

definition put_in_class :: "nat \<Rightarrow> candidate_id \<Rightarrow> candidate_class list \<Rightarrow> candidate_class list" where
  "put_in_class i c classes = (if i < length classes then classes[i := snd (class_add c (classes ! i))]
     else classes @ [new_class c])"

definition partition_candidates :: "cbfs \<Rightarrow> cbfs res" where
  "partition_candidates t =
     rbind (rfold (\<lambda>c classes. rbind (equivalenceClassIndex (cbfs_system t) classes c)
              (\<lambda>i. Inr (put_in_class i c classes))) (candidates (cbfs_db t)) [])
       (\<lambda>classes. Inr (t\<lparr>candidatePartition := classes\<rparr>))"

subsection \<open>Finding candidates\<close>

text \<open>
  The loop of \<open>find_consistent_candidates\<close> (\<open>opsat.cpp\<close>): a candidate that contains one found before
  is dropped; with a tracker, the others are put into their classes, and a limit on the number of
  classes ends the search. The search itself has the fuel \<open>m\<close>. The list of candidates of the database
  may be the same list: nothing reads it meanwhile.
\<close>

fun find_loop :: "nat \<Rightarrow> nat \<Rightarrow> 32 word \<Rightarrow> candidate_id list \<Rightarrow> cbfs \<Rightarrow> (candidate_id list \<times> cbfs) res" where
  "find_loop 0 m number cs t = Inl Out_of_fuel"
| "find_loop (Suc n) m number cs t = (if of_nat (length cs) < number then
     rbind (next_consistent_candidate m (timestep (cbfs_system t)) (cbfs_opsat t) (cbfs_db t)) (\<lambda>(r, op, db).
       let t1 = put_db db (t\<lparr>cbfs_opsat := op\<rparr>) in
       case r of None \<Rightarrow> Inr (cs, t1)
       | Some c \<Rightarrow> rbind (superset_candidate (cbfs_system t1) c cs) (\<lambda>b.
           if b then find_loop n m number cs t1
           else if tracker_set t1 then
             rbind (equivalenceClassIndex (cbfs_system t1) (candidatePartition t1) c) (\<lambda>i.
               let t2 = t1\<lparr>candidatePartition := put_in_class i c (candidatePartition t1)\<rparr> in
               if i \<ge> length (candidatePartition t1) \<and> maxClassCount t2 > 0 \<and>
                  of_nat (length (candidatePartition t2)) \<ge> maxClassCount t2
               then Inr (cs @ [c], t2) else find_loop n m number (cs @ [c]) t2)
           else find_loop n m number (cs @ [c]) t1))
     else Inr (cs, t))"

definition find_consistent_candidates ::
  "nat \<Rightarrow> candidate_id list \<Rightarrow> 32 word \<Rightarrow> cbfs \<Rightarrow> (candidate_id list \<times> cbfs) res" where
  "find_consistent_candidates n cs number t =
     find_loop n n number cs (t\<lparr>cbfs_opsat := (cbfs_opsat t)\<lparr>candidates_considered := 0\<rparr>\<rparr>)"

text \<open>The search goes on from the candidates of the database, which it replaces.\<close>

definition extend_candidates :: "nat \<Rightarrow> cbfs \<Rightarrow> cbfs res" where
  "extend_candidates n t =
     (let t1 = eraseCandidatePartition t in
      rbind (initialize_search (candidates (cbfs_db t1)) (cbfs_opsat t1) (cbfs_db t1)) (\<lambda>(op, db).
        let t2 = put_db (eraseCandidates db) (t1\<lparr>cbfs_opsat := op\<rparr>) in
        rbind (find_consistent_candidates n [] (number_tracked t2) t2) (\<lambda>(cs, t3).
          Inr (put_db ((cbfs_db t3)\<lparr>candidates := cs\<rparr>) t3))))"

text \<open>The search starts afresh from a candidate for each value of the state variable.\<close>

definition state_candidate :: "assignment_id \<Rightarrow> conflict_db \<Rightarrow> conflict_db" where
  "state_candidate a db = (case new_candidate db of (c, db1) \<Rightarrow>
     let db2 = candidate_add a c db1 in db2\<lparr>candidates := c # candidates db2\<rparr>)"

definition find_fresh_candidates :: "nat \<Rightarrow> cbfs \<Rightarrow> cbfs res" where
  "find_fresh_candidates n t = (let db = eraseCandidates (cbfs_db t) in
     case state_var (cbfs_system t) of None \<Rightarrow> Inl Bad_pointer
     | Some v \<Rightarrow> extend_candidates n (put_db (fold state_candidate (v_assignments (vheap db v)) db) t))"

definition prune_and_search :: "nat \<Rightarrow> cbfs \<Rightarrow> cbfs res" where
  "prune_and_search n t = (let t1 = eraseCandidatePartition t in
     rbind (prune_inconsistent_candidates (cbfs_system t1)) (\<lambda>ts.
     rbind (partition_candidates (t1\<lparr>cbfs_system := ts\<rparr>)) (\<lambda>t2.
       if candidates (cbfs_db t2) = [] then find_fresh_candidates n t2 else Inr t2)))"

text \<open>The constructor of the tracker checks the history length; that of the CBFS tracker searches.\<close>

definition check_history :: "t_system \<Rightarrow> unit res" where
  "check_history ts = l2_assert (max_history_length ts = 0 \<or> max_history_length ts \<ge> MIN_HISTORY_LENGTH) L2_argument_error"

definition new_cbfs :: "nat \<Rightarrow> t_system \<Rightarrow> 32 word \<Rightarrow> 32 word \<Rightarrow> 32 word \<Rightarrow> 32 word \<Rightarrow> cbfs res" where
  "new_cbfs n ts tracked max_class max_cands max_cutoff_weight = rbind (check_history ts) (\<lambda>_.
     rbind (new_opsat 0 max_cutoff_weight max_cands (ts_db ts)) (\<lambda>(op, db).
       extend_candidates n \<lparr>cbfs_system = ts\<lparr>ts_db := db\<rparr>, tracker_set = False, find_style = Tracker_default_fc,
         candidatePartition = [], number_tracked = tracked, maxClassCount = max_class, cbfs_opsat = op\<rparr>))"

definition search_termination_of :: "cbfs \<Rightarrow> search_termination res" where
  "search_termination_of t = terminate_search (cbfs_opsat t)"

definition set_tracker_cutoff :: "weight_t \<Rightarrow> cbfs \<Rightarrow> cbfs" where
  "set_tracker_cutoff w t = t\<lparr>cbfs_opsat := set_cutoff_weight w (cbfs_opsat t)\<rparr>"

definition set_tracker_max :: "32 word \<Rightarrow> cbfs \<Rightarrow> cbfs" where
  "set_tracker_max n t = t\<lparr>cbfs_opsat := set_max_candidates n (cbfs_opsat t)\<rparr>"

definition tracker_observe :: "32 word \<Rightarrow> int \<Rightarrow> cbfs \<Rightarrow> cbfs res" where
  "tracker_observe i k t = rbind (ts_observe i k (cbfs_system t)) (\<lambda>ts. Inr (t\<lparr>cbfs_system := ts\<rparr>))"

end
