(* ===== verification/Opsat_Find.thy ===== *)
theory Opsat_Find
  imports Opsat_Search Tracker
begin

text \<open>
  The search as the tracker runs it: from seeds, for a number of candidates, and what it returns.
\<close>

subsection \<open>The start of a search\<close>

definition agenda_ok :: "agenda \<Rightarrow> bool" where
  "agenda_ok ag \<longleftrightarrow> (\<exists>E. least_heap element_weight (agenda_heap ag) E \<and> size E \<le> max_heap)"

lemma clean_spec:
  assumes "agenda_ok ag"
  shows "returns (clean ag) (\<lambda>ag'. heap_sim db0 ag' {#} \<and> empty_element_weight ag' = empty_element_weight ag)"
proof -
  obtain E where E: "least_heap element_weight (agenda_heap ag) E" "size E \<le> max_heap"
    using assms by (auto simp: agenda_ok_def)
  have "size E < Suc (unat (heap_size (agenda_heap ag)))"
    using E(1) by (auto simp: least_heap_def dest: heap_rep_size)
  from least.drain_sorted [OF E this] show ?thesis
    unfolding clean_def returns_rbind by (rule returns_mono) (auto simp: heap_sim_def)
qed

text \<open>The seeds; without any, the empty candidate.\<close>

definition start_candidates :: "conflict_db \<Rightarrow> candidate_id list \<Rightarrow> assignment_id list list" where
  "start_candidates db seeds = (if seeds = [] then [[]] else map (\<lambda>c. cand_assignments (candheap db c)) seeds)"

definition start_agenda :: "assignment_id list list \<Rightarrow> assignment_id element multiset" where
  "start_agenda Cs = mset (map (\<lambda>C. (C, None, [])) Cs)"

lemma seed_element_insert:
  assumes "heap_sim db0 ag Q" "size Q < max_heap" "same_space db0 db" "proper_candidate db0 (cand_assignments x)"
    and e: "e = \<lparr>candidate_prefix = x, pCurrentAssignment = None, remainingAssignments = [], element_weight = w\<rparr>"
  shows "returns (agenda_insert db e ag) (\<lambda>ag'. heap_sim db0 ag' (add_mset (cand_assignments x, None, []) Q) \<and>
    empty_element_weight ag' = empty_element_weight ag)"
proof -
  have "abs_element e = (cand_assignments x, None, [])" by (simp add: abs_element_def e)
  then show ?thesis using heap_sim_insert [OF assms(1-3), of e] assms(4)
    by (auto simp: e proper_candidate_def elim!: returns_mono)
qed

lemma initialize_agenda_sim:
  assumes ag: "agenda_ok ag" and seeds: "\<forall>C \<in> set (start_candidates db seeds). proper_candidate db C"
    and size: "length (start_candidates db seeds) \<le> max_heap"
  shows "returns (initialize_agenda seeds ag db) (\<lambda>(ag', db'). serial_only db db' \<and>
    heap_sim db ag' (start_agenda (start_candidates db seeds)) \<and> empty_element_weight ag' = empty_element_weight ag)"
proof -
  obtain ag1 where c: "clean ag = Inr ag1" "heap_sim db ag1 {#}" "empty_element_weight ag1 = empty_element_weight ag"
    using clean_spec [OF ag, of db] by (auto simp: returns_iff)
  show ?thesis
  proof (cases "seeds = []")
    case True
    obtain e db1 where n: "new_element db = (e, db1)" by (cases "new_element db")
    then have "serial_only db db1" "cand_assignments (candidate_prefix e) = []"
      "e = \<lparr>candidate_prefix = candidate_prefix e, pCurrentAssignment = None, remainingAssignments = [], element_weight = 0\<rparr>"
      by (auto simp: new_element_def empty_object_def)
    then show ?thesis
      using seed_element_insert [OF c(2) _ candidates_only_space(1) [OF serial_onlyD(1)], of db1 "candidate_prefix e" e 0]
        size c(1,3) n True
      by (auto simp: initialize_agenda_def start_candidates_def start_agenda_def proper_candidate_def elim!: returns_mono)
  next
    case False
    let ?f = "\<lambda>c. cand_assignments (candheap db c)"
    let ?I = "\<lambda>cs (ag', db'). serial_only db db' \<and> heap_sim db ag' (start_agenda (map ?f cs)) \<and>
      empty_element_weight ag' = empty_element_weight ag"
    have len: "length seeds \<le> max_heap" and ok: "\<And>c. c \<in> set seeds \<Longrightarrow> proper_candidate db (?f c)"
      using seeds size False by (auto simp: start_candidates_def)
    have "returns (rfold (\<lambda>c (ag, db). case seed_element (candheap db c) db of (e, db1) \<Rightarrow>
           rbind (agenda_insert db1 e ag) (\<lambda>ag'. Inr (ag', db1))) (rev seeds) (ag1, db)) (?I (rev seeds))"
    proof (rule rfold_rule [where I = ?I])
      show "?I [] (ag1, db)" using c(2,3) by (simp add: start_agenda_def)
    next
      fix xs x ys s
      assume rev: "rev seeds = xs @ x # ys" and inv: "?I xs s"
      obtain ag' db' where s: "s = (ag', db')" by (cases s)
      have i: "serial_only db db'" "heap_sim db ag' (start_agenda (map ?f xs))"
        "empty_element_weight ag' = empty_element_weight ag" using inv by (auto simp: s)
      obtain e db1 where n: "seed_element (candheap db' x) db' = (e, db1)" by (cases "seed_element (candheap db' x) db'")
      have e: "serial_only db' db1" "cand_assignments (candidate_prefix e) = ?f x"
        "e = \<lparr>candidate_prefix = candidate_prefix e, pCurrentAssignment = None, remainingAssignments = [], element_weight = 0\<rparr>"
        using n serial_onlyD(2) [OF i(1)] by (auto simp: seed_element_def copy_object_def)
      note ser = serial_only_trans [OF i(1) e(1)]
      have "x \<in> set (rev seeds)" using rev by simp
      then have x: "proper_candidate db (cand_assignments (candidate_prefix e))" using ok e(2) by simp
      have "length (rev seeds) = length xs + Suc (length ys)" using rev by simp
      then have "size (start_agenda (map ?f xs)) < max_heap" using len by (simp add: start_agenda_def)
      from seed_element_insert [OF i(2) this candidates_only_space(1) [OF serial_onlyD(1) [OF ser]] x e(3)]
      show "returns (case s of (ag, db) \<Rightarrow> case seed_element (candheap db x) db of (e, db1) \<Rightarrow>
           rbind (agenda_insert db1 e ag) (\<lambda>ag'. Inr (ag', db1))) (?I (xs @ [x]))"
        using n ser e(2) i(3) by (auto simp: s start_agenda_def elim!: returns_mono)
    qed
    moreover have "start_agenda (map ?f (rev seeds)) = start_agenda (map ?f seeds)"
      by (simp add: start_agenda_def)
    ultimately show ?thesis
      using c(1) False by (auto simp: initialize_agenda_def start_candidates_def elim!: returns_mono)
  qed
qed

subsection \<open>One candidate\<close>

definition next_post :: "conflict_db \<Rightarrow> opsat \<Rightarrow> conflict_db \<Rightarrow> assignment_id element multiset \<Rightarrow>
    assignment_id list list \<Rightarrow> candidate_id option \<times> opsat \<times> conflict_db \<Rightarrow> bool" where
  "next_post db0 op db Q F = (\<lambda>(r, op', db'). loop_post db0 (next_candidate db) op (snd (new_candidate db)) Q F (r, op', db') \<and>
     next_candidate db' = Suc (next_candidate db) \<and> candidates db' = candidates db \<and>
     (\<forall>d < next_candidate db. candheap db' d = candheap db d))"

lemma next_consistent_candidate_sim:
  assumes sim: "search_sim db0 op db Q" and lim: "limited op Q" and n: "rounds_left op < n"
  shows "returns (next_consistent_candidate n tag op db) (next_post db0 op db Q F)"
proof -
  let ?c = "next_candidate db"
  obtain db1 where c: "new_candidate db = (?c, db1)" by (simp add: new_candidate_def Let_def)
  have f: "candidates_only db db1" "next_candidate db1 = Suc ?c" "candidates db1 = candidates db"
    "\<And>d. d \<noteq> ?c \<Longrightarrow> candheap db1 d = candheap db d"
    using c by (auto simp: new_candidate_def Let_def candidates_only_def no_candidates_def upd_candidate_def)
  note sp = candidates_only_space [OF f(1)]
  have "search_sim db0 op db1 Q"
    using sim candidates_only_inv [OF f(1)] same_space_trans [OF _ sp(1)] genuine_same [OF _ sp(1-3)]
    by (auto simp: search_sim_def)
  from search_loop_sim [OF this lim n, of tag ?c F] show ?thesis
    unfolding next_consistent_candidate_def c prod.case
  proof (rule returns_mono)
    fix x
    assume l: "loop_post db0 ?c op db1 Q F x"
    then have "case x of (r, op', db') \<Rightarrow> search_frame ?c op db1 op' db'" by (auto simp: loop_post_def)
    then show "next_post db0 op db Q F x" using l f(2-4) by (auto simp: next_post_def c search_frame_def)
  qed
qed

end
