(* ===== verification/Find_Loop.thy ===== *)
theory Find_Loop
  imports Opsat_Find "HOL-Library.Sublist"
begin

text \<open>
  The loop that collects candidates: it returns, and the candidates it keeps are the first of those
  the search finds, less the ones that contain an earlier one.
\<close>

subsection \<open>Comparing and classifying candidates\<close>

definition is_state :: "conflict_db \<Rightarrow> assignment_id \<Rightarrow> bool" where
  "is_state db a \<longleftrightarrow> is_state_variable (class_of (v_kind (vheap db (a_variable (aheap db a)))))"

text \<open>Every value of the state variable has its trajectory.\<close>

definition trajectories_cover :: "conflict_db \<Rightarrow> t_system \<Rightarrow> bool" where
  "trajectories_cover db ts \<longleftrightarrow>
     (\<forall>a. legal db a \<longrightarrow> is_state db a \<longrightarrow> unat (a_index (aheap db a)) < length (state_var_trajectories ts))"

lemma is_state_same: "same_space db db' \<Longrightarrow> is_state db' a = is_state db a"
  by (simp add: is_state_def same_space_def)

lemma trajectory_returns:
  assumes "trajectories_cover db0 ts" "same_space db0 (ts_db ts)" "legal db0 a" "is_state db0 a"
  shows "\<exists>t. get_trajectory ts (a_index (aheap (ts_db ts) a)) = Inr t"
  using assms by (simp add: get_trajectory_def trajectories_cover_def same_space_def l2_assert_def)

text \<open>The part of a candidate that is not about the state variable is contained in another.\<close>

definition contains_rest :: "conflict_db \<Rightarrow> assignment_id list \<Rightarrow> assignment_id list \<Rightarrow> bool" where
  "contains_rest db C D \<longleftrightarrow> (\<forall>a \<in> set D. \<not> is_state db a \<longrightarrow> a \<in> set C)"

lemma superset_loop_ok:
  assumes cov: "trajectories_cover db0 ts" "same_space db0 (ts_db ts)"
    and super: "\<forall>a \<in> set (cand_assignments (candheap (ts_db ts) c)). legal db0 a"
  shows "\<forall>a \<in> set as. legal db0 a \<Longrightarrow>
    returns (superset_loop ts c as) (\<lambda>b. b \<longrightarrow> contains_rest db0 (cand_assignments (candheap (ts_db ts) c)) as)"
proof (induction as)
  case (Cons a as)
  let ?C = "cand_assignments (candheap (ts_db ts) c)"
  have st: "is_state_variable (class_of (v_kind (vheap (ts_db ts) (a_variable (aheap (ts_db ts) a))))) = is_state db0 a"
    for a using is_state_same [OF cov(2)] by (simp add: is_state_def)
  have mem: "legal db0 b \<and> is_state db0 b" if "getStateVariableAssignment (ts_db ts) c = Some b" for b
    using that super st by (auto simp: getStateVariableAssignment_def find_Some_iff)
  have sub: "\<exists>b. subsumes_state ts (getStateVariableAssignment (ts_db ts) c) (Some a) = Inr b" if s: "is_state db0 a"
  proof (cases "getStateVariableAssignment (ts_db ts) c")
    case (Some b)
    obtain t u where "get_trajectory ts (a_index (aheap (ts_db ts) b)) = Inr t"
      "get_trajectory ts (a_index (aheap (ts_db ts) a)) = Inr u"
      using trajectory_returns [OF cov, of b] trajectory_returns [OF cov, of a] mem [OF Some] s Cons.prems by auto
    then show ?thesis using Some by (cases "b = a") (auto simp: subsumes_state_def)
  qed (auto simp: subsumes_state_def intro: exI [of _ False])
  have IH: "returns (superset_loop ts c as) (\<lambda>b. b \<longrightarrow> contains_rest db0 ?C as)" using Cons by simp
  show ?case
  proof (cases "is_state db0 a")
    case True
    then obtain b where b: "subsumes_state ts (getStateVariableAssignment (ts_db ts) c) (Some a) = Inr b" using sub by blast
    show ?thesis using IH b True by (cases b) (auto simp: st contains_rest_def elim!: returns_mono)
  next
    case False
    show ?thesis using IH False
      by (cases "candidate_contains (ts_db ts) c a")
        (auto simp: st contains_rest_def candidate_contains_def object_contains_def list_ex_iff elim!: returns_mono)
  qed
qed (simp add: contains_rest_def)

definition legal_candidate :: "conflict_db \<Rightarrow> t_system \<Rightarrow> candidate_id \<Rightarrow> bool" where
  "legal_candidate db0 ts c \<longleftrightarrow> (\<forall>a \<in> set (cand_assignments (candheap (ts_db ts) c)). legal db0 a)"

lemma superset_candidate_ok:
  assumes cov: "trajectories_cover db0 ts" "same_space db0 (ts_db ts)" and c: "legal_candidate db0 ts c"
  shows "\<forall>d \<in> set ds. legal_candidate db0 ts d \<Longrightarrow> returns (superset_candidate ts c ds) (\<lambda>b. b \<longrightarrow>
    (\<exists>d \<in> set ds. contains_rest db0 (cand_assignments (candheap (ts_db ts) c)) (cand_assignments (candheap (ts_db ts) d))))"
proof (induction ds)
  case (Cons d ds)
  obtain b where b: "supersetWithState ts c d = Inr b"
    "b \<longrightarrow> contains_rest db0 (cand_assignments (candheap (ts_db ts) c)) (cand_assignments (candheap (ts_db ts) d))"
    using superset_loop_ok [OF cov, of c "cand_assignments (candheap (ts_db ts) d)"] c Cons.prems
    by (auto simp: supersetWithState_def legal_candidate_def returns_iff)
  show ?case using b Cons by (cases b) (auto elim!: returns_mono)
qed simp

lemma createTriples_returns:
  assumes cov: "trajectories_cover db0 ts" "same_space db0 (ts_db ts)" and c: "legal_candidate db0 ts c"
  shows "\<exists>ct. createTriples ts c = Inr ct"
proof -
  have "returns (assignment_triples ts a) (\<lambda>_. True)" if "legal db0 a" for a
    using trajectory_returns [OF cov that] is_state_same [OF cov(2), of a]
    by (auto simp: assignment_triples_def Let_def is_state_def)
  then have "returns (createTriples ts c) (\<lambda>_. True)"
    unfolding createTriples_def using c
    by (intro rfold_rule [where I = "\<lambda>_ _. True"]) (auto simp: legal_candidate_def elim!: returns_mono)
  then show ?thesis by (auto simp: returns_iff)
qed

lemma equivalenceClassIndex_ok:
  assumes cov: "trajectories_cover db0 ts" "same_space db0 (ts_db ts)" and c: "legal_candidate db0 ts c"
  shows "\<forall>d \<in> \<Union> (set ` set classes). legal_candidate db0 ts d \<Longrightarrow>
    returns (equivalenceClassIndex ts classes c) (\<lambda>i. i \<le> length classes)"
proof (induction classes)
  case (Cons cls classes)
  obtain ct where ct: "createTriples ts c = Inr ct" using createTriples_returns [OF cov c] by blast
  have "\<exists>b. belongs_loop ts ct ds = Inr b" if "\<forall>d \<in> set ds. legal_candidate db0 ts d" for ds
    using that by (induction ds) (use createTriples_returns [OF cov] in fastforce)+
  from this [of cls] obtain b where "belongs ts cls c = Inr b" using Cons.prems ct by (auto simp: belongs_def)
  then show ?case using Cons by (cases b) (auto elim!: returns_mono)
qed simp

subsection \<open>The loop\<close>

abbreviation contents :: "cbfs \<Rightarrow> candidate_id \<Rightarrow> assignment_id list" where
  "contents t c \<equiv> cand_assignments (candheap (cbfs_db t) c)"

text \<open>The candidates kept are some of those found, the first one among them; each one dropped contains one kept.\<close>

definition kept_of :: "conflict_db \<Rightarrow> cbfs \<Rightarrow> candidate_id list \<Rightarrow> assignment_id list list \<Rightarrow> bool" where
  "kept_of db0 t cs F \<longleftrightarrow> subseq (map (contents t) cs) F \<and>
     (F \<noteq> [] \<longrightarrow> cs \<noteq> [] \<and> contents t (hd cs) = hd F) \<and>
     (\<forall>C \<in> set F. passes db0 C \<and> proper_candidate db0 C \<and> (\<exists>c \<in> set cs. contains_rest db0 C (contents t c)))"

text \<open>Candidates of the tracker: they exist, and are made of legal assignments.\<close>

definition known :: "conflict_db \<Rightarrow> cbfs \<Rightarrow> candidate_id set \<Rightarrow> bool" where
  "known db0 t A \<longleftrightarrow> (\<forall>c \<in> A. c < next_candidate (cbfs_db t) \<and> legal_candidate db0 (cbfs_system t) c)"

definition searching :: "conflict_db \<Rightarrow> assignment_id list list \<Rightarrow> cbfs \<Rightarrow> assignment_id element multiset \<Rightarrow> assignment_id list list \<Rightarrow> bool" where
  "searching db0 Cs t Q F \<longleftrightarrow> search_sim db0 (cbfs_opsat t) (cbfs_db t) Q \<and> limited (cbfs_opsat t) Q \<and>
     trajectories_cover db0 (cbfs_system t) \<and>
     ((space.round db0) ^^ unat (candidates_considered (cbfs_opsat t))) (start_agenda Cs, []) (Q, F)"

definition find_inv :: "conflict_db \<Rightarrow> assignment_id list list \<Rightarrow> 32 word \<Rightarrow> cbfs \<Rightarrow> candidate_id list \<Rightarrow> assignment_id element multiset \<Rightarrow>
    assignment_id list list \<Rightarrow> bool" where
  "find_inv db0 Cs number t cs Q F \<longleftrightarrow> searching db0 Cs t Q F \<and> kept_of db0 t cs F \<and> known db0 t (set cs) \<and>
     known db0 t (\<Union> (set ` set (candidatePartition t))) \<and> length cs \<le> unat number \<and>
     (cs = [] \<longrightarrow> candidatePartition t = [])"

text \<open>What a search changes of the tracker, and why the loop ends.\<close>

definition tracker_frame :: "cbfs \<Rightarrow> cbfs \<Rightarrow> bool" where
  "tracker_frame t t' \<longleftrightarrow> (cbfs_system t')\<lparr>ts_db := cbfs_db t\<rparr> = cbfs_system t \<and>
     tracker_set t' = tracker_set t \<and> find_style t' = find_style t \<and> number_tracked t' = number_tracked t \<and>
     maxClassCount t' = maxClassCount t \<and>
     max_candidates (cbfs_opsat t') = max_candidates (cbfs_opsat t) \<and> cutoff_weight (cbfs_opsat t') = cutoff_weight (cbfs_opsat t) \<and>
     empty_element_weight (search_agenda (cbfs_opsat t')) = empty_element_weight (search_agenda (cbfs_opsat t)) \<and>
     candidates (cbfs_db t') = candidates (cbfs_db t)"

definition find_ends :: "32 word \<Rightarrow> candidate_id list \<Rightarrow> cbfs \<Rightarrow> bool" where
  "find_ends number cs t \<longleftrightarrow> length cs = unat number \<or> terminate_search (cbfs_opsat t) \<noteq> Inr SEARCH_CONTINUE \<or>
     (tracker_set t \<and> maxClassCount t > 0 \<and> of_nat (length (candidatePartition t)) \<ge> maxClassCount t)"

definition find_post :: "conflict_db \<Rightarrow> assignment_id list list \<Rightarrow> 32 word \<Rightarrow> cbfs \<Rightarrow> candidate_id list \<times> cbfs \<Rightarrow> bool" where
  "find_post db0 Cs number t = (\<lambda>(cs, t'). (\<exists>Q F. find_inv db0 Cs number t' cs Q F) \<and> tracker_frame t t' \<and> find_ends number cs t')"

lemma put_db_simps [simp]:
  "cbfs_db (put_db db t) = db" "cbfs_opsat (put_db db t) = cbfs_opsat t"
  "candidatePartition (put_db db t) = candidatePartition t" "tracker_set (put_db db t) = tracker_set t"
  "number_tracked (put_db db t) = number_tracked t" "maxClassCount (put_db db t) = maxClassCount t"
  "timestep (cbfs_system (put_db db t)) = timestep (cbfs_system t)"
  "state_var_trajectories (cbfs_system (put_db db t)) = state_var_trajectories (cbfs_system t)"
  by (simp_all add: put_db_def)

lemma tracker_frame_trans:
  assumes "tracker_frame t t1" "tracker_frame t1 t2"
  shows "tracker_frame t t2"
proof -
  have "(cbfs_system t2)\<lparr>ts_db := cbfs_db t\<rparr> = ((cbfs_system t2)\<lparr>ts_db := cbfs_db t1\<rparr>)\<lparr>ts_db := cbfs_db t\<rparr>" by simp
  also have "\<dots> = cbfs_system t" using assms by (simp add: tracker_frame_def)
  finally show ?thesis using assms by (simp add: tracker_frame_def)
qed

lemma tracker_frame_classes: "tracker_frame t t1 \<Longrightarrow> tracker_frame t (t1\<lparr>candidatePartition := P\<rparr>)"
  by (simp add: tracker_frame_def)

lemma put_in_class_members: "i \<le> length classes \<Longrightarrow> \<Union> (set ` set (put_in_class i c classes)) \<subseteq> insert c (\<Union> (set ` set classes))"
  by (auto simp: put_in_class_def new_class_def class_add_def class_contains_def dest!: set_update_subset_insert [THEN subsetD] split: if_splits)

text \<open>Later states know the same candidates, with the same contents.\<close>

lemma known_later:
  assumes "known db0 t A" "next_candidate (cbfs_db t) \<le> next_candidate (cbfs_db t')"
    and "\<And>d. d < next_candidate (cbfs_db t) \<Longrightarrow> candheap (cbfs_db t') d = candheap (cbfs_db t) d"
  shows "known db0 t' A" "c \<in> A \<Longrightarrow> contents t' c = contents t c"
  using assms by (auto simp: known_def legal_candidate_def)

lemma kept_same:
  assumes "\<And>c. c \<in> set cs \<Longrightarrow> contents t' c = contents t c"
  shows "kept_of db0 t' cs F = kept_of db0 t cs F"
proof -
  have "map (contents t') cs = map (contents t) cs" using assms by simp
  then have "subseq (map (contents t') cs) F = subseq (map (contents t) cs) F" by (rule arg_cong)
  moreover have "(cs \<noteq> [] \<and> contents t' (hd cs) = C) = (cs \<noteq> [] \<and> contents t (hd cs) = C)" for C
    using assms by (cases cs) auto
  moreover have "(\<exists>c \<in> set cs. contains_rest db0 C (contents t' c)) = (\<exists>c \<in> set cs. contains_rest db0 C (contents t c))" for C
    using assms by auto
  ultimately show ?thesis unfolding kept_of_def by simp
qed

lemma kept_found:
  assumes "kept_of db0 t cs F" "passes db0 (contents t c)" "proper_candidate db0 (contents t c)"
  shows "kept_of db0 t (cs @ [c]) (F @ [contents t c])"
    "(\<exists>d \<in> set cs. contains_rest db0 (contents t c) (contents t d)) \<Longrightarrow> kept_of db0 t cs (F @ [contents t c])"
proof -
  have hd: "hd (F @ [contents t c]) = (if F = [] then contents t c else hd F)" by (cases F) auto
  have "F = [] \<Longrightarrow> cs = []" using assms(1) by (auto simp: kept_of_def dest: list_emb_Nil2)
  moreover have "contains_rest db0 (contents t c) (contents t c)" by (simp add: contains_rest_def)
  ultimately show "kept_of db0 t (cs @ [c]) (F @ [contents t c])"
    using assms by (auto simp: kept_of_def hd hd_append intro: list_emb_append_mono)
  show "kept_of db0 t cs (F @ [contents t c])" if "\<exists>d \<in> set cs. contains_rest db0 (contents t c) (contents t d)"
    using assms that \<open>F = [] \<Longrightarrow> cs = []\<close> by (auto simp: kept_of_def hd intro: subseq_rev_drop_many)
qed

text \<open>What the tracker knows after a call of the search.\<close>

lemma searched:
  assumes inv: "find_inv db0 Cs number t cs Q F" and left: "rounds_left (cbfs_opsat t) < m"
  shows "\<exists>r op db Q' F'. next_consistent_candidate m tag (cbfs_opsat t) (cbfs_db t) = Inr (r, op, db) \<and>
    (\<forall>t'. t' = put_db db (t\<lparr>cbfs_opsat := op\<rparr>) \<longrightarrow> searching db0 Cs t' Q' F' \<and> kept_of db0 t' cs F \<and> known db0 t' (set cs) \<and>
      known db0 t' (\<Union> (set ` set (candidatePartition t))) \<and> tracker_frame t t' \<and> rounds_left op \<le> rounds_left (cbfs_opsat t) \<and>
      (case r of None \<Rightarrow> F' = F \<and> terminate_search op \<noteq> Inr SEARCH_CONTINUE
       | Some c \<Rightarrow> F' = F @ [contents t' c] \<and> passes db0 (contents t' c) \<and> proper_candidate db0 (contents t' c) \<and>
           known db0 t' {c} \<and> rounds_left op < rounds_left (cbfs_opsat t)))"
proof -
  have s: "search_sim db0 (cbfs_opsat t) (cbfs_db t) Q" "limited (cbfs_opsat t) Q"
    "((space.round db0) ^^ unat (candidates_considered (cbfs_opsat t))) (start_agenda Cs, []) (Q, F)"
    "trajectories_cover db0 (cbfs_system t)" using inv by (simp_all add: find_inv_def searching_def)
  obtain r op db where n: "next_consistent_candidate m tag (cbfs_opsat t) (cbfs_db t) = Inr (r, op, db)"
    "next_post db0 (cbfs_opsat t) (cbfs_db t) Q F (r, op, db)"
    using next_consistent_candidate_sim [OF s(1,2) left, of tag F] by (auto simp: returns_iff)
  obtain k Q' F' where l: "((space.round db0) ^^ k) (Q, F) (Q', F')" "search_sim db0 op db Q'" "limited op Q'"
    "search_frame (next_candidate (cbfs_db t)) (cbfs_opsat t) (snd (new_candidate (cbfs_db t))) op db"
    "rounds_left op \<le> rounds_left (cbfs_opsat t)" "r \<noteq> None \<longrightarrow> rounds_left op < rounds_left (cbfs_opsat t)"
    "case r of None \<Rightarrow> F' = F \<and> terminate_search op \<noteq> Inr SEARCH_CONTINUE
     | Some c \<Rightarrow> c = next_candidate (cbfs_db t) \<and> F' = F @ [cand_assignments (candheap db (next_candidate (cbfs_db t)))] \<and>
         passes db0 (cand_assignments (candheap db (next_candidate (cbfs_db t)))) \<and>
         proper_candidate db0 (cand_assignments (candheap db (next_candidate (cbfs_db t))))"
    and cons: "unat (candidates_considered op) = unat (candidates_considered (cbfs_opsat t)) + k"
    using n(2) unfolding next_post_def loop_post_def prod.case by blast
  have f: "next_candidate db = Suc (next_candidate (cbfs_db t))" "candidates db = candidates (cbfs_db t)"
    "\<And>d. d < next_candidate (cbfs_db t) \<Longrightarrow> candheap db d = candheap (cbfs_db t) d"
    using n(2) by (simp_all add: next_post_def)
  let ?t = "put_db db (t\<lparr>cbfs_opsat := op\<rparr>)"
  have later: "next_candidate (cbfs_db t) \<le> next_candidate (cbfs_db ?t)"
    "\<And>d. d < next_candidate (cbfs_db t) \<Longrightarrow> candheap (cbfs_db ?t) d = candheap (cbfs_db t) d" using f by simp_all
  have k: "known db0 t (set cs)" "known db0 t (\<Union> (set ` set (candidatePartition t)))" "kept_of db0 t cs F"
    using inv by (simp_all add: find_inv_def)
  have "searching db0 Cs ?t Q' F'"
    using l(2,3) s(4) relpowp_trans [OF s(3) l(1)] cons by (simp add: searching_def trajectories_cover_def)
  moreover have "tracker_frame t ?t"
    using l(4) f(2) by (simp add: tracker_frame_def search_frame_def put_db_def)
  moreover have "case r of None \<Rightarrow> F' = F \<and> terminate_search op \<noteq> Inr SEARCH_CONTINUE
       | Some c \<Rightarrow> F' = F @ [contents ?t c] \<and> passes db0 (contents ?t c) \<and> proper_candidate db0 (contents ?t c) \<and>
           known db0 ?t {c} \<and> rounds_left op < rounds_left (cbfs_opsat t)"
    using l(6,7) f(1) by (auto simp: known_def legal_candidate_def proper_candidate_def split: option.splits)
  moreover have "kept_of db0 ?t cs F" using k(3) kept_same [of cs ?t t] known_later(2) [OF k(1) later] by simp
  ultimately show ?thesis
    using n(1) known_later(1) [OF k(1) later] known_later(1) [OF k(2) later] l(5) by blast
qed

lemma find_inv_same:
  assumes "cbfs_db t' = cbfs_db t" "cbfs_opsat t' = cbfs_opsat t" "cbfs_system t' = cbfs_system t"
  shows "searching db0 Cs t' Q F = searching db0 Cs t Q F" "kept_of db0 t' cs F = kept_of db0 t cs F"
    "known db0 t' A = known db0 t A"
  using assms by (simp_all add: searching_def kept_of_def known_def)

lemma known_insert: "known db0 t (insert c A) \<longleftrightarrow> known db0 t {c} \<and> known db0 t A"
  by (auto simp: known_def)

lemma known_mono: "known db0 t A \<Longrightarrow> B \<subseteq> A \<Longrightarrow> known db0 t B"
  by (auto simp: known_def)

lemma find_post_later: "tracker_frame t t1 \<Longrightarrow> find_post db0 Cs number t1 x \<Longrightarrow> find_post db0 Cs number t x"
  by (auto simp: find_post_def intro: tracker_frame_trans)

lemma find_loop_ok:
  assumes "find_inv db0 Cs number t cs Q F" "rounds_left (cbfs_opsat t) < n" "rounds_left (cbfs_opsat t) < m"
  shows "returns (find_loop n m number cs t) (find_post db0 Cs number t)"
  using assms
proof (induction n arbitrary: cs t Q F)
  case (Suc n)
  have len: "length cs \<le> unat number" using Suc.prems(1) by (simp add: find_inv_def)
  have refl: "tracker_frame t t"
    by (simp add: tracker_frame_def)
  have lt: "of_nat (length cs) < number \<longleftrightarrow> length cs < unat number"
  proof -
    have "length cs < 2 ^ 32" using len unsigned_less [of number, where 'a = nat] by simp
    then show ?thesis by (simp add: word_less_nat_alt unat_of_nat take_bit_nat_eq_self)
  qed
  show ?case
  proof (cases "of_nat (length cs) < number")
    case False
    then have "length cs = unat number" using len lt by simp
    then show ?thesis using Suc.prems(1) False refl by (auto simp: find_post_def find_ends_def)
  next
    case True
    obtain r op db Q' F' where n: "next_consistent_candidate m (timestep (cbfs_system t)) (cbfs_opsat t) (cbfs_db t) = Inr (r, op, db)"
      and post: "\<And>t'. t' = put_db db (t\<lparr>cbfs_opsat := op\<rparr>) \<Longrightarrow> searching db0 Cs t' Q' F' \<and> kept_of db0 t' cs F \<and> known db0 t' (set cs) \<and>
      known db0 t' (\<Union> (set ` set (candidatePartition t))) \<and> tracker_frame t t' \<and> rounds_left op \<le> rounds_left (cbfs_opsat t) \<and>
      (case r of None \<Rightarrow> F' = F \<and> terminate_search op \<noteq> Inr SEARCH_CONTINUE
       | Some c \<Rightarrow> F' = F @ [contents t' c] \<and> passes db0 (contents t' c) \<and> proper_candidate db0 (contents t' c) \<and>
           known db0 t' {c} \<and> rounds_left op < rounds_left (cbfs_opsat t))"
      using searched [OF Suc.prems(1,3)] by blast
    define t1 where "t1 = put_db db (t\<lparr>cbfs_opsat := op\<rparr>)"
    note p = post [OF t1_def]
    have t1: "cbfs_opsat t1 = op" "candidatePartition t1 = candidatePartition t" by (simp_all add: t1_def)
    show ?thesis
    proof (cases r)
      case None
      then have "find_post db0 Cs number t (cs, t1)"
        using p len t1 Suc.prems(1) by (auto simp: find_post_def find_inv_def find_ends_def)
      then show ?thesis using n None True by (simp add: t1_def)
    next
      case (Some c)
      have c: "F' = F @ [contents t1 c]" "passes db0 (contents t1 c)" "proper_candidate db0 (contents t1 c)"
        "known db0 t1 {c}" and left: "rounds_left op < n" "rounds_left op < m"
        using p Some Suc.prems(2,3) by auto
      note kf = kept_found [OF _ c(2,3), of cs F]
      have sp: "trajectories_cover db0 (cbfs_system t1)" "same_space db0 (cbfs_db t1)"
        using p by (simp_all add: searching_def search_sim_def)
      have leg: "legal_candidate db0 (cbfs_system t1) c" "\<forall>d \<in> set cs. legal_candidate db0 (cbfs_system t1) d"
        "\<forall>d \<in> \<Union> (set ` set (candidatePartition t1)). legal_candidate db0 (cbfs_system t1) d"
        using c(4) p t1 by (auto simp: known_def)
      obtain b where b: "superset_candidate (cbfs_system t1) c cs = Inr b"
        "b \<longrightarrow> (\<exists>d \<in> set cs. contains_rest db0 (contents t1 c) (contents t1 d))"
        using superset_candidate_ok [OF sp leg(1,2)] by (auto simp: returns_iff)
      obtain i where i: "equivalenceClassIndex (cbfs_system t1) (candidatePartition t1) c = Inr i" "i \<le> length (candidatePartition t1)"
        using equivalenceClassIndex_ok [OF sp leg(1,3)] by (auto simp: returns_iff)
      define t2 where "t2 = (if tracker_set t1 then t1\<lparr>candidatePartition := put_in_class i c (candidatePartition t1)\<rparr> else t1)"
      have t2: "cbfs_db t2 = cbfs_db t1" "cbfs_opsat t2 = cbfs_opsat t1" "cbfs_system t2 = cbfs_system t1"
        by (simp_all add: t2_def)
      have run: "find_loop (Suc n) m number cs t = (if b then find_loop n m number cs t1
          else if tracker_set t1 \<and> i \<ge> length (candidatePartition t1) \<and> maxClassCount t2 > 0 \<and>
            of_nat (length (candidatePartition t2)) \<ge> maxClassCount t2 then Inr (cs @ [c], t2)
          else find_loop n m number (cs @ [c]) t2)"
        using n True Some b(1) i(1) by (simp add: t1_def [symmetric] t2_def Let_def)
      show ?thesis
      proof (cases b)
        case True
        then have "find_inv db0 Cs number t1 cs Q' F'"
          using p kf(2) b(2) c(1) len t1 by (auto simp: find_inv_def)
        from Suc.IH [OF this] show ?thesis
          using run True left t1 p find_post_later by (auto elim!: returns_mono)
      next
        case False
        have "known db0 t1 (\<Union> (set ` set (candidatePartition t1)))" using p t1(2) by metis
        then have "known db0 t1 (insert c (\<Union> (set ` set (candidatePartition t1))))"
          using c(4) by (subst known_insert) blast
        moreover have "\<Union> (set ` set (candidatePartition t2)) \<subseteq> insert c (\<Union> (set ` set (candidatePartition t1)))"
          using put_in_class_members [OF i(2), of c] by (auto simp: t2_def)
        ultimately have "known db0 t1 (\<Union> (set ` set (candidatePartition t2)))" by (rule known_mono)
        then have inv: "find_inv db0 Cs number t2 (cs @ [c]) Q' F'"
          using p kf(1) c(1,4) True lt known_insert [of db0 t1 c "set cs"]
          by (simp add: find_inv_def find_inv_same [OF t2])
        have fr1: "tracker_frame t t1" using p by blast
        have fr: "tracker_frame t t2"
          unfolding t2_def by (simp add: fr1 tracker_frame_classes [OF fr1])
        show ?thesis
        proof (cases "tracker_set t1 \<and> i \<ge> length (candidatePartition t1) \<and> maxClassCount t2 > 0 \<and>
            of_nat (length (candidatePartition t2)) \<ge> maxClassCount t2")
          case stop: True
          moreover have "tracker_set t2 = tracker_set t1" by (simp add: t2_def)
          ultimately have "find_ends number (cs @ [c]) t2" unfolding find_ends_def by simp
          then have "find_post db0 Cs number t (cs @ [c], t2)" unfolding find_post_def using inv fr by blast
          then show ?thesis using run False stop by simp
        next
          case go: False
          have "rounds_left (cbfs_opsat t2) < n" "rounds_left (cbfs_opsat t2) < m" using left t1 t2 by simp_all
          then have "returns (find_loop n m number (cs @ [c]) t2) (find_post db0 Cs number t)"
            by (intro returns_mono [OF Suc.IH [OF inv] find_post_later [OF fr]])
          moreover have "find_loop (Suc n) m number cs t = find_loop n m number (cs @ [c]) t2"
            unfolding run using False go by auto
          ultimately show ?thesis by (simp only:)
        qed
      qed
    qed
  qed
qed simp

end
