(* ===== verification/Tracker_Search.thy ===== *)
theory Tracker_Search
  imports Find_Loop Cdb_Properties
begin

text \<open>
  The operations of the tracker: extending the candidates by a search, and pruning the inconsistent
  ones.
\<close>

subsection \<open>Extending the candidates\<close>

text \<open>
  A tracker whose search can run: there is a limit on the candidates considered, the weights do not
  wrap, the candidates to start from are proper and the agenda has room for the elements.
\<close>

definition seeds_of :: "cbfs \<Rightarrow> assignment_id list list" where
  "seeds_of t = start_candidates (cbfs_db t) (candidates (cbfs_db t))"

definition tracker_ready :: "cbfs \<Rightarrow> bool" where
  "tracker_ready t \<longleftrightarrow> cdb_ok (cbfs_db t) \<and> genuine_conflicts (cbfs_db t) \<and>
     search_ready (cbfs_db t) (empty_element_weight (search_agenda (cbfs_opsat t))) \<and>
     agenda_ok (search_agenda (cbfs_opsat t)) \<and> (\<forall>C \<in> set (seeds_of t). proper_candidate (cbfs_db t) C) \<and>
     trajectories_cover (cbfs_db t) (cbfs_system t) \<and> max_candidates (cbfs_opsat t) \<noteq> 0 \<and>
     unat (max_candidates (cbfs_opsat t)) < 2 ^ 32 - 1 \<and>
     length (seeds_of t) + unat (max_candidates (cbfs_opsat t)) + 1 \<le> max_heap"

text \<open>The rounds a search may take, which bound its fuel.\<close>

definition search_rounds :: "cbfs \<Rightarrow> nat" where
  "search_rounds t = unat (max_candidates (cbfs_opsat t)) + 1"

definition extended :: "cbfs \<Rightarrow> cbfs \<Rightarrow> bool" where
  "extended t t' \<longleftrightarrow> (\<exists>Q F. find_inv (cbfs_db t) (seeds_of t) (number_tracked t) t' (candidates (cbfs_db t')) Q F) \<and>
     find_ends (number_tracked t) (candidates (cbfs_db t')) t' \<and> max_candidates (cbfs_opsat t') = max_candidates (cbfs_opsat t) \<and>
     cutoff_weight (cbfs_opsat t') = cutoff_weight (cbfs_opsat t) \<and>
     empty_element_weight (search_agenda (cbfs_opsat t')) = empty_element_weight (search_agenda (cbfs_opsat t)) \<and>
     maxClassCount t' = maxClassCount t \<and> tracker_set t' = tracker_set t \<and> number_tracked t' = number_tracked t"

lemma candidates_only_field [simp]: "candidates_only db (db\<lparr>candidates := cs\<rparr>)"
  by (simp add: candidates_only_def no_candidates_def)

lemma search_sim_later:
  assumes "search_sim db0 op db Q" "candidates_only db db'"
  shows "search_sim db0 op db' Q"
proof -
  note sp = candidates_only_space [OF assms(2)]
  show ?thesis using assms(1) candidates_only_inv [OF assms(2)] same_space_trans [OF _ sp(1)] genuine_same [OF _ sp(1-3)]
    by (auto simp: search_sim_def)
qed

lemma find_inv_store:
  assumes "find_inv db0 Cs number t cs Q F"
  shows "find_inv db0 Cs number (put_db ((cbfs_db t)\<lparr>candidates := ds\<rparr>) t) cs Q F"
proof -
  let ?t = "put_db ((cbfs_db t)\<lparr>candidates := ds\<rparr>) t"
  have "known db0 ?t A = known db0 t A" for A by (simp add: known_def legal_candidate_def put_db_def)
  moreover have "kept_of db0 ?t cs F = kept_of db0 t cs F" by (rule kept_same) simp
  moreover have "searching db0 Cs ?t Q F" if "searching db0 Cs t Q F"
    using that search_sim_later [OF _ candidates_only_field]
    by (auto simp: searching_def trajectories_cover_def)
  ultimately show ?thesis using assms by (simp add: find_inv_def)
qed

lemma extend_candidates_ok:
  assumes r: "tracker_ready t" and n: "search_rounds t < n"
  shows "returns (extend_candidates n t) (extended t)"
proof -
  let ?db = "cbfs_db t" and ?op = "cbfs_opsat t" and ?ag = "search_agenda (cbfs_opsat t)"
  let ?Q = "start_agenda (seeds_of t)"
  obtain ag db1 where i: "initialize_agenda (candidates ?db) ?ag ?db = Inr (ag, db1)" "serial_only ?db db1"
    "heap_sim ?db ag ?Q" "empty_element_weight ag = empty_element_weight ?ag"
    using initialize_agenda_sim [of ?ag ?db "candidates ?db"] r
    by (auto simp: tracker_ready_def seeds_of_def returns_iff)
  define t2 where "t2 = put_db (eraseCandidates db1) ((eraseCandidatePartition t)\<lparr>cbfs_opsat :=
    ?op\<lparr>search_agenda := ag, candidates_considered := 0\<rparr>\<rparr>)"
  have f2: "cbfs_db t2 = eraseCandidates db1" "cbfs_opsat t2 = ?op\<lparr>search_agenda := ag, candidates_considered := 0\<rparr>"
    "candidatePartition t2 = []" "number_tracked t2 = number_tracked t" "maxClassCount t2 = maxClassCount t"
    "tracker_set t2 = tracker_set t" "state_var_trajectories (cbfs_system t2) = state_var_trajectories (cbfs_system t)"
    by (simp_all add: t2_def eraseCandidatePartition_def)
  have co: "candidates_only ?db (eraseCandidates db1)"
    using candidates_only_trans [OF serial_onlyD(1) [OF i(2)] candidates_only_field] by (simp add: eraseCandidates_def)
  have "search_sim ?db (cbfs_opsat t2) ?db ?Q"
    using r i(3,4) by (simp add: search_sim_def tracker_ready_def f2)
  then have sim: "search_sim ?db (cbfs_opsat t2) (cbfs_db t2) ?Q" using search_sim_later co f2(1) by simp
  have left: "rounds_left (cbfs_opsat t2) = search_rounds t" by (simp add: rounds_left_def f2 search_rounds_def)
  then have lim: "limited (cbfs_opsat t2) ?Q"
    using r by (simp add: limited_def f2 tracker_ready_def start_agenda_def search_rounds_def)
  have "find_inv ?db (seeds_of t) (number_tracked t) t2 [] ?Q []"
    using sim lim r
    by (simp add: find_inv_def searching_def kept_of_def known_def f2 tracker_ready_def trajectories_cover_def)
  from find_loop_ok [OF this, of n n] obtain cs t3 where
    l: "find_loop n n (number_tracked t) [] t2 = Inr (cs, t3)" "find_post ?db (seeds_of t) (number_tracked t) t2 (cs, t3)"
    using left n by (auto simp: returns_iff)
  define t4 where "t4 = put_db ((cbfs_db t3)\<lparr>candidates := cs\<rparr>) t3"
  let ?t = "put_db (eraseCandidates db1) ((eraseCandidatePartition t)\<lparr>cbfs_opsat := ?op\<lparr>search_agenda := ag\<rparr>\<rparr>)"
  have "?t\<lparr>cbfs_opsat := (cbfs_opsat ?t)\<lparr>candidates_considered := 0\<rparr>\<rparr> = t2"
    by (rule cbfs.equality) (simp_all add: t2_def put_db_def)
  then have "find_consistent_candidates n [] (number_tracked t) ?t = Inr (cs, t3)"
    unfolding find_consistent_candidates_def using l(1) by (simp only:)
  moreover have "number_tracked ?t = number_tracked t" "cbfs_db (eraseCandidatePartition t) = ?db"
    "cbfs_opsat (eraseCandidatePartition t) = ?op" by (simp_all add: eraseCandidatePartition_def)
  ultimately have run: "extend_candidates n t = Inr t4"
    using i(1) by (simp add: extend_candidates_def initialize_search_def t4_def Let_def)
  obtain Q F where "find_inv ?db (seeds_of t) (number_tracked t) t3 cs Q F" "tracker_frame t2 t3"
    "find_ends (number_tracked t) cs t3" using l(2) by (auto simp: find_post_def)
  then have "extended t t4"
    using find_inv_store [of ?db "seeds_of t" "number_tracked t" t3 cs Q F cs] i(4)
    by (auto simp: extended_def t4_def tracker_frame_def f2 find_ends_def)
  then show ?thesis by (simp add: run)
qed

lemma subseq_members: "subseq xs ys \<Longrightarrow> set xs \<subseteq> set ys"
  by (induction rule: list_emb.induct) auto

lemma sorted_subseq: "subseq xs ys \<Longrightarrow> sorted ys \<Longrightarrow> sorted xs"
  by (induction rule: list_emb.induct) (auto dest: subseq_members)

lemma searching_ok:
  assumes "searching db (seeds_of t) t' Q F" "\<forall>C \<in> set (seeds_of t). proper_candidate db C"
  shows "space.search_ok db (space.extends (seeds_of t)) Q F"
proof -
  have "(space.round db)\<^sup>*\<^sup>* (start_agenda (seeds_of t), []) (Q, F)"
    using assms(1) by (auto simp: searching_def dest: relpowp_imp_rtranclp)
  moreover have "space.search_ok db (space.extends (seeds_of t)) (start_agenda (seeds_of t)) []"
    unfolding start_agenda_def
    by (rule space.search_ok_start) (use assms(2) in \<open>auto simp: proper_candidate_def\<close>)
  ultimately show ?thesis by (rule space.rounds_ok)
qed

text \<open>What the candidates are, read off the invariant.\<close>

lemma extendedD:
  assumes e: "extended t t'" and r: "tracker_ready t"
  defines "cs \<equiv> candidates (cbfs_db t')"
  shows "cdb_ok (cbfs_db t')" "same_space (cbfs_db t) (cbfs_db t')" "genuine_conflicts (cbfs_db t')"
    "length cs \<le> unat (number_tracked t)"
    "unat (candidates_considered (cbfs_opsat t')) \<le> search_rounds t"
    "c \<in> set cs \<Longrightarrow> passes (cbfs_db t) (contents t' c)" "c \<in> set cs \<Longrightarrow> proper_candidate (cbfs_db t) (contents t' c)"
    "sorted (map (\<lambda>c. space.total (cbfs_db t) (contents t' c)) cs)"
    "\<exists>Q F. searching (cbfs_db t) (seeds_of t) t' Q F \<and> kept_of (cbfs_db t) t' cs F"
    "cs = [] \<Longrightarrow> candidatePartition t' = []"
proof -
  obtain Q F where i: "find_inv (cbfs_db t) (seeds_of t) (number_tracked t) t' cs Q F"
    using e by (auto simp: extended_def cs_def)
  show "length cs \<le> unat (number_tracked t)" "cs = [] \<Longrightarrow> candidatePartition t' = []" using i by (simp_all add: find_inv_def)
  have s: "searching (cbfs_db t) (seeds_of t) t' Q F" "kept_of (cbfs_db t) t' cs F" using i by (simp_all add: find_inv_def)
  then show "\<exists>Q F. searching (cbfs_db t) (seeds_of t) t' Q F \<and> kept_of (cbfs_db t) t' cs F" by blast
  show "cdb_ok (cbfs_db t')" "same_space (cbfs_db t) (cbfs_db t')" "genuine_conflicts (cbfs_db t')"
    using s(1) by (simp_all add: searching_def search_sim_def)
  have "max_candidates (cbfs_opsat t') = max_candidates (cbfs_opsat t)" using e by (simp add: extended_def)
  then show "unat (candidates_considered (cbfs_opsat t')) \<le> search_rounds t"
    using s(1) by (simp add: searching_def limited_def search_rounds_def)
  have sub: "subseq (map (contents t') cs) F" using s(2) by (simp add: kept_of_def)
  have "contents t' c \<in> set F" if "c \<in> set cs" for c using subseq_members [OF sub] that by auto
  then show "c \<in> set cs \<Longrightarrow> passes (cbfs_db t) (contents t' c)" "c \<in> set cs \<Longrightarrow> proper_candidate (cbfs_db t) (contents t' c)"
    using s(2) by (auto simp: kept_of_def)
  have "sorted (map (space.total (cbfs_db t)) F)"
    using searching_ok [OF s(1)] r by (simp add: tracker_ready_def space.search_ok_def)
  then have "sorted (map (space.total (cbfs_db t)) (map (contents t') cs))"
    using sorted_subseq [OF subseq_map [OF sub, of "space.total (cbfs_db t)"]] by simp
  then show "sorted (map (\<lambda>c. space.total (cbfs_db t) (contents t' c)) cs)" by (simp add: o_def)
qed

text \<open>A diagnosis in reach is explained, or no cheaper than what was found and than the agenda.\<close>

lemma extended_diagnosis:
  assumes e: "extended t t'" and r: "tracker_ready t" and S: "is_diagnosis (cbfs_db t) S" "space.extends (seeds_of t) S"
  defines "cs \<equiv> candidates (cbfs_db t')"
  shows "(\<exists>c \<in> set cs. {a \<in> set (contents t' c). \<not> is_state (cbfs_db t) a} \<subseteq> S) \<or>
    terminate_search (cbfs_opsat t') \<noteq> Inr EMPTY_AGENDA \<and>
    (\<forall>c \<in> set cs. space.total (cbfs_db t) (contents t' c) \<le> (\<Sum>a \<in> S. unat (weight (aheap (cbfs_db t) a)))) \<and>
    (terminate_search (cbfs_opsat t') = Inr WEIGHT_CUTOFF \<longrightarrow> unat (cutoff_weight (cbfs_opsat t)) <
       unat (empty_element_weight (search_agenda (cbfs_opsat t))) + (\<Sum>a \<in> S. unat (weight (aheap (cbfs_db t) a))))"
proof -
  let ?cost = "\<Sum>a \<in> S. unat (weight (aheap (cbfs_db t) a))"
  obtain Q F where s: "searching (cbfs_db t) (seeds_of t) t' Q F" "kept_of (cbfs_db t) t' cs F"
    using extendedD(9) [OF e r] by (auto simp: cs_def)
  have ok: "space.search_ok (cbfs_db t) (space.extends (seeds_of t)) Q F"
    using searching_ok [OF s(1)] r by (simp add: tracker_ready_def)
  have sub: "subseq (map (contents t') cs) F" using s(2) by (simp add: kept_of_def)
  consider C where "C \<in> set F" "set C \<subseteq> S" | x where "x \<in># Q" "space.total (cbfs_db t) (candidate_of x) \<le> ?cost"
    using space.search_optimal [OF ok S] by blast
  then show ?thesis
  proof cases
    case 1
    then obtain c where "c \<in> set cs" "contains_rest (cbfs_db t) C (contents t' c)" using s(2) by (auto simp: kept_of_def)
    then have "c \<in> set cs" "{a \<in> set (contents t' c). \<not> is_state (cbfs_db t) a} \<subseteq> S"
      using 1(2) by (auto simp: contains_rest_def)
    then show ?thesis by blast
  next
    case 2
    have "heap_sim (cbfs_db t) (search_agenda (cbfs_opsat t')) Q"
      "search_ready (cbfs_db t) (empty_element_weight (search_agenda (cbfs_opsat t')))"
      using s(1) by (simp_all add: searching_def search_sim_def)
    from terminate_search_spec [OF this] obtain st where st: "terminate_search (cbfs_opsat t') = Inr st"
      "st = EMPTY_AGENDA \<longleftrightarrow> Q = {#}" "st = WEIGHT_CUTOFF \<longrightarrow> (\<forall>e \<in># Q. unat (cutoff_weight (cbfs_opsat t')) <
       unat (empty_element_weight (search_agenda (cbfs_opsat t'))) + space.total (cbfs_db t) (candidate_of e))"
      by (auto simp: returns_iff)
    have "space.total (cbfs_db t) (contents t' c) \<le> ?cost" if "c \<in> set cs" for c
    proof -
      have "contents t' c \<in> set F" using subseq_members [OF sub] that by auto
      then have "space.total (cbfs_db t) (contents t' c) \<le> space.total (cbfs_db t) (candidate_of x)"
        using ok 2(1) by (simp add: space.search_ok_def)
      then show ?thesis using 2(2) by simp
    qed
    moreover have "st = WEIGHT_CUTOFF \<longrightarrow> unat (cutoff_weight (cbfs_opsat t)) <
        unat (empty_element_weight (search_agenda (cbfs_opsat t))) + ?cost"
      using st(3) 2 e by (fastforce simp: extended_def)
    ultimately show ?thesis using st(1,2) 2(1) by auto
  qed
qed

end
