(* ===== verification/Tracker_Properties.thy ===== *)
theory Tracker_Properties
  imports Tracker_Search
begin

text \<open>
  The properties of the tracker and of the transition system, each with a concrete instance: a
  tracker on the database with one assumption of two values.
\<close>

subsection \<open>Pruning\<close>

definition registered :: "conflict_db \<Rightarrow> bool" where
  "registered db \<longleftrightarrow> (\<forall>v \<in> set (variables db). is_assumption (class_of (v_kind (vheap db v))) \<longrightarrow> v \<in> set (assumptions db))"

lemma prune_candidates_ok:
  assumes "cdb_ok db" "same_space db0 db" "genuine_conflicts db" "registered db0"
    and "\<forall>c \<in> set cs. proper_candidate db0 (cand_assignments (candheap db c))"
  shows "returns (prune_candidates tag cs db) (\<lambda>(cs', db').
    cs' = filter (\<lambda>c. passes db0 (cand_assignments (candheap db c))) cs \<and> cdb_ok db' \<and> same_space db0 db' \<and>
    genuine_conflicts db' \<and> candheap db' = candheap db \<and> next_candidate db' = next_candidate db)"
  using assms
proof (induction cs arbitrary: db)
  case (Cons c cs)
  let ?C = "cand_assignments (candheap db c)"
  have C: "\<forall>a \<in> set ?C. legal db0 a" "distinct (map (\<lambda>a. a_variable (aheap db0 a)) ?C)"
    using Cons.prems(5) by (simp_all add: proper_candidate_def)
  obtain db1 where i: "install c True db = Inr db1" "cdb_ok db1" "same_space db0 db1" "genuine_conflicts db1"
    "candheap db1 = candheap db" "next_candidate db1 = next_candidate db" "holds_candidate db1 ?C"
    using install_space [OF Cons.prems(1-3) C(1), of True] by (auto simp: returns_iff)
  obtain k db2 where co: "conflict tag db1 = Inr (k, db2)" "cdb_ok db2" "same_space db1 db2" "genuine_conflicts db2"
    "candheap db2 = candheap db1" "next_candidate db2 = next_candidate db1"
    "k = None \<longleftrightarrow> \<not> up_conflict (formula (solver db1))"
    using conflict_space [OF i(2,4), of tag] by (auto simp: returns_iff)
  have reg: "v \<in> set (assumptions db1)" if "v \<in> set (variables db1)" "is_assumption (class_of (v_kind (vheap db1 v)))" for v
    using Cons.prems(4) that i(3) by (simp add: registered_def same_space_def)
  have "a_variable (aheap db1 a) = a_variable (aheap db0 a)" for a using i(3) by (simp add: same_space_def)
  then have "formula (solver db1) = observed_formula db0 \<union> asserts db0 (completed db0 (set ?C))"
    using holds_candidate_formula [OF i(2,7) reg] C same_spaceD(2,4,6) [OF i(3)] i(3) by (simp add: same_space_def)
  then have k: "k = None \<longleftrightarrow> passes db0 ?C" using co(7) by (simp add: passes_def)
  have "\<forall>c \<in> set cs. proper_candidate db0 (cand_assignments (candheap db2 c))" using Cons.prems(5) i(5) co(5) by simp
  from Cons.IH [OF co(2) same_space_trans [OF i(3) co(3)] co(4) Cons.prems(4) this]
  show ?case using i(1,5,6) co(1,5,6) k by (auto elim!: returns_mono)
qed simp

subsection \<open>A concrete tracker\<close>

definition demo_tracker :: cbfs where
  "demo_tracker = \<lparr>cbfs_system = (new_t_system 1 5 False)\<lparr>ts_db := demo_db\<rparr>, tracker_set = True,
     find_style = Tracker_default_fc, candidatePartition = [], number_tracked = 5, maxClassCount = 0,
     cbfs_opsat = \<lparr>candidates_considered = 0, cutoff_weight = 100, max_candidates = 10,
       search_agenda = \<lparr>agenda_heap = new_heap 1, last_popped_element = None, empty_element_weight = 0\<rparr>\<rparr>\<rparr>"

lemma demo_more_fields: "next_assignment demo_db = 2" "candidates demo_db = []" "weight (aheap demo_db 0) = 0"
  by (simp_all add: demo_db_eq no_assignment_def)

lemma demo_tracker_ready: "tracker_ready demo_tracker"
proof -
  have ok: "cdb_ok demo_db" by (rule reachable_db_ok [OF demo_db_reach])
  have "genuine_conflicts demo_db" using demo_fields by (simp add: genuine_conflicts_def)
  moreover have "search_ready demo_db 0"
    using demo_fields demo_more_fields
    by (simp add: search_ready_def max_cost_def max_heap_def class_defs)
  moreover have "agenda_ok (search_agenda (cbfs_opsat demo_tracker))"
    using new_least_heap [of element_weight] by (auto simp: agenda_ok_def demo_tracker_def intro!: exI [of _ "{#}"])
  moreover have "\<not> is_state demo_db a" if "legal demo_db a" for a
    using that demo_fields by (simp add: legal_def is_state_def class_defs)
  ultimately show ?thesis
    using ok demo_more_fields
    by (simp add: tracker_ready_def demo_tracker_def seeds_of_def start_candidates_def proper_candidate_def
        trajectories_cover_def max_heap_def)
qed

lemma demo_rounds: "search_rounds demo_tracker < 12"
  by (simp add: search_rounds_def demo_tracker_def)

lemma demo_system: "cbfs_db demo_tracker = demo_db" "seeds_of demo_tracker = [[]]" "number_tracked demo_tracker = 5"
  "cutoff_weight (cbfs_opsat demo_tracker) = 100" "max_candidates (cbfs_opsat demo_tracker) = 10"
  "empty_element_weight (search_agenda (cbfs_opsat demo_tracker)) = 0"
  by (simp_all add: demo_tracker_def seeds_of_def start_candidates_def demo_more_fields)

lemma demo_extended:
  obtains t' where "extend_candidates 12 demo_tracker = Inr t'" "extended demo_tracker t'"
  using extend_candidates_ok [OF demo_tracker_ready demo_rounds] by (auto simp: returns_iff)

text \<open>The defaults are a diagnosis.\<close>

lemma demo_diagnosis: "is_diagnosis demo_db {}"
proof -
  have act: "active (solver demo_db) \<subseteq> {0, 1, 2}"
    by (auto simp: active_def demo_db_eq flag_eval)
  have lits: "clause_lits (cheap (solver demo_db) 0) = [(1, True), (0, True)]"
    "clause_lits (cheap (solver demo_db) 1) = [(0, False), (1, False)]"
    by (simp_all add: demo_db_eq clause_lits_def upt_rec)
  have datum: "clause_is_assumption demo_db (cheap (solver demo_db) 2)"
    by (simp add: clause_is_assumption_def datum_class_def demo_db_eq class_defs no_variable_def no_assignment_def)
  have obs: "observed_formula demo_db \<subseteq> {{(1, True), (0, True)}, {(0, False), (1, False)}}"
  proof
    fix C
    assume "C \<in> observed_formula demo_db"
    then obtain c where c: "c \<in> active (solver demo_db)" "C = set (clause_lits (cheap (solver demo_db) c))"
      "\<not> clause_is_assumption demo_db (cheap (solver demo_db) c)" by (auto simp: observed_formula_def)
    then have "c = 0 \<or> c = 1" using act datum by auto
    then show "C \<in> {{(1, True), (0, True)}, {(0, False), (1, False)}}" using c(2) lits by auto
  qed
  have com: "completed demo_db {} = {0}" using demo_fields by (auto simp: completed_def demo_db_eq)
  have "prop_of demo_db 0 = 1" using demo_fields by (simp add: prop_of_def)
  then have "models (\<lambda>p. p = 1) (observed_formula demo_db \<union> asserts demo_db (completed demo_db {}))"
    using com by (auto simp: models_def asserts_def holds_def dest!: subsetD [OF obs])
  then show ?thesis by (auto simp: is_diagnosis_def)
qed

text \<open>So the search makes one round at most, and finds the defaults.\<close>

lemma demo_one_round:
  assumes "((space.round demo_db) ^^ k) (start_agenda [[]], []) (Q, F)"
  shows "k \<le> 1"
proof (rule ccontr)
  assume "\<not> k \<le> 1"
  then have "k = Suc (Suc (k - 2))" by simp
  then have "((space.round demo_db) ^^ Suc (Suc (k - 2))) (start_agenda [[]], []) (Q, F)" using assms by (rule subst)
  then obtain y z where r: "space.round demo_db (start_agenda [[]], []) y" "space.round demo_db y z"
    by (blast dest: relpowp_Suc_D2)
  have start: "e = ([], None, [])" if "space.cheapest demo_db e (start_agenda [[]])" for e
    using that by (simp add: space.cheapest_def start_agenda_def)
  from r(1) have "fst y = {#}"
  proof (cases rule: space.round.cases)
    case (round_found e)
    then show ?thesis using start [of e] by (simp add: space.sibling_of.simps space.first_element_def start_agenda_def)
  next
    case (round_conflict e as)
    then show ?thesis using demo_diagnosis start [of e] by (force simp: space.resolving_def)
  qed
  with r(2) show False by (cases rule: space.round.cases) (auto simp: space.cheapest_def)
qed

lemma demo_considered:
  assumes "extended demo_tracker t'"
  shows "candidates_considered (cbfs_opsat t') \<le> 10"
proof -
  obtain Q F where "searching demo_db [[]] t' Q F"
    using extendedD(9) [OF assms demo_tracker_ready] by (auto simp: demo_system)
  then have "unat (candidates_considered (cbfs_opsat t')) \<le> 1"
    using demo_one_round by (auto simp: searching_def)
  then show ?thesis by (simp add: word_le_nat_alt)
qed


subsection \<open>Properties of the search\<close>

lemma search_nonempty:
  assumes "tracker_ready t" "search_rounds t < n" "extend_candidates n t = Inr t'"
    and "is_diagnosis (cbfs_db t) S" "\<exists>C \<in> set (seeds_of t). set C \<subseteq> S"
    and "number_tracked t \<noteq> 0" "candidates_considered (cbfs_opsat t') \<le> max_candidates (cbfs_opsat t)"
    and "cutoff_weight (cbfs_opsat t) = 0 \<or> unat (empty_element_weight (search_agenda (cbfs_opsat t))) +
      (\<Sum>a\<in>S. unat (weight (aheap (cbfs_db t) a))) \<le> unat (cutoff_weight (cbfs_opsat t))"
  shows "candidates (cbfs_db t') \<noteq> []"
proof
  assume none: "candidates (cbfs_db t') = []"
  have e: "extended t t'" using extend_candidates_ok [OF assms(1,2)] assms(3) by simp
  have W: "space.extends (seeds_of t) S" using assms(5) by (simp add: space.extends_def)
  have mx: "max_candidates (cbfs_opsat t') = max_candidates (cbfs_opsat t)"
    "cutoff_weight (cbfs_opsat t') = cutoff_weight (cbfs_opsat t)" "maxClassCount t' = maxClassCount t"
    using e by (simp_all add: extended_def)
  note x = extended_diagnosis [OF e assms(1,4) W, unfolded none, simplified]
  obtain Q F where s: "searching (cbfs_db t) (seeds_of t) t' Q F"
    using extendedD(9) [OF e assms(1)] by blast
  then have "heap_sim (cbfs_db t) (search_agenda (cbfs_opsat t')) Q"
    "search_ready (cbfs_db t) (empty_element_weight (search_agenda (cbfs_opsat t')))"
    by (simp_all add: searching_def search_sim_def)
  from terminate_search_spec [OF this] obtain st where st: "terminate_search (cbfs_opsat t') = Inr st"
    "st = MAX_OVERRUN \<longrightarrow> candidates_considered (cbfs_opsat t') > max_candidates (cbfs_opsat t')"
    by (auto simp: returns_iff)
  have "st \<noteq> SEARCH_CONTINUE"
    using e none assms(6) st(1) extendedD(10) [OF e assms(1) none]
    by (auto simp: extended_def find_ends_def unat_eq_zero)
  moreover have "st \<noteq> MAX_OVERRUN" using st(2) assms(7) mx by auto
  moreover have "cutoff_weight (cbfs_opsat t) \<noteq> 0" if "st = WEIGHT_CUTOFF"
    using st(1) that mx by (auto simp: terminate_search_def split: if_splits)
  ultimately show False using x st(1) assms(8) by (cases st) auto
qed

lemma demo_candidate:
  assumes "extend_candidates 12 demo_tracker = Inr t'"
  shows "candidates_considered (cbfs_opsat t') \<le> 10"
  using demo_considered extend_candidates_ok [OF demo_tracker_ready demo_rounds] assms by simp

lemma demo_nonempty:
  assumes "extend_candidates 12 demo_tracker = Inr t'"
  obtains c cs where "candidates (cbfs_db t') = c # cs"
  using search_nonempty [OF demo_tracker_ready demo_rounds assms, of "{}"] demo_candidate [OF assms] demo_diagnosis
  by (auto simp: demo_system neq_Nil_conv)

text \<open>
  C20. The search of the code is best-first search: after a search that considered \<open>k\<close> candidates the
  binary heap holds an agenda that \<open>k\<close> rounds of the abstract search reach from the start
  candidates; the candidates of the database are among those found on the way, in that order, and
  each one found and dropped contains, apart from the state variable, one that was kept.
\<close>

theorem search_refines_best_first:
  assumes "tracker_ready t" "search_rounds t < n" "extend_candidates n t = Inr t'"
  shows "\<exists>Q F. ((space.round (cbfs_db t)) ^^ unat (candidates_considered (cbfs_opsat t'))) (start_agenda (seeds_of t), []) (Q, F) \<and>
    heap_sim (cbfs_db t) (search_agenda (cbfs_opsat t')) Q \<and>
    subseq (map (contents t') (candidates (cbfs_db t'))) F \<and>
    (\<forall>C \<in> set F. \<exists>c \<in> set (candidates (cbfs_db t')). \<forall>a \<in> set (contents t' c). \<not> is_state (cbfs_db t) a \<longrightarrow> a \<in> set C)"
proof -
  have e: "extended t t'" using extend_candidates_ok [OF assms(1,2)] assms(3) by simp
  obtain Q F where "searching (cbfs_db t) (seeds_of t) t' Q F" "kept_of (cbfs_db t) t' (candidates (cbfs_db t')) F"
    using extendedD(9) [OF e assms(1)] by blast
  then show ?thesis
    by (intro exI [of _ Q] exI [of _ F]) (simp add: searching_def search_sim_def kept_of_def contains_rest_def)
qed

theorem search_refines_best_first_witness:
  "\<exists>t' Q. extend_candidates 12 demo_tracker = Inr t' \<and> heap_sim demo_db (search_agenda (cbfs_opsat t')) Q"
  using demo_extended search_refines_best_first [OF demo_tracker_ready demo_rounds] demo_system(1) by metis

text \<open>
  C23. A search returns: with fuel above its limit on candidates, \<open>extend_candidates\<close> gives a
  well-formed database, after considering at most one candidate more than the limit
  (\<open>terminate_search\<close> tests \<open>>\<close>), and it ends because the number of candidates is reached, because
  the agenda, the limit or the weight cutoff says so, or at the limit on classes.
\<close>

theorem extend_candidates_terminates:
  assumes "tracker_ready t" "search_rounds t < n"
  shows "\<exists>t'. extend_candidates n t = Inr t' \<and> cdb_ok (cbfs_db t') \<and>
    unat (candidates_considered (cbfs_opsat t')) \<le> unat (max_candidates (cbfs_opsat t)) + 1 \<and>
    length (candidates (cbfs_db t')) \<le> unat (number_tracked t) \<and>
    (length (candidates (cbfs_db t')) = unat (number_tracked t) \<or> search_termination_of t' \<noteq> Inr SEARCH_CONTINUE \<or>
     (maxClassCount t > 0 \<and> of_nat (length (candidatePartition t')) \<ge> maxClassCount t))"
proof -
  obtain t' where t': "extend_candidates n t = Inr t'" "extended t t'"
    using extend_candidates_ok [OF assms] by (auto simp: returns_iff)
  note d = extendedD(1,4,5) [OF t'(2) assms(1)]
  have "find_ends (number_tracked t) (candidates (cbfs_db t')) t'" "maxClassCount t' = maxClassCount t"
    using t'(2) by (simp_all add: extended_def)
  then show ?thesis using t'(1) d by (auto simp: find_ends_def search_termination_of_def search_rounds_def)
qed

theorem extend_candidates_terminates_witness:
  "\<exists>t'. extend_candidates 12 demo_tracker = Inr t' \<and> length (candidates (cbfs_db t')) \<le> 5"
  using extend_candidates_terminates [OF demo_tracker_ready demo_rounds] demo_system(3) by auto

text \<open>
  C22. The candidates of a search assign each registered assumption at most one value, pass unit
  propagation together with the defaults of the other assumptions, and come in the order of their
  weights.
\<close>

theorem found_candidates_consistent:
  assumes "tracker_ready t" "search_rounds t < n" "extend_candidates n t = Inr t'"
  shows "(\<forall>c \<in> set (candidates (cbfs_db t')). proper_candidate (cbfs_db t) (contents t' c) \<and>
      \<not> up_conflict (observed_formula (cbfs_db t) \<union>
        asserts (cbfs_db t) (completed (cbfs_db t) (set (contents t' c))))) \<and>
    sorted (map (\<lambda>c. \<Sum>a\<leftarrow>contents t' c. unat (weight (aheap (cbfs_db t) a))) (candidates (cbfs_db t')))"
proof -
  have "extended t t'" using extend_candidates_ok [OF assms(1,2)] assms(3) by simp
  note d = extendedD(6-8) [OF this assms(1)]
  then show ?thesis by (auto simp: passes_def space.total_def)
qed

theorem found_candidates_consistent_witness:
  "\<exists>t'. extend_candidates 12 demo_tracker = Inr t' \<and>
     (\<forall>c \<in> set (candidates (cbfs_db t')). proper_candidate demo_db (contents t' c))"
  using demo_extended found_candidates_consistent [OF demo_tracker_ready demo_rounds] demo_system(1) by metis

text \<open>
  C21. Best-first search: the first candidate is no more expensive than any diagnosis that extends a
  candidate the search started from (any diagnosis at all, when it started from the empty candidate).
\<close>

theorem first_candidate_cheapest:
  assumes "tracker_ready t" "search_rounds t < n" "extend_candidates n t = Inr t'"
    and "candidates (cbfs_db t') = c # cs"
    and "is_diagnosis (cbfs_db t) S" "\<exists>C \<in> set (seeds_of t). set C \<subseteq> S"
  shows "(\<Sum>a\<leftarrow>contents t' c. unat (weight (aheap (cbfs_db t) a))) \<le> (\<Sum>a\<in>S. unat (weight (aheap (cbfs_db t) a)))"
proof -
  let ?db = "cbfs_db t"
  have e: "extended t t'" using extend_candidates_ok [OF assms(1,2)] assms(3) by simp
  obtain Q F where s: "searching ?db (seeds_of t) t' Q F" "kept_of ?db t' (candidates (cbfs_db t')) F"
    using extendedD(9) [OF e assms(1)] by blast
  have ok: "space.search_ok ?db (space.extends (seeds_of t)) Q F"
    using searching_ok [OF s(1)] assms(1) by (simp add: tracker_ready_def)
  have "F \<noteq> []" using s(2) assms(4) by (auto simp: kept_of_def dest: list_emb_Nil2)
  then have hd: "hd F = contents t' c" "hd F \<in> set F" using s(2) assms(4) by (auto simp: kept_of_def)
  have first: "space.total ?db (hd F) \<le> space.total ?db C" if "C \<in> set F" for C
    using ok that by (cases F) (auto simp: space.search_ok_def)
  have W: "space.extends (seeds_of t) S" using assms(6) by (simp add: space.extends_def)
  have cost: "space.total ?db C \<le> (\<Sum>a\<in>S. unat (weight (aheap ?db a)))" if C: "C \<in> set F" "set C \<subseteq> S" for C
  proof -
    have "proper_candidate ?db C" using s(2) C(1) by (simp add: kept_of_def)
    then have "distinct C" by (simp add: proper_candidate_def distinct_map)
    then have "space.total ?db C = (\<Sum>a\<in>set C. unat (weight (aheap ?db a)))"
      by (simp add: space.total_def sum_list_distinct_conv_sum_set)
    then show ?thesis using C(2) assms(5) by (simp add: is_diagnosis_def sum_mono2)
  qed
  consider C where "C \<in> set F" "set C \<subseteq> S"
    | x where "x \<in># Q" "space.total ?db (candidate_of x) \<le> (\<Sum>a\<in>S. unat (weight (aheap ?db a)))"
    using space.search_optimal [OF ok assms(5) W] by blast
  then have "space.total ?db (hd F) \<le> (\<Sum>a\<in>S. unat (weight (aheap ?db a)))"
  proof cases
    case 1
    then show ?thesis using first cost by (meson order.trans)
  next
    case 2
    have "space.total ?db (hd F) \<le> space.total ?db (candidate_of x)"
      using ok 2(1) hd(2) by (simp add: space.search_ok_def)
    then show ?thesis using 2(2) by simp
  qed
  then show ?thesis by (simp add: hd(1) space.total_def)
qed

theorem first_candidate_cheapest_witness:
  "\<exists>t' c cs. extend_candidates 12 demo_tracker = Inr t' \<and> candidates (cbfs_db t') = c # cs \<and>
     (\<Sum>a\<leftarrow>contents t' c. unat (weight (aheap demo_db a))) = 0"
proof -
  obtain t' where t': "extend_candidates 12 demo_tracker = Inr t'" by (rule demo_extended)
  obtain c cs where c: "candidates (cbfs_db t') = c # cs" by (rule demo_nonempty [OF t'])
  show ?thesis
    using first_candidate_cheapest [OF demo_tracker_ready demo_rounds t' c, of "{}"] t' c
    by (simp add: demo_system demo_diagnosis)
qed

text \<open>
  C24. A search that comes back with nothing had no diagnosis to find: if it may keep a candidate,
  did not use up its limit, and some diagnosis that extends a start candidate is within the weight
  cutoff, then it finds a candidate.
\<close>

theorem search_finds_candidate:
  assumes "tracker_ready t" "search_rounds t < n" "extend_candidates n t = Inr t'"
    and "is_diagnosis (cbfs_db t) S" "\<exists>C \<in> set (seeds_of t). set C \<subseteq> S"
    and "number_tracked t \<noteq> 0" "candidates_considered (cbfs_opsat t') \<le> max_candidates (cbfs_opsat t)"
    and "cutoff_weight (cbfs_opsat t) = 0 \<or> unat (empty_element_weight (search_agenda (cbfs_opsat t))) +
      (\<Sum>a\<in>S. unat (weight (aheap (cbfs_db t) a))) \<le> unat (cutoff_weight (cbfs_opsat t))"
  shows "candidates (cbfs_db t') \<noteq> []"
  using search_nonempty [OF assms] .

theorem search_finds_candidate_witness:
  "\<exists>t'. extend_candidates 12 demo_tracker = Inr t' \<and> candidates (cbfs_db t') \<noteq> []"
proof -
  obtain t' where t': "extend_candidates 12 demo_tracker = Inr t'" by (rule demo_extended)
  have "candidates (cbfs_db t') \<noteq> []"
    using search_finds_candidate [OF demo_tracker_ready demo_rounds t', of "{}"] demo_candidate [OF t']
    by (simp add: demo_system demo_diagnosis)
  then show ?thesis using t' by blast
qed

end
