(* ===== verification/T_System_Properties.thy ===== *)
theory T_System_Properties
  imports Tracker_Properties
begin

text \<open>
  The properties of pruning, of the classes of candidates, and of the transition system, and the
  behaviours of it that differ from what the comments say.
\<close>

subsection \<open>Pruning\<close>

text \<open>
  C25. \<open>prune_inconsistent_candidates\<close> returns and keeps, in their order, exactly the candidates that
  pass unit propagation with the defaults of the other assumptions; the database stays well-formed.
\<close>

theorem prune_keeps_consistent:
  assumes "cdb_ok (ts_db ts)" "genuine_conflicts (ts_db ts)" "registered (ts_db ts)"
    and "\<forall>c \<in> set (candidates (ts_db ts)). proper_candidate (ts_db ts) (cand_assignments (candheap (ts_db ts) c))"
  shows "\<exists>ts'. prune_inconsistent_candidates ts = Inr ts' \<and> cdb_ok (ts_db ts') \<and>
    candheap (ts_db ts') = candheap (ts_db ts) \<and>
    candidates (ts_db ts') = filter (\<lambda>c. \<not> up_conflict (observed_formula (ts_db ts) \<union> asserts (ts_db ts)
      (completed (ts_db ts) (set (cand_assignments (candheap (ts_db ts) c)))))) (candidates (ts_db ts))"
proof -
  obtain cs db where p: "prune_candidates (timestep ts) (candidates (ts_db ts)) (ts_db ts) = Inr (cs, db)"
    "cs = filter (\<lambda>c. passes (ts_db ts) (cand_assignments (candheap (ts_db ts) c))) (candidates (ts_db ts))"
    "cdb_ok db" "candheap db = candheap (ts_db ts)"
    using prune_candidates_ok [OF assms(1) _ assms(2-4), of "timestep ts"] by (auto simp: returns_iff)
  have "cdb_ok (db\<lparr>candidates := cs\<rparr>)" using candidates_only_inv [OF candidates_only_field p(3)] .
  then show ?thesis using p by (auto simp: prune_inconsistent_candidates_def passes_def)
qed

definition demo_with_candidate :: t_system where
  "demo_with_candidate = (new_t_system 1 5 False)\<lparr>ts_db := (snd (new_candidate demo_db))\<lparr>candidates := [0]\<rparr>\<rparr>"

lemma demo_candidate_db:
  "candidates_only demo_db (ts_db demo_with_candidate)" "candidates (ts_db demo_with_candidate) = [0]"
  "cand_assignments (candheap (ts_db demo_with_candidate) 0) = []"
proof -
  have "next_candidate demo_db = 0" by (simp add: demo_db_eq)
  then show "candidates_only demo_db (ts_db demo_with_candidate)" "candidates (ts_db demo_with_candidate) = [0]"
    "cand_assignments (candheap (ts_db demo_with_candidate) 0) = []"
    by (simp_all add: demo_with_candidate_def new_candidate_def Let_def candidates_only_def no_candidates_def upd_candidate_def)
qed

theorem prune_keeps_consistent_witness:
  "\<exists>ts'. prune_inconsistent_candidates demo_with_candidate = Inr ts' \<and> candidates (ts_db ts') = [0]"
proof -
  let ?db = "ts_db demo_with_candidate"
  note sp = candidates_only_space [OF demo_candidate_db(1)]
  have ok: "cdb_ok ?db" by (rule candidates_only_inv [OF demo_candidate_db(1) reachable_db_ok [OF demo_db_reach]])
  have gen: "genuine_conflicts ?db" using demo_fields sp(3) by (simp add: genuine_conflicts_def)
  have reg: "registered ?db" using demo_fields sp(1) by (simp add: registered_def same_space_def)
  have "is_diagnosis ?db {}" using demo_diagnosis same_spaceD(7) [OF sp(1)] by simp
  then obtain m where "models m (observed_formula ?db \<union> asserts ?db (completed ?db {}))" by (auto simp: is_diagnosis_def)
  then have "\<not> up_conflict (observed_formula ?db \<union> asserts ?db (completed ?db {}))" by (auto dest: up_conflict_unsat)
  then show ?thesis using prune_keeps_consistent [OF ok gen reg] demo_candidate_db by (auto simp: proper_candidate_def)
qed

subsection \<open>Classes of candidates\<close>

text \<open>Every class is not empty, and every member resembles the members before it.\<close>

definition class_ok :: "t_system \<Rightarrow> candidate_class \<Rightarrow> bool" where
  "class_ok ts cls \<longleftrightarrow> cls \<noteq> [] \<and> (\<forall>j < length cls. \<forall>i < j. \<exists>x y. createTriples ts (cls ! j) = Inr x \<and>
     createTriples ts (cls ! i) = Inr y \<and> isEquivalent x y)"

lemma belongs_loop_True:
  "belongs_loop ts ct cls = Inr True \<Longrightarrow> d \<in> set cls \<Longrightarrow> \<exists>y. createTriples ts d = Inr y \<and> isEquivalent ct y"
  by (induction cls) (auto simp: rbind_def split: sum.splits if_splits)

lemma class_ok_add:
  assumes "class_ok ts cls" "belongs ts cls c = Inr True" "c \<notin> set cls"
  shows "class_ok ts (cls @ [c])"
proof -
  obtain ct where ct: "createTriples ts c = Inr ct" "belongs_loop ts ct cls = Inr True"
    using assms(2) by (auto simp: belongs_def rbind_def split: sum.splits)
  show ?thesis
    unfolding class_ok_def
  proof (intro conjI allI impI)
    fix j i
    assume "j < length (cls @ [c])" "i < j"
    then consider "j < length cls" | "j = length cls" "i < length cls" by fastforce
    then show "\<exists>x y. createTriples ts ((cls @ [c]) ! j) = Inr x \<and> createTriples ts ((cls @ [c]) ! i) = Inr y \<and> isEquivalent x y"
    proof cases
      case 1
      then show ?thesis using assms(1) \<open>i < j\<close> by (auto simp: class_ok_def nth_append)
    next
      case 2
      then show ?thesis using belongs_loop_True [OF ct(2), of "cls ! i"] ct(1) by (simp add: nth_append)
    qed
  qed simp
qed

lemma equivalenceClassIndex_spec:
  "equivalenceClassIndex ts classes c = Inr i \<Longrightarrow>
   i \<le> length classes \<and> (i < length classes \<longrightarrow> belongs ts (classes ! i) c = Inr True)"
  by (induction classes arbitrary: i) (auto simp: rbind_def split: sum.splits if_splits)

lemma put_in_class_spec:
  assumes "equivalenceClassIndex ts classes c = Inr i" "\<forall>cls \<in> set classes. class_ok ts cls" "c \<notin> set (concat classes)"
  shows "mset (concat (put_in_class i c classes)) = add_mset c (mset (concat classes))"
    "\<forall>cls \<in> set (put_in_class i c classes). class_ok ts cls"
proof -
  note i = equivalenceClassIndex_spec [OF assms(1)]
  have new: "class_ok ts (new_class c)" by (simp add: class_ok_def new_class_def class_add_def class_contains_def)
  show "mset (concat (put_in_class i c classes)) = add_mset c (mset (concat classes))"
  proof (cases "i < length classes")
    case True
    have "c \<notin> set (classes ! i)" using assms(3) nth_mem [OF True] by auto
    then have "snd (class_add c (classes ! i)) = classes ! i @ [c]"
      by (auto simp: class_add_def class_contains_def list_ex_iff)
    moreover have "classes = take i classes @ classes ! i # drop (Suc i) classes" using id_take_nth_drop [OF True] .
    then have "mset (concat classes) = mset (concat (take i classes)) + mset (classes ! i) + mset (concat (drop (Suc i) classes))"
      by (metis concat.simps(2) concat_append mset_append union_assoc)
    ultimately show ?thesis using True by (simp add: put_in_class_def upd_conv_take_nth_drop)
  next
    case False
    then show ?thesis by (simp add: put_in_class_def new_class_def class_add_def class_contains_def)
  qed
  show "\<forall>cls \<in> set (put_in_class i c classes). class_ok ts cls"
  proof (cases "i < length classes")
    case True
    have "c \<notin> set (classes ! i)" using assms(3) nth_mem [OF True] by auto
    then have "class_ok ts (snd (class_add c (classes ! i)))"
      using class_ok_add [of ts "classes ! i" c] assms(2) i True
      by (auto simp: class_add_def class_contains_def list_ex_iff)
    then show ?thesis using assms(2) True by (auto simp: put_in_class_def dest!: set_update_subset_insert [THEN subsetD])
  qed (use assms(2) new in \<open>auto simp: put_in_class_def\<close>)
qed

lemma partition_loop:
  "rfold (\<lambda>c classes. rbind (equivalenceClassIndex ts classes c) (\<lambda>i. Inr (put_in_class i c classes))) cs classes = Inr classes' \<Longrightarrow>
   distinct cs \<Longrightarrow> set cs \<inter> set (concat classes) = {} \<Longrightarrow> \<forall>cls \<in> set classes. class_ok ts cls \<Longrightarrow>
   mset (concat classes') = mset cs + mset (concat classes) \<and> (\<forall>cls \<in> set classes'. class_ok ts cls)"
proof (induction cs arbitrary: classes)
  case (Cons c cs)
  obtain i where i: "equivalenceClassIndex ts classes c = Inr i"
    "rfold (\<lambda>c classes. rbind (equivalenceClassIndex ts classes c) (\<lambda>i. Inr (put_in_class i c classes))) cs
       (put_in_class i c classes) = Inr classes'"
    using Cons.prems(1) by (auto simp: rbind_def split: sum.splits)
  have "c \<notin> set (concat classes)" using Cons.prems(3) by auto
  note p = put_in_class_spec [OF i(1) Cons.prems(4) this]
  have "set (concat (put_in_class i c classes)) = insert c (set (concat classes))"
    using p(1) by (metis set_mset_add_mset_insert set_mset_mset)
  then have "set cs \<inter> set (concat (put_in_class i c classes)) = {}" using Cons.prems(2,3) by auto
  from Cons.IH [OF i(2) _ this p(2)] show ?case using Cons.prems(2) p(1) by simp
qed simp

text \<open>
  C26. \<open>partition\<close> sorts the candidates into classes: every candidate is in exactly one class, once; no
  class is empty; and each member of a class is, by its events, equivalent to every member before it.
\<close>

theorem partition_splits_candidates:
  assumes "distinct (candidates (cbfs_db t))" "partition_candidates t = Inr t'"
  shows "mset (concat (candidatePartition t')) = mset (candidates (cbfs_db t)) \<and>
    (\<forall>cls \<in> set (candidatePartition t'). class_ok (cbfs_system t) cls)"
  using partition_loop [of "cbfs_system t" "candidates (cbfs_db t)" "[]"] assms
  by (auto simp: partition_candidates_def rbind_def split: sum.splits)

theorem partition_splits_candidates_witness:
  "\<exists>t'. partition_candidates (demo_tracker\<lparr>cbfs_system := demo_with_candidate\<rparr>) = Inr t' \<and> concat (candidatePartition t') = [0]"
proof -
  let ?t = "demo_tracker\<lparr>cbfs_system := demo_with_candidate\<rparr>"
  obtain t' where t': "partition_candidates ?t = Inr t'"
    using demo_candidate_db(2) by (auto simp: partition_candidates_def)
  then show ?thesis
    using partition_splits_candidates [OF _ t'] demo_candidate_db(2) by auto
qed

text \<open>The relation between candidates by their events is not symmetric.\<close>

theorem equivalence_not_symmetric:
  "\<exists>ct1 ct2. isEquivalent ct1 ct2 \<and> \<not> isEquivalent ct2 ct1"
proof -
  let ?t = "\<lambda>i k. \<lparr>variableID = i, timeStep = k, valueIndex = 0\<rparr> :: triple"
  have "isEquivalent [?t 1 0, ?t 1 1] [?t 1 0, ?t 2 0] \<and> \<not> isEquivalent [?t 1 0, ?t 2 0] [?t 1 0, ?t 1 1]"
    by (simp add: isEquivalent_def same_event_def)
  then show ?thesis by blast
qed

subsection \<open>The sort of the state variable's values\<close>

lemma scan_values_last:
  "j + n = length as \<Longrightarrow> scan_values w 0 n j m as = Inr (if n = 0 then m else length as - 1)"
  by (induction n arbitrary: j m) (auto simp: l2_assert_def)

lemma sort_values_id: "sort_values w (length as) as vals = Inr (as @ vals)"
proof (induction as arbitrary: vals rule: rev_induct)
  case (snoc a as)
  have "scan_values w 0 (Suc (length as)) 0 0 (as @ [a]) = Inr (length as)"
    using scan_values_last [of 0 "Suc (length as)" "as @ [a]" w 0] by simp
  then show ?case using snoc by simp
qed simp

text \<open>
  The sort at the end of \<open>install_new_state\<close> gives back the values of the state variable as they
  are, whatever their weights: the greatest weight so far is never updated, so the last value is
  always taken for the heaviest.
\<close>

theorem sort_leaves_order:
  "sort_values (\<lambda>a. weight (aheap db a)) (length (v_assignments (vheap db v))) (v_assignments (vheap db v)) [] =
     Inr (v_assignments (vheap db v))"
  using sort_values_id [of _ _ "[]"] by simp

subsection \<open>Forgetting the newest conflicts\<close>

text \<open>
  \<open>deleteNewestConflicts\<close> takes a conflict off the list but not out of its assignments, so the
  database is no longer well-formed: the assignments stay linked to a conflict that is not recorded.
\<close>

theorem deleted_conflicts_stay_linked:
  assumes "cdb_ok (ts_db ts)" "k \<in> set (conflicts (ts_db ts))" "conflict_tag (kheap (ts_db ts) k) = timestep ts"
    and "a \<in> set (conflict_assignments (kheap (ts_db ts) k))"
  shows "k \<notin> set (conflicts (ts_db (deleteNewestConflicts ts))) \<and>
    k \<in> set (a_conflicts (aheap (ts_db (deleteNewestConflicts ts)) a)) \<and> \<not> cdb_ok (ts_db (deleteNewestConflicts ts))"
proof -
  let ?db = "ts_db (deleteNewestConflicts ts)"
  have co: "conflicts_ok (ts_db ts)" by (rule cdb_invD(5) [OF assms(1)])
  then have v: "valid_assignment (ts_db ts) a" using assms(2,4) by (auto simp: conflicts_ok_def)
  have link: "k \<in> set (a_conflicts (aheap (ts_db ts) a))" using co v assms(2,4) by (auto simp: conflicts_ok_def)
  have gone: "k \<notin> set (conflicts ?db)" using assms(3) by (simp add: deleteNewestConflicts_def Let_def)
  have same: "aheap ?db = aheap (ts_db ts)" "valid_assignment ?db a = valid_assignment (ts_db ts) a"
    by (simp_all add: deleteNewestConflicts_def Let_def valid_assignment_def)
  have "\<not> cdb_ok ?db"
  proof
    assume "cdb_ok ?db"
    then have "conflicts_ok ?db" by (rule cdb_invD(5))
    then show False using v link gone same by (auto simp: conflicts_ok_def)
  qed
  then show ?thesis using link gone same(1) by simp
qed

theorem deleted_conflicts_stay_linked_witness:
  "\<exists>ts k. k \<in> set (conflicts (ts_db ts)) \<and> k \<in> set (a_conflicts (aheap (ts_db (deleteNewestConflicts ts)) 0)) \<and>
     k \<notin> set (conflicts (ts_db (deleteNewestConflicts ts)))"
proof -
  obtain k db1 where a: "add_conflict [0] 0 demo_db = (k, db1)" by (cases "add_conflict [0] 0 demo_db") auto
  have v: "valid_assignment demo_db a" if "a \<in> set [0]" for a using demo_fields that by (simp add: valid_assignment_def)
  have c: "cdb_ok db1" "k \<in> set (conflicts db1)" "conflict_assignments (kheap db1 k) = [0]" "conflict_tag (kheap db1 k) = 0"
    using add_conflict_ok [OF reachable_db_ok [OF demo_db_reach] v a] demo_fields by auto
  let ?ts = "(new_t_system 1 5 False)\<lparr>ts_db := db1\<rparr>"
  have "timestep ?ts = 0" by (simp add: new_t_system_def)
  then show ?thesis using deleted_conflicts_stay_linked [of ?ts k 0] c by (auto intro!: exI [of _ ?ts] exI [of _ k])
qed

end
