(* ===== verification/Hash_Tables.thy ===== *)
theory Hash_Tables
  imports Prelude
begin

text \<open>
  The hash tables of \<open>mba_utils/hash_table.h\<close> with the string hash of \<open>hash_table.cpp\<close>, the primality
  test of \<open>prime.h\<close> and the search in associative arrays of \<open>array_dict.h\<close>. A bucket is the linked
  list it stands for, an iterator in a bucket the number of items before it.
\<close>

subsection \<open>The table\<close>

record ('k, 'v) hash_table =
  buckets :: "('k \<times> 'v) list list"
  hash_fn :: "'k \<Rightarrow> 32 word"

record hash_iter =
  ht_index :: nat
  bucket_iter :: nat

definition default_table_size :: nat where "default_table_size = 211"

definition new_hash_table :: "('k \<Rightarrow> 32 word) \<Rightarrow> ('k, 'v) hash_table" where
  "new_hash_table h = \<lparr>buckets = replicate default_table_size [], hash_fn = h\<rparr>"

definition table_size :: "('k, 'v) hash_table \<Rightarrow> nat" where
  "table_size t = length (buckets t)"

definition bucket_of :: "('k, 'v) hash_table \<Rightarrow> 'k \<Rightarrow> nat" where
  "bucket_of t k = unat (hash_fn t k mod of_nat (table_size t))"

definition ht_empty :: "('k, 'v) hash_table \<Rightarrow> bool" where
  "ht_empty t = list_all (\<lambda>b. b = []) (buckets t)"

definition ht_size :: "('k, 'v) hash_table \<Rightarrow> nat" where
  "ht_size t = fold (\<lambda>b total. total + length b) (buckets t) 0"

definition ht_erase_all :: "('k, 'v) hash_table \<Rightarrow> ('k, 'v) hash_table" where
  "ht_erase_all t = t\<lparr>buckets := map (\<lambda>_. []) (buckets t)\<rparr>"

subsection \<open>Iterators\<close>

text \<open>The end is that of the last bucket. Iterators are equal when they point to the same item.\<close>

definition ht_end :: "('k, 'v) hash_table \<Rightarrow> hash_iter" where
  "ht_end t = \<lparr>ht_index = table_size t - 1, bucket_iter = length (buckets t ! (table_size t - 1))\<rparr>"

fun first_bucket :: "nat \<Rightarrow> ('k \<times> 'v) list list \<Rightarrow> nat option" where
  "first_bucket i [] = None"
| "first_bucket i (b # bs) = (if b \<noteq> [] then Some i else first_bucket (Suc i) bs)"

definition ht_begin :: "('k, 'v) hash_table \<Rightarrow> hash_iter" where
  "ht_begin t = (case first_bucket 0 (buckets t) of Some i \<Rightarrow> \<lparr>ht_index = i, bucket_iter = 0\<rparr> | None \<Rightarrow> ht_end t)"

text \<open>An iterator at the end of its bucket does not move within the bucket.\<close>

definition ht_next :: "('k, 'v) hash_table \<Rightarrow> hash_iter \<Rightarrow> hash_iter" where
  "ht_next t it = (let b = buckets t ! ht_index it; p = (if bucket_iter it < length b then Suc (bucket_iter it) else bucket_iter it)
     in if p = length b then
          (case first_bucket (Suc (ht_index it)) (drop (Suc (ht_index it)) (buckets t)) of
             Some i \<Rightarrow> \<lparr>ht_index = i, bucket_iter = 0\<rparr> | None \<Rightarrow> ht_end t)
        else it\<lparr>bucket_iter := p\<rparr>)"

definition ht_item :: "('k, 'v) hash_table \<Rightarrow> hash_iter \<Rightarrow> ('k \<times> 'v) res" where
  "ht_item t it = rbind (l2_assert (bucket_iter it < length (buckets t ! ht_index it)) Assert_failed)
     (\<lambda>_. Inr (buckets t ! ht_index it ! bucket_iter it))"

definition ht_value :: "('k, 'v) hash_table \<Rightarrow> hash_iter \<Rightarrow> 'v res" where
  "ht_value t it = rbind (ht_item t it) (\<lambda>(k, v). Inr v)"

definition ht_key :: "('k, 'v) hash_table \<Rightarrow> hash_iter \<Rightarrow> 'k res" where
  "ht_key t it = rbind (ht_item t it) (\<lambda>(k, v). Inr k)"

subsection \<open>Lookup, insertion and removal\<close>

fun key_position :: "'k \<Rightarrow> nat \<Rightarrow> ('k \<times> 'v) list \<Rightarrow> nat option" where
  "key_position k i [] = None"
| "key_position k i (e # es) = (if fst e = k then Some i else key_position k (Suc i) es)"

definition ht_find :: "('k, 'v) hash_table \<Rightarrow> 'k \<Rightarrow> hash_iter" where
  "ht_find t k = (let i = bucket_of t k in case key_position k 0 (buckets t ! i) of
     Some p \<Rightarrow> \<lparr>ht_index = i, bucket_iter = p\<rparr> | None \<Rightarrow> ht_end t)"

definition ht_insert_duplicate :: "'k \<Rightarrow> 'v \<Rightarrow> ('k, 'v) hash_table \<Rightarrow> hash_iter \<times> ('k, 'v) hash_table" where
  "ht_insert_duplicate k v t = (let i = bucket_of t k in
     (\<lparr>ht_index = i, bucket_iter = 0\<rparr>, t\<lparr>buckets := (buckets t)[i := (k, v) # buckets t ! i]\<rparr>))"

definition ht_insert :: "'k \<Rightarrow> 'v \<Rightarrow> ('k, 'v) hash_table \<Rightarrow> (hash_iter \<times> bool) \<times> ('k, 'v) hash_table" where
  "ht_insert k v t = (let i = bucket_of t k in case key_position k 0 (buckets t ! i) of
     Some p \<Rightarrow> ((\<lparr>ht_index = i, bucket_iter = p\<rparr>, False), t)
   | None \<Rightarrow> (case ht_insert_duplicate k v t of (it, t') \<Rightarrow> ((it, True), t')))"

text \<open>\<open>Slist::erase\<close> of the current item leaves the iterator at the item that follows.\<close>

definition ht_iter_erase :: "hash_iter \<Rightarrow> ('k, 'v) hash_table \<Rightarrow> hash_iter \<times> ('k, 'v) hash_table" where
  "ht_iter_erase it t = (let b = buckets t ! ht_index it; p = bucket_iter it;
       b' = take p b @ drop (Suc p) b; t' = t\<lparr>buckets := (buckets t)[ht_index it := b']\<rparr>
     in (if p = length b' then ht_next t' it else it, t'))"

definition ht_erase_iter :: "hash_iter \<Rightarrow> ('k, 'v) hash_table \<Rightarrow> nat \<times> hash_iter \<times> ('k, 'v) hash_table" where
  "ht_erase_iter it t = (if it \<noteq> ht_end t then (1, ht_iter_erase it t) else (0, it, t))"

definition ht_erase :: "'k \<Rightarrow> ('k, 'v) hash_table \<Rightarrow> nat \<times> ('k, 'v) hash_table" where
  "ht_erase k t = (let it = ht_find t k in if it \<noteq> ht_end t then (1, snd (ht_iter_erase it t)) else (0, t))"

subsection \<open>Hash functions\<close>

definition hash_integral_key :: "int \<Rightarrow> 32 word" where
  "hash_integral_key k = word_of_int k"

text \<open>One character of \<open>hashpjw\<close>; a \<open>char\<close> is signed.\<close>

definition pjw_step :: "8 word \<Rightarrow> 32 word \<Rightarrow> 32 word" where
  "pjw_step c h = (let h1 = push_bit 4 h + signed_take_bit 7 (ucast c); g = h1 AND 0xf0000000
     in if g \<noteq> 0 then (h1 XOR drop_bit 24 g) XOR g else h1)"

definition hashpjw :: "8 word list \<Rightarrow> 32 word" where
  "hashpjw s = fold pjw_step s 0"

subsection \<open>Primality\<close>

fun mod_exp_loop :: "nat \<Rightarrow> 32 word \<Rightarrow> 32 word \<Rightarrow> 32 word \<Rightarrow> 32 word \<Rightarrow> 32 word" where
  "mod_exp_loop 0 a b n d = d"
| "mod_exp_loop (Suc i) a b n d = (let d1 = (d * d) mod n
     in mod_exp_loop i a b n (if bit b i then (d1 * a) mod n else d1))"

text \<open>The flag runs through the 32 bits of the exponent, from the highest.\<close>

definition modular_exponentiation :: "32 word \<Rightarrow> 32 word \<Rightarrow> 32 word \<Rightarrow> 32 word res" where
  "modular_exponentiation a b n = rbind (l2_assert (n > 0) Assert_failed) (\<lambda>_. Inr (mod_exp_loop 32 a b n 1))"

definition pseudoprime :: "32 word \<Rightarrow> bool res" where
  "pseudoprime n = rbind (modular_exponentiation 2 (n - 1) n) (\<lambda>d. Inr (d = 1))"

subsection \<open>Associative arrays\<close>

text \<open>The array ends with the terminator; running past the end of the array is an error.\<close>

fun search_dict :: "('k \<times> 'e \<Rightarrow> bool) \<Rightarrow> 'e \<Rightarrow> ('k \<times> 'e) list \<Rightarrow> ('k \<times> 'e) res" where
  "search_dict hit terminator [] = Inl Bad_pointer"
| "search_dict hit terminator (x # xs) =
     (if snd x = terminator \<or> hit x then Inr x else search_dict hit terminator xs)"

definition search_dict_by_key :: "('k \<times> 'e) list \<Rightarrow> 'e \<Rightarrow> 'k \<Rightarrow> 'e res" where
  "search_dict_by_key dict terminator k = rbind (search_dict (\<lambda>x. fst x = k) terminator dict) (\<lambda>x. Inr (snd x))"

definition search_dict_by_elt :: "('k \<times> 'e) list \<Rightarrow> 'e \<Rightarrow> 'e \<Rightarrow> 'k res" where
  "search_dict_by_elt dict terminator e = rbind (search_dict (\<lambda>x. snd x = e) terminator dict) (\<lambda>x. Inr (fst x))"

end
