(* ===== verification/Hash_Table_Properties.thy ===== *)
theory Hash_Table_Properties
  imports Hash_Tables
begin

unbundle bit_operations_syntax

text \<open>
  A hash table is a finite map: the interface of a dictionary as a locale, the hash table as an
  implementation of it, and the walk over all entries by an iterator.
\<close>

subsection \<open>The interface of a dictionary\<close>

datatype ('k, 'v) dict_op = Put 'k 'v | Delete 'k | Get 'k

datatype 'v dict_answer = Done bool | Found "'v option"

fun map_op :: "('k, 'v) dict_op \<Rightarrow> ('k \<rightharpoonup> 'v) \<Rightarrow> 'v dict_answer \<times> ('k \<rightharpoonup> 'v)" where
  "map_op (Put k v) m = (Done (m k = None), if m k = None then m(k \<mapsto> v) else m)"
| "map_op (Delete k) m = (Done (m k \<noteq> None), m(k := None))"
| "map_op (Get k) m = (Found (m k), m)"

fun run_ops :: "('op \<Rightarrow> 's \<Rightarrow> 'a \<times> 's) \<Rightarrow> 'op list \<Rightarrow> 's \<Rightarrow> 'a list \<times> 's" where
  "run_ops f [] s = ([], s)"
| "run_ops f (x # xs) s = (case f x s of (a, s1) \<Rightarrow> (case run_ops f xs s1 of (as, s2) \<Rightarrow> (a # as, s2)))"

locale dictionary =
  fixes ok :: "'t \<Rightarrow> bool"
    and lookup :: "'t \<Rightarrow> 'k \<rightharpoonup> 'v"
    and put :: "'k \<Rightarrow> 'v \<Rightarrow> 't \<Rightarrow> bool \<times> 't"
    and delete :: "'k \<Rightarrow> 't \<Rightarrow> bool \<times> 't"
  assumes put_law: "ok t \<Longrightarrow> put k v t = (b, t') \<Longrightarrow>
      ok t' \<and> b = (lookup t k = None) \<and> lookup t' = (if b then (lookup t)(k \<mapsto> v) else lookup t)"
    and delete_law: "ok t \<Longrightarrow> delete k t = (b, t') \<Longrightarrow>
      ok t' \<and> b = (lookup t k \<noteq> None) \<and> lookup t' = (lookup t)(k := None)"
begin

fun dict_step :: "('k, 'v) dict_op \<Rightarrow> 't \<Rightarrow> 'v dict_answer \<times> 't" where
  "dict_step (Put k v) t = (case put k v t of (b, t') \<Rightarrow> (Done b, t'))"
| "dict_step (Delete k) t = (case delete k t of (b, t') \<Rightarrow> (Done b, t'))"
| "dict_step (Get k) t = (Found (lookup t k), t)"

lemma step_refines:
  assumes "ok t" "dict_step x t = (a, t')"
  shows "ok t' \<and> map_op x (lookup t) = (a, lookup t')"
proof (cases x)
  case (Put k v)
  obtain b t1 where r: "put k v t = (b, t1)" by (cases "put k v t")
  then show ?thesis using put_law [OF assms(1) r] assms(2) Put by simp
next
  case (Delete k)
  obtain b t1 where r: "delete k t = (b, t1)" by (cases "delete k t")
  then show ?thesis using delete_law [OF assms(1) r] assms(2) Delete by simp
next
  case (Get k)
  then show ?thesis using assms by auto
qed

lemma run_refines:
  "ok t \<Longrightarrow> run_ops dict_step xs t = (as, t') \<Longrightarrow> ok t' \<and> run_ops map_op xs (lookup t) = (as, lookup t')"
proof (induction xs arbitrary: t as t')
  case (Cons x xs)
  obtain a t1 where s: "dict_step x t = (a, t1)" by (cases "dict_step x t")
  obtain bs t2 where r: "run_ops dict_step xs t1 = (bs, t2)" by (cases "run_ops dict_step xs t1")
  show ?case using Cons.IH [OF _ r] step_refines [OF Cons.prems(1) s] Cons.prems(2) s r by auto
qed simp

end

subsection \<open>The hash table as a dictionary\<close>

text \<open>Every entry is in the bucket of its key, and a bucket has no key twice.\<close>

definition hash_ok :: "('k, 'v) hash_table \<Rightarrow> bool" where
  "hash_ok t \<longleftrightarrow> 0 < table_size t \<and> table_size t < 2 ^ 32 \<and>
     (\<forall>i < table_size t. distinct (map fst (buckets t ! i)) \<and> (\<forall>e \<in> set (buckets t ! i). bucket_of t (fst e) = i))"

definition ht_map :: "('k, 'v) hash_table \<Rightarrow> 'k \<rightharpoonup> 'v" where
  "ht_map t k = map_of (buckets t ! bucket_of t k) k"

text \<open>What a client does to look up a key: \<open>find\<close>, then compare with \<open>end\<close>.\<close>

definition ht_lookup :: "('k, 'v) hash_table \<Rightarrow> 'k \<rightharpoonup> 'v" where
  "ht_lookup t k = (if ht_find t k = ht_end t then None
     else case ht_value t (ht_find t k) of Inl e \<Rightarrow> None | Inr v \<Rightarrow> Some v)"

definition ht_put :: "'k \<Rightarrow> 'v \<Rightarrow> ('k, 'v) hash_table \<Rightarrow> bool \<times> ('k, 'v) hash_table" where
  "ht_put k v t = (case ht_insert k v t of ((it, b), t') \<Rightarrow> (b, t'))"

definition ht_delete :: "'k \<Rightarrow> ('k, 'v) hash_table \<Rightarrow> bool \<times> ('k, 'v) hash_table" where
  "ht_delete k t = (case ht_erase k t of (n, t') \<Rightarrow> (n = 1, t'))"

lemma bucket_of_less: "0 < table_size t \<Longrightarrow> table_size t < 2 ^ 32 \<Longrightarrow> bucket_of t k < table_size t"
  by (simp add: bucket_of_def unat_mod unat_of_nat take_bit_nat_eq_self)

lemma key_position_spec:
  "case key_position k i es of None \<Rightarrow> map_of es k = None
   | Some p \<Rightarrow> i \<le> p \<and> p - i < length es \<and> fst (es ! (p - i)) = k \<and> map_of es k = Some (snd (es ! (p - i)))"
proof (induction es arbitrary: i)
  case (Cons e es)
  show ?case
  proof (cases "key_position k (Suc i) es")
    case None
    then show ?thesis using Cons.IH [of "Suc i"] by (cases e) auto
  next
    case (Some p)
    then have "Suc i \<le> p" using Cons.IH [of "Suc i"] by simp
    then have "p - i = Suc (p - Suc i)" by simp
    then show ?thesis using Cons.IH [of "Suc i"] Some by (cases e) auto
  qed
qed simp

lemma find_spec:
  assumes "hash_ok t"
  shows "(ht_find t k = ht_end t) = (ht_map t k = None)" "ht_lookup t k = ht_map t k"
    "ht_map t k \<noteq> None \<Longrightarrow> ht_index (ht_find t k) = bucket_of t k \<and>
       bucket_iter (ht_find t k) < length (buckets t ! bucket_of t k) \<and>
       fst (buckets t ! bucket_of t k ! bucket_iter (ht_find t k)) = k"
proof -
  let ?b = "buckets t ! bucket_of t k"
  note s = key_position_spec [where k = k and i = 0 and es = ?b]
  have f: "ht_find t k = (case key_position k 0 ?b of Some p \<Rightarrow> \<lparr>ht_index = bucket_of t k, bucket_iter = p\<rparr> | None \<Rightarrow> ht_end t)"
    by (simp add: ht_find_def Let_def)
  show "(ht_find t k = ht_end t) = (ht_map t k = None)" "ht_lookup t k = ht_map t k"
    "ht_map t k \<noteq> None \<Longrightarrow> ht_index (ht_find t k) = bucket_of t k \<and>
       bucket_iter (ht_find t k) < length ?b \<and> fst (?b ! bucket_iter (ht_find t k)) = k"
    using s by (auto simp: f ht_lookup_def ht_map_def ht_value_def ht_item_def ht_end_def l2_assert_def split: option.splits prod.splits)
qed

text \<open>Tables that differ in one bucket.\<close>

lemma upd_bucket_simps [simp]:
  "table_size (t\<lparr>buckets := (buckets t)[i := b]\<rparr>) = table_size t"
  "bucket_of (t\<lparr>buckets := (buckets t)[i := b]\<rparr>) = bucket_of t"
  by (simp_all add: table_size_def bucket_of_def fun_eq_iff)

lemma hash_ok_upd:
  assumes "hash_ok t" "distinct (map fst b)" "\<forall>e \<in> set b. bucket_of t (fst e) = i"
  shows "hash_ok (t\<lparr>buckets := (buckets t)[i := b]\<rparr>)"
  unfolding hash_ok_def
proof (intro conjI allI impI)
  show "0 < table_size (t\<lparr>buckets := (buckets t)[i := b]\<rparr>)" "table_size (t\<lparr>buckets := (buckets t)[i := b]\<rparr>) < 2 ^ 32"
    using assms(1) by (simp_all add: hash_ok_def)
next
  fix j
  assume j: "j < table_size (t\<lparr>buckets := (buckets t)[i := b]\<rparr>)"
  have nth: "(buckets t)[i := b] ! j = (if i = j then b else buckets t ! j)"
    using j by (simp add: table_size_def nth_list_update)
  show "distinct (map fst (buckets (t\<lparr>buckets := (buckets t)[i := b]\<rparr>) ! j))"
    "\<forall>e \<in> set (buckets (t\<lparr>buckets := (buckets t)[i := b]\<rparr>) ! j). bucket_of (t\<lparr>buckets := (buckets t)[i := b]\<rparr>) (fst e) = j"
    using assms j by (auto simp: nth hash_ok_def)
qed

lemma ht_map_upd:
  assumes "hash_ok t"
  shows "ht_map (t\<lparr>buckets := (buckets t)[i := b]\<rparr>) k = (if bucket_of t k = i then map_of b k else ht_map t k)"
  using bucket_of_less [of t k] assms by (auto simp: ht_map_def hash_ok_def table_size_def nth_list_update)

lemma insert_duplicate_spec:
  assumes "hash_ok t" "ht_map t k = None" "ht_insert_duplicate k v t = (it, t')"
  shows "hash_ok t' \<and> ht_map t' = (ht_map t)(k \<mapsto> v)"
proof -
  let ?i = "bucket_of t k"
  have i: "?i < table_size t" using bucket_of_less assms(1) by (auto simp: hash_ok_def)
  have t': "t' = t\<lparr>buckets := (buckets t)[?i := (k, v) # buckets t ! ?i]\<rparr>"
    using assms(3) by (simp add: ht_insert_duplicate_def Let_def)
  have "k \<notin> fst ` set (buckets t ! ?i)" using assms(2) by (simp add: ht_map_def map_of_eq_None_iff)
  then have "hash_ok t'" unfolding t' using assms(1) i by (intro hash_ok_upd) (auto simp: hash_ok_def)
  moreover have "ht_map t' = (ht_map t)(k \<mapsto> v)"
    by (auto simp: t' fun_eq_iff ht_map_upd [OF assms(1)]) (auto simp: ht_map_def)
  ultimately show ?thesis by blast
qed

lemma put_spec:
  assumes "hash_ok t" "ht_put k v t = (b, t')"
  shows "hash_ok t' \<and> b = (ht_map t k = None) \<and> ht_map t' = (if b then (ht_map t)(k \<mapsto> v) else ht_map t)"
proof (cases "key_position k 0 (buckets t ! bucket_of t k)")
  case None
  then have none: "ht_map t k = None" using key_position_spec [where k = k and i = 0 and es = "buckets t ! bucket_of t k"] by (simp add: ht_map_def)
  obtain it s where d: "ht_insert_duplicate k v t = (it, s)" by (cases "ht_insert_duplicate k v t")
  then show ?thesis using insert_duplicate_spec [OF assms(1) none d] assms(2) None none
    by (simp add: ht_put_def ht_insert_def Let_def)
next
  case (Some p)
  then have "ht_map t k \<noteq> None" using key_position_spec [where k = k and i = 0 and es = "buckets t ! bucket_of t k"] by (simp add: ht_map_def)
  then show ?thesis using Some assms by (simp add: ht_put_def ht_insert_def Let_def)
qed

lemma map_of_remove_nth:
  assumes "distinct (map fst es)" "p < length es"
  shows "map_of (take p es @ drop (Suc p) es) = (map_of es)(fst (es ! p) := None)"
proof -
  have es: "es = take p es @ es ! p # drop (Suc p) es" using id_take_nth_drop [OF assms(2)] .
  obtain k v where kv: "es ! p = (k, v)" by (cases "es ! p")
  have "distinct (map fst (take p es @ (k, v) # drop (Suc p) es))" using assms(1) es kv by simp
  then have "k \<notin> fst ` set (take p es)" "k \<notin> fst ` set (drop (Suc p) es)" by auto
  then have "map_of (take p es) k = None" "map_of (drop (Suc p) es) k = None" by (simp_all add: map_of_eq_None_iff)
  moreover have "map_of es = map_of (take p es @ (k, v) # drop (Suc p) es)" using es kv by simp
  ultimately show ?thesis by (auto simp: kv fun_eq_iff map_add_def split: option.splits)
qed

lemma distinct_remove_nth: "distinct (map f es) \<Longrightarrow> distinct (map f (take p es @ drop (Suc p) es))"
  using set_take_disj_set_drop_if_distinct [of "map f es" p "Suc p"] 
    distinct_take [of "map f es" p] distinct_drop [of "map f es" "Suc p"]
  by (simp add: take_map drop_map)

lemma delete_spec:
  assumes "hash_ok t" "ht_delete k t = (b, t')"
  shows "hash_ok t' \<and> b = (ht_map t k \<noteq> None) \<and> ht_map t' = (ht_map t)(k := None)"
proof (cases "ht_map t k = None")
  case True
  then show ?thesis using assms find_spec(1) [OF assms(1), of k] by (auto simp: ht_delete_def ht_erase_def Let_def)
next
  case False
  let ?i = "bucket_of t k" and ?p = "bucket_iter (ht_find t k)"
  let ?b = "buckets t ! ?i"
  let ?b' = "take ?p ?b @ drop (Suc ?p) ?b"
  note f = find_spec(3) [OF assms(1) False]
  have i: "?i < table_size t" using bucket_of_less assms(1) by (auto simp: hash_ok_def)
  have t': "b" "t' = t\<lparr>buckets := (buckets t)[?i := ?b']\<rparr>"
    using assms(2) find_spec(1) [OF assms(1), of k] False f
    by (auto simp: ht_delete_def ht_erase_def ht_iter_erase_def Let_def)
  have ok: "distinct (map fst ?b)" "\<forall>e \<in> set ?b. bucket_of t (fst e) = ?i" using assms(1) i by (auto simp: hash_ok_def)
  have "distinct (map fst ?b')"
    by (rule distinct_remove_nth [OF ok(1)])
  moreover have "\<forall>e \<in> set ?b'. bucket_of t (fst e) = ?i" using ok(2) by (auto dest: in_set_takeD in_set_dropD)
  ultimately have "hash_ok t'" unfolding t'(2) by (rule hash_ok_upd [OF assms(1)])
  moreover have "ht_map t' = (ht_map t)(k := None)"
    using map_of_remove_nth [OF ok(1), of ?p] f
    by (auto simp: t'(2) fun_eq_iff ht_map_upd [OF assms(1)]) (auto simp: ht_map_def)
  ultimately show ?thesis using t'(1) False by simp
qed

lemma new_hash_buckets: "buckets (new_hash_table h) = replicate 211 []"
  by (simp add: new_hash_table_def default_table_size_def)

lemma new_hash_size: "table_size (new_hash_table h) = 211"
  by (simp add: table_size_def new_hash_buckets)

lemma new_hash_bucket: "buckets (new_hash_table h) ! bucket_of (new_hash_table h) k = []"
  by (subst new_hash_buckets, rule nth_replicate)
    (rule bucket_of_less [of "new_hash_table h" k, unfolded new_hash_size]; simp)

lemma new_hash_ok: "hash_ok (new_hash_table h)"
  by (simp add: hash_ok_def new_hash_size new_hash_buckets)

lemma new_hash_map: "ht_map (new_hash_table h) = Map.empty"
  by (simp add: ht_map_def fun_eq_iff new_hash_bucket)

lemma ht_put_law:
  assumes "hash_ok t" "ht_put k v t = (b, t')"
  shows "hash_ok t' \<and> b = (ht_lookup t k = None) \<and> ht_lookup t' = (if b then (ht_lookup t)(k \<mapsto> v) else ht_lookup t)"
  using put_spec [OF assms] find_spec(2) [of t] find_spec(2) [of t'] assms(1) by (auto simp: fun_eq_iff)

lemma ht_delete_law:
  assumes "hash_ok t" "ht_delete k t = (b, t')"
  shows "hash_ok t' \<and> b = (ht_lookup t k \<noteq> None) \<and> ht_lookup t' = (ht_lookup t)(k := None)"
  using delete_spec [OF assms] find_spec(2) [of t] find_spec(2) [of t'] assms(1) by (auto simp: fun_eq_iff)

interpretation ht: dictionary "hash_ok :: ('k, 'v) hash_table \<Rightarrow> bool" ht_lookup ht_put ht_delete
  by unfold_locales (rule ht_put_law, assumption+, rule ht_delete_law, assumption+)

fun ht_op :: "('k, 'v) dict_op \<Rightarrow> ('k, 'v) hash_table \<Rightarrow> 'v dict_answer \<times> ('k, 'v) hash_table" where
  "ht_op (Put k v) t = (case ht_put k v t of (b, t') \<Rightarrow> (Done b, t'))"
| "ht_op (Delete k) t = (case ht_delete k t of (b, t') \<Rightarrow> (Done b, t'))"
| "ht_op (Get k) t = (Found (ht_lookup t k), t)"

lemma ht_op_step: "ht_op = ht.dict_step"
proof (intro ext)
  fix x :: "('a, 'b) dict_op" and t
  show "ht_op x t = ht.dict_step x t" by (cases x) simp_all
qed

lemma new_hash_lookup: "ht_lookup (new_hash_table h) = Map.empty"
  by (rule ext) (simp only: find_spec(2) [OF new_hash_ok] new_hash_map)

lemma run_from_new:
  assumes "run_ops ht_op xs (new_hash_table h) = (as, t)"
  shows "hash_ok t" "run_ops map_op xs Map.empty = (as, ht_map t)"
  using ht.run_refines [OF new_hash_ok assms [unfolded ht_op_step]] find_spec(2) [of t]
  by (simp_all add: new_hash_lookup fun_eq_iff)

text \<open>
  C39. A hash table, whatever its hash function, behaves as a finite map: any sequence of insertions,
  removals and lookups on a new table gives the answers that the same sequence gives on the empty
  map. An insertion never overwrites the value of a key that is there.
\<close>

theorem hash_table_refines_map:
  "fst (run_ops ht_op xs (new_hash_table h)) = fst (run_ops map_op xs Map.empty)"
  using run_from_new(2) [of xs h] by (cases "run_ops ht_op xs (new_hash_table h)") simp

subsection \<open>Walking over a table\<close>

text \<open>The entries an iterator still has to visit.\<close>

definition rest_of :: "('k, 'v) hash_table \<Rightarrow> hash_iter \<Rightarrow> ('k \<times> 'v) list" where
  "rest_of t it = drop (bucket_iter it) (buckets t ! ht_index it) @ concat (drop (Suc (ht_index it)) (buckets t))"

text \<open>The loop \<open>for (it = begin(); it != end(); ++it)\<close> that clients write, with the entries it visits.\<close>

fun ht_walk :: "nat \<Rightarrow> ('k, 'v) hash_table \<Rightarrow> hash_iter \<Rightarrow> ('k \<times> 'v) list option" where
  "ht_walk 0 t it = None"
| "ht_walk (Suc n) t it = (if it = ht_end t then Some []
     else case ht_item t it of Inl e \<Rightarrow> None | Inr x \<Rightarrow> map_option ((#) x) (ht_walk n t (ht_next t it)))"

lemma first_bucket_spec:
  "case first_bucket i bs of None \<Rightarrow> concat bs = []
   | Some j \<Rightarrow> i \<le> j \<and> j - i < length bs \<and> bs ! (j - i) \<noteq> [] \<and> concat bs = concat (drop (j - i) bs)"
proof (induction bs arbitrary: i)
  case (Cons b bs)
  show ?case
  proof (cases "b = [] \<and> first_bucket (Suc i) bs \<noteq> None")
    case True
    then obtain j where j: "first_bucket (Suc i) bs = Some j" by auto
    then have "Suc i \<le> j" using Cons.IH [of "Suc i"] by simp
    then have "j - i = Suc (j - Suc i)" by simp
    then show ?thesis using Cons.IH [of "Suc i"] True j by auto
  next
    case False
    then show ?thesis using Cons.IH [of "Suc i"] by auto
  qed
qed simp

text \<open>An iterator on an item, or the end.\<close>

definition iter_ok :: "('k, 'v) hash_table \<Rightarrow> hash_iter \<Rightarrow> bool" where
  "iter_ok t it \<longleftrightarrow> it = ht_end t \<or> (ht_index it < table_size t \<and> bucket_iter it < length (buckets t ! ht_index it))"

lemma rest_of_end: "0 < table_size t \<Longrightarrow> rest_of t (ht_end t) = []"
  by (simp add: rest_of_def ht_end_def table_size_def)

lemma jump_spec:
  assumes t: "0 < table_size t" and i: "i \<le> table_size t"
  defines "it \<equiv> case first_bucket i (drop i (buckets t)) of Some j \<Rightarrow> \<lparr>ht_index = j, bucket_iter = 0\<rparr> | None \<Rightarrow> ht_end t"
  shows "iter_ok t it \<and> rest_of t it = concat (drop i (buckets t))"
proof (cases "first_bucket i (drop i (buckets t))")
  case None
  then show ?thesis using first_bucket_spec [where i = i and bs = "drop i (buckets t)"] by (simp add: it_def iter_ok_def rest_of_end [OF t])
next
  case (Some j)
  then have j: "i \<le> j" "j < table_size t" "buckets t ! j \<noteq> []" "concat (drop i (buckets t)) = concat (drop j (buckets t))"
    using first_bucket_spec [where i = i and bs = "drop i (buckets t)"] i by (auto simp: table_size_def)
  have "drop j (buckets t) = buckets t ! j # drop (Suc j) (buckets t)" using j(2) by (simp add: table_size_def Cons_nth_drop_Suc)
  then show ?thesis using Some j by (simp add: it_def iter_ok_def rest_of_def)
qed

lemma begin_spec: "0 < table_size t \<Longrightarrow> iter_ok t (ht_begin t) \<and> rest_of t (ht_begin t) = concat (buckets t)"
  using jump_spec [of t 0] by (simp add: ht_begin_def)

lemma next_spec:
  assumes t: "0 < table_size t" and it: "iter_ok t it" "it \<noteq> ht_end t"
  shows "iter_ok t (ht_next t it) \<and> ht_item t it = Inr (hd (rest_of t it)) \<and> rest_of t it \<noteq> []
    \<and> rest_of t (ht_next t it) = tl (rest_of t it)"
proof -
  let ?i = "ht_index it" and ?p = "bucket_iter it" and ?b = "buckets t ! ht_index it"
  have b: "?i < table_size t" "?p < length ?b" using it by (auto simp: iter_ok_def)
  have d: "drop ?p ?b = ?b ! ?p # drop (Suc ?p) ?b" using b(2) by (simp add: Cons_nth_drop_Suc)
  have item: "ht_item t it = Inr (hd (rest_of t it)) \<and> rest_of t it \<noteq> []"
    using b by (simp add: ht_item_def l2_assert_def rest_of_def d)
  show ?thesis
  proof (cases "Suc ?p = length ?b")
    case True
    then show ?thesis using jump_spec [of t "Suc ?i"] t b item by (simp add: ht_next_def Let_def rest_of_def d)
  next
    case False
    then show ?thesis using b item by (simp add: ht_next_def Let_def rest_of_def d iter_ok_def)
  qed
qed

lemma rest_empty: "0 < table_size t \<Longrightarrow> iter_ok t it \<Longrightarrow> (rest_of t it = []) = (it = ht_end t)"
  using next_spec rest_of_end by blast

lemma walk_spec:
  "0 < table_size t \<Longrightarrow> iter_ok t it \<Longrightarrow> length (rest_of t it) < n \<Longrightarrow> ht_walk n t it = Some (rest_of t it)"
proof (induction n arbitrary: it)
  case (Suc n)
  show ?case
  proof (cases "it = ht_end t")
    case True
    then show ?thesis using rest_of_end [OF Suc.prems(1)] by simp
  next
    case False
    note s = next_spec [OF Suc.prems(1,2) False]
    have "length (rest_of t (ht_next t it)) < n" using s Suc.prems(3) by (cases "rest_of t it") auto
    then have "ht_walk n t (ht_next t it) = Some (tl (rest_of t it))" using Suc.IH Suc.prems(1) s by metis
    then show ?thesis using s False by simp
  qed
qed simp

lemma fold_lengths: "fold (\<lambda>b total. total + length b) bs n = n + length (concat bs)"
  by (induction bs arbitrary: n) simp_all

lemma ht_size_concat: "ht_size t = length (concat (buckets t))"
  by (simp add: ht_size_def fold_lengths)

lemma distinct_concat_buckets:
  assumes "\<And>i. i < length bs \<Longrightarrow> distinct (map fst (bs ! i))"
    and "\<And>i e. i < length bs \<Longrightarrow> e \<in> set (bs ! i) \<Longrightarrow> f (fst e) = (i + n :: nat)"
  shows "distinct (map fst (concat bs))"
  using assms
proof (induction bs arbitrary: n)
  case (Cons b bs)
  have "distinct (map fst (concat bs))"
  proof (rule Cons.IH [of "Suc n"])
    fix i assume "i < length bs"
    then show "distinct (map fst (bs ! i))" using Cons.prems(1) [of "Suc i"] by simp
  next
    fix i e assume "i < length bs" "e \<in> set (bs ! i)"
    then show "f (fst e) = i + Suc n" using Cons.prems(2) [of "Suc i" e] by simp
  qed
  moreover have "fst ` set b \<inter> fst ` set (concat bs) = {}"
  proof -
    have "f (fst e) = n" if "e \<in> set b" for e using Cons.prems(2) [of 0 e] that by simp
    moreover have "f (fst e) > n" if "e \<in> set (concat bs)" for e
    proof -
      from that obtain b' where "b' \<in> set bs" "e \<in> set b'" by auto
      then obtain i where "i < length bs" "e \<in> set (bs ! i)" by (auto simp: in_set_conv_nth [of b'])
      then show ?thesis using Cons.prems(2) [of "Suc i" e] by simp
    qed
    ultimately show ?thesis by fastforce
  qed
  ultimately show ?case using Cons.prems(1) [of 0] by auto
qed simp

lemma map_of_eq_graph:
  assumes "distinct (map fst es)" "set es = {(k, v). m k = Some v}"
  shows "map_of es = m"
proof
  fix k
  show "map_of es k = m k"
  proof (cases "m k")
    case None
    then show ?thesis using assms(2) by (force simp: map_of_eq_None_iff)
  next
    case (Some v)
    then have "(k, v) \<in> set es" using assms(2) by simp
    then show ?thesis using Some map_of_is_SomeI [OF assms(1)] by simp
  qed
qed

text \<open>The entries of a table are the pairs of its map.\<close>

lemma entries_are_map:
  assumes "hash_ok t"
  shows "set (concat (buckets t)) = {(k, v). ht_map t k = Some v}" "distinct (map fst (concat (buckets t)))"
proof -
  have b: "distinct (map fst (buckets t ! i))" "(k, v) \<in> set (buckets t ! i) \<Longrightarrow> bucket_of t k = i" if "i < table_size t" for i k v
    using assms that by (auto simp: hash_ok_def dest!: spec [of _ i] bspec)
  show "set (concat (buckets t)) = {(k, v). ht_map t k = Some v}"
  proof (intro equalityI subsetI)
    fix e assume "e \<in> set (concat (buckets t))"
    then obtain i where i: "i < table_size t" "e \<in> set (buckets t ! i)" by (auto simp: in_set_conv_nth [of _ "buckets t"] table_size_def)
    obtain k v where e: "e = (k, v)" by (cases e)
    have "ht_map t k = Some v" using b [OF i(1)] i(2) e by (auto simp: ht_map_def)
    then show "e \<in> {(k, v). ht_map t k = Some v}" using e by simp
  next
    fix e assume "e \<in> {(k, v). ht_map t k = Some v}"
    then obtain k v where e: "e = (k, v)" "ht_map t k = Some v" by auto
    then have "e \<in> set (buckets t ! bucket_of t k)" by (auto simp: ht_map_def dest: map_of_SomeD)
    then show "e \<in> set (concat (buckets t))" using bucket_of_less [of t k] assms by (force simp: hash_ok_def table_size_def)
  qed
  show "distinct (map fst (concat (buckets t)))"
    using distinct_concat_buckets [of "buckets t" "bucket_of t" 0] b by (auto simp: table_size_def)
qed

text \<open>
  C40. The loop from \<open>begin\<close> to \<open>end\<close> over a table that any operations have built ends after as many
  steps as \<open>size\<close> says, and it visits every entry of the map exactly once.
\<close>

theorem hash_walk_visits_entries:
  "\<exists>es. ht_walk (Suc (ht_size (snd (run_ops ht_op xs (new_hash_table h))))) (snd (run_ops ht_op xs (new_hash_table h)))
       (ht_begin (snd (run_ops ht_op xs (new_hash_table h)))) = Some es
     \<and> length es = ht_size (snd (run_ops ht_op xs (new_hash_table h)))
     \<and> distinct (map fst es) \<and> map_of es = snd (run_ops map_op xs Map.empty)"
proof -
  obtain as t where r: "run_ops ht_op xs (new_hash_table h) = (as, t)" by (cases "run_ops ht_op xs (new_hash_table h)")
  note t = run_from_new [OF r]
  have "0 < table_size t" using t(1) by (simp add: hash_ok_def)
  then have "ht_walk (Suc (ht_size t)) t (ht_begin t) = Some (concat (buckets t))"
    using begin_spec [of t] walk_spec [of t "ht_begin t" "Suc (ht_size t)"] by (simp add: ht_size_concat)
  moreover have "map_of (concat (buckets t)) = ht_map t"
    using entries_are_map [OF t(1)] by (intro map_of_eq_graph) auto
  ultimately show ?thesis using r t(2) entries_are_map(2) [OF t(1)] by (simp add: ht_size_concat)
qed

subsection \<open>The hash function of strings\<close>

lemma pjw_step_bits:
  assumes "28 \<le> n" "n < 32"
  shows "\<not> bit (pjw_step c h) n"
proof -
  have n: "n = 28 \<or> n = 29 \<or> n = 30 \<or> n = 31" using assms by auto
  have m: "bit (0xf0000000 :: 32 word) n" using n by auto
  obtain x where x: "x = push_bit 4 h + signed_take_bit 7 (ucast c)" by blast
  have "\<not> bit (drop_bit 24 (x AND 0xf0000000)) n"
    using n by (auto simp: bit_simps)
  moreover have "\<not> bit x n" if "x AND 0xf0000000 = 0"
  proof -
    have "\<not> bit (x AND 0xf0000000) n" using that by simp
    then show ?thesis using m by (simp add: bit_and_iff)
  qed
  ultimately show ?thesis using m by (auto simp: pjw_step_def Let_def x [symmetric] bit_xor_iff bit_and_iff)
qed

lemma word_less_28: 
  fixes w :: "32 word"
  assumes "\<And>n. 28 \<le> n \<Longrightarrow> n < 32 \<Longrightarrow> \<not> bit w n"
  shows "unat w < 2 ^ 28"
proof -
  have "take_bit 28 w = w"
    using assms by (intro bit_word_eqI) (auto simp: bit_take_bit_iff not_less [symmetric])
  then have "take_bit 28 (unat w) = unat w" by (metis unsigned_take_bit_eq)
  then show ?thesis by (metis take_bit_nat_less_exp)
qed

text \<open>
  The hash of every string fits in 28 bits: the four highest bits are folded back into the low
  ones after every character, also when a character is negative and its sign extension sets them.
\<close>

theorem hashpjw_bounds: "unat (hashpjw s) < 2 ^ 28"
proof (cases s rule: rev_cases)
  case (snoc cs c)
  then show ?thesis using word_less_28 [OF pjw_step_bits] by (simp add: hashpjw_def)
qed (simp add: hashpjw_def)

text \<open>The test rejects the prime 65537: the square of 65536 wraps around to zero.\<close>

lemma pseudoprime_rejects_prime: "pseudoprime 65537 = Inr False"
  by code_simp

end
