(* ===== verification/Modes.thy ===== *)
theory Modes
  imports Truncation
begin

text \<open>
  Mode variables and their transitions (\<open>transition/transitioned.h\<close>, \<open>transitioned.cpp\<close>), built with
  \<open>ENABLE_CHECKPOINT\<close> and \<open>ENABLE_RECOVERY\<close>. The variable part of a mode is in the heap of variables,
  the rest of the object in the heap \<open>modes\<close>, under the same address. A prototype is the value it
  holds: every prototype is in one list only.
\<close>

subsection \<open>Objects\<close>

record proto_transition =
  positives :: "(var_id \<times> 32 word) list"
  negatives :: "(var_id \<times> 32 word) list"
  consequent :: "var_id \<times> 32 word"
  command_assignment :: "assignment_id option"
  mode_var :: var_id
  transition_value :: "32 word"

type_synonym transition_table = "(assignment_id \<times> proto_transition list) list"

record transitioned =
  indexed_transition_table :: transition_table
  unindexed_prototypes :: "proto_transition list"
  autonomous_transitions :: "proto_transition list"
  transition_clauses :: "clause_id list"
  all_transition_clauses :: "clause_id list"
  now_has_failure_from_horizon :: bool
  horizon_transition :: var_id
  zenith_transition :: var_id
  transition_costs :: "weight_t list"
  ntransitions :: "32 word"

text \<open>The system with the heap of its modes.\<close>

record mode_system =
  sys :: t_system
  modes :: "var_id \<Rightarrow> transitioned"

abbreviation mdb :: "mode_system \<Rightarrow> conflict_db" where "mdb w \<equiv> ts_db (sys w)"

definition in_sys :: "(t_system \<Rightarrow> t_system res) \<Rightarrow> mode_system \<Rightarrow> mode_system res" where
  "in_sys f w = rbind (f (sys w)) (\<lambda>ts. Inr (w\<lparr>sys := ts\<rparr>))"

definition in_sys_val :: "(t_system \<Rightarrow> ('a \<times> t_system) res) \<Rightarrow> mode_system \<Rightarrow> ('a \<times> mode_system) res" where
  "in_sys_val f w = rbind (f (sys w)) (\<lambda>(x, ts). Inr (x, w\<lparr>sys := ts\<rparr>))"

definition in_solver :: "(ltms \<Rightarrow> ltms res) \<Rightarrow> mode_system \<Rightarrow> mode_system res" where
  "in_solver f = in_sys (in_db (\<lambda>db. rbind (f (solver db)) (\<lambda>s. Inr (db\<lparr>solver := s\<rparr>))))"

definition upd_mode :: "var_id \<Rightarrow> (transitioned \<Rightarrow> transitioned) \<Rightarrow> mode_system \<Rightarrow> mode_system" where
  "upd_mode v f w = w\<lparr>modes := (modes w)(v := f (modes w v))\<rparr>"

lemma upd_mode_simps [simp]:
  "sys (upd_mode v f w) = sys w" "modes (upd_mode v f w) = (modes w)(v := f (modes w v))"
  by (simp_all add: upd_mode_def)

definition add_transition_clause :: "var_id \<Rightarrow> clause_id \<Rightarrow> mode_system \<Rightarrow> mode_system res" where
  "add_transition_clause v c w = rbind (in_solver (\<lambda>s. Inr (upd_clause c (set_transition True) s)) w) (\<lambda>w1.
     Inr (upd_mode v (\<lambda>m. m\<lparr>transition_clauses := transition_clauses m @ [c],
                            all_transition_clauses := all_transition_clauses m @ [c]\<rparr>) w1))"

definition remove_transition_clause :: "var_id \<Rightarrow> clause_id \<Rightarrow> mode_system \<Rightarrow> mode_system" where
  "remove_transition_clause v c = upd_mode v (\<lambda>m. m\<lparr>transition_clauses := slist_remove c (transition_clauses m),
     all_transition_clauses := slist_remove c (all_transition_clauses m)\<rparr>)"

text \<open>A clause of the transition system that becomes a transition clause of a mode.\<close>

definition create_transition_clause ::
  "var_id \<Rightarrow> prop_id list \<Rightarrow> prop_id list \<Rightarrow> mode_system \<Rightarrow> mode_system res" where
  "create_transition_clause v pos neg w =
     rbind (in_sys_val (in_db_val (cdb_create_clause pos neg False True)) w)
       (\<lambda>(c, w1). add_transition_clause v c w1)"

subsection \<open>Reading in transitions\<close>

text \<open>The first assignment to a command, among the positive antecedents first.\<close>

definition findCommandAssignment :: "conflict_db \<Rightarrow> (var_id \<times> 32 word) list \<Rightarrow> (var_id \<times> 32 word) list \<Rightarrow> assignment_id option" where
  "findCommandAssignment db pos neg = (case find (\<lambda>(v, i). is_command (class_of (v_kind (vheap db v)))) (pos @ neg) of
     None \<Rightarrow> None | Some (v, i) \<Rightarrow> get_assignment db v i)"

definition failure_proto :: "32 word \<Rightarrow> var_id \<Rightarrow> 32 word \<Rightarrow> proto_transition" where
  "failure_proto i v to_value = \<lparr>positives = [], negatives = [], consequent = (v, to_value), command_assignment = None,
     mode_var = v, transition_value = i\<rparr>"

definition commanded_proto ::
  "conflict_db \<Rightarrow> 32 word \<Rightarrow> var_id \<Rightarrow> 32 word \<Rightarrow> (var_id \<times> 32 word) list \<Rightarrow> (var_id \<times> 32 word) list \<Rightarrow> int \<Rightarrow> proto_transition" where
  "commanded_proto db i v to_value pos neg from_value =
     \<lparr>positives = pos, negatives = (if from_value \<ge> 0 then (v, word_of_int from_value) # neg else neg),
      consequent = (v, to_value), command_assignment = findCommandAssignment db pos neg, mode_var = v, transition_value = i\<rparr>"

definition add_failure_prototype :: "var_id \<Rightarrow> 32 word \<Rightarrow> 32 word \<Rightarrow> mode_system \<Rightarrow> mode_system" where
  "add_failure_prototype v i to_value =
     upd_mode v (\<lambda>m. m\<lparr>autonomous_transitions := failure_proto i v to_value # autonomous_transitions m\<rparr>)"

fun table_add :: "assignment_id \<Rightarrow> proto_transition \<Rightarrow> transition_table \<Rightarrow> transition_table option" where
  "table_add a p [] = None"
| "table_add a p ((b, ps) # t) = (if b = a then Some ((b, p # ps) # t) else map_option ((#) (b, ps)) (table_add a p t))"

definition add_transition_prototype_to_table :: "assignment_id \<Rightarrow> proto_transition \<Rightarrow> transition_table \<Rightarrow> transition_table" where
  "add_transition_prototype_to_table a p t = (case table_add a p t of Some t' \<Rightarrow> t' | None \<Rightarrow> (a, [p]) # t)"

definition find_transition_prototypes :: "transition_table \<Rightarrow> assignment_id \<Rightarrow> proto_transition list option" where
  "find_transition_prototypes t a = map_option snd (find (\<lambda>e. fst e = a) t)"

definition has_indexed_transitions :: "transitioned \<Rightarrow> assignment_id \<Rightarrow> bool" where
  "has_indexed_transitions m a = (find_transition_prototypes (indexed_transition_table m) a \<noteq> None)"

definition add_commanded_prototype ::
  "var_id \<Rightarrow> 32 word \<Rightarrow> int \<Rightarrow> 32 word \<Rightarrow> (var_id \<times> 32 word) list \<Rightarrow> (var_id \<times> 32 word) list \<Rightarrow> mode_system \<Rightarrow> mode_system" where
  "add_commanded_prototype v i from_value to_value pos neg w =
     (let p = commanded_proto (mdb w) i v to_value pos neg from_value in
      upd_mode v (\<lambda>m. case command_assignment p of
          None \<Rightarrow> m\<lparr>unindexed_prototypes := p # unindexed_prototypes m\<rparr>
        | Some a \<Rightarrow> if word_of_int from_value = to_value then m\<lparr>unindexed_prototypes := p # unindexed_prototypes m\<rparr>
            else m\<lparr>indexed_transition_table := add_transition_prototype_to_table a p (indexed_transition_table m)\<rparr>) w)"

definition add_idle_prototype :: "var_id \<Rightarrow> 32 word \<Rightarrow> mode_system \<Rightarrow> mode_system" where
  "add_idle_prototype v i = add_commanded_prototype v 0 (sint i) i [] []"

definition add_transition_cost :: "var_id \<Rightarrow> weight_t \<Rightarrow> mode_system \<Rightarrow> mode_system res" where
  "add_transition_cost v cost w = (let m = modes w v; idx = of_nat (length (transition_costs m)) in
     rbind (l2_assert (idx < ntransitions m) L2_fatal_error) (\<lambda>_.
     let w1 = upd_mode v (\<lambda>m. m\<lparr>transition_costs := transition_costs m @ [cost]\<rparr>) w in
     case get_assignment (mdb w1) (horizon_transition m) idx of None \<Rightarrow> Inl Bad_pointer
     | Some a \<Rightarrow> in_sys (in_db (\<lambda>db. Inr (set_weight a cost db))) w1))"

definition new_transitioned ::
  "32 word \<Rightarrow> 32 word \<Rightarrow> 32 word \<Rightarrow> time_step_t \<Rightarrow> mode_system \<Rightarrow> (var_id \<times> mode_system) res" where
  "new_transitioned nvalues ident transitionCount time w =
     rbind (in_sys_val (in_db_val (new_variable Transitioned nvalues time ident)) w) (\<lambda>(v, w1).
     rbind (in_sys_val (create_mode_transition v transitionCount (replicate (unat transitionCount) 0) BEFORE_HORIZON) w1) (\<lambda>(t, w2).
       Inr (v, upd_mode v (\<lambda>_. \<lparr>indexed_transition_table = [], unindexed_prototypes = [], autonomous_transitions = [],
         transition_clauses = [], all_transition_clauses = [], now_has_failure_from_horizon = False,
         horizon_transition = t, zenith_transition = t, transition_costs = [0], ntransitions = transitionCount\<rparr>) w2)))"

subsection \<open>Instantiating a prototype\<close>

text \<open>
  The propositions of a value at a time step: of the latest variable strictly before it, and of the
  first at or after it. The fuel is the number of variables ever created. The second is called with
  a variable, so it always finds one.
\<close>

fun prop_closest_before :: "nat \<Rightarrow> conflict_db \<Rightarrow> 32 word \<Rightarrow> time_step_t \<Rightarrow> var_id option \<Rightarrow> prop_id option res" where
  "prop_closest_before 0 db i t v = Inl Out_of_fuel"
| "prop_closest_before (Suc n) db i t v = (case v of None \<Rightarrow> Inr None
     | Some x \<Rightarrow> if v_time_step (vheap db x) < t then rbind (get_prop db x i) (\<lambda>p. Inr (Some p))
         else prop_closest_before n db i t (v_previous (vheap db x)))"

fun closest_after :: "nat \<Rightarrow> conflict_db \<Rightarrow> time_step_t \<Rightarrow> var_id option \<Rightarrow> var_id \<Rightarrow> var_id res" where
  "closest_after 0 db t cur found = Inl Out_of_fuel"
| "closest_after (Suc n) db t cur found = (case cur of None \<Rightarrow> Inr found
     | Some x \<Rightarrow> if v_time_step (vheap db x) \<ge> t then closest_after n db t (v_previous (vheap db x)) x else Inr found)"

definition prop_closest_after :: "nat \<Rightarrow> conflict_db \<Rightarrow> var_id \<times> 32 word \<Rightarrow> time_step_t \<Rightarrow> prop_id res" where
  "prop_closest_after n db lit t = rbind (closest_after n db t (Some (fst lit)) (fst lit))
     (\<lambda>x. get_prop db x (snd lit))"

definition chain_fuel :: "conflict_db \<Rightarrow> nat" where "chain_fuel db = Suc (next_var db)"

definition antecedents :: "conflict_db \<Rightarrow> time_step_t \<Rightarrow> (var_id \<times> 32 word) list \<Rightarrow> prop_id list res" where
  "antecedents db t pas = rfold (\<lambda>(v, i) ps. rbind (prop_closest_before (chain_fuel db) db i t (Some v))
     (\<lambda>q. case q of None \<Rightarrow> Inl Assert_failed | Some p \<Rightarrow> Inr (p # ps))) pas []"

definition set_antecedants :: "conflict_db \<Rightarrow> proto_transition \<Rightarrow> time_step_t \<Rightarrow> (prop_id list \<times> prop_id list) res" where
  "set_antecedants db p t = rbind (antecedents db t (positives p)) (\<lambda>pos.
     rbind (antecedents db t (negatives p)) (\<lambda>neg. Inr (pos, neg)))"

text \<open>The transition variable of a time step, from the zenith back.\<close>

fun transition_at :: "nat \<Rightarrow> conflict_db \<Rightarrow> time_step_t \<Rightarrow> var_id option \<Rightarrow> var_id res" where
  "transition_at 0 db t v = Inl Out_of_fuel"
| "transition_at (Suc n) db t v = (case v of None \<Rightarrow> Inl Bad_pointer
     | Some x \<Rightarrow> if v_time_step (vheap db x) = t then Inr x else transition_at n db t (v_previous (vheap db x)))"

definition which_transition :: "mode_system \<Rightarrow> proto_transition \<Rightarrow> time_step_t \<Rightarrow> time_step_t \<Rightarrow> var_id res" where
  "which_transition w p fromTimeStep toTimeStep = (let m = modes w (mode_var p) in
     if fromTimeStep = v_time_step (vheap (mdb w) (mode_var p)) then
       Inr (if toTimeStep = NOW then zenith_transition m else horizon_transition m)
     else transition_at (chain_fuel (mdb w)) (mdb w) fromTimeStep (Some (zenith_transition m)))"

definition instantiate_literals ::
  "mode_system \<Rightarrow> proto_transition \<Rightarrow> time_step_t \<Rightarrow> time_step_t \<Rightarrow> (prop_id list \<times> prop_id list) res" where
  "instantiate_literals w p fromTimeStep toTimeStep =
     rbind (set_antecedants (mdb w) p toTimeStep) (\<lambda>(pos, neg).
     rbind (if planning (sys w) then Inr neg
            else rbind (which_transition w p fromTimeStep toTimeStep) (\<lambda>t.
                 rbind (get_prop (mdb w) t (transition_value p)) (\<lambda>q. Inr (q # neg)))) (\<lambda>neg'.
     rbind (prop_closest_after (chain_fuel (mdb w)) (mdb w) (consequent p) toTimeStep) (\<lambda>q. Inr (q # pos, neg'))))"

text \<open>\<open>instantiate\<close>, followed by \<open>add_transition_clause\<close> as in every caller.\<close>

definition instantiate :: "var_id \<Rightarrow> time_step_t \<Rightarrow> time_step_t \<Rightarrow> proto_transition \<Rightarrow> mode_system \<Rightarrow> mode_system res" where
  "instantiate v fromTimeStep toTimeStep p w =
     rbind (instantiate_literals w p fromTimeStep toTimeStep) (\<lambda>(pos, neg). create_transition_clause v pos neg w)"

definition instantiate_indexed_clauses ::
  "var_id \<Rightarrow> assignment_id \<Rightarrow> time_step_t \<Rightarrow> time_step_t \<Rightarrow> mode_system \<Rightarrow> mode_system res" where
  "instantiate_indexed_clauses v cmd fromTimeStep toTimeStep w =
     (case find_transition_prototypes (indexed_transition_table (modes w v)) cmd of None \<Rightarrow> Inr w
      | Some ps \<Rightarrow> rfold (instantiate v fromTimeStep toTimeStep) ps w)"

definition instantiate_unindexed_clauses :: "var_id \<Rightarrow> time_step_t \<Rightarrow> time_step_t \<Rightarrow> mode_system \<Rightarrow> mode_system res" where
  "instantiate_unindexed_clauses v fromTimeStep toTimeStep w =
     rfold (instantiate v fromTimeStep toTimeStep) (unindexed_prototypes (modes w v)) w"

definition instantiate_autonomous_clauses :: "var_id \<Rightarrow> time_step_t \<Rightarrow> mode_system \<Rightarrow> mode_system res" where
  "instantiate_autonomous_clauses v t w =
     rbind (rfold (instantiate v (v_time_step (vheap (mdb w) v)) t) (autonomous_transitions (modes w v)) w) (\<lambda>w1.
     Inr (if v_previous (vheap (mdb w1) v) = None then upd_mode v (\<lambda>m. m\<lparr>now_has_failure_from_horizon := True\<rparr>) w1
          else w1))"

definition instantiate_clauses :: "var_id \<Rightarrow> assignment_id \<Rightarrow> time_step_t \<Rightarrow> mode_system \<Rightarrow> mode_system res" where
  "instantiate_clauses v cmd toTimeStep w = (let t = v_time_step (vheap (mdb w) v) in
     rbind (instantiate_indexed_clauses v cmd t toTimeStep w) (\<lambda>w1.
     rbind (instantiate_unindexed_clauses v t toTimeStep w1) (\<lambda>w2. instantiate_autonomous_clauses v toTimeStep w2)))"

definition instantiate_all_indexed_clauses :: "var_id \<Rightarrow> time_step_t \<Rightarrow> mode_system \<Rightarrow> mode_system res" where
  "instantiate_all_indexed_clauses v t w = rfold (\<lambda>(a, ps) w.
     rfold (instantiate v (v_time_step (vheap (mdb w) v)) t) ps w) (indexed_transition_table (modes w v)) w"

text \<open>The variant used when a checkpoint is restored.\<close>

definition add_commanded_transitions ::
  "var_id \<Rightarrow> 32 word \<Rightarrow> 32 word \<Rightarrow> time_step_t \<Rightarrow> time_step_t \<Rightarrow> mode_system \<Rightarrow> mode_system res" where
  "add_commanded_transitions v commandVariableID commandValueIndex fromTimeStep toTimeStep w =
     rbind (get_command (sys w) commandVariableID) (\<lambda>x.
     case get_assignment (mdb w) x commandValueIndex of None \<Rightarrow> Inl Assert_failed
     | Some a \<Rightarrow> rbind (instantiate_indexed_clauses v a fromTimeStep toTimeStep w)
                  (instantiate_unindexed_clauses v fromTimeStep toTimeStep))"

subsection \<open>Idling\<close>

text \<open>The clause for one value: the value before and a nominal transition imply the value after.\<close>

definition idle_clause :: "var_id \<Rightarrow> var_id \<Rightarrow> var_id \<Rightarrow> prop_id \<Rightarrow> nat \<Rightarrow> mode_system \<Rightarrow> mode_system res" where
  "idle_clause v from_var to_var t i w =
     rbind (get_prop (mdb w) to_var (of_nat i)) (\<lambda>p.
     rbind (get_prop (mdb w) from_var (of_nat i)) (\<lambda>q. create_transition_clause v [p] [q, t] w))"

definition add_idle_transitions :: "var_id \<Rightarrow> mode_system \<Rightarrow> mode_system res" where
  "add_idle_transitions v w = (case v_previous (vheap (mdb w) v) of None \<Rightarrow> Inl Assert_failed
     | Some prev \<Rightarrow> rbind (get_prop (mdb w) (zenith_transition (modes w v)) 0) (\<lambda>t.
         rfold (idle_clause v prev v t) [0..<unat (get_nvalues (mdb w) v)] w))"

fun variable_at :: "nat \<Rightarrow> conflict_db \<Rightarrow> time_step_t \<Rightarrow> var_id option \<Rightarrow> var_id res" where
  "variable_at 0 db t v = Inl Out_of_fuel"
| "variable_at (Suc n) db t v = (case v of None \<Rightarrow> Inl Assert_failed
     | Some x \<Rightarrow> if v_time_step (vheap db x) = t then Inr x else variable_at n db t (v_previous (vheap db x)))"

definition add_idle_transitions_from :: "var_id \<Rightarrow> time_step_t \<Rightarrow> var_id \<Rightarrow> mode_system \<Rightarrow> mode_system res" where
  "add_idle_transitions_from v fromTimeStep transition w =
     rbind (variable_at (chain_fuel (mdb w)) (mdb w) fromTimeStep (Some v)) (\<lambda>from_mode.
     case v_next (vheap (mdb w) from_mode) of None \<Rightarrow> Inl Assert_failed
     | Some to_mode \<Rightarrow> rbind (get_prop (mdb w) transition 0) (\<lambda>t.
         rfold (idle_clause v from_mode to_mode t) [0..<unat (get_nvalues (mdb w) v)] w))"

subsection \<open>Moving to the next time step\<close>

text \<open>\<open>T_system::splice\<close>: the clauses across time now constrain the past variable.\<close>

definition splice :: "var_id \<Rightarrow> var_id \<Rightarrow> mode_system \<Rightarrow> mode_system res" where
  "splice now_var past_var w = (let cs = transition_clauses (modes w now_var);
       w1 = upd_mode now_var (\<lambda>m. m\<lparr>transition_clauses := []\<rparr>) w in
     rbind (l2_assert (get_nvalues (mdb w1) now_var = get_nvalues (mdb w1) past_var) L2_argument_error) (\<lambda>_.
     rfold (\<lambda>i w. rbind (get_prop (mdb w) now_var (of_nat i)) (\<lambda>p.
       rbind (get_prop (mdb w) past_var (of_nat i)) (\<lambda>q. in_solver (move_support p cs q) w)))
       [0..<unat (get_nvalues (mdb w1) now_var)] w1))"

definition new_zenith :: "var_id \<Rightarrow> time_step_t \<Rightarrow> mode_system \<Rightarrow> mode_system res" where
  "new_zenith v t w = (let m = modes w v in
     rbind (in_sys_val (create_mode_transition v (ntransitions m) (transition_costs m) t) w) (\<lambda>(z, w1).
     in_sys (in_db (insert_previous z (Some (zenith_transition m)))) (upd_mode v (\<lambda>m. m\<lparr>zenith_transition := z\<rparr>) w1)))"

definition create_transition_variable :: "var_id \<Rightarrow> time_step_t \<Rightarrow> mode_system \<Rightarrow> mode_system res" where
  "create_transition_variable v t w =
     rbind (in_sys_val (copy_dependent v) w) (\<lambda>(_, w1).
     rbind (if planning (sys w1) then Inr w1 else new_zenith v t w1) (\<lambda>w2.
     case v_previous (vheap (mdb w2) v) of None \<Rightarrow> Inl Bad_pointer
     | Some past \<Rightarrow> rbind (splice v past w2) (\<lambda>w3.
         Inr (upd_mode v (\<lambda>m. m\<lparr>transition_clauses := [], now_has_failure_from_horizon := False\<rparr>) w3))))"

definition idle :: "var_id \<Rightarrow> time_step_t \<Rightarrow> mode_system \<Rightarrow> mode_system res" where
  "idle v t w = rbind (create_transition_variable v t w) (\<lambda>w1. rbind (add_idle_transitions v w1)
     (instantiate_autonomous_clauses v NOW))"

definition transition :: "var_id \<Rightarrow> assignment_id \<Rightarrow> time_step_t \<Rightarrow> mode_system \<Rightarrow> mode_system res" where
  "transition v cmd t w = rbind (create_transition_variable v t w) (instantiate_clauses v cmd NOW)"

definition planner_transition :: "var_id \<Rightarrow> time_step_t \<Rightarrow> mode_system \<Rightarrow> mode_system res" where
  "planner_transition v t w = rbind (create_transition_variable v t w) (\<lambda>w1.
     rbind (instantiate_all_indexed_clauses v NOW w1) (\<lambda>w2.
     rbind (instantiate_unindexed_clauses v (v_time_step (vheap (mdb w2) v)) NOW w2) (instantiate_autonomous_clauses v NOW)))"

subsection \<open>Setting a mode\<close>

definition remove_transition_clauses :: "var_id \<Rightarrow> mode_system \<Rightarrow> mode_system res" where
  "remove_transition_clauses v w = rfold (\<lambda>c. in_solver (ltms_remove c)) (transition_clauses (modes w v)) w"

definition remove_all_transition_clauses :: "var_id \<Rightarrow> mode_system \<Rightarrow> mode_system res" where
  "remove_all_transition_clauses v w = rfold (\<lambda>c. in_solver (ltms_remove c)) (all_transition_clauses (modes w v)) w"

definition set_mode :: "var_id \<Rightarrow> 32 word \<Rightarrow> mode_system \<Rightarrow> mode_system res" where
  "set_mode v i w = rbind (remove_transition_clauses v w) (\<lambda>w1.
     rbind (get_prop (mdb w1) v i) (\<lambda>p.
     rbind (in_sys_val (in_db_val (cdb_create_clause [p] [] False True)) w1) (\<lambda>(c, w2).
       Inr (upd_mode v (\<lambda>m. m\<lparr>transition_clauses := c # transition_clauses m\<rparr>) w2))))"

text \<open>
  The clause of the initial mode. The oldest variable on or after the horizon is constrained: the
  mode itself when none of its predecessors is.
\<close>

fun oldest_since :: "nat \<Rightarrow> conflict_db \<Rightarrow> time_step_t \<Rightarrow> var_id \<Rightarrow> var_id res" where
  "oldest_since 0 db horizon v = Inl Out_of_fuel"
| "oldest_since (Suc n) db horizon v = (case v_previous (vheap db v) of None \<Rightarrow> Inr v
     | Some p \<Rightarrow> if v_time_step (vheap db p) \<ge> horizon then oldest_since n db horizon p else Inr v)"

definition set_initial_mode ::
  "var_id \<Rightarrow> 32 word \<Rightarrow> int \<Rightarrow> time_step_t \<Rightarrow> bool \<Rightarrow> mode_system \<Rightarrow> (clause_id option \<times> mode_system) res" where
  "set_initial_mode v stateIndex modeIndex horizon in_theory w =
     rbind (case state_var (sys w) of None \<Rightarrow> Inl Bad_pointer | Some x \<Rightarrow> get_prop (mdb w) x stateIndex) (\<lambda>st.
     rbind (if planning (sys w) then Inr [st]
            else rbind (get_prop (mdb w) (horizon_transition (modes w v)) 0) (\<lambda>q. Inr [q, st])) (\<lambda>neg.
     rbind (oldest_since (chain_fuel (mdb w)) (mdb w) horizon v) (\<lambda>x.
     rbind (if modeIndex < 0 then Inr (get_value (mdb w) x)
            else rbind (get_prop (mdb w) x (word_of_int modeIndex)) (\<lambda>p. Inr (Some p))) (\<lambda>value.
     case value of None \<Rightarrow> Inr (None, w)
     | Some p \<Rightarrow> rbind (in_sys_val (in_db_val (cdb_create_clause [p] neg False in_theory)) w) (\<lambda>(c, w1).
         rbind (add_transition_clause v c w1) (\<lambda>w2.
         rbind (if \<not> planning (sys w2) \<and> \<not> now_has_failure_from_horizon (modes w2 v)
                then instantiate_autonomous_clauses v horizon w2 else Inr w2) (\<lambda>w3. Inr (Some c, w3))))))))"

subsection \<open>Truncation\<close>

definition remove_old_modeTransition :: "var_id \<Rightarrow> time_step_t \<Rightarrow> mode_system \<Rightarrow> mode_system" where
  "remove_old_modeTransition v horizon w =
     (if v_time_step (vheap (mdb w) (zenith_transition (modes w v))) < horizon
      then upd_mode v (\<lambda>m. m\<lparr>zenith_transition := horizon_transition m\<rparr>) w else w)"

definition remove_destroyed_clauses :: "var_id \<Rightarrow> mode_system \<Rightarrow> mode_system" where
  "remove_destroyed_clauses v w = (let live = filter (\<lambda>c. \<not> is_destroying (cheap (solver (mdb w)) c)) in
     upd_mode v (\<lambda>m. m\<lparr>transition_clauses := live (transition_clauses m),
                       all_transition_clauses := live (all_transition_clauses m)\<rparr>) w)"

end
