(* ===== verification/Progress.thy ===== *)
theory Progress
  imports Modes Tracker
begin

text \<open>
  The operations of the transition system that involve its modes (\<open>transition/T_system.h\<close>,
  \<open>T_system.cpp\<close>): moving to the next time step, cutting off the past, and progress while planning;
  and \<open>progress\<close> of the tracker. Built with both styles of progress, \<open>ENABLE_SUMMARIZE_CONFLICTS\<close> and
  \<open>ENABLE_RECOVERY\<close>.
\<close>

subsection \<open>Looking up modes, settings\<close>

definition get_transitioned :: "mode_system \<Rightarrow> 32 word \<Rightarrow> var_id res" where
  "get_transitioned w = get_by_class is_transitioned (sys w)"

definition get_transition :: "mode_system \<Rightarrow> 32 word \<Rightarrow> var_id res" where
  "get_transition w i = rbind (get_transitioned w i) (\<lambda>v. Inr (zenith_transition (modes w v)))"

definition setPlanning :: "mode_system \<Rightarrow> mode_system" where
  "setPlanning w = w\<lparr>sys := (sys w)\<lparr>planning := True\<rparr>\<rparr>"

definition set_max_history_length :: "32 word \<Rightarrow> mode_system \<Rightarrow> mode_system" where
  "set_max_history_length n w = w\<lparr>sys := (sys w)\<lparr>max_history_length := n\<rparr>\<rparr>"

definition set_max_truncated_candidates :: "32 word \<Rightarrow> mode_system \<Rightarrow> mode_system" where
  "set_max_truncated_candidates n w = w\<lparr>sys := (sys w)\<lparr>max_truncated_candidates := n\<rparr>\<rparr>"

definition set_progress_uses_full :: "bool \<Rightarrow> mode_system \<Rightarrow> mode_system" where
  "set_progress_uses_full b w = w\<lparr>sys := (sys w)\<lparr>progress_uses_full := b\<rparr>\<rparr>"

subsection \<open>Loops over the present variables\<close>

definition over_indices :: "nat list \<Rightarrow> (var_id \<Rightarrow> mode_system \<Rightarrow> mode_system res) \<Rightarrow> mode_system \<Rightarrow> mode_system res" where
  "over_indices is f w = rfold (\<lambda>i w. rbind (array_get (present_variables (sys w)) (of_nat i)) (\<lambda>p.
     case p of None \<Rightarrow> Inl Bad_pointer | Some v \<Rightarrow> f v w)) is w"

definition var_class :: "mode_system \<Rightarrow> var_id \<Rightarrow> virtuals" where
  "var_class w v = class_of (v_kind (vheap (mdb w) v))"

definition over_present :: "(var_id \<Rightarrow> mode_system \<Rightarrow> mode_system res) \<Rightarrow> mode_system \<Rightarrow> mode_system res" where
  "over_present f w = over_indices [0..<unat (npresent_variables (sys w))] f w"

definition over_modes :: "(var_id \<Rightarrow> mode_system \<Rightarrow> mode_system res) \<Rightarrow> mode_system \<Rightarrow> mode_system res" where
  "over_modes f = over_present (\<lambda>v w. if is_transitioned (var_class w v) then f v w else Inr w)"

definition on_solver_propagate :: "mode_system \<Rightarrow> (bool \<times> mode_system) res" where
  "on_solver_propagate = in_sys_val (in_db_val cdb_propagate)"

text \<open>The end of every progress: propagate, then count the time step.\<close>

definition finish_progress :: "mode_system \<Rightarrow> mode_system res" where
  "finish_progress w = rbind (on_solver_propagate w) (\<lambda>(_, w1). in_sys (\<lambda>ts. Inr (snd (next_timestep ts))) w1)"

subsection \<open>Cutting off the past\<close>

text \<open>The modes at the horizon, as clauses that are not in the theory yet.\<close>

definition summarize_variables :: "time_step_t \<Rightarrow> 32 word \<Rightarrow> mode_system \<Rightarrow> mode_system res" where
  "summarize_variables horizon i = over_modes (\<lambda>v w. rbind (set_initial_mode v i (- 1) horizon False w) (\<lambda>(c, w1).
     case c of None \<Rightarrow> Inr w1
     | Some c \<Rightarrow> in_sys (\<lambda>ts. Inr (ts\<lparr>new_clauses := c # new_clauses ts\<rparr>)) w1))"

text \<open>The first variable before the horizon, with the time step of the last one passed over.\<close>

fun skip_recent :: "conflict_db \<Rightarrow> time_step_t \<Rightarrow> 32 word \<Rightarrow> var_id option \<Rightarrow> var_id list \<Rightarrow> (32 word \<times> var_iter) res" where
  "skip_recent db horizon oldest prev [] = Inl Assert_failed"
| "skip_recent db horizon oldest prev (v # vs) = (if v_time_step (vheap db v) \<ge> horizon
     then skip_recent db horizon (v_time_step (vheap db v)) (Some v) vs
     else Inr (oldest, \<lparr>it_current = Some v, it_previous = prev\<rparr>))"

text \<open>From there, the first variable of the present.\<close>

fun skip_past :: "conflict_db \<Rightarrow> var_id option \<Rightarrow> var_id list \<Rightarrow> var_iter res" where
  "skip_past db prev [] = Inl Assert_failed"
| "skip_past db prev (v # vs) = (if v_time_step (vheap db v) \<noteq> NOW then skip_past db (Some v) vs
     else Inr \<lparr>it_current = Some v, it_previous = prev\<rparr>)"

definition old_variable :: "time_step_t \<Rightarrow> variable_obj \<Rightarrow> bool" where
  "old_variable horizon x = (v_time_step x < horizon)"

definition destroy_old :: "time_step_t \<Rightarrow> t_system \<Rightarrow> t_system res" where
  "destroy_old horizon ts = (let db = ts_db ts in
     rbind (skip_recent db horizon (oldest_timestep ts) None (variables db)) (\<lambda>(oldest, start).
     rbind (skip_past db (it_previous start) (case it_current start of None \<Rightarrow> [] | Some v \<Rightarrow> dropWhile (\<lambda>x. x \<noteq> v) (variables db))) (\<lambda>end_it.
     rbind (destroy_variables (old_variable horizon) start end_it False db) (\<lambda>db1.
       Inr (ts\<lparr>oldest_timestep := oldest, ts_db := db1\<rparr>)))))"

definition remove_old_variables :: "time_step_t \<Rightarrow> mode_system \<Rightarrow> mode_system res" where
  "remove_old_variables horizon w =
     rbind (in_sys (in_db (\<lambda>db. Inr (remove_old_conflicts horizon db))) w) (\<lambda>w1.
     rbind (over_modes (\<lambda>v w. Inr (remove_old_modeTransition v horizon w)) w1) (\<lambda>w2.
     rbind (in_sys (destroy_old horizon) w2) (\<lambda>w3.
     rbind (over_modes (\<lambda>v w. Inr (remove_destroyed_clauses v w)) w3) (in_solver ltms_finish_destroying))))"

text \<open>
  Without candidates the values of the state variable are kept. Otherwise the state variable gets a
  value for each consistent candidate up to the limit; the candidates that are kept come back.
\<close>

definition truncate_states :: "time_step_t \<Rightarrow> mode_system \<Rightarrow> mode_system res" where
  "truncate_states horizon w = rbind (in_sys (map_over_observations Unassign) w) (\<lambda>w1.
     case state_var (sys w1) of None \<Rightarrow> Inl Bad_pointer
     | Some x \<Rightarrow> let n = get_nvalues (mdb w1) x in
         rbind (in_sys_val (create_state_var horizon n) w1) (\<lambda>(sv, w2).
         rfold (\<lambda>i w. rbind (in_sys (in_db (assign_index sv (of_nat i))) w) (summarize_variables horizon (of_nat i)))
           [0..<unat n] w2))"

fun truncate_candidates :: "time_step_t \<Rightarrow> var_id \<Rightarrow> 32 word \<Rightarrow> 32 word \<Rightarrow> candidate_id list \<Rightarrow> mode_system \<Rightarrow>
    (candidate_id list \<times> mode_system) res" where
  "truncate_candidates horizon sv limit i [] w = Inr ([], w)"
| "truncate_candidates horizon sv limit i (c # cs) w = (if i < limit then
     rbind (in_sys (in_db (install c True)) w) (\<lambda>w1. rbind (on_solver_propagate w1) (\<lambda>(consistent, w2).
       if consistent then
         rbind (in_sys (put_candidate_in_trajectory horizon i c) w2) (\<lambda>w3.
         rbind (summarize_variables horizon i w3) (\<lambda>w4.
         case get_assignment (mdb w4) sv i of None \<Rightarrow> Inl Bad_pointer
         | Some a \<Rightarrow> rbind (in_sys (in_db (\<lambda>db. Inr (truncate_candidate horizon a c db))) w4) (\<lambda>w5.
             rbind (truncate_candidates horizon sv limit (i + 1) cs w5) (\<lambda>(kept, w6). Inr (c # kept, w6)))))
       else truncate_candidates horizon sv limit i cs w2))
     else Inr ([], w))"

definition truncation_limit :: "t_system \<Rightarrow> 32 word" where
  "truncation_limit ts = (let initialSize = of_nat (length (candidates (ts_db ts))) in
     if max_truncated_candidates ts \<noteq> 0 \<and> initialSize > max_truncated_candidates ts
     then max_truncated_candidates ts else initialSize)"

definition truncate_with_candidates :: "time_step_t \<Rightarrow> mode_system \<Rightarrow> mode_system res" where
  "truncate_with_candidates horizon w = (let limit = truncation_limit (sys w) in
     rbind (in_sys_val (create_state_var horizon limit) w) (\<lambda>(sv, w1).
     rbind (truncate_candidates horizon sv limit 0 (candidates (mdb w1)) w1) (\<lambda>(kept, w2).
       in_sys (in_db (\<lambda>db. Inr (db\<lparr>candidates := kept\<rparr>))) w2)))"

definition truncate :: "time_step_t \<Rightarrow> mode_system \<Rightarrow> mode_system res" where
  "truncate horizon w = (if horizon \<le> oldest_timestep (sys w) then Inr w
     else rbind (in_sys (map_over_observations Save) w) (\<lambda>w1.
       rbind (if (of_nat (length (candidates (mdb w1))) :: 32 word) = 0 then truncate_states horizon w1
              else truncate_with_candidates horizon w1) (\<lambda>w2.
       rbind (in_sys (summarize_conflicts horizon) w2) (\<lambda>w3.
       rbind (remove_old_variables horizon w3) (\<lambda>w4.
       rbind (in_sys install_new_state w4) (\<lambda>w5.
       rbind (in_sys (map_over_observations Restore) w5) (\<lambda>w6.
         if (of_nat (length (candidates (mdb w6))) :: 32 word) = 0
         then rbind (on_solver_propagate w6) (\<lambda>(_, w7). Inr w7)
         else in_sys (in_db (install_index 0 True)) w6)))))))"

definition truncate_if_needed :: "mode_system \<Rightarrow> mode_system res" where
  "truncate_if_needed w = (if history_full (sys w) then truncate (get_horizon (sys w)) w else Inr w)"

subsection \<open>Progress\<close>

text \<open>Only the modes that the command can change move; without a command nothing does.\<close>

definition minimal_command :: "assignment_id \<Rightarrow> mode_system \<Rightarrow> mode_system res" where
  "minimal_command a w = rbind (in_sys_val (copy_command (a_variable (aheap (mdb w) a))) w) (\<lambda>(past, w1).
     rbind (over_modes (\<lambda>v w. if has_indexed_transitions (modes w v) a then transition v a (timestep (sys w)) w else Inr w) w1) (\<lambda>w2.
     rbind (in_sys (in_db (assign_index past (a_index (aheap (mdb w2) a)))) w2) (\<lambda>w3.
     rbind (in_sys (in_db (\<lambda>db. Inr (set_exogenously_assigned past True db))) w3) (\<lambda>w4.
     rbind (on_solver_propagate w4) (\<lambda>(_, w5). Inr w5)))))"

definition minimal_progress :: "assignment_id option \<Rightarrow> mode_system \<Rightarrow> mode_system res" where
  "minimal_progress cmd w = rbind (truncate_if_needed w) (\<lambda>w1.
     rbind (case cmd of None \<Rightarrow> Inr w1 | Some a \<Rightarrow> minimal_command a w1) (in_sys (\<lambda>ts. Inr (snd (next_timestep ts)))))"

definition copy_present :: "var_id \<Rightarrow> mode_system \<Rightarrow> mode_system res" where
  "copy_present v w = (let k = var_class w v in
     if is_assignable k then
       rbind (in_sys_val (copy_assignable v) w) (\<lambda>(past, w1).
         in_sys (in_db (\<lambda>db. Inr (set_exogenously_assigned past (exogenouslyAssigned (vheap db v)) db))) w1)
     else if is_dependent k \<and> \<not> is_transitioned k then rbind (in_sys_val (copy_dependent v) w) (\<lambda>(_, w1). Inr w1)
     else Inr w)"

definition full_progress_copy_variables :: "assignment_id option \<Rightarrow> mode_system \<Rightarrow> mode_system res" where
  "full_progress_copy_variables cmd w = rbind (over_present copy_present w) (over_modes (\<lambda>v w.
     case cmd of Some a \<Rightarrow> transition v a (timestep (sys w)) w | None \<Rightarrow> idle v (timestep (sys w)) w))"

definition full_progress :: "assignment_id option \<Rightarrow> mode_system \<Rightarrow> mode_system res" where
  "full_progress cmd w = rbind (truncate_if_needed w) (\<lambda>w1.
     rbind (full_progress_copy_variables cmd w1) (\<lambda>w2.
     rbind (in_sys full_progress_create_constraints w2) (\<lambda>w3.
     rbind (in_sys (full_progress_make_assignments cmd) w3) finish_progress)))"

definition progress :: "assignment_id option \<Rightarrow> mode_system \<Rightarrow> mode_system res" where
  "progress cmd w = (if progress_uses_full (sys w) then full_progress cmd w else minimal_progress cmd w)"

subsection \<open>Progress while planning\<close>

text \<open>Commands of the past are assumptions; all values weigh the same.\<close>

definition create_cmd_assumption_in_past :: "var_id \<Rightarrow> t_system \<Rightarrow> (var_id \<times> t_system) res" where
  "create_cmd_assumption_in_past now_cmd ts = (let n = get_nvalues (ts_db ts) now_cmd in
     rbind (create_past_command n (replicate (unat n) 1) (timestep ts) (v_id (vheap (ts_db ts) now_cmd)) ts) (\<lambda>(past, ts1).
     rbind (if timestep ts1 = NOW then register_new_variable past ts1 else Inr ts1) (\<lambda>ts2.
     rbind (in_db (insert_previous now_cmd (Some past)) ts2) (\<lambda>ts3. Inr (past, ts3)))))"

text \<open>The loops run from the last present variable to the first.\<close>

definition over_reverse :: "(virtuals \<Rightarrow> bool) \<Rightarrow> (var_id \<Rightarrow> mode_system \<Rightarrow> mode_system res) \<Rightarrow> mode_system \<Rightarrow> mode_system res" where
  "over_reverse test f w = over_indices (rev [0..<unat (npresent_variables (sys w))])
     (\<lambda>v w. if test (var_class w v) then f v w else Inr w) w"

definition copy_observed :: "var_id \<Rightarrow> mode_system \<Rightarrow> mode_system res" where
  "copy_observed v w = rbind (in_sys_val (copy_observable v) w) (\<lambda>(past, w1).
     in_sys (in_db (\<lambda>db. Inr (set_exogenously_assigned past (exogenouslyAssigned (vheap db v)) db))) w1)"

definition assign_past_command :: "var_id \<Rightarrow> mode_system \<Rightarrow> mode_system res" where
  "assign_past_command v w = (case v_previous (vheap (mdb w) v) of None \<Rightarrow> Inl L2_fatal_error
     | Some past \<Rightarrow> in_sys (in_db (assign_like past v)) w)"

definition planner_progress :: "mode_system \<Rightarrow> mode_system res" where
  "planner_progress w =
     rbind (over_reverse (\<lambda>k. \<not> is_assignable k \<and> \<not> is_transitioned k)
              (\<lambda>v w. rbind (in_sys_val (copy_dependent v) w) (\<lambda>(_, w1). Inr w1)) w) (\<lambda>w1.
     rbind (over_reverse is_observable copy_observed w1) (\<lambda>w2.
     rbind (over_reverse is_command (\<lambda>v w. rbind (in_sys_val (create_cmd_assumption_in_past v) w) (\<lambda>(_, w1). Inr w1)) w2) (\<lambda>w3.
     rbind (over_reverse is_transitioned (\<lambda>v w. planner_transition v (timestep (sys w)) w) w3) (\<lambda>w4.
     rbind (in_sys full_progress_create_constraints w4) (\<lambda>w5.
     rbind (over_reverse is_command assign_past_command w5) finish_progress)))))"

subsection \<open>Progress of the tracker\<close>

definition tracker_progress ::
  "nat \<Rightarrow> assignment_id option \<Rightarrow> cbfs \<times> (var_id \<Rightarrow> transitioned) \<Rightarrow> (cbfs \<times> (var_id \<Rightarrow> transitioned)) res" where
  "tracker_progress n cmd = (\<lambda>(t, ms). rbind (prune_and_search n t) (\<lambda>t1.
     rbind (progress cmd \<lparr>sys = cbfs_system t1, modes = ms\<rparr>) (\<lambda>w. Inr (t1\<lparr>cbfs_system := sys w\<rparr>, modes w))))"

definition tracker_progress_by_index ::
  "32 word \<Rightarrow> 32 word \<Rightarrow> cbfs \<times> (var_id \<Rightarrow> transitioned) \<Rightarrow> (cbfs \<times> (var_id \<Rightarrow> transitioned)) res" where
  "tracker_progress_by_index commandIndex value_index = (\<lambda>(t, ms).
     rbind (get_command (cbfs_system t) commandIndex) (\<lambda>v.
     rbind (progress (get_assignment (cbfs_db t) v value_index) \<lparr>sys = cbfs_system t, modes = ms\<rparr>)
       (\<lambda>w. Inr (t\<lparr>cbfs_system := sys w\<rparr>, modes w))))"

end
