(* ===== verification/Mode_Clauses.thy ===== *)
theory Mode_Clauses
  imports Progress Cdb_Properties
begin

text \<open>
  The clauses of the transitions: what instantiating a prototype and idling add to the theory. The
  relation \<open>adds F\<close> between two states says that the clauses \<open>F\<close> have been added and nothing else
  of the database has changed.
\<close>

subsection \<open>Marking a clause\<close>

lemma set_transition_formula:
  "formula (upd_clause c (set_transition b) s) = formula (s :: ltms)"
  "active (upd_clause c (set_transition b) s) = active s"
proof -
  show a: "active (upd_clause c (set_transition b) s) = active s"
    by (simp only: active_def set_transition_heap set_transition_state)
  show "formula (upd_clause c (set_transition b) s) = formula s"
    by (simp only: formula_def a set_transition_heap)
qed

lemma set_transition_cdb:
  assumes "cdb_inv X db"
  shows "cdb_inv X (db\<lparr>solver := upd_clause c (set_transition b) (solver db)\<rparr>)"
proof -
  let ?db = "db\<lparr>solver := upd_clause c (set_transition b) (solver db)\<rparr>"
  have same: "same_but_current db ?db"
    by (simp add: same_but_current_def set_transition_formula same_contents_def del: upd_clause_simps)
  show ?thesis
  proof (rule same_but_current_inv [OF assms same])
    show "reachable (solver ?db)" using reachable_steps(6) [OF cdb_invD(1) [OF assms]] by simp
    show "var_dynamic ?db u" if "u \<in> set (variables db)" for u
      by (rule var_dynamic_cong [OF cdb_invD(7) [OF assms that]]) simp_all
    show "d \<in> active (solver ?db) \<longleftrightarrow> v_current (vheap ?db (a_variable (aheap db a))) = Some a"
      if "d \<in> set (clauses (solver db))" "clause_datum (cheap (solver db) d) = Some a" for d a
      using datums_okD(3) [OF cdb_invD(3) [OF assms] that] by (simp add: set_transition_formula)
  qed
qed

subsection \<open>Adding clauses\<close>

text \<open>The clause that says: if all of \<open>neg\<close> and none of \<open>pos\<close> hold, then \<open>q\<close> does.\<close>

definition rule_clause :: "prop_id list \<Rightarrow> prop_id list \<Rightarrow> lit set" where
  "rule_clause pos neg = (\<lambda>p. (p, True)) ` set pos \<union> (\<lambda>p. (p, False)) ` set neg"

lemma rule_clause_holds:
  "(\<exists>l \<in> rule_clause pos neg. holds m l) \<longleftrightarrow> ((\<forall>p \<in> set neg. m p) \<longrightarrow> (\<exists>p \<in> set pos. m p))"
  by (force simp: rule_clause_def holds_def)

definition strip_clauses :: "transitioned \<Rightarrow> transitioned" where
  "strip_clauses m = m\<lparr>transition_clauses := [], all_transition_clauses := []\<rparr>"

definition adds :: "cnf \<Rightarrow> mode_system \<Rightarrow> mode_system \<Rightarrow> bool" where
  "adds F w w' \<longleftrightarrow> cdb_ok (mdb w') \<and> formula (solver (mdb w')) = F \<union> formula (solver (mdb w)) \<and>
     props (solver (mdb w')) = props (solver (mdb w)) \<and>
     (\<exists>s. sys w' = (sys w)\<lparr>ts_db := (mdb w)\<lparr>solver := s\<rparr>\<rparr>) \<and>
     (\<forall>u. strip_clauses (modes w' u) = strip_clauses (modes w u))"

lemma adds_refl: "cdb_ok (mdb w) \<Longrightarrow> adds {} w w"
  by (auto simp: adds_def intro!: exI [of _ "solver (mdb w)"])

lemma adds_trans: "adds F w w1 \<Longrightarrow> adds G w1 w2 \<Longrightarrow> adds (G \<union> F) w w2"
  unfolding adds_def by (clarsimp simp: Un_assoc) blast

lemma addsD:
  assumes "adds F w w'"
  shows "cdb_ok (mdb w')" "vheap (mdb w') = vheap (mdb w)" "variables (mdb w') = variables (mdb w)"
    "get_prop (mdb w') v i = get_prop (mdb w) v i" "get_nvalues (mdb w') v = get_nvalues (mdb w) v"
    "props (solver (mdb w')) = props (solver (mdb w))" "next_var (mdb w') = next_var (mdb w)"
    "planning (sys w') = planning (sys w)" "zenith_transition (modes w' u) = zenith_transition (modes w u)"
    "horizon_transition (modes w' u) = horizon_transition (modes w u)"
    "autonomous_transitions (modes w' u) = autonomous_transitions (modes w u)"
    "unindexed_prototypes (modes w' u) = unindexed_prototypes (modes w u)"
    "indexed_transition_table (modes w' u) = indexed_transition_table (modes w u)"
proof -
  obtain s where s: "sys w' = (sys w)\<lparr>ts_db := (mdb w)\<lparr>solver := s\<rparr>\<rparr>"
    and m: "strip_clauses (modes w' u) = strip_clauses (modes w u)" using assms by (auto simp: adds_def)
  show h: "vheap (mdb w') = vheap (mdb w)" "variables (mdb w') = variables (mdb w)" "next_var (mdb w') = next_var (mdb w)"
    using s by simp_all
  show "get_prop (mdb w') v i = get_prop (mdb w) v i" "get_nvalues (mdb w') v = get_nvalues (mdb w) v"
    by (simp_all add: get_prop_def get_nvalues_def h)
  show "cdb_ok (mdb w')" "props (solver (mdb w')) = props (solver (mdb w))" using assms by (simp_all add: adds_def)
  show "planning (sys w') = planning (sys w)" using s by simp
  show "zenith_transition (modes w' u) = zenith_transition (modes w u)"
    "horizon_transition (modes w' u) = horizon_transition (modes w u)"
    "autonomous_transitions (modes w' u) = autonomous_transitions (modes w u)"
    "unindexed_prototypes (modes w' u) = unindexed_prototypes (modes w u)"
    "indexed_transition_table (modes w' u) = indexed_transition_table (modes w u)"
    using arg_cong [OF m, of zenith_transition] arg_cong [OF m, of horizon_transition]
      arg_cong [OF m, of autonomous_transitions] arg_cong [OF m, of unindexed_prototypes]
      arg_cong [OF m, of indexed_transition_table] by (simp_all add: strip_clauses_def)
qed

lemma create_transition_clause_adds:
  assumes inv: "cdb_ok (mdb w)" and v: "valid_clause pos neg (solver (mdb w))"
  shows "returns (create_transition_clause x pos neg w) (adds {rule_clause pos neg} w)"
proof -
  from create_clause_formula [OF reachable_inv [OF cdb_invD(1) [OF inv]] v, of None False True] obtain c s where
    s: "ltms_create_clause None pos neg False True (solver (mdb w)) = Inr (c, s)"
    "formula s = insert (rule_clause pos neg) (formula (solver (mdb w)))" "props s = props (solver (mdb w))"
    by (auto simp: returns_iff rule_clause_def)
  have cc: "cdb_create_clause pos neg False True (mdb w) = Inr (c, (mdb w)\<lparr>solver := s\<rparr>)"
    by (simp add: cdb_create_clause_def s(1))
  have ok: "cdb_ok ((mdb w)\<lparr>solver := s\<rparr>)"
    using cdb_create_clause_ok [OF inv v, of False True] by (simp add: cc)
  show ?thesis
    using set_transition_cdb [OF ok, of c True] s(2,3)
    by (simp add: create_transition_clause_def in_sys_val_def in_db_val_def cc add_transition_clause_def in_solver_def
        in_sys_def in_db_def adds_def set_transition_formula strip_clauses_def del: upd_clause_simps)
      blast
qed

lemma rfold_adds:
  assumes "cdb_ok (mdb w)"
    and "\<And>x F w'. x \<in> set xs \<Longrightarrow> adds F w w' \<Longrightarrow> returns (f x w') (adds (G x) w')"
  shows "returns (rfold f xs w) (adds (\<Union>x \<in> set xs. G x) w)"
proof (rule rfold_rule [where I = "\<lambda>ys. adds (\<Union>x \<in> set ys. G x) w"])
  show "adds (\<Union>x \<in> set []. G x) w w" using adds_refl [OF assms(1)] by simp
  fix as x bs w'
  assume "xs = as @ x # bs" "adds (\<Union>x \<in> set as. G x) w w'"
  then have "returns (f x w') (adds (G x) w')" "adds (\<Union>x \<in> set as. G x) w w'" using assms(2) [of x] by auto
  then show "returns (f x w') (adds (\<Union>x \<in> set (as @ [x]). G x) w)"
    by (auto elim!: returns_mono dest: adds_trans)
qed

subsection \<open>Idling\<close>

definition idle_rules :: "prop_id list \<Rightarrow> prop_id list \<Rightarrow> prop_id \<Rightarrow> cnf" where
  "idle_rules now before t = (\<Union>i \<in> {0..<length now}. {rule_clause [now ! i] [before ! i, t]})"

lemma idle_rules_hold:
  "models m (idle_rules now before t) \<longleftrightarrow> (m t \<longrightarrow> (\<forall>i < length now. m (before ! i) \<longrightarrow> m (now ! i)))"
  by (auto simp: models_def idle_rules_def rule_clause_holds)

lemma models_Un: "models m (F \<union> G) \<longleftrightarrow> models m F \<and> models m G"
  by (auto simp: models_def)

lemma get_prop_ok:
  assumes "i < length (propositions (vheap db v))" "length (propositions (vheap db v)) < 128"
  shows "get_prop db v (of_nat i) = Inr (propositions (vheap db v) ! i)"
  using assms by (simp add: get_prop_def get_nvalues_def l2_assert_def word_less_nat_alt unat_of_nat take_bit_nat_eq_self)

lemma remove_duplicates_shortens: "length (slist_remove_duplicates xs) \<le> length xs"
  by (induction xs rule: slist_remove_duplicates.induct) (auto intro: le_trans length_filter_le)

lemma small_clause: "length pos + length neg < 128 \<Longrightarrow> set pos \<subseteq> set (props s) \<Longrightarrow> set neg \<subseteq> set (props s) \<Longrightarrow>
    valid_clause pos neg s"
  using remove_duplicates_shortens [of pos] remove_duplicates_shortens [of neg]
  by (simp add: valid_clause_def)

lemma idle_loop_adds:
  assumes inv: "cdb_ok (mdb w)" and vars: "a \<in> set (variables (mdb w))" "b \<in> set (variables (mdb w))"
    and len: "length (propositions (vheap (mdb w) b)) = length (propositions (vheap (mdb w) a))"
    and t: "t \<in> set (props (solver (mdb w)))"
  shows "returns (rfold (idle_clause v a b t) [0..<unat (get_nvalues (mdb w) b)] w)
    (adds (idle_rules (propositions (vheap (mdb w) b)) (propositions (vheap (mdb w) a)) t) w)"
proof -
  let ?b = "propositions (vheap (mdb w) b)" and ?a = "propositions (vheap (mdb w) a)"
  have st: "length ?a < 128" "length ?b < 128" "set ?a \<subseteq> set (props (solver (mdb w)))" "set ?b \<subseteq> set (props (solver (mdb w)))"
    using cdb_invD(6) [OF inv] vars by (auto simp: var_static_def)
  have n: "unat (get_nvalues (mdb w) b) = length ?b" using st(2) by (simp add: get_nvalues_def unat_of_nat take_bit_nat_eq_self)
  have "returns (rfold (idle_clause v a b t) [0..<length ?b] w)
    (adds (\<Union>i \<in> set [0..<length ?b]. {rule_clause [?b ! i] [?a ! i, t]}) w)"
  proof (rule rfold_adds [OF inv])
    fix i F w'
    assume i: "i \<in> set [0..<length ?b]" and w': "adds F w w'"
    note d = addsD [OF w']
    have g: "get_prop (mdb w') b (of_nat i) = Inr (?b ! i)" "get_prop (mdb w') a (of_nat i) = Inr (?a ! i)"
      using i len st get_prop_ok [of i "mdb w"] by (simp_all add: d(4))
    have "valid_clause [?b ! i] [?a ! i, t] (solver (mdb w'))"
      using i len st t by (intro small_clause) (auto simp: d(6) subset_iff)
    then show "returns (idle_clause v a b t i w') (adds {rule_clause [?b ! i] [?a ! i, t]} w')"
      using create_transition_clause_adds [OF d(1)] by (simp add: idle_clause_def g)
  qed
  then show ?thesis by (simp add: n idle_rules_def)
qed

text \<open>
  C28. Idling adds the frame axioms: with a nominal transition the mode keeps its value. The
  assignments of truth values that satisfy the theory afterwards are those that satisfied it before
  and in which, if the newest transition is nominal, every value of the mode before is its value
  now. Nothing else of the database changes.
\<close>

theorem idle_keeps_mode:
  assumes "cdb_ok (mdb w)" "v_previous (vheap (mdb w) v) = Some past" "zenith_transition (modes w v) = z"
    and "{v, past, z} \<subseteq> set (variables (mdb w))"
    and "length (propositions (vheap (mdb w) v)) = length (propositions (vheap (mdb w) past))"
    and "propositions (vheap (mdb w) z) = nominal # failures"
  shows "returns (add_idle_transitions v w) (\<lambda>w'.
    (\<forall>m. models m (formula (solver (mdb w'))) \<longleftrightarrow> models m (formula (solver (mdb w))) \<and>
       (m nominal \<longrightarrow> (\<forall>i < length (propositions (vheap (mdb w) v)).
          m (propositions (vheap (mdb w) past) ! i) \<longrightarrow> m (propositions (vheap (mdb w) v) ! i)))) \<and>
    cdb_ok (mdb w') \<and> (\<exists>s. sys w' = (sys w)\<lparr>ts_db := (mdb w)\<lparr>solver := s\<rparr>\<rparr>))"
proof -
  have z: "length (propositions (vheap (mdb w) z)) < 128" "set (propositions (vheap (mdb w) z)) \<subseteq> set (props (solver (mdb w)))"
    using cdb_invD(6) [OF assms(1)] assms(4) by (auto simp: var_static_def)
  have nom: "get_prop (mdb w) z 0 = Inr nominal" using get_prop_ok [of 0 "mdb w" z] z assms(6) by simp
  have "returns (add_idle_transitions v w)
    (adds (idle_rules (propositions (vheap (mdb w) v)) (propositions (vheap (mdb w) past)) nominal) w)"
    using idle_loop_adds [OF assms(1), of past v nominal v] assms(2-6) z(2) by (simp add: add_idle_transitions_def nom)
  then show ?thesis
    by (rule returns_mono) (auto simp: adds_def models_Un idle_rules_hold)
qed

subsection \<open>Variables over time\<close>

text \<open>The variable and its predecessors, the newest first.\<close>

fun time_chain :: "conflict_db \<Rightarrow> var_id option \<Rightarrow> var_id list \<Rightarrow> bool" where
  "time_chain db v [] \<longleftrightarrow> v = None"
| "time_chain db v (x # xs) \<longleftrightarrow> v = Some x \<and> time_chain db (v_previous (vheap db x)) xs"

definition earlier :: "conflict_db \<Rightarrow> time_step_t \<Rightarrow> var_id list \<Rightarrow> var_id option" where
  "earlier db t xs = find (\<lambda>x. v_time_step (vheap db x) < t) xs"

definition since :: "conflict_db \<Rightarrow> time_step_t \<Rightarrow> var_id list \<Rightarrow> var_id" where
  "since db t xs = last (hd xs # takeWhile (\<lambda>x. t \<le> v_time_step (vheap db x)) xs)"

lemma prop_closest_before_chain:
  "time_chain db v xs \<Longrightarrow> length xs < n \<Longrightarrow> prop_closest_before n db i t v =
     (case earlier db t xs of None \<Rightarrow> Inr None | Some x \<Rightarrow> rbind (get_prop db x i) (\<lambda>p. Inr (Some p)))"
proof (induction xs arbitrary: v n)
  case Nil
  then show ?case by (cases n) (simp_all add: earlier_def)
next
  case (Cons x xs)
  then obtain k where n: "n = Suc k" by (cases n) auto
  show ?case using Cons.IH [of "v_previous (vheap db x)" k] Cons.prems by (simp add: n earlier_def)
qed

lemma closest_after_chain:
  "time_chain db v xs \<Longrightarrow> length xs < n \<Longrightarrow>
   closest_after n db t v found = Inr (last (found # takeWhile (\<lambda>x. t \<le> v_time_step (vheap db x)) xs))"
proof (induction xs arbitrary: v n found)
  case Nil
  then show ?case by (cases n) simp_all
next
  case (Cons x xs)
  then obtain k where n: "n = Suc k" by (cases n) auto
  show ?case using Cons.IH [of "v_previous (vheap db x)" k x] Cons.prems by (simp add: n)
qed

lemma prop_closest_after_chain:
  assumes "time_chain db (Some (fst lit)) xs" "length xs < n"
  shows "prop_closest_after n db lit t = get_prop db (since db t xs) (snd lit)"
proof -
  have "hd xs = fst lit" using assms(1) by (cases xs) simp_all
  then show ?thesis using closest_after_chain [OF assms, of t "fst lit"] by (simp add: prop_closest_after_def since_def)
qed

text \<open>A value whose variable has the past \<open>hist\<close>, all of it in the database.\<close>

definition has_history :: "conflict_db \<Rightarrow> (var_id \<Rightarrow> var_id list) \<Rightarrow> var_id \<times> 32 word \<Rightarrow> bool" where
  "has_history db hist = (\<lambda>(v, i). time_chain db (Some v) (hist v) \<and> distinct (hist v) \<and>
     set (hist v) \<subseteq> set (variables db) \<and> (\<forall>x \<in> set (hist v). i < get_nvalues db x))"

definition prop_at :: "conflict_db \<Rightarrow> var_id \<Rightarrow> 32 word \<Rightarrow> prop_id" where
  "prop_at db x i = propositions (vheap db x) ! unat i"

lemma get_prop_at: "i < get_nvalues db x \<Longrightarrow> get_prop db x i = Inr (prop_at db x i)"
  by (simp add: get_prop_def prop_at_def l2_assert_def)

lemma prop_at_props:
  assumes "cdb_ok db" "x \<in> set (variables db)" "i < get_nvalues db x"
  shows "prop_at db x i \<in> set (props (solver db))"
proof -
  have st: "length (propositions (vheap db x)) < 128" "set (propositions (vheap db x)) \<subseteq> set (props (solver db))"
    using cdb_invD(6) [OF assms(1,2)] by (simp_all add: var_static_def)
  have "unat (get_nvalues db x) = length (propositions (vheap db x))"
    using st(1) by (simp add: get_nvalues_def unat_of_nat take_bit_nat_eq_self)
  then have "unat i < length (propositions (vheap db x))" using assms(3) by (simp add: word_less_nat_alt)
  then show ?thesis using st(2) by (auto simp: prop_at_def)
qed

lemma history_fuel:
  assumes "cdb_ok db" "has_history db hist (v, i)"
  shows "length (hist v) < chain_fuel db"
proof -
  have "set (hist v) \<subseteq> {0..<next_var db}"
    using assms cdb_invD(6) [OF assms(1)] by (fastforce simp: has_history_def var_static_def)
  then have "card (set (hist v)) \<le> next_var db" using card_mono [of "{0..<next_var db}" "set (hist v)"] by simp
  then show ?thesis using assms(2) by (simp add: has_history_def chain_fuel_def distinct_card)
qed

subsection \<open>Instantiating a prototype\<close>

text \<open>The proposition of an antecedent, at the latest time step before \<open>t\<close>.\<close>

definition guard_prop :: "conflict_db \<Rightarrow> (var_id \<Rightarrow> var_id list) \<Rightarrow> time_step_t \<Rightarrow> var_id \<times> 32 word \<Rightarrow> prop_id" where
  "guard_prop db hist t = (\<lambda>(v, i). prop_at db (the (earlier db t (hist v))) i)"

definition guard_ok :: "conflict_db \<Rightarrow> (var_id \<Rightarrow> var_id list) \<Rightarrow> time_step_t \<Rightarrow> var_id \<times> 32 word \<Rightarrow> bool" where
  "guard_ok db hist t lit \<longleftrightarrow> has_history db hist lit \<and> (\<exists>x \<in> set (hist (fst lit)). v_time_step (vheap db x) < t)"

lemma guard_step:
  assumes inv: "cdb_ok db" and g: "guard_ok db hist t (v, i)"
  shows "prop_closest_before (chain_fuel db) db i t (Some v) = Inr (Some (guard_prop db hist t (v, i)))"
    and "guard_prop db hist t (v, i) \<in> set (props (solver db))"
proof -
  have "earlier db t (hist v) \<noteq> None" using g by (auto simp: guard_ok_def earlier_def find_None_iff)
  then obtain x where x: "earlier db t (hist v) = Some x" by blast
  then have "x \<in> set (hist v)" by (auto simp: earlier_def find_Some_iff)
  have h: "has_history db hist (v, i)" using g by (simp add: guard_ok_def)
  then have n: "x \<in> set (variables db)" "i < get_nvalues db x" using \<open>x \<in> set (hist v)\<close> by (auto simp: has_history_def)
  show "prop_closest_before (chain_fuel db) db i t (Some v) = Inr (Some (guard_prop db hist t (v, i)))"
    using prop_closest_before_chain [OF _ history_fuel [OF inv h], where v = "Some v" and db = db] h x get_prop_at [OF n(2)]
    by (simp add: has_history_def guard_prop_def)
  show "guard_prop db hist t (v, i) \<in> set (props (solver db))"
    using prop_at_props [OF inv n] x by (simp add: guard_prop_def)
qed

lemma antecedents_eq:
  assumes "cdb_ok db" "\<forall>lit \<in> set lits. guard_ok db hist t lit"
  shows "antecedents db t lits = Inr (rev (map (guard_prop db hist t) lits))"
proof -
  let ?f = "\<lambda>(v, i) ps. rbind (prop_closest_before (chain_fuel db) db i t (Some v))
     (\<lambda>q. case q of None \<Rightarrow> Inl Assert_failed | Some p \<Rightarrow> Inr (p # ps))"
  have "rfold ?f lits ps = Inr (rev (map (guard_prop db hist t) lits) @ ps)" for ps
    using assms(2)
  proof (induction lits arbitrary: ps)
    case (Cons lit lits)
    obtain v i where lit: "lit = (v, i)" by (cases lit)
    show ?case using Cons.IH Cons.prems guard_step(1) [OF assms(1), of hist t v i] by (simp add: lit)
  qed simp
  then show ?thesis by (simp add: antecedents_def)
qed

text \<open>The transition variable whose value the clause mentions, none while planning.\<close>

definition transition_guard :: "mode_system \<Rightarrow> proto_transition \<Rightarrow> time_step_t \<Rightarrow> time_step_t \<Rightarrow> prop_id set res" where
  "transition_guard w p t1 t2 = (if planning (sys w) then Inr {}
     else rbind (which_transition w p t1 t2) (\<lambda>z. rbind (get_prop (mdb w) z (transition_value p)) (\<lambda>q. Inr {q})))"

text \<open>
  C27. Instantiating a prototype adds the rule it stands for. The assignments of truth values that
  satisfy the theory afterwards are those that satisfied it before and in which the consequent,
  at the first time step on or after the given one, follows from the transition's value, the
  negative literals and the negations of the positive ones, at their latest time step before.
\<close>

theorem instantiate_adds_rule:
  assumes inv: "cdb_ok (mdb w)"
    and guards: "\<forall>lit \<in> set (positives p @ negatives p). guard_ok (mdb w) hist t2 lit"
    and cons: "has_history (mdb w) hist (consequent p)"
    and trans: "transition_guard w p t1 t2 = Inr T" "T \<subseteq> set (props (solver (mdb w)))"
    and small: "length (positives p) + length (negatives p) < 126"
  shows "returns (instantiate v t1 t2 p w) (\<lambda>w'. cdb_ok (mdb w') \<and>
    (\<forall>m. models m (formula (solver (mdb w'))) \<longleftrightarrow> models m (formula (solver (mdb w))) \<and>
       ((\<forall>q \<in> T. m q) \<and> (\<forall>lit \<in> set (negatives p). m (guard_prop (mdb w) hist t2 lit)) \<and>
        (\<forall>lit \<in> set (positives p). \<not> m (guard_prop (mdb w) hist t2 lit)) \<longrightarrow>
        m (prop_at (mdb w) (since (mdb w) t2 (hist (fst (consequent p)))) (snd (consequent p))))))"
proof -
  let ?db = "mdb w" and ?g = "guard_prop (mdb w) hist t2"
  let ?q = "prop_at ?db (since ?db t2 (hist (fst (consequent p)))) (snd (consequent p))"
  obtain v0 i0 where c: "consequent p = (v0, i0)" by (cases "consequent p")
  have h: "time_chain ?db (Some v0) (hist v0)" "set (hist v0) \<subseteq> set (variables ?db)" "\<forall>x \<in> set (hist v0). i0 < get_nvalues ?db x"
    using cons by (simp_all add: has_history_def c)
  have "hist v0 \<noteq> []" using h(1) by auto
  then have mem: "since ?db t2 (hist v0) \<in> set (hist v0)"
    unfolding since_def by (metis hd_in_set in_mono insert_iff last_in_set list.set(2) list.simps(3) set_takeWhileD subsetI)
  have q: "prop_closest_after (chain_fuel ?db) ?db (consequent p) t2 = Inr ?q" "?q \<in> set (props (solver ?db))"
    using prop_closest_after_chain [of ?db "consequent p" "hist v0" "chain_fuel ?db" t2] h mem
      history_fuel [OF inv, of hist v0 i0] cons get_prop_at [of i0 ?db] prop_at_props [OF inv] by (auto simp: c)
  obtain neg where neg: "(if planning (sys w) then Inr (rev (map ?g (negatives p)))
       else rbind (which_transition w p t1 t2) (\<lambda>t. rbind (get_prop ?db t (transition_value p))
              (\<lambda>q. Inr (q # rev (map ?g (negatives p)))))) = Inr neg"
    and set_neg: "set neg = T \<union> ?g ` set (negatives p)" "length neg \<le> Suc (length (negatives p))"
    using trans(1) by (auto simp: transition_guard_def rbind_def split: if_splits sum.splits)
  let ?pos = "?q # rev (map ?g (positives p))"
  have lits: "instantiate_literals w p t1 t2 = Inr (?pos, neg)"
    using antecedents_eq [OF inv, of "positives p" hist t2] antecedents_eq [OF inv, of "negatives p" hist t2] guards neg q(1)
    by (simp add: instantiate_literals_def set_antecedants_def)
  have "?g lit \<in> set (props (solver ?db))" if "lit \<in> set (positives p @ negatives p)" for lit
    using guard_step(2) [OF inv, of hist t2] guards that by (cases lit) auto
  then have "valid_clause ?pos neg (solver ?db)"
    using q(2) trans(2) set_neg small by (intro small_clause) auto
  from create_transition_clause_adds [OF inv this, of v]
  show ?thesis
    unfolding instantiate_def lits rbind_simps prod.case
    by (rule returns_mono) (auto simp: adds_def models_Un models_def rule_clause_holds set_neg)
qed

end
