(* ===== verification/Mode_History.thy ===== *)
theory Mode_History
  imports Mode_Clauses
begin

text \<open>
  Copies of variables in the past: linking variables over time keeps the invariant of the database,
  and each copy becomes the newest entry of the variable's history.
\<close>

subsection \<open>Histories\<close>

lemma time_chain_cong:
  "time_chain db v xs \<Longrightarrow> (\<And>x. x \<in> set xs \<Longrightarrow> v_previous (vheap db' x) = v_previous (vheap db x)) \<Longrightarrow> time_chain db' v xs"
  by (induction xs arbitrary: v) auto

subsection \<open>Variables that have just been made\<close>

definition made :: "var_id \<Rightarrow> time_step_t \<Rightarrow> 32 word \<Rightarrow> conflict_db \<Rightarrow> bool" where
  "made v t i db \<longleftrightarrow> v_time_step (vheap db v) = t \<and> v_id (vheap db v) = i \<and> v_previous (vheap db v) = None \<and>
     v_next (vheap db v) = None"

lemma insert_variable_vheap: "insert_variable v db = Inr db' \<Longrightarrow> vheap db' = vheap db"
  by (auto simp: insert_variable_def variables_insert_before_def rbind_def split: sum.splits option.splits if_splits)

lemma new_variable_made: "new_variable k n t i db = Inr (v, db') \<Longrightarrow> made v t i db'"
  unfolding new_variable_def
  by (auto simp: rbind_def made_def Let_def no_variable_def split: sum.splits prod.splits dest!: insert_variable_vheap)

lemma create_assignment_made: "create_assignment v j db = Inr db' \<Longrightarrow> made u t i db' = made u t i db"
  by (cases "u = v") (auto simp: create_assignment_def made_def rbind_def Let_def split: sum.splits prod.splits)

lemma rfold_keeps:
  assumes "\<And>x s s'. f x s = Inr s' \<Longrightarrow> P s \<Longrightarrow> P s'"
  shows "rfold f xs s = Inr s' \<Longrightarrow> P s \<Longrightarrow> P s'"
proof (induction xs arbitrary: s)
  case (Cons x xs)
  then show ?case using assms by (cases "f x s") auto
qed simp

lemma new_assignable_made: "new_assignable k n t i db = Inr (v, db') \<Longrightarrow> made v t i db'"
proof -
  assume "new_assignable k n t i db = Inr (v, db')"
  then obtain db1 where "new_variable k n t i db = Inr (v, db1)"
    "rfold (create_assignment v) [0..<unat (get_nvalues db1 v)] db1 = Inr db'"
    by (auto simp: new_assignable_def rbind_def split: sum.splits)
  then show ?thesis
    using rfold_keeps [of "create_assignment v" "made v t i"] create_assignment_made new_variable_made by metis
qed

text \<open>The four ways to make a copy.\<close>

definition makes_copy ::
  "kind \<Rightarrow> (32 word \<Rightarrow> time_step_t \<Rightarrow> 32 word \<Rightarrow> conflict_db \<Rightarrow> (var_id \<times> conflict_db) res) \<Rightarrow> bool" where
  "makes_copy k create \<longleftrightarrow> (\<forall>db n t i. cdb_ok db \<longrightarrow> unat n < 128 \<longrightarrow> returns (create n t i db) (\<lambda>(v, db').
     cdb_ok db' \<and> v \<notin> set (variables db) \<and> set (variables db') = insert v (set (variables db)) \<and>
     (\<forall>u \<in> set (variables db). vheap db' u = vheap db u) \<and> v_kind (vheap db' v) = k \<and>
     length (propositions (vheap db' v)) = unat n \<and> made v t i db'))"

lemma create_dependent_copies: "makes_copy Dependent create_dependent"
proof -
  have "returns (create_dependent n t i db) (\<lambda>(v, db'). new_var_ok {} v Dependent (unat n) db db' \<and> made v t i db')"
    if "cdb_ok db" "unat n < 128" for n t i db
    using create_dependent_ok [OF that, of t i] new_variable_made [of Dependent n t i db]
    by (auto simp: returns_iff create_dependent_def)
  then show ?thesis by (fastforce simp: makes_copy_def new_var_ok_def old_kept_def elim!: returns_mono)
qed

lemma create_assignable_copies:
  assumes k: "is_assignable (class_of k)" "\<not> is_assumption (class_of k)"
  shows "makes_copy k (\<lambda>n t i db. rbind (new_assignable k n t i db) (\<lambda>(v, db1). Inr (v, registerAssignable v db1)))"
  unfolding makes_copy_def
proof (intro allI impI)
  fix db n t i
  assume "cdb_ok db" "unat (n :: 32 word) < 128"
  then obtain v db1 where r: "new_assignable k n t i db = Inr (v, db1)" "new_var_ok (insert v {}) v k (unat n) db db1"
    using new_assignable_ok [of "{}" db n k t i] k(1) by (auto simp: returns_iff)
  have ok: "new_var_ok {} v k (unat n) db db1" by (rule new_var_complete [OF r(2) k])
  then have "cdb_ok (registerAssignable v db1)" using new_var_inv registerAssignable_inv by (simp add: registerAssignable_def)
  then show "returns (rbind (new_assignable k n t i db) (\<lambda>(v, db1). Inr (v, registerAssignable v db1))) (\<lambda>(v, db').
     cdb_ok db' \<and> v \<notin> set (variables db) \<and> set (variables db') = insert v (set (variables db)) \<and>
     (\<forall>u \<in> set (variables db). vheap db' u = vheap db u) \<and> v_kind (vheap db' v) = k \<and>
     length (propositions (vheap db' v)) = unat n \<and> made v t i db')"
    using ok new_assignable_made [OF r(1)] by (simp add: r(1) new_var_ok_def old_kept_def registerAssignable_def made_def)
qed

lemma makes_copies:
  "makes_copy Dependent create_dependent" "makes_copy Plain_assignable create_assignable"
  "makes_copy Command create_command" "makes_copy Observable create_observable"
  using create_dependent_copies create_assignable_copies [of Plain_assignable] create_assignable_copies [of Command]
    create_assignable_copies [of Observable]
  by (simp_all add: create_assignable_def [abs_def] create_command_def [abs_def] create_observable_def [abs_def] class_defs)

subsection \<open>Copies\<close>

lemma copy_with_ok:
  assumes c: "makes_copy k create" and inv: "cdb_ok (ts_db ts)" and now: "now \<in> set (variables (ts_db ts))"
    and h: "time_chain (ts_db ts) (Some now) (now # hist)" "distinct (now # hist)" "set hist \<subseteq> set (variables (ts_db ts))"
  shows "returns (copy_with create now ts) (\<lambda>(past, ts'). cdb_ok (ts_db ts') \<and> past \<notin> set (variables (ts_db ts)) \<and>
    set (variables (ts_db ts')) = insert past (set (variables (ts_db ts))) \<and>
    time_chain (ts_db ts') (Some now) (now # past # hist) \<and> v_kind (vheap (ts_db ts') past) = k \<and>
    v_time_step (vheap (ts_db ts') past) = timestep ts \<and> v_id (vheap (ts_db ts') past) = v_id (vheap (ts_db ts) now) \<and>
    length (propositions (vheap (ts_db ts') past)) = length (propositions (vheap (ts_db ts) now)))"
proof -
  let ?db = "ts_db ts" and ?n = "get_nvalues (ts_db ts) now" and ?i = "v_id (vheap (ts_db ts) now)"
  have "length (propositions (vheap ?db now)) < 128" using cdb_invD(6) [OF inv now] by (simp add: var_static_def)
  then have n: "unat ?n = length (propositions (vheap ?db now))" "unat ?n < 128"
    by (simp_all add: get_nvalues_def unat_of_nat take_bit_nat_eq_self)
  then obtain p db1 where r: "create ?n (timestep ts) ?i ?db = Inr (p, db1)" "cdb_ok db1" "p \<notin> set (variables ?db)"
    "set (variables db1) = insert p (set (variables ?db))" "\<forall>u \<in> set (variables ?db). vheap db1 u = vheap ?db u"
    "v_kind (vheap db1 p) = k" "length (propositions (vheap db1 p)) = unat ?n" "made p (timestep ts) ?i db1"
    using c [unfolded makes_copy_def, rule_format, OF inv n(2), of "timestep ts" ?i] by (auto simp: returns_iff)
  have prev: "v_previous (vheap db1 now) = v_previous (vheap ?db now)" "v_previous (vheap db1 p) = None" "p \<noteq> now"
    using r(3,5,8) now by (auto simp: made_def)
  obtain db2 where ip: "insert_previous now (Some p) db1 = Inr db2" by (simp add: insert_previous_def Let_def)
  have v: "v_previous (vheap db2 now) = Some p" "v_previous (vheap db2 p) = v_previous (vheap ?db now)"
    "u \<noteq> now \<Longrightarrow> u \<noteq> p \<Longrightarrow> v_previous (vheap db2 u) = v_previous (vheap db1 u)"
    "v_kind (vheap db2 u) = v_kind (vheap db1 u)" "v_time_step (vheap db2 u) = v_time_step (vheap db1 u)"
    "v_id (vheap db2 u) = v_id (vheap db1 u)" "propositions (vheap db2 u) = propositions (vheap db1 u)"
    "variables db2 = variables db1" for u
    using ip prev by (auto simp: insert_previous_def Let_def split: option.splits)
  have "time_chain db2 (v_previous (vheap ?db now)) hist"
  proof (rule time_chain_cong [of ?db])
    show "time_chain ?db (v_previous (vheap ?db now)) hist" using h(1) by simp
    show "v_previous (vheap db2 x) = v_previous (vheap ?db x)" if "x \<in> set hist" for x
    proof -
      have x: "x \<in> set (variables ?db)" "x \<noteq> now" using that h(2,3) by auto
      then have "x \<noteq> p" using r(3) by auto
      then show ?thesis using x v(3) [of x] r(5) by simp
    qed
  qed
  then show ?thesis
    using insert_previous_inv [OF r(2) ip] r v n(1)
    by (simp add: copy_with_def in_db_val_def in_db_def ip made_def)
qed

text \<open>
  C29. \<open>copy_in_past\<close>, in its four overloads: the copy has the class of the overload called, which
  is \<open>Dependent\<close>, \<open>Assignable\<close>, \<open>Command\<close> or \<open>Observable\<close> whatever the class of the variable itself
  (the copy of a mode is a \<open>Dependent\<close>), the number of values and the identifier of the variable and
  the time step that has passed, and it becomes the newest entry of the variable's history, whose
  older entries stay in order; the database stays well-formed.
\<close>

theorem copy_extends_history:
  assumes "cdb_ok (ts_db ts)" "now \<in> set (variables (ts_db ts))"
    and "time_chain (ts_db ts) (Some now) (now # hist)" "distinct (now # hist)" "set hist \<subseteq> set (variables (ts_db ts))"
    and "(copy, k) \<in> {(copy_dependent, Dependent), (copy_assignable, Plain_assignable), (copy_command, Command),
      (copy_observable, Observable)}"
  shows "returns (copy now ts) (\<lambda>(past, ts'). cdb_ok (ts_db ts') \<and> past \<notin> set (variables (ts_db ts)) \<and>
    set (variables (ts_db ts')) = insert past (set (variables (ts_db ts))) \<and>
    time_chain (ts_db ts') (Some now) (now # past # hist) \<and> v_kind (vheap (ts_db ts') past) = k \<and>
    v_time_step (vheap (ts_db ts') past) = timestep ts \<and> v_id (vheap (ts_db ts') past) = v_id (vheap (ts_db ts) now) \<and>
    length (propositions (vheap (ts_db ts') past)) = length (propositions (vheap (ts_db ts) now)))"
  using assms(6) copy_with_ok [OF makes_copies(1) assms(1-5)] copy_with_ok [OF makes_copies(2) assms(1-5)]
    copy_with_ok [OF makes_copies(3) assms(1-5)] copy_with_ok [OF makes_copies(4) assms(1-5)]
  by (auto simp only: copy_dependent_def copy_assignable_def copy_command_def copy_observable_def insert_iff empty_iff prod.inject)

subsection \<open>A concrete mode\<close>

text \<open>
  A mode with one value, now and before, and a transition variable: the three variables of
  \<open>demo_three\<close>, linked over time.
\<close>

definition demo_linked :: "conflict_db \<Rightarrow> conflict_db" where
  "demo_linked db = upd_var 0 (\<lambda>x. x\<lparr>v_previous := Some 1, v_time_step := NOW\<rparr>) db"

definition demo_mode :: "proto_transition list \<Rightarrow> mode_system" where
  "demo_mode ps = \<lparr>sys = (new_t_system 3 5 True)\<lparr>ts_db := (case demo_three of Inl e \<Rightarrow> new_conflict_db | Inr db \<Rightarrow> demo_linked db)\<rparr>,
     modes = (\<lambda>_. \<lparr>indexed_transition_table = [], unindexed_prototypes = ps, autonomous_transitions = [],
       transition_clauses = [], all_transition_clauses = [], now_has_failure_from_horizon = False,
       horizon_transition = 2, zenith_transition = 2, transition_costs = [0], ntransitions = 1\<rparr>)\<rparr>"

lemma demo_three_ok:
  assumes "demo_three = Inr db"
  shows "cdb_ok db"
proof -
  have step: "cdb_ok db'" if "create_dependent 1 t i db = Inr (v, db')" "cdb_ok db" for t i v db db'
    using create_dependent_ok [OF that(2), of 1 t i] that(1) by (simp add: new_var_ok_def)
  show ?thesis
    using assms by (auto simp: demo_three_def demo_two_def rbind_def split: sum.splits dest!: step new_conflict_db_ok [THEN step [rotated]])
qed

lemma demo_mode_fields:
  "cdb_ok (mdb (demo_mode ps))" "variables (mdb (demo_mode ps)) = [2, 1, 0]"
  "propositions (vheap (mdb (demo_mode ps)) 0) = [0]" "propositions (vheap (mdb (demo_mode ps)) 1) = [1]"
  "propositions (vheap (mdb (demo_mode ps)) 2) = [2]" "v_previous (vheap (mdb (demo_mode ps)) 0) = Some 1"
  "v_previous (vheap (mdb (demo_mode ps)) 1) = None" "v_time_step (vheap (mdb (demo_mode ps)) 0) = NOW"
  "v_time_step (vheap (mdb (demo_mode ps)) 1) = 0" "props (solver (mdb (demo_mode ps))) = [0, 1, 2]"
  "zenith_transition (modes (demo_mode ps) v) = 2" "planning (sys (demo_mode ps)) = False"
  "timestep (sys (demo_mode ps)) = 0" "v_id (vheap (mdb (demo_mode ps)) 0) = 1"
proof -
  obtain db where db: "demo_three = Inr db" by (simp add: demo_three_eq)
  have "cdb_ok (demo_linked db)" unfolding demo_linked_def
    by (rule link_inv [OF _ demo_three_ok [OF db]]) (simp add: link_only_def)
  then show "cdb_ok (mdb (demo_mode ps))" by (simp add: demo_mode_def db)
qed (simp_all add: demo_mode_def demo_three_eq demo_linked_def no_variable_def new_t_system_def)

theorem copy_extends_history_witness:
  "returns (copy_dependent 0 (sys (demo_mode []))) (\<lambda>(past, ts'). time_chain (ts_db ts') (Some 0) [0, past, 1])"
proof (rule returns_mono)
  show "returns (copy_dependent 0 (sys (demo_mode []))) (\<lambda>(past, ts'). cdb_ok (ts_db ts') \<and>
    past \<notin> set (variables (mdb (demo_mode []))) \<and>
    set (variables (ts_db ts')) = insert past (set (variables (mdb (demo_mode [])))) \<and>
    time_chain (ts_db ts') (Some 0) (0 # past # [1]) \<and> v_kind (vheap (ts_db ts') past) = Dependent \<and>
    v_time_step (vheap (ts_db ts') past) = timestep (sys (demo_mode [])) \<and>
    v_id (vheap (ts_db ts') past) = v_id (vheap (mdb (demo_mode [])) 0) \<and>
    length (propositions (vheap (ts_db ts') past)) = length (propositions (vheap (mdb (demo_mode [])) 0)))"
    by (rule copy_extends_history) (simp_all add: demo_mode_fields demo_mode_fields(7) [unfolded One_nat_def])
qed auto

text \<open>With a nominal transition the mode that was on is on.\<close>

theorem idle_keeps_mode_witness:
  "returns (add_idle_transitions 0 (demo_mode [])) (\<lambda>w'. \<forall>m. models m (formula (solver (mdb w'))) \<longrightarrow> m 2 \<longrightarrow> m 1 \<longrightarrow> m 0)"
proof -
  let ?w = "demo_mode []"
  have "returns (add_idle_transitions 0 ?w) (\<lambda>w'.
    (\<forall>m. models m (formula (solver (mdb w'))) \<longleftrightarrow> models m (formula (solver (mdb ?w))) \<and>
       (m 2 \<longrightarrow> (\<forall>i < length (propositions (vheap (mdb ?w) 0)).
          m (propositions (vheap (mdb ?w) 1) ! i) \<longrightarrow> m (propositions (vheap (mdb ?w) 0) ! i)))) \<and>
    cdb_ok (mdb w') \<and> (\<exists>s. sys w' = (sys ?w)\<lparr>ts_db := (mdb ?w)\<lparr>solver := s\<rparr>\<rparr>))"
    by (rule idle_keeps_mode [where failures = "[]" and past = 1 and z = 2 and nominal = 2]) (simp_all add: demo_mode_fields demo_mode_fields(4) [unfolded One_nat_def])
  then show ?thesis
  proof (rule returns_mono)
    fix w'
    assume "(\<forall>m. models m (formula (solver (mdb w'))) \<longleftrightarrow> models m (formula (solver (mdb ?w))) \<and>
       (m 2 \<longrightarrow> (\<forall>i < length (propositions (vheap (mdb ?w) 0)).
          m (propositions (vheap (mdb ?w) 1) ! i) \<longrightarrow> m (propositions (vheap (mdb ?w) 0) ! i)))) \<and>
      cdb_ok (mdb w') \<and> (\<exists>s. sys w' = (sys ?w)\<lparr>ts_db := (mdb ?w)\<lparr>solver := s\<rparr>\<rparr>)"
    then show "\<forall>m. models m (formula (solver (mdb w'))) \<longrightarrow> m 2 \<longrightarrow> m 1 \<longrightarrow> m 0"
      unfolding demo_mode_fields by (elim conjE) simp
  qed
qed

text \<open>A command that takes the mode from its value at one time step to its value at the next.\<close>

definition demo_proto :: proto_transition where
  "demo_proto = commanded_proto (mdb (demo_mode [])) 0 0 0 [] [] 0"

theorem instantiate_adds_rule_witness:
  "returns (instantiate 0 NOW NOW demo_proto (demo_mode []))
     (\<lambda>w'. \<forall>m. models m (formula (solver (mdb w'))) \<longrightarrow> m 2 \<longrightarrow> m 1 \<longrightarrow> m 0)"
proof -
  let ?w = "demo_mode []" and ?h = "\<lambda>_. [0, 1] :: var_id list"
  have p: "positives demo_proto = []" "negatives demo_proto = [(0, 0)]" "consequent demo_proto = (0, 0)"
    "mode_var demo_proto = 0" "transition_value demo_proto = 0"
    by (simp_all add: demo_proto_def commanded_proto_def)
  note f = demo_mode_fields [of "[]"] demo_mode_fields(7) [of "[]", unfolded One_nat_def]
    demo_mode_fields(5,9) [of "[]", unfolded One_nat_def]
  have h: "has_history (mdb ?w) ?h (0, 0)" by (simp add: has_history_def f get_nvalues_def demo_mode_fields(4) [of "[]", unfolded One_nat_def])
  have e: "earlier (mdb ?w) NOW [0, 1] = Some 1" by (simp add: earlier_def f NOW_def word_gt_0)
  have s: "since (mdb ?w) NOW [0, 1] = 0" by (simp add: since_def f NOW_def)
  have "returns (instantiate 0 NOW NOW demo_proto ?w) (\<lambda>w'. cdb_ok (mdb w') \<and>
    (\<forall>m. models m (formula (solver (mdb w'))) \<longleftrightarrow> models m (formula (solver (mdb ?w))) \<and>
       ((\<forall>q \<in> {2}. m q) \<and> (\<forall>lit \<in> set (negatives demo_proto). m (guard_prop (mdb ?w) ?h NOW lit)) \<and>
        (\<forall>lit \<in> set (positives demo_proto). \<not> m (guard_prop (mdb ?w) ?h NOW lit)) \<longrightarrow>
        m (prop_at (mdb ?w) (since (mdb ?w) NOW (?h (fst (consequent demo_proto)))) (snd (consequent demo_proto))))))"
  proof (rule instantiate_adds_rule)
    show "\<forall>lit \<in> set (positives demo_proto @ negatives demo_proto). guard_ok (mdb ?w) ?h NOW lit"
      using h by (simp add: p guard_ok_def f NOW_def word_gt_0)
    show "transition_guard ?w demo_proto NOW NOW = Inr {2}"
      by (simp add: transition_guard_def which_transition_def p f get_prop_def get_nvalues_def l2_assert_def Let_def)
  qed (use h in \<open>simp_all add: p f\<close>)
  then show ?thesis
  proof (rule returns_mono)
    have g: "guard_prop (mdb ?w) ?h NOW (0, 0) = 1" "prop_at (mdb ?w) 0 0 = 0"
      unfolding guard_prop_def prod.case e by (simp_all add: prop_at_def f demo_mode_fields(4) [of "[]", unfolded One_nat_def])
    fix w'
    assume "cdb_ok (mdb w') \<and> (\<forall>m. models m (formula (solver (mdb w'))) \<longleftrightarrow> models m (formula (solver (mdb ?w))) \<and>
       ((\<forall>q \<in> {2}. m q) \<and> (\<forall>lit \<in> set (negatives demo_proto). m (guard_prop (mdb ?w) ?h NOW lit)) \<and>
        (\<forall>lit \<in> set (positives demo_proto). \<not> m (guard_prop (mdb ?w) ?h NOW lit)) \<longrightarrow>
        m (prop_at (mdb ?w) (since (mdb ?w) NOW (?h (fst (consequent demo_proto)))) (snd (consequent demo_proto)))))"
    then show "\<forall>m. models m (formula (solver (mdb w'))) \<longrightarrow> m 2 \<longrightarrow> m 1 \<longrightarrow> m 0"
      unfolding p s g fst_conv snd_conv by (elim conjE) (simp add: g [unfolded One_nat_def])
  qed
qed

end
