(* ===== verification/Progress_Properties.thy ===== *)
theory Progress_Properties
  imports Mode_History
begin

text \<open>
  What a step of progress does to the assignments of the time step that has passed, to the table of
  prototypes, and to time itself.
\<close>

subsection \<open>The present variables\<close>

definition present_list :: "t_system \<Rightarrow> var_id list \<Rightarrow> bool" where
  "present_list ts xs \<longleftrightarrow> unat (npresent_variables ts) = length xs \<and>
     (\<forall>i < length xs. array_get (present_variables ts) (of_nat i) = Inr (Some (xs ! i)))"

lemma for_present_rule:
  assumes "present_list ts xs" "I [] ts"
    and step: "\<And>as v bs t. xs = as @ v # bs \<Longrightarrow> I as t \<Longrightarrow> present_variables t = present_variables ts \<Longrightarrow>
      returns (f v t) (\<lambda>t'. I (as @ [v]) t' \<and> present_variables t' = present_variables ts)"
  shows "returns (for_present f ts) (I xs)"
proof -
  let ?I = "\<lambda>is t. I (take (length is) xs) t \<and> present_variables t = present_variables ts"
  have n: "unat (npresent_variables ts) = length xs" using assms(1) by (simp add: present_list_def)
  have "returns (for_present f ts) (?I [0..<length xs])"
    unfolding for_present_def n
  proof (rule rfold_rule)
    show "?I [] ts" using assms(2) by simp
    fix js j ks t
    assume z: "[0..<length xs] = js @ j # ks" and I: "?I js t"
    have "[0..<length xs] ! length js = j" "length js < length xs"
      by (simp add: z) (use arg_cong [OF z, of length] in simp)
    then have j: "j = length js" "j < length xs" by simp_all
    have s: "xs = take j xs @ xs ! j # drop (Suc j) xs" using id_take_nth_drop [OF j(2)] .
    have "returns (f (xs ! j) t) (\<lambda>t'. I (take j xs @ [xs ! j]) t' \<and> present_variables t' = present_variables ts)"
      using step [OF s] I j(1) by simp
    moreover have "take (Suc j) xs = take j xs @ [xs ! j]" using j(2) by (rule take_Suc_conv_app_nth)
    ultimately show "returns (rbind (array_get (present_variables t) (of_nat j)) (\<lambda>p.
        case p of None \<Rightarrow> Inl Bad_pointer | Some v \<Rightarrow> f v t)) (?I (js @ [j]))"
      using assms(1) j I by (simp add: present_list_def)
  qed
  then show ?thesis by (rule returns_mono) simp
qed

subsection \<open>The assignments of the past\<close>

text \<open>The assignment of a present variable that its past gets: the command, or what it has.\<close>

definition copied :: "conflict_db \<Rightarrow> assignment_id option \<Rightarrow> var_id \<Rightarrow> assignment_id option" where
  "copied db cmd v = (if \<exists>a. cmd = Some a \<and> a_variable (aheap db a) = v then cmd else v_current (vheap db v))"

definition past_value :: "conflict_db \<Rightarrow> var_id \<Rightarrow> assignment_id option \<Rightarrow> assignment_id option" where
  "past_value db p b = map_option (\<lambda>b. v_assignments (vheap db p) ! unat (a_index (aheap db b))) b"

lemma past_assignment_ok:
  assumes inv: "cdb_ok db" and p: "v_previous (vheap db v) = Some p" "p \<in> set (variables db)"
    and bound: "\<And>b. copied db cmd v = Some b \<Longrightarrow> unat (a_index (aheap db b)) < length (v_assignments (vheap db p))"
  shows "returns (past_assignment cmd v db) (\<lambda>db'. cdb_ok db' \<and> same_but_current db db' \<and>
    v_current (vheap db' p) = past_value db p (copied db cmd v) \<and>
    exogenouslyAssigned (vheap db' p) = (\<exists>a. cmd = Some a \<and> a_variable (aheap db a) = v) \<and>
    (\<forall>u. u \<noteq> p \<longrightarrow> v_current (vheap db' u) = v_current (vheap db u) \<and>
       exogenouslyAssigned (vheap db' u) = exogenouslyAssigned (vheap db u)))"
proof -
  let ?b = "\<exists>a. cmd = Some a \<and> a_variable (aheap db a) = v"
  let ?m = "case copied db cmd v of None \<Rightarrow> unassign_var p db | Some b \<Rightarrow> assign_index p (a_index (aheap db b)) db"
  have eq: "past_assignment cmd v db = rbind ?m (\<lambda>db1. Inr (set_exogenously_assigned p ?b db1))"
    using p(1) by (cases cmd) (auto simp: past_assignment_def copied_def assign_like_def split: option.splits)
  have "returns ?m (\<lambda>db1. cdb_ok db1 \<and> assigned_to p (past_value db p (copied db cmd v)) db db1)"
    using unassign_var_ok [OF inv p(2)] assign_index_ok(1) [OF inv p(2) bound]
    by (cases "copied db cmd v") (simp_all add: past_value_def)
  then obtain db1 where db1: "?m = Inr db1" "cdb_ok db1" "assigned_to p (past_value db p (copied db cmd v)) db db1"
    by (auto simp: returns_iff)
  show ?thesis
    unfolding eq db1(1)
    using exogenous_inv [OF db1(2), of p ?b] assigned_toD(1,2,5) [OF db1(3)]
    by (auto simp: set_exogenously_assigned_def intro: same_but_current_trans)
qed

text \<open>
  Every present variable that can be assigned has its own past variable with the same values, which
  is not a present one.
\<close>

definition copies_made :: "conflict_db \<Rightarrow> var_id list \<Rightarrow> (var_id \<Rightarrow> var_id) \<Rightarrow> bool" where
  "copies_made db xs past \<longleftrightarrow> distinct xs \<and> inj_on past (set xs) \<and> past ` set xs \<inter> set xs = {} \<and>
     (\<forall>v \<in> set xs. is_assignable (class_of (v_kind (vheap db v))) \<longrightarrow> v_previous (vheap db v) = Some (past v) \<and>
        {v, past v} \<subseteq> set (variables db) \<and>
        length (v_assignments (vheap db (past v))) = length (v_assignments (vheap db v)))"

text \<open>What holds after the variables \<open>as\<close>: their pasts have got their values, the present is as before.\<close>

definition past_done ::
  "conflict_db \<Rightarrow> assignment_id option \<Rightarrow> (var_id \<Rightarrow> var_id) \<Rightarrow> conflict_db \<Rightarrow> var_id \<Rightarrow> bool" where
  "past_done db0 cmd past db v \<longleftrightarrow> v_current (vheap db (past v)) = past_value db0 (past v) (copied db0 cmd v) \<and>
     exogenouslyAssigned (vheap db (past v)) = (\<exists>a. cmd = Some a \<and> a_variable (aheap db0 a) = v)"

definition copy_state ::
  "conflict_db \<Rightarrow> assignment_id option \<Rightarrow> (var_id \<Rightarrow> var_id) \<Rightarrow> var_id list \<Rightarrow> var_id list \<Rightarrow> conflict_db \<Rightarrow> bool" where
  "copy_state db0 cmd past xs as db \<longleftrightarrow> cdb_ok db \<and> same_but_current db0 db \<and>
     (\<forall>v \<in> set as. is_assignable (class_of (v_kind (vheap db0 v))) \<longrightarrow> past_done db0 cmd past db v) \<and>
     (\<forall>v \<in> set xs. v_current (vheap db v) = v_current (vheap db0 v))"

lemma copied_index:
  assumes "cdb_ok db" "v \<in> set (variables db)" "copied db cmd v = Some b"
    and "\<And>a. cmd = Some a \<Longrightarrow> valid_assignment db a"
  shows "unat (a_index (aheap db b)) < length (v_assignments (vheap db v))"
proof -
  have "b \<in> set (v_assignments (vheap db v))"
    using assms(3,4) cdb_invD(7) [OF assms(1,2)] by (auto simp: copied_def valid_assignment_def var_dynamic_def split: if_splits)
  then obtain i where "i < length (v_assignments (vheap db v))" "i < 128" "a_index (aheap db b) = of_nat i"
    using assignment_of [OF cdb_invD(6) [OF assms(1,2)]] by metis
  then show ?thesis by (simp add: unat_of_nat take_bit_nat_eq_self)
qed

lemma copy_step:
  assumes inv: "cdb_ok db0" and made: "copies_made db0 xs past" and cmd: "\<And>a. cmd = Some a \<Longrightarrow> valid_assignment db0 a"
    and xs: "xs = as @ v # bs" and v: "is_assignable (class_of (v_kind (vheap db0 v)))" and I: "copy_state db0 cmd past xs as db"
  shows "returns (past_assignment cmd v db) (copy_state db0 cmd past xs (as @ [v]))"
proof -
  have ok: "cdb_ok db" and same: "same_but_current db0 db" and cur: "v_current (vheap db v) = v_current (vheap db0 v)"
    using I xs by (simp_all add: copy_state_def)
  note sv = same_but_current_var [OF same]
  have sh: "aheap db = aheap db0" "variables db = variables db0" using same by (simp_all add: same_but_current_def)
  have p: "v_previous (vheap db0 v) = Some (past v)" "v \<in> set (variables db0)" "past v \<in> set (variables db0)"
    "length (v_assignments (vheap db0 (past v))) = length (v_assignments (vheap db0 v))"
    using made v xs by (auto simp: copies_made_def)
  have cop: "copied db cmd v = copied db0 cmd v" using cur by (auto simp: copied_def sh)
  have "returns (past_assignment cmd v db) (\<lambda>db'. cdb_ok db' \<and> same_but_current db db' \<and>
    v_current (vheap db' (past v)) = past_value db (past v) (copied db cmd v) \<and>
    exogenouslyAssigned (vheap db' (past v)) = (\<exists>a. cmd = Some a \<and> a_variable (aheap db a) = v) \<and>
    (\<forall>u. u \<noteq> past v \<longrightarrow> v_current (vheap db' u) = v_current (vheap db u) \<and>
       exogenouslyAssigned (vheap db' u) = exogenouslyAssigned (vheap db u)))"
    by (rule past_assignment_ok) (use ok p sv sh cop copied_index [OF inv p(2) _ cmd] in auto)
  then obtain db' where db': "past_assignment cmd v db = Inr db'" "cdb_ok db'" "same_but_current db db'" "past_done db0 cmd past db' v"
    and others: "\<forall>u. u \<noteq> past v \<longrightarrow> v_current (vheap db' u) = v_current (vheap db u) \<and>
       exogenouslyAssigned (vheap db' u) = exogenouslyAssigned (vheap db u)"
    by (auto simp: returns_iff cop sh past_value_def sv past_done_def)
  have "past u \<noteq> past v" if "u \<in> set as" for u
    using that xs made by (auto simp: copies_made_def inj_on_def)
  moreover have "u \<noteq> past v" if "u \<in> set xs" for u using that xs made by (auto simp: copies_made_def)
  ultimately show ?thesis
    using db' others I same_but_current_trans [OF same db'(3)] by (auto simp: copy_state_def past_done_def)
qed

text \<open>
  C30. Full progress gives the variables of the past time step the assignments of the present, the
  command apart: each past variable gets the value of the same index, unassigned stays unassigned,
  and the command's past variable gets the command. None of them counts as assigned from
  outside afterwards, the command's past apart, even when its present variable does.
\<close>

theorem past_assignments_copied:
  assumes "cdb_ok (ts_db ts)" "present_list ts xs" "copies_made (ts_db ts) xs past"
    and "\<And>a. cmd = Some a \<Longrightarrow> valid_assignment (ts_db ts) a"
  shows "returns (full_progress_make_assignments cmd ts) (\<lambda>ts'. cdb_ok (ts_db ts') \<and>
    (\<forall>v \<in> set xs. is_assignable (class_of (v_kind (vheap (ts_db ts) v))) \<longrightarrow>
       v_current (vheap (ts_db ts') (past v)) = past_value (ts_db ts) (past v) (copied (ts_db ts) cmd v) \<and>
       exogenouslyAssigned (vheap (ts_db ts') (past v)) = (\<exists>a. cmd = Some a \<and> a_variable (aheap (ts_db ts) a) = v)))"
proof -
  let ?db = "ts_db ts"
  let ?I = "\<lambda>as (t :: t_system). copy_state ?db cmd past xs as (ts_db t)"
  have "returns (full_progress_make_assignments cmd ts) (?I xs)"
    unfolding full_progress_make_assignments_def
  proof (rule for_present_rule [OF assms(2), where I = ?I])
    show "?I [] ts" using assms(1) by (simp add: copy_state_def)
    fix as v bs t
    assume xs: "xs = as @ v # bs" and I: "?I as t" and pv: "present_variables t = present_variables ts"
    have "is_assignable (class_of (v_kind (vheap (ts_db t) v))) = is_assignable (class_of (v_kind (vheap ?db v)))"
      using I same_but_current_var [of ?db "ts_db t"] by (simp add: copy_state_def)
    then show "returns (if is_assignable (class_of (v_kind (vheap (ts_db t) v))) then in_db (past_assignment cmd v) t else Inr t)
        (\<lambda>t'. ?I (as @ [v]) t' \<and> present_variables t' = present_variables ts)"
      using copy_step [OF assms(1,3,4) xs _ I] I pv by (auto simp: copy_state_def in_db_def returns_iff)
  qed
  then show ?thesis by (rule returns_mono) (auto simp: copy_state_def past_done_def)
qed

subsection \<open>A concrete progress\<close>

text \<open>A command, linked to its value one step ago.\<close>

definition demo_commands :: conflict_db where
  "demo_commands = (case rbind (create_command 1 0 1 new_conflict_db) (\<lambda>(_, db). create_command 1 0 1 db) of
     Inl e \<Rightarrow> new_conflict_db | Inr (_, db) \<Rightarrow> demo_linked db)"

definition demo_present :: t_system where
  "demo_present = (new_t_system 3 5 True)\<lparr>ts_db := demo_commands,
     present_variables := \<lparr>arr_block = [Some (Some 0)], arr_used = 1, arr_allocated = 1\<rparr>\<rparr>"

lemma demo_commands_ok: "cdb_ok demo_commands"
proof -
  obtain v db where v: "create_command 1 0 1 new_conflict_db = Inr (v, db)" "cdb_ok db"
    using create_assignable_ok(2) [OF new_conflict_db_ok, of 1 0 1] by (auto simp: returns_iff)
  obtain u db' where u: "create_command 1 0 1 db = Inr (u, db')" "cdb_ok db'"
    using create_assignable_ok(2) [OF v(2), of 1 0 1] by (auto simp: returns_iff)
  have "cdb_ok (demo_linked db')" unfolding demo_linked_def by (rule link_inv [OF _ u(2)]) (simp add: link_only_def)
  then show ?thesis by (simp add: demo_commands_def v(1) u(1))
qed

lemma demo_first_command: "create_command 1 0 1 new_conflict_db = Inr (0, \<lparr>
     vheap = (\<lambda>_. no_variable)(0 := no_variable\<lparr>v_kind := Command, v_id := 1, propositions := [0], v_assignments := [0]\<rparr>),
     aheap = (\<lambda>_. no_assignment)(0 := no_assignment\<lparr>a_clause := Some 1\<rparr>),
     kheap = (\<lambda>_. \<lparr>conflict_assignments = [], conflict_tag = 0\<rparr>),
     candheap = (\<lambda>_. \<lparr>cand_assignments = [], cand_id = 0\<rparr>), next_var = 1, next_assignment = 1,
     next_conflict = 0, next_candidate = 0, global_id = 0, variables = [0],
     insert_pos = \<lparr>it_current = Some 0, it_previous = None\<rparr>,
     solver = \<lparr>pheap = (\<lambda>_. new_proposition)(0 := new_proposition\<lparr>positive := [0, 1]\<rparr>),
       cheap = (\<lambda>_. no_clause)(0 := unit_clause 0, 1 := \<lparr>num_lits = 1, num_pos_lits = 1, num_unassigned = 0, supports = -1,
         c_flags = 33, fringe_index = 0, c_time_stamp = 0, satisfying_prop = None, clause_datum = Some 0, literals = [0]\<rparr>),
       props = [0], clauses = [0, 1], time_stamp = 0, next_prop = 1, next_clause = 2, fringe = [0],
       volatile_fringe = [], unsatisfied = [], undo_list = []\<rparr>, candidates = [], conflicts = [], assumptions = [], assignables = [0]\<rparr>)"
  by (simp add: create_command_def cdb_eval create_eval flag_eval unit_clause_def fun_eq_iff)

lemma demo_commands_fields:
  "variables demo_commands = [1, 0]" "v_kind (vheap demo_commands 0) = Command"
  "v_assignments (vheap demo_commands 0) = [0]" "v_assignments (vheap demo_commands 1) = [1]"
  "a_variable (aheap demo_commands 0) = 0" "a_index (aheap demo_commands 0) = 0"
  "v_previous (vheap demo_commands 0) = Some 1"
  unfolding demo_commands_def demo_first_command
  by (simp_all add: demo_linked_def create_command_def cdb_eval create_eval flag_eval)

theorem past_assignments_copied_witness:
  "returns (full_progress_make_assignments (Some 0) demo_present) (\<lambda>ts'.
     v_current (vheap (ts_db ts') 1) = Some 1 \<and> exogenouslyAssigned (vheap (ts_db ts') 1))"
proof -
  have "returns (full_progress_make_assignments (Some 0) demo_present) (\<lambda>ts'. cdb_ok (ts_db ts') \<and>
    (\<forall>v \<in> set [0]. is_assignable (class_of (v_kind (vheap (ts_db demo_present) v))) \<longrightarrow>
       v_current (vheap (ts_db ts') 1) = past_value (ts_db demo_present) 1 (copied (ts_db demo_present) (Some 0) v) \<and>
       exogenouslyAssigned (vheap (ts_db ts') 1) = (\<exists>a. Some 0 = Some a \<and> a_variable (aheap (ts_db demo_present) a) = v)))"
  proof (rule past_assignments_copied [where past = "\<lambda>_. 1"])
    show "present_list demo_present [0]"
      by (simp add: present_list_def npresent_variables_def demo_present_def array_size_def array_get_def read_cell_def l2_assert_def)
    show "copies_made (ts_db demo_present) [0] (\<lambda>_. 1)"
      by (simp add: copies_made_def demo_present_def demo_commands_fields demo_commands_fields [unfolded One_nat_def])
  qed (use demo_commands_ok in \<open>simp_all add: demo_present_def valid_assignment_def demo_commands_fields\<close>)
  then show ?thesis
    by (rule returns_mono) (simp add: demo_present_def demo_commands_fields demo_commands_fields [unfolded One_nat_def]
      class_defs past_value_def copied_def)
qed

subsection \<open>The table of prototypes\<close>

definition fill_table :: "(assignment_id \<times> proto_transition) list \<Rightarrow> transition_table" where
  "fill_table es = fold (\<lambda>(a, p). add_transition_prototype_to_table a p) es []"

lemma table_add_spec:
  "table_add a p t = None \<longleftrightarrow> find_transition_prototypes t a = None"
  "table_add a p t = Some t' \<Longrightarrow> find_transition_prototypes t' b =
     (if b = a then map_option ((#) p) (find_transition_prototypes t a) else find_transition_prototypes t b)"
proof (induction t arbitrary: t')
  case (Cons e t)
  obtain c ps where e: "e = (c, ps)" by (cases e)
  {
    case 1
    then show ?case using Cons.IH(1) by (simp add: e find_transition_prototypes_def)
  next
    case 2
    then show ?case using Cons.IH(2) by (auto simp: e find_transition_prototypes_def split: if_splits)
  }
qed (simp_all add: find_transition_prototypes_def)

lemma add_prototype_spec:
  "find_transition_prototypes (add_transition_prototype_to_table a p t) b =
     (if b = a then Some (p # (case find_transition_prototypes t a of None \<Rightarrow> [] | Some ps \<Rightarrow> ps))
      else find_transition_prototypes t b)"
proof (cases "table_add a p t")
  case None
  then show ?thesis using table_add_spec(1) [of a p t]
    by (simp add: add_transition_prototype_to_table_def find_transition_prototypes_def)
next
  case (Some t')
  then have "find_transition_prototypes t a \<noteq> None" using table_add_spec(1) [of a p t] by simp
  then show ?thesis using table_add_spec(2) [OF Some, of b] Some by (auto simp: add_transition_prototype_to_table_def)
qed

text \<open>
  C32. The table of commanded prototypes gives back, for a command, exactly the prototypes that were
  added under it, the last added first, and nothing for a command without any.
\<close>

theorem prototypes_found:
  "find_transition_prototypes (fill_table es) a =
     (case rev (map snd (filter (\<lambda>e. fst e = a) es)) of [] \<Rightarrow> None | p # ps \<Rightarrow> Some (p # ps))"
proof (induction es rule: rev_induct)
  case Nil
  then show ?case by (simp add: fill_table_def find_transition_prototypes_def)
next
  case (snoc e es)
  have "fill_table (es @ [e]) = add_transition_prototype_to_table (fst e) (snd e) (fill_table es)"
    by (simp add: fill_table_def case_prod_unfold)
  then show ?case using snoc by (auto simp: add_prototype_spec split: list.splits)
qed

subsection \<open>Old conflicts\<close>

lemma fold_upd_assignment:
  assumes "\<And>b x. a_variable (f b x) = a_variable x"
  shows "vheap (fold (\<lambda>b. upd_assignment b (f b)) bs db) = vheap db \<and>
    a_variable (aheap (fold (\<lambda>b. upd_assignment b (f b)) bs db) a) = a_variable (aheap db a)"
  by (induction bs arbitrary: db) (simp_all add: assms)

lemma remove_conflict_frame:
  "vheap (assignment_remove_conflict k b db) = vheap db \<and>
   a_variable (aheap (assignment_remove_conflict k b db) a) = a_variable (aheap db a)"
  using fold_upd_assignment [of "\<lambda>_ x. x\<lparr>resolved_conflicts := slist_remove k (resolved_conflicts x)\<rparr>"]
  by (simp add: assignment_remove_conflict_def Let_def)

lemma destroy_conflict_frame:
  "vheap (destroy_conflict k db) = vheap db \<and> a_variable (aheap (destroy_conflict k db) a) = a_variable (aheap db a)"
proof -
  have "vheap (fold (assignment_remove_conflict k) bs d) = vheap d \<and>
      a_variable (aheap (fold (assignment_remove_conflict k) bs d) a) = a_variable (aheap d a)" for bs d
    by (induction bs arbitrary: d) (simp_all add: remove_conflict_frame)
  then show ?thesis by (simp add: destroy_conflict_def Let_def)
qed

lemma remove_old_loop:
  assumes "cdb_ok db" "set ks \<subseteq> set (conflicts db)" "distinct ks"
    and "\<And>k. k \<in> set ks \<Longrightarrow> conflict_is_old db horizon k = conflict_is_old db0 horizon k"
  shows "cdb_ok (fold (\<lambda>k db. if conflict_is_old db horizon k then destroy_conflict k db else db) ks db) \<and>
    set (conflicts (fold (\<lambda>k db. if conflict_is_old db horizon k then destroy_conflict k db else db) ks db)) =
      set (conflicts db) - {k \<in> set ks. conflict_is_old db0 horizon k}"
  using assms
proof (induction ks arbitrary: db)
  case (Cons k ks)
  show ?case
  proof (cases "conflict_is_old db0 horizon k")
    case True
    let ?d = "destroy_conflict k db"
    have d: "cdb_ok ?d" "set (conflicts ?d) = set (conflicts db) - {k}" "kheap ?d = kheap db"
      using destroy_conflict_ok [OF Cons.prems(1)] Cons.prems(2) by simp_all
    have old: "conflict_is_old ?d horizon j = conflict_is_old db horizon j" for j
      by (simp add: conflict_is_old_def get_time_step_def d(3) destroy_conflict_frame)
    have sub: "set ks \<subseteq> set (conflicts ?d)" "distinct ks" using d(2) Cons.prems(2,3) by auto
    have old': "conflict_is_old ?d horizon j = conflict_is_old db0 horizon j" if "j \<in> set ks" for j
      using old Cons.prems(4) that by simp
    have "{j \<in> set (k # ks). conflict_is_old db0 horizon j} = insert k {j \<in> set ks. conflict_is_old db0 horizon j}"
      using True by auto
    moreover have "conflict_is_old db horizon k" using True Cons.prems(4) by simp
    ultimately show ?thesis using Cons.IH [OF d(1) sub old'] d(2) by (simp only: fold_Cons o_apply if_True) blast
  next
    case False
    then have "{j \<in> set (k # ks). conflict_is_old db0 horizon j} = {j \<in> set ks. conflict_is_old db0 horizon j}" by auto
    moreover have "\<not> conflict_is_old db horizon k" using False Cons.prems(4) by simp
    moreover have "set ks \<subseteq> set (conflicts db)" "distinct ks" using Cons.prems(2,3) by auto
    ultimately show ?thesis using Cons.IH [of db] Cons.prems(1,4) by (simp only: fold_Cons o_apply if_False) auto
  qed
qed simp

text \<open>
  C31. The loop at the start of \<open>remove_old_variables\<close> keeps exactly the conflicts without an assignment
  from before the horizon, with all links between conflicts and assignments right.
\<close>

theorem old_conflicts_removed:
  assumes "cdb_ok db"
  shows "cdb_ok (remove_old_conflicts horizon db) \<and>
    set (conflicts (remove_old_conflicts horizon db)) = {k \<in> set (conflicts db). \<not> conflict_is_old db horizon k}"
proof -
  have "distinct (conflicts db)" using cdb_invD(5) [OF assms] by (simp add: conflicts_ok_def)
  from remove_old_loop [OF assms subset_refl this refl] show ?thesis unfolding remove_old_conflicts_def by blast
qed

theorem old_conflicts_removed_witness:
  "conflicts (snd (add_conflict [0] 7 demo_db)) = [0] \<and>
   conflicts (remove_old_conflicts 1 (snd (add_conflict [0] 7 demo_db))) = []"
proof -
  let ?db = "snd (add_conflict [0] 7 demo_db)"
  have "cdb_step demo_db ?db"
    by (rule cdb_add_conflict [where ?as = "[0]" and k = "fst (add_conflict [0] 7 demo_db)" and tag = 7])
      (use demo_fields in \<open>simp_all add: valid_assignment_def\<close>)
  then have ok: "cdb_ok ?db" using reachable_db_step [OF demo_db_reach] reachable_db_ok by blast
  have f: "conflicts ?db = [0]" "conflict_assignments (kheap ?db 0) = [0]" "get_time_step ?db 0 = 0"
    by (simp_all add: add_conflict_def find_subsuming_conflict_def new_conflict_def demo_db_eq Let_def
        assignment_add_conflict_def siblings_def upd_assignment_def get_time_step_def no_variable_def no_assignment_def)
  have "conflict_is_old ?db 1 0" using f by (simp add: conflict_is_old_def)
  then have none: "{k \<in> set (conflicts ?db). \<not> conflict_is_old ?db 1 k} = {}" unfolding f(1) by (intro equals0I) auto
  have "set (conflicts (remove_old_conflicts 1 ?db)) = {}" using old_conflicts_removed [OF ok, of 1] unfolding none by blast
  then show ?thesis using f(1) by simp
qed

end
