(* ===== verification/L2_Files.thy ===== *)
theory L2_Files
  imports Prelude
begin

text \<open>
  The model of a system as the readers build it and the writers take it (\<open>readers/L2_file.h\<close>,
  \<open>L2_file.cpp\<close>, \<open>enumeration.h\<close>, \<open>variable.h\<close>, \<open>variable.cpp\<close>, \<open>varkind.h\<close>, \<open>proposition.h\<close>, \<open>clause.h\<close>,
  \<open>clause.cpp\<close>, \<open>modes.h\<close>, \<open>modes.cpp\<close>, \<open>transition.h\<close>, \<open>transition.cpp\<close>), without the names that the
  subclasses for debugging add. An \<open>L2_file\<close> owns its objects, so a pointer to one of them is its
  place in the array of its class. Members of type \<open>int\<close> keep their bits.
\<close>

subsection \<open>Objects\<close>

type_synonym place = nat

record l2r_enumeration =
  le_id :: "32 word"
  nmembers :: "32 word"

datatype var_kind = vk_unknown | vk_observed | vk_commanded | vk_mode

record l2r_transition =
  lx_mode :: place
  lx_from :: "32 word"
  lx_to :: "32 word"
  lx_clauses :: "place list"
  isNominal :: bool
  lx_rank :: "32 word"

definition ANY_MODE :: "32 word" where "ANY_MODE = - 1"

record l2r_mode =
  nominal_transitions :: "l2r_transition list"
  failure_transitions :: "l2r_transition list"

text \<open>The constructor does not set the member that \<open>shadowInitial\<close> saves the initial value in.\<close>

record l2r_variable =
  lv_id :: "32 word"
  lv_type :: place
  lv_initial :: "32 word"
  lv_kind :: var_kind
  lv_mode :: "l2r_mode option"
  savedInitial :: "32 word option"

datatype prop_body = Var_value "32 word" | Var_var place

record l2r_proposition =
  lp_id :: "32 word"
  lp_var :: place
  isPositive :: bool
  lp_body :: prop_body

record l2r_clause =
  lc_id :: "32 word"
  lc_props :: "place list"
  isInBackground :: bool

text \<open>An array that is not allocated is \<open>None\<close>; a place that is not set yet holds a null pointer.
  The constructor leaves the three flags without a value, the allocations set them.\<close>

record l2_file =
  lf_enums :: "l2r_enumeration option list option"
  lf_vars :: "l2r_variable option list option"
  lf_props :: "l2r_proposition option list option"
  lf_clauses :: "l2r_clause option list option"
  dbg_clauses :: bool
  dbg_enums :: bool
  dbg_vars :: bool

definition new_l2_file :: l2_file where
  "new_l2_file = \<lparr>lf_enums = None, lf_vars = None, lf_props = None, lf_clauses = None,
     dbg_clauses = False, dbg_enums = False, dbg_vars = False\<rparr>"

subsection \<open>Variables\<close>

definition NO_INITIAL_VALUE :: "32 word" where "NO_INITIAL_VALUE = - 1"

definition new_l2r_variable :: "32 word \<Rightarrow> place \<Rightarrow> l2r_variable" where
  "new_l2r_variable i e = \<lparr>lv_id = i, lv_type = e, lv_initial = NO_INITIAL_VALUE, lv_kind = vk_unknown, lv_mode = None,
     savedInitial = None\<rparr>"

definition lv_setKind :: "var_kind \<Rightarrow> l2r_variable \<Rightarrow> l2r_variable res" where
  "lv_setKind vk x = rbind (l2_assert (lv_kind x = vk_unknown \<or> lv_kind x = vk) L2_fatal_error) (\<lambda>_.
     let x1 = x\<lparr>lv_kind := vk\<rparr> in
     Inr (if lv_kind x1 = vk_mode \<and> lv_mode x1 = None
          then x1\<lparr>lv_mode := Some \<lparr>nominal_transitions = [], failure_transitions = []\<rparr>\<rparr> else x1))"

definition lv_setInitial :: "32 word \<Rightarrow> l2r_variable \<Rightarrow> l2r_variable res" where
  "lv_setInitial i x = rbind (l2_assert (lv_initial x = NO_INITIAL_VALUE \<or> lv_initial x = i) L2_fatal_error)
     (\<lambda>_. Inr (x\<lparr>lv_initial := i\<rparr>))"

definition shadowInitial :: "32 word \<Rightarrow> l2r_variable \<Rightarrow> l2r_variable" where
  "shadowInitial i x = x\<lparr>savedInitial := Some (lv_initial x), lv_initial := i\<rparr>"

text \<open>Without a \<open>shadowInitial\<close> before it, this reads a member that has no value.\<close>

definition restoreInitial :: "l2r_variable \<Rightarrow> l2r_variable res" where
  "restoreInitial x = (case savedInitial x of None \<Rightarrow> Inl Bad_pointer
     | Some i \<Rightarrow> Inr (if i \<noteq> lv_initial x then x\<lparr>lv_initial := i\<rparr> else x))"

definition mode_friend :: "l2r_variable \<Rightarrow> l2r_mode res" where
  "mode_friend x = rbind (l2_assert (lv_kind x = vk_mode) L2_fatal_error) (\<lambda>_.
     case lv_mode x of None \<Rightarrow> Inl Bad_pointer | Some m \<Rightarrow> Inr m)"

subsection \<open>Modes\<close>

text \<open>In front of the first failure of greater rank.\<close>

fun insert_by_rank :: "l2r_transition \<Rightarrow> l2r_transition list \<Rightarrow> l2r_transition list" where
  "insert_by_rank x [] = [x]"
| "insert_by_rank x (y # ys) = (if lx_rank x < lx_rank y then x # y # ys else y # insert_by_rank x ys)"

text \<open>
  Every caller adds a transition it has just created, so the pointer is not in the list yet and the
  assertion that it is not cannot fail.
\<close>

definition add_transition :: "l2r_transition \<Rightarrow> l2r_mode \<Rightarrow> l2r_mode" where
  "add_transition x m = (if isNominal x then m\<lparr>nominal_transitions := x # nominal_transitions m\<rparr>
     else m\<lparr>failure_transitions := insert_by_rank x (failure_transitions m)\<rparr>)"

definition nnominal :: "l2r_mode \<Rightarrow> 32 word" where
  "nnominal m = of_nat (length (nominal_transitions m))"

definition nfailure :: "l2r_mode \<Rightarrow> 32 word" where
  "nfailure m = of_nat (length (failure_transitions m))"

definition domain_size :: "l2r_mode \<Rightarrow> 32 word" where
  "domain_size m = 1 + nfailure m"

subsection \<open>Propositions\<close>

text \<open>The variable with the smaller number comes first.\<close>

definition var_var :: "32 word \<Rightarrow> place \<times> 32 word \<Rightarrow> bool \<Rightarrow> place \<times> 32 word \<Rightarrow> l2r_proposition" where
  "var_var i v1 pos v2 = \<lparr>lp_id = i, lp_var = fst (if snd v1 < snd v2 then v1 else v2), isPositive = pos,
     lp_body = Var_var (fst (if snd v1 < snd v2 then v2 else v1))\<rparr>"

definition isEquality :: "l2r_proposition \<Rightarrow> bool" where
  "isEquality p = (case lp_body p of Var_value i \<Rightarrow> False | Var_var v \<Rightarrow> True)"

definition lp_setID :: "32 word \<Rightarrow> l2r_proposition \<Rightarrow> l2r_proposition res" where
  "lp_setID i p = rbind (l2_assert (lp_id p = 0 \<or> lp_id p = i) L2_fatal_error) (\<lambda>_. Inr (p\<lparr>lp_id := i\<rparr>))"

text \<open>\<open>operator ==\<close> of the two subclasses.\<close>

definition same_proposition :: "l2r_proposition \<Rightarrow> l2r_proposition \<Rightarrow> bool" where
  "same_proposition p q = (lp_var p = lp_var q \<and> isPositive p = isPositive q \<and> isEquality p = isEquality q \<and>
     (case (lp_body p, lp_body q) of (Var_value i, Var_value j) \<Rightarrow> i = j
      | (Var_var v, Var_var w) \<Rightarrow> v = w | _ \<Rightarrow> True))"

subsection \<open>The arrays\<close>

definition array_of :: "'a option list option \<Rightarrow> 'a option list" where
  "array_of a = (case a of None \<Rightarrow> [] | Some xs \<Rightarrow> xs)"

definition asize :: "'a option list option \<Rightarrow> 32 word" where
  "asize a = of_nat (length (array_of a))"

definition nenums :: "l2_file \<Rightarrow> 32 word" where "nenums f = asize (lf_enums f)"
definition nvars :: "l2_file \<Rightarrow> 32 word" where "nvars f = asize (lf_vars f)"
definition nprops :: "l2_file \<Rightarrow> 32 word" where "nprops f = asize (lf_props f)"
definition nclauses :: "l2_file \<Rightarrow> 32 word" where "nclauses f = asize (lf_clauses f)"

text \<open>
  \<open>bounds_check_access\<close>, and the object behind the pointer. The model stops at a null pointer
  here, before the code would use it.
\<close>

definition bounds_check :: "32 word \<Rightarrow> 'a option list option \<Rightarrow> unit res" where
  "bounds_check i a = l2_assert (i < asize a) L2_bounds_error"

definition access :: "32 word \<Rightarrow> 'a option list option \<Rightarrow> 'a res" where
  "access i a = rbind (bounds_check i a) (\<lambda>_. case array_of a ! unat i of None \<Rightarrow> Inl Bad_pointer | Some x \<Rightarrow> Inr x)"

definition getEnum :: "l2_file \<Rightarrow> 32 word \<Rightarrow> l2r_enumeration res" where "getEnum f i = access i (lf_enums f)"
definition getVar :: "l2_file \<Rightarrow> 32 word \<Rightarrow> l2r_variable res" where "getVar f i = access i (lf_vars f)"
definition getProp :: "l2_file \<Rightarrow> 32 word \<Rightarrow> l2r_proposition res" where "getProp f i = access i (lf_props f)"
definition getClause :: "l2_file \<Rightarrow> 32 word \<Rightarrow> l2r_clause res" where "getClause f i = access i (lf_clauses f)"

text \<open>The object behind a pointer that was taken from the file before.\<close>

definition at_place :: "'a option list option \<Rightarrow> place \<Rightarrow> 'a res" where
  "at_place a k = (if k < length (array_of a) then case array_of a ! k of None \<Rightarrow> Inl Bad_pointer | Some x \<Rightarrow> Inr x
     else Inl Bad_pointer)"

definition set_place :: "32 word \<Rightarrow> 'a \<Rightarrow> 'a option list option \<Rightarrow> 'a option list option res" where
  "set_place i x a = rbind (bounds_check i a) (\<lambda>_. Inr (Some ((array_of a)[unat i := Some x])))"

definition alloc_and_zero :: "32 word \<Rightarrow> 'a option list option \<Rightarrow> 'a option list option res" where
  "alloc_and_zero n a = rbind (l2_assert (a = None) L2_reader_error) (\<lambda>_. Inr (Some (replicate (unat n) None)))"

definition allocEnums :: "32 word \<Rightarrow> bool \<Rightarrow> l2_file \<Rightarrow> l2_file res" where
  "allocEnums n dbg f = rbind (alloc_and_zero n (lf_enums f)) (\<lambda>a. Inr (f\<lparr>lf_enums := a, dbg_enums := dbg\<rparr>))"

definition allocVars :: "32 word \<Rightarrow> bool \<Rightarrow> l2_file \<Rightarrow> l2_file res" where
  "allocVars n dbg f = rbind (alloc_and_zero n (lf_vars f)) (\<lambda>a. Inr (f\<lparr>lf_vars := a, dbg_vars := dbg\<rparr>))"

definition allocProps :: "32 word \<Rightarrow> l2_file \<Rightarrow> l2_file res" where
  "allocProps n f = rbind (alloc_and_zero n (lf_props f)) (\<lambda>a. Inr (f\<lparr>lf_props := a\<rparr>))"

definition allocClauses :: "32 word \<Rightarrow> bool \<Rightarrow> l2_file \<Rightarrow> l2_file res" where
  "allocClauses n dbg f = rbind (alloc_and_zero n (lf_clauses f)) (\<lambda>a. Inr (f\<lparr>lf_clauses := a, dbg_clauses := dbg\<rparr>))"

definition setEnum :: "32 word \<Rightarrow> l2r_enumeration \<Rightarrow> l2_file \<Rightarrow> l2_file res" where
  "setEnum i e f = rbind (set_place i e (lf_enums f)) (\<lambda>a. Inr (f\<lparr>lf_enums := a\<rparr>))"

definition setVar :: "32 word \<Rightarrow> l2r_variable \<Rightarrow> l2_file \<Rightarrow> l2_file res" where
  "setVar i v f = rbind (set_place i v (lf_vars f)) (\<lambda>a. Inr (f\<lparr>lf_vars := a\<rparr>))"

definition setProp :: "32 word \<Rightarrow> l2r_proposition \<Rightarrow> l2_file \<Rightarrow> l2_file res" where
  "setProp i p f = rbind (bounds_check i (lf_props f)) (\<lambda>_. rbind (lp_setID i p) (\<lambda>q.
     rbind (set_place i q (lf_props f)) (\<lambda>a. Inr (f\<lparr>lf_props := a\<rparr>))))"

definition setClause :: "32 word \<Rightarrow> l2r_clause \<Rightarrow> l2_file \<Rightarrow> l2_file res" where
  "setClause i c f = rbind (set_place i c (lf_clauses f)) (\<lambda>a. Inr (f\<lparr>lf_clauses := a\<rparr>))"

definition putInBackground :: "l2r_clause \<Rightarrow> l2r_clause" where
  "putInBackground c = c\<lparr>isInBackground := True\<rparr>"

definition addBackground :: "l2r_clause \<Rightarrow> l2_file \<Rightarrow> l2_file res" where
  "addBackground c f = rbind (access (lc_id c) (lf_clauses f)) (\<lambda>d. setClause (lc_id c) (putInBackground d) f)"

definition addTransition :: "l2r_transition \<Rightarrow> l2_file \<Rightarrow> l2_file res" where
  "addTransition x f = rbind (at_place (lf_vars f) (lx_mode x)) (\<lambda>k.
     rbind (getVar f (lv_id k)) (\<lambda>v. rbind (mode_friend v) (\<lambda>m.
       setVar (lv_id k) (v\<lparr>lv_mode := Some (add_transition x m)\<rparr>) f)))"

subsection \<open>Files that are complete\<close>

text \<open>
  Every place is filled with an object that has its number, and pointers lead to objects of the
  file. The sizes are those that fit the counters.
\<close>

definition numbered :: "('a \<Rightarrow> 32 word) \<Rightarrow> 'a list \<Rightarrow> bool" where
  "numbered ident xs \<longleftrightarrow> length xs < 2 ^ 31 \<and> (\<forall>i < length xs. ident (xs ! i) = of_nat i)"

definition file_holds :: "l2r_enumeration list \<Rightarrow> l2r_variable list \<Rightarrow> l2r_proposition list \<Rightarrow> l2r_clause list \<Rightarrow> l2_file \<Rightarrow> bool" where
  "file_holds es vs ps cs f \<longleftrightarrow> lf_enums f = Some (map Some es) \<and> lf_vars f = Some (map Some vs) \<and>
     lf_props f = Some (map Some ps) \<and> lf_clauses f = Some (map Some cs)"

lemma array_of_Some [simp]: "array_of (Some xs) = xs"
  by (simp add: array_of_def)

lemma numbered_small: "numbered ident xs \<Longrightarrow> i < length xs \<Longrightarrow> unat (of_nat i :: 32 word) = i"
  by (simp add: numbered_def unat_of_nat take_bit_nat_eq_self)

lemma asize_ok: "length xs < 2 ^ 31 \<Longrightarrow> unat (asize (Some xs)) = length xs"
  by (simp add: asize_def unat_of_nat take_bit_nat_eq_self)

lemma access_ok:
  assumes "length xs < 2 ^ 31" "i < length xs" "xs ! i = Some x"
  shows "access (of_nat i) (Some xs) = Inr x" "bounds_check (of_nat i) (Some xs) = Inr ()"
proof -
  have u: "unat (of_nat i :: 32 word) = i" using assms by (simp add: unat_of_nat take_bit_nat_eq_self)
  then have "(of_nat i :: 32 word) < asize (Some xs)" using assms by (simp add: word_less_nat_alt asize_ok)
  then show "bounds_check (of_nat i) (Some xs) = Inr ()" by (simp add: bounds_check_def l2_assert_def)
  then show "access (of_nat i) (Some xs) = Inr x" using assms(3) u by (simp add: access_def)
qed

lemma set_place_ok:
  assumes "length xs < 2 ^ 31" "i < length xs"
  shows "set_place (of_nat i) x (Some xs) = Inr (Some (xs[i := Some x]))"
proof -
  have u: "unat (of_nat i :: 32 word) = i" using assms by (simp add: unat_of_nat take_bit_nat_eq_self)
  then have "(of_nat i :: 32 word) < asize (Some xs)" using assms by (simp add: word_less_nat_alt asize_ok)
  then show ?thesis using u by (simp add: set_place_def bounds_check_def l2_assert_def)
qed

text \<open>The array after the first objects have been set.\<close>

definition filled_array :: "'a list \<Rightarrow> nat \<Rightarrow> 'a option list" where
  "filled_array xs n = map Some xs @ replicate (n - length xs) None"

lemma filled_array_simps [simp]:
  "filled_array [] n = replicate n None" "length xs \<le> n \<Longrightarrow> length (filled_array xs n) = n"
  "length xs = n \<Longrightarrow> filled_array xs n = map Some xs" "i < length xs \<Longrightarrow> filled_array xs n ! i = Some (xs ! i)"
  by (simp_all add: filled_array_def nth_append)

lemma filled_array_set:
  assumes "length xs < n"
  shows "(filled_array xs n)[length xs := Some x] = filled_array (xs @ [x]) n"
proof -
  obtain k where "n = Suc (length xs + k)" using less_imp_Suc_add [OF assms] by blast
  then show ?thesis by (simp add: filled_array_def list_update_append)
qed

end
