(* ===== verification/Bin_Format.thy ===== *)
theory Bin_Format
  imports L2_Files
begin

text \<open>
  The binary format of a model: the writer (\<open>readers/to_bin.h\<close>, \<open>to_bin.cpp\<close>, with the checks of
  \<open>xlate_sort_props.cpp\<close> it starts with) and the reader (\<open>from_memory.h\<close>, \<open>from_memory.cpp\<close>). The file is the
  list of its bytes; opening, reading into memory and closing it (\<open>from_bin.cpp\<close>) are left out.
\<close>

text \<open>The widths of the fields in bytes, members of both classes.\<close>

record widths =
  We :: "32 word"
  Wv :: "32 word"
  Wp :: "32 word"
  Wc :: "32 word"
  Wch :: "32 word"
  Wx :: "32 word"
  Wxc :: "32 word"

subsection \<open>Sorted propositions\<close>

text \<open>The four kinds of propositions, counted: equal to a value, different, two variables equal, different.\<close>

record prop_counts =
  npos :: "32 word"
  nneg :: "32 word"
  nsame :: "32 word"
  ndiff :: "32 word"

definition count_prop :: "l2r_proposition \<Rightarrow> prop_counts \<Rightarrow> prop_counts" where
  "count_prop p c = (if isEquality p then if isPositive p then c\<lparr>nsame := nsame c + 1\<rparr> else c\<lparr>ndiff := ndiff c + 1\<rparr>
     else if isPositive p then c\<lparr>npos := npos c + 1\<rparr> else c\<lparr>nneg := nneg c + 1\<rparr>)"

definition count_props :: "l2_file \<Rightarrow> prop_counts res" where
  "count_props f = rbind (rfold (\<lambda>i c. rbind (getProp f (of_nat i)) (\<lambda>p. Inr (count_prop p c))) [0..<unat (nprops f)]
       \<lparr>npos = 0, nneg = 0, nsame = 0, ndiff = 0\<rparr>) (\<lambda>c.
     rbind (l2_assert (nprops f = npos c + nneg c + nsame c + ndiff c) L2_writer_error) (\<lambda>_. Inr c))"

definition check_kind :: "bool \<Rightarrow> bool \<Rightarrow> l2_file \<Rightarrow> 32 word \<Rightarrow> 32 word \<Rightarrow> 32 word res" where
  "check_kind pos eq f n i = rfold (\<lambda>_ i. rbind (getProp f i) (\<lambda>p.
     rbind (l2_assert (isPositive p = pos \<and> isEquality p = eq) L2_writer_error) (\<lambda>_. Inr (i + 1)))) [0..<unat n] i"

definition check_sorted :: "l2_file \<Rightarrow> prop_counts \<Rightarrow> unit res" where
  "check_sorted f c = rbind (check_kind True False f (npos c) 0) (\<lambda>i1.
     rbind (check_kind False False f (nneg c) i1) (\<lambda>i2.
     rbind (check_kind True True f (nsame c) i2) (\<lambda>i3.
     rbind (check_kind False True f (ndiff c) i3) (\<lambda>_. Inr ()))))"

subsection \<open>Writing numbers\<close>

function width_of_int :: "32 word \<Rightarrow> 32 word res" where
  "width_of_int val = (if val = 0 then Inr 0
     else rbind (l2_assert (drop_bit 8 val \<noteq> - 1) Assert_failed) (\<lambda>_.
          rbind (width_of_int (drop_bit 8 val)) (\<lambda>w. Inr (w + 1))))"
  by pat_completeness auto

termination
proof (relation "measure unat")
  fix val :: "32 word" and x
  assume "val \<noteq> 0"
  moreover have "unat (drop_bit 8 val) = unat val div 256" unfolding unat_drop_bit_eq by (simp add: drop_bit_eq_div)
  ultimately show "(drop_bit 8 val, val) \<in> measure unat" by (simp add: unat_gt_0)
qed simp

declare width_of_int.simps [simp del]

definition width_to_two_bits :: "32 word \<Rightarrow> 32 word res" where
  "width_to_two_bits w = (if w = 1 then Inr 0 else if w = 2 then Inr 1 else if w = 3 then Inr 2
     else if w = 4 then Inr 3 else Inl L2_fatal_error)"

definition put1 :: "32 word \<Rightarrow> 8 word list \<Rightarrow> 8 word list" where
  "put1 c out = out @ [ucast c]"

text \<open>First the bytes are flipped, then they are written from the last.\<close>

definition put :: "32 word \<Rightarrow> 32 word \<Rightarrow> 8 word list \<Rightarrow> 8 word list res" where
  "put width v out =
     (case fold (\<lambda>_ (newval, value). (push_bit 8 newval OR (value AND 0xff), drop_bit 8 value)) [0..<unat width] (0, v) of
        (newval, value) \<Rightarrow> rbind (l2_assert (value = 0) L2_writer_error) (\<lambda>_.
          Inr (snd (fold (\<lambda>_ (newval, out). (drop_bit 8 newval, put1 (newval AND 0xff) out)) [0..<unat width] (newval, out)))))"

subsection \<open>Writing a file\<close>

definition largest :: "('a \<Rightarrow> 32 word) \<Rightarrow> 'a list \<Rightarrow> 32 word \<Rightarrow> 32 word" where
  "largest n = fold (\<lambda>x l. if l < n x then n x else l)"

text \<open>A loop over the objects of one array.\<close>

definition each :: "(32 word \<Rightarrow> 'a res) \<Rightarrow> 32 word \<Rightarrow> ('a \<Rightarrow> 's \<Rightarrow> 's res) \<Rightarrow> 's \<Rightarrow> 's res" where
  "each get n body s = rfold (\<lambda>i s. rbind (get (of_nat i)) (\<lambda>x. body x s)) [0..<unat n] s"

definition lc_size :: "l2r_clause \<Rightarrow> 32 word" where "lc_size c = of_nat (length (lc_props c))"
definition lx_size :: "l2r_transition \<Rightarrow> 32 word" where "lx_size x = of_nat (length (lx_clauses x))"

definition on_mode :: "(l2r_mode \<Rightarrow> 's \<Rightarrow> 's res) \<Rightarrow> l2r_variable \<Rightarrow> 's \<Rightarrow> 's res" where
  "on_mode body v s = (if lv_kind v \<noteq> vk_mode then Inr s else rbind (mode_friend v) (\<lambda>m. body m s))"

definition header_widths :: "l2_file \<Rightarrow> widths res" where
  "header_widths f =
     rbind (each (getEnum f) (nenums f) (\<lambda>e l. Inr (if l < nmembers e then nmembers e else l)) 0) (\<lambda>le.
     rbind (width_of_int le) (\<lambda>we. rbind (width_of_int (nvars f)) (\<lambda>wv. rbind (width_of_int (nprops f)) (\<lambda>wp.
     rbind (width_of_int (nclauses f)) (\<lambda>wc.
     rbind (each (getClause f) (nclauses f) (\<lambda>c l. Inr (if l < lc_size c then lc_size c else l)) 0) (\<lambda>lc.
     rbind (width_of_int (push_bit 1 lc)) (\<lambda>wch.
     rbind (each (getVar f) (nvars f) (on_mode (\<lambda>m l. let l1 = (if l < nnominal m then nnominal m else l) in
              Inr (if l1 < nfailure m then nfailure m else l1))) 0) (\<lambda>lx.
     rbind (width_of_int lx) (\<lambda>wx.
     rbind (each (getVar f) (nvars f) (on_mode (\<lambda>m l. Inr (largest lx_size (failure_transitions m)
              (largest lx_size (nominal_transitions m) l)))) 0) (\<lambda>lxc.
     rbind (width_of_int lxc) (\<lambda>wxc.
       Inr \<lparr>We = we, Wv = wv, Wp = wp, Wc = wc, Wch = wch, Wx = wx, Wxc = wxc\<rparr>)))))))))))"

text \<open>Widths packed into a byte, two bits each.\<close>

definition pack_widths :: "32 word list \<Rightarrow> 8 word res" where
  "pack_widths ws = rfold (\<lambda>w pack. rbind (width_to_two_bits w) (\<lambda>b. Inr (push_bit 2 pack + ucast b))) ws 0"

definition write_header :: "l2_file \<Rightarrow> prop_counts \<Rightarrow> 8 word list \<Rightarrow> (widths \<times> 8 word list) res" where
  "write_header f c out =
     (let out1 = out @ [0x4c, 0x32, 0x62, 0x69] in
      rbind (put 2 3 out1) (\<lambda>out2. rbind (put 4 0 out2) (\<lambda>out3.
      rbind (header_widths f) (\<lambda>w.
      rbind (pack_widths [We w, Wv w, Wp w, Wc w]) (\<lambda>p1. rbind (pack_widths [Wch w, Wx w, Wxc w]) (\<lambda>p2.
      rbind (put (We w) (nenums f) (out3 @ [p1, p2])) (\<lambda>out4.
      rbind (put (Wv w) (nvars f) out4) (\<lambda>out5.
      rbind (put (Wp w) (npos c) out5) (\<lambda>out6. rbind (put (Wp w) (nneg c) out6) (\<lambda>out7.
      rbind (put (Wp w) (nsame c) out7) (\<lambda>out8. rbind (put (Wp w) (ndiff c) out8) (\<lambda>out9.
      rbind (put (Wc w) (nclauses f) out9) (\<lambda>out10. Inr (w, out10))))))))))))))"

definition write_one_enum :: "widths \<Rightarrow> l2r_enumeration \<Rightarrow> 8 word list \<Rightarrow> 8 word list res" where
  "write_one_enum w e = put (We w) (nmembers e)"

fun kind_code :: "var_kind \<Rightarrow> 32 word" where
  "kind_code vk_unknown = 100"
| "kind_code vk_observed = 101"
| "kind_code vk_commanded = 102"
| "kind_code vk_mode = 103"

definition write_one_variable :: "l2_file \<Rightarrow> widths \<Rightarrow> l2r_variable \<Rightarrow> 8 word list \<Rightarrow> 8 word list res" where
  "write_one_variable f w v out =
     rbind (at_place (lf_enums f) (lv_type v)) (\<lambda>e. rbind (put (We w) (le_id e) out) (\<lambda>out1.
       let out2 = put1 (kind_code (lv_kind v)) out1 in
       if lv_kind v = vk_mode then put (We w) (lv_initial v) out2 else Inr out2))"

definition write_one_varvalue :: "l2_file \<Rightarrow> widths \<Rightarrow> l2r_proposition \<Rightarrow> 8 word list \<Rightarrow> 8 word list res" where
  "write_one_varvalue f w p out = (case lp_body p of
     Var_var v \<Rightarrow> Inl L2_writer_error
   | Var_value i \<Rightarrow> rbind (at_place (lf_vars f) (lp_var p)) (\<lambda>v. rbind (put (Wv w) (lv_id v) out) (put (We w) i)))"

definition write_one_varvar :: "l2_file \<Rightarrow> widths \<Rightarrow> l2r_proposition \<Rightarrow> 8 word list \<Rightarrow> 8 word list res" where
  "write_one_varvar f w p out = (case lp_body p of
     Var_value i \<Rightarrow> Inl L2_writer_error
   | Var_var u \<Rightarrow> rbind (at_place (lf_vars f) (lp_var p)) (\<lambda>v. rbind (put (Wv w) (lv_id v) out) (\<lambda>out1.
       rbind (at_place (lf_vars f) u) (\<lambda>v2. put (Wv w) (lv_id v2) out1))))"

text \<open>The loops over one kind count on from the number of propositions written before.\<close>

definition write_kind ::
  "(l2_file \<Rightarrow> widths \<Rightarrow> l2r_proposition \<Rightarrow> 8 word list \<Rightarrow> 8 word list res) \<Rightarrow> l2_file \<Rightarrow> widths \<Rightarrow> 32 word \<Rightarrow>
   32 word \<times> 8 word list \<Rightarrow> (32 word \<times> 8 word list) res" where
  "write_kind one f w n = rfold (\<lambda>_ (i, out). rbind (getProp f i) (\<lambda>p. rbind (one f w p out) (\<lambda>out1. Inr (i + 1, out1)))) [0..<unat n]"

definition write_props :: "l2_file \<Rightarrow> widths \<Rightarrow> prop_counts \<Rightarrow> 8 word list \<Rightarrow> 8 word list res" where
  "write_props f w c out = rbind (write_kind write_one_varvalue f w (npos c) (0, out)) (\<lambda>s1.
     rbind (write_kind write_one_varvalue f w (nneg c) s1) (\<lambda>s2.
     rbind (write_kind write_one_varvar f w (nsame c) s2) (\<lambda>s3.
     rbind (write_kind write_one_varvar f w (ndiff c) s3) (\<lambda>(i, out1). Inr out1))))"

definition write_one_clause :: "l2_file \<Rightarrow> widths \<Rightarrow> l2r_clause \<Rightarrow> 8 word list \<Rightarrow> 8 word list res" where
  "write_one_clause f w c out = (let pack = push_bit 1 (lc_size c) in
     rbind (put (Wch w) (if isInBackground c then pack + 1 else pack) out)
       (rfold (\<lambda>k out. rbind (at_place (lf_props f) k) (\<lambda>p. put (Wp w) (lp_id p) out)) (lc_props c)))"

definition write_one_transition :: "l2_file \<Rightarrow> widths \<Rightarrow> l2r_transition \<Rightarrow> 8 word list \<Rightarrow> 8 word list res" where
  "write_one_transition f w x out =
     rbind (if isNominal x then put (We w) (lx_from x) out else Inr (put1 (lx_rank x) out)) (\<lambda>out1.
     rbind (put (We w) (lx_to x) out1) (\<lambda>out2. rbind (put (Wxc w) (lx_size x) out2)
       (rfold (\<lambda>k out. rbind (at_place (lf_clauses f) k) (\<lambda>c. put (Wc w) (lc_id c) out)) (lx_clauses x))))"

definition write_mode :: "l2_file \<Rightarrow> widths \<Rightarrow> l2r_mode \<Rightarrow> 8 word list \<Rightarrow> 8 word list res" where
  "write_mode f w m out = rbind (put (Wx w) (nnominal m) out) (\<lambda>out1. rbind (put (Wx w) (nfailure m) out1) (\<lambda>out2.
     rbind (rfold (write_one_transition f w) (nominal_transitions m) out2)
       (rfold (write_one_transition f w) (failure_transitions m))))"

text \<open>The constructor and \<open>write\<close>, when the file can be opened.\<close>

definition to_bin :: "l2_file \<Rightarrow> 8 word list res" where
  "to_bin f = rbind (count_props f) (\<lambda>c. rbind (check_sorted f c) (\<lambda>_.
     rbind (write_header f c []) (\<lambda>(w, out).
     rbind (each (getEnum f) (nenums f) (write_one_enum w) out) (\<lambda>out1.
     rbind (each (getVar f) (nvars f) (write_one_variable f w) out1) (\<lambda>out2.
     rbind (write_props f w c out2) (\<lambda>out3.
     rbind (each (getClause f) (nclauses f) (write_one_clause f w) out3) (\<lambda>out4.
       each (getVar f) (nvars f) (on_mode (write_mode f w)) out4)))))))"

subsection \<open>Reading numbers\<close>

record from_memory =
  theModel :: "8 word list"
  nextChar :: nat
  fm_widths :: widths
  nenums_ct :: "32 word"
  nvars_ct :: "32 word"
  fm_counts :: prop_counts
  nclauses_ct :: "32 word"
  dest :: l2_file

definition modelSize :: "from_memory \<Rightarrow> nat" where "modelSize r = length (theModel r)"

definition get1 :: "from_memory \<Rightarrow> (8 word \<times> from_memory) res" where
  "get1 r = rbind (l2_assert (nextChar r < unat (of_nat (modelSize r) :: 32 word)) L2_reader_error)
     (\<lambda>_. Inr (theModel r ! nextChar r, r\<lparr>nextChar := Suc (nextChar r)\<rparr>))"

definition get :: "32 word \<Rightarrow> from_memory \<Rightarrow> (32 word \<times> from_memory) res" where
  "get width r = rfold (\<lambda>_ (acc, r). rbind (get1 r) (\<lambda>(c, r1). Inr (push_bit 8 acc + ucast c, r1))) [0..<unat width] (0, r)"

subsection \<open>Reading a file\<close>

definition expected_cookie :: "8 word list" where "expected_cookie = [0x4c, 0x32, 0x62, 0x69]"

fun read_cookie :: "8 word list \<Rightarrow> from_memory \<Rightarrow> (bool \<times> from_memory) res" where
  "read_cookie [] r = Inr (True, r)"
| "read_cookie (x # xs) r = rbind (get1 r) (\<lambda>(c, r1). if c \<noteq> x then Inr (False, r1) else read_cookie xs r1)"

definition read_version :: "from_memory \<Rightarrow> (bool \<times> from_memory) res" where
  "read_version r = rbind (get 2 r) (\<lambda>(version, r1). Inr (version = 3, r1))"

definition read_checksum :: "from_memory \<Rightarrow> (bool \<times> from_memory) res" where
  "read_checksum r = rbind (get 4 r) (\<lambda>(_, r1). Inr (True, r1))"

text \<open>In \<open>1 + pack & 0x3\<close> the addition comes first.\<close>

definition unpack_width :: "32 word \<Rightarrow> 32 word" where "unpack_width pack = (1 + pack) AND 0x3"

definition read_weights :: "from_memory \<Rightarrow> from_memory res" where
  "read_weights r = rbind (get1 r) (\<lambda>(b1, r1). let p1 = (ucast b1 :: 32 word) in
     rbind (l2_assert (drop_bit 8 p1 = 0) Assert_failed) (\<lambda>_.
     rbind (get1 r1) (\<lambda>(b2, r2). let p2 = (ucast b2 :: 32 word) in
     rbind (l2_assert (drop_bit 4 p2 = 0) Assert_failed) (\<lambda>_.
       Inr (r2\<lparr>fm_widths := \<lparr>We = unpack_width (drop_bit 6 p1), Wv = unpack_width (drop_bit 4 p1),
         Wp = unpack_width (drop_bit 2 p1), Wc = unpack_width p1, Wch = unpack_width (drop_bit 4 p2),
         Wx = unpack_width (drop_bit 2 p2), Wxc = unpack_width p2\<rparr>\<rparr>)))))"

definition read_counts :: "from_memory \<Rightarrow> from_memory res" where
  "read_counts r = (let w = fm_widths r in
     rbind (get (We w) r) (\<lambda>(n1, r1). rbind (get (Wv w) r1) (\<lambda>(n2, r2).
     rbind (get (Wp w) r2) (\<lambda>(n3, r3). rbind (get (Wp w) r3) (\<lambda>(n4, r4).
     rbind (get (Wp w) r4) (\<lambda>(n5, r5). rbind (get (Wp w) r5) (\<lambda>(n6, r6).
     rbind (get (Wc w) r6) (\<lambda>(n7, r7).
       Inr (r7\<lparr>nenums_ct := n1, nvars_ct := n2, fm_counts := \<lparr>npos = n3, nneg = n4, nsame = n5, ndiff = n6\<rparr>,
               nclauses_ct := n7\<rparr>)))))))))"

definition read_header :: "from_memory \<Rightarrow> (bool \<times> from_memory) res" where
  "read_header r = rbind (read_cookie expected_cookie r) (\<lambda>(a, r1). if \<not> a then Inr (False, r1) else
     rbind (read_version r1) (\<lambda>(b, r2). if \<not> b then Inr (False, r2) else
     rbind (read_checksum r2) (\<lambda>(c, r3). if \<not> c then Inr (False, r3) else
     rbind (read_weights r3) (\<lambda>r4. rbind (read_counts r4) (\<lambda>r5. Inr (True, r5))))))"

definition in_dest :: "(l2_file \<Rightarrow> l2_file res) \<Rightarrow> from_memory \<Rightarrow> from_memory res" where
  "in_dest f r = rbind (f (dest r)) (\<lambda>d. Inr (r\<lparr>dest := d\<rparr>))"

definition read_one_enum :: "32 word \<Rightarrow> from_memory \<Rightarrow> from_memory res" where
  "read_one_enum i r = rbind (get (We (fm_widths r)) r) (\<lambda>(n, r1). in_dest (setEnum i \<lparr>le_id = i, nmembers = n\<rparr>) r1)"

definition repeat :: "32 word \<Rightarrow> (32 word \<Rightarrow> from_memory \<Rightarrow> from_memory res) \<Rightarrow> from_memory \<Rightarrow> from_memory res" where
  "repeat n body = rfold (\<lambda>i. body (of_nat i)) [0..<unat n]"

definition read_enums :: "from_memory \<Rightarrow> from_memory res" where
  "read_enums r = rbind (in_dest (allocEnums (nenums_ct r) False) r) (repeat (nenums_ct r) read_one_enum)"

definition kind_of_code :: "8 word \<Rightarrow> var_kind res" where
  "kind_of_code c = (if c = 100 then Inr vk_unknown else if c = 101 then Inr vk_observed
     else if c = 102 then Inr vk_commanded else if c = 103 then Inr vk_mode else Inl L2_reader_error)"

definition read_one_variable :: "32 word \<Rightarrow> from_memory \<Rightarrow> from_memory res" where
  "read_one_variable i r = rbind (get (We (fm_widths r)) r) (\<lambda>(enumID, r1). rbind (get1 r1) (\<lambda>(c, r2).
     rbind (kind_of_code c) (\<lambda>k. rbind (getEnum (dest r2) enumID) (\<lambda>_.
     rbind (lv_setKind k (new_l2r_variable i (unat enumID))) (\<lambda>v.
     rbind (if k = vk_mode then rbind (get (We (fm_widths r2)) r2) (\<lambda>(j, r3). rbind (lv_setInitial j v) (\<lambda>v1. Inr (v1, r3)))
            else Inr (v, r2)) (\<lambda>(v1, r3). in_dest (setVar i v1) r3))))))"

definition read_variables :: "from_memory \<Rightarrow> from_memory res" where
  "read_variables r = rbind (in_dest (allocVars (nvars_ct r) False) r) (repeat (nvars_ct r) read_one_variable)"

definition read_one_varval :: "bool \<Rightarrow> 32 word \<Rightarrow> from_memory \<Rightarrow> from_memory res" where
  "read_one_varval pos i r = rbind (get (Wv (fm_widths r)) r) (\<lambda>(v, r1). rbind (get (We (fm_widths r1)) r1) (\<lambda>(value, r2).
     rbind (getVar (dest r2) v) (\<lambda>_.
       in_dest (setProp i \<lparr>lp_id = i, lp_var = unat v, isPositive = pos, lp_body = Var_value value\<rparr>) r2)))"

definition read_one_varvar :: "bool \<Rightarrow> 32 word \<Rightarrow> from_memory \<Rightarrow> from_memory res" where
  "read_one_varvar pos i r = rbind (get (Wv (fm_widths r)) r) (\<lambda>(i1, r1). rbind (get (Wv (fm_widths r1)) r1) (\<lambda>(i2, r2).
     rbind (getVar (dest r2) i1) (\<lambda>v1. rbind (getVar (dest r2) i2) (\<lambda>v2.
       in_dest (setProp i (var_var i (unat i1, lv_id v1) pos (unat i2, lv_id v2))) r2))))"

text \<open>Each kind counts on from the propositions read before.\<close>

definition repeat_from ::
  "32 word \<Rightarrow> (32 word \<Rightarrow> from_memory \<Rightarrow> from_memory res) \<Rightarrow> 32 word \<times> from_memory \<Rightarrow> (32 word \<times> from_memory) res" where
  "repeat_from n body = rfold (\<lambda>_ (i, r). rbind (body i r) (\<lambda>r1. Inr (i + 1, r1))) [0..<unat n]"

definition read_propositions :: "from_memory \<Rightarrow> from_memory res" where
  "read_propositions r = (let c = fm_counts r in
     rbind (in_dest (allocProps (npos c + nneg c + nsame c + ndiff c)) r) (\<lambda>r1.
     rbind (repeat_from (npos c) (read_one_varval True) (0, r1)) (\<lambda>s1.
     rbind (repeat_from (nneg c) (read_one_varval False) s1) (\<lambda>s2.
     rbind (repeat_from (nsame c) (read_one_varvar True) s2) (\<lambda>s3.
     rbind (repeat_from (ndiff c) (read_one_varvar False) s3) (\<lambda>(i, r2). Inr r2))))))"

text \<open>The numbers of objects, looked up.\<close>

definition read_places :: "32 word \<Rightarrow> (l2_file \<Rightarrow> 32 word \<Rightarrow> 'a res) \<Rightarrow> 32 word \<Rightarrow> from_memory \<Rightarrow> (place list \<times> from_memory) res" where
  "read_places n look width r = rfold (\<lambda>_ (ks, r). rbind (get width r) (\<lambda>(k, r1).
     rbind (look (dest r1) k) (\<lambda>_. Inr (ks @ [unat k], r1)))) [0..<unat n] ([], r)"

definition read_one_clause :: "32 word \<Rightarrow> from_memory \<Rightarrow> from_memory res" where
  "read_one_clause i r = rbind (get (Wch (fm_widths r)) r) (\<lambda>(pack, r1).
     rbind (read_places (drop_bit 1 pack) getProp (Wp (fm_widths r1)) r1) (\<lambda>(ks, r2).
       in_dest (setClause i \<lparr>lc_id = i, lc_props = ks, isInBackground = (pack AND 1 \<noteq> 0)\<rparr>) r2))"

definition read_clauses :: "from_memory \<Rightarrow> from_memory res" where
  "read_clauses r = rbind (in_dest (allocClauses (nclauses_ct r) False) r) (repeat (nclauses_ct r) read_one_clause)"

definition read_one_transition :: "bool \<Rightarrow> place \<Rightarrow> from_memory \<Rightarrow> from_memory res" where
  "read_one_transition isnominal m r =
     rbind (if isnominal then rbind (get (We (fm_widths r)) r) (\<lambda>(from, r1). Inr (0, from, r1))
            else rbind (get1 r) (\<lambda>(rank, r1). Inr (ucast rank, ANY_MODE, r1))) (\<lambda>(rank, from, r1).
     rbind (get (We (fm_widths r1)) r1) (\<lambda>(to, r2). rbind (get (Wxc (fm_widths r2)) r2) (\<lambda>(ncls, r3).
     rbind (read_places ncls getClause (Wc (fm_widths r3)) r3) (\<lambda>(ks, r4).
       in_dest (addTransition \<lparr>lx_mode = m, lx_from = from, lx_to = to, lx_clauses = ks, isNominal = isnominal, lx_rank = rank\<rparr>) r4))))"

definition read_mode :: "32 word \<Rightarrow> from_memory \<Rightarrow> from_memory res" where
  "read_mode i r = rbind (getVar (dest r) i) (\<lambda>v. if lv_kind v \<noteq> vk_mode then Inr r else
     rbind (get (Wx (fm_widths r)) r) (\<lambda>(nnom, r1). rbind (get (Wx (fm_widths r1)) r1) (\<lambda>(nfail, r2).
     rbind (repeat nnom (\<lambda>_. read_one_transition True (unat i)) r2)
       (repeat nfail (\<lambda>_. read_one_transition False (unat i))))))"

definition read_transitions :: "from_memory \<Rightarrow> from_memory res" where
  "read_transitions r = repeat (nvars (dest r)) read_mode r"

text \<open>\<open>read\<close>; the pointers to the destination and to the bytes are not null.\<close>

definition read_model :: "from_memory \<Rightarrow> (bool \<times> from_memory) res" where
  "read_model r = (if sint (of_nat (modelSize r) :: 32 word) \<le> 0 then Inr (False, r)
     else rbind (read_header r) (\<lambda>(ok, r1). if \<not> ok then Inr (False, r1)
     else rbind (read_enums r1) (\<lambda>r2. rbind (read_variables r2) (\<lambda>r3. rbind (read_propositions r3) (\<lambda>r4.
          rbind (read_clauses r4) (\<lambda>r5. rbind (read_transitions r5) (\<lambda>r6. Inr (True, r6))))))))"

definition new_from_memory :: "8 word list \<Rightarrow> l2_file \<Rightarrow> from_memory" where
  "new_from_memory model d = \<lparr>theModel = model, nextChar = 0,
     fm_widths = \<lparr>We = 0, Wv = 0, Wp = 0, Wc = 0, Wch = 0, Wx = 0, Wxc = 0\<rparr>, nenums_ct = 0, nvars_ct = 0,
     fm_counts = \<lparr>npos = 0, nneg = 0, nsame = 0, ndiff = 0\<rparr>, nclauses_ct = 0, dest = d\<rparr>"

end
