(* ===== verification/Bin_Numbers.thy ===== *)
theory Bin_Numbers
  imports Bin_Format
begin

text \<open>
  What the functions on numbers of the binary format compute: the bytes of a number from the
  highest to the lowest, the width of a number, and a position in the bytes that are read.
\<close>

subsection \<open>The bytes of a number\<close>

definition enc :: "nat \<Rightarrow> 32 word \<Rightarrow> 8 word list" where
  "enc w v = map (\<lambda>i. ucast (drop_bit (8 * i) v)) (rev [0..<w])"

definition low_bytes :: "nat \<Rightarrow> 32 word \<Rightarrow> 8 word list" where
  "low_bytes w v = map (\<lambda>i. ucast (drop_bit (8 * i) v)) [0..<w]"

lemma enc_simps [simp]: "enc 0 v = []" "enc (Suc w) v = ucast (drop_bit (8 * w) v) # enc w v" "length (enc w v) = w"
  by (simp_all add: enc_def)

lemma and_ff: "(a :: 32 word) AND 0xff = take_bit 8 a"
  by (simp add: take_bit_eq_mask mask_eq_exp_minus_1)

lemma low_byte: "ucast ((a :: 32 word) AND 0xff) = (ucast a :: 8 word)"
  unfolding and_ff by (rule bit_word_eqI) (simp add: bit_simps)

lemma byte_above:
  assumes "i < 3"
  shows "ucast (drop_bit (8 * Suc i) (push_bit 8 a OR (b AND 0xff)) :: 32 word) = (ucast (drop_bit (8 * i) (a :: 32 word)) :: 8 word)"
  using assms unfolding and_ff by (intro bit_word_eqI) (auto simp: bit_simps)

lemma byte_below: "ucast (push_bit 8 a OR (b AND 0xff) :: 32 word) = (ucast (b :: 32 word) :: 8 word)"
  unfolding and_ff by (rule bit_word_eqI) (auto simp: bit_simps)

lemma flip_loop:
  assumes "w \<le> 4"
  shows "\<exists>n. fold (\<lambda>_ (newval, value). (push_bit 8 newval OR (value AND 0xff), drop_bit 8 value)) [0..<w] (0, v) =
    (n, drop_bit (8 * w) v) \<and> low_bytes w n = enc w v"
  using assms
proof (induction w)
  case (Suc w)
  then obtain n where n: "fold (\<lambda>_ (newval, value). (push_bit 8 newval OR (value AND 0xff), drop_bit 8 value)) [0..<w] (0, v) =
    (n, drop_bit (8 * w) v)" "low_bytes w n = enc w v" by auto
  let ?m = "push_bit 8 n OR (drop_bit (8 * w) v AND 0xff)"
  have "low_bytes (Suc w) ?m = ucast ?m # map (\<lambda>i. ucast (drop_bit (8 * Suc i) ?m)) [0..<w]"
    by (simp add: low_bytes_def upt_conv_Cons map_Suc_upt [symmetric] del: upt_Suc)
  also have "map (\<lambda>i. ucast (drop_bit (8 * Suc i) ?m)) [0..<w] = (low_bytes w n :: 8 word list)"
    unfolding low_bytes_def using Suc.prems by (intro map_cong refl byte_above) auto
  also have "ucast ?m = (ucast (drop_bit (8 * w) v) :: 8 word)" by (rule byte_below)
  finally have "low_bytes (Suc w) ?m = enc (Suc w) v" using n(2) by simp
  then show ?case using n(1) by (simp add: add.commute)
qed (simp add: low_bytes_def)

lemma emit_loop:
  "snd (fold (\<lambda>_ (newval, out). (drop_bit 8 newval, put1 (newval AND 0xff) out)) [0..<w] (n, out)) = out @ low_bytes w n"
proof -
  have "fold (\<lambda>_ (newval, out). (drop_bit 8 newval, put1 (newval AND 0xff) out)) [0..<w] (n, out) =
    (drop_bit (8 * w) n, out @ low_bytes w n)"
    by (induction w) (simp_all add: low_bytes_def put1_def low_byte add.commute)
  then show ?thesis by simp
qed

lemma put_eq:
  assumes "unat w \<le> 4"
  shows "put w v out = (if drop_bit (8 * unat w) v = 0 then Inr (out @ enc (unat w) v) else Inl L2_writer_error)"
proof -
  obtain n where "fold (\<lambda>_ (newval, value). (push_bit 8 newval OR (value AND 0xff), drop_bit 8 value)) [0..<unat w] (0, v) =
    (n, drop_bit (8 * unat w) v)" "low_bytes (unat w) n = enc (unat w) v"
    using flip_loop [OF assms] by blast
  then show ?thesis by (simp add: put_def emit_loop l2_assert_def)
qed

lemma put_InrD:
  assumes "put w v out = Inr out'" "unat w \<le> 4"
  shows "out' = out @ enc (unat w) v" "drop_bit (8 * unat w) v = 0"
  using assms by (auto simp: put_eq split: if_splits)

subsection \<open>Widths\<close>

lemma width_of_int_ok:
  "\<exists>w. width_of_int v = Inr w \<and> unat w \<le> 4 \<and> (\<forall>n. drop_bit (8 * n) v = 0 \<longleftrightarrow> unat w \<le> n)"
proof -
  have "\<exists>w. width_of_int v = Inr w \<and> unat w \<le> k \<and> (\<forall>n. drop_bit (8 * n) v = 0 \<longleftrightarrow> unat w \<le> n)"
    if "drop_bit (8 * k) v = 0" "k \<le> 4" for k
    using that
  proof (induction k arbitrary: v)
    case 0
    then show ?case by (intro exI [of _ 0]) (simp add: width_of_int.simps)
  next
    case (Suc k)
    show ?case
    proof (cases "v = 0")
      case True
      then show ?thesis by (intro exI [of _ 0]) (simp add: width_of_int.simps)
    next
      case False
      have "drop_bit (8 * k) (drop_bit 8 v) = 0" using Suc.prems by (simp add: add.commute)
      then obtain w where w: "width_of_int (drop_bit 8 v) = Inr w" "unat w \<le> k"
        "\<forall>n. drop_bit (8 * n) (drop_bit 8 v) = 0 \<longleftrightarrow> unat w \<le> n"
        using Suc.IH [of "drop_bit 8 v"] Suc.prems by auto
      have u: "unat (w + 1) = Suc (unat w)" using w(2) Suc.prems by (simp add: unat_word_ariths)
      have "\<not> bit (drop_bit 8 v) 31" by (simp add: bit_drop_bit_eq impossible_bit)
      moreover have "bit (- 1 :: 32 word) 31" by simp
      ultimately have "drop_bit 8 v \<noteq> - 1" by metis
      moreover have "drop_bit (8 * n) v = 0 \<longleftrightarrow> unat (w + 1) \<le> n" for n
        using w(3) False by (cases n) (simp_all add: u [unfolded add.commute [of w]] add.commute)
      ultimately show ?thesis using False w u
        by (intro exI [of _ "w + 1"]) (simp add: width_of_int.simps [of v] l2_assert_def)
    qed
  qed
  from this [of 4] show ?thesis by simp
qed

lemma width_ok:
  assumes "width_of_int v = Inr w"
  shows "unat w \<le> 4" "drop_bit (8 * unat w) v = 0"
  using width_of_int_ok [of v] assms by auto

lemma two_bits_ok: "width_to_two_bits w = Inr b \<Longrightarrow> 1 \<le> w \<and> w \<le> 4 \<and> b = w - 1"
  by (auto simp: width_to_two_bits_def split: if_splits)

subsection \<open>Reading\<close>

text \<open>What is left to read, and what a step of the reader may change.\<close>

definition rest :: "from_memory \<Rightarrow> 8 word list" where
  "rest r = drop (nextChar r) (theModel r)"

definition sized :: "from_memory \<Rightarrow> bool" where
  "sized r \<longleftrightarrow> length (theModel r) < 2 ^ 31"

definition moved :: "from_memory \<Rightarrow> 8 word list \<Rightarrow> l2_file \<Rightarrow> from_memory \<Rightarrow> bool" where
  "moved r cs d r' \<longleftrightarrow> rest r' = cs \<and> (\<exists>k. r' = r\<lparr>nextChar := k, dest := d\<rparr>)"

lemma movedD:
  assumes "moved r cs d r'"
  shows "rest r' = cs" "dest r' = d" "sized r' = sized r" "fm_widths r' = fm_widths r" "fm_counts r' = fm_counts r"
    "nenums_ct r' = nenums_ct r" "nvars_ct r' = nvars_ct r" "nclauses_ct r' = nclauses_ct r"
  using assms by (auto simp: moved_def sized_def)

lemma moved_trans: "moved r cs d r' \<Longrightarrow> moved r' cs' d' r'' \<Longrightarrow> moved r cs' d' r''"
  by (auto simp: moved_def)

lemma moved_dest: "moved r cs d r' \<Longrightarrow> moved r cs d' (r'\<lparr>dest := d'\<rparr>)"
  by (auto simp: moved_def rest_def)

lemma moved_refl [simp]: "moved r (rest r) (dest r) r"
  by (auto simp: moved_def intro: exI [of _ "nextChar r"])

lemma get1_ok:
  assumes "sized r" "rest r = c # cs"
  shows "returns (get1 r) (\<lambda>(x, r'). x = c \<and> moved r cs (dest r) r')"
proof -
  have l: "nextChar r < length (theModel r)" using assms(2) by (intro not_le_imp_less notI) (simp add: rest_def)
  have c: "theModel r ! nextChar r = c" "drop (Suc (nextChar r)) (theModel r) = cs"
    using assms(2) Cons_nth_drop_Suc [OF l] by (simp_all add: rest_def)
  have "unat (of_nat (modelSize r) :: 32 word) = length (theModel r)"
    using assms(1) by (simp add: sized_def modelSize_def unat_of_nat take_bit_nat_eq_self)
  then show ?thesis using l c
    by (auto simp: get1_def moved_def rest_def intro!: exI [of _ "Suc (nextChar r)"])
qed

lemma get_loop:
  assumes "n \<le> 4" "sized r" "rest r = enc n v @ cs" "acc = drop_bit (8 * n) v"
  shows "returns (rfold (\<lambda>_ (acc, r). rbind (get1 r) (\<lambda>(c, r1). Inr (push_bit 8 acc + ucast c, r1))) (replicate n x) (acc, r))
    (\<lambda>(y, r'). y = v \<and> moved r cs (dest r) r')"
  using assms
proof (induction n arbitrary: r acc)
  case 0
  then show ?case by (auto simp: moved_def intro: exI [of _ "nextChar r"])
next
  case (Suc n)
  let ?u = "drop_bit (8 * n) v"
  obtain r1 where r1: "get1 r = Inr (ucast ?u, r1)" "moved r (enc n v @ cs) (dest r) r1"
    using get1_ok [of r "ucast ?u" "enc n v @ cs"] Suc.prems by (auto simp: returns_iff)
  have "ucast (ucast ?u :: 8 word) = take_bit 8 ?u" by (auto intro!: bit_word_eqI simp: bit_simps)
  moreover have "acc = drop_bit 8 ?u" using Suc.prems(4) by (simp add: add.commute)
  ultimately have acc: "push_bit 8 acc + ucast (ucast ?u :: 8 word) = ?u" by (simp only: bits_ident)
  have "returns (rfold (\<lambda>_ (acc, r). rbind (get1 r) (\<lambda>(c, r1). Inr (push_bit 8 acc + ucast c, r1))) (replicate n x) (?u, r1))
    (\<lambda>(y, r'). y = v \<and> moved r1 cs (dest r1) r')"
    by (rule Suc.IH) (use Suc.prems movedD [OF r1(2)] in auto)
  then show ?case using moved_trans [OF r1(2)] movedD(2) [OF r1(2)] acc
    by (auto simp: r1(1) elim!: returns_mono)
qed

lemma get_ok:
  assumes "unat w \<le> 4" "sized r" "rest r = enc (unat w) v @ cs" "drop_bit (8 * unat w) v = 0"
  shows "returns (get w r) (\<lambda>(x, r'). x = v \<and> moved r cs (dest r) r')"
proof -
  have rep: "rfold (\<lambda>_. g) xs s = rfold (\<lambda>_. g) (replicate (length xs) (0 :: nat)) s" for g :: "32 word \<times> from_memory \<Rightarrow> (32 word \<times> from_memory) res" and xs :: "nat list" and s
    by (induction xs arbitrary: s) (simp_all add: rbind_def split: sum.splits)
  have eq: "get w r = rfold (\<lambda>_ (acc, r). rbind (get1 r) (\<lambda>(c, r1). Inr (push_bit 8 acc + ucast c, r1))) (replicate (unat w) (0 :: nat)) (0, r)"
    using rep [of _ "[0..<unat w]" "(0, r)"] unfolding get_def by (simp only: length_upt diff_zero)
  show ?thesis unfolding eq by (rule get_loop) (use assms in simp_all)
qed

end
