(* ===== verification/Bin_Transfer.thy ===== *)
theory Bin_Transfer
  imports Bin_Numbers
begin

text \<open>
  Writing and reading in step: what a writer appends, a reader takes up again. One lemma for each
  number, loop and object of the format.
\<close>

subsection \<open>Steps that agree\<close>

definition decodes :: "widths \<Rightarrow> 8 word list \<Rightarrow> (from_memory \<Rightarrow> from_memory res) \<Rightarrow> l2_file \<Rightarrow> l2_file \<Rightarrow> bool" where
  "decodes w bs step d d' \<longleftrightarrow> (\<forall>r cs. sized r \<longrightarrow> fm_widths r = w \<longrightarrow> dest r = d \<longrightarrow> rest r = bs @ cs \<longrightarrow>
     returns (step r) (moved r cs d'))"

text \<open>What is written by the first operation, the second reads, and takes the destination on.\<close>

definition transfers ::
  "widths \<Rightarrow> (8 word list \<Rightarrow> 8 word list res) \<Rightarrow> (from_memory \<Rightarrow> from_memory res) \<Rightarrow> l2_file \<Rightarrow> l2_file \<Rightarrow> bool" where
  "transfers w wr rd d d' \<longleftrightarrow> (\<forall>out out'. wr out = Inr out' \<longrightarrow> (\<exists>bs. out' = out @ bs \<and> decodes w bs rd d d'))"

text \<open>The same for a value; the destination is only looked at.\<close>

definition carries ::
  "widths \<Rightarrow> l2_file \<Rightarrow> (8 word list \<Rightarrow> 8 word list res) \<Rightarrow> (from_memory \<Rightarrow> ('a \<times> from_memory) res) \<Rightarrow> 'a \<Rightarrow> bool" where
  "carries w d wr rd v \<longleftrightarrow> (\<forall>out out'. wr out = Inr out' \<longrightarrow> (\<exists>bs. out' = out @ bs \<and>
     (\<forall>r cs. sized r \<longrightarrow> fm_widths r = w \<longrightarrow> dest r = d \<longrightarrow> rest r = bs @ cs \<longrightarrow>
        returns (rd r) (\<lambda>(x, r'). x = v \<and> moved r cs d r'))))"

lemma carries_put:
  assumes "unat (W w) \<le> 4"
  shows "carries w d (put (W w) v) (\<lambda>r. get (W (fm_widths r)) r) v"
  unfolding carries_def
proof (intro allI impI)
  fix out out'
  assume "put (W w) v out = Inr out'"
  from put_InrD [OF this assms] show "\<exists>bs. out' = out @ bs \<and> (\<forall>r cs. sized r \<longrightarrow> fm_widths r = w \<longrightarrow> dest r = d \<longrightarrow>
    rest r = bs @ cs \<longrightarrow> returns (get (W (fm_widths r)) r) (\<lambda>(x, r'). x = v \<and> moved r cs d r'))"
    using get_ok [OF assms] by (intro exI [of _ "enc (unat (W w)) v"]) auto
qed

lemma carries_put1: "carries w d (\<lambda>out. Inr (put1 c out)) get1 (ucast c)"
  using get1_ok by (auto simp: carries_def put1_def)

text \<open>A value, and then the rest; a value that ends a step.\<close>

lemma transfers_value:
  assumes "carries w d wr1 rd v" "transfers w wr2 (k v) d d'"
  shows "transfers w (\<lambda>out. rbind (wr1 out) wr2) (\<lambda>r. rbind (rd r) (\<lambda>(x, r1). k x r1)) d d'"
  unfolding transfers_def
proof (intro allI impI)
  fix out out'
  assume "rbind (wr1 out) wr2 = Inr out'"
  then obtain o1 where o1: "wr1 out = Inr o1" "wr2 o1 = Inr out'" by (cases "wr1 out") simp_all
  from o1(1) assms(1) obtain b1 where b1: "o1 = out @ b1" "\<And>r cs. sized r \<Longrightarrow> fm_widths r = w \<Longrightarrow> dest r = d \<Longrightarrow>
    rest r = b1 @ cs \<Longrightarrow> returns (rd r) (\<lambda>(x, r'). x = v \<and> moved r cs d r')"
    unfolding carries_def by metis
  from o1(2) assms(2) obtain b2 where b2: "out' = o1 @ b2" "decodes w b2 (k v) d d'" unfolding transfers_def by metis
  have "decodes w (b1 @ b2) (\<lambda>r. rbind (rd r) (\<lambda>(x, r1). k x r1)) d d'"
    unfolding decodes_def
  proof (intro allI impI)
    fix r cs
    assume r: "sized r" "fm_widths r = w" "dest r = d" "rest r = (b1 @ b2) @ cs"
    obtain r1 where r1: "rd r = Inr (v, r1)" "moved r (b2 @ cs) d r1"
      using b1(2) [of r "b2 @ cs"] r by (auto simp: returns_iff)
    have "returns (k v r1) (moved r1 cs d')" using b2(2) r movedD [OF r1(2)] by (simp add: decodes_def)
    then show "returns (rbind (rd r) (\<lambda>(x, r1). k x r1)) (moved r cs d')"
      using moved_trans [OF r1(2)] by (auto simp: r1(1) elim: returns_mono)
  qed
  then show "\<exists>bs. out' = out @ bs \<and> decodes w bs (\<lambda>r. rbind (rd r) (\<lambda>(x, r1). k x r1)) d d'"
    using b1(1) b2(1) by (intro exI [of _ "b1 @ b2"]) simp
qed

lemma transfers_nothing:
  assumes "\<And>r. fm_widths r = w \<Longrightarrow> dest r = d \<Longrightarrow> step r = Inr (r\<lparr>dest := d'\<rparr>)"
  shows "transfers w Inr step d d'"
proof -
  have "moved r (rest r) d' (r\<lparr>dest := d'\<rparr>)" for r by (rule moved_dest [OF moved_refl])
  then show ?thesis unfolding transfers_def decodes_def using assms by simp
qed

lemma rbind_Inr: "rbind m Inr = m"
  by (cases m) simp_all

lemma transfers_last:
  assumes "carries w d wr rd v" "\<And>r. fm_widths r = w \<Longrightarrow> dest r = d \<Longrightarrow> k v r = Inr (r\<lparr>dest := d'\<rparr>)"
  shows "transfers w wr (\<lambda>r. rbind (rd r) (\<lambda>(x, r1). k x r1)) d d'"
  using transfers_value [OF assms(1) transfers_nothing, of k] assms(2) by (simp add: rbind_Inr)

lemma transfers_seq:
  assumes "transfers w wr1 rd1 d d1" "transfers w wr2 rd2 d1 d2"
  shows "transfers w (\<lambda>out. rbind (wr1 out) wr2) (\<lambda>r. rbind (rd1 r) rd2) d d2"
  unfolding transfers_def
proof (intro allI impI)
  fix out out'
  assume "rbind (wr1 out) wr2 = Inr out'"
  then obtain o1 where o1: "wr1 out = Inr o1" "wr2 o1 = Inr out'" by (cases "wr1 out") simp_all
  from o1(1) assms(1) obtain b1 where b1: "o1 = out @ b1" "decodes w b1 rd1 d d1" unfolding transfers_def by metis
  from o1(2) assms(2) obtain b2 where b2: "out' = o1 @ b2" "decodes w b2 rd2 d1 d2" unfolding transfers_def by metis
  have "decodes w (b1 @ b2) (\<lambda>r. rbind (rd1 r) rd2) d d2"
    unfolding decodes_def
  proof (intro allI impI)
    fix r cs
    assume r: "sized r" "fm_widths r = w" "dest r = d" "rest r = (b1 @ b2) @ cs"
    obtain r1 where r1: "rd1 r = Inr r1" "moved r (b2 @ cs) d1 r1"
      using b1(2) r by (auto simp: decodes_def returns_iff)
    have "returns (rd2 r1) (moved r1 cs d2)" using b2(2) r movedD [OF r1(2)] by (simp add: decodes_def)
    then show "returns (rbind (rd1 r) rd2) (moved r cs d2)"
      using moved_trans [OF r1(2)] by (auto simp: r1(1) elim: returns_mono)
  qed
  then show "\<exists>bs. out' = out @ bs \<and> decodes w bs (\<lambda>r. rbind (rd1 r) rd2) d d2"
    using b1(1) b2(1) by (intro exI [of _ "b1 @ b2"]) simp
qed

lemma rfold_single: "rfold f [x] = f x"
proof (rule ext)
  fix s
  show "rfold f [x] s = f x s" by (cases "f x s") simp_all
qed

lemma rfold_Suc: "rfold g [0..<Suc n] = (\<lambda>s. rbind (rfold g [0..<n] s) (g n))"
  by (simp add: rfold_append rfold_single fun_eq_iff)

lemma transfers_loop:
  assumes "\<And>i. i < n \<Longrightarrow> transfers w (wr i) (rd i) (D i) (D (Suc i))"
  shows "transfers w (rfold wr [0..<n]) (rfold rd [0..<n]) (D 0) (D n)"
  using assms
proof (induction n)
  case 0
  have "moved r (rest r) (D 0) r" if "dest r = D 0" for r using moved_refl [of r] that by simp
  then show ?case unfolding transfers_def decodes_def by simp
next
  case (Suc n)
  have "transfers w (\<lambda>out. rbind (rfold wr [0..<n] out) (wr n)) (\<lambda>r. rbind (rfold rd [0..<n] r) (rd n)) (D 0) (D (Suc n))"
    by (rule transfers_seq [OF Suc.IH]) (simp_all add: Suc.prems)
  then show ?case unfolding rfold_Suc .
qed

lemma rfold_index: "rfold f xs = rfold (\<lambda>i. f (xs ! i)) [0..<length xs]"
proof -
  have "rfold f (map g is) s = rfold (\<lambda>i. f (g i)) is s" for g and "is" :: "nat list" and s
    by (induction "is" arbitrary: s) (simp_all add: rbind_def split: sum.splits)
  from this [of "(!) xs" "[0..<length xs]"] show ?thesis by (simp add: map_nth fun_eq_iff)
qed

text \<open>A loop over the objects of an array, and a loop that counts.\<close>

lemma each_index:
  assumes "length xs < 2 ^ 31" "\<And>i. i < length xs \<Longrightarrow> look (of_nat i) = Inr (xs ! i)" "n = of_nat (length xs)"
  shows "each look n body = rfold (\<lambda>i. body (xs ! i)) [0..<length xs]"
proof -
  have n: "unat n = length xs" using assms(1,3) by (simp add: unat_of_nat take_bit_nat_eq_self)
  have "rfold (\<lambda>i s. rbind (look (of_nat i)) (\<lambda>x. body x s)) is s = rfold (\<lambda>i. body (xs ! i)) is s"
    if "set is \<subseteq> {0..<length xs}" for "is" s
    using that
  proof (induction "is" arbitrary: s)
    case (Cons i "is")
    then show ?case by (cases "body (xs ! i) s") (simp_all add: assms(2))
  qed simp
  then show ?thesis unfolding each_def n by (intro ext) simp
qed

subsection \<open>Filling an array\<close>

lemma set_place_next:
  assumes "length xs < 2 ^ 31" "i < length xs"
  shows "set_place (of_nat i) (xs ! i) (Some (filled_array (take i xs) (length xs))) = Inr (Some (filled_array (take (Suc i) xs) (length xs)))"
proof -
  have "set_place (of_nat i) (xs ! i) (Some (filled_array (take i xs) (length xs))) =
    Inr (Some ((filled_array (take i xs) (length xs))[i := Some (xs ! i)]))"
    using assms by (intro set_place_ok) simp_all
  also have "(filled_array (take i xs) (length xs))[i := Some (xs ! i)] = filled_array (take i xs @ [xs ! i]) (length xs)"
    using filled_array_set [of "take i xs" "length xs" "xs ! i"] assms(2) by simp
  finally show ?thesis using assms(2) by (simp add: take_Suc_conv_app_nth)
qed

lemma alloc_ok: "length xs < 2 ^ 31 \<Longrightarrow> alloc_and_zero (of_nat (length xs)) None = Inr (Some (filled_array (take 0 xs) (length xs)))"
  by (simp add: alloc_and_zero_def l2_assert_def unat_of_nat take_bit_nat_eq_self)

lemma access_full:
  assumes "length xs < 2 ^ 31" "i < length xs"
  shows "access (of_nat i) (Some (map Some xs)) = Inr (xs ! i)" "at_place (Some (map Some xs)) i = Inr (xs ! i)"
  using access_ok [of "map Some xs" i "xs ! i"] assms by (simp_all add: at_place_def)

subsection \<open>Numbers of objects\<close>

lemma carries_places:
  assumes W: "unat (W w) \<le> 4" and xs: "numbered ident xs" and ks: "set ks \<subseteq> {0..<length xs}" "length ks < 2 ^ 31"
    and look: "\<And>k. k < length xs \<Longrightarrow> look d (of_nat k) = Inr (xs ! k)"
  shows "carries w d (rfold (\<lambda>k out. rbind (at_place (Some (map Some xs)) k) (\<lambda>p. put (W w) (ident p) out)) ks)
    (\<lambda>r. read_places (of_nat (length ks)) look (W (fm_widths r)) r) ks"
proof -
  let ?wr = "\<lambda>k out. rbind (at_place (Some (map Some xs)) k) (\<lambda>p. put (W w) (ident p) out)"
  let ?rd = "\<lambda>_ (ks, r). rbind (get (W w) r) (\<lambda>(k, r1). rbind (look (dest r1) k) (\<lambda>_. Inr (ks @ [unat k], r1)))"
  have n: "unat (of_nat (length ks) :: 32 word) = length ks" using ks(2) by (simp add: unat_of_nat take_bit_nat_eq_self)
  have step: "?wr k = put (W w) (of_nat k)" "unat (of_nat k :: 32 word) = k" "look d (of_nat k) = Inr (xs ! k)"
    if "k < length xs" for k
    using that xs access_full(2) [of xs k] look numbered_small [OF xs that] by (auto simp: numbered_def fun_eq_iff)
  have main: "\<exists>bs. out' = out @ bs \<and> (\<forall>r cs pre. sized r \<longrightarrow> fm_widths r = w \<longrightarrow> dest r = d \<longrightarrow> rest r = bs @ cs \<longrightarrow>
      returns (rfold ?rd (replicate (length js) (0 :: nat)) (pre, r)) (\<lambda>(x, r'). x = pre @ js \<and> moved r cs d r'))"
    if "set js \<subseteq> {0..<length xs}" "rfold ?wr js out = Inr out'" for js out out'
    using that
  proof (induction js arbitrary: out)
    case Nil
    have "moved r (rest r) (dest r) r" for r by simp
    then show ?case using Nil by auto
  next
    case (Cons k js)
    have k: "k < length xs" using Cons.prems(1) by simp
    obtain o1 where o1: "put (W w) (of_nat k) out = Inr o1" "rfold ?wr js o1 = Inr out'"
      using Cons.prems(2) fun_cong [OF step(1) [OF k], of out] by (cases "put (W w) (of_nat k) out") auto
    have fits: "o1 = out @ enc (unat (W w)) (of_nat k)" "drop_bit (8 * unat (W w)) (of_nat k :: 32 word) = 0"
      using put_InrD [OF o1(1) W] .
    obtain bs where bs: "out' = o1 @ bs" "\<And>r cs pre. sized r \<Longrightarrow> fm_widths r = w \<Longrightarrow> dest r = d \<Longrightarrow> rest r = bs @ cs \<Longrightarrow>
      returns (rfold ?rd (replicate (length js) (0 :: nat)) (pre, r)) (\<lambda>(x, r'). x = pre @ js \<and> moved r cs d r')"
      using Cons.IH [OF _ o1(2)] Cons.prems(1) by auto
    have "returns (rfold ?rd (replicate (length (k # js)) (0 :: nat)) (pre, r)) (\<lambda>(x, r'). x = pre @ k # js \<and> moved r cs d r')"
      if r: "sized r" "fm_widths r = w" "dest r = d" "rest r = (enc (unat (W w)) (of_nat k) @ bs) @ cs" for r cs pre
    proof -
      obtain r1 where r1: "get (W w) r = Inr (of_nat k, r1)" "moved r (bs @ cs) d r1"
        using get_ok [OF W, of r "of_nat k" "bs @ cs"] r fits(2) by (auto simp: returns_iff)
      have "returns (rfold ?rd (replicate (length js) (0 :: nat)) (pre @ [k], r1)) (\<lambda>(x, r'). x = (pre @ [k]) @ js \<and> moved r1 cs d r')"
        by (rule bs(2)) (use r movedD [OF r1(2)] in simp_all)
      then show ?thesis using step(2,3) [OF k] movedD(2) [OF r1(2)] moved_trans [OF r1(2)]
        by (auto simp: r1(1) elim!: returns_mono)
    qed
    then show ?case using fits(1) bs(1) by (intro exI [of _ "enc (unat (W w)) (of_nat k) @ bs"]) simp
  qed
  have rep: "rfold (\<lambda>_. g) [0..<m] s = rfold (\<lambda>_. g) (replicate m (0 :: nat)) s"
    for g :: "place list \<times> from_memory \<Rightarrow> (place list \<times> from_memory) res" and m s
  proof -
    have "rfold (\<lambda>_. g) ys s = rfold (\<lambda>_. g) (replicate (length ys) (0 :: nat)) s" for ys :: "nat list" and s
      by (induction ys arbitrary: s) (simp_all add: rbind_def split: sum.splits)
    from this [of "[0..<m]"] show ?thesis by (simp only: length_upt diff_zero)
  qed
  show ?thesis
    unfolding carries_def
  proof (intro allI impI)
    fix out out'
    assume "rfold ?wr ks out = Inr out'"
    from main [OF ks(1) this] obtain bs where bs: "out' = out @ bs" "\<And>r cs pre. sized r \<Longrightarrow> fm_widths r = w \<Longrightarrow> dest r = d \<Longrightarrow>
      rest r = bs @ cs \<Longrightarrow> returns (rfold ?rd (replicate (length ks) (0 :: nat)) (pre, r)) (\<lambda>(x, r'). x = pre @ ks \<and> moved r cs d r')"
      by blast
    have "returns (read_places (of_nat (length ks)) look (W (fm_widths r)) r) (\<lambda>(x, r'). x = ks \<and> moved r cs d r')"
      if "sized r" "fm_widths r = w" "dest r = d" "rest r = bs @ cs" for r cs
      using bs(2) [OF that, of "[]"] unfolding read_places_def n rep that(2) by simp
    then show "\<exists>bs. out' = out @ bs \<and> (\<forall>r cs. sized r \<longrightarrow> fm_widths r = w \<longrightarrow> dest r = d \<longrightarrow> rest r = bs @ cs \<longrightarrow>
      returns (read_places (of_nat (length ks)) look (W (fm_widths r)) r) (\<lambda>(x, r'). x = ks \<and> moved r cs d r'))"
      using bs(1) by blast
  qed
qed

end
