(* ===== verification/Bin_Objects.thy ===== *)
theory Bin_Objects
  imports Bin_Transfer
begin

text \<open>
  The sections of the binary format: enumerations, variables, propositions, clauses and transitions
  of a complete file are read back as they were written.
\<close>

subsection \<open>Complete files\<close>

definition transition_ok :: "nat \<Rightarrow> nat \<Rightarrow> l2r_transition \<Rightarrow> bool" where
  "transition_ok i n x \<longleftrightarrow> lx_mode x = i \<and> set (lx_clauses x) \<subseteq> {0..<n} \<and> length (lx_clauses x) < 2 ^ 31 \<and>
     (if isNominal x then lx_rank x = 0 else lx_from x = ANY_MODE \<and> lx_rank x < 256)"

definition mode_ok :: "nat \<Rightarrow> nat \<Rightarrow> l2r_mode \<Rightarrow> bool" where
  "mode_ok i n m \<longleftrightarrow> (\<forall>x \<in> set (nominal_transitions m). isNominal x \<and> transition_ok i n x) \<and>
     (\<forall>x \<in> set (failure_transitions m). \<not> isNominal x \<and> transition_ok i n x) \<and>
     sorted (map lx_rank (failure_transitions m)) \<and>
     length (nominal_transitions m) < 2 ^ 31 \<and> length (failure_transitions m) < 2 ^ 31"

definition variable_ok :: "nat \<Rightarrow> nat \<Rightarrow> nat \<Rightarrow> l2r_variable \<Rightarrow> bool" where
  "variable_ok nes ncs i v \<longleftrightarrow> lv_type v < nes \<and>
     (case lv_mode v of None \<Rightarrow> lv_kind v \<noteq> vk_mode | Some m \<Rightarrow> lv_kind v = vk_mode \<and> mode_ok i ncs m)"

definition proposition_ok :: "nat \<Rightarrow> l2r_proposition \<Rightarrow> bool" where
  "proposition_ok nvs p \<longleftrightarrow> lp_var p < nvs \<and> (case lp_body p of Var_value i \<Rightarrow> True | Var_var u \<Rightarrow> lp_var p \<le> u \<and> u < nvs)"

definition l2r_clause_ok :: "nat \<Rightarrow> l2r_clause \<Rightarrow> bool" where
  "l2r_clause_ok nps c \<longleftrightarrow> set (lc_props c) \<subseteq> {0..<nps} \<and> length (lc_props c) < 2 ^ 31"

definition complete ::
  "l2r_enumeration list \<Rightarrow> l2r_variable list \<Rightarrow> l2r_proposition list \<Rightarrow> l2r_clause list \<Rightarrow> l2_file \<Rightarrow> bool" where
  "complete es vs ps cs f \<longleftrightarrow> file_holds es vs ps cs f \<and>
     numbered le_id es \<and> numbered lv_id vs \<and> numbered lp_id ps \<and> numbered lc_id cs \<and>
     (\<forall>i < length vs. variable_ok (length es) (length cs) i (vs ! i)) \<and>
     (\<forall>p \<in> set ps. proposition_ok (length vs) p) \<and> (\<forall>c \<in> set cs. l2r_clause_ok (length ps) c)"

text \<open>
  What comes back: the initial values of modes only, and the nominal transitions, which are added
  at the front one by one, in reverse order.
\<close>

definition reread_mode :: "l2r_mode \<Rightarrow> l2r_mode" where
  "reread_mode m = m\<lparr>nominal_transitions := rev (nominal_transitions m)\<rparr>"

definition reread :: "l2r_variable \<Rightarrow> l2r_variable" where
  "reread v = v\<lparr>lv_initial := (if lv_kind v = vk_mode then lv_initial v else NO_INITIAL_VALUE),
     lv_mode := map_option reread_mode (lv_mode v), savedInitial := None\<rparr>"

definition bare :: "l2r_variable \<Rightarrow> l2r_variable" where
  "bare v = (reread v)\<lparr>lv_mode := map_option (\<lambda>_. \<lparr>nominal_transitions = [], failure_transitions = []\<rparr>) (lv_mode v)\<rparr>"

definition stage ::
  "l2r_enumeration option list option \<Rightarrow> l2r_variable option list option \<Rightarrow> l2r_proposition option list option \<Rightarrow>
   l2r_clause option list option \<Rightarrow> l2_file" where
  "stage es vs ps cs = \<lparr>lf_enums = es, lf_vars = vs, lf_props = ps, lf_clauses = cs,
     dbg_clauses = False, dbg_enums = False, dbg_vars = False\<rparr>"

definition widths_ok :: "widths \<Rightarrow> bool" where
  "widths_ok w \<longleftrightarrow> unat (We w) \<le> 4 \<and> unat (Wv w) \<le> 4 \<and> unat (Wp w) \<le> 4 \<and> unat (Wc w) \<le> 4 \<and>
     unat (Wch w) \<le> 4 \<and> unat (Wx w) \<le> 4 \<and> unat (Wxc w) \<le> 4"

lemma asize_full: "asize (Some (map Some xs)) = of_nat (length xs)"
  by (simp add: asize_def)

lemma unat_length: "length xs < 2 ^ 31 \<Longrightarrow> unat (of_nat (length xs) :: 32 word) = length xs"
  by (simp add: unat_of_nat take_bit_nat_eq_self)

lemma transfers_cong:
  assumes "transfers w wr rd' d d'" "\<And>r. fm_widths r = w \<Longrightarrow> dest r = d \<Longrightarrow> rd r = rd' r"
  shows "transfers w wr rd d d'"
  using assms unfolding transfers_def decodes_def by metis

lemma transfers_alloc:
  assumes "transfers w wr rd d1 d2" "alloc d = Inr d1"
  shows "transfers w wr (\<lambda>r. rbind (in_dest alloc r) rd) d d2"
proof -
  have "transfers w Inr (in_dest alloc) d d1"
    by (rule transfers_nothing) (simp add: in_dest_def assms(2))
  from transfers_seq [OF this assms(1)] show ?thesis by simp
qed

lemma in_dest_eq: "f (dest r) = Inr d \<Longrightarrow> in_dest f r = Inr (r\<lparr>dest := d\<rparr>)"
  by (simp add: in_dest_def)

subsection \<open>Enumerations\<close>

lemma enums_transfer:
  assumes c: "complete es vs ps cs f" and w: "widths_ok w"
  shows "transfers w (each (getEnum f) (nenums f) (write_one_enum w))
    (\<lambda>r. rbind (in_dest (allocEnums (nenums f) False) r) (repeat (nenums f) read_one_enum))
    (stage None None None None) (stage (Some (map Some es)) None None None)"
proof -
  let ?D = "\<lambda>i. stage (Some (filled_array (take i es) (length es))) None None None"
  have f: "lf_enums f = Some (map Some es)" and n: "numbered le_id es" using c by (simp_all add: complete_def file_holds_def)
  then have l: "length es < 2 ^ 31" by (simp add: numbered_def)
  have sz: "nenums f = of_nat (length es)" "unat (nenums f) = length es" using unat_length [OF l] by (simp_all add: nenums_def f asize_full)
  have one: "transfers w (write_one_enum w (es ! i)) (read_one_enum (of_nat i)) (?D i) (?D (Suc i))" if i: "i < length es" for i
  proof -
    have e: "es ! i = \<lparr>le_id = of_nat i, nmembers = nmembers (es ! i)\<rparr>" using n i by (simp add: numbered_def)
    have "setEnum (of_nat i) \<lparr>le_id = of_nat i, nmembers = nmembers (es ! i)\<rparr> (?D i) = Inr (?D (Suc i))"
      using set_place_next [OF l i] by (simp add: setEnum_def stage_def flip: e)
    then show ?thesis unfolding write_one_enum_def read_one_enum_def
      by (intro transfers_last [OF carries_put]) (use w in \<open>simp_all add: widths_ok_def in_dest_eq\<close>)
  qed
  have loop: "transfers w (rfold (\<lambda>i. write_one_enum w (es ! i)) [0..<length es]) (repeat (nenums f) read_one_enum) (?D 0) (?D (length es))"
    unfolding repeat_def sz(2) by (rule transfers_loop) (rule one)
  have "each (getEnum f) (nenums f) (write_one_enum w) = rfold (\<lambda>i. write_one_enum w (es ! i)) [0..<length es]"
    by (rule each_index) (use l sz access_full [OF l] f in \<open>simp_all add: getEnum_def\<close>)
  moreover have "allocEnums (nenums f) False (stage None None None None) = Inr (?D 0)"
    using alloc_ok [OF l] by (simp add: allocEnums_def stage_def sz(1))
  ultimately show ?thesis using transfers_alloc [OF loop] by simp
qed

subsection \<open>Variables\<close>

lemma kind_of_code_eq: "kind_of_code (ucast (kind_code k)) = Inr k"
  by (cases k) (simp_all add: kind_of_code_def)

lemma variable_transfers:
  assumes w: "widths_ok w" and es: "numbered le_id es" and f: "lf_enums f = Some (map Some es)"
    and d: "lf_enums d = Some (map Some es)" and v: "variable_ok (length es) n j v"
    and set: "setVar i (bare v) d = Inr d'" and i: "lv_id v = i"
  shows "transfers w (write_one_variable f w v) (read_one_variable i) d d'"
proof -
  let ?k = "lv_type v"
  have l: "length es < 2 ^ 31" using es by (simp add: numbered_def)
  have k: "?k < length es" using v by (simp add: variable_ok_def)
  have e: "at_place (lf_enums f) ?k = Inr (es ! ?k)" "le_id (es ! ?k) = of_nat ?k" "getEnum d (of_nat ?k) = Inr (es ! ?k)"
    "unat (of_nat ?k :: 32 word) = ?k"
    using access_full [OF l k] es k numbered_small [OF es k] by (simp_all add: f d numbered_def getEnum_def)
  have b: "lv_setKind (lv_kind v) (new_l2r_variable i ?k) = Inr (if lv_kind v = vk_mode then (bare v)\<lparr>lv_initial := NO_INITIAL_VALUE\<rparr> else bare v)"
    using v i by (auto simp: lv_setKind_def new_l2r_variable_def l2_assert_def bare_def reread_def variable_ok_def Let_def split: option.splits)
  have ini: "lv_setInitial (lv_initial v) ((bare v)\<lparr>lv_initial := NO_INITIAL_VALUE\<rparr>) = Inr (bare v)" if "lv_kind v = vk_mode"
    using that by (simp add: lv_setInitial_def l2_assert_def bare_def reread_def)
  have put: "carries w d (put (We w) x) (\<lambda>r. get (We (fm_widths r)) r) x" for x
    by (rule carries_put) (use w in \<open>simp add: widths_ok_def\<close>)
  let ?rd = "\<lambda>r. rbind (if lv_kind v = vk_mode then rbind (get (We (fm_widths r)) r) (\<lambda>(j, r3).
      rbind (lv_setInitial j ((bare v)\<lparr>lv_initial := NO_INITIAL_VALUE\<rparr>)) (\<lambda>v1. Inr (v1, r3)))
    else Inr (bare v, r)) (\<lambda>(v1, r3). in_dest (setVar i v1) r3)"
  have last: "transfers w (if lv_kind v = vk_mode then put (We w) (lv_initial v) else Inr) ?rd d d'"
  proof (cases "lv_kind v = vk_mode")
    case True
    have "transfers w (put (We w) (lv_initial v)) (\<lambda>r. rbind (get (We (fm_widths r)) r)
        (\<lambda>(j, r3). rbind (lv_setInitial j ((bare v)\<lparr>lv_initial := NO_INITIAL_VALUE\<rparr>)) (\<lambda>v1. in_dest (setVar i v1) r3))) d d'"
      by (rule transfers_last [OF put]) (use ini [OF True] set in \<open>simp add: in_dest_eq\<close>)
    then have "transfers w (put (We w) (lv_initial v)) ?rd d d'"
      by (rule transfers_cong) (use True in \<open>simp add: rbind_assoc case_prod_unfold\<close>)
    then show ?thesis using True by simp
  next
    case False
    have "transfers w Inr ?rd d d'"
      by (rule transfers_nothing) (use False set in \<open>simp add: in_dest_eq\<close>)
    then show ?thesis using False by simp
  qed
  have wr: "write_one_variable f w v = (\<lambda>out. rbind (put (We w) (of_nat ?k) out) (\<lambda>out. rbind (Inr (put1 (kind_code (lv_kind v)) out))
      (if lv_kind v = vk_mode then put (We w) (lv_initial v) else Inr)))"
    by (auto simp: write_one_variable_def e Let_def fun_eq_iff)
  show ?thesis
    unfolding wr read_one_variable_def
    by (rule transfers_value [OF put], rule transfers_value [OF carries_put1], rule transfers_cong [OF last])
      (simp add: kind_of_code_eq e b)
qed

lemma vars_transfer:
  assumes c: "complete es vs ps cs f" and w: "widths_ok w"
  shows "transfers w (each (getVar f) (nvars f) (write_one_variable f w))
    (\<lambda>r. rbind (in_dest (allocVars (nvars f) False) r) (repeat (nvars f) read_one_variable))
    (stage (Some (map Some es)) None None None) (stage (Some (map Some es)) (Some (map Some (map bare vs))) None None)"
proof -
  let ?bs = "map bare vs"
  let ?D = "\<lambda>i. stage (Some (map Some es)) (Some (filled_array (take i ?bs) (length vs))) None None"
  have f: "lf_enums f = Some (map Some es)" "lf_vars f = Some (map Some vs)" and n: "numbered le_id es" "numbered lv_id vs"
    using c by (simp_all add: complete_def file_holds_def)
  then have l: "length vs < 2 ^ 31" by (simp add: numbered_def)
  have sz: "nvars f = of_nat (length vs)" "unat (nvars f) = length vs" using unat_length [OF l] by (simp_all add: nvars_def f asize_full)
  have one: "transfers w (write_one_variable f w (vs ! i)) (read_one_variable (of_nat i)) (?D i) (?D (Suc i))" if i: "i < length vs" for i
  proof -
    have "setVar (of_nat i) (bare (vs ! i)) (?D i) = Inr (?D (Suc i))"
      using set_place_next [of ?bs i] l i by (simp add: setVar_def stage_def)
    moreover have "variable_ok (length es) (length cs) i (vs ! i)" "lv_id (vs ! i) = of_nat i"
      using c i n(2) by (simp_all add: complete_def numbered_def)
    ultimately show ?thesis by (intro variable_transfers [OF w n(1) f(1)]) (simp_all add: stage_def)
  qed
  have loop: "transfers w (rfold (\<lambda>i. write_one_variable f w (vs ! i)) [0..<length vs]) (repeat (nvars f) read_one_variable) (?D 0) (?D (length vs))"
    unfolding repeat_def sz(2) by (rule transfers_loop) (rule one)
  have "each (getVar f) (nvars f) (write_one_variable f w) = rfold (\<lambda>i. write_one_variable f w (vs ! i)) [0..<length vs]"
    by (rule each_index) (use l sz access_full [OF l] f in \<open>simp_all add: getVar_def\<close>)
  moreover have "allocVars (nvars f) False (stage (Some (map Some es)) None None None) = Inr (?D 0)"
    using alloc_ok [of ?bs] l by (simp add: allocVars_def stage_def sz(1))
  ultimately show ?thesis using transfers_alloc [OF loop] by simp
qed

subsection \<open>Propositions\<close>

lemma look_var:
  assumes n: "numbered lv_id vs" and i: "i < length vs"
  shows "unat (of_nat i :: 32 word) = i" "lv_id (vs ! i) = of_nat i"
    "at_place (Some (map Some vs)) i = Inr (vs ! i)"
    "lf_vars d = Some (map Some (map bare vs)) \<Longrightarrow> getVar d (of_nat i) = Inr (bare (vs ! i))"
  using assms access_full [of vs i] access_full [of "map bare vs" i] numbered_small [OF n i] by (simp_all add: numbered_def getVar_def)

lemma varvalue_transfers:
  assumes w: "widths_ok w" and f: "lf_vars f = Some (map Some vs)" and d: "lf_vars d = Some (map Some (map bare vs))"
    and n: "numbered lv_id vs" and p: "proposition_ok (length vs) p" "\<not> isEquality p" "isPositive p = pos"
    and set: "setProp i p d = Inr d'" and i: "lp_id p = i"
  shows "transfers w (write_one_varvalue f w p) (read_one_varval pos i) d d'"
proof -
  obtain x where x: "lp_body p = Var_value x" using p(2) by (auto simp: isEquality_def split: prop_body.splits)
  have v: "lp_var p < length vs" using p(1) by (simp add: proposition_ok_def)
  note look = look_var [OF n v]
  have eq: "p = \<lparr>lp_id = i, lp_var = lp_var p, isPositive = pos, lp_body = Var_value x\<rparr>" using p(3) i x by simp
  have wr: "write_one_varvalue f w p = (\<lambda>out. rbind (put (Wv w) (of_nat (lp_var p)) out) (put (We w) x))"
    by (simp add: write_one_varvalue_def x look(2,3) f fun_eq_iff)
  have put: "carries w d (put (We w) y) (\<lambda>r. get (We (fm_widths r)) r) y" "carries w d (put (Wv w) y) (\<lambda>r. get (Wv (fm_widths r)) r) y" for y
    using w by (auto simp: widths_ok_def intro: carries_put [of We] carries_put [of Wv])
  show ?thesis
    unfolding wr read_one_varval_def
    by (rule transfers_value [OF put(2)], rule transfers_last [OF put(1)])
      (use set look(1,4) d in \<open>simp add: in_dest_eq flip: eq\<close>)
qed

lemma varvar_transfers:
  assumes w: "widths_ok w" and f: "lf_vars f = Some (map Some vs)" and d: "lf_vars d = Some (map Some (map bare vs))"
    and n: "numbered lv_id vs" and p: "proposition_ok (length vs) p" "isEquality p" "isPositive p = pos"
    and set: "setProp i p d = Inr d'" and i: "lp_id p = i"
  shows "transfers w (write_one_varvar f w p) (read_one_varvar pos i) d d'"
proof -
  obtain u where u: "lp_body p = Var_var u" using p(2) by (auto simp: isEquality_def split: prop_body.splits)
  have v: "lp_var p < length vs" "u < length vs" "lp_var p \<le> u" using p(1) u by (simp_all add: proposition_ok_def)
  note look = look_var [OF n v(1)] look_var [OF n v(2)]
  have "(of_nat (lp_var p) :: 32 word) < of_nat u \<longleftrightarrow> lp_var p < u" using look(1,5) by (simp add: word_less_nat_alt)
  then have eq: "var_var i (lp_var p, of_nat (lp_var p)) pos (u, of_nat u) = p" using v(3) p(3) i u by (simp add: var_var_def)
  have wr: "write_one_varvar f w p = (\<lambda>out. rbind (put (Wv w) (of_nat (lp_var p)) out) (put (Wv w) (of_nat u)))"
    by (simp add: write_one_varvar_def u look(2,3,6,7) f fun_eq_iff)
  have put: "carries w d (put (Wv w) y) (\<lambda>r. get (Wv (fm_widths r)) r) y" for y
    using w by (auto simp: widths_ok_def intro: carries_put [of Wv])
  have id: "lv_id (bare x) = lv_id x" for x by (simp add: bare_def reread_def)
  show ?thesis
    unfolding wr read_one_varvar_def
    by (rule transfers_value [OF put], rule transfers_last [OF put])
      (use set look(1,2,4,5,6,8) d in \<open>simp add: in_dest_eq eq id\<close>)
qed

text \<open>The loops with a counter, from a place of the array on.\<close>

lemma write_kind_index:
  assumes "length ps < 2 ^ 31" "lf_props f = Some (map Some ps)" "a + n \<le> length ps"
  shows "rfold (\<lambda>_ (i, out). rbind (getProp f i) (\<lambda>p. rbind (one f w p out) (\<lambda>out1. Inr (i + 1, out1)))) [0..<n] (of_nat a, out) =
    rbind (rfold (\<lambda>i. one f w (ps ! i)) [a..<a + n] out) (\<lambda>out1. Inr (of_nat (a + n), out1))"
  using assms(3)
proof (induction n)
  case (Suc n)
  have "getProp f (of_nat (a + n)) = Inr (ps ! (a + n))" using access_full(1) [OF assms(1), of "a + n"] Suc.prems by (simp add: getProp_def assms(2))
  then show ?case using Suc by (simp add: rfold_append rfold_single rbind_assoc add.commute [of 1] del: of_nat_add)
qed simp

lemma repeat_from_index:
  "rfold (\<lambda>_ (i, r). rbind (body i r) (\<lambda>r1. Inr (i + 1, r1))) [0..<n] (of_nat a, r) =
    rbind (rfold (\<lambda>i. body (of_nat i)) [a..<a + n] r) (\<lambda>r1. Inr (of_nat (a + n), r1))"
  by (induction n) (simp_all add: rfold_append rfold_single rbind_assoc add.commute [of 1] del: of_nat_add)

lemma check_kindD:
  assumes "length ps < 2 ^ 31" "lf_props f = Some (map Some ps)" "a \<le> length ps"
    and "rfold (\<lambda>_ i. rbind (getProp f i) (\<lambda>p. rbind (l2_assert (isPositive p = pos \<and> isEquality p = eq) L2_writer_error)
      (\<lambda>_. Inr (i + 1)))) [0..<n] (of_nat a) = Inr i'"
  shows "a + n \<le> length ps \<and> i' = of_nat (a + n) \<and> (\<forall>j \<in> {a..<a + n}. isPositive (ps ! j) = pos \<and> isEquality (ps ! j) = eq)"
  using assms(4)
proof (induction n arbitrary: i')
  case (Suc n)
  then obtain i where i: "rfold (\<lambda>_ i. rbind (getProp f i) (\<lambda>p. rbind (l2_assert (isPositive p = pos \<and> isEquality p = eq) L2_writer_error)
      (\<lambda>_. Inr (i + 1)))) [0..<n] (of_nat a) = Inr i"
    "rbind (getProp f i) (\<lambda>p. rbind (l2_assert (isPositive p = pos \<and> isEquality p = eq) L2_writer_error) (\<lambda>_. Inr (i + 1))) = Inr i'"
    by (cases "rfold (\<lambda>_ i. rbind (getProp f i) (\<lambda>p. rbind (l2_assert (isPositive p = pos \<and> isEquality p = eq) L2_writer_error)
      (\<lambda>_. Inr (i + 1)))) [0..<n] (of_nat a)") (auto simp: rfold_append rfold_single)
  note IH = Suc.IH [OF i(1)]
  have u: "unat (of_nat (a + n) :: 32 word) = a + n" using IH assms(1) by (simp add: unat_of_nat take_bit_nat_eq_self del: of_nat_add)
  have "a + n < length ps"
  proof (rule ccontr)
    assume "\<not> a + n < length ps"
    then have "\<not> (of_nat (a + n) :: 32 word) < of_nat (length ps)" using IH by simp
    then show False using i(2) IH by (simp add: getProp_def access_def bounds_check_def asize_full assms(2) l2_assert_def)
  qed
  then have "getProp f i = Inr (ps ! (a + n))" using access_full(1) [OF assms(1), of "a + n"] IH by (simp add: getProp_def assms(2))
  then show ?case using i(2) IH \<open>a + n < length ps\<close> by (auto simp: l2_assert_def less_Suc_eq split: if_splits)
qed (use assms(3) in simp)

lemma rfold_shift: "rfold g [a..<a + n] = rfold (\<lambda>i. g (a + i)) [0..<n]"
proof (rule ext)
  show "rfold g [a..<a + n] s = rfold (\<lambda>i. g (a + i)) [0..<n] s" for s
    by (induction n) (simp_all add: rfold_append rfold_single)
qed

lemma transfers_segment:
  assumes "\<And>i. a \<le> i \<Longrightarrow> i < a + n \<Longrightarrow> transfers w (wr i) (rd i) (D i) (D (Suc i))"
  shows "transfers w (rfold wr [a..<a + n]) (rfold rd [a..<a + n]) (D a) (D (a + n))"
  unfolding rfold_shift
  using transfers_loop [of n w "\<lambda>i. wr (a + i)" "\<lambda>i. rd (a + i)" "\<lambda>i. D (a + i)"] assms by simp

text \<open>The four segments, when the writer's checks have passed.\<close>

definition segment :: "l2r_proposition list \<Rightarrow> nat \<Rightarrow> nat \<Rightarrow> bool \<Rightarrow> bool \<Rightarrow> bool" where
  "segment ps a n pos eq \<longleftrightarrow> a + n \<le> length ps \<and> (\<forall>j \<in> {a..<a + n}. isPositive (ps ! j) = pos \<and> isEquality (ps ! j) = eq)"

lemma check_sortedD:
  assumes "length ps < 2 ^ 31" "lf_props f = Some (map Some ps)" "check_sorted f c = Inr u"
  defines "a1 \<equiv> unat (npos c)"
  defines "a2 \<equiv> a1 + unat (nneg c)"
  defines "a3 \<equiv> a2 + unat (nsame c)"
  shows "segment ps 0 (unat (npos c)) True False \<and> segment ps a1 (unat (nneg c)) False False \<and>
    segment ps a2 (unat (nsame c)) True True \<and> segment ps a3 (unat (ndiff c)) False True"
proof -
  note k = check_kindD [OF assms(1,2)]
  obtain i1 i2 i3 i4 where i: "check_kind True False f (npos c) 0 = Inr i1" "check_kind False False f (nneg c) i1 = Inr i2"
    "check_kind True True f (nsame c) i2 = Inr i3" "check_kind False True f (ndiff c) i3 = Inr i4"
    using assms(3) unfolding check_sorted_def by (auto simp: rbind_def split: sum.splits)
  have s1: "segment ps 0 (unat (npos c)) True False \<and> i1 = of_nat a1"
    using k [of 0 True False "unat (npos c)" i1] i(1) by (simp add: check_kind_def segment_def a1_def)
  then have s2: "segment ps a1 (unat (nneg c)) False False \<and> i2 = of_nat a2"
    using k [of a1 False False "unat (nneg c)" i2] i(2) by (simp add: check_kind_def segment_def a1_def a2_def del: of_nat_add)
  then have s3: "segment ps a2 (unat (nsame c)) True True \<and> i3 = of_nat a3"
    using k [of a2 True True "unat (nsame c)" i3] i(3) by (simp add: check_kind_def segment_def a2_def a3_def del: of_nat_add)
  then have "segment ps a3 (unat (ndiff c)) False True"
    using k [of a3 False True "unat (ndiff c)" i4] i(4) by (simp add: check_kind_def segment_def a3_def del: of_nat_add)
  with s1 s2 s3 show ?thesis by simp
qed

lemma count_propsD: "count_props f = Inr c \<Longrightarrow> nprops f = npos c + nneg c + nsame c + ndiff c"
  unfolding count_props_def by (auto simp: rbind_def l2_assert_def split: sum.splits if_splits)

end
