(* ===== verification/Bin_Sections.thy ===== *)
theory Bin_Sections
  imports Bin_Objects
begin

text \<open>
  The sections of the binary format that refer to other objects: propositions, clauses and
  transitions of a complete file are read back as they were written.
\<close>

subsection \<open>The section of the propositions\<close>

definition read_props_of :: "prop_counts \<Rightarrow> from_memory \<Rightarrow> from_memory res" where
  "read_props_of c r = rbind (in_dest (allocProps (npos c + nneg c + nsame c + ndiff c)) r) (\<lambda>r1.
     rbind (repeat_from (npos c) (read_one_varval True) (0, r1)) (\<lambda>s1.
     rbind (repeat_from (nneg c) (read_one_varval False) s1) (\<lambda>s2.
     rbind (repeat_from (nsame c) (read_one_varvar True) s2) (\<lambda>s3.
     rbind (repeat_from (ndiff c) (read_one_varvar False) s3) (\<lambda>(i, r2). Inr r2)))))"

lemma write_props_index:
  assumes "length ps < 2 ^ 31" "lf_props f = Some (map Some ps)" "a1 = unat (npos c)" "a2 = a1 + unat (nneg c)"
    "a3 = a2 + unat (nsame c)" "a4 = a3 + unat (ndiff c)" "a4 \<le> length ps"
  shows "write_props f w c = (\<lambda>out. rbind (rfold (\<lambda>i. write_one_varvalue f w (ps ! i)) [0..<a1] out)
     (\<lambda>out. rbind (rfold (\<lambda>i. write_one_varvalue f w (ps ! i)) [a1..<a2] out)
     (\<lambda>out. rbind (rfold (\<lambda>i. write_one_varvar f w (ps ! i)) [a2..<a3] out) (rfold (\<lambda>i. write_one_varvar f w (ps ! i)) [a3..<a4]))))"
proof (rule ext)
  fix out
  note k = write_kind_index [OF assms(1,2), where w = w]
  have w1: "write_kind one f w (npos c) (0, o1) = rbind (rfold (\<lambda>i. one f w (ps ! i)) [0..<a1] o1) (\<lambda>o2. Inr (of_nat a1, o2))" for one o1
    using k [of 0 a1 one o1] assms by (simp add: write_kind_def)
  have w2: "write_kind one f w (nneg c) (of_nat a1, o1) = rbind (rfold (\<lambda>i. one f w (ps ! i)) [a1..<a2] o1) (\<lambda>o2. Inr (of_nat a2, o2))" for one o1
    unfolding write_kind_def using k [of a1 "unat (nneg c)" one o1] assms by (simp del: of_nat_add)
  have w3: "write_kind one f w (nsame c) (of_nat a2, o1) = rbind (rfold (\<lambda>i. one f w (ps ! i)) [a2..<a3] o1) (\<lambda>o2. Inr (of_nat a3, o2))" for one o1
    unfolding write_kind_def using k [of a2 "unat (nsame c)" one o1] assms by (simp del: of_nat_add)
  have w4: "write_kind one f w (ndiff c) (of_nat a3, o1) = rbind (rfold (\<lambda>i. one f w (ps ! i)) [a3..<a4] o1) (\<lambda>o2. Inr (of_nat a4, o2))" for one o1
    unfolding write_kind_def using k [of a3 "unat (ndiff c)" one o1] assms by (simp del: of_nat_add)
  show "write_props f w c out = rbind (rfold (\<lambda>i. write_one_varvalue f w (ps ! i)) [0..<a1] out)
     (\<lambda>out. rbind (rfold (\<lambda>i. write_one_varvalue f w (ps ! i)) [a1..<a2] out)
     (\<lambda>out. rbind (rfold (\<lambda>i. write_one_varvar f w (ps ! i)) [a2..<a3] out) (rfold (\<lambda>i. write_one_varvar f w (ps ! i)) [a3..<a4])))"
    by (simp add: write_props_def w1 w2 w3 w4 rbind_assoc rbind_Inr)
qed

lemma read_props_index:
  assumes "a1 = unat (npos c)" "a2 = a1 + unat (nneg c)" "a3 = a2 + unat (nsame c)" "a4 = a3 + unat (ndiff c)"
  shows "read_props_of c = (\<lambda>r. rbind (in_dest (allocProps (npos c + nneg c + nsame c + ndiff c)) r)
     (\<lambda>r. rbind (rfold (\<lambda>i. read_one_varval True (of_nat i)) [0..<a1] r)
     (\<lambda>r. rbind (rfold (\<lambda>i. read_one_varval False (of_nat i)) [a1..<a2] r)
     (\<lambda>r. rbind (rfold (\<lambda>i. read_one_varvar True (of_nat i)) [a2..<a3] r) (rfold (\<lambda>i. read_one_varvar False (of_nat i)) [a3..<a4])))))"
proof (rule ext)
  fix r
  have k: "repeat_from n body (of_nat a, s) = rbind (rfold (\<lambda>i. body (of_nat i)) [a..<a + unat n] s) (\<lambda>s1. Inr (of_nat (a + unat n), s1))"
    for a n body s unfolding repeat_from_def by (rule repeat_from_index)
  have r1: "repeat_from (npos c) body (0, s) = rbind (rfold (\<lambda>i. body (of_nat i)) [0..<a1] s) (\<lambda>s1. Inr (of_nat a1, s1))" for body s
    using k [of "npos c" body 0 s] assms by simp
  show "read_props_of c r = rbind (in_dest (allocProps (npos c + nneg c + nsame c + ndiff c)) r)
     (\<lambda>r. rbind (rfold (\<lambda>i. read_one_varval True (of_nat i)) [0..<a1] r)
     (\<lambda>r. rbind (rfold (\<lambda>i. read_one_varval False (of_nat i)) [a1..<a2] r)
     (\<lambda>r. rbind (rfold (\<lambda>i. read_one_varvar True (of_nat i)) [a2..<a3] r) (rfold (\<lambda>i. read_one_varvar False (of_nat i)) [a3..<a4]))))"
    unfolding read_props_of_def by (simp add: r1 k assms(2-4) rbind_assoc rbind_Inr del: of_nat_add)
qed

lemma props_transfer:
  assumes c: "complete es vs ps cs f" and w: "widths_ok w" and n: "count_props f = Inr c" and s: "check_sorted f c = Inr u"
  shows "transfers w (write_props f w c) (read_props_of c)
    (stage (Some (map Some es)) (Some (map Some (map bare vs))) None None)
    (stage (Some (map Some es)) (Some (map Some (map bare vs))) (Some (map Some ps)) None)"
proof -
  let ?E = "Some (map Some es)" and ?V = "Some (map Some (map bare vs))"
  let ?D = "\<lambda>i. stage ?E ?V (Some (filled_array (take i ps) (length ps))) None"
  define a1 a2 a3 a4 where "a1 = unat (npos c)" and "a2 = a1 + unat (nneg c)" and "a3 = a2 + unat (nsame c)" and "a4 = a3 + unat (ndiff c)"
  note a = this
  have f: "lf_props f = Some (map Some ps)" "lf_vars f = Some (map Some vs)" and nv: "numbered lv_id vs" and np: "numbered lp_id ps"
    and ok: "\<forall>p \<in> set ps. proposition_ok (length vs) p"
    using c by (simp_all add: complete_def file_holds_def)
  then have l: "length ps < 2 ^ 31" by (simp add: numbered_def)
  have seg: "segment ps 0 a1 True False" "segment ps a1 (unat (nneg c)) False False" "segment ps a2 (unat (nsame c)) True True"
    "segment ps a3 (unat (ndiff c)) False True"
    using check_sortedD [OF l f(1) s] by (simp_all add: a)
  then have le: "a4 \<le> length ps" by (simp add: segment_def a)
  have total: "npos c + nneg c + nsame c + ndiff c = of_nat a4" by (simp add: a)
  moreover have "npos c + nneg c + nsame c + ndiff c = of_nat (length ps)" using count_propsD [OF n] by (simp add: nprops_def f asize_full)
  ultimately have "(of_nat a4 :: 32 word) = of_nat (length ps)" by simp
  then have "unat (of_nat a4 :: 32 word) = unat (of_nat (length ps) :: 32 word)" by simp
  then have a4: "a4 = length ps" using l le by (simp add: unat_of_nat take_bit_nat_eq_self)
  have set: "setProp (of_nat i) (ps ! i) (?D i) = Inr (?D (Suc i))" if "i < length ps" for i
  proof -
    note place = set_place_next [OF l that]
    then have "bounds_check (of_nat i) (Some (filled_array (take i ps) (length ps))) = Inr ()"
      by (cases "bounds_check (of_nat i) (Some (filled_array (take i ps) (length ps)))") (simp_all add: set_place_def)
    moreover have "lp_setID (of_nat i) (ps ! i) = Inr (ps ! i)"
    proof -
      have "lp_id (ps ! i) = of_nat i" using np that by (simp add: numbered_def)
      then show "lp_setID (of_nat i) (ps ! i) = Inr (ps ! i)" by (cases "ps ! i") (simp add: lp_setID_def l2_assert_def)
    qed
    ultimately show ?thesis using place by (simp add: setProp_def stage_def)
  qed
  have val: "transfers w (write_one_varvalue f w (ps ! i)) (read_one_varval pos (of_nat i)) (?D i) (?D (Suc i))"
    if "i < length ps" "isPositive (ps ! i) = pos" "isEquality (ps ! i) = False" for i pos
    by (rule varvalue_transfers [OF w f(2) _ nv _ _ _ set]) (use that ok np in \<open>simp_all add: stage_def numbered_def\<close>)
  have var: "transfers w (write_one_varvar f w (ps ! i)) (read_one_varvar pos (of_nat i)) (?D i) (?D (Suc i))"
    if "i < length ps" "isPositive (ps ! i) = pos" "isEquality (ps ! i) = True" for i pos
    by (rule varvar_transfers [OF w f(2) _ nv _ _ _ set]) (use that ok np in \<open>simp_all add: stage_def numbered_def\<close>)
  have t1: "transfers w (rfold (\<lambda>i. write_one_varvalue f w (ps ! i)) [0..<a1]) (rfold (\<lambda>i. read_one_varval True (of_nat i)) [0..<a1]) (?D 0) (?D a1)"
    by (rule transfers_loop, rule val) (use seg(1) in \<open>auto simp: segment_def\<close>)
  have t2: "transfers w (rfold (\<lambda>i. write_one_varvalue f w (ps ! i)) [a1..<a2]) (rfold (\<lambda>i. read_one_varval False (of_nat i)) [a1..<a2]) (?D a1) (?D a2)"
    unfolding a(2) by (rule transfers_segment, rule val) (use seg(2) in \<open>auto simp: segment_def\<close>)
  have t3: "transfers w (rfold (\<lambda>i. write_one_varvar f w (ps ! i)) [a2..<a3]) (rfold (\<lambda>i. read_one_varvar True (of_nat i)) [a2..<a3]) (?D a2) (?D a3)"
    unfolding a(3) by (rule transfers_segment, rule var) (use seg(3) in \<open>auto simp: segment_def\<close>)
  have t4: "transfers w (rfold (\<lambda>i. write_one_varvar f w (ps ! i)) [a3..<a4]) (rfold (\<lambda>i. read_one_varvar False (of_nat i)) [a3..<a4]) (?D a3) (?D a4)"
    unfolding a(4) by (rule transfers_segment, rule var) (use seg(4) in \<open>auto simp: segment_def\<close>)
  have "allocProps (npos c + nneg c + nsame c + ndiff c) (stage ?E ?V None None) = Inr (?D 0)"
    using alloc_ok [OF l] total by (simp add: allocProps_def stage_def a4)
  from transfers_alloc [where alloc = "allocProps (npos c + nneg c + nsame c + ndiff c)", OF transfers_seq [OF t1 transfers_seq [OF t2 transfers_seq [OF t3 t4]]] this]
  have "transfers w (write_props f w c) (read_props_of c) (stage ?E ?V None None) (?D a4)"
    unfolding write_props_index [OF l f(1) a(1-4) le] read_props_index [OF a(1-4)] .
  then show ?thesis by (simp add: a4)
qed

subsection \<open>Clauses\<close>

lemma pack_bits:
  assumes "n < 2 ^ 31"
  shows "drop_bit 1 (if b then push_bit 1 (of_nat n) + 1 else push_bit 1 (of_nat n) :: 32 word) = of_nat n"
    "(if b then push_bit 1 (of_nat n) + 1 else push_bit 1 (of_nat n) :: 32 word) AND 1 \<noteq> 0 \<longleftrightarrow> b"
proof -
  have u: "unat (of_nat n :: 32 word) = n" using assms by (simp add: unat_of_nat take_bit_nat_eq_self)
  have p: "unat (push_bit 1 (of_nat n) :: 32 word) = 2 * n" "unat (push_bit 1 (of_nat n) + 1 :: 32 word) = 2 * n + 1"
    using assms u by (simp_all add: push_bit_eq_mult unat_word_ariths)
  have "unat (drop_bit 1 (if b then push_bit 1 (of_nat n) + 1 else push_bit 1 (of_nat n) :: 32 word)) = n"
    unfolding unat_drop_bit_eq using p by (cases b) (simp_all add: drop_bit_eq_div del: push_bit_Suc)
  then show "drop_bit 1 (if b then push_bit 1 (of_nat n) + 1 else push_bit 1 (of_nat n) :: 32 word) = of_nat n"
    using u by (metis word_unat_eq_iff)
  have "even (push_bit 1 (of_nat n) :: 32 word)" by (simp only: even_push_bit_iff) simp
  then show "(if b then push_bit 1 (of_nat n) + 1 else push_bit 1 (of_nat n) :: 32 word) AND 1 \<noteq> 0 \<longleftrightarrow> b"
    by (cases b) (simp_all add: and_one_eq mod2_eq_if del: push_bit_Suc push_bit_numeral)
qed

lemma clause_transfers:
  assumes w: "widths_ok w" and f: "lf_props f = Some (map Some ps)" and d: "lf_props d = Some (map Some ps)"
    and n: "numbered lp_id ps" and c: "l2r_clause_ok (length ps) c" and set: "setClause i c d = Inr d'" and i: "lc_id c = i"
  shows "transfers w (write_one_clause f w c) (read_one_clause i) d d'"
proof -
  let ?n = "length (lc_props c)"
  let ?pack = "if isInBackground c then push_bit 1 (of_nat ?n) + 1 else push_bit 1 (of_nat ?n) :: 32 word"
  have l: "length ps < 2 ^ 31" using n by (simp add: numbered_def)
  have k: "set (lc_props c) \<subseteq> {0..<length ps}" "?n < 2 ^ 31" using c by (simp_all add: l2r_clause_ok_def)
  note pack = pack_bits [OF k(2), of "isInBackground c"]
  have eq: "\<lparr>lc_id = i, lc_props = lc_props c, isInBackground = (?pack AND 1 \<noteq> 0)\<rparr> = c" using pack(2) i by simp
  have wr: "write_one_clause f w c = (\<lambda>out. rbind (put (Wch w) ?pack out)
      (rfold (\<lambda>k out. rbind (at_place (Some (map Some ps)) k) (\<lambda>p. put (Wp w) (lp_id p) out)) (lc_props c)))"
    by (simp add: write_one_clause_def lc_size_def f fun_eq_iff Let_def)
  have put: "carries w d (put (Wch w) y) (\<lambda>r. get (Wch (fm_widths r)) r) y" for y
    using w by (auto simp: widths_ok_def intro: carries_put [of Wch])
  have places: "carries w d (rfold (\<lambda>k out. rbind (at_place (Some (map Some ps)) k) (\<lambda>p. put (Wp w) (lp_id p) out)) (lc_props c))
    (\<lambda>r. read_places (drop_bit 1 ?pack) getProp (Wp (fm_widths r)) r) (lc_props c)"
    unfolding pack(1) by (rule carries_places [OF _ n k]) (use w access_full [OF l] d in \<open>simp_all add: widths_ok_def getProp_def\<close>)
  show ?thesis
    unfolding wr read_one_clause_def
    by (rule transfers_value [OF put], rule transfers_last [OF places], unfold eq) (simp add: in_dest_eq set)
qed

lemma clauses_transfer:
  assumes c: "complete es vs ps cs f" and w: "widths_ok w"
  shows "transfers w (each (getClause f) (nclauses f) (write_one_clause f w))
    (\<lambda>r. rbind (in_dest (allocClauses (nclauses f) False) r) (repeat (nclauses f) read_one_clause))
    (stage E V (Some (map Some ps)) None) (stage E V (Some (map Some ps)) (Some (map Some cs)))"
proof -
  let ?D = "\<lambda>i. stage E V (Some (map Some ps)) (Some (filled_array (take i cs) (length cs)))"
  have f: "lf_props f = Some (map Some ps)" "lf_clauses f = Some (map Some cs)" and n: "numbered lp_id ps" "numbered lc_id cs"
    and ok: "\<forall>c \<in> set cs. l2r_clause_ok (length ps) c"
    using c by (simp_all add: complete_def file_holds_def)
  then have l: "length cs < 2 ^ 31" by (simp add: numbered_def)
  have sz: "nclauses f = of_nat (length cs)" "unat (nclauses f) = length cs" using unat_length [OF l] by (simp_all add: nclauses_def f asize_full)
  have one: "transfers w (write_one_clause f w (cs ! i)) (read_one_clause (of_nat i)) (?D i) (?D (Suc i))" if i: "i < length cs" for i
    by (rule clause_transfers [OF w f(1) _ n(1)]) (use set_place_next [OF l i] n(2) ok i in \<open>simp_all add: setClause_def stage_def numbered_def\<close>)
  have loop: "transfers w (rfold (\<lambda>i. write_one_clause f w (cs ! i)) [0..<length cs]) (repeat (nclauses f) read_one_clause) (?D 0) (?D (length cs))"
    unfolding repeat_def sz(2) by (rule transfers_loop) (rule one)
  have "each (getClause f) (nclauses f) (write_one_clause f w) = rfold (\<lambda>i. write_one_clause f w (cs ! i)) [0..<length cs]"
    by (rule each_index) (use l sz access_full [OF l] f in \<open>simp_all add: getClause_def\<close>)
  moreover have "allocClauses (nclauses f) False (stage E V (Some (map Some ps)) None) = Inr (?D 0)"
    using alloc_ok [OF l] by (simp add: allocClauses_def stage_def sz(1))
  ultimately show ?thesis using transfers_alloc [OF loop] by simp
qed

end
