(* ===== verification/Bin_Transitions.thy ===== *)
theory Bin_Transitions
  imports Bin_Sections
begin

text \<open>
  The last section of the binary format: the transitions of the modes, which are added to the
  variables that have been read before.
\<close>

subsection \<open>One transition\<close>

lemma transition_transfers:
  assumes w: "widths_ok w" and f: "lf_clauses f = Some (map Some cs)" and d: "lf_clauses d = Some (map Some cs)"
    and n: "numbered lc_id cs" and x: "transition_ok i (length cs) x" "isNominal x = b" and add: "addTransition x d = Inr d'"
  shows "transfers w (write_one_transition f w x) (read_one_transition b i) d d'"
proof -
  let ?k = "length (lx_clauses x)"
  have l: "length cs < 2 ^ 31" using n by (simp add: numbered_def)
  have k: "set (lx_clauses x) \<subseteq> {0..<length cs}" "?k < 2 ^ 31" using x by (simp_all add: transition_ok_def)
  have put: "carries w d (put (We w) y) (\<lambda>r. get (We (fm_widths r)) r) y" "carries w d (put (Wxc w) y) (\<lambda>r. get (Wxc (fm_widths r)) r) y" for y
    using w by (auto simp: widths_ok_def intro: carries_put [of We] carries_put [of Wxc])
  have places: "carries w d (rfold (\<lambda>k out. rbind (at_place (Some (map Some cs)) k) (\<lambda>c. put (Wc w) (lc_id c) out)) (lx_clauses x))
    (\<lambda>r. read_places (of_nat ?k) getClause (Wc (fm_widths r)) r) (lx_clauses x)"
    by (rule carries_places [OF _ n k]) (use w access_full [OF l] d in \<open>simp_all add: widths_ok_def getClause_def\<close>)
  let ?wr = "\<lambda>out. rbind (put (We w) (lx_to x) out) (\<lambda>out. rbind (put (Wxc w) (of_nat ?k) out)
    (rfold (\<lambda>k out. rbind (at_place (Some (map Some cs)) k) (\<lambda>c. put (Wc w) (lc_id c) out)) (lx_clauses x)))"
  let ?rd = "\<lambda>rank from r. rbind (get (We (fm_widths r)) r) (\<lambda>(to, r). rbind (get (Wxc (fm_widths r)) r) (\<lambda>(ncls, r).
    rbind (read_places ncls getClause (Wc (fm_widths r)) r) (\<lambda>(ks, r).
      in_dest (addTransition \<lparr>lx_mode = i, lx_from = from, lx_to = to, lx_clauses = ks, isNominal = b, lx_rank = rank\<rparr>) r)))"
  have eq: "\<lparr>lx_mode = i, lx_from = lx_from x, lx_to = lx_to x, lx_clauses = lx_clauses x, isNominal = b, lx_rank = lx_rank x\<rparr> = x"
    using x by (simp add: transition_ok_def)
  have tail: "transfers w ?wr (?rd (lx_rank x) (lx_from x)) d d'"
    by (rule transfers_value [OF put(1)], rule transfers_value [OF put(2)], rule transfers_last [OF places], unfold eq)
      (simp add: in_dest_eq add)
  show ?thesis
  proof (cases b)
    case True
    then have wr: "write_one_transition f w x = (\<lambda>out. rbind (put (We w) (lx_from x) out) ?wr)"
      using x(2) by (simp add: write_one_transition_def f lx_size_def fun_eq_iff)
    have t: "transfers w ?wr (?rd 0 (lx_from x)) d d'" using tail x True by (simp add: transition_ok_def)
    have "transfers w (write_one_transition f w x) (\<lambda>r. rbind (get (We (fm_widths r)) r) (\<lambda>(from, r1). ?rd 0 from r1)) d d'"
      unfolding wr by (rule transfers_value [OF put(1)], rule t)
    then show ?thesis
      by (rule transfers_cong) (use True in \<open>simp add: read_one_transition_def rbind_assoc case_prod_unfold\<close>)
  next
    case False
    then have wr: "write_one_transition f w x = (\<lambda>out. rbind (Inr (put1 (lx_rank x) out)) ?wr)"
      using x(2) by (simp add: write_one_transition_def f lx_size_def fun_eq_iff)
    have rank: "lx_rank x < 256" "lx_from x = ANY_MODE" using x False by (simp_all add: transition_ok_def)
    have "ucast (ucast (lx_rank x) :: 8 word) = take_bit 8 (lx_rank x)" by (rule bit_word_eqI) (auto simp: bit_simps)
    also have "\<dots> = lx_rank x" using rank(1)
      by (simp add: word_unat_eq_iff unsigned_take_bit_eq take_bit_nat_eq_self word_less_nat_alt)
    finally have t: "transfers w ?wr (?rd (ucast (ucast (lx_rank x) :: 8 word)) ANY_MODE) d d'" using tail rank(2) by simp
    have "transfers w (write_one_transition f w x) (\<lambda>r. rbind (get1 r) (\<lambda>(rank, r1). ?rd (ucast rank) ANY_MODE r1)) d d'"
      unfolding wr by (rule transfers_value [OF carries_put1], rule t)
    then show ?thesis
      by (rule transfers_cong) (use False in \<open>simp add: read_one_transition_def rbind_assoc case_prod_unfold\<close>)
  qed
qed

subsection \<open>Adding transitions\<close>

lemma insert_by_rank_last: "\<forall>y \<in> set ys. lx_rank y \<le> lx_rank x \<Longrightarrow> insert_by_rank x ys = ys @ [x]"
  by (induction ys) auto

lemma addTransition_ok:
  assumes "lf_vars d = Some (map Some us)" "length us < 2 ^ 31" "i < length us" "lv_id (us ! i) = of_nat i"
    "lv_kind (us ! i) = vk_mode" "lv_mode (us ! i) = Some m" "lx_mode x = i"
  shows "addTransition x d = Inr (d\<lparr>lf_vars := Some (map Some (us[i := (us ! i)\<lparr>lv_mode := Some (add_transition x m)\<rparr>]))\<rparr>)"
  using access_full [OF assms(2,3)] set_place_ok [of "map Some us" i] assms
  by (simp add: addTransition_def mode_friend_def l2_assert_def getVar_def setVar_def map_update)

definition with_modes :: "l2_file \<Rightarrow> l2r_variable list \<Rightarrow> nat \<Rightarrow> l2r_mode \<Rightarrow> l2_file" where
  "with_modes d us i m = d\<lparr>lf_vars := Some (map Some (us[i := (us ! i)\<lparr>lv_mode := Some m\<rparr>]))\<rparr>"

lemma addTransition_with_modes:
  assumes "length us < 2 ^ 31" "i < length us" "lv_id (us ! i) = of_nat i" "lv_kind (us ! i) = vk_mode" "lx_mode x = i"
  shows "addTransition x (with_modes d us i m) = Inr (with_modes d us i (add_transition x m))"
  using addTransition_ok [of "with_modes d us i m" "us[i := (us ! i)\<lparr>lv_mode := Some m\<rparr>]" i m x] assms by (simp add: with_modes_def)

lemma mode_transfers:
  assumes w: "widths_ok w" and f: "lf_clauses f = Some (map Some cs)" and d: "lf_clauses d = Some (map Some cs)"
    and n: "numbered lc_id cs" and m: "mode_ok i (length cs) m" and us: "lf_vars d = Some (map Some us)" "length us < 2 ^ 31" "i < length us"
    "lv_id (us ! i) = of_nat i" "lv_kind (us ! i) = vk_mode" "lv_mode (us ! i) = Some \<lparr>nominal_transitions = [], failure_transitions = []\<rparr>"
  shows "transfers w (write_mode f w m) (read_mode (of_nat i)) d (with_modes d us i (reread_mode m))"
proof -
  let ?N = "nominal_transitions m" and ?F = "failure_transitions m"
  let ?A = "\<lambda>k. with_modes d us i \<lparr>nominal_transitions = rev (take k ?N), failure_transitions = []\<rparr>"
  let ?B = "\<lambda>k. with_modes d us i \<lparr>nominal_transitions = rev ?N, failure_transitions = take k ?F\<rparr>"
  note add = addTransition_with_modes [OF us(2-5)]
  have cl: "lf_clauses (with_modes d us i m') = Some (map Some cs)" for m' by (simp add: with_modes_def d)
  have u: "unat (of_nat i :: 32 word) = i" using us(2,3) by (simp add: unat_of_nat take_bit_nat_eq_self)
  have "(us ! i)\<lparr>lv_mode := Some \<lparr>nominal_transitions = [], failure_transitions = []\<rparr>\<rparr> = us ! i" using us(6) by (cases "us ! i") simp
  then have d0: "d = ?A 0" using us(1) by (cases d) (simp add: with_modes_def)
  have tok: "\<forall>x \<in> set ?N. isNominal x \<and> transition_ok i (length cs) x" "\<forall>x \<in> set ?F. \<not> isNominal x \<and> transition_ok i (length cs) x"
    and srt: "sorted (map lx_rank ?F)" and len: "length ?N < 2 ^ 31" "length ?F < 2 ^ 31"
    using m by (simp_all add: mode_ok_def)
  have nom: "transfers w (rfold (write_one_transition f w) ?N) (rfold (\<lambda>_. read_one_transition True i) [0..<length ?N]) (?A 0) (?A (length ?N))"
    unfolding rfold_index [of "write_one_transition f w"]
  proof (rule transfers_loop)
    fix k
    assume k: "k < length ?N"
    then have "isNominal (?N ! k)" "transition_ok i (length cs) (?N ! k)" using tok(1) by simp_all
    then show "transfers w (write_one_transition f w (?N ! k)) (read_one_transition True i) (?A k) (?A (Suc k))"
      by (intro transition_transfers [OF w f cl n])
        (use k in \<open>simp_all add: transition_ok_def add add_transition_def take_Suc_conv_app_nth\<close>)
  qed
  have fail: "transfers w (rfold (write_one_transition f w) ?F) (rfold (\<lambda>_. read_one_transition False i) [0..<length ?F]) (?B 0) (?B (length ?F))"
    unfolding rfold_index [of "write_one_transition f w"]
  proof (rule transfers_loop)
    fix k
    assume k: "k < length ?F"
    then have ok: "\<not> isNominal (?F ! k)" "transition_ok i (length cs) (?F ! k)" using tok(2) by simp_all
    have "\<forall>y \<in> set (take k ?F). lx_rank y \<le> lx_rank (?F ! k)"
      using srt k by (auto simp: in_set_conv_nth sorted_iff_nth_mono)
    from insert_by_rank_last [OF this] ok
    show "transfers w (write_one_transition f w (?F ! k)) (read_one_transition False i) (?B k) (?B (Suc k))"
      by (intro transition_transfers [OF w f cl n])
        (use k in \<open>simp_all add: transition_ok_def add add_transition_def take_Suc_conv_app_nth\<close>)
  qed
  have put: "carries w d (put (Wx w) y) (\<lambda>r. get (Wx (fm_widths r)) r) y" for y
    using w by (auto simp: widths_ok_def intro: carries_put [of Wx])
  have "?A (length ?N) = ?B 0" by simp
  from transfers_seq [OF nom [unfolded this] fail]
  have body: "transfers w (\<lambda>out. rbind (rfold (write_one_transition f w) ?N out) (rfold (write_one_transition f w) ?F))
    (\<lambda>r. rbind (repeat (nnominal m) (\<lambda>_. read_one_transition True i) r) (repeat (nfailure m) (\<lambda>_. read_one_transition False i)))
    d (?B (length ?F))"
    unfolding repeat_def nnominal_def nfailure_def unat_length [OF len(1)] unat_length [OF len(2)] d0 [symmetric] .
  have last: "?B (length ?F) = with_modes d us i (reread_mode m)" by (cases m) (simp add: reread_mode_def)
  have "transfers w (write_mode f w m) (\<lambda>r. rbind (get (Wx (fm_widths r)) r) (\<lambda>(nnom, r1). rbind (get (Wx (fm_widths r1)) r1) (\<lambda>(nfail, r2).
     rbind (repeat nnom (\<lambda>_. read_one_transition True i) r2) (repeat nfail (\<lambda>_. read_one_transition False i))))) d (with_modes d us i (reread_mode m))"
    unfolding write_mode_def last [symmetric]
    by (rule transfers_value [OF put], rule transfers_value [OF put], rule body)
  then show ?thesis
    by (rule transfers_cong) (use us access_full [OF us(2,3)] u in \<open>simp add: read_mode_def getVar_def\<close>)
qed

subsection \<open>The section of the transitions\<close>

lemma bare_reread: "lv_mode v = None \<Longrightarrow> bare v = reread v"
  by (cases v) (simp add: bare_def reread_def)

lemma bare_fields:
  "lv_id (bare v) = lv_id v" "lv_kind (bare v) = lv_kind v"
  "lv_mode v = Some m \<Longrightarrow> lv_mode (bare v) = Some \<lparr>nominal_transitions = [], failure_transitions = []\<rparr>"
  "lv_mode v = Some m \<Longrightarrow> (bare v)\<lparr>lv_mode := Some (reread_mode m)\<rparr> = reread v"
  by (simp_all add: bare_def reread_def)

lemma transitions_transfer:
  assumes c: "complete es vs ps cs f" and w: "widths_ok w"
  shows "transfers w (each (getVar f) (nvars f) (on_mode (write_mode f w))) read_transitions
    (stage E (Some (map Some (map bare vs))) P (Some (map Some cs))) (stage E (Some (map Some (map reread vs))) P (Some (map Some cs)))"
proof -
  let ?V = "\<lambda>j. map reread (take j vs) @ map bare (drop j vs)"
  let ?D = "\<lambda>j. stage E (Some (map Some (?V j))) P (Some (map Some cs))"
  have f: "lf_vars f = Some (map Some vs)" "lf_clauses f = Some (map Some cs)" and n: "numbered lv_id vs" "numbered lc_id cs"
    and ok: "\<forall>i < length vs. variable_ok (length es) (length cs) i (vs ! i)"
    using c by (simp_all add: complete_def file_holds_def)
  then have l: "length vs < 2 ^ 31" by (simp add: numbered_def)
  have sz: "nvars f = of_nat (length vs)" "unat (nvars f) = length vs" using unat_length [OF l] by (simp_all add: nvars_def f asize_full)
  have one: "transfers w (on_mode (write_mode f w) (vs ! j)) (read_mode (of_nat j)) (?D j) (?D (Suc j))" if j: "j < length vs" for j
  proof -
    have at: "?V j ! j = bare (vs ! j)" using j by (simp add: nth_append)
    have len: "length (?V j) = length vs" using j by simp
    have V: "?V (Suc j) = (?V j)[j := reread (vs ! j)]"
      using j by (simp add: take_Suc_conv_app_nth list_update_append flip: Cons_nth_drop_Suc)
    note v = ok [rule_format, OF j, unfolded variable_ok_def]
    show ?thesis
    proof (cases "lv_mode (vs ! j)")
      case None
      then have k: "lv_kind (vs ! j) \<noteq> vk_mode" using v by simp
      have same: "?D (Suc j) = ?D j" unfolding V using at bare_reread [OF None] list_update_id [of "?V j" j] by simp
      have "transfers w Inr (read_mode (of_nat j)) (?D j) (?D j)"
      proof (rule transfers_nothing)
        fix r :: from_memory
        assume r: "dest r = ?D j"
        then have "getVar (dest r) (of_nat j) = Inr (bare (vs ! j))"
          using access_full [of "?V j" j] at len l j by (simp add: getVar_def stage_def)
        then show "read_mode (of_nat j) r = Inr (r\<lparr>dest := ?D j\<rparr>)" using k r by (cases r) (simp add: read_mode_def bare_fields)
      qed
      moreover have "on_mode (write_mode f w) (vs ! j) = Inr" using k by (simp add: on_mode_def fun_eq_iff)
      ultimately show ?thesis unfolding same by simp
    next
      case (Some m)
      then have k: "lv_kind (vs ! j) = vk_mode" and m: "mode_ok j (length cs) m" using v by simp_all
      have "transfers w (write_mode f w m) (read_mode (of_nat j)) (?D j) (with_modes (?D j) (?V j) j (reread_mode m))"
        by (rule mode_transfers [OF w f(2) _ n(2) m])
          (use len l j at k Some n(1) in \<open>simp_all add: stage_def bare_fields numbered_def\<close>)
      moreover have "with_modes (?D j) (?V j) j (reread_mode m) = ?D (Suc j)"
        unfolding V with_modes_def at by (simp add: stage_def bare_fields(4) [OF Some])
      moreover have "on_mode (write_mode f w) (vs ! j) = write_mode f w m"
        using k Some by (simp add: on_mode_def mode_friend_def l2_assert_def fun_eq_iff)
      ultimately show ?thesis by simp
    qed
  qed
  have loop: "transfers w (rfold (\<lambda>j. on_mode (write_mode f w) (vs ! j)) [0..<length vs]) (repeat (nvars f) read_mode) (?D 0) (?D (length vs))"
    unfolding repeat_def sz(2) by (rule transfers_loop) (rule one)
  have "each (getVar f) (nvars f) (on_mode (write_mode f w)) = rfold (\<lambda>j. on_mode (write_mode f w) (vs ! j)) [0..<length vs]"
    by (rule each_index) (use l sz access_full [OF l] f in \<open>simp_all add: getVar_def\<close>)
  with loop have "transfers w (each (getVar f) (nvars f) (on_mode (write_mode f w))) (repeat (nvars f) read_mode) (?D 0) (?D (length vs))" by simp
  then have "transfers w (each (getVar f) (nvars f) (on_mode (write_mode f w))) read_transitions (?D 0) (?D (length vs))"
    by (rule transfers_cong) (simp add: read_transitions_def nvars_def stage_def asize_full sz(1) [unfolded nvars_def] asize_def f)
  then show ?thesis by simp
qed

end
