(* ===== verification/Bin_Header.thy ===== *)
theory Bin_Header
  imports Bin_Transitions
begin

text \<open>
  The header of the binary format: the widths that are packed into two bytes, and the numbers of
  objects. The widths come back when none of them is four and the width of a clause is one.
\<close>

subsection \<open>Packed widths\<close>

definition small_widths :: "widths \<Rightarrow> bool" where
  "small_widths w \<longleftrightarrow> unat (We w) \<le> 3 \<and> unat (Wv w) \<le> 3 \<and> unat (Wp w) \<le> 3 \<and> unat (Wc w) \<le> 3 \<and>
     unat (Wch w) \<le> 1 \<and> unat (Wx w) \<le> 3 \<and> unat (Wxc w) \<le> 3"

lemma small_widths_ok: "small_widths w \<Longrightarrow> widths_ok w"
  by (simp add: small_widths_def widths_ok_def)

lemma two_bits_cases:
  assumes "width_to_two_bits w = Inr b"
  shows "w \<in> {1, 2, 3, 4}" "unat w \<le> 3 \<Longrightarrow> w \<in> {1, 2, 3}" "unat w \<le> 1 \<Longrightarrow> w = 1"
  using assms by (auto simp: width_to_two_bits_def split: if_splits)

lemma pack_InrD:
  assumes "pack_widths ws = Inr p"
  shows "\<forall>w \<in> set ws. \<exists>b. width_to_two_bits w = Inr b"
proof -
  have "\<forall>w \<in> set ws. \<exists>b. width_to_two_bits w = Inr b"
    if "rfold (\<lambda>w pack. rbind (width_to_two_bits w) (\<lambda>b. Inr (push_bit 2 pack + ucast b))) ws a = Inr p" for a :: "8 word"
    using that by (induction ws arbitrary: a) (auto simp: rbind_def split: sum.splits)
  then show ?thesis using assms unfolding pack_widths_def .
qed

lemma unpack_four: "\<forall>a \<in> {1, 2, 3}. \<forall>b \<in> {1, 2, 3}. \<forall>c \<in> {1, 2, 3}. \<forall>d \<in> {1, 2, 3}. \<forall>p. pack_widths [a, b, c, d] = Inr p \<longrightarrow>
  unpack_width (drop_bit 6 (ucast p)) = a \<and> unpack_width (drop_bit 4 (ucast p)) = b \<and>
  unpack_width (drop_bit 2 (ucast p)) = c \<and> unpack_width (ucast p) = d"
  by (simp add: pack_widths_def width_to_two_bits_def unpack_width_def)

lemma unpack_three: "\<forall>a \<in> {1, 2, 3}. \<forall>b \<in> {1, 2, 3}. \<forall>p. pack_widths [1, a, b] = Inr p \<longrightarrow>
  drop_bit 4 (ucast p :: 32 word) = 0 \<and> unpack_width (drop_bit 4 (ucast p)) = 1 \<and>
  unpack_width (drop_bit 2 (ucast p)) = a \<and> unpack_width (ucast p) = b"
  by (simp add: pack_widths_def width_to_two_bits_def unpack_width_def)

lemma wide_pack: "\<forall>a \<in> {2, 3, 4}. \<forall>b \<in> {1, 2, 3, 4}. \<forall>c \<in> {1, 2, 3, 4}. \<forall>p. pack_widths [a, b, c] = Inr p \<longrightarrow>
  drop_bit 4 (ucast p :: 32 word) \<noteq> 0"
  by (simp add: pack_widths_def width_to_two_bits_def)

subsection \<open>The bytes of the header\<close>

lemma cookie_ok:
  assumes "sized r" "rest r = xs @ cs"
  shows "returns (read_cookie xs r) (\<lambda>(b, r'). b \<and> moved r cs (dest r) r')"
  using assms
proof (induction xs arbitrary: r)
  case Nil
  have "moved r (rest r) (dest r) r" by simp
  then show ?case using Nil by simp
next
  case (Cons x xs)
  obtain r1 where r1: "get1 r = Inr (x, r1)" "moved r (xs @ cs) (dest r) r1"
    using get1_ok [of r x "xs @ cs"] Cons.prems by (auto simp: returns_iff)
  have "returns (read_cookie xs r1) (\<lambda>(b, r'). b \<and> moved r1 cs (dest r1) r')"
    by (rule Cons.IH) (use Cons.prems movedD [OF r1(2)] in simp_all)
  then show ?case using moved_trans [OF r1(2)] movedD(2) [OF r1(2)] by (auto simp: r1(1) elim!: returns_mono)
qed

definition header_numbers :: "l2_file \<Rightarrow> prop_counts \<Rightarrow> widths \<Rightarrow> 8 word list" where
  "header_numbers f c w = enc (unat (We w)) (nenums f) @ enc (unat (Wv w)) (nvars f) @ enc (unat (Wp w)) (npos c) @
     enc (unat (Wp w)) (nneg c) @ enc (unat (Wp w)) (nsame c) @ enc (unat (Wp w)) (ndiff c) @ enc (unat (Wc w)) (nclauses f)"

definition numbers_fit :: "l2_file \<Rightarrow> prop_counts \<Rightarrow> widths \<Rightarrow> bool" where
  "numbers_fit f c w \<longleftrightarrow> drop_bit (8 * unat (We w)) (nenums f) = 0 \<and> drop_bit (8 * unat (Wv w)) (nvars f) = 0 \<and>
     drop_bit (8 * unat (Wp w)) (npos c) = 0 \<and> drop_bit (8 * unat (Wp w)) (nneg c) = 0 \<and>
     drop_bit (8 * unat (Wp w)) (nsame c) = 0 \<and> drop_bit (8 * unat (Wp w)) (ndiff c) = 0 \<and>
     drop_bit (8 * unat (Wc w)) (nclauses f) = 0"

lemma header_widths_ok: "header_widths f = Inr w \<Longrightarrow> widths_ok w"
  unfolding header_widths_def widths_ok_def by (auto simp: rbind_def width_ok(1) split: sum.splits)

lemma header_InrD:
  assumes "write_header f c [] = Inr (w, out)"
  obtains p1 p2 where "header_widths f = Inr w" "widths_ok w" "pack_widths [We w, Wv w, Wp w, Wc w] = Inr p1"
    "pack_widths [Wch w, Wx w, Wxc w] = Inr p2" "numbers_fit f c w"
    "out = (expected_cookie @ enc 2 3 @ enc 4 0) @ [p1, p2] @ header_numbers f c w"
proof -
  have two: "put 2 3 [0x4c, 0x32, 0x62, 0x69] = Inr ([0x4c, 0x32, 0x62, 0x69] @ enc 2 3)" by (simp add: put_eq)
  have four: "put 4 0 out = Inr (out @ enc 4 0)" for out by (simp add: put_eq)
  obtain w' where w': "header_widths f = Inr w'"
    using assms(1) by (cases "header_widths f") (auto simp: write_header_def two four)
  then obtain p1 where p1: "pack_widths [We w', Wv w', Wp w', Wc w'] = Inr p1"
    using assms(1) by (cases "pack_widths [We w', Wv w', Wp w', Wc w']") (auto simp: write_header_def two four)
  then obtain p2 where p2: "pack_widths [Wch w', Wx w', Wxc w'] = Inr p2"
    using assms(1) w' by (cases "pack_widths [Wch w', Wx w', Wxc w']") (auto simp: write_header_def two four)
  have "w' = w" using assms(1) by (auto simp: write_header_def two four w' p1 p2 rbind_def split: sum.splits)
  note pack = w' [unfolded this] p1 [unfolded this] p2 [unfolded this]
  note ok = header_widths_ok [OF pack(1)]
  note w = ok [unfolded widths_ok_def]
  have put: "\<And>n v o1 o2. put n v o1 = Inr o2 \<Longrightarrow> unat n \<le> 4 \<Longrightarrow> o2 = o1 @ enc (unat n) v \<and> drop_bit (8 * unat n) v = 0"
    using put_InrD by blast
  have "numbers_fit f c w \<and> out = (expected_cookie @ enc 2 3 @ enc 4 0) @ [p1, p2] @ header_numbers f c w"
    using assms w
    by (auto simp: write_header_def two four pack rbind_def numbers_fit_def header_numbers_def expected_cookie_def
        split: sum.splits dest!: put)
  then show ?thesis using that pack ok by blast
qed

text \<open>The part before the widths, for any widths.\<close>

lemma read_start:
  assumes "sized r" "rest r = (expected_cookie @ enc 2 3 @ enc 4 0) @ cs"
  shows "\<exists>r'. moved r cs (dest r) r' \<and> read_header r = rbind (read_weights r') (\<lambda>r4. rbind (read_counts r4) (\<lambda>r5. Inr (True, r5)))"
proof -
  obtain r1 where r1: "read_cookie expected_cookie r = Inr (True, r1)" "moved r (enc 2 3 @ enc 4 0 @ cs) (dest r) r1"
    using cookie_ok [OF assms(1), of expected_cookie "enc 2 3 @ enc 4 0 @ cs"] assms(2) by (auto simp: returns_iff)
  obtain r2 where r2: "get 2 r1 = Inr (3, r2)" "moved r1 (enc 4 0 @ cs) (dest r1) r2"
    using get_ok [of 2 r1 3 "enc 4 0 @ cs"] movedD [OF r1(2)] assms(1) by (auto simp: returns_iff)
  obtain r3 where r3: "get 4 r2 = Inr (0, r3)" "moved r2 cs (dest r2) r3"
    using get_ok [of 4 r2 0 cs] movedD [OF r2(2)] movedD [OF r1(2)] assms(1) by (auto simp: returns_iff)
  have "moved r cs (dest r) r3"
    using moved_trans [OF moved_trans [OF r1(2) r2(2)] r3(2)] movedD(2) [OF r2(2)] movedD(2) [OF r1(2)] by simp
  then show ?thesis by (intro exI [of _ r3]) (simp add: read_header_def r1(1) read_version_def r2(1) read_checksum_def r3(1))
qed

lemma read_two:
  assumes "sized r" "rest r = [a, b] @ cs"
  obtains r1 r2 where "get1 r = Inr (a, r1)" "get1 r1 = Inr (b, r2)" "moved r cs (dest r) r2"
proof -
  obtain r1 where r1: "get1 r = Inr (a, r1)" "moved r (b # cs) (dest r) r1"
    using get1_ok [OF assms(1), of a "b # cs"] assms(2) by (auto simp: returns_iff)
  obtain r2 where r2: "get1 r1 = Inr (b, r2)" "moved r1 cs (dest r1) r2"
    using get1_ok [of r1 b cs] movedD [OF r1(2)] assms(1) by (auto simp: returns_iff)
  show ?thesis using that [OF r1(1) r2(1)] moved_trans [OF r1(2) r2(2)] movedD(2) [OF r1(2)] by simp
qed

lemma high_zero: "drop_bit 8 (ucast (p :: 8 word) :: 32 word) = 0"
  by (rule bit_word_eqI) (auto simp: bit_simps dest: bit_imp_le_length)

lemma read_weights_ok:
  assumes "sized r" "rest r = [p1, p2] @ cs" "pack_widths [We w, Wv w, Wp w, Wc w] = Inr p1"
    "pack_widths [Wch w, Wx w, Wxc w] = Inr p2" "small_widths w"
  shows "\<exists>r'. read_weights r = Inr (r'\<lparr>fm_widths := w\<rparr>) \<and> moved r cs (dest r) r'"
proof -
  obtain r1 r2 where r: "get1 r = Inr (p1, r1)" "get1 r1 = Inr (p2, r2)" "moved r cs (dest r) r2"
    using read_two [OF assms(1,2)] .
  note tb = pack_InrD [OF assms(3)] pack_InrD [OF assms(4)]
  have small: "We w \<in> {1, 2, 3}" "Wv w \<in> {1, 2, 3}" "Wp w \<in> {1, 2, 3}" "Wc w \<in> {1, 2, 3}"
    "Wch w = 1" "Wx w \<in> {1, 2, 3}" "Wxc w \<in> {1, 2, 3}"
    using tb assms(5) two_bits_cases(2,3) unfolding small_widths_def by auto
  from unpack_four small(1-4) assms(3) have u1: "unpack_width (drop_bit 6 (ucast p1)) = We w" "unpack_width (drop_bit 4 (ucast p1)) = Wv w"
    "unpack_width (drop_bit 2 (ucast p1)) = Wp w" "unpack_width (ucast p1) = Wc w" by blast+
  from unpack_three small(6,7) assms(4) [unfolded small(5)] have u2: "drop_bit 4 (ucast p2 :: 32 word) = 0" "unpack_width (drop_bit 4 (ucast p2)) = 1"
    "unpack_width (drop_bit 2 (ucast p2)) = Wx w" "unpack_width (ucast p2) = Wxc w" by blast+
  have "\<lparr>We = We w, Wv = Wv w, Wp = Wp w, Wc = Wc w, Wch = 1, Wx = Wx w, Wxc = Wxc w\<rparr> = w"
    using small(5) by (cases w) simp
  moreover have "unpack_width 0 = 1" by (simp add: unpack_width_def)
  ultimately have "read_weights r = Inr (r2\<lparr>fm_widths := w\<rparr>)"
    by (simp add: read_weights_def r(1,2) Let_def l2_assert_def high_zero u1 u2)
  then show ?thesis using r(3) by blast
qed

lemma get_step:
  assumes "sized r" "rest r = enc (unat n) v @ cs" "drop_bit (8 * unat n) v = 0" "unat n \<le> 4"
  obtains r' where "get n r = Inr (v, r')" "moved r cs (dest r) r'" "sized r'" "rest r' = cs" "fm_widths r' = fm_widths r"
  using get_ok [OF assms(4,1,2,3)] movedD assms(1) by (auto simp: returns_iff)

lemma read_counts_ok:
  assumes "sized r" "rest r = header_numbers f c w @ cs" "numbers_fit f c w" "widths_ok w" "fm_widths r = w"
  shows "\<exists>r'. read_counts r = Inr (r'\<lparr>nenums_ct := nenums f, nvars_ct := nvars f, fm_counts := c, nclauses_ct := nclauses f\<rparr>) \<and>
    moved r cs (dest r) r'"
proof -
  note w = assms(4) [unfolded widths_ok_def] and fit = assms(3) [unfolded numbers_fit_def]
  let ?b6 = "enc (unat (Wc w)) (nclauses f) @ cs"
  let ?b5 = "enc (unat (Wp w)) (ndiff c) @ ?b6"
  let ?b4 = "enc (unat (Wp w)) (nsame c) @ ?b5"
  let ?b3 = "enc (unat (Wp w)) (nneg c) @ ?b4"
  let ?b2 = "enc (unat (Wp w)) (npos c) @ ?b3"
  let ?b1 = "enc (unat (Wv w)) (nvars f) @ ?b2"
  have bytes: "rest r = enc (unat (We w)) (nenums f) @ ?b1" using assms(2) by (simp add: header_numbers_def)
  obtain r1 where 1: "get (We w) r = Inr (nenums f, r1)" "moved r (?b1) (dest r) r1" "sized r1" "rest r1 = ?b1"
    by (rule get_step [OF assms(1) bytes]) (use w fit in auto)
  obtain r2 where 2: "get (Wv w) r1 = Inr (nvars f, r2)" "moved r1 (?b2) (dest r1) r2" "sized r2" "rest r2 = ?b2"
    by (rule get_step [OF 1(3,4)]) (use w fit in auto)
  obtain r3 where 3: "get (Wp w) r2 = Inr (npos c, r3)" "moved r2 (?b3) (dest r2) r3" "sized r3" "rest r3 = ?b3"
    by (rule get_step [OF 2(3,4)]) (use w fit in auto)
  obtain r4 where 4: "get (Wp w) r3 = Inr (nneg c, r4)" "moved r3 (?b4) (dest r3) r4" "sized r4" "rest r4 = ?b4"
    by (rule get_step [OF 3(3,4)]) (use w fit in auto)
  obtain r5 where 5: "get (Wp w) r4 = Inr (nsame c, r5)" "moved r4 (?b5) (dest r4) r5" "sized r5" "rest r5 = ?b5"
    by (rule get_step [OF 4(3,4)]) (use w fit in auto)
  obtain r6 where 6: "get (Wp w) r5 = Inr (ndiff c, r6)" "moved r5 (?b6) (dest r5) r6" "sized r6" "rest r6 = ?b6"
    by (rule get_step [OF 5(3,4)]) (use w fit in auto)
  obtain r7 where 7: "get (Wc w) r6 = Inr (nclauses f, r7)" "moved r6 (cs) (dest r6) r7" "sized r7" "rest r7 = cs"
    by (rule get_step [OF 6(3,4)]) (use w fit in auto)
  have "read_counts r = Inr (r7\<lparr>nenums_ct := nenums f, nvars_ct := nvars f, fm_counts := c, nclauses_ct := nclauses f\<rparr>)"
    by (simp add: read_counts_def Let_def assms(5) 1(1) 2(1) 3(1) 4(1) 5(1) 6(1) 7(1))
  moreover have "moved r cs (dest r) r7"
    using moved_trans [OF moved_trans [OF moved_trans [OF moved_trans [OF moved_trans [OF moved_trans
      [OF 1(2) 2(2)] 3(2)] 4(2)] 5(2)] 6(2)] 7(2)] 1(2) 2(2) 3(2) 4(2) 5(2) 6(2) by (simp add: movedD(2))
  ultimately show ?thesis by blast
qed

text \<open>After the header.\<close>

definition after_header :: "l2_file \<Rightarrow> prop_counts \<Rightarrow> widths \<Rightarrow> from_memory \<Rightarrow> bool" where
  "after_header f c w r \<longleftrightarrow> sized r \<and> fm_widths r = w \<and> nenums_ct r = nenums f \<and> nvars_ct r = nvars f \<and> fm_counts r = c \<and>
     nclauses_ct r = nclauses f"

lemma read_header_ok:
  assumes "write_header f c [] = Inr (w, out)" "small_widths w" "sized r" "rest r = out @ cs"
  shows "\<exists>r'. read_header r = Inr (True, r') \<and> after_header f c w r' \<and> rest r' = cs \<and> dest r' = dest r"
proof -
  note ok = small_widths_ok [OF assms(2)]
  obtain p1 p2 where p: "pack_widths [We w, Wv w, Wp w, Wc w] = Inr p1" "pack_widths [Wch w, Wx w, Wxc w] = Inr p2" "numbers_fit f c w"
    "out = (expected_cookie @ enc 2 3 @ enc 4 0) @ [p1, p2] @ header_numbers f c w"
    using header_InrD [OF assms(1)] by metis
  obtain r1 where r1: "moved r ([p1, p2] @ header_numbers f c w @ cs) (dest r) r1"
    "read_header r = rbind (read_weights r1) (\<lambda>r4. rbind (read_counts r4) (\<lambda>r5. Inr (True, r5)))"
    using read_start [OF assms(3), of "[p1, p2] @ header_numbers f c w @ cs"] assms(4) p(4) by auto
  note m1 = movedD [OF r1(1)]
  obtain r2 where r2: "read_weights r1 = Inr (r2\<lparr>fm_widths := w\<rparr>)" "moved r1 (header_numbers f c w @ cs) (dest r1) r2"
    using read_weights_ok [OF _ _ p(1,2) assms(2), of r1 "header_numbers f c w @ cs"] m1(1,3) assms(3) by auto
  note m2 = movedD [OF r2(2)]
  let ?r = "r2\<lparr>fm_widths := w\<rparr>"
  have "sized ?r" "rest ?r = header_numbers f c w @ cs" "fm_widths ?r = w"
    using m2(1,3) m1(3) assms(3) by (simp_all add: sized_def rest_def)
  from read_counts_ok [OF this(1,2) p(3) ok this(3)] obtain r3 where
    r3: "read_counts ?r = Inr (r3\<lparr>nenums_ct := nenums f, nvars_ct := nvars f, fm_counts := c, nclauses_ct := nclauses f\<rparr>)"
    "moved ?r cs (dest ?r) r3" by blast
  note m3 = movedD [OF r3(2)]
  show ?thesis
    using m1 m2 m3 assms(3)
    by (intro exI [of _ "r3\<lparr>nenums_ct := nenums f, nvars_ct := nvars f, fm_counts := c, nclauses_ct := nclauses f\<rparr>"])
      (simp add: r1(2) r2(1) r3(1) after_header_def sized_def rest_def)
qed

end
