(* ===== verification/Bin_Roundtrip.thy ===== *)
theory Bin_Roundtrip
  imports Bin_Header
begin

text \<open>
  The binary format as a whole: a complete file of modest size that the writer takes is read back
  as the same model, and a file with a clause of 128 or more propositions is written but cannot
  be read.
\<close>

subsection \<open>Sizes and widths\<close>

definition modest_mode :: "l2r_mode \<Rightarrow> bool" where
  "modest_mode m \<longleftrightarrow> length (nominal_transitions m) < 2 ^ 24 \<and> length (failure_transitions m) < 2 ^ 24 \<and>
     (\<forall>x \<in> set (nominal_transitions m @ failure_transitions m). length (lx_clauses x) < 2 ^ 24)"

definition modest :: "l2r_enumeration list \<Rightarrow> l2r_variable list \<Rightarrow> l2r_proposition list \<Rightarrow> l2r_clause list \<Rightarrow> bool" where
  "modest es vs ps cs \<longleftrightarrow> (\<forall>e \<in> set es. nmembers e < 2 ^ 24) \<and> length vs < 2 ^ 24 \<and> length ps < 2 ^ 24 \<and> length cs < 2 ^ 24 \<and>
     (\<forall>c \<in> set cs. length (lc_props c) < 128) \<and> (\<forall>v \<in> set vs. pred_option modest_mode (lv_mode v))"

lemma each_keeps:
  assumes r: "each look n body s = Inr r" and xs: "length xs < 2 ^ 31" "\<And>i. i < length xs \<Longrightarrow> look (of_nat i) = Inr (xs ! i)"
    "n = of_nat (length xs)"
    and P: "P s" "\<And>x s r. x \<in> set xs \<Longrightarrow> P s \<Longrightarrow> body x s = Inr r \<Longrightarrow> P r"
  shows "P r"
proof -
  have "P r" if "rfold (\<lambda>i. body (xs ! i)) [0..<k] s = Inr r" "k \<le> length xs" for k r
    using that
  proof (induction k arbitrary: r)
    case 0
    then show ?case using P(1) by simp
  next
    case (Suc k)
    then obtain r1 where r1: "rfold (\<lambda>i. body (xs ! i)) [0..<k] s = Inr r1" "body (xs ! k) r1 = Inr r"
      by (cases "rfold (\<lambda>i. body (xs ! i)) [0..<k] s") (auto simp: rfold_append rfold_single)
    then show ?case using Suc P(2) [of "xs ! k" r1 r] by simp
  qed
  moreover have "rfold (\<lambda>i. body (xs ! i)) [0..<length xs] s = Inr r" using r each_index [OF xs, of body] by simp
  ultimately show ?thesis by blast
qed

lemma each_max:
  assumes r: "each look n (\<lambda>x l. Inr (if l < g x then g x else l)) s = Inr r" and xs: "length xs < 2 ^ 31"
    "\<And>i. i < length xs \<Longrightarrow> look (of_nat i) = Inr (xs ! i)" "n = of_nat (length xs)" and x: "x \<in> set xs"
  shows "(g x :: 32 word) \<le> r"
proof -
  have "s \<le> r \<and> (\<forall>i \<in> set is. g (xs ! i) \<le> r)"
    if "rfold (\<lambda>i l. Inr (if l < g (xs ! i) then g (xs ! i) else l)) is s = Inr r" for s "is"
    using that
  proof (induction "is" arbitrary: s)
    case (Cons i "is")
    then show ?case using Cons.IH [of "if s < g (xs ! i) then g (xs ! i) else s"]
      by (auto split: if_splits simp: not_less intro: order_trans less_imp_le)
  qed simp
  moreover have "rfold (\<lambda>i l. Inr (if l < g (xs ! i) then g (xs ! i) else l)) [0..<length xs] s = Inr r"
    using r each_index [OF xs, of "\<lambda>x l. Inr (if l < g x then g x else l)"] by simp
  ultimately have "\<forall>i \<in> {0..<length xs}. g (xs ! i) \<le> r" by fastforce
  then show ?thesis using x by (auto simp: in_set_conv_nth)
qed

lemma drop_bit_zero: "drop_bit k (v :: 32 word) = 0 \<longleftrightarrow> unat v < 2 ^ k"
proof -
  have "unat (drop_bit k v) = unat v div 2 ^ k" unfolding unat_drop_bit_eq by (simp add: drop_bit_eq_div)
  then show ?thesis by (simp only: word_unat_eq_iff unsigned_0 div_eq_0_iff) simp
qed

lemma width_small:
  assumes "width_of_int v = Inr w" "v < 2 ^ (8 * n)" "n < 4"
  shows "unat w \<le> n"
proof -
  have "(2 :: 32 word) ^ (8 * n) = of_nat (2 ^ (8 * n))" by simp
  moreover have "(2 :: nat) ^ (8 * n) \<le> 2 ^ 24" using assms(3) by (intro power_increasing) simp_all
  ultimately have "unat ((2 :: 32 word) ^ (8 * n)) = 2 ^ (8 * n)"
    by (simp only: unat_of_nat) (simp add: take_bit_nat_eq_self)
  then have "drop_bit (8 * n) v = 0" using assms(2) by (simp add: drop_bit_zero word_less_nat_alt)
  then show ?thesis using width_of_int_ok [of v] assms(1) by auto
qed

lemma width_wide:
  assumes "width_of_int v = Inr w" "256 \<le> v"
  shows "2 \<le> unat w"
proof -
  have "drop_bit (8 * 1) v \<noteq> 0"
    using assms(2) unfolding drop_bit_zero by (simp add: word_le_nat_alt)
  then have "\<not> unat w \<le> 1" using width_of_int_ok [of v] assms(1) by (metis sum.inject(2))
  then show ?thesis by simp
qed

lemma largest_less: "(\<forall>x \<in> set xs. n x < b) \<Longrightarrow> l < b \<Longrightarrow> largest n xs l < b"
  by (induction xs arbitrary: l) (auto simp: largest_def)

lemma small_length: "length xs < 2 ^ 24 \<Longrightarrow> (of_nat (length xs) :: 32 word) < 2 ^ 24"
  by (simp add: word_less_nat_alt unat_of_nat take_bit_nat_eq_self)

lemma header_widths_small:
  assumes c: "complete es vs ps cs f" and m: "modest es vs ps cs" and h: "header_widths f = Inr w"
  shows "small_widths w"
proof -
  have f: "lf_enums f = Some (map Some es)" "lf_vars f = Some (map Some vs)" "lf_props f = Some (map Some ps)"
    "lf_clauses f = Some (map Some cs)" and l: "length es < 2 ^ 31" "length vs < 2 ^ 31" "length ps < 2 ^ 31" "length cs < 2 ^ 31"
    using c by (simp_all add: complete_def file_holds_def numbered_def)
  have e: "\<And>i. i < length es \<Longrightarrow> getEnum f (of_nat i) = Inr (es ! i)" "nenums f = of_nat (length es)"
    and v: "\<And>i. i < length vs \<Longrightarrow> getVar f (of_nat i) = Inr (vs ! i)" "nvars f = of_nat (length vs)"
    and k: "\<And>i. i < length cs \<Longrightarrow> getClause f (of_nat i) = Inr (cs ! i)" "nclauses f = of_nat (length cs)"
    and p: "nprops f = of_nat (length ps)"
    using access_full l by (simp_all add: getEnum_def getVar_def getClause_def f nenums_def nvars_def nclauses_def nprops_def asize_full)
  obtain le lc lx lxc where
    max: "each (getEnum f) (nenums f) (\<lambda>e l. Inr (if l < nmembers e then nmembers e else l)) 0 = Inr le"
    "each (getClause f) (nclauses f) (\<lambda>c l. Inr (if l < lc_size c then lc_size c else l)) 0 = Inr lc"
    "each (getVar f) (nvars f) (on_mode (\<lambda>m l. let l1 = (if l < nnominal m then nnominal m else l) in
       Inr (if l1 < nfailure m then nfailure m else l1))) 0 = Inr lx"
    "each (getVar f) (nvars f) (on_mode (\<lambda>m l. Inr (largest lx_size (failure_transitions m)
       (largest lx_size (nominal_transitions m) l)))) 0 = Inr lxc"
    and wd: "width_of_int le = Inr (We w)" "width_of_int (nvars f) = Inr (Wv w)" "width_of_int (nprops f) = Inr (Wp w)"
    "width_of_int (nclauses f) = Inr (Wc w)" "width_of_int (push_bit 1 lc) = Inr (Wch w)" "width_of_int lx = Inr (Wx w)"
    "width_of_int lxc = Inr (Wxc w)"
    using h unfolding header_widths_def by (auto simp: rbind_def split: sum.splits)
  note modest = m [unfolded modest_def]
  have zero: "(0 :: 32 word) < 2 ^ 24" by simp
  have "le < 2 ^ 24"
    by (rule each_keeps [OF max(1) l(1) e, where P = "\<lambda>l. l < 2 ^ 24"]) (use modest in \<open>auto split: if_splits\<close>)
  moreover have "lc < 128"
    by (rule each_keeps [OF max(2) l(4) k, where P = "\<lambda>l. l < 128"])
      (use modest in \<open>auto simp: lc_size_def word_less_nat_alt unat_of_nat take_bit_nat_eq_self split: if_splits\<close>)
  then have "push_bit 1 lc < 2 ^ (8 * 1)" by (simp add: push_bit_eq_mult word_less_nat_alt unat_word_ariths)
  moreover have "lx < 2 ^ 24"
  proof (rule each_keeps [where P = "\<lambda>l. l < 2 ^ 24", OF max(3) l(2) v zero])
    fix x and s r :: "32 word"
    assume x: "x \<in> set vs" and s: "s < 2 ^ 24" and r: "on_mode (\<lambda>m l. let l1 = (if l < nnominal m then nnominal m else l) in
       Inr (if l1 < nfailure m then nfailure m else l1)) x s = Inr r"
    show "r < 2 ^ 24"
    proof (cases "lv_kind x = vk_mode \<and> lv_mode x \<noteq> None")
      case True
      then obtain m' where m': "lv_mode x = Some m'" by blast
      then have "modest_mode m'" using modest x by (metis option.pred_inject(2))
      then have "nnominal m' < 2 ^ 24" "nfailure m' < 2 ^ 24"
        unfolding modest_mode_def nnominal_def nfailure_def by (auto intro!: small_length [simplified])
      then show ?thesis using r s True m' by (auto simp: on_mode_def mode_friend_def l2_assert_def Let_def split: if_splits)
    next
      case False
      then show ?thesis using r s by (auto simp: on_mode_def mode_friend_def l2_assert_def split: if_splits)
    qed
  qed
  moreover have "lxc < 2 ^ 24"
  proof (rule each_keeps [where P = "\<lambda>l. l < 2 ^ 24", OF max(4) l(2) v zero])
    fix x and s r :: "32 word"
    assume x: "x \<in> set vs" and s: "s < 2 ^ 24" and r: "on_mode (\<lambda>m l. Inr (largest lx_size (failure_transitions m)
       (largest lx_size (nominal_transitions m) l))) x s = Inr r"
    show "r < 2 ^ 24"
    proof (cases "lv_kind x = vk_mode \<and> lv_mode x \<noteq> None")
      case True
      then obtain m' where m': "lv_mode x = Some m'" by blast
      then have "modest_mode m'" using modest x by (metis option.pred_inject(2))
      then have "\<forall>y \<in> set (nominal_transitions m'). lx_size y < 2 ^ 24" "\<forall>y \<in> set (failure_transitions m'). lx_size y < 2 ^ 24"
        unfolding modest_mode_def lx_size_def by (auto intro!: small_length [simplified])
      then have "largest lx_size (failure_transitions m') (largest lx_size (nominal_transitions m') s) < 2 ^ 24"
        using s by (intro largest_less)
      then show ?thesis using r True m' by (auto simp: on_mode_def mode_friend_def l2_assert_def)
    next
      case False
      then show ?thesis using r s by (auto simp: on_mode_def mode_friend_def l2_assert_def split: if_splits)
    qed
  qed
  moreover have "nvars f < 2 ^ 24" "nprops f < 2 ^ 24" "nclauses f < 2 ^ 24"
    unfolding v(2) p k(2) using modest by (auto intro!: small_length [simplified])
  ultimately show ?thesis
    unfolding small_widths_def using wd [THEN width_small, where n = 3] width_small [OF wd(5), of 1] by simp
qed

subsection \<open>The sections in order\<close>

lemma transfersD:
  assumes "transfers w wr rd d d'" "wr out = Inr out'"
  obtains bs where "out' = out @ bs" "decodes w bs rd d d'"
  using assms unfolding transfers_def by blast

lemma decodesD:
  assumes "decodes w bs rd d d'" "after_header f c w r" "dest r = d" "rest r = bs @ cs"
  obtains r' where "rd r = Inr r'" "after_header f c w r'" "dest r' = d'" "rest r' = cs"
proof -
  have "returns (rd r) (moved r cs d')" using assms by (simp add: decodes_def after_header_def)
  then obtain r' where r': "rd r = Inr r'" "moved r cs d' r'" by (auto simp: returns_iff)
  then show ?thesis using that [OF r'(1)] movedD [OF r'(2)] assms(2) by (simp add: after_header_def)
qed

text \<open>What the reader leaves in the file.\<close>

definition reread_file :: "l2r_enumeration list \<Rightarrow> l2r_variable list \<Rightarrow> l2r_proposition list \<Rightarrow> l2r_clause list \<Rightarrow> l2_file" where
  "reread_file es vs ps cs = stage (Some (map Some es)) (Some (map Some (map reread vs))) (Some (map Some ps)) (Some (map Some cs))"

text \<open>The bytes after the header, section by section.\<close>

definition sections ::
  "l2r_enumeration list \<Rightarrow> l2r_variable list \<Rightarrow> l2r_proposition list \<Rightarrow> l2r_clause list \<Rightarrow> l2_file \<Rightarrow> prop_counts \<Rightarrow>
   widths \<Rightarrow> 8 word list \<Rightarrow> bool" where
  "sections es vs ps cs f k w bs \<longleftrightarrow> (let E = Some (map Some es); V = Some (map Some (map bare vs)) in
     \<exists>b1 b2 b3 b4 b5. bs = b1 @ b2 @ b3 @ b4 @ b5 \<and>
     decodes w b1 (\<lambda>r. rbind (in_dest (allocEnums (nenums f) False) r) (repeat (nenums f) read_one_enum))
       new_l2_file (stage E None None None) \<and>
     decodes w b2 (\<lambda>r. rbind (in_dest (allocVars (nvars f) False) r) (repeat (nvars f) read_one_variable))
       (stage E None None None) (stage E V None None) \<and>
     decodes w b3 (read_props_of k) (stage E V None None) (stage E V (Some (map Some ps)) None) \<and>
     decodes w b4 (\<lambda>r. rbind (in_dest (allocClauses (nclauses f) False) r) (repeat (nclauses f) read_one_clause))
       (stage E V (Some (map Some ps)) None) (stage E V (Some (map Some ps)) (Some (map Some cs))) \<and>
     decodes w b5 read_transitions (stage E V (Some (map Some ps)) (Some (map Some cs))) (reread_file es vs ps cs))"

lemma to_bin_InrD:
  assumes c: "complete es vs ps cs f" and b: "to_bin f = Inr bs"
  obtains k w out b where "write_header f k [] = Inr (w, out)" "bs = out @ b" "sections es vs ps cs f k w b"
proof -
  obtain k where k: "count_props f = Inr k" using b by (cases "count_props f") (simp_all add: to_bin_def)
  obtain u where u: "check_sorted f k = Inr u" using b k by (cases "check_sorted f k") (simp_all add: to_bin_def)
  obtain w out where h: "write_header f k [] = Inr (w, out)" using b k u by (cases "write_header f k []") (auto simp: to_bin_def)
  obtain o1 where 1: "each (getEnum f) (nenums f) (write_one_enum w) out = Inr o1"
    using b k u h by (cases "each (getEnum f) (nenums f) (write_one_enum w) out") (auto simp: to_bin_def)
  obtain o2 where 2: "each (getVar f) (nvars f) (write_one_variable f w) o1 = Inr o2"
    using b k u h 1 by (cases "each (getVar f) (nvars f) (write_one_variable f w) o1") (auto simp: to_bin_def)
  obtain o3 where 3: "write_props f w k o2 = Inr o3"
    using b k u h 1 2 by (cases "write_props f w k o2") (auto simp: to_bin_def)
  obtain o4 where 4: "each (getClause f) (nclauses f) (write_one_clause f w) o3 = Inr o4"
    using b k u h 1 2 3 by (cases "each (getClause f) (nclauses f) (write_one_clause f w) o3") (auto simp: to_bin_def)
  have 5: "each (getVar f) (nvars f) (on_mode (write_mode f w)) o4 = Inr bs" using b k u h 1 2 3 4 by (simp add: to_bin_def)
  have w: "widths_ok w" using header_InrD [OF h] by metis
  have new: "new_l2_file = stage None None None None" by (simp add: new_l2_file_def stage_def)
  obtain b1 b2 b3 b4 b5 where "o1 = out @ b1" "o2 = o1 @ b2" "o3 = o2 @ b3" "o4 = o3 @ b4" "bs = o4 @ b5"
    "sections es vs ps cs f k w (b1 @ b2 @ b3 @ b4 @ b5)"
    unfolding sections_def Let_def new reread_file_def
    using transfersD [OF enums_transfer [OF c w] 1] transfersD [OF vars_transfer [OF c w] 2] transfersD [OF props_transfer [OF c w k u] 3]
      transfersD [OF clauses_transfer [OF c w] 4] transfersD [OF transitions_transfer [OF c w] 5] by metis
  then have "bs = out @ (b1 @ b2 @ b3 @ b4 @ b5)" by simp
  from that [OF h this \<open>sections es vs ps cs f k w (b1 @ b2 @ b3 @ b4 @ b5)\<close>] show ?thesis .
qed

text \<open>After the header, the reader takes the sections up one by one.\<close>

lemma read_sections:
  assumes s: "sections es vs ps cs f k w b" and r1: "after_header f k w r1" "dest r1 = new_l2_file" "rest r1 = b"
  shows "\<exists>r. rbind (read_enums r1) (\<lambda>r2. rbind (read_variables r2) (\<lambda>r3. rbind (read_propositions r3) (\<lambda>r4.
      rbind (read_clauses r4) (\<lambda>r5. rbind (read_transitions r5) (\<lambda>r6. Inr (True, r6)))))) = Inr (True, r) \<and>
    dest r = reread_file es vs ps cs"
proof -
  let ?E = "Some (map Some es)" and ?V = "Some (map Some (map bare vs))" and ?P = "Some (map Some ps)" and ?C = "Some (map Some cs)"
  obtain b1 b2 b3 b4 b5 where b: "b = b1 @ b2 @ b3 @ b4 @ b5" and
    d: "decodes w b1 (\<lambda>r. rbind (in_dest (allocEnums (nenums f) False) r) (repeat (nenums f) read_one_enum)) new_l2_file (stage ?E None None None)"
    "decodes w b2 (\<lambda>r. rbind (in_dest (allocVars (nvars f) False) r) (repeat (nvars f) read_one_variable))
       (stage ?E None None None) (stage ?E ?V None None)"
    "decodes w b3 (read_props_of k) (stage ?E ?V None None) (stage ?E ?V ?P None)"
    "decodes w b4 (\<lambda>r. rbind (in_dest (allocClauses (nclauses f) False) r) (repeat (nclauses f) read_one_clause))
       (stage ?E ?V ?P None) (stage ?E ?V ?P ?C)"
    "decodes w b5 read_transitions (stage ?E ?V ?P ?C) (reread_file es vs ps cs)"
    using s unfolding sections_def Let_def by blast
  obtain r2 where r2: "rbind (in_dest (allocEnums (nenums f) False) r1) (repeat (nenums f) read_one_enum) = Inr r2" "after_header f k w r2"
    "dest r2 = stage ?E None None None" "rest r2 = b2 @ b3 @ b4 @ b5"
    by (rule decodesD [OF d(1) r1(1,2)]) (use r1(3) b in auto)
  obtain r3 where r3: "rbind (in_dest (allocVars (nvars f) False) r2) (repeat (nvars f) read_one_variable) = Inr r3" "after_header f k w r3"
    "dest r3 = stage ?E ?V None None" "rest r3 = b3 @ b4 @ b5"
    by (rule decodesD [OF d(2) r2(2-4)])
  obtain r4 where r4: "read_props_of k r3 = Inr r4" "after_header f k w r4" "dest r4 = stage ?E ?V ?P None" "rest r4 = b4 @ b5"
    by (rule decodesD [OF d(3) r3(2-4)])
  obtain r5 where r5: "rbind (in_dest (allocClauses (nclauses f) False) r4) (repeat (nclauses f) read_one_clause) = Inr r5" "after_header f k w r5"
    "dest r5 = stage ?E ?V ?P ?C" "rest r5 = b5"
    by (rule decodesD [OF d(4) r4(2-4)])
  obtain r6 where r6: "read_transitions r5 = Inr r6" "dest r6 = reread_file es vs ps cs"
    by (rule decodesD [OF d(5) r5(2,3), of "[]"]) (use r5(4) in simp_all)
  show ?thesis
    using r2(1) r3(1) r4(1) r5(1) r6 r1(1) r2(2) r3(2) r4(2)
    by (simp add: read_enums_def read_variables_def read_propositions_def read_props_of_def read_clauses_def after_header_def Let_def)
qed

subsection \<open>Writing and reading back\<close>

lemma new_reader:
  assumes "length bs < 2 ^ 31"
  shows "sized (new_from_memory bs d)" "rest (new_from_memory bs d) = bs" "dest (new_from_memory bs d) = d"
    "bs \<noteq> [] \<Longrightarrow> \<not> sint (of_nat (modelSize (new_from_memory bs d)) :: 32 word) \<le> 0"
proof -
  show "sized (new_from_memory bs d)" "rest (new_from_memory bs d) = bs" "dest (new_from_memory bs d) = d"
    using assms by (simp_all add: sized_def rest_def new_from_memory_def)
  show "\<not> sint (of_nat (modelSize (new_from_memory bs d)) :: 32 word) \<le> 0" if "bs \<noteq> []"
    using assms that by (simp add: modelSize_def new_from_memory_def signed_of_nat signed_take_bit_int_eq_self)
qed

text \<open>
  C33. A model that \<open>to_bin\<close> writes, with counts below 2^24 and clauses of fewer than 128
  propositions, is read back by \<open>from_memory\<close>: the read succeeds and leaves the enumerations,
  variables, propositions, clauses and modes that were written. Only the nominal transitions of
  a mode come back in reverse order, and initial values only where the variable is a mode.
\<close>

theorem bin_roundtrip:
  assumes c: "complete es vs ps cs f" and m: "modest es vs ps cs" and b: "to_bin f = Inr bs" and l: "length bs < 2 ^ 31"
  shows "\<exists>r. read_model (new_from_memory bs new_l2_file) = Inr (True, r) \<and> dest r = reread_file es vs ps cs"
proof -
  obtain k w out b where h: "write_header f k [] = Inr (w, out)" and bytes: "bs = out @ b" and sec: "sections es vs ps cs f k w b"
    by (rule to_bin_InrD [OF c b])
  note new = new_reader [OF l, of new_l2_file]
  have ne: "bs \<noteq> []" using bytes header_InrD [OF h] by (metis append_is_Nil_conv list.distinct(1))
  have w: "small_widths w" using header_widths_small [OF c m] header_InrD [OF h] by metis
  obtain r1 where r1: "read_header (new_from_memory bs new_l2_file) = Inr (True, r1)" "after_header f k w r1"
    "rest r1 = b" "dest r1 = new_l2_file"
    using read_header_ok [OF h w new(1)] new bytes by metis
  show ?thesis using read_sections [OF sec r1(2,4,3)] r1(1) new(4) [OF ne] by (simp add: read_model_def)
qed

text \<open>
  C34. The header keeps the width of a clause in two of four bits that the reader requires to be
  zero: every model with a clause of 128 or more propositions is written by \<open>to_bin\<close> without an
  error, but \<open>from_memory\<close> fails an assertion on the result.
\<close>

theorem wide_clause_unreadable:
  assumes c: "complete es vs ps cs f" and b: "to_bin f = Inr bs" and l: "length bs < 2 ^ 31"
    and x: "x \<in> set cs" "128 \<le> length (lc_props x)"
  shows "read_model (new_from_memory bs d) = Inl Assert_failed"
proof -
  obtain k w out b' where h: "write_header f k [] = Inr (w, out)" and bytes: "bs = out @ b'"
    by (rule to_bin_InrD [OF c b])
  obtain p1 p2 where p: "header_widths f = Inr w" "pack_widths [Wch w, Wx w, Wxc w] = Inr p2"
    "out = (expected_cookie @ enc 2 3 @ enc 4 0) @ [p1, p2] @ header_numbers f k w"
    by (rule header_InrD [OF h])
  have cl: "length cs < 2 ^ 31" "lf_clauses f = Some (map Some cs)" "l2r_clause_ok (length ps) x"
    using c x(1) by (simp_all add: complete_def file_holds_def numbered_def)
  obtain lc where lc: "each (getClause f) (nclauses f) (\<lambda>c l. Inr (if l < lc_size c then lc_size c else l)) 0 = Inr lc"
    "width_of_int (push_bit 1 lc) = Inr (Wch w)"
    using p(1) unfolding header_widths_def by (auto simp: rbind_def split: sum.splits)
  have look: "\<And>i. i < length cs \<Longrightarrow> getClause f (of_nat i) = Inr (cs ! i)" "nclauses f = of_nat (length cs)"
    using cl access_full [of cs] by (simp_all add: getClause_def nclauses_def asize_full)
  have le: "lc_size x \<le> lc" by (rule each_max [OF lc(1) cl(1) look x(1)])
  have ok: "\<forall>c \<in> set cs. lc_size c < 2 ^ 31"
    using c by (auto simp: complete_def l2r_clause_ok_def lc_size_def word_less_nat_alt unat_of_nat take_bit_nat_eq_self)
  have zero: "(0 :: 32 word) < 2 ^ 31" by simp
  have "lc < 2 ^ 31"
    by (rule each_keeps [where P = "\<lambda>l. l < 2 ^ 31", OF lc(1) cl(1) look zero]) (use ok in \<open>auto split: if_splits\<close>)
  moreover have "128 \<le> unat (lc_size x)" using x(2) cl(3) by (simp add: lc_size_def l2r_clause_ok_def unat_of_nat take_bit_nat_eq_self)
  then have "128 \<le> unat lc" using le by (simp add: word_le_nat_alt)
  ultimately have "256 \<le> push_bit 1 lc" by (simp add: push_bit_eq_mult word_le_nat_alt word_less_nat_alt unat_word_ariths)
  then have "2 \<le> unat (Wch w)" by (rule width_wide [OF lc(2)])
  then have "Wch w \<noteq> 1" by auto
  then have "Wch w \<in> {2, 3, 4}" "Wx w \<in> {1, 2, 3, 4}" "Wxc w \<in> {1, 2, 3, 4}"
    using pack_InrD [OF p(2)] two_bits_cases(1) by auto
  then have wide: "drop_bit 4 (ucast p2 :: 32 word) \<noteq> 0" using wide_pack p(2) by blast
  note new = new_reader [OF l, of d]
  have ne: "bs \<noteq> []" using bytes p(3) by simp
  obtain r where r: "moved (new_from_memory bs d) ([p1, p2] @ header_numbers f k w @ b') d r"
    "read_header (new_from_memory bs d) = rbind (read_weights r) (\<lambda>r4. rbind (read_counts r4) (\<lambda>r5. Inr (True, r5)))"
    using read_start [OF new(1), of "[p1, p2] @ header_numbers f k w @ b'"] new bytes p(3) by auto
  obtain r1 r2 where "get1 r = Inr (p1, r1)" "get1 r1 = Inr (p2, r2)"
    by (rule read_two [of r p1 p2 "header_numbers f k w @ b'"]) (use movedD [OF r(1)] new(1) in simp_all)
  then have "read_weights r = Inl Assert_failed" using wide by (simp add: read_weights_def Let_def l2_assert_def high_zero)
  then show ?thesis using r(2) new(4) [OF ne] by (simp add: read_model_def)
qed

subsection \<open>Examples\<close>

text \<open>
  A switch with a mode: one enumeration with three members, an observed variable and a mode
  with two nominal transitions and a failure.
\<close>

definition demo_enums :: "l2r_enumeration list" where "demo_enums = [\<lparr>le_id = 0, nmembers = 3\<rparr>]"

definition demo_transition :: "bool \<Rightarrow> 32 word \<Rightarrow> 32 word \<Rightarrow> place list \<Rightarrow> 32 word \<Rightarrow> l2r_transition" where
  "demo_transition nom from to cs rank = \<lparr>lx_mode = 1, lx_from = from, lx_to = to, lx_clauses = cs, isNominal = nom, lx_rank = rank\<rparr>"

definition demo_vars :: "l2r_variable list" where
  "demo_vars = [(new_l2r_variable 0 0)\<lparr>lv_kind := vk_observed\<rparr>,
     (new_l2r_variable 1 0)\<lparr>lv_kind := vk_mode, lv_initial := 2, lv_mode := Some
       \<lparr>nominal_transitions = [demo_transition True 0 1 [1] 0, demo_transition True 1 1 [] 0],
        failure_transitions = [demo_transition False ANY_MODE 2 [] 3]\<rparr>\<rparr>]"

definition demo_propositions :: "l2r_proposition list" where
  "demo_propositions = [\<lparr>lp_id = 0, lp_var = 0, isPositive = True, lp_body = Var_value 2\<rparr>,
     \<lparr>lp_id = 1, lp_var = 0, isPositive = False, lp_body = Var_var 1\<rparr>]"

definition demo_clauses :: "nat \<Rightarrow> l2r_clause list" where
  "demo_clauses n = [\<lparr>lc_id = 0, lc_props = replicate n 0 @ [1], isInBackground = True\<rparr>,
     \<lparr>lc_id = 1, lc_props = [0], isInBackground = False\<rparr>]"

definition demo_file :: "nat \<Rightarrow> l2_file" where
  "demo_file n = stage (Some (map Some demo_enums)) (Some (map Some demo_vars)) (Some (map Some demo_propositions)) (Some (map Some (demo_clauses n)))"

definition written :: "nat \<Rightarrow> 8 word list" where
  "written n = (case to_bin (demo_file n) of Inl e \<Rightarrow> [] | Inr bs \<Rightarrow> bs)"

lemmas demo_defs = demo_enums_def demo_vars_def demo_propositions_def demo_clauses_def demo_transition_def new_l2r_variable_def

lemma demo_complete:
  assumes "n < 2 ^ 30"
  shows "complete demo_enums demo_vars demo_propositions (demo_clauses n) (demo_file n)"
  using assms
  by (auto simp: complete_def file_holds_def numbered_def demo_file_def stage_def demo_defs less_Suc_eq variable_ok_def mode_ok_def
      transition_ok_def proposition_ok_def l2r_clause_ok_def)

lemma demo_modest: "modest demo_enums demo_vars demo_propositions (demo_clauses 1)"
  by (simp add: modest_def modest_mode_def demo_defs)

lemma demo_to_bin:
  "to_bin (demo_file 1) = Inr (written 1)" "length (written 1) = 46"
  "to_bin (demo_file 127) = Inr (written 127)" "length (written 127) = 174"
  by code_simp+

theorem bin_roundtrip_witness:
  "\<exists>r. read_model (new_from_memory (written 1) new_l2_file) = Inr (True, r) \<and>
     dest r = reread_file demo_enums demo_vars demo_propositions (demo_clauses 1)"
  by (rule bin_roundtrip [OF demo_complete demo_modest demo_to_bin(1)]) (simp, simp only: demo_to_bin(2), simp)

theorem wide_clause_unreadable_witness:
  "to_bin (demo_file 127) = Inr (written 127) \<and> read_model (new_from_memory (written 127) new_l2_file) = Inl Assert_failed"
proof
  show "read_model (new_from_memory (written 127) new_l2_file) = Inl Assert_failed"
    by (rule wide_clause_unreadable [OF demo_complete demo_to_bin(3), where x = "demo_clauses 127 ! 0"])
      (simp_all add: demo_to_bin(4) demo_clauses_def)
qed (rule demo_to_bin(3))

end
