(* ===== verification/Spec2Isabelle.thy ===== *)
theory Spec2Isabelle
  imports Ltms_Properties Ltms_Findings Slist_Properties Array_Properties Priority_Queue Cdb_Properties
    T_System_Properties Hash_Table_Properties Progress_Properties Bin_Roundtrip
begin

text \<open>
  The diagnosis engine of Livingstone2, a model of the C++ program under \<open>src/mba/cpp\<close>. All file
  names below are relative to that directory.

  \<^bold>\<open>The program.\<close> A system is described by variables with finite domains. Every value of a variable is
  a proposition of a logic-based truth maintenance system (LTMS, \<open>tms/\<close>), which holds clauses,
  propagates units, and explains a violated clause by the clauses it rests on. The conflict
  database (\<open>conflict_db/\<close>) puts variables, assignments and conflicts on top of the LTMS: assigning a
  variable adds the unit clause of the assignment, and a propagation that fails is turned into a
  conflict, a set of assumption assignments that cannot hold together. The search (\<open>opsat/\<close>) looks
  for the candidates of least weight that propagation finds consistent, and the tracker
  (\<open>transition/\<close>) keeps the candidates over time. Lists, arrays and heaps come from
  \<open>mba_utils/\<close> and \<open>opsat/binaryheap.h\<close>.

  \<^bold>\<open>How the model reads the code.\<close> Objects live in one heap per class, a function from addresses
  (natural numbers) to records whose fields are the members of the class; a null pointer is \<open>None\<close>.
  An operation takes the state and returns it updated, in the error monad of \<open>Prelude\<close>: a failed
  \<open>L2_assert\<close> is the exception it raises, a failed \<open>assert\<close> is \<open>Assert_failed\<close>, following a
  pointer that has no value or a freed object is \<open>Bad_pointer\<close>, and \<open>Out_of_fuel\<close> is the value of a loop that is
  given too few rounds. Integers keep their width as words. Listeners, tracing and debug output
  only observe and are left out.

  \<^bold>\<open>Truth maintenance.\<close> \<open>Tms_Clause\<close> (\<open>tms/proposition.h\<close>, \<open>clause.h\<close>, \<open>clause.cpp\<close>), \<open>Ptheory\<close>
  (\<open>tms/ptheory.h\<close>, \<open>ptheory.cpp\<close>, \<open>proposition.cpp\<close>) and \<open>Ltms\<close> (\<open>tms/ltms.h\<close>, \<open>ltms.cpp\<close>)
  are the operations. \<open>Unit_Propagation\<close> is the specification: unit propagation on a set of
  clauses. \<open>Ltms_Clause_Inv\<close>, \<open>Ltms_Steps\<close>, \<open>Ltms_Inv\<close> and \<open>Ltms_Book\<close> hold the invariant (counters,
  flags, satisfiers, fringes, unsatisfied list, acyclic supports); \<open>Ltms_Add_Remove\<close>,
  \<open>Ltms_Propagate\<close>, \<open>Ltms_Partial\<close> and \<open>Ltms_Conflict\<close> show that every operation keeps it and what it
  computes; \<open>Ltms_Destroy\<close> does so for marking and \<open>finish_destroying\<close>. \<open>Ltms_Reach\<close> is a state machine
  whose steps are the public calls that keep the invariant; \<open>partial_propagate\<close>, \<open>move_support\<close> and
  \<open>initialize\<close> are modelled but are no steps, since runs of them in \<open>Ltms_Findings\<close> break it, and
  \<open>finish_destroying\<close> is one when every clause over a marked proposition is marked.
  \<open>Ltms_Properties\<close> holds the properties, over the states these steps reach. The fuel of \<open>propagate\<close> is one more than the number of
  propositions, since every round assigns one; that of the support search one more than
  the number of clauses, since every clause is stamped at most once; the proofs show that no
  reachable state exhausts it.

  \<^bold>\<open>Conflict database.\<close> \<open>Cdb_Objects\<close>, \<open>Conflict_Db\<close> and \<open>Candidates\<close> are the objects and operations
  of \<open>conflict_db/\<close>. \<open>Cdb_Inv\<close> states the invariant \<open>cdb_inv\<close>; \<open>Cdb_Assign\<close>, \<open>Cdb_Create\<close>,
  \<open>Cdb_Assignables\<close>, \<open>Cdb_Conflict\<close> and \<open>Cdb_Diagnosis\<close> show that the operations keep it and what a
  conflict means; \<open>Cdb_Destroy\<close> treats links over time and the destruction of variables. \<open>Cdb_Reach\<close>
  is a state machine whose steps are the calls it lists; not among them are calls on the solver
  itself, \<open>erase_conflicts\<close>, and \<open>destroy_variables\<close> on a part of the list, without clean-up, or on
  variables that are not \<open>destroyable\<close>, so that the states in the middle of a truncation are not
  claimed to be reached. \<open>Cdb_Search\<close> shows what \<open>save\<close> and \<open>restore\<close> do around a search, and \<open>Cdb_Properties\<close> the properties. The fuel of
  \<open>destroy_variables\<close> is the length of the list of variables.

  \<^bold>\<open>Search.\<close> \<open>Agenda\<close> (\<open>opsat/agenda_types.h\<close>, \<open>cbfs_agenda.h\<close>, \<open>cbfs_agenda.cpp\<close>) and \<open>Opsat\<close>
  (\<open>opsat/opsat.h\<close>, \<open>opsat.cpp\<close>, \<open>cbfs_tracker.h\<close>) are the code. \<open>Best_First\<close> is the specification: a
  locale of a best-first search over the subsets of a finite set of assignments, with the order in
  which the candidates come out. \<open>Opsat_Space\<close>, \<open>Opsat_Sim\<close>, \<open>Opsat_Round\<close>, \<open>Opsat_Search\<close>,
  \<open>Opsat_Find\<close>, \<open>Find_Loop\<close> and \<open>Tracker_Search\<close> interpret it on the code's agenda and show, round
  by round, that the code refines it. Every round of the loop of \<open>find_candidates\<close> takes one element from
  the agenda and considers one candidate, so that two rounds more than the limit on the number of
  candidates considered are enough fuel.

  \<^bold>\<open>Transition system and tracker.\<close> \<open>T_System\<close> and \<open>Truncation\<close> (\<open>transition/T_system.h\<close>,
  \<open>T_system.cpp\<close>) are the part of the transition system that does not concern single modes: time
  steps, constraints, trajectories, observations over time, summaries of old conflicts, pruning.
  \<open>Modes\<close> (\<open>transition/transitioned.h\<close>, \<open>transitioned.cpp\<close>) adds the mode variables with their
  prototypes of transitions, \<open>Progress\<close> the operations that move them: minimal, full and planner
  progress, and truncation. A mode has one record in the heap of variables and one in the heap
  \<open>modes\<close>. Loops along the past of a variable have the fuel \<open>chain_fuel\<close>, one more than the number of
  variables ever created, which is enough because a history has no variable twice.
  \<open>Mode_Clauses\<close> shows which clauses the prototypes and idling add, \<open>Mode_History\<close> what copying a
  variable into the past does to its history, \<open>Progress_Properties\<close> what a step does to
  assignments, conflicts and the table of prototypes. \<open>Candidate_Classes\<close> (\<open>CandidateEqClass.h\<close>,
  \<open>CandidateEqClass.cpp\<close>) and \<open>Tracker\<close> (\<open>tracker.h\<close>, \<open>tracker.cpp\<close>, \<open>termination.h\<close>) are the
  tracker; \<open>Tracker_Properties\<close> and \<open>T_System_Properties\<close> hold what is shown of it. The code is that
  of a build with \<open>ENABLE_SUMMARIZE_CONFLICTS\<close>, \<open>ENABLE_CHECKPOINT\<close> and \<open>ENABLE_RECOVERY\<close>. The search theorems assume
  \<open>tracker_ready\<close>, a state a client reaches before a search; each has a witness in such a state.

  \<^bold>\<open>Utilities.\<close> \<open>Slist_Spec\<close>, \<open>Slist\<close>, \<open>Slist_Shape\<close>, \<open>Slist_Loops\<close>, \<open>Slist_Iter\<close>, \<open>Slist_Correct\<close>,
  \<open>Slist_Refine\<close> and \<open>Slist_Properties\<close> refine the linked lists of \<open>mba_utils/slist.h\<close>, cell by cell,
  to lists; \<open>Arrays\<close> and \<open>Array_Properties\<close> do so for \<open>mba_utils/array.h\<close>. \<open>Binary_Heap\<close> is
  \<open>opsat/binaryheap.h\<close> and \<open>Priority_Queue\<close> the contract (a locale) it implements. \<open>Hash_Tables\<close> is
  \<open>mba_utils/hash_table.h\<close> with \<open>hash_table.cpp\<close>, \<open>prime.h\<close> and \<open>array_dict.h\<close>;
  \<open>Hash_Table_Properties\<close> interprets the contract of a dictionary (a locale) on it. The other
  components use lists and arrays by the HOL lists these theories show them to stand for.

  \<^bold>\<open>Model files.\<close> \<open>L2_Files\<close> is the model of a system as the readers build it and the writers take it
  (\<open>readers/L2_file.h\<close> and the classes of its objects); \<open>Bin_Format\<close> is the binary format, the writer
  \<open>readers/to_bin.cpp\<close> with the checks of \<open>xlate_sort_props.cpp\<close> and the reader \<open>from_memory.cpp\<close>, on
  the list of the bytes of a file. \<open>Bin_Numbers\<close> shows what is written and read for one number,
  \<open>Bin_Transfer\<close> the rules by which steps of the writer and the reader compose, \<open>Bin_Objects\<close>,
  \<open>Bin_Sections\<close>, \<open>Bin_Transitions\<close> and \<open>Bin_Header\<close> apply them to the sections, and
  \<open>Bin_Roundtrip\<close> states the round trip for a complete file (all places filled, pointers into the
  file, failures by rank) and the clauses for which it fails. The build is the one without names
  for debugging.

  \<^bold>\<open>Not modelled.\<close> The cover search, the text formats of model files and the translation passes between
  them, loading a model into the transition system, checkpointing, the
  command-line, Java and real-time interfaces, the debuggers, the string utilities and memory
  pools, and the third-party code under \<open>src/support\<close>; the manifest lists each with its reason.
\<close>

end
